(* ===== verification/Prelude.thy ===== *)
theory Prelude imports Main "HOL-Library.Word" begin

text \<open>
  The prelude of the development: the machine integers of \<^verbatim>\<open>os/types.h\<close>, the result type of
  every kernel routine, its sequencing operator and its loop, and the lemmas on words and
  lists that the components share.

  A kernel routine takes the state and returns \<open>Inr\<close> of its results, or \<open>Inl\<close> of the reason
  why it never returns to its caller: the kernel's \<^verbatim>\<open>panic\<close> (which loops for ever), a load or
  store outside the kernel's mapping (whose trap handler panics), a spin loop on a lock
  that nobody releases, or a step that C leaves undefined.
\<close>

unbundle bit_operations_syntax

type_synonym u8 = "8 word"
type_synonym u32 = "32 word"
type_synonym u64 = "64 word"
type_synonym i32 = "32 word"
type_synonym i64 = "64 word"

named_theorems res_simps \<open>sequencing of kernel routines\<close>
named_theorems layout_simps \<open>constants of the memory layout\<close>

section \<open>Results\<close>

datatype halt = Panic string | Page_fault u64 | Spin | Undefined string

fun kbind :: "'e + 'a \<Rightarrow> ('a \<Rightarrow> 'e + 'b) \<Rightarrow> 'e + 'b" where
  "kbind (Inl e) f = Inl e"
| "kbind (Inr x) f = f x"

lemma kbind_cong [fundef_cong]:
  "m = m' \<Longrightarrow> (\<And>x. m' = Inr x \<Longrightarrow> f x = g x) \<Longrightarrow> kbind m f = kbind m' g"
  by (cases m') auto

lemma kbind_Inr_iff [res_simps]:
  "kbind m f = Inr y \<longleftrightarrow> (\<exists>x. m = Inr x \<and> f x = Inr y)"
  by (cases m) auto

lemma kbind_Inl_iff:
  "kbind m f = Inl e \<longleftrightarrow> m = Inl e \<or> (\<exists>x. m = Inr x \<and> f x = Inl e)"
  by (cases m) auto

lemma kbind_assoc: "kbind (kbind m f) g = kbind m (\<lambda>x. kbind (f x) g)"
  by (cases m) auto

lemma kbind_Inr_right [simp]: "kbind m Inr = m"
  by (cases m) auto

lemma kbind_if: "kbind (if b then m else n) f = (if b then kbind m f else kbind n f)"
  by simp

section \<open>Loops over a list of indices\<close>

text \<open>The \<^verbatim>\<open>for\<close> loops over a fixed range run their body on each index in turn.\<close>

fun kfold :: "('i \<Rightarrow> 's \<Rightarrow> 'e + 's) \<Rightarrow> 'i list \<Rightarrow> 's \<Rightarrow> 'e + 's" where
  "kfold f [] s = Inr s"
| "kfold f (i # is) s = kbind (f i s) (kfold f is)"

lemma kfold_append: "kfold f (xs @ ys) s = kbind (kfold f xs s) (kfold f ys)"
proof (induction xs arbitrary: s)
  case Nil
  then show ?case by simp
next
  case (Cons x xs)
  have "kfold f (xs @ ys) = (\<lambda>s. kbind (kfold f xs s) (kfold f ys))"
    by (rule ext) (rule Cons.IH)
  then show ?case by (simp add: kbind_assoc)
qed

lemma kbind_kfold_Nil [simp]: "kbind m (kfold f []) = m"
  by (cases m) auto

lemma kfold_snoc: "kfold f (xs @ [x]) s = kbind (kfold f xs s) (f x)"
  by (cases "kfold f xs s") (simp_all add: kfold_append)

lemma kfold_pure:
  assumes "\<And>i s. i \<in> set is \<Longrightarrow> P s \<Longrightarrow> f i s = Inr (g i s) \<and> P (g i s)" and "P s"
  shows "kfold f is s = Inr (fold g is s) \<and> P (fold g is s)"
  using assms
proof (induction "is" arbitrary: s)
  case Nil
  then show ?case by simp
next
  case (Cons i "is")
  then have "f i s = Inr (g i s)" and "P (g i s)" by simp_all
  moreover have "kfold f is (g i s) = Inr (fold g is (g i s)) \<and> P (fold g is (g i s))"
    using Cons.IH [of "g i s"] Cons.prems(1) \<open>P (g i s)\<close> by simp
  ultimately show ?case by simp
qed

lemma kfold_inv:
  assumes "kfold f is s = Inr s'" and "P s"
    and "\<And>i s s'. i \<in> set is \<Longrightarrow> f i s = Inr s' \<Longrightarrow> P s \<Longrightarrow> P s'"
  shows "P s'"
  using assms
proof (induction "is" arbitrary: s)
  case Nil
  then show ?case by simp
next
  case (Cons i "is")
  from Cons.prems(1) obtain t where "f i s = Inr t" and "kfold f is t = Inr s'"
    by (auto simp: res_simps)
  moreover have "P t" using Cons.prems(2,3) \<open>f i s = Inr t\<close> by auto
  ultimately show ?case using Cons.IH Cons.prems(3) by auto
qed

section \<open>Words\<close>

lemma unat_inj: "unat a = unat b \<Longrightarrow> a = (b :: 'a::len word)"
  by (rule unsigned_word_eqI)

lemma uint_diff_0 [simp]: "uint a - uint b = 0 \<longleftrightarrow> a = (b :: 'a::len word)"
  by (metis eq_iff_diff_eq_0 unsigned_word_eqI)

lemma uint_inject [simp]: "uint a = uint b \<longleftrightarrow> a = (b :: 'a::len word)"
  by (metis unsigned_word_eqI)

lemma unat_less_2p: "unat (x :: 'a::len word) < 2 ^ LENGTH('a)"
  by (rule unsigned_less)

lemma unat_of_nat_small: "n < 2 ^ LENGTH('a) \<Longrightarrow> unat (of_nat n :: 'a::len word) = n"
  by (simp add: unat_of_nat take_bit_nat_eq_self)

lemma word_of_nat_eq_iff_small:
  "m < 2 ^ LENGTH('a) \<Longrightarrow> n < 2 ^ LENGTH('a) \<Longrightarrow> (of_nat m :: 'a::len word) = of_nat n \<longleftrightarrow> m = n"
  by (metis unat_of_nat_small)

lemma eq_add_of_nat_iff:
  fixes x d :: "'a::len word"
  assumes "n < 2 ^ LENGTH('a)"
  shows "x = d + of_nat n \<longleftrightarrow> unat (x - d) = n"
proof
  assume "unat (x - d) = n"
  then have "unat (x - d) = unat (of_nat n :: 'a word)" using assms by (simp add: unat_of_nat_small)
  then have "x - d = of_nat n" by (rule unat_inj)
  then show "x = d + of_nat n" by (simp add: algebra_simps)
qed (simp add: assms unat_of_nat_small)

lemma unat_add_no_wrap:
  "unat a + unat b < 2 ^ LENGTH('a) \<Longrightarrow> unat (a + b) = unat a + unat (b :: 'a::len word)"
  by (simp add: unat_word_ariths)

lemma unat_sub_le: "b \<le> a \<Longrightarrow> unat (a - b) = unat a - unat (b :: 'a::len word)"
  by (simp add: unat_sub)

text \<open>Distances within a part of a range.\<close>

lemma word_sub_less_sub:
  assumes "n \<le> z"
  shows "d - n < z - n \<longleftrightarrow> n \<le> d \<and> d < (z :: 'a::len word)"
proof -
  have "unat z < 2 ^ LENGTH('a)" and nz: "unat n \<le> unat z"
    using assms by (simp_all add: unat_less_2p word_le_nat_alt del: unsigned_less)
  then have "\<not> 2 ^ LENGTH('a) + unat d - unat n < unat z - unat n" by linarith
  then show ?thesis using nz by (auto simp: word_less_nat_alt word_le_nat_alt unat_sub_if' add.commute)
qed

lemma unat_and_mask: "unat (x AND mask n :: 'a::len word) = unat x mod 2 ^ n"
proof -
  have "x AND mask n = take_bit n x" by (simp add: take_bit_eq_mask)
  then have "unat (x AND mask n) = take_bit n (unat x)" by (simp only: unsigned_take_bit_eq)
  then show ?thesis by (simp add: take_bit_eq_mod)
qed

lemma diff_and_mask: "x - (x AND mask n) = x AND NOT (mask n :: 'a::len word)"
proof -
  have "NOT x AND (x AND mask n) = 0" by (rule bit_eqI) (simp add: bit_simps)
  then have "x - (x AND mask n) = x AND NOT (x AND mask n)" by (rule disjunctive_diff_eq_and_not)
  also have "\<dots> = x AND NOT (mask n)" by (rule bit_eqI) (auto simp: bit_simps)
  finally show ?thesis .
qed

lemma unat_and_not_mask: "unat (x AND NOT (mask n) :: 'a::len word) = unat x - unat x mod 2 ^ n"
proof -
  have "x AND mask n \<le> x" by (rule word_and_le2)
  then show ?thesis by (simp add: diff_and_mask [symmetric] unat_sub_le unat_and_mask)
qed

lemma word_bit_below: "x < 2 ^ n \<Longrightarrow> bit (x :: 'a::len word) m \<Longrightarrow> m < n"
  by (metis bit_and_iff bit_mask_iff less_mask_eq)

lemma word_or_add: "a AND b = 0 \<Longrightarrow> a OR b = a + (b :: 'a::len word)"
  by (simp add: disjunctive_add_eq_or)

lemma word_less_2p_iff: "n < LENGTH('a) \<Longrightarrow> (x :: 'a::len word) < 2 ^ n \<longleftrightarrow> drop_bit n x = 0"
proof -
  assume n: "n < LENGTH('a)"
  have "unat (drop_bit n x) = drop_bit n (unat x)" by (rule unat_drop_bit_eq)
  also have "\<dots> = unat x div 2 ^ n" by (rule drop_bit_eq_div)
  finally have "unat (drop_bit n x) = unat x div 2 ^ n" .
  moreover have "drop_bit n x = 0 \<longleftrightarrow> unat (drop_bit n x) = 0" by (rule unat_eq_zero [symmetric])
  ultimately have "drop_bit n x = 0 \<longleftrightarrow> unat x < 2 ^ n" by (simp only: div_eq_0_iff) simp
  moreover have "unat (of_nat (2 ^ n) :: 'a word) = 2 ^ n" by (rule unat_of_nat_small) (simp add: n)
  then have "unat (2 ^ n :: 'a word) = 2 ^ n" by simp
  ultimately show ?thesis by (simp add: word_less_nat_alt)
qed

lemma word_or_less: "n < LENGTH('a) \<Longrightarrow> x < 2 ^ n \<Longrightarrow> y < 2 ^ n \<Longrightarrow> x OR y < (2 ^ n :: 'a::len word)"
  by (simp add: word_less_2p_iff drop_bit_or)

end
