(* ===== verification/Riscv.thy ===== *)
theory Riscv imports Prelude begin

text \<open>
  Constants and macros of \<^verbatim>\<open>os/riscv.h\<close>, \<^verbatim>\<open>os/memlayout.h\<close>, \<^verbatim>\<open>os/vm.h\<close> and
  \<^verbatim>\<open>os/defs.h\<close>: pages and rounding, the Sv39 page-table entry and the three indices of a
  virtual address, the kernel's layout and its two address conversions. The lemmas say what the
  bit twiddling computes: rounding and alignment as arithmetic modulo the page size, the round
  trip of a physical address through a page-table entry, and that the three indices of a user
  page determine it.
\<close>

section \<open>Pages\<close>

definition PGSIZE :: u64 where "PGSIZE = 4096"
definition PGSIZE_2M :: u64 where "PGSIZE_2M = 0x200000"
definition PGSHIFT :: nat where "PGSHIFT = 12"

definition ROUNDUP_2N :: "u64 \<Rightarrow> u64 \<Rightarrow> u64" where
  "ROUNDUP_2N sz base = (sz + base - 1) AND NOT (base - 1)"

definition IS_ALIGNED :: "u64 \<Rightarrow> u64 \<Rightarrow> bool" where
  "IS_ALIGNED a base \<longleftrightarrow> a AND (base - 1) = 0"

definition PGROUNDUP :: "u64 \<Rightarrow> u64" where
  "PGROUNDUP sz = (sz + PGSIZE - 1) AND NOT (PGSIZE - 1)"

definition PGROUNDDOWN :: "u64 \<Rightarrow> u64" where
  "PGROUNDDOWN a = a AND NOT (PGSIZE - 1)"

definition PGALIGNED :: "u64 \<Rightarrow> bool" where
  "PGALIGNED a \<longleftrightarrow> a AND (PGSIZE - 1) = 0"

section \<open>Page-table entries\<close>

definition PTE_V :: u64 where "PTE_V = 1"
definition PTE_R :: u64 where "PTE_R = 2"
definition PTE_W :: u64 where "PTE_W = 4"
definition PTE_X :: u64 where "PTE_X = 8"
definition PTE_U :: u64 where "PTE_U = 16"
definition PTE_G :: u64 where "PTE_G = 32"
definition PTE_A :: u64 where "PTE_A = 64"
definition PTE_D :: u64 where "PTE_D = 128"

definition PA2PTE :: "u64 \<Rightarrow> u64" where "PA2PTE pa = push_bit 10 (drop_bit 12 pa)"
definition PTE2PA :: "u64 \<Rightarrow> u64" where "PTE2PA pte = push_bit 12 (drop_bit 10 pte)"
definition PTE_FLAGS :: "u64 \<Rightarrow> u64" where "PTE_FLAGS pte = pte AND 0x3FF"

definition PXMASK :: u64 where "PXMASK = 0x1FF"
definition PXSHIFT :: "nat \<Rightarrow> nat" where "PXSHIFT level = PGSHIFT + 9 * level"
definition PX :: "nat \<Rightarrow> u64 \<Rightarrow> u64" where "PX level va = drop_bit (PXSHIFT level) va AND PXMASK"

definition MAKE_PTE :: "u64 \<Rightarrow> u64 \<Rightarrow> u64" where "MAKE_PTE pa flags = PA2PTE pa OR (flags OR PTE_V)"

definition SATP_SV39 :: u64 where "SATP_SV39 = push_bit 60 8"
definition MAKE_SATP :: "u64 \<Rightarrow> u64" where "MAKE_SATP pagetable = SATP_SV39 OR drop_bit 12 pagetable"
definition SATP_TO_PGTABLE :: "u64 \<Rightarrow> u64" where
  "SATP_TO_PGTABLE satp = push_bit PGSHIFT (satp AND (push_bit 44 1 - 1))"

definition MAXVA :: u64 where "MAXVA = push_bit (9 + 9 + 9 + 12 - 1) 1"

section \<open>The kernel's layout\<close>

definition KERNEL_VIRT_BASE :: u64 where "KERNEL_VIRT_BASE = 0xffffffff80200000"
definition KERNEL_PHYS_BASE :: u64 where "KERNEL_PHYS_BASE = 0x80200000"
definition KERNEL_OFFSET :: u64 where "KERNEL_OFFSET = KERNEL_VIRT_BASE - KERNEL_PHYS_BASE"
definition KERNEL_DIRECT_MAPPING_BASE :: u64 where
  "KERNEL_DIRECT_MAPPING_BASE = 0xffffffc000000000"
definition KERNEL_STACK_SIZE :: u64 where "KERNEL_STACK_SIZE = 2 * PGSIZE"
definition USER_TOP :: u64 where "USER_TOP = MAXVA"
definition TRAMPOLINE :: u64 where "TRAMPOLINE = USER_TOP - PGSIZE"
definition TRAPFRAME :: u64 where "TRAPFRAME = TRAMPOLINE - PGSIZE"

definition KVA_TO_PA :: "u64 \<Rightarrow> u64" where "KVA_TO_PA x = x - KERNEL_DIRECT_MAPPING_BASE"
definition PA_TO_KVA :: "u64 \<Rightarrow> u64" where "PA_TO_KVA x = x + KERNEL_DIRECT_MAPPING_BASE"
definition KIVA_TO_PA :: "u64 \<Rightarrow> u64" where "KIVA_TO_PA x = x - KERNEL_OFFSET"
definition PA_TO_KIVA :: "u64 \<Rightarrow> u64" where "PA_TO_KIVA x = x + KERNEL_OFFSET"
definition IS_USER_VA :: "u64 \<Rightarrow> bool" where "IS_USER_VA x \<longleftrightarrow> x \<le> MAXVA"

definition NCPU :: nat where "NCPU = 4"
definition NPROC :: nat where "NPROC = 512"

lemmas layout_defs [layout_simps] =
  PGSIZE_def PGSIZE_2M_def PGSHIFT_def MAXVA_def KERNEL_VIRT_BASE_def KERNEL_PHYS_BASE_def
  KERNEL_OFFSET_def KERNEL_DIRECT_MAPPING_BASE_def KERNEL_STACK_SIZE_def USER_TOP_def
  TRAMPOLINE_def TRAPFRAME_def

lemmas pte_flag_defs [layout_simps] =
  PTE_V_def PTE_R_def PTE_W_def PTE_X_def PTE_U_def PTE_G_def PTE_A_def PTE_D_def

section \<open>Rounding and alignment\<close>

lemma pgsize_mask: "PGSIZE - 1 = mask 12"
  by (simp add: PGSIZE_def mask_eq_exp_minus_1)

lemma unat_PGSIZE [simp]: "unat PGSIZE = 4096"
  by (simp add: PGSIZE_def)

lemma PGALIGNED_iff: "PGALIGNED a \<longleftrightarrow> unat a mod 4096 = 0"
proof -
  have "a AND mask 12 = 0 \<longleftrightarrow> unat (a AND mask 12) = 0" by (simp add: unat_eq_zero)
  then show ?thesis by (simp add: PGALIGNED_def pgsize_mask unat_and_mask)
qed

lemma PGALIGNED_0 [simp]: "PGALIGNED 0"
  by (simp add: PGALIGNED_def)

lemma unat_PGROUNDDOWN: "unat (PGROUNDDOWN a) = unat a - unat a mod 4096"
  by (simp add: PGROUNDDOWN_def pgsize_mask unat_and_not_mask)

lemma PGROUNDDOWN_offset: "a - PGROUNDDOWN a = a AND mask 12"
  by (simp add: PGROUNDDOWN_def pgsize_mask diff_and_mask [symmetric])

lemma PGALIGNED_PGROUNDDOWN [simp]: "PGALIGNED (PGROUNDDOWN a)"
  by (simp add: PGALIGNED_iff unat_PGROUNDDOWN)

lemma PGROUNDDOWN_le: "PGROUNDDOWN a \<le> a"
  by (simp add: word_le_nat_alt unat_PGROUNDDOWN)

lemma unat_page_offset: "unat (a - PGROUNDDOWN a) = unat a mod 4096"
  by (simp add: PGROUNDDOWN_offset unat_and_mask)

lemma page_offset_less: "a - PGROUNDDOWN a < PGSIZE"
  by (simp add: word_less_nat_alt unat_page_offset)

lemma PGROUNDDOWN_aligned: "PGALIGNED a \<Longrightarrow> PGROUNDDOWN a = a"
  by (rule unat_inj) (simp add: PGALIGNED_iff unat_PGROUNDDOWN)

lemma PGALIGNED_room: "PGALIGNED a \<Longrightarrow> unat a + 4096 \<le> 2 ^ 64"
proof -
  assume "PGALIGNED a"
  then obtain k where k: "unat a = 4096 * k" by (auto simp: PGALIGNED_iff)
  have "unat a < 2 ^ 64" using unsigned_less [of a] by simp
  then show ?thesis using k by simp
qed

lemma unat_page_add:
  assumes "PGALIGNED a" and "k < PGSIZE"
  shows "unat (a + k) = unat a + unat k"
  by (rule unat_add_no_wrap)
    (use PGALIGNED_room [OF assms(1)] assms(2) in \<open>simp add: word_less_nat_alt\<close>)

lemma PGROUNDDOWN_add_small:
  assumes "PGALIGNED a" and "k < PGSIZE"
  shows "PGROUNDDOWN (a + k) = a"
proof (rule unat_inj)
  have "unat k < 4096" using assms(2) by (simp add: word_less_nat_alt)
  moreover have "unat a mod 4096 = 0" using assms(1) by (simp add: PGALIGNED_iff)
  ultimately show "unat (PGROUNDDOWN (a + k)) = unat a"
    by (simp add: unat_PGROUNDDOWN unat_page_add [OF assms] mod_add_eq [symmetric, of "unat a"])
qed

lemma unat_add_mod_page: "unat (a + b :: u64) mod 4096 = (unat a + unat b) mod 4096"
proof -
  have "(4096 :: nat) dvd 18446744073709551616" by simp
  then have "x mod 18446744073709551616 mod 4096 = x mod (4096 :: nat)" for x
    by (rule mod_mod_cancel)
  then show ?thesis by (simp add: unat_word_ariths)
qed

lemma PGALIGNED_add_iff: "PGALIGNED b \<Longrightarrow> PGALIGNED (a + b) \<longleftrightarrow> PGALIGNED a"
proof -
  assume "PGALIGNED b"
  then have "(unat a + unat b) mod 4096 = unat a mod 4096"
    by (metis PGALIGNED_iff add_0_right mod_add_right_eq)
  then show ?thesis by (simp only: PGALIGNED_iff unat_add_mod_page)
qed

lemma PGALIGNED_add: "PGALIGNED a \<Longrightarrow> PGALIGNED b \<Longrightarrow> PGALIGNED (a + b)"
  by (simp add: PGALIGNED_add_iff)

lemma PGALIGNED_PGSIZE [simp]: "PGALIGNED PGSIZE"
  by (simp add: PGALIGNED_iff)

lemma PGALIGNED_step: "PGALIGNED a \<Longrightarrow> PGALIGNED (a + PGSIZE)"
  by (simp add: PGALIGNED_add)

lemma PGALIGNED_pages_apart:
  assumes "PGALIGNED a" and "PGALIGNED b" and "a \<noteq> b" and "k < PGSIZE" and "j < PGSIZE"
  shows "a + k \<noteq> b + j"
  using PGROUNDDOWN_add_small assms by metis

section \<open>Physical and direct-mapped addresses\<close>

lemma PA_KVA_inverse [simp]: "PA_TO_KVA (KVA_TO_PA x) = x" "KVA_TO_PA (PA_TO_KVA x) = x"
  by (simp_all add: PA_TO_KVA_def KVA_TO_PA_def)

lemma PA_TO_KVA_inject [simp]: "PA_TO_KVA x = PA_TO_KVA y \<longleftrightarrow> x = y"
  by (simp add: PA_TO_KVA_def)

lemma KVA_TO_PA_inject [simp]: "KVA_TO_PA x = KVA_TO_PA y \<longleftrightarrow> x = y"
  by (simp add: KVA_TO_PA_def)

lemma PGALIGNED_KDMB: "PGALIGNED KERNEL_DIRECT_MAPPING_BASE"
  by (simp add: PGALIGNED_iff layout_simps)

lemma PGALIGNED_PA_TO_KVA [simp]: "PGALIGNED (PA_TO_KVA x) \<longleftrightarrow> PGALIGNED x"
  by (simp add: PA_TO_KVA_def PGALIGNED_add_iff PGALIGNED_KDMB)

lemma PGALIGNED_KVA_TO_PA [simp]: "PGALIGNED (KVA_TO_PA x) \<longleftrightarrow> PGALIGNED x"
  using PGALIGNED_PA_TO_KVA [of "KVA_TO_PA x"] by simp

section \<open>Page-table entries\<close>

lemma PTE2PA_aligned [simp]: "PGALIGNED (PTE2PA pte)"
  by (auto simp: PGALIGNED_def pgsize_mask PTE2PA_def bit_eq_iff bit_simps)

lemma PTE2PA_MAKE:
  assumes "PGALIGNED pa" and "f < 1024"
  shows "PTE2PA (PA2PTE pa OR f) = pa"
proof -
  have pa: "pa AND mask 12 = 0" using assms(1) by (simp add: PGALIGNED_def pgsize_mask)
  have f: "bit f m \<Longrightarrow> m < 10" for m
    by (rule word_bit_below [of f]) (use assms(2) in simp)
  show ?thesis
  proof (rule bit_eqI)
    fix n assume n: "possible_bit TYPE(64 word) n"
    show "bit (PTE2PA (PA2PTE pa OR f)) n = bit pa n"
    proof (cases "n < 12")
      case True
      then have "\<not> bit pa n"
        using pa by (metis bit_and_iff bit_mask_iff bit_0_eq bot_fun_def bot_bool_def n)
      with True show ?thesis by (simp add: PTE2PA_def bit_simps)
    next
      case False
      moreover have "\<not> bit f (10 + (n - 12))" using f by fastforce
      moreover have "12 + (n - 12) = n" and "10 \<le> n - 2" and "12 \<le> n" using False by simp_all
      ultimately show ?thesis using n by (auto simp: PTE2PA_def PA2PTE_def bit_simps)
    qed
  qed
qed

lemma PXMASK_mask: "PXMASK = mask 9"
  by (simp add: PXMASK_def mask_eq_exp_minus_1)

lemma PX_less: "PX l va < 512"
proof -
  have "unat (PX l va) < 512" by (simp add: PX_def PXMASK_mask unat_and_mask)
  then show ?thesis by (simp add: word_less_nat_alt)
qed

lemma bit_PX: "bit (PX l va) n \<longleftrightarrow> n < 9 \<and> bit va (12 + 9 * l + n)"
proof -
  have "n < 9 \<Longrightarrow> n < 64" by simp
  then show ?thesis
    by (auto simp: PX_def PXMASK_mask PXSHIFT_def PGSHIFT_def bit_simps)
qed

lemma PX_determines_page:
  assumes "PGALIGNED va" and "PGALIGNED va'" and "va < 2 ^ 39" and "va' < 2 ^ 39"
    and "PX 2 va = PX 2 va'" and "PX 1 va = PX 1 va'" and "PX 0 va = PX 0 va'"
  shows "va = va'"
proof (rule bit_eqI)
  fix n assume n: "possible_bit TYPE(64 word) n"
  have low: "\<not> bit x n" if "PGALIGNED x" and "n < 12" for x
    using that n
    by (metis PGALIGNED_def pgsize_mask bit_and_iff bit_mask_iff bit_0_eq bot_fun_def bot_bool_def)
  have high: "\<not> bit x n" if "x < 2 ^ 39" and "39 \<le> n" for x :: u64
    using word_bit_below that by fastforce
  have lvl: "bit va (12 + 9 * l + k) = bit va' (12 + 9 * l + k)" if "PX l va = PX l va'" and "k < 9" for l k
    using that bit_PX by metis
  consider "n < 12" | "12 \<le> n" "n < 21" | "21 \<le> n" "n < 30" | "30 \<le> n" "n < 39" | "39 \<le> n"
    by linarith
  then show "bit va n = bit va' n"
  proof cases
    case 1
    then show ?thesis using low assms(1,2) by simp
  next
    case 2
    then show ?thesis using lvl [OF assms(7), of "n - 12"] by simp
  next
    case 3
    then show ?thesis using lvl [OF assms(6), of "n - 21"] by simp
  next
    case 4
    then show ?thesis using lvl [OF assms(5), of "n - 30"] by simp
  next
    case 5
    then show ?thesis using high assms(3,4) by simp
  qed
qed

lemma IS_USER_VA_less: "IS_USER_VA va \<Longrightarrow> va < 2 ^ 39"
  by (simp add: IS_USER_VA_def MAXVA_def word_le_nat_alt word_less_nat_alt)

end
