(* ===== verification/Lock.thy ===== *)
theory Lock imports Riscv begin

text \<open>
  \<^verbatim>\<open>os/lock.c\<close>, \<^verbatim>\<open>os/smp.c\<close> and the per-CPU part of \<^verbatim>\<open>os/proc.h\<close>: the CPU structures, the
  supervisor interrupt enable bit of each hart, \<^verbatim>\<open>push_off\<close> / \<^verbatim>\<open>pop_off\<close>, and the spin locks as one CPU
  executes them. The lock's debugging fields \<^verbatim>\<open>name\<close> and \<^verbatim>\<open>where\<close> are left out. A lock is named
  by a value of a type parameter, so that the kernel state can choose its own names.

  The first lemmas give the effect of \<^verbatim>\<open>acquire\<close> and \<^verbatim>\<open>release\<close> as the two state changes
  \<open>take_lock\<close> and \<open>drop_lock\<close>; the locale \<open>mutex\<close> is the contract the other components use;
  the theory \<^verbatim>\<open>Spinlock\<close> has the same code with every memory access a separate step.
\<close>

section \<open>Per-CPU state and the lock\<close>

text \<open>
  \<^verbatim>\<open>struct cpu\<close>, with the hart's own \<^verbatim>\<open>sstatus.SIE\<close> bit beside it. A process is named by its
  index in \<^verbatim>\<open>pool\<close>. The saved register context of the scheduler is not part of the model.
\<close>

record cpu =
  c_mhart_id :: nat
  c_proc :: "nat option"
  c_inkernel_trap :: bool
  c_noff :: int
  c_interrupt_on :: bool
  c_sie :: bool

record spinlock =
  locked :: bool
  lk_cpu :: "nat option"

record 'l smp =
  cpus :: "nat \<Rightarrow> cpu"
  locks :: "'l \<Rightarrow> spinlock"
  tp :: nat

definition spinlock_init :: spinlock where
  "spinlock_init = \<lparr>locked = False, lk_cpu = None\<rparr>"

abbreviation this_cpu :: "'l smp \<Rightarrow> cpu" where
  "this_cpu m \<equiv> cpus m (tp m)"

definition upd_cpu :: "(cpu \<Rightarrow> cpu) \<Rightarrow> 'l smp \<Rightarrow> 'l smp" where
  "upd_cpu f m = m\<lparr>cpus := (cpus m)(tp m := f (cpus m (tp m)))\<rparr>"

definition mycpu :: "'l smp \<Rightarrow> halt + nat" where
  "mycpu m = (if tp m < NCPU then Inr (tp m) else Inl (Panic ''assertion failed: id >= 0 && id < NCPU''))"

definition getcpu :: "nat \<Rightarrow> 'l smp \<Rightarrow> halt + cpu" where
  "getcpu i m = (if i < NCPU then Inr (cpus m i) else Inl (Panic ''assertion failed: i >= 0 && i < NCPU''))"

definition intr_get :: "'l smp \<Rightarrow> bool" where "intr_get m = c_sie (this_cpu m)"
definition intr_on :: "'l smp \<Rightarrow> 'l smp" where "intr_on = upd_cpu (\<lambda>k. k\<lparr>c_sie := True\<rparr>)"
definition intr_off :: "'l smp \<Rightarrow> 'l smp" where "intr_off = upd_cpu (\<lambda>k. k\<lparr>c_sie := False\<rparr>)"

section \<open>The operations\<close>

definition push_off :: "'l smp \<Rightarrow> halt + 'l smp" where
  "push_off m =
     (let old = intr_get m; m = intr_off m in
      kbind (mycpu m) (\<lambda>_.
      let m = (if c_noff (this_cpu m) = 0 then upd_cpu (\<lambda>k. k\<lparr>c_interrupt_on := old\<rparr>) m else m) in
      Inr (upd_cpu (\<lambda>k. k\<lparr>c_noff := c_noff k + 1\<rparr>) m)))"

definition pop_off :: "'l smp \<Rightarrow> halt + 'l smp" where
  "pop_off m =
     kbind (mycpu m) (\<lambda>_.
     if intr_get m then Inl (Panic ''pop_off - interruptible'')
     else if c_noff (this_cpu m) < 1 then Inl (Panic ''pop_off - unpair'')
     else
       let m = upd_cpu (\<lambda>k. k\<lparr>c_noff := c_noff k - 1\<rparr>) m in
       if c_noff (this_cpu m) = 0 \<and> c_interrupt_on (this_cpu m) then
         if c_inkernel_trap (this_cpu m) then Inl (Panic ''pop_off->intr_on happens in kernel trap'')
         else Inr (intr_on m)
       else Inr m)"

definition holding :: "'l \<Rightarrow> 'l smp \<Rightarrow> halt + bool" where
  "holding l m =
     (if locked (locks m l) then kbind (mycpu m) (\<lambda>c. Inr (lk_cpu (locks m l) = Some c))
      else Inr False)"

text \<open>
  The spin loop ends at once when the lock is free. When another CPU holds it, one CPU alone
  spins for ever: that outcome is \<open>Spin\<close>.
\<close>

definition acquire :: "'l \<Rightarrow> 'l smp \<Rightarrow> halt + 'l smp" where
  "acquire l m =
     kbind (push_off m) (\<lambda>m.
     kbind (holding l m) (\<lambda>h.
     if h then Inl (Panic ''already acquired'')
     else if locked (locks m l) then Inl Spin
     else
       let m = m\<lparr>locks := (locks m)(l := (locks m l)\<lparr>locked := True\<rparr>)\<rparr> in
       kbind (mycpu m) (\<lambda>c.
       Inr (m\<lparr>locks := (locks m)(l := (locks m l)\<lparr>lk_cpu := Some c\<rparr>)\<rparr>))))"

definition release :: "'l \<Rightarrow> 'l smp \<Rightarrow> halt + 'l smp" where
  "release l m =
     kbind (holding l m) (\<lambda>h.
     if \<not> h then Inl (Panic ''release'')
     else
       let m = m\<lparr>locks := (locks m)(l := (locks m l)\<lparr>lk_cpu := None\<rparr>)\<rparr>;
           m = m\<lparr>locks := (locks m)(l := (locks m l)\<lparr>locked := False\<rparr>)\<rparr> in
       pop_off m)"

section \<open>What acquire and release do\<close>

definition take_lock :: "'l \<Rightarrow> 'l smp \<Rightarrow> 'l smp" where
  "take_lock l m =
     m\<lparr>cpus := (cpus m)(tp m := (this_cpu m)\<lparr>
          c_sie := False,
          c_interrupt_on := (if c_noff (this_cpu m) = 0 then c_sie (this_cpu m)
                             else c_interrupt_on (this_cpu m)),
          c_noff := c_noff (this_cpu m) + 1\<rparr>),
       locks := (locks m)(l := \<lparr>locked = True, lk_cpu = Some (tp m)\<rparr>)\<rparr>"

text \<open>
  The only trace a finished critical section leaves is the remembered interrupt flag, which
  means nothing while no lock is held.
\<close>

definition settle :: "'l smp \<Rightarrow> 'l smp" where
  "settle m = m\<lparr>cpus := (cpus m)(tp m := (this_cpu m)\<lparr>
      c_interrupt_on := (if c_noff (this_cpu m) = 0 then c_sie (this_cpu m)
                         else c_interrupt_on (this_cpu m))\<rparr>)\<rparr>"

definition lock_free :: "'l \<Rightarrow> 'l smp \<Rightarrow> bool" where
  "lock_free l m \<longleftrightarrow> locks m l = spinlock_init"

definition cpu_ready :: "'l smp \<Rightarrow> bool" where
  "cpu_ready m \<longleftrightarrow> tp m < NCPU \<and> 0 \<le> c_noff (this_cpu m) \<and>
     (0 < c_noff (this_cpu m) \<longrightarrow> \<not> c_sie (this_cpu m)) \<and>
     (c_sie (this_cpu m) \<longrightarrow> \<not> c_inkernel_trap (this_cpu m))"

lemmas cpu_ops = upd_cpu_def intr_get_def intr_on_def intr_off_def mycpu_def

lemma acquire_free:
  assumes "cpu_ready m" and "lock_free l m"
  shows "acquire l m = Inr (take_lock l m)"
  using assms
  by (simp add: acquire_def push_off_def holding_def cpu_ops take_lock_def cpu_ready_def
      lock_free_def spinlock_init_def Let_def)

lemma release_taken:
  assumes "cpu_ready m" and "lock_free l m"
  shows "release l (take_lock l m) = Inr (settle m)"
  using assms
proof (cases m)
  case (fields cs ls c)
  obtain h p k n i e where "cs c = \<lparr>c_mhart_id = h, c_proc = p, c_inkernel_trap = k, c_noff = n,
      c_interrupt_on = i, c_sie = e\<rparr>"
    by (cases "cs c")
  with fields assms show ?thesis
    by (auto simp: release_def pop_off_def holding_def cpu_ops take_lock_def settle_def cpu_ready_def
        lock_free_def spinlock_init_def Let_def fun_upd_idem)
qed

lemma take_lock_swap: "l \<noteq> l' \<Longrightarrow> take_lock l (take_lock l' m) = take_lock l' (take_lock l m)"
  by (simp add: take_lock_def fun_upd_twist)

lemma lock_free_take [simp]: "lock_free l (take_lock l' m) \<longleftrightarrow> l \<noteq> l' \<and> lock_free l m"
  by (auto simp: lock_free_def take_lock_def spinlock_init_def)

lemma lock_free_settle [simp]: "lock_free l (settle m) = lock_free l m"
  by (simp add: lock_free_def settle_def)

lemma cpu_ready_take [simp]: "cpu_ready m \<Longrightarrow> cpu_ready (take_lock l m)"
  by (simp add: cpu_ready_def take_lock_def)

lemma cpu_ready_settle [simp]: "cpu_ready (settle m) = cpu_ready m"
  by (simp add: cpu_ready_def settle_def)

lemma settle_settle [simp]: "settle (settle m) = settle m"
  by (simp add: settle_def)

lemma settle_take [simp]: "0 \<le> c_noff (this_cpu m) \<Longrightarrow> settle (take_lock l m) = take_lock l m"
  by (cases m; cases "this_cpu m") (simp add: settle_def take_lock_def)

lemma take_settle [simp]: "take_lock l (settle m) = take_lock l m"
  by (simp add: settle_def take_lock_def)

lemma tp_take [simp]: "tp (take_lock l m) = tp m" and tp_settle [simp]: "tp (settle m) = tp m"
  by (simp_all add: take_lock_def settle_def)

section \<open>Misuse\<close>

text \<open>C2. The owner check of \<^verbatim>\<open>lock.c\<close>, for every state of a lock. \<^verbatim>\<open>acquire\<close> takes a free lock, panics on one that
  this CPU owns and spins on one that another CPU owns; \<^verbatim>\<open>release\<close> panics on every lock that this CPU does
  not own, also when another CPU holds it.\<close>

theorem lock_owner_check:
  assumes "cpu_ready m"
  shows "acquire l m =
      (if \<not> locked (locks m l) then Inr (take_lock l m)
       else if lk_cpu (locks m l) = Some (tp m) then Inl (Panic ''already acquired'') else Inl Spin) \<and>
    (\<not> (locked (locks m l) \<and> lk_cpu (locks m l) = Some (tp m)) \<longrightarrow> release l m = Inl (Panic ''release''))"
proof -
  have "(x :: spinlock)\<lparr>locked := True, lk_cpu := c\<rparr> = \<lparr>locked = True, lk_cpu = c\<rparr>"
    and "(x :: spinlock)\<lparr>lk_cpu := c, locked := True\<rparr> = \<lparr>locked = True, lk_cpu = c\<rparr>" for x c
    by (cases x, simp)+
  note lock_updates = this
  from assms show ?thesis
    by (auto simp: lock_updates acquire_def release_def push_off_def holding_def cpu_ops take_lock_def cpu_ready_def Let_def)
qed

section \<open>The contract\<close>

text \<open>
  The contract a client of the locks relies on: a free lock can be taken, taking it makes it and
  nothing else unavailable, releasing it, in any order, undoes exactly the taking, and the two
  kinds of misuse panic. \<open>after\<close> names the state in which one more lock is held.
\<close>

locale mutex =
  fixes acq rel :: "'l \<Rightarrow> 'm \<Rightarrow> halt + 'm"
    and after :: "'l \<Rightarrow> 'm \<Rightarrow> 'm"
    and rest :: "'m \<Rightarrow> 'm"
    and free :: "'l \<Rightarrow> 'm \<Rightarrow> bool"
    and ready :: "'m \<Rightarrow> bool"
  assumes acq_free: "ready m \<Longrightarrow> free l m \<Longrightarrow> acq l m = Inr (after l m)"
    and rel_after: "ready m \<Longrightarrow> free l m \<Longrightarrow> rel l (after l m) = Inr (rest m)"
    and acq_held: "ready m \<Longrightarrow> free l m \<Longrightarrow> \<exists>e. acq l (after l m) = Inl (Panic e)"
    and rel_free: "ready m \<Longrightarrow> free l m \<Longrightarrow> \<exists>e. rel l m = Inl (Panic e)"
    and after_swap: "l \<noteq> l' \<Longrightarrow> after l (after l' m) = after l' (after l m)"
    and after_rest: "after l (rest m) = after l m"
    and rest_after: "ready m \<Longrightarrow> rest (after l m) = after l m"
    and rest_rest: "rest (rest m) = rest m"
    and free_after: "free l (after l' m) \<longleftrightarrow> l \<noteq> l' \<and> free l m"
    and free_rest: "free l (rest m) \<longleftrightarrow> free l m"
    and ready_after: "ready m \<Longrightarrow> ready (after l m)"
    and ready_rest: "ready (rest m) \<longleftrightarrow> ready m"
begin

text \<open>The state in which all locks of a list are held.\<close>

lemma ready_fold: "ready m \<Longrightarrow> ready (fold after ls m)"
  by (induction ls arbitrary: m) (simp_all add: ready_after)

lemma free_fold: "free l (fold after ls m) \<longleftrightarrow> l \<notin> set ls \<and> free l m"
  by (induction ls arbitrary: m) (auto simp: free_after)

lemma fold_after_front: "l \<notin> set ls \<Longrightarrow> fold after ls (after l m) = after l (fold after ls m)"
  by (induction ls arbitrary: m) (auto, metis after_swap)

lemma fold_after_remove1:
  "l \<in> set ls \<Longrightarrow> distinct ls \<Longrightarrow> fold after ls m = after l (fold after (remove1 l ls) m)"
  by (induction ls arbitrary: m) (auto simp: fold_after_front, metis after_swap)

lemma rest_fold: "ready m \<Longrightarrow> ls \<noteq> [] \<Longrightarrow> rest (fold after ls m) = fold after ls m"
  by (induction ls rule: rev_induct) (simp_all add: rest_after ready_fold)

lemma acq_fold:
  assumes "ready m" and "free l m" and "l \<notin> set ls"
  shows "acq l (fold after ls m) = Inr (fold after (ls @ [l]) m)"
  using assms by (simp add: acq_free ready_fold free_fold)

lemma acq_fold_held:
  assumes "ready m" and "free l m" and "l \<in> set ls" and "distinct ls"
  shows "\<exists>e. acq l (fold after ls m) = Inl (Panic e)"
  unfolding fold_after_remove1 [OF assms(3,4)]
  by (rule acq_held) (use assms in \<open>simp_all add: ready_fold free_fold\<close>)

lemma rel_fold:
  assumes "ready m" and "free l m" and "l \<in> set ls" and "distinct ls"
  shows "rel l (fold after ls m) = Inr (rest (fold after (remove1 l ls) m))"
  unfolding fold_after_remove1 [OF assms(3,4)]
  by (rule rel_after) (use assms in \<open>simp_all add: ready_fold free_fold\<close>)

lemma rel_fold_free:
  assumes "ready m" and "free l m" and "l \<notin> set ls"
  shows "\<exists>e. rel l (fold after ls m) = Inl (Panic e)"
  by (rule rel_free) (use assms in \<open>simp_all add: ready_fold free_fold\<close>)

end

lemma take_lock_misuse:
  assumes "cpu_ready m" and "lock_free l m"
  shows "\<exists>e. acquire l (take_lock l m) = Inl (Panic e)" and "\<exists>e. release l m = Inl (Panic e)"
  using assms
  by (auto simp: acquire_def release_def push_off_def holding_def cpu_ops take_lock_def cpu_ready_def
      lock_free_def spinlock_init_def Let_def)

interpretation lk: mutex acquire release take_lock settle lock_free cpu_ready
  by unfold_locales
    (simp_all add: acquire_free release_taken take_lock_misuse take_lock_swap, simp add: cpu_ready_def)

section \<open>Sequences of acquire and release\<close>

datatype 'l lock_op = Acq 'l | Rel 'l

fun run_lock_ops :: "'l lock_op list \<Rightarrow> 'l smp \<Rightarrow> halt + 'l smp" where
  "run_lock_ops [] m = Inr m"
| "run_lock_ops (Acq l # ops) m = kbind (acquire l m) (run_lock_ops ops)"
| "run_lock_ops (Rel l # ops) m = kbind (release l m) (run_lock_ops ops)"

text \<open>The specification: the set of locks held, or \<open>None\<close> after a misuse.\<close>

fun held_after :: "'l lock_op list \<Rightarrow> 'l set \<Rightarrow> 'l set option" where
  "held_after [] H = Some H"
| "held_after (Acq l # ops) H = (if l \<in> H then None else held_after ops (insert l H))"
| "held_after (Rel l # ops) H = (if l \<in> H then held_after ops (H - {l}) else None)"

definition lock_view :: "'l smp \<Rightarrow> 'l set \<Rightarrow> 'l smp \<Rightarrow> bool" where
  "lock_view m0 H m \<longleftrightarrow>
     (\<exists>ls m1. distinct ls \<and> set ls = H \<and> settle m1 = settle m0 \<and> m = fold take_lock ls m1)"

lemma settle_eq_transfer:
  assumes "settle m1 = settle m0"
  shows "cpu_ready m1 = cpu_ready m0" and "lock_free l m1 = lock_free l m0"
  using assms by (metis cpu_ready_settle, metis lock_free_settle)

lemma lock_view_acquire:
  assumes "lock_view m0 H m" and "cpu_ready m0" and "lock_free l m0"
  shows "if l \<in> H then \<exists>e. acquire l m = Inl (Panic e)
         else \<exists>m'. acquire l m = Inr m' \<and> lock_view m0 (insert l H) m'"
proof -
  obtain ls m1 where v: "distinct ls" "set ls = H" "settle m1 = settle m0" "m = fold take_lock ls m1"
    using assms(1) unfolding lock_view_def by auto
  note t = settle_eq_transfer [OF v(3)]
  show ?thesis
  proof (cases "l \<in> H")
    case True
    with v t assms show ?thesis using lk.acq_fold_held [of m1 l ls] by simp
  next
    case False
    then have "acquire l m = Inr (fold take_lock (ls @ [l]) m1)"
      using v t assms lk.acq_fold [of m1 l ls] by simp
    moreover have "distinct (ls @ [l]) \<and> set (ls @ [l]) = insert l H" using v False by auto
    ultimately show ?thesis using v(3) False unfolding lock_view_def by metis
  qed
qed

lemma lock_view_release:
  assumes "lock_view m0 H m" and "cpu_ready m0" and "lock_free l m0"
  shows "if l \<in> H then \<exists>m'. release l m = Inr m' \<and> lock_view m0 (H - {l}) m'
         else \<exists>e. release l m = Inl (Panic e)"
proof -
  obtain ls m1 where v: "distinct ls" "set ls = H" "settle m1 = settle m0" "m = fold take_lock ls m1"
    using assms(1) unfolding lock_view_def by auto
  note t = settle_eq_transfer [OF v(3)]
  show ?thesis
  proof (cases "l \<in> H")
    case False
    with v t assms show ?thesis using lk.rel_fold_free [of m1 l ls] by simp
  next
    case True
    define ks where "ks = remove1 l ls"
    have ks: "distinct ks" "set ks = H - {l}" using v by (auto simp: ks_def)
    have r: "release l m = Inr (settle (fold take_lock ks m1))"
      using v t assms True lk.rel_fold [of m1 l ls] by (simp add: ks_def)
    have "lock_view m0 (H - {l}) (settle (fold take_lock ks m1))"
    proof (cases "ks = []")
      case True
      then show ?thesis unfolding lock_view_def using ks v(3)
        by (intro exI [of _ "[]"] exI [of _ "settle m1"]) simp
    next
      case False
      then have "settle (fold take_lock ks m1) = fold take_lock ks m1"
        using lk.rest_fold t assms by simp
      then show ?thesis unfolding lock_view_def using ks v(3) by auto
    qed
    with r True show ?thesis by simp
  qed
qed

lemma lock_view_run:
  assumes "cpu_ready m0" and "\<And>l. lock_free l m0" and "lock_view m0 H m"
  shows "case held_after ops H of
           None \<Rightarrow> \<exists>e. run_lock_ops ops m = Inl (Panic e)
         | Some H' \<Rightarrow> \<exists>m'. run_lock_ops ops m = Inr m' \<and> lock_view m0 H' m'"
  using assms(3)
proof (induction ops arbitrary: H m)
  case Nil
  then show ?case by simp
next
  case (Cons x ops)
  show ?case
  proof (cases x)
    case (Acq l)
    note step = lock_view_acquire [OF Cons.prems assms(1,2), of l]
    show ?thesis
    proof (cases "l \<in> H")
      case True
      with step Acq show ?thesis by auto
    next
      case False
      with step obtain m' where "acquire l m = Inr m'" and "lock_view m0 (insert l H) m'" by auto
      with Cons.IH [of "insert l H" m'] False show ?thesis unfolding Acq by (simp split: option.splits)
    qed
  next
    case (Rel l)
    note step = lock_view_release [OF Cons.prems assms(1,2), of l]
    show ?thesis
    proof (cases "l \<in> H")
      case False
      with step Rel show ?thesis by auto
    next
      case True
      with step obtain m' where "release l m = Inr m'" and "lock_view m0 (H - {l}) m'" by auto
      with Cons.IH [of "H - {l}" m'] True show ?thesis unfolding Rel by (simp split: option.splits)
    qed
  qed
qed

lemma noff_take: "c_noff (this_cpu (take_lock l m)) = c_noff (this_cpu m) + 1"
  by (simp add: take_lock_def)

lemma fold_take_noff:
  "c_noff (this_cpu (fold take_lock ls m)) = c_noff (this_cpu m) + int (length ls)"
  by (induction ls rule: rev_induct) (simp_all add: noff_take del: tp_take)

lemma fold_take_sie:
  "intr_get (fold take_lock ls m) \<longleftrightarrow> intr_get m \<and> ls = []"
  by (induction ls rule: rev_induct) (simp_all add: take_lock_def intr_get_def)

lemma lock_view_reads:
  assumes "lock_view m0 H m" and "\<And>l. lock_free l m0"
  shows "locked (locks m l) \<longleftrightarrow> l \<in> H"
    and "c_noff (this_cpu m) = c_noff (this_cpu m0) + int (card H)"
    and "intr_get m \<longleftrightarrow> intr_get m0 \<and> H = {}"
proof -
  obtain ls m1 where v: "distinct ls" "set ls = H" "settle m1 = settle m0" "m = fold take_lock ls m1"
    using assms(1) unfolding lock_view_def by auto
  have tp: "tp m1 = tp m0" using v(3) by (metis tp_settle)
  have cpu: "c_noff (this_cpu m1) = c_noff (this_cpu m0)" "c_sie (this_cpu m1) = c_sie (this_cpu m0)"
    using arg_cong [OF v(3), of "\<lambda>m. c_noff (this_cpu m)"] arg_cong [OF v(3), of "\<lambda>m. c_sie (this_cpu m)"]
    by (simp_all add: settle_def tp)
  show "c_noff (this_cpu m) = c_noff (this_cpu m0) + int (card H)"
    using v cpu by (simp add: fold_take_noff distinct_card [symmetric])
  show "intr_get m \<longleftrightarrow> intr_get m0 \<and> H = {}"
    using v cpu(2) by (auto simp: fold_take_sie intr_get_def [of m1] intr_get_def [of m0])
  have "lock_free l m \<longleftrightarrow> l \<notin> H"
    using lk.free_fold [of l ls m1] v assms(2) settle_eq_transfer(2) [OF v(3)] by simp
  moreover have "locked (locks (fold take_lock ls m1) l) \<or> lock_free l (fold take_lock ls m1)"
    using assms(2) settle_eq_transfer(2) [OF v(3)]
    by (induction ls rule: rev_induct) (auto simp: take_lock_def lock_free_def)
  ultimately show "locked (locks m l) \<longleftrightarrow> l \<in> H"
    using v(4) by (auto simp: lock_free_def spinlock_init_def)
qed

text \<open>C1. Any sequence of acquire and release, in any order, from a state in which no lock is held:
  if no lock is acquired twice or released when not held, every call returns, exactly the locks the
  sequence leaves held are locked, \<^verbatim>\<open>noff\<close> counts them, and interrupts are as they were before
  when none is held and off while any is. Otherwise the kernel panics.\<close>

theorem lock_sequence_correct:
  assumes "cpu_ready m0" and "\<And>l. lock_free l m0"
  shows "case held_after ops {} of
           None \<Rightarrow> \<exists>e. run_lock_ops ops m0 = Inl (Panic e)
         | Some H \<Rightarrow> \<exists>m. run_lock_ops ops m0 = Inr m
             \<and> (\<forall>l. locked (locks m l) \<longleftrightarrow> l \<in> H)
             \<and> c_noff (this_cpu m) = c_noff (this_cpu m0) + int (card H)
             \<and> (intr_get m \<longleftrightarrow> intr_get m0 \<and> H = {})"
proof -
  have "lock_view m0 {} m0"
    unfolding lock_view_def by (intro exI [of _ "[]"] exI [of _ m0]) simp
  note run = lock_view_run [OF assms this, of ops]
  show ?thesis
  proof (cases "held_after ops {}")
    case None
    with run show ?thesis by simp
  next
    case (Some H)
    with run obtain m where "run_lock_ops ops m0 = Inr m" and "lock_view m0 H m" by auto
    with lock_view_reads [OF this(2) assms(2)] Some show ?thesis by simp
  qed
qed

definition boot_cpu :: cpu where
  "boot_cpu = \<lparr>c_mhart_id = 0, c_proc = None, c_inkernel_trap = False, c_noff = 0,
     c_interrupt_on = False, c_sie = True\<rparr>"

definition boot_smp :: "'l smp" where
  "boot_smp = \<lparr>cpus = (\<lambda>_. boot_cpu), locks = (\<lambda>_. spinlock_init), tp = 0\<rparr>"

lemma boot_smp_ready: "cpu_ready boot_smp" "lock_free l boot_smp"
  by (simp_all add: cpu_ready_def lock_free_def boot_smp_def boot_cpu_def NCPU_def)

theorem lock_sequence_correct_witness:
  "\<exists>m. run_lock_ops [Acq (1::nat), Acq 2, Rel 1, Rel 2] boot_smp = Inr m \<and> intr_get m"
  using lock_sequence_correct [OF boot_smp_ready, of "[Acq (1::nat), Acq 2, Rel 1, Rel 2]"]
  by (auto simp: intr_get_def boot_smp_def boot_cpu_def)

text \<open>CPU 0 holds the lock; it asks for it again, and so does CPU 1, which also tries to give it back.\<close>

theorem lock_owner_check_witness:
  "acquire (1::nat) (take_lock 1 boot_smp) = Inl (Panic ''already acquired'') \<and>
   acquire (1::nat) ((take_lock 1 boot_smp)\<lparr>tp := 1\<rparr>) = Inl Spin \<and>
   release (1::nat) ((take_lock 1 boot_smp)\<lparr>tp := 1\<rparr>) = Inl (Panic ''release'') \<and>
   release (1::nat) boot_smp = Inl (Panic ''release'')"
proof -
  have "cpu_ready (take_lock (1::nat) boot_smp)" "cpu_ready ((take_lock (1::nat) boot_smp)\<lparr>tp := 1\<rparr>)"
    by (simp_all add: cpu_ready_def take_lock_def boot_smp_def boot_cpu_def NCPU_def)
  note r = this [THEN lock_owner_check, of 1] lock_owner_check [OF boot_smp_ready(1), of "1 :: nat"]
  have "locks (take_lock (1::nat) boot_smp) 1 = \<lparr>locked = True, lk_cpu = Some 0\<rparr>" "tp (take_lock (1::nat) boot_smp) = 0"
    "locks (boot_smp :: nat smp) 1 = spinlock_init"
    by (simp_all add: take_lock_def boot_smp_def)
  with r show ?thesis by (auto simp: spinlock_init_def)
qed

end
