(* ===== verification/Fifo.thy ===== *)
theory Fifo imports Prelude begin

text \<open>
  The contract of a bounded first-in first-out queue, as the scheduler uses it: what a push and
  a pop do to the list of contents, what they keep, and the panic of a push on a full queue. The
  theory \<^verbatim>\<open>Queue\<close> discharges it for the ring buffer of \<^verbatim>\<open>os/queue.c\<close>.
\<close>

datatype 'a fifo_op = Push 'a | Pop

fun fifo_spec :: "nat \<Rightarrow> 'a list \<Rightarrow> 'a fifo_op list \<Rightarrow> ('a option list \<times> 'a list) option" where
  "fifo_spec cap xs [] = Some ([], xs)"
| "fifo_spec cap xs (Push x # ops) =
     (if length xs < cap then fifo_spec cap (xs @ [x]) ops else None)"
| "fifo_spec cap xs (Pop # ops) =
     (case xs of
        [] \<Rightarrow> map_option (\<lambda>(out, ys). (None # out, ys)) (fifo_spec cap [] ops)
      | x # xs \<Rightarrow> map_option (\<lambda>(out, ys). (Some x # out, ys)) (fifo_spec cap xs ops))"

fun fifo_run ::
    "('a \<Rightarrow> 's \<Rightarrow> halt + 's) \<Rightarrow> ('s \<Rightarrow> halt + 'a option \<times> 's) \<Rightarrow> 's \<Rightarrow> 'a fifo_op list \<Rightarrow> halt + 'a option list \<times> 's"
where
  "fifo_run push pop s [] = Inr ([], s)"
| "fifo_run push pop s (Push x # ops) = kbind (push x s) (\<lambda>s. fifo_run push pop s ops)"
| "fifo_run push pop s (Pop # ops) =
     kbind (pop s) (\<lambda>(r, s). kbind (fifo_run push pop s ops) (\<lambda>(out, s). Inr (r # out, s)))"

locale fifo =
  fixes push :: "'a \<Rightarrow> 's \<Rightarrow> halt + 's"
    and pop :: "'s \<Rightarrow> halt + 'a option \<times> 's"
    and contents :: "'s \<Rightarrow> 'a list"
    and inv :: "'s \<Rightarrow> bool"
    and cap :: nat
  assumes push_room: "inv s \<Longrightarrow> length (contents s) < cap \<Longrightarrow>
      \<exists>s'. push x s = Inr s' \<and> inv s' \<and> contents s' = contents s @ [x]"
    and push_full: "inv s \<Longrightarrow> length (contents s) = cap \<Longrightarrow> \<exists>e. push x s = Inl (Panic e)"
    and pop_empty: "inv s \<Longrightarrow> contents s = [] \<Longrightarrow>
      \<exists>s'. pop s = Inr (None, s') \<and> inv s' \<and> contents s' = []"
    and pop_front: "inv s \<Longrightarrow> contents s = x # xs \<Longrightarrow>
      \<exists>s'. pop s = Inr (Some x, s') \<and> inv s' \<and> contents s' = xs"
    and within: "inv s \<Longrightarrow> length (contents s) \<le> cap"
begin

lemma run_refines:
  "inv s \<Longrightarrow>
   (case fifo_spec cap (contents s) ops of
      None \<Rightarrow> \<exists>e. fifo_run push pop s ops = Inl (Panic e)
    | Some (out, ys) \<Rightarrow> \<exists>s'. fifo_run push pop s ops = Inr (out, s') \<and> inv s' \<and> contents s' = ys)"
proof (induction ops arbitrary: s)
  case Nil
  then show ?case by simp
next
  case (Cons a ops)
  show ?case
  proof (cases a)
    case (Push x)
    show ?thesis
    proof (cases "length (contents s) < cap")
      case True
      then obtain s' where "push x s = Inr s'" "inv s'" "contents s' = contents s @ [x]"
        using push_room Cons.prems by blast
      with Cons.IH [of s'] True show ?thesis unfolding Push by (simp split: option.splits prod.splits)
    next
      case False
      with within Cons.prems have "length (contents s) = cap" by force
      then obtain e where "push x s = Inl (Panic e)" using push_full Cons.prems by blast
      with False show ?thesis unfolding Push by simp
    qed
  next
    case Pop
    obtain r s' ys where "pop s = Inr (r, s')" "inv s'" "contents s' = ys"
      "fifo_spec cap (contents s) (Pop # ops) =
         map_option (\<lambda>(out, zs). (r # out, zs)) (fifo_spec cap ys ops)"
    proof (cases "contents s")
      case Nil
      with pop_empty Cons.prems that show ?thesis by fastforce
    next
      case (Cons y ys)
      with pop_front \<open>inv s\<close> that show ?thesis by fastforce
    qed
    with Cons.IH [of s'] show ?thesis
      unfolding Pop by (auto split: option.splits simp: res_simps kbind_Inl_iff)
  qed
qed

end

end
