(* ===== verification/Queue.thy ===== *)
theory Queue imports Lock Fifo begin

text \<open>
  \<^verbatim>\<open>os/queue.c\<close>: the ring buffer of runnable processes, with its lock. \<open>queue_list\<close> is the list it
  stands for; the interpretation \<open>tq\<close> shows that it is the bounded queue of the theory
  \<^verbatim>\<open>Fifo\<close>, with room for \<^verbatim>\<open>NPROC\<close> entries (the indices are reduced modulo \<^verbatim>\<open>NPROC\<close>, although the
  array has \<^verbatim>\<open>QUEUE_SIZE\<close> slots).
\<close>

definition QUEUE_SIZE :: nat where "QUEUE_SIZE = 1024"

record 'a queue =
  q_data :: "'a list"
  q_front :: nat
  q_tail :: nat
  q_empty :: bool

definition init_queue :: "'l \<Rightarrow> 'l smp \<times> 'a queue \<Rightarrow> 'l smp \<times> 'a queue" where
  "init_queue l = (\<lambda>(m, q).
     (m\<lparr>locks := (locks m)(l := spinlock_init)\<rparr>, q\<lparr>q_front := 0, q_tail := 0, q_empty := True\<rparr>))"

definition push_queue :: "'l \<Rightarrow> 'a \<Rightarrow> 'l smp \<times> 'a queue \<Rightarrow> halt + 'l smp \<times> 'a queue" where
  "push_queue l d = (\<lambda>(m, q).
     kbind (acquire l m) (\<lambda>m.
     if \<not> q_empty q \<and> q_front q = q_tail q then Inl (Panic ''queue shouldn't be overflow'')
     else
       let q = q\<lparr>q_empty := False\<rparr>;
           q = q\<lparr>q_data := (q_data q)[q_tail q := d]\<rparr>;
           q = q\<lparr>q_tail := (q_tail q + 1) mod NPROC\<rparr> in
       kbind (release l m) (\<lambda>m. Inr (m, q))))"

definition pop_queue :: "'l \<Rightarrow> 'l smp \<times> 'a queue \<Rightarrow> halt + 'a option \<times> 'l smp \<times> 'a queue" where
  "pop_queue l = (\<lambda>(m, q).
     kbind (acquire l m) (\<lambda>m.
     if q_empty q then kbind (release l m) (\<lambda>m. Inr (None, m, q))
     else
       let d = q_data q ! q_front q;
           q = q\<lparr>q_front := (q_front q + 1) mod NPROC\<rparr>;
           q = (if q_front q = q_tail q then q\<lparr>q_empty := True\<rparr> else q) in
       kbind (release l m) (\<lambda>m. Inr (Some d, m, q))))"

section \<open>The list a queue stands for\<close>

definition queue_len :: "'a queue \<Rightarrow> nat" where
  "queue_len q = (if q_empty q then 0
     else if q_front q < q_tail q then q_tail q - q_front q else q_tail q + NPROC - q_front q)"

definition queue_list :: "'a queue \<Rightarrow> 'a list" where
  "queue_list q = map (\<lambda>i. q_data q ! ((q_front q + i) mod NPROC)) [0..<queue_len q]"

definition queue_inv :: "'a queue \<Rightarrow> bool" where
  "queue_inv q \<longleftrightarrow> length (q_data q) = QUEUE_SIZE \<and> q_front q < NPROC \<and> q_tail q < NPROC \<and>
     (q_empty q \<longrightarrow> q_front q = q_tail q)"

definition queue_ok :: "'l \<Rightarrow> 'l smp \<times> 'a queue \<Rightarrow> bool" where
  "queue_ok l = (\<lambda>(m, q). cpu_ready m \<and> lock_free l m \<and> queue_inv q)"

lemma length_queue_list [simp]: "length (queue_list q) = queue_len q"
  by (simp add: queue_list_def)

lemma queue_len_le: "queue_inv q \<Longrightarrow> queue_len q \<le> NPROC"
  by (auto simp: queue_inv_def queue_len_def NPROC_def)

lemma queue_full_iff:
  "queue_inv q \<Longrightarrow> queue_len q = NPROC \<longleftrightarrow> \<not> q_empty q \<and> q_front q = q_tail q"
  by (auto simp: queue_inv_def queue_len_def NPROC_def)

lemma queue_empty_iff: "queue_inv q \<Longrightarrow> queue_list q = [] \<longleftrightarrow> q_empty q"
  by (auto simp: queue_inv_def queue_list_def queue_len_def NPROC_def)

text \<open>The slot of the next entry: the tail, which no entry in the queue occupies.\<close>

lemma queue_tail_slot:
  assumes "queue_inv q" and "queue_len q < NPROC"
  shows "(q_front q + queue_len q) mod NPROC = q_tail q"
  using assms by (auto simp: queue_inv_def queue_len_def NPROC_def le_mod_geq)

lemma mod_wrap: "x < 2 * n \<Longrightarrow> x mod n = (if x < n then x else x - n :: nat)"
  by (auto simp: le_mod_geq)

lemma ring_slots_apart:
  assumes "f < n" and "i < n" and "j < n" and "(f + i) mod n = (f + j) mod (n :: nat)"
  shows "i = j"
  using assms mod_wrap [of "f + i" n] mod_wrap [of "f + j" n] by (auto split: if_splits)

lemma queue_push_list:
  fixes d :: 'a
  assumes inv: "queue_inv q" and room: "queue_len q < NPROC"
  defines "q' \<equiv> q\<lparr>q_empty := False, q_data := (q_data q)[q_tail q := d],
      q_tail := (q_tail q + 1) mod NPROC\<rparr>"
  shows "queue_inv q'" and "queue_list q' = queue_list q @ [d]"
proof -
  show "queue_inv q'" using inv by (simp add: q'_def queue_inv_def NPROC_def)
  have len: "queue_len q' = Suc (queue_len q)"
    using inv room by (auto simp: q'_def queue_inv_def queue_len_def NPROC_def mod_if)
  have old: "q_data q' ! ((q_front q + i) mod NPROC) = q_data q ! ((q_front q + i) mod NPROC)"
    if "i < queue_len q" for i
  proof -
    have "(q_front q + i) mod NPROC \<noteq> q_tail q"
      using ring_slots_apart [of "q_front q" NPROC i "queue_len q"] queue_tail_slot [OF inv room]
        inv room that by (auto simp: queue_inv_def)
    then show ?thesis by (simp add: q'_def)
  qed
  have new: "q_data q' ! ((q_front q + queue_len q) mod NPROC) = d"
    using inv queue_tail_slot [OF inv room] by (simp add: q'_def queue_inv_def QUEUE_SIZE_def NPROC_def)
  have "q_front q' = q_front q" by (simp add: q'_def)
  then show "queue_list q' = queue_list q @ [d]"
    using old new by (simp add: queue_list_def len)
qed

lemma queue_pop_list:
  assumes inv: "queue_inv q" and "\<not> q_empty q"
  defines "q1 \<equiv> q\<lparr>q_front := (q_front q + 1) mod NPROC\<rparr>"
  defines "q' \<equiv> (if q_front q1 = q_tail q1 then q1\<lparr>q_empty := True\<rparr> else q1)"
  shows "queue_inv q'" and "queue_list q = q_data q ! q_front q # queue_list q'"
proof -
  show "queue_inv q'" using inv \<open>\<not> q_empty q\<close>
    by (simp add: q'_def q1_def queue_inv_def NPROC_def)
  have len: "queue_len q = Suc (queue_len q')"
    using inv \<open>\<not> q_empty q\<close> by (auto simp: q'_def q1_def queue_inv_def queue_len_def NPROC_def mod_if)
  have "q_front q' = (q_front q + 1) mod NPROC" by (simp add: q'_def q1_def)
  then have "(q_front q' + i) mod NPROC = (q_front q + Suc i) mod NPROC" for i
    by (simp add: mod_add_left_eq)
  moreover have "q_data q' = q_data q" by (simp add: q'_def q1_def)
  ultimately have "queue_list q' = map (\<lambda>i. q_data q ! ((q_front q + Suc i) mod NPROC)) [0..<queue_len q']"
    by (simp add: queue_list_def)
  moreover have "q_front q mod NPROC = q_front q" using inv by (simp add: queue_inv_def)
  ultimately show "queue_list q = q_data q ! q_front q # queue_list q'"
    by (simp add: queue_list_def len upt_conv_Cons map_Suc_upt [symmetric] del: upt_Suc)
qed

section \<open>The operations meet the contract\<close>

lemma push_queue_eq:
  assumes "cpu_ready m" and "lock_free l m"
  shows "push_queue l d (m, q) =
    (if \<not> q_empty q \<and> q_front q = q_tail q then Inl (Panic ''queue shouldn't be overflow'')
     else Inr (settle m, q\<lparr>q_empty := False, q_data := (q_data q)[q_tail q := d],
             q_tail := (q_tail q + 1) mod NPROC\<rparr>))"
  using assms by (simp add: push_queue_def acquire_free release_taken Let_def)

lemma pop_queue_eq:
  assumes "cpu_ready m" and "lock_free l m"
  shows "pop_queue l (m, q) =
    (if q_empty q then Inr (None, settle m, q)
     else Inr (Some (q_data q ! q_front q), settle m,
       (let q = q\<lparr>q_front := (q_front q + 1) mod NPROC\<rparr> in
        if q_front q = q_tail q then q\<lparr>q_empty := True\<rparr> else q)))"
  using assms by (simp add: pop_queue_def acquire_free release_taken Let_def)

lemma queue_ok_cases:
  assumes "queue_ok l s"
  obtains m q where "s = (m, q)" and "cpu_ready m" and "lock_free l m" and "queue_inv q"
  using assms by (cases s) (auto simp: queue_ok_def)

interpretation tq: fifo "push_queue l" "pop_queue l" "\<lambda>s. queue_list (snd s)" "queue_ok l" NPROC
  for l
proof
  fix s :: "'a smp \<times> 'b queue" and x xs
  assume ok: "queue_ok l s"
  obtain m q where s: "s = (m, q)" and m: "cpu_ready m" "lock_free l m" and q: "queue_inv q"
    using ok by (rule queue_ok_cases)
  show "length (queue_list (snd s)) \<le> NPROC" using s q by (simp add: queue_len_le)
  show "length (queue_list (snd s)) < NPROC \<Longrightarrow>
      \<exists>s'. push_queue l x s = Inr s' \<and> queue_ok l s' \<and> queue_list (snd s') = queue_list (snd s) @ [x]"
    using queue_push_list [OF q, of x] m q s queue_full_iff [OF q]
    by (auto simp: push_queue_eq queue_ok_def)
  show "length (queue_list (snd s)) = NPROC \<Longrightarrow> \<exists>e. push_queue l x s = Inl (Panic e)"
    using m s queue_full_iff [OF q] by (simp add: push_queue_eq)
  show "queue_list (snd s) = [] \<Longrightarrow>
      \<exists>s'. pop_queue l s = Inr (None, s') \<and> queue_ok l s' \<and> queue_list (snd s') = []"
    using m q s queue_empty_iff [OF q] by (simp add: pop_queue_eq queue_ok_def)
  show "queue_list (snd s) = x # xs \<Longrightarrow>
      \<exists>s'. pop_queue l s = Inr (Some x, s') \<and> queue_ok l s' \<and> queue_list (snd s') = xs"
    using queue_pop_list [OF q] m q s queue_empty_iff [OF q]
    by (auto simp: pop_queue_eq queue_ok_def Let_def)
qed

definition zero_queue :: "'a \<Rightarrow> 'a queue" where
  "zero_queue z = \<lparr>q_data = replicate QUEUE_SIZE z, q_front = 0, q_tail = 0, q_empty = False\<rparr>"

lemma init_queue_ok:
  "cpu_ready m \<Longrightarrow> queue_ok l (init_queue l (m, zero_queue z))"
  "queue_list (snd (init_queue l (m, zero_queue z))) = []"
  by (simp_all add: queue_ok_def init_queue_def zero_queue_def queue_inv_def cpu_ready_def
      lock_free_def NPROC_def queue_list_def queue_len_def)

text \<open>C3. From its initialisation, any sequence of \<^verbatim>\<open>push_queue\<close> and \<^verbatim>\<open>pop_queue\<close> calls behaves as
  the bounded first-in first-out queue of capacity \<^verbatim>\<open>NPROC\<close>: it returns the same results and ends
  with the same contents, and it panics exactly when the specification runs over its capacity.\<close>

theorem queue_refines_fifo:
  assumes "cpu_ready m"
  shows "case fifo_spec NPROC [] ops of
           None \<Rightarrow> \<exists>e. fifo_run (push_queue l) (pop_queue l) (init_queue l (m, zero_queue z)) ops = Inl (Panic e)
         | Some (out, ys) \<Rightarrow>
             \<exists>m' q'. fifo_run (push_queue l) (pop_queue l) (init_queue l (m, zero_queue z)) ops = Inr (out, m', q')
               \<and> queue_inv q' \<and> queue_list q' = ys"
proof -
  have "queue_ok l (init_queue l (m, zero_queue z))" by (rule init_queue_ok(1) [OF assms])
  from tq.run_refines [OF this, of ops] show ?thesis
    by (auto simp: init_queue_ok(2) split: option.splits elim!: queue_ok_cases)
qed

theorem queue_refines_fifo_witness:
  "\<exists>m' q'. fifo_run (push_queue ()) (pop_queue ()) (init_queue () (boot_smp, zero_queue (0::nat)))
      [Push 7, Push 8, Pop, Push 9, Pop] = Inr ([Some 7, Some 8], m', q') \<and> queue_inv q' \<and> queue_list q' = [9]"
  using queue_refines_fifo [OF boot_smp_ready(1), where ops = "[Push 7, Push 8, Pop, Push 9, Pop]" and l = "()" and z = "0::nat"]
  by (simp add: NPROC_def)

end
