(* ===== verification/Mem.thy ===== *)
theory Mem imports Riscv begin

text \<open>
  The kernel's memory as bytes, named by the kernel's virtual addresses, and the 64-bit
  little-endian loads and stores through which the code keeps its free list and its page tables.
  What the clients use of them: a load of a cell sees the last store to it and no store to a cell
  apart from it, and the 512 cells of a page are apart from each other.
\<close>

type_synonym mem = "u64 \<Rightarrow> u8"

definition byte_of :: "nat \<Rightarrow> u64 \<Rightarrow> u8" where
  "byte_of i v = ucast (drop_bit (8 * i) v)"

definition ld64 :: "mem \<Rightarrow> u64 \<Rightarrow> u64" where
  "ld64 m a = fold (\<lambda>i w. w OR push_bit (8 * i) (ucast (m (a + of_nat i)))) [0..<8] 0"

definition st64 :: "mem \<Rightarrow> u64 \<Rightarrow> u64 \<Rightarrow> mem" where
  "st64 m a v = (\<lambda>x. if x - a < 8 then byte_of (unat (x - a)) v else m x)"

lemma bit_fold_or:
  "bit (fold (\<lambda>i w. w OR f i) is w) n \<longleftrightarrow> bit w n \<or> (\<exists>i \<in> set is. bit (f i :: 'a::len word) n)"
  by (induction "is" arbitrary: w) (auto simp: bit_or_iff)

lemma bit_byte_of: "bit (byte_of i v) k \<longleftrightarrow> k < 8 \<and> bit v (8 * i + k)"
  by (auto simp: byte_of_def bit_simps)

lemma bit_ld64: "bit (ld64 m a) n \<longleftrightarrow> n < 64 \<and> bit (m (a + of_nat (n div 8))) (n mod 8)"
proof -
  have "bit (ld64 m a) n \<longleftrightarrow> (\<exists>i \<in> {0..<8}. n < 64 \<and> 8 * i \<le> n \<and> bit (m (a + of_nat i)) (n - 8 * i))"
    unfolding ld64_def bit_fold_or by (auto simp: bit_simps)
  also have "\<dots> \<longleftrightarrow> n < 64 \<and> bit (m (a + of_nat (n div 8))) (n mod 8)"
  proof
    assume "\<exists>i \<in> {0..<8}. n < 64 \<and> 8 * i \<le> n \<and> bit (m (a + of_nat i)) (n - 8 * i)"
    then obtain i where i: "i < 8" "n < 64" "8 * i \<le> n" "bit (m (a + of_nat i)) (n - 8 * i)" by auto
    have "n - 8 * i < 8" using i(4) bit_imp_le_length by fastforce
    then have "n div 8 = i" and "n mod 8 = n - 8 * i" using i(3) by (simp_all add: div_nat_eqI minus_mult_div_eq_mod [symmetric])
    with i show "n < 64 \<and> bit (m (a + of_nat (n div 8))) (n mod 8)" by simp
  next
    assume "n < 64 \<and> bit (m (a + of_nat (n div 8))) (n mod 8)"
    then show "\<exists>i \<in> {0..<8}. n < 64 \<and> 8 * i \<le> n \<and> bit (m (a + of_nat i)) (n - 8 * i)"
      by (intro bexI [of _ "n div 8"]) (auto simp: minus_mult_div_eq_mod)
  qed
  finally show ?thesis .
qed

lemma ld64_cong: "(\<And>i. i < 8 \<Longrightarrow> m (a + of_nat i) = m' (a + of_nat i)) \<Longrightarrow> ld64 m a = ld64 m' a"
  by (rule bit_eqI) (auto simp: bit_ld64)

lemma ld64_st64_same [simp]: "ld64 (st64 m a v) a = v"
proof (rule bit_eqI)
  fix n assume "possible_bit TYPE(64 word) n"
  then have n: "n < 64" by simp
  then have "n div 8 < 8" by auto
  then have "unat (of_nat (n div 8) :: u64) = n div 8" by (simp add: unat_of_nat_small)
  moreover have "(of_nat (n div 8) :: u64) < 8" using \<open>n div 8 < 8\<close> by (simp add: word_less_nat_alt unat_of_nat_small)
  ultimately show "bit (ld64 (st64 m a v) a) n = bit v n"
    using n by (simp add: bit_ld64 st64_def bit_byte_of)
qed

text \<open>The eight bytes at \<open>b\<close> and the eight bytes at \<open>a\<close> have no address in common.\<close>

definition cells_apart :: "u64 \<Rightarrow> u64 \<Rightarrow> bool" where
  "cells_apart a b \<longleftrightarrow> 8 \<le> a - b \<and> 8 \<le> b - a"

lemma ld64_st64_other: "cells_apart a b \<Longrightarrow> ld64 (st64 m b v) a = ld64 m a"
proof (rule ld64_cong)
  fix i :: nat assume ab: "cells_apart a b" and i: "i < 8"
  define k where "k = (of_nat i :: u64)"
  have k: "unat k = i" "unat k < 8" using i by (simp_all add: k_def unat_of_nat_small)
  have "\<not> a + k - b < 8"
  proof
    assume lt: "a + k - b < 8"
    define d where "d = a + k - b"
    have ba: "b - a = k - d" by (simp add: d_def)
    have dk: "a - b = d - k" by (simp add: d_def)
    have "unat d < 8" using lt by (simp add: d_def word_less_nat_alt)
    show False
    proof (cases "d \<le> k")
      case True
      then have "unat (b - a) \<le> unat k" unfolding ba by (simp add: unat_sub_le)
      with ab k show False by (simp add: cells_apart_def word_le_nat_alt)
    next
      case False
      then have "unat (a - b) \<le> unat d" unfolding dk by (simp add: unat_sub_le)
      with ab \<open>unat d < 8\<close> show False by (simp add: cells_apart_def word_le_nat_alt)
    qed
  qed
  then show "st64 m b v (a + of_nat i) = m (a + of_nat i)" by (simp add: st64_def k_def)
qed

section \<open>Cells inside pages\<close>

definition in_page :: "u64 \<Rightarrow> u64 \<Rightarrow> bool" where
  "in_page p x \<longleftrightarrow> x - p < PGSIZE"

lemma in_page_PGROUNDDOWN: "PGALIGNED p \<Longrightarrow> in_page p x \<longleftrightarrow> PGROUNDDOWN x = p"
proof
  assume "PGALIGNED p" and "in_page p x"
  then show "PGROUNDDOWN x = p" using PGROUNDDOWN_add_small [of p "x - p"] by (simp add: in_page_def)
next
  assume "PGROUNDDOWN x = p"
  then show "in_page p x" using page_offset_less [of x] by (simp add: in_page_def)
qed

lemma in_page_disjoint: "PGALIGNED p \<Longrightarrow> PGALIGNED q \<Longrightarrow> in_page p x \<Longrightarrow> in_page q x \<Longrightarrow> p = q"
  by (simp add: in_page_PGROUNDDOWN)

text \<open>The entries of a page read as an array of 64-bit words.\<close>

definition slot :: "u64 \<Rightarrow> u64 \<Rightarrow> u64" where
  "slot p i = p + 8 * i"

lemma slot_byte_in_page:
  assumes "i < 512" and "k < 8"
  shows "in_page p (slot p i + k)"
proof -
  have "unat (8 * i + k) = 8 * unat i + unat k"
    using assms by (simp add: word_less_nat_alt unat_word_ariths)
  then show ?thesis using assms by (simp add: in_page_def slot_def word_less_nat_alt)
qed

lemma slot_in_page: "i < 512 \<Longrightarrow> in_page p (slot p i)"
  using slot_byte_in_page [of i 0 p] by simp

lemma slots_apart:
  assumes "i < 512" and "j < 512" and "i \<noteq> j"
  shows "cells_apart (slot p i) (slot p j)"
proof -
  have "8 \<le> 8 * x - 8 * y" if "x < 512" "y < 512" "x \<noteq> y" for x y :: u64
  proof (cases "y < x")
    case True
    have "unat (8 * x - 8 * y) = 8 * unat x - 8 * unat y"
      using that True by (subst unat_sub_le) (simp_all add: word_less_nat_alt word_le_nat_alt unat_word_ariths)
    then show ?thesis using that True by (simp add: word_less_nat_alt word_le_nat_alt)
  next
    case False
    then have "x < y" using that by simp
    have "unat (8 * y - 8 * x) = 8 * unat y - 8 * unat x"
      using that \<open>x < y\<close> by (subst unat_sub_le) (simp_all add: word_less_nat_alt word_le_nat_alt unat_word_ariths)
    then have "0 < unat (8 * y - 8 * x)" and "unat (8 * y - 8 * x) \<le> 4096"
      using that \<open>x < y\<close> by (simp_all add: word_less_nat_alt)
    then have "8 \<le> unat (0 - (8 * y - 8 * x))" by (subst unat_sub_if') simp
    then show ?thesis by (simp add: word_le_nat_alt)
  qed
  then show ?thesis using assms by (auto simp: cells_apart_def slot_def)
qed

end
