(* ===== verification/CString.thy ===== *)
theory CString imports Mem begin

text \<open>
  \<^verbatim>\<open>os/string.c\<close>: the byte-copying and string routines, as loops over the kernel's memory. The
  theorems say what each leaves in memory or returns: \<^verbatim>\<open>memset\<close> and \<^verbatim>\<open>memmove\<close> in closed form, the
  latter for overlapping operands too, and the string routines in terms of the zero-terminated
  string \<open>is_cstr\<close> at an address.
\<close>

section \<open>memset\<close>

text \<open>The counter is an \<^verbatim>\<open>int\<close> compared with an unsigned \<open>n\<close>; it does not overflow for \<open>n\<close> below \<open>2 ^ 31\<close>.\<close>

function memset_loop :: "mem \<Rightarrow> u64 \<Rightarrow> u8 \<Rightarrow> nat \<Rightarrow> nat \<Rightarrow> mem" where
  "memset_loop m dst c i n =
     (if i < n then memset_loop (m(dst + of_nat i := c)) dst c (Suc i) n else m)"
  by pat_completeness auto
termination
  by (relation "measure (\<lambda>(m, dst, c, i, n). n - i)") auto

declare memset_loop.simps [simp del]

definition memset :: "mem \<Rightarrow> u64 \<Rightarrow> i32 \<Rightarrow> u32 \<Rightarrow> mem" where
  "memset m dst c n = memset_loop m dst (ucast c) 0 (unat n)"

section \<open>memcmp\<close>

fun memcmp_loop :: "mem \<Rightarrow> u64 \<Rightarrow> u64 \<Rightarrow> nat \<Rightarrow> int" where
  "memcmp_loop m s1 s2 0 = 0"
| "memcmp_loop m s1 s2 (Suc n) =
     (if m s1 \<noteq> m s2 then uint (m s1) - uint (m s2) else memcmp_loop m (s1 + 1) (s2 + 1) n)"

definition memcmp :: "mem \<Rightarrow> u64 \<Rightarrow> u64 \<Rightarrow> u32 \<Rightarrow> int" where
  "memcmp m v1 v2 n = memcmp_loop m v1 v2 (unat n)"

section \<open>memmove\<close>

fun copy_up :: "mem \<Rightarrow> u64 \<Rightarrow> u64 \<Rightarrow> nat \<Rightarrow> mem" where
  "copy_up m d s 0 = m"
| "copy_up m d s (Suc n) = copy_up (m(d := m s)) (d + 1) (s + 1) n"

fun copy_down :: "mem \<Rightarrow> u64 \<Rightarrow> u64 \<Rightarrow> nat \<Rightarrow> mem" where
  "copy_down m d s 0 = m"
| "copy_down m d s (Suc n) = copy_down (m(d - 1 := m (s - 1))) (d - 1) (s - 1) n"

definition memmove :: "mem \<Rightarrow> u64 \<Rightarrow> u64 \<Rightarrow> u32 \<Rightarrow> mem" where
  "memmove m dst src n =
     (let s = src; d = dst in
      if s < d \<and> s + ucast n > d then copy_down m (d + ucast n) (s + ucast n) (unat n)
      else copy_up m d s (unat n))"

definition memcpy :: "mem \<Rightarrow> u64 \<Rightarrow> u64 \<Rightarrow> u32 \<Rightarrow> mem" where
  "memcpy m dst src n = memmove m dst src n"

section \<open>Strings\<close>

fun strncmp_loop :: "mem \<Rightarrow> u64 \<Rightarrow> u64 \<Rightarrow> nat \<Rightarrow> int" where
  "strncmp_loop m p q 0 = 0"
| "strncmp_loop m p q (Suc n) =
     (if m p \<noteq> 0 \<and> m p = m q then strncmp_loop m (p + 1) (q + 1) n else uint (m p) - uint (m q))"

definition strncmp :: "mem \<Rightarrow> u64 \<Rightarrow> u64 \<Rightarrow> u32 \<Rightarrow> int" where
  "strncmp m p q n = strncmp_loop m p q (unat n)"

fun zero_fill :: "mem \<Rightarrow> u64 \<Rightarrow> nat \<Rightarrow> mem" where
  "zero_fill m s 0 = m"
| "zero_fill m s (Suc n) = zero_fill (m(s := 0)) (s + 1) n"

fun strncpy_loop :: "mem \<Rightarrow> u64 \<Rightarrow> u64 \<Rightarrow> nat \<Rightarrow> mem" where
  "strncpy_loop m s t 0 = m"
| "strncpy_loop m s t (Suc n) =
     (let m = m(s := m t) in
      if m s \<noteq> 0 then strncpy_loop m (s + 1) (t + 1) n else zero_fill m (s + 1) n)"

definition strncpy :: "mem \<Rightarrow> u64 \<Rightarrow> u64 \<Rightarrow> int \<Rightarrow> mem" where
  "strncpy m s t n = strncpy_loop m s t (nat n)"

fun safestrcpy_loop :: "mem \<Rightarrow> u64 \<Rightarrow> u64 \<Rightarrow> nat \<Rightarrow> mem" where
  "safestrcpy_loop m s t 0 = m(s := 0)"
| "safestrcpy_loop m s t (Suc n) =
     (let m = m(s := m t) in
      if m s \<noteq> 0 then safestrcpy_loop m (s + 1) (t + 1) n else m(s + 1 := 0))"

definition safestrcpy :: "mem \<Rightarrow> u64 \<Rightarrow> u64 \<Rightarrow> int \<Rightarrow> mem" where
  "safestrcpy m s t n = (if n \<le> 0 then m else safestrcpy_loop m s t (nat n - 1))"

text \<open>
  The counter of \<^verbatim>\<open>strlen\<close> is an \<^verbatim>\<open>int\<close>. Counting behind its largest value, \<open>2 ^ 31 - 1\<close>, is undefined in C; that is
  the result \<open>None\<close>.
\<close>

function strlen_from :: "mem \<Rightarrow> u64 \<Rightarrow> nat \<Rightarrow> i32 option" where
  "strlen_from m s n =
     (if m (s + of_nat n) = 0 then Some (of_nat n) else if n < 2 ^ 31 - 1 then strlen_from m s (Suc n) else None)"
  by pat_completeness auto
termination by (relation "measure (\<lambda>(m, s, n). 2 ^ 31 - n)") auto

declare strlen_from.simps [simp del]

definition strlen :: "mem \<Rightarrow> u64 \<Rightarrow> i32 option" where
  "strlen m s = strlen_from m s 0"

section \<open>What memset and memmove do\<close>

lemma unat_word_minus_1: "x \<noteq> 0 \<Longrightarrow> unat (x - 1 :: 'a::len word) = unat x - 1"
  by (simp add: unat_minus_one)

lemma memset_loop_eq:
  "i \<le> n \<Longrightarrow> n < 2 ^ 64 \<Longrightarrow>
   memset_loop m dst c i n = (\<lambda>x. if i \<le> unat (x - dst) \<and> unat (x - dst) < n then c else m x)"
proof (induction m dst c i n rule: memset_loop.induct)
  case (1 m dst c i n)
  show ?case
  proof (cases "i < n")
    case True
    have "x = dst + of_nat i \<longleftrightarrow> unat (x - dst) = i" for x
      by (rule eq_add_of_nat_iff) (use True "1.prems" in simp)
    moreover have "memset_loop (m(dst + of_nat i := c)) dst c (Suc i) n =
        (\<lambda>x. if Suc i \<le> unat (x - dst) \<and> unat (x - dst) < n then c else (m(dst + of_nat i := c)) x)"
      by (rule "1.IH") (use True "1.prems" in simp_all)
    ultimately show ?thesis using True
      by (subst memset_loop.simps) (auto simp: fun_eq_iff fun_upd_def)
  next
    case False
    then show ?thesis by (subst memset_loop.simps) (auto simp: fun_eq_iff)
  qed
qed

lemma memset_eq: "memset m dst c n = (\<lambda>x. if unat (x - dst) < unat n then ucast c else m x)"
proof -
  have "unat n < 2 ^ 64" using unat_less_2p [of n] by simp
  then show ?thesis by (simp add: memset_def memset_loop_eq)
qed

lemma copy_up_eq:
  assumes "n < 2 ^ 64" and "\<And>k. 0 < k \<Longrightarrow> k < n \<Longrightarrow> d \<noteq> s + of_nat k"
  shows "copy_up m d s n = (\<lambda>x. if unat (x - d) < n then m (s + (x - d)) else m x)"
  using assms
proof (induction n arbitrary: m d s)
  case 0
  then show ?case by simp
next
  case (Suc n)
  define m1 where "m1 = m(d := m s)"
  have "copy_up m1 (d + 1) (s + 1) n =
      (\<lambda>x. if unat (x - (d + 1)) < n then m1 (s + 1 + (x - (d + 1))) else m1 x)"
  proof (rule Suc.IH)
    show "n < 2 ^ 64" using Suc.prems(1) by simp
    fix k assume "0 < k" "k < n"
    with Suc.prems(2) [of k] show "d + 1 \<noteq> s + 1 + of_nat k" by (simp add: algebra_simps)
  qed
  moreover have "(if unat (x - (d + 1)) < n then m1 (s + 1 + (x - (d + 1))) else m1 x) =
      (if unat (x - d) < Suc n then m (s + (x - d)) else m x)" for x
  proof (cases "x = d")
    case True
    have "unat (0 - 1 :: u64) = 2 ^ 64 - 1" by (subst unat_sub_if') simp
    then show ?thesis using True Suc.prems(1) by (simp add: m1_def)
  next
    case False
    then have ne: "x - d \<noteq> 0" by simp
    have u: "unat (x - (d + 1)) = unat (x - d) - 1" and pos: "0 < unat (x - d)"
      using unat_word_minus_1 [OF ne] ne by (simp_all add: diff_diff_eq [symmetric] unat_gt_0)
    have e: "s + 1 + (x - (d + 1)) = s + (x - d)" by simp
    show ?thesis
    proof (cases "unat (x - d) < Suc n")
      case True
      have "d \<noteq> s + of_nat (unat (x - d))" using Suc.prems(2) [OF pos True] .
      moreover have "unat (x - d) - 1 < n" using True pos by linarith
      ultimately show ?thesis using True unfolding u e by (simp add: m1_def)
    next
      case False
      then have "\<not> unat (x - d) - 1 < n" by linarith
      with False \<open>x \<noteq> d\<close> show ?thesis unfolding u e by (simp add: m1_def)
    qed
  qed
  ultimately show ?case by (simp add: m1_def fun_eq_iff)
qed

lemma copy_down_eq:
  assumes "n < 2 ^ 64" and "\<And>k. 0 < k \<Longrightarrow> k < n \<Longrightarrow> d \<noteq> s - of_nat k"
  shows "copy_down m (d + of_nat n) (s + of_nat n) n = (\<lambda>x. if unat (x - d) < n then m (s + (x - d)) else m x)"
  using assms
proof (induction n arbitrary: m)
  case 0
  then show ?case by simp
next
  case (Suc n)
  define m1 where "m1 = m(d + of_nat n := m (s + of_nat n))"
  have "copy_down m1 (d + of_nat n) (s + of_nat n) n =
      (\<lambda>x. if unat (x - d) < n then m1 (s + (x - d)) else m1 x)"
    by (rule Suc.IH) (use Suc.prems in simp_all)
  moreover have "(if unat (x - d) < n then m1 (s + (x - d)) else m1 x) =
      (if unat (x - d) < Suc n then m (s + (x - d)) else m x)" for x
  proof -
    have eq: "x = d + of_nat n \<longleftrightarrow> unat (x - d) = n"
      by (rule eq_add_of_nat_iff) (use Suc.prems(1) in simp)
    have "s + (x - d) \<noteq> d + of_nat n" if "unat (x - d) < n"
    proof
      assume "s + (x - d) = d + of_nat n"
      define k where "k = n - unat (x - d)"
      have "(of_nat k :: u64) = of_nat n - (x - d)" using that by (simp add: k_def of_nat_diff)
      then have "x - d = of_nat n - of_nat k" by simp
      then have "s - of_nat k + of_nat n = d + of_nat n" using \<open>s + (x - d) = d + of_nat n\<close> by simp
      then have "d = s - of_nat k" by simp
      moreover have "0 < k" "k < Suc n" using that by (simp_all add: k_def)
      ultimately show False using Suc.prems(2) by blast
    qed
    then show ?thesis using eq by (auto simp: m1_def less_Suc_eq)
  qed
  ultimately show ?case by (simp add: m1_def fun_eq_iff algebra_simps)
qed

text \<open>The operand ends before the end of the address space.\<close>

definition no_wrap :: "u64 \<Rightarrow> u32 \<Rightarrow> bool" where
  "no_wrap a n \<longleftrightarrow> unat a + unat n < 2 ^ 64"

lemma memmove_eq:
  assumes "no_wrap src n" and "no_wrap dst n"
  shows "memmove m dst src n = (\<lambda>x. if unat (x - dst) < unat n then m (src + (x - dst)) else m x)"
proof -
  have n: "unat n < 2 ^ 32" using unat_less_2p [of n] by simp
  have small: "unat (of_nat k :: u64) = k" if "k \<le> unat n" for k
    using that n by (simp add: unat_of_nat_small)
  have ucn: "(ucast n :: u64) = of_nat (unat n)" by simp
  have top: "unat (src + ucast n) = unat src + unat n"
    using assms(1) small [of "unat n"] unfolding ucn by (simp add: no_wrap_def unat_add_no_wrap)
  show ?thesis
  proof (cases "src < dst \<and> src + ucast n > dst")
    case True
    have "dst \<noteq> src - of_nat k" if k: "0 < k" "k < unat n" for k
    proof
      assume e: "dst = src - of_nat k"
      show False
      proof (cases "(of_nat k :: u64) \<le> src")
        case le: True
        then have "unat dst = unat src - k" using e small [of k] k by (simp add: unat_sub_le)
        then show False using True by (auto simp: word_less_nat_alt)
      next
        case False
        then have "unat dst = unat src + 2 ^ 64 - k"
          using e small [of k] k by (simp add: unat_sub_if' word_le_nat_alt)
        then show False using assms(2) k by (simp add: no_wrap_def)
      qed
    qed
    then have "copy_down m (dst + of_nat (unat n)) (src + of_nat (unat n)) (unat n) =
        (\<lambda>x. if unat (x - dst) < unat n then m (src + (x - dst)) else m x)"
      by (intro copy_down_eq) (use n in simp_all)
    with True show ?thesis by (simp only: memmove_def Let_def ucn if_True simp_thms)
  next
    case False
    have "dst \<noteq> src + of_nat k" if k: "0 < k" "k < unat n" for k
    proof
      assume e: "dst = src + of_nat k"
      have "unat src + k < 2 ^ 64" using assms(1) k by (simp add: no_wrap_def)
      then have "unat dst = unat src + k"
        using e small [of k] k by (simp add: unat_add_no_wrap)
      then show False using k top False by (simp add: word_less_nat_alt)
    qed
    then have "copy_up m dst src (unat n) =
        (\<lambda>x. if unat (x - dst) < unat n then m (src + (x - dst)) else m x)"
      by (intro copy_up_eq) (use n in simp_all)
    with False show ?thesis by (simp only: memmove_def Let_def if_False)
  qed
qed

text \<open>C4. \<^verbatim>\<open>memmove\<close> copies correctly whether or not, and in whichever direction, its operands
  overlap: afterwards the destination holds what the source held before, and nothing else
  has changed.\<close>

theorem memmove_correct:
  assumes "no_wrap src n" and "no_wrap dst n"
  shows "(\<forall>i. unat i < unat n \<longrightarrow> memmove m dst src n (dst + i) = m (src + i)) \<and>
    (\<forall>x. \<not> unat (x - dst) < unat n \<longrightarrow> memmove m dst src n x = m x)"
  by (simp_all add: memmove_eq [OF assms])

theorem memmove_correct_witness:
  "no_wrap 0x1000 3 \<and> no_wrap 0x1001 3 \<and>
   memmove (\<lambda>x. ucast x) 0x1001 0x1000 3 0x1003 = (2 :: u8) \<and>
   memmove (\<lambda>x. ucast x) 0x1001 0x1000 3 0x1004 = (4 :: u8)"
proof -
  have h: "no_wrap 0x1000 3" "no_wrap 0x1001 3" by (simp_all add: no_wrap_def)
  note c = memmove_correct [OF h, of "\<lambda>x. ucast x"]
  have "memmove (\<lambda>x. ucast x) 0x1001 0x1000 3 (0x1001 + 2) = (ucast (0x1000 + 2 :: u64) :: u8)"
    by (rule c [THEN conjunct1, rule_format]) simp
  moreover have "memmove (\<lambda>x. ucast x) 0x1001 0x1000 3 0x1004 = (ucast (0x1004 :: u64) :: u8)"
    by (rule c [THEN conjunct2, rule_format]) simp
  ultimately show ?thesis using h by simp
qed

section \<open>What the string routines do\<close>

fun is_cstr :: "mem \<Rightarrow> u64 \<Rightarrow> u8 list \<Rightarrow> bool" where
  "is_cstr m a [] \<longleftrightarrow> m a = 0"
| "is_cstr m a (c # cs) \<longleftrightarrow> c \<noteq> 0 \<and> m a = c \<and> is_cstr m (a + 1) cs"

lemma strlen_from_cstr:
  "is_cstr m (s + of_nat n) cs \<Longrightarrow> n < 2 ^ 31 \<Longrightarrow>
    strlen_from m s n = (if n + length cs < 2 ^ 31 then Some (of_nat (n + length cs)) else None)"
proof (induction cs arbitrary: n)
  case Nil
  then show ?case by (subst strlen_from.simps) simp
next
  case (Cons c cs)
  then have "is_cstr m (s + of_nat (Suc n)) cs" by (simp add: algebra_simps)
  from Cons.IH [OF this] Cons.prems show ?case by (subst strlen_from.simps) auto
qed

lemma strlen_cstr:
  "is_cstr m s cs \<Longrightarrow> strlen m s = (if length cs < 2 ^ 31 then Some (of_nat (length cs)) else None)"
  using strlen_from_cstr [of m s 0 cs] by (simp add: strlen_def)

lemma sint_of_nat_small: "n < 2 ^ 31 \<Longrightarrow> sint (of_nat n :: i32) = int n"
proof -
  assume "n < 2 ^ 31"
  have "sint (of_nat n :: i32) = sint (word_of_int (int n) :: i32)" by simp
  also have "\<dots> = signed_take_bit 31 (int n)" by (simp only: sint_sbintrunc') simp
  also have "\<dots> = int n" using \<open>n < 2 ^ 31\<close> by (intro signed_take_bit_int_eq_self) simp_all
  finally show ?thesis .
qed

lemma memcmp_loop_0:
  "memcmp_loop m p q n = 0 \<longleftrightarrow> (\<forall>i < n. m (p + of_nat i) = m (q + of_nat i))"
proof (induction n arbitrary: p q)
  case 0
  then show ?case by simp
next
  case (Suc n)
  then show ?case by (auto simp: All_less_Suc2 algebra_simps)
qed

lemma strncmp_loop_0:
  "is_cstr m p xs \<Longrightarrow> is_cstr m q ys \<Longrightarrow> strncmp_loop m p q n = 0 \<longleftrightarrow> take n xs = take n ys"
proof (induction n arbitrary: p q xs ys)
  case 0
  then show ?case by simp
next
  case (Suc n)
  then show ?case by (cases xs; cases ys) (auto simp: Suc.IH uint_0_iff)
qed

text \<open>C5. On zero-terminated strings \<^verbatim>\<open>strlen\<close> returns the length, when it is below \<open>2 ^ 31\<close> (its \<^verbatim>\<open>int\<close> counter
  overflows on longer ones), and \<^verbatim>\<open>strncmp\<close> returns zero exactly when the strings agree on their first \<open>n\<close>
  characters, or both end before.\<close>

theorem strlen_strncmp_correct:
  assumes "is_cstr m p xs" and "is_cstr m q ys"
  shows "map_option sint (strlen m p) = (if length xs < 2 ^ 31 then Some (int (length xs)) else None) \<and>
    (strncmp m p q n = 0 \<longleftrightarrow> take (unat n) xs = take (unat n) ys)"
  using strlen_cstr [OF assms(1)] sint_of_nat_small [of "length xs"]
  by (simp add: strncmp_def strncmp_loop_0 [OF assms])

definition demo_strings :: mem where
  "demo_strings = (\<lambda>_. 0)(0x100 := 115, 0x101 := 104, 0x200 := 115, 0x201 := 104, 0x202 := 50)"

theorem strlen_strncmp_correct_witness:
  "map_option sint (strlen demo_strings 0x200) = Some 3 \<and> map_option sint (strlen demo_strings 0x100) = Some 2 \<and>
   strncmp demo_strings 0x100 0x200 2 = 0 \<and> strncmp demo_strings 0x100 0x200 3 \<noteq> 0"
proof -
  have c: "is_cstr demo_strings 0x100 [115, 104]" "is_cstr demo_strings 0x200 [115, 104, 50]"
    by (simp_all add: demo_strings_def)
  show ?thesis
    using strlen_strncmp_correct [OF c(2) c(1), of 0]
      strlen_strncmp_correct [OF c, of 2] strlen_strncmp_correct [OF c, of 3]
    by simp
qed

text \<open>The bounded copies. Their destination does not overlap the source string.\<close>

definition apart :: "u64 \<Rightarrow> nat \<Rightarrow> u64 \<Rightarrow> nat \<Rightarrow> bool" where
  "apart s n t k \<longleftrightarrow> n \<le> 2 ^ 32 \<and> (\<forall>i < n. \<forall>j < k. s + of_nat i \<noteq> t + of_nat j)"

lemma is_cstr_upd_other:
  "(\<And>j. j \<le> length cs \<Longrightarrow> x \<noteq> t + of_nat j) \<Longrightarrow> is_cstr (m(x := v)) t cs = is_cstr m t cs"
proof (induction cs arbitrary: t)
  case Nil
  from Nil [of 0] show ?case by simp
next
  case (Cons c cs)
  have "x \<noteq> t" using Cons.prems [of 0] by simp
  moreover have "is_cstr (m(x := v)) (t + 1) cs = is_cstr m (t + 1) cs"
  proof (rule Cons.IH)
    fix j assume "j \<le> length cs"
    with Cons.prems [of "Suc j"] show "x \<noteq> t + 1 + of_nat j" by (simp add: algebra_simps)
  qed
  moreover have "(m(x := v)) t = m t" using \<open>x \<noteq> t\<close> by simp
  ultimately show ?case by (simp only: is_cstr.simps)
qed

lemma apart_0: "apart s (Suc n) t k \<Longrightarrow> j < k \<Longrightarrow> s \<noteq> t + of_nat j"
proof -
  assume "apart s (Suc n) t k" and "j < k"
  then have "s + of_nat 0 \<noteq> t + of_nat j" unfolding apart_def by blast
  then show ?thesis by simp
qed

lemma apart_Suc: "apart s (Suc n) t (Suc k) \<Longrightarrow> apart (s + 1) n (t + 1) k"
  unfolding apart_def
proof (intro conjI allI impI)
  fix i j assume a: "Suc n \<le> 2 ^ 32 \<and> (\<forall>i<Suc n. \<forall>j<Suc k. s + of_nat i \<noteq> t + of_nat j)"
    and "i < n" and "j < k"
  then have "s + of_nat (Suc i) \<noteq> t + of_nat (Suc j)" by blast
  then show "s + 1 + of_nat i \<noteq> t + 1 + of_nat j" by (simp add: algebra_simps)
qed simp

lemma safestrcpy_loop_frame:
  "n < 2 ^ 32 \<Longrightarrow> \<not> unat (x - s) \<le> n \<Longrightarrow> safestrcpy_loop m s t n x = m x"
proof (induction n arbitrary: m s t)
  case 0
  then show ?case by auto
next
  case (Suc n)
  have ne: "x - s \<noteq> 0" using Suc.prems by auto
  have u: "unat (x - (s + 1)) = unat (x - s) - 1"
    using unat_word_minus_1 [OF ne] by (simp add: diff_diff_eq [symmetric])
  have xs: "x \<noteq> s" and xs1: "x \<noteq> s + 1" using Suc.prems by auto
  have "\<not> unat (x - (s + 1)) \<le> n" using Suc.prems u by linarith
  define m1 where "m1 = m(s := m t)"
  have "safestrcpy_loop m1 (s + 1) (t + 1) n x = m1 x"
    by (rule Suc.IH) (use Suc.prems \<open>\<not> unat (x - (s + 1)) \<le> n\<close> in simp_all)
  moreover have "m1 x = m x" and "(m1(s + 1 := 0)) x = m x" using xs xs1 by (simp_all add: m1_def)
  ultimately show ?case by (simp only: safestrcpy_loop.simps Let_def m1_def [symmetric] if_cancel split: if_split) simp
qed

lemma safestrcpy_loop_cstr:
  "is_cstr m t cs \<Longrightarrow> apart s (Suc n) t (Suc (length cs)) \<Longrightarrow>
   is_cstr (safestrcpy_loop m s t n) s (take n cs)"
proof (induction n arbitrary: m s t cs)
  case 0
  then show ?case by simp
next
  case (Suc n)
  show ?case
  proof (cases cs)
    case Nil
    have "s \<noteq> s + 1" by simp
    with Nil Suc.prems show ?thesis by (simp add: Let_def)
  next
    case (Cons c cs')
    define m1 where "m1 = m(s := m t)"
    have ap: "apart (s + 1) (Suc n) (t + 1) (Suc (length cs'))"
      using apart_Suc Suc.prems(2) Cons by simp
    have "is_cstr m1 (t + 1) cs'"
    proof -
      have "s \<noteq> t + 1 + of_nat j" if "j \<le> length cs'" for j
        using apart_0 [OF Suc.prems(2), of "Suc j"] that Cons by (simp add: algebra_simps)
      then show ?thesis unfolding m1_def using Suc.prems(1) Cons by (subst is_cstr_upd_other) auto
    qed
    then have "is_cstr (safestrcpy_loop m1 (s + 1) (t + 1) n) (s + 1) (take n cs')"
      using Suc.IH ap by blast
    moreover have "safestrcpy_loop m1 (s + 1) (t + 1) n s = m1 s"
    proof (rule safestrcpy_loop_frame)
      show n: "n < 2 ^ 32" using Suc.prems(2) by (simp add: apart_def)
      have "s - (s + 1) = 0 - 1" by simp
      also have "unat \<dots> = 2 ^ 64 - 1" by (subst unat_sub_if') simp
      finally have "unat (s - (s + 1)) = 2 ^ 64 - 1" .
      with n show "\<not> unat (s - (s + 1)) \<le> n" by simp
    qed
    ultimately show ?thesis using Suc.prems(1) Cons by (simp add: Let_def m1_def)
  qed
qed

text \<open>C6. \<^verbatim>\<open>safestrcpy\<close> into a buffer of \<open>n > 0\<close> bytes leaves a terminated string there, the source cut
  to \<open>n - 1\<close> characters, and writes nothing outside the buffer.\<close>

theorem safestrcpy_correct:
  assumes "is_cstr m t cs" and "0 < n" and "apart s (nat n) t (Suc (length cs))"
  shows "is_cstr (safestrcpy m s t n) s (take (nat n - 1) cs) \<and>
    (\<forall>x. \<not> unat (x - s) < nat n \<longrightarrow> safestrcpy m s t n x = m x)"
proof (intro conjI)
  have k: "nat n = Suc (nat n - 1)" using assms(2) by simp
  show "is_cstr (safestrcpy m s t n) s (take (nat n - 1) cs)"
    using safestrcpy_loop_cstr [OF assms(1), of s "nat n - 1"] assms k by (simp add: safestrcpy_def)
  show "\<forall>x. \<not> unat (x - s) < nat n \<longrightarrow> safestrcpy m s t n x = m x"
  proof (intro allI impI)
    fix x assume "\<not> unat (x - s) < nat n"
    then have "\<not> unat (x - s) \<le> nat n - 1" using k by linarith
    moreover have "nat n - 1 < 2 ^ 32" using assms(2,3) unfolding apart_def by linarith
    ultimately show "safestrcpy m s t n x = m x"
      using assms(2) by (simp add: safestrcpy_def safestrcpy_loop_frame)
  qed
qed

theorem safestrcpy_correct_witness:
  "is_cstr (safestrcpy demo_strings 0x300 0x200 3) 0x300 [115, 104]"
proof -
  have "(0x300 :: u64) + of_nat i \<noteq> 0x200 + of_nat j" if "i < 3" "j < 4" for i j
  proof
    assume "(0x300 :: u64) + of_nat i = 0x200 + of_nat j"
    then have "unat ((0x300 :: u64) + of_nat i) = unat ((0x200 :: u64) + of_nat j)" by (rule arg_cong)
    then show False using that by (simp add: unat_add_no_wrap unat_of_nat_small)
  qed
  then have "apart 0x300 3 0x200 4" by (simp add: apart_def)
  then have "apart 0x300 (nat 3) 0x200 (Suc (length [115, 104, 50 :: u8]))"
    by (simp add: eval_nat_numeral)
  moreover have "is_cstr demo_strings 0x200 [115, 104, 50]" by (simp add: demo_strings_def)
  ultimately show ?thesis
    using safestrcpy_correct [where m = demo_strings and t = "0x200" and cs = "[115, 104, 50]"
        and n = 3 and s = "0x300"]
    by simp
qed

end
