(* ===== verification/KState.thy ===== *)
theory KState imports Queue CString begin

text \<open>
  The state of the kernel: the structures that the headers declare (\<^verbatim>\<open>os/kalloc.h\<close>, \<^verbatim>\<open>os/vm.h\<close>,
  \<^verbatim>\<open>os/proc.h\<close>, the console of \<^verbatim>\<open>os/console.c\<close>) and one record that holds them all, the loads and
  stores that fault outside the kernel's mapping, and the loops over a range of pages.

  Structures from the object pools (\<^verbatim>\<open>struct mm\<close>, \<^verbatim>\<open>struct vma\<close>) live in stores of their own,
  indexed by their address; bytes (pages, page tables, trap frames, allocator bitmaps, the free
  list's links) live in \<open>mem\<close>. A process is its index in \<^verbatim>\<open>pool\<close>.
\<close>

section \<open>Structures\<close>

datatype alloc_id = Mm_alloc | Vma_alloc | Proc_alloc

datatype lock_id =
    L_kpage
  | L_alloc alloc_id
  | L_pid
  | L_wait
  | L_proc nat
  | L_mm u64
  | L_queue
  | L_cons
  | L_uart_tx

record allocator =
  pool_base :: u64
  pool_end :: u64
  bitmap :: u64
  object_size :: u64
  object_size_aligned :: u64
  allocated_count :: u64
  available_count :: u64
  max_count :: u64

record mm_struct =
  mm_pgt :: u64
  mm_vma :: u64
  mm_refcnt :: i32

record vma_struct =
  vma_owner :: u64
  vma_next :: u64
  vm_start :: u64
  vm_end :: u64
  pte_flags :: u64

datatype procstate = UNUSED | USED | SLEEPING | RUNNABLE | RUNNING | ZOMBIE

text \<open>The addresses processes sleep on: a \<^verbatim>\<open>struct proc\<close> and the console.\<close>

datatype chan = Ch_proc nat | Ch_cons

text \<open>
  A \<^verbatim>\<open>struct context\<close> is either the one a new process starts with, or the one \<^verbatim>\<open>swtch\<close> has saved in
  \<^verbatim>\<open>sched\<close>. The saved registers and the kernel stack below them are then the local \<^verbatim>\<open>interrupt_on\<close> of
  \<^verbatim>\<open>sched\<close> and the call \<^verbatim>\<open>sched\<close> returns to, with the locals that call still needs: the \<^verbatim>\<open>yield\<close> of a
  timer interrupt, that of the system call, the \<^verbatim>\<open>sleep\<close> of \<^verbatim>\<open>wait\<close> and that of \<^verbatim>\<open>user_console_read\<close>,
  and \<^verbatim>\<open>exit\<close>, which never goes on.
\<close>

datatype kont =
    K_yield_trap
  | K_yield_sys
  | K_wait i32 u64
  | K_read u64 i64 u32
  | K_exit

datatype saved_context = Ctx u64 u64 | In_sched bool kont

record proc =
  p_state :: procstate
  p_pid :: i32
  p_exit_code :: u64
  p_sleep_chan :: "chan option"
  p_killed :: bool
  p_parent :: "nat option"
  p_mm :: u64
  p_vma_ustack :: u64
  p_vma_brk :: u64
  p_vma_trapframe :: u64
  p_vma_trampoline :: u64
  p_trapframe :: u64
  p_kstack :: u64
  p_context :: saved_context

record console =
  cons_buf :: "u8 list"
  cons_r :: u32
  cons_w :: u32
  cons_e :: u32

text \<open>An entry of \<^verbatim>\<open>user_apps\<close>, and the control registers of one hart.\<close>

record user_app =
  app_name :: u64
  elf_address :: u64
  elf_length :: u64

record csrs =
  csr_sie :: u64
  csr_sstatus :: u64
  csr_scause :: u64
  csr_stval :: u64
  csr_sepc :: u64
  csr_stvec :: u64
  csr_satp :: u64
  csr_timecmp :: u64

text \<open>
  The symbols of the linker script: the sections of the kernel image and the code the kernel jumps
  to; and the address of the string literal \<^verbatim>\<open>INIT_PROC\<close>.
\<close>

record image =
  s_text :: u64
  e_text :: u64
  s_rodata :: u64
  e_rodata :: u64
  s_data :: u64
  e_bss :: u64
  skernel :: u64
  ekernel :: u64
  first_sched_ret_addr :: u64
  kernel_trap_entry :: u64
  trampoline_addr :: u64
  uservec_addr :: u64
  userret_addr :: u64
  usertrap_addr :: u64
  init_proc_name :: u64
  entry_secondary_cpu :: u64
  s_bss :: u64
  relocate_pagetables :: "u64 list"

text \<open>
  The kernel. \<open>kmap\<close> says which addresses the kernel's page table maps readable and writable;
  \<open>uart_in\<close> is what the UART has received and the kernel has not read, \<open>uart_out\<close> what the
  kernel has sent, \<open>plic_in\<close> what the interrupt controller will answer to the next claims, and
  \<open>mmio\<close> the writes to the other device registers, the latest first. \<open>cycle\<close> is what the time
  register reads. \<open>proc_addr\<close> is the array \<^verbatim>\<open>pool\<close> of pointers. \<open>local_buf\<close> is the address the compiler gives, on the kernel stack, to the array or
  the variable that a system call copies from or to (a system call has at most one).
\<close>

record kst =
  smp :: "lock_id smp"
  mem :: mem
  kmap :: "u64 \<Rightarrow> bool"
  freelist :: u64
  kalloc_inited :: bool
  kpage_allocator_base :: u64
  kpage_allocator_size :: u64
  allocs :: "alloc_id \<Rightarrow> allocator"
  mms :: "u64 \<Rightarrow> mm_struct"
  vmas :: "u64 \<Rightarrow> vma_struct"
  proc_pool :: "nat \<Rightarrow> proc"
  init_proc :: nat
  next_pid :: i32
  task_queue :: "nat queue"
  cons :: console
  uart_inited :: bool
  panicked :: bool
  uart_in :: "u8 list"
  uart_out :: "u8 list"
  plic_in :: "u32 list"
  mmio :: "(u64 \<times> u32) list"
  cycle :: u64
  regs :: "nat \<Rightarrow> csrs"
  local_buf :: u64
  user_apps :: "user_app list"
  img :: image
  kernel_pagetable :: u64
  init_page_allocator :: u64
  init_page_allocator_base :: u64
  kernel_image_end_4k :: u64
  kernel_image_end_2M :: u64
  sched_kstack_top :: "nat \<Rightarrow> u64"
  allocator_mapped_va :: u64
  proc_inited :: bool
  proc_addr :: "nat \<Rightarrow> u64"
  booted_count :: i32
  halt_specific_init :: bool
  print_lock :: bool

section \<open>Locks in the kernel state\<close>

definition k_acquire :: "lock_id \<Rightarrow> kst \<Rightarrow> halt + kst" where
  "k_acquire l s = kbind (acquire l (smp s)) (\<lambda>m. Inr (s\<lparr>smp := m\<rparr>))"

definition k_release :: "lock_id \<Rightarrow> kst \<Rightarrow> halt + kst" where
  "k_release l s = kbind (release l (smp s)) (\<lambda>m. Inr (s\<lparr>smp := m\<rparr>))"

definition k_spinlock_init :: "lock_id \<Rightarrow> kst \<Rightarrow> kst" where
  "k_spinlock_init l s = s\<lparr>smp := (smp s)\<lparr>locks := (locks (smp s))(l := spinlock_init)\<rparr>\<rparr>"

definition k_ready :: "kst \<Rightarrow> bool" where
  "k_ready s \<longleftrightarrow> cpu_ready (smp s)"

definition k_free :: "lock_id \<Rightarrow> kst \<Rightarrow> bool" where
  "k_free l s \<longleftrightarrow> lock_free l (smp s)"

abbreviation k_take :: "lock_id \<Rightarrow> kst \<Rightarrow> kst" where
  "k_take l s \<equiv> s\<lparr>smp := take_lock l (smp s)\<rparr>"

abbreviation k_settle :: "kst \<Rightarrow> kst" where
  "k_settle s \<equiv> s\<lparr>smp := settle (smp s)\<rparr>"

lemma k_acquire_free: "k_ready s \<Longrightarrow> k_free l s \<Longrightarrow> k_acquire l s = Inr (k_take l s)"
  by (simp add: k_acquire_def k_ready_def k_free_def acquire_free)

lemma k_release_taken:
  "cpu_ready m \<Longrightarrow> lock_free l m \<Longrightarrow> smp s = take_lock l m \<Longrightarrow> k_release l s = Inr (s\<lparr>smp := settle m\<rparr>)"
  by (simp add: k_release_def release_taken)

section \<open>Memory accesses\<close>

definition mapped :: "kst \<Rightarrow> u64 \<Rightarrow> nat \<Rightarrow> bool" where
  "mapped s a n \<longleftrightarrow> (\<forall>i < n. kmap s (a + of_nat i))"

definition page_mapped :: "kst \<Rightarrow> u64 \<Rightarrow> bool" where
  "page_mapped s p \<longleftrightarrow> mapped s p 4096"

definition load64 :: "u64 \<Rightarrow> kst \<Rightarrow> halt + u64" where
  "load64 a s = (if mapped s a 8 then Inr (ld64 (mem s) a) else Inl (Page_fault a))"

definition store64 :: "u64 \<Rightarrow> u64 \<Rightarrow> kst \<Rightarrow> halt + kst" where
  "store64 a v s = (if mapped s a 8 then Inr (s\<lparr>mem := st64 (mem s) a v\<rparr>) else Inl (Page_fault a))"

definition load8 :: "u64 \<Rightarrow> kst \<Rightarrow> halt + u8" where
  "load8 a s = (if kmap s a then Inr (mem s a) else Inl (Page_fault a))"

definition store8 :: "u64 \<Rightarrow> u8 \<Rightarrow> kst \<Rightarrow> halt + kst" where
  "store8 a v s = (if kmap s a then Inr (s\<lparr>mem := (mem s)(a := v)\<rparr>) else Inl (Page_fault a))"

text \<open>16- and 32-bit fields, little-endian.\<close>

definition ld16 :: "mem \<Rightarrow> u64 \<Rightarrow> 16 word" where
  "ld16 m a = ucast (m a) OR push_bit 8 (ucast (m (a + 1)))"

definition ld32 :: "mem \<Rightarrow> u64 \<Rightarrow> u32" where
  "ld32 m a = fold (\<lambda>i w. w OR push_bit (8 * i) (ucast (m (a + of_nat i)))) [0..<4] 0"

definition st32 :: "mem \<Rightarrow> u64 \<Rightarrow> u32 \<Rightarrow> mem" where
  "st32 m a v = (\<lambda>x. if x - a < 4 then ucast (drop_bit (8 * unat (x - a)) v) else m x)"

definition load16 :: "u64 \<Rightarrow> kst \<Rightarrow> halt + 16 word" where
  "load16 a s = (if mapped s a 2 then Inr (ld16 (mem s) a) else Inl (Page_fault a))"

definition load32 :: "u64 \<Rightarrow> kst \<Rightarrow> halt + u32" where
  "load32 a s = (if mapped s a 4 then Inr (ld32 (mem s) a) else Inl (Page_fault a))"

definition store32 :: "u64 \<Rightarrow> u32 \<Rightarrow> kst \<Rightarrow> halt + kst" where
  "store32 a v s = (if mapped s a 4 then Inr (s\<lparr>mem := st32 (mem s) a v\<rparr>) else Inl (Page_fault a))"

definition k_memset :: "u64 \<Rightarrow> i32 \<Rightarrow> u32 \<Rightarrow> kst \<Rightarrow> halt + kst" where
  "k_memset dst c n s =
     (if mapped s dst (unat n) then Inr (s\<lparr>mem := memset (mem s) dst c n\<rparr>) else Inl (Page_fault dst))"

definition k_memmove :: "u64 \<Rightarrow> u64 \<Rightarrow> u32 \<Rightarrow> kst \<Rightarrow> halt + kst" where
  "k_memmove dst src n s =
     (if \<not> mapped s src (unat n) then Inl (Page_fault src)
      else if \<not> mapped s dst (unat n) then Inl (Page_fault dst)
      else Inr (s\<lparr>mem := memmove (mem s) dst src n\<rparr>))"

lemma page_mapped_iff: "page_mapped s p \<longleftrightarrow> (\<forall>x. in_page p x \<longrightarrow> kmap s x)"
proof
  assume a: "page_mapped s p"
  show "\<forall>x. in_page p x \<longrightarrow> kmap s x"
  proof (intro allI impI)
    fix x assume "in_page p x"
    then have "unat (x - p) < 4096" by (simp add: in_page_def word_less_nat_alt)
    with a have "kmap s (p + of_nat (unat (x - p)))" unfolding page_mapped_def mapped_def by blast
    then show "kmap s x" by simp
  qed
next
  assume a: "\<forall>x. in_page p x \<longrightarrow> kmap s x"
  show "page_mapped s p" unfolding page_mapped_def mapped_def
  proof (intro allI impI)
    fix i :: nat assume "i < 4096"
    then have "in_page p (p + of_nat i)" by (simp add: in_page_def word_less_nat_alt unat_of_nat_small)
    with a show "kmap s (p + of_nat i)" by blast
  qed
qed

lemma mapped_slot: "page_mapped s p \<Longrightarrow> i < 512 \<Longrightarrow> mapped s (slot p i) 8"
  unfolding mapped_def
proof (intro allI impI)
  fix k :: nat assume "page_mapped s p" "i < 512" "k < 8"
  moreover from \<open>k < 8\<close> have "(of_nat k :: u64) < 8" by (simp add: word_less_nat_alt unat_of_nat_small)
  ultimately show "kmap s (slot p i + of_nat k)"
    using slot_byte_in_page by (simp add: page_mapped_iff)
qed

lemma load64_slot: "page_mapped s p \<Longrightarrow> i < 512 \<Longrightarrow> load64 (slot p i) s = Inr (ld64 (mem s) (slot p i))"
  by (simp add: load64_def mapped_slot)

lemma store64_slot:
  "page_mapped s p \<Longrightarrow> i < 512 \<Longrightarrow> store64 (slot p i) v s = Inr (s\<lparr>mem := st64 (mem s) (slot p i) v\<rparr>)"
  by (simp add: store64_def mapped_slot)

lemma slot_0 [simp]: "slot p 0 = p"
  by (simp add: slot_def)

lemma load64_page: "page_mapped s p \<Longrightarrow> load64 p s = Inr (ld64 (mem s) p)"
  using load64_slot [of s p 0] by simp

lemma store64_page: "page_mapped s p \<Longrightarrow> store64 p v s = Inr (s\<lparr>mem := st64 (mem s) p v\<rparr>)"
  using store64_slot [of s p 0] by simp

text \<open>Filling a whole page.\<close>

definition fill_page :: "mem \<Rightarrow> u64 \<Rightarrow> u8 \<Rightarrow> mem" where
  "fill_page m p c = (\<lambda>x. if in_page p x then c else m x)"

lemma k_memset_page:
  "page_mapped s p \<Longrightarrow> k_memset p c 4096 s = Inr (s\<lparr>mem := fill_page (mem s) p (ucast c)\<rparr>)"
  by (simp add: k_memset_def page_mapped_def memset_eq fill_page_def in_page_def word_less_nat_alt)

lemma ld64_outside:
  assumes "\<And>x. \<not> in_page p x \<Longrightarrow> m' x = m x" and "PGALIGNED p" and "PGALIGNED q" and "p \<noteq> q" and "i < 512"
  shows "ld64 m' (slot q i) = ld64 m (slot q i)"
proof (rule ld64_cong)
  fix k :: nat assume "k < 8"
  then have "in_page q (slot q i + of_nat k)"
    using assms(5) slot_byte_in_page by (simp add: word_less_nat_alt unat_of_nat_small)
  then have "\<not> in_page p (slot q i + of_nat k)" using assms in_page_disjoint by blast
  then show "m' (slot q i + of_nat k) = m (slot q i + of_nat k)" by (rule assms(1))
qed

lemma ld64_fill_same: "i < 512 \<Longrightarrow> ld64 (fill_page m p 0) (slot p i) = 0"
proof (rule bit_eqI)
  fix n assume i: "i < 512" and "possible_bit TYPE(64 word) n"
  then have "n div 8 < 8" by auto
  then have "in_page p (slot p i + of_nat (n div 8))"
    using i slot_byte_in_page by (simp add: word_less_nat_alt unat_of_nat_small)
  then show "bit (ld64 (fill_page m p 0) (slot p i)) n = bit 0 n"
    by (simp add: bit_ld64 fill_page_def)
qed

lemma st64_outside: "i < 512 \<Longrightarrow> \<not> in_page p x \<Longrightarrow> st64 m (slot p i) v x = m x"
proof -
  assume i: "i < 512" and x: "\<not> in_page p x"
  have "\<not> x - slot p i < 8"
  proof
    assume "x - slot p i < 8"
    then have "in_page p (slot p i + (x - slot p i))" using i slot_byte_in_page by blast
    with x show False by simp
  qed
  then show ?thesis by (simp add: st64_def)
qed

lemma ld64_st64_slot:
  assumes "i < 512" and "j < 512" and "PGALIGNED p" and "PGALIGNED q"
  shows "ld64 (st64 m (slot p i) v) (slot q j) = (if p = q \<and> i = j then v else ld64 m (slot q j))"
proof (cases "p = q")
  case True
  then show ?thesis using slots_apart [of j i p] assms by (auto intro: ld64_st64_other)
next
  case False
  then have "ld64 (st64 m (slot p i) v) (slot q j) = ld64 m (slot q j)"
    by (intro ld64_outside [of p]) (use assms st64_outside in auto)
  with False show ?thesis by simp
qed

section \<open>Ranges of pages\<close>

text \<open>
  The addresses a loop \<^verbatim>\<open>for (va = lo; va < hi; va += PGSIZE)\<close> visits. The inner test is for an
  addition that passes the end of the address space, where the loop would start again at 0; with
  page-aligned bounds it is never true.
\<close>

function page_range :: "u64 \<Rightarrow> u64 \<Rightarrow> u64 list" where
  "page_range lo hi =
     (if lo < hi then lo # (if lo + PGSIZE < lo then [] else page_range (lo + PGSIZE) hi) else [])"
  by pat_completeness auto
termination
proof (relation "measure (\<lambda>(lo, hi). 2 ^ 64 - unat lo)")
  fix lo hi :: u64
  assume a: "lo < hi" "\<not> lo + PGSIZE < lo"
  have "lo + PGSIZE \<noteq> lo" by (simp add: PGSIZE_def)
  with a(2) have "unat lo < unat (lo + PGSIZE)" by (metis linorder_neqE_nat word_less_nat_alt unat_inj)
  moreover have "unat (lo + PGSIZE) < 2 ^ 64" using unat_less_2p [of "lo + PGSIZE"] by simp
  ultimately show "((lo + PGSIZE, hi), lo, hi) \<in> measure (\<lambda>(lo, hi). 2 ^ 64 - unat lo)" by simp
qed simp

declare page_range.simps [simp del]

lemma page_range_empty [simp]: "\<not> lo < hi \<Longrightarrow> page_range lo hi = []"
  by (simp add: page_range.simps)

lemma page_step_no_wrap:
  assumes "PGALIGNED lo" and "PGALIGNED hi" and "lo < hi"
  shows "unat (lo + PGSIZE) = unat lo + 4096" and "lo + PGSIZE \<le> hi"
proof -
  obtain k j where k: "unat lo = 4096 * k" and j: "unat hi = 4096 * j"
    using assms(1,2) by (auto simp: PGALIGNED_iff dvd_def)
  then have le: "unat lo + 4096 \<le> unat hi" using assms(3) by (simp add: word_less_nat_alt)
  moreover have "unat hi < 2 ^ 64" using unat_less_2p [of hi] by simp
  ultimately show "unat (lo + PGSIZE) = unat lo + 4096" by (simp add: unat_add_no_wrap)
  with le show "lo + PGSIZE \<le> hi" by (simp add: word_le_nat_alt)
qed

lemma page_range_step:
  assumes "PGALIGNED lo" and "PGALIGNED hi" and "lo < hi"
  shows "page_range lo hi = lo # page_range (lo + PGSIZE) hi"
proof -
  have "\<not> lo + PGSIZE < lo" using page_step_no_wrap(1) [OF assms] by (simp add: word_less_nat_alt)
  then show ?thesis using assms(3) by (simp add: page_range.simps [of lo hi])
qed

lemma page_range_induct [consumes 2, case_names stop step]:
  assumes "PGALIGNED lo" and "PGALIGNED hi"
    and stop: "\<And>lo. \<not> lo < hi \<Longrightarrow> PGALIGNED lo \<Longrightarrow> P lo"
    and step: "\<And>lo. lo < hi \<Longrightarrow> PGALIGNED lo \<Longrightarrow> lo + PGSIZE \<le> hi \<Longrightarrow> P (lo + PGSIZE) \<Longrightarrow> P lo"
  shows "P lo"
  using assms(1)
proof (induction "unat hi - unat lo" arbitrary: lo rule: less_induct)
  case less
  show ?case
  proof (cases "lo < hi")
    case False
    then show ?thesis using stop less.prems by blast
  next
    case True
    note st = page_step_no_wrap [OF less.prems assms(2) True]
    have "P (lo + PGSIZE)"
      by (rule less.hyps) (use st True less.prems in \<open>auto simp: word_less_nat_alt PGALIGNED_step\<close>)
    with step True less.prems st(2) show ?thesis by blast
  qed
qed

lemma set_page_range:
  assumes "PGALIGNED lo" and "PGALIGNED hi"
  shows "set (page_range lo hi) = {va. PGALIGNED va \<and> lo \<le> va \<and> va < hi}"
  using assms
proof (induction rule: page_range_induct)
  case (stop lo)
  then show ?case by auto
next
  case (step lo)
  have "va = lo \<or> lo + PGSIZE \<le> va" if "PGALIGNED va" "lo \<le> va" for va
    using page_step_no_wrap [OF step(2) that(1)] that(2) by fastforce
  moreover have "lo \<le> lo + PGSIZE"
    using page_step_no_wrap(1) [OF step(2) assms(2) step(1)] by (simp add: word_le_nat_alt)
  ultimately show ?case
    using step page_range_step [OF step(2) assms(2) step(1)] by auto
qed

lemma distinct_page_range:
  assumes "PGALIGNED lo" and "PGALIGNED hi"
  shows "distinct (page_range lo hi)"
  using assms
proof (induction rule: page_range_induct)
  case (step lo)
  have "lo \<notin> set (page_range (lo + PGSIZE) hi)"
    using set_page_range [OF PGALIGNED_step [OF step(2)] assms(2)]
      page_step_no_wrap(1) [OF step(2) assms(2) step(1)]
    by (auto simp: word_le_nat_alt)
  then show ?case using step page_range_step [OF step(2) assms(2) step(1)] by simp
qed simp

lemma page_range_snoc:
  assumes "PGALIGNED lo" and "PGALIGNED hi" and "lo < hi"
  shows "page_range lo hi = page_range lo (hi - PGSIZE) @ [hi - PGSIZE]"
  using assms
proof (induction rule: page_range_induct)
  case (step lo)
  note st = page_step_no_wrap [OF step(2) assms(2) step(1)] page_range_step [OF step(2) assms(2) step(1)]
  show ?case
  proof (cases "lo + PGSIZE < hi")
    case True
    have "unat (hi - PGSIZE) = unat hi - 4096"
      using st(1,2) by (simp add: unat_sub_le word_le_nat_alt)
    then have "lo < hi - PGSIZE" using st(1) True by (simp add: word_less_nat_alt)
    moreover have "PGALIGNED (hi - PGSIZE)"
      using PGALIGNED_add_iff [OF PGALIGNED_PGSIZE, of "hi - PGSIZE"] assms(2) by simp
    ultimately show ?thesis
      using step.IH True st(3) page_range_step [OF step(2), of "hi - PGSIZE"] by simp
  next
    case False
    then have "hi = lo + PGSIZE" using step(3) by simp
    then show ?thesis using st(3) by simp
  qed
qed simp

section \<open>An example state\<close>

text \<open>All memory mapped and zero, four pages of which the first is on the free list.\<close>

definition idle_proc :: proc where
  "idle_proc = \<lparr>p_state = UNUSED, p_pid = 0, p_exit_code = 0, p_sleep_chan = None, p_killed = False,
     p_parent = None, p_mm = 0, p_vma_ustack = 0, p_vma_brk = 0, p_vma_trapframe = 0,
     p_vma_trampoline = 0, p_trapframe = 0, p_kstack = 0, p_context = Ctx 0 0\<rparr>"

definition idle_allocator :: allocator where
  "idle_allocator = \<lparr>pool_base = 0, pool_end = 0, bitmap = 0, object_size = 0, object_size_aligned = 0,
     allocated_count = 0, available_count = 0, max_count = 0\<rparr>"

definition idle_csrs :: csrs where
  "idle_csrs = \<lparr>csr_sie = 0, csr_sstatus = 0, csr_scause = 0, csr_stval = 0, csr_sepc = 0, csr_stvec = 0,
     csr_satp = 0, csr_timecmp = 0\<rparr>"

definition idle_image :: image where
  "idle_image = \<lparr>s_text = 0xffffffff80200000, e_text = 0xffffffff80210000, s_rodata = 0xffffffff80210000,
     e_rodata = 0xffffffff80214000, s_data = 0xffffffff80214000, e_bss = 0xffffffff80220000,
     skernel = 0xffffffff80200000, ekernel = 0xffffffff80220000, first_sched_ret_addr = 0xffffffff80201000,
     kernel_trap_entry = 0xffffffff80202000, trampoline_addr = 0xffffffff80203000,
     uservec_addr = 0xffffffff80203000, userret_addr = 0xffffffff80203100, usertrap_addr = 0xffffffff80204000,
     init_proc_name = 0xffffffff80211000, entry_secondary_cpu = 0xffffffff80200100, s_bss = 0xffffffff80218000,
     relocate_pagetables = [0xffffffff80214000, 0xffffffff80215000, 0xffffffff80216000, 0xffffffff80217000]\<rparr>"

definition boot_kst :: kst where
  "boot_kst = \<lparr>smp = boot_smp, mem = (\<lambda>_. 0), kmap = (\<lambda>_. True), freelist = 0xffffffc080400000,
     kalloc_inited = False, kpage_allocator_base = 0xffffffc080400000, kpage_allocator_size = 0x4000,
     allocs = (\<lambda>_. idle_allocator), mms = (\<lambda>_. \<lparr>mm_pgt = 0, mm_vma = 0, mm_refcnt = 0\<rparr>),
     vmas = (\<lambda>_. \<lparr>vma_owner = 0, vma_next = 0, vm_start = 0, vm_end = 0, pte_flags = 0\<rparr>),
     proc_pool = (\<lambda>_. idle_proc), init_proc = 0, next_pid = 1, task_queue = zero_queue 0,
     cons = \<lparr>cons_buf = replicate 128 0, cons_r = 0, cons_w = 0, cons_e = 0\<rparr>, uart_inited = False, panicked = False,
     uart_in = [], uart_out = [], plic_in = [], mmio = [], cycle = 0, regs = (\<lambda>_. idle_csrs), local_buf = 0x1000,
     user_apps = [], img = idle_image, kernel_pagetable = 0, init_page_allocator = 0, init_page_allocator_base = 0,
     kernel_image_end_4k = 0x80220000, kernel_image_end_2M = 0x80400000, sched_kstack_top = (\<lambda>_. 0),
     allocator_mapped_va = 0xfffffffd00000000, proc_inited = False, proc_addr = (\<lambda>_. 0), booted_count = 0,
     halt_specific_init = False, print_lock = False\<rparr>"

lemma boot_kst_ready [simp]: "k_ready boot_kst" "k_free l boot_kst"
  using boot_smp_ready by (simp_all add: k_ready_def k_free_def boot_kst_def)

lemma ld64_zero [simp]: "ld64 (\<lambda>_. 0) a = 0"
  by (rule bit_eqI) (simp add: bit_ld64)

end
