(* ===== verification/Uart.thy ===== *)
theory Uart imports KState begin

text \<open>
  The devices: the UART's registers and output (\<^verbatim>\<open>os/console.h\<close> and the lower half of
  \<^verbatim>\<open>os/console.c\<close>), the calls to the firmware (\<^verbatim>\<open>os/sbi.c\<close>), the timer (\<^verbatim>\<open>os/timer.c\<close>) and the
  interrupt controller (\<^verbatim>\<open>os/plic.c\<close>).

  The transmitter of the UART becomes idle, so that the wait for it ends. What the kernel writes to
  other device registers is recorded in \<open>mmio\<close>. Of the firmware the model has what the kernel asks
  it: a byte to print, the time of the next timer interrupt, and a hart to start; its answer to the
  last is a parameter.
\<close>

section \<open>Control registers\<close>

abbreviation hart_regs :: "kst \<Rightarrow> csrs" where
  "hart_regs s \<equiv> regs s (tp (smp s))"

definition upd_regs :: "(csrs \<Rightarrow> csrs) \<Rightarrow> kst \<Rightarrow> kst" where
  "upd_regs f s = s\<lparr>regs := (regs s)(tp (smp s) := f (regs s (tp (smp s))))\<rparr>"

definition SIE_SEIE :: u64 where "SIE_SEIE = push_bit 9 1"
definition SIE_STIE :: u64 where "SIE_STIE = push_bit 5 1"
definition SSTATUS_SPP :: u64 where "SSTATUS_SPP = push_bit 8 1"
definition SSTATUS_SPIE :: u64 where "SSTATUS_SPIE = push_bit 5 1"
definition SSTATUS_SIE :: u64 where "SSTATUS_SIE = push_bit 1 1"

text \<open>The interrupt bit of \<^verbatim>\<open>sstatus\<close> is the field \<open>c_sie\<close> of the CPU.\<close>

definition r_sstatus :: "kst \<Rightarrow> u64" where
  "r_sstatus s =
     (csr_sstatus (hart_regs s) AND NOT SSTATUS_SIE) OR (if intr_get (smp s) then SSTATUS_SIE else 0)"

definition w_sstatus :: "u64 \<Rightarrow> kst \<Rightarrow> kst" where
  "w_sstatus x s =
     (let s = upd_regs (\<lambda>r. r\<lparr>csr_sstatus := x\<rparr>) s in
      s\<lparr>smp := (if x AND SSTATUS_SIE \<noteq> 0 then intr_on (smp s) else intr_off (smp s))\<rparr>)"

definition r_sie :: "kst \<Rightarrow> u64" where "r_sie s = csr_sie (hart_regs s)"
definition w_sie :: "u64 \<Rightarrow> kst \<Rightarrow> kst" where "w_sie x = upd_regs (\<lambda>r. r\<lparr>csr_sie := x\<rparr>)"
definition w_sepc :: "u64 \<Rightarrow> kst \<Rightarrow> kst" where "w_sepc x = upd_regs (\<lambda>r. r\<lparr>csr_sepc := x\<rparr>)"
definition w_stvec :: "u64 \<Rightarrow> kst \<Rightarrow> kst" where "w_stvec x = upd_regs (\<lambda>r. r\<lparr>csr_stvec := x\<rparr>)"
definition w_satp :: "u64 \<Rightarrow> kst \<Rightarrow> kst" where "w_satp x = upd_regs (\<lambda>r. r\<lparr>csr_satp := x\<rparr>)"
definition r_satp :: "kst \<Rightarrow> u64" where "r_satp s = csr_satp (hart_regs s)"
definition r_scause :: "kst \<Rightarrow> u64" where "r_scause s = csr_scause (hart_regs s)"
definition r_stval :: "kst \<Rightarrow> u64" where "r_stval s = csr_stval (hart_regs s)"
definition r_time :: "kst \<Rightarrow> u64" where "r_time s = cycle s"

definition w_tp :: "nat \<Rightarrow> kst \<Rightarrow> kst" where "w_tp c s = s\<lparr>smp := (smp s)\<lparr>tp := c\<rparr>\<rparr>"

definition k_intr_on :: "kst \<Rightarrow> kst" where "k_intr_on s = s\<lparr>smp := intr_on (smp s)\<rparr>"
definition k_intr_off :: "kst \<Rightarrow> kst" where "k_intr_off s = s\<lparr>smp := intr_off (smp s)\<rparr>"

section \<open>The firmware\<close>

definition sbi_putchar :: "i32 \<Rightarrow> kst \<Rightarrow> kst" where
  "sbi_putchar c s = s\<lparr>uart_out := uart_out s @ [ucast c]\<rparr>"

definition set_timer :: "u64 \<Rightarrow> kst \<Rightarrow> kst" where
  "set_timer stime = upd_regs (\<lambda>r. r\<lparr>csr_timecmp := stime\<rparr>)"

section \<open>The timer\<close>

definition TICKS_PER_SEC :: u64 where "TICKS_PER_SEC = 100"
definition CPU_FREQ :: u64 where "CPU_FREQ = 12500000"

definition get_cycle :: "kst \<Rightarrow> u64" where "get_cycle s = r_time s"

definition set_next_timer :: "kst \<Rightarrow> kst" where
  "set_next_timer s = (let timebase = CPU_FREQ div TICKS_PER_SEC in set_timer (get_cycle s + timebase) s)"

definition timer_init :: "kst \<Rightarrow> kst" where
  "timer_init s = set_next_timer (w_sie (r_sie s OR SIE_STIE) s)"

section \<open>The interrupt controller\<close>

definition KERNEL_DEVICE_MMIO_BASE :: u64 where "KERNEL_DEVICE_MMIO_BASE = 0xffffffffd0000000"
definition KERNEL_PLIC_BASE :: u64 where "KERNEL_PLIC_BASE = KERNEL_DEVICE_MMIO_BASE"
definition KERNEL_PLIC_SIZE :: u64 where "KERNEL_PLIC_SIZE = 0x4000000"
definition KERNEL_UART0_BASE :: u64 where "KERNEL_UART0_BASE = KERNEL_DEVICE_MMIO_BASE + KERNEL_PLIC_SIZE"
definition KERNEL_UART0_SIZE :: u64 where "KERNEL_UART0_SIZE = PGSIZE"
definition UART0_IRQ :: u32 where "UART0_IRQ = 10"

definition PLIC_SENABLE :: "u64 \<Rightarrow> u64" where "PLIC_SENABLE hart = KERNEL_PLIC_BASE + 0x2080 + hart * 0x100"
definition PLIC_SPRIORITY :: "u64 \<Rightarrow> u64" where "PLIC_SPRIORITY hart = KERNEL_PLIC_BASE + 0x201000 + hart * 0x2000"
definition PLIC_SCLAIM :: "u64 \<Rightarrow> u64" where "PLIC_SCLAIM hart = KERNEL_PLIC_BASE + 0x201004 + hart * 0x2000"

definition mmio_write :: "u64 \<Rightarrow> u32 \<Rightarrow> kst \<Rightarrow> kst" where
  "mmio_write a v s = s\<lparr>mmio := (a, v) # mmio s\<rparr>"

abbreviation mhart :: "kst \<Rightarrow> nat \<Rightarrow> u64" where
  "mhart s c \<equiv> of_nat (c_mhart_id (cpus (smp s) c))"

definition plicinit :: "kst \<Rightarrow> kst" where
  "plicinit = mmio_write (KERNEL_PLIC_BASE + ucast UART0_IRQ * 4) 1"

definition plicinithart :: "kst \<Rightarrow> halt + kst" where
  "plicinithart s =
     kbind (mycpu (smp s)) (\<lambda>c.
     let hart = mhart s c;
         s = mmio_write (PLIC_SENABLE hart) (push_bit (unat UART0_IRQ) 1) s;
         s = mmio_write (PLIC_SPRIORITY hart) 0 s in
     Inr (w_sie (r_sie s OR SIE_SEIE) s))"

text \<open>A claim answers the next pending interrupt, 0 when there is none.\<close>

definition plic_claim :: "kst \<Rightarrow> halt + u32 \<times> kst" where
  "plic_claim s =
     kbind (mycpu (smp s)) (\<lambda>_. case plic_in s of [] \<Rightarrow> Inr (0, s) | i # is \<Rightarrow> Inr (i, s\<lparr>plic_in := is\<rparr>))"

definition plic_complete :: "u32 \<Rightarrow> kst \<Rightarrow> halt + kst" where
  "plic_complete irq s = kbind (mycpu (smp s)) (\<lambda>c. Inr (mmio_write (PLIC_SCLAIM (mhart s c)) irq s))"

section \<open>The UART\<close>

definition IER :: u64 where "IER = 1"
definition IER_RX_ENABLE :: u32 where "IER_RX_ENABLE = push_bit 0 1"
definition FCR :: u64 where "FCR = 2"
definition FCR_FIFO_ENABLE :: u32 where "FCR_FIFO_ENABLE = push_bit 0 1"
definition FCR_FIFO_CLEAR :: u32 where "FCR_FIFO_CLEAR = push_bit 1 3"
definition LCR :: u64 where "LCR = 3"
definition LCR_EIGHT_BITS :: u32 where "LCR_EIGHT_BITS = push_bit 0 3"
definition LCR_BAUD_LATCH :: u32 where "LCR_BAUD_LATCH = push_bit 7 1"

definition WriteReg :: "u64 \<Rightarrow> u32 \<Rightarrow> kst \<Rightarrow> kst" where
  "WriteReg reg v = mmio_write (KERNEL_UART0_BASE + reg) v"

text \<open>The holding registers: a byte to send, and the next byte received.\<close>

definition uart_putchar :: "i32 \<Rightarrow> kst \<Rightarrow> kst" where
  "uart_putchar ch s =
     (let intr = intr_get (smp s);
          s = k_intr_off s;
          s = s\<lparr>uart_out := uart_out s @ [ucast ch]\<rparr> in
      if intr then k_intr_on s else s)"

definition uartgetc :: "kst \<Rightarrow> u8 option \<times> kst" where
  "uartgetc s = (case uart_in s of [] \<Rightarrow> (None, s) | c # cs \<Rightarrow> (Some c, s\<lparr>uart_in := cs\<rparr>))"

definition consputc :: "i32 \<Rightarrow> kst \<Rightarrow> kst" where
  "consputc c s = (if \<not> uart_inited s \<or> panicked s then sbi_putchar c s else uart_putchar c s)"

definition console_init :: "kst \<Rightarrow> halt + kst" where
  "console_init s =
     (if uart_inited s then Inl (Panic ''assertion failed: !uart_inited'')
      else
        let s = k_spinlock_init L_uart_tx s;
            s = k_spinlock_init L_cons s;
            s = WriteReg IER 0 s;
            s = WriteReg LCR LCR_BAUD_LATCH s;
            s = WriteReg 0 3 s;
            s = WriteReg 1 0 s;
            s = WriteReg LCR LCR_EIGHT_BITS s;
            s = WriteReg FCR (FCR_FIFO_ENABLE OR FCR_FIFO_CLEAR) s;
            s = WriteReg IER IER_RX_ENABLE s in
        Inr (s\<lparr>uart_inited := True\<rparr>))"

section \<open>What they do\<close>

lemma intr_on_off [simp]: "intr_get m \<Longrightarrow> intr_on (intr_off m) = m"
proof (cases m)
  case (fields cs ls c)
  assume "intr_get m"
  moreover obtain h p k n i e where "cs c = \<lparr>c_mhart_id = h, c_proc = p, c_inkernel_trap = k, c_noff = n,
      c_interrupt_on = i, c_sie = e\<rparr>"
    by (cases "cs c")
  ultimately show ?thesis using fields by (simp add: cpu_ops fun_upd_idem)
qed

lemma intr_off_idle [simp]: "\<not> intr_get m \<Longrightarrow> intr_off m = m"
proof (cases m)
  case (fields cs ls c)
  assume "\<not> intr_get m"
  moreover obtain h p k n i e where "cs c = \<lparr>c_mhart_id = h, c_proc = p, c_inkernel_trap = k, c_noff = n,
      c_interrupt_on = i, c_sie = e\<rparr>"
    by (cases "cs c")
  ultimately show ?thesis using fields by (simp add: cpu_ops fun_upd_idem)
qed

lemma uart_putchar_eq: "uart_putchar ch s = s\<lparr>uart_out := uart_out s @ [ucast ch]\<rparr>"
  by (simp add: uart_putchar_def Let_def k_intr_on_def k_intr_off_def)

lemma consputc_eq: "consputc c s = s\<lparr>uart_out := uart_out s @ [ucast c]\<rparr>"
  by (simp add: consputc_def sbi_putchar_def uart_putchar_eq)

end
