(* ===== verification/Printf.thy ===== *)
theory Printf imports Uart "HOL-Library.Char_ord" begin

text \<open>
  \<^verbatim>\<open>printf\<close> of \<^verbatim>\<open>os/printf.c\<close>.

  A format is its characters, or \<open>None\<close> for the null pointer; a character 0 ends it, as it ends a string that is
  printed. A variadic argument is a word in a register, or a string (\<open>None\<close> is the null pointer): a conversion that
  takes an argument of the other kind, or takes one more than there are, is undefined in C. The word
  \<^verbatim>\<open>print_lock\<close> is \<open>print_lock\<close> of the state.
\<close>

section \<open>Operations\<close>

definition byte :: "char \<Rightarrow> i32" where "byte c = of_nat (of_char c)"

definition digits :: string where "digits = ''0123456789abcdef''"

abbreviation putc :: "char \<Rightarrow> kst \<Rightarrow> kst" where "putc c \<equiv> consputc (byte c)"

definition cstr :: "string \<Rightarrow> string" where "cstr cs = takeWhile (\<lambda>c. c \<noteq> CHR 0x00) cs"

text \<open>
  The first loop of \<^verbatim>\<open>printint\<close> (whose \<^verbatim>\<open>-xx\<close> overflows for the smallest number, which C leaves undefined): the digits, the lowest first, into an array with room for \<open>room\<close> more. The
  array \<^verbatim>\<open>digits\<close> ends with a character 0. Writing or reading behind an array is undefined.
\<close>

fun digit_loop :: "nat \<Rightarrow> u32 \<Rightarrow> u32 \<Rightarrow> halt + string" where
  "digit_loop 0 base x = Inl (Undefined ''buf'')"
| "digit_loop (Suc room) base x =
     (if base = 0 then Inl (Undefined ''division by zero'')
      else if length digits < unat (x mod base) then Inl (Undefined ''digits'')
      else
        let c = (digits @ [CHR 0x00]) ! unat (x mod base); x = x div base in
        if x = 0 then Inr [c] else kbind (digit_loop room base x) (\<lambda>buf. Inr (c # buf)))"

definition printint :: "i32 \<Rightarrow> u32 \<Rightarrow> bool \<Rightarrow> kst \<Rightarrow> halt + kst" where
  "printint xx base sign s =
     (let neg = sign \<and> sint xx < 0;
          x = (if neg then - xx else xx) in
      if neg \<and> sint xx = - (2 ^ 31) then Inl (Undefined ''signed overflow'')
      else kbind (digit_loop 16 base x) (\<lambda>buf.
      if neg \<and> length buf = 16 then Inl (Undefined ''buf'')
      else
        let buf = (if neg then buf @ ''-'' else buf) in
        Inr (fold putc (rev buf) s)))"

fun ptr_loop :: "nat \<Rightarrow> u64 \<Rightarrow> kst \<Rightarrow> kst" where
  "ptr_loop 0 x s = s"
| "ptr_loop (Suc i) x s = ptr_loop i (push_bit 4 x) (putc (digits ! unat (drop_bit 60 x)) s)"

definition printptr :: "u64 \<Rightarrow> kst \<Rightarrow> kst" where
  "printptr x s = ptr_loop 16 x (putc CHR ''x'' (putc CHR ''0'' s))"

datatype parg = Arg u64 | Str "string option"

fun va_word :: "parg list \<Rightarrow> halt + u64 \<times> parg list" where
  "va_word (Arg w # ap) = Inr (w, ap)"
| "va_word _ = Inl (Undefined ''va_arg'')"

fun va_str :: "parg list \<Rightarrow> halt + string option \<times> parg list" where
  "va_str (Str w # ap) = Inr (w, ap)"
| "va_str _ = Inl (Undefined ''va_arg'')"

fun printf_loop :: "string \<Rightarrow> parg list \<Rightarrow> kst \<Rightarrow> halt + kst" where
  "printf_loop [] ap s = Inr s"
| "printf_loop (c # fmt) ap s =
     (if c \<noteq> CHR ''%'' then printf_loop fmt ap (putc c s)
      else
        case fmt of
          [] \<Rightarrow> Inr s
        | c # fmt \<Rightarrow>
            (if c = CHR ''d'' then kbind (va_word ap) (\<lambda>(x, ap). kbind (printint (ucast x) 10 True s) (\<lambda>s. printf_loop fmt ap s))
             else if c = CHR ''x'' then kbind (va_word ap) (\<lambda>(x, ap). kbind (printint (ucast x) 16 True s) (\<lambda>s. printf_loop fmt ap s))
             else if c = CHR ''p'' then kbind (va_word ap) (\<lambda>(x, ap). printf_loop fmt ap (printptr x s))
             else if c = CHR ''s'' then
               kbind (va_str ap) (\<lambda>(x, ap).
               printf_loop fmt ap (fold putc (case x of None \<Rightarrow> ''(null)'' | Some cs \<Rightarrow> cstr cs) s))
             else if c = CHR ''c'' then kbind (va_word ap) (\<lambda>(x, ap). printf_loop fmt ap (consputc (ucast x) s))
             else if c = CHR ''%'' then printf_loop fmt ap (putc CHR ''%'' s)
             else printf_loop fmt ap (putc c (putc CHR ''%'' s))))"

definition printf :: "string option \<Rightarrow> parg list \<Rightarrow> kst \<Rightarrow> halt + kst" where
  "printf fmt ap s =
     (case fmt of
        None \<Rightarrow> Inl (Panic ''null fmt'')
      | Some fmt \<Rightarrow>
          let intr = intr_get (smp s); s = k_intr_off s in
          if print_lock s then Inl Spin
          else
            let s = s\<lparr>print_lock := True\<rparr> in
            kbind (printf_loop (cstr fmt) ap s) (\<lambda>s.
            let s = s\<lparr>print_lock := False\<rparr> in
            Inr (if intr then k_intr_on s else s)))"

section \<open>What is printed\<close>

text \<open>The bytes of a formatted message.\<close>

definition out_bytes :: "string \<Rightarrow> u8 list" where "out_bytes cs = map (\<lambda>c. ucast (byte c)) cs"

definition emit :: "u8 list \<Rightarrow> kst \<Rightarrow> kst" where "emit bs s = s\<lparr>uart_out := uart_out s @ bs\<rparr>"

lemma emit_Nil [simp]: "emit [] s = s"
  by (simp add: emit_def)

lemma emit_emit [simp]: "emit bs (emit as s) = emit (as @ bs) s"
  by (simp add: emit_def)

lemma consputc_emit: "consputc c s = emit [ucast c] s"
  by (simp add: consputc_eq emit_def)

lemma fold_putc: "fold putc cs s = emit (out_bytes cs) s"
  by (induction cs arbitrary: s) (simp_all add: consputc_emit out_bytes_def)

text \<open>The specification: numbers in the usual notation, from the value.\<close>

fun num_text :: "nat \<Rightarrow> nat \<Rightarrow> string" where
  "num_text base n = (if base < 2 \<or> n < base then [digits ! n] else num_text base (n div base) @ [digits ! (n mod base)])"

declare num_text.simps [simp del]

definition int_text :: "nat \<Rightarrow> int \<Rightarrow> string" where
  "int_text base i = (if i < 0 then CHR ''-'' # num_text base (nat (- i)) else num_text base (nat i))"

lemma num_text_nonempty: "num_text base n \<noteq> []"
  by (subst num_text.simps) simp

lemma digit_nth: "i < 16 \<Longrightarrow> (digits @ cs) ! i = digits ! i"
proof -
  have "length digits = 16" by (simp add: digits_def)
  then show "i < 16 \<Longrightarrow> (digits @ cs) ! i = digits ! i" by (simp only: nth_append if_True)
qed

lemma digit_loop_text:
  assumes "2 \<le> unat base" and "unat base \<le> 16"
  shows "digit_loop room base x =
    (if length (num_text (unat base) (unat x)) \<le> room then Inr (rev (num_text (unat base) (unat x))) else Inl (Undefined ''buf''))"
proof (induction room arbitrary: x)
  case 0
  then show ?case by (simp add: num_text_nonempty)
next
  case (Suc room)
  let ?b = "unat base" and ?n = "unat x"
  have "?n mod ?b < ?b" by (rule mod_less_divisor) (use assms(1) in simp)
  then have r: "?n mod ?b < 16" using assms(2) by linarith
  have b: "base \<noteq> 0" using assms(1) by auto
  have d: "\<not> length digits < unat (x mod base)" using r by (simp add: digits_def unat_mod)
  have z: "x div base = 0 \<longleftrightarrow> ?n < ?b"
    using assms(1) by (simp add: unat_eq_zero [symmetric] unat_div div_eq_0_iff)
  show ?case
  proof (cases "?n < ?b")
    case True
    then show ?thesis using z b d r
      by (simp add: num_text.simps [of ?b ?n] unat_mod digit_nth)
  next
    case False
    have "num_text ?b ?n = num_text ?b (unat (x div base)) @ [digits ! (?n mod ?b)]"
      using False assms(1) by (simp add: num_text.simps [of ?b ?n] unat_div)
    then show ?thesis using False z b d r Suc.IH [of "x div base"]
      by (simp add: unat_mod digit_nth del: num_text.simps)
  qed
qed

text \<open>How many digits there are.\<close>

lemma num_text_length: "2 \<le> base \<Longrightarrow> n < base ^ Suc k \<Longrightarrow> length (num_text base n) \<le> Suc k"
proof (induction k arbitrary: n)
  case 0
  then show ?case by (subst num_text.simps) simp
next
  case (Suc k)
  have "n div base < base ^ Suc k" using Suc.prems by (simp add: div_less_iff_less_mult mult.commute)
  then show ?case using Suc.IH [of "n div base"] Suc.prems(1) by (subst num_text.simps) simp
qed

lemma int_text_length:
  assumes "5 \<le> base"
  shows "length (int_text base (sint (x :: i32))) \<le> 16"
proof -
  have "nat \<bar>sint x\<bar> \<le> 2 ^ 31" using sint_ge [of x] sint_lt [of x] by simp
  also have "(2 :: nat) ^ 31 < 5 ^ Suc 13" by simp
  also have "(5 :: nat) ^ Suc 13 \<le> base ^ Suc 13" by (rule power_mono) (use assms in simp_all)
  finally have "length (num_text base (nat \<bar>sint x\<bar>)) \<le> Suc 13" by (intro num_text_length) (use assms in simp_all)
  then show ?thesis by (auto simp: int_text_def)
qed

lemma unat_neg_sint: "sint (x :: i32) < 0 \<Longrightarrow> int (unat (- x)) = - sint x"
proof -
  assume n: "sint x < 0"
  have "uint (- x) = uint (of_int (- sint x) :: i32)" by simp
  also have "\<dots> = (- sint x) mod 2 ^ 32" by (simp only: uint_word_of_int) simp
  also have "\<dots> = - sint x" using n sint_ge [of x] by (intro mod_pos_pos_trivial) simp_all
  finally show ?thesis by (metis uint_nat)
qed

lemma sint_nonneg_unat: "0 \<le> sint (x :: i32) \<Longrightarrow> int (unat x) = sint x"
proof -
  assume n: "0 \<le> sint x"
  have "uint x = uint (of_int (sint x) :: i32)" by simp
  also have "\<dots> = sint x mod 2 ^ 32" by (simp only: uint_word_of_int) simp
  also have "\<dots> = sint x" using n sint_lt [of x] by (intro mod_pos_pos_trivial) simp_all
  finally show ?thesis by (metis uint_nat)
qed

lemma printint_text:
  assumes "2 \<le> unat base" and "unat base \<le> 16"
  shows "printint xx base True s =
    (if sint xx = - (2 ^ 31) then Inl (Undefined ''signed overflow'')
     else if length (int_text (unat base) (sint xx)) \<le> 16 then Inr (emit (out_bytes (int_text (unat base) (sint xx))) s)
     else Inl (Undefined ''buf''))"
proof (cases "sint xx < 0")
  case True
  then have "nat (- sint xx) = unat (- xx)" using unat_neg_sint by (metis nat_int)
  then show ?thesis using True
    by (simp add: printint_def Let_def fold_putc int_text_def digit_loop_text [OF assms])
next
  case False
  then have "nat (sint xx) = unat xx" using sint_nonneg_unat [of xx] by (metis nat_int not_less)
  then show ?thesis using False
    by (simp add: printint_def Let_def fold_putc int_text_def digit_loop_text [OF assms])
qed

lemma printint_emit:
  assumes "5 \<le> unat base" and "unat base \<le> 16" and "sint xx \<noteq> - (2 ^ 31)"
  shows "printint xx base True s = Inr (emit (out_bytes (int_text (unat base) (sint xx))) s)"
  using printint_text [of base xx s] assms int_text_length [OF assms(1)] by simp

text \<open>Sixteen hexadecimal digits, the highest first.\<close>

definition ptr_text :: "u64 \<Rightarrow> string" where
  "ptr_text x = ''0x'' @ map (\<lambda>i. digits ! unat (drop_bit (60 - 4 * i) x AND 0xF)) [0..<16]"

lemma ptr_loop_emit:
  "i \<le> 16 \<Longrightarrow> ptr_loop i (push_bit (4 * (16 - i)) x) s =
    emit (out_bytes (map (\<lambda>j. digits ! unat (drop_bit (60 - 4 * j) x AND 0xF)) [16 - i..<16])) s"
proof (induction i arbitrary: s)
  case 0
  then show ?case by (simp add: out_bytes_def)
next
  case (Suc i)
  define j where "j = 16 - Suc i"
  have j: "j < 16" "16 - i = Suc j" "16 - Suc i = j" using Suc.prems by (simp_all add: j_def)
  have "push_bit 4 (push_bit (4 * j) x) = push_bit (4 * (16 - i)) x" by (simp add: j(2) algebra_simps)
  moreover have "drop_bit 60 (push_bit (4 * j) x) = drop_bit (60 - 4 * j) x AND 0xF"
  proof (rule bit_eqI)
    fix n assume "possible_bit TYPE(64 word) n"
    have "bit (0xF :: u64) n \<longleftrightarrow> n < 4"
      using bit_mask_iff [of 4 n, where 'a = "64 word"] by (auto simp: mask_eq_exp_minus_1)
    moreover have "n < 4 \<Longrightarrow> 60 + n - 4 * j = 60 - 4 * j + n" using j(1) by auto
    ultimately show "bit (drop_bit 60 (push_bit (4 * j) x)) n = bit (drop_bit (60 - 4 * j) x AND 0xF) n"
      using j(1) by (auto simp: bit_simps)
  qed
  ultimately show ?case
    using Suc.IH [of "putc (digits ! unat (drop_bit 60 (push_bit (4 * j) x))) s"] Suc.prems j(1)
    by (simp only: j(3) ptr_loop.simps)
      (simp add: j consputc_emit out_bytes_def upt_conv_Cons del: upt_Suc)
qed

lemma printptr_emit: "printptr x s = emit (out_bytes (ptr_text x)) s"
  using ptr_loop_emit [of 16 x] by (simp add: printptr_def ptr_text_def consputc_emit out_bytes_def del: upt_Suc)

abbreviation int_min :: "u64 \<Rightarrow> bool" where "int_min x \<equiv> sint (ucast x :: i32) = - (2 ^ 31)"

text \<open>
  What the loop sends; \<open>None\<close> when an argument is missing or of the other kind, or is the smallest
  integer.
\<close>

fun format_text :: "string \<Rightarrow> parg list \<Rightarrow> u8 list option" where
  "format_text [] ap = Some []"
| "format_text (c # fmt) ap =
     (if c \<noteq> CHR ''%'' then map_option ((@) (out_bytes [c])) (format_text fmt ap)
      else
        case fmt of
          [] \<Rightarrow> Some []
        | d # fmt \<Rightarrow>
            (if d \<in> {CHR ''d'', CHR ''x'', CHR ''p'', CHR ''c''} then
               case ap of
                 Arg x # ap \<Rightarrow>
                   if d \<in> {CHR ''d'', CHR ''x''} \<and> int_min x then None
                   else map_option ((@)
                     (if d = CHR ''d'' then out_bytes (int_text 10 (sint (ucast x :: i32)))
                      else if d = CHR ''x'' then out_bytes (int_text 16 (sint (ucast x :: i32)))
                      else if d = CHR ''p'' then out_bytes (ptr_text x)
                      else [ucast (ucast x :: i32)])) (format_text fmt ap)
               | _ \<Rightarrow> None
             else if d = CHR ''s'' then
               case ap of
                 Str x # ap \<Rightarrow>
                   map_option ((@) (out_bytes (case x of None \<Rightarrow> ''(null)'' | Some cs \<Rightarrow> cstr cs))) (format_text fmt ap)
               | _ \<Rightarrow> None
             else if d = CHR ''%'' then map_option ((@) (out_bytes ''%'')) (format_text fmt ap)
             else map_option ((@) (out_bytes [CHR ''%'', d])) (format_text fmt ap)))"

lemma printf_loop_text:
  "case format_text fmt ap of
      None \<Rightarrow> \<exists>u. printf_loop fmt ap s = Inl (Undefined u)
    | Some bs \<Rightarrow> printf_loop fmt ap s = Inr (emit bs s)"
proof (induction fmt ap arbitrary: s rule: format_text.induct)
  case (1 ap)
  then show ?case by simp
next
  case (2 c fmt ap)
  show ?case
  proof (cases "c = CHR ''%''")
    case False
    then show ?thesis using 2(1) [OF False, of "putc c s"]
      by (auto simp: consputc_emit out_bytes_def split: option.splits)
  next
    case True
    show ?thesis
    proof (cases fmt)
      case Nil
      then show ?thesis using True by simp
    next
      case (Cons d rest)
      have u: "unat (10 :: u32) = 10" "unat (16 :: u32) = 16" by simp_all
      consider (num) "d \<in> {CHR ''d'', CHR ''x'', CHR ''p'', CHR ''c''}" | (str) "d = CHR ''s''"
        | (pct) "d = CHR ''%''" | (other) "d \<notin> {CHR ''d'', CHR ''x'', CHR ''p'', CHR ''c'', CHR ''s'', CHR ''%''}" by blast
      then show ?thesis
      proof cases
        case num
        show ?thesis
        proof (cases "\<exists>x ap'. ap = Arg x # ap'")
          case A: True
          then obtain x ap' where ap: "ap = Arg x # ap'" by blast
          show ?thesis
          proof (cases "d \<in> {CHR ''d'', CHR ''x''} \<and> int_min x")
            case I: True
            then have "printint (ucast x) 10 True s = Inl (Undefined ''signed overflow'')"
              "printint (ucast x) 16 True s = Inl (Undefined ''signed overflow'')"
              by (simp_all add: printint_text)
            then show ?thesis using True Cons ap I by auto
          next
            case I: False
            have IH: "case format_text rest ap' of
                None \<Rightarrow> \<exists>u. printf_loop rest ap' t = Inl (Undefined u)
              | Some bs \<Rightarrow> printf_loop rest ap' t = Inr (emit bs t)" for t
              using 2(2) [OF _ Cons num ap refl I] True by simp
            consider (d) "d = CHR ''d''" | (x) "d = CHR ''x''" | (p) "d = CHR ''p''" | (c) "d = CHR ''c''" using num by blast
            then show ?thesis
            proof cases
              case d
              then show ?thesis using True Cons ap I IH [of "emit (out_bytes (int_text 10 (sint (ucast x :: i32)))) s"]
                by (auto simp: printint_emit u split: option.splits)
            next
              case x
              then show ?thesis using True Cons ap I IH [of "emit (out_bytes (int_text 16 (sint (ucast x :: i32)))) s"]
                by (auto simp: printint_emit u split: option.splits)
            next
              case p
              then show ?thesis using True Cons ap I IH [of "emit (out_bytes (ptr_text x)) s"]
                by (auto simp: printptr_emit split: option.splits)
            next
              case c
              then show ?thesis using True Cons ap I IH [of "emit [ucast (ucast x :: i32)] s"]
                by (auto simp: consputc_emit split: option.splits)
            qed
          qed
        next
          case False
          then have "va_word ap = Inl (Undefined ''va_arg'')" by (cases "ap" rule: va_word.cases) auto
          moreover have "format_text (c # fmt) ap = None"
            using True Cons num False by (auto split: list.splits parg.splits)
          ultimately show ?thesis using True Cons num by auto
        qed
      next
        case str
        show ?thesis
        proof (cases "\<exists>x ap'. ap = Str x # ap'")
          case A: True
          then obtain x ap' where ap: "ap = Str x # ap'" by blast
          have "case format_text rest ap' of
                None \<Rightarrow> \<exists>u. printf_loop rest ap' t = Inl (Undefined u)
              | Some bs \<Rightarrow> printf_loop rest ap' t = Inr (emit bs t)" for t
            using 2(3) [OF _ Cons _ str ap refl] True str by simp
          from this [of "emit (out_bytes (case x of None \<Rightarrow> ''(null)'' | Some cs \<Rightarrow> cstr cs)) s"]
          show ?thesis using True Cons str ap by (auto simp: fold_putc split: option.splits)
        next
          case False
          then have "va_str ap = Inl (Undefined ''va_arg'')" by (cases "ap" rule: va_str.cases) auto
          moreover have "format_text (c # fmt) ap = None"
            using True Cons str False by (auto split: list.splits parg.splits)
          ultimately show ?thesis using True Cons str by auto
        qed
      next
        case pct
        then show ?thesis using True Cons 2(4) [OF _ Cons, of "putc CHR ''%'' s"]
          by (auto simp: consputc_emit out_bytes_def split: option.splits)
      next
        case other
        then show ?thesis using True Cons 2(5) [OF _ Cons, of "putc d (putc CHR ''%'' s)"]
          by (auto simp: consputc_emit out_bytes_def split: option.splits)
      qed
    qed
  qed
qed

section \<open>Messages\<close>

text \<open>
  A message is a list of items; each is written in its own way in the format, takes its arguments, and has its text.
\<close>

datatype item =
    Plain char | Decimal u64 | Hexadecimal u64 | Pointer u64 | Character u64 | String_arg "string option" | Percent | Unknown char

fun item_format :: "item \<Rightarrow> string" where
  "item_format (Plain c) = [c]"
| "item_format (Decimal x) = ''%d''"
| "item_format (Hexadecimal x) = ''%x''"
| "item_format (Pointer x) = ''%p''"
| "item_format (Character x) = ''%c''"
| "item_format (String_arg x) = ''%s''"
| "item_format Percent = ''%%''"
| "item_format (Unknown c) = [CHR ''%'', c]"

fun item_args :: "item \<Rightarrow> parg list" where
  "item_args (Decimal x) = [Arg x]"
| "item_args (Hexadecimal x) = [Arg x]"
| "item_args (Pointer x) = [Arg x]"
| "item_args (Character x) = [Arg x]"
| "item_args (String_arg x) = [Str x]"
| "item_args _ = []"

fun item_text :: "item \<Rightarrow> u8 list" where
  "item_text (Plain c) = out_bytes [c]"
| "item_text (Decimal x) = out_bytes (int_text 10 (sint (ucast x :: i32)))"
| "item_text (Hexadecimal x) = out_bytes (int_text 16 (sint (ucast x :: i32)))"
| "item_text (Pointer x) = out_bytes (ptr_text x)"
| "item_text (Character x) = [ucast (ucast x :: i32)]"
| "item_text (String_arg x) = out_bytes (case x of None \<Rightarrow> ''(null)'' | Some cs \<Rightarrow> cstr cs)"
| "item_text Percent = out_bytes ''%''"
| "item_text (Unknown c) = out_bytes [CHR ''%'', c]"

fun item_ok :: "item \<Rightarrow> bool" where
  "item_ok (Plain c) \<longleftrightarrow> c \<noteq> CHR ''%''"
| "item_ok (Decimal x) \<longleftrightarrow> \<not> int_min x"
| "item_ok (Hexadecimal x) \<longleftrightarrow> \<not> int_min x"
| "item_ok (Unknown c) \<longleftrightarrow> c \<notin> set ''dxpcs%''"
| "item_ok _ \<longleftrightarrow> True"

abbreviation message_format :: "item list \<Rightarrow> string" where "message_format its \<equiv> concat (map item_format its)"
abbreviation message_args :: "item list \<Rightarrow> parg list" where "message_args its \<equiv> concat (map item_args its)"
abbreviation message_text :: "item list \<Rightarrow> u8 list" where "message_text its \<equiv> concat (map item_text its)"

text \<open>The call asks for the message; what follows its arguments is not used, nor is a lone percent sign at the end.\<close>

definition asks_for :: "string \<Rightarrow> parg list \<Rightarrow> item list \<Rightarrow> bool" where
  "asks_for fmt ap its \<longleftrightarrow> (\<forall>it \<in> set its. item_ok it) \<and> cstr fmt \<in> {message_format its, message_format its @ ''%''} \<and>
     (\<exists>rest. ap = message_args its @ rest)"

lemma format_text_items:
  assumes "\<forall>it \<in> set its. item_ok it" and "e = [] \<or> e = ''%''"
  shows "format_text (message_format its @ e) (message_args its @ rest) = Some (message_text its)"
  using assms(1)
proof (induction its)
  case Nil
  then show ?case using assms(2) by auto
next
  case (Cons it its)
  then show ?case by (cases it) auto
qed

lemma format_text_Some:
  "format_text fmt ap = Some bs \<Longrightarrow>
    \<exists>its. (\<forall>it \<in> set its. item_ok it) \<and> fmt \<in> {message_format its, message_format its @ ''%''} \<and> (\<exists>rest. ap = message_args its @ rest)"
proof (induction fmt ap arbitrary: bs rule: format_text.induct)
  case (1 ap)
  show ?case by (intro exI [of _ "[]"]) simp
next
  case (2 c fmt ap)
  have more: ?case
    if "item_ok it" "c # fmt = item_format it @ rest" "ap = item_args it @ ap'"
      "\<exists>its. (\<forall>it \<in> set its. item_ok it) \<and> rest \<in> {message_format its, message_format its @ ''%''} \<and> (\<exists>r. ap' = message_args its @ r)"
    for it rest ap'
  proof -
    note h = that
    obtain its where "\<forall>it \<in> set its. item_ok it" "rest \<in> {message_format its, message_format its @ ''%''}" "\<exists>r. ap' = message_args its @ r"
      using h(4) by blast
    with h(1-3) show ?thesis by (intro exI [of _ "it # its"]) auto
  qed
  show ?case
  proof (cases "c = CHR ''%''")
    case False
    with 2(1) [OF False] 2(6) show ?thesis by (intro more [of "Plain c" fmt ap]) auto
  next
    case True
    show ?thesis
    proof (cases fmt)
      case Nil
      then show ?thesis using True by (intro exI [of _ "[]"]) simp
    next
      case (Cons d rest)
      consider (num) "d \<in> {CHR ''d'', CHR ''x'', CHR ''p'', CHR ''c''}" | (str) "d = CHR ''s''"
        | (pct) "d = CHR ''%''" | (other) "d \<notin> {CHR ''d'', CHR ''x'', CHR ''p'', CHR ''c'', CHR ''s'', CHR ''%''}" by blast
      then show ?thesis
      proof cases
        case num
        then obtain x ap' t where ap: "ap = Arg x # ap'" "format_text rest ap' = Some t"
          and m: "\<not> (d \<in> {CHR ''d'', CHR ''x''} \<and> int_min x)"
          using 2(6) True Cons by (auto split: list.splits parg.splits if_splits)
        note IH = 2(2) [OF _ Cons num ap(1) refl m, of t]
        have "\<exists>it. item_ok it \<and> item_format it = [CHR ''%'', d] \<and> item_args it = [Arg x]"
          using num m by (auto intro: exI [of _ "Decimal x"] exI [of _ "Hexadecimal x"] exI [of _ "Pointer x"] exI [of _ "Character x"])
        then obtain it where "item_ok it" "item_format it = [CHR ''%'', d]" "item_args it = [Arg x]" by blast
        with IH True ap Cons show ?thesis by (intro more [of it rest ap']) auto
      next
        case str
        then obtain x ap' t where ap: "ap = Str x # ap'" "format_text rest ap' = Some t"
          using 2(6) True Cons by (auto split: list.splits parg.splits)
        with 2(3) [OF _ Cons _ str ap(1) refl, of t] True str Cons show ?thesis by (intro more [of "String_arg x" rest ap']) auto
      next
        case pct
        then obtain t where "format_text rest ap = Some t" using 2(6) True Cons by auto
        with 2(4) [OF _ Cons, of t] True pct Cons show ?thesis by (intro more [of Percent rest ap]) auto
      next
        case other
        then obtain t where "format_text rest ap = Some t" using 2(6) True Cons by auto
        with 2(5) [OF _ Cons, of t] True other Cons show ?thesis by (intro more [of "Unknown d" rest ap]) auto
      qed
    qed
  qed
qed

section \<open>The properties\<close>

lemma printf_text:
  assumes "\<not> print_lock s"
  shows "case format_text (cstr fmt) ap of
      None \<Rightarrow> \<exists>u. printf (Some fmt) ap s = Inl (Undefined u)
    | Some bs \<Rightarrow> printf (Some fmt) ap s = Inr (s\<lparr>uart_out := uart_out s @ bs\<rparr>)"
  using printf_loop_text [of "cstr fmt" ap "(k_intr_off s)\<lparr>print_lock := True\<rparr>"] assms
  by (cases s) (auto simp: printf_def Let_def emit_def k_intr_off_def k_intr_on_def split: option.split)

text \<open>C20. \<^verbatim>\<open>printf\<close> sends exactly the texts of the items that its format and arguments are made of, one after the other,
  and changes nothing else: the interrupt flag and \<^verbatim>\<open>print_lock\<close> are as before. Numbers are signed 32-bit numbers, also
  for \<^verbatim>\<open>%x\<close>; \<^verbatim>\<open>%c\<close> and \<^verbatim>\<open>%%\<close> are conversions too, and an unknown one is printed as it stands. A call whose format
  and arguments are no message is undefined; one with a null format panics; and it waits while the lock is taken.\<close>

theorem printf_correct:
  "printf None ap s = Inl (Panic ''null fmt'') \<and> (print_lock s \<longrightarrow> printf (Some fmt) ap s = Inl Spin) \<and>
    (\<not> print_lock s \<longrightarrow>
       (\<forall>its. asks_for fmt ap its \<longrightarrow> printf (Some fmt) ap s = Inr (s\<lparr>uart_out := uart_out s @ message_text its\<rparr>)) \<and>
       ((\<nexists>its. asks_for fmt ap its) \<longrightarrow> (\<exists>u. printf (Some fmt) ap s = Inl (Undefined u))))"
proof (intro conjI impI allI)
  fix its assume l: "\<not> print_lock s" and "asks_for fmt ap its"
  then obtain rest e where a: "\<forall>it \<in> set its. item_ok it" "cstr fmt = message_format its @ e" "e = [] \<or> e = ''%''"
    "ap = message_args its @ rest"
    by (auto simp: asks_for_def)
  show "printf (Some fmt) ap s = Inr (s\<lparr>uart_out := uart_out s @ message_text its\<rparr>)"
    using printf_text [OF l, of fmt ap] unfolding a(2,4) format_text_items [OF a(1,3)] by simp
next
  assume l: "\<not> print_lock s" and "\<nexists>its. asks_for fmt ap its"
  then have "format_text (cstr fmt) ap = None" using format_text_Some [of "cstr fmt" ap] unfolding asks_for_def by (cases "format_text (cstr fmt) ap") blast+
  then show "\<exists>u. printf (Some fmt) ap s = Inl (Undefined u)" using printf_text [OF l, of fmt ap] by simp
qed (simp_all add: printf_def Let_def k_intr_off_def)

theorem printf_correct_witness:
  "printf (Some ''pid %d: %s%c'') [Arg (- 3), Str (Some ''sh''), Arg 33] boot_kst =
    Inr (boot_kst\<lparr>uart_out := out_bytes ''pid -3: sh!''\<rparr>)"
proof -
  let ?its = "[Plain CHR ''p'', Plain CHR ''i'', Plain CHR ''d'', Plain CHR '' '', Decimal (- 3), Plain CHR '':'', Plain CHR '' '',
    String_arg (Some ''sh''), Character 33]"
  have a: "asks_for ''pid %d: %s%c'' [Arg (- 3), Str (Some ''sh''), Arg 33] ?its" by (simp add: asks_for_def cstr_def)
  have l: "\<not> print_lock boot_kst" "uart_out boot_kst = []" by (simp_all add: boot_kst_def)
  have "int_text 10 (sint (ucast (- 3 :: u64) :: i32)) = ''-3''" by (simp add: int_text_def num_text.simps digits_def)
  then have "message_text ?its = out_bytes ''pid -3: sh!''" by (simp add: out_bytes_def byte_def cstr_def)
  then show ?thesis
    using printf_correct [of "[Arg (- 3), Str (Some ''sh''), Arg 33]" boot_kst "''pid %d: %s%c''"] a l by auto
qed

text \<open>Reading a num_text back.\<close>

definition digit_value :: "char \<Rightarrow> nat" where
  "digit_value c = length (takeWhile (\<lambda>d. d \<noteq> c) digits)"

definition read_numeral :: "nat \<Rightarrow> string \<Rightarrow> nat" where
  "read_numeral base cs = foldl (\<lambda>n c. n * base + digit_value c) 0 cs"

definition read_int :: "nat \<Rightarrow> string \<Rightarrow> int" where
  "read_int base cs =
     (case cs of [] \<Rightarrow> 0
      | c # ds \<Rightarrow> if c = CHR ''-'' then - int (read_numeral base ds) else int (read_numeral base cs))"

lemma digit_value_digit: "i < 16 \<Longrightarrow> digit_value (digits ! i) = i"
proof -
  have "\<forall>i \<in> {0..<16}. digit_value (digits ! i) = i" by code_simp
  then show "i < 16 \<Longrightarrow> digit_value (digits ! i) = i" by simp
qed

lemma digit_not_minus: "i < 16 \<Longrightarrow> digits ! i \<noteq> CHR ''-''"
proof -
  have "\<forall>i \<in> {0..<16}. digits ! i \<noteq> CHR ''-''" by code_simp
  then show "i < 16 \<Longrightarrow> digits ! i \<noteq> CHR ''-''" by simp
qed

lemma read_numeral_snoc: "read_numeral base (cs @ [c]) = read_numeral base cs * base + digit_value c"
  by (simp add: read_numeral_def)

lemma read_numeral_numeral:
  "2 \<le> base \<Longrightarrow> base \<le> 16 \<Longrightarrow> read_numeral base (num_text base n) = n"
proof (induction base n rule: num_text.induct)
  case (1 base n)
  show ?case
  proof (cases "n < base")
    case True
    then show ?thesis using 1 by (subst num_text.simps) (simp add: read_numeral_def digit_value_digit)
  next
    case False
    have "n mod base < 16" using mod_less_divisor [of base n] 1(2,3) by linarith
    then show ?thesis using False 1 by (subst num_text.simps) (simp add: read_numeral_snoc digit_value_digit)
  qed
qed

lemma numeral_Cons: "2 \<le> base \<Longrightarrow> base \<le> 16 \<Longrightarrow> \<exists>c cs. num_text base n = c # cs \<and> c \<noteq> CHR ''-''"
proof (induction base n rule: num_text.induct)
  case (1 base n)
  then show ?case using digit_not_minus by (subst num_text.simps) (auto simp: not_less)
qed

text \<open>C21. What \<^verbatim>\<open>printint\<close> prints for a signed number in base 2 to 16 reads back as that number, so different numbers are
  never printed alike; with more than sixteen characters, which can only be below base 5, its buffer would overflow, so the
  calls for base 10 and 16 never do. The smallest number is not printed: negating it overflows.\<close>

theorem printint_roundtrip:
  assumes "2 \<le> unat base" and "unat base \<le> 16"
  shows "read_int (unat base) (int_text (unat base) (sint xx)) = sint xx \<and>
    printint xx base True s =
      (if sint xx = - (2 ^ 31) then Inl (Undefined ''signed overflow'')
       else if length (int_text (unat base) (sint xx)) \<le> 16
       then Inr (s\<lparr>uart_out := uart_out s @ out_bytes (int_text (unat base) (sint xx))\<rparr>)
       else Inl (Undefined ''buf'')) \<and>
    (5 \<le> unat base \<longrightarrow> length (int_text (unat base) (sint xx)) \<le> 16)"
proof (intro conjI impI)
  show "printint xx base True s =
      (if sint xx = - (2 ^ 31) then Inl (Undefined ''signed overflow'')
       else if length (int_text (unat base) (sint xx)) \<le> 16
       then Inr (s\<lparr>uart_out := uart_out s @ out_bytes (int_text (unat base) (sint xx))\<rparr>)
       else Inl (Undefined ''buf''))"
    using printint_text [OF assms] by (simp add: emit_def)
  show "read_int (unat base) (int_text (unat base) (sint xx)) = sint xx"
  proof (cases "sint xx < 0")
    case True
    then show ?thesis using read_numeral_numeral [OF assms] by (simp add: int_text_def read_int_def)
  next
    case False
    obtain c cs where c: "num_text (unat base) (nat (sint xx)) = c # cs" "c \<noteq> CHR ''-''"
      using numeral_Cons [OF assms] by blast
    have "read_numeral (unat base) (c # cs) = nat (sint xx)" using read_numeral_numeral [OF assms] c(1) by metis
    then show ?thesis using False c by (simp add: int_text_def read_int_def)
  qed
qed (rule int_text_length)

theorem printint_roundtrip_witness:
  "printint (- 37) 10 True boot_kst = Inr (boot_kst\<lparr>uart_out := uart_out boot_kst @ out_bytes ''-37''\<rparr>) \<and> read_int 10 ''-37'' = - 37"
proof -
  have "int_text 10 (- 37) = ''-37''" by (simp add: int_text_def num_text.simps digits_def)
  then show ?thesis using printint_roundtrip [of 10 "- 37" boot_kst] by simp
qed

end
