(* ===== verification/PageTree.thy ===== *)
theory PageTree imports KState begin

text \<open>
  Trees of page tables, as data: the table pages that a memory holds below a root, and how they and the
  entries in them change when a table is added or an entry is written. Which entries point to a further
  table is a parameter \<open>ptr\<close>, since user address spaces and the kernel's own page table differ in it: the
  code follows every valid entry of the one, and distinguishes the leaves in the other. What both have
  in common is proved in the locale \<open>page_tree\<close>.
\<close>

section \<open>The tree\<close>

text \<open>The table that entry \<open>i\<close> of table \<open>t\<close> points to, and the table at a path of indices.\<close>

definition hop :: "(u64 \<Rightarrow> bool) \<Rightarrow> mem \<Rightarrow> u64 \<Rightarrow> u64 \<Rightarrow> u64 option" where
  "hop ptr m t i = (let e = ld64 m (slot t i) in if ptr e then Some (PA_TO_KVA (PTE2PA e)) else None)"

fun node_at :: "(u64 \<Rightarrow> bool) \<Rightarrow> mem \<Rightarrow> u64 \<Rightarrow> u64 list \<Rightarrow> u64 option" where
  "node_at ptr m t [] = Some t"
| "node_at ptr m t (i # is) = (case hop ptr m t i of None \<Rightarrow> None | Some q \<Rightarrow> node_at ptr m q is)"

lemma node_at_snoc:
  "node_at ptr m t (p @ [i]) = (case node_at ptr m t p of None \<Rightarrow> None | Some q \<Rightarrow> hop ptr m q i)"
  by (induction p arbitrary: t) (auto split: option.split)

definition path_ok :: "u64 list \<Rightarrow> bool" where
  "path_ok p \<longleftrightarrow> length p \<le> 2 \<and> (\<forall>i \<in> set p. i < 512)"

lemma path_ok_snoc: "path_ok (p @ [i]) \<longleftrightarrow> path_ok p \<and> length p \<le> 1 \<and> i < 512"
  by (auto simp: path_ok_def)

lemma path_ok_Nil [simp]: "path_ok []"
  by (simp add: path_ok_def)

lemma path_ok_Cons1 [simp]: "path_ok [i] \<longleftrightarrow> i < 512"
  by (simp add: path_ok_def)

lemma path_ok_take: "path_ok p \<Longrightarrow> path_ok (take n p)"
  by (auto simp: path_ok_def dest: in_set_takeD)

definition nodes :: "(u64 \<Rightarrow> bool) \<Rightarrow> mem \<Rightarrow> u64 \<Rightarrow> u64 set" where
  "nodes ptr m root = {x. \<exists>p. path_ok p \<and> node_at ptr m root p = Some x}"

text \<open>The root is a page, and no page is a table in two places.\<close>

definition tree_wf :: "(u64 \<Rightarrow> bool) \<Rightarrow> mem \<Rightarrow> u64 \<Rightarrow> bool" where
  "tree_wf ptr m root \<longleftrightarrow> PGALIGNED root \<and>
     (\<forall>p p' x. path_ok p \<longrightarrow> path_ok p' \<longrightarrow> node_at ptr m root p = Some x \<longrightarrow> node_at ptr m root p' = Some x \<longrightarrow> p = p')"

lemma nodesI: "path_ok p \<Longrightarrow> node_at ptr m root p = Some x \<Longrightarrow> x \<in> nodes ptr m root"
  by (auto simp: nodes_def)

lemma root_in_nodes [simp]: "root \<in> nodes ptr m root"
  by (rule nodesI [of "[]"]) simp_all

lemma tree_wf_inj:
  "tree_wf ptr m root \<Longrightarrow> path_ok p \<Longrightarrow> path_ok p' \<Longrightarrow> node_at ptr m root p = Some x \<Longrightarrow>
    node_at ptr m root p' = Some x \<Longrightarrow> p = p'"
  by (auto simp: tree_wf_def)

lemma hop_aligned: "hop ptr m t i = Some q \<Longrightarrow> PGALIGNED q"
  by (auto simp: hop_def Let_def split: if_splits)

lemma nodes_aligned: "tree_wf ptr m root \<Longrightarrow> x \<in> nodes ptr m root \<Longrightarrow> PGALIGNED x"
proof -
  assume wf: "tree_wf ptr m root" and "x \<in> nodes ptr m root"
  then obtain p where p: "path_ok p" "node_at ptr m root p = Some x" by (auto simp: nodes_def)
  show "PGALIGNED x"
  proof (cases p rule: rev_cases)
    case Nil
    then show ?thesis using wf p(2) by (simp add: tree_wf_def)
  next
    case (snoc q i)
    then show ?thesis using p(2) by (auto simp: node_at_snoc dest: hop_aligned split: option.splits)
  qed
qed

definition same_entries :: "u64 set \<Rightarrow> mem \<Rightarrow> mem \<Rightarrow> bool" where
  "same_entries T m m' \<longleftrightarrow> (\<forall>x \<in> T. \<forall>i < 512. ld64 m' (slot x i) = ld64 m (slot x i))"

lemma node_at_cong:
  assumes "same_entries (nodes ptr m root) m m'" and "path_ok p"
  shows "node_at ptr m' root p = node_at ptr m root p"
  using assms(2)
proof (induction p rule: rev_induct)
  case Nil
  then show ?case by simp
next
  case (snoc i p)
  then have p: "path_ok p" "i < 512" "node_at ptr m' root p = node_at ptr m root p" by (auto simp: path_ok_snoc)
  have "hop ptr m' x i = hop ptr m x i" if "node_at ptr m root p = Some x" for x
    using assms(1) nodesI [OF p(1) that] p(2) by (simp add: same_entries_def hop_def)
  with p(3) show ?case by (auto simp: node_at_snoc split: option.split)
qed

section \<open>Entries\<close>

text \<open>
  The tables passed on the way to the leaf of a virtual address; the path of its entry of level \<open>l\<close>, and
  that entry, 0 when there is no table for it.
\<close>

definition va_path :: "u64 \<Rightarrow> u64 list" where
  "va_path va = [PX 2 va, PX 1 va]"

definition cell_path :: "nat \<Rightarrow> u64 \<Rightarrow> u64 list" where
  "cell_path l va = take (2 - l) (va_path va) @ [PX l va]"

definition level_entry :: "(u64 \<Rightarrow> bool) \<Rightarrow> mem \<Rightarrow> u64 \<Rightarrow> nat \<Rightarrow> u64 \<Rightarrow> u64" where
  "level_entry ptr m root l va =
     (case node_at ptr m root (take (2 - l) (va_path va)) of None \<Rightarrow> 0 | Some t \<Rightarrow> ld64 m (slot t (PX l va)))"

lemma path_ok_va [simp]: "path_ok (va_path va)"
  by (simp add: path_ok_def va_path_def PX_less)

lemma length_va_path [simp]: "length (va_path va) = 2"
  by (simp add: va_path_def)

lemma path_ok_take_va [simp]: "path_ok (take n (va_path va))"
  by (simp add: path_ok_take)

lemma level_entry_cong:
  assumes "same_entries (nodes ptr m root) m m'"
  shows "level_entry ptr m' root l va = level_entry ptr m root l va"
  using node_at_cong [OF assms path_ok_take_va] nodesI [OF path_ok_take_va] assms
  by (auto simp: level_entry_def same_entries_def PX_less split: option.split)

lemma nodes_cong:
  assumes "same_entries (nodes ptr m root) m m'"
  shows "nodes ptr m' root = nodes ptr m root" and "tree_wf ptr m' root = tree_wf ptr m root"
  using node_at_cong [OF assms] by (simp_all add: nodes_def tree_wf_def cong: conj_cong)

section \<open>Changes\<close>

text \<open>What changes when entry \<open>i\<close> of table \<open>t\<close> is written.\<close>

definition others_same :: "u64 set \<Rightarrow> u64 \<Rightarrow> u64 \<Rightarrow> mem \<Rightarrow> mem \<Rightarrow> bool" where
  "others_same T t i m m' \<longleftrightarrow> (\<forall>x \<in> T. \<forall>j < 512. \<not> (x = t \<and> j = i) \<longrightarrow> ld64 m' (slot x j) = ld64 m (slot x j))"

text \<open>
  \<open>m'\<close> is \<open>m\<close> with the empty table \<open>q\<close> hung below the unused entry \<open>i\<close> of the table \<open>t\<close> at path \<open>p\<close>.
\<close>

definition adds_node :: "(u64 \<Rightarrow> bool) \<Rightarrow> mem \<Rightarrow> mem \<Rightarrow> u64 \<Rightarrow> u64 \<Rightarrow> u64 \<Rightarrow> u64 \<Rightarrow> u64 list \<Rightarrow> bool" where
  "adds_node ptr m m' root t i q p \<longleftrightarrow>
     tree_wf ptr m root \<and> path_ok (p @ [i]) \<and> node_at ptr m root p = Some t \<and>
     hop ptr m t i = None \<and> q \<notin> nodes ptr m root \<and>
     hop ptr m' t i = Some q \<and> (\<forall>j < 512. ld64 m' (slot q j) = 0) \<and>
     others_same (nodes ptr m root) t i m m'"

text \<open>
  \<open>m'\<close> is \<open>m\<close> with \<open>e\<close> in entry \<open>i\<close> of the table \<open>t\<close> at path \<open>p\<close>, which hangs no table there and cuts none off.
\<close>

definition writes_cell :: "(u64 \<Rightarrow> bool) \<Rightarrow> mem \<Rightarrow> mem \<Rightarrow> u64 \<Rightarrow> u64 \<Rightarrow> u64 \<Rightarrow> u64 list \<Rightarrow> u64 \<Rightarrow> bool" where
  "writes_cell ptr m m' root t i p e \<longleftrightarrow>
     tree_wf ptr m root \<and> path_ok p \<and> i < 512 \<and> node_at ptr m root p = Some t \<and> ld64 m' (slot t i) = e \<and>
     others_same (nodes ptr m root) t i m m' \<and>
     (length p = 2 \<or> hop ptr m t i = None \<and> \<not> ptr e)"

lemma adds_nodeD:
  assumes "adds_node ptr m m' root t i q p"
  shows "tree_wf ptr m root" "path_ok (p @ [i])" "node_at ptr m root p = Some t" "hop ptr m t i = None"
    "q \<notin> nodes ptr m root" "hop ptr m' t i = Some q" "\<And>j. j < 512 \<Longrightarrow> ld64 m' (slot q j) = 0"
    "others_same (nodes ptr m root) t i m m'" "node_at ptr m root (p @ [i]) = None" "path_ok p"
  using assms by (auto simp: adds_node_def node_at_snoc path_ok_snoc)

lemma writes_cellD:
  assumes "writes_cell ptr m m' root t i p e"
  shows "tree_wf ptr m root" "path_ok p" "i < 512" "node_at ptr m root p = Some t" "ld64 m' (slot t i) = e"
    "others_same (nodes ptr m root) t i m m'" "length p = 2 \<or> hop ptr m t i = None \<and> \<not> ptr e"
  using assms by (auto simp: writes_cell_def)

text \<open>A table elsewhere reads as before.\<close>

lemma elsewhere_same:
  assumes "tree_wf ptr m root" and "others_same (nodes ptr m root) t i m m'" and "node_at ptr m root p = Some t"
    and "path_ok p" and "path_ok p'" and "node_at ptr m root p' = Some x" and "j < 512" and "\<not> (p' = p \<and> j = i)"
  shows "ld64 m' (slot x j) = ld64 m (slot x j)"
  using assms nodesI [OF assms(5,6)] tree_wf_inj [OF assms(1,5,4), of x] by (auto simp: others_same_def)

lemma table_at_written:
  assumes W: "writes_cell ptr m m' root t i p e"
  shows "path_ok p' \<Longrightarrow> node_at ptr m' root p' = node_at ptr m root p'"
proof (induction p' rule: rev_induct)
  case Nil
  then show ?case by simp
next
  case (snoc j p')
  note wf = writes_cellD [OF W]
  from snoc have p': "path_ok p'" "j < 512" "length p' \<le> 1" "node_at ptr m' root p' = node_at ptr m root p'"
    by (auto simp: path_ok_snoc)
  have "hop ptr m' x j = hop ptr m x j" if x: "node_at ptr m root p' = Some x" for x
  proof (cases "p' = p \<and> j = i")
    case True
    then have "x = t" and "hop ptr m t i = None" and "\<not> ptr e" using wf(4,7) p'(3) x by auto
    then show ?thesis using wf(5) True by (simp add: hop_def Let_def)
  next
    case False
    then show ?thesis using elsewhere_same [OF wf(1,6,4,2) p'(1) x p'(2)] by (simp add: hop_def)
  qed
  with p'(4) show ?case by (auto simp: node_at_snoc split: option.split)
qed

lemma tables_written: "writes_cell ptr m m' root t i p e \<Longrightarrow> nodes ptr m' root = nodes ptr m root"
  unfolding nodes_def using table_at_written by (auto cong: conj_cong)

lemma wf_written: "writes_cell ptr m m' root t i p e \<Longrightarrow> tree_wf ptr m' root"
proof -
  assume W: "writes_cell ptr m m' root t i p e"
  then have "tree_wf ptr m root" by (rule writes_cellD)
  then show ?thesis using table_at_written [OF W] unfolding tree_wf_def by metis
qed

text \<open>Exactly the addresses whose path ends in the written entry read it.\<close>

lemma level_entry_written:
  assumes W: "writes_cell ptr m m' root t i p e"
  shows "level_entry ptr m' root l va = (if cell_path l va = p @ [i] then e else level_entry ptr m root l va)"
proof -
  note wf = writes_cellD [OF W]
  have eq: "node_at ptr m' root (take (2 - l) (va_path va)) = node_at ptr m root (take (2 - l) (va_path va))"
    using table_at_written [OF W] by simp
  show ?thesis
  proof (cases "cell_path l va = p @ [i]")
    case True
    then show ?thesis using wf(4,5) eq by (simp add: level_entry_def cell_path_def)
  next
    case False
    then have "ld64 m' (slot x (PX l va)) = ld64 m (slot x (PX l va))"
      if "node_at ptr m root (take (2 - l) (va_path va)) = Some x" for x
      using elsewhere_same [OF wf(1,6,4,2) path_ok_take_va that PX_less] by (auto simp: cell_path_def)
    with False show ?thesis using eq by (auto simp: level_entry_def split: option.split)
  qed
qed

section \<open>A new table\<close>

text \<open>An entry of zeros points nowhere, so that a fresh table has no tables below it.\<close>

locale page_tree =
  fixes ptr :: "u64 \<Rightarrow> bool"
  assumes zero_no_ptr: "\<not> ptr 0"
begin

lemma empty_tree:
  assumes "\<And>i. i < 512 \<Longrightarrow> ld64 m (slot root i) = 0" and "PGALIGNED root"
  shows "nodes ptr m root = {root}" and "tree_wf ptr m root" and "level_entry ptr m root l va = 0"
    and "path_ok p \<Longrightarrow> p \<noteq> [] \<Longrightarrow> node_at ptr m root p = None"
proof -
  show none: "node_at ptr m root p = None" if "path_ok p" "p \<noteq> []" for p
  proof -
    obtain i q where "p = i # q" using \<open>p \<noteq> []\<close> by (cases p) auto
    moreover from this have "i < 512" using \<open>path_ok p\<close> by (simp add: path_ok_def)
    ultimately show ?thesis using assms(1) zero_no_ptr by (simp add: hop_def)
  qed
  have some: "p = [] \<and> x = root" if "path_ok p" "node_at ptr m root p = Some x" for p x
    using that none by (cases "p = []") auto
  show "nodes ptr m root = {root}" using some by (auto simp: nodes_def intro: exI [of _ "[]"])
  show "tree_wf ptr m root" using some assms(2) by (auto simp: tree_wf_def)
  show "level_entry ptr m root l va = 0"
    using none [of "take (2 - l) (va_path va)"] assms(1) [OF PX_less, of l va]
    by (cases "take (2 - l) (va_path va) = []") (auto simp: level_entry_def)
qed

lemma node_at_added:
  assumes A: "adds_node ptr m m' root t i q p"
  shows "path_ok p' \<Longrightarrow> node_at ptr m' root p' = (if p' = p @ [i] then Some q else node_at ptr m root p')"
proof (induction p' rule: rev_induct)
  case Nil
  then show ?case by simp
next
  case (snoc j p')
  note wf = adds_nodeD [OF A]
  from snoc have p': "path_ok p'" "j < 512"
    and IH: "node_at ptr m' root p' = (if p' = p @ [i] then Some q else node_at ptr m root p')"
    by (auto simp: path_ok_snoc)
  show ?case
  proof (cases "p' = p @ [i]")
    case True
    moreover have "hop ptr m' q j = None" using wf(7) [OF p'(2)] zero_no_ptr by (simp add: hop_def)
    ultimately have "node_at ptr m' root (p' @ [j]) = None" and "node_at ptr m root (p' @ [j]) = None"
      using IH wf(9) True by (simp_all only: node_at_snoc option.simps if_True)
    with True show ?thesis by simp
  next
    case False
    show ?thesis
    proof (cases "node_at ptr m root p'")
      case None
      with False IH wf(3) show ?thesis by (auto simp: node_at_snoc)
    next
      case (Some x)
      have "hop ptr m' x j = hop ptr m x j" if "\<not> (p' = p \<and> j = i)"
        using elsewhere_same [OF wf(1,8,3,10) p'(1) Some p'(2) that] by (simp add: hop_def)
      then show ?thesis using False IH Some wf(3,6) by (auto simp: node_at_snoc)
    qed
  qed
qed

lemma nodes_added:
  assumes A: "adds_node ptr m m' root t i q p"
  shows "nodes ptr m' root = insert q (nodes ptr m root)"
proof -
  note wf = adds_nodeD(2,9) [OF A] and ta = node_at_added [OF A]
  have "x \<in> nodes ptr m' root \<longleftrightarrow> x = q \<or> x \<in> nodes ptr m root" for x
    using wf unfolding nodes_def mem_Collect_eq by (metis option.distinct(1) option.inject ta)
  then show ?thesis by blast
qed

lemma tree_wf_added:
  assumes A: "adds_node ptr m m' root t i q p"
  shows "tree_wf ptr m' root"
proof -
  note wf = adds_nodeD(1) [OF A]
  have "p1 = p2" if "path_ok p1" "path_ok p2" "node_at ptr m' root p1 = Some x" "node_at ptr m' root p2 = Some x"
    for p1 p2 x
    using that adds_nodeD(5) [OF A] nodesI tree_wf_inj [OF wf, of p1 p2 x]
    by (auto simp: node_at_added [OF A] split: if_splits)
  then show ?thesis using wf unfolding tree_wf_def by blast
qed

text \<open>No entry changes but the one that points to the new table.\<close>

lemma level_entry_added:
  assumes A: "adds_node ptr m m' root t i q p"
  shows "level_entry ptr m' root l va =
    (if cell_path l va = p @ [i] then ld64 m' (slot t i) else level_entry ptr m root l va)"
proof -
  note wf = adds_nodeD [OF A] and at = node_at_added [OF A path_ok_take_va, of "2 - l" va]
  show ?thesis
  proof (cases "take (2 - l) (va_path va) = p @ [i]")
    case True
    then have "cell_path l va \<noteq> p @ [i]" by (simp add: cell_path_def)
    moreover have "level_entry ptr m root l va = 0" using True wf(9) by (simp add: level_entry_def)
    ultimately show ?thesis using True at wf(7) [OF PX_less] by (simp add: level_entry_def)
  next
    case False
    show ?thesis
    proof (cases "cell_path l va = p @ [i]")
      case True
      then show ?thesis using False at wf(3) by (simp add: level_entry_def cell_path_def)
    next
      case False
      then have "ld64 m' (slot x (PX l va)) = ld64 m (slot x (PX l va))"
        if "node_at ptr m root (take (2 - l) (va_path va)) = Some x" for x
        using elsewhere_same [OF wf(1,8,3,10) path_ok_take_va that PX_less] by (auto simp: cell_path_def)
      with False \<open>take (2 - l) (va_path va) \<noteq> p @ [i]\<close> show ?thesis
        using at by (auto simp: level_entry_def split: option.split)
    qed
  qed
qed

end

end
