(* ===== verification/PageTable.thy ===== *)
theory PageTable imports PageTree begin

text \<open>
  The Sv39 page tables of user address spaces as data: the trees of \<open>PageTree\<close> in which every valid entry
  points on, down to the tables of level 0, and the entry they give for a virtual address. This is the
  abstraction against which \<^verbatim>\<open>os/vm.c\<close> is verified.
\<close>

section \<open>The tree\<close>

definition pte_valid :: "u64 \<Rightarrow> bool" where
  "pte_valid e \<longleftrightarrow> e AND PTE_V \<noteq> 0"

abbreviation nxt :: "mem \<Rightarrow> u64 \<Rightarrow> u64 \<Rightarrow> u64 option" where
  "nxt \<equiv> hop pte_valid"

abbreviation table_at :: "mem \<Rightarrow> u64 \<Rightarrow> u64 list \<Rightarrow> u64 option" where
  "table_at \<equiv> node_at pte_valid"

abbreviation tables :: "mem \<Rightarrow> u64 \<Rightarrow> u64 set" where
  "tables \<equiv> nodes pte_valid"

abbreviation pt_wf :: "mem \<Rightarrow> u64 \<Rightarrow> bool" where
  "pt_wf \<equiv> tree_wf pte_valid"

abbreviation adds_table :: "mem \<Rightarrow> mem \<Rightarrow> u64 \<Rightarrow> u64 \<Rightarrow> u64 \<Rightarrow> u64 \<Rightarrow> u64 list \<Rightarrow> bool" where
  "adds_table \<equiv> adds_node pte_valid"

interpretation user_tree: page_tree pte_valid
  by unfold_locales (simp add: pte_valid_def)

lemma nxt_def: "nxt m t i = (let e = ld64 m (slot t i) in if e AND PTE_V \<noteq> 0 then Some (PA_TO_KVA (PTE2PA e)) else None)"
  by (simp add: hop_def pte_valid_def)

section \<open>Entries\<close>

definition leaf_table :: "mem \<Rightarrow> u64 \<Rightarrow> u64 \<Rightarrow> u64 option" where
  "leaf_table m root va = table_at m root (va_path va)"

text \<open>The entry for a virtual address; 0, which is not valid, when there is no table for it.\<close>

definition entry :: "mem \<Rightarrow> u64 \<Rightarrow> u64 \<Rightarrow> u64" where
  "entry m root va = (case leaf_table m root va of None \<Rightarrow> 0 | Some r \<Rightarrow> ld64 m (slot r (PX 0 va)))"

lemma entry_level: "entry m root va = level_entry pte_valid m root 0 va"
  by (simp add: entry_def leaf_table_def level_entry_def)

lemma leaf_table_in_tables: "leaf_table m root va = Some r \<Longrightarrow> r \<in> tables m root"
  unfolding leaf_table_def by (rule nodesI [OF path_ok_va])

lemma entries_cong:
  assumes "same_entries (tables m root) m m'"
  shows "leaf_table m' root va = leaf_table m root va" and "entry m' root va = entry m root va"
    and "tables m' root = tables m root" and "pt_wf m' root = pt_wf m root"
  using node_at_cong [OF assms] level_entry_cong [OF assms] nodes_cong [OF assms]
  by (simp_all add: leaf_table_def entry_level)

text \<open>With a new table no virtual address gains or loses an entry.\<close>

lemma entry_added:
  assumes A: "adds_table m m' root t i q p"
  shows "entry m' root va = entry m root va"
proof -
  have "length (p @ [i]) \<le> 2" using adds_nodeD(2) [OF A] by (simp only: path_ok_def)
  then have "cell_path 0 va \<noteq> p @ [i]" by (auto simp: cell_path_def va_path_def)
  then show ?thesis using user_tree.level_entry_added [OF A] by (simp add: entry_level)
qed

section \<open>Writing a leaf\<close>

definition same_page :: "u64 \<Rightarrow> u64 \<Rightarrow> bool" where
  "same_page va va' \<longleftrightarrow> va_path va = va_path va' \<and> PX 0 va = PX 0 va'"

lemma same_page_cell: "same_page va va' \<longleftrightarrow> cell_path 0 va = cell_path 0 va'"
  by (simp add: same_page_def cell_path_def)

abbreviation writes_leaf :: "mem \<Rightarrow> mem \<Rightarrow> u64 \<Rightarrow> u64 \<Rightarrow> u64 \<Rightarrow> u64 \<Rightarrow> bool" where
  "writes_leaf m m' root r va e \<equiv> writes_cell pte_valid m m' root r (PX 0 va) (va_path va) e"

lemma writes_leaf_def:
  "writes_leaf m m' root r va e \<longleftrightarrow>
     pt_wf m root \<and> leaf_table m root va = Some r \<and> ld64 m' (slot r (PX 0 va)) = e \<and>
     others_same (tables m root) r (PX 0 va) m m'"
  by (auto simp: writes_cell_def leaf_table_def PX_less)

text \<open>Exactly the addresses of that page change their entry.\<close>

lemma entry_written:
  assumes W: "writes_leaf m m' root r va e"
  shows "entry m' root va' = (if same_page va va' then e else entry m root va')"
  using level_entry_written [OF W, of 0 va'] by (auto simp: entry_level same_page_cell cell_path_def)

end
