(* ===== verification/PtPrint.thy ===== *)
theory PtPrint imports Printf PageTable begin

text \<open>
  \<^verbatim>\<open>vm_print\<close> of \<^verbatim>\<open>os/debug.c\<close>, which prints a page table entry by entry, also when \<^verbatim>\<open>mm_mappagesat\<close> of
  \<^verbatim>\<open>os/vm.c\<close> finds a page mapped already. Its walk panics at a table outside the physical memory.
\<close>

definition RISCV_DDR_BASE :: u64 where "RISCV_DDR_BASE = 0x80000000"
definition PHYS_MEM_SIZE :: u64 where "PHYS_MEM_SIZE = 64 * 1024 * 1024"

definition VALID_PHYS_ADDR :: "u64 \<Rightarrow> bool" where
  "VALID_PHYS_ADDR pa \<longleftrightarrow> KERNEL_PHYS_BASE \<le> pa \<and> pa \<le> RISCV_DDR_BASE + PHYS_MEM_SIZE"

abbreviation nl :: string where "nl \<equiv> [char_of (10 :: nat)]"

abbreviation flag :: "u64 \<Rightarrow> u64 \<Rightarrow> char \<Rightarrow> parg" where
  "flag x bit_mask c \<equiv> Arg (if x AND bit_mask \<noteq> 0 then of_char c else of_char CHR ''-'')"

abbreviation flag_args :: "u64 \<Rightarrow> parg list" where
  "flag_args e \<equiv> [flag e PTE_D CHR ''D'', flag e PTE_A CHR ''A'', flag e PTE_G CHR ''G'', flag e PTE_U CHR ''U'',
     flag e PTE_X CHR ''X'', flag e PTE_W CHR ''W'', flag e PTE_R CHR ''R'', flag e PTE_V CHR ''V'']"

text \<open>The entries of the table at \<open>level\<close>, with \<open>k = 3 - level\<close> levels below.\<close>

definition canonical_va :: "u64 \<Rightarrow> u64" where
  "canonical_va iva = (if drop_bit 38 iva AND 1 \<noteq> 0 then iva OR NOT (push_bit 39 1 - 1) else iva)"

primrec vm_print_walk :: "nat \<Rightarrow> u64 \<Rightarrow> u64 \<Rightarrow> bool \<Rightarrow> kst \<Rightarrow> halt + kst" where
  "vm_print_walk 0 va pgt nokva s = Inr s"
| "vm_print_walk (Suc k) va pgt nokva s =
     kfold (\<lambda>i s.
       let level = 2 - k; pte = slot pgt (of_nat i) in
       kbind (load64 pte s) (\<lambda>e.
       if e AND PTE_V = 0 then Inr s
       else
         let iva = canonical_va (va OR push_bit (12 + 9 * (2 - level)) (of_nat i)) in
         kbind (printf (Some (concat (replicate level ''  ''))) [] s) (\<lambda>s.
         kbind (printf (Some (''[%x], pte[%p]: %p -> %p %c%c%c%c%c%c%c%c'' @ nl))
                  ([Arg (of_nat i), Arg pte, Arg iva, Arg (PTE2PA e)] @ flag_args e) s) (\<lambda>s.
         if e AND PTE_R \<noteq> 0 \<or> e AND PTE_W \<noteq> 0 \<or> e AND PTE_X \<noteq> 0 then Inr s
         else
           let pa = PTE2PA e in
           if \<not> VALID_PHYS_ADDR pa then Inl (Panic ''invalid next-level pagetable'')
           else vm_print_walk k iva (if nokva then pa else PA_TO_KVA pa) nokva s))))
       [0..<512] s"

definition vm_print :: "u64 \<Rightarrow> kst \<Rightarrow> halt + kst" where
  "vm_print pagetable s =
     kbind (printf (Some (''=== PageTable at %p ==='' @ nl)) [Arg pagetable] s) (\<lambda>s.
     kbind (vm_print_walk 3 0 pagetable False s) (\<lambda>s.
     printf (Some (''=== END === '' @ nl)) [] s))"

definition vm_print_tmp :: "u64 \<Rightarrow> kst \<Rightarrow> halt + kst" where
  "vm_print_tmp pagetable s =
     kbind (printf (Some (''=== Temporary PageTable at %p ==='' @ nl)) [Arg pagetable] s) (\<lambda>s.
     kbind (vm_print_walk 3 0 pagetable True s) (\<lambda>s.
     printf (Some (''=== END === '' @ nl)) [] s))"

section \<open>What they change\<close>

lemma printf_Inr:
  assumes "printf fmt ap s = Inr s'"
  shows "\<exists>bs. s' = emit bs s"
proof -
  obtain f where f: "fmt = Some f" "\<not> print_lock s"
    using assms by (cases fmt) (auto simp: printf_def Let_def k_intr_off_def split: if_splits)
  then show ?thesis using assms printf_text [of s f ap] by (auto simp: emit_def split: option.splits)
qed

lemma emit_sel [simp]:
  "mem (emit bs s) = mem s" "kmap (emit bs s) = kmap s" "smp (emit bs s) = smp s" "vmas (emit bs s) = vmas s"
  "mms (emit bs s) = mms s" "proc_pool (emit bs s) = proc_pool s" "task_queue (emit bs s) = task_queue s"
  by (simp_all add: emit_def)

end
