(* ===== verification/Pool.thy ===== *)
theory Pool imports Prelude begin

text \<open>
  The contract of an allocator, shared by the page allocator and the object allocators of
  \<^verbatim>\<open>os/kalloc.c\<close>: a pool of resources of which a set is free, from which a client takes and to
  which it returns. \<open>partial_allocator\<close> states what the allocators promise, \<open>total_allocator\<close> adds what an
  allocator promises when nothing is free, and the lemmas are proved from the promises only.
\<close>

datatype pool_op = Get | Put nat

text \<open>
  A client: it keeps the list of what it holds, \<open>Get\<close> allocates (and holds nothing new when the
  allocator answers \<open>null\<close>) and \<open>Put i\<close> frees the \<open>i\<close>-th thing it holds, if there is one.
\<close>

fun pool_run ::
  "('s \<Rightarrow> halt + 'a \<times> 's) \<Rightarrow> ('a \<Rightarrow> 's \<Rightarrow> halt + 's) \<Rightarrow> 'a \<Rightarrow> pool_op list \<Rightarrow> 'a list \<Rightarrow> 's
    \<Rightarrow> halt + 'a list \<times> 's" where
  "pool_run get put null [] hs s = Inr (hs, s)"
| "pool_run get put null (Get # ops) hs s =
     kbind (get s) (\<lambda>(p, s'). pool_run get put null ops (if p = null then hs else hs @ [p]) s')"
| "pool_run get put null (Put i # ops) hs s =
     (if i < length hs
      then kbind (put (hs ! i) s) (pool_run get put null ops (take i hs @ drop (Suc i) hs))
      else pool_run get put null ops hs s)"

fun pool_takes :: "('s \<Rightarrow> halt + 'a \<times> 's) \<Rightarrow> nat \<Rightarrow> 's \<Rightarrow> halt + 'a list \<times> 's" where
  "pool_takes get 0 s = Inr ([], s)"
| "pool_takes get (Suc n) s =
     kbind (get s) (\<lambda>(p, s'). kbind (pool_takes get n s') (\<lambda>(ps, s''). Inr (p # ps, s'')))"

lemma set_remove_nth:
  assumes "distinct hs" and "i < length hs"
  shows "set (take i hs @ drop (Suc i) hs) = set hs - {hs ! i}" "distinct (take i hs @ drop (Suc i) hs)"
    "hs ! i \<in> set hs"
proof -
  have hs: "hs = take i hs @ hs ! i # drop (Suc i) hs" using assms(2) by (rule id_take_nth_drop)
  then have "distinct (take i hs @ hs ! i # drop (Suc i) hs)" using assms(1) by simp
  moreover have "set hs = set (take i hs @ hs ! i # drop (Suc i) hs)" using hs by simp
  ultimately show "set (take i hs @ drop (Suc i) hs) = set hs - {hs ! i}"
    "distinct (take i hs @ drop (Suc i) hs)"
    by auto
  show "hs ! i \<in> set hs" using assms(2) by simp
qed

locale partial_allocator =
  fixes get :: "'s \<Rightarrow> halt + 'a \<times> 's"
    and put :: "'a \<Rightarrow> 's \<Rightarrow> halt + 's"
    and null :: 'a
    and inv :: "'a set \<Rightarrow> 'a set \<Rightarrow> 's \<Rightarrow> bool"
  assumes get_free: "inv U F s \<Longrightarrow> F \<noteq> {} \<Longrightarrow> \<exists>p s'. get s = Inr (p, s') \<and> p \<in> F \<and> inv U (F - {p}) s'"
    and put_held: "inv U F s \<Longrightarrow> p \<in> U \<Longrightarrow> p \<notin> F \<Longrightarrow> \<exists>s'. put p s = Inr s' \<and> inv U (insert p F) s'"
    and universe: "inv U F s \<Longrightarrow> finite U \<and> F \<subseteq> U \<and> null \<notin> U"
begin

text \<open>Allocating \<open>n\<close> times while \<open>n\<close> are free gives \<open>n\<close> different ones.\<close>

lemma takes_distinct:
  assumes "inv U F s" and "n \<le> card F"
  shows "\<exists>ps s'. pool_takes get n s = Inr (ps, s') \<and> length ps = n \<and> distinct ps \<and> set ps \<subseteq> F
    \<and> inv U (F - set ps) s'"
  using assms
proof (induction n arbitrary: F s)
  case 0
  then show ?case by simp
next
  case (Suc n)
  then have "F \<noteq> {}" by auto
  with get_free [OF Suc.prems(1)] obtain p s1 where
    p: "get s = Inr (p, s1)" "p \<in> F" "inv U (F - {p}) s1" by auto
  have "finite F" using universe [OF Suc.prems(1)] by (auto intro: finite_subset)
  then have "n \<le> card (F - {p})" using Suc.prems(2) p(2) by simp
  from Suc.IH [OF p(3) this] obtain ps s2 where
    ps: "pool_takes get n s1 = Inr (ps, s2)" "length ps = n" "distinct ps" "set ps \<subseteq> F - {p}"
      "inv U (F - {p} - set ps) s2" by auto
  have "F - set (p # ps) = F - {p} - set ps" by auto
  then have "inv U (F - set (p # ps)) s2" using ps(5) by (simp only:)
  moreover have "pool_takes get (Suc n) s = Inr (p # ps, s2)" using p(1) ps(1) by simp
  ultimately show ?case using p(2) ps(2-4)
    by (intro exI [of _ "p # ps"] exI [of _ s2]) auto
qed

text \<open>Freeing what is held gives it all back.\<close>

lemma puts_back:
  assumes "inv U F s" and "distinct ps" and "set ps \<subseteq> U" and "set ps \<inter> F = {}"
  shows "\<exists>s'. kfold put ps s = Inr s' \<and> inv U (F \<union> set ps) s'"
  using assms
proof (induction ps arbitrary: F s)
  case Nil
  then show ?case by simp
next
  case (Cons p ps)
  then obtain s1 where s1: "put p s = Inr s1" "inv U (insert p F) s1"
    using put_held [of U F s p] by auto
  have "\<exists>s'. kfold put ps s1 = Inr s' \<and> inv U (insert p F \<union> set ps) s'"
    by (rule Cons.IH) (use Cons.prems s1(2) in auto)
  then show ?case using s1(1) by simp
qed

lemma take_then_put:
  assumes "inv U F s" and "n \<le> card F"
  shows "\<exists>ps s' s''. pool_takes get n s = Inr (ps, s') \<and> kfold put ps s' = Inr s'' \<and> inv U F s''"
proof -
  from takes_distinct [OF assms] obtain ps s' where
    ps: "pool_takes get n s = Inr (ps, s')" "distinct ps" "set ps \<subseteq> F" "inv U (F - set ps) s'" by auto
  have "\<exists>s''. kfold put ps s' = Inr s'' \<and> inv U (F - set ps \<union> set ps) s''"
    by (rule puts_back) (use ps universe [OF assms(1)] in auto)
  moreover have "F - set ps \<union> set ps = F" using ps(3) by auto
  ultimately show ?thesis using ps(1) by auto
qed

end

locale total_allocator = partial_allocator +
  assumes get_none: "inv U {} s \<Longrightarrow> \<exists>s'. get s = Inr (null, s') \<and> inv U {} s'"
begin

text \<open>
  Any client runs to the end; it never holds the same thing twice, and what is free is at every
  moment exactly what it does not hold.
\<close>

lemma run_total:
  assumes "inv U (U - set hs) s" and "distinct hs" and "set hs \<subseteq> U"
  shows "\<exists>hs' s'. pool_run get put null ops hs s = Inr (hs', s') \<and> distinct hs' \<and> set hs' \<subseteq> U
    \<and> inv U (U - set hs') s'"
  using assms
proof (induction ops arbitrary: hs s)
  case Nil
  then show ?case by simp
next
  case (Cons opn ops)
  show ?case
  proof (cases opn)
    case Get
    show ?thesis
    proof (cases "U - set hs = {}")
      case True
      with Cons.prems(1) have "inv U {} s" by (simp only:)
      with get_none obtain s1 where "get s = Inr (null, s1)" "inv U {} s1" by blast
      with True have s1: "get s = Inr (null, s1)" "inv U (U - set hs) s1" by (simp_all only:)
      with Cons.IH [OF s1(2)] Cons.prems(2,3) Get show ?thesis by simp
    next
      case False
      with get_free [OF Cons.prems(1)] obtain p s1 where
        p: "get s = Inr (p, s1)" "p \<in> U - set hs" "inv U (U - set hs - {p}) s1" by auto
      have "U - set hs - {p} = U - set (hs @ [p])" by auto
      then have "inv U (U - set (hs @ [p])) s1" using p(3) by (simp only:)
      moreover have "distinct (hs @ [p])" and "set (hs @ [p]) \<subseteq> U" using p(2) Cons.prems by auto
      moreover have "p \<noteq> null" using universe [OF Cons.prems(1)] p(2) by auto
      ultimately show ?thesis using Cons.IH p(1) Get by simp
    qed
  next
    case (Put i)
    show ?thesis
    proof (cases "i < length hs")
      case False
      then show ?thesis using Cons Put by simp
    next
      case True
      define hs' where "hs' = take i hs @ drop (Suc i) hs"
      note r = set_remove_nth [OF Cons.prems(2) True, folded hs'_def]
      obtain s1 where s1: "put (hs ! i) s = Inr s1" "inv U (insert (hs ! i) (U - set hs)) s1"
        using put_held [OF Cons.prems(1), of "hs ! i"] r(3) Cons.prems(3) by auto
      have "insert (hs ! i) (U - set hs) = U - set hs'" using r Cons.prems(3) by auto
      then have "inv U (U - set hs') s1" using s1(2) by simp
      moreover have "set hs' \<subseteq> U" using r(1) Cons.prems(3) by auto
      ultimately show ?thesis using Cons.IH [of hs' s1] r(2) s1(1) True Put by (simp add: hs'_def)
    qed
  qed
qed

end

text \<open>The allocators that panic when nothing is left.\<close>

locale panicking_allocator = partial_allocator +
  fixes msg :: string
  assumes get_panics: "inv U {} s \<Longrightarrow> get s = Inl (Panic msg)"
begin

text \<open>
  A client either runs to the end, with the same guarantees, or is stopped by this panic; and it
  runs to the end whenever its allocations do not outnumber what the pool holds.
\<close>

lemma run_or_panic:
  assumes "inv U (U - set hs) s" and "distinct hs" and "set hs \<subseteq> U"
  shows "pool_run get put null ops hs s = Inl (Panic msg)
      \<and> card U < length hs + length (filter (\<lambda>opn. opn = Get) ops) \<or>
    (\<exists>hs' s'. pool_run get put null ops hs s = Inr (hs', s') \<and> distinct hs' \<and> set hs' \<subseteq> U
      \<and> inv U (U - set hs') s')"
  using assms
proof (induction ops arbitrary: hs s)
  case Nil
  then show ?case by simp
next
  case (Cons opn ops)
  have fin: "finite U" and null: "null \<notin> U" using universe [OF Cons.prems(1)] by auto
  show ?case
  proof (cases opn)
    case Get
    show ?thesis
    proof (cases "U - set hs = {}")
      case True
      with Cons.prems(1) have "inv U {} s" by (simp only:)
      moreover have "U = set hs" using True Cons.prems(3) by auto
      then have "card U = length hs" using Cons.prems(2) by (simp add: distinct_card)
      ultimately show ?thesis using Get get_panics by simp
    next
      case False
      with get_free [OF Cons.prems(1)] obtain p s1 where
        p: "get s = Inr (p, s1)" "p \<in> U - set hs" "inv U (U - set hs - {p}) s1" by auto
      have "U - set hs - {p} = U - set (hs @ [p])" by auto
      then have "inv U (U - set (hs @ [p])) s1" using p(3) by (simp only:)
      moreover have "distinct (hs @ [p])" and "set (hs @ [p]) \<subseteq> U" using p(2) Cons.prems by auto
      moreover have "p \<noteq> null" using null p(2) by auto
      ultimately show ?thesis using Cons.IH [of "hs @ [p]" s1] p(1) Get by simp
    qed
  next
    case (Put i)
    show ?thesis
    proof (cases "i < length hs")
      case False
      then show ?thesis using Cons Put by simp
    next
      case True
      define hs' where "hs' = take i hs @ drop (Suc i) hs"
      note r = set_remove_nth [OF Cons.prems(2) True, folded hs'_def]
      obtain s1 where s1: "put (hs ! i) s = Inr s1" "inv U (insert (hs ! i) (U - set hs)) s1"
        using put_held [OF Cons.prems(1), of "hs ! i"] r(3) Cons.prems(3) by auto
      have "insert (hs ! i) (U - set hs) = U - set hs'" using r Cons.prems(3) by auto
      then have "inv U (U - set hs') s1" using s1(2) by simp
      moreover have "set hs' \<subseteq> U" using r(1) Cons.prems(3) by auto
      moreover have "length hs' \<le> length hs" by (simp add: hs'_def)
      ultimately show ?thesis using Cons.IH [of hs' s1] r(2) s1(1) True Put by (auto simp: hs'_def)
    qed
  qed
qed

end

end
