(* ===== verification/Kalloc.thy ===== *)
theory Kalloc imports KState Pool begin

text \<open>
  The page allocator of \<^verbatim>\<open>os/kalloc.c\<close>: free pages are linked through their first eight bytes,
  \<open>freelist\<close> is the head. The operations, their exact results, and the interpretation of the
  allocator contract.
\<close>

section \<open>Operations\<close>

definition kfreepage :: "u64 \<Rightarrow> kst \<Rightarrow> halt + kst" where
  "kfreepage pa s =
     kbind (k_acquire L_kpage s) (\<lambda>s.
       let kvaddr = PA_TO_KVA pa in
       if \<not> PGALIGNED pa \<or>
          \<not> (kpage_allocator_base s \<le> kvaddr \<and> kvaddr < kpage_allocator_base s + kpage_allocator_size s)
       then Inl (Panic ''kfree: invalid page'')
       else
         kbind (k_memset kvaddr 0xdd 4096 s) (\<lambda>s.
         kbind (store64 kvaddr (freelist s) s) (\<lambda>s.
         k_release L_kpage (s\<lparr>freelist := kvaddr\<rparr>))))"

text \<open>The result is a physical address, \<open>KVA_TO_PA 0\<close> when no page is free.\<close>

definition kallocpage :: "kst \<Rightarrow> halt + u64 \<times> kst" where
  "kallocpage s =
     kbind (k_acquire L_kpage s) (\<lambda>s.
       let l = freelist s in
       kbind (if l \<noteq> 0
              then kbind (load64 l s) (\<lambda>n. k_memset l 0xaf 4096 (s\<lparr>freelist := n\<rparr>))
              else Inr s) (\<lambda>s.
       kbind (k_release L_kpage s) (\<lambda>s. Inr (KVA_TO_PA l, s))))"

text \<open>
  The loop of \<^verbatim>\<open>freerange\<close> runs downwards. Only when the lower bound is 0 does \<^verbatim>\<open>p -= PGSIZE\<close> pass
  the bottom of the address space; the loop's test then holds for ever, and the loop never ends
  other than by the panic of \<open>kfreepage\<close>.
\<close>

function freerange_loop :: "u64 \<Rightarrow> u64 \<Rightarrow> kst \<Rightarrow> halt + kst" where
  "freerange_loop start p s =
     (if start \<le> p
      then kbind (kfreepage (KVA_TO_PA p) s) (\<lambda>s.
             if p < PGSIZE then Inl Spin else freerange_loop start (p - PGSIZE) s)
      else Inr s)"
  by pat_completeness auto
termination
proof (relation "measure (\<lambda>(start, p, s). unat p)")
  fix start p :: u64 and s t :: kst
  assume "\<not> p < PGSIZE"
  then have "PGSIZE \<le> p" by simp
  then have "unat (p - PGSIZE) = unat p - 4096" and "4096 \<le> unat p"
    by (simp_all add: unat_sub_le word_le_nat_alt)
  then show "((start, p - PGSIZE, t), start, p, s) \<in> measure (\<lambda>(start, p, s). unat p)" by simp
qed simp

definition freerange :: "u64 \<Rightarrow> u64 \<Rightarrow> kst \<Rightarrow> halt + kst" where
  "freerange kpgva_start kpgva_end s =
     (if \<not> PGALIGNED kpgva_start then Inl (Panic ''assertion failed: PGALIGNED(kpgva_start)'')
      else if \<not> PGALIGNED kpgva_end then Inl (Panic ''assertion failed: PGALIGNED(kpgva_end)'')
      else kbind (freerange_loop kpgva_start (kpgva_end - PGSIZE) s) (\<lambda>s. Inr (s\<lparr>kalloc_inited := True\<rparr>)))"

definition kpgmgrinit :: "kst \<Rightarrow> halt + kst" where
  "kpgmgrinit s =
     freerange (kpage_allocator_base s) (kpage_allocator_base s + kpage_allocator_size s)
       (k_spinlock_init L_kpage s)"

section \<open>The free list\<close>

fun chain :: "mem \<Rightarrow> u64 \<Rightarrow> u64 list \<Rightarrow> bool" where
  "chain m l [] \<longleftrightarrow> l = 0"
| "chain m l (p # ps) \<longleftrightarrow> l = p \<and> p \<noteq> 0 \<and> chain m (ld64 m p) ps"

lemma chain_cong: "(\<And>p. p \<in> set ps \<Longrightarrow> ld64 m' p = ld64 m p) \<Longrightarrow> chain m' l ps = chain m l ps"
  by (induction ps arbitrary: l) auto

definition managed :: "kst \<Rightarrow> u64 \<Rightarrow> bool" where
  "managed s p \<longleftrightarrow> PGALIGNED p \<and> kpage_allocator_base s \<le> p \<and> p < kpage_allocator_base s + kpage_allocator_size s"

text \<open>
  The range of pages given to the allocator: aligned, mapped, in the direct mapping but not its first
  page, and not up to the end of the address space.
\<close>

definition arena_ok :: "kst \<Rightarrow> bool" where
  "arena_ok s \<longleftrightarrow>
     PGALIGNED (kpage_allocator_base s) \<and> PGALIGNED (kpage_allocator_size s) \<and>
     KERNEL_DIRECT_MAPPING_BASE < kpage_allocator_base s \<and>
     unat (kpage_allocator_base s) + unat (kpage_allocator_size s) < 2 ^ 64 \<and>
     (\<forall>p. managed s p \<longrightarrow> page_mapped s p)"

lemma managed_nonzero: "arena_ok s \<Longrightarrow> managed s p \<Longrightarrow> p \<noteq> 0"
proof -
  assume "arena_ok s" and "managed s p"
  then have "KERNEL_DIRECT_MAPPING_BASE < p" by (auto simp: arena_ok_def managed_def)
  then show "p \<noteq> 0" by auto
qed

lemma managed_pa_nonzero: "arena_ok s \<Longrightarrow> managed s p \<Longrightarrow> KVA_TO_PA p \<noteq> 0"
  by (auto simp: arena_ok_def managed_def KVA_TO_PA_def)

lemma managed_aligned: "managed s p \<Longrightarrow> PGALIGNED p"
  by (simp add: managed_def)

definition free_pages :: "kst \<Rightarrow> u64 list \<Rightarrow> bool" where
  "free_pages s ps \<longleftrightarrow> chain (mem s) (freelist s) ps \<and> distinct ps \<and> (\<forall>p \<in> set ps. managed s p)"

lemma ld64_head_outside:
  "(\<And>x. \<not> in_page p x \<Longrightarrow> m' x = m x) \<Longrightarrow> PGALIGNED p \<Longrightarrow> PGALIGNED q \<Longrightarrow> p \<noteq> q \<Longrightarrow> ld64 m' q = ld64 m q"
  using ld64_outside [of p m' m q 0] by simp

text \<open>A change confined to one page leaves a list that does not use the page alone.\<close>

lemma chain_outside:
  assumes "\<And>x. \<not> in_page p x \<Longrightarrow> m' x = m x" and "PGALIGNED p" and "\<forall>q \<in> set ps. PGALIGNED q" and "p \<notin> set ps"
  shows "chain m' l ps = chain m l ps"
proof (rule chain_cong)
  fix q assume "q \<in> set ps"
  then show "ld64 m' q = ld64 m q"
    by (intro ld64_head_outside [OF assms(1,2)]) (use assms(3,4) in auto)
qed

section \<open>What the operations do\<close>

lemma kfreepage_eq:
  assumes "k_ready s" and "k_free L_kpage s" and "managed s p" and "page_mapped s p"
  shows "kfreepage (KVA_TO_PA p) s =
    Inr (s\<lparr>smp := settle (smp s), mem := st64 (fill_page (mem s) p 0xdd) p (freelist s), freelist := p\<rparr>)"
proof -
  have pm: "page_mapped (k_take L_kpage s) p" "\<And>m. page_mapped (k_take L_kpage s\<lparr>mem := m\<rparr>) p"
    using assms(4) by (simp_all add: page_mapped_def mapped_def)
  have rel: "k_release L_kpage (k_take L_kpage s\<lparr>mem := m, freelist := l\<rparr>) =
      Inr (s\<lparr>smp := settle (smp s), mem := m, freelist := l\<rparr>)" for m l
    by (subst k_release_taken [of "smp s"]) (use assms in \<open>simp_all add: k_ready_def k_free_def\<close>)
  show ?thesis
    unfolding kfreepage_def k_acquire_free [OF assms(1,2)]
    using assms(3) pm by (simp add: managed_def k_memset_page store64_page rel)
qed

lemma kallocpage_eq:
  assumes "k_ready s" and "k_free L_kpage s" and "freelist s = p" and "p \<noteq> 0" and "page_mapped s p"
  shows "kallocpage s =
    Inr (KVA_TO_PA p, s\<lparr>smp := settle (smp s), mem := fill_page (mem s) p 0xaf, freelist := ld64 (mem s) p\<rparr>)"
proof -
  have pm: "page_mapped (k_take L_kpage s) p" "\<And>l. page_mapped (k_take L_kpage s\<lparr>freelist := l\<rparr>) p"
    using assms(5) by (simp_all add: page_mapped_def mapped_def)
  have rel: "k_release L_kpage (k_take L_kpage s\<lparr>freelist := l, mem := m\<rparr>) =
      Inr (s\<lparr>smp := settle (smp s), mem := m, freelist := l\<rparr>)" for m l
    by (subst k_release_taken [of "smp s"]) (use assms in \<open>simp_all add: k_ready_def k_free_def\<close>)
  show ?thesis
    unfolding kallocpage_def k_acquire_free [OF assms(1,2)]
    using assms(3,4) pm by (simp add: load64_page k_memset_page rel)
qed

lemma kallocpage_none:
  assumes "k_ready s" and "k_free L_kpage s" and "freelist s = 0"
  shows "kallocpage s = Inr (KVA_TO_PA 0, k_settle s)"
  unfolding kallocpage_def k_acquire_free [OF assms(1,2)]
  using assms k_release_taken [of "smp s" L_kpage "k_take L_kpage s"] by (simp add: k_ready_def k_free_def)

section \<open>The allocator keeps its contract\<close>

text \<open>
  What clients of the page allocator see, relative to the state \<open>s0\<close> in which they start: of the
  pages \<open>U\<close> (physical addresses) they trade with the allocator, \<open>F\<close> are free; the free list
  holds exactly these; and apart from the bytes of the pages \<open>U\<close>, the free list and the
  bookkeeping of interrupts, nothing has changed.
\<close>

definition only_pages :: "u64 set \<Rightarrow> mem \<Rightarrow> mem \<Rightarrow> bool" where
  "only_pages U m0 m \<longleftrightarrow> (\<forall>x. (\<forall>pa \<in> U. \<not> in_page (PA_TO_KVA pa) x) \<longrightarrow> m x = m0 x)"

definition page_inv :: "kst \<Rightarrow> u64 set \<Rightarrow> u64 set \<Rightarrow> kst \<Rightarrow> bool" where
  "page_inv s0 U F s \<longleftrightarrow>
     arena_ok s0 \<and> (\<forall>pa \<in> U. managed s0 (PA_TO_KVA pa)) \<and> F \<subseteq> U \<and>
     (\<exists>ps. free_pages s ps \<and> set ps = PA_TO_KVA ` F) \<and>
     s = s0\<lparr>mem := mem s, freelist := freelist s, smp := smp s\<rparr> \<and>
     settle (smp s) = settle (smp s0) \<and> k_ready s0 \<and> k_free L_kpage s0 \<and>
     only_pages U (mem s0) (mem s)"

lemma page_inv_ready:
  assumes "page_inv s0 U F s"
  shows "k_ready s" and "k_free L_kpage s"
  using assms settle_eq_transfer [of "smp s" "smp s0"] by (auto simp: page_inv_def k_ready_def k_free_def)

lemma managed_only: "s = s0\<lparr>mem := mem s, freelist := freelist s, smp := smp s\<rparr> \<Longrightarrow> managed s p = managed s0 p"
  by (metis (no_types, lifting) managed_def kst.select_convs(6,7) kst.surjective kst.update_convs(1,2,4))

lemma page_mapped_only:
  "s = s0\<lparr>mem := mem s, freelist := freelist s, smp := smp s\<rparr> \<Longrightarrow> page_mapped s p = page_mapped s0 p"
  by (metis (no_types, lifting) page_mapped_def mapped_def kst.select_convs(3) kst.surjective kst.update_convs(1,2,4))

lemma only_pages_step:
  assumes "only_pages U m0 m" and "\<And>x. \<not> in_page (PA_TO_KVA pa) x \<Longrightarrow> m' x = m x" and "pa \<in> U"
  shows "only_pages U m0 m'"
  using assms by (auto simp: only_pages_def)

lemma fill_outside: "\<not> in_page p x \<Longrightarrow> fill_page m p c x = m x"
  by (simp add: fill_page_def)

lemma free_outside: "\<not> in_page p x \<Longrightarrow> st64 (fill_page m p c) p v x = m x"
  using st64_outside [of 0 p x "fill_page m p c" v] by (simp add: fill_outside)

lemma page_inv_get:
  assumes inv: "page_inv s0 U F s" and ne: "F \<noteq> {}"
  shows "\<exists>pa s'. kallocpage s = Inr (pa, s') \<and> pa \<in> F \<and> page_inv s0 U (F - {pa}) s'"
proof -
  from inv obtain ps where ps: "free_pages s ps" "set ps = PA_TO_KVA ` F"
    and same: "s = s0\<lparr>mem := mem s, freelist := freelist s, smp := smp s\<rparr>"
    by (auto simp: page_inv_def)
  from ne ps(2) obtain p qs where psq: "ps = p # qs" by (cases ps) auto
  then obtain pa where pa: "pa \<in> F" "p = PA_TO_KVA pa" using ps(2) by auto
  have mp: "managed s0 p" and al: "arena_ok s0" using inv pa by (auto simp: page_inv_def)
  have p: "freelist s = p" "p \<noteq> 0" and ch: "chain (mem s) (ld64 (mem s) p) qs"
    using ps(1) psq by (auto simp: free_pages_def)
  have pm: "page_mapped s p" using page_mapped_only [OF same] mp al by (simp add: arena_ok_def)
  define s' where "s' = s\<lparr>smp := settle (smp s), mem := fill_page (mem s) p 0xaf, freelist := ld64 (mem s) p\<rparr>"
  have run: "kallocpage s = Inr (pa, s')"
    using kallocpage_eq [OF page_inv_ready [OF inv] p pm] pa(2) by (simp add: s'_def)
  have qs: "\<forall>q \<in> set qs. PGALIGNED q" "p \<notin> set qs" "distinct qs" "\<forall>q \<in> set qs. managed s q"
    using ps(1) psq by (auto simp: free_pages_def managed_def)
  have "chain (fill_page (mem s) p 0xaf) (ld64 (mem s) p) qs"
    using chain_outside [of p "fill_page (mem s) p 0xaf" "mem s" qs] qs ch mp
    by (simp add: fill_outside managed_aligned)
  then have "free_pages s' qs" using qs by (simp add: free_pages_def s'_def managed_def)
  moreover have "set qs = PA_TO_KVA ` (F - {pa})" 
  proof -
    have "set qs = set ps - {p}" using psq qs(2) by auto
    also have "\<dots> = PA_TO_KVA ` (F - {pa})" unfolding ps(2) using pa(2) by auto
    finally show ?thesis .
  qed
  moreover have "only_pages U (mem s0) (mem s')"
    using only_pages_step [of U "mem s0" "mem s" pa "mem s'"] inv pa
    by (auto simp: page_inv_def s'_def fill_outside)
  moreover have "s' = s0\<lparr>mem := mem s', freelist := freelist s', smp := smp s'\<rparr>"
    by (subst s'_def, subst same) (simp add: s'_def)
  moreover have "settle (smp s') = settle (smp s0)" using inv by (simp add: s'_def page_inv_def)
  ultimately have "page_inv s0 U (F - {pa}) s'" using inv unfolding page_inv_def by blast
  with run pa(1) show ?thesis by blast
qed

lemma page_inv_put:
  assumes inv: "page_inv s0 U F s" and pa: "pa \<in> U" "pa \<notin> F"
  shows "\<exists>s'. kfreepage pa s = Inr s' \<and> page_inv s0 U (insert pa F) s'"
proof -
  define p where "p = PA_TO_KVA pa"
  from inv obtain ps where ps: "free_pages s ps" "set ps = PA_TO_KVA ` F"
    and same: "s = s0\<lparr>mem := mem s, freelist := freelist s, smp := smp s\<rparr>"
    by (auto simp: page_inv_def)
  have mp: "managed s0 p" and al: "arena_ok s0" using inv pa by (auto simp: page_inv_def p_def)
  have pm: "page_mapped s p" using page_mapped_only [OF same] mp al by (simp add: arena_ok_def)
  have ms: "managed s p" using managed_only [OF same] mp by simp
  define m' where "m' = st64 (fill_page (mem s) p 0xdd) p (freelist s)"
  define s' where "s' = s\<lparr>smp := settle (smp s), mem := m', freelist := p\<rparr>"
  have run: "kfreepage pa s = Inr s'"
    using kfreepage_eq [OF page_inv_ready [OF inv] ms pm] by (simp add: s'_def m'_def p_def)
  have out: "\<not> in_page p x \<Longrightarrow> m' x = mem s x" for x by (simp add: m'_def free_outside)
  have qs: "\<forall>q \<in> set ps. PGALIGNED q" "p \<notin> set ps"
    using ps pa(2) by (auto simp: free_pages_def managed_def p_def)
  have "chain m' (freelist s) ps"
    using chain_outside [where m' = m' and m = "mem s", OF out managed_aligned [OF mp] qs, where l = "freelist s"] ps(1)
    by (simp add: free_pages_def)
  moreover have "ld64 m' p = freelist s" by (simp add: m'_def)
  moreover have "p \<noteq> 0" using managed_nonzero al mp by blast
  ultimately have "free_pages s' (p # ps)"
    using ps(1) qs ms by (simp add: free_pages_def s'_def managed_def)
  moreover have "set (p # ps) = PA_TO_KVA ` insert pa F" using ps(2) by (simp add: p_def)
  moreover have "only_pages U (mem s0) (mem s')"
    using only_pages_step [of U "mem s0" "mem s" pa "mem s'"] inv pa out
    by (auto simp: page_inv_def s'_def p_def)
  moreover have "s' = s0\<lparr>mem := mem s', freelist := freelist s', smp := smp s'\<rparr>"
    by (subst s'_def, subst same) (simp add: s'_def)
  moreover have "settle (smp s') = settle (smp s0)" using inv by (simp add: s'_def page_inv_def)
  ultimately have "page_inv s0 U (insert pa F) s'"
    using inv pa(1) unfolding page_inv_def by blast
  with run show ?thesis by blast
qed

lemma page_inv_none:
  assumes inv: "page_inv s0 U {} s"
  shows "\<exists>s'. kallocpage s = Inr (KVA_TO_PA 0, s') \<and> page_inv s0 U {} s'"
proof -
  have "freelist s = 0" using inv by (auto simp: page_inv_def free_pages_def)
  then have "kallocpage s = Inr (KVA_TO_PA 0, k_settle s)"
    using kallocpage_none page_inv_ready [OF inv] by blast
  moreover have "page_inv s0 U {} (k_settle s)"
  proof -
    have same: "s = s0\<lparr>mem := mem s, freelist := freelist s, smp := smp s\<rparr>"
      using inv by (simp add: page_inv_def)
    have "k_settle s = s0\<lparr>mem := mem (k_settle s), freelist := freelist (k_settle s), smp := smp (k_settle s)\<rparr>"
      by (subst same) simp
    then show ?thesis using inv by (simp add: page_inv_def free_pages_def managed_def)
  qed
  ultimately show ?thesis by blast
qed

interpretation kp: total_allocator kallocpage kfreepage "KVA_TO_PA 0" "page_inv s0" for s0
proof unfold_locales
  fix U F :: "u64 set" and s
  assume inv: "page_inv s0 U F s"
  have "KVA_TO_PA 0 \<notin> U"
  proof
    assume "KVA_TO_PA 0 \<in> U"
    then have "managed s0 0" and "arena_ok s0" using inv by (auto simp: page_inv_def)
    then show False using managed_nonzero by blast
  qed
  with inv show "finite U \<and> F \<subseteq> U \<and> KVA_TO_PA 0 \<notin> U" by (simp add: page_inv_def)
qed (rule page_inv_get page_inv_put page_inv_none; assumption)+

section \<open>Initialisation\<close>

declare freerange_loop.simps [simp del]

lemma freerange_loop_kfold:
  assumes "PGALIGNED lo" and "PGALIGNED hi" and "0 < lo" and "lo \<le> hi" and "0 < hi"
  shows "freerange_loop lo (hi - PGSIZE) s = kfold kfreepage (map KVA_TO_PA (rev (page_range lo hi))) s"
  using assms(2,4,5)
proof (induction "unat hi" arbitrary: hi s rule: less_induct)
  case less
  have "PGSIZE \<le> lo"
    using assms(1,3) by (auto simp: PGALIGNED_iff word_le_nat_alt word_less_nat_alt dvd_def mod_eq_0_iff_dvd)
  show ?case
  proof (cases "lo < hi")
    case False
    then have "hi = lo" using less.prems by simp
    have "\<not> lo \<le> lo - PGSIZE"
      using \<open>PGSIZE \<le> lo\<close> assms(3) by (simp add: word_le_nat_alt unat_sub_le word_less_nat_alt)
    with \<open>hi = lo\<close> show ?thesis by (simp add: freerange_loop.simps)
  next
    case True
    define h where "h = hi - PGSIZE"
    have pr: "page_range lo hi = page_range lo h @ [h]"
      using page_range_snoc [OF assms(1) less.prems(1) True] by (simp add: h_def)
    have "lo + PGSIZE \<le> hi" and nw: "unat (lo + PGSIZE) = unat lo + 4096"
      using page_step_no_wrap [OF assms(1) less.prems(1) True] by simp_all
    then have "4096 + unat lo \<le> unat hi" by (simp add: word_le_nat_alt)
    then have uh: "unat h = unat hi - 4096" and lh: "lo \<le> h" and hh: "unat h < unat hi"
      by (simp_all add: h_def unat_sub_le word_le_nat_alt)
    have ah: "PGALIGNED h"
      using PGALIGNED_add_iff [OF PGALIGNED_PGSIZE, of h] less.prems(1) by (simp add: h_def)
    have "0 < h" and "\<not> h < PGSIZE" using lh assms(3) \<open>PGSIZE \<le> lo\<close> by auto
    then have "freerange_loop lo h s = kbind (kfreepage (KVA_TO_PA h) s) (freerange_loop lo (h - PGSIZE))"
      using lh by (simp add: freerange_loop.simps [of lo h s])
    also have "freerange_loop lo (h - PGSIZE) = kfold kfreepage (map KVA_TO_PA (rev (page_range lo h)))"
      by (rule ext) (rule less.hyps [OF hh ah lh \<open>0 < h\<close>])
    finally show ?thesis by (simp add: pr h_def)
  qed
qed

lemma managed_page_range:
  assumes "arena_ok s"
  shows "{p. managed s p} =
    set (page_range (kpage_allocator_base s) (kpage_allocator_base s + kpage_allocator_size s))"
  using assms by (subst set_page_range) (auto simp: arena_ok_def managed_def PGALIGNED_add)

text \<open>Starting with an empty list, the allocator ends with every page of its range.\<close>

lemma kpgmgrinit_frees:
  assumes al: "arena_ok s" and rdy: "k_ready s" and empty: "freelist s = 0"
  shows "\<exists>s' ps. kpgmgrinit s = Inr s' \<and> free_pages s' ps \<and> set ps = {p. managed s p} \<and>
    kalloc_inited s' \<and> k_ready s' \<and> k_free L_kpage s' \<and>
    only_pages (KVA_TO_PA ` {p. managed s p}) (mem s) (mem s')"
proof -
  define lo where "lo = kpage_allocator_base s"
  define hi where "hi = kpage_allocator_base s + kpage_allocator_size s"
  define s0 where "s0 = k_spinlock_init L_kpage s"
  define U where "U = KVA_TO_PA ` {p. managed s p}"
  define qs where "qs = map KVA_TO_PA (rev (page_range lo hi))"
  have nw: "unat hi = unat lo + unat (kpage_allocator_size s)"
    using al by (simp add: arena_ok_def lo_def hi_def unat_add_no_wrap)
  then have ord: "PGALIGNED lo" "PGALIGNED hi" "0 < lo" "lo \<le> hi" "0 < hi"
  proof -
    have "0 < unat lo" using al by (auto simp: arena_ok_def lo_def word_less_nat_alt)
    then show "0 < lo" "lo \<le> hi" "0 < hi" using nw by (simp_all add: word_le_nat_alt word_less_nat_alt)
    show "PGALIGNED lo" "PGALIGNED hi" using al by (auto simp: arena_ok_def lo_def hi_def PGALIGNED_add)
  qed
  have m0: "managed s0 = managed s" and al0: "arena_ok s0"
    using al by (auto simp: s0_def k_spinlock_init_def managed_def arena_ok_def page_mapped_def mapped_def)
  have rdy0: "k_ready s0" "k_free L_kpage s0"
    using rdy by (auto simp: s0_def k_spinlock_init_def k_ready_def k_free_def cpu_ready_def lock_free_def)
  have "free_pages s0 []" using empty by (simp add: free_pages_def s0_def k_spinlock_init_def)
  moreover have "\<forall>pa \<in> U. managed s0 (PA_TO_KVA pa)" by (auto simp: m0 U_def)
  ultimately have "page_inv s0 U {} s0"
    using al0 rdy0 unfolding page_inv_def by (auto simp: only_pages_def intro: exI [of _ "[]"])
  moreover have qs: "distinct qs" "set qs = U"
    using distinct_page_range [OF ord(1,2)] managed_page_range [OF al]
    by (auto simp: qs_def U_def lo_def hi_def distinct_map inj_on_def)
  ultimately obtain s1 where s1: "kfold kfreepage qs s0 = Inr s1" "page_inv s0 U ({} \<union> set qs) s1"
    using kp.puts_back [of s0 U "{}" s0 qs] by auto
  from s1(2) qs obtain ps where ps: "free_pages s1 ps" "set ps = PA_TO_KVA ` U"
    and same: "s1 = s0\<lparr>mem := mem s1, freelist := freelist s1, smp := smp s1\<rparr>"
    and mem1: "only_pages U (mem s0) (mem s1)"
    by (auto simp: page_inv_def)
  define s' where "s' = s1\<lparr>kalloc_inited := True\<rparr>"
  have "kpgmgrinit s = Inr s'"
  proof -
    have "kpgmgrinit s = freerange lo hi s0" by (simp add: kpgmgrinit_def lo_def hi_def s0_def)
    then show ?thesis
      using ord freerange_loop_kfold [OF ord, of s0] s1(1) by (simp add: freerange_def qs_def s'_def)
  qed
  moreover have "free_pages s' ps" using ps(1) by (simp add: free_pages_def s'_def managed_def)
  moreover have "set ps = {p. managed s p}" using ps(2) by (auto simp: U_def image_image)
  moreover have "k_ready s'" "k_free L_kpage s'"
    using page_inv_ready [OF s1(2)] by (simp_all add: s'_def k_ready_def k_free_def)
  moreover have "only_pages U (mem s) (mem s')" using mem1 by (simp add: s'_def s0_def k_spinlock_init_def)
  ultimately show ?thesis unfolding U_def s'_def by auto
qed

section \<open>Properties\<close>

text \<open>C7. The page allocator: for every client, and every sequence of allocations and frees of pages
  it holds, no call panics or faults; an allocation returns a page that was free, so no page is
  ever held twice, or \<open>KVA_TO_PA 0\<close> when none is free; what is free afterwards is exactly what is
  not held; and no byte outside the pages of the pool has changed.\<close>

theorem page_allocator_correct:
  assumes "arena_ok s" and "k_ready s" and "k_free L_kpage s" and "free_pages s ps"
  shows "\<exists>hs' s' qs. pool_run kallocpage kfreepage (KVA_TO_PA 0) ops [] s = Inr (hs', s') \<and>
    distinct hs' \<and> set hs' \<subseteq> KVA_TO_PA ` set ps \<and>
    free_pages s' qs \<and> set qs = set ps - PA_TO_KVA ` set hs' \<and>
    only_pages (KVA_TO_PA ` set ps) (mem s) (mem s')"
proof -
  define U where "U = KVA_TO_PA ` set ps"
  have "page_inv s U (U - set []) s"
    unfolding page_inv_def using assms
    by (auto simp: U_def free_pages_def image_image only_pages_def intro!: exI [of _ ps])
  from kp.run_total [OF this, of ops] obtain hs' s' where
    r: "pool_run kallocpage kfreepage (KVA_TO_PA 0) ops [] s = Inr (hs', s')" "distinct hs'" "set hs' \<subseteq> U"
      "page_inv s U (U - set hs') s'"
    by auto
  then obtain qs where qs: "free_pages s' qs" "set qs = PA_TO_KVA ` (U - set hs')"
    and "only_pages U (mem s) (mem s')"
    by (auto simp: page_inv_def)
  moreover have "PA_TO_KVA ` (U - set hs') = set ps - PA_TO_KVA ` set hs'"
  proof -
    have "PA_TO_KVA ` (U - set hs') = PA_TO_KVA ` U - PA_TO_KVA ` set hs'" by (auto simp: image_iff)
    then show ?thesis by (simp add: U_def image_image)
  qed
  ultimately show ?thesis using r(1-3) unfolding U_def
    by (intro exI [of _ hs'] exI [of _ s'] exI [of _ qs]) simp
qed

lemma boot_kst_pages: "arena_ok boot_kst" "free_pages boot_kst [0xffffffc080400000]"
  by (auto simp: arena_ok_def free_pages_def managed_def boot_kst_def page_mapped_def mapped_def PGALIGNED_def
      PGSIZE_def KERNEL_DIRECT_MAPPING_BASE_def)

theorem page_allocator_correct_witness:
  "\<exists>hs' s' qs. pool_run kallocpage kfreepage (KVA_TO_PA 0) [Get, Get, Put 0, Get] [] boot_kst = Inr (hs', s') \<and>
    distinct hs' \<and> set hs' \<subseteq> KVA_TO_PA ` set [0xffffffc080400000] \<and>
    free_pages s' qs \<and> set qs = set [0xffffffc080400000] - PA_TO_KVA ` set hs' \<and>
    only_pages (KVA_TO_PA ` set [0xffffffc080400000]) (mem boot_kst) (mem s')"
  by (rule page_allocator_correct [OF boot_kst_pages(1) boot_kst_ready boot_kst_pages(2)])

text \<open>C8. \<^verbatim>\<open>kpgmgrinit\<close> hands every page of the allocator's range, each once, to the free list, and
  writes nowhere else.\<close>

theorem kpgmgrinit_correct:
  assumes "arena_ok s" and "k_ready s" and "freelist s = 0"
  shows "\<exists>s' ps. kpgmgrinit s = Inr s' \<and> free_pages s' ps \<and> set ps = {p. managed s p} \<and>
    kalloc_inited s' \<and> k_ready s' \<and> k_free L_kpage s' \<and>
    only_pages (KVA_TO_PA ` {p. managed s p}) (mem s) (mem s')"
  using assms by (rule kpgmgrinit_frees)

theorem kpgmgrinit_correct_witness:
  "\<exists>s' ps. kpgmgrinit (boot_kst\<lparr>freelist := 0\<rparr>) = Inr s' \<and> free_pages s' ps \<and>
    set ps = {p. managed (boot_kst\<lparr>freelist := 0\<rparr>) p} \<and>
    kalloc_inited s' \<and> k_ready s' \<and> k_free L_kpage s' \<and>
    only_pages (KVA_TO_PA ` {p. managed (boot_kst\<lparr>freelist := 0\<rparr>) p}) (mem (boot_kst\<lparr>freelist := 0\<rparr>)) (mem s')"
proof (rule kpgmgrinit_correct)
  show "arena_ok (boot_kst\<lparr>freelist := 0\<rparr>)"
    using boot_kst_pages(1) by (simp add: arena_ok_def managed_def page_mapped_def mapped_def)
  show "k_ready (boot_kst\<lparr>freelist := 0\<rparr>)" using boot_kst_ready(1) by (simp add: k_ready_def)
qed simp

text \<open>An exhausted pool is not reported by a null pointer: \<^verbatim>\<open>kallocpage\<close> returns \<open>KVA_TO_PA 0\<close>,
  which is not 0, so callers that compare the physical address with 0 never see the failure, while
  callers that convert it back to a kernel address get 0.\<close>

theorem kallocpage_exhausted:
  assumes "k_ready s" and "k_free L_kpage s" and "freelist s = 0"
  shows "\<exists>pa s'. kallocpage s = Inr (pa, s') \<and> pa \<noteq> 0 \<and> PA_TO_KVA pa = 0 \<and> mem s' = mem s"
  using kallocpage_none [OF assms] by (simp add: KVA_TO_PA_def PA_TO_KVA_def layout_simps)

theorem kallocpage_exhausted_witness:
  "\<exists>pa s'. kallocpage (boot_kst\<lparr>freelist := 0\<rparr>) = Inr (pa, s') \<and> pa \<noteq> 0 \<and> PA_TO_KVA pa = 0 \<and>
    mem s' = mem (boot_kst\<lparr>freelist := 0\<rparr>)"
  by (rule kallocpage_exhausted) (use boot_kst_ready in \<open>simp_all add: k_ready_def k_free_def\<close>)

end
