(* ===== verification/ObjAlloc.thy ===== *)
theory ObjAlloc imports KState Pool begin

text \<open>
  The fixed-size object allocators of \<^verbatim>\<open>os/kalloc.c\<close>: a pool of equal objects and a bitmap of one page
  that says which are allocated. The operations, their results, and the interpretation of the
  allocator contract.
\<close>

section \<open>Operations\<close>

definition bit_set :: "u64 \<Rightarrow> u64 \<Rightarrow> kst \<Rightarrow> halt + kst" where
  "bit_set bm index s =
     kbind (load8 (bm + index div 8) s) (\<lambda>b.
     store8 (bm + index div 8) (b OR push_bit (unat (index mod 8)) 1) s)"

definition bit_clear :: "u64 \<Rightarrow> u64 \<Rightarrow> kst \<Rightarrow> halt + kst" where
  "bit_clear bm index s =
     kbind (load8 (bm + index div 8) s) (\<lambda>b.
     store8 (bm + index div 8) (b AND NOT (push_bit (unat (index mod 8)) 1)) s)"

definition is_bit_set :: "u64 \<Rightarrow> u64 \<Rightarrow> kst \<Rightarrow> halt + u8" where
  "is_bit_set bm index s =
     kbind (load8 (bm + index div 8) s) (\<lambda>b. Inr (b AND push_bit (unat (index mod 8)) 1))"

definition upd_alloc :: "alloc_id \<Rightarrow> (allocator \<Rightarrow> allocator) \<Rightarrow> kst \<Rightarrow> kst" where
  "upd_alloc A f s = s\<lparr>allocs := (allocs s)(A := f (allocs s A))\<rparr>"

definition counts_ok :: "allocator \<Rightarrow> bool" where
  "counts_ok a \<longleftrightarrow> allocated_count a + available_count a = max_count a"

text \<open>The loop of \<^verbatim>\<open>kalloc\<close> over the indices of the bitmap, with the code after a clear bit is found.\<close>

fun kalloc_scan :: "alloc_id \<Rightarrow> nat list \<Rightarrow> kst \<Rightarrow> halt + u64 \<times> kst" where
  "kalloc_scan A [] s = Inl (Panic ''should not happen'')"
| "kalloc_scan A (i # is) s =
     kbind (is_bit_set (bitmap (allocs s A)) (of_nat i) s) (\<lambda>b.
       if b = 0 then
         kbind (bit_set (bitmap (allocs s A)) (of_nat i) s) (\<lambda>s.
         let s = upd_alloc A (\<lambda>a. a\<lparr>allocated_count := allocated_count a + 1\<rparr>) s;
             ret = pool_base (allocs s A) + of_nat i * object_size_aligned (allocs s A) in
         if \<not> counts_ok (allocs s A)
         then Inl (Panic ''assertion failed: alloc->allocated_count + alloc->available_count == alloc->max_count'')
         else
           kbind (k_memset ret 0xf9 (ucast (object_size_aligned (allocs s A))) s) (\<lambda>s.
           kbind (k_release (L_alloc A) s) (\<lambda>s. Inr (ret, s))))
       else kalloc_scan A is s)"

definition kalloc :: "alloc_id \<Rightarrow> kst \<Rightarrow> halt + u64 \<times> kst" where
  "kalloc A s =
     kbind (k_acquire (L_alloc A) s) (\<lambda>s.
       if available_count (allocs s A) = 0 then Inl (Panic ''unavailable'')
       else kalloc_scan A [0..<unat (max_count (allocs s A))]
              (upd_alloc A (\<lambda>a. a\<lparr>available_count := available_count a - 1\<rparr>) s))"

definition kfree :: "alloc_id \<Rightarrow> u64 \<Rightarrow> kst \<Rightarrow> halt + kst" where
  "kfree A obj s =
     (if obj = 0 then Inr s
      else
        kbind (k_acquire (L_alloc A) s) (\<lambda>s.
        if \<not> (pool_base (allocs s A) \<le> obj \<and> obj < pool_end (allocs s A))
        then Inl (Panic ''assertion failed: alloc->pool_base <= obj && obj < alloc->pool_end'')
        else
          let index = (obj - pool_base (allocs s A)) div object_size_aligned (allocs s A) in
          kbind (is_bit_set (bitmap (allocs s A)) index s) (\<lambda>b.
          if b = 0 then Inl (Panic ''double free'')
          else
            kbind (bit_clear (bitmap (allocs s A)) index s) (\<lambda>s.
            let s = upd_alloc A (\<lambda>a. a\<lparr>allocated_count := allocated_count a - 1,
                                       available_count := available_count a + 1\<rparr>) s in
            if \<not> counts_ok (allocs s A)
            then Inl (Panic ''assertion failed: alloc->allocated_count + alloc->available_count == alloc->max_count'')
            else
              kbind (k_memset obj 0xfa (ucast (object_size_aligned (allocs s A))) s) (\<lambda>s.
              k_release (L_alloc A) s)))))"

section \<open>The bitmap\<close>

definition allocated :: "mem \<Rightarrow> u64 \<Rightarrow> nat \<Rightarrow> bool" where
  "allocated m bm i \<longleftrightarrow> bit (m (bm + of_nat (i div 8))) (i mod 8)"

lemma index_div: "i < 2 ^ 15 \<Longrightarrow> (of_nat i :: u64) div 8 = of_nat (i div 8)"
  by (rule unat_inj) (simp add: unat_div unat_of_nat_small)

lemma index_mod: "i < 2 ^ 15 \<Longrightarrow> unat ((of_nat i :: u64) mod 8) = i mod 8"
  by (simp add: unat_mod unat_of_nat_small)

lemma bitmap_byte: "i < 2 ^ 15 \<Longrightarrow> in_page bm (bm + of_nat (i div 8))"
  by (simp add: in_page_def word_less_nat_alt unat_of_nat_small)

lemma and_bit_0: "b AND push_bit k 1 = 0 \<longleftrightarrow> \<not> bit (b :: u8) k" if "k < 8"
proof
  assume "b AND push_bit k 1 = 0"
  then have "\<not> bit (b AND push_bit k 1) k" by simp
  then show "\<not> bit b k" using that by (simp add: bit_simps)
next
  assume "\<not> bit b k"
  then show "b AND push_bit k 1 = 0" by (intro bit_eqI) (auto simp: bit_simps)
qed

lemma is_bit_set_eq:
  assumes "page_mapped s bm" and "i < 2 ^ 15"
  shows "\<exists>b. is_bit_set bm (of_nat i) s = Inr b \<and> (b = 0 \<longleftrightarrow> \<not> allocated (mem s) bm i)"
  using assms bitmap_byte [OF assms(2), of bm] and_bit_0 [of "i mod 8"]
  by (auto simp: is_bit_set_def load8_def index_div index_mod allocated_def page_mapped_iff)

definition put_bit :: "mem \<Rightarrow> u64 \<Rightarrow> nat \<Rightarrow> bool \<Rightarrow> mem" where
  "put_bit m bm i v =
     m(bm + of_nat (i div 8) :=
        (if v then m (bm + of_nat (i div 8)) OR push_bit (i mod 8) 1
         else m (bm + of_nat (i div 8)) AND NOT (push_bit (i mod 8) 1)))"

lemma bit_set_eq:
  "page_mapped s bm \<Longrightarrow> i < 2 ^ 15 \<Longrightarrow> bit_set bm (of_nat i) s = Inr (s\<lparr>mem := put_bit (mem s) bm i True\<rparr>)"
  using bitmap_byte [of i bm]
  by (simp add: bit_set_def load8_def store8_def index_div index_mod put_bit_def page_mapped_iff)

lemma bit_clear_eq:
  "page_mapped s bm \<Longrightarrow> i < 2 ^ 15 \<Longrightarrow> bit_clear bm (of_nat i) s = Inr (s\<lparr>mem := put_bit (mem s) bm i False\<rparr>)"
  using bitmap_byte [of i bm]
  by (simp add: bit_clear_def load8_def store8_def index_div index_mod put_bit_def page_mapped_iff)

lemma allocated_put_bit:
  assumes "i < 2 ^ 15" and "j < 2 ^ 15"
  shows "allocated (put_bit m bm i v) bm j \<longleftrightarrow> (if j = i then v else allocated m bm j)"
proof -
  have "(of_nat (j div 8) :: u64) = of_nat (i div 8) \<longleftrightarrow> j div 8 = i div 8"
    using assms by (simp add: word_of_nat_eq_iff_small)
  then have eq: "(word_of_nat (j div 8) :: u64) = word_of_nat (i div 8) \<longleftrightarrow> j div 8 = i div 8" .
  have "j div 8 = i div 8 \<and> j mod 8 = i mod 8 \<longleftrightarrow> j = i"
    by (metis div_mod_decomp)
  moreover have "j mod 8 < 8" by simp
  ultimately show ?thesis
    unfolding allocated_def put_bit_def fun_upd_apply add_left_cancel eq by (auto simp: bit_simps)
qed

lemma put_bit_outside: "i < 2 ^ 15 \<Longrightarrow> \<not> in_page bm x \<Longrightarrow> put_bit m bm i v x = m x"
  using bitmap_byte [of i bm] by (auto simp: put_bit_def)

lemma allocated_cong:
  "(\<And>x. in_page bm x \<Longrightarrow> m' x = m x) \<Longrightarrow> i < 2 ^ 15 \<Longrightarrow> allocated m' bm i = allocated m bm i"
  using bitmap_byte [of i bm] by (simp add: allocated_def)

section \<open>The objects\<close>

definition obj_addr :: "allocator \<Rightarrow> nat \<Rightarrow> u64" where
  "obj_addr a i = pool_base a + of_nat i * object_size_aligned a"

text \<open>
  An allocator as \<^verbatim>\<open>allocator_init\<close> leaves it: one bitmap page, objects of a size from 1 to
  \<open>2 ^ 32 - 1\<close> that fit between \<open>pool_base\<close> and \<open>pool_end\<close>, everything mapped.
\<close>

definition objs_ok :: "kst \<Rightarrow> alloc_id \<Rightarrow> bool" where
  "objs_ok s A \<longleftrightarrow>
     (let a = allocs s A in
      unat (max_count a) \<le> 2 ^ 15 \<and> page_mapped s (bitmap a) \<and>
      0 < object_size_aligned a \<and> object_size_aligned a < 2 ^ 32 \<and> 0 < pool_base a \<and>
      unat (pool_base a) + unat (max_count a) * unat (object_size_aligned a) \<le> unat (pool_end a) \<and>
      (\<forall>x. pool_base a \<le> x \<and> x < pool_end a \<longrightarrow> kmap s x \<and> \<not> in_page (bitmap a) x))"

definition in_object :: "allocator \<Rightarrow> u64 \<Rightarrow> u64 \<Rightarrow> bool" where
  "in_object a p x \<longleftrightarrow> x - p < object_size_aligned a"

lemma obj_addr_no_wrap:
  assumes "objs_ok s A" and "i < unat (max_count (allocs s A))" and a: "a = allocs s A"
  shows "unat (obj_addr a i) = unat (pool_base a) + i * unat (object_size_aligned a)"
    and "unat (obj_addr a i) + unat (object_size_aligned a) \<le> unat (pool_end a)"
proof -
  define z where "z = unat (object_size_aligned a)"
  have le: "(i + 1) * z \<le> unat (max_count a) * z" by (rule mult_le_mono1) (use assms in simp)
  moreover have "unat (pool_base a) + unat (max_count a) * z \<le> unat (pool_end a)"
    using assms by (simp add: objs_ok_def z_def Let_def)
  ultimately have bound: "unat (pool_base a) + i * z + z \<le> unat (pool_end a)" by (simp add: algebra_simps)
  moreover have "unat (pool_end a) < 2 ^ 64" using unat_less_2p [of "pool_end a"] by simp
  ultimately have small: "unat (pool_base a) + i * z < 2 ^ 64" by simp
  have "i < 2 ^ 64" using assms unat_less_2p [of "max_count a"] by simp
  then have "unat (of_nat i * object_size_aligned a) = i * z"
    using small by (simp add: unat_word_ariths z_def unat_of_nat_small)
  then show "unat (obj_addr a i) = unat (pool_base a) + i * unat (object_size_aligned a)"
    using small by (simp add: obj_addr_def unat_add_no_wrap z_def)
  with bound show "unat (obj_addr a i) + unat (object_size_aligned a) \<le> unat (pool_end a)"
    by (simp add: z_def)
qed

lemma obj_addr_inj:
  assumes "objs_ok s A" and "i < unat (max_count (allocs s A))" and "j < unat (max_count (allocs s A))"
    and "obj_addr (allocs s A) i = obj_addr (allocs s A) j"
  shows "i = j"
proof -
  have "unat (obj_addr (allocs s A) i) = unat (obj_addr (allocs s A) j)" using assms(4) by simp
  moreover have "0 < unat (object_size_aligned (allocs s A))"
    using assms(1) by (simp add: objs_ok_def Let_def word_less_nat_alt)
  ultimately show ?thesis
    using obj_addr_no_wrap(1) [OF assms(1,2) refl] obj_addr_no_wrap(1) [OF assms(1,3) refl] by simp
qed

lemma in_object_range:
  assumes "objs_ok s A" and "i < unat (max_count (allocs s A))" and "a = allocs s A"
    and "in_object a (obj_addr a i) x"
  shows "pool_base a \<le> x \<and> x < pool_end a"
proof -
  define d where "d = x - obj_addr a i"
  have d: "unat d < unat (object_size_aligned a)" using assms(4) by (simp add: in_object_def d_def word_less_nat_alt)
  note n = obj_addr_no_wrap [OF assms(1,2,3)]
  have "unat (pool_end a) < 2 ^ 64" using unat_less_2p [of "pool_end a"] by simp
  with n(2) d have "unat (obj_addr a i + d) = unat (obj_addr a i) + unat d" by (simp add: unat_add_no_wrap)
  then have "unat x = unat (obj_addr a i) + unat d" by (simp add: d_def)
  with n d show ?thesis by (simp add: word_le_nat_alt word_less_nat_alt)
qed

lemma obj_addr_in_range:
  assumes "objs_ok s A" and "i < unat (max_count (allocs s A))" and "a = allocs s A"
  shows "pool_base a \<le> obj_addr a i" and "obj_addr a i < pool_end a" and "obj_addr a i \<noteq> 0"
proof -
  have "in_object a (obj_addr a i) (obj_addr a i)" and base: "0 < pool_base a"
    using assms(1,3) by (simp_all add: in_object_def objs_ok_def Let_def)
  with in_object_range [OF assms] show le: "pool_base a \<le> obj_addr a i" and "obj_addr a i < pool_end a"
    by auto
  show "obj_addr a i \<noteq> 0" using le base by (metis word_le_0_iff word_gt_0)
qed

lemma obj_index:
  assumes "objs_ok s A" and "i < unat (max_count (allocs s A))" and "a = allocs s A"
  shows "(obj_addr a i - pool_base a) div object_size_aligned a = of_nat i"
proof (rule unat_inj)
  have z: "0 < unat (object_size_aligned a)"
    using assms(1,3) by (simp add: objs_ok_def Let_def word_less_nat_alt)
  have "unat (obj_addr a i - pool_base a) = i * unat (object_size_aligned a)"
    using obj_addr_in_range(1) [OF assms] obj_addr_no_wrap(1) [OF assms] by (simp add: unat_sub_le)
  moreover have "i < 2 ^ 64" using assms(2,3) unat_less_2p [of "max_count a"] by simp
  ultimately show "unat ((obj_addr a i - pool_base a) div object_size_aligned a) = unat (of_nat i :: u64)"
    using z by (simp add: unat_div unat_of_nat_small)
qed

text \<open>The junk that both operations write into the object.\<close>

definition fill_object :: "allocator \<Rightarrow> u64 \<Rightarrow> u8 \<Rightarrow> mem \<Rightarrow> mem" where
  "fill_object a p c m = (\<lambda>x. if in_object a p x then c else m x)"

lemma k_memset_object:
  assumes "objs_ok s A" and "i < unat (max_count (allocs s A))" and "a = allocs s A" and "kmap t = kmap s"
  shows "k_memset (obj_addr a i) c (ucast (object_size_aligned a)) t =
    Inr (t\<lparr>mem := fill_object a (obj_addr a i) (ucast c) (mem t)\<rparr>)"
proof -
  have z: "unat (ucast (object_size_aligned a) :: u32) = unat (object_size_aligned a)"
    using assms(1,3) by (simp add: objs_ok_def Let_def word_less_nat_alt unsigned_ucast_eq take_bit_nat_eq_self)
  have "mapped t (obj_addr a i) (unat (object_size_aligned a))"
    unfolding mapped_def
  proof (intro allI impI)
    fix k assume k: "k < unat (object_size_aligned a)"
    then have "in_object a (obj_addr a i) (obj_addr a i + of_nat k)"
      using unat_less_2p [of "object_size_aligned a"]
      by (simp add: in_object_def word_less_nat_alt unat_of_nat_small)
    from in_object_range [OF assms(1-3) this] show "kmap t (obj_addr a i + of_nat k)"
      using assms by (auto simp: objs_ok_def Let_def)
  qed
  then show ?thesis
    by (simp add: k_memset_def z memset_eq fill_object_def in_object_def word_less_nat_alt)
qed

lemma allocated_fill_object:
  assumes "objs_ok s A" and "i < unat (max_count (allocs s A))" and "a = allocs s A" and "j < 2 ^ 15"
  shows "allocated (fill_object a (obj_addr a i) c m) (bitmap a) j = allocated m (bitmap a) j"
proof (rule allocated_cong)
  fix x assume "in_page (bitmap a) x"
  then have "\<not> in_object a (obj_addr a i) x"
    using in_object_range [OF assms(1-3)] assms(1,3) by (auto simp: objs_ok_def Let_def)
  then show "fill_object a (obj_addr a i) c m x = m x" by (simp add: fill_object_def)
qed (rule assms(4))

section \<open>What the operations do\<close>

abbreviation set_alloc :: "alloc_id \<Rightarrow> allocator \<Rightarrow> kst \<Rightarrow> kst" where
  "set_alloc A a s \<equiv> s\<lparr>allocs := (allocs s)(A := a)\<rparr>"

lemma k_release_after:
  assumes "k_ready s" and "k_free l s" and "smp t = take_lock l (smp s)"
  shows "k_release l t = Inr (t\<lparr>smp := settle (smp s)\<rparr>)"
  using k_release_taken [of "smp s" l t] assms by (simp add: k_ready_def k_free_def)

lemma objs_ok_parts:
  assumes "objs_ok s A"
  shows "unat (max_count (allocs s A)) \<le> 2 ^ 15" and "page_mapped s (bitmap (allocs s A))"
  using assms by (simp_all add: objs_ok_def Let_def)

lemma page_mapped_cong: "kmap t = kmap s \<Longrightarrow> page_mapped t p = page_mapped s p"
  by (simp add: page_mapped_def mapped_def)

lemma kalloc_scan_skip:
  assumes "page_mapped s (bitmap (allocs s A))" and "k \<le> n" and "n \<le> 2 ^ 15"
    and "\<forall>j < k. allocated (mem s) (bitmap (allocs s A)) j"
  shows "kalloc_scan A [0..<n] s = kalloc_scan A [k..<n] s"
  using assms(2,4)
proof (induction k)
  case 0
  then show ?case by simp
next
  case (Suc k)
  then have "kalloc_scan A [0..<n] s = kalloc_scan A (k # [Suc k..<n]) s"
    by (simp add: upt_conv_Cons)
  moreover obtain b where "is_bit_set (bitmap (allocs s A)) (of_nat k) s = Inr b" "b \<noteq> 0"
    using is_bit_set_eq [OF assms(1), of k] Suc.prems assms(3) by auto
  ultimately show ?case by simp
qed

lemma kalloc_eq:
  fixes s A
  defines "a \<equiv> allocs s A"
  assumes rdy: "k_ready s" "k_free (L_alloc A) s" and ok: "objs_ok s A" "counts_ok a"
    and i: "i < unat (max_count a)" "\<not> allocated (mem s) (bitmap a) i" "\<forall>j < i. allocated (mem s) (bitmap a) j"
    and av: "available_count a \<noteq> 0"
  shows "kalloc A s = Inr (obj_addr a i,
    s\<lparr>smp := settle (smp s),
      mem := fill_object a (obj_addr a i) 0xf9 (put_bit (mem s) (bitmap a) i True),
      allocs := (allocs s)(A := a\<lparr>available_count := available_count a - 1,
                                  allocated_count := allocated_count a + 1\<rparr>)\<rparr>)"
proof -
  note p = objs_ok_parts [OF ok(1), folded a_def]
  define a1 where "a1 = a\<lparr>available_count := available_count a - 1\<rparr>"
  define a2 where "a2 = a1\<lparr>allocated_count := allocated_count a + 1\<rparr>"
  define t where "t = set_alloc A a1 (k_take (L_alloc A) s)"
  define n where "n = unat (max_count a)"
  have sel: "allocs t A = a1" "bitmap a1 = bitmap a" "mem t = mem s" "kmap t = kmap s"
    "allocated_count a1 = allocated_count a"
    by (simp_all add: t_def a1_def)
  have i15: "i < 2 ^ 15" using i(1) p(1) by simp
  have pm: "page_mapped t (bitmap a)" using p(2) page_mapped_cong [OF sel(4)] by simp
  have cnt: "counts_ok a2" using ok(2) by (simp add: counts_ok_def a2_def a1_def algebra_simps)
  have a2: "object_size_aligned a2 = object_size_aligned a" "pool_base a2 = pool_base a"
    by (simp_all add: a2_def a1_def)
  define m1 where "m1 = put_bit (mem s) (bitmap a) i True"
  define u where "u = set_alloc A a2 (t\<lparr>mem := m1\<rparr>)"
  obtain b where b: "is_bit_set (bitmap a) (of_nat i) t = Inr b" "b = 0"
    using is_bit_set_eq [OF pm i15] i(2) sel(3) by auto
  have setb: "bit_set (bitmap a) (of_nat i) t = Inr (t\<lparr>mem := m1\<rparr>)"
    using bit_set_eq [OF pm i15] sel(3) by (simp add: m1_def)
  have upd: "upd_alloc A (\<lambda>a. a\<lparr>allocated_count := allocated_count a + 1\<rparr>) (t\<lparr>mem := m1\<rparr>) = u"
    by (simp add: upd_alloc_def u_def sel a2_def)
  have ua: "allocs u A = a2" by (simp add: u_def)
  have ms: "k_memset (pool_base a + of_nat i * object_size_aligned a) 0xf9 (ucast (object_size_aligned a)) u
      = Inr (u\<lparr>mem := fill_object a (obj_addr a i) 0xf9 m1\<rparr>)"
    using k_memset_object [OF ok(1), of i a u "0xf9"] i(1) by (simp add: a_def u_def t_def obj_addr_def)
  have rel: "k_release (L_alloc A) (u\<lparr>mem := m\<rparr>) = Inr (u\<lparr>mem := m, smp := settle (smp s)\<rparr>)" for m
    by (subst k_release_after [OF rdy]) (simp_all add: u_def t_def)
  have "kalloc A s = kalloc_scan A [0..<n] t"
    unfolding kalloc_def k_acquire_free [OF rdy]
    using av by (simp add: upd_alloc_def t_def a1_def n_def a_def)
  also have "\<dots> = kalloc_scan A [i..<n] t"
    by (rule kalloc_scan_skip) (use pm sel i p(1) in \<open>simp_all add: n_def\<close>)
  also have "\<dots> = kalloc_scan A (i # [Suc i..<n]) t" using i(1) by (simp add: n_def upt_conv_Cons)
  also have "\<dots> = Inr (obj_addr a i, u\<lparr>mem := fill_object a (obj_addr a i) 0xf9 m1, smp := settle (smp s)\<rparr>)"
    by (simp add: sel b setb upd Let_def ua cnt a2 ms rel) (simp add: obj_addr_def)
  finally show ?thesis by (simp add: u_def t_def a2_def a1_def m1_def)
qed

lemma kfree_eq:
  fixes s A
  defines "a \<equiv> allocs s A"
  assumes rdy: "k_ready s" "k_free (L_alloc A) s" and ok: "objs_ok s A" "counts_ok a"
    and i: "i < unat (max_count a)" "allocated (mem s) (bitmap a) i"
  shows "kfree A (obj_addr a i) s = Inr
    (s\<lparr>smp := settle (smp s),
      mem := fill_object a (obj_addr a i) 0xfa (put_bit (mem s) (bitmap a) i False),
      allocs := (allocs s)(A := a\<lparr>allocated_count := allocated_count a - 1,
                                  available_count := available_count a + 1\<rparr>)\<rparr>)"
proof -
  note p = objs_ok_parts [OF ok(1), folded a_def]
  note rg = obj_addr_in_range [OF ok(1) i(1) [unfolded a_def] refl, folded a_def]
  note ix = obj_index [OF ok(1) i(1) [unfolded a_def] refl, folded a_def]
  define a2 where "a2 = a\<lparr>allocated_count := allocated_count a - 1, available_count := available_count a + 1\<rparr>"
  define t where "t = k_take (L_alloc A) s"
  define m1 where "m1 = put_bit (mem s) (bitmap a) i False"
  define u where "u = set_alloc A a2 (t\<lparr>mem := m1\<rparr>)"
  have sel: "allocs t A = a" "mem t = mem s" "kmap t = kmap s" by (simp_all add: t_def a_def)
  have i15: "i < 2 ^ 15" using i(1) p(1) by simp
  have pm: "page_mapped t (bitmap a)" using p(2) page_mapped_cong [OF sel(3)] by simp
  have cnt: "counts_ok a2" using ok(2) by (simp add: counts_ok_def a2_def algebra_simps)
  have a2: "object_size_aligned a2 = object_size_aligned a" by (simp add: a2_def)
  obtain b where b: "is_bit_set (bitmap a) (of_nat i) t = Inr b" "b \<noteq> 0"
    using is_bit_set_eq [OF pm i15] i(2) sel(2) by auto
  have clr: "bit_clear (bitmap a) (of_nat i) t = Inr (t\<lparr>mem := m1\<rparr>)"
    using bit_clear_eq [OF pm i15] sel(2) by (simp add: m1_def)
  have upd: "upd_alloc A (\<lambda>a. a\<lparr>allocated_count := allocated_count a - 1, available_count := available_count a + 1\<rparr>)
      (t\<lparr>mem := m1\<rparr>) = u"
    by (simp add: upd_alloc_def u_def sel a2_def)
  have ua: "allocs u A = a2" by (simp add: u_def)
  have ms: "k_memset (obj_addr a i) 0xfa (ucast (object_size_aligned a)) u
      = Inr (u\<lparr>mem := fill_object a (obj_addr a i) 0xfa m1\<rparr>)"
    using k_memset_object [OF ok(1), of i a u "0xfa"] i(1) by (simp add: a_def u_def t_def)
  have rel: "k_release (L_alloc A) (u\<lparr>mem := m\<rparr>) = Inr (u\<lparr>mem := m, smp := settle (smp s)\<rparr>)" for m
    by (subst k_release_after [OF rdy]) (simp_all add: u_def t_def)
  have "kfree A (obj_addr a i) s = Inr (u\<lparr>mem := fill_object a (obj_addr a i) 0xfa m1, smp := settle (smp s)\<rparr>)"
    unfolding kfree_def k_acquire_free [OF rdy] t_def [symmetric]
    using rg by (simp add: sel ix Let_def b clr upd ua cnt a2 ms rel)
  then show ?thesis by (simp add: u_def t_def a2_def m1_def)
qed

section \<open>The allocator keeps its contract\<close>

text \<open>
  What clients see, relative to the state \<open>s0\<close> in which they start: of the objects \<open>U\<close> they trade
  with the allocator, \<open>F\<close> are free, which is what the bitmap and the counters say; and apart from
  the bytes of the bitmap and of the objects \<open>U\<close>, the two counters and the bookkeeping of
  interrupts, nothing has changed.
\<close>

definition only_objects :: "allocator \<Rightarrow> u64 set \<Rightarrow> mem \<Rightarrow> mem \<Rightarrow> bool" where
  "only_objects a U m0 m \<longleftrightarrow>
     (\<forall>x. \<not> in_page (bitmap a) x \<and> (\<forall>p \<in> U. \<not> in_object a p x) \<longrightarrow> m x = m0 x)"

definition free_objects :: "kst \<Rightarrow> alloc_id \<Rightarrow> u64 set \<Rightarrow> bool" where
  "free_objects s A F \<longleftrightarrow>
     (let a = allocs s A in
      F \<subseteq> obj_addr a ` {..<unat (max_count a)} \<and>
      (\<forall>i < unat (max_count a). allocated (mem s) (bitmap a) i \<longleftrightarrow> obj_addr a i \<notin> F) \<and>
      unat (available_count a) = card F \<and> counts_ok a)"

definition only_counters :: "alloc_id \<Rightarrow> kst \<Rightarrow> kst \<Rightarrow> bool" where
  "only_counters A s0 s \<longleftrightarrow>
     s = s0\<lparr>smp := smp s, mem := mem s,
        allocs := (allocs s0)(A := (allocs s0 A)\<lparr>allocated_count := allocated_count (allocs s A),
                                                available_count := available_count (allocs s A)\<rparr>)\<rparr>"

definition obj_inv :: "alloc_id \<Rightarrow> kst \<Rightarrow> u64 set \<Rightarrow> u64 set \<Rightarrow> kst \<Rightarrow> bool" where
  "obj_inv A s0 U F s \<longleftrightarrow>
     objs_ok s0 A \<and> U \<subseteq> obj_addr (allocs s0 A) ` {..<unat (max_count (allocs s0 A))} \<and> F \<subseteq> U \<and>
     free_objects s A F \<and> only_counters A s0 s \<and>
     settle (smp s) = settle (smp s0) \<and> k_ready s0 \<and> k_free (L_alloc A) s0 \<and>
     only_objects (allocs s0 A) U (mem s0) (mem s)"

lemma only_counters_same:
  assumes "only_counters A s0 s"
  shows "kmap s = kmap s0" and "allocs s = (allocs s0)(A := (allocs s0 A)\<lparr>
      allocated_count := allocated_count (allocs s A), available_count := available_count (allocs s A)\<rparr>)"
proof -
  define t where "t = s0\<lparr>smp := smp s, mem := mem s,
        allocs := (allocs s0)(A := (allocs s0 A)\<lparr>allocated_count := allocated_count (allocs s A),
                                                available_count := available_count (allocs s A)\<rparr>)\<rparr>"
  have st: "s = t" using assms by (simp only: only_counters_def t_def)
  have "kmap t = kmap s0" by (simp add: t_def)
  then show "kmap s = kmap s0" using st by (simp only:)
  have "allocs t = (allocs s0)(A := (allocs s0 A)\<lparr>
      allocated_count := allocated_count (allocs s A), available_count := available_count (allocs s A)\<rparr>)"
    by (simp add: t_def)
  then show "allocs s = (allocs s0)(A := (allocs s0 A)\<lparr>
      allocated_count := allocated_count (allocs s A), available_count := available_count (allocs s A)\<rparr>)"
    using st by (simp only:)
qed

lemma only_counters_step:
  assumes "only_counters A s0 s"
  shows "only_counters A s0 (s\<lparr>smp := m, mem := b,
    allocs := (allocs s)(A := (allocs s A)\<lparr>available_count := av, allocated_count := al\<rparr>)\<rparr>)"
proof -
  define x where "x = (allocs s0 A)\<lparr>allocated_count := allocated_count (allocs s A),
    available_count := available_count (allocs s A)\<rparr>"
  have s: "s = s0\<lparr>smp := smp s, mem := mem s, allocs := (allocs s0)(A := x)\<rparr>"
    using assms by (simp only: only_counters_def x_def)
  have as: "allocs s = (allocs s0)(A := x)" using only_counters_same(2) [OF assms] by (simp only: x_def)
  have "x\<lparr>available_count := av, allocated_count := al\<rparr> = (allocs s0 A)\<lparr>allocated_count := al, available_count := av\<rparr>"
    by (simp add: x_def)
  then show ?thesis
    unfolding only_counters_def as by (subst s) simp
qed

lemma only_counters_sel:
  assumes "only_counters A s0 s"
  shows "max_count (allocs s A) = max_count (allocs s0 A)" "bitmap (allocs s A) = bitmap (allocs s0 A)"
    "obj_addr (allocs s A) = obj_addr (allocs s0 A)" "objs_ok s A = objs_ok s0 A"
    "in_object (allocs s A) = in_object (allocs s0 A)" "kmap s = kmap s0"
proof -
  have "\<exists>al av. allocs s A = (allocs s0 A)\<lparr>allocated_count := al, available_count := av\<rparr>"
    using only_counters_same(2) [OF assms] by (metis fun_upd_same)
  then obtain al av where a: "allocs s A = (allocs s0 A)\<lparr>allocated_count := al, available_count := av\<rparr>"
    by blast
  show "max_count (allocs s A) = max_count (allocs s0 A)" "bitmap (allocs s A) = bitmap (allocs s0 A)"
    "obj_addr (allocs s A) = obj_addr (allocs s0 A)" "in_object (allocs s A) = in_object (allocs s0 A)"
    by (auto simp: a obj_addr_def in_object_def fun_eq_iff)
  show k: "kmap s = kmap s0" by (rule only_counters_same(1) [OF assms])
  show "objs_ok s A = objs_ok s0 A"
    by (simp add: objs_ok_def a Let_def k page_mapped_cong [OF k])
qed

lemma obj_inv_ready:
  assumes "obj_inv A s0 U F s"
  shows "k_ready s" and "k_free (L_alloc A) s" and "objs_ok s A"
  using assms settle_eq_transfer [of "smp s" "smp s0"] only_counters_sel(4) [of A s0 s]
  by (auto simp: obj_inv_def k_ready_def k_free_def)

text \<open>After one operation on the \<open>i\<close>-th object.\<close>

definition after_op :: "alloc_id \<Rightarrow> nat \<Rightarrow> bool \<Rightarrow> u8 \<Rightarrow> allocator \<Rightarrow> kst \<Rightarrow> kst" where
  "after_op A i v c a' s =
     s\<lparr>smp := settle (smp s),
       mem := fill_object (allocs s A) (obj_addr (allocs s A) i) c (put_bit (mem s) (bitmap (allocs s A)) i v),
       allocs := (allocs s)(A := a')\<rparr>"

lemma obj_inv_step:
  assumes inv: "obj_inv A s0 U F s"
    and i: "i < unat (max_count (allocs s A))" "obj_addr (allocs s A) i \<in> U"
    and a': "a' = (allocs s A)\<lparr>available_count := av, allocated_count := al\<rparr>"
    and F': "F' \<subseteq> U" "\<forall>j < unat (max_count (allocs s A)). obj_addr (allocs s A) j \<in> F' \<longleftrightarrow>
      (if j = i then \<not> v else obj_addr (allocs s A) j \<in> F)"
    and cnt: "unat av = card F'" "counts_ok a'"
  shows "obj_inv A s0 U F' (after_op A i v c a' s)"
proof -
  define a where "a = allocs s A"
  define s' where "s' = after_op A i v c a' s"
  have oc: "only_counters A s0 s" and ok: "objs_ok s0 A"
    and U: "U \<subseteq> obj_addr (allocs s0 A) ` {..<unat (max_count (allocs s0 A))}"
    and fo: "free_objects s A F"
    using inv by (auto simp: obj_inv_def)
  note sel = only_counters_sel [OF oc]
  have ok': "objs_ok s A" using sel(4) ok by simp
  have max: "unat (max_count a) \<le> 2 ^ 15" using objs_ok_parts(1) [OF ok'] by (simp add: a_def)
  have sa: "allocs s' A = a'" "obj_addr a' = obj_addr a" "max_count a' = max_count a" "bitmap a' = bitmap a"
    by (auto simp: s'_def after_op_def a' a_def obj_addr_def fun_eq_iff)
  have m': "mem s' = fill_object a (obj_addr a i) c (put_bit (mem s) (bitmap a) i v)"
    by (simp add: s'_def after_op_def a_def)
  have bits: "allocated (mem s') (bitmap a) j \<longleftrightarrow> (if j = i then v else allocated (mem s) (bitmap a) j)"
    if "j < unat (max_count a)" for j
    using that i(1) max allocated_fill_object [OF ok' i(1), of a j] allocated_put_bit [of i j]
    by (simp add: m' a_def)
  have "free_objects s' A F'"
    unfolding free_objects_def Let_def sa
  proof (intro conjI)
    show "F' \<subseteq> obj_addr a ` {..<unat (max_count a)}" using F'(1) U sel by (auto simp: a_def)
    show "\<forall>j<unat (max_count a). allocated (mem s') (bitmap a) j = (obj_addr a j \<notin> F')"
      using bits F'(2) fo by (auto simp: free_objects_def Let_def a_def)
    show "unat (available_count a') = card F'" "counts_ok a'" using cnt a' by simp_all
  qed
  moreover have "only_counters A s0 s'"
    unfolding s'_def after_op_def a' by (rule only_counters_step [OF oc])
  moreover have "only_objects (allocs s0 A) U (mem s0) (mem s')"
    using inv i max put_bit_outside [of i "bitmap a"] sel
    by (auto simp: obj_inv_def only_objects_def m' fill_object_def a_def)
  moreover have "settle (smp s') = settle (smp s0)" using inv by (simp add: s'_def after_op_def obj_inv_def)
  ultimately show ?thesis using inv F'(1) by (simp add: obj_inv_def s'_def)
qed

lemma obj_inv_get:
  assumes inv: "obj_inv A s0 U F s" and ne: "F \<noteq> {}"
  shows "\<exists>p s'. kalloc A s = Inr (p, s') \<and> p \<in> F \<and> obj_inv A s0 U (F - {p}) s'"
proof -
  define a where "a = allocs s A"
  note rdy = obj_inv_ready [OF inv]
  have fo: "free_objects s A F" and FU: "F \<subseteq> U" using inv by (auto simp: obj_inv_def)
  then have bits: "allocated (mem s) (bitmap a) i \<longleftrightarrow> obj_addr a i \<notin> F" if "i < unat (max_count a)" for i
    using that by (simp add: free_objects_def Let_def a_def)
  have F: "F \<subseteq> obj_addr a ` {..<unat (max_count a)}" and av: "unat (available_count a) = card F"
    and cnt: "counts_ok a"
    using fo by (simp_all add: free_objects_def Let_def a_def)
  define i where "i = (LEAST i. i < unat (max_count a) \<and> obj_addr a i \<in> F)"
  have "\<exists>i. i < unat (max_count a) \<and> obj_addr a i \<in> F" using ne F by auto
  then have "i < unat (max_count a) \<and> obj_addr a i \<in> F" unfolding i_def by (rule LeastI_ex)
  then have i: "i < unat (max_count a)" "obj_addr a i \<in> F" by simp_all
  have low: "\<forall>j < i. allocated (mem s) (bitmap a) j"
  proof (intro allI impI)
    fix j assume "j < i"
    then have "\<not> (j < unat (max_count a) \<and> obj_addr a j \<in> F)" unfolding i_def by (rule not_less_Least)
    with \<open>j < i\<close> i(1) show "allocated (mem s) (bitmap a) j" using bits [of j] by simp
  qed
  have fin: "finite F" by simp
  then have "card F \<noteq> 0" using ne by simp
  then have av0: "available_count a \<noteq> 0" using av by (metis unat_0)
  define a' where "a' = a\<lparr>available_count := available_count a - 1, allocated_count := allocated_count a + 1\<rparr>"
  have run: "kalloc A s = Inr (obj_addr a i, after_op A i True 0xf9 a' s)"
    using kalloc_eq [OF rdy, folded a_def] i bits low cnt av0 by (simp add: after_op_def a'_def a_def)
  have av': "unat (available_count a - 1) = card (F - {obj_addr a i})"
    using av i(2) fin av0 by (simp add: unat_minus_one)
  have cnt': "counts_ok a'" using cnt by (simp add: counts_ok_def a'_def algebra_simps)
  have "obj_inv A s0 U (F - {obj_addr a i}) (after_op A i True 0xf9 a' s)"
  proof (rule obj_inv_step [OF inv])
    show "a' = (allocs s A)\<lparr>available_count := available_count a - 1, allocated_count := allocated_count a + 1\<rparr>"
      by (simp add: a'_def a_def)
    show "\<forall>j < unat (max_count (allocs s A)). obj_addr (allocs s A) j \<in> F - {obj_addr a i} \<longleftrightarrow>
      (if j = i then \<not> True else obj_addr (allocs s A) j \<in> F)"
      using obj_addr_inj [OF rdy(3)] i(1) by (auto simp: a_def)
  qed (use i FU av' cnt' in \<open>auto simp: a_def\<close>)
  with run i(2) show ?thesis by blast
qed

lemma swap_counts:
  "a\<lparr>allocated_count := x, available_count := y\<rparr> = a\<lparr>available_count := y, allocated_count := x\<rparr>"
  by (cases a) simp

lemma obj_inv_put:
  assumes inv: "obj_inv A s0 U F s" and p: "p \<in> U" "p \<notin> F"
  shows "\<exists>s'. kfree A p s = Inr s' \<and> obj_inv A s0 U (insert p F) s'"
proof -
  define a where "a = allocs s A"
  note rdy = obj_inv_ready [OF inv]
  have fo: "free_objects s A F" and FU: "F \<subseteq> U" and oc: "only_counters A s0 s"
    and U: "U \<subseteq> obj_addr (allocs s0 A) ` {..<unat (max_count (allocs s0 A))}"
    using inv by (auto simp: obj_inv_def)
  obtain i where i: "i < unat (max_count a)" "p = obj_addr a i"
    using U p(1) only_counters_sel [OF oc] by (auto simp: a_def)
  have bit: "allocated (mem s) (bitmap a) i" and av: "unat (available_count a) = card F" and cnt: "counts_ok a"
    using fo i p(2) by (simp_all add: free_objects_def Let_def a_def)
  define a' where "a' = a\<lparr>available_count := available_count a + 1, allocated_count := allocated_count a - 1\<rparr>"
  have run: "kfree A p s = Inr (after_op A i False 0xfa a' s)"
    using kfree_eq [OF rdy, folded a_def, OF cnt i(1) bit] i(2)
    by (simp add: after_op_def a'_def a_def swap_counts)
  have "card F < 2 ^ 15 + 1"
  proof -
    have "F \<subseteq> obj_addr a ` {..<unat (max_count a)}" using fo by (simp add: free_objects_def Let_def a_def)
    then have "card F \<le> card {..<unat (max_count a)}" by (meson card_image_le card_mono finite_imageI finite_lessThan le_trans)
    then show ?thesis using objs_ok_parts(1) [OF rdy(3)] by (simp add: a_def)
  qed
  then have av': "unat (available_count a + 1) = card (insert p F)"
    using av p(2) by (simp add: unat_add_no_wrap)
  have cnt': "counts_ok a'" using cnt by (simp add: counts_ok_def a'_def algebra_simps)
  have "obj_inv A s0 U (insert p F) (after_op A i False 0xfa a' s)"
  proof (rule obj_inv_step [OF inv])
    show "a' = (allocs s A)\<lparr>available_count := available_count a + 1, allocated_count := allocated_count a - 1\<rparr>"
      by (simp add: a'_def a_def)
    show "\<forall>j < unat (max_count (allocs s A)). obj_addr (allocs s A) j \<in> insert p F \<longleftrightarrow>
      (if j = i then \<not> False else obj_addr (allocs s A) j \<in> F)"
      using obj_addr_inj [OF rdy(3)] i by (auto simp: a_def)
  qed (use i p FU av' cnt' in \<open>auto simp: a_def\<close>)
  with run show ?thesis by blast
qed

lemma kalloc_unavailable:
  assumes "k_ready s" and "k_free (L_alloc A) s" and "available_count (allocs s A) = 0"
  shows "kalloc A s = Inl (Panic ''unavailable'')"
  unfolding kalloc_def k_acquire_free [OF assms(1,2)] using assms(3) by simp

interpretation ka: panicking_allocator "kalloc A" "kfree A" 0 "obj_inv A s0" "''unavailable''" for A s0
proof unfold_locales
  fix U F :: "u64 set" and s
  assume inv: "obj_inv A s0 U F s"
  have "0 \<notin> U"
    using inv obj_addr_in_range(3) [of s0 A] by (auto simp: obj_inv_def)
  with inv show "finite U \<and> F \<subseteq> U \<and> 0 \<notin> U" by (simp add: obj_inv_def)
next
  fix U :: "u64 set" and s
  assume inv: "obj_inv A s0 U {} s"
  then have "unat (available_count (allocs s A)) = 0"
    by (simp add: obj_inv_def free_objects_def Let_def)
  then show "kalloc A s = Inl (Panic ''unavailable'')"
    using kalloc_unavailable obj_inv_ready [OF inv] by (simp add: unat_eq_zero)
qed (rule obj_inv_get obj_inv_put; assumption)+

section \<open>Properties\<close>

text \<open>C9. The object allocators: for every client, and every sequence of allocations and frees of
  objects it holds, either the run is stopped by the panic \<^verbatim>\<open>unavailable\<close>, and then it asked for
  more objects than were free, or it ends: no other panic (\<^verbatim>\<open>should not happen\<close>, \<^verbatim>\<open>double free\<close>, the
  assertions on the counters) and no fault is possible, no object is held twice, bitmap and counters
  say what is free, and no byte outside the bitmap and the objects traded has changed.\<close>

theorem object_allocator_correct:
  assumes "objs_ok s A" and "k_ready s" and "k_free (L_alloc A) s" and "free_objects s A F"
  shows "pool_run (kalloc A) (kfree A) 0 ops [] s = Inl (Panic ''unavailable'')
      \<and> card F < length (filter (\<lambda>opn. opn = Get) ops) \<or>
    (\<exists>hs s'. pool_run (kalloc A) (kfree A) 0 ops [] s = Inr (hs, s') \<and> distinct hs \<and> set hs \<subseteq> F \<and>
      free_objects s' A (F - set hs) \<and> only_objects (allocs s A) F (mem s) (mem s'))"
proof -
  have "obj_inv A s F (F - set []) s"
    using assms by (auto simp: obj_inv_def only_counters_def only_objects_def free_objects_def Let_def)
  from ka.run_or_panic [OF this, of ops] show ?thesis by (auto simp: obj_inv_def)
qed

text \<open>An example: two free objects of 48 bytes.\<close>

definition demo_allocator :: allocator where
  "demo_allocator = \<lparr>pool_base = 0xfffffffd00000000, pool_end = 0xfffffffd00001000, bitmap = 0xffffffc080401000,
     object_size = 40, object_size_aligned = 48, allocated_count = 0, available_count = 2, max_count = 2\<rparr>"

definition demo_objs :: kst where
  "demo_objs = boot_kst\<lparr>allocs := (\<lambda>_. demo_allocator)\<rparr>"

lemma demo_objs_ok:
  "objs_ok demo_objs A" "k_ready demo_objs" "k_free l demo_objs"
  "free_objects demo_objs A {0xfffffffd00000000, 0xfffffffd00000030}"
proof -
  have "\<not> in_page 0xffffffc080401000 x" if "0xfffffffd00000000 \<le> x" for x :: u64
  proof -
    have "unat (x - 0xffffffc080401000) = unat x - unat (0xffffffc080401000 :: u64)"
      by (rule unat_sub_le) (use that in \<open>simp add: word_le_nat_alt\<close>)
    moreover have "unat (0xfffffffd00000000 :: u64) \<le> unat x" using that by (simp only: word_le_nat_alt)
    ultimately have "4096 \<le> unat (x - 0xffffffc080401000)" by simp
    then show ?thesis by (simp add: in_page_def word_less_nat_alt)
  qed
  then show "objs_ok demo_objs A"
    by (simp add: objs_ok_def demo_objs_def demo_allocator_def page_mapped_def mapped_def) (simp add: boot_kst_def)
  show "k_ready demo_objs" and "k_free l demo_objs"
    using boot_kst_ready by (simp_all add: demo_objs_def k_ready_def k_free_def)
  have two: "{..<2 :: nat} = {0, 1}" by auto
  have below: "i = 0 \<or> i = 1" if "i < 2" for i :: nat using that by auto
  show "free_objects demo_objs A {0xfffffffd00000000, 0xfffffffd00000030}"
    by (auto simp: free_objects_def demo_objs_def demo_allocator_def boot_kst_def Let_def obj_addr_def
        allocated_def counts_ok_def two dest: below)
qed

theorem object_allocator_correct_witness:
  "\<exists>hs s'. pool_run (kalloc Mm_alloc) (kfree Mm_alloc) 0 [Get, Get, Put 0, Put 0] [] demo_objs = Inr (hs, s') \<and>
    distinct hs \<and> set hs \<subseteq> {0xfffffffd00000000, 0xfffffffd00000030}"
proof -
  have "card {0xfffffffd00000000 :: u64, 0xfffffffd00000030} = 2" by simp
  then show ?thesis
    using object_allocator_correct [OF demo_objs_ok, where ops = "[Get, Get, Put 0, Put 0]" and A = Mm_alloc]
    by (auto simp del: pool_run.simps)
qed

text \<open>Freeing an object twice panics, and so does freeing an address outside the pool; freeing
  the null pointer does nothing.\<close>

lemma kfree_misuse:
  assumes "objs_ok s A" and "k_ready s" and "k_free (L_alloc A) s"
    and "i < unat (max_count (allocs s A))" and "\<not> allocated (mem s) (bitmap (allocs s A)) i"
    and "obj \<noteq> 0" and "obj < pool_base (allocs s A) \<or> pool_end (allocs s A) \<le> obj"
  shows "kfree A (obj_addr (allocs s A) i) s = Inl (Panic ''double free'') \<and>
    (\<exists>e. kfree A obj s = Inl (Panic e)) \<and> kfree A 0 s = Inr s"
proof (intro conjI)
  define a where "a = allocs s A"
  define t where "t = k_take (L_alloc A) s"
  have sel: "allocs t A = a" "mem t = mem s" "kmap t = kmap s" by (simp_all add: t_def a_def)
  note rg = obj_addr_in_range [OF assms(1,4) refl, folded a_def]
  note ix = obj_index [OF assms(1,4) refl, folded a_def]
  have "page_mapped t (bitmap a)" using objs_ok_parts(2) [OF assms(1)] page_mapped_cong [OF sel(3)] by (simp add: a_def)
  moreover have "i < 2 ^ 15" using objs_ok_parts(1) [OF assms(1)] assms(4) by simp
  ultimately have b: "is_bit_set (bitmap a) (of_nat i) t = Inr 0"
    using is_bit_set_eq [of t "bitmap a" i] assms(5) sel by (auto simp: a_def)
  show "kfree A (obj_addr (allocs s A) i) s = Inl (Panic ''double free'')"
    unfolding kfree_def k_acquire_free [OF assms(2,3)] t_def [symmetric] a_def [symmetric]
    using rg by (simp add: sel ix Let_def b)
  show "\<exists>e. kfree A obj s = Inl (Panic e)"
    unfolding kfree_def k_acquire_free [OF assms(2,3)] using assms(6,7) by auto
qed (simp add: kfree_def)

lemma kfree_misuse_witness:
  "kfree Vma_alloc 0xfffffffd00000000 demo_objs = Inl (Panic ''double free'') \<and>
   (\<exists>e. kfree Vma_alloc 0x10 demo_objs = Inl (Panic e)) \<and> kfree Vma_alloc 0 demo_objs = Inr demo_objs"
proof -
  have a: "allocs demo_objs Vma_alloc = demo_allocator" by (simp add: demo_objs_def)
  have "\<not> allocated (mem demo_objs) (bitmap demo_allocator) 0"
    by (simp add: allocated_def demo_objs_def boot_kst_def)
  then show ?thesis
    using kfree_misuse [OF demo_objs_ok(1-3), of 0 Vma_alloc "0x10"]
    by (simp add: a) (simp add: demo_allocator_def obj_addr_def)
qed

end
