(* ===== verification/Vm.thy ===== *)
theory Vm imports PtPrint Kalloc ObjAlloc begin

text \<open>
  User address spaces, \<^verbatim>\<open>os/vm.c\<close>: the page-table walk, the translations, and the operations that
  create, map, copy and free an address space.

  A null pointer is the address 0. The \<^verbatim>\<open>memset\<close> of a fresh \<^verbatim>\<open>struct mm\<close> or \<^verbatim>\<open>struct vma\<close> is the
  record of zeros. \<^verbatim>\<open>sfence_vma\<close> and the log macros have no effect on the state.
\<close>

section \<open>The walk\<close>

text \<open>The loop over the levels, from \<open>l\<close> down to 1; the tables are visited through the kernel's mapping.\<close>

fun walk_from :: "nat \<Rightarrow> u64 \<Rightarrow> u64 \<Rightarrow> bool \<Rightarrow> kst \<Rightarrow> halt + u64 \<times> kst" where
  "walk_from 0 pagetable va alloc s = Inr (slot pagetable (PX 0 va), s)"
| "walk_from (Suc l) pagetable va alloc s =
     (let pte = slot pagetable (PX (Suc l) va) in
      kbind (load64 pte s) (\<lambda>e.
      if e AND PTE_V \<noteq> 0 then walk_from l (PA_TO_KVA (PTE2PA e)) va alloc s
      else if \<not> alloc then Inr (0, s)
      else
        kbind (kallocpage s) (\<lambda>(pa, s).
        let pagetable = PA_TO_KVA pa in
        if pagetable = 0 then Inr (0, s)
        else
          kbind (k_memset pagetable 0 4096 s) (\<lambda>s.
          kbind (store64 pte (PA2PTE (KVA_TO_PA pagetable) OR PTE_V) s) (\<lambda>s.
          walk_from l pagetable va alloc s)))))"

definition walk :: "u64 \<Rightarrow> u64 \<Rightarrow> bool \<Rightarrow> kst \<Rightarrow> halt + u64 \<times> kst" where
  "walk mm va alloc s =
     (if \<not> IS_USER_VA va then Inl (Panic ''invalid user VA'')
      else walk_from 2 (mm_pgt (mms s mm)) va alloc s)"

definition walkaddr :: "u64 \<Rightarrow> u64 \<Rightarrow> kst \<Rightarrow> halt + u64 \<times> kst" where
  "walkaddr mm va s =
     (if \<not> IS_USER_VA va then Inl (Panic ''invalid user VA'')
      else if \<not> PGALIGNED va then Inl (Panic ''assertion failed: PGALIGNED(va), unaligned va'')
      else
        kbind (walk mm va False s) (\<lambda>(pte, s).
        if pte = 0 then Inr (0, s)
        else
          kbind (load64 pte s) (\<lambda>e.
          if e AND PTE_V = 0 then Inr (0, s)
          else if e AND PTE_U = 0 then Inr (0, s)
          else Inr (PTE2PA e, s))))"

definition useraddr :: "u64 \<Rightarrow> u64 \<Rightarrow> kst \<Rightarrow> halt + u64 \<times> kst" where
  "useraddr mm va s =
     kbind (walkaddr mm (PGROUNDDOWN va) s) (\<lambda>(page, s).
     if page = 0 then Inr (0, s) else Inr (page OR (va AND 0xFFF), s))"

section \<open>Creating\<close>

definition upd_mm :: "u64 \<Rightarrow> (mm_struct \<Rightarrow> mm_struct) \<Rightarrow> kst \<Rightarrow> kst" where
  "upd_mm mm f s = s\<lparr>mms := (mms s)(mm := f (mms s mm))\<rparr>"

definition upd_vma :: "u64 \<Rightarrow> (vma_struct \<Rightarrow> vma_struct) \<Rightarrow> kst \<Rightarrow> kst" where
  "upd_vma vma f s = s\<lparr>vmas := (vmas s)(vma := f (vmas s vma))\<rparr>"

definition zero_mm :: mm_struct where
  "zero_mm = \<lparr>mm_pgt = 0, mm_vma = 0, mm_refcnt = 0\<rparr>"

definition zero_vma :: vma_struct where
  "zero_vma = \<lparr>vma_owner = 0, vma_next = 0, vm_start = 0, vm_end = 0, pte_flags = 0\<rparr>"

definition mm_create :: "kst \<Rightarrow> halt + u64 \<times> kst" where
  "mm_create s =
     kbind (kalloc Mm_alloc s) (\<lambda>(mm, s).
     let s = k_spinlock_init (L_mm mm) (upd_mm mm (\<lambda>_. zero_mm\<lparr>mm_refcnt := 1\<rparr>) s) in
     kbind (kallocpage s) (\<lambda>(pa, s).
     let s = upd_mm mm (\<lambda>m. m\<lparr>mm_pgt := PA_TO_KVA pa\<rparr>) s in
     if mm_pgt (mms s mm) = 0 then kbind (kfree Mm_alloc mm s) (\<lambda>s. Inr (0, s))
     else kbind (k_memset (mm_pgt (mms s mm)) 0 4096 s) (\<lambda>s. Inr (mm, s))))"

definition mm_create_vma :: "u64 \<Rightarrow> kst \<Rightarrow> halt + u64 \<times> kst" where
  "mm_create_vma mm s =
     kbind (kalloc Vma_alloc s) (\<lambda>(vma, s). Inr (vma, upd_vma vma (\<lambda>_. zero_vma\<lparr>vma_owner := mm\<rparr>) s))"

section \<open>Freeing\<close>

definition freevma_page :: "u64 \<Rightarrow> bool \<Rightarrow> u64 \<Rightarrow> kst \<Rightarrow> halt + kst" where
  "freevma_page mm free_phy_page va s =
     kbind (walk mm va False s) (\<lambda>(pte, s).
     if pte = 0 then Inr s
     else
       kbind (if free_phy_page then kbind (load64 pte s) (\<lambda>e. kfreepage (PTE2PA e) s) else Inr s) (\<lambda>s.
       store64 pte 0 s))"

definition freevma :: "u64 \<Rightarrow> bool \<Rightarrow> kst \<Rightarrow> halt + kst" where
  "freevma vma free_phy_page s =
     (let v = vmas s vma in
      if \<not> (PGALIGNED (vm_start v) \<and> PGALIGNED (vm_end v))
      then Inl (Panic ''assertion failed: PGALIGNED(vma->vm_start) && PGALIGNED(vma->vm_end)'')
      else kfold (freevma_page (vma_owner v) free_phy_page) (page_range (vm_start v) (vm_end v)) s)"

text \<open>
  The loops over a list of areas take as many rounds as there are objects in the pool of areas, and
  one: each round frees an area, or allocates one, so that the code's loop has ended, or panicked, by
  then. \<open>Spin\<close> is never reached.
\<close>

definition vma_rounds :: nat where "vma_rounds = 16385"

fun mm_free_loop :: "nat \<Rightarrow> u64 \<Rightarrow> kst \<Rightarrow> halt + kst" where
  "mm_free_loop 0 vma s = Inl Spin"
| "mm_free_loop (Suc n) vma s =
     (if vma = 0 then Inr s
      else
        kbind (freevma vma True s) (\<lambda>s.
        let nxt = vma_next (vmas s vma) in
        kbind (kfree Vma_alloc vma s) (mm_free_loop n nxt)))"

definition mm_free_pages :: "u64 \<Rightarrow> kst \<Rightarrow> halt + kst" where
  "mm_free_pages mm s =
     kbind (mm_free_loop vma_rounds (mm_vma (mms s mm)) s) (\<lambda>s. Inr (upd_mm mm (\<lambda>m. m\<lparr>mm_vma := 0\<rparr>) s))"

definition mm_free :: "u64 \<Rightarrow> kst \<Rightarrow> halt + kst" where
  "mm_free mm s =
     kbind (mm_free_pages mm s) (\<lambda>s.
     kbind (kfreepage (KVA_TO_PA (mm_pgt (mms s mm))) s) (\<lambda>s.
     let s = upd_mm mm (\<lambda>m. m\<lparr>mm_refcnt := mm_refcnt m - 1\<rparr>) s in
     if mm_refcnt (mms s mm) = 0 then kfree Mm_alloc mm s else Inr s))"

section \<open>Mapping\<close>

text \<open>The loop of \<^verbatim>\<open>mm_mappages\<close>: 0 when all pages are mapped, -1 at the first that cannot be.\<close>

fun map_loop :: "u64 \<Rightarrow> u64 list \<Rightarrow> kst \<Rightarrow> halt + i32 \<times> kst" where
  "map_loop vma [] s = Inr (0, s)"
| "map_loop vma (va # vs) s =
     kbind (walk (vma_owner (vmas s vma)) va True s) (\<lambda>(pte, s).
     if pte = 0 then Inr (-1, s)
     else
       kbind (load64 pte s) (\<lambda>e.
       if e AND PTE_V \<noteq> 0 then Inr (-1, s)
       else
         kbind (kallocpage s) (\<lambda>(pa, s).
         if pa = 0 then Inr (-1, s)
         else
           kbind (store64 pte (PA2PTE pa OR pte_flags (vmas s vma) OR PTE_V) s) (map_loop vma vs))))"

definition link_vma :: "u64 \<Rightarrow> u64 \<Rightarrow> kst \<Rightarrow> kst" where
  "link_vma mm vma s =
     upd_mm mm (\<lambda>m. m\<lparr>mm_vma := vma\<rparr>) (upd_vma vma (\<lambda>v. v\<lparr>vma_next := mm_vma (mms s mm)\<rparr>) s)"

definition mm_mappages :: "u64 \<Rightarrow> kst \<Rightarrow> halt + i32 \<times> kst" where
  "mm_mappages vma s =
     (let v = vmas s vma in
      if \<not> IS_USER_VA (vm_start v) \<or> \<not> IS_USER_VA (vm_end v)
      then Inl (Panic ''user mappages beyond USER_TOP'')
      else if \<not> PGALIGNED (vm_start v) then Inl (Panic ''assertion failed: PGALIGNED(vma->vm_start)'')
      else if \<not> PGALIGNED (vm_end v) then Inl (Panic ''assertion failed: PGALIGNED(vma->vm_end)'')
      else if pte_flags v AND PTE_R = 0 \<and> pte_flags v AND PTE_W = 0 \<and> pte_flags v AND PTE_X = 0
      then Inl (Panic ''assertion failed: vma->pte_flags'')
      else
        kbind (map_loop vma (page_range (vm_start v) (vm_end v)) s) (\<lambda>(r, s).
        if r \<noteq> 0 then Inr (r, s) else Inr (0, link_vma (vma_owner v) vma s)))"

definition mm_mappagesat :: "u64 \<Rightarrow> u64 \<Rightarrow> u64 \<Rightarrow> u64 \<Rightarrow> bool \<Rightarrow> kst \<Rightarrow> halt + u64 \<times> kst" where
  "mm_mappagesat mm va pa flags add_linked_list s =
     kbind (kalloc Vma_alloc s) (\<lambda>(vma, s).
     let s = upd_vma vma (\<lambda>_. zero_vma\<lparr>vma_owner := mm, pte_flags := flags,
                                        vm_start := va, vm_end := va + PGSIZE\<rparr>) s in
     kbind (walk mm va True s) (\<lambda>(pte, s).
     if pte = 0 then Inr (0, s)
     else
       kbind (load64 pte s) (\<lambda>e.
       if e AND PTE_V \<noteq> 0 then kbind (vm_print (mm_pgt (mms s mm)) s) (\<lambda>s. Inr (0, s))
       else
         kbind (store64 pte (PA2PTE pa OR pte_flags (vmas s vma) OR PTE_V) s) (\<lambda>s.
         Inr (vma, if add_linked_list then link_vma mm vma s else s)))))"

section \<open>Copying\<close>

definition copy_page :: "u64 \<Rightarrow> u64 \<Rightarrow> u64 \<Rightarrow> kst \<Rightarrow> halt + kst" where
  "copy_page old new va s =
     kbind (walkaddr old va s) (\<lambda>(pa_old, s).
     kbind (walkaddr new va s) (\<lambda>(pa_new, s).
     k_memmove (PA_TO_KVA pa_new) (PA_TO_KVA pa_old) 4096 s))"

fun mm_copy_loop :: "nat \<Rightarrow> u64 \<Rightarrow> u64 \<Rightarrow> u64 \<Rightarrow> kst \<Rightarrow> halt + i32 \<times> kst" where
  "mm_copy_loop 0 old new vma s = Inl Spin"
| "mm_copy_loop (Suc n) old new vma s =
     (if vma = 0 then Inr (0, s)
      else
        kbind (mm_create_vma new s) (\<lambda>(new_vma, s).
        let v = vmas s vma;
            s = upd_vma new_vma (\<lambda>w. w\<lparr>vm_start := vm_start v, vm_end := vm_end v, pte_flags := pte_flags v\<rparr>) s in
        kbind (mm_mappages new_vma s) (\<lambda>(r, s).
        if r \<noteq> 0 then kbind (mm_free_pages new s) (\<lambda>s. Inr (-1, s))
        else
          kbind (kfold (copy_page old new) (page_range (vm_start (vmas s vma)) (vm_end (vmas s vma))) s) (\<lambda>s.
          mm_copy_loop n old new (vma_next (vmas s vma)) s))))"

definition mm_copy :: "u64 \<Rightarrow> u64 \<Rightarrow> kst \<Rightarrow> halt + i32 \<times> kst" where
  "mm_copy old new s = mm_copy_loop vma_rounds old new (mm_vma (mms s old)) s"

end
