(* ===== verification/Debug.thy ===== *)
theory Debug imports Vm begin

text \<open>
  The other dumps of \<^verbatim>\<open>os/debug.c\<close>, of trap frames, address spaces and registers, which the trap handlers print
  before they give up.
\<close>

definition SCAUSE_INTERRUPT :: u64 where "SCAUSE_INTERRUPT = push_bit 63 1"
definition SCAUSE_EXCEPTION_CODE_MASK :: u64 where "SCAUSE_EXCEPTION_CODE_MASK = push_bit 63 1 - 1"

text \<open>The registers of a trap frame, by the offsets of their fields.\<close>

fun load_args :: "u64 \<Rightarrow> u64 list \<Rightarrow> kst \<Rightarrow> halt + parg list" where
  "load_args tf [] s = Inr []"
| "load_args tf (off # offs) s =
     kbind (load64 (tf + off) s) (\<lambda>x. kbind (load_args tf offs s) (\<lambda>xs. Inr (Arg x # xs)))"

fun print_lines :: "u64 \<Rightarrow> (string \<times> u64 list) list \<Rightarrow> kst \<Rightarrow> halt + kst" where
  "print_lines tf [] s = Inr s"
| "print_lines tf ((fmt, offs) # ls) s =
     kbind (load_args tf offs s) (\<lambda>args. kbind (printf (Some fmt) args s) (print_lines tf ls))"

definition print_trapframe :: "u64 \<Rightarrow> kst \<Rightarrow> halt + kst" where
  "print_trapframe tf s =
     kbind (printf (Some (''trapframe at %p'' @ nl)) [Arg tf] s) (print_lines tf
       [(''ra :%p  sp :%p  gp: %p  tp: %p'' @ nl, [40, 48, 56, 64]),
        (''t0 :%p  t1 :%p  t2: %p  s0: %p'' @ nl, [72, 80, 88, 96]),
        (''s1 :%p  a0 :%p  a1: %p  a2: %p'' @ nl, [104, 112, 120, 128]),
        (''a3 :%p  a4 :%p  a5: %p  a6: %p'' @ nl, [136, 144, 152, 160]),
        (''a7 :%p  s2 :%p  s3: %p  s4: %p'' @ nl, [168, 176, 184, 192]),
        (''s5 :%p  s6 :%p  s7: %p  s8: %p'' @ nl, [200, 208, 216, 224]),
        (''s9 :%p  s10:%p  s11:%p  t3: %p'' @ nl, [232, 240, 248, 256]),
        (''t4 :%p  t5:%p   t6 :%p  '' @ nl @ nl, [264, 272, 280])])"

definition print_ktrapframe :: "u64 \<Rightarrow> kst \<Rightarrow> halt + kst" where
  "print_ktrapframe tf s =
     kbind (printf (Some (''kernel trapframe at %p'' @ nl)) [Arg tf] s) (print_lines tf
       [(''ra :%p  sp :%p  gp: %p  tp: %p'' @ nl, [8, 16, 24, 32]),
        (''t0 :%p  t1 :%p  t2: %p  s0: %p'' @ nl, [40, 48, 56, 64]),
        (''s1 :%p  a0 :%p  a1: %p  a2: %p'' @ nl, [72, 80, 88, 96]),
        (''a3 :%p  a4 :%p  a5: %p  a6: %p'' @ nl, [104, 112, 120, 128]),
        (''a7 :%p  s2 :%p  s3: %p  s4: %p'' @ nl, [136, 144, 152, 160]),
        (''s5 :%p  s6 :%p  s7: %p  s8: %p'' @ nl, [168, 176, 184, 192]),
        (''s9 :%p  s10:%p  s11:%p  t3: %p'' @ nl, [200, 208, 216, 224]),
        (''t4 :%p  t5:%p   t6 :%p  '' @ nl @ nl, [232, 240, 248])])"

text \<open>The list of areas of an address space.\<close>

fun mm_print_loop :: "nat \<Rightarrow> u64 \<Rightarrow> kst \<Rightarrow> halt + kst" where
  "mm_print_loop 0 vma s = Inl Spin"
| "mm_print_loop (Suc n) vma s =
     (if vma = 0 then Inr s
      else
        let v = vmas s vma in
        kbind (printf (Some (''    [%p, %p), flags: %c%c%c%c%c%c%c%c'' @ nl))
                 ([Arg (vm_start v), Arg (vm_end v)] @ flag_args (pte_flags v)) s) (\<lambda>s.
        mm_print_loop n (vma_next (vmas s vma)) s))"

definition mm_print :: "u64 \<Rightarrow> kst \<Rightarrow> halt + kst" where
  "mm_print mm s =
     kbind (printf (Some (''mm %p:'' @ nl)) [Arg mm] s) (\<lambda>s.
     kbind (printf (Some (''  pgt: %p'' @ nl)) [Arg (mm_pgt (mms s mm))] s) (\<lambda>s.
     kbind (printf (Some (''  ref: %d'' @ nl)) [Arg (scast (mm_refcnt (mms s mm)))] s) (\<lambda>s.
     kbind (printf (Some (''  vma: %p'' @ nl)) [Arg (mm_vma (mms s mm))] s) (\<lambda>s.
     kbind (mm_print_loop vma_rounds (mm_vma (mms s mm)) s) (\<lambda>s.
     vm_print (mm_pgt (mms s mm)) s)))))"

definition bool_arg :: "bool \<Rightarrow> parg" where "bool_arg b = Arg (if b then 1 else 0)"

text \<open>\<^verbatim>\<open>print_sysregs(true)\<close>; \<open>sip\<close> is what the pending register reads.\<close>

definition SSTATUS_SUM :: u64 where "SSTATUS_SUM = push_bit 18 1"
definition SIE_SSIE :: u64 where "SIE_SSIE = push_bit 1 1"

definition print_sysregs :: "u64 \<Rightarrow> bool \<Rightarrow> kst \<Rightarrow> halt + kst" where
  "print_sysregs sip explain s =
     (let sstatus = r_sstatus s; scause = r_scause s; sie = r_sie s; sepc = csr_sepc (hart_regs s);
          stval = r_stval s; satp = r_satp s in
      kbind (printf (Some (''sstatus : %p'' @ nl)) [Arg sstatus] s) (\<lambda>s.
      kbind (if explain then printf (Some (''- SUM:%d, SPP:%c, SPIE:%d, SIE: %d'' @ nl))
               [bool_arg (sstatus AND SSTATUS_SUM \<noteq> 0),
                Arg (if sstatus AND SSTATUS_SPP \<noteq> 0 then of_char CHR ''S'' else of_char CHR ''U''),
                bool_arg (sstatus AND SSTATUS_SPIE \<noteq> 0), bool_arg (sstatus AND SSTATUS_SIE \<noteq> 0)] s else Inr s) (\<lambda>s.
      kbind (printf (Some (''scause  : %p'' @ nl)) [Arg scause] s) (\<lambda>s.
      kbind (if explain then printf (Some (''- Interrupt:%d, Code:%d'' @ nl))
               [bool_arg (scause AND SCAUSE_INTERRUPT \<noteq> 0), Arg (scause AND SCAUSE_EXCEPTION_CODE_MASK)] s else Inr s) (\<lambda>s.
      kbind (printf (Some (''sepc    : %p'' @ nl)) [Arg sepc] s) (\<lambda>s.
      kbind (printf (Some (''stval   : %p'' @ nl)) [Arg stval] s) (\<lambda>s.
      kbind (printf (Some (''sip     : %p'' @ nl)) [Arg sip] s) (\<lambda>s.
      kbind (if explain then printf (Some (''- Pending: Software:%d, Timer:%d, External:%d'' @ nl))
               [bool_arg (sip AND SIE_SSIE \<noteq> 0), bool_arg (sip AND SIE_STIE \<noteq> 0), bool_arg (sip AND SIE_SEIE \<noteq> 0)] s
             else Inr s) (\<lambda>s.
      kbind (printf (Some (''sie     : %p'' @ nl)) [Arg sie] s) (\<lambda>s.
      kbind (if explain then printf (Some (''- Enabled: Software:%d, Timer:%d, External:%d'' @ nl))
               [bool_arg (sie AND SIE_SSIE \<noteq> 0), bool_arg (sie AND SIE_STIE \<noteq> 0), bool_arg (sie AND SIE_SEIE \<noteq> 0)] s
             else Inr s) (\<lambda>s.
      printf (Some (''satp    : %p'' @ nl)) [Arg satp] s)))))))))))"

end
