(* ===== verification/Task.thy ===== *)
theory Task imports Uart begin

text \<open>
  Processes as the scheduler sees them: \<^verbatim>\<open>os/sched.c\<close>, and of \<^verbatim>\<open>os/proc.c\<close> the current process,
  process numbers, \<^verbatim>\<open>sleep\<close> and \<^verbatim>\<open>wakeup\<close>.

  \<^verbatim>\<open>swtch\<close> leaves one stack and goes on with another. A routine that calls \<^verbatim>\<open>sched\<close> is therefore two
  definitions: the part up to the switch (\<open>_out\<close>), which saves in the process what it will go on
  with, and the part after it (\<open>_back\<close>), which runs when the scheduler has chosen the process again.
  In the same way a round of \<^verbatim>\<open>scheduler\<close> is \<open>scheduler_pick\<close> and \<open>scheduler_back\<close>.
\<close>

section \<open>Operations\<close>

text \<open>Every caller of \<^verbatim>\<open>curr_proc\<close> uses the result as a pointer to a process at once.\<close>

definition curr_proc :: "kst \<Rightarrow> halt + nat" where
  "curr_proc s =
     kbind (mycpu (smp s)) (\<lambda>c. case c_proc (cpus (smp s) c) of None \<Rightarrow> Inl (Page_fault 0) | Some p \<Rightarrow> Inr p)"

definition upd_proc :: "nat \<Rightarrow> (proc \<Rightarrow> proc) \<Rightarrow> kst \<Rightarrow> kst" where
  "upd_proc p f s = s\<lparr>proc_pool := (proc_pool s)(p := f (proc_pool s p))\<rparr>"

definition set_curr :: "nat option \<Rightarrow> kst \<Rightarrow> kst" where
  "set_curr p s = s\<lparr>smp := upd_cpu (\<lambda>c. c\<lparr>c_proc := p\<rparr>) (smp s)\<rparr>"

definition set_interrupt_on :: "bool \<Rightarrow> kst \<Rightarrow> kst" where
  "set_interrupt_on b s = s\<lparr>smp := upd_cpu (\<lambda>c. c\<lparr>c_interrupt_on := b\<rparr>) (smp s)\<rparr>"

definition allocpid :: "kst \<Rightarrow> halt + i32 \<times> kst" where
  "allocpid s =
     kbind (k_acquire L_pid s) (\<lambda>s.
     let retpid = next_pid s; s = s\<lparr>next_pid := next_pid s + 1\<rparr> in
     kbind (k_release L_pid s) (\<lambda>s. Inr (retpid, s)))"

definition sched_init :: "kst \<Rightarrow> kst" where
  "sched_init s = (let (m, q) = init_queue L_queue (smp s, task_queue s) in s\<lparr>smp := m, task_queue := q\<rparr>)"

definition fetch_task :: "kst \<Rightarrow> halt + nat option \<times> kst" where
  "fetch_task s =
     kbind (pop_queue L_queue (smp s, task_queue s)) (\<lambda>(p, m, q). Inr (p, s\<lparr>smp := m, task_queue := q\<rparr>))"

definition add_task :: "nat \<Rightarrow> kst \<Rightarrow> halt + kst" where
  "add_task p s =
     kbind (push_queue L_queue p (smp s, task_queue s)) (\<lambda>(m, q). Inr (s\<lparr>smp := m, task_queue := q\<rparr>))"

fun all_dead_loop :: "nat list \<Rightarrow> kst \<Rightarrow> halt + bool \<times> kst" where
  "all_dead_loop [] s = Inr (False, s)"
| "all_dead_loop (i # is) s =
     kbind (k_acquire (L_proc i) s) (\<lambda>s.
     let alive = p_state (proc_pool s i) \<noteq> UNUSED in
     kbind (k_release (L_proc i) s) (\<lambda>s.
     if alive then Inr (True, s) else all_dead_loop is s))"

definition k_push_off :: "kst \<Rightarrow> halt + kst" where
  "k_push_off s = kbind (push_off (smp s)) (\<lambda>m. Inr (s\<lparr>smp := m\<rparr>))"

definition k_pop_off :: "kst \<Rightarrow> halt + kst" where
  "k_pop_off s = kbind (pop_off (smp s)) (\<lambda>m. Inr (s\<lparr>smp := m\<rparr>))"

definition all_dead :: "kst \<Rightarrow> halt + bool \<times> kst" where
  "all_dead s =
     kbind (k_push_off s) (\<lambda>s.
     kbind (all_dead_loop [0..<NPROC] s) (\<lambda>(alive, s).
     kbind (k_pop_off s) (\<lambda>s. Inr (\<not> alive, s))))"

text \<open>
  A round of \<^verbatim>\<open>scheduler\<close> up to the switch: the process it switches to, or \<open>None\<close> when it waits for
  an interrupt (\<^verbatim>\<open>intr_on(); wfi; intr_off()\<close>; the interrupt is a step of its own).
\<close>


definition scheduler_pick :: "kst \<Rightarrow> halt + nat option \<times> kst" where
  "scheduler_pick s =
     kbind (mycpu (smp s)) (\<lambda>c.
     kbind (fetch_task s) (\<lambda>(p, s).
     case p of
       None \<Rightarrow>
         kbind (all_dead s) (\<lambda>(dead, s).
         if dead then Inl (Panic ''scheduler dead.'')
         else Inr (None, k_intr_off (k_intr_on s)))
     | Some p \<Rightarrow>
         kbind (k_acquire (L_proc p) s) (\<lambda>s.
         if p_state (proc_pool s p) \<noteq> RUNNABLE then Inl (Panic ''assertion failed: p->state == RUNNABLE'')
         else
           let s = upd_proc p (\<lambda>q. q\<lparr>p_state := RUNNING\<rparr>) s;
               s = set_curr (Some p) s in
           Inr (Some p, s))))"

definition scheduler_back :: "nat \<Rightarrow> kst \<Rightarrow> halt + kst" where
  "scheduler_back p s =
     (if c_proc (this_cpu (smp s)) \<noteq> Some p then Inl (Panic ''assertion failed: c->proc == p'')
      else if intr_get (smp s) then Inl (Panic ''assertion failed: !intr_get()'')
      else
        kbind (holding (L_proc p) (smp s)) (\<lambda>h.
        if \<not> h then Inl (Panic ''assertion failed: holding(&p->lock)'')
        else
          let s = set_curr None s in
          kbind (if p_state (proc_pool s p) = RUNNABLE then add_task p s else Inr s) (\<lambda>s.
          k_release (L_proc p) s)))"

definition sched_out :: "kont \<Rightarrow> kst \<Rightarrow> halt + kst" where
  "sched_out k s =
     kbind (curr_proc s) (\<lambda>p.
     kbind (holding (L_proc p) (smp s)) (\<lambda>h.
     if \<not> h then Inl (Panic ''not holding p->lock'')
     else if c_noff (this_cpu (smp s)) \<noteq> 1 then Inl (Panic ''holding another locks'')
     else if p_state (proc_pool s p) = RUNNING then Inl (Panic ''sched running process'')
     else if c_inkernel_trap (this_cpu (smp s))
     then Inl (Panic ''sched should never be called in kernel trap context.'')
     else if intr_get (smp s) then Inl (Panic ''assertion failed: !intr_get()'')
     else
       let interrupt_on = c_interrupt_on (this_cpu (smp s)) in
       Inr (upd_proc p (\<lambda>q. q\<lparr>p_context := In_sched interrupt_on k\<rparr>) s)))"

definition sched_back :: "nat \<Rightarrow> bool \<Rightarrow> kst \<Rightarrow> halt + kst" where
  "sched_back p interrupt_on s =
     (let s = set_interrupt_on interrupt_on s in
      kbind (holding (L_proc p) (smp s)) (\<lambda>h.
      if \<not> h then Inl (Panic ''not holding p->lock after sched.swtch returns'') else Inr s))"

definition yield_out :: "kont \<Rightarrow> kst \<Rightarrow> halt + kst" where
  "yield_out k s =
     kbind (curr_proc s) (\<lambda>p.
     kbind (k_acquire (L_proc p) s) (\<lambda>s.
     sched_out k (upd_proc p (\<lambda>q. q\<lparr>p_state := RUNNABLE\<rparr>) s)))"

definition yield_back :: "nat \<Rightarrow> bool \<Rightarrow> kst \<Rightarrow> halt + kst" where
  "yield_back p interrupt_on s = kbind (sched_back p interrupt_on s) (k_release (L_proc p))"

definition sleep_out :: "chan \<Rightarrow> lock_id \<Rightarrow> kont \<Rightarrow> kst \<Rightarrow> halt + kst" where
  "sleep_out ch lk k s =
     kbind (curr_proc s) (\<lambda>p.
     kbind (k_acquire (L_proc p) s) (\<lambda>s.
     kbind (k_release lk s) (\<lambda>s.
     let s = upd_proc p (\<lambda>q. q\<lparr>p_sleep_chan := Some ch\<rparr>) s;
         s = upd_proc p (\<lambda>q. q\<lparr>p_state := SLEEPING\<rparr>) s in
     sched_out k s)))"

definition sleep_back :: "nat \<Rightarrow> bool \<Rightarrow> lock_id \<Rightarrow> kst \<Rightarrow> halt + kst" where
  "sleep_back p interrupt_on lk s =
     kbind (sched_back p interrupt_on s) (\<lambda>s.
     let s = upd_proc p (\<lambda>q. q\<lparr>p_sleep_chan := None\<rparr>) s in
     kbind (k_release (L_proc p) s) (k_acquire lk))"

text \<open>\<^verbatim>\<open>wakeup(chan)\<close>; the null channel is \<open>None\<close>.\<close>

definition wakeup_one :: "chan option \<Rightarrow> nat \<Rightarrow> kst \<Rightarrow> halt + kst" where
  "wakeup_one ch i s =
     kbind (k_acquire (L_proc i) s) (\<lambda>s.
     kbind (if p_state (proc_pool s i) = SLEEPING \<and> p_sleep_chan (proc_pool s i) = ch
            then add_task i (upd_proc i (\<lambda>q. q\<lparr>p_state := RUNNABLE\<rparr>) s)
            else Inr s) (\<lambda>s.
     k_release (L_proc i) s))"

definition wakeup :: "chan option \<Rightarrow> kst \<Rightarrow> halt + kst" where
  "wakeup ch s = kfold (wakeup_one ch) [0..<NPROC] s"

end
