(* ===== verification/Kvm.thy ===== *)
theory Kvm imports Debug Task begin

text \<open>
  The kernel's own page table, \<^verbatim>\<open>os/kvm.c\<close>, and what is mapped in it: the object pools
  (\<^verbatim>\<open>allocator_init\<close> of \<^verbatim>\<open>os/kalloc.c\<close>, \<^verbatim>\<open>uvm_init\<close> of \<^verbatim>\<open>os/vm.c\<close>) and the kernel stacks of the processes
  (\<^verbatim>\<open>proc_init\<close> of \<^verbatim>\<open>os/proc.c\<close>).

  The kernel reaches its page table through the direct mapping. What the MMU makes of the table is
  \<open>kernel_leaf\<close>; \<^verbatim>\<open>sfence_vma\<close>, or a write of \<^verbatim>\<open>satp\<close>, makes the addresses the table maps readable and
  writable be the mapped ones of the state.
\<close>

section \<open>The MMU\<close>

text \<open>The leaf entry of a virtual address and its level, from level \<open>l\<close> down.\<close>

fun sv39_leaf :: "nat \<Rightarrow> mem \<Rightarrow> u64 \<Rightarrow> u64 \<Rightarrow> (nat \<times> u64) option" where
  "sv39_leaf 0 m table va =
     (let e = ld64 m (slot table (PX 0 va)) in
      if e AND PTE_V \<noteq> 0 \<and> e AND (PTE_R OR PTE_W OR PTE_X) \<noteq> 0 then Some (0, e) else None)"
| "sv39_leaf (Suc l) m table va =
     (let e = ld64 m (slot table (PX (Suc l) va)) in
      if e AND PTE_V = 0 then None
      else if e AND (PTE_R OR PTE_W OR PTE_X) \<noteq> 0 then Some (Suc l, e)
      else sv39_leaf l m (PA_TO_KVA (PTE2PA e)) va)"

text \<open>A virtual address is canonical when its bits from 38 up are equal.\<close>

definition sv39_va :: "u64 \<Rightarrow> bool" where
  "sv39_va va \<longleftrightarrow> drop_bit 38 va = 0 \<or> drop_bit 38 va = mask 26"

definition kernel_leaf :: "mem \<Rightarrow> u64 \<Rightarrow> u64 \<Rightarrow> (nat \<times> u64) option" where
  "kernel_leaf m root va = (if sv39_va va then sv39_leaf 2 m root va else None)"

definition leaf_pa :: "u64 \<Rightarrow> nat \<times> u64 \<Rightarrow> u64" where
  "leaf_pa va = (\<lambda>(l, e). PTE2PA e + (va AND mask (12 + 9 * l)))"

definition kernel_rw :: "mem \<Rightarrow> u64 \<Rightarrow> u64 \<Rightarrow> bool" where
  "kernel_rw m root va =
     (case kernel_leaf m root va of None \<Rightarrow> False | Some (l, e) \<Rightarrow> e AND PTE_R \<noteq> 0 \<and> e AND PTE_W \<noteq> 0)"

definition sfence_vma :: "kst \<Rightarrow> kst" where
  "sfence_vma s = s\<lparr>kmap := kernel_rw (mem s) (kernel_pagetable s)\<rparr>"

section \<open>Pages for the tables\<close>

definition allocsetuppage :: "kst \<Rightarrow> halt + u64 \<times> kst" where
  "allocsetuppage s =
     (if \<not> init_page_allocator_base s \<le> init_page_allocator s
      then Inl (Panic ''assertion failed: init_page_allocator >= init_page_allocator_base'')
      else if \<not> init_page_allocator s < init_page_allocator_base s + PGSIZE_2M
      then Inl (Panic ''assertion failed: init_page_allocator < init_page_allocator_base + PGSIZE_2M'')
      else if \<not> PGALIGNED (init_page_allocator s)
      then Inl (Panic ''assertion failed: PGALIGNED(init_page_allocator)'')
      else
        let pg = init_page_allocator s in
        Inr (pg, s\<lparr>init_page_allocator := init_page_allocator s + PGSIZE\<rparr>))"

definition allockernelpage :: "kst \<Rightarrow> halt + u64 \<times> kst" where
  "allockernelpage s =
     (if kalloc_inited s then kbind (kallocpage s) (\<lambda>(pa, s). Inr (PA_TO_KVA pa, s)) else allocsetuppage s)"

section \<open>Mapping\<close>

text \<open>The table that an entry points to, made when the entry is not valid.\<close>

definition fresh_table :: "u64 \<Rightarrow> kst \<Rightarrow> halt + u64 \<times> kst" where
  "fresh_table pte s =
     kbind (allockernelpage s) (\<lambda>(newpg, s).
     kbind (k_memset newpg 0 4096 s) (\<lambda>s.
     kbind (store64 pte (MAKE_PTE (KVA_TO_PA newpg) PTE_G) s) (\<lambda>s. Inr (newpg, s))))"

definition is_leaf :: "u64 \<Rightarrow> bool" where
  "is_leaf e \<longleftrightarrow> e AND PTE_R \<noteq> 0 \<or> e AND PTE_W \<noteq> 0 \<or> e AND PTE_X \<noteq> 0"

text \<open>
  The body of the loop of \<^verbatim>\<open>kvmmap\<close>: it maps one page, of 2 MiB where the alignment and the rest of the
  range allow it, and gives the page's size.
\<close>

definition kvmmap_page :: "u64 \<Rightarrow> u64 \<Rightarrow> u64 \<Rightarrow> u64 \<Rightarrow> u64 \<Rightarrow> kst \<Rightarrow> halt + u64 \<times> kst" where
  "kvmmap_page kpgtbl perm vaddr paddr sz s =
     (let pte2 = slot kpgtbl (PX 2 vaddr) in
      kbind (load64 pte2 s) (\<lambda>e.
      kbind (if e AND PTE_V = 0 then fresh_table pte2 s
             else if is_leaf e then Inl (Panic ''kvmmap: vaddr already mapped at level 2'')
             else Inr (PA_TO_KVA (PTE2PA e), s)) (\<lambda>(pgtbl_level1, s).
      let pte1 = slot pgtbl_level1 (PX 1 vaddr) in
      kbind (load64 pte1 s) (\<lambda>e.
      if e AND PTE_V = 0 \<and> IS_ALIGNED vaddr PGSIZE_2M \<and> IS_ALIGNED paddr PGSIZE_2M \<and> PGSIZE_2M \<le> sz
      then kbind (store64 pte1 (MAKE_PTE paddr perm) s) (\<lambda>s. Inr (PGSIZE_2M, s))
      else
        kbind (if e AND PTE_V = 0 then fresh_table pte1 s
               else if is_leaf e then Inl (Panic ''kvmmap: vaddr already mapped at level 1'')
               else Inr (PA_TO_KVA (PTE2PA e), s)) (\<lambda>(pgtbl_level0, s).
        let pte0 = slot pgtbl_level0 (PX 0 vaddr) in
        kbind (load64 pte0 s) (\<lambda>e.
        if e AND PTE_V \<noteq> 0 then Inl (Panic ''kvmmap: vaddr already mapped at level 0'')
        else kbind (store64 pte0 (MAKE_PTE paddr perm) s) (\<lambda>s. Inr (PGSIZE, s))))))))"

text \<open>
  The loop. With aligned bounds \<^verbatim>\<open>vaddr\<close> never passes the end of the address space, so that \<open>Spin\<close>
  (the loop starting again at the bottom) is never reached.
\<close>

function kvmmap_loop ::
    "u64 \<Rightarrow> u64 \<Rightarrow> u64 \<Rightarrow> u64 \<Rightarrow> u64 \<Rightarrow> u64 \<Rightarrow> kst \<Rightarrow> halt + (u64 \<times> u64) \<times> kst" where
  "kvmmap_loop kpgtbl perm vaddr_end vaddr paddr sz s =
     (if vaddr < vaddr_end then
        kbind (kvmmap_page kpgtbl perm vaddr paddr sz s) (\<lambda>(n, s).
        if vaddr + n \<le> vaddr then Inl Spin
        else kvmmap_loop kpgtbl perm vaddr_end (vaddr + n) (paddr + n) (sz - n) s)
      else Inr ((vaddr, sz), s))"
  by pat_completeness auto
termination
proof (relation "measure (\<lambda>(kpgtbl, perm, vaddr_end, vaddr, paddr, sz, s). 2 ^ 64 - unat vaddr)")
  fix kpgtbl perm vaddr_end vaddr paddr sz n :: u64 and s t r
  assume "\<not> vaddr + n \<le> vaddr"
  then have "unat vaddr < unat (vaddr + n)" by (simp add: word_le_nat_alt)
  then show "((kpgtbl, perm, vaddr_end, vaddr + n, paddr + n, sz - n, t), kpgtbl, perm, vaddr_end, vaddr, paddr, sz, s)
      \<in> measure (\<lambda>(kpgtbl, perm, vaddr_end, vaddr, paddr, sz, s). 2 ^ 64 - unat vaddr)"
    using unat_less_2p [of "vaddr + n"] by simp
qed simp

declare kvmmap_loop.simps [simp del]

definition kvmmap :: "u64 \<Rightarrow> u64 \<Rightarrow> u64 \<Rightarrow> u64 \<Rightarrow> u64 \<Rightarrow> kst \<Rightarrow> halt + kst" where
  "kvmmap kpgtbl va pa sz perm s =
     (if \<not> PGALIGNED va then Inl (Panic ''assertion failed: PGALIGNED(va)'')
      else if \<not> PGALIGNED pa then Inl (Panic ''assertion failed: PGALIGNED(pa)'')
      else if \<not> PGALIGNED sz then Inl (Panic ''assertion failed: PGALIGNED(sz)'')
      else
        let vaddr_end = va + sz in
        kbind (kvmmap_loop kpgtbl perm vaddr_end va pa sz s) (\<lambda>((vaddr, sz), s).
        if vaddr \<noteq> vaddr_end then Inl (Panic ''assertion failed: vaddr == vaddr_end'')
        else if sz \<noteq> 0 then Inl (Panic ''assertion failed: sz == 0'')
        else Inr s))"

section \<open>The kernel page table\<close>

definition KERNEL_ALLOCATOR_BASE :: u64 where "KERNEL_ALLOCATOR_BASE = 0xfffffffd00000000"
definition KERNEL_ALLOCATOR_GAP :: u64 where "KERNEL_ALLOCATOR_GAP = 0x0000000001000000"
definition KERNEL_STACK_SCHED :: u64 where "KERNEL_STACK_SCHED = 0xffffffffff000000"
definition KERNEL_STACK_PROCS :: u64 where "KERNEL_STACK_PROCS = 0xfffffffe00000000"
definition UART0_PHYS :: u64 where "UART0_PHYS = 0x10000000"
definition PLIC_PHYS :: u64 where "PLIC_PHYS = 0x0c000000"

text \<open>A page of a stack, and the stack of the scheduler of one CPU; \<^verbatim>\<open>sched_stack\<close> is carried along.\<close>

definition map_stack_page :: "u64 \<Rightarrow> u64 \<Rightarrow> kst \<Rightarrow> halt + kst" where
  "map_stack_page kpgtbl va s =
     kbind (allockernelpage s) (\<lambda>(newpg, s).
     kvmmap kpgtbl va (KVA_TO_PA newpg) PGSIZE (PTE_A OR PTE_D OR PTE_R OR PTE_W OR PTE_G) s)"

definition map_sched_stack :: "u64 \<Rightarrow> nat \<Rightarrow> u64 \<times> kst \<Rightarrow> halt + u64 \<times> kst" where
  "map_sched_stack kpgtbl i = (\<lambda>(sched_stack, s).
     kbind (getcpu i (smp s)) (\<lambda>_.
     kbind (kfold (map_stack_page kpgtbl) (page_range sched_stack (sched_stack + KERNEL_STACK_SIZE)) s) (\<lambda>s.
     let s = s\<lparr>sched_kstack_top := (sched_kstack_top s)(i := sched_stack + KERNEL_STACK_SIZE)\<rparr> in
     Inr (sched_stack + 2 * KERNEL_STACK_SIZE, s))))"

definition kvmmake :: "kst \<Rightarrow> halt + u64 \<times> kst" where
  "kvmmake s =
     (let im = img s in
      kbind (allocsetuppage s) (\<lambda>(kpgtbl, s).
      kbind (k_memset kpgtbl 0 4096 s) (\<lambda>s.
      kbind (kvmmap kpgtbl (s_text im) (KIVA_TO_PA (s_text im)) (e_text im - s_text im)
               (PTE_A OR PTE_R OR PTE_X OR PTE_G) s) (\<lambda>s.
      kbind (kvmmap kpgtbl (s_rodata im) (KIVA_TO_PA (s_rodata im)) (e_rodata im - s_rodata im)
               (PTE_A OR PTE_R OR PTE_G) s) (\<lambda>s.
      let kimage_data_size = KIVA_TO_PA (e_bss im) - KIVA_TO_PA (s_data im) in
      kbind (kvmmap kpgtbl (s_data im) (KIVA_TO_PA (s_data im)) kimage_data_size
               (PTE_A OR PTE_D OR PTE_R OR PTE_W OR PTE_G) s) (\<lambda>s.
      kbind (kvmmap kpgtbl TRAMPOLINE (KIVA_TO_PA (trampoline_addr im)) PGSIZE (PTE_A OR PTE_R OR PTE_X) s) (\<lambda>s.
      kbind (kvmmap kpgtbl KERNEL_PLIC_BASE PLIC_PHYS KERNEL_PLIC_SIZE
               (PTE_A OR PTE_D OR PTE_R OR PTE_W OR PTE_G) s) (\<lambda>s.
      kbind (kvmmap kpgtbl KERNEL_UART0_BASE UART0_PHYS KERNEL_UART0_SIZE
               (PTE_A OR PTE_D OR PTE_R OR PTE_W OR PTE_G) s) (\<lambda>s.
      kbind (kfold (map_sched_stack kpgtbl) [0..<NCPU] (KERNEL_STACK_SCHED, s)) (\<lambda>(_, s).
      let available_mems = PHYS_MEM_SIZE - (kernel_image_end_2M s - RISCV_DDR_BASE);
          direct_mapping_vaddr = KERNEL_DIRECT_MAPPING_BASE + kernel_image_end_2M s;
          direct_mapping_paddr = kernel_image_end_2M s in
      kbind (kvmmap kpgtbl direct_mapping_vaddr direct_mapping_paddr available_mems
               (PTE_A OR PTE_D OR PTE_R OR PTE_W OR PTE_G) s) (\<lambda>s.
      Inr (kpgtbl, s\<lparr>kpage_allocator_base := init_page_allocator s,
             kpage_allocator_size := available_mems - (init_page_allocator s - init_page_allocator_base s)\<rparr>))))))))))))"

definition kvm_init :: "kst \<Rightarrow> halt + kst" where
  "kvm_init s =
     (let s = s\<lparr>init_page_allocator := KERNEL_DIRECT_MAPPING_BASE + kernel_image_end_2M s\<rparr>;
          s = s\<lparr>init_page_allocator_base := init_page_allocator s\<rparr> in
      kbind (kvmmake s) (\<lambda>(kpgtbl, s).
      let s = s\<lparr>kernel_pagetable := kpgtbl\<rparr>;
          satp = MAKE_SATP (KVA_TO_PA (kernel_pagetable s)) in
      Inr (sfence_vma (w_satp satp s))))"

section \<open>Object pools and process stacks\<close>

text \<open>A page of the pool of \<^verbatim>\<open>allocator_init\<close>.\<close>

definition map_pool_page :: "u64 \<Rightarrow> kst \<Rightarrow> halt + kst" where
  "map_pool_page va s =
     kbind (kallocpage s) (\<lambda>(pg, s).
     if pg = 0 then Inl (Panic ''kallocpage'')
     else
       kbind (k_memset (PA_TO_KVA pg) 0xf8 4096 s) (\<lambda>s.
       kvmmap (kernel_pagetable s) va pg PGSIZE (PTE_A OR PTE_D OR PTE_R OR PTE_W) s))"

definition allocator_init :: "alloc_id \<Rightarrow> u64 \<Rightarrow> u64 \<Rightarrow> kst \<Rightarrow> halt + kst" where
  "allocator_init A obj_size count s =
     (let s = k_spinlock_init (L_alloc A) (upd_alloc A (\<lambda>_. idle_allocator) s);
          s = upd_alloc A (\<lambda>a. a\<lparr>object_size := obj_size, object_size_aligned := ROUNDUP_2N obj_size 16, max_count := count\<rparr>) s in
      if \<not> count \<le> PGSIZE * 8 then Inl (Panic ''assertion failed: count <= PGSIZE * 8'')
      else
        let total_size = PGROUNDUP (object_size_aligned (allocs s A) * max_count (allocs s A));
            s = upd_alloc A (\<lambda>a. a\<lparr>pool_base := allocator_mapped_va s\<rparr>) s;
            s = upd_alloc A (\<lambda>a. a\<lparr>pool_end := pool_base a + total_size\<rparr>) s;
            s = s\<lparr>allocator_mapped_va := allocator_mapped_va s + ROUNDUP_2N total_size KERNEL_ALLOCATOR_GAP\<rparr> in
        kbind (kfold map_pool_page (page_range (pool_base (allocs s A)) (pool_end (allocs s A))) s) (\<lambda>s.
        kbind (kallocpage (sfence_vma s)) (\<lambda>(pg, s).
        if pg = 0 then Inl (Panic ''assertion failed: pg'')
        else
          let s = upd_alloc A (\<lambda>a. a\<lparr>bitmap := PA_TO_KVA pg\<rparr>) s in
          kbind (k_memset (bitmap (allocs s A)) 0xff 4096 s) (\<lambda>s.
          kbind (kfold (\<lambda>i. bit_clear (bitmap (allocs s A)) (of_nat i)) [0..<unat (max_count (allocs s A))] s) (\<lambda>s.
          Inr (upd_alloc A (\<lambda>a. a\<lparr>available_count := max_count a, allocated_count := 0\<rparr>) s))))))"

definition sizeof_mm :: u64 where "sizeof_mm = 56"
definition sizeof_vma :: u64 where "sizeof_vma = 40"
definition sizeof_proc :: u64 where "sizeof_proc = 248"

definition uvm_init :: "kst \<Rightarrow> halt + kst" where
  "uvm_init s = kbind (allocator_init Mm_alloc sizeof_mm 16384 s) (allocator_init Vma_alloc sizeof_vma 16384)"

text \<open>
  A round of the loop of \<^verbatim>\<open>proc_init\<close>. The mappings of the stack's pages are visible from the
  \<^verbatim>\<open>sfence_vma\<close> on; the page of the trap frame is replaced by the one of the first \<^verbatim>\<open>allocproc\<close>.
\<close>

definition map_proc_stack_page :: "u64 \<Rightarrow> kst \<Rightarrow> halt + kst" where
  "map_proc_stack_page va s =
     kbind (kallocpage s) (\<lambda>(newpg, s).
     kvmmap (kernel_pagetable s) va newpg PGSIZE (PTE_A OR PTE_D OR PTE_R OR PTE_W) s)"

definition proc_init_one :: "nat \<Rightarrow> u64 \<times> kst \<Rightarrow> halt + u64 \<times> kst" where
  "proc_init_one i = (\<lambda>(proc_kstack, s).
     kbind (kalloc Proc_alloc s) (\<lambda>(p, s).
     let s = k_spinlock_init (L_proc i) (upd_proc i (\<lambda>_. idle_proc) s);
         s = upd_proc i (\<lambda>q. q\<lparr>p_state := UNUSED\<rparr>) s;
         s = upd_proc i (\<lambda>q. q\<lparr>p_kstack := proc_kstack\<rparr>) s in
     kbind (kfold map_proc_stack_page (page_range proc_kstack (proc_kstack + KERNEL_STACK_SIZE)) s) (\<lambda>s.
     kbind (kallocpage (sfence_vma s)) (\<lambda>(pg, s).
     let s = upd_proc i (\<lambda>q. q\<lparr>p_trapframe := PA_TO_KVA pg\<rparr>) s;
         s = s\<lparr>proc_addr := (proc_addr s)(i := p)\<rparr> in
     Inr (proc_kstack + 2 * KERNEL_STACK_SIZE, s)))))"

definition proc_init :: "kst \<Rightarrow> halt + kst" where
  "proc_init s =
     (if proc_inited s then Inl (Panic ''assertion failed: proc_inited == 0'')
      else
        let s = s\<lparr>proc_inited := True\<rparr>;
            s = k_spinlock_init L_wait (k_spinlock_init L_pid s) in
        kbind (allocator_init Proc_alloc sizeof_proc (of_nat NPROC) s) (\<lambda>s.
        kbind (kfold proc_init_one [0..<NPROC] (KERNEL_STACK_PROCS, s)) (\<lambda>(_, s).
        Inr ((sched_init s)\<lparr>init_proc := 0\<rparr>))))"

end
