(* ===== verification/VmSpec.thy ===== *)
theory VmSpec imports Vm begin

text \<open>
  What the operations of \<^verbatim>\<open>os/vm.c\<close> do to the entries of an address space: the walk finds, and with
  \<open>alloc\<close> makes, the leaf; \<^verbatim>\<open>mm_mappages\<close> and \<^verbatim>\<open>freevma\<close> change the entries of their range and no
  others; \<^verbatim>\<open>mm_copy\<close> copies. Each is stated against \<open>entry\<close> of \<open>PageTable\<close>, for any memory.
\<close>

section \<open>Frames\<close>

text \<open>All bytes outside the pages \<open>P\<close> are the same.\<close>

definition only_in :: "u64 set \<Rightarrow> mem \<Rightarrow> mem \<Rightarrow> bool" where
  "only_in P m m' \<longleftrightarrow> (\<forall>x. (\<forall>t \<in> P. \<not> in_page t x) \<longrightarrow> m' x = m x)"

lemma only_in_refl [simp]: "only_in P m m"
  by (simp add: only_in_def)

lemma only_in_trans: "only_in P m m1 \<Longrightarrow> only_in Q m1 m2 \<Longrightarrow> P \<subseteq> R \<Longrightarrow> Q \<subseteq> R \<Longrightarrow> only_in R m m2"
  unfolding only_in_def by (metis subsetD)

lemma only_in_mono: "only_in P m m' \<Longrightarrow> P \<subseteq> Q \<Longrightarrow> only_in Q m m'"
  by (auto simp: only_in_def)

lemma only_in_ld64:
  assumes "only_in P m m'" and "\<forall>t \<in> P. PGALIGNED t" and "PGALIGNED q" and "q \<notin> P" and "i < 512"
  shows "ld64 m' (slot q i) = ld64 m (slot q i)"
proof (rule ld64_cong)
  fix k :: nat assume "k < 8"
  then have "in_page q (slot q i + of_nat k)"
    using assms(5) slot_byte_in_page by (simp add: word_less_nat_alt unat_of_nat_small)
  then have "\<not> in_page t (slot q i + of_nat k)" if "t \<in> P" for t
    using in_page_disjoint [of t q] assms(2-4) that by blast
  then show "m' (slot q i + of_nat k) = m (slot q i + of_nat k)" using assms(1) by (simp add: only_in_def)
qed

lemma only_in_same_entries:
  assumes "only_in P m m'" and "\<forall>t \<in> P. PGALIGNED t" and "\<forall>t \<in> T. PGALIGNED t" and "T \<inter> P = {}"
  shows "same_entries T m m'"
  unfolding same_entries_def using only_in_ld64 [OF assms(1,2)] assms(3,4) by blast

text \<open>Only memory, the free list and the bookkeeping of interrupts have changed.\<close>

definition only_memory :: "kst \<Rightarrow> kst \<Rightarrow> bool" where
  "only_memory s s' \<longleftrightarrow>
     s' = s\<lparr>smp := smp s', mem := mem s', freelist := freelist s'\<rparr> \<and> settle (smp s') = settle (smp s)"

lemma only_memoryI:
  "settle m = settle (smp s) \<Longrightarrow> only_memory s (s\<lparr>smp := m, mem := b, freelist := l\<rparr>)"
  by (simp add: only_memory_def)

lemma only_memory_refl [simp]: "only_memory s s"
  by (simp add: only_memory_def)

lemma only_memory_trans: "only_memory s t \<Longrightarrow> only_memory t u \<Longrightarrow> only_memory s u"
proof -
  assume st: "only_memory s t" and tu: "only_memory t u"
  have "u = t\<lparr>smp := smp u, mem := mem u, freelist := freelist u\<rparr>" using tu by (simp add: only_memory_def)
  also have "\<dots> = s\<lparr>smp := smp u, mem := mem u, freelist := freelist u\<rparr>"
  proof -
    have "(s\<lparr>smp := m, mem := b, freelist := l\<rparr>)\<lparr>smp := m', mem := b', freelist := l'\<rparr> =
        s\<lparr>smp := m', mem := b', freelist := l'\<rparr>" for m b l m' b' l'
      by simp
    then show ?thesis using st unfolding only_memory_def by metis
  qed
  finally have "u = s\<lparr>smp := smp u, mem := mem u, freelist := freelist u\<rparr>" .
  moreover have "settle (smp u) = settle (smp s)" using st tu unfolding only_memory_def by metis
  ultimately show ?thesis unfolding only_memory_def by (rule conjI)
qed

lemma only_memory_sel:
  assumes "only_memory s s'"
  shows "kmap s' = kmap s" "allocs s' = allocs s" "mms s' = mms s" "vmas s' = vmas s"
    "kpage_allocator_base s' = kpage_allocator_base s" "kpage_allocator_size s' = kpage_allocator_size s"
    "proc_pool s' = proc_pool s" "k_ready s' = k_ready s" "k_free l s' = k_free l s"
proof -
  define t where "t = s\<lparr>smp := smp s', mem := mem s', freelist := freelist s'\<rparr>"
  have e: "s' = t" using assms by (simp only: only_memory_def t_def)
  show "kmap s' = kmap s" "allocs s' = allocs s" "mms s' = mms s" "vmas s' = vmas s"
    "kpage_allocator_base s' = kpage_allocator_base s" "kpage_allocator_size s' = kpage_allocator_size s"
    "proc_pool s' = proc_pool s"
    unfolding e by (simp_all add: t_def)
  show "k_ready s' = k_ready s" "k_free l s' = k_free l s"
    using assms settle_eq_transfer [of "smp s'" "smp s"] by (simp_all add: only_memory_def k_ready_def k_free_def)
qed

lemma only_memory_managed:
  assumes "only_memory s s'"
  shows "managed s' p = managed s p" "page_mapped s' p = page_mapped s p" "arena_ok s' = arena_ok s"
proof -
  note sel = only_memory_sel [OF assms]
  show m: "managed s' p = managed s p" for p by (simp add: managed_def sel)
  show p: "page_mapped s' p = page_mapped s p" for p by (rule page_mapped_cong [OF sel(1)])
  show "arena_ok s' = arena_ok s" by (simp add: arena_ok_def m p sel)
qed

section \<open>A well-formed address space\<close>

text \<open>
  The tree below \<open>root\<close> is well formed, its tables are mapped, none of them is the null pointer or on
  the free list \<open>ps\<close>, and the page allocator is in order.
\<close>

definition vm_ok :: "kst \<Rightarrow> u64 \<Rightarrow> u64 list \<Rightarrow> bool" where
  "vm_ok s root ps \<longleftrightarrow>
     pt_wf (mem s) root \<and> (\<forall>x \<in> tables (mem s) root. page_mapped s x) \<and> 0 \<notin> tables (mem s) root \<and>
     arena_ok s \<and> k_ready s \<and> k_free L_kpage s \<and> free_pages s ps \<and> tables (mem s) root \<inter> set ps = {}"

lemma vm_okD:
  assumes "vm_ok s root ps"
  shows "pt_wf (mem s) root" "x \<in> tables (mem s) root \<Longrightarrow> page_mapped s x" "arena_ok s" "k_ready s"
    "k_free L_kpage s" "free_pages s ps" "tables (mem s) root \<inter> set ps = {}"
    "x \<in> tables (mem s) root \<Longrightarrow> PGALIGNED x" "distinct ps" "p \<in> set ps \<Longrightarrow> managed s p"
    "0 \<notin> tables (mem s) root"
  using assms nodes_aligned by (auto simp: vm_ok_def free_pages_def)

text \<open>Changes outside the tables and the free pages keep it.\<close>

lemma free_pages_only_in:
  assumes "free_pages s ps" and "only_in P (mem s) (mem s')" and "\<forall>t \<in> P. PGALIGNED t" and "P \<inter> set ps = {}"
    and "only_memory s s'" and "freelist s' = freelist s"
  shows "free_pages s' ps"
proof -
  have "chain (mem s') (freelist s') ps = chain (mem s) (freelist s') ps"
  proof (rule chain_cong)
    fix p assume "p \<in> set ps"
    then have "PGALIGNED p" "p \<notin> P" using assms(1,4) by (auto simp: free_pages_def managed_def)
    then show "ld64 (mem s') p = ld64 (mem s) p"
      using only_in_ld64 [OF assms(2,3), of p 0] by simp
  qed
  then show ?thesis using assms(1,6) only_memory_managed(1) [OF assms(5)] by (simp add: free_pages_def)
qed

lemma vm_ok_only_in:
  assumes ok: "vm_ok s root ps" and "only_in P (mem s) (mem s')" and "\<forall>t \<in> P. PGALIGNED t"
    and "P \<inter> set ps = {}" and "P \<inter> tables (mem s) root = {}" and om: "only_memory s s'"
    and "freelist s' = freelist s"
  shows "vm_ok s' root ps" and "entry (mem s') root va = entry (mem s) root va"
    and "tables (mem s') root = tables (mem s) root" and "leaf_table (mem s') root va = leaf_table (mem s) root va"
proof -
  have "same_entries (tables (mem s) root) (mem s) (mem s')"
    by (rule only_in_same_entries [OF assms(2,3)]) (use vm_okD(8) [OF ok] assms(5) in auto)
  note c = entries_cong [OF this]
  show "entry (mem s') root va = entry (mem s) root va" "tables (mem s') root = tables (mem s) root"
    "leaf_table (mem s') root va = leaf_table (mem s) root va"
    by (rule c)+
  show "vm_ok s' root ps"
    using ok free_pages_only_in [OF vm_okD(6) [OF ok] assms(2,3,4) om assms(7)] only_memory_managed [OF om]
      only_memory_sel(8,9) [OF om]
    by (simp add: vm_ok_def c)
qed

section \<open>Taking a page\<close>

lemma vm_alloc:
  assumes ok: "vm_ok s root (q # ps)"
  obtains s1 where "kallocpage s = Inr (KVA_TO_PA q, s1)" "only_memory s s1"
    "mem s1 = fill_page (mem s) q 0xaf" "only_in {q} (mem s) (mem s1)" "free_pages s1 ps" "vm_ok s1 root ps"
    "entry (mem s1) root = entry (mem s) root" "tables (mem s1) root = tables (mem s) root"
    "leaf_table (mem s1) root = leaf_table (mem s) root"
    "\<And>p. path_ok p \<Longrightarrow> table_at (mem s1) root p = table_at (mem s) root p" "PGALIGNED q" "q \<noteq> 0"
    "page_mapped s1 q" "KVA_TO_PA q \<noteq> 0" "q \<notin> set ps"
proof -
  have q: "managed s q" "q \<noteq> 0" "freelist s = q" "PGALIGNED q" "q \<notin> set ps"
    using vm_okD(6,3) [OF ok] by (auto simp: free_pages_def managed_def)
  have pm: "page_mapped s q" using q(1) vm_okD(3) [OF ok] by (simp add: arena_ok_def)
  define s1 where "s1 = s\<lparr>smp := settle (smp s), mem := fill_page (mem s) q 0xaf, freelist := ld64 (mem s) q\<rparr>"
  have run: "kallocpage s = Inr (KVA_TO_PA q, s1)"
    using kallocpage_eq [OF vm_okD(4,5) [OF ok] q(3,2) pm] by (simp add: s1_def)
  have om: "only_memory s s1" unfolding s1_def by (rule only_memoryI) simp
  have oi: "only_in {q} (mem s) (mem s1)" by (simp add: only_in_def s1_def fill_page_def)
  have "same_entries (tables (mem s) root) (mem s) (mem s1)"
    by (rule only_in_same_entries [OF oi]) (use vm_okD(8,7) [OF ok] q in auto)
  note c = entries_cong [OF this] and ta = node_at_cong [OF this]
  have "chain (mem s1) (freelist s1) ps = chain (mem s) (freelist s1) ps"
    by (rule chain_outside [of q]) (use q vm_okD(10) [OF ok] in \<open>auto simp: s1_def fill_page_def managed_def\<close>)
  then have fp: "free_pages s1 ps"
    using vm_okD(6) [OF ok] only_memory_managed(1) [OF om] by (simp add: free_pages_def s1_def)
  have ok1: "vm_ok s1 root ps"
    using ok fp only_memory_managed [OF om] only_memory_sel(8,9) [OF om] by (auto simp: vm_ok_def c)
  have "entry (mem s1) root = entry (mem s) root" "leaf_table (mem s1) root = leaf_table (mem s) root"
    by (simp_all add: fun_eq_iff c)
  moreover have "mem s1 = fill_page (mem s) q 0xaf" by (simp add: s1_def)
  moreover have "page_mapped s1 q" using pm only_memory_managed(2) [OF om] by simp
  moreover have "KVA_TO_PA q \<noteq> 0" using managed_pa_nonzero vm_okD(3) [OF ok] q(1) by blast
  ultimately show thesis using that [OF run om _ oi fp ok1] c(3) ta q by blast
qed

section \<open>The walk\<close>

lemma PTE_V_or [simp]: "(x OR PTE_V) AND PTE_V \<noteq> 0"
proof
  assume "(x OR PTE_V) AND PTE_V = 0"
  then have "\<not> bit ((x OR PTE_V) AND PTE_V) 0" by simp
  then show False by (simp add: bit_simps PTE_V_def)
qed

lemma store_cell:
  assumes "page_mapped s t" and "i < 512"
  shows "store64 (slot t i) v s = Inr (s\<lparr>mem := st64 (mem s) (slot t i) v\<rparr>)"
    and "only_memory s (s\<lparr>mem := b\<rparr>)"
    and "only_in {t} m (st64 m (slot t i) v)"
  using assms by (simp_all add: store64_slot only_memory_def only_in_def st64_outside)

lemma fill_only_in: "only_in {q} m (fill_page m q c)"
  by (simp add: only_in_def fill_page_def)

lemma others_same_store:
  assumes "\<forall>x \<in> T. PGALIGNED x" and "PGALIGNED t" and "i < 512" and "same_entries T m m1"
  shows "others_same T t i m (st64 m1 (slot t i) e)"
  using assms ld64_st64_slot [of i _ t _ m1 e] by (auto simp: others_same_def same_entries_def)

text \<open>One round of the loop of \<^verbatim>\<open>walk\<close> that makes a table.\<close>

lemma grow_table:
  assumes ok: "vm_ok s root (q # ps)" and path: "path_ok (p @ [i])" and at: "table_at (mem s) root p = Some t"
    and none: "nxt (mem s) t i = None"
  obtains s1 s2 s3 where "kallocpage s = Inr (KVA_TO_PA q, s1)" "k_memset q 0 4096 s1 = Inr s2"
    "store64 (slot t i) (PA2PTE (KVA_TO_PA q) OR PTE_V) s2 = Inr s3" "q \<noteq> 0" "only_memory s s3"
    "vm_ok s3 root ps" "adds_table (mem s) (mem s3) root t i q p"
    "only_in (insert q (tables (mem s) root)) (mem s) (mem s3)"
proof -
  from vm_alloc [OF ok] obtain s1 where s1: "kallocpage s = Inr (KVA_TO_PA q, s1)" "only_memory s s1"
    "only_in {q} (mem s) (mem s1)" "vm_ok s1 root ps" "tables (mem s1) root = tables (mem s) root"
    "PGALIGNED q" "q \<noteq> 0" "page_mapped s1 q" "q \<notin> set ps"
    by metis
  have i: "i < 512" and pp: "path_ok p" using path by (simp_all add: path_ok_snoc)
  have t: "t \<in> tables (mem s) root" using pp at by (rule nodesI)
  have qT: "q \<notin> tables (mem s) root" using vm_okD(7) [OF ok] by auto
  have aT: "\<forall>x \<in> tables (mem s) root. PGALIGNED x" using vm_okD(8) [OF ok] by blast
  have tq: "t \<noteq> q" and at': "PGALIGNED t" using t qT aT by auto
  define s2 where "s2 = s1\<lparr>mem := fill_page (mem s1) q 0\<rparr>"
  define e where "e = PA2PTE (KVA_TO_PA q) OR PTE_V"
  define s3 where "s3 = s2\<lparr>mem := st64 (mem s2) (slot t i) e\<rparr>"
  have r2: "k_memset q 0 4096 s1 = Inr s2" using k_memset_page [OF s1(8), of 0] by (simp add: s2_def)
  have pm: "page_mapped s2 t"
    using vm_okD(2) [OF ok t] only_memory_managed(2) [OF s1(2)] by (simp add: s2_def page_mapped_def mapped_def)
  have r3: "store64 (slot t i) e s2 = Inr s3" using store_cell(1) [OF pm i] by (simp add: s3_def)
  have om12: "only_memory s1 s2" unfolding s2_def by (rule store_cell(2) [OF s1(8) i])
  have om23: "only_memory s2 s3" unfolding s3_def by (rule store_cell(2) [OF pm i])
  have om: "only_memory s s3" using s1(2) om12 om23 only_memory_trans by blast
  have oi2: "only_in {q} (mem s) (mem s2)"
    by (simp add: s2_def) (rule only_in_trans [OF s1(3) fill_only_in]; simp)
  have oi3: "only_in {q, t} (mem s) (mem s3)"
    by (simp add: s3_def) (rule only_in_trans [OF oi2 store_cell(3) [OF pm i]]; simp)
  have se: "same_entries (tables (mem s) root) (mem s) (mem s2)"
    by (rule only_in_same_entries [OF oi2]) (use s1(6) aT qT in auto)
  have "nxt (mem s3) t i = Some q"
    using PTE2PA_MAKE [of "KVA_TO_PA q" PTE_V] s1(6)
    by (simp add: nxt_def s3_def e_def Let_def) (simp add: PTE_V_def)
  moreover have "ld64 (mem s3) (slot q j) = 0" if "j < 512" for j
    using ld64_st64_slot [OF i that at' s1(6), of "mem s2" e] tq ld64_fill_same [OF that]
    by (simp add: s3_def s2_def)
  ultimately have A: "adds_table (mem s) (mem s3) root t i q p"
    using vm_okD(1) [OF ok] path at none qT others_same_store [OF aT at' i se, of e]
    by (simp add: adds_node_def s3_def)
  have fl: "freelist s3 = freelist s1" by (simp add: s3_def s2_def)
  have oi13: "only_in {q, t} (mem s1) (mem s3)"
  proof -
    have "only_in {q, t} (mem s1) (st64 (fill_page (mem s1) q 0) (slot t i) e)"
      by (rule only_in_trans [OF fill_only_in store_cell(3) [OF pm i]]) auto
    then show ?thesis by (simp add: s3_def s2_def)
  qed
  have "free_pages s3 ps"
    by (rule free_pages_only_in [OF vm_okD(6) [OF s1(4)] oi13])
      (use s1(6,9) at' t vm_okD(7) [OF ok] om12 om23 fl only_memory_trans in auto)
  moreover have "\<forall>x \<in> tables (mem s3) root. page_mapped s3 x"
    using user_tree.nodes_added [OF A] vm_okD(2) [OF ok] s1(8) only_memory_managed(2) [OF om]
      only_memory_managed(2) [OF s1(2)] by auto
  ultimately have "vm_ok s3 root ps"
    using user_tree.tree_wf_added [OF A] user_tree.nodes_added [OF A] only_memory_managed(3) [OF om] only_memory_sel(8,9) [OF om]
      vm_okD(3,4,5,7,11) [OF ok] s1(7,9)
    by (simp add: vm_ok_def)
  moreover have "only_in (insert q (tables (mem s) root)) (mem s) (mem s3)"
    by (rule only_in_mono [OF oi3]) (use t in auto)
  ultimately show thesis using that [OF s1(1) r2 r3 [unfolded e_def] s1(7) om] A by blast
qed

fun vpath :: "nat \<Rightarrow> u64 \<Rightarrow> u64 list" where
  "vpath 0 va = []"
| "vpath (Suc l) va = PX (Suc l) va # vpath l va"

lemma vpath_2: "vpath 2 va = va_path va"
  by (simp add: numeral_2_eq_2 va_path_def)

lemma nxt_load:
  "nxt m t i = (if ld64 m (slot t i) AND PTE_V \<noteq> 0 then Some (PA_TO_KVA (PTE2PA (ld64 m (slot t i)))) else None)"
  by (simp add: nxt_def Let_def)

lemma path_step:
  assumes "path_ok p" and "length p + Suc l = 2"
  shows "path_ok (p @ [PX (Suc l) va])"
  using assms by (simp add: path_ok_snoc PX_less)

text \<open>Reading: the walk ends at the leaf, or with 0 where a table is missing.\<close>

lemma walk_from_read:
  assumes "pt_wf (mem s) root" and "\<And>x. x \<in> tables (mem s) root \<Longrightarrow> page_mapped s x"
  shows "table_at (mem s) root p = Some t \<Longrightarrow> path_ok p \<Longrightarrow> length p + l = 2 \<Longrightarrow>
    walk_from l t va False s =
      Inr (case table_at (mem s) t (vpath l va) of None \<Rightarrow> 0 | Some r \<Rightarrow> slot r (PX 0 va), s)"
proof (induction l arbitrary: t p)
  case 0
  then show ?case by simp
next
  case (Suc l)
  have pm: "page_mapped s t" using assms(2) nodesI Suc.prems(1,2) by blast
  have p': "path_ok (p @ [PX (Suc l) va])" using path_step Suc.prems(2,3) by blast
  show ?case
  proof (cases "nxt (mem s) t (PX (Suc l) va)")
    case None
    then show ?thesis
      using load64_slot [OF pm PX_less] by (simp add: nxt_load Let_def split: if_splits)
  next
    case (Some q)
    then have "table_at (mem s) root (p @ [PX (Suc l) va]) = Some q"
      using Suc.prems(1) by (simp add: node_at_snoc)
    from Suc.IH [OF this p'] Suc.prems(3) Some show ?thesis
      using load64_slot [OF pm PX_less] by (simp add: nxt_load Let_def split: if_splits)
  qed
qed

lemma walk_read:
  assumes "vm_ok s (mm_pgt (mms s mm)) ps" and "IS_USER_VA va"
  shows "walk mm va False s =
    Inr (case leaf_table (mem s) (mm_pgt (mms s mm)) va of None \<Rightarrow> 0 | Some r \<Rightarrow> slot r (PX 0 va), s)"
  using walk_from_read [OF vm_okD(1,2) [OF assms(1)], of "[]" _ 2] assms(2)
  by (simp add: walk_def vpath_2 leaf_table_def)

text \<open>Making tables: no entry changes, and the new tables are the first pages of the free list.\<close>

definition grown :: "kst \<Rightarrow> u64 \<Rightarrow> u64 list \<Rightarrow> nat \<Rightarrow> kst \<Rightarrow> bool" where
  "grown s root ps k s' \<longleftrightarrow>
     only_memory s s' \<and> vm_ok s' root (drop k ps) \<and> k \<le> length ps \<and>
     entry (mem s') root = entry (mem s) root \<and>
     tables (mem s') root = tables (mem s) root \<union> set (take k ps) \<and>
     only_in (tables (mem s') root) (mem s) (mem s')"

lemma grown_refl: "vm_ok s root ps \<Longrightarrow> grown s root ps 0 s"
  by (simp add: grown_def)

lemma grown_trans:
  assumes "grown s root ps k s1" and "grown s1 root (drop k ps) j s2"
  shows "grown s root ps (k + j) s2"
proof -
  have "set (take (k + j) ps) = set (take k ps) \<union> set (take j (drop k ps))"
    by (metis set_append take_add)
  moreover have "only_in (tables (mem s2) root) (mem s) (mem s2)"
  proof (rule only_in_trans)
    show "only_in (tables (mem s1) root) (mem s) (mem s1)" "only_in (tables (mem s2) root) (mem s1) (mem s2)"
      using assms unfolding grown_def by blast+
    show "tables (mem s1) root \<subseteq> tables (mem s2) root" using assms by (auto simp: grown_def)
  qed simp
  ultimately show ?thesis
    using assms only_memory_trans by (auto simp: grown_def add.commute)
qed

lemma grown_table:
  assumes "vm_ok s root (q # ps)" and "only_memory s s'" and "vm_ok s' root ps"
    and A: "adds_table (mem s) (mem s') root t i q p" and "only_in (insert q (tables (mem s) root)) (mem s) (mem s')"
  shows "grown s root (q # ps) 1 s'"
  using assms user_tree.nodes_added [OF A] entry_added [OF A] by (simp add: grown_def fun_eq_iff)

lemma walk_from_alloc:
  shows "vm_ok s root ps \<Longrightarrow> table_at (mem s) root p = Some t \<Longrightarrow> path_ok p \<Longrightarrow> length p + l = 2 \<Longrightarrow>
    l \<le> length ps \<Longrightarrow>
    \<exists>s' k r. walk_from l t va True s = Inr (slot r (PX 0 va), s') \<and> grown s root ps k s' \<and> k \<le> l \<and>
      table_at (mem s') root (p @ vpath l va) = Some r"
proof (induction l arbitrary: t p s ps)
  case 0
  then show ?case using grown_refl by fastforce
next
  case (Suc l)
  define i where "i = PX (Suc l) va"
  have pm: "page_mapped s t" using vm_okD(2) [OF Suc.prems(1)] nodesI Suc.prems(2,3) by blast
  have i: "i < 512" by (simp add: i_def PX_less)
  have p': "path_ok (p @ [i])" using path_step [OF Suc.prems(3,4)] by (simp add: i_def)
  note ld = load64_slot [OF pm i]
  show ?case
  proof (cases "nxt (mem s) t i")
    case (Some q)
    then have at': "table_at (mem s) root (p @ [i]) = Some q" using Suc.prems(2) by (simp add: node_at_snoc)
    have step: "walk_from (Suc l) t va True s = walk_from l q va True s"
      using ld Some by (simp add: nxt_load Let_def i_def split: if_splits)
    have "length (p @ [i]) + l = 2" and "l \<le> length ps" using Suc.prems(4,5) by simp_all
    from Suc.IH [OF Suc.prems(1) at' p' this] obtain s' k r where
      "walk_from l q va True s = Inr (slot r (PX 0 va), s')" "grown s root ps k s'" "k \<le> l"
      "table_at (mem s') root ((p @ [i]) @ vpath l va) = Some r" by blast
    then show ?thesis unfolding step by (intro exI [of _ s'] exI [of _ k] exI [of _ r]) (simp add: i_def)
  next
    case None
    from Suc.prems(5) obtain q qs where ps: "ps = q # qs" "l \<le> length qs" by (cases ps) auto
    from grow_table [OF Suc.prems(1) [unfolded ps(1)] p' Suc.prems(2) None] obtain s1 s2 s3 where
      g: "kallocpage s = Inr (KVA_TO_PA q, s1)" "k_memset q 0 4096 s1 = Inr s2"
      "store64 (slot t i) (PA2PTE (KVA_TO_PA q) OR PTE_V) s2 = Inr s3" "q \<noteq> 0" "only_memory s s3"
      "vm_ok s3 root qs" "adds_table (mem s) (mem s3) root t i q p"
      "only_in (insert q (tables (mem s) root)) (mem s) (mem s3)" by blast
    have gr: "grown s root ps 1 s3" using grown_table [OF Suc.prems(1) [unfolded ps(1)] g(5-8)] ps(1) by simp
    have step: "walk_from (Suc l) t va True s = walk_from l q va True s3"
      using ld None g(1-4) by (simp add: nxt_load Let_def i_def [symmetric] split: if_splits)
    have at': "table_at (mem s3) root (p @ [i]) = Some q" using user_tree.node_at_added [OF g(7) p'] by simp
    have "length (p @ [i]) + l = 2" using Suc.prems(4) by simp
    from Suc.IH [OF g(6) at' p' this ps(2)] obtain s' k r where
      w: "walk_from l q va True s3 = Inr (slot r (PX 0 va), s')" "grown s3 root qs k s'" "k \<le> l"
      "table_at (mem s') root ((p @ [i]) @ vpath l va) = Some r" by blast
    have "grown s root ps (1 + k) s'" using grown_trans [OF gr, of k s'] w(2) ps(1) by simp
    then show ?thesis
      unfolding step using w by (intro exI [of _ s'] exI [of _ "1 + k"] exI [of _ r]) (simp add: i_def)
  qed
qed

lemma walk_alloc:
  assumes ok: "vm_ok s (mm_pgt (mms s mm)) ps" and "IS_USER_VA va" and "2 \<le> length ps"
  obtains s' k r where "walk mm va True s = Inr (slot r (PX 0 va), s')" "grown s (mm_pgt (mms s mm)) ps k s'"
    "k \<le> 2" "leaf_table (mem s') (mm_pgt (mms s mm)) va = Some r"
proof -
  from walk_from_alloc [OF ok, of "[]" _ 2 va] assms(3) obtain s' k r where
    "walk_from 2 (mm_pgt (mms s mm)) va True s = Inr (slot r (PX 0 va), s')"
    "grown s (mm_pgt (mms s mm)) ps k s'" "k \<le> 2" "table_at (mem s') (mm_pgt (mms s mm)) (vpath 2 va) = Some r"
    by auto
  then show thesis using that assms(2) by (simp add: walk_def vpath_2 leaf_table_def)
qed

text \<open>When every table is there the walk makes none.\<close>

lemma walk_alloc_present:
  assumes ok: "vm_ok s (mm_pgt (mms s mm)) ps" and "IS_USER_VA va"
    and "leaf_table (mem s) (mm_pgt (mms s mm)) va = Some r"
  shows "walk mm va True s = Inr (slot r (PX 0 va), s)"
proof -
  have "table_at (mem s) root p = Some t \<Longrightarrow> path_ok p \<Longrightarrow> length p + l = 2 \<Longrightarrow>
      table_at (mem s) t (vpath l va) = Some r \<Longrightarrow> root = mm_pgt (mms s mm) \<Longrightarrow>
      walk_from l t va True s = Inr (slot r (PX 0 va), s)" for l t p root
  proof (induction l arbitrary: t p)
    case 0
    then show ?case by simp
  next
    case (Suc l)
    have pm: "page_mapped s t" using vm_okD(2) [OF ok] nodesI Suc.prems by blast
    have p': "path_ok (p @ [PX (Suc l) va])" using path_step Suc.prems(2,3) by blast
    obtain q where q: "nxt (mem s) t (PX (Suc l) va) = Some q" "table_at (mem s) q (vpath l va) = Some r"
      using Suc.prems(4) by (auto split: option.splits)
    then have "table_at (mem s) root (p @ [PX (Suc l) va]) = Some q"
      using Suc.prems(1) by (simp add: node_at_snoc)
    from Suc.IH [OF this p' _ q(2)] Suc.prems(3,5) q(1) show ?case
      using load64_slot [OF pm PX_less] by (simp add: nxt_load Let_def split: if_splits)
  qed
  from this [of "mm_pgt (mms s mm)" "[]" _ 2] show ?thesis
    using assms by (simp add: walk_def vpath_2 leaf_table_def)
qed

section \<open>Writing an entry\<close>

lemma set_leaf:
  assumes ok: "vm_ok s root ps" and leaf: "leaf_table (mem s) root va = Some r"
  obtains s' where "store64 (slot r (PX 0 va)) e s = Inr s'" "only_memory s s'" "vm_ok s' root ps"
    "\<And>va'. entry (mem s') root va' = (if same_page va va' then e else entry (mem s) root va')"
    "tables (mem s') root = tables (mem s) root" "only_in {r} (mem s) (mem s')" "freelist s' = freelist s"
    "\<And>va'. leaf_table (mem s') root va' = leaf_table (mem s) root va'"
proof -
  have r: "r \<in> tables (mem s) root" by (rule leaf_table_in_tables [OF leaf])
  define s' where "s' = s\<lparr>mem := st64 (mem s) (slot r (PX 0 va)) e\<rparr>"
  note st = store_cell [OF vm_okD(2) [OF ok r] PX_less]
  have om: "only_memory s s'" unfolding s'_def by (rule st(2))
  have oi: "only_in {r} (mem s) (mem s')" using st(3) by (simp add: s'_def)
  have "others_same (tables (mem s) root) r (PX 0 va) (mem s) (mem s')"
    using others_same_store [of "tables (mem s) root" r "PX 0 va" "mem s" "mem s" e] vm_okD(8) [OF ok] r
    by (simp add: s'_def PX_less same_entries_def)
  then have W: "writes_leaf (mem s) (mem s') root r va e"
    using vm_okD(1) [OF ok] leaf by (simp add: writes_leaf_def s'_def)
  have fp: "free_pages s' ps"
    by (rule free_pages_only_in [OF vm_okD(6) [OF ok] oi _ _ om])
      (use vm_okD(7,8) [OF ok] r in \<open>auto simp: s'_def\<close>)
  have "vm_ok s' root ps"
    using ok fp only_memory_managed [OF om] only_memory_sel(8,9) [OF om] wf_written [OF W] tables_written [OF W]
    by (simp add: vm_ok_def)
  moreover have "leaf_table (mem s') root va' = leaf_table (mem s) root va'" for va'
    using table_at_written [OF W] by (simp add: leaf_table_def)
  ultimately show thesis
    using that [of s'] st(1) om oi entry_written [OF W] tables_written [OF W] by (simp add: s'_def)
qed

section \<open>Translation\<close>

lemma slot_nonzero: "PGALIGNED r \<Longrightarrow> r \<noteq> 0 \<Longrightarrow> i < 512 \<Longrightarrow> slot r i \<noteq> 0"
proof
  assume "PGALIGNED r" "r \<noteq> 0" "i < 512" "slot r i = 0"
  then have "PGROUNDDOWN 0 = r" using slot_in_page [of i r] in_page_PGROUNDDOWN [of r] by simp
  then show False using \<open>r \<noteq> 0\<close> PGROUNDDOWN_aligned [of 0] by simp
qed

lemma leaf_nonzero:
  "vm_ok s root ps \<Longrightarrow> leaf_table (mem s) root va = Some r \<Longrightarrow> slot r (PX 0 va) \<noteq> 0"
  using leaf_table_in_tables vm_okD(8,11) slot_nonzero PX_less by metis

lemma load_leaf:
  "vm_ok s root ps \<Longrightarrow> leaf_table (mem s) root va = Some r \<Longrightarrow>
    load64 (slot r (PX 0 va)) s = Inr (entry (mem s) root va)"
  using leaf_table_in_tables [of "mem s" root va r] vm_okD(2) load64_slot [of s r "PX 0 va"] PX_less
  by (simp add: entry_def)

text \<open>The physical page that a user address translates to; 0 when it is not mapped for the user.\<close>

definition user_pa :: "mem \<Rightarrow> u64 \<Rightarrow> u64 \<Rightarrow> u64" where
  "user_pa m root va =
     (let e = entry m root va in if e AND PTE_V \<noteq> 0 \<and> e AND PTE_U \<noteq> 0 then PTE2PA e else 0)"

lemma walkaddr_eq:
  assumes "vm_ok s (mm_pgt (mms s mm)) ps" and "IS_USER_VA va" and "PGALIGNED va"
  shows "walkaddr mm va s = Inr (user_pa (mem s) (mm_pgt (mms s mm)) va, s)"
proof (cases "leaf_table (mem s) (mm_pgt (mms s mm)) va")
  case None
  then show ?thesis
    using assms walk_read [OF assms(1,2)] by (simp add: walkaddr_def user_pa_def entry_def)
next
  case (Some r)
  then show ?thesis
    using assms walk_read [OF assms(1,2)] leaf_nonzero [OF assms(1) Some] load_leaf [OF assms(1) Some]
    by (simp add: walkaddr_def user_pa_def Let_def)
qed

lemma IS_USER_VA_rounddown: "IS_USER_VA va \<Longrightarrow> IS_USER_VA (PGROUNDDOWN va)"
  using PGROUNDDOWN_le [of va] by (simp add: IS_USER_VA_def)

lemma same_page_iff:
  assumes "PGALIGNED va" and "PGALIGNED va'" and "IS_USER_VA va" and "IS_USER_VA va'"
  shows "same_page va va' \<longleftrightarrow> va = va'"
  using PX_determines_page [of va va'] assms IS_USER_VA_less
  by (auto simp: same_page_def va_path_def)

section \<open>Mapping a range\<close>

definition leaf_pte :: "u64 \<Rightarrow> u64 \<Rightarrow> u64" where
  "leaf_pte q flags = PA2PTE (KVA_TO_PA q) OR flags OR PTE_V"

lemma leaf_pte_pa: "PGALIGNED q \<Longrightarrow> f < 1024 \<Longrightarrow> PA_TO_KVA (PTE2PA (leaf_pte q f)) = q"
proof -
  assume q: "PGALIGNED q" and f: "f < 1024"
  have "f OR PTE_V < 2 ^ 10"
    by (rule word_or_less) (use f in \<open>simp_all add: PTE_V_def\<close>)
  then show ?thesis using PTE2PA_MAKE [of "KVA_TO_PA q" "f OR PTE_V"] q by (simp add: leaf_pte_def or.assoc)
qed

text \<open>
  The pages \<open>vs\<close> are mapped, in their order, to the pages \<open>pgs\<close> with flags \<open>f\<close>; these and the new
  tables are the first \<open>k\<close> of the free list.
\<close>

definition mapped_range ::
  "kst \<Rightarrow> u64 \<Rightarrow> u64 list \<Rightarrow> u64 list \<Rightarrow> u64 \<Rightarrow> u64 list \<Rightarrow> nat \<Rightarrow> kst \<Rightarrow> bool" where
  "mapped_range s root ps vs f pgs k s' \<longleftrightarrow>
     only_memory s s' \<and> vm_ok s' root (drop k ps) \<and> k \<le> length ps \<and>
     length pgs = length vs \<and> distinct pgs \<and> set pgs \<subseteq> set (take k ps) \<and>
     tables (mem s') root \<union> set pgs = tables (mem s) root \<union> set (take k ps) \<and>
     set pgs \<inter> tables (mem s') root = {} \<and>
     (\<forall>va. PGALIGNED va \<longrightarrow> IS_USER_VA va \<longrightarrow> entry (mem s') root va =
        (case map_of (zip vs pgs) va of Some q \<Rightarrow> leaf_pte q f | None \<Rightarrow> entry (mem s) root va)) \<and>
     only_in (tables (mem s') root \<union> set pgs) (mem s) (mem s')"

lemma mapped_range_Nil: "vm_ok s root ps \<Longrightarrow> mapped_range s root ps [] f [] 0 s"
  by (simp add: mapped_range_def)

text \<open>One round of the loop of \<^verbatim>\<open>mm_mappages\<close>.\<close>

lemma map_one:
  assumes ok: "vm_ok s (mm_pgt (mms s mm)) ps" and va: "IS_USER_VA va" "PGALIGNED va"
    and inval: "entry (mem s) (mm_pgt (mms s mm)) va AND PTE_V = 0" and len: "3 \<le> length ps"
  obtains s1 s2 s3 k r q where
    "walk mm va True s = Inr (slot r (PX 0 va), s1)" "slot r (PX 0 va) \<noteq> 0"
    "load64 (slot r (PX 0 va)) s1 = Inr (entry (mem s) (mm_pgt (mms s mm)) va)"
    "kallocpage s1 = Inr (KVA_TO_PA q, s2)" "KVA_TO_PA q \<noteq> 0" "vmas s2 = vmas s"
    "store64 (slot r (PX 0 va)) (leaf_pte q f) s2 = Inr s3"
    "mapped_range s (mm_pgt (mms s mm)) ps [va] f [q] (Suc k) s3" "k \<le> 2"
proof -
  define root where "root = mm_pgt (mms s mm)"
  have "2 \<le> length ps" using len by simp
  from walk_alloc [OF ok va(1) this] obtain s1 k r where w:
    "walk mm va True s = Inr (slot r (PX 0 va), s1)" "grown s root ps k s1" "k \<le> 2"
    "leaf_table (mem s1) root va = Some r"
    unfolding root_def by metis
  have g: "only_memory s s1" "vm_ok s1 root (drop k ps)" "entry (mem s1) root = entry (mem s) root"
    "tables (mem s1) root = tables (mem s) root \<union> set (take k ps)" "only_in (tables (mem s1) root) (mem s) (mem s1)"
    using w(2) by (auto simp: grown_def)
  obtain q where q: "drop k ps = q # drop (Suc k) ps" "k < length ps"
    using w(3) len by (metis Cons_nth_drop_Suc le_less_trans less_le_trans numeral_2_eq_2 numeral_3_eq_3 lessI)
  from vm_alloc [OF g(2) [unfolded q(1)]] obtain s2 where a: "kallocpage s1 = Inr (KVA_TO_PA q, s2)"
    "only_memory s1 s2" "only_in {q} (mem s1) (mem s2)" "vm_ok s2 root (drop (Suc k) ps)"
    "entry (mem s2) root = entry (mem s1) root" "tables (mem s2) root = tables (mem s1) root"
    "leaf_table (mem s2) root = leaf_table (mem s1) root" "KVA_TO_PA q \<noteq> 0" "q \<notin> set (drop (Suc k) ps)" "PGALIGNED q"
    by metis
  have "leaf_table (mem s2) root va = Some r" using a(7) w(4) by simp
  from set_leaf [OF a(4) this, of "leaf_pte q f"] obtain s3 where st:
    "store64 (slot r (PX 0 va)) (leaf_pte q f) s2 = Inr s3" "only_memory s2 s3" "vm_ok s3 root (drop (Suc k) ps)"
    "\<And>va'. entry (mem s3) root va' = (if same_page va va' then leaf_pte q f else entry (mem s2) root va')"
    "tables (mem s3) root = tables (mem s2) root" "only_in {r} (mem s2) (mem s3)"
    by metis
  have qT: "q \<notin> tables (mem s3) root" using vm_okD(7) [OF g(2)] q(1) st(5) a(6) by auto
  have rT: "r \<in> tables (mem s3) root"
    using leaf_table_in_tables [OF w(4)] st(5) a(6) by simp
  have tk: "set (take (Suc k) ps) = insert q (set (take k ps))"
    using q by (simp add: take_Suc_conv_app_nth nth_via_drop)
  have "mapped_range s root ps [va] f [q] (Suc k) s3"
    unfolding mapped_range_def
  proof (intro conjI allI impI)
    show "only_memory s s3" using g(1) a(2) st(2) only_memory_trans by blast
    show "tables (mem s3) root \<union> set [q] = tables (mem s) root \<union> set (take (Suc k) ps)"
      using st(5) a(6) g(4) tk by auto
    fix va' assume "PGALIGNED va'" "IS_USER_VA va'"
    then show "entry (mem s3) root va' =
        (case map_of (zip [va] [q]) va' of Some q \<Rightarrow> leaf_pte q f | None \<Rightarrow> entry (mem s) root va')"
      using st(4) [of va'] same_page_iff [OF va(2) _ va(1)] a(5) g(3) by auto
  next
    have "only_in (tables (mem s3) root \<union> set [q]) (mem s) (mem s2)"
      by (rule only_in_trans [OF g(5) a(3)]) (use st(5) a(6) in auto)
    then show "only_in (tables (mem s3) root \<union> set [q]) (mem s) (mem s3)"
      by (rule only_in_trans [OF _ st(6)]) (use rT in auto)
  qed (use st(3) q tk qT in auto)
  moreover have "slot r (PX 0 va) \<noteq> 0" by (rule leaf_nonzero [OF g(2) w(4)])
  moreover have "load64 (slot r (PX 0 va)) s1 = Inr (entry (mem s) root va)"
    using load_leaf [OF g(2) w(4)] g(3) by simp
  moreover have "vmas s2 = vmas s" using only_memory_sel(4) g(1) a(2) by metis
  ultimately show thesis using that w(1,3) a(1,8) st(1) unfolding root_def by blast
qed

lemma mapped_range_Cons:
  assumes m1: "mapped_range s root ps [va] f [q] k s1" and m2: "mapped_range s1 root (drop k ps) vs f pgs j s2"
    and "va \<notin> set vs" and d: "distinct ps"
  shows "mapped_range s root ps (va # vs) f (q # pgs) (k + j) s2"
proof -
  have q: "q \<in> set (take k ps)" "q \<notin> tables (mem s1) root"
    and t1: "insert q (tables (mem s1) root) = tables (mem s) root \<union> set (take k ps)"
    and e1: "\<And>va'. PGALIGNED va' \<Longrightarrow> IS_USER_VA va' \<Longrightarrow>
      entry (mem s1) root va' = (if va' = va then leaf_pte q f else entry (mem s) root va')"
    and o1: "only_in (insert q (tables (mem s1) root)) (mem s) (mem s1)"
    using m1 by (auto simp: mapped_range_def)
  have p: "length pgs = length vs" "distinct pgs" "set pgs \<subseteq> set (take j (drop k ps))"
    and t2: "tables (mem s2) root \<union> set pgs = tables (mem s1) root \<union> set (take j (drop k ps))"
    and o2: "only_in (tables (mem s2) root \<union> set pgs) (mem s1) (mem s2)"
    using m2 by (auto simp: mapped_range_def)
  have tk: "set (take (k + j) ps) = set (take k ps) \<union> set (take j (drop k ps))"
    by (metis set_append take_add)
  have "set (take k ps) \<inter> set (drop k ps) = {}" using d by (simp add: set_take_disj_set_drop_if_distinct)
  then have qd: "q \<notin> set (take j (drop k ps))" using q(1) by (meson disjoint_iff in_set_takeD)
  have qT: "q \<notin> tables (mem s2) root" using t2 q(2) qd by auto
  have none: "map_of (zip vs pgs) va = None" using assms(3) p(1) by (simp add: map_of_zip_is_None)
  show ?thesis
    unfolding mapped_range_def
  proof (intro conjI allI impI)
    show "only_memory s s2" using m1 m2 only_memory_trans by (auto simp: mapped_range_def)
    show "vm_ok s2 root (drop (k + j) ps)" "k + j \<le> length ps"
      using m1 m2 by (auto simp: mapped_range_def add.commute)
    show "distinct (q # pgs)" using p qd by auto
    show "set (q # pgs) \<subseteq> set (take (k + j) ps)" using p(3) q(1) tk by auto
    show "tables (mem s2) root \<union> set (q # pgs) = tables (mem s) root \<union> set (take (k + j) ps)"
      using t1 t2 tk by auto
    show "set (q # pgs) \<inter> tables (mem s2) root = {}" using m2 qT by (auto simp: mapped_range_def)
    fix va' assume va': "PGALIGNED va'" "IS_USER_VA va'"
    have e2: "entry (mem s2) root va' = (case map_of (zip vs pgs) va' of
        Some q \<Rightarrow> leaf_pte q f | None \<Rightarrow> entry (mem s1) root va')"
      using m2 va' by (simp add: mapped_range_def)
    show "entry (mem s2) root va' = (case map_of (zip (va # vs) (q # pgs)) va' of
        Some q \<Rightarrow> leaf_pte q f | None \<Rightarrow> entry (mem s) root va')"
    proof (cases "va' = va")
      case True
      then show ?thesis using e2 e1 [OF va'] by (simp only: none option.simps) simp
    next
      case False
      then show ?thesis using e2 e1 [OF va'] by (simp split: option.split)
    qed
  next
    show "only_in (tables (mem s2) root \<union> set (q # pgs)) (mem s) (mem s2)"
      by (rule only_in_trans [OF o1 o2]) (use t1 t2 q in auto)
  qed (use p in simp)
qed

text \<open>The whole loop, when nothing in the range is mapped and there are pages enough.\<close>

lemma map_loop_ok:
  assumes "vm_ok s (mm_pgt (mms s mm)) ps" and "distinct vs"
    and "\<And>va. va \<in> set vs \<Longrightarrow> IS_USER_VA va \<and> PGALIGNED va \<and> entry (mem s) (mm_pgt (mms s mm)) va AND PTE_V = 0"
    and "3 * length vs \<le> length ps" and "vma_owner (vmas s vma) = mm" and "pte_flags (vmas s vma) = f"
  shows "\<exists>s' k pgs. map_loop vma vs s = Inr (0, s') \<and> mapped_range s (mm_pgt (mms s mm)) ps vs f pgs k s'
    \<and> k \<le> 3 * length vs"
  using assms
proof (induction vs arbitrary: s ps)
  case Nil
  then show ?case using mapped_range_Nil by fastforce
next
  case (Cons va vs)
  define root where "root = mm_pgt (mms s mm)"
  have va: "IS_USER_VA va" "PGALIGNED va" "entry (mem s) root va AND PTE_V = 0" "va \<notin> set vs" "3 \<le> length ps"
    using Cons.prems by (auto simp: root_def)
  from map_one [OF Cons.prems(1) va(1,2) va(3) [unfolded root_def] va(5), of f] obtain s1 s2 s3 k r q where o:
    "walk mm va True s = Inr (slot r (PX 0 va), s1)" "slot r (PX 0 va) \<noteq> 0"
    "load64 (slot r (PX 0 va)) s1 = Inr (entry (mem s) root va)"
    "kallocpage s1 = Inr (KVA_TO_PA q, s2)" "KVA_TO_PA q \<noteq> 0" "vmas s2 = vmas s"
    "store64 (slot r (PX 0 va)) (leaf_pte q f) s2 = Inr s3"
    "mapped_range s root ps [va] f [q] (Suc k) s3" "k \<le> 2"
    unfolding root_def by metis
  have om: "only_memory s s3" and ok3: "vm_ok s3 root (drop (Suc k) ps)"
    and e3: "\<And>va'. PGALIGNED va' \<Longrightarrow> IS_USER_VA va' \<Longrightarrow>
      entry (mem s3) root va' = (if va' = va then leaf_pte q f else entry (mem s) root va')"
    using o(8) by (auto simp: mapped_range_def)
  note sel = only_memory_sel(3,4) [OF om]
  have step: "map_loop vma (va # vs) s = map_loop vma vs s3"
    using o(1-7) va(3) Cons.prems(5,6) by (simp add: leaf_pte_def)
  have "\<exists>s' j pgs. map_loop vma vs s3 = Inr (0, s') \<and> mapped_range s3 root (drop (Suc k) ps) vs f pgs j s'
    \<and> j \<le> 3 * length vs"
    unfolding root_def sel(1) [symmetric]
  proof (rule Cons.IH)
    show "vm_ok s3 (mm_pgt (mms s3 mm)) (drop (Suc k) ps)" using ok3 by (simp add: sel root_def)
    show "IS_USER_VA v \<and> PGALIGNED v \<and> entry (mem s3) (mm_pgt (mms s3 mm)) v AND PTE_V = 0" if "v \<in> set vs" for v
      using that Cons.prems(3) [of v] e3 [of v] va(4) by (auto simp: sel root_def)
  qed (use Cons.prems o(9) in \<open>auto simp: sel\<close>)
  then obtain s' j pgs where r: "map_loop vma vs s3 = Inr (0, s')"
    "mapped_range s3 root (drop (Suc k) ps) vs f pgs j s'" "j \<le> 3 * length vs" by blast
  have "mapped_range s root ps (va # vs) f (q # pgs) (Suc k + j) s'"
    by (rule mapped_range_Cons [OF o(8) r(2) va(4) vm_okD(9) [OF Cons.prems(1)]])
  then show ?case using step r(1,3) o(9) unfolding root_def
    by (intro exI [of _ s'] exI [of _ "Suc k + j"] exI [of _ "q # pgs"]) simp
qed

section \<open>Giving a page back\<close>

lemma vm_free:
  assumes ok: "vm_ok s root ps" and q: "managed s q" "q \<notin> tables (mem s) root" "q \<notin> set ps"
  obtains s1 where "kfreepage (KVA_TO_PA q) s = Inr s1" "only_memory s s1" "only_in {q} (mem s) (mem s1)"
    "vm_ok s1 root (q # ps)" "\<And>va. entry (mem s1) root va = entry (mem s) root va"
    "tables (mem s1) root = tables (mem s) root"
    "\<And>va. leaf_table (mem s1) root va = leaf_table (mem s) root va"
proof -
  have pm: "page_mapped s q" using q(1) vm_okD(3) [OF ok] by (simp add: arena_ok_def)
  have al: "PGALIGNED q" using q(1) by (simp add: managed_def)
  define s1 where "s1 = s\<lparr>smp := settle (smp s), mem := st64 (fill_page (mem s) q 0xdd) q (freelist s), freelist := q\<rparr>"
  have run: "kfreepage (KVA_TO_PA q) s = Inr s1"
    using kfreepage_eq [OF vm_okD(4,5) [OF ok] q(1) pm] by (simp add: s1_def)
  have om: "only_memory s s1" unfolding s1_def by (rule only_memoryI) simp
  have oi: "only_in {q} (mem s) (mem s1)" by (simp add: only_in_def s1_def free_outside)
  have "same_entries (tables (mem s) root) (mem s) (mem s1)"
    by (rule only_in_same_entries [OF oi]) (use vm_okD(8) [OF ok] q al in auto)
  note c = entries_cong [OF this]
  have "chain (mem s1) (freelist s) ps = chain (mem s) (freelist s) ps"
    by (rule chain_outside [of q])
      (use q al vm_okD(10) [OF ok] in \<open>auto simp: s1_def free_outside managed_def\<close>)
  moreover have "ld64 (mem s1) q = freelist s" by (simp add: s1_def)
  moreover have "q \<noteq> 0" using managed_nonzero vm_okD(3) [OF ok] q(1) by blast
  ultimately have "free_pages s1 (q # ps)"
    using vm_okD(6) [OF ok] q only_memory_managed(1) [OF om] by (simp add: free_pages_def s1_def)
  then have "vm_ok s1 root (q # ps)"
    using ok q only_memory_managed [OF om] only_memory_sel(8,9) [OF om] by (auto simp: vm_ok_def c)
  then show thesis using that [OF run om oi] c by blast
qed

definition page_of :: "mem \<Rightarrow> u64 \<Rightarrow> u64 \<Rightarrow> u64" where
  "page_of m root va = PA_TO_KVA (PTE2PA (entry m root va))"

lemma entry_valid_leaf: "entry m root va AND PTE_V \<noteq> 0 \<Longrightarrow> \<exists>r. leaf_table m root va = Some r"
  by (cases "leaf_table m root va") (auto simp: entry_def)

lemma freevma_page_eq:
  assumes ok: "vm_ok s (mm_pgt (mms s mm)) ps" and va: "IS_USER_VA va" and root: "root = mm_pgt (mms s mm)"
    and v: "entry (mem s) root va AND PTE_V \<noteq> 0"
    and q: "managed s (page_of (mem s) root va)" "page_of (mem s) root va \<notin> tables (mem s) root"
      "page_of (mem s) root va \<notin> set ps"
  obtains s' where "freevma_page mm True va s = Inr s'" "only_memory s s'"
    "vm_ok s' root (page_of (mem s) root va # ps)"
    "\<And>va'. entry (mem s') root va' = (if same_page va va' then 0 else entry (mem s) root va')"
    "tables (mem s') root = tables (mem s) root"
    "only_in (insert (page_of (mem s) root va) (tables (mem s) root)) (mem s) (mem s')"
proof -
  from entry_valid_leaf [OF v] obtain r where r: "leaf_table (mem s) root va = Some r" by blast
  have ok': "vm_ok s root ps" using ok root by simp
  from vm_free [OF ok' q] obtain s1 where f: "kfreepage (PTE2PA (entry (mem s) root va)) s = Inr s1"
    "only_memory s s1" "only_in {page_of (mem s) root va} (mem s) (mem s1)"
    "vm_ok s1 root (page_of (mem s) root va # ps)" "\<And>va. entry (mem s1) root va = entry (mem s) root va"
    "tables (mem s1) root = tables (mem s) root" "\<And>va. leaf_table (mem s1) root va = leaf_table (mem s) root va"
    by (metis page_of_def PA_KVA_inverse(2))
  have r1: "leaf_table (mem s1) root va = Some r" using f(7) r by simp
  from set_leaf [OF f(4) r1, of 0] obtain s' where st: "store64 (slot r (PX 0 va)) 0 s1 = Inr s'"
    "only_memory s1 s'" "vm_ok s' root (page_of (mem s) root va # ps)"
    "\<And>va'. entry (mem s') root va' = (if same_page va va' then 0 else entry (mem s1) root va')"
    "tables (mem s') root = tables (mem s1) root" "only_in {r} (mem s1) (mem s')"
    by metis
  have "freevma_page mm True va s = Inr s'"
    using walk_read [OF ok va] r root leaf_nonzero [OF ok' r] load_leaf [OF ok' r] f(1) st(1)
    by (simp add: freevma_page_def)
  moreover have "only_in (insert (page_of (mem s) root va) (tables (mem s) root)) (mem s) (mem s')"
    by (rule only_in_trans [OF f(3) st(6)]) (use leaf_table_in_tables [OF r] in auto)
  ultimately show thesis using that [of s'] f st only_memory_trans by metis
qed

text \<open>Freeing the pages \<open>vs\<close>: their entries become 0 and their pages go to the free list.\<close>

lemma freevma_loop:
  assumes "vm_ok s (mm_pgt (mms s mm)) ps" and "root = mm_pgt (mms s mm)" and "distinct vs"
    and "\<And>va. va \<in> set vs \<Longrightarrow> IS_USER_VA va \<and> PGALIGNED va \<and> entry (mem s) root va AND PTE_V \<noteq> 0
      \<and> managed s (page_of (mem s) root va) \<and> page_of (mem s) root va \<notin> tables (mem s) root
      \<and> page_of (mem s) root va \<notin> set ps"
    and "inj_on (page_of (mem s) root) (set vs)"
  shows "\<exists>s'. kfold (freevma_page mm True) vs s = Inr s' \<and> only_memory s s' \<and>
    vm_ok s' root (rev (map (page_of (mem s) root) vs) @ ps) \<and>
    (\<forall>va. PGALIGNED va \<longrightarrow> IS_USER_VA va \<longrightarrow>
      entry (mem s') root va = (if va \<in> set vs then 0 else entry (mem s) root va)) \<and>
    tables (mem s') root = tables (mem s) root \<and>
    only_in (page_of (mem s) root ` set vs \<union> tables (mem s) root) (mem s) (mem s')"
  using assms
proof (induction vs arbitrary: s ps)
  case Nil
  then show ?case by simp
next
  case (Cons va vs)
  define q where "q = page_of (mem s) root va"
  have va: "IS_USER_VA va" "PGALIGNED va" "entry (mem s) root va AND PTE_V \<noteq> 0" "managed s q"
    "q \<notin> tables (mem s) root" "q \<notin> set ps"
    using Cons.prems(4) [of va] by (auto simp: q_def)
  from freevma_page_eq [OF Cons.prems(1) va(1) Cons.prems(2) va(3) va(4-6) [unfolded q_def]] obtain s1 where s1:
    "freevma_page mm True va s = Inr s1" "only_memory s s1" "vm_ok s1 root (q # ps)"
    "\<And>va'. entry (mem s1) root va' = (if same_page va va' then 0 else entry (mem s) root va')"
    "tables (mem s1) root = tables (mem s) root" "only_in (insert q (tables (mem s) root)) (mem s) (mem s1)"
    unfolding q_def by metis
  note sel = only_memory_sel(3) [OF s1(2)]
  have e1: "entry (mem s1) root v = entry (mem s) root v" "page_of (mem s1) root v = page_of (mem s) root v"
    if "v \<in> set vs" for v
  proof -
    have "\<not> same_page va v" using that same_page_iff va(1,2) Cons.prems(3,4) by auto
    then show "entry (mem s1) root v = entry (mem s) root v" by (simp add: s1(4))
    then show "page_of (mem s1) root v = page_of (mem s) root v" by (simp add: page_of_def)
  qed
  have nq: "page_of (mem s) root v \<noteq> q" if "v \<in> set vs" for v
    using Cons.prems(3,5) that by (auto simp: q_def inj_on_def)
  have "\<exists>s'. kfold (freevma_page mm True) vs s1 = Inr s' \<and> only_memory s1 s' \<and>
    vm_ok s' root (rev (map (page_of (mem s1) root) vs) @ q # ps) \<and>
    (\<forall>va. PGALIGNED va \<longrightarrow> IS_USER_VA va \<longrightarrow>
      entry (mem s') root va = (if va \<in> set vs then 0 else entry (mem s1) root va)) \<and>
    tables (mem s') root = tables (mem s1) root \<and>
    only_in (page_of (mem s1) root ` set vs \<union> tables (mem s1) root) (mem s1) (mem s')"
  proof (rule Cons.IH)
    show "vm_ok s1 (mm_pgt (mms s1 mm)) (q # ps)" "root = mm_pgt (mms s1 mm)"
      using s1(3) Cons.prems(2) by (simp_all add: sel)
    show "IS_USER_VA v \<and> PGALIGNED v \<and> entry (mem s1) root v AND PTE_V \<noteq> 0
      \<and> managed s1 (page_of (mem s1) root v) \<and> page_of (mem s1) root v \<notin> tables (mem s1) root
      \<and> page_of (mem s1) root v \<notin> set (q # ps)" if "v \<in> set vs" for v
      using that Cons.prems(4) [of v] e1 [OF that] nq [OF that] s1(5) only_memory_managed(1) [OF s1(2)] by simp
    show "inj_on (page_of (mem s1) root) (set vs)"
      using Cons.prems(5) e1(2) by (auto simp: inj_on_def)
  qed (use Cons.prems(3) in simp)
  then obtain s' where s': "kfold (freevma_page mm True) vs s1 = Inr s'" "only_memory s1 s'"
    "vm_ok s' root (rev (map (page_of (mem s1) root) vs) @ q # ps)"
    "\<And>va. PGALIGNED va \<Longrightarrow> IS_USER_VA va \<Longrightarrow>
      entry (mem s') root va = (if va \<in> set vs then 0 else entry (mem s1) root va)"
    "tables (mem s') root = tables (mem s1) root"
    "only_in (page_of (mem s1) root ` set vs \<union> tables (mem s1) root) (mem s1) (mem s')"
    by blast
  have pg: "map (page_of (mem s1) root) vs = map (page_of (mem s) root) vs"
    "page_of (mem s1) root ` set vs = page_of (mem s) root ` set vs"
    using e1(2) by auto
  show ?case
  proof (intro exI [of _ s'] conjI allI impI)
    show "kfold (freevma_page mm True) (va # vs) s = Inr s'" using s1(1) s'(1) by simp
    show "only_memory s s'" using s1(2) s'(2) only_memory_trans by blast
    show "vm_ok s' root (rev (map (page_of (mem s) root) (va # vs)) @ ps)" using s'(3) pg by (simp add: q_def)
    show "tables (mem s') root = tables (mem s) root" using s'(5) s1(5) by simp
    show "only_in (page_of (mem s) root ` set (va # vs) \<union> tables (mem s) root) (mem s) (mem s')"
      by (rule only_in_trans [OF s1(6) s'(6)]) (use pg s1(5) in \<open>auto simp: q_def\<close>)
    fix v assume v: "PGALIGNED v" "IS_USER_VA v"
    show "entry (mem s') root v = (if v \<in> set (va # vs) then 0 else entry (mem s) root v)"
      using s'(4) [OF v] s1(4) [of v] same_page_iff [OF va(2) v(1) va(1) v(2)] by auto
  qed
qed

end
