(* ===== verification/VmProps.thy ===== *)
theory VmProps imports VmSpec begin

text \<open>
  The properties of the address-space operations, over concrete calls, and an example address space
  for their witnesses.
\<close>

section \<open>An empty address space\<close>

lemma empty_root:
  assumes "\<And>i. i < 512 \<Longrightarrow> ld64 m (slot root i) = 0" and "PGALIGNED root"
  shows "tables m root = {root}" and "pt_wf m root" and "entry m root va = 0"
    and "leaf_table m root va = None"
proof -
  note e = user_tree.empty_tree [OF assms]
  show "tables m root = {root}" by (rule e(1))
  show "pt_wf m root" by (rule e(2))
  show "entry m root va = 0" using e(3) by (simp add: entry_level)
  have "va_path va \<noteq> []" by (simp add: va_path_def)
  then show "leaf_table m root va = None" using e(4) by (simp add: leaf_table_def)
qed

lemma vm_ok_fresh:
  assumes "\<And>i. i < 512 \<Longrightarrow> ld64 (mem s) (slot root i) = 0" and "PGALIGNED root" and "root \<noteq> 0"
    and "page_mapped s root" and "arena_ok s" and "k_ready s" and "k_free L_kpage s" and "free_pages s ps"
    and "root \<notin> set ps"
  shows "vm_ok s root ps"
  using assms empty_root [OF assms(1,2)] by (auto simp: vm_ok_def)

text \<open>One address space at 32 whose root is the second page of the range; the other three are free.\<close>

definition demo_mem :: mem where
  "demo_mem = st64 (st64 (\<lambda>_. 0) 0xffffffc080400000 0xffffffc080402000) 0xffffffc080402000 0xffffffc080403000"

definition demo_vm :: kst where
  "demo_vm = boot_kst\<lparr>mem := demo_mem,
     mms := (\<lambda>_. \<lparr>mm_pgt = 0xffffffc080401000, mm_vma = 0, mm_refcnt = 1\<rparr>),
     vmas := (\<lambda>_. \<lparr>vma_owner = 32, vma_next = 0, vm_start = 0x1000, vm_end = 0x2000, pte_flags = 0x16\<rparr>)\<rparr>"

definition demo_root :: u64 where "demo_root = 0xffffffc080401000"

definition demo_free :: "u64 list" where
  "demo_free = [0xffffffc080400000, 0xffffffc080402000, 0xffffffc080403000]"

lemma demo_cells:
  "ld64 demo_mem 0xffffffc080400000 = 0xffffffc080402000"
  "ld64 demo_mem 0xffffffc080402000 = 0xffffffc080403000"
  "ld64 demo_mem 0xffffffc080403000 = 0"
  by (simp_all add: demo_mem_def ld64_st64_other cells_apart_def)

lemma demo_root_zero: "i < 512 \<Longrightarrow> ld64 demo_mem (slot demo_root i) = 0"
proof -
  assume i: "i < 512"
  have o: "only_in {0xffffffc080400000, 0xffffffc080402000} (\<lambda>_. 0) demo_mem"
    using st64_outside [of 0 "0xffffffc080400000"] st64_outside [of 0 "0xffffffc080402000"]
    by (simp add: only_in_def demo_mem_def)
  have "ld64 demo_mem (slot demo_root i) = ld64 (\<lambda>_. 0) (slot demo_root i)"
    by (rule only_in_ld64 [OF o _ _ _ i]) (simp_all add: demo_root_def PGALIGNED_def PGSIZE_def)
  then show ?thesis by simp
qed

lemma demo_vm_ok: "vm_ok demo_vm demo_root demo_free"
proof (rule vm_ok_fresh)
  show "ld64 (mem demo_vm) (slot demo_root i) = 0" if "i < 512" for i
    using demo_root_zero [OF that] by (simp add: demo_vm_def)
  have km: "page_mapped demo_vm p" for p
    by (simp add: demo_vm_def boot_kst_def page_mapped_def mapped_def)
  show "page_mapped demo_vm demo_root" by (rule km)
  have base: "kpage_allocator_base demo_vm = 0xffffffc080400000" "kpage_allocator_size demo_vm = 0x4000"
    by (simp_all add: demo_vm_def boot_kst_def)
  show "arena_ok demo_vm"
    unfolding arena_ok_def base using km by (simp add: PGALIGNED_def layout_simps)
  show "k_ready demo_vm" "k_free L_kpage demo_vm"
    using boot_kst_ready by (simp_all add: demo_vm_def k_ready_def k_free_def)
  show "free_pages demo_vm demo_free"
    unfolding free_pages_def demo_free_def
    by (simp add: managed_def base PGALIGNED_def PGSIZE_def)
      (simp add: demo_vm_def boot_kst_def demo_cells)
qed (simp_all add: demo_root_def demo_free_def PGALIGNED_def PGSIZE_def)

lemma demo_vm_sel:
  "mm_pgt (mms demo_vm mm) = demo_root" "vma_owner (vmas demo_vm v) = 32" "vm_start (vmas demo_vm v) = 0x1000"
  "vm_end (vmas demo_vm v) = 0x2000" "pte_flags (vmas demo_vm v) = 0x16" "entry (mem demo_vm) demo_root va = 0"
proof -
  show "entry (mem demo_vm) demo_root va = 0"
    by (rule empty_root(3)) (use demo_root_zero in \<open>simp_all add: demo_vm_def demo_root_def PGALIGNED_def PGSIZE_def\<close>)
qed (simp_all add: demo_vm_def demo_root_def)

section \<open>Translation\<close>

lemma user_page_limit: "IS_USER_VA (PGROUNDDOWN va) \<longleftrightarrow> va < MAXVA + PGSIZE"
proof -
  have blocks: "4096 * k \<le> 4096 * n \<longleftrightarrow> 4096 * k + r < 4096 * n + 4096" if "r < 4096" for k n r :: nat
  proof (cases "k \<le> n")
    case True
    then have "4096 * k \<le> 4096 * n" by simp
    moreover from this have "4096 * k + r < 4096 * n + 4096" using that by linarith
    ultimately show ?thesis by blast
  next
    case False
    then have "4096 * (n + 1) \<le> 4096 * k" by (intro mult_le_mono2) simp
    then show ?thesis by simp
  qed
  have va: "unat va = unat (PGROUNDDOWN va) + unat va mod 4096"
    using unat_page_offset [of va] PGROUNDDOWN_le [of va] by (simp add: word_le_nat_alt unat_sub_le)
  have "4096 dvd unat (PGROUNDDOWN va)" using PGALIGNED_PGROUNDDOWN [of va] by (simp add: PGALIGNED_iff mod_eq_0_iff_dvd)
  then obtain k where k: "unat (PGROUNDDOWN va) = 4096 * k" by (elim dvdE)
  have m: "unat (MAXVA + PGSIZE) = 4096 * 67108864 + 4096" "unat MAXVA = 4096 * 67108864"
    by (simp_all add: MAXVA_def PGSIZE_def)
  have "4096 * k \<le> 4096 * 67108864 \<longleftrightarrow> 4096 * k + unat va mod 4096 < 4096 * 67108864 + 4096" by (rule blocks) simp
  then show ?thesis unfolding IS_USER_VA_def word_le_nat_alt word_less_nat_alt m using va k by metis
qed

text \<open>C10. \<^verbatim>\<open>walkaddr\<close> and \<^verbatim>\<open>useraddr\<close> compute the translation of the page table: the physical page
  (and the physical address) when the leaf is valid and accessible to the user, 0 otherwise; they
  change nothing. \<^verbatim>\<open>walkaddr\<close> panics exactly at an address above \<^verbatim>\<open>MAXVA\<close> and at an unaligned one. \<^verbatim>\<open>useraddr\<close> looks at
  the page of its address, so it panics exactly from \<open>MAXVA + PGSIZE\<close> on, and translates the page at
  \<^verbatim>\<open>MAXVA\<close> like the ones below. System calls pass user addresses to it unchecked.\<close>

theorem walkaddr_useraddr_correct:
  assumes "vm_ok s (mm_pgt (mms s mm)) ps"
  shows "walkaddr mm va s =
      (if \<not> IS_USER_VA va then Inl (Panic ''invalid user VA'')
       else if \<not> PGALIGNED va then Inl (Panic ''assertion failed: PGALIGNED(va), unaligned va'')
       else Inr (user_pa (mem s) (mm_pgt (mms s mm)) va, s)) \<and>
    useraddr mm va s =
      (if va < MAXVA + PGSIZE then
         Inr (let pa = user_pa (mem s) (mm_pgt (mms s mm)) (PGROUNDDOWN va) in
              if pa = 0 then 0 else pa + (va - PGROUNDDOWN va), s)
       else Inl (Panic ''invalid user VA''))"
proof
  show w: "walkaddr mm va s =
      (if \<not> IS_USER_VA va then Inl (Panic ''invalid user VA'')
       else if \<not> PGALIGNED va then Inl (Panic ''assertion failed: PGALIGNED(va), unaligned va'')
       else Inr (user_pa (mem s) (mm_pgt (mms s mm)) va, s))"
    using walkaddr_eq [OF assms] by (simp add: walkaddr_def)
  define pa where "pa = user_pa (mem s) (mm_pgt (mms s mm)) (PGROUNDDOWN va)"
  have "pa AND (va AND 0xFFF) = 0"
  proof -
    have "PGALIGNED pa" by (simp add: pa_def user_pa_def Let_def)
    then have "pa AND mask 12 = 0" by (simp add: PGALIGNED_def pgsize_mask)
    then have "pa AND (va AND mask 12) = 0" by (metis and.left_commute and_zero_eq)
    then show ?thesis by (simp add: mask_eq_exp_minus_1)
  qed
  then have "pa OR (va AND 0xFFF) = pa + (va AND 0xFFF)" by (rule word_or_add)
  moreover have "va - PGROUNDDOWN va = va AND 0xFFF"
    by (simp add: PGROUNDDOWN_offset mask_eq_exp_minus_1)
  ultimately show "useraddr mm va s =
      (if va < MAXVA + PGSIZE then
         Inr (let pa = user_pa (mem s) (mm_pgt (mms s mm)) (PGROUNDDOWN va) in
              if pa = 0 then 0 else pa + (va - PGROUNDDOWN va), s)
       else Inl (Panic ''invalid user VA''))"
    using walkaddr_eq [OF assms _ PGALIGNED_PGROUNDDOWN, of va] user_page_limit [of va]
    by (simp add: useraddr_def walkaddr_def [of mm "PGROUNDDOWN va"] pa_def [symmetric] Let_def)
qed

text \<open>C11. The walk that makes tables: with two free pages it returns the address of the leaf of \<open>va\<close>;
  no translation of any address changes, the new tables are taken from the free list, and no byte
  outside the tables changes.\<close>

theorem walk_alloc_correct:
  assumes "vm_ok s (mm_pgt (mms s mm)) ps" and "IS_USER_VA va" and "2 \<le> length ps"
  shows "\<exists>s' k r. walk mm va True s = Inr (slot r (PX 0 va), s') \<and>
    leaf_table (mem s') (mm_pgt (mms s mm)) va = Some r \<and> k \<le> 2 \<and>
    vm_ok s' (mm_pgt (mms s mm)) (drop k ps) \<and>
    entry (mem s') (mm_pgt (mms s mm)) = entry (mem s) (mm_pgt (mms s mm)) \<and>
    tables (mem s') (mm_pgt (mms s mm)) = tables (mem s) (mm_pgt (mms s mm)) \<union> set (take k ps) \<and>
    only_in (tables (mem s') (mm_pgt (mms s mm))) (mem s) (mem s')"
  using walk_alloc [OF assms] unfolding grown_def by metis

theorem walk_alloc_correct_witness:
  "\<exists>s' k r. walk 32 0x1000 True demo_vm = Inr (slot r (PX 0 0x1000), s') \<and>
    leaf_table (mem s') demo_root 0x1000 = Some r \<and> k \<le> 2 \<and>
    vm_ok s' demo_root (drop k demo_free) \<and> entry (mem s') demo_root = entry (mem demo_vm) demo_root"
proof -
  have ok: "vm_ok demo_vm (mm_pgt (mms demo_vm 32)) demo_free" using demo_vm_ok by (simp add: demo_vm_sel)
  have a: "IS_USER_VA 0x1000" "2 \<le> length demo_free" by (simp_all add: IS_USER_VA_def MAXVA_def demo_free_def)
  show ?thesis using walk_alloc_correct [OF ok a] unfolding demo_vm_sel by metis
qed

section \<open>Mapping and unmapping\<close>

lemma vm_ok_cong:
  assumes "mem t = mem s" "kmap t = kmap s" "smp t = smp s" "freelist t = freelist s"
    "kpage_allocator_base t = kpage_allocator_base s" "kpage_allocator_size t = kpage_allocator_size s"
  shows "vm_ok t root ps = vm_ok s root ps"
proof -
  have m: "managed t p = managed s p" for p using assms by (simp add: managed_def)
  have p: "page_mapped t p = page_mapped s p" for p by (rule page_mapped_cong [OF assms(2)])
  show ?thesis
    using assms by (simp add: vm_ok_def p m arena_ok_def k_ready_def k_free_def free_pages_def)
qed

lemma link_vma_sel [simp]:
  "mem (link_vma mm v s) = mem s" "kmap (link_vma mm v s) = kmap s" "smp (link_vma mm v s) = smp s"
  "freelist (link_vma mm v s) = freelist s" "kpage_allocator_base (link_vma mm v s) = kpage_allocator_base s"
  "kpage_allocator_size (link_vma mm v s) = kpage_allocator_size s" "allocs (link_vma mm v s) = allocs s"
  "mms (link_vma mm v s) = (mms s)(mm := (mms s mm)\<lparr>mm_vma := v\<rparr>)"
  "vmas (link_vma mm v s) = (vmas s)(v := (vmas s v)\<lparr>vma_next := mm_vma (mms s mm)\<rparr>)"
  by (simp_all add: link_vma_def upd_mm_def upd_vma_def)

lemma vm_ok_link [simp]: "vm_ok (link_vma mm v s) root ps = vm_ok s root ps"
  by (rule vm_ok_cong) simp_all

definition vma_fits :: "vma_struct \<Rightarrow> bool" where
  "vma_fits v \<longleftrightarrow> IS_USER_VA (vm_start v) \<and> IS_USER_VA (vm_end v) \<and> PGALIGNED (vm_start v) \<and>
     PGALIGNED (vm_end v) \<and> pte_flags v < 1024 \<and>
     \<not> (pte_flags v AND PTE_R = 0 \<and> pte_flags v AND PTE_W = 0 \<and> pte_flags v AND PTE_X = 0)"

definition vma_pages :: "vma_struct \<Rightarrow> u64 list" where
  "vma_pages v = page_range (vm_start v) (vm_end v)"

lemma vma_pages_user:
  "vma_fits v \<Longrightarrow> va \<in> set (vma_pages v) \<Longrightarrow> IS_USER_VA va \<and> PGALIGNED va"
  unfolding vma_fits_def vma_pages_def IS_USER_VA_def
  by (subst (asm) set_page_range) (auto intro: order.trans less_imp_le)

lemma distinct_vma_pages: "vma_fits v \<Longrightarrow> distinct (vma_pages v)"
  by (simp add: vma_fits_def vma_pages_def distinct_page_range)

lemma mm_mappages_eq:
  assumes ok: "vm_ok s (mm_pgt (mms s mm)) ps" and v: "v = vmas s vma" "mm = vma_owner v" and fits: "vma_fits v"
    and inval: "\<And>va. va \<in> set (vma_pages v) \<Longrightarrow> entry (mem s) (mm_pgt (mms s mm)) va AND PTE_V = 0"
    and len: "3 * length (vma_pages v) \<le> length ps"
  obtains s' k pgs where "mm_mappages vma s = Inr (0, link_vma mm vma s')"
    "mapped_range s (mm_pgt (mms s mm)) ps (vma_pages v) (pte_flags v) pgs k s'" "k \<le> 3 * length (vma_pages v)"
proof -
  have "\<exists>s' k pgs. map_loop vma (vma_pages v) s = Inr (0, s') \<and>
      mapped_range s (mm_pgt (mms s mm)) ps (vma_pages v) (pte_flags v) pgs k s' \<and> k \<le> 3 * length (vma_pages v)"
    by (rule map_loop_ok [OF ok])
      (use v len inval vma_pages_user [OF fits] distinct_vma_pages [OF fits] in auto)
  then obtain s' k pgs where m: "map_loop vma (vma_pages v) s = Inr (0, s')"
    "mapped_range s (mm_pgt (mms s mm)) ps (vma_pages v) (pte_flags v) pgs k s'" "k \<le> 3 * length (vma_pages v)"
    by blast
  then have "mm_mappages vma s = Inr (0, link_vma mm vma s')"
    using fits only_memory_sel(4) [of s s'] v
    by (auto simp: mm_mappages_def Let_def vma_fits_def vma_pages_def mapped_range_def)
  with m(2,3) show thesis using that by blast
qed

text \<open>C12. \<^verbatim>\<open>mm_mappages\<close> on an area whose pages are aligned, in user space and not mapped, with three
  free pages per page of the area: it returns 0; every page of the area gets a page of its own that
  was free, with the flags of the area and the valid bit; every other address keeps its entry; the
  area is put at the head of the list of the address space; only pages that were free, and tables,
  are written.\<close>

theorem mm_mappages_correct:
  assumes "vm_ok s (mm_pgt (mms s mm)) ps" and "v = vmas s vma" and "mm = vma_owner v" and "vma_fits v"
    and "\<forall>va \<in> set (vma_pages v). entry (mem s) (mm_pgt (mms s mm)) va AND PTE_V = 0"
    and "3 * length (vma_pages v) \<le> length ps"
  shows "\<exists>s' k pgs. mm_mappages vma s = Inr (0, s') \<and>
    vm_ok s' (mm_pgt (mms s mm)) (drop k ps) \<and>
    mm_vma (mms s' mm) = vma \<and> vma_next (vmas s' vma) = mm_vma (mms s mm) \<and>
    length pgs = length (vma_pages v) \<and> distinct pgs \<and> set pgs \<subseteq> set (take k ps) \<and>
    (\<forall>va. PGALIGNED va \<longrightarrow> IS_USER_VA va \<longrightarrow> entry (mem s') (mm_pgt (mms s mm)) va =
       (case map_of (zip (vma_pages v) pgs) va of Some q \<Rightarrow> leaf_pte q (pte_flags v)
        | None \<Rightarrow> entry (mem s) (mm_pgt (mms s mm)) va)) \<and>
    only_in (tables (mem s) (mm_pgt (mms s mm)) \<union> set (take k ps)) (mem s) (mem s')"
proof -
  have inval: "\<And>va. va \<in> set (vma_pages v) \<Longrightarrow> entry (mem s) (mm_pgt (mms s mm)) va AND PTE_V = 0"
    by (rule assms(5) [rule_format])
  obtain t k pgs where m: "mm_mappages vma s = Inr (0, link_vma mm vma t)"
    "mapped_range s (mm_pgt (mms s mm)) ps (vma_pages v) (pte_flags v) pgs k t"
    by (rule mm_mappages_eq [OF assms(1-4) inval assms(6)])
  have "only_memory s t" using m(2) by (simp add: mapped_range_def)
  note sel = only_memory_sel(3,4) [OF this]
  note mr = m(2) [unfolded mapped_range_def]
  have "only_in (tables (mem s) (mm_pgt (mms s mm)) \<union> set (take k ps)) (mem s) (mem t)"
    using mr by (elim conjE) (simp only:)
  then show ?thesis
  proof (intro exI [of _ "link_vma mm vma t"] exI [of _ k] exI [of _ pgs] conjI)
    show "mm_mappages vma s = Inr (0, link_vma mm vma t)" by (rule m(1))
    show "vm_ok (link_vma mm vma t) (mm_pgt (mms s mm)) (drop k ps)" unfolding vm_ok_link using mr by (elim conjE)
    show "mm_vma (mms (link_vma mm vma t) mm) = vma" by simp
    show "vma_next (vmas (link_vma mm vma t) vma) = mm_vma (mms s mm)" by (simp add: sel)
    show "length pgs = length (vma_pages v)" using mr by (elim conjE)
    show "distinct pgs" using mr by (elim conjE)
    show "set pgs \<subseteq> set (take k ps)" using mr by (elim conjE)
    show "\<forall>va. PGALIGNED va \<longrightarrow> IS_USER_VA va \<longrightarrow> entry (mem (link_vma mm vma t)) (mm_pgt (mms s mm)) va =
       (case map_of (zip (vma_pages v) pgs) va of Some q \<Rightarrow> leaf_pte q (pte_flags v)
        | None \<Rightarrow> entry (mem s) (mm_pgt (mms s mm)) va)"
      unfolding link_vma_sel using mr by (elim conjE)
  qed simp
qed

lemma demo_vma:
  "vma_fits (vmas demo_vm 16)" "vma_pages (vmas demo_vm 16) = [0x1000]"
  by (simp_all add: vma_fits_def vma_pages_def demo_vm_sel IS_USER_VA_def MAXVA_def PGALIGNED_def PGSIZE_def
      PTE_R_def page_range.simps)

theorem mm_mappages_correct_witness:
  "\<exists>s' q. mm_mappages 16 demo_vm = Inr (0, s') \<and> q \<in> set demo_free \<and> mm_vma (mms s' 32) = 16 \<and>
    entry (mem s') demo_root 0x1000 = leaf_pte q 0x16 \<and> entry (mem s') demo_root 0x2000 = 0"
proof -
  have ok: "vm_ok demo_vm (mm_pgt (mms demo_vm 32)) demo_free" using demo_vm_ok by (simp add: demo_vm_sel)
  have a: "32 = vma_owner (vmas demo_vm 16)" by (simp add: demo_vm_sel)
  have b: "\<forall>va \<in> set (vma_pages (vmas demo_vm 16)). entry (mem demo_vm) (mm_pgt (mms demo_vm 32)) va AND PTE_V = 0"
    "3 * length (vma_pages (vmas demo_vm 16)) \<le> length demo_free"
    by (simp_all add: demo_vma demo_vm_sel demo_free_def)
  have u: "IS_USER_VA 0x1000" "PGALIGNED 0x1000" "IS_USER_VA 0x2000" "PGALIGNED 0x2000"
    by (simp_all add: IS_USER_VA_def MAXVA_def PGALIGNED_def PGSIZE_def)
  from mm_mappages_correct [OF ok refl a demo_vma(1) b] obtain s' k pgs where m:
    "mm_mappages 16 demo_vm = Inr (0, s')" "mm_vma (mms s' 32) = 16" "length pgs = 1"
    "set pgs \<subseteq> set (take k demo_free)"
    "\<forall>va. PGALIGNED va \<longrightarrow> IS_USER_VA va \<longrightarrow> entry (mem s') demo_root va =
       (case map_of (zip [0x1000] pgs) va of Some q \<Rightarrow> leaf_pte q 0x16 | None \<Rightarrow> 0)"
    unfolding demo_vma demo_vm_sel by auto
  obtain q where q: "pgs = [q]" using m(3) by (cases pgs) auto
  then have "q \<in> set demo_free" using m(4) by (auto dest: in_set_takeD)
  then show ?thesis using m(1,2) m(5) u q by auto
qed

lemma leaf_pte_valid [simp]: "leaf_pte q f AND PTE_V \<noteq> 0"
  using PTE_V_or [of "PA2PTE (KVA_TO_PA q) OR f"] by (simp add: leaf_pte_def or.assoc)

lemma mapped_range_parts:
  assumes "mapped_range s root ps vs f pgs k s'"
  shows "only_memory s s'" "vm_ok s' root (drop k ps)" "k \<le> length ps" "length pgs = length vs" "distinct pgs"
    "set pgs \<subseteq> set (take k ps)" "tables (mem s') root \<union> set pgs = tables (mem s) root \<union> set (take k ps)"
    "set pgs \<inter> tables (mem s') root = {}" "only_in (tables (mem s') root \<union> set pgs) (mem s) (mem s')"
    "PGALIGNED va \<Longrightarrow> IS_USER_VA va \<Longrightarrow> entry (mem s') root va =
        (case map_of (zip vs pgs) va of Some q \<Rightarrow> leaf_pte q f | None \<Rightarrow> entry (mem s) root va)"
  using assms unfolding mapped_range_def by blast+

lemma mapped_range_nth:
  assumes m: "mapped_range s root ps vs f pgs k s'" and d: "distinct vs" and i: "i < length vs"
    and va: "PGALIGNED (vs ! i)" "IS_USER_VA (vs ! i)"
  shows "entry (mem s') root (vs ! i) = leaf_pte (pgs ! i) f"
proof -
  have "map_of (zip vs pgs) (vs ! i) = Some (pgs ! i)"
    using mapped_range_parts(4) [OF m] d i by (simp add: map_of_zip_nth)
  then show ?thesis using mapped_range_parts(10) [OF m va] by simp
qed

lemma mapped_range_pages:
  assumes ok: "vm_ok s root ps" and m: "mapped_range s root ps vs f pgs k s'" and d: "distinct vs" and f: "f < 1024"
    and vs: "\<forall>va \<in> set vs. IS_USER_VA va \<and> PGALIGNED va"
  shows "map (page_of (mem s') root) vs = pgs"
    and "va \<in> set vs \<Longrightarrow> entry (mem s') root va AND PTE_V \<noteq> 0 \<and> managed s' (page_of (mem s') root va)
      \<and> page_of (mem s') root va \<notin> tables (mem s') root \<and> page_of (mem s') root va \<notin> set (drop k ps)"
    and "inj_on (page_of (mem s') root) (set vs)"
proof -
  note mr = mapped_range_parts [OF m]
  have mng: "managed s q" if "q \<in> set pgs" for q
    using that mr(6) vm_okD(10) [OF ok] by (meson in_set_takeD subsetD)
  have nd: "set (take k ps) \<inter> set (drop k ps) = {}"
    using vm_okD(9) [OF ok] by (simp add: set_take_disj_set_drop_if_distinct)
  have pg: "page_of (mem s') root (vs ! i) = pgs ! i" if "i < length vs" for i
  proof -
    have "PGALIGNED (pgs ! i)" using mng [of "pgs ! i"] that mr(4) by (simp add: managed_def)
    then show ?thesis
      using mapped_range_nth [OF m d that] vs that leaf_pte_pa [OF _ f] by (simp add: page_of_def)
  qed
  show mp: "map (page_of (mem s') root) vs = pgs" by (rule nth_equalityI) (use mr(4) pg in simp_all)
  then have "distinct (map (page_of (mem s') root) vs)" using mr(5) by simp
  then show "inj_on (page_of (mem s') root) (set vs)" by (simp add: distinct_map)
  assume "va \<in> set vs"
  then obtain i where i: "i < length vs" "va = vs ! i" by (auto simp: in_set_conv_nth)
  have q: "pgs ! i \<in> set pgs" using i mr(4) by simp
  have "entry (mem s') root va AND PTE_V \<noteq> 0"
    using mapped_range_nth [OF m d i(1)] vs i by simp
  moreover have "managed s' (pgs ! i)" using mng [OF q] only_memory_managed(1) [OF mr(1)] by simp
  moreover have "pgs ! i \<notin> tables (mem s') root" and "pgs ! i \<notin> set (drop k ps)"
    using q mr(6,8) nd by auto
  ultimately show "entry (mem s') root va AND PTE_V \<noteq> 0 \<and> managed s' (page_of (mem s') root va)
      \<and> page_of (mem s') root va \<notin> tables (mem s') root \<and> page_of (mem s') root va \<notin> set (drop k ps)"
    using pg [OF i(1)] i(2) by simp
qed

lemma freevma_eq:
  assumes ok: "vm_ok s (mm_pgt (mms s mm)) ps" and v: "v = vmas s vma" "mm = vma_owner v" and fits: "vma_fits v"
    and root: "root = mm_pgt (mms s mm)"
    and pages: "\<And>va. va \<in> set (vma_pages v) \<Longrightarrow> entry (mem s) root va AND PTE_V \<noteq> 0
      \<and> managed s (page_of (mem s) root va) \<and> page_of (mem s) root va \<notin> tables (mem s) root
      \<and> page_of (mem s) root va \<notin> set ps"
    and inj: "inj_on (page_of (mem s) root) (set (vma_pages v))"
  obtains s' where "freevma vma True s = Inr s'" "only_memory s s'"
    "vm_ok s' root (rev (map (page_of (mem s) root) (vma_pages v)) @ ps)"
    "\<forall>va. PGALIGNED va \<longrightarrow> IS_USER_VA va \<longrightarrow>
      entry (mem s') root va = (if va \<in> set (vma_pages v) then 0 else entry (mem s) root va)"
    "tables (mem s') root = tables (mem s) root"
    "only_in (page_of (mem s) root ` set (vma_pages v) \<union> tables (mem s) root) (mem s) (mem s')"
proof -
  have "freevma vma True s = kfold (freevma_page mm True) (vma_pages v) s"
    using fits v by (simp add: freevma_def Let_def vma_fits_def vma_pages_def)
  moreover have "\<exists>s'. kfold (freevma_page mm True) (vma_pages v) s = Inr s' \<and> only_memory s s' \<and>
    vm_ok s' root (rev (map (page_of (mem s) root) (vma_pages v)) @ ps) \<and>
    (\<forall>va. PGALIGNED va \<longrightarrow> IS_USER_VA va \<longrightarrow>
      entry (mem s') root va = (if va \<in> set (vma_pages v) then 0 else entry (mem s) root va)) \<and>
    tables (mem s') root = tables (mem s) root \<and>
    only_in (page_of (mem s) root ` set (vma_pages v) \<union> tables (mem s) root) (mem s) (mem s')"
    by (rule freevma_loop [OF ok root distinct_vma_pages [OF fits] _ inj])
      (use pages vma_pages_user [OF fits] in blast)
  ultimately show thesis using that by metis
qed

text \<open>C13. Mapping an area and then freeing it brings the address space back: every entry of the area
  is 0, every other entry is what it was, and all the pages of the area are on the free list again.
  What is not given back are the tables that the walk made.\<close>

theorem mm_mappages_freevma:
  assumes "vm_ok s (mm_pgt (mms s mm)) ps" and "v = vmas s vma" and "mm = vma_owner v" and "vma_fits v"
    and "\<forall>va \<in> set (vma_pages v). entry (mem s) (mm_pgt (mms s mm)) va AND PTE_V = 0"
    and "3 * length (vma_pages v) \<le> length ps"
  shows "\<exists>s1 s2 qs. mm_mappages vma s = Inr (0, s1) \<and> freevma vma True s1 = Inr s2 \<and>
    vm_ok s2 (mm_pgt (mms s mm)) qs \<and>
    tables (mem s2) (mm_pgt (mms s mm)) \<union> set qs = tables (mem s) (mm_pgt (mms s mm)) \<union> set ps \<and>
    (\<forall>va. PGALIGNED va \<longrightarrow> IS_USER_VA va \<longrightarrow> entry (mem s2) (mm_pgt (mms s mm)) va =
       (if va \<in> set (vma_pages v) then 0 else entry (mem s) (mm_pgt (mms s mm)) va))"
proof -
  define root where "root = mm_pgt (mms s mm)"
  have inval: "\<And>va. va \<in> set (vma_pages v) \<Longrightarrow> entry (mem s) (mm_pgt (mms s mm)) va AND PTE_V = 0"
    by (rule assms(5) [rule_format])
  obtain t k pgs where m: "mm_mappages vma s = Inr (0, link_vma mm vma t)"
    "mapped_range s root ps (vma_pages v) (pte_flags v) pgs k t"
    unfolding root_def by (rule mm_mappages_eq [OF assms(1-4) inval assms(6)])
  note mr = mapped_range_parts [OF m(2)]
  note sel = only_memory_sel(3,4) [OF mr(1)]
  have us: "\<forall>va \<in> set (vma_pages v). IS_USER_VA va \<and> PGALIGNED va"
    using vma_pages_user [OF assms(4)] by blast
  have f: "pte_flags v < 1024" using assms(4) by (simp add: vma_fits_def)
  note pg = mapped_range_pages [OF assms(1) [folded root_def] m(2) distinct_vma_pages [OF assms(4)] f us]
  define s1 where "s1 = link_vma mm vma t"
  define v1 where "v1 = vmas s1 vma"
  have s1: "mem s1 = mem t" "mm_pgt (mms s1 mm) = root" "vma_owner v1 = mm" "vma_pages v1 = vma_pages v" "vma_fits v1"
    using assms(2,3,4) by (simp_all add: s1_def v1_def sel root_def vma_pages_def vma_fits_def)
  have m1: "managed s1 q = managed t q" for q by (simp add: s1_def managed_def)
  have ok1: "vm_ok s1 (mm_pgt (mms s1 mm)) (drop k ps)" using mr(2) s1(2) by (simp add: s1_def)
  have pages: "entry (mem s1) root va AND PTE_V \<noteq> 0 \<and> managed s1 (page_of (mem s1) root va)
      \<and> page_of (mem s1) root va \<notin> tables (mem s1) root \<and> page_of (mem s1) root va \<notin> set (drop k ps)"
    if "va \<in> set (vma_pages v1)" for va
    using that unfolding s1(1,4) m1 by (rule pg(2))
  have inj: "inj_on (page_of (mem s1) root) (set (vma_pages v1))"
    unfolding s1(1,4) by (rule pg(3))
  obtain s2 where s2:
    "freevma vma True s1 = Inr s2" "only_memory s1 s2"
    "vm_ok s2 root (rev (map (page_of (mem s1) root) (vma_pages v1)) @ drop k ps)"
    "\<forall>va. PGALIGNED va \<longrightarrow> IS_USER_VA va \<longrightarrow>
      entry (mem s2) root va = (if va \<in> set (vma_pages v1) then 0 else entry (mem s1) root va)"
    "tables (mem s2) root = tables (mem s1) root"
    "only_in (page_of (mem s1) root ` set (vma_pages v1) \<union> tables (mem s1) root) (mem s1) (mem s2)"
    by (rule freevma_eq [OF ok1 v1_def s1(3) [symmetric] s1(5) s1(2) [symmetric] pages inj])
  have none: "map_of (zip (vma_pages v) pgs) va = None" if "va \<notin> set (vma_pages v)" for va
    using that mr(4) by (simp add: map_of_zip_is_None)
  have "entry (mem s2) root va = (if va \<in> set (vma_pages v) then 0 else entry (mem s) root va)"
    if "PGALIGNED va" "IS_USER_VA va" for va
    using s2(4) [rule_format, OF that] mr(10) [OF that] none [of va] unfolding s1(1,4) by (cases "va \<in> set (vma_pages v)") simp_all
  moreover have "tables (mem s2) root \<union> set (rev pgs @ drop k ps) = tables (mem s) root \<union> set ps"
  proof -
    have "set ps = set (take k ps) \<union> set (drop k ps)" by (metis append_take_drop_id set_append)
    then show ?thesis using mr(7) s2(5) unfolding s1(1) by auto
  qed
  moreover have "vm_ok s2 root (rev pgs @ drop k ps)" using s2(3) pg(1) unfolding s1(1,4) by simp
  ultimately show ?thesis using m(1) s2(1) unfolding s1_def root_def by blast
qed

theorem mm_mappages_freevma_witness:
  "\<exists>s1 s2. mm_mappages 16 demo_vm = Inr (0, s1) \<and> freevma 16 True s1 = Inr s2 \<and>
    entry (mem s2) demo_root 0x1000 = 0 \<and> entry (mem s2) demo_root 0x2000 = 0"
proof -
  have ok: "vm_ok demo_vm (mm_pgt (mms demo_vm 32)) demo_free" using demo_vm_ok by (simp add: demo_vm_sel)
  have a: "32 = vma_owner (vmas demo_vm 16)" by (simp add: demo_vm_sel)
  have b: "\<forall>va \<in> set (vma_pages (vmas demo_vm 16)). entry (mem demo_vm) (mm_pgt (mms demo_vm 32)) va AND PTE_V = 0"
    "3 * length (vma_pages (vmas demo_vm 16)) \<le> length demo_free"
    by (simp_all add: demo_vma demo_vm_sel demo_free_def)
  have u: "IS_USER_VA 0x1000" "PGALIGNED 0x1000" "IS_USER_VA 0x2000" "PGALIGNED 0x2000"
    by (simp_all add: IS_USER_VA_def MAXVA_def PGALIGNED_def PGSIZE_def)
  from mm_mappages_freevma [OF ok refl a demo_vma(1) b] obtain s1 s2 where m:
    "mm_mappages 16 demo_vm = Inr (0, s1)" "freevma 16 True s1 = Inr s2"
    "\<And>va. PGALIGNED va \<Longrightarrow> IS_USER_VA va \<Longrightarrow> entry (mem s2) demo_root va = (if va \<in> set [0x1000] then 0 else 0)"
    unfolding demo_vma demo_vm_sel by blast
  then show ?thesis using m(3) u by auto
qed

end
