(* ===== verification/VmCopy.thy ===== *)
theory VmCopy imports VmProps begin

text \<open>
  \<^verbatim>\<open>mm_copy\<close> of \<^verbatim>\<open>os/vm.c\<close>, which \<^verbatim>\<open>fork\<close> relies on: the child gets, for every page of the parent, a
  page of its own with the same bytes and flags, and the parent keeps its address space.
\<close>

section \<open>Transfer\<close>

definition same_on :: "u64 set \<Rightarrow> mem \<Rightarrow> mem \<Rightarrow> bool" where
  "same_on P m m' \<longleftrightarrow> (\<forall>t \<in> P. \<forall>x. in_page t x \<longrightarrow> m' x = m x)"

lemma same_on_ld64: "same_on P m m' \<Longrightarrow> t \<in> P \<Longrightarrow> i < 512 \<Longrightarrow> ld64 m' (slot t i) = ld64 m (slot t i)"
proof (rule ld64_cong)
  fix k :: nat assume a: "same_on P m m'" "t \<in> P" "i < 512" "k < 8"
  then have "in_page t (slot t i + of_nat k)"
    using slot_byte_in_page by (simp add: word_less_nat_alt unat_of_nat_small)
  with a show "m' (slot t i + of_nat k) = m (slot t i + of_nat k)" by (simp add: same_on_def)
qed

lemma same_on_mono: "same_on P m m' \<Longrightarrow> Q \<subseteq> P \<Longrightarrow> same_on Q m m'"
  by (auto simp: same_on_def)

lemma same_on_trans: "same_on P m m1 \<Longrightarrow> same_on P m1 m2 \<Longrightarrow> same_on P m m2"
  by (simp add: same_on_def)

lemma only_in_same_on:
  assumes "only_in P m m'" and "\<forall>t \<in> P \<union> Q. PGALIGNED t" and "P \<inter> Q = {}"
  shows "same_on Q m m'"
  unfolding same_on_def
proof (intro ballI allI impI)
  fix t x assume "t \<in> Q" "in_page t x"
  then have "\<not> in_page p x" if "p \<in> P" for p
    using in_page_disjoint [of p t x] assms(2,3) that by blast
  then show "m' x = m x" using assms(1) by (simp add: only_in_def)
qed

definition same_layout :: "kst \<Rightarrow> kst \<Rightarrow> bool" where
  "same_layout s s' \<longleftrightarrow> kmap s' = kmap s \<and> kpage_allocator_base s' = kpage_allocator_base s \<and>
     kpage_allocator_size s' = kpage_allocator_size s \<and> k_ready s' = k_ready s \<and> (\<forall>l. k_free l s' = k_free l s)"

lemma same_layout_only_memory: "only_memory s s' \<Longrightarrow> same_layout s s'"
  using only_memory_sel by (simp add: same_layout_def)

lemma same_layout_trans: "same_layout s t \<Longrightarrow> same_layout t u \<Longrightarrow> same_layout s u"
  by (simp add: same_layout_def)

lemma same_layoutD:
  assumes "same_layout s s'"
  shows "managed s' p = managed s p" "page_mapped s' p = page_mapped s p" "arena_ok s' = arena_ok s"
    "k_ready s' = k_ready s" "k_free l s' = k_free l s"
proof -
  show m: "managed s' p = managed s p" for p using assms by (simp add: managed_def same_layout_def)
  show p: "page_mapped s' p = page_mapped s p" for p
    by (rule page_mapped_cong) (use assms in \<open>simp add: same_layout_def\<close>)
  show "arena_ok s' = arena_ok s" using assms by (simp add: arena_ok_def m p same_layout_def)
  show "k_ready s' = k_ready s" "k_free l s' = k_free l s" using assms by (simp_all add: same_layout_def)
qed

text \<open>What the operations on address spaces change besides the bytes of memory.\<close>

definition vm_only :: "kst \<Rightarrow> kst \<Rightarrow> bool" where
  "vm_only s s' \<longleftrightarrow>
     s' = s\<lparr>smp := smp s', mem := mem s', freelist := freelist s', allocs := allocs s', mms := mms s', vmas := vmas s'\<rparr> \<and>
     settle (smp s') = settle (smp s)"

lemma vm_only_refl [simp]: "vm_only s s"
  by (simp add: vm_only_def)

lemma vm_only_trans: "vm_only s t \<Longrightarrow> vm_only t u \<Longrightarrow> vm_only s u"
  by (cases s; cases t; cases u) (simp add: vm_only_def)

lemma vm_onlyI:
  "settle m = settle (smp s) \<Longrightarrow> vm_only s (s\<lparr>smp := m, mem := b, freelist := l, allocs := a, mms := x, vmas := y\<rparr>)"
  by (simp add: vm_only_def)

lemma only_memory_vm_only: "only_memory s s' \<Longrightarrow> vm_only s s'"
  by (cases s; cases s') (simp add: vm_only_def only_memory_def)

lemma only_counters_vm_only: "only_counters A s s' \<Longrightarrow> settle (smp s') = settle (smp s) \<Longrightarrow> vm_only s s'"
  by (cases s; cases s') (simp add: vm_only_def only_counters_def)

lemma vm_only_upd: "vm_only s (upd_mm mm f s)" "vm_only s (upd_vma v g s)" "vm_only s (link_vma mm v s)"
  by (simp_all add: vm_only_def upd_mm_def upd_vma_def link_vma_def)

lemma vm_only_sel:
  assumes "vm_only s s'"
  shows "kmap s' = kmap s" "kpage_allocator_base s' = kpage_allocator_base s" "kpage_allocator_size s' = kpage_allocator_size s"
    "proc_pool s' = proc_pool s" "task_queue s' = task_queue s" "img s' = img s" "next_pid s' = next_pid s"
    "k_ready s' = k_ready s" "k_free l s' = k_free l s" "settle (smp s') = settle (smp s)"
proof -
  define t where "t = s\<lparr>smp := smp s', mem := mem s', freelist := freelist s', allocs := allocs s', mms := mms s', vmas := vmas s'\<rparr>"
  have e: "s' = t" using assms by (simp only: vm_only_def t_def)
  show "kmap s' = kmap s" "kpage_allocator_base s' = kpage_allocator_base s" "kpage_allocator_size s' = kpage_allocator_size s"
    "proc_pool s' = proc_pool s" "task_queue s' = task_queue s" "img s' = img s" "next_pid s' = next_pid s"
    unfolding e by (simp_all add: t_def)
  show "settle (smp s') = settle (smp s)" using assms by (simp add: vm_only_def)
  then show "k_ready s' = k_ready s" "k_free l s' = k_free l s"
    using settle_eq_transfer [of "smp s'" "smp s"] by (simp_all add: k_ready_def k_free_def)
qed

lemma free_pages_transfer:
  assumes "free_pages s ps" and "same_on (set ps) (mem s) (mem s')" and "same_layout s s'" and "freelist s' = freelist s"
  shows "free_pages s' ps"
proof -
  have "chain (mem s') (freelist s) ps = chain (mem s) (freelist s) ps"
    by (rule chain_cong) (use same_on_ld64 [OF assms(2), where i = 0] in simp)
  then show ?thesis using assms(1,4) same_layoutD(1) [OF assms(3)] by (simp add: free_pages_def)
qed

lemma vm_ok_beside:
  assumes ok: "vm_ok s root ps" and same: "same_on (tables (mem s) root) (mem s) (mem s')"
    and fp: "free_pages s' ps'" and dj: "tables (mem s) root \<inter> set ps' = {}" and lay: "same_layout s s'"
  shows "vm_ok s' root ps'" and "entry (mem s') root va = entry (mem s) root va"
    and "tables (mem s') root = tables (mem s) root"
proof -
  have "same_entries (tables (mem s) root) (mem s) (mem s')"
    using same_on_ld64 [OF same] by (simp add: same_entries_def)
  note c = entries_cong [OF this]
  show "entry (mem s') root va = entry (mem s) root va" "tables (mem s') root = tables (mem s) root"
    by (rule c)+
  show "vm_ok s' root ps'"
    using ok fp dj same_layoutD [OF lay] by (auto simp: vm_ok_def c)
qed

lemma vm_ok_transfer:
  assumes ok: "vm_ok s root ps" and same: "same_on (tables (mem s) root) (mem s) (mem s')"
    and fp: "free_pages s' ps'" and sub: "set ps' \<subseteq> set ps" and lay: "same_layout s s'"
  shows "vm_ok s' root ps'" and "entry (mem s') root va = entry (mem s) root va"
    and "tables (mem s') root = tables (mem s) root"
proof -
  have "tables (mem s) root \<inter> set ps' = {}" using vm_okD(7) [OF ok] sub by blast
  note b = vm_ok_beside [OF ok same fp this lay]
  show "vm_ok s' root ps'" "entry (mem s') root va = entry (mem s) root va" "tables (mem s') root = tables (mem s) root"
    by (rule b)+
qed

section \<open>Copying pages\<close>

definition same_bytes :: "mem \<Rightarrow> u64 \<Rightarrow> mem \<Rightarrow> u64 \<Rightarrow> bool" where
  "same_bytes m p m' q \<longleftrightarrow> (\<forall>k < 4096. m' (q + k) = m (p + k))"

lemma same_bytes_same_on:
  assumes "same_bytes m p m' q" and "same_on P m0 m" and "p \<in> P" and "same_on Q m' m1" and "q \<in> Q"
  shows "same_bytes m0 p m1 q"
  using assms by (auto simp: same_bytes_def same_on_def in_page_def PGSIZE_def)

lemma managed_no_wrap: "arena_ok s \<Longrightarrow> managed s p \<Longrightarrow> no_wrap p 4096"
proof -
  assume al: "arena_ok s" and p: "managed s p"
  have "PGALIGNED (kpage_allocator_base s + kpage_allocator_size s)"
    using al by (simp add: arena_ok_def PGALIGNED_add)
  then have "unat (p + PGSIZE) = unat p + 4096"
    using page_step_no_wrap(1) [of p] p by (simp add: managed_def)
  then show "no_wrap p 4096" using unat_less_2p [of "p + PGSIZE"] by (simp add: no_wrap_def)
qed

lemma k_memmove_page:
  assumes "arena_ok s" and "managed s p" and "managed s q"
  obtains m' where "k_memmove q p 4096 s = Inr (s\<lparr>mem := m'\<rparr>)" "only_in {q} (mem s) m'" "same_bytes (mem s) p m' q"
proof -
  have nw: "no_wrap p 4096" "no_wrap q 4096"
    using managed_no_wrap assms by blast+
  have pm: "page_mapped s p" "page_mapped s q" using assms by (simp_all add: arena_ok_def)
  have "k_memmove q p 4096 s = Inr (s\<lparr>mem := memmove (mem s) q p 4096\<rparr>)"
    using pm by (simp add: k_memmove_def page_mapped_def)
  moreover have "only_in {q} (mem s) (memmove (mem s) q p 4096)"
    by (simp add: memmove_eq [OF nw] only_in_def in_page_def PGSIZE_def word_less_nat_alt)
  moreover have "same_bytes (mem s) p (memmove (mem s) q p 4096) q"
    by (simp add: memmove_eq [OF nw] same_bytes_def word_less_nat_alt)
  ultimately show thesis using that by blast
qed

text \<open>The leaf is valid and accessible to the user, and its page comes from the page allocator.\<close>

definition user_page :: "kst \<Rightarrow> u64 \<Rightarrow> u64 \<Rightarrow> bool" where
  "user_page s root va \<longleftrightarrow> entry (mem s) root va AND PTE_V \<noteq> 0 \<and> entry (mem s) root va AND PTE_U \<noteq> 0 \<and>
     managed s (page_of (mem s) root va)"

lemma user_page_pa: "user_page s root va \<Longrightarrow> PA_TO_KVA (user_pa (mem s) root va) = page_of (mem s) root va"
  by (simp add: user_page_def user_pa_def page_of_def)

lemma page_of_aligned [simp]: "PGALIGNED (page_of m root va)"
  by (simp add: page_of_def)

lemma copy_page_step:
  assumes ok: "vm_ok s root1 ps" "vm_ok s root2 ps" and roots: "root1 = mm_pgt (mms s old)" "root2 = mm_pgt (mms s new)"
    and va: "IS_USER_VA va" "PGALIGNED va" "user_page s root1 va" "user_page s root2 va"
    and dis: "page_of (mem s) root2 va \<notin> tables (mem s) root1 \<union> tables (mem s) root2 \<union> set ps"
  obtains m1 where "copy_page old new va s = Inr (s\<lparr>mem := m1\<rparr>)" "only_in {page_of (mem s) root2 va} (mem s) m1"
    "same_bytes (mem s) (page_of (mem s) root1 va) m1 (page_of (mem s) root2 va)"
    "vm_ok (s\<lparr>mem := m1\<rparr>) root1 ps" "vm_ok (s\<lparr>mem := m1\<rparr>) root2 ps"
    "entry m1 root1 = entry (mem s) root1" "entry m1 root2 = entry (mem s) root2"
    "tables m1 root1 = tables (mem s) root1" "tables m1 root2 = tables (mem s) root2"
proof -
  let ?p = "page_of (mem s) root1 va" and ?q = "page_of (mem s) root2 va"
  have pm: "managed s ?p" "managed s ?q" using va(3,4) by (simp_all add: user_page_def)
  obtain m1 where m1: "k_memmove ?q ?p 4096 s = Inr (s\<lparr>mem := m1\<rparr>)" "only_in {?q} (mem s) m1" "same_bytes (mem s) ?p m1 ?q"
    by (rule k_memmove_page [OF vm_okD(3) [OF ok(1)] pm])
  have w: "walkaddr old va s = Inr (user_pa (mem s) root1 va, s)" "walkaddr new va s = Inr (user_pa (mem s) root2 va, s)"
    using walkaddr_eq ok va(1,2) roots by simp_all
  have step: "copy_page old new va s = Inr (s\<lparr>mem := m1\<rparr>)"
    using w m1(1) user_page_pa [OF va(3)] user_page_pa [OF va(4)] by (simp add: copy_page_def)
  have om: "only_memory s (s\<lparr>mem := m1\<rparr>)" by (simp add: only_memory_def)
  have oi: "only_in {?q} (mem s) (mem (s\<lparr>mem := m1\<rparr>))" using m1(2) by simp
  have al: "\<forall>x \<in> {?q}. PGALIGNED x" by simp
  note t1 = vm_ok_only_in [OF ok(1) oi al _ _ om] and t2 = vm_ok_only_in [OF ok(2) oi al _ _ om]
  show thesis by (rule that [OF step m1(2,3)]) (use t1 t2 dis in \<open>simp_all add: fun_eq_iff\<close>)
qed

lemma copy_loop:
  assumes "vm_ok s root1 ps" and "vm_ok s root2 ps"
    and roots: "root1 = mm_pgt (mms s old)" "root2 = mm_pgt (mms s new)"
    and "\<forall>va \<in> set vs. IS_USER_VA va \<and> PGALIGNED va \<and> user_page s root1 va \<and> user_page s root2 va"
    and "page_of (mem s) root2 ` set vs \<inter> (tables (mem s) root1 \<union> tables (mem s) root2 \<union> set ps
      \<union> page_of (mem s) root1 ` set vs) = {}"
    and "inj_on (page_of (mem s) root2) (set vs)" and "distinct vs"
  shows "\<exists>m'. kfold (copy_page old new) vs s = Inr (s\<lparr>mem := m'\<rparr>) \<and>
    only_in (page_of (mem s) root2 ` set vs) (mem s) m' \<and>
    (\<forall>va \<in> set vs. same_bytes (mem s) (page_of (mem s) root1 va) m' (page_of (mem s) root2 va))"
  using assms
proof (induction vs arbitrary: s)
  case Nil
  then show ?case by (simp add: exI [of _ "mem s"])
next
  case (Cons va vs)
  define p where "p = page_of (mem s) root1"
  define q where "q = page_of (mem s) root2"
  have va: "IS_USER_VA va" "PGALIGNED va" "user_page s root1 va" "user_page s root2 va"
    using Cons.prems(5) by auto
  have dis: "page_of (mem s) root2 va \<notin> tables (mem s) root1 \<union> tables (mem s) root2 \<union> set ps" using Cons.prems(6) by auto
  obtain m1 where m1: "copy_page old new va s = Inr (s\<lparr>mem := m1\<rparr>)" "only_in {q va} (mem s) m1" "same_bytes (mem s) (p va) m1 (q va)"
    and ok: "vm_ok (s\<lparr>mem := m1\<rparr>) root1 ps" "vm_ok (s\<lparr>mem := m1\<rparr>) root2 ps" "entry m1 root1 = entry (mem s) root1"
      "entry m1 root2 = entry (mem s) root2" "tables m1 root1 = tables (mem s) root1" "tables m1 root2 = tables (mem s) root2"
    unfolding p_def q_def by (rule copy_page_step [OF Cons.prems(1-4) va dis])
  define s1 where "s1 = s\<lparr>mem := m1\<rparr>"
  have ms: "mem s1 = m1" by (simp add: s1_def)
  have pg: "page_of m1 root1 = p" "page_of m1 root2 = q" by (simp_all add: fun_eq_iff page_of_def ok p_def q_def)
  have up: "user_page s1 r v = user_page s r v" if "r = root1 \<or> r = root2" for r v
    using that ok(3,4) pg by (auto simp: user_page_def managed_def ms s1_def p_def q_def)
  have "\<exists>m'. kfold (copy_page old new) vs s1 = Inr (s1\<lparr>mem := m'\<rparr>) \<and> only_in (page_of (mem s1) root2 ` set vs) (mem s1) m' \<and>
    (\<forall>v \<in> set vs. same_bytes (mem s1) (page_of (mem s1) root1 v) m' (page_of (mem s1) root2 v))"
  proof (rule Cons.IH)
    show "root1 = mm_pgt (mms s1 old)" "root2 = mm_pgt (mms s1 new)" using Cons.prems(3,4) by (simp_all add: s1_def)
    show "\<forall>v \<in> set vs. IS_USER_VA v \<and> PGALIGNED v \<and> user_page s1 root1 v \<and> user_page s1 root2 v"
      using Cons.prems(5) up by simp
    show "page_of (mem s1) root2 ` set vs \<inter> (tables (mem s1) root1 \<union> tables (mem s1) root2 \<union> set ps
      \<union> page_of (mem s1) root1 ` set vs) = {}"
      unfolding ms pg ok using Cons.prems(6) by (auto simp: p_def q_def)
    show "inj_on (page_of (mem s1) root2) (set vs)" unfolding ms pg using Cons.prems(7) by (simp add: q_def)
  qed (use ok(1,2) Cons.prems(8) in \<open>simp_all add: s1_def\<close>)
  then obtain m2 where m2: "kfold (copy_page old new) vs s1 = Inr (s1\<lparr>mem := m2\<rparr>)" "only_in (q ` set vs) m1 m2"
    "\<forall>v \<in> set vs. same_bytes m1 (p v) m2 (q v)"
    unfolding ms pg by blast
  have al: "PGALIGNED (p v)" "PGALIGNED (q v)" for v by (simp_all add: p_def q_def)
  have qn: "q va \<notin> q ` set vs" using Cons.prems(7,8) by (auto simp: q_def)
  have pn: "q va \<noteq> p v" if "v \<in> set vs" for v
    using Cons.prems(6) that imageI [of v "set (va # vs)" "page_of (mem s) root1"] by (auto simp: p_def q_def)
  have "same_on {q va} m1 m2" by (rule only_in_same_on [OF m2(2)]) (use al qn in auto)
  moreover have "same_on {p v} (mem s) m1" if "v \<in> set vs" for v
    by (rule only_in_same_on [OF m1(2)]) (use al pn [OF that] in auto)
  ultimately have "\<forall>v \<in> set (va # vs). same_bytes (mem s) (p v) m2 (q v)"
    using m1(3) m2(3) by (auto simp: same_bytes_def same_on_def in_page_def PGSIZE_def)
  moreover have "only_in (q ` set (va # vs)) (mem s) m2"
    by (rule only_in_trans [OF m1(2) m2(2)]) auto
  ultimately show ?case using m1(1) m2(1) unfolding p_def q_def by (auto simp: s1_def)
qed

section \<open>A new area object\<close>

definition obj_region :: "allocator \<Rightarrow> u64 \<Rightarrow> bool" where
  "obj_region a x \<longleftrightarrow> in_page (bitmap a) x \<or> pool_base a \<le> x \<and> x < pool_end a"

definition objs_apart :: "allocator \<Rightarrow> u64 set \<Rightarrow> bool" where
  "objs_apart a P \<longleftrightarrow> (\<forall>t \<in> P. \<forall>x. in_page t x \<longrightarrow> \<not> obj_region a x)"

definition only_region :: "allocator \<Rightarrow> mem \<Rightarrow> mem \<Rightarrow> bool" where
  "only_region a m m' \<longleftrightarrow> (\<forall>x. \<not> obj_region a x \<longrightarrow> m' x = m x)"

lemma only_region_same_on: "only_region a m m' \<Longrightarrow> objs_apart a P \<Longrightarrow> same_on P m m'"
  by (auto simp: only_region_def objs_apart_def same_on_def)

lemma only_counters_other:
  assumes "only_counters A s0 s"
  shows "mms s = mms s0" "vmas s = vmas s0" "freelist s = freelist s0"
    "kpage_allocator_base s = kpage_allocator_base s0" "kpage_allocator_size s = kpage_allocator_size s0"
    "pool_base (allocs s A) = pool_base (allocs s0 A)" "pool_end (allocs s A) = pool_end (allocs s0 A)"
proof -
  define t where "t = s0\<lparr>smp := smp s, mem := mem s,
        allocs := (allocs s0)(A := (allocs s0 A)\<lparr>allocated_count := allocated_count (allocs s A),
                                                available_count := available_count (allocs s A)\<rparr>)\<rparr>"
  have e: "s = t" using assms by (simp only: only_counters_def t_def)
  have "mms t = mms s0" "vmas t = vmas s0" "freelist t = freelist s0"
    "kpage_allocator_base t = kpage_allocator_base s0" "kpage_allocator_size t = kpage_allocator_size s0"
    "pool_base (allocs t A) = pool_base (allocs s0 A)" "pool_end (allocs t A) = pool_end (allocs s0 A)"
    by (simp_all add: t_def)
  then show "mms s = mms s0" "vmas s = vmas s0" "freelist s = freelist s0"
    "kpage_allocator_base s = kpage_allocator_base s0" "kpage_allocator_size s = kpage_allocator_size s0"
    "pool_base (allocs s A) = pool_base (allocs s0 A)" "pool_end (allocs s A) = pool_end (allocs s0 A)"
    using e by (simp_all only:)
qed

lemma objs_ok_cong: "objs_ok s A \<Longrightarrow> allocs s' A = allocs s A \<Longrightarrow> kmap s' = kmap s \<Longrightarrow> objs_ok s' A"
  using page_mapped_cong [of s' s] by (simp add: objs_ok_def Let_def)

text \<open>Taking an object.\<close>

lemma kalloc_step:
  assumes ok: "objs_ok s A" "k_ready s" "k_free (L_alloc A) s" "free_objects s A F" and ne: "F \<noteq> {}"
  obtains p t where "kalloc A s = Inr (p, t)" "p \<in> F" "p \<noteq> 0" "free_objects t A (F - {p})" "objs_ok t A" "vm_only s t"
    "freelist t = freelist s" "mms t = mms s" "vmas t = vmas s" "\<And>B. B \<noteq> A \<Longrightarrow> allocs t B = allocs s B"
    "obj_region (allocs t A) = obj_region (allocs s A)" "only_region (allocs s A) (mem s) (mem t)"
proof -
  have "obj_inv A s F F s"
    using ok by (auto simp: obj_inv_def only_counters_def only_objects_def free_objects_def Let_def)
  from ka.get_free [OF this ne] obtain p t where t: "kalloc A s = Inr (p, t)" "p \<in> F" "obj_inv A s F (F - {p}) t"
    by blast
  have oc: "only_counters A s t" and fo: "free_objects t A (F - {p})"
    and F: "F \<subseteq> obj_addr (allocs s A) ` {..<unat (max_count (allocs s A))}"
    and oo: "only_objects (allocs s A) F (mem s) (mem t)"
    using t(3) by (auto simp: obj_inv_def)
  note sel = only_counters_sel [OF oc] and oth = only_counters_other [OF oc] and rdy = obj_inv_ready [OF t(3)]
  have "only_region (allocs s A) (mem s) (mem t)"
    unfolding only_region_def
  proof (intro allI impI)
    fix x assume x: "\<not> obj_region (allocs s A) x"
    have "\<not> in_object (allocs s A) q x" if "q \<in> F" for q
      using that F in_object_range [OF ok(1) _ refl, of _ x] x by (auto simp: obj_region_def)
    then show "mem t x = mem s x" using oo x by (auto simp: only_objects_def obj_region_def)
  qed
  moreover have "p \<noteq> 0" using F t(2) obj_addr_in_range(3) [OF ok(1)] by auto
  moreover have "vm_only s t" using only_counters_vm_only [OF oc] t(3) by (simp add: obj_inv_def)
  moreover have "obj_region (allocs t A) = obj_region (allocs s A)" by (simp add: fun_eq_iff obj_region_def sel oth)
  moreover have "allocs t B = allocs s B" if "B \<noteq> A" for B using only_counters_same(2) [OF oc] that by (metis fun_upd_other)
  ultimately show thesis using that [OF t(1,2) _ fo rdy(3)] oth(1-3) by blast
qed

lemma vm_only_layout: "vm_only s t \<Longrightarrow> same_layout s t"
  using vm_only_sel by (simp add: same_layout_def)

lemma mm_create_vma_eq:
  assumes ok: "objs_ok s Vma_alloc" "k_ready s" "k_free (L_alloc Vma_alloc) s" "free_objects s Vma_alloc F"
    and ne: "F \<noteq> {}"
  obtains nv s1 where "mm_create_vma new s = Inr (nv, s1)" "nv \<in> F" "nv \<noteq> 0"
    "free_objects s1 Vma_alloc (F - {nv})" "objs_ok s1 Vma_alloc" "same_layout s s1" "freelist s1 = freelist s"
    "mms s1 = mms s" "vmas s1 = (vmas s)(nv := zero_vma\<lparr>vma_owner := new\<rparr>)"
    "obj_region (allocs s1 Vma_alloc) = obj_region (allocs s Vma_alloc)"
    "only_region (allocs s Vma_alloc) (mem s) (mem s1)" "vm_only s s1"
proof -
  let ?A = Vma_alloc
  obtain nv t where t: "kalloc ?A s = Inr (nv, t)" "nv \<in> F" "nv \<noteq> 0" "free_objects t ?A (F - {nv})" "objs_ok t ?A" "vm_only s t"
    "freelist t = freelist s" "mms t = mms s" "vmas t = vmas s"
    "obj_region (allocs t ?A) = obj_region (allocs s ?A)" "only_region (allocs s ?A) (mem s) (mem t)"
    by (rule kalloc_step [OF ok ne]) blast
  define s1 where "s1 = upd_vma nv (\<lambda>_. zero_vma\<lparr>vma_owner := new\<rparr>) t"
  have s1: "mem s1 = mem t" "allocs s1 = allocs t" "kmap s1 = kmap t" "freelist s1 = freelist t" "mms s1 = mms t"
    "vmas s1 = (vmas t)(nv := zero_vma\<lparr>vma_owner := new\<rparr>)"
    by (simp_all add: s1_def upd_vma_def)
  have vo: "vm_only s s1" unfolding s1_def using t(6) vm_only_upd(2) vm_only_trans by blast
  show thesis
  proof (rule that)
    show "mm_create_vma new s = Inr (nv, s1)" using t(1) by (simp add: mm_create_vma_def s1_def)
    show "free_objects s1 ?A (F - {nv})" using t(4) by (simp add: free_objects_def s1)
    show "objs_ok s1 ?A" by (rule objs_ok_cong [OF t(5)]) (simp_all add: s1(2,3))
    show "same_layout s s1" by (rule vm_only_layout [OF vo])
  qed (use t vo in \<open>simp_all add: s1\<close>)
qed

section \<open>One area\<close>

definition copy_ok :: "kst \<Rightarrow> u64 \<Rightarrow> u64 \<Rightarrow> u64 list \<Rightarrow> u64 set \<Rightarrow> bool" where
  "copy_ok s root1 root2 ps F \<longleftrightarrow>
     vm_ok s root1 ps \<and> vm_ok s root2 ps \<and> tables (mem s) root1 \<inter> tables (mem s) root2 = {} \<and>
     objs_ok s Vma_alloc \<and> k_free (L_alloc Vma_alloc) s \<and> free_objects s Vma_alloc F \<and>
     objs_apart (allocs s Vma_alloc) (tables (mem s) root1 \<union> tables (mem s) root2 \<union> set ps)"

text \<open>
  An area of the parent that can be copied: it is in user space and readable by the user, its pages
  come from the page allocator and are neither tables nor free, and the child has nothing there.
\<close>

definition area_ok :: "kst \<Rightarrow> u64 \<Rightarrow> u64 \<Rightarrow> u64 list \<Rightarrow> vma_struct \<Rightarrow> bool" where
  "area_ok s root1 root2 ps v \<longleftrightarrow> vma_fits v \<and> pte_flags v AND PTE_U \<noteq> 0 \<and>
     (\<forall>va \<in> set (vma_pages v). user_page s root1 va \<and>
        page_of (mem s) root1 va \<notin> tables (mem s) root1 \<union> tables (mem s) root2 \<union> set ps \<and>
        objs_apart (allocs s Vma_alloc) {page_of (mem s) root1 va} \<and>
        entry (mem s) root2 va AND PTE_V = 0)"

lemma leaf_pte_user: "f AND PTE_U \<noteq> 0 \<Longrightarrow> leaf_pte q f AND PTE_U \<noteq> 0"
proof
  assume "f AND PTE_U \<noteq> 0" and z: "leaf_pte q f AND PTE_U = 0"
  then obtain n where "bit (f AND PTE_U) n" using bit_eqI [of "f AND PTE_U" 0] by auto
  then have "bit (leaf_pte q f AND PTE_U) n" by (simp add: leaf_pte_def bit_or_iff bit_and_iff)
  with z show False by simp
qed

lemma area_okD:
  assumes "area_ok s root1 root2 ps v"
  shows "vma_fits v" "va \<in> set (vma_pages v) \<Longrightarrow> user_page s root1 va"
    "va \<in> set (vma_pages v) \<Longrightarrow> page_of (mem s) root1 va \<notin> tables (mem s) root1 \<union> tables (mem s) root2 \<union> set ps"
    "va \<in> set (vma_pages v) \<Longrightarrow> objs_apart (allocs s Vma_alloc) {page_of (mem s) root1 va}"
    "va \<in> set (vma_pages v) \<Longrightarrow> entry (mem s) root2 va AND PTE_V = 0"
    "va \<in> set (vma_pages v) \<Longrightarrow> PGALIGNED va \<and> IS_USER_VA va"
  using assms vma_pages_user [of v va] by (auto simp: area_ok_def)

lemma free_objects_cong:
  assumes "free_objects s A F" and "allocs s' A = allocs s A" and "objs_ok s A"
    and "\<And>x. in_page (bitmap (allocs s A)) x \<Longrightarrow> mem s' x = mem s x"
  shows "free_objects s' A F"
proof -
  have "allocated (mem s') (bitmap (allocs s A)) i = allocated (mem s) (bitmap (allocs s A)) i"
    if "i < unat (max_count (allocs s A))" for i
    by (rule allocated_cong) (use that assms(4) objs_ok_parts(1) [OF assms(3)] in simp_all)
  then show ?thesis using assms(1,2) by (simp add: free_objects_def Let_def)
qed

lemma only_in_apart_region:
  assumes "only_in P m m'" and "objs_apart a P" and "obj_region a x"
  shows "m' x = m x"
  using assms by (auto simp: only_in_def objs_apart_def)

text \<open>The outcome of one round of the loop of \<^verbatim>\<open>mm_copy\<close>.\<close>

definition area_copied ::
  "kst \<Rightarrow> u64 \<Rightarrow> u64 \<Rightarrow> u64 list \<Rightarrow> u64 set \<Rightarrow> vma_struct \<Rightarrow> nat \<Rightarrow> u64 \<Rightarrow> kst \<Rightarrow> bool" where
  "area_copied s root1 root2 ps F v k nv s' \<longleftrightarrow>
     copy_ok s' root1 root2 (drop k ps) (F - {nv}) \<and> k \<le> 3 * length (vma_pages v) \<and> nv \<in> F \<and> nv \<noteq> 0 \<and>
     entry (mem s') root1 = entry (mem s) root1 \<and> tables (mem s') root1 = tables (mem s) root1 \<and>
     (\<forall>va. PGALIGNED va \<longrightarrow> IS_USER_VA va \<longrightarrow> va \<notin> set (vma_pages v) \<longrightarrow>
        entry (mem s') root2 va = entry (mem s) root2 va) \<and>
     (\<forall>va \<in> set (vma_pages v). entry (mem s') root2 va = leaf_pte (page_of (mem s') root2 va) (pte_flags v) \<and>
        page_of (mem s') root2 va \<in> set (take k ps) \<and> page_of (mem s') root2 va \<notin> tables (mem s') root2 \<and>
        same_bytes (mem s) (page_of (mem s) root1 va) (mem s') (page_of (mem s') root2 va)) \<and>
     inj_on (page_of (mem s') root2) (set (vma_pages v)) \<and>
     tables (mem s') root2 \<subseteq> tables (mem s) root2 \<union> set (take k ps) \<and>
     (\<forall>P. (\<forall>t \<in> P. PGALIGNED t) \<longrightarrow> P \<inter> (tables (mem s) root2 \<union> set (take k ps)) = {} \<longrightarrow>
        objs_apart (allocs s Vma_alloc) P \<longrightarrow> same_on P (mem s) (mem s')) \<and>
     obj_region (allocs s' Vma_alloc) = obj_region (allocs s Vma_alloc) \<and> same_layout s s' \<and> vm_only s s'"

lemma objs_apart_Un [simp]: "objs_apart a (P \<union> Q) \<longleftrightarrow> objs_apart a P \<and> objs_apart a Q"
  by (auto simp: objs_apart_def)

lemma objs_apart_mono: "objs_apart a P \<Longrightarrow> Q \<subseteq> P \<Longrightarrow> objs_apart a Q"
  by (auto simp: objs_apart_def)

lemma objs_apart_region: "obj_region a = obj_region b \<Longrightarrow> objs_apart a P = objs_apart b P"
  by (simp add: objs_apart_def)

text \<open>Mapping the area and copying its pages: first the copying, into pages that are mapped.\<close>

lemma copy_mapped:
  assumes ok1: "vm_ok s root1 ps" and ok2: "vm_ok s root2 ps" and m: "mapped_range s root2 ps vs f pgs k t"
    and roots: "root1 = mm_pgt (mms s old)" "root2 = mm_pgt (mms s new)"
    and d: "distinct vs" "\<forall>va \<in> set vs. IS_USER_VA va \<and> PGALIGNED va" and f: "f < 1024" "f AND PTE_U \<noteq> 0"
    and t1: "vm_ok t root1 (drop k ps)" "entry (mem t) root1 = entry (mem s) root1" "tables (mem t) root1 = tables (mem s) root1"
    and pg1: "\<And>va. va \<in> set vs \<Longrightarrow> user_page s root1 va"
    "\<And>va. va \<in> set vs \<Longrightarrow> page_of (mem s) root1 va \<notin> tables (mem s) root1 \<union> tables (mem s) root2 \<union> set ps"
  obtains m' where "kfold (copy_page old new) vs (link_vma new nv t) = Inr ((link_vma new nv t)\<lparr>mem := m'\<rparr>)"
    "only_in (set pgs) (mem t) m'" "\<forall>va \<in> set vs. same_bytes (mem t) (page_of (mem s) root1 va) m' (page_of (mem t) root2 va)"
proof -
  define s3 where "s3 = link_vma new nv t"
  note mr = mapped_range_parts [OF m] and pg2 = mapped_range_pages [OF ok2 m d(1) f(1) d(2)]
  note sel = only_memory_sel [OF mr(1)]
  have tk: "set (take k ps) \<subseteq> set ps" by (rule set_take_subset)
  have p1: "page_of (mem t) root1 = page_of (mem s) root1" by (simp add: fun_eq_iff page_of_def t1(2))
  have mem3: "mem s3 = mem t" by (simp add: s3_def)
  have m3: "managed s3 p = managed t p" for p by (simp add: managed_def s3_def)
  have up1: "user_page s3 root1 va" if "va \<in> set vs" for va
    using pg1(1) [OF that] only_memory_managed(1) [OF mr(1)] by (simp add: user_page_def m3 mem3 t1(2) p1)
  have up2: "user_page s3 root2 va" if "va \<in> set vs" for va
  proof -
    obtain i where i: "i < length vs" "va = vs ! i" using \<open>va \<in> set vs\<close> by (auto simp: in_set_conv_nth)
    then have "entry (mem t) root2 va = leaf_pte (pgs ! i) f" using mapped_range_nth [OF m d(1) i(1)] d(2) that by simp
    then show ?thesis using pg2(2) [OF that] leaf_pte_user [OF f(2)] by (simp add: user_page_def mem3 m3)
  qed
  have img: "page_of (mem t) root2 ` set vs = set pgs" using pg2(1) by (metis set_map)
  have "\<exists>m'. kfold (copy_page old new) vs s3 = Inr (s3\<lparr>mem := m'\<rparr>) \<and> only_in (page_of (mem s3) root2 ` set vs) (mem s3) m' \<and>
    (\<forall>va \<in> set vs. same_bytes (mem s3) (page_of (mem s3) root1 va) m' (page_of (mem s3) root2 va))"
  proof (rule copy_loop)
    show "vm_ok s3 root1 (drop k ps)" "vm_ok s3 root2 (drop k ps)" using t1(1) mr(2) by (simp_all add: s3_def)
    show "root1 = mm_pgt (mms s3 old)" "root2 = mm_pgt (mms s3 new)" using roots sel(3) by (auto simp: s3_def)
    show "\<forall>va \<in> set vs. IS_USER_VA va \<and> PGALIGNED va \<and> user_page s3 root1 va \<and> user_page s3 root2 va"
      using d(2) up1 up2 by blast
    have "set pgs \<inter> set (drop k ps) = {}"
      using mr(6) vm_okD(9) [OF ok1] set_take_disj_set_drop_if_distinct [of ps k k] by auto
    moreover have "set pgs \<inter> tables (mem s) root1 = {}" using mr(6) tk vm_okD(7) [OF ok1] by blast
    moreover have "set pgs \<inter> page_of (mem s) root1 ` set vs = {}" using mr(6) tk pg1(2) by blast
    ultimately show "page_of (mem s3) root2 ` set vs \<inter> (tables (mem s3) root1 \<union> tables (mem s3) root2 \<union> set (drop k ps)
      \<union> page_of (mem s3) root1 ` set vs) = {}"
      using mr(8) by (simp add: mem3 img p1 t1(3) Int_Un_distrib)
    show "inj_on (page_of (mem s3) root2) (set vs)" using pg2(3) by (simp add: s3_def)
  qed (rule d(1))
  then obtain m' where "kfold (copy_page old new) vs s3 = Inr (s3\<lparr>mem := m'\<rparr>)" "only_in (set pgs) (mem t) m'"
    "\<forall>va \<in> set vs. same_bytes (mem t) (page_of (mem s) root1 va) m' (page_of (mem t) root2 va)"
    using p1 img mem3 by auto
  then show thesis using that by (simp add: s3_def)
qed

text \<open>The child's space after that: new pages at \<open>vs\<close>, with the bytes of the parent's.\<close>

definition space_filled :: "kst \<Rightarrow> u64 \<Rightarrow> u64 \<Rightarrow> u64 list \<Rightarrow> u64 list \<Rightarrow> u64 \<Rightarrow> nat \<Rightarrow> kst \<Rightarrow> bool" where
  "space_filled s root1 root2 ps vs f k s' \<longleftrightarrow>
     vm_ok s' root1 (drop k ps) \<and> vm_ok s' root2 (drop k ps) \<and>
     entry (mem s') root1 = entry (mem s) root1 \<and> tables (mem s') root1 = tables (mem s) root1 \<and>
     (\<forall>va. PGALIGNED va \<longrightarrow> IS_USER_VA va \<longrightarrow> va \<notin> set vs \<longrightarrow> entry (mem s') root2 va = entry (mem s) root2 va) \<and>
     (\<forall>va \<in> set vs. entry (mem s') root2 va = leaf_pte (page_of (mem s') root2 va) f \<and>
        page_of (mem s') root2 va \<in> set (take k ps) \<and> page_of (mem s') root2 va \<notin> tables (mem s') root2 \<and>
        same_bytes (mem s) (page_of (mem s) root1 va) (mem s') (page_of (mem s') root2 va)) \<and>
     inj_on (page_of (mem s') root2) (set vs) \<and> tables (mem s') root2 \<subseteq> tables (mem s) root2 \<union> set (take k ps) \<and>
     only_in (tables (mem s) root2 \<union> set (take k ps)) (mem s) (mem s') \<and> vm_only s s'"

lemma space_filledI:
  assumes ok1: "vm_ok s root1 ps" and ok2: "vm_ok s root2 ps" and m: "mapped_range s root2 ps vs f pgs k t"
    and d: "distinct vs" "\<forall>va \<in> set vs. IS_USER_VA va \<and> PGALIGNED va" and f: "f < 1024"
    and t1: "vm_ok t root1 (drop k ps)" "entry (mem t) root1 = entry (mem s) root1" "tables (mem t) root1 = tables (mem s) root1"
    and out: "\<And>va. va \<in> set vs \<Longrightarrow> page_of (mem s) root1 va \<notin> tables (mem s) root1 \<union> tables (mem s) root2 \<union> set ps"
    and oi: "only_in (set pgs) (mem t) m'"
    and cp: "\<forall>va \<in> set vs. same_bytes (mem t) (page_of (mem s) root1 va) m' (page_of (mem t) root2 va)"
  shows "space_filled s root1 root2 ps vs f k ((link_vma new nv t)\<lparr>mem := m'\<rparr>)"
proof -
  define s3 where "s3 = link_vma new nv t"
  define s' where "s' = s3\<lparr>mem := m'\<rparr>"
  let ?W = "tables (mem s) root2 \<union> set (take k ps)"
  note mr = mapped_range_parts [OF m] and pg2 = mapped_range_pages [OF ok2 m d(1) f d(2)]
  have mm: "mem s3 = mem t" "freelist s' = freelist s3" "mem s' = m'" by (simp_all add: s3_def s'_def)
  have om: "only_memory s3 s'" by (simp add: s'_def only_memory_def)
  have tk: "set (take k ps) \<subseteq> set ps" by (rule set_take_subset)
  have pgv: "page_of (mem t) root2 va \<in> set pgs" if "va \<in> set vs" for va unfolding pg2(1) [symmetric] using that by simp
  have alp: "\<forall>x \<in> set pgs. PGALIGNED x" unfolding pg2(1) [symmetric] by auto
  have dp: "set pgs \<inter> set (drop k ps) = {}"
    using mr(6) vm_okD(9) [OF ok1] set_take_disj_set_drop_if_distinct [of ps k k] by auto
  have d1: "set pgs \<inter> tables (mem s3) root1 = {}" using mr(6) tk vm_okD(7) [OF ok1] by (auto simp: mm t1(3))
  have d2: "set pgs \<inter> tables (mem s3) root2 = {}" using mr(8) by (simp add: mm)
  have k3: "vm_ok s3 root1 (drop k ps)" "vm_ok s3 root2 (drop k ps)" using t1(1) mr(2) by (simp_all add: s3_def)
  have oi3: "only_in (set pgs) (mem s3) (mem s')" using oi by (simp add: mm)
  note u1 = vm_ok_only_in [OF k3(1) oi3 alp dp d1 om mm(2)] and u2 = vm_ok_only_in [OF k3(2) oi3 alp dp d2 om mm(2)]
  have E: "entry (mem s') root1 = entry (mem s) root1" "entry (mem s') root2 = entry (mem t) root2"
    using u1(2) u2(2) by (simp_all add: fun_eq_iff mm t1(2))
  have P2: "page_of (mem s') root2 = page_of (mem t) root2" by (simp add: fun_eq_iff page_of_def E)
  have T2: "tables (mem s') root2 \<union> set pgs = ?W" using mr(7) u2(3) by (simp add: mm)
  have W: "only_in ?W (mem s) (mem t)" using mr(9) T2 u2(3) by (simp add: mm)
  have new: "entry (mem s') root2 va = leaf_pte (page_of (mem s') root2 va) f \<and>
        page_of (mem s') root2 va \<in> set (take k ps) \<and> page_of (mem s') root2 va \<notin> tables (mem s') root2 \<and>
        same_bytes (mem s) (page_of (mem s) root1 va) (mem s') (page_of (mem s') root2 va)" if va: "va \<in> set vs" for va
    unfolding P2
  proof (intro conjI)
    obtain i where i: "i < length vs" "va = vs ! i" using va by (auto simp: in_set_conv_nth)
    have "page_of (mem t) root2 va = pgs ! i" using i pg2(1) by auto
    then show "entry (mem s') root2 va = leaf_pte (page_of (mem t) root2 va) f"
      using mapped_range_nth [OF m d(1) i(1)] d(2) va i by (simp add: E)
    show "page_of (mem t) root2 va \<in> set (take k ps)" using pgv [OF va] mr(6) by blast
    show "page_of (mem t) root2 va \<notin> tables (mem s') root2" using pgv [OF va] d2 u2(3) by blast
    have "same_on {page_of (mem s) root1 va} (mem s) (mem t)"
    proof (rule only_in_same_on [OF W])
      show "\<forall>x \<in> ?W \<union> {page_of (mem s) root1 va}. PGALIGNED x"
        using vm_okD(8) [OF ok2] vm_okD(10) [OF ok1] tk managed_aligned page_of_aligned by blast
    qed (use out [OF va] tk in blast)
    then show "same_bytes (mem s) (page_of (mem s) root1 va) (mem s') (page_of (mem t) root2 va)"
      using cp va by (auto simp: mm same_bytes_def same_on_def in_page_def PGSIZE_def)
  qed
  have old: "entry (mem s') root2 va = entry (mem s) root2 va" if "PGALIGNED va" "IS_USER_VA va" "va \<notin> set vs" for va
  proof -
    have "map_of (zip vs pgs) va = None" using that(3) mr(4) by (simp add: map_of_zip_is_None)
    then show ?thesis using mr(10) [OF that(1,2)] by (simp only: E option.simps)
  qed
  have "only_in ?W (mem s) (mem s')" by (rule only_in_trans [OF W oi3 [unfolded mm(1)]]) (use mr(6) in auto)
  moreover have "vm_only s s'"
    using only_memory_vm_only [OF mr(1)] only_memory_vm_only [OF om] vm_only_upd(3) vm_only_trans unfolding s3_def by blast
  moreover have "inj_on (page_of (mem s') root2) (set vs)" using pg2(3) by (simp add: P2)
  ultimately show ?thesis
    using u1(1,3) u2(1) E(1) t1(3) T2 new old unfolding s3_def [symmetric] s'_def [symmetric] space_filled_def
    by (simp add: mm(1)) blast
qed

lemma map_and_copy:
  assumes ok1: "vm_ok s root1 ps" and ok2: "vm_ok s root2 ps" and dj: "tables (mem s) root1 \<inter> tables (mem s) root2 = {}"
    and roots: "root1 = mm_pgt (mms s old)" "root2 = mm_pgt (mms s new)"
    and w: "w = vmas s nv" "new = vma_owner w" "vma_fits w" "pte_flags w AND PTE_U \<noteq> 0" and vs: "vs = vma_pages w"
    and pg1: "\<And>va. va \<in> set vs \<Longrightarrow> user_page s root1 va"
    "\<And>va. va \<in> set vs \<Longrightarrow> page_of (mem s) root1 va \<notin> tables (mem s) root1 \<union> tables (mem s) root2 \<union> set ps"
    and inval: "\<And>va. va \<in> set vs \<Longrightarrow> entry (mem s) root2 va AND PTE_V = 0"
    and len: "3 * length vs \<le> length ps"
  obtains t k m' where "mm_mappages nv s = Inr (0, link_vma new nv t)" "only_memory s t" "k \<le> 3 * length vs"
    "kfold (copy_page old new) vs (link_vma new nv t) = Inr ((link_vma new nv t)\<lparr>mem := m'\<rparr>)"
    "space_filled s root1 root2 ps vs (pte_flags w) k ((link_vma new nv t)\<lparr>mem := m'\<rparr>)"
proof -
  have inv': "\<And>va. va \<in> set (vma_pages w) \<Longrightarrow> entry (mem s) (mm_pgt (mms s new)) va AND PTE_V = 0"
    using inval roots vs by simp
  obtain t k pgs where m: "mm_mappages nv s = Inr (0, link_vma new nv t)"
    "mapped_range s root2 ps vs (pte_flags w) pgs k t" "k \<le> 3 * length vs"
    unfolding roots vs by (rule mm_mappages_eq [OF ok2 [unfolded roots] w(1-3) inv' len [unfolded vs]])
  note mr = mapped_range_parts [OF m(2)]
  have d: "distinct vs" "\<forall>va \<in> set vs. IS_USER_VA va \<and> PGALIGNED va" and f: "pte_flags w < 1024"
    using distinct_vma_pages [OF w(3)] vma_pages_user [OF w(3)] w(3) by (auto simp: vs vma_fits_def)
  have tk: "set (take k ps) \<subseteq> set ps" and dk: "set (drop k ps) \<subseteq> set ps"
    by (rule set_take_subset, rule set_drop_subset)
  have so1: "same_on (tables (mem s) root1) (mem s) (mem t)"
  proof (rule only_in_same_on [OF mr(9)])
    show "\<forall>x \<in> tables (mem t) root2 \<union> set pgs \<union> tables (mem s) root1. PGALIGNED x"
      using vm_okD(8) [OF ok1] vm_okD(8) [OF ok2] vm_okD(10) [OF ok1] tk managed_aligned unfolding mr(7) by blast
    show "(tables (mem t) root2 \<union> set pgs) \<inter> tables (mem s) root1 = {}"
      unfolding mr(7) using dj vm_okD(7) [OF ok1] tk by blast
  qed
  note t1 = vm_ok_transfer [OF ok1 so1 vm_okD(6) [OF mr(2)] dk same_layout_only_memory [OF mr(1)]]
  have e1: "entry (mem t) root1 = entry (mem s) root1" using t1(2) by (simp add: fun_eq_iff)
  obtain m' where m': "kfold (copy_page old new) vs (link_vma new nv t) = Inr ((link_vma new nv t)\<lparr>mem := m'\<rparr>)"
    "only_in (set pgs) (mem t) m'" "\<forall>va \<in> set vs. same_bytes (mem t) (page_of (mem s) root1 va) m' (page_of (mem t) root2 va)"
    by (rule copy_mapped [OF ok1 ok2 m(2) roots d f w(4) t1(1) e1 t1(3) pg1])
  show thesis
    by (rule that [OF m(1) mr(1) m(3) m'(1) space_filledI [OF ok1 ok2 m(2) d f t1(1) e1 t1(3) pg1(2) m'(2,3)]])
qed

text \<open>The new area, and the child's space with it.\<close>

lemma copy_ok_upd [simp]:
  "copy_ok (upd_mm mm f s) root1 root2 ps F = copy_ok s root1 root2 ps F"
  "copy_ok (upd_vma v g s) root1 root2 ps F = copy_ok s root1 root2 ps F"
proof -
  have v: "vm_ok (upd_mm mm f s) r ps = vm_ok s r ps" "vm_ok (upd_vma v g s) r ps = vm_ok s r ps" for r
    by (rule vm_ok_cong; simp add: upd_mm_def upd_vma_def)+
  have o: "objs_ok (upd_mm mm f s) A = objs_ok s A" "objs_ok (upd_vma v g s) A = objs_ok s A" for A
    by (simp_all add: objs_ok_def page_mapped_def mapped_def upd_mm_def upd_vma_def)
  show "copy_ok (upd_mm mm f s) root1 root2 ps F = copy_ok s root1 root2 ps F"
    "copy_ok (upd_vma v g s) root1 root2 ps F = copy_ok s root1 root2 ps F"
    by (simp_all only: copy_ok_def v o) (simp_all add: free_objects_def k_free_def upd_mm_def upd_vma_def)
qed

lemma new_area:
  assumes ok: "copy_ok s root1 root2 ps F" and ne: "F \<noteq> {}"
  obtains nv s1 where "mm_create_vma new s = Inr (nv, s1)" "nv \<in> F" "nv \<noteq> 0" "mms s1 = mms s"
    "vmas s1 = (vmas s)(nv := zero_vma\<lparr>vma_owner := new\<rparr>)" "copy_ok s1 root1 root2 ps (F - {nv})"
    "entry (mem s1) root1 = entry (mem s) root1" "entry (mem s1) root2 = entry (mem s) root2"
    "tables (mem s1) root1 = tables (mem s) root1" "tables (mem s1) root2 = tables (mem s) root2"
    "obj_region (allocs s1 Vma_alloc) = obj_region (allocs s Vma_alloc)" "only_region (allocs s Vma_alloc) (mem s) (mem s1)"
    "vm_only s s1"
proof -
  let ?V = Vma_alloc
  have c: "vm_ok s root1 ps" "vm_ok s root2 ps" "tables (mem s) root1 \<inter> tables (mem s) root2 = {}"
    "objs_ok s ?V" "k_free (L_alloc ?V) s" "free_objects s ?V F"
    and ap: "objs_apart (allocs s ?V) (tables (mem s) root1)" "objs_apart (allocs s ?V) (tables (mem s) root2)"
      "objs_apart (allocs s ?V) (set ps)"
    using ok by (simp_all add: copy_ok_def)
  obtain nv s1 where s1: "mm_create_vma new s = Inr (nv, s1)" "nv \<in> F" "nv \<noteq> 0"
    "free_objects s1 ?V (F - {nv})" "objs_ok s1 ?V" "same_layout s s1" "freelist s1 = freelist s" "mms s1 = mms s"
    "vmas s1 = (vmas s)(nv := zero_vma\<lparr>vma_owner := new\<rparr>)" "obj_region (allocs s1 ?V) = obj_region (allocs s ?V)"
    "only_region (allocs s ?V) (mem s) (mem s1)" "vm_only s s1"
    by (rule mm_create_vma_eq [OF c(4) vm_okD(4) [OF c(1)] c(5,6) ne])
  note so = only_region_same_on [OF s1(11)]
  have fp: "free_pages s1 ps" by (rule free_pages_transfer [OF vm_okD(6) [OF c(1)] so [OF ap(3)] s1(6,7)])
  note t1 = vm_ok_transfer [OF c(1) so [OF ap(1)] fp subset_refl s1(6)]
    and t2 = vm_ok_transfer [OF c(2) so [OF ap(2)] fp subset_refl s1(6)]
  have "objs_apart (allocs s1 ?V) P = objs_apart (allocs s ?V) P" for P by (rule objs_apart_region [OF s1(10)])
  then have "copy_ok s1 root1 root2 ps (F - {nv})"
    using t1(1,3) t2(1,3) c(3,5) s1(4,5) ap same_layoutD(5) [OF s1(6)] by (simp add: copy_ok_def)
  then show thesis using that s1(1-3,8-12) t1(2,3) t2(2,3) by (simp add: fun_eq_iff)
qed

lemma space_filled_copy_ok:
  assumes ok: "copy_ok s root1 root2 ps F" and f: "space_filled s root1 root2 ps vs fl k s'" and al: "allocs s' = allocs s"
  shows "copy_ok s' root1 root2 (drop k ps) F"
    and "obj_region (allocs s Vma_alloc) x \<Longrightarrow> mem s' x = mem s x"
proof -
  let ?V = Vma_alloc and ?W = "tables (mem s) root2 \<union> set (take k ps)"
  note c = ok [unfolded copy_ok_def] and d = f [unfolded space_filled_def]
  have vo: "vm_only s s'" and oi: "only_in ?W (mem s) (mem s')" using d by blast+
  note lay = vm_only_layout [OF vo] and tk = set_take_subset [of k ps] and dk = set_drop_subset [of k ps]
  have ap: "objs_apart (allocs s ?V) (tables (mem s) root1 \<union> tables (mem s) root2 \<union> set ps)" using c by blast
  have W: "objs_apart (allocs s ?V) ?W" by (rule objs_apart_mono [OF ap]) (use tk in auto)
  show rg: "obj_region (allocs s ?V) x \<Longrightarrow> mem s' x = mem s x" for x using only_in_apart_region [OF oi W] .
  show "copy_ok s' root1 root2 (drop k ps) F"
    unfolding copy_ok_def
  proof (intro conjI)
    have T: "tables (mem s') root1 = tables (mem s) root1" "tables (mem s') root2 \<subseteq> ?W" using d by blast+
    have "tables (mem s) root1 \<inter> set (take k ps) = {}" using c vm_okD(7) [of s root1 ps] tk by blast
    then show "tables (mem s') root1 \<inter> tables (mem s') root2 = {}" using c T by blast
    show "objs_ok s' ?V" by (rule objs_ok_cong) (use c al vm_only_sel(1) [OF vo] in auto)
    show "free_objects s' ?V F"
      by (rule free_objects_cong [of s]) (use c al rg in \<open>auto simp: obj_region_def\<close>)
    show "k_free (L_alloc ?V) s'" using c same_layoutD(5) [OF lay] by simp
    show "objs_apart (allocs s' ?V) (tables (mem s') root1 \<union> tables (mem s') root2 \<union> set (drop k ps))"
      unfolding al by (rule objs_apart_mono [OF ap]) (use T tk dk in blast)
  qed (use d in blast)+
qed

lemma area_copiedI:
  assumes c: "copy_ok s root1 root2 ps F" and nv: "nv \<in> F" "nv \<noteq> 0" and c1: "copy_ok s1 root1 root2 ps (F - {nv})"
    and e: "entry (mem s1) root1 = entry (mem s) root1" "entry (mem s1) root2 = entry (mem s) root2"
    and T: "tables (mem s1) root1 = tables (mem s) root1" "tables (mem s1) root2 = tables (mem s) root2"
    and rg: "obj_region (allocs s1 Vma_alloc) = obj_region (allocs s Vma_alloc)" "only_region (allocs s Vma_alloc) (mem s) (mem s1)"
    and vo: "vm_only s s1" and ar: "area_ok s root1 root2 ps v"
    and f: "space_filled s1 root1 root2 ps (vma_pages v) (pte_flags v) k s'" and al: "allocs s' = allocs s1"
    and k: "k \<le> 3 * length (vma_pages v)"
  shows "area_copied s root1 root2 ps F v k nv s'"
proof -
  let ?W = "tables (mem s) root2 \<union> set (take k ps)"
  note d = f [unfolded space_filled_def T e] and c' = space_filled_copy_ok(1) [OF c1 f al]
  have ok: "vm_ok s root1 ps" "vm_ok s root2 ps" using c by (simp_all add: copy_ok_def)
  have oi: "only_in ?W (mem s1) (mem s')" using d by blast
  have W: "\<forall>x \<in> ?W. PGALIGNED x"
    using vm_okD(8) [OF ok(2)] vm_okD(10) [OF ok(1)] set_take_subset [of k ps] managed_aligned by blast
  have so: "same_on P (mem s) (mem s1)" if "objs_apart (allocs s Vma_alloc) P" for P by (rule only_region_same_on [OF rg(2) that])
  have fr: "same_on P (mem s) (mem s')" if "\<forall>x \<in> P. PGALIGNED x" "P \<inter> ?W = {}" "objs_apart (allocs s Vma_alloc) P" for P
    by (rule same_on_trans [OF so [OF that(3)] only_in_same_on [OF oi]]) (use that(1,2) W in blast)+
  have bytes: "same_bytes (mem s) (page_of (mem s) root1 va) (mem s') q"
    if "same_bytes (mem s1) (page_of (mem s1) root1 va) (mem s') q" "va \<in> set (vma_pages v)" for va q
  proof -
    have "same_on {page_of (mem s) root1 va} (mem s) (mem s1)" by (rule so) (use area_okD(4) [OF ar that(2)] in simp)
    then show ?thesis using that(1) by (auto simp: page_of_def e same_bytes_def same_on_def in_page_def PGSIZE_def)
  qed
  have "vm_only s s'" using vo d vm_only_trans by blast
  then show ?thesis
    using c' k nv d fr bytes rg(1) vm_only_layout unfolding area_copied_def al by blast
qed

lemma copy_area:
  assumes ok: "copy_ok s root1 root2 ps F" and ar: "area_ok s root1 root2 ps v" and ne: "F \<noteq> {}"
    and roots: "root1 = mm_pgt (mms s old)" "root2 = mm_pgt (mms s new)"
    and v: "v = vmas s vma" "vma \<notin> F" "vma \<noteq> 0" and len: "3 * length (vma_pages v) \<le> length ps"
  obtains s' k nv where "\<forall>n. mm_copy_loop (Suc n) old new vma s = mm_copy_loop n old new (vma_next v) s'"
    "area_copied s root1 root2 ps F v k nv s'"
    "mms s' = (mms s)(new := (mms s new)\<lparr>mm_vma := nv\<rparr>)"
    "vmas s' = (vmas s)(nv := \<lparr>vma_owner = new, vma_next = mm_vma (mms s new), vm_start = vm_start v,
        vm_end = vm_end v, pte_flags = pte_flags v\<rparr>)"
proof -
  let ?vs = "vma_pages v"
  obtain nv s1 where s1: "mm_create_vma new s = Inr (nv, s1)" "nv \<in> F" "nv \<noteq> 0" "mms s1 = mms s"
    "vmas s1 = (vmas s)(nv := zero_vma\<lparr>vma_owner := new\<rparr>)" "copy_ok s1 root1 root2 ps (F - {nv})"
    "entry (mem s1) root1 = entry (mem s) root1" "entry (mem s1) root2 = entry (mem s) root2"
    "tables (mem s1) root1 = tables (mem s) root1" "tables (mem s1) root2 = tables (mem s) root2"
    "obj_region (allocs s1 Vma_alloc) = obj_region (allocs s Vma_alloc)" "only_region (allocs s Vma_alloc) (mem s) (mem s1)"
    "vm_only s s1"
    by (rule new_area [OF ok ne])
  have vn: "vma \<noteq> nv" using v(2) s1(2) by blast
  define s2 where "s2 = upd_vma nv (\<lambda>w. w\<lparr>vm_start := vm_start v, vm_end := vm_end v, pte_flags := pte_flags v\<rparr>) s1"
  define w where "w = vmas s2 nv"
  have s2: "mem s2 = mem s1" "mms s2 = mms s" "allocs s2 = allocs s1" "vmas s2 vma = v" "copy_ok s2 root1 root2 ps (F - {nv})"
    using s1(4-6) v vn by (simp_all add: s2_def) (simp_all add: upd_vma_def)
  have w: "w = \<lparr>vma_owner = new, vma_next = 0, vm_start = vm_start v, vm_end = vm_end v, pte_flags = pte_flags v\<rparr>"
    by (simp add: w_def s2_def upd_vma_def s1(5) zero_vma_def)
  have wp: "new = vma_owner w" "vma_fits w" "pte_flags w AND PTE_U \<noteq> 0" "?vs = vma_pages w"
    using ar by (simp_all add: w vma_pages_def vma_fits_def area_ok_def)
  have vo: "vm_only s s2" using s1(13) vm_only_upd(2) vm_only_trans unfolding s2_def by blast
  have c2: "vm_ok s2 root1 ps" "vm_ok s2 root2 ps" "tables (mem s2) root1 \<inter> tables (mem s2) root2 = {}"
    using s2(5) by (simp_all add: copy_ok_def)
  have r2: "root1 = mm_pgt (mms s2 old)" "root2 = mm_pgt (mms s2 new)" using roots s2(2) by simp_all
  have p2: "page_of (mem s2) root1 = page_of (mem s) root1" by (simp add: fun_eq_iff page_of_def s2(1) s1(7))
  have up: "user_page s2 root1 va" if "va \<in> set ?vs" for va
    using ar that same_layoutD(1) [OF vm_only_layout [OF vo]] by (simp add: area_ok_def user_page_def p2) (simp add: s2(1) s1(7))
  have out: "page_of (mem s2) root1 va \<notin> tables (mem s2) root1 \<union> tables (mem s2) root2 \<union> set ps"
    and inval: "entry (mem s2) root2 va AND PTE_V = 0" if "va \<in> set ?vs" for va
    using ar that unfolding p2 by (simp_all add: area_ok_def s2(1) s1(8-10))
  obtain t k m' where t: "mm_mappages nv s2 = Inr (0, link_vma new nv t)" "only_memory s2 t" "k \<le> 3 * length ?vs"
    "kfold (copy_page old new) ?vs (link_vma new nv t) = Inr ((link_vma new nv t)\<lparr>mem := m'\<rparr>)"
    "space_filled s2 root1 root2 ps ?vs (pte_flags w) k ((link_vma new nv t)\<lparr>mem := m'\<rparr>)"
    by (rule map_and_copy [OF c2 r2 w_def wp up out inval len])
  define s' where "s' = (link_vma new nv t)\<lparr>mem := m'\<rparr>"
  note selt = only_memory_sel [OF t(2)]
  have al: "allocs s' = allocs s2" by (simp add: s'_def selt)
  have f: "space_filled s2 root1 root2 ps ?vs (pte_flags v) k s'" using t(5) by (simp add: s'_def w)
  have ac: "area_copied s root1 root2 ps F v k nv s'"
    by (rule area_copiedI [OF ok s1(2,3) s2(5) _ _ _ _ _ _ vo ar f al t(3)]) (simp_all add: s2(1,3) s1(7-12))
  have "mm_copy_loop (Suc n) old new vma s = mm_copy_loop n old new (vma_next v) s'" for n
  proof -
    have "vmas (link_vma new nv t) vma = v" "vmas s' vma = v" using vn v(1) by (simp_all add: s'_def selt s2(4))
    moreover have "upd_vma nv (\<lambda>w. w\<lparr>vm_start := vm_start (vmas s vma), vm_end := vm_end (vmas s vma),
        pte_flags := pte_flags (vmas s vma)\<rparr>) s1 = s2"
      by (simp add: s2_def v(1))
    ultimately show ?thesis
      using v(3) s1(1) t(1,4) v(1) s1(5) vn by (simp add: Let_def s'_def [symmetric] vma_pages_def)
  qed
  moreover have "mms s' = (mms s)(new := (mms s new)\<lparr>mm_vma := nv\<rparr>)" by (simp add: s'_def selt s2)
  moreover have "vmas s' = (vmas s)(nv := \<lparr>vma_owner = new, vma_next = mm_vma (mms s new), vm_start = vm_start v,
        vm_end = vm_end v, pte_flags = pte_flags v\<rparr>)"
    by (simp add: s'_def selt s2(2)) (simp add: s2_def upd_vma_def s1(5) zero_vma_def)
  ultimately show thesis using that ac by blast
qed

section \<open>All areas\<close>

fun vma_chain :: "(u64 \<Rightarrow> vma_struct) \<Rightarrow> u64 \<Rightarrow> u64 list \<Rightarrow> bool" where
  "vma_chain f l [] \<longleftrightarrow> l = 0"
| "vma_chain f l (x # xs) \<longleftrightarrow> l = x \<and> x \<noteq> 0 \<and> vma_chain f (vma_next (f x)) xs"

lemma vma_chain_cong: "(\<And>x. x \<in> set xs \<Longrightarrow> f x = g x) \<Longrightarrow> vma_chain f l xs = vma_chain g l xs"
  by (induction xs arbitrary: l) auto

definition vma_attrs :: "vma_struct \<Rightarrow> u64 \<times> u64 \<times> u64" where
  "vma_attrs v = (vm_start v, vm_end v, pte_flags v)"

text \<open>The pages of the areas \<open>xs\<close>.\<close>

definition area_pages :: "(u64 \<Rightarrow> vma_struct) \<Rightarrow> u64 list \<Rightarrow> u64 list" where
  "area_pages f xs = concat (map (\<lambda>x. vma_pages (f x)) xs)"

definition pages_copied :: "kst \<Rightarrow> u64 \<Rightarrow> u64 \<Rightarrow> u64 list \<Rightarrow> u64 list \<Rightarrow> nat \<Rightarrow> kst \<Rightarrow> bool" where
  "pages_copied s root1 root2 ps xs K s' \<longleftrightarrow>
     (\<forall>x \<in> set xs. \<forall>va \<in> set (vma_pages (vmas s x)).
        entry (mem s') root2 va = leaf_pte (page_of (mem s') root2 va) (pte_flags (vmas s x)) \<and>
        page_of (mem s') root2 va \<in> set (take K ps) \<and>
        same_bytes (mem s) (page_of (mem s) root1 va) (mem s') (page_of (mem s') root2 va)) \<and>
     inj_on (page_of (mem s') root2) (set (area_pages (vmas s) xs))"

definition mm_copied ::
  "kst \<Rightarrow> u64 \<Rightarrow> u64 \<Rightarrow> u64 list \<Rightarrow> u64 set \<Rightarrow> u64 list \<Rightarrow> u64 list \<Rightarrow> u64 \<Rightarrow> nat \<Rightarrow> u64 list \<Rightarrow> kst \<Rightarrow> bool" where
  "mm_copied s root1 root2 ps F xs bs new K nvs s' \<longleftrightarrow>
     vm_ok s' root1 (drop K ps) \<and> vm_ok s' root2 (drop K ps) \<and>
     entry (mem s') root1 = entry (mem s) root1 \<and>
     (\<forall>va. PGALIGNED va \<longrightarrow> IS_USER_VA va \<longrightarrow> va \<notin> set (area_pages (vmas s) xs) \<longrightarrow>
        entry (mem s') root2 va = entry (mem s) root2 va) \<and>
     pages_copied s root1 root2 ps xs K s' \<and>
     (\<forall>P. (\<forall>t \<in> P. PGALIGNED t) \<longrightarrow> P \<inter> (tables (mem s) root2 \<union> set (take K ps)) = {} \<longrightarrow>
        objs_apart (allocs s Vma_alloc) P \<longrightarrow> same_on P (mem s) (mem s')) \<and>
     (\<forall>x. x \<notin> F \<longrightarrow> vmas s' x = vmas s x) \<and> (\<forall>mm. mm \<noteq> new \<longrightarrow> mms s' mm = mms s mm) \<and>
     vma_chain (vmas s') (mm_vma (mms s' new)) (rev nvs @ bs) \<and>
     map (\<lambda>x. vma_attrs (vmas s' x)) nvs = map (\<lambda>x. vma_attrs (vmas s x)) xs \<and>
     vm_only s s' \<and> tables (mem s') root1 = tables (mem s) root1 \<and> tables (mem s') root2 \<subseteq> tables (mem s) root2 \<union> set (take K ps) \<and>
     mms s' new = (mms s new)\<lparr>mm_vma := mm_vma (mms s' new)\<rparr>"

lemma mm_copied_Nil:
  "copy_ok s root1 root2 ps F \<Longrightarrow> vma_chain (vmas s) (mm_vma (mms s new)) bs \<Longrightarrow>
    mm_copied s root1 root2 ps F [] bs new 0 [] s"
  by (simp add: mm_copied_def copy_ok_def pages_copied_def area_pages_def same_on_def)

lemma area_copiedD:
  assumes "area_copied s root1 root2 ps F v k nv s'"
  shows "copy_ok s' root1 root2 (drop k ps) (F - {nv})" "k \<le> 3 * length (vma_pages v)" "nv \<in> F" "nv \<noteq> 0"
    "entry (mem s') root1 = entry (mem s) root1" "tables (mem s') root1 = tables (mem s) root1"
    "PGALIGNED va \<Longrightarrow> IS_USER_VA va \<Longrightarrow> va \<notin> set (vma_pages v) \<Longrightarrow> entry (mem s') root2 va = entry (mem s) root2 va"
    "va \<in> set (vma_pages v) \<Longrightarrow> entry (mem s') root2 va = leaf_pte (page_of (mem s') root2 va) (pte_flags v) \<and>
        page_of (mem s') root2 va \<in> set (take k ps) \<and> page_of (mem s') root2 va \<notin> tables (mem s') root2 \<and>
        same_bytes (mem s) (page_of (mem s) root1 va) (mem s') (page_of (mem s') root2 va)"
    "inj_on (page_of (mem s') root2) (set (vma_pages v))"
    "tables (mem s') root2 \<subseteq> tables (mem s) root2 \<union> set (take k ps)"
    "(\<forall>t \<in> P. PGALIGNED t) \<Longrightarrow> P \<inter> (tables (mem s) root2 \<union> set (take k ps)) = {} \<Longrightarrow>
        objs_apart (allocs s Vma_alloc) P \<Longrightarrow> same_on P (mem s) (mem s')"
    "objs_apart (allocs s' Vma_alloc) P = objs_apart (allocs s Vma_alloc) P" "same_layout s s'" "vm_only s s'"
proof -
  note a = assms [unfolded area_copied_def]
  show "copy_ok s' root1 root2 (drop k ps) (F - {nv})" using a by (elim conjE)
  show "k \<le> 3 * length (vma_pages v)" using a by (elim conjE)
  show "nv \<in> F" using a by (elim conjE)
  show "nv \<noteq> 0" using a by (elim conjE)
  show "entry (mem s') root1 = entry (mem s) root1" using a by (elim conjE)
  show "tables (mem s') root1 = tables (mem s) root1" using a by (elim conjE)
  show "PGALIGNED va \<Longrightarrow> IS_USER_VA va \<Longrightarrow> va \<notin> set (vma_pages v) \<Longrightarrow> entry (mem s') root2 va = entry (mem s) root2 va"
    using a by (elim conjE) simp
  show "va \<in> set (vma_pages v) \<Longrightarrow> entry (mem s') root2 va = leaf_pte (page_of (mem s') root2 va) (pte_flags v) \<and>
        page_of (mem s') root2 va \<in> set (take k ps) \<and> page_of (mem s') root2 va \<notin> tables (mem s') root2 \<and>
        same_bytes (mem s) (page_of (mem s) root1 va) (mem s') (page_of (mem s') root2 va)"
    using a by (elim conjE) (rule bspec)
  show "inj_on (page_of (mem s') root2) (set (vma_pages v))" using a by (elim conjE)
  show "tables (mem s') root2 \<subseteq> tables (mem s) root2 \<union> set (take k ps)" using a by (elim conjE)
  show "(\<forall>t \<in> P. PGALIGNED t) \<Longrightarrow> P \<inter> (tables (mem s) root2 \<union> set (take k ps)) = {} \<Longrightarrow>
        objs_apart (allocs s Vma_alloc) P \<Longrightarrow> same_on P (mem s) (mem s')"
    using a by (elim conjE) (erule allE [of _ P], simp only: simp_thms)
  show "objs_apart (allocs s' Vma_alloc) P = objs_apart (allocs s Vma_alloc) P"
    using a by (elim conjE) (rule objs_apart_region)
  show "same_layout s s'" using a by (elim conjE)
  show "vm_only s s'" using a by (elim conjE)
qed

text \<open>The other areas are as they were after one has been copied.\<close>

lemma area_ok_step:
  assumes ac: "area_copied s root1 root2 ps F v k nv s1" and ar: "area_ok s root1 root2 ps w"
    and dj: "set (vma_pages w) \<inter> set (vma_pages v) = {}"
  shows "area_ok s1 root1 root2 (drop k ps) w"
proof -
  note d = area_copiedD [OF ac] and a = area_okD [OF ar]
  have pg: "page_of (mem s1) root1 = page_of (mem s) root1" by (simp add: fun_eq_iff page_of_def d(5))
  have "pte_flags w AND PTE_U \<noteq> 0" using ar by (simp add: area_ok_def)
  moreover have "user_page s1 root1 va" if "va \<in> set (vma_pages w)" for va
    using a(2) [OF that] same_layoutD(1) [OF d(13)] by (simp add: user_page_def d(5) pg)
  moreover have "page_of (mem s1) root1 va \<notin> tables (mem s1) root1 \<union> tables (mem s1) root2 \<union> set (drop k ps)"
    if "va \<in> set (vma_pages w)" for va
    using a(3) [OF that] d(10) set_take_subset [of k ps] set_drop_subset [of k ps] unfolding pg d(6) by blast
  moreover have "entry (mem s1) root2 va AND PTE_V = 0" if "va \<in> set (vma_pages w)" for va
  proof -
    have "va \<notin> set (vma_pages v)" using dj that by blast
    then show ?thesis using d(7) a(5,6) [OF that] by simp
  qed
  ultimately show ?thesis using a(1) a(4) by (simp add: area_ok_def d(12) pg)
qed

lemma mm_copiedD:
  assumes "mm_copied s root1 root2 ps F xs bs new K nvs s'"
  shows "vm_ok s' root1 (drop K ps)" "vm_ok s' root2 (drop K ps)" "entry (mem s') root1 = entry (mem s) root1"
    "PGALIGNED va \<Longrightarrow> IS_USER_VA va \<Longrightarrow> va \<notin> set (area_pages (vmas s) xs) \<Longrightarrow>
        entry (mem s') root2 va = entry (mem s) root2 va"
    "pages_copied s root1 root2 ps xs K s'"
    "(\<forall>t \<in> P. PGALIGNED t) \<Longrightarrow> P \<inter> (tables (mem s) root2 \<union> set (take K ps)) = {} \<Longrightarrow>
        objs_apart (allocs s Vma_alloc) P \<Longrightarrow> same_on P (mem s) (mem s')"
    "x \<notin> F \<Longrightarrow> vmas s' x = vmas s x" "mm \<noteq> new \<Longrightarrow> mms s' mm = mms s mm"
    "vma_chain (vmas s') (mm_vma (mms s' new)) (rev nvs @ bs)"
    "map (\<lambda>x. vma_attrs (vmas s' x)) nvs = map (\<lambda>x. vma_attrs (vmas s x)) xs"
    "vm_only s s'" "tables (mem s') root1 = tables (mem s) root1" "tables (mem s') root2 \<subseteq> tables (mem s) root2 \<union> set (take K ps)"
    "mms s' new = (mms s new)\<lparr>mm_vma := mm_vma (mms s' new)\<rparr>"
proof -
  note a = assms [unfolded mm_copied_def]
  show "vm_ok s' root1 (drop K ps)" using a by (elim conjE)
  show "vm_ok s' root2 (drop K ps)" using a by (elim conjE)
  show "entry (mem s') root1 = entry (mem s) root1" using a by (elim conjE)
  show "PGALIGNED va \<Longrightarrow> IS_USER_VA va \<Longrightarrow> va \<notin> set (area_pages (vmas s) xs) \<Longrightarrow>
        entry (mem s') root2 va = entry (mem s) root2 va" using a by (elim conjE) simp
  show "pages_copied s root1 root2 ps xs K s'" using a by (elim conjE)
  show "(\<forall>t \<in> P. PGALIGNED t) \<Longrightarrow> P \<inter> (tables (mem s) root2 \<union> set (take K ps)) = {} \<Longrightarrow>
        objs_apart (allocs s Vma_alloc) P \<Longrightarrow> same_on P (mem s) (mem s')"
    using a by (elim conjE) (erule allE [of _ P], simp only: simp_thms)
  show "x \<notin> F \<Longrightarrow> vmas s' x = vmas s x" using a by (elim conjE) simp
  show "mm \<noteq> new \<Longrightarrow> mms s' mm = mms s mm" using a by (elim conjE) simp
  show "vma_chain (vmas s') (mm_vma (mms s' new)) (rev nvs @ bs)" using a by (elim conjE)
  show "map (\<lambda>x. vma_attrs (vmas s' x)) nvs = map (\<lambda>x. vma_attrs (vmas s x)) xs" using a by (elim conjE)
  show "vm_only s s'" using a by (elim conjE)
  show "tables (mem s') root1 = tables (mem s) root1" using a by (elim conjE)
  show "tables (mem s') root2 \<subseteq> tables (mem s) root2 \<union> set (take K ps)" using a by (elim conjE)
  show "mms s' new = (mms s new)\<lparr>mm_vma := mm_vma (mms s' new)\<rparr>" using a by (elim conjE)
qed

text \<open>The pages of the first area stay as they were copied while the later areas follow.\<close>

lemma copied_first:
  assumes ac: "area_copied s root1 root2 ps F v k nv s1" and c0: "copy_ok s root1 root2 ps F"
    and fit: "\<And>va. va \<in> set (vma_pages v) \<Longrightarrow> PGALIGNED va \<and> IS_USER_VA va"
    and mc: "mm_copied s1 root1 root2 (drop k ps) F' xs bs new K nvs s'"
    and va: "va \<in> set (vma_pages v)" "va \<notin> set (area_pages (vmas s1) xs)"
  shows "page_of (mem s') root2 va = page_of (mem s1) root2 va"
    "entry (mem s') root2 va = leaf_pte (page_of (mem s') root2 va) (pte_flags v)"
    "page_of (mem s') root2 va \<in> set (take k ps)"
    "same_bytes (mem s) (page_of (mem s) root1 va) (mem s') (page_of (mem s') root2 va)"
proof -
  note d = area_copiedD [OF ac] and m = mm_copiedD [OF mc]
  note f = d(8) [OF va(1)]
  have e: "entry (mem s') root2 va = entry (mem s1) root2 va" using m(4) fit [OF va(1)] va(2) by blast
  then show p: "page_of (mem s') root2 va = page_of (mem s1) root2 va" by (simp add: page_of_def)
  show "entry (mem s') root2 va = leaf_pte (page_of (mem s') root2 va) (pte_flags v)" "page_of (mem s') root2 va \<in> set (take k ps)"
    using f unfolding e p by blast+
  have "same_on {page_of (mem s1) root2 va} (mem s1) (mem s')"
  proof (rule m(6))
    have "set (take k ps) \<inter> set (drop k ps) = {}"
      using c0 vm_okD(9) set_take_disj_set_drop_if_distinct [of ps k k] by (auto simp: copy_ok_def)
    then show "{page_of (mem s1) root2 va} \<inter> (tables (mem s1) root2 \<union> set (take K (drop k ps))) = {}"
      using f set_take_subset [of K "drop k ps"] by blast
    have "objs_apart (allocs s Vma_alloc) (set ps)" using c0 by (simp add: copy_ok_def)
    then show "objs_apart (allocs s1 Vma_alloc) {page_of (mem s1) root2 va}"
      unfolding d(12) by (rule objs_apart_mono) (use f set_take_subset [of k ps] in auto)
  qed simp
  then show "same_bytes (mem s) (page_of (mem s) root1 va) (mem s') (page_of (mem s') root2 va)"
    using f unfolding p by (auto simp: same_bytes_def same_on_def in_page_def PGSIZE_def)
qed

lemma copied_later:
  assumes ac: "area_copied s root1 root2 ps F v k nv s1" and ay: "area_ok s root1 root2 ps (vmas s y)"
    and mc: "mm_copied s1 root1 root2 (drop k ps) F' xs bs new K nvs s'"
    and y: "y \<in> set xs" "vmas s1 y = vmas s y" "va \<in> set (vma_pages (vmas s y))"
  shows "entry (mem s') root2 va = leaf_pte (page_of (mem s') root2 va) (pte_flags (vmas s y))"
    "page_of (mem s') root2 va \<in> set (take K (drop k ps))"
    "same_bytes (mem s) (page_of (mem s) root1 va) (mem s') (page_of (mem s') root2 va)"
proof -
  note d = area_copiedD [OF ac] and m = mm_copiedD [OF mc]
  have pg1: "page_of (mem s1) root1 = page_of (mem s) root1" by (simp add: fun_eq_iff page_of_def d(5))
  have f: "entry (mem s') root2 va = leaf_pte (page_of (mem s') root2 va) (pte_flags (vmas s y))"
    "page_of (mem s') root2 va \<in> set (take K (drop k ps))"
    "same_bytes (mem s1) (page_of (mem s) root1 va) (mem s') (page_of (mem s') root2 va)"
    using m(5) y(1,3) y(2) pg1 by (simp_all add: pages_copied_def)
  have "same_on {page_of (mem s) root1 va} (mem s) (mem s1)"
    by (rule d(11)) (use area_okD(3,4) [OF ay y(3)] set_take_subset [of k ps] in auto)
  then show "entry (mem s') root2 va = leaf_pte (page_of (mem s') root2 va) (pte_flags (vmas s y))"
    "page_of (mem s') root2 va \<in> set (take K (drop k ps))"
    "same_bytes (mem s) (page_of (mem s) root1 va) (mem s') (page_of (mem s') root2 va)"
    using f by (auto simp: same_bytes_def same_on_def in_page_def PGSIZE_def)
qed

lemma pages_copied_Cons:
  assumes ac: "area_copied s root1 root2 ps F v k nv s1" and c0: "copy_ok s root1 root2 ps F"
    and v: "v = vmas s x" and vx: "\<And>y. y \<in> set xs \<Longrightarrow> vmas s1 y = vmas s y"
    and areas: "\<forall>y \<in> set (x # xs). area_ok s root1 root2 ps (vmas s y)" and dp: "distinct (area_pages (vmas s) (x # xs))"
    and mc: "mm_copied s1 root1 root2 (drop k ps) F' xs bs new K nvs s'"
  shows "pages_copied s root1 root2 ps (x # xs) (k + K) s'"
proof -
  note d = area_copiedD [OF ac] and m = mm_copiedD [OF mc]
  have ap: "area_pages (vmas s1) xs = area_pages (vmas s) xs" using vx by (simp add: area_pages_def cong: map_cong)
  have pages: "set (area_pages (vmas s) (x # xs)) = set (vma_pages v) \<union> set (area_pages (vmas s) xs)"
    by (simp add: area_pages_def v)
  have djp: "set (vma_pages v) \<inter> set (area_pages (vmas s1) xs) = {}" using dp by (simp add: ap) (simp add: area_pages_def v)
  have tk: "set (take (k + K) ps) = set (take k ps) \<union> set (take K (drop k ps))" by (metis set_append take_add)
  have "distinct ps" using c0 vm_okD(9) by (auto simp: copy_ok_def)
  then have tkd: "set (take k ps) \<inter> set (take K (drop k ps)) = {}"
    using set_take_disj_set_drop_if_distinct [of ps k k] set_take_subset [of K "drop k ps"] by blast
  have fit: "va \<in> set (vma_pages v) \<Longrightarrow> PGALIGNED va \<and> IS_USER_VA va" for va using area_okD(6) areas v by auto
  note first = copied_first [OF ac c0 fit mc] and later = copied_later [OF ac _ mc]
  have out: "va \<notin> set (area_pages (vmas s1) xs)" if "va \<in> set (vma_pages v)" for va using that djp by blast
  have "inj_on (page_of (mem s') root2) (set (vma_pages v) \<union> set (area_pages (vmas s) xs))"
  proof (rule inj_on_Un [THEN iffD2], intro conjI)
    show "inj_on (page_of (mem s') root2) (set (vma_pages v))"
      using d(9) first(1) out by (auto simp: inj_on_def)
    show "inj_on (page_of (mem s') root2) (set (area_pages (vmas s) xs))"
      using m(5) by (simp add: pages_copied_def ap)
    have "page_of (mem s') root2 ` set (vma_pages v) \<subseteq> set (take k ps)" using first(3) out by blast
    moreover have "page_of (mem s') root2 ` set (area_pages (vmas s) xs) \<subseteq> set (take K (drop k ps))"
      using later(2) vx areas by (auto simp: area_pages_def)
    ultimately show "page_of (mem s') root2 ` (set (vma_pages v) - set (area_pages (vmas s) xs)) \<inter>
        page_of (mem s') root2 ` (set (area_pages (vmas s) xs) - set (vma_pages v)) = {}"
      using tkd by blast
  qed
  then show ?thesis
    using first(2-4) out later vx areas tk v unfolding pages_copied_def pages by auto
qed

lemma mm_copied_Cons:
  assumes ac: "area_copied s root1 root2 ps F v k nv s1" and c0: "copy_ok s root1 root2 ps F"
    and v: "v = vmas s x" "x \<notin> F" "set xs \<inter> F = {}"
    and mms1: "mms s1 = (mms s)(new := (mms s new)\<lparr>mm_vma := nv\<rparr>)"
    and vmas1: "\<And>y. y \<noteq> nv \<Longrightarrow> vmas s1 y = vmas s y" "vma_attrs (vmas s1 nv) = vma_attrs v"
    and areas: "\<forall>y \<in> set (x # xs). area_ok s root1 root2 ps (vmas s y)"
    and dp: "distinct (area_pages (vmas s) (x # xs))"
    and mc: "mm_copied s1 root1 root2 (drop k ps) (F - {nv}) xs (nv # bs) new K nvs s'"
  shows "mm_copied s root1 root2 ps F (x # xs) bs new (k + K) (nv # nvs) s'"
proof -
  note d = area_copiedD [OF ac] and m = mm_copiedD [OF mc]
  have vx: "vmas s1 y = vmas s y" if "y \<in> set xs" for y
    using vmas1(1) [of y] that v(3) d(3) by blast
  have pages: "set (area_pages (vmas s) (x # xs)) = set (vma_pages v) \<union> set (area_pages (vmas s1) xs)"
    using vx by (auto simp: area_pages_def v(1))
  have tk: "set (take (k + K) ps) = set (take k ps) \<union> set (take K (drop k ps))"
    by (metis set_append take_add)
  show ?thesis
    unfolding mm_copied_def
  proof (intro conjI allI impI)
    show "vm_ok s' root1 (drop (k + K) ps)" "vm_ok s' root2 (drop (k + K) ps)" using m(1,2) by (simp_all add: add.commute)
    show "entry (mem s') root1 = entry (mem s) root1" using m(3) d(5) by simp
    show "pages_copied s root1 root2 ps (x # xs) (k + K) s'" by (rule pages_copied_Cons [OF ac c0 v(1) vx areas dp mc])
    show "vma_chain (vmas s') (mm_vma (mms s' new)) (rev (nv # nvs) @ bs)" using m(9) by simp
    have "vmas s' nv = vmas s1 nv" by (rule m(7)) simp
    then show "map (\<lambda>y. vma_attrs (vmas s' y)) (nv # nvs) = map (\<lambda>y. vma_attrs (vmas s y)) (x # xs)"
      using m(10) vx vmas1(2) v(1) by simp
    show "vm_only s s'" using vm_only_trans d(14) m(11) by blast
    show "tables (mem s') root1 = tables (mem s) root1" using d(6) m(12) by simp
    show "tables (mem s') root2 \<subseteq> tables (mem s) root2 \<union> set (take (k + K) ps)" using d(10) m(13) tk by blast
    show "mms s' new = (mms s new)\<lparr>mm_vma := mm_vma (mms s' new)\<rparr>" using m(14) mms1 by simp
  next
    fix va assume "PGALIGNED va" "IS_USER_VA va" "va \<notin> set (area_pages (vmas s) (x # xs))"
    then show "entry (mem s') root2 va = entry (mem s) root2 va" using m(4) d(7) unfolding pages by simp
  next
    fix P assume P: "\<forall>t \<in> P. PGALIGNED t" "P \<inter> (tables (mem s) root2 \<union> set (take (k + K) ps)) = {}"
      "objs_apart (allocs s Vma_alloc) P"
    have "same_on P (mem s) (mem s1)" by (rule d(11)) (use P tk in auto)
    moreover have "same_on P (mem s1) (mem s')" by (rule m(6)) (use P tk d(10,12) in auto)
    ultimately show "same_on P (mem s) (mem s')" by (rule same_on_trans)
  next
    fix y assume "y \<notin> F"
    then show "vmas s' y = vmas s y" using m(7) [of y] vmas1(1) [of y] d(3) by auto
  next
    fix mm assume "mm \<noteq> new"
    then show "mms s' mm = mms s mm" using m(8) mms1 by simp
  qed
qed

lemma mm_copy_loop_ok:
  assumes "copy_ok s root1 root2 ps F" and "root1 = mm_pgt (mms s old)" and "root2 = mm_pgt (mms s new)"
    and "old \<noteq> new" and "vma_chain (vmas s) l xs" and "length xs < n" and "length xs \<le> card F"
    and "set xs \<inter> F = {}" and "set bs \<inter> F = {}" and "vma_chain (vmas s) (mm_vma (mms s new)) bs"
    and "\<forall>x \<in> set xs. area_ok s root1 root2 ps (vmas s x)" and "distinct (area_pages (vmas s) xs)"
    and "3 * length (area_pages (vmas s) xs) \<le> length ps"
  shows "\<exists>s' K nvs. mm_copy_loop n old new l s = Inr (0, s') \<and> mm_copied s root1 root2 ps F xs bs new K nvs s'"
  using assms
proof (induction xs arbitrary: s ps F l n bs)
  case Nil
  then obtain n' where "n = Suc n'" by (cases n) auto
  moreover have "l = 0" using Nil.prems(5) by simp
  ultimately have "mm_copy_loop n old new l s = Inr (0, s)" by simp
  then show ?case using mm_copied_Nil Nil.prems(1,10) by blast
next
  case (Cons x xs)
  define v where "v = vmas s x"
  have l: "l = x" "x \<noteq> 0" and ch: "vma_chain (vmas s) (vma_next v) xs" using Cons.prems(5) by (simp_all add: v_def)
  obtain n' where n: "n = Suc n'" "length xs < n'" using Cons.prems(6) by (cases n) auto
  have F: "F \<noteq> {}" and xF: "x \<notin> F" "set xs \<inter> F = {}" using Cons.prems(7,8) by auto
  have ar: "area_ok s root1 root2 ps v" using Cons.prems(11) by (simp add: v_def)
  have ap: "area_pages (vmas s) (x # xs) = vma_pages v @ area_pages (vmas s) xs" by (simp add: area_pages_def v_def)
  have len: "3 * length (vma_pages v) \<le> length ps" using Cons.prems(13) ap by simp
  obtain s1 k nv where s1: "\<forall>n. mm_copy_loop (Suc n) old new x s = mm_copy_loop n old new (vma_next v) s1"
    "area_copied s root1 root2 ps F v k nv s1" "mms s1 = (mms s)(new := (mms s new)\<lparr>mm_vma := nv\<rparr>)"
    "vmas s1 = (vmas s)(nv := \<lparr>vma_owner = new, vma_next = mm_vma (mms s new), vm_start = vm_start v,
        vm_end = vm_end v, pte_flags = pte_flags v\<rparr>)"
    by (rule copy_area [OF Cons.prems(1) ar F Cons.prems(2,3) v_def xF(1) l(2) len])
  note d = area_copiedD [OF s1(2)]
  have vx: "vmas s1 y = vmas s y" if "y \<noteq> nv" for y using that s1(4) by simp
  have xn: "y \<noteq> nv" if "y \<in> set xs \<union> set bs" for y using that xF Cons.prems(9) d(3) by blast
  have ap1: "area_pages (vmas s1) xs = area_pages (vmas s) xs"
    using vx xn by (simp add: area_pages_def cong: map_cong)
  have "\<exists>s' K nvs. mm_copy_loop n' old new (vma_next v) s1 = Inr (0, s') \<and>
    mm_copied s1 root1 root2 (drop k ps) (F - {nv}) xs (nv # bs) new K nvs s'"
  proof (rule Cons.IH [OF d(1)])
    show "root1 = mm_pgt (mms s1 old)" "root2 = mm_pgt (mms s1 new)" using Cons.prems(2,3,4) s1(3) by simp_all
    show "vma_chain (vmas s1) (vma_next v) xs" using ch vma_chain_cong [of xs "vmas s1" "vmas s"] vx xn by simp
    show "length xs \<le> card (F - {nv})" using Cons.prems(7) d(3) by (simp add: card_Diff_singleton)
    show "set xs \<inter> (F - {nv}) = {}" using xF by blast
    show "set (nv # bs) \<inter> (F - {nv}) = {}" using Cons.prems(9) by auto
    have "vma_chain (vmas s1) (mm_vma (mms s new)) bs"
      using Cons.prems(10) vma_chain_cong [of bs "vmas s1" "vmas s"] vx xn by simp
    then show "vma_chain (vmas s1) (mm_vma (mms s1 new)) (nv # bs)" using s1(3,4) d(4) by simp
    show "\<forall>y \<in> set xs. area_ok s1 root1 root2 (drop k ps) (vmas s1 y)"
    proof
      fix y assume y: "y \<in> set xs"
      have "set (vma_pages (vmas s y)) \<inter> set (vma_pages v) = {}"
        using Cons.prems(12) y unfolding ap by (auto simp: area_pages_def)
      then show "area_ok s1 root1 root2 (drop k ps) (vmas s1 y)"
        using area_ok_step [OF s1(2)] Cons.prems(11) y vx xn by simp
    qed
    show "distinct (area_pages (vmas s1) xs)" using Cons.prems(12) unfolding ap ap1 by simp
    show "3 * length (area_pages (vmas s1) xs) \<le> length (drop k ps)"
      using Cons.prems(13) d(2) unfolding ap ap1 by simp
  qed (use n Cons.prems(4) in simp_all)
  then obtain s' K nvs where r: "mm_copy_loop n' old new (vma_next v) s1 = Inr (0, s')"
    "mm_copied s1 root1 root2 (drop k ps) (F - {nv}) xs (nv # bs) new K nvs s'" by blast
  have "mm_copied s root1 root2 ps F (x # xs) bs new (k + K) (nv # nvs) s'"
    by (rule mm_copied_Cons [OF s1(2) Cons.prems(1) v_def xF s1(3) vx _ Cons.prems(11,12) r(2)])
      (simp_all add: s1(4) vma_attrs_def)
  moreover have "mm_copy_loop n old new l s = Inr (0, s')" using s1(1) r(1) n l by simp
  ultimately show ?case by blast
qed

section \<open>The property\<close>

text \<open>C14. \<^verbatim>\<open>mm_copy\<close>, on an address space whose areas are well formed and disjoint, to an empty one, with
  pages and area objects enough: it returns 0; every page of the parent is mapped in the child at the
  same address with the flags of its area, to a page of the child's own that was free, no two to the
  same, holding the same bytes; the parent's entries, the bytes of its pages and its \<^verbatim>\<open>struct mm\<close> are
  unchanged; and the child's list has areas with the same bounds and flags.\<close>

theorem mm_copy_correct:
  assumes "copy_ok s (mm_pgt (mms s old)) (mm_pgt (mms s new)) ps F" and "old \<noteq> new"
    and "vma_chain (vmas s) (mm_vma (mms s old)) xs" and "length xs \<le> 16384" and "length xs \<le> card F"
    and "set xs \<inter> F = {}" and "mm_vma (mms s new) = 0"
    and "\<forall>x \<in> set xs. area_ok s (mm_pgt (mms s old)) (mm_pgt (mms s new)) ps (vmas s x)"
    and "distinct (area_pages (vmas s) xs)" and "3 * length (area_pages (vmas s) xs) \<le> length ps"
  shows "\<exists>s' K nvs. mm_copy old new s = Inr (0, s') \<and>
    vm_ok s' (mm_pgt (mms s old)) (drop K ps) \<and> vm_ok s' (mm_pgt (mms s new)) (drop K ps) \<and>
    pages_copied s (mm_pgt (mms s old)) (mm_pgt (mms s new)) ps xs K s' \<and>
    entry (mem s') (mm_pgt (mms s old)) = entry (mem s) (mm_pgt (mms s old)) \<and>
    (\<forall>va \<in> set (area_pages (vmas s) xs). same_on {page_of (mem s) (mm_pgt (mms s old)) va} (mem s) (mem s')) \<and>
    mms s' old = mms s old \<and> vma_chain (vmas s') (mm_vma (mms s' new)) (rev nvs) \<and>
    map (\<lambda>x. vma_attrs (vmas s' x)) nvs = map (\<lambda>x. vma_attrs (vmas s x)) xs"
proof -
  define root1 where "root1 = mm_pgt (mms s old)"
  define root2 where "root2 = mm_pgt (mms s new)"
  have "length xs < vma_rounds" using assms(4) by (simp add: vma_rounds_def)
  moreover have "vma_chain (vmas s) (mm_vma (mms s new)) []" using assms(7) by simp
  moreover have "set [] \<inter> F = {}" by simp
  ultimately obtain s' K nvs where r:
    "mm_copy_loop vma_rounds old new (mm_vma (mms s old)) s = Inr (0, s')"
    "mm_copied s root1 root2 ps F xs [] new K nvs s'"
    using mm_copy_loop_ok [OF assms(1) refl refl assms(2,3) _ assms(5,6) _ _ assms(8-10)]
    unfolding root1_def root2_def by blast
  note m = mm_copiedD [OF r(2)]
  have fr: "\<forall>va \<in> set (area_pages (vmas s) xs). same_on {page_of (mem s) root1 va} (mem s) (mem s')"
  proof
    fix va assume "va \<in> set (area_pages (vmas s) xs)"
    then obtain x where x: "x \<in> set xs" "va \<in> set (vma_pages (vmas s x))" by (auto simp: area_pages_def)
    then have ar: "area_ok s root1 root2 ps (vmas s x)" using assms(8) by (simp add: root1_def root2_def)
    show "same_on {page_of (mem s) root1 va} (mem s) (mem s')"
      by (rule m(6)) (use area_okD(3,4) [OF ar x(2)] set_take_subset [of K ps] in auto)
  qed
  have "mms s' old = mms s old" by (rule m(8) [OF assms(2)])
  then show ?thesis
    using r(1) m(1,2,3,5,9,10) fr unfolding root1_def [symmetric] root2_def [symmetric] mm_copy_def
    by (intro exI [of _ s'] exI [of _ K] exI [of _ nvs]) simp
qed

end
