(* ===== verification/Uaccess.thy ===== *)
theory Uaccess imports VmCopy begin

text \<open>
  Copying between the kernel and an address space, \<^verbatim>\<open>os/uaccess.c\<close>.
\<close>

section \<open>Operations\<close>

text \<open>The bytes of a page from \<open>a\<close> on, as many as remain in the page but at most \<open>len\<close>.\<close>

definition chunk :: "u64 \<Rightarrow> u64 \<Rightarrow> u64" where
  "chunk a len = (let n = PGSIZE - (a - PGROUNDDOWN a) in if n > len then len else n)"

lemma unat_page_rest: "unat (PGSIZE - (a - PGROUNDDOWN a)) = 4096 - unat a mod 4096"
  using page_offset_less [of a] by (simp add: unat_sub_le order.strict_implies_order unat_page_offset)

lemma chunk_bounds:
  "0 < len \<Longrightarrow> 0 < unat (chunk a len)" "unat (chunk a len) \<le> unat len" "unat (chunk a len) \<le> 4096 - unat a mod 4096"
  "unat (len - chunk a len) = unat len - unat (chunk a len)"
  using unat_page_rest [of a] by (auto simp: chunk_def Let_def word_less_nat_alt word_le_nat_alt unat_sub_le)

lemma chunk_shrinks: "0 < len \<Longrightarrow> unat (len - chunk a len) < unat len"
  using chunk_bounds(1) [of len a] chunk_bounds(2) [of a len] chunk_bounds(4) [of len a] by linarith

function copy_to_user :: "u64 \<Rightarrow> u64 \<Rightarrow> u64 \<Rightarrow> u64 \<Rightarrow> kst \<Rightarrow> halt + i32 \<times> kst" where
  "copy_to_user mm dstva src len s =
     (if len > 0 then
        let va0 = PGROUNDDOWN dstva in
        kbind (walkaddr mm va0 s) (\<lambda>(pa0, s).
        if pa0 = 0 then Inr (-1, s)
        else
          let n = chunk dstva len in
          kbind (k_memmove (PA_TO_KVA pa0 + (dstva - va0)) src (ucast n) s) (\<lambda>s.
          copy_to_user mm (va0 + PGSIZE) (src + n) (len - n) s))
      else Inr (0, s))"
  by pat_completeness auto
termination
  by (relation "measure (\<lambda>(mm, dstva, src, len, s). unat len)")
    (simp, simp add: chunk_shrinks)

function copy_from_user :: "u64 \<Rightarrow> u64 \<Rightarrow> u64 \<Rightarrow> u64 \<Rightarrow> kst \<Rightarrow> halt + i32 \<times> kst" where
  "copy_from_user mm dst srcva len s =
     (if len > 0 then
        let va0 = PGROUNDDOWN srcva in
        kbind (walkaddr mm va0 s) (\<lambda>(pa0, s).
        if pa0 = 0 then Inr (-1, s)
        else
          let n = chunk srcva len in
          kbind (k_memmove dst (PA_TO_KVA pa0 + (srcva - va0)) (ucast n) s) (\<lambda>s.
          copy_from_user mm (dst + n) (va0 + PGSIZE) (len - n) s))
      else Inr (0, s))"
  by pat_completeness auto
termination
  by (relation "measure (\<lambda>(mm, dst, srcva, len, s). unat len)")
    (simp, simp add: chunk_shrinks)

text \<open>The inner loop of \<^verbatim>\<open>copystr_from_user\<close>: whether it found the end, and what it copied.\<close>

fun copystr_page :: "nat \<Rightarrow> u64 \<Rightarrow> u64 \<Rightarrow> i32 \<Rightarrow> kst \<Rightarrow> halt + (bool \<times> u64 \<times> i32) \<times> kst" where
  "copystr_page 0 dst p len s = Inr ((False, dst, len), s)"
| "copystr_page (Suc n) dst p len s =
     kbind (load8 p s) (\<lambda>c.
     kbind (store8 dst c s) (\<lambda>s.
     if c = 0 then Inr ((True, dst, len), s) else copystr_page n (dst + 1) (p + 1) (len + 1) s))"

function copystr_loop :: "u64 \<Rightarrow> u64 \<Rightarrow> u64 \<Rightarrow> u64 \<Rightarrow> i32 \<Rightarrow> kst \<Rightarrow> halt + i32 \<times> kst" where
  "copystr_loop mm dst srcva maxlen len s =
     (if maxlen > 0 then
        let va0 = PGROUNDDOWN srcva in
        kbind (walkaddr mm va0 s) (\<lambda>(pa0, s).
        if pa0 = 0 then Inr (-1, s)
        else
          let n = chunk srcva maxlen in
          kbind (copystr_page (unat n) dst (PA_TO_KVA pa0 + (srcva - va0)) len s) (\<lambda>((got_null, dst, len), s).
          if got_null then Inr (len, s) else copystr_loop mm dst (va0 + PGSIZE) (maxlen - n) len s))
      else Inr (len, s))"
  by pat_completeness auto
termination
  by (relation "measure (\<lambda>(mm, dst, srcva, maxlen, len, s). unat maxlen)")
    (simp, simp add: chunk_shrinks)

definition copystr_from_user :: "u64 \<Rightarrow> u64 \<Rightarrow> u64 \<Rightarrow> u64 \<Rightarrow> kst \<Rightarrow> halt + i32 \<times> kst" where
  "copystr_from_user mm dst srcva maxlen s = copystr_loop mm dst srcva maxlen 0 s"

declare copy_to_user.simps [simp del] copy_from_user.simps [simp del] copystr_loop.simps [simp del]

section \<open>Chunks of a page\<close>

lemma word_less_of_nat: "i < unat (n :: u64) \<Longrightarrow> unat (of_nat i :: u64) = i"
  using unat_less_2p [of n] by (simp add: unat_of_nat_small)

lemma chunk_byte:
  assumes "i < unat (chunk a len)"
  shows "PGROUNDDOWN (a + of_nat i) = PGROUNDDOWN a" and "a + of_nat i - PGROUNDDOWN a = (a - PGROUNDDOWN a) + of_nat i"
proof -
  have i: "i < 4096 - unat a mod 4096" using assms chunk_bounds(3) [of a len] by linarith
  have "unat (a - PGROUNDDOWN a + of_nat i) = unat a mod 4096 + i"
    using i by (subst unat_add_no_wrap) (simp_all add: unat_page_offset unat_of_nat_small)
  then have "a - PGROUNDDOWN a + of_nat i < PGSIZE" using i by (simp add: word_less_nat_alt)
  from PGROUNDDOWN_add_small [OF PGALIGNED_PGROUNDDOWN this, of a]
  show "PGROUNDDOWN (a + of_nat i) = PGROUNDDOWN a" by (simp add: algebra_simps)
qed simp

lemma chunk_next:
  assumes "unat (chunk a len) < unat len"
  shows "PGROUNDDOWN a + PGSIZE = a + chunk a len"
  using assms by (auto simp: chunk_def Let_def split: if_splits)

lemma chunk_last:
  assumes "unat (chunk a len) \<noteq> unat len"
  shows "unat (chunk a len) < unat len" and "PGROUNDDOWN a + PGSIZE = a + chunk a len"
    and "PGALIGNED (a + chunk a len)"
proof -
  show "unat (chunk a len) < unat len" using assms chunk_bounds(2) [of a len] by simp
  from chunk_next [OF this] show e: "PGROUNDDOWN a + PGSIZE = a + chunk a len" .
  show "PGALIGNED (a + chunk a len)"
    using PGALIGNED_step [OF PGALIGNED_PGROUNDDOWN, of a] unfolding e .
qed

lemma unat_chunk_u32: "unat (ucast (chunk a len) :: u32) = unat (chunk a len)"
proof -
  have "unat (chunk a len) \<le> 4096" using chunk_bounds(3) [of a len] by linarith
  then show ?thesis by (simp add: unsigned_ucast_eq take_bit_nat_eq_self)
qed

section \<open>The bytes of an address space\<close>

text \<open>The kernel's address of a user byte.\<close>

definition user_kva :: "mem \<Rightarrow> u64 \<Rightarrow> u64 \<Rightarrow> u64" where
  "user_kva m root va = page_of m root (PGROUNDDOWN va) + (va - PGROUNDDOWN va)"

definition readable :: "kst \<Rightarrow> u64 \<Rightarrow> u64 \<Rightarrow> bool" where
  "readable s root va \<longleftrightarrow> user_page s root (PGROUNDDOWN va)"

definition not_user :: "kst \<Rightarrow> u64 \<Rightarrow> u64 \<Rightarrow> bool" where
  "not_user s root va \<longleftrightarrow> user_pa (mem s) root (PGROUNDDOWN va) = 0"

lemma user_kva_in_page: "in_page (page_of m root (PGROUNDDOWN va)) (user_kva m root va)"
  by (simp add: in_page_def user_kva_def page_offset_less)

lemma user_kva_chunk:
  "i < unat (chunk a len) \<Longrightarrow> user_kva m root (a + of_nat i) = user_kva m root a + of_nat i"
  by (simp add: user_kva_def chunk_byte)

lemma user_kva_inj:
  assumes "user_kva m root va = user_kva m root va'"
    and "page_of m root (PGROUNDDOWN va) = page_of m root (PGROUNDDOWN va') \<longrightarrow> PGROUNDDOWN va = PGROUNDDOWN va'"
  shows "va = va'"
proof -
  have "page_of m root (PGROUNDDOWN va) = page_of m root (PGROUNDDOWN va')"
    using in_page_disjoint [OF page_of_aligned page_of_aligned user_kva_in_page [of m root va]]
      user_kva_in_page [of m root va'] assms(1)
    by simp
  with assms show ?thesis by (simp add: user_kva_def)
qed

text \<open>A write that leaves the tables and the free pages alone keeps the address space.\<close>

definition writes_apart :: "kst \<Rightarrow> u64 \<Rightarrow> u64 list \<Rightarrow> mem \<Rightarrow> bool" where
  "writes_apart s root ps m' \<longleftrightarrow> (\<forall>x. m' x \<noteq> mem s x \<longrightarrow> (\<forall>t \<in> tables (mem s) root \<union> set ps. \<not> in_page t x))"

lemma vm_ok_write:
  assumes ok: "vm_ok s root ps" and w: "writes_apart s root ps m'"
  shows "vm_ok (s\<lparr>mem := m'\<rparr>) root ps" and "entry m' root va = entry (mem s) root va"
    and "tables m' root = tables (mem s) root"
proof -
  have same: "same_on (tables (mem s) root) (mem s) m'" "same_on (set ps) (mem s) m'"
    using w by (auto simp: writes_apart_def same_on_def)
  have lay: "same_layout s (s\<lparr>mem := m'\<rparr>)" by (simp add: same_layout_def k_ready_def k_free_def)
  have fp: "free_pages (s\<lparr>mem := m'\<rparr>) ps"
    by (rule free_pages_transfer [OF vm_okD(6) [OF ok] _ lay]) (use same in simp_all)
  note t = vm_ok_transfer [OF ok _ fp _ lay]
  show "vm_ok (s\<lparr>mem := m'\<rparr>) root ps" "entry m' root va = entry (mem s) root va"
    "tables m' root = tables (mem s) root"
    using t same by simp_all
qed

lemma k_memmove_eq:
  assumes "\<And>i. i < unat n \<Longrightarrow> kmap s (src + of_nat i)" and "\<And>i. i < unat n \<Longrightarrow> kmap s (dst + of_nat i)"
    and "no_wrap src n" and "no_wrap dst n"
  shows "k_memmove dst src n s =
    Inr (s\<lparr>mem := (\<lambda>x. if unat (x - dst) < unat n then mem s (src + (x - dst)) else mem s x)\<rparr>)"
  using assms by (simp add: k_memmove_def mapped_def memmove_eq)

text \<open>
  The first \<open>k\<close> bytes from \<open>a\<close> on are on user pages that are neither tables nor free, and different
  pages of the address space are different pages of memory.
\<close>

definition user_range :: "kst \<Rightarrow> u64 \<Rightarrow> u64 list \<Rightarrow> u64 \<Rightarrow> nat \<Rightarrow> bool" where
  "user_range s root ps a k \<longleftrightarrow>
     (\<forall>i < k. readable s root (a + of_nat i) \<and>
        page_of (mem s) root (PGROUNDDOWN (a + of_nat i)) \<notin> tables (mem s) root \<union> set ps) \<and>
     (\<forall>i < k. \<forall>j < k. page_of (mem s) root (PGROUNDDOWN (a + of_nat i)) = page_of (mem s) root (PGROUNDDOWN (a + of_nat j))
        \<longrightarrow> PGROUNDDOWN (a + of_nat i) = PGROUNDDOWN (a + of_nat j))"

lemma user_range_shift:
  assumes "user_range s root ps a k"
  shows "user_range s root ps (a + of_nat n) (k - n)"
proof -
  have e: "a + of_nat n + of_nat i = a + of_nat (n + i)" for i by simp
  show ?thesis unfolding user_range_def e
  proof (intro conjI allI impI; elim less_diff_conv [THEN iffD1, elim_format])
    fix i assume "i + n < k"
    then show "readable s root (a + of_nat (n + i))"
      "page_of (mem s) root (PGROUNDDOWN (a + of_nat (n + i))) \<notin> tables (mem s) root \<union> set ps"
      using assms by (auto simp: user_range_def add.commute)
  next
    fix i j assume "i + n < k" "j + n < k"
      "page_of (mem s) root (PGROUNDDOWN (a + of_nat (n + i))) = page_of (mem s) root (PGROUNDDOWN (a + of_nat (n + j)))"
    moreover have "n + i < k" "n + j < k" using calculation by simp_all
    ultimately show "PGROUNDDOWN (a + of_nat (n + i)) = PGROUNDDOWN (a + of_nat (n + j))"
      using assms unfolding user_range_def by blast
  qed
qed

lemma user_range_write:
  assumes "vm_ok s root ps" and w: "writes_apart s root ps m'"
  shows "user_range (s\<lparr>mem := m'\<rparr>) root ps a k = user_range s root ps a k"
    and "user_kva m' root va = user_kva (mem s) root va"
    and "not_user (s\<lparr>mem := m'\<rparr>) root va = not_user s root va"
proof -
  note v = vm_ok_write [OF assms]
  have p: "page_of m' root va = page_of (mem s) root va" for va by (simp add: page_of_def v)
  show "user_range (s\<lparr>mem := m'\<rparr>) root ps a k = user_range s root ps a k"
    by (simp add: user_range_def readable_def user_page_def p v managed_def)
  show "user_kva m' root va = user_kva (mem s) root va" by (simp add: user_kva_def p)
  show "not_user (s\<lparr>mem := m'\<rparr>) root va = not_user s root va" by (simp add: not_user_def user_pa_def v)
qed

text \<open>One chunk of an accessible page.\<close>

lemma user_chunk:
  assumes ok: "vm_ok s root ps" and rng: "user_range s root ps a k" and k: "0 < k"
    and user: "unat a + unat len \<le> unat MAXVA" and root: "root = mm_pgt (mms s mm)"
  shows "walkaddr mm (PGROUNDDOWN a) s = Inr (user_pa (mem s) root (PGROUNDDOWN a), s)"
    and "user_pa (mem s) root (PGROUNDDOWN a) \<noteq> 0"
    and "PA_TO_KVA (user_pa (mem s) root (PGROUNDDOWN a)) + (a - PGROUNDDOWN a) = user_kva (mem s) root a"
    and "\<And>i. i < unat (chunk a len) \<Longrightarrow> kmap s (user_kva (mem s) root a + of_nat i)"
    and "unat (user_kva (mem s) root a) + unat (chunk a len) < 2 ^ 64"
proof -
  have "IS_USER_VA a" using user by (simp add: IS_USER_VA_def word_le_nat_alt)
  then show "walkaddr mm (PGROUNDDOWN a) s = Inr (user_pa (mem s) root (PGROUNDDOWN a), s)"
    using walkaddr_eq ok root IS_USER_VA_rounddown by simp
  have up: "user_page s root (PGROUNDDOWN a)"
    using rng k by (auto simp: user_range_def readable_def dest: spec [of _ 0])
  then have man: "managed s (page_of (mem s) root (PGROUNDDOWN a))" by (simp add: user_page_def)
  show e: "PA_TO_KVA (user_pa (mem s) root (PGROUNDDOWN a)) + (a - PGROUNDDOWN a) = user_kva (mem s) root a"
    using user_page_pa [OF up] by (simp add: user_kva_def)
  have "KVA_TO_PA (page_of (mem s) root (PGROUNDDOWN a)) \<noteq> 0"
    using managed_pa_nonzero [OF vm_okD(3) [OF ok] man] .
  then show "user_pa (mem s) root (PGROUNDDOWN a) \<noteq> 0"
    using user_page_pa [OF up] by (metis PA_KVA_inverse(2))
  have pm: "page_mapped s (page_of (mem s) root (PGROUNDDOWN a))"
    using man vm_okD(3) [OF ok] by (simp add: arena_ok_def)
  show "kmap s (user_kva (mem s) root a + of_nat i)" if "i < unat (chunk a len)" for i
  proof -
    have "in_page (page_of (mem s) root (PGROUNDDOWN a)) (user_kva (mem s) root (a + of_nat i))"
      using user_kva_in_page [of "mem s" root "a + of_nat i"] by (simp add: chunk_byte(1) [OF that])
    then show ?thesis using pm by (simp add: page_mapped_iff user_kva_chunk [OF that])
  qed
  have nw: "unat (page_of (mem s) root (PGROUNDDOWN a)) + 4096 < 2 ^ 64"
    using managed_no_wrap [OF vm_okD(3) [OF ok] man] by (simp add: no_wrap_def)
  moreover have "unat (user_kva (mem s) root a) = unat (page_of (mem s) root (PGROUNDDOWN a)) + unat a mod 4096"
    unfolding user_kva_def by (subst unat_page_add) (simp_all add: page_offset_less unat_page_offset)
  ultimately show "unat (user_kva (mem s) root a) + unat (chunk a len) < 2 ^ 64"
    using chunk_bounds(3) [of a len] by linarith
qed

text \<open>When the copy stops at byte \<open>k\<close>, the chunk it starts with is before \<open>k\<close>.\<close>

lemma chunk_before_stop:
  assumes ok: "vm_ok s root ps" and rng: "user_range s root ps a k" and k: "0 < k" "k \<le> unat len"
    and stop: "k < unat len \<longrightarrow> not_user s root (a + of_nat k)"
    and user: "unat a + unat len \<le> unat MAXVA" and root: "root = mm_pgt (mms s mm)"
  shows "unat (chunk a len) \<le> k"
proof (rule ccontr)
  assume "\<not> unat (chunk a len) \<le> k"
  then have kc: "k < unat (chunk a len)" by simp
  then have "k < unat len" using chunk_bounds(2) [of a len] by linarith
  then have "user_pa (mem s) root (PGROUNDDOWN a) = 0"
    using stop chunk_byte(1) [OF kc] by (simp add: not_user_def)
  then show False using user_chunk(2) [OF ok rng k(1) user root] by simp
qed

lemma add_chunk: "a + chunk a len + of_nat i = a + of_nat (unat (chunk a len) + i)"
  by simp

lemma not_user_shift:
  assumes "n \<le> k" and "k < l \<longrightarrow> not_user s root (a + of_nat k)"
  shows "k - n < l - n \<longrightarrow> not_user s root (a + of_nat n + of_nat (k - n))"
  using assms by (simp add: of_nat_diff)

section \<open>copy_to_user\<close>

text \<open>Bytes from elsewhere, for every byte before \<open>k\<close>.\<close>

definition apart_from_user :: "kst \<Rightarrow> u64 \<Rightarrow> u64 \<Rightarrow> u64 \<Rightarrow> nat \<Rightarrow> bool" where
  "apart_from_user s root a b k \<longleftrightarrow> (\<forall>i < k. \<forall>j < k. b + of_nat i \<noteq> user_kva (mem s) root (a + of_nat j))"

lemma apart_from_user_shift:
  assumes "apart_from_user s root a b k"
  shows "apart_from_user s root (a + of_nat n) (b + of_nat n) (k - n)"
  unfolding apart_from_user_def
proof (intro allI impI)
  fix i j assume "i < k - n" "j < k - n"
  then have "n + i < k" "n + j < k" by simp_all
  then have "b + of_nat (n + i) \<noteq> user_kva (mem s) root (a + of_nat (n + j))"
    using assms unfolding apart_from_user_def by blast
  then show "b + of_nat n + of_nat i \<noteq> user_kva (mem s) root (a + of_nat n + of_nat j)"
    by (simp add: add.assoc)
qed

text \<open>\<open>m'\<close> is \<open>m\<close> with the bytes at \<open>g 0, \<dots>\<close> copied to \<open>f 0, \<dots>\<close>; it grows by appending.\<close>

definition copied :: "mem \<Rightarrow> mem \<Rightarrow> (nat \<Rightarrow> u64) \<Rightarrow> (nat \<Rightarrow> u64) \<Rightarrow> nat \<Rightarrow> bool" where
  "copied m m' f g k \<longleftrightarrow> (\<forall>i < k. m' (f i) = m (g i)) \<and> (\<forall>x. (\<forall>i < k. x \<noteq> f i) \<longrightarrow> m' x = m x)"

lemma copied_append:
  assumes one: "copied m m1 f g n" and two: "copied m1 m2 (\<lambda>i. f (n + i)) (\<lambda>i. g (n + i)) (k - n)" and n: "n \<le> k"
    and apart: "\<forall>i < k. \<forall>j < k. g i \<noteq> f j" and inj: "\<forall>i < k. \<forall>j < k. f i = f j \<longrightarrow> i = j"
  shows "copied m m2 f g k"
proof -
  have two': "m2 (f i) = m1 (g i)" if "n \<le> i" "i < k" for i
  proof -
    have "i - n < k - n" and "n + (i - n) = i" using that by simp_all
    then show ?thesis using two unfolding copied_def by metis
  qed
  have rest: "m2 x = m1 x" if "\<And>i. n \<le> i \<Longrightarrow> i < k \<Longrightarrow> x \<noteq> f i" for x
    using two that unfolding copied_def by (metis add.commute le_add1 less_diff_conv)
  have m1: "m1 (g i) = m (g i)" if "i < k" for i
    using one apart that n unfolding copied_def by (meson order.strict_trans2)
  have "m2 (f i) = m (g i)" if i: "i < k" for i
  proof (cases "n \<le> i")
    case True
    then show ?thesis using two' m1 i by simp
  next
    case False
    then have "f i \<noteq> f j" if "n \<le> j" "j < k" for j using inj i that False by metis
    then have "m2 (f i) = m1 (f i)" by (rule rest)
    then show ?thesis using one False unfolding copied_def by simp
  qed
  moreover have "m2 x = m x" if x: "\<forall>i < k. x \<noteq> f i" for x
  proof -
    have "m2 x = m1 x" using x by (intro rest) simp
    then show ?thesis using one x n unfolding copied_def by (metis order.strict_trans2)
  qed
  ultimately show ?thesis by (simp add: copied_def)
qed

lemma copied_move:
  assumes f: "\<And>i. i < n \<Longrightarrow> f i = f0 + of_nat i" and g: "\<And>i. i < n \<Longrightarrow> g i = g0 + of_nat i" and n: "n < 2 ^ 64"
  shows "copied m (\<lambda>x. if unat (x - f0) < n then m (g0 + (x - f0)) else m x) f g n"
  unfolding copied_def
proof (intro conjI allI impI)
  fix i assume "i < n"
  then show "(if unat (f i - f0) < n then m (g0 + (f i - f0)) else m (f i)) = m (g i)"
    using n by (simp add: f g unat_of_nat_small)
next
  fix x assume x: "\<forall>i < n. x \<noteq> f i"
  have "\<not> unat (x - f0) < n"
  proof
    assume lt: "unat (x - f0) < n"
    have "x = f0 + of_nat (unat (x - f0))" by simp
    then show False using x lt f by metis
  qed
  then show "(if unat (x - f0) < n then m (g0 + (x - f0)) else m x) = m x" by simp
qed

definition copied_out :: "mem \<Rightarrow> mem \<Rightarrow> u64 \<Rightarrow> u64 \<Rightarrow> u64 \<Rightarrow> nat \<Rightarrow> bool" where
  "copied_out m m' root dst src k \<longleftrightarrow>
     copied m m' (\<lambda>i. user_kva m root (dst + of_nat i)) (\<lambda>i. src + of_nat i) k"

definition copied_in :: "mem \<Rightarrow> mem \<Rightarrow> u64 \<Rightarrow> u64 \<Rightarrow> u64 \<Rightarrow> nat \<Rightarrow> bool" where
  "copied_in m m' root src dst k \<longleftrightarrow>
     copied m m' (\<lambda>i. dst + of_nat i) (\<lambda>i. user_kva m root (src + of_nat i)) k"

lemma copied_out_writes_apart:
  assumes "user_range s root ps a k" and "copied_out (mem s) m' root a b k" and "vm_ok s root ps"
  shows "writes_apart s root ps m'"
  unfolding writes_apart_def
proof (intro allI impI ballI)
  fix x t assume "m' x \<noteq> mem s x" and t: "t \<in> tables (mem s) root \<union> set ps"
  then obtain i where i: "i < k" "x = user_kva (mem s) root (a + of_nat i)"
    using assms(2) unfolding copied_out_def copied_def by blast
  have "PGALIGNED t" using t vm_okD(8,10) [OF assms(3)] by (auto simp: managed_def)
  moreover have "page_of (mem s) root (PGROUNDDOWN (a + of_nat i)) \<noteq> t"
    using assms(1) i(1) t unfolding user_range_def by blast
  ultimately show "\<not> in_page t x"
    using in_page_disjoint [OF page_of_aligned _ user_kva_in_page] i(2) by blast
qed

lemma copied_out_append:
  assumes one: "copied_out m m1 root a b n" and two: "copied_out m1 m2 root (a + of_nat n) (b + of_nat n) (k - n)"
    and n: "n \<le> k" and kva: "\<And>va. user_kva m1 root va = user_kva m root va"
    and src: "\<forall>i < k. \<forall>j < k. b + of_nat i \<noteq> user_kva m root (a + of_nat j)"
    and inj: "\<forall>i < k. \<forall>j < k. user_kva m root (a + of_nat i) = user_kva m root (a + of_nat j) \<longrightarrow> a + of_nat i = a + of_nat j"
    and small: "k \<le> 2 ^ 63"
  shows "copied_out m m2 root a b k"
proof -
  have "\<forall>i < k. \<forall>j < k. user_kva m root (a + of_nat i) = user_kva m root (a + of_nat j) \<longrightarrow> i = j"
    using inj small word_of_nat_eq_iff_small [where 'a = 64] by fastforce
  with copied_append [OF one [unfolded copied_out_def] _ n] two src show ?thesis
    by (simp add: copied_out_def kva add.assoc)
qed

lemma copied_in_append:
  assumes one: "copied_in m m1 root a b n" and two: "copied_in m1 m2 root (a + of_nat n) (b + of_nat n) (k - n)"
    and n: "n \<le> k" and kva: "\<And>va. user_kva m1 root va = user_kva m root va"
    and src: "\<forall>i < k. \<forall>j < k. b + of_nat i \<noteq> user_kva m root (a + of_nat j)" and small: "k \<le> 2 ^ 63"
  shows "copied_in m m2 root a b k"
proof -
  have "\<forall>i < k. \<forall>j < k. b + of_nat i = b + of_nat j \<longrightarrow> i = j"
    using small word_of_nat_eq_iff_small [where 'a = 64] by fastforce
  moreover have "\<forall>i < k. \<forall>j < k. user_kva m root (a + of_nat i) \<noteq> b + of_nat j" using src by metis
  ultimately show ?thesis
    using copied_append [OF one [unfolded copied_in_def] _ n] two by (simp add: copied_in_def kva add.assoc)
qed

lemma user_range_inj:
  "user_range s root ps a k \<Longrightarrow> \<forall>i < k. \<forall>j < k. user_kva (mem s) root (a + of_nat i) = user_kva (mem s) root (a + of_nat j)
     \<longrightarrow> a + of_nat i = a + of_nat j"
  unfolding user_range_def using user_kva_inj by blast

lemma user_range_mono: "user_range s root ps a k \<Longrightarrow> n \<le> k \<Longrightarrow> user_range s root ps a n"
  unfolding user_range_def by (meson order.strict_trans2)

lemma MAXVA_small: "unat MAXVA = 274877906944"
  by (simp add: MAXVA_def)

text \<open>The addresses of what is left after a chunk.\<close>

lemma chunk_rest:
  assumes "unat (chunk a len) < unat len" and "unat a + unat len \<le> unat MAXVA"
  shows "unat (a + chunk a len) + unat (len - chunk a len) \<le> unat MAXVA"
proof -
  have "unat (a + chunk a len) = unat a + unat (chunk a len)"
    by (rule unat_add_no_wrap) (use assms MAXVA_small in simp)
  then show ?thesis using assms chunk_bounds(4) [of len a] by simp
qed

lemma src_rest:
  assumes "unat (chunk a len) \<le> unat len" and "unat b + unat len < 2 ^ 64"
  shows "unat (b + chunk a len) + unat (len - chunk a len) < 2 ^ 64"
proof -
  have "unat (b + chunk a len) = unat b + unat (chunk a len)"
    by (rule unat_add_no_wrap) (use assms in simp)
  then show ?thesis using assms chunk_bounds(4) [of len a] by simp
qed

lemma copy_to_user_stop:
  assumes ok: "vm_ok s root ps" and root: "root = mm_pgt (mms s mm)" and user: "unat a + unat len \<le> unat MAXVA"
    and "0 < len" and "not_user s root a"
  shows "copy_to_user mm a b len s = Inr (-1, s)" and "copy_from_user mm b a len s = Inr (-1, s)"
proof -
  have "IS_USER_VA a" using user by (simp add: IS_USER_VA_def word_le_nat_alt)
  then have "walkaddr mm (PGROUNDDOWN a) s = Inr (0, s)"
    using walkaddr_eq [of s mm ps] ok root assms(5) IS_USER_VA_rounddown by (simp add: not_user_def)
  then show "copy_to_user mm a b len s = Inr (-1, s)" "copy_from_user mm b a len s = Inr (-1, s)"
    using assms(4) by (subst copy_to_user.simps copy_from_user.simps, simp add: Let_def)+
qed

lemma copy_to_user_chunk:
  assumes ok: "vm_ok s root ps" and root: "root = mm_pgt (mms s mm)" and user: "unat a + unat len \<le> unat MAXVA"
    and src: "unat b + unat len < 2 ^ 64" "\<forall>i < k. kmap s (b + of_nat i)"
    and rng: "user_range s root ps a k" and k: "0 < k" and n: "unat (chunk a len) \<le> k" and len: "0 < len"
  obtains m1 where "copy_to_user mm a b len s =
      copy_to_user mm (PGROUNDDOWN a + PGSIZE) (b + chunk a len) (len - chunk a len) (s\<lparr>mem := m1\<rparr>)"
    "copied_out (mem s) m1 root a b (unat (chunk a len))" "writes_apart s root ps m1"
proof -
  let ?n = "unat (chunk a len)" and ?d = "user_kva (mem s) root a"
  note c = user_chunk [OF ok rng k user root]
  define m1 where "m1 = (\<lambda>x. if unat (x - ?d) < ?n then mem s (b + (x - ?d)) else mem s x)"
  have out: "copied_out (mem s) m1 root a b ?n"
    unfolding m1_def copied_out_def
    by (rule copied_move) (simp_all add: user_kva_chunk unat_less_2p [where 'a = 64, simplified])
  have mv: "k_memmove ?d b (ucast (chunk a len)) s = Inr (s\<lparr>mem := m1\<rparr>)"
    unfolding m1_def
    by (subst k_memmove_eq)
      (use src n c(4,5) chunk_bounds(2) [of a len] in \<open>simp_all add: unat_chunk_u32 no_wrap_def\<close>)
  have "copy_to_user mm a b len s =
      copy_to_user mm (PGROUNDDOWN a + PGSIZE) (b + chunk a len) (len - chunk a len) (s\<lparr>mem := m1\<rparr>)"
    using len by (subst copy_to_user.simps) (simp add: Let_def c(1-3) mv)
  moreover have "writes_apart s root ps m1"
    by (rule copied_out_writes_apart [OF user_range_mono [OF rng n] out ok])
  ultimately show thesis using that out by blast
qed

section \<open>copy_from_user\<close>

text \<open>The kernel's buffer is mapped and outside the tables and the free pages.\<close>

definition buffer_ok :: "kst \<Rightarrow> u64 \<Rightarrow> u64 list \<Rightarrow> u64 \<Rightarrow> nat \<Rightarrow> bool" where
  "buffer_ok s root ps b k \<longleftrightarrow>
     (\<forall>i < k. kmap s (b + of_nat i) \<and> (\<forall>t \<in> tables (mem s) root \<union> set ps. \<not> in_page t (b + of_nat i)))"

lemma buffer_ok_shift: "buffer_ok s root ps b k \<Longrightarrow> buffer_ok s root ps (b + of_nat n) (k - n)"
  unfolding buffer_ok_def
proof (intro allI impI)
  fix i
  assume "\<forall>i < k. kmap s (b + of_nat i) \<and> (\<forall>t \<in> tables (mem s) root \<union> set ps. \<not> in_page t (b + of_nat i))"
    and "i < k - n"
  moreover have "n + i < k" using calculation(2) by simp
  ultimately have "kmap s (b + of_nat (n + i)) \<and>
    (\<forall>t \<in> tables (mem s) root \<union> set ps. \<not> in_page t (b + of_nat (n + i)))" by blast
  then show "kmap s (b + of_nat n + of_nat i) \<and>
    (\<forall>t \<in> tables (mem s) root \<union> set ps. \<not> in_page t (b + of_nat n + of_nat i))"
    by (simp add: add.assoc)
qed

lemma buffer_ok_mono: "buffer_ok s root ps b k \<Longrightarrow> n \<le> k \<Longrightarrow> buffer_ok s root ps b n"
  unfolding buffer_ok_def by (meson order.strict_trans2)

lemma buffer_ok_write:
  assumes "vm_ok s root ps" and "writes_apart s root ps m'"
  shows "buffer_ok (s\<lparr>mem := m'\<rparr>) root ps b k = buffer_ok s root ps b k"
  by (simp add: buffer_ok_def vm_ok_write [OF assms])

lemma copied_in_writes_apart:
  "copied_in (mem s) m' root a b k \<Longrightarrow> buffer_ok s root ps b k \<Longrightarrow> writes_apart s root ps m'"
  unfolding writes_apart_def copied_in_def copied_def buffer_ok_def by metis

lemma copy_from_user_chunk:
  assumes ok: "vm_ok s root ps" and root: "root = mm_pgt (mms s mm)" and user: "unat a + unat len \<le> unat MAXVA"
    and dst: "unat b + unat len < 2 ^ 64" "buffer_ok s root ps b k"
    and rng: "user_range s root ps a k" and k: "0 < k" and n: "unat (chunk a len) \<le> k" and len: "0 < len"
  obtains m1 where "copy_from_user mm b a len s =
      copy_from_user mm (b + chunk a len) (PGROUNDDOWN a + PGSIZE) (len - chunk a len) (s\<lparr>mem := m1\<rparr>)"
    "copied_in (mem s) m1 root a b (unat (chunk a len))" "writes_apart s root ps m1"
proof -
  let ?n = "unat (chunk a len)" and ?d = "user_kva (mem s) root a"
  note c = user_chunk [OF ok rng k user root]
  define m1 where "m1 = (\<lambda>x. if unat (x - b) < ?n then mem s (?d + (x - b)) else mem s x)"
  have into: "copied_in (mem s) m1 root a b ?n"
    unfolding m1_def copied_in_def
    by (rule copied_move) (simp_all add: user_kva_chunk unat_less_2p [where 'a = 64, simplified])
  have mv: "k_memmove b ?d (ucast (chunk a len)) s = Inr (s\<lparr>mem := m1\<rparr>)"
    unfolding m1_def
    by (subst k_memmove_eq)
      (use dst n c(4,5) chunk_bounds(2) [of a len] in \<open>simp_all add: unat_chunk_u32 no_wrap_def buffer_ok_def\<close>)
  have "copy_from_user mm b a len s =
      copy_from_user mm (b + chunk a len) (PGROUNDDOWN a + PGSIZE) (len - chunk a len) (s\<lparr>mem := m1\<rparr>)"
    using len by (subst copy_from_user.simps) (simp add: Let_def c(1-3) mv)
  moreover have "writes_apart s root ps m1"
    by (rule copied_in_writes_apart [OF into buffer_ok_mono [OF dst(2) n]])
  ultimately show thesis using that into by blast
qed

section \<open>The loop over the pages\<close>

text \<open>
  What the two routines have in common: a chunk is copied when its page is the user's, the copy stops when
  it is not, and the bytes copied add up. \<open>buf_ok\<close> is what the routine needs of the kernel's buffer.
\<close>

locale user_copy =
  fixes copy :: "u64 \<Rightarrow> u64 \<Rightarrow> u64 \<Rightarrow> u64 \<Rightarrow> kst \<Rightarrow> halt + i32 \<times> kst"
    and buf_ok :: "kst \<Rightarrow> u64 \<Rightarrow> u64 list \<Rightarrow> u64 \<Rightarrow> nat \<Rightarrow> bool"
    and bytes :: "mem \<Rightarrow> mem \<Rightarrow> u64 \<Rightarrow> u64 \<Rightarrow> u64 \<Rightarrow> nat \<Rightarrow> bool"
  assumes copy_none: "copy mm a b 0 s = Inr (0, s)"
    and copy_stop: "vm_ok s root ps \<Longrightarrow> root = mm_pgt (mms s mm) \<Longrightarrow> unat a + unat len \<le> unat MAXVA \<Longrightarrow> 0 < len \<Longrightarrow>
      not_user s root a \<Longrightarrow> copy mm a b len s = Inr (-1, s)"
    and copy_chunk: "vm_ok s root ps \<Longrightarrow> root = mm_pgt (mms s mm) \<Longrightarrow> unat a + unat len \<le> unat MAXVA \<Longrightarrow>
      unat b + unat len < 2 ^ 64 \<Longrightarrow> buf_ok s root ps b k \<Longrightarrow> user_range s root ps a k \<Longrightarrow> 0 < k \<Longrightarrow> unat (chunk a len) \<le> k \<Longrightarrow>
      0 < len \<Longrightarrow> \<exists>m1. copy mm a b len s = copy mm (PGROUNDDOWN a + PGSIZE) (b + chunk a len) (len - chunk a len) (s\<lparr>mem := m1\<rparr>) \<and>
        bytes (mem s) m1 root a b (unat (chunk a len)) \<and> writes_apart s root ps m1"
    and buf_rest: "vm_ok s root ps \<Longrightarrow> writes_apart s root ps m1 \<Longrightarrow> buf_ok s root ps b k \<Longrightarrow>
      buf_ok (s\<lparr>mem := m1\<rparr>) root ps (b + of_nat n) (k - n)"
    and bytes_none: "bytes m m root a b 0"
    and bytes_append: "user_range s root ps a k \<Longrightarrow> apart_from_user s root a b k \<Longrightarrow> k \<le> 2 ^ 63 \<Longrightarrow> n \<le> k \<Longrightarrow>
      (\<And>va. user_kva m1 root va = user_kva (mem s) root va) \<Longrightarrow> bytes (mem s) m1 root a b n \<Longrightarrow>
      bytes m1 m2 root (a + of_nat n) (b + of_nat n) (k - n) \<Longrightarrow> bytes (mem s) m2 root a b k"
begin

lemma run:
  assumes "vm_ok s root ps" and "root = mm_pgt (mms s mm)" and "unat a + unat len \<le> unat MAXVA"
    and "unat b + unat len < 2 ^ 64" and "k \<le> unat len" and "buf_ok s root ps b k"
    and "user_range s root ps a k" and "apart_from_user s root a b k"
    and "k < unat len \<longrightarrow> not_user s root (a + of_nat k)"
  shows "\<exists>m'. copy mm a b len s = Inr (if k = unat len then 0 else -1, s\<lparr>mem := m'\<rparr>) \<and> bytes (mem s) m' root a b k"
  using assms
proof (induction "unat len" arbitrary: a b len k s rule: less_induct)
  case less
  note ok = less.prems(1) and root = less.prems(2) and user = less.prems(3) and rng = less.prems(7)
  consider "len = 0" | "0 < len" "k = 0" | "0 < len" "0 < k" by (auto simp: word_gt_0)
  then show ?case
  proof cases
    case 1
    then show ?thesis using less.prems(5) by (auto simp: copy_none bytes_none intro: exI [of _ "mem s"])
  next
    case 2
    then show ?thesis
      using copy_stop [OF ok root user 2(1)] less.prems(9) by (auto simp: word_less_nat_alt bytes_none intro: exI [of _ "mem s"])
  next
    case 3
    define n where "n = unat (chunk a len)"
    have n: "0 < n" "n \<le> unat len" and nk: "n \<le> k"
      using chunk_bounds(1) [of len a] chunk_bounds(2) [of a len] 3(1)
        chunk_before_stop [OF ok rng 3(2) less.prems(5,9) user root]
      by (simp_all add: n_def)
    obtain m1 where m1: "copy mm a b len s = copy mm (PGROUNDDOWN a + PGSIZE) (b + chunk a len) (len - chunk a len) (s\<lparr>mem := m1\<rparr>)"
      "bytes (mem s) m1 root a b n" "writes_apart s root ps m1"
      using copy_chunk [OF ok root user less.prems(4,6) rng 3(2) nk [unfolded n_def] 3(1)] by (auto simp: n_def)
    define s1 where "s1 = s\<lparr>mem := m1\<rparr>"
    note w = user_range_write [OF ok m1(3)]
    have ch: "chunk a len = of_nat n" and un: "unat (of_nat n :: u64) = n" by (simp_all add: n_def)
    have rest: "unat (len - chunk a len) = unat len - n" using chunk_bounds(4) [of len a] by (simp add: n_def)
    have "\<exists>m'. copy mm (PGROUNDDOWN a + PGSIZE) (b + chunk a len) (len - chunk a len) s1 =
        Inr (if k = unat len then 0 else -1, s1\<lparr>mem := m'\<rparr>) \<and> bytes m1 m' root (a + of_nat n) (b + of_nat n) (k - n)"
    proof (cases "n < unat len")
      case True
      have nx: "PGROUNDDOWN a + PGSIZE = a + of_nat n" using chunk_next [of a len] True by (simp only: ch un)
      have "\<exists>m'. copy mm (a + of_nat n) (b + of_nat n) (len - chunk a len) s1 =
          Inr (if k - n = unat (len - chunk a len) then 0 else -1, s1\<lparr>mem := m'\<rparr>) \<and>
          bytes (mem s1) m' root (a + of_nat n) (b + of_nat n) (k - n)"
      proof (rule less.hyps)
        show "unat (a + of_nat n) + unat (len - chunk a len) \<le> unat MAXVA"
          using chunk_rest [of a len] True user by (simp only: ch un)
        show "unat (b + of_nat n) + unat (len - chunk a len) < 2 ^ 64"
          using src_rest [of a len b] n(2) less.prems(4) by (simp only: ch un)
        show "user_range s1 root ps (a + of_nat n) (k - n)"
          using user_range_shift [OF rng] w(1) by (simp add: s1_def)
        show "apart_from_user s1 root (a + of_nat n) (b + of_nat n) (k - n)"
          using apart_from_user_shift [OF less.prems(8), of n] w(2) by (simp add: apart_from_user_def s1_def)
        show "k - n < unat (len - chunk a len) \<longrightarrow> not_user s1 root (a + of_nat n + of_nat (k - n))"
          using not_user_shift [OF nk less.prems(9)] w(3) unfolding rest s1_def by simp
      qed (use rest n root less.prems(5,6) buf_rest [OF ok m1(3)] vm_ok_write(1) [OF ok m1(3)] in \<open>simp_all add: s1_def\<close>)
      then show ?thesis using nk n rest less.prems(5) by (auto simp: nx ch s1_def)
    next
      case False
      then have "n = unat len" "k = n" using n(2) nk less.prems(5) by simp_all
      then have "len - chunk a len = 0" by (simp add: ch)
      then show ?thesis using \<open>k = n\<close> \<open>n = unat len\<close> by (auto simp: s1_def copy_none bytes_none intro: exI [of _ m1])
    qed
    then obtain m' where m': "copy mm a b len s = Inr (if k = unat len then 0 else -1, s\<lparr>mem := m'\<rparr>)"
      "bytes m1 m' root (a + of_nat n) (b + of_nat n) (k - n)"
      using m1(1) by (auto simp: s1_def)
    have "bytes (mem s) m' root a b k"
      by (rule bytes_append [OF rng less.prems(8) _ nk w(2) m1(2) m'(2)]) (use user less.prems(5) MAXVA_small in simp)
    with m'(1) show ?thesis by blast
  qed
qed

end

interpretation to_user: user_copy copy_to_user "\<lambda>s root ps b k. \<forall>i < k. kmap s (b + of_nat i)" copied_out
proof (unfold_locales, goal_cases)
  case (1 mm a b s)
  then show ?case by (subst copy_to_user.simps) simp
next
  case (2 s root ps mm a len b)
  then show ?case by (rule copy_to_user_stop(1))
next
  case (3 s root ps mm a len b k)
  then show ?case using copy_to_user_chunk by metis
next
  case (4 s root ps m1 b k n)
  show ?case
  proof (intro allI impI)
    fix i assume "i < k - n"
    then have "n + i < k" by simp
    then have "kmap s (b + of_nat (n + i))" using 4(3) by blast
    then show "kmap (s\<lparr>mem := m1\<rparr>) (b + of_nat n + of_nat i)" by (simp add: add.assoc)
  qed
next
  case (5 m root a b)
  show ?case by (simp add: copied_out_def copied_def)
next
  case (6 s root ps a k b n m1 m2)
  show ?case
    by (rule copied_out_append [OF 6(6,7,4,5) _ user_range_inj [OF 6(1)] 6(3)]) (use 6(2) in \<open>simp add: apart_from_user_def\<close>)
qed

interpretation from_user: user_copy "\<lambda>mm a b. copy_from_user mm b a" buffer_ok copied_in
proof (unfold_locales, goal_cases)
  case (1 mm a b s)
  then show ?case by (subst copy_from_user.simps) simp
next
  case (2 s root ps mm a len b)
  then show ?case by (rule copy_to_user_stop(2))
next
  case (3 s root ps mm a len b k)
  then show ?case using copy_from_user_chunk by metis
next
  case (4 s root ps m1 b k n)
  then show ?case using buffer_ok_shift buffer_ok_write by blast
next
  case (5 m root a b)
  show ?case by (simp add: copied_in_def copied_def)
next
  case (6 s root ps a k b n m1 m2)
  show ?case by (rule copied_in_append [OF 6(6,7,4,5) _ 6(3)]) (use 6(2) in \<open>simp add: apart_from_user_def\<close>)
qed

lemmas copy_to_user_run = to_user.run
lemmas copy_from_user_run = from_user.run

section \<open>copystr_from_user\<close>

text \<open>One page: \<open>j\<close> bytes before the terminator, or the whole chunk.\<close>

lemma copystr_page_eq:
  assumes "\<forall>i < n. kmap s (p + of_nat i) \<and> kmap s (b + of_nat i)" and "\<forall>i < n. \<forall>j < n. p + of_nat i \<noteq> b + of_nat j"
    and "j \<le> n" and "\<forall>i < j. mem s (p + of_nat i) \<noteq> 0" and "j < n \<longrightarrow> mem s (p + of_nat j) = 0" and "n < 2 ^ 63"
  shows "\<exists>m'. copystr_page n b p len s = Inr ((j < n, b + of_nat j, len + of_nat j), s\<lparr>mem := m'\<rparr>) \<and>
    copied (mem s) m' (\<lambda>i. b + of_nat i) (\<lambda>i. p + of_nat i) (if j < n then Suc j else j)"
  using assms
proof (induction n arbitrary: b p len j s)
  case 0
  then show ?case by (auto simp: copied_def intro: exI [of _ "mem s"])
next
  case (Suc n)
  have km: "kmap s p" "kmap s b" using Suc.prems(1) by (auto dest: spec [of _ 0])
  define s1 where "s1 = s\<lparr>mem := (mem s)(b := mem s p)\<rparr>"
  have one: "copied (mem s) (mem s1) (\<lambda>i. b + of_nat i) (\<lambda>i. p + of_nat i) 1"
    by (auto simp: copied_def s1_def)
  show ?case
  proof (cases j)
    case 0
    then have "mem s p = 0" using Suc.prems(5) by simp
    then show ?thesis using km one 0
      by (auto simp: load8_def store8_def s1_def fun_upd_def intro!: exI [of _ "mem s1"])
  next
    case (Suc i)
    have nz: "mem s p \<noteq> 0" using Suc.prems(4) Suc by (auto dest: spec [of _ 0])
    have ap: "p + of_nat k \<noteq> b" if "k < Suc n" for k
    proof -
      have "p + of_nat k \<noteq> b + of_nat 0" using Suc.prems(2) that by blast
      then show ?thesis by simp
    qed
    have shift: "x + 1 + of_nat k = x + of_nat (Suc k)" for x :: u64 and k by simp
    have "\<exists>m'. copystr_page n (b + 1) (p + 1) (len + 1) s1 =
        Inr ((i < n, b + 1 + of_nat i, len + 1 + of_nat i), s1\<lparr>mem := m'\<rparr>) \<and>
        copied (mem s1) m' (\<lambda>i. b + 1 + of_nat i) (\<lambda>i. p + 1 + of_nat i) (if i < n then Suc i else i)"
    proof (rule Suc.IH)
      show "\<forall>i < n. kmap s1 (p + 1 + of_nat i) \<and> kmap s1 (b + 1 + of_nat i)"
        using Suc.prems(1) unfolding shift by (simp add: s1_def del: of_nat_Suc)
      show "\<forall>i < n. \<forall>j < n. p + 1 + of_nat i \<noteq> b + 1 + of_nat j"
        using Suc.prems(2) unfolding shift by (meson Suc_less_eq)
      have same: "mem s1 (p + 1 + of_nat k) = mem s (p + of_nat (Suc k))" if "k < n" for k
        using ap [of "Suc k"] that unfolding shift by (simp add: s1_def del: of_nat_Suc)
      show "\<forall>k < i. mem s1 (p + 1 + of_nat k) \<noteq> 0"
        using Suc.prems(3,4) same Suc by auto
      show "i < n \<longrightarrow> mem s1 (p + 1 + of_nat i) = 0" using Suc.prems(5) same Suc by auto
    qed (use Suc.prems(3,6) Suc in auto)
    then obtain m' where m': "copystr_page n (b + 1) (p + 1) (len + 1) s1 =
        Inr ((j < Suc n, b + of_nat j, len + of_nat j), s\<lparr>mem := m'\<rparr>)"
      "copied (mem s1) m' (\<lambda>i. b + 1 + of_nat i) (\<lambda>i. p + 1 + of_nat i) (if i < n then Suc i else i)"
      using Suc by (auto simp: s1_def algebra_simps)
    let ?c = "if j < Suc n then Suc j else j"
    have c: "(if i < n then Suc i else i) = ?c - 1" "1 \<le> ?c" "?c \<le> Suc n" using Suc Suc.prems(3) by auto
    have "copied (mem s) m' (\<lambda>i. b + of_nat i) (\<lambda>i. p + of_nat i) ?c"
    proof (rule copied_append [OF one])
      show "copied (mem s1) m' (\<lambda>i. b + of_nat (1 + i)) (\<lambda>i. p + of_nat (1 + i)) (?c - 1)"
        using m'(2) unfolding c(1) by (simp add: add.assoc)
      show "\<forall>i < ?c. \<forall>j < ?c. p + of_nat i \<noteq> b + of_nat j" using Suc.prems(2) c(3) by (meson order.strict_trans2)
      show "\<forall>i < ?c. \<forall>j < ?c. b + of_nat i = b + of_nat j \<longrightarrow> i = j"
        using c(3) Suc.prems(6) word_of_nat_eq_iff_small [where 'a = 64] by fastforce
    qed (use c(2) in simp)
    moreover have "copystr_page (Suc n) b p len s = copystr_page n (b + 1) (p + 1) (len + 1) s1"
      using km nz by (simp add: load8_def store8_def s1_def)
    ultimately show ?thesis using m'(1) by auto
  qed
qed

text \<open>
  Where the copy of a string of at most \<open>n\<close> bytes stops: after \<open>k\<close> bytes that are not 0, at the
  limit, at a 0 (which is copied, \<open>c = k + 1\<close>), or at a page that is not accessible.
\<close>

definition str_stop :: "kst \<Rightarrow> u64 \<Rightarrow> u64 list \<Rightarrow> u64 \<Rightarrow> nat \<Rightarrow> nat \<Rightarrow> nat \<Rightarrow> bool" where
  "str_stop s root ps a n k c \<longleftrightarrow> k \<le> n \<and> user_range s root ps a c \<and>
     (\<forall>i < k. mem s (user_kva (mem s) root (a + of_nat i)) \<noteq> 0) \<and>
     (if k = n then c = k
      else if c = Suc k then mem s (user_kva (mem s) root (a + of_nat k)) = 0
      else c = k \<and> not_user s root (a + of_nat k))"

definition buffer_apart :: "kst \<Rightarrow> u64 \<Rightarrow> u64 \<Rightarrow> u64 \<Rightarrow> nat \<Rightarrow> bool" where
  "buffer_apart s root a b n \<longleftrightarrow>
     (\<forall>i < n. \<forall>j < n. readable s root (a + of_nat j) \<longrightarrow> b + of_nat i \<noteq> user_kva (mem s) root (a + of_nat j))"

lemma buffer_apart_shift:
  assumes "buffer_apart s root a b n"
  shows "buffer_apart s root (a + of_nat d) (b + of_nat d) (n - d)"
  unfolding buffer_apart_def
proof (intro allI impI)
  fix i j assume "i < n - d" "j < n - d" and r: "readable s root (a + of_nat d + of_nat j)"
  then have "d + i < n" "d + j < n" by simp_all
  moreover have "readable s root (a + of_nat (d + j))" using r by (simp add: add.assoc)
  ultimately have "b + of_nat (d + i) \<noteq> user_kva (mem s) root (a + of_nat (d + j))"
    using assms unfolding buffer_apart_def by blast
  then show "b + of_nat d + of_nat i \<noteq> user_kva (mem s) root (a + of_nat d + of_nat j)"
    by (simp add: add.assoc)
qed

lemma user_write_reads:
  assumes ok: "vm_ok s root ps" and w: "writes_apart s root ps m'"
  shows "readable (s\<lparr>mem := m'\<rparr>) root va = readable s root va"
proof -
  note v = vm_ok_write [OF ok w]
  have "page_of m' root va = page_of (mem s) root va" for va by (simp add: page_of_def v)
  then show ?thesis by (simp add: readable_def user_page_def v managed_def)
qed

lemma str_stop_shift:
  assumes st: "str_stop s root ps a n k c" and d: "d \<le> k" and ok: "vm_ok s root ps" and w: "writes_apart s root ps m'"
    and same: "\<And>i. d \<le> i \<Longrightarrow> i < c \<Longrightarrow> m' (user_kva (mem s) root (a + of_nat i)) = mem s (user_kva (mem s) root (a + of_nat i))"
  shows "str_stop (s\<lparr>mem := m'\<rparr>) root ps (a + of_nat d) (n - d) (k - d) (c - d)"
proof -
  have kc: "k \<le> c" using st by (auto simp: str_stop_def split: if_splits)
  have e: "a + of_nat d + of_nat i = a + of_nat (d + i)" for i by simp
  note u = user_range_write [OF ok w]
  have "user_range (s\<lparr>mem := m'\<rparr>) root ps (a + of_nat d) (c - d)"
    using user_range_shift st u(1) by (simp add: str_stop_def)
  moreover have "m' (user_kva m' root (a + of_nat (d + i))) \<noteq> 0" if "i < k - d" for i
  proof -
    have "d + i < k" "d + i < c" using that kc by simp_all
    then show ?thesis using st same [of "d + i"] unfolding str_stop_def u(2) by (simp del: of_nat_add)
  qed
  moreover have "if k - d = n - d then c - d = k - d
      else if c - d = Suc (k - d) then m' (user_kva m' root (a + of_nat (d + (k - d)))) = 0
      else c - d = k - d \<and> not_user (s\<lparr>mem := m'\<rparr>) root (a + of_nat (d + (k - d)))"
  proof -
    have kd: "d + (k - d) = k" using d by simp
    show ?thesis unfolding kd u(2,3) using st d kc same [of k]
      by (auto simp: str_stop_def split: if_splits)
  qed
  ultimately show ?thesis using st unfolding str_stop_def e by auto
qed

lemma copied_in_mono_buffer:
  "copied_in m m' root a b n \<Longrightarrow> \<forall>i < n. x \<noteq> b + of_nat i \<Longrightarrow> m' x = m x"
  by (simp add: copied_in_def copied_def)

text \<open>A round of the loop: the page of \<open>a\<close> is accessible.\<close>

lemma copystr_round:
  assumes ok: "vm_ok s root ps" and root: "root = mm_pgt (mms s mm)" and user: "unat a + unat len \<le> unat MAXVA"
    and buf: "buffer_ok s root ps b (unat len)" "buffer_apart s root a b (unat len)"
    and st: "str_stop s root ps a (unat len) k c" and c: "0 < c" and len: "0 < len"
  defines "n \<equiv> unat (chunk a len)" and "j \<equiv> min k (unat (chunk a len))"
  shows "\<exists>m1. copystr_loop mm b a len l s =
      (if k < n then Inr (l + of_nat k, s\<lparr>mem := m1\<rparr>)
       else copystr_loop mm (b + of_nat n) (PGROUNDDOWN a + PGSIZE) (len - chunk a len) (l + of_nat n) (s\<lparr>mem := m1\<rparr>)) \<and>
    copied_in (mem s) m1 root a b (if k < n then Suc k else n) \<and> (k < n \<longrightarrow> c = Suc k) \<and>
    writes_apart s root ps m1"
proof -
  let ?d = "user_kva (mem s) root a"
  have rng: "user_range s root ps a c" using st by (simp add: str_stop_def)
  note u = user_chunk [OF ok rng c user root]
  have "unat (chunk a len) \<le> 4096" using chunk_bounds(3) [of a len] by linarith
  then have n: "n \<le> unat len" "n < 2 ^ 63"
    using chunk_bounds(2) [of a len] by (simp_all add: n_def)
  have kva: "user_kva (mem s) root (a + of_nat i) = ?d + of_nat i" if "i < n" for i
    using user_kva_chunk that by (simp add: n_def)
  have read: "readable s root (a + of_nat i)" if "i < n" for i
  proof -
    have "readable s root a" using rng c by (auto simp: user_range_def dest: spec [of _ 0])
    then show ?thesis using chunk_byte(1) that by (simp add: readable_def n_def)
  qed
  have nz: "\<not> (c = k \<and> not_user s root (a + of_nat k))" if "k < n"
    using chunk_byte(1) [of k a len] that u(2) by (simp add: n_def not_user_def)
  have ck: "c = Suc k" if "k < n"
    using st that n(1) nz [OF that] by (auto simp: str_stop_def split: if_splits)
  have "\<exists>m1. copystr_page n b ?d l s = Inr ((j < n, b + of_nat j, l + of_nat j), s\<lparr>mem := m1\<rparr>) \<and>
    copied (mem s) m1 (\<lambda>i. b + of_nat i) (\<lambda>i. ?d + of_nat i) (if j < n then Suc j else j)"
  proof (rule copystr_page_eq)
    show "\<forall>i < n. kmap s (?d + of_nat i) \<and> kmap s (b + of_nat i)"
      using u(4) buf(1) n(1) by (simp add: n_def buffer_ok_def)
    show "\<forall>i < n. \<forall>j < n. ?d + of_nat i \<noteq> b + of_nat j"
    proof (intro allI impI)
      fix i j assume ij: "i < n" "j < n"
      then have "i < unat len" "j < unat len" using n(1) by simp_all
      then have "b + of_nat j \<noteq> user_kva (mem s) root (a + of_nat i)"
        using buf(2) read [OF ij(1)] unfolding buffer_apart_def by blast
      then show "?d + of_nat i \<noteq> b + of_nat j" using kva [OF ij(1)] by simp
    qed
    show "\<forall>i < j. mem s (?d + of_nat i) \<noteq> 0"
    proof (intro allI impI)
      fix i assume "i < j"
      then have i: "i < k" "i < n" by (simp_all add: j_def n_def)
      then have "mem s (user_kva (mem s) root (a + of_nat i)) \<noteq> 0" using st unfolding str_stop_def by blast
      then show "mem s (?d + of_nat i) \<noteq> 0" using kva [OF i(2)] by simp
    qed
    show "j < n \<longrightarrow> mem s (?d + of_nat j) = 0"
    proof
      assume "j < n"
      then have "k < n" "j = k" by (auto simp: j_def n_def)
      then show "mem s (?d + of_nat j) = 0"
        using st ck kva n(1) by (auto simp: str_stop_def split: if_splits)
    qed
  qed (use n(2) in \<open>simp_all add: j_def n_def\<close>)
  then obtain m1 where m1: "copystr_page n b ?d l s = Inr ((j < n, b + of_nat j, l + of_nat j), s\<lparr>mem := m1\<rparr>)"
    "copied (mem s) m1 (\<lambda>i. b + of_nat i) (\<lambda>i. ?d + of_nat i) (if j < n then Suc j else j)" by blast
  have jn: "(if j < n then Suc j else j) = (if k < n then Suc k else n)" "(j < n) = (k < n)"
    "\<not> k < n \<Longrightarrow> j = n" "k < n \<Longrightarrow> j = k"
    by (auto simp: j_def n_def)
  have into: "copied_in (mem s) m1 root a b (if k < n then Suc k else n)"
    using m1(2) kva unfolding copied_in_def jn(1) copied_def by auto
  have "writes_apart s root ps m1"
    by (rule copied_in_writes_apart [OF into buffer_ok_mono [OF buf(1)]]) (use n in auto)
  moreover have "copystr_loop mm b a len l s =
      (if k < n then Inr (l + of_nat k, s\<lparr>mem := m1\<rparr>)
       else copystr_loop mm (b + of_nat n) (PGROUNDDOWN a + PGSIZE) (len - chunk a len) (l + of_nat n) (s\<lparr>mem := m1\<rparr>))"
    using len m1(1) jn(2-4)
    by (subst copystr_loop.simps) (simp add: Let_def u(1-3) n_def [symmetric])
  ultimately show ?thesis using into ck by blast
qed

text \<open>What is left of the string after a chunk without its end.\<close>

lemma str_stop_bounds:
  "str_stop s root ps a l k c \<Longrightarrow> k \<le> c \<and> k \<le> l \<and> c \<le> l \<and> (k = l \<longrightarrow> c = k)"
  by (auto simp: str_stop_def split: if_splits)

lemma copystr_rest:
  assumes ok: "vm_ok s root ps" and user: "unat a + unat len \<le> unat MAXVA" and n: "n = unat (chunk a len)" "n < unat len" "n \<le> k"
    and buf: "buffer_ok s root ps b (unat len)" "buffer_apart s root a b (unat len)" and st: "str_stop s root ps a (unat len) k c"
    and m1: "copied_in (mem s) m1 root a b n" "writes_apart s root ps m1"
  shows "vm_ok (s\<lparr>mem := m1\<rparr>) root ps" "unat (a + of_nat n) + unat (len - chunk a len) \<le> unat MAXVA"
    "buffer_ok (s\<lparr>mem := m1\<rparr>) root ps (b + of_nat n) (unat (len - chunk a len))"
    "buffer_apart (s\<lparr>mem := m1\<rparr>) root (a + of_nat n) (b + of_nat n) (unat (len - chunk a len))"
    "str_stop (s\<lparr>mem := m1\<rparr>) root ps (a + of_nat n) (unat (len - chunk a len)) (k - n) (c - n)"
proof -
  have ch: "chunk a len = of_nat n" and un: "unat (of_nat n :: u64) = n" by (simp_all add: n(1))
  have rest: "unat (len - chunk a len) = unat len - n" using chunk_bounds(4) [of len a] by (simp add: n(1))
  note kc = str_stop_bounds [OF st]
  have same: "m1 (user_kva (mem s) root (a + of_nat i)) = mem s (user_kva (mem s) root (a + of_nat i))" if "i < c" for i
  proof (rule copied_in_mono_buffer [OF m1(1)], intro allI impI)
    fix j assume "j < n"
    then have "j < unat len" "i < unat len" using that kc n(2) by simp_all
    moreover have "readable s root (a + of_nat i)" using st that by (simp add: str_stop_def user_range_def)
    ultimately have "b + of_nat j \<noteq> user_kva (mem s) root (a + of_nat i)" using buf(2) unfolding buffer_apart_def by blast
    then show "user_kva (mem s) root (a + of_nat i) \<noteq> b + of_nat j" by (rule not_sym)
  qed
  show "vm_ok (s\<lparr>mem := m1\<rparr>) root ps" by (rule vm_ok_write(1) [OF ok m1(2)])
  show "unat (a + of_nat n) + unat (len - chunk a len) \<le> unat MAXVA"
    using chunk_rest [of a len] n(2) user by (simp only: ch un)
  show "buffer_ok (s\<lparr>mem := m1\<rparr>) root ps (b + of_nat n) (unat (len - chunk a len))"
    using buffer_ok_shift [OF buf(1)] buffer_ok_write [OF ok m1(2)] unfolding rest by simp
  show "buffer_apart (s\<lparr>mem := m1\<rparr>) root (a + of_nat n) (b + of_nat n) (unat (len - chunk a len))"
    using buffer_apart_shift [OF buf(2), of n] user_write_reads [OF ok m1(2)] user_range_write(2) [OF ok m1(2)]
    unfolding rest by (simp add: buffer_apart_def)
  show "str_stop (s\<lparr>mem := m1\<rparr>) root ps (a + of_nat n) (unat (len - chunk a len)) (k - n) (c - n)"
    unfolding rest by (rule str_stop_shift [OF st _ ok m1(2)]) (use n(3) same in auto)
qed

lemma copystr_run:
  assumes "vm_ok s root ps" and "root = mm_pgt (mms s mm)" and "unat a + unat len \<le> unat MAXVA"
    and "buffer_ok s root ps b (unat len)" and "buffer_apart s root a b (unat len)"
    and "str_stop s root ps a (unat len) k c"
  shows "\<exists>m'. copystr_loop mm b a len l s = Inr (if k < unat len \<and> c = k then -1 else l + of_nat k, s\<lparr>mem := m'\<rparr>) \<and>
    copied_in (mem s) m' root a b c"
  using assms
proof (induction "unat len" arbitrary: a b len k c l s rule: less_induct)
  case less
  note ok = less.prems(1) and root = less.prems(2) and user = less.prems(3) and st = less.prems(6)
  have nil: "copied_in m m root a b 0" for m a b by (simp add: copied_in_def copied_def)
  consider "len = 0" | "0 < len" "c = 0" | "0 < len" "0 < c" by (auto simp: word_gt_0)
  then show ?case
  proof cases
    case 1
    then show ?thesis using st nil [of "mem s"]
      by (subst copystr_loop.simps) (auto simp: str_stop_def intro: exI [of _ "mem s"])
  next
    case 2
    have k: "k = 0" "not_user s root a" "0 < unat len"
      using st 2 by (auto simp: str_stop_def word_less_nat_alt split: if_splits)
    have "IS_USER_VA a" using user by (simp add: IS_USER_VA_def word_le_nat_alt)
    then have "walkaddr mm (PGROUNDDOWN a) s = Inr (0, s)"
      using walkaddr_eq [of s mm ps] ok root k(2) IS_USER_VA_rounddown by (simp add: not_user_def)
    then show ?thesis using 2 k nil [of "mem s"]
      by (subst copystr_loop.simps) (auto simp: Let_def intro: exI [of _ "mem s"])
  next
    case 3
    define n where "n = unat (chunk a len)"
    have n: "0 < n" "n \<le> unat len" using chunk_bounds(1) [of len a] chunk_bounds(2) [of a len] 3(1) by (simp_all add: n_def)
    obtain m1 where m1: "copystr_loop mm b a len l s = (if k < n then Inr (l + of_nat k, s\<lparr>mem := m1\<rparr>)
        else copystr_loop mm (b + of_nat n) (PGROUNDDOWN a + PGSIZE) (len - chunk a len) (l + of_nat n) (s\<lparr>mem := m1\<rparr>))"
      "copied_in (mem s) m1 root a b (if k < n then Suc k else n)" "k < n \<longrightarrow> c = Suc k" "writes_apart s root ps m1"
      using copystr_round [OF ok root user less.prems(4-6) 3(2,1), of l] unfolding n_def by blast
    have ch: "chunk a len = of_nat n" and un: "unat (of_nat n :: u64) = n" by (simp_all add: n_def)
    have rest: "unat (len - chunk a len) = unat len - n" using chunk_bounds(4) [of len a] by (simp add: n_def)
    note kc = str_stop_bounds [OF st]
    consider "k < n" | "n \<le> k" "n < unat len" | "n \<le> k" "n = unat len" using n(2) by linarith
    then show ?thesis
    proof cases
      case 1
      then show ?thesis using m1(1-3) n(2) by auto
    next
      case 2
      have nx: "PGROUNDDOWN a + PGSIZE = a + of_nat n" using chunk_next [of a len] 2(2) by (simp only: ch un)
      have into: "copied_in (mem s) m1 root a b n" using m1(2) 2(1) by simp
      note r = copystr_rest [OF ok user n_def 2(2,1) less.prems(4-6) into m1(4)]
      have "unat (len - chunk a len) < unat len" "root = mm_pgt (mms (s\<lparr>mem := m1\<rparr>) mm)" using rest n root by simp_all
      then obtain m' where m': "copystr_loop mm (b + of_nat n) (a + of_nat n) (len - chunk a len) (l + of_nat n) (s\<lparr>mem := m1\<rparr>) =
          Inr (if k - n < unat (len - chunk a len) \<and> c - n = k - n then -1 else l + of_nat n + of_nat (k - n), s\<lparr>mem := m'\<rparr>)"
        "copied_in m1 m' root (a + of_nat n) (b + of_nat n) (c - n)"
        using less.hyps [OF _ r(1) _ r(2-5), of "l + of_nat n"] by auto
      have run: "copystr_loop mm b a len l s = Inr (if k < unat len \<and> c = k then -1 else l + of_nat k, s\<lparr>mem := m'\<rparr>)"
        using m1(1) m'(1) 2 n rest kc by (auto simp: nx of_nat_diff)
      have apart: "b + of_nat i \<noteq> user_kva (mem s) root (a + of_nat j)" if "i < c" "j < c" for i j
      proof -
        have "readable s root (a + of_nat j)" using st that(2) by (simp add: str_stop_def user_range_def)
        moreover have "i < unat len" "j < unat len" using that kc by simp_all
        ultimately show ?thesis using less.prems(5) unfolding buffer_apart_def by blast
      qed
      have "copied_in (mem s) m' root a b c"
        by (rule copied_in_append [OF into m'(2) _ user_range_write(2) [OF ok m1(4)]])
          (use 2 kc user MAXVA_small apart in auto)
      with run show ?thesis by blast
    next
      case 3
      then have "k = n" "c = k" "len - chunk a len = 0" using kc by (auto simp: ch)
      then show ?thesis using m1(1,2) 3 by (auto simp: copystr_loop.simps intro: exI [of _ m1])
    qed
  qed
qed

section \<open>The properties\<close>

text \<open>An address space with one user page, at 0x1000, that holds \<open>''sh''\<close> at its end.\<close>

lemma demo_mapped:
  obtains t ps q where "vm_ok t demo_root ps" "mm_pgt (mms t 32) = demo_root" "\<And>x. kmap t x"
    "entry (mem t) demo_root 0x1000 = leaf_pte q 0x16" "entry (mem t) demo_root 0x2000 = 0"
    "managed t q" "q \<notin> tables (mem t) demo_root \<union> set ps" "\<And>x. x \<in> tables (mem t) demo_root \<union> set ps \<Longrightarrow> managed t x"
    "kpage_allocator_base t = 0xffffffc080400000" "kpage_allocator_size t = 0x4000"
proof -
  have ok: "vm_ok demo_vm (mm_pgt (mms demo_vm 32)) demo_free" using demo_vm_ok by (simp add: demo_vm_sel)
  have a: "32 = vma_owner (vmas demo_vm 16)" by (simp add: demo_vm_sel)
  have b: "3 * length (vma_pages (vmas demo_vm 16)) \<le> length demo_free" by (simp add: demo_vma demo_free_def)
  obtain t k pgs where m: "mm_mappages 16 demo_vm = Inr (0, link_vma 32 16 t)"
    "mapped_range demo_vm (mm_pgt (mms demo_vm 32)) demo_free (vma_pages (vmas demo_vm 16)) (pte_flags (vmas demo_vm 16)) pgs k t"
    by (rule mm_mappages_eq [OF ok refl a demo_vma(1) _ b]) (simp_all add: demo_vma demo_vm_sel)
  note p = mapped_range_parts [OF m(2), unfolded demo_vm_sel]
  obtain q where q: "pgs = [q]" using p(4) by (cases pgs) (auto simp: demo_vma)
  have u: "IS_USER_VA 0x1000" "PGALIGNED 0x1000" "IS_USER_VA 0x2000" "PGALIGNED 0x2000"
    by (simp_all add: IS_USER_VA_def MAXVA_def PGALIGNED_def PGSIZE_def)
  note sel = only_memory_sel [OF p(1)]
  have base: "kpage_allocator_base t = 0xffffffc080400000" "kpage_allocator_size t = 0x4000"
    by (simp_all add: sel demo_vm_def boot_kst_def)
  have man: "managed t x" if "x \<in> insert demo_root (set demo_free)" for x
    using that by (auto simp: managed_def base demo_root_def demo_free_def PGALIGNED_def PGSIZE_def)
  have td: "tables (mem demo_vm) demo_root = {demo_root}"
    by (rule empty_root(1)) (use demo_root_zero in \<open>simp_all add: demo_vm_def demo_root_def PGALIGNED_def PGSIZE_def\<close>)
  have "tables (mem t) demo_root \<union> set (drop k demo_free) \<subseteq> insert demo_root (set demo_free)"
    using p(7) td by (auto dest: in_set_takeD in_set_dropD)
  then have mt: "managed t x" if "x \<in> tables (mem t) demo_root \<union> set (drop k demo_free)" for x using that man by blast
  have qt: "q \<in> set (take k demo_free)" using p(6) q by simp
  have "distinct (take k demo_free @ drop k demo_free)" by (simp add: demo_free_def)
  then have "q \<notin> set (drop k demo_free)" using qt unfolding distinct_append by blast
  then have qn: "q \<notin> tables (mem t) demo_root \<union> set (drop k demo_free)" using p(8) q by simp
  show thesis
  proof (rule that [OF p(2)])
    show "mm_pgt (mms t 32) = demo_root" by (simp add: sel demo_vm_sel)
    show "kmap t x" for x by (simp add: sel demo_vm_def boot_kst_def)
    show "entry (mem t) demo_root 0x1000 = leaf_pte q 0x16" "entry (mem t) demo_root 0x2000 = 0"
      using p(10) u q by (simp_all add: demo_vma)
    show "managed t q" using man qt by (auto dest: in_set_takeD)
  qed (use qn mt base in simp_all)
qed

lemma demo_user:
  obtains s ps q where "vm_ok s demo_root ps" "mm_pgt (mms s 32) = demo_root"
    "user_range s demo_root ps 0x1ffd 3" "not_user s demo_root 0x2000"
    "\<And>i. i < 3 \<Longrightarrow> user_kva (mem s) demo_root (0x1ffd + of_nat i) = q + 0xffd + of_nat i"
    "mem s (q + 0xffd) = 115" "mem s (q + 0xffe) = 104" "mem s (q + 0xfff) = 0"
    "buffer_ok s demo_root ps 0x5000 100" "apart_from_user s demo_root 0x1ffd 0x5000 3"
    "buffer_apart s demo_root 0x1ffd 0x5000 3"
proof -
  obtain t ps q where t: "vm_ok t demo_root ps" "mm_pgt (mms t 32) = demo_root" "\<And>x. kmap t x"
    "entry (mem t) demo_root 0x1000 = leaf_pte q 0x16" "entry (mem t) demo_root 0x2000 = 0"
    "managed t q" "q \<notin> tables (mem t) demo_root \<union> set ps" "\<And>x. x \<in> tables (mem t) demo_root \<union> set ps \<Longrightarrow> managed t x"
    "kpage_allocator_base t = 0xffffffc080400000" "kpage_allocator_size t = 0x4000"
    by (rule demo_mapped) blast
  have alq: "PGALIGNED q" using t(6) by (simp add: managed_def)
  define m where "m = (mem t)(q + 0xffd := 115, q + 0xffe := 104, q + 0xfff := 0)"
  have w: "writes_apart t demo_root ps m"
    unfolding writes_apart_def
  proof (intro allI impI ballI)
    fix x y assume "m x \<noteq> mem t x" and y: "y \<in> tables (mem t) demo_root \<union> set ps"
    then have "in_page q x" by (auto simp: m_def in_page_def PGSIZE_def split: if_splits)
    moreover have "PGALIGNED y" "y \<noteq> q" using t(7) t(8) [OF y] y by (auto simp: managed_def)
    ultimately show "\<not> in_page y x" using in_page_disjoint alq by blast
  qed
  define s where "s = t\<lparr>mem := m\<rparr>"
  note v = vm_ok_write [OF t(1) w]
  have ok: "vm_ok s demo_root ps" using v(1) by (simp add: s_def)
  have pg: "page_of (mem s) demo_root 0x1000 = q" "user_page s demo_root 0x1000"
    using leaf_pte_pa [OF alq, of "0x16"] t(4,6) leaf_pte_user [of "0x16" q]
    by (auto simp: page_of_def user_page_def s_def v PTE_U_def managed_def)
  have rd: "PGROUNDDOWN (0x1ffd + of_nat i) = 0x1000" if "i < 3" for i
  proof -
    have "i = 0 \<or> i = 1 \<or> i = 2" using that by auto
    then show ?thesis by (auto simp: PGROUNDDOWN_def PGSIZE_def)
  qed
  have low: "\<not> managed s y" if "y < 0x10000" for y using that by (auto simp: managed_def s_def t word_le_nat_alt word_less_nat_alt)
  have kva: "user_kva (mem s) demo_root (0x1ffd + of_nat i) = q + 0xffd + of_nat i" if "i < 3" for i
    using rd [OF that] pg(1) by (simp add: user_kva_def algebra_simps)
  have lowb: "(0x5000 + of_nat i :: u64) < 0x6000" if "i < 100" for i :: nat
  proof -
    have "unat (of_nat i :: u64) = i" using that by (simp add: unat_of_nat_small)
    then have "unat (0x5000 + of_nat i :: u64) = 0x5000 + i" using that by (subst unat_add_no_wrap) simp_all
    then show ?thesis using that by (simp add: word_less_nat_alt)
  qed
  have far: "\<not> in_page y (0x5000 + of_nat i)" if "managed s y" "i < 100" for y i
  proof
    assume "in_page y (0x5000 + of_nat i)"
    then have "PGROUNDDOWN (0x5000 + of_nat i) = y" using that(1) by (simp add: managed_def in_page_PGROUNDDOWN)
    then have "unat y \<le> unat (0x5000 + of_nat i :: u64)"
      using PGROUNDDOWN_le [of "0x5000 + of_nat i"] by (simp only: word_le_nat_alt)
    then have "y < 0x10000" using lowb [OF that(2)] by (simp add: word_less_nat_alt)
    with low that(1) show False by blast
  qed
  have mq: "managed s q" using t(6) by (simp add: managed_def s_def)
  have ms: "managed s y" if "y \<in> tables (mem s) demo_root \<union> set ps" for y
    using t(8) [of y] that by (simp add: managed_def s_def v)
  have apart: "0x5000 + of_nat i \<noteq> user_kva (mem s) demo_root (0x1ffd + of_nat j)" if "i < 100" "j < 3" for i j
    using far [OF mq that(1)] user_kva_in_page [of "mem s" demo_root "0x1ffd + of_nat j"] rd [OF that(2)] pg(1) by metis
  show thesis
  proof (rule that [OF ok _ _ _ kva])
    show "mm_pgt (mms s 32) = demo_root" using t(2) by (simp add: s_def)
    show "user_range s demo_root ps 0x1ffd 3"
      using rd pg t(7) by (simp add: user_range_def readable_def s_def v)
    show "not_user s demo_root 0x2000"
      using t(5) by (simp add: not_user_def user_pa_def s_def v PGROUNDDOWN_def PGSIZE_def)
    show "buffer_ok s demo_root ps 0x5000 100"
      using far ms t(3) by (simp add: buffer_ok_def) (simp add: s_def)
    show "apart_from_user s demo_root 0x1ffd 0x5000 3" "buffer_apart s demo_root 0x1ffd 0x5000 3"
      using apart by (simp_all add: apart_from_user_def buffer_apart_def)
  qed (simp_all add: s_def m_def)
qed

text \<open>C17. \<^verbatim>\<open>copy_to_user\<close> over any number of pages: it stops at the first byte, the \<open>k\<close>-th, whose page
  is not accessible to the user and then returns -1, and returns 0 when there is none; the bytes
  before \<open>k\<close> of the address space are those of the source, and no other byte of memory changes.\<close>

theorem copy_to_user_correct:
  assumes "vm_ok s (mm_pgt (mms s mm)) ps" and "unat dstva + unat len \<le> unat MAXVA"
    and "unat src + unat len < 2 ^ 64" and "k \<le> unat len" and "\<forall>i < k. kmap s (src + of_nat i)"
    and "user_range s (mm_pgt (mms s mm)) ps dstva k" and "apart_from_user s (mm_pgt (mms s mm)) dstva src k"
    and "k < unat len \<longrightarrow> not_user s (mm_pgt (mms s mm)) (dstva + of_nat k)"
  shows "\<exists>m'. copy_to_user mm dstva src len s = Inr (if k = unat len then 0 else -1, s\<lparr>mem := m'\<rparr>) \<and>
    (\<forall>i < k. m' (user_kva (mem s) (mm_pgt (mms s mm)) (dstva + of_nat i)) = mem s (src + of_nat i)) \<and>
    (\<forall>x. (\<forall>i < k. x \<noteq> user_kva (mem s) (mm_pgt (mms s mm)) (dstva + of_nat i)) \<longrightarrow> m' x = mem s x)"
  using copy_to_user_run [OF assms(1) refl assms(2-8)] by (simp add: copied_out_def copied_def)

text \<open>C18. \<^verbatim>\<open>copy_from_user\<close>, the same in the other direction: what it stores in the kernel's buffer is
  the bytes of the address space up to the first that is not accessible.\<close>

theorem copy_from_user_correct:
  assumes "vm_ok s (mm_pgt (mms s mm)) ps" and "unat srcva + unat len \<le> unat MAXVA"
    and "unat dst + unat len < 2 ^ 64" and "k \<le> unat len" and "buffer_ok s (mm_pgt (mms s mm)) ps dst k"
    and "user_range s (mm_pgt (mms s mm)) ps srcva k" and "apart_from_user s (mm_pgt (mms s mm)) srcva dst k"
    and "k < unat len \<longrightarrow> not_user s (mm_pgt (mms s mm)) (srcva + of_nat k)"
  shows "\<exists>m'. copy_from_user mm dst srcva len s = Inr (if k = unat len then 0 else -1, s\<lparr>mem := m'\<rparr>) \<and>
    (\<forall>i < k. m' (dst + of_nat i) = mem s (user_kva (mem s) (mm_pgt (mms s mm)) (srcva + of_nat i))) \<and>
    (\<forall>x. (\<forall>i < k. x \<noteq> dst + of_nat i) \<longrightarrow> m' x = mem s x)"
  using copy_from_user_run [OF assms(1) refl assms(2-8)] by (simp add: copied_in_def copied_def)

text \<open>C19. \<^verbatim>\<open>copystr_from_user\<close> copies up to the terminator, the limit or the end of accessible memory. It
  returns the length of the string; when the limit is reached before the terminator the buffer holds
  that many bytes and no terminator, and the result is the limit, as for a string that fits.\<close>

theorem copystr_from_user_correct:
  assumes "vm_ok s (mm_pgt (mms s mm)) ps" and "unat srcva + unat maxlen \<le> unat MAXVA"
    and "buffer_ok s (mm_pgt (mms s mm)) ps dst (unat maxlen)"
    and "buffer_apart s (mm_pgt (mms s mm)) srcva dst (unat maxlen)"
    and "str_stop s (mm_pgt (mms s mm)) ps srcva (unat maxlen) k c"
  shows "\<exists>m'. copystr_from_user mm dst srcva maxlen s =
      Inr (if k < unat maxlen \<and> c = k then -1 else of_nat k, s\<lparr>mem := m'\<rparr>) \<and>
    (\<forall>i < c. m' (dst + of_nat i) = mem s (user_kva (mem s) (mm_pgt (mms s mm)) (srcva + of_nat i))) \<and>
    (\<forall>x. (\<forall>i < c. x \<noteq> dst + of_nat i) \<longrightarrow> m' x = mem s x)"
  using copystr_run [OF assms(1) refl assms(2-5), of 0, unfolded copied_in_def copied_def add_0_left]
  unfolding copystr_from_user_def .

theorem copy_to_user_correct_witness:
  "\<exists>s m q. copy_to_user 32 0x1ffd 0x5000 4 s = Inr (-1, s\<lparr>mem := m\<rparr>) \<and> m (q + 0xffd) = mem s 0x5000 \<and> m (q + 0xffe) = mem s 0x5001"
proof -
  obtain s ps q where d: "vm_ok s demo_root ps" "mm_pgt (mms s 32) = demo_root"
    "user_range s demo_root ps 0x1ffd 3" "not_user s demo_root 0x2000"
    "\<And>i. i < 3 \<Longrightarrow> user_kva (mem s) demo_root (0x1ffd + of_nat i) = q + 0xffd + of_nat i"
    "buffer_ok s demo_root ps 0x5000 100" "apart_from_user s demo_root 0x1ffd 0x5000 3"
    by (rule demo_user) blast
  have km: "\<forall>i < 3. kmap s (0x5000 + of_nat i)" using d(6) by (simp add: buffer_ok_def)
  from copy_to_user_correct [where s = s and mm = 32 and ps = ps and dstva = "0x1ffd" and len = 4 and src = "0x5000" and k = 3, unfolded d(2), OF d(1) _ _ _ km d(3,7)] d(4) d(5) [of 0] d(5) [of 1]
  obtain m where m: "copy_to_user 32 0x1ffd 0x5000 4 s = Inr (-1, s\<lparr>mem := m\<rparr>)"
    "\<forall>i < 3. m (user_kva (mem s) demo_root (0x1ffd + of_nat i)) = mem s (0x5000 + of_nat i)"
    by (auto simp: MAXVA_small)
  have "m (q + 0xffd) = mem s 0x5000" using spec [OF m(2), of 0] d(5) [of 0] by simp
  moreover have "m (q + 0xffe) = mem s 0x5001" using spec [OF m(2), of 1] d(5) [of 1] by (simp add: algebra_simps)
  ultimately show ?thesis using m(1) by blast
qed

theorem copy_from_user_correct_witness:
  "\<exists>s m. copy_from_user 32 0x5000 0x1ffd 3 s = Inr (0, s\<lparr>mem := m\<rparr>) \<and> m 0x5000 = 115 \<and> m 0x5001 = 104 \<and> m 0x5002 = 0"
proof -
  obtain s ps q where d: "vm_ok s demo_root ps" "mm_pgt (mms s 32) = demo_root"
    "user_range s demo_root ps 0x1ffd 3"
    "\<And>i. i < 3 \<Longrightarrow> user_kva (mem s) demo_root (0x1ffd + of_nat i) = q + 0xffd + of_nat i"
    "mem s (q + 0xffd) = 115" "mem s (q + 0xffe) = 104" "mem s (q + 0xfff) = 0"
    "buffer_ok s demo_root ps 0x5000 100" "apart_from_user s demo_root 0x1ffd 0x5000 3"
    by (rule demo_user) blast
  have b: "buffer_ok s demo_root ps 0x5000 3" by (rule buffer_ok_mono [OF d(8)]) simp
  from copy_from_user_correct [where s = s and mm = 32 and ps = ps and srcva = "0x1ffd" and len = 3 and dst = "0x5000" and k = 3, unfolded d(2), OF d(1) _ _ _ b d(3,9)]
  obtain m where m: "copy_from_user 32 0x5000 0x1ffd 3 s = Inr (0, s\<lparr>mem := m\<rparr>)"
    "\<forall>i < 3. m (0x5000 + of_nat i) = mem s (user_kva (mem s) demo_root (0x1ffd + of_nat i))"
    by (auto simp: MAXVA_small)
  have "m 0x5000 = 115" using spec [OF m(2), of 0] d(4) [of 0] d(5) by simp
  moreover have "m 0x5001 = 104" using spec [OF m(2), of 1] d(4) [of 1] d(6) by (simp add: algebra_simps)
  moreover have "m 0x5002 = 0" using spec [OF m(2), of 2] d(4) [of 2] d(7) by (simp add: algebra_simps)
  ultimately show ?thesis using m(1) by blast
qed

theorem copystr_from_user_correct_witness:
  "\<exists>s m. copystr_from_user 32 0x5000 0x1ffd 3 s = Inr (2, s\<lparr>mem := m\<rparr>) \<and> m 0x5000 = 115 \<and> m 0x5001 = 104 \<and> m 0x5002 = 0"
proof -
  obtain s ps q where d: "vm_ok s demo_root ps" "mm_pgt (mms s 32) = demo_root"
    "user_range s demo_root ps 0x1ffd 3"
    "\<And>i. i < 3 \<Longrightarrow> user_kva (mem s) demo_root (0x1ffd + of_nat i) = q + 0xffd + of_nat i"
    "mem s (q + 0xffd) = 115" "mem s (q + 0xffe) = 104" "mem s (q + 0xfff) = 0"
    "buffer_ok s demo_root ps 0x5000 100" "buffer_apart s demo_root 0x1ffd 0x5000 3"
    by (rule demo_user) blast
  have b: "buffer_ok s demo_root ps 0x5000 3" by (rule buffer_ok_mono [OF d(8)]) simp
  have byte: "mem s (user_kva (mem s) demo_root 0x1ffd) = 115" "mem s (user_kva (mem s) demo_root 0x1ffe) = 104"
    "mem s (user_kva (mem s) demo_root 0x1fff) = 0"
    using d(4) [of 0] d(4) [of 1] d(4) [of 2] d(5-7) by (simp_all add: algebra_simps)
  have "mem s (user_kva (mem s) demo_root (0x1ffd + of_nat i)) \<noteq> 0" if "i < 2" for i
  proof -
    have "i = 0 \<or> i = 1" using that by auto
    then show ?thesis using byte by auto
  qed
  then have st: "str_stop s demo_root ps 0x1ffd 3 2 3" using d(3) byte(3) by (simp add: str_stop_def)
  from copystr_from_user_correct [where s = s and mm = 32 and ps = ps and srcva = "0x1ffd" and maxlen = 3 and dst = "0x5000" and k = 2 and c = 3, unfolded d(2), OF d(1)] b d(9) st
  obtain m where m: "copystr_from_user 32 0x5000 0x1ffd 3 s = Inr (2, s\<lparr>mem := m\<rparr>)"
    "\<forall>i < 3. m (0x5000 + of_nat i) = mem s (user_kva (mem s) demo_root (0x1ffd + of_nat i))"
    by (auto simp: MAXVA_small)
  have "m 0x5000 = 115" using spec [OF m(2), of 0] byte(1) by simp
  moreover have "m 0x5001 = 104" using spec [OF m(2), of 1] byte(2) by simp
  moreover have "m 0x5002 = 0" using spec [OF m(2), of 2] byte(3) by simp
  ultimately show ?thesis using m(1) by blast
qed

text \<open>The page of the string, for \<^verbatim>\<open>walkaddr\<close> and \<^verbatim>\<open>useraddr\<close>: translated, not aligned, not mapped, and too high.\<close>

theorem walkaddr_useraddr_correct_witness:
  "\<exists>s pa. pa \<noteq> 0 \<and> walkaddr 32 0x1000 s = Inr (pa, s) \<and> useraddr 32 0x1ffd s = Inr (pa + 0xffd, s) \<and>
    mem s (PA_TO_KVA pa + 0xffd) = 115 \<and> useraddr 32 0x2000 s = Inr (0, s) \<and>
    walkaddr 32 0x1ffd s = Inl (Panic ''assertion failed: PGALIGNED(va), unaligned va'') \<and>
    walkaddr 32 0x4000000001 s = Inl (Panic ''invalid user VA'') \<and> useraddr 32 0x4000001000 s = Inl (Panic ''invalid user VA'')"
proof -
  obtain s ps q where d: "vm_ok s demo_root ps" "mm_pgt (mms s 32) = demo_root"
    "user_range s demo_root ps 0x1ffd 3" "not_user s demo_root 0x2000"
    "\<And>i. i < 3 \<Longrightarrow> user_kva (mem s) demo_root (0x1ffd + of_nat i) = q + 0xffd + of_nat i"
    "mem s (q + 0xffd) = 115"
    by (rule demo_user) blast
  let ?pa = "user_pa (mem s) demo_root 0x1000"
  have pg: "PGROUNDDOWN 0x1ffd = 0x1000" "PGROUNDDOWN 0x2000 = 0x2000" by (simp_all add: PGROUNDDOWN_def PGSIZE_def)
  have "unat (0x1ffd :: u64) + unat (3 :: u64) \<le> unat MAXVA" by (simp add: MAXVA_def)
  from user_chunk(2,3) [OF d(1,3) _ this d(2) [symmetric]] d(5) [of 0]
  have pa: "?pa \<noteq> 0" "PA_TO_KVA ?pa + 0xffd = q + 0xffd" by (simp_all add: pg)
  note c = walkaddr_useraddr_correct [of s 32 ps, unfolded d(2), OF d(1)]
  have z: "IS_USER_VA 0x1000" "IS_USER_VA 0x1ffd" "\<not> IS_USER_VA 0x4000000001" "PGALIGNED 0x1000" "\<not> PGALIGNED 0x1ffd"
    "(0x1ffd :: u64) < MAXVA + PGSIZE" "(0x2000 :: u64) < MAXVA + PGSIZE" "\<not> 0x4000001000 < MAXVA + PGSIZE"
    by (simp_all add: IS_USER_VA_def MAXVA_def PGALIGNED_def PGSIZE_def)
  have "walkaddr 32 0x1000 s = Inr (?pa, s)" using c [of "0x1000"] z by simp
  moreover have "useraddr 32 0x1ffd s = Inr (?pa + 0xffd, s)" using c [of "0x1ffd"] z pa(1) by (simp add: pg)
  moreover have "mem s (PA_TO_KVA ?pa + 0xffd) = 115" using pa(2) d(6) by simp
  moreover have "useraddr 32 0x2000 s = Inr (0, s)" using c [of "0x2000"] z d(4) by (simp add: pg not_user_def)
  moreover have "walkaddr 32 0x1ffd s = Inl (Panic ''assertion failed: PGALIGNED(va), unaligned va'')" using c [of "0x1ffd"] z by simp
  moreover have "walkaddr 32 0x4000000001 s = Inl (Panic ''invalid user VA'')" using c [of "0x4000000001"] z by simp
  moreover have "useraddr 32 0x4000001000 s = Inl (Panic ''invalid user VA'')" using c [of "0x4000001000"] z by simp
  ultimately show ?thesis using pa(1) by blast
qed

end
