(* ===== verification/Console.thy ===== *)
theory Console imports Task Uaccess begin

text \<open>
  The console, \<^verbatim>\<open>os/console.c\<close>: the line editor that the UART's interrupt feeds, and the two system
  calls that read and write. The input is a ring of 128 bytes with three free-running indices:
  \<open>r\<close> up to which it has been read, \<open>w\<close> up to which it may be read, \<open>e\<close> up to which it has been typed.
\<close>

section \<open>Operations\<close>

definition INPUT_BUF_SIZE :: u32 where "INPUT_BUF_SIZE = 128"
definition BACKSPACE :: i32 where "BACKSPACE = 0x100"

definition ctrl_P :: u8 where "ctrl_P = 0x10"
definition ctrl_U :: u8 where "ctrl_U = 0x15"
definition ctrl_H :: u8 where "ctrl_H = 0x08"
definition ctrl_D :: u8 where "ctrl_D = 0x04"

definition upd_cons :: "(console \<Rightarrow> console) \<Rightarrow> kst \<Rightarrow> kst" where
  "upd_cons f s = s\<lparr>cons := f (cons s)\<rparr>"

abbreviation cons_at :: "console \<Rightarrow> u32 \<Rightarrow> u8" where
  "cons_at c i \<equiv> cons_buf c ! unat (i mod INPUT_BUF_SIZE)"

lemma edit_index_shrinks: "e \<noteq> w \<Longrightarrow> unat (e - 1 - w) < unat (e - w :: u32)"
proof -
  assume "e \<noteq> w"
  then have "e - w \<noteq> 0" by simp
  then have "unat (e - w - 1) < unat (e - w)" by (simp add: unat_minus_one unat_gt_0)
  then show ?thesis by (simp add: algebra_simps)
qed

text \<open>The loop of \<^verbatim>\<open>C('U')\<close>.\<close>

function kill_line :: "kst \<Rightarrow> kst" where
  "kill_line s =
     (if cons_e (cons s) \<noteq> cons_w (cons s) \<and> cons_at (cons s) (cons_e (cons s) - 1) \<noteq> 10
      then kill_line (consputc BACKSPACE (upd_cons (\<lambda>c. c\<lparr>cons_e := cons_e c - 1\<rparr>) s))
      else s)"
  by pat_completeness auto
termination
  by (relation "measure (\<lambda>s. unat (cons_e (cons s) - cons_w (cons s)))")
    (auto simp: consputc_eq upd_cons_def edit_index_shrinks)

declare kill_line.simps [simp del]

text \<open>The \<^verbatim>\<open>switch\<close> of \<^verbatim>\<open>consintr\<close>, then the whole of it.\<close>

definition consintr_switch :: "u8 \<Rightarrow> kst \<Rightarrow> halt + kst" where
  "consintr_switch c s =
     (if c = ctrl_P then Inr s
      else if c = ctrl_U then Inr (kill_line s)
      else if c = ctrl_H \<or> c = 0x7f then
        Inr (if cons_e (cons s) \<noteq> cons_w (cons s)
             then consputc BACKSPACE (upd_cons (\<lambda>k. k\<lparr>cons_e := cons_e k - 1\<rparr>) s) else s)
      else if c \<noteq> 0 \<and> cons_e (cons s) - cons_r (cons s) < INPUT_BUF_SIZE then
        let c = (if c = 13 then 10 else c);
            s = consputc (ucast c) s;
            s = upd_cons (\<lambda>k. k\<lparr>cons_buf := (cons_buf k)[unat (cons_e k mod INPUT_BUF_SIZE) := c],
                                cons_e := cons_e k + 1\<rparr>) s in
        if c = 10 \<or> c = ctrl_D \<or> cons_e (cons s) - cons_r (cons s) = INPUT_BUF_SIZE
        then wakeup (Some Ch_cons) (upd_cons (\<lambda>k. k\<lparr>cons_w := cons_e k\<rparr>) s)
        else Inr s
      else Inr s)"

definition consintr :: "u8 \<Rightarrow> kst \<Rightarrow> halt + kst" where
  "consintr c s = kbind (k_acquire L_cons s) (\<lambda>s. kbind (consintr_switch c s) (k_release L_cons))"

text \<open>
  The loop of \<^verbatim>\<open>uart_intr\<close> takes a byte in each round, so it takes one more round than there are
  bytes; \<open>Spin\<close> is never reached.
\<close>

fun uart_intr_loop :: "nat \<Rightarrow> kst \<Rightarrow> halt + kst" where
  "uart_intr_loop 0 s = Inl Spin"
| "uart_intr_loop (Suc n) s =
     (case uartgetc s of (None, s) \<Rightarrow> Inr s | (Some c, s) \<Rightarrow> kbind (consintr c s) (uart_intr_loop n))"

definition uart_intr :: "kst \<Rightarrow> halt + kst" where
  "uart_intr s = uart_intr_loop (Suc (length (uart_in s))) s"

text \<open>The loop of \<^verbatim>\<open>user_console_write\<close> over the bytes of \<^verbatim>\<open>kbuf\<close>.\<close>

fun write_loop :: "nat \<Rightarrow> u64 \<Rightarrow> kst \<Rightarrow> halt + kst" where
  "write_loop 0 a s = Inr s"
| "write_loop (Suc n) a s = kbind (load8 a s) (\<lambda>c. write_loop n (a + 1) (uart_putchar (ucast c) s))"

text \<open>The address space of the current process, with its lock taken.\<close>

definition take_mm :: "kst \<Rightarrow> halt + u64 \<times> kst" where
  "take_mm s =
     kbind (curr_proc s) (\<lambda>p.
     kbind (k_acquire (L_proc p) s) (\<lambda>s.
     let mm = p_mm (proc_pool s p) in
     kbind (k_acquire (L_mm mm) s) (\<lambda>s.
     kbind (k_release (L_proc p) s) (\<lambda>s. Inr (mm, s)))))"

definition user_console_write :: "u64 \<Rightarrow> i64 \<Rightarrow> kst \<Rightarrow> halt + i64 \<times> kst" where
  "user_console_write buf len s =
     (if sint len \<le> 0 then Inr (-1, s)
      else
        kbind (take_mm s) (\<lambda>(mm, s).
        let kbuf = local_buf s in
        kbind (copy_from_user mm kbuf buf len s) (\<lambda>(_, s).
        kbind (k_release (L_mm mm) s) (\<lambda>s.
        kbind (write_loop (unat len) kbuf s) (\<lambda>s. Inr (len, s))))))"

text \<open>
  A system call either returns, or has left the CPU to the scheduler; what it goes on with is then in
  the context of the process.
\<close>

datatype 'a co = Ret 'a | Switched

lemma sint_pred_less: "0 < sint (n :: i64) \<Longrightarrow> nat (sint (n - 1)) < nat (sint n)"
proof -
  assume n: "0 < sint n"
  have "sint n < 2 ^ 63" using sint_lt [of n] by simp
  then have "sint (n - 1) = sint n - 1"
    using n by (simp add: sint_word_ariths signed_take_bit_int_eq_self)
  then show ?thesis using n by simp
qed

function read_loop :: "u64 \<Rightarrow> i64 \<Rightarrow> u32 \<Rightarrow> kst \<Rightarrow> halt + i64 co \<times> kst" where
  "read_loop buf n target s =
     (let finish = (\<lambda>n s. kbind (k_release L_cons s) (\<lambda>s. Inr (Ret (ucast target - n), s))) in
      if 0 < sint n then
        if cons_r (cons s) = cons_w (cons s)
        then kbind (sleep_out Ch_cons L_cons (K_read buf n target) s) (\<lambda>s. Inr (Switched, s))
        else
          let c = cons_at (cons s) (cons_r (cons s));
              s = upd_cons (\<lambda>k. k\<lparr>cons_r := cons_r k + 1\<rparr>) s in
          if c = ctrl_D then
            finish n (if sint n < uint target then upd_cons (\<lambda>k. k\<lparr>cons_r := cons_r k - 1\<rparr>) s else s)
          else
            let cbuf = local_buf s in
            kbind (store8 cbuf c s) (\<lambda>s.
            kbind (take_mm s) (\<lambda>(mm, s).
            kbind (copy_to_user mm buf cbuf 1 s) (\<lambda>(r, s).
            kbind (k_release (L_mm mm) s) (\<lambda>s.
            if r = -1 then finish n s
            else if c = 10 then finish (n - 1) s
            else read_loop (buf + 1) (n - 1) target s))))
      else finish n s)"
  by pat_completeness auto
termination
  by (relation "measure (\<lambda>(buf, n, target, s). nat (sint n))") (simp, use sint_pred_less in simp)

declare read_loop.simps [simp del]

definition user_console_read :: "u64 \<Rightarrow> i64 \<Rightarrow> kst \<Rightarrow> halt + i64 co \<times> kst" where
  "user_console_read buf n s = (let target = ucast n in kbind (k_acquire L_cons s) (read_loop buf n target))"

definition user_console_read_back :: "nat \<Rightarrow> bool \<Rightarrow> u64 \<Rightarrow> i64 \<Rightarrow> u32 \<Rightarrow> kst \<Rightarrow> halt + i64 co \<times> kst" where
  "user_console_read_back p interrupt_on buf n target s =
     kbind (sleep_back p interrupt_on L_cons s) (read_loop buf n target)"

end
