(* ===== verification/Process.thy ===== *)
theory Process imports Console begin

text \<open>
  Processes, \<^verbatim>\<open>os/proc.c\<close>: creating, copying, exiting and reaping. A process is its index in \<^verbatim>\<open>pool\<close>;
  its trap frame is bytes of a page, its kernel stack bytes that the kernel maps.
\<close>

section \<open>The trap frame\<close>

definition TF_kernel_satp :: u64 where "TF_kernel_satp = 0"
definition TF_kernel_sp :: u64 where "TF_kernel_sp = 8"
definition TF_kernel_trap :: u64 where "TF_kernel_trap = 16"
definition TF_epc :: u64 where "TF_epc = 24"
definition TF_kernel_hartid :: u64 where "TF_kernel_hartid = 32"
definition TF_sp :: u64 where "TF_sp = 48"
definition TF_a0 :: u64 where "TF_a0 = 112"
definition TF_a1 :: u64 where "TF_a1 = 120"
definition TF_a2 :: u64 where "TF_a2 = 128"
definition TF_a3 :: u64 where "TF_a3 = 136"
definition TF_a4 :: u64 where "TF_a4 = 144"
definition TF_a5 :: u64 where "TF_a5 = 152"
definition TF_a7 :: u64 where "TF_a7 = 168"
definition TF_size :: u32 where "TF_size = 288"

lemmas TF_defs = TF_kernel_satp_def TF_kernel_sp_def TF_kernel_trap_def TF_epc_def TF_kernel_hartid_def TF_sp_def
  TF_a0_def TF_a1_def TF_a2_def TF_a3_def TF_a4_def TF_a5_def TF_a7_def

section \<open>Operations\<close>

fun find_unused :: "nat list \<Rightarrow> kst \<Rightarrow> halt + nat option \<times> kst" where
  "find_unused [] s = Inr (None, s)"
| "find_unused (i # is) s =
     kbind (k_acquire (L_proc i) s) (\<lambda>s.
     if p_state (proc_pool s i) = UNUSED then Inr (Some i, s)
     else kbind (k_release (L_proc i) s) (find_unused is))"

text \<open>\<^verbatim>\<open>allocproc\<close> returns with the lock of the process held.\<close>

definition allocproc :: "kst \<Rightarrow> halt + nat option \<times> kst" where
  "allocproc s =
     kbind (find_unused [0..<NPROC] s) (\<lambda>(found, s).
     case found of
       None \<Rightarrow> Inr (None, s)
     | Some p \<Rightarrow>
         kbind (allocpid s) (\<lambda>(pid, s).
         let s = upd_proc p (\<lambda>q. q\<lparr>p_pid := pid\<rparr>) s;
             s = upd_proc p (\<lambda>q. q\<lparr>p_state := USED\<rparr>) s in
         kbind (mm_create s) (\<lambda>(mm, s).
         let s = upd_proc p (\<lambda>q. q\<lparr>p_mm := mm\<rparr>) s in
         if mm = 0 then Inl (Panic ''mm'')
         else
           let s = upd_proc p (\<lambda>q. q\<lparr>p_vma_ustack := 0, p_vma_brk := 0\<rparr>) s in
           kbind (mm_mappagesat mm TRAMPOLINE (KIVA_TO_PA (trampoline_addr (img s))) (PTE_A OR PTE_R OR PTE_X) False s) (\<lambda>(vma, s).
           let s = upd_proc p (\<lambda>q. q\<lparr>p_vma_trampoline := vma\<rparr>) s in
           kbind (kallocpage s) (\<lambda>(tf, s).
           if tf = 0 then Inl (Panic ''tf'')
           else
             kbind (mm_mappagesat mm TRAPFRAME tf (PTE_A OR PTE_D OR PTE_R OR PTE_W OR PTE_X) False s) (\<lambda>(vma, s).
             let s = upd_proc p (\<lambda>q. q\<lparr>p_vma_trapframe := vma\<rparr>) s;
                 s = upd_proc p (\<lambda>q. q\<lparr>p_trapframe := PA_TO_KVA tf\<rparr>) s;
                 s = upd_proc p (\<lambda>q. q\<lparr>p_parent := None, p_exit_code := 0\<rparr>) s;
                 s = upd_proc p (\<lambda>q. q\<lparr>p_context := Ctx 0 0\<rparr>) s in
             kbind (k_memset (p_kstack (proc_pool s p)) 0 (ucast KERNEL_STACK_SIZE) s) (\<lambda>s.
             kbind (k_memset (p_trapframe (proc_pool s p)) 0 4096 s) (\<lambda>s.
             let s = upd_proc p (\<lambda>q. q\<lparr>p_context := Ctx (first_sched_ret_addr (img s)) (p_kstack q + KERNEL_STACK_SIZE)\<rparr>) s in
             kbind (holding (L_proc p) (smp s)) (\<lambda>h.
             if \<not> h then Inl (Panic ''assertion failed: holding(&p->lock)'')
             else Inr (Some p, s))))))))))"

definition freeproc :: "nat \<Rightarrow> kst \<Rightarrow> halt + kst" where
  "freeproc p s =
     kbind (holding (L_proc p) (smp s)) (\<lambda>h.
     if \<not> h then Inl (Panic ''assertion failed: holding(&p->lock)'')
     else
       let s = upd_proc p (\<lambda>q. q\<lparr>p_state := UNUSED, p_pid := -1, p_exit_code := 0xdeadbeef, p_sleep_chan := None,
                                 p_killed := False, p_parent := None\<rparr>) s in
       kbind (freevma (p_vma_trampoline (proc_pool s p)) False s) (\<lambda>s.
       kbind (freevma (p_vma_trapframe (proc_pool s p)) True s) (\<lambda>s.
       let s = upd_proc p (\<lambda>q. q\<lparr>p_vma_trampoline := 0, p_vma_trapframe := 0\<rparr>) s in
       kbind (mm_free (p_mm (proc_pool s p)) s) (\<lambda>s.
       Inr (upd_proc p (\<lambda>q. q\<lparr>p_vma_brk := 0, p_vma_ustack := 0\<rparr>) s)))))"

definition fork :: "kst \<Rightarrow> halt + i32 \<times> kst" where
  "fork s =
     kbind (allocproc s) (\<lambda>(found, s).
     case found of
       None \<Rightarrow> Inl (Panic ''allocproc'')
     | Some np \<Rightarrow>
         kbind (curr_proc s) (\<lambda>p.
         kbind (k_acquire (L_proc p) s) (\<lambda>s.
         kbind (mm_copy (p_mm (proc_pool s p)) (p_mm (proc_pool s np)) s) (\<lambda>(r, s).
         if r \<noteq> 0 then Inl (Panic ''mm_copy'')
         else
           kbind (k_memmove (p_trapframe (proc_pool s np)) (p_trapframe (proc_pool s p)) TF_size s) (\<lambda>s.
           kbind (store64 (p_trapframe (proc_pool s np) + TF_a0) 0 s) (\<lambda>s.
           let s = upd_proc np (\<lambda>q. q\<lparr>p_parent := Some p\<rparr>) s;
               s = upd_proc np (\<lambda>q. q\<lparr>p_state := RUNNABLE\<rparr>) s in
           kbind (add_task np s) (\<lambda>s.
           kbind (k_release (L_proc np) s) (\<lambda>s.
           kbind (k_release (L_proc p) s) (\<lambda>s.
           Inr (p_pid (proc_pool s np), s))))))))))"

text \<open>
  A scan of the table by \<^verbatim>\<open>wait\<close>: the process reaped, with all locks released, or whether there is a
  child. \<^verbatim>\<open>code\<close> is an address of the kernel, 0 for the null pointer.
\<close>

fun wait_scan :: "i32 \<Rightarrow> u64 \<Rightarrow> nat \<Rightarrow> bool \<Rightarrow> nat list \<Rightarrow> kst \<Rightarrow> halt + (i32 option \<times> bool) \<times> kst" where
  "wait_scan pid code p havekids [] s = Inr ((None, havekids), s)"
| "wait_scan pid code p havekids (i # is) s =
     (if i = p then wait_scan pid code p havekids is s
      else
        kbind (k_acquire (L_proc i) s) (\<lambda>s.
        let child = proc_pool s i in
        if p_parent child = Some p \<and> p_state child = ZOMBIE \<and> (sint pid \<le> 0 \<or> p_pid child = pid) then
          let cpid = p_pid child in
          kbind (if code \<noteq> 0 then store32 code (ucast (p_exit_code child)) s else Inr s) (\<lambda>s.
          kbind (freeproc i s) (\<lambda>s.
          kbind (k_release (L_proc i) s) (\<lambda>s.
          kbind (k_release L_wait s) (\<lambda>s. Inr ((Some cpid, True), s)))))
        else
          kbind (k_release (L_proc i) s) (wait_scan pid code p (havekids \<or> p_parent child = Some p) is)))"

definition wait_round :: "nat \<Rightarrow> i32 \<Rightarrow> u64 \<Rightarrow> kst \<Rightarrow> halt + i32 co \<times> kst" where
  "wait_round p pid code s =
     kbind (wait_scan pid code p False [0..<NPROC] s) (\<lambda>((reaped, havekids), s).
     case reaped of
       Some cpid \<Rightarrow> Inr (Ret cpid, s)
     | None \<Rightarrow>
         if \<not> havekids \<or> p_killed (proc_pool s p)
         then kbind (k_release L_wait s) (\<lambda>s. Inr (Ret (-1), s))
         else kbind (sleep_out (Ch_proc p) L_wait (K_wait pid code) s) (\<lambda>s. Inr (Switched, s)))"

definition wait :: "i32 \<Rightarrow> u64 \<Rightarrow> kst \<Rightarrow> halt + i32 co \<times> kst" where
  "wait pid code s =
     kbind (curr_proc s) (\<lambda>p.
     kbind (k_acquire L_wait s) (wait_round p pid code))"

definition wait_back :: "nat \<Rightarrow> bool \<Rightarrow> i32 \<Rightarrow> u64 \<Rightarrow> kst \<Rightarrow> halt + i32 co \<times> kst" where
  "wait_back p interrupt_on pid code s = kbind (sleep_back p interrupt_on L_wait s) (wait_round p pid code)"

definition reparent_one :: "nat \<Rightarrow> nat \<Rightarrow> kst \<Rightarrow> halt + kst" where
  "reparent_one p i s =
     (if i = p then Inr s
      else
        kbind (k_acquire (L_proc i) s) (\<lambda>s.
        let s = (if p_parent (proc_pool s i) = Some p then upd_proc i (\<lambda>q. q\<lparr>p_parent := Some (init_proc s)\<rparr>) s else s) in
        k_release (L_proc i) s))"

text \<open>\<^verbatim>\<open>exit\<close> up to the switch; it never goes on.\<close>

definition exit_out :: "i32 \<Rightarrow> kst \<Rightarrow> halt + kst" where
  "exit_out code s =
     kbind (curr_proc s) (\<lambda>p.
     kbind (k_acquire L_wait s) (\<lambda>s.
     kbind (wakeup (map_option Ch_proc (p_parent (proc_pool s p))) s) (\<lambda>s.
     kbind (k_acquire (L_proc p) s) (\<lambda>s.
     kbind (kfold (reparent_one p) [0..<NPROC] s) (\<lambda>s.
     let s = upd_proc p (\<lambda>q. q\<lparr>p_exit_code := scast code\<rparr>) s;
         s = upd_proc p (\<lambda>q. q\<lparr>p_state := ZOMBIE\<rparr>) s in
     kbind (k_release L_wait s) (sched_out K_exit))))))"

definition exit_back :: "nat \<Rightarrow> bool \<Rightarrow> kst \<Rightarrow> halt + kst" where
  "exit_back p interrupt_on s =
     kbind (sched_back p interrupt_on s) (\<lambda>s. Inl (Panic ''exit should never return''))"

text \<open>Growing a process is not implemented.\<close>

definition growproc :: "i32 \<Rightarrow> kst \<Rightarrow> halt + i32 \<times> kst" where
  "growproc n s = Inl (Panic ''qwq'')"

end
