(* ===== verification/Loader.thy ===== *)
theory Loader imports Process Printf begin

text \<open>
  Programs: the ELF structures of \<^verbatim>\<open>os/elf.h\<close> that the kernel reads, the loader of \<^verbatim>\<open>os/loader.c\<close>, and
  \<^verbatim>\<open>exec\<close> of \<^verbatim>\<open>os/proc.c\<close>. The table \<^verbatim>\<open>user_apps\<close> and the images it points to are generated when the
  kernel is built: they are \<open>user_apps\<close>, up to the entry without a name, and bytes of memory.
\<close>

section \<open>ELF\<close>

record elf64_ehdr =
  e_ident :: "u8 list"
  e_type :: "16 word"
  e_machine :: "16 word"
  e_version :: u32
  e_entry :: u64
  e_phoff :: u64
  e_shoff :: u64
  e_flags :: u32
  e_ehsize :: "16 word"
  e_phentsize :: "16 word"
  e_phnum :: "16 word"
  e_shentsize :: "16 word"
  e_shnum :: "16 word"
  e_shstrndx :: "16 word"

record elf64_phdr =
  p_type :: u32
  p_flags :: u32
  p_offset :: u64
  p_vaddr :: u64
  p_paddr :: u64
  p_filesz :: u64
  p_memsz :: u64
  p_align :: u64

definition sizeof_phdr :: u64 where "sizeof_phdr = 56"
definition PT_LOAD :: u32 where "PT_LOAD = 1"
definition PF_R :: u32 where "PF_R = 4"
definition PF_W :: u32 where "PF_W = 2"
definition PF_X :: u32 where "PF_X = 1"

definition get_ehdr :: "mem \<Rightarrow> u64 \<Rightarrow> elf64_ehdr" where
  "get_ehdr m a = \<lparr>e_ident = map (\<lambda>i. m (a + of_nat i)) [0..<16],
     e_type = ld16 m (a + 16), e_machine = ld16 m (a + 18), e_version = ld32 m (a + 20),
     e_entry = ld64 m (a + 24), e_phoff = ld64 m (a + 32), e_shoff = ld64 m (a + 40), e_flags = ld32 m (a + 48),
     e_ehsize = ld16 m (a + 52), e_phentsize = ld16 m (a + 54), e_phnum = ld16 m (a + 56),
     e_shentsize = ld16 m (a + 58), e_shnum = ld16 m (a + 60), e_shstrndx = ld16 m (a + 62)\<rparr>"

definition get_phdr :: "mem \<Rightarrow> u64 \<Rightarrow> elf64_phdr" where
  "get_phdr m a = \<lparr>p_type = ld32 m a, p_flags = ld32 m (a + 4), p_offset = ld64 m (a + 8),
     p_vaddr = ld64 m (a + 16), p_paddr = ld64 m (a + 24), p_filesz = ld64 m (a + 32),
     p_memsz = ld64 m (a + 40), p_align = ld64 m (a + 48)\<rparr>"

definition load_ehdr :: "u64 \<Rightarrow> kst \<Rightarrow> halt + elf64_ehdr" where
  "load_ehdr a s = (if mapped s a 64 then Inr (get_ehdr (mem s) a) else Inl (Page_fault a))"

definition load_phdr :: "u64 \<Rightarrow> kst \<Rightarrow> halt + elf64_phdr" where
  "load_phdr a s = (if mapped s a 56 then Inr (get_phdr (mem s) a) else Inl (Page_fault a))"

section \<open>Looking up a program\<close>

definition k_strlen :: "u64 \<Rightarrow> kst \<Rightarrow> halt + i32" where
  "k_strlen a s = (case strlen (mem s) a of None \<Rightarrow> Inl (Undefined ''strlen'') | Some n \<Rightarrow> Inr n)"

fun get_elf_loop :: "u64 \<Rightarrow> user_app list \<Rightarrow> kst \<Rightarrow> halt + user_app option" where
  "get_elf_loop name [] s = Inr None"
| "get_elf_loop name (app # apps) s =
     kbind (k_strlen name s) (\<lambda>n.
     if strncmp (mem s) name (app_name app) n = 0 then Inr (Some app) else get_elf_loop name apps s)"

definition get_elf :: "u64 \<Rightarrow> kst \<Rightarrow> halt + user_app option" where
  "get_elf name s = get_elf_loop name (user_apps s) s"

text \<open>The bytes of a string, for printing.\<close>

definition c_string :: "mem \<Rightarrow> u64 \<Rightarrow> nat \<Rightarrow> string" where
  "c_string m a n = map (\<lambda>i. char_of (unat (m (a + of_nat i)))) [0..<n]"

definition loader_check :: "user_app \<Rightarrow> kst \<Rightarrow> halt + kst" where
  "loader_check app s =
     kbind (k_strlen (app_name app) s) (\<lambda>n.
     let name = c_string (mem s) (app_name app) (unat n) in
     kbind (printf (Some ([char_of (9 :: nat)] @ ''%s'' @ [char_of (10 :: nat)])) [Str (Some name)] s) (\<lambda>s.
     kbind (load_ehdr (elf_address app) s) (\<lambda>ehdr.
     if take 4 (e_ident ehdr) \<noteq> [0x7F, 0x45, 0x4C, 0x46] then Inl (Panic ''invalid elf header'')
     else if ucast (e_phentsize ehdr) \<noteq> sizeof_phdr then Inl (Panic ''invalid program header size'')
     else Inr s)))"

definition loader_init :: "kst \<Rightarrow> halt + kst" where
  "loader_init s =
     kbind (printf (Some (''applist:'' @ [char_of (10 :: nat)])) [] s) (\<lambda>s. kfold loader_check (user_apps s) s)"

section \<open>Loading\<close>

definition USTACK_START :: u64 where "USTACK_START = 0xffff0000"
definition USTACK_SIZE :: u64 where "USTACK_SIZE = PGSIZE * 8"

definition segment_perm :: "u32 \<Rightarrow> u64" where
  "segment_perm flags =
     (let perm = PTE_U;
          perm = (if flags AND PF_R \<noteq> 0 then perm OR PTE_R else perm);
          perm = (if flags AND PF_W \<noteq> 0 then perm OR PTE_W else perm) in
      if flags AND PF_X \<noteq> 0 then perm OR PTE_X else perm)"

text \<open>The loop that fills the pages of a segment carries the offset in the file and what remains of it.\<close>

definition fill_segment_page ::
    "u64 \<Rightarrow> u64 \<Rightarrow> u64 \<Rightarrow> (u64 \<times> u64) \<times> kst \<Rightarrow> halt + (u64 \<times> u64) \<times> kst" where
  "fill_segment_page mm base va = (\<lambda>((file_off, file_remains), s).
     kbind (walkaddr mm va s) (\<lambda>(pa, s).
     let pa = PA_TO_KVA pa; src = base + file_off; copy_size = min file_remains PGSIZE in
     kbind (k_memmove pa src (ucast copy_size) s) (\<lambda>s.
     kbind (if copy_size < PGSIZE then k_memset (pa + copy_size) 0 (ucast (PGSIZE - copy_size)) s else Inr s) (\<lambda>s.
     Inr ((file_off + copy_size, file_remains - copy_size), s)))))"

lemma walkaddr_user: "walkaddr mm va s = Inr r \<Longrightarrow> IS_USER_VA va"
  by (auto simp: walkaddr_def split: if_splits)

lemma next_page_greater: "IS_USER_VA (PGROUNDDOWN va) \<Longrightarrow> unat va < unat (PGROUNDDOWN va + PGSIZE)"
proof -
  assume u: "IS_USER_VA (PGROUNDDOWN va)"
  then have "unat (PGROUNDDOWN va) \<le> 274877906944" by (simp add: IS_USER_VA_def MAXVA_def word_le_nat_alt)
  then have "unat (PGROUNDDOWN va + PGSIZE) = unat (PGROUNDDOWN va) + 4096" by (subst unat_add_no_wrap) simp_all
  moreover have "unat va = unat (PGROUNDDOWN va) + unat va mod 4096"
    using unat_PGROUNDDOWN [of va] by simp
  moreover have "unat va mod 4096 < 4096" by simp
  ultimately show ?thesis by linarith
qed

function bss_loop :: "u64 \<Rightarrow> u64 \<Rightarrow> u64 \<Rightarrow> kst \<Rightarrow> halt + kst" where
  "bss_loop mm va bss_end s =
     (if va < bss_end then
        let page_off = va - PGROUNDDOWN va; clear_size = PGROUNDUP va - va in
        kbind (walkaddr mm (PGROUNDDOWN va) s) (\<lambda>(pa, s).
        kbind (k_memset (PA_TO_KVA pa + page_off) 0 (ucast clear_size) s) (\<lambda>s.
        bss_loop mm (PGROUNDDOWN va + PGSIZE) bss_end s))
      else Inr s)"
  by pat_completeness auto
termination
proof (relation "measure (\<lambda>(mm, va, bss_end, s). 2 ^ 64 - unat va)")
  fix mm va bss_end :: u64 and s t u :: kst and po cs r pa x y
  assume "walkaddr mm (PGROUNDDOWN va) s = Inr r"
  then have "unat va < unat (PGROUNDDOWN va + PGSIZE)" by (intro next_page_greater walkaddr_user)
  then show "((mm, PGROUNDDOWN va + PGSIZE, bss_end, u), mm, va, bss_end, s) \<in> measure (\<lambda>(mm, va, bss_end, s). 2 ^ 64 - unat va)"
    using unat_less_2p [of "PGROUNDDOWN va + PGSIZE"] by simp
qed simp

declare bss_loop.simps [simp del]

definition set_area :: "u64 \<Rightarrow> u64 \<Rightarrow> u64 \<Rightarrow> u64 \<Rightarrow> kst \<Rightarrow> kst" where
  "set_area vma lo hi flags = upd_vma vma (\<lambda>v. v\<lparr>vm_start := lo, vm_end := hi, pte_flags := flags\<rparr>)"

definition load_segment :: "user_app \<Rightarrow> elf64_ehdr \<Rightarrow> nat \<Rightarrow> nat \<Rightarrow> u64 \<times> kst \<Rightarrow> halt + u64 \<times> kst" where
  "load_segment app ehdr p i = (\<lambda>(max_va_end, s).
     kbind (load_phdr (elf_address app + e_phoff ehdr + of_nat i * sizeof_phdr) s) (\<lambda>phdr.
     if p_type phdr \<noteq> PT_LOAD then Inr (max_va_end, s)
     else
       let mm = p_mm (proc_pool s p) in
       kbind (mm_create_vma mm s) (\<lambda>(vma, s).
       let lo = PGROUNDDOWN (p_vaddr phdr); hi = PGROUNDUP (lo + p_memsz phdr);
           s = set_area vma lo hi (segment_perm (p_flags phdr)) s in
       kbind (mm_mappages vma s) (\<lambda>(r, s).
       if r \<noteq> 0 then Inl (Panic ''mm_mappages'')
       else
         kbind (kfold (fill_segment_page mm (elf_address app + p_offset phdr)) (page_range lo hi) ((0, p_filesz phdr), s))
           (\<lambda>((file_off, file_remains), s).
         kbind (if p_memsz phdr > p_filesz phdr
                then bss_loop mm (p_vaddr phdr + p_filesz phdr) (p_vaddr phdr + p_memsz phdr) s else Inr s) (\<lambda>s.
         if file_remains \<noteq> 0 then Inl (Panic ''assertion failed: file_remains == 0'')
         else Inr (max max_va_end (PGROUNDUP (p_vaddr phdr + p_memsz phdr)), s)))))))"

definition zero_user_page :: "u64 \<Rightarrow> u64 \<Rightarrow> kst \<Rightarrow> halt + kst" where
  "zero_user_page mm va s =
     kbind (walkaddr mm va s) (\<lambda>(pa, s). k_memset (PA_TO_KVA pa) 0 4096 s)"

definition load_user_elf :: "user_app \<Rightarrow> nat \<Rightarrow> kst \<Rightarrow> halt + kst" where
  "load_user_elf app p s =
     (if p_state (proc_pool s p) = UNUSED then Inl (Panic ''...'')
      else
        kbind (load_ehdr (elf_address app) s) (\<lambda>ehdr.
        kbind (kfold (load_segment app ehdr p) [0..<unat (e_phnum ehdr)] (0, s)) (\<lambda>(max_va_end, s).
        let mm = p_mm (proc_pool s p) in
        kbind (mm_create_vma mm s) (\<lambda>(brk, s).
        let s = upd_proc p (\<lambda>q. q\<lparr>p_vma_brk := brk\<rparr>) s;
            s = set_area brk max_va_end max_va_end (PTE_R OR PTE_W OR PTE_U) s in
        kbind (mm_mappages brk s) (\<lambda>(_, s).
        kbind (mm_create_vma mm s) (\<lambda>(ustack, s).
        let s = upd_proc p (\<lambda>q. q\<lparr>p_vma_ustack := ustack\<rparr>) s;
            s = set_area ustack (USTACK_START - USTACK_SIZE) USTACK_START (PTE_R OR PTE_W OR PTE_U) s in
        kbind (mm_mappages ustack s) (\<lambda>(_, s).
        kbind (kfold (zero_user_page mm) (page_range (vm_start (vmas s ustack)) (vm_end (vmas s ustack))) s) (\<lambda>s.
        kbind (store64 (p_trapframe (proc_pool s p) + TF_sp) (vm_end (vmas s ustack)) s) (\<lambda>s.
        kbind (store64 (p_trapframe (proc_pool s p) + TF_epc) (e_entry ehdr) s) (\<lambda>s.
        Inr (upd_proc p (\<lambda>q. q\<lparr>p_state := RUNNABLE\<rparr>) s)))))))))))"

definition exec :: "u64 \<Rightarrow> kst \<Rightarrow> halt + i32 \<times> kst" where
  "exec name s =
     kbind (get_elf name s) (\<lambda>found.
     case found of
       None \<Rightarrow> Inr (-1, s)
     | Some app \<Rightarrow>
         kbind (curr_proc s) (\<lambda>p.
         kbind (k_acquire (L_proc p) s) (\<lambda>s.
         kbind (mm_free_pages (p_mm (proc_pool s p)) s) (\<lambda>s.
         kbind (load_user_elf app p s) (\<lambda>s.
         kbind (k_release (L_proc p) s) (\<lambda>s. Inr (0, s)))))))"

definition load_init_app :: "kst \<Rightarrow> halt + kst" where
  "load_init_app s =
     kbind (get_elf (init_proc_name (img s)) s) (\<lambda>found.
     case found of
       None \<Rightarrow> Inl (Panic ''fail to lookup init elf'')
     | Some app \<Rightarrow>
         kbind (allocproc s) (\<lambda>(found, s).
         case found of
           None \<Rightarrow> Inl (Panic ''allocproc'')
         | Some p \<Rightarrow>
             kbind (load_user_elf app p s) (\<lambda>s.
             kbind (add_task p s) (k_release (L_proc p)))))"

end
