(* ===== verification/Syscall.thy ===== *)
theory Syscall imports Loader begin

text \<open>
  The system calls, \<^verbatim>\<open>os/syscall.c\<close>: each reads its arguments as the C types convert them and returns,
  or leaves the CPU. \<open>syscall\<close> dispatches on register a7 of the trap frame and stores the result,
  cut to an \<^verbatim>\<open>int\<close> and sign-extended, in a0.
\<close>

section \<open>Numbers\<close>

definition SYS_read :: i32 where "SYS_read = 63"
definition SYS_write :: i32 where "SYS_write = 64"
definition SYS_exit :: i32 where "SYS_exit = 93"
definition SYS_sched_yield :: i32 where "SYS_sched_yield = 124"
definition SYS_gettimeofday :: i32 where "SYS_gettimeofday = 169"
definition SYS_getpid :: i32 where "SYS_getpid = 172"
definition SYS_getppid :: i32 where "SYS_getppid = 173"
definition SYS_sbrk :: i32 where "SYS_sbrk = 214"
definition SYS_clone :: i32 where "SYS_clone = 220"
definition SYS_execve :: i32 where "SYS_execve = 221"
definition SYS_wait4 :: i32 where "SYS_wait4 = 260"
definition SYS_spawn :: i32 where "SYS_spawn = 400"

lemmas SYS_defs = SYS_read_def SYS_write_def SYS_exit_def SYS_sched_yield_def SYS_gettimeofday_def SYS_getpid_def
  SYS_getppid_def SYS_sbrk_def SYS_clone_def SYS_execve_def SYS_wait4_def SYS_spawn_def

definition STDIN :: i32 where "STDIN = 0"
definition STDOUT :: i32 where "STDOUT = 1"

section \<open>The calls\<close>

definition sys_write :: "i32 \<Rightarrow> u64 \<Rightarrow> u32 \<Rightarrow> kst \<Rightarrow> halt + u64 \<times> kst" where
  "sys_write fd va len s = (if fd \<noteq> STDOUT then Inr (-1, s) else user_console_write va (ucast len) s)"

definition sys_read :: "i32 \<Rightarrow> u64 \<Rightarrow> u64 \<Rightarrow> kst \<Rightarrow> halt + u64 co \<times> kst" where
  "sys_read fd va len s = (if fd \<noteq> STDIN then Inr (Ret (-1), s) else user_console_read va len s)"

definition sys_sched_yield :: "kst \<Rightarrow> halt + u64 co \<times> kst" where
  "sys_sched_yield s = kbind (yield_out K_yield_sys s) (\<lambda>s. Inr (Switched, s))"

definition sys_gettimeofday :: "u64 \<Rightarrow> kst \<Rightarrow> halt + u64 \<times> kst" where
  "sys_gettimeofday val s =
     kbind (curr_proc s) (\<lambda>p.
     let cycle = get_cycle s; t = local_buf s;
         sec = cycle div CPU_FREQ; usec = (cycle mod CPU_FREQ) * 1000000 div CPU_FREQ in
     kbind (store64 t sec s) (\<lambda>s.
     kbind (store64 (t + 8) usec s) (\<lambda>s.
     kbind (copy_to_user (p_mm (proc_pool s p)) val t 16 s) (\<lambda>(_, s). Inr (0, s)))))"

definition sys_getpid :: "kst \<Rightarrow> halt + u64 \<times> kst" where
  "sys_getpid s = kbind (curr_proc s) (\<lambda>p. Inr (scast (p_pid (proc_pool s p)), s))"

definition sys_getppid :: "kst \<Rightarrow> halt + u64 \<times> kst" where
  "sys_getppid s =
     kbind (curr_proc s) (\<lambda>p.
     Inr (case p_parent (proc_pool s p) of None \<Rightarrow> 0 | Some q \<Rightarrow> scast (p_pid (proc_pool s q)), s))"

definition sys_clone :: "kst \<Rightarrow> halt + u64 \<times> kst" where
  "sys_clone s = kbind (fork s) (\<lambda>(pid, s). Inr (scast pid, s))"

definition sys_exec :: "u64 \<Rightarrow> kst \<Rightarrow> halt + u64 \<times> kst" where
  "sys_exec va s =
     kbind (curr_proc s) (\<lambda>p.
     let name = local_buf s in
     kbind (copystr_from_user (p_mm (proc_pool s p)) name va 200 s) (\<lambda>(_, s).
     kbind (exec name s) (\<lambda>(r, s). Inr (scast r, s))))"

fun co_map :: "('a \<Rightarrow> 'b) \<Rightarrow> 'a co \<Rightarrow> 'b co" where
  "co_map f (Ret x) = Ret (f x)"
| "co_map f Switched = Switched"

definition sys_wait :: "i32 \<Rightarrow> u64 \<Rightarrow> kst \<Rightarrow> halt + u64 co \<times> kst" where
  "sys_wait pid va s =
     kbind (curr_proc s) (\<lambda>p.
     kbind (k_acquire (L_proc p) s) (\<lambda>s.
     let mm = p_mm (proc_pool s p) in
     kbind (k_acquire (L_mm mm) s) (\<lambda>s.
     kbind (useraddr mm va s) (\<lambda>(pa, s).
     kbind (k_release (L_mm mm) s) (\<lambda>s.
     kbind (k_release (L_proc p) s) (\<lambda>s.
     let code = PA_TO_KVA pa in
     kbind (wait pid code s) (\<lambda>(r, s). Inr (co_map scast r, s))))))))"

definition sys_spawn :: "u64 \<Rightarrow> u64" where "sys_spawn va = -1"

definition sys_set_priority :: "i64 \<Rightarrow> kst \<Rightarrow> halt + u64 \<times> kst" where
  "sys_set_priority prio s = Inr (-1, s)"

definition sys_sbrk :: "i32 \<Rightarrow> kst \<Rightarrow> halt + u64 \<times> kst" where
  "sys_sbrk n s = kbind (curr_proc s) (\<lambda>p. Inl (Panic ''sbrk''))"

section \<open>Dispatch\<close>

abbreviation rets :: "halt + u64 \<times> kst \<Rightarrow> halt + u64 co \<times> kst" where
  "rets m \<equiv> kbind m (\<lambda>(r, s). Inr (Ret r, s))"

definition syscall_switch :: "i32 \<Rightarrow> u64 \<Rightarrow> u64 \<Rightarrow> u64 \<Rightarrow> kst \<Rightarrow> halt + u64 co \<times> kst" where
  "syscall_switch nr a0 a1 a2 s =
     (if nr = SYS_write then rets (sys_write (ucast a0) a1 (ucast a2) s)
      else if nr = SYS_read then sys_read (ucast a0) a1 a2 s
      else if nr = SYS_exit then kbind (exit_out (ucast a0) s) (\<lambda>s. Inr (Switched, s))
      else if nr = SYS_sched_yield then sys_sched_yield s
      else if nr = SYS_gettimeofday then rets (sys_gettimeofday a0 s)
      else if nr = SYS_getpid then rets (sys_getpid s)
      else if nr = SYS_getppid then rets (sys_getppid s)
      else if nr = SYS_clone then rets (sys_clone s)
      else if nr = SYS_execve then rets (sys_exec a0 s)
      else if nr = SYS_wait4 then sys_wait (ucast a0) a1 s
      else if nr = SYS_spawn then Inr (Ret (sys_spawn a0), s)
      else if nr = SYS_sbrk then rets (sys_sbrk (ucast a0) s)
      else Inr (Ret (-1), s))"

text \<open>The end of \<^verbatim>\<open>syscall\<close>, also for a call that comes back after a switch.\<close>

definition syscall_return :: "u64 \<Rightarrow> u64 \<Rightarrow> kst \<Rightarrow> halt + kst" where
  "syscall_return tf r s = (let ret = (ucast r :: i32) in store64 (tf + TF_a0) (scast ret) s)"

definition syscall :: "kst \<Rightarrow> halt + unit co \<times> kst" where
  "syscall s =
     kbind (curr_proc s) (\<lambda>p.
     let tf = p_trapframe (proc_pool s p) in
     kbind (load64 (tf + TF_a7) s) (\<lambda>a7.
     kbind (load64 (tf + TF_a0) s) (\<lambda>a0.
     kbind (load64 (tf + TF_a1) s) (\<lambda>a1.
     kbind (load64 (tf + TF_a2) s) (\<lambda>a2.
     kbind (load64 (tf + TF_a3) s) (\<lambda>a3.
     kbind (load64 (tf + TF_a4) s) (\<lambda>a4.
     kbind (load64 (tf + TF_a5) s) (\<lambda>a5.
     kbind (syscall_switch (ucast a7) a0 a1 a2 s) (\<lambda>(r, s).
     case r of
       Switched \<Rightarrow> Inr (Switched, s)
     | Ret v \<Rightarrow> kbind (syscall_return tf v s) (\<lambda>s. Inr (Ret (), s)))))))))))"

end
