(* ===== verification/Trap.thy ===== *)
theory Trap imports Syscall Debug begin

text \<open>
  Traps, \<^verbatim>\<open>os/trap.c\<close>: the handlers for traps from user mode and from the kernel, and the return to
  user mode. A handler gets what the hardware and \<^verbatim>\<open>trampoline.S\<close> have left in the control registers and in
  the trap frame. After it the CPU is either in user mode, or (\<open>Switched\<close>) in the scheduler.
\<close>

section \<open>Causes\<close>

definition InstructionMisaligned :: u64 where "InstructionMisaligned = 0"
definition IllegalInstruction :: u64 where "IllegalInstruction = 2"
definition LoadMisaligned :: u64 where "LoadMisaligned = 4"
definition StoreMisaligned :: u64 where "StoreMisaligned = 6"
definition UserEnvCall :: u64 where "UserEnvCall = 8"
definition InstructionPageFault :: u64 where "InstructionPageFault = 12"
definition LoadPageFault :: u64 where "LoadPageFault = 13"
definition StorePageFault :: u64 where "StorePageFault = 15"
definition SupervisorTimer :: u64 where "SupervisorTimer = 5"
definition SupervisorExternal :: u64 where "SupervisorExternal = 9"

lemmas cause_defs = InstructionMisaligned_def IllegalInstruction_def LoadMisaligned_def StoreMisaligned_def
  UserEnvCall_def InstructionPageFault_def LoadPageFault_def StorePageFault_def

section \<open>Operations\<close>

definition plic_handle :: "kst \<Rightarrow> halt + kst" where
  "plic_handle s =
     kbind (plic_claim s) (\<lambda>(irq, s).
     kbind (if irq = UART0_IRQ then uart_intr s else Inr s) (\<lambda>s.
     if irq \<noteq> 0 then plic_complete irq s else Inr s))"

definition set_inkernel_trap :: "bool \<Rightarrow> kst \<Rightarrow> kst" where
  "set_inkernel_trap b s = s\<lparr>smp := upd_cpu (\<lambda>c. c\<lparr>c_inkernel_trap := b\<rparr>) (smp s)\<rparr>"

text \<open>\<open>sip\<close> is what the pending register reads, for the dump.\<close>

definition kernel_trap :: "u64 \<Rightarrow> u64 \<Rightarrow> kst \<Rightarrow> halt + kst" where
  "kernel_trap sip ktf s =
     (if intr_get (smp s) then Inl (Panic ''assertion failed: !intr_get()'')
      else if r_sstatus s AND SSTATUS_SPP = 0 then Inl (Panic ''kerneltrap: not from supervisor mode'')
      else
        kbind (mycpu (smp s)) (\<lambda>_.
        if c_inkernel_trap (this_cpu (smp s)) then
          kbind (print_sysregs sip True s) (\<lambda>s. kbind (print_ktrapframe ktf s) (\<lambda>s. Inl (Panic ''nested kerneltrap'')))
        else
          let s = set_inkernel_trap True s;
              cause = r_scause s; exception_code = cause AND SCAUSE_EXCEPTION_CODE_MASK in
          if cause AND SCAUSE_INTERRUPT \<noteq> 0 then
            kbind
              (if exception_code = SupervisorTimer then Inr (set_next_timer s)
               else if exception_code = SupervisorExternal then plic_handle s
               else Inl (Panic ''kerneltrap entered with unhandled interrupt.'')) (\<lambda>s.
            if intr_get (smp s) then Inl (Panic ''assertion failed: !intr_get()'')
            else Inr (set_inkernel_trap False s))
          else
            kbind (print_sysregs sip True s) (\<lambda>s. kbind (print_ktrapframe ktf s) (\<lambda>s. Inl (Panic ''trap from kernel'')))))"

definition set_kerneltrap :: "kst \<Rightarrow> halt + kst" where
  "set_kerneltrap s =
     (if \<not> IS_ALIGNED (kernel_trap_entry (img s)) 4 then Inl (Panic ''assertion failed: IS_ALIGNED((uint64)kernel_trap_entry, 4)'')
      else Inr (w_stvec (kernel_trap_entry (img s)) s))"

definition trap_init :: "kst \<Rightarrow> halt + kst" where "trap_init = set_kerneltrap"

text \<open>The jump to \<^verbatim>\<open>userret\<close>, with the page table and the trap vector it installs.\<close>

definition userret_jump :: "u64 \<Rightarrow> u64 \<Rightarrow> kst \<Rightarrow> kst" where
  "userret_jump satp stvec s = w_stvec stvec (w_satp satp s)"

definition usertrapret :: "kst \<Rightarrow> halt + kst" where
  "usertrapret s =
     (if intr_get (smp s) then Inl (Panic ''usertrapret entered with intr on'')
      else
        kbind (curr_proc s) (\<lambda>p.
        let tf = p_trapframe (proc_pool s p) in
        kbind (store64 (tf + TF_kernel_satp) (r_satp s) s) (\<lambda>s.
        kbind (store64 (tf + TF_kernel_sp) (p_kstack (proc_pool s p) + KERNEL_STACK_SIZE) s) (\<lambda>s.
        kbind (store64 (tf + TF_kernel_trap) (usertrap_addr (img s)) s) (\<lambda>s.
        kbind (store64 (tf + TF_kernel_hartid) (of_nat (tp (smp s))) s) (\<lambda>s.
        kbind (load64 (tf + TF_epc) s) (\<lambda>epc.
        let s = w_sepc epc s;
            x = r_sstatus s;
            x = x AND NOT SSTATUS_SPP;
            x = x OR SSTATUS_SPIE;
            s = w_sstatus x s;
            satp = MAKE_SATP (KVA_TO_PA (mm_pgt (mms s (p_mm (proc_pool s p)))));
            stvec = (TRAMPOLINE + (uservec_addr (img s) - trampoline_addr (img s))) AND NOT 3 in
        Inr (userret_jump satp stvec s))))))))"

definition first_sched_ret :: "kst \<Rightarrow> halt + kst" where
  "first_sched_ret s =
     kbind (curr_proc s) (\<lambda>p.
     kbind (k_release (L_proc p) s) (\<lambda>s. usertrapret (k_intr_off s)))"

definition user_exit :: "i32 \<Rightarrow> kst \<Rightarrow> halt + unit co \<times> kst" where
  "user_exit code s = kbind (exit_out code s) (\<lambda>s. Inr (Switched, s))"

definition unknown_trap :: "kst \<Rightarrow> halt + unit co \<times> kst" where
  "unknown_trap = user_exit (-1)"

definition bad_access :: "kst \<Rightarrow> halt + unit co \<times> kst" where
  "bad_access s =
     kbind (curr_proc s) (\<lambda>p.
     kbind (vm_print (mm_pgt (mms s (p_mm (proc_pool s p)))) s) (user_exit (-2)))"

definition page_fault :: "u64 \<Rightarrow> kst \<Rightarrow> halt + unit co \<times> kst" where
  "page_fault cause s =
     (let addr = r_stval s in
      kbind (curr_proc s) (\<lambda>p.
      kbind (walk (p_mm (proc_pool s p)) addr False s) (\<lambda>(pte, s).
      if pte = 0 then bad_access s
      else
        kbind (load64 pte s) (\<lambda>e.
        if e AND PTE_V = 0 then bad_access s
        else
          let e = e OR PTE_A in
          kbind (store64 pte e s) (\<lambda>s.
          kbind (if cause = StorePageFault then store64 pte (e OR PTE_D) s else Inr s) (\<lambda>s.
          Inr (Ret (), s)))))))"

text \<open>The end of \<^verbatim>\<open>usertrap\<close>, also for a trap that comes back after a switch.\<close>

definition usertrap_end :: "kst \<Rightarrow> halt + unit co \<times> kst" where
  "usertrap_end s =
     (if intr_get (smp s) then Inl (Panic ''assertion failed: !intr_get()'')
      else kbind (usertrapret s) (\<lambda>s. Inr (Ret (), s)))"

definition co_end :: "unit co \<Rightarrow> kst \<Rightarrow> halt + unit co \<times> kst" where
  "co_end r s = (case r of Switched \<Rightarrow> Inr (Switched, s) | Ret _ \<Rightarrow> usertrap_end s)"

definition usertrap_switch :: "u64 \<Rightarrow> u64 \<Rightarrow> kst \<Rightarrow> halt + unit co \<times> kst" where
  "usertrap_switch cause tf s =
     (let code = cause AND SCAUSE_EXCEPTION_CODE_MASK in
      if cause AND SCAUSE_INTERRUPT \<noteq> 0 then
        if code = SupervisorTimer
        then kbind (yield_out K_yield_trap (set_next_timer s)) (\<lambda>s. Inr (Switched, s))
        else if code = SupervisorExternal then kbind (plic_handle s) (\<lambda>s. Inr (Ret (), s))
        else unknown_trap s
      else if code = UserEnvCall then
        kbind (load64 (tf + TF_epc) s) (\<lambda>epc.
        kbind (store64 (tf + TF_epc) (epc + 4) s) (\<lambda>s.
        kbind (syscall (k_intr_on s)) (\<lambda>(r, s).
        Inr (r, case r of Ret _ \<Rightarrow> k_intr_off s | Switched \<Rightarrow> s))))
      else if code = LoadPageFault \<or> code = StorePageFault \<or> code = InstructionPageFault then page_fault cause s
      else if code = StoreMisaligned \<or> code = InstructionMisaligned \<or> code = LoadMisaligned then bad_access s
      else if code = IllegalInstruction then user_exit (-3) s
      else unknown_trap s)"

definition usertrap :: "kst \<Rightarrow> halt + unit co \<times> kst" where
  "usertrap s =
     kbind (set_kerneltrap s) (\<lambda>s.
     if intr_get (smp s) then Inl (Panic ''assertion failed: !intr_get()'')
     else
       kbind (curr_proc s) (\<lambda>p.
       let tf = p_trapframe (proc_pool s p) in
       if r_sstatus s AND SSTATUS_SPP \<noteq> 0 then Inl (Panic ''usertrap: not from user mode'')
       else kbind (usertrap_switch (r_scause s) tf s) (\<lambda>(r, s). co_end r s)))"

section \<open>Going on after a switch\<close>

text \<open>
  What the process \<open>p\<close> does when the scheduler has switched to its context: a new process goes to user
  mode; one that was in \<^verbatim>\<open>sched\<close> returns through the calls it was in.
\<close>

definition syscall_back :: "nat \<Rightarrow> u64 co \<Rightarrow> kst \<Rightarrow> halt + unit co \<times> kst" where
  "syscall_back p r s =
     (case r of
        Switched \<Rightarrow> Inr (Switched, s)
      | Ret v \<Rightarrow> kbind (syscall_return (p_trapframe (proc_pool s p)) v s) (\<lambda>s. usertrap_end (k_intr_off s)))"

definition swtch_to :: "nat \<Rightarrow> kst \<Rightarrow> halt + unit co \<times> kst" where
  "swtch_to p s =
     (case p_context (proc_pool s p) of
        Ctx ra sp \<Rightarrow>
          if ra = first_sched_ret_addr (img s) then kbind (first_sched_ret s) (\<lambda>s. Inr (Ret (), s))
          else Inl (Undefined ''jump to a context that was never saved'')
      | In_sched interrupt_on k \<Rightarrow>
          (case k of
             K_yield_trap \<Rightarrow> kbind (yield_back p interrupt_on s) usertrap_end
           | K_yield_sys \<Rightarrow> kbind (yield_back p interrupt_on s) (syscall_back p (Ret 0))
           | K_wait pid code \<Rightarrow>
               kbind (wait_back p interrupt_on pid code s) (\<lambda>(r, s). syscall_back p (co_map scast r) s)
           | K_read buf n target \<Rightarrow>
               kbind (user_console_read_back p interrupt_on buf n target s) (\<lambda>(r, s). syscall_back p r s)
           | K_exit \<Rightarrow> kbind (exit_back p interrupt_on s) (\<lambda>s. Inr (Switched, s))))"

text \<open>
  The part of a round of the scheduler on the CPU: pick a process, run it until it is in user mode or has
  switched back; in the second case the round ends.
\<close>

definition after_switch :: "nat \<Rightarrow> unit co \<Rightarrow> kst \<Rightarrow> halt + kst" where
  "after_switch p r s = (case r of Ret _ \<Rightarrow> Inr s | Switched \<Rightarrow> scheduler_back p s)"

definition scheduler_round :: "kst \<Rightarrow> halt + kst" where
  "scheduler_round s =
     kbind (scheduler_pick s) (\<lambda>(found, s).
     case found of
       None \<Rightarrow> Inr s
     | Some p \<Rightarrow> kbind (swtch_to p s) (\<lambda>(r, s). after_switch p r s))"

text \<open>A trap from user mode, while \<open>p\<close> is the process on this CPU.\<close>

definition user_trap_round :: "nat \<Rightarrow> kst \<Rightarrow> halt + kst" where
  "user_trap_round p s = kbind (usertrap s) (\<lambda>(r, s). after_switch p r s)"

end
