(* ===== verification/Boot.thy ===== *)
theory Boot imports Kvm Trap begin

text \<open>
  Starting up, \<^verbatim>\<open>os/main.c\<close>: the temporary page table with which the boot CPU moves to the kernel's
  virtual addresses, the other CPUs, and the initialisation of every subsystem. The jumps between the
  parts, and the stacks they run on, are assembly. \<open>hsm\<close> is the firmware's answer to \<^verbatim>\<open>hsm_hart_start\<close> for
  a hart, which has been started when the answer is not negative; \<open>sp\<close> is what the stack pointer reads
  on each CPU.
\<close>

section \<open>Relocation\<close>

text \<open>The four tables, each a list of 512 entries. They are built at their physical addresses.\<close>

record relocation =
  pgt_root :: "u64 list"
  pgt_ident :: "u64 list"
  pgt_direct :: "u64 list"
  pgt_kernimg :: "u64 list"

definition zero_table :: "u64 list" where "zero_table = replicate 512 0"

text \<open>The pages of 2 MiB from \<open>lo\<close> up to \<open>hi\<close>; the inner test is as in \<open>page_range\<close>.\<close>

function range_2M :: "u64 \<Rightarrow> u64 \<Rightarrow> u64 list" where
  "range_2M lo hi =
     (if lo < hi then lo # (if lo + PGSIZE_2M < lo then [] else range_2M (lo + PGSIZE_2M) hi) else [])"
  by pat_completeness auto
termination
proof (relation "measure (\<lambda>(lo, hi). 2 ^ 64 - unat lo)")
  fix lo hi :: u64
  assume a: "lo < hi" "\<not> lo + PGSIZE_2M < lo"
  have "lo + PGSIZE_2M \<noteq> lo" by (simp add: PGSIZE_2M_def)
  with a(2) have "unat lo < unat (lo + PGSIZE_2M)" by (metis linorder_neqE_nat word_less_nat_alt unat_inj)
  moreover have "unat (lo + PGSIZE_2M) < 2 ^ 64" using unat_less_2p [of "lo + PGSIZE_2M"] by simp
  ultimately show "((lo + PGSIZE_2M, hi), lo, hi) \<in> measure (\<lambda>(lo, hi). 2 ^ 64 - unat lo)" by simp
qed simp

declare range_2M.simps [simp del]

abbreviation set_entry :: "u64 \<Rightarrow> u64 \<Rightarrow> u64 list \<Rightarrow> u64 list" where
  "set_entry vpn e t \<equiv> t[unat vpn := e]"

definition map_2M :: "u64 \<Rightarrow> u64 \<Rightarrow> u64 list \<Rightarrow> u64 list" where
  "map_2M off pa t =
     (let va = pa + off; vpn1 = PX 1 va in
      set_entry vpn1 (MAKE_PTE pa (PTE_R OR PTE_W OR PTE_X OR PTE_A OR PTE_D)) t)"

text \<open>Steps 1 to 4 for an image of \<open>kernel_size\<close> bytes, with the addresses of the three lower tables.\<close>

definition relocation_tables :: "u64 \<Rightarrow> u64 \<Rightarrow> u64 \<Rightarrow> u64 \<Rightarrow> relocation" where
  "relocation_tables ident direct kernimg kernel_size =
     (let kernel_size_2M = ROUNDUP_2N kernel_size PGSIZE_2M;
          image_end_2M = KERNEL_PHYS_BASE + kernel_size_2M;
          kernel_phys_base = KERNEL_PHYS_BASE;
          kernel_phys_end = kernel_phys_base + kernel_size_2M;
          kernel_virt_base = KERNEL_VIRT_BASE;
          kernel_la_phy_base = image_end_2M;
          kernel_la_base = KERNEL_DIRECT_MAPPING_BASE + kernel_la_phy_base;
          root = zero_table;
          root = set_entry (PX 2 kernel_phys_base) (MAKE_PTE ident 0) root;
          ident_t = fold (map_2M 0) (range_2M kernel_phys_base kernel_phys_end) zero_table;
          root = set_entry (PX 2 kernel_virt_base) (MAKE_PTE kernimg 0) root;
          kernimg_t = fold (map_2M KERNEL_OFFSET) (range_2M kernel_phys_base kernel_phys_end) zero_table;
          root = set_entry (PX 2 kernel_la_base) (MAKE_PTE direct 0) root;
          direct_t = set_entry (PX 1 kernel_la_base)
            (MAKE_PTE kernel_la_phy_base (PTE_R OR PTE_W OR PTE_A OR PTE_D)) zero_table in
      \<lparr>pgt_root = root, pgt_ident = ident_t, pgt_direct = direct_t, pgt_kernimg = kernimg_t\<rparr>)"

text \<open>The walk that the hardware makes in them: the leaf entry of level 1, if any.\<close>

definition reloc_table :: "u64 \<Rightarrow> u64 \<Rightarrow> u64 \<Rightarrow> relocation \<Rightarrow> u64 \<Rightarrow> u64 list option" where
  "reloc_table ident direct kernimg r pa =
     (if pa = ident then Some (pgt_ident r) else if pa = direct then Some (pgt_direct r)
      else if pa = kernimg then Some (pgt_kernimg r) else None)"

definition reloc_leaf :: "u64 \<Rightarrow> u64 \<Rightarrow> u64 \<Rightarrow> relocation \<Rightarrow> u64 \<Rightarrow> u64 option" where
  "reloc_leaf ident direct kernimg r va =
     (let e2 = pgt_root r ! unat (PX 2 va) in
      if e2 AND PTE_V = 0 then None
      else case reloc_table ident direct kernimg r (PTE2PA e2) of
             None \<Rightarrow> None
           | Some t \<Rightarrow> (let e1 = t ! unat (PX 1 va) in if e1 AND PTE_V = 0 then None else Some e1))"

definition reloc_rw :: "u64 \<Rightarrow> u64 \<Rightarrow> u64 \<Rightarrow> relocation \<Rightarrow> u64 \<Rightarrow> bool" where
  "reloc_rw ident direct kernimg r va \<longleftrightarrow>
     sv39_va va \<and> (case reloc_leaf ident direct kernimg r va of None \<Rightarrow> False | Some e \<Rightarrow> e AND PTE_R \<noteq> 0 \<and> e AND PTE_W \<noteq> 0)"

definition print_mapping :: "string \<Rightarrow> u64 \<Rightarrow> u64 \<Rightarrow> kst \<Rightarrow> halt + kst" where
  "print_mapping fmt off pa = printf (Some (fmt @ nl)) [Arg (pa + off), Arg pa]"

definition bootcpu_start_relocation :: "kst \<Rightarrow> halt + kst" where
  "bootcpu_start_relocation s =
     (if \<not> IS_ALIGNED KERNEL_PHYS_BASE PGSIZE_2M
      then Inl (Panic ''assertion failed: IS_ALIGNED(KERNEL_PHYS_BASE, PGSIZE_2M)'')
      else
        let root = KIVA_TO_PA (relocate_pagetables (img s) ! 0); ident = KIVA_TO_PA (relocate_pagetables (img s) ! 1);
            direct = KIVA_TO_PA (relocate_pagetables (img s) ! 2); kernimg = KIVA_TO_PA (relocate_pagetables (img s) ! 3);
            kernel_size = ekernel (img s) - skernel (img s);
            kernel_size_4K = ROUNDUP_2N kernel_size PGSIZE;
            kernel_size_2M = ROUNDUP_2N kernel_size PGSIZE_2M;
            s = s\<lparr>kernel_image_end_4k := KERNEL_PHYS_BASE + kernel_size_4K,
                  kernel_image_end_2M := KERNEL_PHYS_BASE + kernel_size_2M\<rparr>;
            pages = range_2M KERNEL_PHYS_BASE (KERNEL_PHYS_BASE + kernel_size_2M);
            la_pa = kernel_image_end_2M s; la_va = KERNEL_DIRECT_MAPPING_BASE + la_pa;
            r = relocation_tables ident direct kernimg kernel_size in
        kbind (printf (Some (''Kernel size: %p, Rounded to 2MiB: %p'' @ nl)) [Arg kernel_size, Arg kernel_size_2M] s) (\<lambda>s.
        kbind (kfold (print_mapping ''Mapping Identity: %p to %p'' 0) pages s) (\<lambda>s.
        kbind (kfold (print_mapping ''Mapping kernel image: %p to %p'' KERNEL_OFFSET) pages s) (\<lambda>s.
        kbind (printf (Some (''Mapping Direct Mapping: %p to %p'' @ nl)) [Arg la_va, Arg la_pa] s) (\<lambda>s.
        kbind (printf (Some (''Enable SATP on temporary pagetable.'' @ nl)) [] s) (\<lambda>s.
        Inr ((w_satp (MAKE_SATP root) s)\<lparr>kmap := reloc_rw ident direct kernimg r\<rparr>)))))))"

definition bootcpu_relocating :: "u64 \<Rightarrow> kst \<Rightarrow> halt + kst" where
  "bootcpu_relocating pc s =
     kbind (printf (Some (''Boot HART Relocated. We are at high address now! PC: %p'' @ nl)) [Arg pc] s) kvm_init"

section \<open>The other CPUs\<close>

text \<open>A started hart, up to the point where it waits for the boot CPU.\<close>

definition secondarycpu_entry :: "nat \<Rightarrow> nat \<Rightarrow> kst \<Rightarrow> halt + kst" where
  "secondarycpu_entry hartid cpuid s =
     kbind (printf (Some (''cpu %d (halt %d) booting. Relocating'' @ nl)) [Arg (of_nat cpuid), Arg (of_nat hartid)] s) (\<lambda>s.
     let s = w_tp cpuid s in
     kbind (getcpu cpuid (smp s)) (\<lambda>_.
     let s = s\<lparr>smp := upd_cpu (\<lambda>k. k\<lparr>c_mhart_id := hartid\<rparr>) (smp s)\<rparr> in
     Inr (w_satp (MAKE_SATP (KIVA_TO_PA (relocate_pagetables (img s) ! 0))) s)))"

definition secondarycpu_relocating :: "kst \<Rightarrow> kst" where
  "secondarycpu_relocating s = w_satp (MAKE_SATP (KVA_TO_PA (kernel_pagetable s))) s"

definition secondarycpu_init :: "(nat \<Rightarrow> u64) \<Rightarrow> kst \<Rightarrow> halt + kst" where
  "secondarycpu_init sp s =
     kbind (mycpu (smp s)) (\<lambda>c.
     kbind (printf (Some (''cpu %d (halt %d) booted. sp: %p'' @ nl)) [Arg (of_nat c), Arg (mhart s c), Arg (sp c)] s) (\<lambda>s.
     Inr (s\<lparr>booted_count := booted_count s + 1\<rparr>)))"

text \<open>What it does when \<^verbatim>\<open>halt_specific_init\<close> has been set; the scheduler comes next.\<close>

definition secondarycpu_go :: "kst \<Rightarrow> halt + kst" where
  "secondarycpu_go s =
     (if \<not> halt_specific_init s then Inl Spin
      else kbind (trap_init s) (\<lambda>s. plicinithart (timer_init s)))"

text \<open>
  A round of the loop that starts the other harts: the boot CPU waits until the hart has counted itself,
  and does nothing else meanwhile.
\<close>

definition start_hart :: "(nat \<Rightarrow> i32) \<Rightarrow> (nat \<Rightarrow> u64) \<Rightarrow> nat \<Rightarrow> nat \<times> kst \<Rightarrow> halt + nat \<times> kst" where
  "start_hart hsm sp hartid = (\<lambda>(cpuid, s).
     kbind (mycpu (smp s)) (\<lambda>c.
     if hartid = c_mhart_id (cpus (smp s) c) then Inr (cpuid, s)
     else
       kbind (printf (Some ''- booting hart %d: hsm_hart_start(hartid=%d, pc=_entry_sec, opaque=%d)'')
                [Arg (of_nat hartid), Arg (of_nat hartid), Arg (of_nat cpuid)] s) (\<lambda>s.
       let ret = hsm hartid in
       kbind (printf (Some ('' = %d. waiting for hart online'' @ nl)) [Arg (scast ret)] s) (\<lambda>s.
       if sint ret < 0
       then kbind (printf (Some (''skipped for hart %d'' @ nl)) [Arg (of_nat hartid)] s) (\<lambda>s. Inr (cpuid, s))
       else
         kbind (secondarycpu_entry hartid cpuid s) (\<lambda>s.
         kbind (secondarycpu_init sp (secondarycpu_relocating s)) (\<lambda>s.
         Inr (cpuid + 1, w_tp c s)))))))"

definition start_harts :: "(nat \<Rightarrow> i32) \<Rightarrow> (nat \<Rightarrow> u64) \<Rightarrow> kst \<Rightarrow> halt + kst" where
  "start_harts hsm sp s =
     kbind (kfold (start_hart hsm sp) [0..<NCPU] (1, s)) (\<lambda>(cpuid, s).
     printf (Some (''System has %d cpus online'' @ nl @ nl)) [Arg (of_nat cpuid)] s)"

section \<open>Initialisation\<close>

definition scrub_table :: "u64 \<Rightarrow> kst \<Rightarrow> halt + kst" where
  "scrub_table t = k_memset t 0xde 4096"

text \<open>\<^verbatim>\<open>bootcpu_init\<close> up to the call of \<^verbatim>\<open>scheduler\<close>.\<close>

definition bootcpu_init :: "(nat \<Rightarrow> i32) \<Rightarrow> (nat \<Rightarrow> u64) \<Rightarrow> kst \<Rightarrow> halt + kst" where
  "bootcpu_init hsm sp s =
     kbind (printf (Some (''Relocated. Boot halt sp at %p'' @ nl)) [Arg (sp 0)] s) (\<lambda>s.
     kbind (printf (Some (''Boot another cpus.'' @ nl)) [] s) (\<lambda>s.
     kbind (start_harts hsm sp s) (\<lambda>s.
     kbind (kfold scrub_table (relocate_pagetables (img s)) s) (\<lambda>s.
     kbind (trap_init s) (\<lambda>s.
     kbind (console_init s) (\<lambda>s.
     kbind (printf (Some (''UART inited.'' @ nl)) [] s) (\<lambda>s.
     let s = plicinit s in
     kbind (kpgmgrinit s) (\<lambda>s.
     kbind (uvm_init s) (\<lambda>s.
     kbind (proc_init s) (\<lambda>s.
     kbind (loader_init s) (\<lambda>s.
     kbind (load_init_app s) (\<lambda>s.
     let s = timer_init s in
     kbind (plicinithart s) (\<lambda>s.
     Inr (s\<lparr>halt_specific_init := True\<rparr>))))))))))))))"

end
