(* ===== verification/KTree.thy ===== *)
theory KTree imports Kvm VmSpec begin

text \<open>
  The kernel's page table as a tree and as a translation. In it an entry points to a further table when it
  is valid and grants nothing; an entry that grants something is a leaf, of 4 KiB or, at level 1, of 2 MiB.
  The lemmas say what the MMU makes of the tree, and how that changes when a table is added or a leaf is
  written.
\<close>

section \<open>Entries\<close>

definition kernel_ptr :: "u64 \<Rightarrow> bool" where
  "kernel_ptr e \<longleftrightarrow> e AND PTE_V \<noteq> 0 \<and> \<not> is_leaf e"

definition leaf_entry :: "u64 \<Rightarrow> bool" where
  "leaf_entry e \<longleftrightarrow> e AND PTE_V \<noteq> 0 \<and> is_leaf e"

interpretation kernel_tree: page_tree kernel_ptr
  by unfold_locales (simp add: kernel_ptr_def)

abbreviation ktables :: "mem \<Rightarrow> u64 \<Rightarrow> u64 set" where
  "ktables \<equiv> nodes kernel_ptr"

abbreviation kentry :: "mem \<Rightarrow> u64 \<Rightarrow> nat \<Rightarrow> u64 \<Rightarrow> u64" where
  "kentry \<equiv> level_entry kernel_ptr"

lemma entry_kinds: "e AND PTE_V \<noteq> 0 \<longleftrightarrow> kernel_ptr e \<or> leaf_entry e"
  by (auto simp: kernel_ptr_def leaf_entry_def)

lemma leaf_no_ptr: "leaf_entry e \<Longrightarrow> \<not> kernel_ptr e"
  by (simp add: leaf_entry_def kernel_ptr_def)

lemma ptr_no_leaf: "kernel_ptr e \<Longrightarrow> \<not> leaf_entry e"
  by (simp add: leaf_entry_def kernel_ptr_def)

lemma not_leaf_0 [simp]: "\<not> leaf_entry 0" "\<not> kernel_ptr 0"
  by (simp_all add: leaf_entry_def kernel_ptr_def)

lemma and_flag_0: "e AND 2 ^ n = 0 \<longleftrightarrow> \<not> bit (e :: u64) n" if "n < 64"
proof -
  have "e AND 2 ^ n = (if bit e n then 2 ^ n else 0)"
    by (rule bit_eqI) (auto simp: bit_simps)
  then show ?thesis using that by simp
qed

lemma is_leaf_bits: "is_leaf e \<longleftrightarrow> bit e 1 \<or> bit e 2 \<or> bit e 3"
  using and_flag_0 [of 1 e] and_flag_0 [of 2 e] and_flag_0 [of 3 e]
  by (auto simp: is_leaf_def PTE_R_def PTE_W_def PTE_X_def)

lemma granting: "e AND (PTE_R OR PTE_W OR PTE_X) \<noteq> 0 \<longleftrightarrow> is_leaf e"
  by (auto simp: is_leaf_def bit.conj_disj_distrib or_eq_0_iff)

lemma MAKE_PTE_bits: "n < 10 \<Longrightarrow> bit (MAKE_PTE pa f) n \<longleftrightarrow> bit f n \<or> n = 0"
  by (auto simp: MAKE_PTE_def PA2PTE_def PTE_V_def bit_simps)

lemma MAKE_PTE_valid [simp]: "MAKE_PTE pa f AND PTE_V \<noteq> 0"
  using and_flag_0 [of 0 "MAKE_PTE pa f"] MAKE_PTE_bits [of 0 pa f] by (simp add: PTE_V_def)

lemma MAKE_PTE_is_leaf [simp]: "is_leaf (MAKE_PTE pa f) \<longleftrightarrow> is_leaf f"
  by (simp add: is_leaf_bits MAKE_PTE_bits)

lemma MAKE_PTE_leaf: "is_leaf f \<Longrightarrow> leaf_entry (MAKE_PTE pa f)"
  by (simp add: leaf_entry_def)

lemma MAKE_PTE_pa: "PGALIGNED pa \<Longrightarrow> f < 1024 \<Longrightarrow> PTE2PA (MAKE_PTE pa f) = pa"
  using word_or_less [of 10 f PTE_V] PTE2PA_MAKE [of pa "f OR PTE_V"] by (simp add: MAKE_PTE_def PTE_V_def)

lemma MAKE_PTE_flags: "f < 1024 \<Longrightarrow> PTE_FLAGS (MAKE_PTE pa f) = f OR PTE_V"
proof (rule bit_eqI)
  fix n assume f: "f < 1024"
  have m: "(0x3FF :: u64) = mask 10" by (simp add: mask_eq_exp_minus_1)
  have "bit (f OR PTE_V) n \<Longrightarrow> n < 10"
    using word_bit_below [of "f OR PTE_V" 10 n] word_or_less [of 10 f PTE_V] f by (simp add: PTE_V_def)
  then show "bit (PTE_FLAGS (MAKE_PTE pa f)) n = bit (f OR PTE_V) n"
    using MAKE_PTE_bits [of n pa f] by (auto simp: PTE_FLAGS_def m bit_simps PTE_V_def)
qed

lemma table_pte: "PGALIGNED q \<Longrightarrow> kernel_ptr (MAKE_PTE (KVA_TO_PA q) PTE_G)"
  "PGALIGNED q \<Longrightarrow> PA_TO_KVA (PTE2PA (MAKE_PTE (KVA_TO_PA q) PTE_G)) = q"
  by (simp_all add: kernel_ptr_def MAKE_PTE_pa) (simp_all add: is_leaf_def layout_simps MAKE_PTE_pa)

section \<open>Canonical addresses\<close>

lemma sv39_va_bits: "sv39_va x \<Longrightarrow> 38 \<le> n \<Longrightarrow> n < 64 \<Longrightarrow> bit x n \<longleftrightarrow> bit x 38"
proof -
  assume sv: "sv39_va x" and n: "38 \<le> n" "n < 64"
  then have "bit (drop_bit 38 x) (n - 38) \<longleftrightarrow> bit (drop_bit 38 x) 0"
    by (auto simp: sv39_va_def bit_mask_iff)
  then show ?thesis using n by (simp add: bit_simps)
qed

text \<open>The path of an entry of level \<open>l\<close> is the part of a canonical address above its page.\<close>

lemma cell_path_iff: "cell_path l x = cell_path l y \<longleftrightarrow> (\<forall>k. l \<le> k \<longrightarrow> k \<le> 2 \<longrightarrow> PX k x = PX k y)" if "l \<le> 2"
proof -
  have "l = 0 \<or> l = 1 \<or> l = 2" using that by auto
  moreover have "(\<forall>k. l \<le> k \<longrightarrow> k \<le> 2 \<longrightarrow> PX k x = PX k y) \<longleftrightarrow> (\<forall>k \<in> {l..2}. PX k x = PX k y)" by auto
  moreover have "{0..2} = {0, 1, 2::nat}" "{1..2} = {1, 2::nat}" by auto
  ultimately show ?thesis by (auto simp: cell_path_def va_path_def)
qed

lemma cell_path_same:
  assumes eq: "drop_bit (12 + 9 * l) x = drop_bit (12 + 9 * l) y" and l: "l \<le> 2"
  shows "cell_path l x = cell_path l y"
proof -
  have bits: "bit x n = bit y n" if "12 + 9 * l \<le> n" for n
    using arg_cong [OF eq, of "\<lambda>w. bit w (n - (12 + 9 * l))"] that by (simp add: bit_drop_bit_eq)
  have "PX k x = PX k y" if "l \<le> k" for k
    by (rule bit_eqI) (use bits that in \<open>simp add: bit_PX\<close>)
  then show ?thesis using cell_path_iff [OF l] by simp
qed

lemma cell_path_canonical:
  assumes "sv39_va x" and "sv39_va y" and l: "l \<le> 2"
  shows "cell_path l x = cell_path l y \<longleftrightarrow> drop_bit (12 + 9 * l) x = drop_bit (12 + 9 * l) y"
proof
  assume eq: "cell_path l x = cell_path l y"
  have PX: "PX k x = PX k y" if "l \<le> k" "k \<le> 2" for k using eq that cell_path_iff [OF l] by simp
  have low: "bit x n = bit y n" if "12 + 9 * l \<le> n" "n < 39" for n
  proof -
    define k where "k = (n - 12) div 9"
    have "9 * k + (n - 12) mod 9 = n - 12" by (simp add: k_def)
    then have n: "n = 12 + 9 * k + (n - 12) mod 9" using that by linarith
    have "(n - 12) mod 9 < 9" by simp
    then have k: "l \<le> k" "k \<le> 2" using n that by linarith+
    have "bit (PX k x) ((n - 12) mod 9) = bit (PX k y) ((n - 12) mod 9)" using PX [OF k] by simp
    then show ?thesis using \<open>(n - 12) mod 9 < 9\<close> unfolding bit_PX n [symmetric] by simp
  qed
  have "bit x n = bit y n" if "12 + 9 * l \<le> n" "n < 64" for n
  proof (cases "n < 39")
    case True
    then show ?thesis using low that by blast
  next
    case False
    moreover have "bit x 38 = bit y 38" using l by (intro low) simp_all
    ultimately show ?thesis using sv39_va_bits [OF assms(1), of n] sv39_va_bits [OF assms(2), of n] that by simp
  qed
  then have "bit x (12 + 9 * l + n) = bit y (12 + 9 * l + n)" for n
    by (cases "12 + 9 * l + n < 64") (auto dest: bit_imp_le_length)
  then show "drop_bit (12 + 9 * l) x = drop_bit (12 + 9 * l) y"
    by (intro bit_eqI) (simp add: bit_drop_bit_eq)
qed (rule cell_path_same [OF _ l])

text \<open>The addresses of the page of size \<open>2 ^ k\<close> at \<open>y\<close>.\<close>

lemma block_iff:
  fixes x y :: u64
  assumes y: "y AND mask k = 0" and k: "k < 64"
  shows "drop_bit k x = drop_bit k y \<longleftrightarrow> x - y < 2 ^ k" and "x - y < 2 ^ k \<Longrightarrow> x AND mask k = x - y"
proof -
  have split: "w = push_bit k (drop_bit k w) + (w AND mask k)" for w :: u64
  proof -
    have "push_bit k (drop_bit k w) = w AND NOT (mask k)"
      by (rule bit_eqI) (auto simp: bit_simps)
    moreover have "(w AND NOT (mask k)) + (w AND mask k) = w"
      using diff_and_mask [of w k] by (metis diff_add_cancel)
    ultimately show ?thesis by simp
  qed
  have small: "w AND mask k < 2 ^ k" for w :: u64
    using k by (simp add: and_mask_less_size word_size)
  have low: "d AND mask k = d" if "d < 2 ^ k" for d :: u64
    using that by (rule less_mask_eq)
  have yp: "y = push_bit k (drop_bit k y)" using split [of y] y by simp
  have add: "drop_bit k (y + d) = drop_bit k y" "(y + d) AND mask k = d" if "d < 2 ^ k" for d
  proof -
    have dis: "y AND d = 0"
    proof -
      have "y AND d = y AND (d AND mask k)" using low [OF that] by simp
      also have "\<dots> = (y AND mask k) AND d" by (simp only: and.assoc and.commute [of d])
      finally show ?thesis using y by simp
    qed
    have eq: "y + d = y OR d" using word_or_add [OF dis] by simp
    have "drop_bit k d = 0" using that k by (simp add: word_less_2p_iff)
    then show "drop_bit k (y + d) = drop_bit k y" by (simp add: eq drop_bit_or)
    show "(y + d) AND mask k = d" using low [OF that] y by (simp add: eq and.commute [of _ "mask k"] bit.conj_disj_distrib)
  qed
  show iff: "drop_bit k x = drop_bit k y \<longleftrightarrow> x - y < 2 ^ k"
  proof
    assume "drop_bit k x = drop_bit k y"
    then have "x - y = x AND mask k" using split [of x] yp by (metis add_diff_cancel_left')
    then show "x - y < 2 ^ k" using small by simp
  next
    assume "x - y < 2 ^ k"
    then show "drop_bit k x = drop_bit k y" using add(1) [of "x - y"] by simp
  qed
  show "x AND mask k = x - y" if "x - y < 2 ^ k" using add(2) [OF that] by simp
qed

section \<open>The translation\<close>

lemma kentry_below:
  "kentry m root 2 va = ld64 m (slot root (PX 2 va))"
  "kentry m root 1 va =
    (if kernel_ptr (kentry m root 2 va) then ld64 m (slot (PA_TO_KVA (PTE2PA (kentry m root 2 va))) (PX 1 va)) else 0)"
  "kentry m root 0 va =
    (if kernel_ptr (kentry m root 1 va) then ld64 m (slot (PA_TO_KVA (PTE2PA (kentry m root 1 va))) (PX 0 va)) else 0)"
  by (auto simp: level_entry_def va_path_def hop_def Let_def numeral_2_eq_2)

lemma kernel_leaf_levels:
  "kernel_leaf m root va =
     (if \<not> sv39_va va then None
      else if leaf_entry (kentry m root 2 va) then Some (2, kentry m root 2 va)
      else if leaf_entry (kentry m root 1 va) then Some (1, kentry m root 1 va)
      else if leaf_entry (kentry m root 0 va) then Some (0, kentry m root 0 va) else None)"
proof -
  have two: "sv39_leaf 2 m root va = sv39_leaf (Suc (Suc 0)) m root va" by (simp only: numeral_2_eq_2)
  show ?thesis
    unfolding kernel_leaf_def two sv39_leaf.simps granting Let_def kentry_below
    by (simp add: leaf_entry_def kernel_ptr_def numeral_2_eq_2 [symmetric])
qed

lemma kernel_leaf_None:
  "kernel_leaf m root va = None \<Longrightarrow> sv39_va va \<Longrightarrow> l \<le> 2 \<Longrightarrow> \<not> leaf_entry (kentry m root l va)"
  by (cases "l = 0 \<or> l = 1 \<or> l = 2") (auto simp: kernel_leaf_levels split: if_splits)

lemma kernel_leaf_cong:
  assumes "\<And>l. l \<le> 2 \<Longrightarrow> leaf_entry (kentry m' root l va) = leaf_entry (kentry m root l va)"
    and "\<And>l. l \<le> 2 \<Longrightarrow> leaf_entry (kentry m root l va) \<Longrightarrow> kentry m' root l va = kentry m root l va"
  shows "kernel_leaf m' root va = kernel_leaf m root va"
  using assms [of 0] assms [of 1] assms [of 2] by (simp add: kernel_leaf_levels)

text \<open>Above a table there are no leaves.\<close>

lemma above_table:
  assumes "node_at kernel_ptr m root (take (2 - l) (va_path va)) = Some t" and "l < k" and "k \<le> 2"
  shows "\<not> leaf_entry (kentry m root k va)"
proof -
  have "l = 0 \<and> k = 1 \<or> l = 0 \<and> k = 2 \<or> l = 1 \<and> k = 2" using assms(2,3) by linarith
  then have "kernel_ptr (kentry m root k va)"
    using assms(1)
    by (elim disjE conjE)
      (auto simp: level_entry_def va_path_def hop_def Let_def numeral_2_eq_2 split: option.splits if_splits)
  then show ?thesis by (rule ptr_no_leaf)
qed

text \<open>A new table changes no translation.\<close>

lemma kernel_leaf_added:
  assumes A: "adds_node kernel_ptr m m' root t i q p" and old: "\<not> leaf_entry (ld64 m (slot t i))"
  shows "kernel_leaf m' root va = kernel_leaf m root va"
proof (rule kernel_leaf_cong)
  fix l :: nat assume l: "l \<le> 2"
  note le = kernel_tree.level_entry_added [OF A, of l va]
  have new: "\<not> leaf_entry (ld64 m' (slot t i))"
    using adds_nodeD(6) [OF A] ptr_no_leaf by (auto simp: hop_def Let_def split: if_splits)
  have was: "kentry m root l va = ld64 m (slot t i)" if "cell_path l va = p @ [i]"
    using that adds_nodeD(3) [OF A] by (simp add: cell_path_def level_entry_def)
  show "leaf_entry (kentry m' root l va) = leaf_entry (kentry m root l va)"
    using le new old was by auto
  show "leaf_entry (kentry m root l va) \<Longrightarrow> kentry m' root l va = kentry m root l va"
    using le old was by auto
qed

text \<open>A new leaf of level \<open>l\<close> translates the addresses whose path it ends, and no others.\<close>

lemma kernel_leaf_written:
  assumes W: "writes_cell kernel_ptr m m' root t i p e" and e: "leaf_entry e"
    and old: "\<not> leaf_entry (ld64 m (slot t i))" and l: "l \<le> 2" "length p = 2 - l"
  shows "kernel_leaf m' root va =
    (if sv39_va va \<and> cell_path l va = p @ [i] then Some (l, e) else kernel_leaf m root va)"
proof (cases "cell_path l va = p @ [i]")
  case True
  have at: "node_at kernel_ptr m root (take (2 - l) (va_path va)) = Some t"
    using True writes_cellD(4) [OF W] by (simp add: cell_path_def)
  have new: "kentry m' root l va = e" using level_entry_written [OF W, of l va] True by simp
  have other: "\<not> leaf_entry (kentry m' root k va)" if "l < k" "k \<le> 2" for k
  proof -
    have "cell_path k va \<noteq> p @ [i]" using that l by (auto simp: cell_path_def)
    then show ?thesis using level_entry_written [OF W, of k va] above_table [OF at that] by simp
  qed
  have "l = 0 \<or> l = 1 \<or> l = 2" using l(1) by auto
  then show ?thesis
    using True new e other [of 1] other [of 2] by (auto simp: kernel_leaf_levels)
next
  case False
  have same: "kentry m' root k va = kentry m root k va" if "k \<le> 2" for k
  proof -
    have "cell_path k va \<noteq> p @ [i]" using False that l by (cases "k = l") (auto simp: cell_path_def)
    then show ?thesis using level_entry_written [OF W, of k va] by simp
  qed
  have "kernel_leaf m' root va = kernel_leaf m root va" by (rule kernel_leaf_cong) (simp_all add: same)
  with False show ?thesis by simp
qed

text \<open>Address and permissions, as the MMU gives them.\<close>

definition kernel_trans :: "mem \<Rightarrow> u64 \<Rightarrow> u64 \<Rightarrow> (u64 \<times> u64) option" where
  "kernel_trans m root va = map_option (\<lambda>(l, e). (leaf_pa va (l, e), PTE_FLAGS e)) (kernel_leaf m root va)"

lemma kernel_trans_cong: "kernel_leaf m' root = kernel_leaf m root \<Longrightarrow> kernel_trans m' root = kernel_trans m root"
  by (simp add: kernel_trans_def fun_eq_iff)

lemma kernel_trans_None: "kernel_trans m root va = None \<longleftrightarrow> kernel_leaf m root va = None"
  by (simp add: kernel_trans_def)

text \<open>A leaf of level \<open>l\<close> for the aligned address \<open>v\<close> translates the page of size \<open>2 ^ (12 + 9 * l)\<close> at \<open>v\<close>.\<close>

lemma kernel_trans_written:
  assumes W: "writes_cell kernel_ptr m m' root t i p (MAKE_PTE pa perm)" and p: "p @ [i] = cell_path l v"
    and perm: "is_leaf perm" "perm < 1024" and pa: "PGALIGNED pa"
    and old: "\<not> leaf_entry (ld64 m (slot t i))" and l: "l \<le> 2"
    and v: "sv39_va v" "v AND mask (12 + 9 * l) = 0"
    and range: "\<And>x. x - v < 2 ^ (12 + 9 * l) \<Longrightarrow> sv39_va x"
  shows "kernel_trans m' root x =
    (if x - v < 2 ^ (12 + 9 * l) then Some (pa + (x - v), perm OR PTE_V) else kernel_trans m root x)"
proof -
  have k: "12 + 9 * l < 64" using l by simp
  have "length p + 1 = length (cell_path l v)" using p by (metis length_append_singleton add.commute plus_1_eq_Suc)
  then have len: "length p = 2 - l" using l by (simp add: cell_path_def)
  note lf = kernel_leaf_written [OF W MAKE_PTE_leaf [OF perm(1)] old l len, of x]
  have iff: "sv39_va x \<and> cell_path l x = p @ [i] \<longleftrightarrow> x - v < 2 ^ (12 + 9 * l)"
    using range cell_path_canonical [OF _ v(1) l, of x] block_iff(1) [OF v(2) k, of x] p by auto
  show ?thesis
    using block_iff(2) [OF v(2) k, of x] lf iff
    by (simp add: kernel_trans_def leaf_pa_def MAKE_PTE_pa [OF pa perm(2)] MAKE_PTE_flags [OF perm(2)])
qed

end
