(* ===== verification/KvmRange.thy ===== *)
theory KvmRange imports KTree begin

text \<open>
  The tables that \<^verbatim>\<open>kvmmap\<close> of \<^verbatim>\<open>os/kvm.c\<close> needs for a range, page by page: one of level 1 for each GiB, and one
  of level 0 for each 2 MiB that cannot be mapped by one entry.
\<close>

section \<open>Pages of 2 MiB\<close>

lemma IS_ALIGNED_2M: "IS_ALIGNED a PGSIZE_2M \<longleftrightarrow> a AND mask 21 = 0" "IS_ALIGNED a PGSIZE_2M \<longleftrightarrow> unat a mod 2 ^ 21 = 0"
proof -
  have "PGSIZE_2M - 1 = mask 21" by (simp add: PGSIZE_2M_def mask_eq_exp_minus_1)
  then show "IS_ALIGNED a PGSIZE_2M \<longleftrightarrow> a AND mask 21 = 0" by (simp add: IS_ALIGNED_def)
  then show "IS_ALIGNED a PGSIZE_2M \<longleftrightarrow> unat a mod 2 ^ 21 = 0" by (metis unat_and_mask unat_eq_zero)
qed

lemma unat_add_mod_2M: "unat (a + b :: u64) mod 2 ^ 21 = (unat a + unat b) mod 2 ^ 21"
proof -
  have "(2 ^ 21 :: nat) dvd 2 ^ 64" by simp
  then have "x mod 2 ^ 64 mod 2 ^ 21 = x mod (2 ^ 21 :: nat)" for x by (rule mod_mod_cancel)
  then show ?thesis by (simp add: unat_word_ariths)
qed

lemma IS_ALIGNED_diff:
  assumes "IS_ALIGNED v PGSIZE_2M"
  shows "IS_ALIGNED (p - v) PGSIZE_2M \<longleftrightarrow> IS_ALIGNED p PGSIZE_2M"
proof -
  have "unat p mod 2 ^ 21 = (unat (p - v) + unat v) mod 2 ^ 21" using unat_add_mod_2M [of "p - v" v] by simp
  also have "\<dots> = unat (p - v) mod 2 ^ 21"
    using assms unfolding IS_ALIGNED_2M(2) by (metis add.right_neutral mod_add_right_eq)
  finally show ?thesis by (simp only: IS_ALIGNED_2M(2))
qed

text \<open>
  The 2 MiB around \<open>x\<close> are mapped by one entry: they lie in the range of \<open>z\<close> bytes at \<open>v\<close>, and the distance of
  the addresses \<open>p\<close> and \<open>v\<close> is a multiple of 2 MiB.
\<close>

definition huge_block :: "u64 \<Rightarrow> u64 \<Rightarrow> u64 \<Rightarrow> u64 \<Rightarrow> bool" where
  "huge_block v p z x \<longleftrightarrow> IS_ALIGNED (p - v) PGSIZE_2M \<and> unat v \<le> unat x div 2 ^ 21 * 2 ^ 21 \<and>
     unat x div 2 ^ 21 * 2 ^ 21 + 2 ^ 21 \<le> unat v + unat z"

lemma huge_block_first:
  "huge_block v p z v \<longleftrightarrow> IS_ALIGNED v PGSIZE_2M \<and> IS_ALIGNED p PGSIZE_2M \<and> PGSIZE_2M \<le> z"
proof (cases "IS_ALIGNED v PGSIZE_2M")
  case True
  then have "unat v div 2 ^ 21 * 2 ^ 21 = unat v" unfolding IS_ALIGNED_2M(2) by (metis add.right_neutral div_mult_mod_eq)
  then show ?thesis using True IS_ALIGNED_diff [OF True, of p]
    by (simp add: huge_block_def word_le_nat_alt PGSIZE_2M_def)
next
  case False
  have "unat v = unat v div 2 ^ 21 * 2 ^ 21 + unat v mod 2 ^ 21" by (rule div_mult_mod_eq [symmetric])
  moreover have "unat v mod 2 ^ 21 \<noteq> 0" using False unfolding IS_ALIGNED_2M(2) .
  ultimately have "unat v div 2 ^ 21 * 2 ^ 21 < unat v" by linarith
  then show ?thesis using False by (simp add: huge_block_def)
qed

section \<open>Tables\<close>

definition page_tables :: "u64 \<Rightarrow> u64 \<Rightarrow> u64 \<Rightarrow> u64 \<Rightarrow> u64 list list" where
  "page_tables v p z x = [PX 2 x] # (if huge_block v p z x then [] else [[PX 2 x, PX 1 x]])"

definition range_tables :: "u64 \<Rightarrow> u64 \<Rightarrow> u64 \<Rightarrow> u64 list list" where
  "range_tables v p z = concat (map (page_tables v p z) (page_range v (v + z)))"

text \<open>Those of them that are not there.\<close>

definition missing_tables :: "mem \<Rightarrow> u64 \<Rightarrow> u64 \<Rightarrow> u64 \<Rightarrow> u64 \<Rightarrow> u64 list set" where
  "missing_tables m root v p z = set (filter (\<lambda>q. node_at kernel_ptr m root q = None) (range_tables v p z))"

definition table_paths :: "mem \<Rightarrow> u64 \<Rightarrow> u64 list set" where
  "table_paths m root = {p. path_ok p \<and> node_at kernel_ptr m root p \<noteq> None}"

lemma page_tables_ok: "q \<in> set (page_tables v p z x) \<Longrightarrow> path_ok q"
  by (auto simp: page_tables_def path_ok_def PX_less split: if_splits)

lemma missing_tables_eq: "missing_tables m root v p z = set (range_tables v p z) - table_paths m root"
  using page_tables_ok by (auto simp: missing_tables_def table_paths_def range_tables_def)

lemma finite_missing [simp]: "finite (missing_tables m root v p z)"
  by (simp add: missing_tables_def)

lemma missing_le_length: "card (missing_tables m root v p z) \<le> length (range_tables v p z)"
  unfolding missing_tables_def by (rule order_trans [OF card_length length_filter_le])

lemma same_block_tables:
  assumes "unat x div 2 ^ 21 = unat y div 2 ^ 21"
  shows "PX 2 x = PX 2 y" and "PX 1 x = PX 1 y"
proof -
  have "unat (drop_bit 21 w) = unat w div 2 ^ 21" for w :: u64
    using unat_drop_bit_eq [of 21 w] drop_bit_eq_div [of 21 "unat w"] by simp
  then have "drop_bit (12 + 9 * 1) x = drop_bit (12 + 9 * 1) y" using assms by (auto intro: unat_inj)
  from cell_path_same [OF this] show "PX 2 x = PX 2 y" and "PX 1 x = PX 1 y"
    by (simp_all add: cell_path_def va_path_def)
qed

text \<open>The step of the loop: a page of 2 MiB where its block allows it and has no table of level 0, or of 4 KiB.\<close>

definition step_size :: "mem \<Rightarrow> u64 \<Rightarrow> u64 \<Rightarrow> u64 \<Rightarrow> u64 \<Rightarrow> u64" where
  "step_size m root v p z =
     (if huge_block v p z v \<and> [PX 2 v, PX 1 v] \<notin> table_paths m root then PGSIZE_2M else PGSIZE)"

lemma step_size_range:
  assumes al: "PGALIGNED v" "PGALIGNED z" and z: "z \<noteq> 0" and room: "unat v + unat z < 2 ^ 64"
  shows "step_size m root v p z \<le> z" and "unat (v + step_size m root v p z) = unat v + unat (step_size m root v p z)"
    and "PGALIGNED (step_size m root v p z)" and "0 < step_size m root v p z"
proof -
  have "4096 \<le> unat z" using al(2) z by (cases "unat z < 4096") (auto simp: PGALIGNED_iff unat_eq_zero)
  then have "PGSIZE \<le> z" by (simp add: word_le_nat_alt)
  then show le: "step_size m root v p z \<le> z" by (simp add: step_size_def huge_block_first)
  then show "unat (v + step_size m root v p z) = unat v + unat (step_size m root v p z)"
    by (intro unat_add_no_wrap) (use room in \<open>simp add: word_le_nat_alt\<close>)
  show "PGALIGNED (step_size m root v p z)" "0 < step_size m root v p z"
    by (simp_all add: step_size_def PGALIGNED_iff PGSIZE_2M_def PGSIZE_def)
qed

text \<open>After a step the tables of the rest of the range are missing, but for those the step has made.\<close>

lemma block_of_step:
  assumes x: "unat v \<le> unat x" "unat x < unat v + unat n"
    and n: "n = PGSIZE \<and> unat x = unat v \<or> n = PGSIZE_2M \<and> IS_ALIGNED v PGSIZE_2M"
  shows "unat x div 2 ^ 21 = unat v div 2 ^ 21"
proof (cases "unat x = unat v")
  case False
  then have n: "unat n = 2 ^ 21" and v: "unat v mod 2 ^ 21 = 0"
    using assms(3) unfolding IS_ALIGNED_2M(2) by (auto simp: PGSIZE_2M_def)
  from v obtain k where "unat v = 2 ^ 21 * k" by (auto simp only: mod_eq_0_iff_dvd dvd_def)
  then have "unat x = 2 ^ 21 * k + (unat x - unat v)" and "unat x - unat v < 2 ^ 21" using x n by simp_all
  then have "unat x div 2 ^ 21 = k" by (metis add_cancel_right_right div_less div_mult_self4 zero_neq_numeral power_eq_0_iff)
  then show ?thesis using \<open>unat v = 2 ^ 21 * k\<close> by simp
qed simp

lemma huge_block_later:
  assumes "unat (v + n) = unat v + unat n" and "unat n \<le> unat z"
  shows "huge_block (v + n) (p + n) (z - n) x \<longleftrightarrow>
    huge_block v p z x \<and> unat v + unat n \<le> unat x div 2 ^ 21 * 2 ^ 21"
  using assms by (auto simp: huge_block_def unat_sub_le word_le_nat_alt)

lemma set_range_tables:
  assumes "PGALIGNED v" and "PGALIGNED z"
  shows "set (range_tables v p z) =
    (\<Union>x \<in> {x. PGALIGNED x \<and> v \<le> x \<and> x < v + z}. set (page_tables v p z x))"
  using set_page_range [OF assms(1) PGALIGNED_add [OF assms]] by (simp add: range_tables_def)

lemma next_page: "a mod 4096 = 0 \<Longrightarrow> b mod 4096 = 0 \<Longrightarrow> a \<le> b \<Longrightarrow> b < a + 4096 \<Longrightarrow> b = (a :: nat)"
proof -
  assume "a mod 4096 = 0" "b mod 4096 = 0" and le: "a \<le> b" "b < a + 4096"
  then obtain j k where jk: "a = 4096 * j" "b = 4096 * k" by (auto simp: mod_eq_0_iff_dvd dvd_def)
  then have "j = k" using le by linarith
  then show ?thesis using jk by simp
qed

lemma first_missing:
  assumes al: "PGALIGNED v" "PGALIGNED z" and z: "z \<noteq> 0" and room: "unat v + unat z < 2 ^ 64"
  shows "set (page_tables v p z v) - table_paths m root \<subseteq> missing_tables m root v p z"
proof -
  have "unat (v + z) = unat v + unat z" using room by (simp add: unat_add_no_wrap)
  then have "v < v + z" using z by (simp add: word_less_nat_alt unat_gt_0)
  then show ?thesis using al(1) by (auto simp: missing_tables_eq set_range_tables [OF al])
qed

lemma missing_step:
  assumes al: "PGALIGNED v" "PGALIGNED z" and z: "z \<noteq> 0" and room: "unat v + unat z < 2 ^ 64"
    and n: "n = step_size m root v p z"
    and T': "table_paths m' root = table_paths m root \<union> U" and U: "U = set (page_tables v p z v) - table_paths m root"
  shows "missing_tables m' root (v + n) (p + n) (z - n) = missing_tables m root v p z - U"
proof -
  note st = step_size_range [OF al z room, of m root p, folded n]
  have vn: "PGALIGNED (v + n)" and zn: "PGALIGNED (z - n)"
    using al st(3) PGALIGNED_add PGALIGNED_add_iff [OF st(3), of "z - n"] by simp_all
  have vend: "v + n + (z - n) = v + z" by simp
  have vz: "unat (v + z) = unat v + unat z" using room by (simp add: unat_add_no_wrap)
  have lev: "unat n \<le> unat z" using st(1) by (simp add: word_le_nat_alt)
  note later = huge_block_later [OF st(2) lev, of p]
  note R = set_range_tables [OF al, of p] and R' = set_range_tables [OF vn zn, of "p + n", unfolded vend]
  have first: "set (page_tables v p z v) \<subseteq> table_paths m' root" by (auto simp: T' U)
  have "set (range_tables v p z) \<subseteq> set (range_tables (v + n) (p + n) (z - n)) \<union> table_paths m' root"
  proof
    fix q assume "q \<in> set (range_tables v p z)"
    then obtain x where x: "PGALIGNED x" "v \<le> x" "x < v + z" "q \<in> set (page_tables v p z x)" by (auto simp: R)
    show "q \<in> set (range_tables (v + n) (p + n) (z - n)) \<union> table_paths m' root"
    proof (cases "v + n \<le> x")
      case True
      have "q \<in> set (page_tables (v + n) (p + n) (z - n) x)" using x(4) by (auto simp: page_tables_def later split: if_splits)
      then show ?thesis using True x by (auto simp: R')
    next
      case False
      then have "unat x < unat v + unat n" using st(2) by (simp add: word_le_nat_alt)
      moreover have "unat v \<le> unat x" using x(2) by (simp add: word_le_nat_alt)
      moreover have "unat x = unat v" if "n = PGSIZE"
      proof -
        have "unat x < unat v + 4096" using that \<open>unat x < unat v + unat n\<close> by simp
        then show ?thesis
          using x(1) al(1) \<open>unat v \<le> unat x\<close> next_page [of "unat v" "unat x"] by (simp add: PGALIGNED_iff)
      qed
      moreover have "n = PGSIZE \<or> n = PGSIZE_2M \<and> IS_ALIGNED v PGSIZE_2M"
        using n by (auto simp: step_size_def huge_block_first split: if_splits)
      ultimately have b: "unat x div 2 ^ 21 = unat v div 2 ^ 21" using block_of_step by blast
      then have "set (page_tables v p z x) = set (page_tables v p z v)"
        using same_block_tables [OF b] by (simp add: page_tables_def huge_block_def)
      then show ?thesis using x(4) first by blast
    qed
  qed
  moreover have "set (range_tables (v + n) (p + n) (z - n)) \<subseteq> set (range_tables v p z) \<union> table_paths m' root"
  proof
    fix q assume "q \<in> set (range_tables (v + n) (p + n) (z - n))"
    then obtain x where x: "PGALIGNED x" "v + n \<le> x" "x < v + z" "q \<in> set (page_tables (v + n) (p + n) (z - n) x)"
      by (auto simp: R')
    have vx: "v \<le> x" using x(2) st(2) by (simp add: word_le_nat_alt)
    then have sub: "set (page_tables v p z x) \<subseteq> set (range_tables v p z)" using x by (auto simp: R)
    show "q \<in> set (range_tables v p z) \<union> table_paths m' root"
    proof (cases "q \<in> set (page_tables v p z x)")
      case False
      then have q: "q = [PX 2 x, PX 1 x]" and h: "huge_block v p z x"
        and nl: "\<not> unat v + unat n \<le> unat x div 2 ^ 21 * 2 ^ 21"
        using x(4) by (auto simp: page_tables_def later split: if_splits)
      have lo: "unat v \<le> unat x div 2 ^ 21 * 2 ^ 21" using h by (simp add: huge_block_def)
      have n4: "n = PGSIZE"
      proof (rule ccontr)
        assume "n \<noteq> PGSIZE"
        then have "n = PGSIZE_2M" and "IS_ALIGNED v PGSIZE_2M" using n by (auto simp: step_size_def huge_block_first split: if_splits)
        then have "unat n = 2 ^ 21" and "unat v mod 2 ^ 21 = 0" unfolding IS_ALIGNED_2M(2) by (simp_all add: PGSIZE_2M_def)
        then obtain k where k: "unat v + unat n = (k + 1) * 2 ^ 21"
          by (metis add.commute add_mult_distrib div_mod_decomp add.right_neutral nat_mult_1)
        moreover have "unat v + unat n \<le> unat x" using x(2) st(2) by (simp add: word_le_nat_alt)
        ultimately have "(k + 1) * 2 ^ 21 div 2 ^ 21 \<le> unat x div 2 ^ 21" by (metis div_le_mono)
        then have "(k + 1) * 2 ^ 21 \<le> unat x div 2 ^ 21 * 2 ^ 21" by simp
        then show False using nl k by simp
      qed
      have "unat x div 2 ^ 21 * 2 ^ 21 = 4096 * (512 * (unat x div 2 ^ 21))" by simp
      then have "unat x div 2 ^ 21 * 2 ^ 21 mod 4096 = 0" by (simp only: mod_mult_self1_is_0)
      then have "unat v = unat x div 2 ^ 21 * 2 ^ 21"
        using next_page [of "unat v" "unat x div 2 ^ 21 * 2 ^ 21"] lo nl al(1) n4 unfolding PGALIGNED_iff by simp
      then have b: "unat x div 2 ^ 21 = unat v div 2 ^ 21" by simp
      then have "huge_block v p z v" using h by (simp add: huge_block_def)
      moreover have "PGSIZE_2M \<noteq> PGSIZE" by (simp add: PGSIZE_2M_def PGSIZE_def)
      ultimately have "[PX 2 v, PX 1 v] \<in> table_paths m root" using n n4 unfolding step_size_def by metis
      then show ?thesis using q same_block_tables [OF b] by (simp add: T')
    qed (use sub in blast)
  qed
  ultimately show "missing_tables m' root (v + n) (p + n) (z - n) = missing_tables m root v p z - U"
    unfolding missing_tables_eq T' by blast
qed

section \<open>How many\<close>

text \<open>Addresses in the same page of level \<open>l\<close> have one path of that level.\<close>

lemma same_cell_path:
  assumes "unat x div 2 ^ (12 + 9 * l) = unat y div 2 ^ (12 + 9 * l)" and "l \<le> 2"
  shows "cell_path l x = cell_path l y"
proof (rule cell_path_same [OF unat_inj assms(2)])
  have "unat (drop_bit n w) = unat w div 2 ^ n" for n and w :: u64
    using unat_drop_bit_eq [of n w] drop_bit_eq_div [of n "unat w"] by simp
  then show "unat (drop_bit (12 + 9 * l) x) = unat (drop_bit (12 + 9 * l) y)" using assms(1) by simp
qed

lemma card_image_factor:
  assumes "finite (h ` X)" and "\<And>x y. x \<in> X \<Longrightarrow> y \<in> X \<Longrightarrow> h x = h y \<Longrightarrow> f x = f y"
  shows "finite (f ` X)" and "card (f ` X) \<le> card (h ` X)"
proof -
  have "f x = f (inv_into X h (h x))" if "x \<in> X" for x
    using assms(2) [OF that inv_into_into] f_inv_into_f that by (metis image_eqI)
  then have "f ` X \<subseteq> (\<lambda>b. f (inv_into X h b)) ` h ` X" by (auto intro: rev_image_eqI)
  then show "finite (f ` X)" and "card (f ` X) \<le> card (h ` X)"
    using assms(1) finite_subset order_trans [OF card_mono card_image_le] by blast+
qed

lemma card_cell_paths:
  assumes "l \<le> 2" and "X \<subseteq> {x. lo \<le> unat x \<and> unat x \<le> hi}"
  shows "finite (cell_path l ` X)"
    and "card (cell_path l ` X) \<le> Suc (hi div 2 ^ (12 + 9 * l)) - lo div 2 ^ (12 + 9 * l)"
proof -
  define h :: "u64 \<Rightarrow> nat" where "h x = unat x div 2 ^ (12 + 9 * l)" for x
  have sub: "h ` X \<subseteq> {lo div 2 ^ (12 + 9 * l)..hi div 2 ^ (12 + 9 * l)}"
    using assms(2) by (auto simp: h_def div_le_mono)
  then have fin: "finite (h ` X)" by (rule finite_subset) simp
  have "cell_path l x = cell_path l y" if "h x = h y" for x y
    using same_cell_path [OF that [unfolded h_def] assms(1)] .
  note f = card_image_factor [OF fin this]
  show "finite (cell_path l ` X)" by (rule f(1))
  show "card (cell_path l ` X) \<le> Suc (hi div 2 ^ (12 + 9 * l)) - lo div 2 ^ (12 + 9 * l)"
    using order_trans [OF f(2) card_mono [OF finite_atLeastAtMost sub]] by simp
qed

lemma huge_block_aligned:
  assumes "IS_ALIGNED v PGSIZE_2M" and "IS_ALIGNED p PGSIZE_2M" and "IS_ALIGNED z PGSIZE_2M"
    and "unat v \<le> unat x" and "unat x < unat v + unat z"
  shows "huge_block v p z x"
proof -
  from assms(1,3) obtain a b where ab: "unat v = a * 2 ^ 21" "unat z = b * 2 ^ 21"
    unfolding IS_ALIGNED_2M(2) by (metis add.right_neutral div_mult_mod_eq)
  define c where "c = unat x div 2 ^ 21"
  have "a \<le> c" using div_le_mono [OF assms(4), of "2 ^ 21"] by (simp add: ab c_def)
  moreover have "c < a + b"
  proof -
    have "unat x < (a + b) * 2 ^ 21" using assms(5) ab by (simp add: add_mult_distrib)
    then show ?thesis unfolding c_def by (simp add: div_less_iff_less_mult)
  qed
  ultimately have "a * 2 ^ 21 \<le> c * 2 ^ 21" and "(c + 1) * 2 ^ 21 \<le> (a + b) * 2 ^ 21" by (simp_all only: mult_le_mono1)
  then show ?thesis
    using IS_ALIGNED_diff [OF assms(1), of p] assms(2)
    unfolding huge_block_def c_def [symmetric] ab by (simp add: add_mult_distrib)
qed

text \<open>One for each GiB of the range, and one for each 2 MiB unless everything is aligned.\<close>

lemma card_missing:
  assumes al: "PGALIGNED v" "PGALIGNED z" and room: "unat v + unat z < 2 ^ 64" and hi: "unat v + unat z \<le> hi + 1"
  shows "card (missing_tables m root v p z) \<le> (Suc (hi div 2 ^ 30) - unat v div 2 ^ 30) +
    (if IS_ALIGNED v PGSIZE_2M \<and> IS_ALIGNED p PGSIZE_2M \<and> IS_ALIGNED z PGSIZE_2M then 0
     else Suc (hi div 2 ^ 21) - unat v div 2 ^ 21)"
proof -
  define X :: "u64 set" where "X = {x. unat v \<le> unat x \<and> unat x < unat v + unat z}"
  define A where "A \<longleftrightarrow> IS_ALIGNED v PGSIZE_2M \<and> IS_ALIGNED p PGSIZE_2M \<and> IS_ALIGNED z PGSIZE_2M"
  have X: "X \<subseteq> {x. unat v \<le> unat x \<and> unat x \<le> hi}" using hi by (auto simp: X_def)
  note two = card_cell_paths [OF _ X, of 2] and one = card_cell_paths [OF _ X, of 1]
  have vz: "unat (v + z) = unat v + unat z" using room by (simp add: unat_add_no_wrap)
  have "missing_tables m root v p z \<subseteq> cell_path 2 ` X \<union> (if A then {} else cell_path 1 ` X)"
  proof
    fix q assume "q \<in> missing_tables m root v p z"
    then obtain x where x: "v \<le> x" "x < v + z" "q \<in> set (page_tables v p z x)"
      by (auto simp: missing_tables_eq set_range_tables [OF al])
    have "x \<in> X" using x(1,2) vz by (simp add: X_def word_le_nat_alt word_less_nat_alt)
    moreover have "huge_block v p z x" if A
      using that \<open>x \<in> X\<close> huge_block_aligned unfolding A_def X_def by blast
    moreover have "[PX 2 x] = cell_path 2 x" "[PX 2 x, PX 1 x] = cell_path 1 x"
      by (simp_all add: cell_path_def va_path_def numeral_2_eq_2)
    moreover from \<open>x \<in> X\<close> have "cell_path 2 x \<in> cell_path 2 ` X" "cell_path 1 x \<in> cell_path 1 ` X" by blast+
    ultimately show "q \<in> cell_path 2 ` X \<union> (if A then {} else cell_path 1 ` X)"
      using x(3) by (auto simp: page_tables_def split: if_splits)
  qed
  then have "card (missing_tables m root v p z) \<le> card (cell_path 2 ` X \<union> (if A then {} else cell_path 1 ` X))"
    by (rule card_mono [rotated]) (use two(1) one(1) in simp)
  also have "\<dots> \<le> card (cell_path 2 ` X) + card (if A then {} else cell_path 1 ` X)" by (rule card_Un_le)
  also have "\<dots> \<le> (Suc (hi div 2 ^ 30) - unat v div 2 ^ 30) +
      (if A then 0 else Suc (hi div 2 ^ 21) - unat v div 2 ^ 21)"
    using two(2) one(2) by (intro add_mono) auto
  finally show ?thesis by (simp only: A_def)
qed

end
