(* ===== verification/KvmMap.thy ===== *)
theory KvmMap imports KvmRange begin

text \<open>
  \<^verbatim>\<open>kvmmap\<close> of \<^verbatim>\<open>os/kvm.c\<close>: it makes the kernel's page table translate a range of addresses, with the tables
  it needs taken from a source of pages. There are two sources, the pages that follow the kernel image while the
  kernel is set up and the page allocator afterwards; what \<^verbatim>\<open>kvmmap\<close> relies on is the locale \<open>page_source\<close>.
\<close>

section \<open>What changes\<close>

text \<open>Only memory, the two page allocators and the bookkeeping of interrupts have changed.\<close>

definition only_tables :: "kst \<Rightarrow> kst \<Rightarrow> bool" where
  "only_tables s s' \<longleftrightarrow>
     s' = s\<lparr>smp := smp s', mem := mem s', freelist := freelist s', init_page_allocator := init_page_allocator s'\<rparr> \<and>
     settle (smp s') = settle (smp s)"

lemma only_tables_mem [simp]: "only_tables s (s\<lparr>mem := m\<rparr>)"
  by (simp add: only_tables_def)

lemma only_tables_memory: "only_memory s s' \<Longrightarrow> only_tables s s'"
proof -
  assume om: "only_memory s s'"
  define t where "t = s\<lparr>smp := smp s', mem := mem s', freelist := freelist s'\<rparr>"
  have e: "s' = t" using om by (simp only: only_memory_def t_def)
  have "t = s\<lparr>smp := smp t, mem := mem t, freelist := freelist t, init_page_allocator := init_page_allocator t\<rparr>"
    by (simp add: t_def)
  then show ?thesis using om e unfolding only_tables_def only_memory_def by metis
qed

lemma only_tables_sel:
  assumes "only_tables s s'"
  shows "kmap s' = kmap s" "kalloc_inited s' = kalloc_inited s" "init_page_allocator_base s' = init_page_allocator_base s"
    "img s' = img s" "kernel_image_end_2M s' = kernel_image_end_2M s" "kpage_allocator_base s' = kpage_allocator_base s"
    "kpage_allocator_size s' = kpage_allocator_size s" "k_ready s' = k_ready s" "k_free l s' = k_free l s"
    "page_mapped s' p = page_mapped s p"
proof -
  define t where
    "t = s\<lparr>smp := smp s', mem := mem s', freelist := freelist s', init_page_allocator := init_page_allocator s'\<rparr>"
  have e: "s' = t" using assms by (simp only: only_tables_def t_def)
  show k: "kmap s' = kmap s" and "kalloc_inited s' = kalloc_inited s"
    "init_page_allocator_base s' = init_page_allocator_base s"
    "img s' = img s" "kernel_image_end_2M s' = kernel_image_end_2M s" "kpage_allocator_base s' = kpage_allocator_base s"
    "kpage_allocator_size s' = kpage_allocator_size s"
    unfolding e by (simp_all add: t_def)
  show "k_ready s' = k_ready s" "k_free l s' = k_free l s"
    using assms settle_eq_transfer [of "smp s'" "smp s"] by (simp_all add: only_tables_def k_ready_def k_free_def)
  show "page_mapped s' p = page_mapped s p" by (rule page_mapped_cong [OF k])
qed

lemma only_tables_trans: "only_tables s t \<Longrightarrow> only_tables t u \<Longrightarrow> only_tables s u"
proof -
  assume st: "only_tables s t" and tu: "only_tables t u"
  have "(s\<lparr>smp := a, mem := b, freelist := c, init_page_allocator := d\<rparr>)
      \<lparr>smp := a', mem := b', freelist := c', init_page_allocator := d'\<rparr> =
    s\<lparr>smp := a', mem := b', freelist := c', init_page_allocator := d'\<rparr>" for a b c d a' b' c' d'
    by simp
  then have "u = s\<lparr>smp := smp u, mem := mem u, freelist := freelist u, init_page_allocator := init_page_allocator u\<rparr>"
    using st tu unfolding only_tables_def by metis
  then show ?thesis using st tu unfolding only_tables_def by metis
qed

section \<open>The state of the table\<close>

text \<open>
  The tree below \<open>root\<close> is well formed, its tables are mapped and apart from the pages \<open>qs\<close> that are there for
  more, and no entry of level 0 points on.
\<close>

definition kernel_table :: "(kst \<Rightarrow> u64 list \<Rightarrow> bool) \<Rightarrow> kst \<Rightarrow> u64 \<Rightarrow> u64 list \<Rightarrow> bool" where
  "kernel_table avail s root qs \<longleftrightarrow>
     tree_wf kernel_ptr (mem s) root \<and> (\<forall>x \<in> ktables (mem s) root. page_mapped s x) \<and>
     ktables (mem s) root \<inter> set qs = {} \<and> (\<forall>va. \<not> kernel_ptr (kentry (mem s) root 0 va)) \<and> avail s qs"

lemma kernel_tableD:
  assumes "kernel_table avail s root qs"
  shows "tree_wf kernel_ptr (mem s) root" "x \<in> ktables (mem s) root \<Longrightarrow> page_mapped s x"
    "ktables (mem s) root \<inter> set qs = {}" "\<not> kernel_ptr (kentry (mem s) root 0 va)" "avail s qs"
    "x \<in> ktables (mem s) root \<Longrightarrow> PGALIGNED x"
  using assms nodes_aligned by (auto simp: kernel_table_def)

text \<open>
  The tables at the paths \<open>U\<close> have been added, in the first pages of \<open>qs\<close>, and nothing outside the tables has
  been written.
\<close>

definition grows :: "(kst \<Rightarrow> u64 list \<Rightarrow> bool) \<Rightarrow> kst \<Rightarrow> u64 \<Rightarrow> u64 list \<Rightarrow> u64 list set \<Rightarrow> kst \<Rightarrow> bool" where
  "grows avail s root qs U s' \<longleftrightarrow>
     only_tables s s' \<and> finite U \<and> card U \<le> length qs \<and> kernel_table avail s' root (drop (card U) qs) \<and>
     ktables (mem s') root = ktables (mem s) root \<union> set (take (card U) qs) \<and>
     only_in (ktables (mem s) root \<union> set (take (card U) qs)) (mem s) (mem s') \<and>
     table_paths (mem s') root = table_paths (mem s) root \<union> U \<and> U \<inter> table_paths (mem s) root = {}"

lemma growsD:
  assumes "grows avail s root qs U s'"
  shows "only_tables s s'" "finite U" "card U \<le> length qs" "kernel_table avail s' root (drop (card U) qs)"
    "ktables (mem s') root = ktables (mem s) root \<union> set (take (card U) qs)"
    "only_in (ktables (mem s) root \<union> set (take (card U) qs)) (mem s) (mem s')"
    "table_paths (mem s') root = table_paths (mem s) root \<union> U" "U \<inter> table_paths (mem s) root = {}"
  using assms by (simp_all add: grows_def)

lemma grows_refl: "kernel_table avail s root qs \<Longrightarrow> grows avail s root qs {} s"
  by (simp add: grows_def only_tables_def)

lemma grows_trans:
  assumes A: "grows avail s root qs U t" and B: "grows avail t root (drop (card U) qs) V u"
  shows "grows avail s root qs (U \<union> V) u"
proof -
  note a = growsD [OF A] and b = growsD [OF B]
  have "U \<inter> V = {}" using a(7) b(8) by auto
  then have c: "card (U \<union> V) = card U + card V" using a(2) b(2) by (simp add: card_Un_disjoint)
  have tk: "take (card U + card V) qs = take (card U) qs @ take (card V) (drop (card U) qs)" by (rule take_add)
  have "only_in (ktables (mem s) root \<union> set (take (card U + card V) qs)) (mem s) (mem u)"
    by (rule only_in_trans [OF a(6) b(6)]) (auto simp: a(5) tk)
  moreover have "drop (card V) (drop (card U) qs) = drop (card U + card V) qs" by (simp add: add.commute)
  ultimately show ?thesis
    using a b only_tables_trans [OF a(1) b(1)] unfolding grows_def c tk by (auto simp: c)
qed

section \<open>The source of pages\<close>

text \<open>
  \<open>avail s qs\<close>: the next pages that \<^verbatim>\<open>allockernelpage\<close> hands out are \<open>qs\<close>. They are mapped, and what is written
  outside them leaves them available.
\<close>

locale page_source =
  fixes avail :: "kst \<Rightarrow> u64 list \<Rightarrow> bool"
  assumes take_page: "avail s (q # qs) \<Longrightarrow> \<exists>s1. allockernelpage s = Inr (q, s1) \<and> only_tables s s1 \<and>
      only_in {q} (mem s) (mem s1) \<and> avail s1 qs"
    and page_ok: "avail s (q # qs) \<Longrightarrow> PGALIGNED q \<and> q \<notin> set qs \<and> page_mapped s q"
    and keeps: "avail s qs \<Longrightarrow> only_in P (mem s) m \<Longrightarrow> \<forall>t \<in> P. PGALIGNED t \<Longrightarrow> P \<inter> set qs = {} \<Longrightarrow>
      avail (s\<lparr>mem := m\<rparr>) qs"
begin

text \<open>A store into a table, or into any page that is not available.\<close>

lemma store_avail:
  assumes "avail s qs" and "page_mapped s t" and "PGALIGNED t" and "t \<notin> set qs" and "i < 512"
  shows "store64 (slot t i) v s = Inr (s\<lparr>mem := st64 (mem s) (slot t i) v\<rparr>)"
    and "avail (s\<lparr>mem := st64 (mem s) (slot t i) v\<rparr>) qs"
    and "only_in {t} (mem s) (st64 (mem s) (slot t i) v)"
proof -
  show oi: "only_in {t} (mem s) (st64 (mem s) (slot t i) v)" by (rule store_cell(3) [OF assms(2,5)])
  show "store64 (slot t i) v s = Inr (s\<lparr>mem := st64 (mem s) (slot t i) v\<rparr>)" by (rule store_cell(1) [OF assms(2,5)])
  show "avail (s\<lparr>mem := st64 (mem s) (slot t i) v\<rparr>) qs" by (rule keeps [OF assms(1) oi]) (use assms in auto)
qed

section \<open>A table\<close>

lemma fresh_table_run:
  assumes K: "kernel_table avail s root (q # qs)" and path: "path_ok (p @ [i])"
    and at: "node_at kernel_ptr (mem s) root p = Some t" and e: "ld64 (mem s) (slot t i) AND PTE_V = 0"
  shows "\<exists>s'. fresh_table (slot t i) s = Inr (q, s') \<and> grows avail s root (q # qs) {p @ [i]} s' \<and>
    kernel_leaf (mem s') root = kernel_leaf (mem s) root \<and> node_at kernel_ptr (mem s') root (p @ [i]) = Some q"
proof -
  note k = kernel_tableD [OF K]
  let ?T = "ktables (mem s) root"
  have i: "i < 512" and pp: "path_ok p" using path by (simp_all add: path_ok_snoc)
  have t: "t \<in> ?T" using pp at by (rule nodesI)
  have q: "PGALIGNED q" "q \<notin> set qs" "page_mapped s q" "q \<notin> ?T" using page_ok [OF k(5)] k(3) by auto
  have tq: "t \<noteq> q" and tal: "PGALIGNED t" and tqs: "t \<notin> set qs" using t q k(3,6) by auto
  from take_page [OF k(5)] obtain s1 where s1: "allockernelpage s = Inr (q, s1)" "only_tables s s1"
    "only_in {q} (mem s) (mem s1)" "avail s1 qs" by blast
  have pm1: "page_mapped s1 q" "page_mapped s1 t" using q(3) k(2) [OF t] only_tables_sel(10) [OF s1(2)] by simp_all
  define s2 where "s2 = s1\<lparr>mem := fill_page (mem s1) q 0\<rparr>"
  have r2: "k_memset q 0 4096 s1 = Inr s2" using k_memset_page [OF pm1(1), of 0] by (simp add: s2_def)
  have oi2: "only_in {q} (mem s) (mem s2)"
    by (simp add: s2_def) (rule only_in_trans [OF s1(3) fill_only_in]; simp)
  have av2: "avail s2 qs" unfolding s2_def by (rule keeps [OF s1(4) fill_only_in]) (use q in auto)
  have pm2: "page_mapped s2 t" using pm1(2) by (simp add: s2_def page_mapped_def mapped_def)
  define d where "d = MAKE_PTE (KVA_TO_PA q) PTE_G"
  define s3 where "s3 = s2\<lparr>mem := st64 (mem s2) (slot t i) d\<rparr>"
  note st = store_avail [OF av2 pm2 tal tqs i, of d]
  have run: "fresh_table (slot t i) s = Inr (q, s3)"
    using s1(1) r2 st(1) by (simp add: fresh_table_def s3_def d_def)
  have "only_tables s1 s2" and "only_tables s2 s3" unfolding s2_def s3_def by (rule only_tables_mem)+
  then have ot: "only_tables s s3" using s1(2) only_tables_trans by blast
  have oi3: "only_in {q, t} (mem s) (mem s3)"
    by (simp add: s3_def) (rule only_in_trans [OF oi2 st(3)]; simp)
  have se: "same_entries ?T (mem s) (mem s2)"
    by (rule only_in_same_entries [OF oi2]) (use q k(6) in auto)
  have zero: "ld64 (mem s3) (slot q j) = 0" if "j < 512" for j
    using ld64_st64_slot [OF i that tal q(1), of "mem s2" d] tq ld64_fill_same [OF that]
    by (simp add: s3_def s2_def)
  have new: "ld64 (mem s3) (slot t i) = d" by (simp add: s3_def)
  have none: "hop kernel_ptr (mem s) t i = None" using e by (simp add: hop_def kernel_ptr_def)
  have A: "adds_node kernel_ptr (mem s) (mem s3) root t i q p"
    unfolding adds_node_def
    using k(1) path at none q(4) zero others_same_store [OF _ tal i se, of d] k(6) table_pte [OF q(1)] new
    by (auto simp: hop_def Let_def d_def s3_def)
  have T3: "ktables (mem s3) root = insert q ?T" by (rule kernel_tree.nodes_added [OF A])
  have P3: "table_paths (mem s3) root = insert (p @ [i]) (table_paths (mem s) root)"
    using kernel_tree.node_at_added [OF A] path by (auto simp: table_paths_def)
  have "cell_path 0 va \<noteq> p @ [i]" for va using path by (auto simp: cell_path_def va_path_def path_ok_def)
  then have lev0: "kentry (mem s3) root 0 va = kentry (mem s) root 0 va" for va
    using kernel_tree.level_entry_added [OF A] by simp
  have "kernel_table avail s3 root qs"
    using kernel_tree.tree_wf_added [OF A] T3 k q pm1 only_tables_sel(10) [OF ot] st(2) lev0
    by (auto simp: kernel_table_def s3_def)
  moreover have "only_in (?T \<union> {q}) (mem s) (mem s3)" by (rule only_in_mono [OF oi3]) (use t in auto)
  moreover have "p @ [i] \<notin> table_paths (mem s) root" using adds_nodeD(9) [OF A] by (simp add: table_paths_def)
  ultimately have "grows avail s root (q # qs) {p @ [i]} s3" using ot T3 P3 by (simp add: grows_def)
  moreover have "\<not> leaf_entry (ld64 (mem s) (slot t i))" using e by (simp add: leaf_entry_def)
  then have "kernel_leaf (mem s3) root = kernel_leaf (mem s) root"
    using kernel_leaf_added [OF A] by (simp add: fun_eq_iff)
  moreover have "node_at kernel_ptr (mem s3) root (p @ [i]) = Some q"
    using kernel_tree.node_at_added [OF A path] by simp
  ultimately show ?thesis using run by blast
qed

text \<open>The table below an entry, which is made when it is not there.\<close>

lemma next_table:
  assumes K: "kernel_table avail s root qs" and path: "path_ok (p @ [i])"
    and at: "node_at kernel_ptr (mem s) root p = Some t" and e: "e = ld64 (mem s) (slot t i)"
    and leaf: "\<not> leaf_entry e" and room: "p @ [i] \<in> table_paths (mem s) root \<or> qs \<noteq> []"
    and U: "U = {p @ [i]} - table_paths (mem s) root"
  obtains q s' where "load64 (slot t i) s = Inr e"
    "(if e AND PTE_V = 0 then fresh_table (slot t i) s else if is_leaf e then Inl h
      else Inr (PA_TO_KVA (PTE2PA e), s)) = Inr (q, s')"
    "grows avail s root qs U s'" "kernel_leaf (mem s') root = kernel_leaf (mem s) root"
    "node_at kernel_ptr (mem s') root (p @ [i]) = Some q"
proof -
  have i: "i < 512" and pp: "path_ok p" using path by (simp_all add: path_ok_snoc)
  have ld: "load64 (slot t i) s = Inr e"
    using load64_slot [OF kernel_tableD(2) [OF K] i] nodesI [OF pp at] e by blast
  have mem: "p @ [i] \<in> table_paths (mem s) root \<longleftrightarrow> kernel_ptr e"
    using path at e by (simp add: table_paths_def node_at_snoc hop_def Let_def)
  show ?thesis
  proof (cases "kernel_ptr e")
    case True
    then have "node_at kernel_ptr (mem s) root (p @ [i]) = Some (PA_TO_KVA (PTE2PA e))"
      using at e by (simp add: node_at_snoc hop_def Let_def)
    moreover have "U = {}" using True mem U by simp
    ultimately show ?thesis using that [of "PA_TO_KVA (PTE2PA e)" s] True ld grows_refl [OF K] by (simp add: kernel_ptr_def)
  next
    case False
    then have e0: "e AND PTE_V = 0" using leaf entry_kinds by blast
    from False room mem obtain q qs' where qs: "qs = q # qs'" by (cases qs) auto
    have "U = {p @ [i]}" using False mem U by auto
    moreover from fresh_table_run [OF K [unfolded qs] path at e0 [unfolded e]] obtain s' where
      "fresh_table (slot t i) s = Inr (q, s')" "grows avail s root (q # qs') {p @ [i]} s'"
      "kernel_leaf (mem s') root = kernel_leaf (mem s) root" "node_at kernel_ptr (mem s') root (p @ [i]) = Some q"
      by blast
    ultimately show ?thesis using that [of q s'] qs ld e0 by simp
  qed
qed

section \<open>A leaf\<close>

text \<open>Writing the leaf of level \<open>l\<close> for \<open>v\<close> into its table \<open>t\<close>, where no entry was valid.\<close>

lemma write_leaf_run:
  assumes K: "kernel_table avail s root qs" and at: "node_at kernel_ptr (mem s) root p = Some t"
    and p: "p @ [i] = cell_path l v" and l: "l \<le> 2" and e: "ld64 (mem s) (slot t i) AND PTE_V = 0"
    and perm: "is_leaf perm" "perm < 1024" and pa: "PGALIGNED pa"
    and v: "v AND mask (12 + 9 * l) = 0" "\<And>x. x - v < 2 ^ (12 + 9 * l) \<Longrightarrow> sv39_va x"
  shows "\<exists>s'. store64 (slot t i) (MAKE_PTE pa perm) s = Inr s' \<and> grows avail s root qs {} s' \<and>
    kernel_trans (mem s') root =
      (\<lambda>x. if x - v < 2 ^ (12 + 9 * l) then Some (pa + (x - v), perm OR PTE_V) else kernel_trans (mem s) root x)"
proof -
  note k = kernel_tableD [OF K]
  let ?T = "ktables (mem s) root"
  have pe: "p = take (2 - l) (va_path v)" "i = PX l v" using p by (simp_all add: cell_path_def)
  have pp: "path_ok p" and i: "i < 512" by (simp_all add: pe PX_less)
  have t: "t \<in> ?T" using pp at by (rule nodesI)
  have tal: "PGALIGNED t" and tqs: "t \<notin> set qs" and pm: "page_mapped s t" using t k(2,3,6) by auto
  define s' where "s' = s\<lparr>mem := st64 (mem s) (slot t i) (MAKE_PTE pa perm)\<rparr>"
  note st = store_avail [OF k(5) pm tal tqs i, of "MAKE_PTE pa perm"]
  have ot: "only_tables s s'" unfolding s'_def by (rule only_tables_mem)
  have se: "same_entries ?T (mem s) (mem s)" by (simp add: same_entries_def)
  have none: "hop kernel_ptr (mem s) t i = None" "\<not> leaf_entry (ld64 (mem s) (slot t i))"
    using e by (simp_all add: hop_def kernel_ptr_def leaf_entry_def)
  note lf = MAKE_PTE_leaf [OF perm(1), of pa]
  have W: "writes_cell kernel_ptr (mem s) (mem s') root t i p (MAKE_PTE pa perm)"
    unfolding writes_cell_def
    using k(1) pp i at none(1) leaf_no_ptr [OF lf] others_same_store [OF _ tal i se, of "MAKE_PTE pa perm"] k(6)
    by (simp add: s'_def)
  have T': "ktables (mem s') root = ?T" by (rule tables_written [OF W])
  have P': "table_paths (mem s') root = table_paths (mem s) root"
    using table_at_written [OF W] by (auto simp: table_paths_def)
  have "\<not> kernel_ptr (kentry (mem s') root 0 va)" for va
    using level_entry_written [OF W, of 0 va] k(4) [of va] leaf_no_ptr [OF lf] by simp
  then have "kernel_table avail s' root qs"
    using wf_written [OF W] T' k only_tables_sel(10) [OF ot] st(2) by (auto simp: kernel_table_def s'_def)
  moreover have "only_in ?T (mem s) (mem s')"
    using only_in_mono [OF st(3), of ?T] t by (simp add: s'_def)
  ultimately have "grows avail s root qs {} s'" using ot T' P' by (simp add: grows_def)
  moreover have "kernel_trans (mem s') root x =
      (if x - v < 2 ^ (12 + 9 * l) then Some (pa + (x - v), perm OR PTE_V) else kernel_trans (mem s) root x)" for x
    by (rule kernel_trans_written [OF W p perm pa none(2) l _ v]) (use v(2) [of v] l in \<open>simp add: word_gt_0\<close>)
  ultimately show ?thesis using st(1) by (auto simp: s'_def)
qed

section \<open>A page\<close>

lemma kvmmap_page_run:
  assumes K: "kernel_table avail s root qs" and al: "PGALIGNED v" "PGALIGNED p" "PGALIGNED z" and z: "z \<noteq> 0"
    and room: "unat v + unat z < 2 ^ 64" and perm: "is_leaf perm" "perm < 1024"
    and range: "\<And>x. x - v < z \<Longrightarrow> sv39_va x \<and> kernel_leaf (mem s) root x = None"
    and U: "U = set (page_tables v p z v) - table_paths (mem s) root" and qs: "card U \<le> length qs"
    and n: "n = step_size (mem s) root v p z"
  shows "\<exists>s'. kvmmap_page root perm v p z s = Inr (n, s') \<and> grows avail s root qs U s' \<and>
    kernel_trans (mem s') root =
      (\<lambda>x. if x - v < n then Some (p + (x - v), perm OR PTE_V) else kernel_trans (mem s) root x)"
proof -
  let ?T = "table_paths (mem s) root" and ?P = "[PX 2 v, PX 1 v]"
  have v: "sv39_va v" "kernel_leaf (mem s) root v = None" using range [of v] z by (simp_all add: word_gt_0)
  have nz: "n \<le> z" using step_size_range(1) [OF al(1,3) z room] n by simp
  define e2 where "e2 = ld64 (mem s) (slot root (PX 2 v))"
  define U1 where "U1 = {[PX 2 v]} - ?T"
  have U1: "U1 \<subseteq> U" by (auto simp: U1_def U page_tables_def)
  have fU: "finite U" by (simp add: U)
  have "\<not> leaf_entry e2" using kernel_leaf_None [OF v(2,1), of 2] by (simp add: kentry_below(1) e2_def)
  moreover have "[PX 2 v] \<in> ?T \<or> qs \<noteq> []"
    using qs U1 fU by (cases "[PX 2 v] \<in> ?T") (auto simp: U1_def card_gt_0_iff)
  ultimately obtain t1 s1 where s1: "load64 (slot root (PX 2 v)) s = Inr e2"
    "(if e2 AND PTE_V = 0 then fresh_table (slot root (PX 2 v)) s
      else if is_leaf e2 then Inl (Panic ''kvmmap: vaddr already mapped at level 2'')
      else Inr (PA_TO_KVA (PTE2PA e2), s)) = Inr (t1, s1)"
    "grows avail s root qs U1 s1" "kernel_leaf (mem s1) root = kernel_leaf (mem s) root"
    "node_at kernel_ptr (mem s1) root [PX 2 v] = Some t1"
    using next_table [where p = "[]", unfolded append_Nil, OF K _ _ e2_def _ _ U1_def] path_ok_Cons1 PX_less node_at.simps(1)
    by metis
  define qs1 where "qs1 = drop (card U1) qs"
  note g1 = growsD [OF s1(3), folded qs1_def]
  define e1 where "e1 = ld64 (mem s1) (slot t1 (PX 1 v))"
  have ke1: "kentry (mem s1) root 1 v = e1" using s1(5) by (simp add: level_entry_def va_path_def e1_def numeral_2_eq_2)
  have lf1: "\<not> leaf_entry e1" using kernel_leaf_None [of "mem s1" root v 1] v s1(4) ke1 by simp
  have path1: "path_ok ([PX 2 v] @ [PX 1 v])" by (simp add: path_ok_def PX_less)
  have ptr1: "kernel_ptr e1 \<longleftrightarrow> ?P \<in> ?T"
  proof -
    have "kernel_ptr e1 \<longleftrightarrow> ?P \<in> table_paths (mem s1) root"
      using s1(5) path1 node_at_snoc [of kernel_ptr "mem s1" root "[PX 2 v]" "PX 1 v"]
      by (simp add: table_paths_def hop_def Let_def e1_def)
    then show ?thesis by (auto simp: g1(7) U1_def)
  qed
  have V1: "e1 AND PTE_V = 0 \<longleftrightarrow> ?P \<notin> ?T" using ptr1 lf1 entry_kinds by blast
  have ld1: "load64 (slot t1 (PX 1 v)) s1 = Inr e1"
    using load64_slot [OF kernel_tableD(2) [OF g1(4)] PX_less] nodesI [OF _ s1(5)] by (simp add: e1_def PX_less)
  define big where "big \<longleftrightarrow> huge_block v p z v \<and> ?P \<notin> ?T"
  have big_iff: "big \<longleftrightarrow> e1 AND PTE_V = 0 \<and> IS_ALIGNED v PGSIZE_2M \<and> IS_ALIGNED p PGSIZE_2M \<and> PGSIZE_2M \<le> z"
    by (auto simp: big_def V1 huge_block_first)
  show ?thesis
  proof (cases big)
    case True
    then have nn: "n = PGSIZE_2M" using n by (simp add: step_size_def big_def)
    have UU: "U = U1" using True by (simp add: U U1_def page_tables_def big_def)
    have c: "[PX 2 v] @ [PX 1 v] = cell_path 1 v" by (simp add: cell_path_def va_path_def numeral_2_eq_2)
    have e: "ld64 (mem s1) (slot t1 (PX 1 v)) AND PTE_V = 0" using True big_iff e1_def by simp
    have al21: "v AND mask (12 + 9 * 1) = 0" using True by (simp add: big_iff IS_ALIGNED_2M(1))
    have "x - v < 2 ^ (12 + 9 * 1) \<Longrightarrow> x - v < z" for x using nz nn by (simp add: PGSIZE_2M_def)
    then have sv: "x - v < 2 ^ (12 + 9 * 1) \<Longrightarrow> sv39_va x" for x using range by blast
    note write_leaf_run [OF g1(4) s1(5) c _ e perm al(2) al21 sv]
    then obtain s' where s': "store64 (slot t1 (PX 1 v)) (MAKE_PTE p perm) s1 = Inr s'" "grows avail s1 root qs1 {} s'"
      "kernel_trans (mem s') root =
        (\<lambda>x. if x - v < PGSIZE_2M then Some (p + (x - v), perm OR PTE_V) else kernel_trans (mem s1) root x)"
      by (auto simp: PGSIZE_2M_def)
    have "kvmmap_page root perm v p z s = Inr (n, s')"
      using s1(1,2) ld1 s'(1) True [unfolded big_iff] nn unfolding kvmmap_page_def Let_def by simp
    moreover have "grows avail s root qs U s'" using grows_trans [OF s1(3) s'(2) [unfolded qs1_def]] UU by simp
    ultimately show ?thesis using s'(3) kernel_trans_cong [OF s1(4)] nn by auto
  next
    case False
    then have nn: "n = PGSIZE" using n by (auto simp: step_size_def big_def)
    define U2 where "U2 = {?P} - table_paths (mem s1) root"
    have UU: "U = U1 \<union> U2" using False by (auto simp: U U1_def U2_def page_tables_def big_def g1(7))
    have "U2 = {} \<or> qs1 \<noteq> []"
    proof (cases "U2 = {}")
      case False
      then have "U2 = {?P}" by (auto simp: U2_def)
      then have "U1 \<inter> U2 = {}" "card U2 = 1" by (auto simp: U1_def)
      then have "card U = card U1 + 1" using UU card_Un_disjoint [of U1 U2] by (simp add: U1_def U2_def)
      then show ?thesis using qs by (simp add: qs1_def)
    qed simp
    then have "[PX 2 v] @ [PX 1 v] \<in> table_paths (mem s1) root \<or> qs1 \<noteq> []" by (auto simp: U2_def)
    moreover have "U2 = {[PX 2 v] @ [PX 1 v]} - table_paths (mem s1) root" by (simp add: U2_def)
    ultimately obtain t0 s2 where s2:
      "(if e1 AND PTE_V = 0 then fresh_table (slot t1 (PX 1 v)) s1
        else if is_leaf e1 then Inl (Panic ''kvmmap: vaddr already mapped at level 1'')
        else Inr (PA_TO_KVA (PTE2PA e1), s1)) = Inr (t0, s2)"
      "grows avail s1 root qs1 U2 s2" "kernel_leaf (mem s2) root = kernel_leaf (mem s1) root"
      "node_at kernel_ptr (mem s2) root ([PX 2 v] @ [PX 1 v]) = Some t0"
      using next_table [OF g1(4) path1 s1(5) e1_def lf1] by metis
    define qs2 where "qs2 = drop (card U2) qs1"
    note g2 = growsD [OF s2(2), folded qs2_def]
    define e0 where "e0 = ld64 (mem s2) (slot t0 (PX 0 v))"
    have s2_at: "node_at kernel_ptr (mem s2) root ?P = Some t0" using s2(4) by simp
    have ke0: "kentry (mem s2) root 0 v = e0" using s2_at by (simp add: level_entry_def va_path_def e0_def)
    have V0: "e0 AND PTE_V = 0"
      using kernel_leaf_None [of "mem s2" root v 0] v s1(4) s2(3) ke0 kernel_tableD(4) [OF g2(4), of v] entry_kinds by auto
    have "path_ok ?P" using path1 by simp
    then have ld0: "load64 (slot t0 (PX 0 v)) s2 = Inr e0"
      using load64_slot [OF kernel_tableD(2) [OF g2(4)] PX_less] nodesI [OF _ s2_at] by (simp add: e0_def)
    have c: "?P @ [PX 0 v] = cell_path 0 v" by (simp add: cell_path_def va_path_def)
    have al12: "v AND mask (12 + 9 * 0) = 0" using al(1) by (simp add: PGALIGNED_def pgsize_mask)
    have "x - v < 2 ^ (12 + 9 * 0) \<Longrightarrow> x - v < z" for x using nz nn by (simp add: PGSIZE_def)
    then have sv: "x - v < 2 ^ (12 + 9 * 0) \<Longrightarrow> sv39_va x" for x using range by blast
    note write_leaf_run [OF g2(4) s2_at c _ V0 [unfolded e0_def] perm al(2) al12 sv]
    then obtain s' where s': "store64 (slot t0 (PX 0 v)) (MAKE_PTE p perm) s2 = Inr s'" "grows avail s2 root qs2 {} s'"
      "kernel_trans (mem s') root =
        (\<lambda>x. if x - v < PGSIZE then Some (p + (x - v), perm OR PTE_V) else kernel_trans (mem s2) root x)"
      by (auto simp: PGSIZE_def)
    have "kvmmap_page root perm v p z s = Inr (n, s')"
      using s1(1,2) ld1 s2(1) ld0 V0 s'(1) False [unfolded big_iff] nn unfolding kvmmap_page_def Let_def by auto
    moreover have "grows avail s root qs U s'"
      using grows_trans [OF s1(3) grows_trans [OF s2(2) s'(2) [unfolded qs2_def], unfolded qs1_def]] UU by simp
    ultimately show ?thesis using s'(3) kernel_trans_cong [OF s2(3)] kernel_trans_cong [OF s1(4)] nn by auto
  qed
qed

section \<open>A range\<close>

lemma kvmmap_loop_run:
  assumes "kernel_table avail s root qs" and "PGALIGNED v" and "PGALIGNED p" and "PGALIGNED z"
    and "unat v + unat z < 2 ^ 64" and perm: "is_leaf perm" "perm < 1024"
    and "\<And>x. x - v < z \<Longrightarrow> sv39_va x \<and> kernel_leaf (mem s) root x = None"
    and "card (missing_tables (mem s) root v p z) \<le> length qs"
  shows "\<exists>s'. kvmmap_loop root perm (v + z) v p z s = Inr ((v + z, 0), s') \<and>
    grows avail s root qs (missing_tables (mem s) root v p z) s' \<and>
    kernel_trans (mem s') root =
      (\<lambda>x. if x - v < z then Some (p + (x - v), perm OR PTE_V) else kernel_trans (mem s) root x)"
  using assms(1-5,8,9)
proof (induction "unat z" arbitrary: s qs v p z rule: less_induct)
  case less
  note K = less.prems(1) and al = less.prems(2-4) and room = less.prems(5) and range = less.prems(6) and qs = less.prems(7)
  show ?case
  proof (cases "z = 0")
    case True
    then show ?thesis using grows_refl [OF K]
      by (simp add: kvmmap_loop.simps [of root perm v v] missing_tables_def range_tables_def)
  next
    case False
    define n where "n = step_size (mem s) root v p z"
    define U where "U = set (page_tables v p z v) - table_paths (mem s) root"
    let ?M = "missing_tables (mem s) root v p z"
    note st = step_size_range [OF al(1,3) False room, of "mem s" root p, folded n_def]
    have UM: "U \<subseteq> ?M" unfolding U_def by (rule first_missing [OF al(1,3) False room])
    have cU: "card U \<le> card ?M" by (rule card_mono [OF finite_missing UM])
    from kvmmap_page_run [OF K al False room perm range U_def _ n_def] cU qs obtain s1 where
      s1: "kvmmap_page root perm v p z s = Inr (n, s1)" "grows avail s root qs U s1"
      "kernel_trans (mem s1) root =
        (\<lambda>x. if x - v < n then Some (p + (x - v), perm OR PTE_V) else kernel_trans (mem s) root x)" by auto
    note g1 = growsD [OF s1(2)]
    have M1: "missing_tables (mem s1) root (v + n) (p + n) (z - n) = ?M - U"
      by (rule missing_step [OF al(1,3) False room n_def g1(7) U_def])
    have vz: "unat (v + z) = unat v + unat z" using room by (simp add: unat_add_no_wrap)
    have zn: "unat (z - n) = unat z - unat n" by (rule unat_sub_le [OF st(1)])
    have zal: "PGALIGNED (z - n)" using al(3) PGALIGNED_add_iff [OF st(3), of "z - n"] by simp
    have vend: "v + n + (z - n) = v + z" by simp
    note sub = word_sub_less_sub [OF st(1)]
    have parts: "x - (v + n) < z - n \<longleftrightarrow> n \<le> x - v \<and> x - v < z" for x using sub [of "x - v"] by (simp add: algebra_simps)
    have "\<exists>s'. kvmmap_loop root perm (v + n + (z - n)) (v + n) (p + n) (z - n) s1 = Inr ((v + n + (z - n), 0), s') \<and>
      grows avail s1 root (drop (card U) qs) (missing_tables (mem s1) root (v + n) (p + n) (z - n)) s' \<and>
      kernel_trans (mem s') root =
        (\<lambda>x. if x - (v + n) < z - n then Some (p + n + (x - (v + n)), perm OR PTE_V) else kernel_trans (mem s1) root x)"
    proof (rule less.hyps)
      show "unat (z - n) < unat z" using zn st(1,4) by (simp add: word_less_nat_alt word_le_nat_alt)
      show "PGALIGNED (v + n)" "PGALIGNED (p + n)" using al st(3) PGALIGNED_add by blast+
      show "unat (v + n) + unat (z - n) < 2 ^ 64" using st(1,2) zn room by (simp add: word_le_nat_alt)
      show "sv39_va x \<and> kernel_leaf (mem s1) root x = None" if "x - (v + n) < z - n" for x
      proof -
        have x: "\<not> x - v < n" "x - v < z" using that unfolding parts by (simp_all add: not_less)
        then have "kernel_trans (mem s1) root x = None" using s1(3) range kernel_trans_None by simp
        then show ?thesis using range [OF x(2)] kernel_trans_None by blast
      qed
      show "card (missing_tables (mem s1) root (v + n) (p + n) (z - n)) \<le> length (drop (card U) qs)"
        using qs cU card_Diff_subset [OF g1(2) UM] by (simp add: M1)
    qed (use g1(4) zal in simp_all)
    then obtain s' where s': "kvmmap_loop root perm (v + z) (v + n) (p + n) (z - n) s1 = Inr ((v + z, 0), s')"
      "grows avail s1 root (drop (card U) qs) (?M - U) s'"
      "kernel_trans (mem s') root =
        (\<lambda>x. if x - (v + n) < z - n then Some (p + n + (x - (v + n)), perm OR PTE_V) else kernel_trans (mem s1) root x)"
      by (auto simp: M1)
    have "v < v + z" using False vz by (simp add: word_less_nat_alt unat_gt_0)
    moreover have "\<not> v + n \<le> v" using st(2,4) by (simp add: word_le_nat_alt word_less_nat_alt)
    ultimately have "kvmmap_loop root perm (v + z) v p z s = Inr ((v + z, 0), s')"
      using s1(1) s'(1) by (simp add: kvmmap_loop.simps [of root perm "v + z" v])
    moreover have "grows avail s root qs ?M s'" using grows_trans [OF s1(2) s'(2)] UM by (simp add: Un_absorb1)
    moreover have "kernel_trans (mem s') root =
        (\<lambda>x. if x - v < z then Some (p + (x - v), perm OR PTE_V) else kernel_trans (mem s) root x)"
      unfolding s'(3) s1(3) parts using st(1) by (auto simp: fun_eq_iff algebra_simps)
    ultimately show ?thesis by blast
  qed
qed

lemma kvmmap_run:
  assumes K: "kernel_table avail s root qs" and al: "PGALIGNED v" "PGALIGNED p" "PGALIGNED z"
    and room: "unat v + unat z < 2 ^ 64" and perm: "is_leaf perm" "perm < 1024"
    and range: "\<And>x. x - v < z \<Longrightarrow> sv39_va x \<and> kernel_leaf (mem s) root x = None"
    and qs: "card (missing_tables (mem s) root v p z) \<le> length qs"
  shows "\<exists>s'. kvmmap root v p z perm s = Inr s' \<and> grows avail s root qs (missing_tables (mem s) root v p z) s' \<and>
    kernel_trans (mem s') root =
      (\<lambda>x. if x - v < z then Some (p + (x - v), perm OR PTE_V) else kernel_trans (mem s) root x)"
  using kvmmap_loop_run [OF assms] al by (auto simp: kvmmap_def)

end

section \<open>The two sources\<close>

text \<open>While the kernel is set up: the rest of the 2 MiB after the image, up to the end of \<open>qs\<close>.\<close>

definition setup_end :: "u64 \<Rightarrow> nat \<Rightarrow> u64" where
  "setup_end lo n = lo + PGSIZE * of_nat n"

definition setup_pages :: "kst \<Rightarrow> u64 list \<Rightarrow> bool" where
  "setup_pages s qs \<longleftrightarrow>
     (let lo = init_page_allocator s; hi = setup_end lo (length qs); base = init_page_allocator_base s in
      \<not> kalloc_inited s \<and> PGALIGNED lo \<and> base \<le> lo \<and> lo \<le> hi \<and> hi \<le> base + PGSIZE_2M \<and>
      qs = page_range lo hi \<and> (\<forall>q \<in> set qs. page_mapped s q))"

text \<open>Afterwards: the free list of the page allocator.\<close>

definition pool_pages :: "kst \<Rightarrow> u64 list \<Rightarrow> bool" where
  "pool_pages s qs \<longleftrightarrow> kalloc_inited s \<and> arena_ok s \<and> k_ready s \<and> k_free L_kpage s \<and> free_pages s qs"

definition kernel_pages :: "kst \<Rightarrow> u64 list \<Rightarrow> bool" where
  "kernel_pages s qs \<longleftrightarrow> setup_pages s qs \<or> pool_pages s qs"

lemma PGALIGNED_mult: "PGALIGNED (PGSIZE * n)"
proof -
  have "PGSIZE * n = push_bit 12 n" by (simp add: PGSIZE_def push_bit_eq_mult)
  then have "(PGSIZE * n) AND mask 12 = 0" by (auto simp: bit_eq_iff bit_simps)
  then show ?thesis by (simp add: PGALIGNED_def pgsize_mask)
qed

lemma setup_end_Suc: "setup_end lo (Suc n) = setup_end (lo + PGSIZE) n"
  by (simp add: setup_end_def algebra_simps)

lemma setup_pagesD:
  assumes "setup_pages s qs"
  shows "\<not> kalloc_inited s" "PGALIGNED (init_page_allocator s)" "init_page_allocator_base s \<le> init_page_allocator s"
    "init_page_allocator s \<le> setup_end (init_page_allocator s) (length qs)"
    "setup_end (init_page_allocator s) (length qs) \<le> init_page_allocator_base s + PGSIZE_2M"
    "page_range (init_page_allocator s) (setup_end (init_page_allocator s) (length qs)) = qs"
    "q \<in> set qs \<Longrightarrow> page_mapped s q" "PGALIGNED (setup_end (init_page_allocator s) (length qs))"
  using assms PGALIGNED_add [OF _ PGALIGNED_mult] by (auto simp: setup_pages_def Let_def setup_end_def)

lemma setup_pages_first:
  assumes av: "setup_pages s (q # qs)"
  shows "init_page_allocator s < setup_end (init_page_allocator s) (length (q # qs))" and "q = init_page_allocator s"
    and "page_range (init_page_allocator s + PGSIZE) (setup_end (init_page_allocator s) (length (q # qs))) = qs"
proof -
  note d = setup_pagesD [OF av]
  show lt: "init_page_allocator s < setup_end (init_page_allocator s) (length (q # qs))"
    using d(6) page_range_empty by (metis list.distinct(1))
  from page_range_step [OF d(2,8) lt] show "q = init_page_allocator s"
    and "page_range (init_page_allocator s + PGSIZE) (setup_end (init_page_allocator s) (length (q # qs))) = qs"
    unfolding d(6) by simp_all
qed

interpretation setup_source: page_source setup_pages
proof
  fix s q qs assume av: "setup_pages s (q # qs)"
  note f = setup_pages_first [OF av] and d = setup_pagesD [OF av]
  define s1 where "s1 = s\<lparr>init_page_allocator := init_page_allocator s + PGSIZE\<rparr>"
  have "init_page_allocator s < init_page_allocator_base s + PGSIZE_2M" using d(5) f(1) by (rule less_le_trans [rotated])
  then have run: "allockernelpage s = Inr (q, s1)"
    using d(1-3) f(2) by (simp add: allockernelpage_def allocsetuppage_def Let_def s1_def)
  note st = page_step_no_wrap [OF d(2,8) f(1)]
  have lo: "init_page_allocator s \<le> init_page_allocator s + PGSIZE" using st(1) by (simp add: word_le_nat_alt)
  note hi = setup_end_Suc [of "init_page_allocator s" "length qs"]
  have "setup_pages s1 qs"
    using d(1,2,5,7) f(3) st(2) order_trans [OF d(3) lo]
    unfolding setup_pages_def Let_def list.size add_Suc_right add_0_right hi
    by (simp add: s1_def PGALIGNED_step page_mapped_def mapped_def)
  moreover have "only_tables s s1" by (simp add: only_tables_def s1_def)
  ultimately show "\<exists>s1. allockernelpage s = Inr (q, s1) \<and> only_tables s s1 \<and> only_in {q} (mem s) (mem s1) \<and> setup_pages s1 qs"
    using run by (intro exI [of _ s1]) (simp add: s1_def)
  have "distinct (q # qs)" using d(6) distinct_page_range [OF d(2,8)] by simp
  then show "PGALIGNED q \<and> q \<notin> set qs \<and> page_mapped s q" using d(2) d(7) [of q] f(2) by simp
next
  fix s qs P m assume "setup_pages s qs" "only_in P (mem s) m"
  then show "setup_pages (s\<lparr>mem := m\<rparr>) qs" by (simp add: setup_pages_def Let_def page_mapped_def mapped_def)
qed

lemma arena_ok_mem [simp]: "arena_ok (s\<lparr>mem := m\<rparr>) = arena_ok s" "managed (s\<lparr>mem := m\<rparr>) p = managed s p"
  by (simp_all add: arena_ok_def managed_def page_mapped_def mapped_def)

interpretation pool_source: page_source pool_pages
proof
  fix s q qs assume av: "pool_pages s (q # qs)"
  then have d: "arena_ok s" "k_ready s" "k_free L_kpage s" "free_pages s (q # qs)" "kalloc_inited s"
    by (simp_all add: pool_pages_def)
  have q: "freelist s = q" "q \<noteq> 0" "managed s q" "q \<notin> set qs" "PGALIGNED q"
    using d(1,4) managed_nonzero by (auto simp: free_pages_def managed_def)
  have pm: "page_mapped s q" using d(1) q(3) by (simp add: arena_ok_def)
  define s1 where "s1 = s\<lparr>smp := settle (smp s), mem := fill_page (mem s) q 0xaf, freelist := ld64 (mem s) q\<rparr>"
  have run: "allockernelpage s = Inr (q, s1)"
    using kallocpage_eq [OF d(2,3) q(1,2) pm] d(5) by (simp add: allockernelpage_def s1_def)
  have om: "only_memory s s1" unfolding s1_def by (rule only_memoryI) simp
  have "chain (mem s1) (freelist s1) qs = chain (mem s) (freelist s1) qs"
    by (rule chain_outside [of q]) (use q d(4) in \<open>auto simp: s1_def fill_page_def free_pages_def managed_def\<close>)
  then have "free_pages s1 qs" using d(4) only_memory_managed(1) [OF om] by (simp add: free_pages_def s1_def)
  then have "pool_pages s1 qs"
    using d only_memory_managed(3) [OF om] only_memory_sel(8,9) [OF om] by (simp add: pool_pages_def s1_def)
  moreover have "only_in {q} (mem s) (mem s1)" by (simp add: s1_def fill_only_in)
  ultimately show "\<exists>s1. allockernelpage s = Inr (q, s1) \<and> only_tables s s1 \<and> only_in {q} (mem s) (mem s1) \<and> pool_pages s1 qs"
    using run only_tables_memory [OF om] by blast
  show "PGALIGNED q \<and> q \<notin> set qs \<and> page_mapped s q" using q pm by simp
next
  fix s qs P m
  assume av: "pool_pages s qs" "only_in P (mem s) m" "\<forall>t \<in> P. PGALIGNED t" "P \<inter> set qs = {}"
  have "only_memory s (s\<lparr>mem := m\<rparr>)" by (simp add: only_memory_def)
  then have "free_pages (s\<lparr>mem := m\<rparr>) qs"
    using free_pages_only_in [of s qs P "s\<lparr>mem := m\<rparr>"] av by (simp add: pool_pages_def)
  then show "pool_pages (s\<lparr>mem := m\<rparr>) qs" using av(1) by (simp add: pool_pages_def k_ready_def k_free_def)
qed

interpretation kernel_source: page_source kernel_pages
proof
  show "\<exists>s1. allockernelpage s = Inr (q, s1) \<and> only_tables s s1 \<and> only_in {q} (mem s) (mem s1) \<and> kernel_pages s1 qs"
    if "kernel_pages s (q # qs)" for s q qs
    using that setup_source.take_page [of s q qs] pool_source.take_page [of s q qs] unfolding kernel_pages_def by blast
  show "PGALIGNED q \<and> q \<notin> set qs \<and> page_mapped s q" if "kernel_pages s (q # qs)" for s q qs
    using that setup_source.page_ok [of s q qs] pool_source.page_ok [of s q qs] unfolding kernel_pages_def by blast
  show "kernel_pages (s\<lparr>mem := m\<rparr>) qs"
    if "kernel_pages s qs" "only_in P (mem s) m" "\<forall>t \<in> P. PGALIGNED t" "P \<inter> set qs = {}" for s qs P m
    using that setup_source.keeps [of s qs P m] pool_source.keeps [of s qs P m] unfolding kernel_pages_def by blast
qed

section \<open>The property\<close>

text \<open>A table of zeros.\<close>

lemma kernel_table_empty:
  assumes "avail s qs" and "page_mapped s root" and "PGALIGNED root" and "root \<notin> set qs"
    and "\<And>i. i < 512 \<Longrightarrow> ld64 (mem s) (slot root i) = 0"
  shows "kernel_table avail s root qs" and "ktables (mem s) root = {root}" and "kernel_trans (mem s) root va = None"
proof -
  note e = kernel_tree.empty_tree [OF assms(5,3)]
  show "ktables (mem s) root = {root}" by (rule e(1))
  then show "kernel_table avail s root qs" using assms(1,2,4) e(2,3) by (simp add: kernel_table_def)
  show "kernel_trans (mem s) root va = None" by (simp add: kernel_trans_None kernel_leaf_levels e(3))
qed

text \<open>C15. \<^verbatim>\<open>kvmmap\<close> makes the MMU translate exactly the given range of virtual addresses, each to the physical address
  at the same distance, with the given permissions, by entries of 4 KiB and of 2 MiB; every other translation stays.
  The range must be canonical and not mapped; the tables that are missing for it must be available, and they are taken
  from the front of the available pages. Nothing outside the tables is written.
\<close>

theorem kvmmap_correct:
  assumes "kernel_table kernel_pages s root qs" and "PGALIGNED va" and "PGALIGNED pa" and "PGALIGNED sz"
    and "unat va + unat sz < 2 ^ 64" and "is_leaf perm" and "perm < 1024"
    and "\<forall>x. x - va < sz \<longrightarrow> sv39_va x \<and> kernel_trans (mem s) root x = None"
    and "k = card (missing_tables (mem s) root va pa sz)" and "k \<le> length qs"
  shows "\<exists>s'. kvmmap root va pa sz perm s = Inr s' \<and> only_tables s s' \<and>
    kernel_table kernel_pages s' root (drop k qs) \<and>
    only_in (ktables (mem s) root \<union> set (take k qs)) (mem s) (mem s') \<and>
    (\<forall>x. kernel_trans (mem s') root x =
      (if x - va < sz then Some (pa + (x - va), perm OR PTE_V) else kernel_trans (mem s) root x))"
proof -
  have "sv39_va x \<and> kernel_leaf (mem s) root x = None" if "x - va < sz" for x
    using that assms(8) kernel_trans_None by blast
  from kernel_source.kvmmap_run [OF assms(1-7) this assms(10) [unfolded assms(9)]] obtain s' where
    s': "kvmmap root va pa sz perm s = Inr s'" "grows kernel_pages s root qs (missing_tables (mem s) root va pa sz) s'"
    "kernel_trans (mem s') root =
      (\<lambda>x. if x - va < sz then Some (pa + (x - va), perm OR PTE_V) else kernel_trans (mem s) root x)"
    by blast
  then show ?thesis using growsD(1,4,6) [OF s'(2)] assms(9) by auto
qed

text \<open>An empty table after the image, and a page of a scheduler's stack.\<close>

definition demo_setup :: kst where
  "demo_setup = boot_kst\<lparr>init_page_allocator := 0xffffffc080401000, init_page_allocator_base := 0xffffffc080400000\<rparr>"

lemma demo_setup_table:
  "kernel_table kernel_pages demo_setup 0xffffffc080400000 [0xffffffc080401000, 0xffffffc080402000]"
proof (rule kernel_table_empty)
  have "setup_pages demo_setup [0xffffffc080401000, 0xffffffc080402000]"
    by (simp add: setup_pages_def setup_end_def demo_setup_def boot_kst_def PGALIGNED_def page_mapped_def mapped_def
        PGSIZE_def PGSIZE_2M_def page_range.simps)
  then show "kernel_pages demo_setup [0xffffffc080401000, 0xffffffc080402000]" by (simp add: kernel_pages_def)
qed (simp_all add: demo_setup_def boot_kst_def PGALIGNED_def page_mapped_def mapped_def PGSIZE_def)

theorem kvmmap_correct_witness:
  "\<exists>s'. kvmmap 0xffffffc080400000 0xffffffffff000000 0x80500000 PGSIZE 0xE7 demo_setup = Inr s' \<and>
    kernel_trans (mem s') 0xffffffc080400000 0xffffffffff000010 = Some (0x80500010, 0xE7) \<and>
    kernel_trans (mem s') 0xffffffc080400000 0xffffffffff001000 = None"
proof -
  let ?q = "[0xffffffc080401000, 0xffffffc080402000] :: u64 list" and ?r = "0xffffffc080400000 :: u64"
  have none: "kernel_trans (mem demo_setup) ?r x = None" for x
    by (rule kernel_table_empty(3) [of "\<lambda>_ _. True" demo_setup "[]"])
      (simp_all add: demo_setup_def boot_kst_def PGALIGNED_def page_mapped_def mapped_def PGSIZE_def)
  have sv: "sv39_va x" if "x - 0xffffffffff000000 < PGSIZE" for x
  proof -
    have "drop_bit 12 x = drop_bit 12 (0xffffffffff000000 :: u64)"
      using that block_iff(1) [of "0xffffffffff000000" 12 x] by (simp add: PGSIZE_def mask_eq_exp_minus_1)
    then have "drop_bit 26 (drop_bit 12 x) = drop_bit 26 (drop_bit 12 (0xffffffffff000000 :: u64))" by simp
    then show ?thesis by (simp add: sv39_va_def mask_eq_exp_minus_1)
  qed
  have "length (range_tables 0xffffffffff000000 0x80500000 PGSIZE) = 2"
    by (simp add: range_tables_def page_range.simps PGSIZE_def page_tables_def huge_block_first IS_ALIGNED_def PGSIZE_2M_def)
  then have k: "card (missing_tables (mem demo_setup) ?r 0xffffffffff000000 0x80500000 PGSIZE) \<le> 2"
    using missing_le_length [of "mem demo_setup" ?r "0xffffffffff000000" "0x80500000" PGSIZE] by linarith
  have al: "PGALIGNED (0xffffffffff000000 :: u64)" "PGALIGNED (0x80500000 :: u64)"
    by (simp_all add: PGALIGNED_def PGSIZE_def)
  have "\<exists>s'. kvmmap ?r 0xffffffffff000000 0x80500000 PGSIZE 0xE7 demo_setup = Inr s' \<and> only_tables demo_setup s' \<and>
    kernel_table kernel_pages s' ?r (drop (card (missing_tables (mem demo_setup) ?r 0xffffffffff000000 0x80500000 PGSIZE)) ?q) \<and>
    only_in (ktables (mem demo_setup) ?r \<union> set (take (card (missing_tables (mem demo_setup) ?r 0xffffffffff000000 0x80500000 PGSIZE)) ?q))
      (mem demo_setup) (mem s') \<and>
    (\<forall>x. kernel_trans (mem s') ?r x =
      (if x - 0xffffffffff000000 < PGSIZE then Some (0x80500000 + (x - 0xffffffffff000000), 0xE7 OR PTE_V)
       else kernel_trans (mem demo_setup) ?r x))"
    by (rule kvmmap_correct [OF demo_setup_table al PGALIGNED_PGSIZE _ _ _ _ refl])
      (use sv none k in \<open>simp_all add: is_leaf_def layout_simps\<close>)
  then show ?thesis using none by (auto simp: PGSIZE_def PTE_V_def)
qed

end
