(* ===== verification/KvmInit.thy ===== *)
theory KvmInit imports KvmMap begin

text \<open>
  The kernel's address space, as \<^verbatim>\<open>kvm_init\<close> and \<^verbatim>\<open>kvmmake\<close> of \<^verbatim>\<open>os/kvm.c\<close> set it up. It is specified as a list
  of regions, each a range of virtual addresses with the physical address of its first byte and its permissions.
\<close>

section \<open>Regions\<close>

type_synonym region = "u64 \<times> u64 \<times> u64 \<times> u64"

fun region_lookup :: "region list \<Rightarrow> u64 \<Rightarrow> (u64 \<times> u64) option" where
  "region_lookup [] x = None"
| "region_lookup ((va, sz, pa, perm) # rs) x =
     (if x - va < sz then Some (pa + (x - va), perm OR PTE_V) else region_lookup rs x)"

definition region_ok :: "region \<Rightarrow> bool" where
  "region_ok = (\<lambda>(va, sz, pa, perm). PGALIGNED va \<and> PGALIGNED pa \<and> PGALIGNED sz \<and> unat va + unat sz < 2 ^ 64 \<and>
     is_leaf perm \<and> perm < 1024 \<and> (unat va + unat sz \<le> 2 ^ 38 \<or> 2 ^ 64 - 2 ^ 38 \<le> unat va))"

definition region_end :: "region \<Rightarrow> nat" where
  "region_end = (\<lambda>(va, sz, pa, perm). unat va + unat sz)"

definition apart :: "region \<Rightarrow> region \<Rightarrow> bool" where
  "apart r r' \<longleftrightarrow> region_end r \<le> unat (fst r') \<or> region_end r' \<le> unat (fst r)"

lemma in_range_iff:
  assumes "unat va + unat sz < 2 ^ 64"
  shows "x - va < sz \<longleftrightarrow> unat va \<le> unat x \<and> unat x < unat va + unat (sz :: u64)"
proof (cases "va \<le> x")
  case True
  then show ?thesis by (auto simp: word_less_nat_alt word_le_nat_alt unat_sub_le)
next
  case False
  have "unat x < 2 ^ 64" using unat_less_2p [of x] by simp
  then show ?thesis using False assms by (auto simp: word_less_nat_alt word_le_nat_alt unat_sub_if')
qed

lemma sv39_va_range: "unat x < 2 ^ 38 \<or> 2 ^ 64 - 2 ^ 38 \<le> unat x \<Longrightarrow> sv39_va x"
proof -
  assume x: "unat x < 2 ^ 38 \<or> 2 ^ 64 - 2 ^ 38 \<le> unat x"
  have d: "unat (drop_bit 38 x) = unat x div 2 ^ 38"
    using unat_drop_bit_eq [of 38 x] drop_bit_eq_div [of 38 "unat x"] by simp
  have "unat x div 2 ^ 38 = 0 \<or> unat x div 2 ^ 38 = 2 ^ 26 - 1"
    using x unat_less_2p [of x] by (auto simp: div_eq_dividend_iff)
  then have "unat (drop_bit 38 x) = unat (0 :: u64) \<or> unat (drop_bit 38 x) = unat (mask 26 :: u64)"
    using d by (simp add: mask_eq_exp_minus_1)
  then have "drop_bit 38 x = 0 \<or> drop_bit 38 x = mask 26" using unat_inj by blast
  then show ?thesis by (simp add: sv39_va_def)
qed

lemma region_lookup_apart:
  assumes "region_ok (va, sz, pa, perm)" and "\<forall>r \<in> set rs. region_ok r \<and> apart (va, sz, pa, perm) r" and "x - va < sz"
  shows "region_lookup rs x = None"
  using assms(2)
proof (induction rs)
  case (Cons r rs)
  obtain va' sz' pa' perm' where r: "r = (va', sz', pa', perm')" by (cases r)
  have x: "unat va \<le> unat x" "unat x < unat va + unat sz"
    using assms(1,3) in_range_iff [of va sz x] by (auto simp: region_ok_def)
  have "unat va' + unat sz' < 2 ^ 64" and "unat va + unat sz \<le> unat va' \<or> unat va' + unat sz' \<le> unat va"
    using Cons.prems r by (auto simp: region_ok_def apart_def region_end_def)
  then have "\<not> x - va' < sz'" using x in_range_iff [of va' sz' x] by linarith
  then show ?case using Cons r by simp
qed simp

section \<open>A table under construction\<close>

text \<open>
  The table translates exactly the regions \<open>rs\<close>. Of the pages \<open>qs0\<close> at most the first \<open>N\<close> are used up; \<open>P\<close> are
  those of them that have been taken for something else than tables.
\<close>

definition kmake :: "kst \<Rightarrow> u64 list \<Rightarrow> u64 \<Rightarrow> u64 set \<Rightarrow> nat \<Rightarrow> region list \<Rightarrow> kst \<Rightarrow> bool" where
  "kmake s0 qs0 root P N rs s \<longleftrightarrow>
     kmap s = kmap s0 \<and> img s = img s0 \<and> kernel_image_end_2M s = kernel_image_end_2M s0 \<and>
     init_page_allocator_base s = init_page_allocator_base s0 \<and> settle (smp s) = settle (smp s0) \<and>
     (\<forall>r \<in> set rs. region_ok r) \<and> kernel_trans (mem s) root = region_lookup rs \<and>
     distinct qs0 \<and> P \<inter> ktables (mem s) root = {} \<and>
     (\<exists>k \<le> N. kernel_table setup_pages s root (drop k qs0) \<and> ktables (mem s) root \<union> P \<subseteq> set (take k qs0))"

lemma kmakeD:
  assumes "kmake s0 qs0 root P N rs s"
  shows "kmap s = kmap s0" "img s = img s0" "kernel_image_end_2M s = kernel_image_end_2M s0"
    "init_page_allocator_base s = init_page_allocator_base s0" "settle (smp s) = settle (smp s0)"
    "r \<in> set rs \<Longrightarrow> region_ok r" "kernel_trans (mem s) root = region_lookup rs" "P \<inter> ktables (mem s) root = {}"
    "\<exists>k \<le> N. kernel_table setup_pages s root (drop k qs0) \<and> ktables (mem s) root \<union> P \<subseteq> set (take k qs0)"
    "distinct qs0"
  using assms by (simp_all add: kmake_def)

lemma kmake_kstack [simp]:
  "kmake s0 qs0 root P N rs (s\<lparr>sched_kstack_top := f\<rparr>) \<longleftrightarrow> kmake s0 qs0 root P N rs s"
  by (simp add: kmake_def kernel_table_def setup_pages_def Let_def page_mapped_def mapped_def)

text \<open>Mapping a region that is apart from the others and needs at most \<open>b\<close> tables.\<close>

lemma kmake_map:
  assumes K: "kmake s0 qs0 root P N rs s" and r: "region_ok (va, sz, pa, perm)"
    and new: "\<forall>r \<in> set rs. apart (va, sz, pa, perm) r"
    and b: "\<And>m. card (missing_tables m root va pa sz) \<le> b" and room: "N + b \<le> length qs0"
  obtains s' where "kvmmap root va pa sz perm s = Inr s'" "kmake s0 qs0 root P (N + b) ((va, sz, pa, perm) # rs) s'"
proof -
  note k = kmakeD [OF K]
  from k(9) obtain n where n: "n \<le> N" "kernel_table setup_pages s root (drop n qs0)"
    "ktables (mem s) root \<union> P \<subseteq> set (take n qs0)" by blast
  define M where "M = missing_tables (mem s) root va pa sz"
  have M: "card M \<le> b" unfolding M_def by (rule b)
  then have len: "card M \<le> length (drop n qs0)" using n(1) room by simp
  have rr: "PGALIGNED va" "PGALIGNED pa" "PGALIGNED sz" "unat va + unat sz < 2 ^ 64" "is_leaf perm" "perm < 1024"
    "unat va + unat sz \<le> 2 ^ 38 \<or> 2 ^ 64 - 2 ^ 38 \<le> unat va"
    using r by (simp_all add: region_ok_def)
  have "sv39_va x \<and> kernel_leaf (mem s) root x = None" if x: "x - va < sz" for x
  proof -
    have "region_lookup rs x = None" using region_lookup_apart [OF r _ x] new k(6) by blast
    then have "kernel_leaf (mem s) root x = None" using k(7) kernel_trans_None by metis
    moreover have "sv39_va x" using x in_range_iff [OF rr(4), of x] rr(7) by (intro sv39_va_range) linarith
    ultimately show ?thesis by blast
  qed
  from setup_source.kvmmap_run [OF n(2) rr(1-6) this, folded M_def] len obtain s' where
    s': "kvmmap root va pa sz perm s = Inr s'" "grows setup_pages s root (drop n qs0) M s'"
    "kernel_trans (mem s') root = (\<lambda>x. if x - va < sz then Some (pa + (x - va), perm OR PTE_V) else kernel_trans (mem s) root x)"
    by blast
  note g = growsD [OF s'(2)] and sel = only_tables_sel [OF growsD(1) [OF s'(2)]]
  have tk: "take (n + card M) qs0 = take n qs0 @ take (card M) (drop n qs0)" by (rule take_add)
  have "set (take n qs0) \<inter> set (take (card M) (drop n qs0)) = {}"
    using set_take_disj_set_drop_if_distinct [OF k(10), of n n] set_take_subset [of "card M" "drop n qs0"] by blast
  then have "P \<inter> ktables (mem s') root = {}" using k(8) n(3) by (auto simp: g(5))
  moreover have "kernel_table setup_pages s' root (drop (n + card M) qs0)" using g(4) by (simp add: add.commute)
  moreover have "ktables (mem s') root \<union> P \<subseteq> set (take (n + card M) qs0)" using n(3) by (auto simp: g(5) tk)
  moreover have "n + card M \<le> N + b" using n(1) M by simp
  moreover have "kernel_trans (mem s') root = region_lookup ((va, sz, pa, perm) # rs)"
    using s'(3) k(7) by (simp add: fun_eq_iff)
  moreover have "settle (smp s') = settle (smp s)" using g(1) by (simp add: only_tables_def)
  ultimately have "kmake s0 qs0 root P (N + b) ((va, sz, pa, perm) # rs) s'"
    using k(1-6,10) r sel(1,3,4,5) unfolding kmake_def by auto
  with s'(1) show thesis by (rule that)
qed

text \<open>Taking a page for something else.\<close>

lemma kmake_page:
  assumes K: "kmake s0 qs0 root P N rs s" and room: "N < length qs0"
  obtains q s' where "allockernelpage s = Inr (q, s')" "kmake s0 qs0 root (insert q P) (N + 1) rs s'" "q \<notin> P"
    "PGALIGNED q"
proof -
  note k = kmakeD [OF K]
  from k(9) obtain n where n: "n \<le> N" "kernel_table setup_pages s root (drop n qs0)"
    "ktables (mem s) root \<union> P \<subseteq> set (take n qs0)" by blast
  have nl: "n < length qs0" using n(1) room by simp
  define q where "q = qs0 ! n"
  have qs: "drop n qs0 = q # drop (n + 1) qs0" using nl Cons_nth_drop_Suc [OF nl] by (simp add: q_def)
  note t = kernel_tableD [OF n(2)[unfolded qs]]
  from setup_source.take_page [OF t(5)] obtain s' where s': "allockernelpage s = Inr (q, s')" "only_tables s s'"
    "only_in {q} (mem s) (mem s')" "setup_pages s' (drop (n + 1) qs0)" by blast
  have q: "PGALIGNED q" using setup_source.page_ok [OF t(5)] by simp
  have "q \<in> set (drop n qs0)" by (simp add: qs)
  then have qn: "q \<notin> set (take n qs0)" using set_take_disj_set_drop_if_distinct [OF k(10), of n n] by blast
  have "same_entries (ktables (mem s) root) (mem s) (mem s')"
    by (rule only_in_same_entries [OF s'(3)]) (use q t(6) n(3) qn in auto)
  note c = nodes_cong [OF this] level_entry_cong [OF this]
  have tk: "take (n + 1) qs0 = take n qs0 @ [q]" using nl by (simp add: q_def take_Suc_conv_app_nth)
  have "kernel_table setup_pages s' root (drop (n + 1) qs0)"
    using t s'(4) only_tables_sel(10) [OF s'(2)] by (simp add: kernel_table_def c)
  moreover have "kernel_trans (mem s') root = kernel_trans (mem s) root"
    by (rule kernel_trans_cong) (simp add: fun_eq_iff kernel_leaf_levels c)
  moreover have "ktables (mem s') root \<union> insert q P \<subseteq> set (take (n + 1) qs0)" unfolding tk using n(3) by (auto simp: c)
  moreover have "insert q P \<inter> ktables (mem s') root = {}" using k(8) n(3) qn by (auto simp: c)
  moreover have "settle (smp s') = settle (smp s)" using s'(2) by (simp add: only_tables_def)
  moreover have "n + 1 \<le> N + 1" using n(1) by simp
  ultimately have "kmake s0 qs0 root (insert q P) (N + 1) rs s'"
    using k(1-7,10) only_tables_sel(1,3,4,5) [OF s'(2)] unfolding kmake_def by auto
  moreover have "q \<notin> P" using n(3) qn by auto
  ultimately show thesis using that s'(1) q by blast
qed

section \<open>The stacks of the schedulers\<close>

abbreviation rw_perm :: u64 where
  "rw_perm \<equiv> PTE_A OR PTE_D OR PTE_R OR PTE_W OR PTE_G"

text \<open>Page \<open>j\<close>: two for each CPU, and then two that are not mapped. The pages behind them are \<open>stk\<close>.\<close>

definition stack_va :: "nat \<Rightarrow> u64" where
  "stack_va j = KERNEL_STACK_SCHED + of_nat (j div 2) * (2 * KERNEL_STACK_SIZE) + of_nat (j mod 2) * PGSIZE"

definition stack_regions :: "u64 list \<Rightarrow> region list" where
  "stack_regions stk = rev (map (\<lambda>j. (stack_va j, PGSIZE, KVA_TO_PA (stk ! j), rw_perm)) [0..<length stk])"

lemma stack_regions_snoc:
  "stack_regions (stk @ [q]) = (stack_va (length stk), PGSIZE, KVA_TO_PA q, rw_perm) # stack_regions stk"
  by (simp add: stack_regions_def nth_append)

lemma below_8: "j < 8 \<Longrightarrow> P 0 \<Longrightarrow> P 1 \<Longrightarrow> P 2 \<Longrightarrow> P 3 \<Longrightarrow> P 4 \<Longrightarrow> P 5 \<Longrightarrow> P 6 \<Longrightarrow> P 7 \<Longrightarrow> P (j :: nat)"
proof -
  assume "j < 8"
  then have "j \<in> {0, 1, 2, 3, 4, 5, 6, 7}" by auto
  then show "P 0 \<Longrightarrow> P 1 \<Longrightarrow> P 2 \<Longrightarrow> P 3 \<Longrightarrow> P 4 \<Longrightarrow> P 5 \<Longrightarrow> P 6 \<Longrightarrow> P 7 \<Longrightarrow> P j" by blast
qed

lemmas stack_simps = stack_va_def KERNEL_STACK_SCHED_def KERNEL_STACK_SIZE_def PGSIZE_def

lemma stack_va_facts:
  assumes "j < 8"
  shows "PGALIGNED (stack_va j)" and "unat (stack_va j) = 0xffffffffff000000 + 4096 * (4 * (j div 2) + j mod 2)"
  by (rule below_8 [OF assms]; simp add: stack_simps PGALIGNED_def)
    (rule below_8 [OF assms]; simp add: stack_simps)

lemma stack_va_later:
  assumes "i < j" and "j < 8"
  shows "unat (stack_va i) + 4096 \<le> unat (stack_va j)"
proof -
  have "i div 2 * 2 + i mod 2 = i" "j div 2 * 2 + j mod 2 = j" "i mod 2 < 2" by simp_all
  moreover have "i div 2 \<le> j div 2" using assms(1) by (simp add: div_le_mono)
  ultimately have "4 * (i div 2) + i mod 2 + 1 \<le> 4 * (j div 2) + j mod 2"
    using assms(1) by (cases "i div 2 = j div 2") linarith+
  then show ?thesis using stack_va_facts(2) [of i] stack_va_facts(2) [of j] assms by simp
qed

lemma stack_pages:
  assumes "n < 4"
  shows "page_range (stack_va (2 * n)) (stack_va (2 * n) + KERNEL_STACK_SIZE) = [stack_va (2 * n), stack_va (Suc (2 * n))]"
    and "stack_va (2 * n) = KERNEL_STACK_SCHED + of_nat n * (2 * KERNEL_STACK_SIZE)"
proof -
  have "n = 0 \<or> n = 1 \<or> n = 2 \<or> n = 3" using assms by auto
  then show "page_range (stack_va (2 * n)) (stack_va (2 * n) + KERNEL_STACK_SIZE) = [stack_va (2 * n), stack_va (Suc (2 * n))]"
    by (elim disjE) (simp_all add: stack_simps page_range.simps)
  show "stack_va (2 * n) = KERNEL_STACK_SCHED + of_nat n * (2 * KERNEL_STACK_SIZE)" by (simp add: stack_va_def)
qed

text \<open>A bound on the tables between two addresses.\<close>

lemma missing_between:
  assumes r: "region_ok (v, z, p, perm)" and lo: "lo \<le> unat v" and hi: "unat v + unat z \<le> hi + 1"
    and b: "Suc (hi div 2 ^ 30) - lo div 2 ^ 30 +
      (if IS_ALIGNED v PGSIZE_2M \<and> IS_ALIGNED p PGSIZE_2M \<and> IS_ALIGNED z PGSIZE_2M then 0
       else Suc (hi div 2 ^ 21) - lo div 2 ^ 21) \<le> b"
  shows "card (missing_tables m root v p z) \<le> b"
proof -
  have "card (missing_tables m root v p z) \<le> Suc (hi div 2 ^ 30) - unat v div 2 ^ 30 +
    (if IS_ALIGNED v PGSIZE_2M \<and> IS_ALIGNED p PGSIZE_2M \<and> IS_ALIGNED z PGSIZE_2M then 0
     else Suc (hi div 2 ^ 21) - unat v div 2 ^ 21)"
    by (rule card_missing [OF _ _ _ hi]) (use r in \<open>simp_all add: region_ok_def\<close>)
  also have "\<dots> \<le> Suc (hi div 2 ^ 30) - lo div 2 ^ 30 +
    (if IS_ALIGNED v PGSIZE_2M \<and> IS_ALIGNED p PGSIZE_2M \<and> IS_ALIGNED z PGSIZE_2M then 0
     else Suc (hi div 2 ^ 21) - lo div 2 ^ 21)"
    using lo by (intro add_mono) (auto intro!: diff_le_mono2 div_le_mono)
  finally show ?thesis using b by linarith
qed

lemma map_stack_page_run:
  assumes K: "kmake s0 qs0 root P N rs s" and j: "j < 8" and below: "\<forall>r \<in> set rs. region_end r \<le> unat (stack_va j)"
    and room: "N + 3 \<le> length qs0"
  obtains q s' where "map_stack_page root (stack_va j) s = Inr s'" "q \<notin> P"
    "kmake s0 qs0 root (insert q P) (N + 3) ((stack_va j, PGSIZE, KVA_TO_PA q, rw_perm) # rs) s'"
proof -
  have "N < length qs0" using room by simp
  from kmake_page [OF K this] obtain q s1 where q: "allockernelpage s = Inr (q, s1)"
    "kmake s0 qs0 root (insert q P) (N + 1) rs s1" "q \<notin> P" "PGALIGNED q" .
  let ?r = "(stack_va j, PGSIZE, KVA_TO_PA q, rw_perm)"
  note va = stack_va_facts [OF j]
  have small: "4 * (j div 2) + j mod 2 < 16" using j by presburger
  have ok: "region_ok ?r" using va q(4) small PGALIGNED_PGSIZE by (simp add: region_ok_def is_leaf_def pte_flag_defs)
  have new: "\<forall>r \<in> set rs. apart ?r r" using below by (simp add: apart_def)
  have b: "card (missing_tables m root (stack_va j) (KVA_TO_PA q) PGSIZE) \<le> 2" for m
    by (rule missing_between [OF ok, of "0xffffffffff000000" "0xffffffffff01ffff"]) (use va(2) small in simp_all)
  have "N + 1 + 2 \<le> length qs0" using room by simp
  from kmake_map [OF q(2) ok new b this] obtain s' where
    "kvmmap root (stack_va j) (KVA_TO_PA q) PGSIZE rw_perm s1 = Inr s'"
    "kmake s0 qs0 root (insert q P) (N + 1 + 2) (?r # rs) s'" .
  then show thesis
    using q(1,3) by (intro that [of s' q]) (simp_all add: map_stack_page_def add.commute [of N] del: add_2_eq_Suc add_2_eq_Suc')
qed

lemma sched_stacks_run:
  assumes K: "kmake s0 qs0 root {} N rs s" and below: "\<forall>r \<in> set rs. region_end r \<le> 0xffffffffff000000"
    and room: "N + 24 \<le> length qs0"
  shows "n \<le> 4 \<Longrightarrow> \<exists>stk s'. kfold (map_sched_stack root) [0..<n] (KERNEL_STACK_SCHED, s) =
      Inr (KERNEL_STACK_SCHED + of_nat n * (2 * KERNEL_STACK_SIZE), s') \<and> length stk = 2 * n \<and> distinct stk \<and>
    kmake s0 qs0 root (set stk) (N + 6 * n) (stack_regions stk @ rs) s'"
proof (induction n)
  case 0
  then show ?case using K by (intro exI [of _ "[]"]) (simp add: stack_regions_def)
next
  case (Suc n)
  from Suc obtain stk s1 where IH: "kfold (map_sched_stack root) [0..<n] (KERNEL_STACK_SCHED, s) =
      Inr (KERNEL_STACK_SCHED + of_nat n * (2 * KERNEL_STACK_SIZE), s1)" "length stk = 2 * n" "distinct stk"
    "kmake s0 qs0 root (set stk) (N + 6 * n) (stack_regions stk @ rs) s1" by auto
  have n: "n < 4" using Suc.prems by simp
  have ends: "\<forall>r \<in> set (stack_regions xs @ rs). region_end r \<le> unat (stack_va j)" if "length xs \<le> j" "j < 8" for xs j
  proof -
    have "0xffffffffff000000 \<le> unat (stack_va j)" using stack_va_facts(2) [OF that(2)] by simp
    moreover have "unat (stack_va i) + 4096 \<le> unat (stack_va j)" if "i < length xs" for i
      using stack_va_later [of i j] that \<open>length xs \<le> j\<close> \<open>j < 8\<close> by simp
    ultimately show ?thesis using below by (auto simp: stack_regions_def region_end_def intro: order_trans)
  qed
  have "2 * n < 8" "\<forall>r \<in> set (stack_regions stk @ rs). region_end r \<le> unat (stack_va (2 * n))" "N + 6 * n + 3 \<le> length qs0"
    using ends [of stk "2 * n"] IH(2) n room by simp_all
  from map_stack_page_run [OF IH(4) this] obtain q s2 where
    s2: "map_stack_page root (stack_va (2 * n)) s1 = Inr s2" "q \<notin> set stk"
    "kmake s0 qs0 root (insert q (set stk)) (N + 6 * n + 3)
      ((stack_va (2 * n), PGSIZE, KVA_TO_PA q, rw_perm) # stack_regions stk @ rs) s2" .
  have K2: "kmake s0 qs0 root (set (stk @ [q])) (N + 6 * n + 3) (stack_regions (stk @ [q]) @ rs) s2"
    using s2(3) IH(2) by (simp add: stack_regions_snoc)
  have "Suc (2 * n) < 8" "\<forall>r \<in> set (stack_regions (stk @ [q]) @ rs). region_end r \<le> unat (stack_va (Suc (2 * n)))"
    "N + 6 * n + 3 + 3 \<le> length qs0"
    using ends [of "stk @ [q]" "Suc (2 * n)"] IH(2) n room by simp_all
  from map_stack_page_run [OF K2 this] obtain q' s3 where
    s3: "map_stack_page root (stack_va (Suc (2 * n))) s2 = Inr s3" "q' \<notin> set (stk @ [q])"
    "kmake s0 qs0 root (insert q' (set (stk @ [q]))) (N + 6 * n + 3 + 3)
      ((stack_va (Suc (2 * n)), PGSIZE, KVA_TO_PA q', rw_perm) # stack_regions (stk @ [q]) @ rs) s3" .
  define stk' where "stk' = stk @ [q, q']"
  have "stack_regions stk' = (stack_va (Suc (2 * n)), PGSIZE, KVA_TO_PA q', rw_perm) # stack_regions (stk @ [q])"
    using stack_regions_snoc [of "stk @ [q]" q'] IH(2) by (simp add: stk'_def)
  moreover have "insert q' (set (stk @ [q])) = set stk'" by (auto simp: stk'_def)
  ultimately have K3: "kmake s0 qs0 root (set stk') (N + 6 * Suc n) (stack_regions stk' @ rs) s3" using s3(3) by (simp add: add.commute add.left_commute)
  define s4 where "s4 = s3\<lparr>sched_kstack_top := (sched_kstack_top s3)(n := stack_va (2 * n) + KERNEL_STACK_SIZE)\<rparr>"
  have "map_sched_stack root n (stack_va (2 * n), s1) = Inr (stack_va (2 * n) + 2 * KERNEL_STACK_SIZE, s4)"
    using n s2(1) s3(1) by (simp add: map_sched_stack_def getcpu_def NCPU_def stack_pages(1) s4_def Let_def)
  then have "kfold (map_sched_stack root) [0..<Suc n] (KERNEL_STACK_SCHED, s) =
      Inr (stack_va (2 * n) + 2 * KERNEL_STACK_SIZE, s4)"
    using IH(1) stack_pages(2) [OF n] kfold_snoc [of "map_sched_stack root" "[0..<n]" n "(KERNEL_STACK_SCHED, s)"] by simp
  moreover have "stack_va (2 * n) + 2 * KERNEL_STACK_SIZE = KERNEL_STACK_SCHED + of_nat (Suc n) * (2 * KERNEL_STACK_SIZE)"
    unfolding stack_pages(2) [OF n] by (simp add: algebra_simps)
  moreover have "kmake s0 qs0 root (set stk') (N + 6 * Suc n) (stack_regions stk' @ rs) s4" using K3 by (simp add: s4_def)
  moreover have "length stk' = 2 * Suc n" "distinct stk'" using IH(2,3) s2(2) s3(2) by (auto simp: stk'_def)
  ultimately show ?case by metis
qed

section \<open>The kernel's address space\<close>

text \<open>
  The sections of the image are page-aligned, in order, and below its end \<open>e\<close> in physical memory, which is a
  multiple of 2 MiB and leaves another 2 MiB of memory.
\<close>

definition image_ok :: "image \<Rightarrow> u64 \<Rightarrow> bool" where
  "image_ok im e \<longleftrightarrow>
     PGALIGNED (s_text im) \<and> PGALIGNED (e_text im) \<and> PGALIGNED (s_rodata im) \<and> PGALIGNED (e_rodata im) \<and>
     PGALIGNED (s_data im) \<and> PGALIGNED (e_bss im) \<and> PGALIGNED (trampoline_addr im) \<and>
     KERNEL_VIRT_BASE \<le> s_text im \<and> s_text im \<le> e_text im \<and> e_text im \<le> s_rodata im \<and>
     s_rodata im \<le> e_rodata im \<and> e_rodata im \<le> s_data im \<and> s_data im \<le> e_bss im \<and> e_bss im \<le> PA_TO_KIVA e \<and>
     IS_ALIGNED e PGSIZE_2M \<and> KERNEL_PHYS_BASE \<le> e \<and> e \<le> RISCV_DDR_BASE + PHYS_MEM_SIZE - PGSIZE_2M"

abbreviation rx_perm :: u64 where "rx_perm \<equiv> PTE_A OR PTE_R OR PTE_X OR PTE_G"
abbreviation ro_perm :: u64 where "ro_perm \<equiv> PTE_A OR PTE_R OR PTE_G"

text \<open>Everything that is mapped before the stacks, the latest first, and the whole.\<close>

definition fixed_layout :: "image \<Rightarrow> region list" where
  "fixed_layout im =
     [(KERNEL_UART0_BASE, KERNEL_UART0_SIZE, UART0_PHYS, rw_perm),
      (KERNEL_PLIC_BASE, KERNEL_PLIC_SIZE, PLIC_PHYS, rw_perm),
      (TRAMPOLINE, PGSIZE, KIVA_TO_PA (trampoline_addr im), PTE_A OR PTE_R OR PTE_X),
      (s_data im, e_bss im - s_data im, KIVA_TO_PA (s_data im), rw_perm),
      (s_rodata im, e_rodata im - s_rodata im, KIVA_TO_PA (s_rodata im), ro_perm),
      (s_text im, e_text im - s_text im, KIVA_TO_PA (s_text im), rx_perm)]"

definition direct_map :: "u64 \<Rightarrow> region" where
  "direct_map e = (KERNEL_DIRECT_MAPPING_BASE + e, PHYS_MEM_SIZE - (e - RISCV_DDR_BASE), e, rw_perm)"

definition kernel_layout :: "image \<Rightarrow> u64 \<Rightarrow> u64 list \<Rightarrow> region list" where
  "kernel_layout im e stk = direct_map e # stack_regions stk @ fixed_layout im"

lemma image_facts:
  assumes "image_ok im e"
  shows "PGALIGNED (s_text im)" "PGALIGNED (e_text im)" "PGALIGNED (s_rodata im)" "PGALIGNED (e_rodata im)"
    "PGALIGNED (s_data im)" "PGALIGNED (e_bss im)" "PGALIGNED (trampoline_addr im)" "IS_ALIGNED e PGSIZE_2M"
    "0xffffffff80200000 \<le> unat (s_text im)" "unat (s_text im) \<le> unat (e_text im)"
    "unat (e_text im) \<le> unat (s_rodata im)" "unat (s_rodata im) \<le> unat (e_rodata im)"
    "unat (e_rodata im) \<le> unat (s_data im)" "unat (s_data im) \<le> unat (e_bss im)"
    "unat (e_bss im) \<le> 0xffffffff83e00000" "0x80200000 \<le> unat e" "unat e \<le> 0x83e00000"
proof -
  note im = assms [unfolded image_ok_def]
  show "PGALIGNED (s_text im)" "PGALIGNED (e_text im)" "PGALIGNED (s_rodata im)" "PGALIGNED (e_rodata im)"
    "PGALIGNED (s_data im)" "PGALIGNED (e_bss im)" "PGALIGNED (trampoline_addr im)" "IS_ALIGNED e PGSIZE_2M"
    using im by simp_all
  show "0xffffffff80200000 \<le> unat (s_text im)" "unat (s_text im) \<le> unat (e_text im)"
    "unat (e_text im) \<le> unat (s_rodata im)" "unat (s_rodata im) \<le> unat (e_rodata im)"
    "unat (e_rodata im) \<le> unat (s_data im)" "unat (s_data im) \<le> unat (e_bss im)" and lo: "0x80200000 \<le> unat e"
    using im by (simp_all add: word_le_nat_alt KERNEL_VIRT_BASE_def KERNEL_PHYS_BASE_def)
  show hi: "unat e \<le> 0x83e00000"
    using im by (simp add: word_le_nat_alt RISCV_DDR_BASE_def PHYS_MEM_SIZE_def PGSIZE_2M_def)
  have "unat (PA_TO_KIVA e) = unat e + unat KERNEL_OFFSET"
    unfolding PA_TO_KIVA_def using hi by (intro unat_add_no_wrap) (simp add: layout_simps)
  then show "unat (e_bss im) \<le> 0xffffffff83e00000"
    using im hi by (simp add: word_le_nat_alt layout_simps)
qed

lemma PGALIGNED_diff: "PGALIGNED a \<Longrightarrow> PGALIGNED b \<Longrightarrow> PGALIGNED (a - b)"
  using PGALIGNED_add_iff [of b "a - b"] by simp

lemma PGALIGNED_KIVA: "PGALIGNED x \<Longrightarrow> PGALIGNED (KIVA_TO_PA x)"
  unfolding KIVA_TO_PA_def by (rule PGALIGNED_diff) (simp_all add: layout_simps PGALIGNED_def)

text \<open>A section of the image.\<close>

lemma section_region:
  assumes "PGALIGNED a" and "PGALIGNED b" and "0xffffffff80200000 \<le> unat a" and "unat a \<le> unat b"
    and "unat b \<le> 0xffffffff83e00000" and "is_leaf perm" and "perm < 1024"
  shows "region_ok (a, b - a, KIVA_TO_PA a, perm)" and "unat (b - a) = unat b - unat a"
    and "card (missing_tables m root a (KIVA_TO_PA a) (b - a)) \<le> 32"
proof -
  show d: "unat (b - a) = unat b - unat a" using assms(4) by (simp add: unat_sub_le word_le_nat_alt)
  then show ok: "region_ok (a, b - a, KIVA_TO_PA a, perm)"
    using assms PGALIGNED_diff PGALIGNED_KIVA by (simp add: region_ok_def)
  show "card (missing_tables m root a (KIVA_TO_PA a) (b - a)) \<le> 32"
    by (rule missing_between [OF ok assms(3), of "0xffffffff83ffffff"]) (use assms(4,5) d in simp_all)
qed

lemma flag_bits:
  "is_leaf rw_perm" "is_leaf rx_perm" "is_leaf ro_perm" "is_leaf (PTE_A OR PTE_R OR PTE_X)"
  "rw_perm < 1024" "rx_perm < 1024" "ro_perm < 1024" "PTE_A OR PTE_R OR PTE_X < 1024"
  by (simp_all add: is_leaf_def pte_flag_defs)

lemma device_regions:
  "region_ok (KERNEL_UART0_BASE, KERNEL_UART0_SIZE, UART0_PHYS, rw_perm)"
  "region_ok (KERNEL_PLIC_BASE, KERNEL_PLIC_SIZE, PLIC_PHYS, rw_perm)"
  "PGALIGNED p \<Longrightarrow> region_ok (TRAMPOLINE, PGSIZE, p, PTE_A OR PTE_R OR PTE_X)"
  "card (missing_tables m root KERNEL_UART0_BASE UART0_PHYS KERNEL_UART0_SIZE) \<le> 2"
  "card (missing_tables m root KERNEL_PLIC_BASE PLIC_PHYS KERNEL_PLIC_SIZE) \<le> 1"
  "PGALIGNED p \<Longrightarrow> card (missing_tables m root TRAMPOLINE p PGSIZE) \<le> 2"
proof -
  note defs = KERNEL_UART0_BASE_def KERNEL_UART0_SIZE_def UART0_PHYS_def KERNEL_PLIC_BASE_def KERNEL_PLIC_SIZE_def
    PLIC_PHYS_def KERNEL_DEVICE_MMIO_BASE_def
  show u: "region_ok (KERNEL_UART0_BASE, KERNEL_UART0_SIZE, UART0_PHYS, rw_perm)"
    and p: "region_ok (KERNEL_PLIC_BASE, KERNEL_PLIC_SIZE, PLIC_PHYS, rw_perm)"
    by (simp_all add: region_ok_def flag_bits PGALIGNED_iff defs PGSIZE_def)
  show t: "region_ok (TRAMPOLINE, PGSIZE, p, PTE_A OR PTE_R OR PTE_X)" if "PGALIGNED p"
    using that by (simp add: region_ok_def flag_bits PGALIGNED_iff TRAMPOLINE_def USER_TOP_def MAXVA_def PGSIZE_def)
  show "card (missing_tables m root KERNEL_UART0_BASE UART0_PHYS KERNEL_UART0_SIZE) \<le> 2"
    by (rule missing_between [OF u, of "0xffffffffd4000000" "0xffffffffd4000fff"]) (simp_all add: defs PGSIZE_def)
  show "card (missing_tables m root KERNEL_PLIC_BASE PLIC_PHYS KERNEL_PLIC_SIZE) \<le> 1"
    by (rule missing_between [OF p, of "0xffffffffd0000000" "0xffffffffd3ffffff"])
      (simp_all add: defs IS_ALIGNED_def PGSIZE_2M_def)
  show "card (missing_tables m root TRAMPOLINE p PGSIZE) \<le> 2" if "PGALIGNED p"
    by (rule missing_between [OF t [OF that], of "0x3ffffff000" "0x3fffffffff"])
      (simp_all add: TRAMPOLINE_def USER_TOP_def MAXVA_def PGSIZE_def)
qed

lemma direct_region:
  assumes "image_ok im e"
  shows "region_ok (direct_map e)" and "unat (KERNEL_DIRECT_MAPPING_BASE + e) = 0xffffffc000000000 + unat e"
    and "unat (PHYS_MEM_SIZE - (e - RISCV_DDR_BASE)) = 0x84000000 - unat e"
    and "card (missing_tables m root (KERNEL_DIRECT_MAPPING_BASE + e) e (PHYS_MEM_SIZE - (e - RISCV_DDR_BASE))) \<le> 1"
proof -
  note im = image_facts [OF assms]
  have al: "unat e mod 2 ^ 21 = 0" using im(8) by (simp only: IS_ALIGNED_2M(2))
  then obtain k where k: "unat e = k * 2 ^ 21" by (metis add.right_neutral div_mult_mod_eq)
  show va: "unat (KERNEL_DIRECT_MAPPING_BASE + e) = 0xffffffc000000000 + unat e"
    using im(17) unat_add_no_wrap [of KERNEL_DIRECT_MAPPING_BASE e] by (simp add: KERNEL_DIRECT_MAPPING_BASE_def)
  have off: "unat (e - RISCV_DDR_BASE) = unat e - 0x80000000"
    using im(16) by (simp add: unat_sub_le word_le_nat_alt RISCV_DDR_BASE_def)
  then show sz: "unat (PHYS_MEM_SIZE - (e - RISCV_DDR_BASE)) = 0x84000000 - unat e"
    using im(16,17) by (simp add: unat_sub_le word_le_nat_alt PHYS_MEM_SIZE_def)
  have k2: "0x84000000 - unat e = (0x420 - k) * 2 ^ 21" using k by (simp add: diff_mult_distrib)
  have p21: "PGALIGNED a" if "unat a = b * 2 ^ 21" for a b
  proof -
    have "unat a = 4096 * (b * 512)" using that by simp
    then show ?thesis by (simp add: PGALIGNED_iff)
  qed
  have va2: "unat (KERNEL_DIRECT_MAPPING_BASE + e) = (0x7FFFFFE0000 + k) * 2 ^ 21" using va k by simp
  have ok: "region_ok (KERNEL_DIRECT_MAPPING_BASE + e, PHYS_MEM_SIZE - (e - RISCV_DDR_BASE), e, rw_perm)"
    using va sz im(16,17) flag_bits p21 [OF k] p21 [OF va2] p21 [OF sz [unfolded k2]] by (simp add: region_ok_def)
  then show "region_ok (direct_map e)" by (simp add: direct_map_def)
  have "IS_ALIGNED (KERNEL_DIRECT_MAPPING_BASE + e) PGSIZE_2M" "IS_ALIGNED (PHYS_MEM_SIZE - (e - RISCV_DDR_BASE)) PGSIZE_2M"
    unfolding IS_ALIGNED_2M(2) va2 sz k2 by (simp_all only: mod_mult_self2_is_0)
  then show "card (missing_tables m root (KERNEL_DIRECT_MAPPING_BASE + e) e (PHYS_MEM_SIZE - (e - RISCV_DDR_BASE))) \<le> 1"
    by (intro missing_between [OF ok, of "0xffffffc080200000" "0xffffffc083ffffff"]) (use va sz im(8,16,17) in simp_all)
qed

section \<open>Making the table\<close>

lemma fixed_layout_run:
  assumes K: "kmake s0 qs0 root {} 1 [] s" and im: "image_ok im e" and len: "512 \<le> length qs0"
  obtains s1 s2 s3 s4 s5 s6 where
    "kvmmap root (s_text im) (KIVA_TO_PA (s_text im)) (e_text im - s_text im) rx_perm s = Inr s1"
    "kvmmap root (s_rodata im) (KIVA_TO_PA (s_rodata im)) (e_rodata im - s_rodata im) ro_perm s1 = Inr s2"
    "kvmmap root (s_data im) (KIVA_TO_PA (s_data im)) (KIVA_TO_PA (e_bss im) - KIVA_TO_PA (s_data im)) rw_perm s2 = Inr s3"
    "kvmmap root TRAMPOLINE (KIVA_TO_PA (trampoline_addr im)) PGSIZE (PTE_A OR PTE_R OR PTE_X) s3 = Inr s4"
    "kvmmap root KERNEL_PLIC_BASE PLIC_PHYS KERNEL_PLIC_SIZE rw_perm s4 = Inr s5"
    "kvmmap root KERNEL_UART0_BASE UART0_PHYS KERNEL_UART0_SIZE rw_perm s5 = Inr s6"
    "kmake s0 qs0 root {} 102 (fixed_layout im) s6"
proof -
  note f = image_facts [OF im]
  let ?text = "(s_text im, e_text im - s_text im, KIVA_TO_PA (s_text im), rx_perm)"
  let ?ro = "(s_rodata im, e_rodata im - s_rodata im, KIVA_TO_PA (s_rodata im), ro_perm)"
  let ?data = "(s_data im, e_bss im - s_data im, KIVA_TO_PA (s_data im), rw_perm)"
  let ?tramp = "(TRAMPOLINE, PGSIZE, KIVA_TO_PA (trampoline_addr im), PTE_A OR PTE_R OR PTE_X)"
  let ?plic = "(KERNEL_PLIC_BASE, KERNEL_PLIC_SIZE, PLIC_PHYS, rw_perm)"
  let ?uart = "(KERNEL_UART0_BASE, KERNEL_UART0_SIZE, UART0_PHYS, rw_perm)"
  have bounds: "0xffffffff80200000 \<le> unat (s_rodata im)" "0xffffffff80200000 \<le> unat (s_data im)"
    "unat (e_text im) \<le> 0xffffffff83e00000" "unat (e_rodata im) \<le> 0xffffffff83e00000"
    using f by linarith+
  note t = section_region [OF f(1,2,9,10) bounds(3) flag_bits(2,6)]
  note o = section_region [OF f(3,4) bounds(1) f(12) bounds(4) flag_bits(3,7)]
  note d = section_region [OF f(5,6) bounds(2) f(14,15) flag_bits(1,5)]
  note tr = PGALIGNED_KIVA [OF f(7)]
  have ends: "region_end ?text = unat (e_text im)" "region_end ?ro = unat (e_rodata im)" "region_end ?data = unat (e_bss im)"
    "region_end ?tramp = 0x4000000000" "region_end ?plic = 0xffffffffd4000000" "region_end ?uart = 0xffffffffd4001000"
    using f t(2) o(2) d(2)
    by (simp_all add: region_end_def TRAMPOLINE_def USER_TOP_def MAXVA_def PGSIZE_def KERNEL_PLIC_BASE_def KERNEL_PLIC_SIZE_def
        KERNEL_UART0_BASE_def KERNEL_UART0_SIZE_def KERNEL_DEVICE_MMIO_BASE_def)
  have starts: "unat TRAMPOLINE = 0x3ffffff000" "unat KERNEL_PLIC_BASE = 0xffffffffd0000000" "unat KERNEL_UART0_BASE = 0xffffffffd4000000"
    by (simp_all add: TRAMPOLINE_def USER_TOP_def MAXVA_def PGSIZE_def KERNEL_PLIC_BASE_def KERNEL_PLIC_SIZE_def
        KERNEL_UART0_BASE_def KERNEL_DEVICE_MMIO_BASE_def)
  from kmake_map [OF K t(1) _ t(3)] len obtain s1 where
    s1: "kvmmap root (s_text im) (KIVA_TO_PA (s_text im)) (e_text im - s_text im) rx_perm s = Inr s1"
    "kmake s0 qs0 root {} (1 + 32) [?text] s1" by auto
  have "\<forall>r \<in> set [?text]. apart ?ro r" using f by (simp add: apart_def ends)
  from kmake_map [OF s1(2) o(1) this o(3)] len obtain s2 where
    s2: "kvmmap root (s_rodata im) (KIVA_TO_PA (s_rodata im)) (e_rodata im - s_rodata im) ro_perm s1 = Inr s2"
    "kmake s0 qs0 root {} (1 + 32 + 32) [?ro, ?text] s2" by auto
  have "\<forall>r \<in> set [?ro, ?text]. apart ?data r" using f by (simp add: apart_def ends)
  from kmake_map [OF s2(2) d(1) this d(3)] len obtain s3 where
    s3: "kvmmap root (s_data im) (KIVA_TO_PA (s_data im)) (e_bss im - s_data im) rw_perm s2 = Inr s3"
    "kmake s0 qs0 root {} (1 + 32 + 32 + 32) [?data, ?ro, ?text] s3" by auto
  have "\<forall>r \<in> set [?data, ?ro, ?text]. apart ?tramp r" using f bounds by (simp add: apart_def ends)
  from kmake_map [OF s3(2) device_regions(3) [OF tr] this device_regions(6) [OF tr]] len obtain s4 where
    s4: "kvmmap root TRAMPOLINE (KIVA_TO_PA (trampoline_addr im)) PGSIZE (PTE_A OR PTE_R OR PTE_X) s3 = Inr s4"
    "kmake s0 qs0 root {} (1 + 32 + 32 + 32 + 2) [?tramp, ?data, ?ro, ?text] s4" by auto
  have "\<forall>r \<in> set [?tramp, ?data, ?ro, ?text]. apart ?plic r" using f bounds by (simp add: apart_def ends starts)
  from kmake_map [OF s4(2) device_regions(2) this device_regions(5)] len obtain s5 where
    s5: "kvmmap root KERNEL_PLIC_BASE PLIC_PHYS KERNEL_PLIC_SIZE rw_perm s4 = Inr s5"
    "kmake s0 qs0 root {} (1 + 32 + 32 + 32 + 2 + 1) [?plic, ?tramp, ?data, ?ro, ?text] s5" by auto
  have "\<forall>r \<in> set [?plic, ?tramp, ?data, ?ro, ?text]. apart ?uart r" using f bounds by (simp add: apart_def ends starts)
  from kmake_map [OF s5(2) device_regions(1) this device_regions(4)] len obtain s6 where
    s6: "kvmmap root KERNEL_UART0_BASE UART0_PHYS KERNEL_UART0_SIZE rw_perm s5 = Inr s6"
    "kmake s0 qs0 root {} (1 + 32 + 32 + 32 + 2 + 1 + 2) [?uart, ?plic, ?tramp, ?data, ?ro, ?text] s6" by auto
  have "KIVA_TO_PA (e_bss im) - KIVA_TO_PA (s_data im) = e_bss im - s_data im" by (simp add: KIVA_TO_PA_def)
  with s1(1) s2(1) s3(1) s4(1) s5(1) s6 show thesis by (intro that [of s1 s2 s3 s4 s5 s6]) (simp_all add: fixed_layout_def)
qed

lemma fixed_layout_ends:
  assumes "image_ok im e"
  shows "\<forall>r \<in> set (fixed_layout im). region_end r \<le> 0xffffffffd4001000 \<and> apart (direct_map e) r"
proof -
  note f = image_facts [OF assms]
  note d = direct_region(2,3) [OF assms]
  have "unat (e_text im - s_text im) = unat (e_text im) - unat (s_text im)"
    "unat (e_rodata im - s_rodata im) = unat (e_rodata im) - unat (s_rodata im)"
    "unat (e_bss im - s_data im) = unat (e_bss im) - unat (s_data im)"
    using f by (simp_all add: unat_sub_le word_le_nat_alt)
  then show ?thesis
    using f d
    by (simp add: fixed_layout_def region_end_def apart_def direct_map_def TRAMPOLINE_def USER_TOP_def MAXVA_def PGSIZE_def
        KERNEL_PLIC_BASE_def KERNEL_PLIC_SIZE_def KERNEL_UART0_BASE_def KERNEL_UART0_SIZE_def KERNEL_DEVICE_MMIO_BASE_def)
qed

lemma kvmmake_run:
  assumes alloc: "allocsetuppage s0 = Inr (root, s1)" and zero: "k_memset root 0 4096 s1 = Inr s2"
    and K: "kmake s0 qs0 root {} 1 [] s2" and im: "image_ok (img s0) e" and e: "e = kernel_image_end_2M s0"
    and len: "512 \<le> length qs0"
  shows "\<exists>stk s'. kvmmake s0 = Inr (root, s'\<lparr>kpage_allocator_base := init_page_allocator s',
      kpage_allocator_size := PHYS_MEM_SIZE - (e - RISCV_DDR_BASE) - (init_page_allocator s' - init_page_allocator_base s')\<rparr>) \<and>
    length stk = 8 \<and> distinct stk \<and> kmake s0 qs0 root (set stk) 127 (kernel_layout (img s0) e stk) s'"
proof -
  have i1: "img s1 = img s0" "img s2 = img s0" using alloc kmakeD(2) [OF K] by (auto simp: allocsetuppage_def Let_def split: if_splits)
  from fixed_layout_run [OF K im len] obtain t1 t2 t3 t4 t5 t6 where t:
    "kvmmap root (s_text (img s0)) (KIVA_TO_PA (s_text (img s0))) (e_text (img s0) - s_text (img s0)) rx_perm s2 = Inr t1"
    "kvmmap root (s_rodata (img s0)) (KIVA_TO_PA (s_rodata (img s0))) (e_rodata (img s0) - s_rodata (img s0)) ro_perm t1 = Inr t2"
    "kvmmap root (s_data (img s0)) (KIVA_TO_PA (s_data (img s0))) (KIVA_TO_PA (e_bss (img s0)) - KIVA_TO_PA (s_data (img s0))) rw_perm t2 = Inr t3"
    "kvmmap root TRAMPOLINE (KIVA_TO_PA (trampoline_addr (img s0))) PGSIZE (PTE_A OR PTE_R OR PTE_X) t3 = Inr t4"
    "kvmmap root KERNEL_PLIC_BASE PLIC_PHYS KERNEL_PLIC_SIZE rw_perm t4 = Inr t5"
    "kvmmap root KERNEL_UART0_BASE UART0_PHYS KERNEL_UART0_SIZE rw_perm t5 = Inr t6"
    "kmake s0 qs0 root {} 102 (fixed_layout (img s0)) t6" .
  note ends = fixed_layout_ends [OF im]
  have "\<forall>r \<in> set (fixed_layout (img s0)). region_end r \<le> 0xffffffffff000000" using ends by fastforce
  from sched_stacks_run [OF t(7) this, of 4] len obtain stk t7 where
    t7: "kfold (map_sched_stack root) [0..<4] (KERNEL_STACK_SCHED, t6) = Inr (KERNEL_STACK_SCHED + of_nat 4 * (2 * KERNEL_STACK_SIZE), t7)"
    "length stk = 8" "distinct stk" "kmake s0 qs0 root (set stk) 126 (stack_regions stk @ fixed_layout (img s0)) t7"
    by auto
  note d = direct_region [OF im]
  have "region_end (direct_map e) \<le> unat (stack_va j)" if "j < 8" for j
    using that d(2,3) stack_va_facts(2) image_facts(17) [OF im] by (simp add: direct_map_def region_end_def)
  then have "\<forall>r \<in> set (stack_regions stk @ fixed_layout (img s0)). apart (direct_map e) r"
    using ends t7(2) by (auto simp: stack_regions_def apart_def)
  from kmake_map [OF t7(4) d(1) [unfolded direct_map_def] this [unfolded direct_map_def] d(4)] len obtain t8 where
    t8: "kvmmap root (KERNEL_DIRECT_MAPPING_BASE + e) e (PHYS_MEM_SIZE - (e - RISCV_DDR_BASE)) rw_perm t7 = Inr t8"
    "kmake s0 qs0 root (set stk) 127 (kernel_layout (img s0) e stk) t8"
    by (auto simp: kernel_layout_def direct_map_def)
  have e7: "kernel_image_end_2M t7 = e" using kmakeD(3) [OF t7(4)] e by simp
  have e8: "kernel_image_end_2M t8 = e" using kmakeD(3) [OF t8(2)] e by simp
  have "kvmmake s0 = Inr (root, t8\<lparr>kpage_allocator_base := init_page_allocator t8,
      kpage_allocator_size := PHYS_MEM_SIZE - (e - RISCV_DDR_BASE) - (init_page_allocator t8 - init_page_allocator_base t8)\<rparr>)"
    unfolding kvmmake_def Let_def alloc zero
    using t(1-6) t7(1) t8(1) by (simp add: zero e7 NCPU_def)
  then show ?thesis using t7(2,3) t8(2) by blast
qed

section \<open>The pages after the image\<close>

lemma unat_setup_end: "unat lo + 4096 * n < 2 ^ 64 \<Longrightarrow> unat (setup_end lo n) = unat lo + 4096 * n"
proof -
  assume room: "unat lo + 4096 * n < 2 ^ 64"
  then have "unat (of_nat (4096 * n) :: u64) = 4096 * n" by (intro unat_of_nat_small) simp
  moreover have "PGSIZE * of_nat n = (of_nat (4096 * n) :: u64)" by (simp add: PGSIZE_def)
  ultimately show ?thesis unfolding setup_end_def using room by (simp add: unat_add_no_wrap)
qed

lemma setup_page_list:
  "PGALIGNED lo \<Longrightarrow> unat lo + 4096 * n < 2 ^ 64 \<Longrightarrow> page_range lo (setup_end lo n) = map (setup_end lo) [0..<n]"
proof (induction n arbitrary: lo)
  case 0
  then show ?case by (simp add: setup_end_def)
next
  case (Suc n)
  have al: "PGALIGNED (setup_end lo (Suc n))" using PGALIGNED_add [OF Suc.prems(1) PGALIGNED_mult] by (simp add: setup_end_def)
  have lt: "lo < setup_end lo (Suc n)" using unat_setup_end [OF Suc.prems(2)] by (simp add: word_less_nat_alt)
  have un: "unat (lo + PGSIZE) + 4096 * n < 2 ^ 64"
    using page_step_no_wrap(1) [OF Suc.prems(1) al lt] Suc.prems(2) by simp
  have "page_range lo (setup_end lo (Suc n)) = lo # map (setup_end (lo + PGSIZE)) [0..<n]"
    using page_range_step [OF Suc.prems(1) al lt] Suc.IH [OF PGALIGNED_step [OF Suc.prems(1)] un] by (simp add: setup_end_Suc)
  also have "\<dots> = setup_end lo 0 # map (setup_end lo) (map Suc [0..<n])"
    by (simp add: setup_end_Suc setup_end_def algebra_simps)
  also have "\<dots> = map (setup_end lo) [0..<Suc n]" by (simp only: map_Suc_upt upt_conv_Cons list.map zero_less_Suc)
  finally show ?case .
qed

section \<open>What the regions allow\<close>

lemma region_lookup_perm: "region_lookup rs x = Some (pa, f) \<Longrightarrow> \<exists>(va, sz, p, perm) \<in> set rs. f = perm OR PTE_V"
  by (induction rs x rule: region_lookup.induct) (auto split: if_splits)

lemma layout_wx:
  assumes "region_lookup (kernel_layout im e stk) x = Some (pa, f)"
  shows "f AND PTE_W = 0 \<or> f AND PTE_X = 0"
proof -
  have "\<forall>(va, sz, p, perm) \<in> set (kernel_layout im e stk). perm \<in> {rw_perm, ro_perm, rx_perm, PTE_A OR PTE_R OR PTE_X}"
    by (auto simp: kernel_layout_def direct_map_def stack_regions_def fixed_layout_def)
  then have "f \<in> {rw_perm OR PTE_V, ro_perm OR PTE_V, rx_perm OR PTE_V, (PTE_A OR PTE_R OR PTE_X) OR PTE_V}"
    using region_lookup_perm [OF assms] by fastforce
  then show ?thesis by (auto simp: pte_flag_defs)
qed

lemma kernel_rw_trans:
  assumes "kernel_trans m root x = Some (pa, f)" and "f AND PTE_R \<noteq> 0" and "f AND PTE_W \<noteq> 0"
  shows "kernel_rw m root x"
proof -
  from assms(1) obtain l e where le: "kernel_leaf m root x = Some (l, e)" "f = PTE_FLAGS e"
    by (auto simp: kernel_trans_def)
  have "PTE_FLAGS e AND PTE_R = e AND PTE_R" "PTE_FLAGS e AND PTE_W = e AND PTE_W"
    by (simp_all add: PTE_FLAGS_def PTE_R_def PTE_W_def and.assoc)
  then show ?thesis using assms(2,3) le by (simp add: kernel_rw_def)
qed

section \<open>The property\<close>

text \<open>The first page after the image becomes the root.\<close>

lemma kvm_begins:
  assumes im: "image_ok (img s) e" and "\<not> kalloc_inited s"
    and map: "\<forall>x. x - (KERNEL_DIRECT_MAPPING_BASE + e) < PGSIZE_2M \<longrightarrow> kmap s x"
  defines "base \<equiv> KERNEL_DIRECT_MAPPING_BASE + e"
  defines "s1 \<equiv> s\<lparr>init_page_allocator := base, init_page_allocator_base := base\<rparr>"
  defines "qs0 \<equiv> map (setup_end base) [0..<512]"
  obtains s2 s3 where "allocsetuppage s1 = Inr (base, s2)" "k_memset base 0 4096 s2 = Inr s3"
    "kmake s1 qs0 base {} 1 [] s3"
proof -
  have ub: "unat base = 0xffffffc000000000 + unat e" unfolding base_def by (rule direct_region(2) [OF im])
  have "unat e mod 2 ^ 21 = 0" "unat e \<le> 0x83e00000" using image_facts(8,17) [OF im] by (simp_all only: IS_ALIGNED_2M(2))
  then obtain k where "unat e = k * 2 ^ 21" by (metis add.right_neutral div_mult_mod_eq)
  then have "unat base = 4096 * (0xFFFFFFC000000 + 512 * k)" using ub by simp
  then have al: "PGALIGNED base" unfolding PGALIGNED_iff by (metis mod_mult_self1_is_0)
  have room: "unat base + 4096 * n < 2 ^ 64" if "n \<le> 512" for n using ub \<open>unat e \<le> 0x83e00000\<close> that by simp
  have list: "page_range base (setup_end base 512) = qs0" unfolding qs0_def by (rule setup_page_list [OF al room]) simp
  have u: "unat (setup_end base n) = unat base + 4096 * n" if "n \<le> 512" for n by (rule unat_setup_end [OF room [OF that]])
  have hi: "setup_end base 512 = base + PGSIZE_2M" by (simp add: setup_end_def PGSIZE_def PGSIZE_2M_def)
  have pm: "page_mapped s1 q" if q: "q \<in> set qs0" for q
  proof -
    from q obtain i where i: "i < 512" "q = setup_end base i" by (auto simp: qs0_def)
    have "kmap s x" if "in_page q x" for x
    proof -
      have "x - q < PGSIZE" using that by (simp add: in_page_def PGSIZE_def)
      then have "unat (x - q) < 4096" by (simp add: word_less_nat_alt)
      moreover have "PGALIGNED q" unfolding i(2) setup_end_def by (rule PGALIGNED_add [OF al PGALIGNED_mult])
      ultimately have "unat x = unat base + 4096 * i + unat (x - q)"
        using unat_page_add [of q "x - q"] \<open>x - q < PGSIZE\<close> u [of i] i by simp
      then have "x - base < PGSIZE_2M"
        using in_range_iff [of base PGSIZE_2M x] room [of 512] i(1) \<open>unat (x - q) < 4096\<close> by (simp add: PGSIZE_2M_def)
      then show ?thesis using map by (simp add: base_def)
    qed
    then show ?thesis by (simp add: page_mapped_iff s1_def)
  qed
  have "unat base \<le> unat (setup_end base 512)" using u [of 512] by simp
  then have av: "setup_pages s1 qs0"
    using assms(2) al pm list hi unfolding setup_pages_def Let_def by (simp add: s1_def qs0_def word_le_nat_alt)
  define qs where "qs = map (setup_end base) [1..<512]"
  have qs0: "qs0 = base # qs"
    unfolding qs0_def qs_def by (subst upt_conv_Cons) (simp_all add: setup_end_def)
  from setup_source.take_page [OF av [unfolded qs0]] obtain s2 where
    s2: "allockernelpage s1 = Inr (base, s2)" "only_tables s1 s2" "setup_pages s2 qs" by blast
  note first = setup_source.page_ok [OF av [unfolded qs0]]
  have pm2: "page_mapped s2 base" using first only_tables_sel(10) [OF s2(2)] by simp
  define s3 where "s3 = s2\<lparr>mem := fill_page (mem s2) base 0\<rparr>"
  have r3: "k_memset base 0 4096 s2 = Inr s3" using k_memset_page [OF pm2, of 0] by (simp add: s3_def)
  have av3: "setup_pages s3 qs" unfolding s3_def by (rule setup_source.keeps [OF s2(3) fill_only_in]) (use first in auto)
  have pm3: "page_mapped s3 base" using pm2 by (simp add: s3_def page_mapped_def mapped_def)
  have zero: "ld64 (mem s3) (slot base i) = 0" if "i < 512" for i using ld64_fill_same [OF that] by (simp add: s3_def)
  have nq: "base \<notin> set qs" using first by simp
  note kt = kernel_table_empty [where avail = setup_pages and s = s3 and qs = qs and root = base, OF av3 pm3 al nq zero]
  have "distinct qs0" using distinct_page_range [OF al, of "setup_end base 512"] list PGALIGNED_add [OF al PGALIGNED_mult]
    by (simp add: setup_end_def)
  moreover have "kernel_table setup_pages s3 base (drop 1 qs0)" using kt(1) qs0 by simp
  moreover have "ktables (mem s3) base = {base}" by (rule kt(2))
  moreover have "kernel_trans (mem s3) base = region_lookup []" using kt(3) by (simp add: fun_eq_iff)
  moreover have "settle (smp s3) = settle (smp s1)" using s2(2) by (simp add: only_tables_def s3_def)
  ultimately have K: "kmake s1 qs0 base {} 1 [] s3"
    using only_tables_sel(1,3,4,5) [OF s2(2)] qs0 unfolding kmake_def by (auto simp: s3_def intro!: exI [of _ 1])
  have "allocsetuppage s1 = Inr (base, s2)" using s2(1) assms(2) by (simp add: allockernelpage_def s1_def)
  then show thesis using that r3 K by blast
qed

lemma kvm_init_run:
  assumes im: "image_ok (img s) e" and e: "e = kernel_image_end_2M s" and ki: "\<not> kalloc_inited s"
    and map: "\<forall>x. x - (KERNEL_DIRECT_MAPPING_BASE + e) < PGSIZE_2M \<longrightarrow> kmap s x"
  defines "base \<equiv> KERNEL_DIRECT_MAPPING_BASE + e"
  obtains stk t k where
    "kvm_init s = Inr (sfence_vma (w_satp (MAKE_SATP (KVA_TO_PA base)) (t\<lparr>kpage_allocator_base := init_page_allocator t,
      kpage_allocator_size := PHYS_MEM_SIZE - (e - RISCV_DDR_BASE) - (init_page_allocator t - base),
      kernel_pagetable := base\<rparr>)))"
    "length stk = 8" "distinct stk" "kernel_trans (mem t) base = region_lookup (kernel_layout (img s) e stk)"
    "set stk \<inter> ktables (mem t) base = {}" "k \<le> 127" "init_page_allocator t = setup_end base k"
    "ktables (mem t) base \<union> set stk \<subseteq> setup_end base ` {..<k}" "PGALIGNED base" "settle (smp t) = settle (smp s)"
proof -
  define qs0 where "qs0 = map (setup_end base) [0..<512]"
  define s1 where "s1 = s\<lparr>init_page_allocator := base, init_page_allocator_base := base\<rparr>"
  from kvm_begins [OF im ki map, folded base_def, folded s1_def qs0_def] obtain s2 s3 where
    b: "allocsetuppage s1 = Inr (base, s2)" "k_memset base 0 4096 s2 = Inr s3" "kmake s1 qs0 base {} 1 [] s3" .
  have i1: "img s1 = img s" "kernel_image_end_2M s1 = e" by (simp_all add: s1_def e)
  have "image_ok (img s1) e" "e = kernel_image_end_2M s1" "512 \<le> length qs0" using im by (simp_all add: i1 qs0_def)
  from kvmmake_run [OF b this] obtain stk t where
    t: "kvmmake s1 = Inr (base, t\<lparr>kpage_allocator_base := init_page_allocator t,
      kpage_allocator_size := PHYS_MEM_SIZE - (e - RISCV_DDR_BASE) - (init_page_allocator t - init_page_allocator_base t)\<rparr>)"
    "length stk = 8" "distinct stk" "kmake s1 qs0 base (set stk) 127 (kernel_layout (img s) e stk) t"
    unfolding i1 by blast
  note K = kmakeD [OF t(4)]
  have bt: "init_page_allocator_base t = base" using K(4) by (simp add: s1_def)
  from K(9) obtain k where k: "k \<le> 127" "kernel_table setup_pages t base (drop k qs0)"
    "ktables (mem t) base \<union> set stk \<subseteq> set (take k qs0)" by blast
  have len: "k < length qs0" using k(1) by (simp add: qs0_def)
  note first = setup_pages_first [OF kernel_tableD(5) [OF k(2), folded Cons_nth_drop_Suc [OF len]]]
  have "set (take k qs0) = setup_end base ` {..<k}"
    using k(1) by (simp add: qs0_def take_map atLeast0LessThan)
  with k(3) have sub: "ktables (mem t) base \<union> set stk \<subseteq> setup_end base ` {..<k}" by simp
  have it: "init_page_allocator t = setup_end base k" using first(2) len by (simp add: qs0_def)
  have al: "PGALIGNED base"
    using kernel_tableD(6) [OF k(2)] root_in_nodes by blast
  have "settle (smp t) = settle (smp s)" using K(5) by (simp add: s1_def)
  moreover have "kvm_init s = Inr (sfence_vma (w_satp (MAKE_SATP (KVA_TO_PA base)) (t\<lparr>kpage_allocator_base := init_page_allocator t,
      kpage_allocator_size := PHYS_MEM_SIZE - (e - RISCV_DDR_BASE) - (init_page_allocator t - base),
      kernel_pagetable := base\<rparr>)))"
    using t(1) unfolding kvm_init_def Let_def by (simp add: bt e [symmetric] base_def [symmetric] s1_def)
  ultimately show thesis using that t(2,3) K(7,8) k(1) it sub al by blast
qed

text \<open>The direct mapping makes the pages of the page allocator readable and writable.\<close>

lemma direct_rw:
  assumes im: "image_ok im e" and tr: "kernel_trans m root = region_lookup (kernel_layout im e stk)"
    and x: "0xffffffc000000000 + unat e \<le> unat x" "unat x < 0xffffffc084000000"
  shows "kernel_rw m root x"
proof -
  note d = direct_region [OF im]
  have room: "unat (KERNEL_DIRECT_MAPPING_BASE + e) + unat (PHYS_MEM_SIZE - (e - RISCV_DDR_BASE)) < 2 ^ 64"
    using d(1) by (simp add: direct_map_def region_ok_def)
  have "x - (KERNEL_DIRECT_MAPPING_BASE + e) < PHYS_MEM_SIZE - (e - RISCV_DDR_BASE)"
    using in_range_iff [OF room, of x] x d(2,3) by simp
  then have "kernel_trans m root x = Some (e + (x - (KERNEL_DIRECT_MAPPING_BASE + e)), rw_perm OR PTE_V)"
    by (simp add: tr kernel_layout_def direct_map_def)
  then show ?thesis by (rule kernel_rw_trans) (simp_all add: pte_flag_defs)
qed

text \<open>C16. \<^verbatim>\<open>kvm_init\<close> leaves the MMU translating exactly the kernel's address space: the sections of the image with their
  permissions, the trampoline, the devices, two pages for each scheduler's stack, and all memory after the image
  directly; every other address is unmapped, and nothing is both writable and executable. The tables and the stacks
  are different pages after the image and below those that are given to the page allocator, whose range ends with the
  memory and is accessible.
\<close>

theorem kvm_init_correct:
  assumes "image_ok (img s) e" and "e = kernel_image_end_2M s" and "\<not> kalloc_inited s"
    and "\<forall>x. x - (KERNEL_DIRECT_MAPPING_BASE + e) < PGSIZE_2M \<longrightarrow> kmap s x"
  shows "\<exists>s' stk. kvm_init s = Inr s' \<and>
    kernel_trans (mem s') (kernel_pagetable s') = region_lookup (kernel_layout (img s) e stk) \<and>
    (\<forall>x pa f. kernel_trans (mem s') (kernel_pagetable s') x = Some (pa, f) \<longrightarrow> f AND PTE_W = 0 \<or> f AND PTE_X = 0) \<and>
    length stk = 8 \<and> distinct stk \<and> set stk \<inter> ktables (mem s') (kernel_pagetable s') = {} \<and>
    (\<forall>q \<in> set stk \<union> ktables (mem s') (kernel_pagetable s').
      KERNEL_DIRECT_MAPPING_BASE + e \<le> q \<and> q < kpage_allocator_base s') \<and>
    kpage_allocator_base s' + kpage_allocator_size s' = KERNEL_DIRECT_MAPPING_BASE + (RISCV_DDR_BASE + PHYS_MEM_SIZE) \<and>
    arena_ok s' \<and> settle (smp s') = settle (smp s) \<and> csr_satp (hart_regs s') = MAKE_SATP (KVA_TO_PA (kernel_pagetable s'))"
proof -
  define base where "base = KERNEL_DIRECT_MAPPING_BASE + e"
  from kvm_init_run [OF assms, folded base_def] obtain stk t k where
    t: "kvm_init s = Inr (sfence_vma (w_satp (MAKE_SATP (KVA_TO_PA base)) (t\<lparr>kpage_allocator_base := init_page_allocator t,
      kpage_allocator_size := PHYS_MEM_SIZE - (e - RISCV_DDR_BASE) - (init_page_allocator t - base),
      kernel_pagetable := base\<rparr>)))"
    "length stk = 8" "distinct stk" "kernel_trans (mem t) base = region_lookup (kernel_layout (img s) e stk)"
    "set stk \<inter> ktables (mem t) base = {}" "k \<le> 127" "init_page_allocator t = setup_end base k"
    "ktables (mem t) base \<union> set stk \<subseteq> setup_end base ` {..<k}" "PGALIGNED base" "settle (smp t) = settle (smp s)" .
  define s' where "s' = sfence_vma (w_satp (MAKE_SATP (KVA_TO_PA base)) (t\<lparr>kpage_allocator_base := init_page_allocator t,
      kpage_allocator_size := PHYS_MEM_SIZE - (e - RISCV_DDR_BASE) - (init_page_allocator t - base),
      kernel_pagetable := base\<rparr>))"
  have f: "mem s' = mem t" "kernel_pagetable s' = base" "kpage_allocator_base s' = setup_end base k" "smp s' = smp t"
    "kpage_allocator_size s' = PHYS_MEM_SIZE - (e - RISCV_DDR_BASE) - (setup_end base k - base)"
    "kmap s' = kernel_rw (mem t) base" "csr_satp (hart_regs s') = MAKE_SATP (KVA_TO_PA base)"
    by (simp_all add: s'_def sfence_vma_def w_satp_def upd_regs_def t(7))
  note im = image_facts [OF assms(1)] and d = direct_region(2,3) [OF assms(1), folded base_def]
  have u: "unat (setup_end base n) = unat base + 4096 * n" if "n \<le> 127" for n
    by (rule unat_setup_end) (use d im(17) that in simp)
  have in_setup: "base \<le> q \<and> q < kpage_allocator_base s'" if q: "q \<in> set stk \<union> ktables (mem t) base" for q
  proof -
    obtain i where "i < k" "q = setup_end base i" using q t(8) by auto
    then show ?thesis using u [of i] u [OF t(6)] t(6) f(3) by (simp add: word_le_nat_alt word_less_nat_alt)
  qed
  have used: "setup_end base k - base = PGSIZE * of_nat k" by (simp add: setup_end_def)
  have total: "kpage_allocator_base s' + kpage_allocator_size s' = KERNEL_DIRECT_MAPPING_BASE + (RISCV_DDR_BASE + PHYS_MEM_SIZE)"
    unfolding f(3,5) used by (simp add: setup_end_def base_def algebra_simps)
  have utotal: "unat (kpage_allocator_base s' + kpage_allocator_size s') = 0xffffffc084000000"
    unfolding total by (simp add: KERNEL_DIRECT_MAPPING_BASE_def RISCV_DDR_BASE_def PHYS_MEM_SIZE_def)
  have ubase: "unat (kpage_allocator_base s') = 0xffffffc000000000 + unat e + 4096 * k" using u [OF t(6)] d f(3) by simp
  have usize: "unat (kpage_allocator_size s') = 0x84000000 - unat e - 4096 * k"
  proof -
    have "unat (setup_end base k - base) = 4096 * k"
      using u [OF t(6)] by (simp add: unat_sub_le word_le_nat_alt)
    then show ?thesis unfolding f(5) using d im(17) t(6) by (simp add: unat_sub_le word_le_nat_alt)
  qed
  have al: "PGALIGNED (kpage_allocator_base s')" unfolding f(3) setup_end_def by (rule PGALIGNED_add [OF t(9) PGALIGNED_mult])
  have "PGALIGNED (kpage_allocator_base s' + kpage_allocator_size s')" unfolding PGALIGNED_iff utotal by simp
  then have alz: "PGALIGNED (kpage_allocator_size s')"
    using PGALIGNED_add_iff [OF al, of "kpage_allocator_size s'"] by (simp add: add.commute)
  have "arena_ok s'"
    unfolding arena_ok_def
  proof (intro conjI allI impI al alz)
    show "KERNEL_DIRECT_MAPPING_BASE < kpage_allocator_base s'"
      using ubase im(16) by (simp add: word_less_nat_alt KERNEL_DIRECT_MAPPING_BASE_def)
    show "unat (kpage_allocator_base s') + unat (kpage_allocator_size s') < 2 ^ 64"
      unfolding ubase usize using im(17) t(6) by simp
    fix p assume p: "managed s' p"
    then have pal: "PGALIGNED p" and lo: "unat (kpage_allocator_base s') \<le> unat p" and hi: "unat p < 0xffffffc084000000"
      using utotal by (auto simp: managed_def word_le_nat_alt word_less_nat_alt)
    have hi2: "unat p + 4096 \<le> 0xffffffc084000000" 
    proof -
      obtain j where "unat p = 4096 * j" using pal by (auto simp: PGALIGNED_iff)
      moreover from this have "j < 0xffffffc084000" using hi by simp
      ultimately show ?thesis by simp
    qed
    have "kmap s' x" if "in_page p x" for x
    proof -
      have "x - p < PGSIZE" using that by (simp add: in_page_def PGSIZE_def)
      then have "unat x = unat p + unat (x - p)" "unat (x - p) < 4096"
        using unat_page_add [OF pal, of "x - p"] by (simp_all add: word_less_nat_alt)
      then show ?thesis unfolding f(6) using lo hi2 ubase by (intro direct_rw [OF assms(1) t(4)]) simp_all
    qed
    then show "page_mapped s' p" by (simp add: page_mapped_iff)
  qed
  moreover have "kvm_init s = Inr s'" using t(1) by (simp add: s'_def)
  moreover have "\<forall>x pa f. kernel_trans (mem t) base x = Some (pa, f) \<longrightarrow> f AND PTE_W = 0 \<or> f AND PTE_X = 0"
    using layout_wx t(4) by simp
  moreover have "\<forall>q \<in> set stk \<union> ktables (mem t) base. KERNEL_DIRECT_MAPPING_BASE + e \<le> q \<and> q < kpage_allocator_base s'"
    using in_setup by (simp add: base_def)
  ultimately show ?thesis
    using t(2-5,10) total f by (intro exI [of _ s'] exI [of _ stk]) simp
qed

theorem kvm_init_correct_witness:
  "\<exists>s'. kvm_init boot_kst = Inr s' \<and>
    kernel_trans (mem s') (kernel_pagetable s') 0xffffffff80200004 = Some (0x80200004, 0x6B) \<and>
    kernel_trans (mem s') (kernel_pagetable s') 0xffffffff80214010 = Some (0x80214010, 0xE7) \<and>
    kernel_trans (mem s') (kernel_pagetable s') 0xffffffc080500000 = Some (0x80500000, 0xE7) \<and>
    kernel_trans (mem s') (kernel_pagetable s') 0x1000 = None"
proof -
  have im: "image_ok (img boot_kst) 0x80400000"
    by (simp add: image_ok_def boot_kst_def idle_image_def PGALIGNED_iff IS_ALIGNED_def layout_simps PA_TO_KIVA_def
        RISCV_DDR_BASE_def PHYS_MEM_SIZE_def)
  have "0x80400000 = kernel_image_end_2M boot_kst" "\<not> kalloc_inited boot_kst"
    "\<forall>x. x - (KERNEL_DIRECT_MAPPING_BASE + 0x80400000) < PGSIZE_2M \<longrightarrow> kmap boot_kst x"
    by (simp_all add: boot_kst_def)
  from kvm_init_correct [OF im this] obtain s' stk where s': "kvm_init boot_kst = Inr s'" "length stk = 8"
    "kernel_trans (mem s') (kernel_pagetable s') = region_lookup (kernel_layout (img boot_kst) 0x80400000 stk)"
    by blast
  have "[0..<8] = [0, 1, 2, 3, 4, 5, 6, 7]" by (simp add: upt_rec)
  then have "stack_regions stk = [(0xffffffffff00d000, PGSIZE, KVA_TO_PA (stk ! 7), rw_perm),
      (0xffffffffff00c000, PGSIZE, KVA_TO_PA (stk ! 6), rw_perm), (0xffffffffff009000, PGSIZE, KVA_TO_PA (stk ! 5), rw_perm),
      (0xffffffffff008000, PGSIZE, KVA_TO_PA (stk ! 4), rw_perm), (0xffffffffff005000, PGSIZE, KVA_TO_PA (stk ! 3), rw_perm),
      (0xffffffffff004000, PGSIZE, KVA_TO_PA (stk ! 2), rw_perm), (0xffffffffff001000, PGSIZE, KVA_TO_PA (stk ! 1), rw_perm),
      (0xffffffffff000000, PGSIZE, KVA_TO_PA (stk ! 0), rw_perm)]"
    by (simp add: stack_regions_def stack_simps s'(2))
  then show ?thesis
    using s'(1)
    by (intro exI [of _ s'])
      (simp add: s'(3) kernel_layout_def direct_map_def fixed_layout_def boot_kst_def idle_image_def layout_simps
        RISCV_DDR_BASE_def PHYS_MEM_SIZE_def KERNEL_PLIC_BASE_def KERNEL_PLIC_SIZE_def KERNEL_UART0_BASE_def
        KERNEL_UART0_SIZE_def KERNEL_DEVICE_MMIO_BASE_def KIVA_TO_PA_def)
qed

end
