(* ===== verification/View.thy ===== *)
theory View imports Trap begin

text \<open>
  What the scheduler relies on: for each routine of the kernel, what it leaves alone when it returns.
  \<open>view\<close> is the part of the state that matters to scheduling: which process each CPU runs, which locks
  are held, the state and saved context of every process, and the ready queue. \<open>ends Q m\<close> says that \<open>Q\<close>
  holds of the result of \<open>m\<close>, if \<open>m\<close> has one. Most routines keep the view, and their lemmas
  (\<open>view_rules\<close>) are applied like the rules of a program logic.
\<close>

section \<open>Results\<close>

definition ends :: "('r \<Rightarrow> bool) \<Rightarrow> halt + 'r \<Rightarrow> bool" where
  "ends Q m \<longleftrightarrow> (\<forall>r. m = Inr r \<longrightarrow> Q r)"

named_theorems view_rules \<open>rules for the goals ends Q m\<close>

lemma ends_Inr [simp]: "ends Q (Inr r) \<longleftrightarrow> Q r"
  by (simp add: ends_def)

lemma ends_Inl [simp]: "ends Q (Inl e)"
  by (simp add: ends_def)

lemma ends_bind [view_rules]: "ends (\<lambda>r. ends Q (f r)) m \<Longrightarrow> ends Q (kbind m f)"
  by (cases m) (simp_all add: ends_def)

lemma ends_if [view_rules]: "(b \<Longrightarrow> ends Q m) \<Longrightarrow> (\<not> b \<Longrightarrow> ends Q n) \<Longrightarrow> ends Q (if b then m else n)"
  by simp

lemma ends_option [view_rules]:
  "(x = None \<Longrightarrow> ends Q m) \<Longrightarrow> (\<And>y. x = Some y \<Longrightarrow> ends Q (f y)) \<Longrightarrow> ends Q (case x of None \<Rightarrow> m | Some y \<Rightarrow> f y)"
  by (simp split: option.split)

lemma ends_mono: "ends P m \<Longrightarrow> (\<And>r. P r \<Longrightarrow> Q r) \<Longrightarrow> ends Q m"
  by (simp add: ends_def)

lemma endsD: "ends Q m \<Longrightarrow> m = Inr r \<Longrightarrow> Q r"
  by (simp add: ends_def)

lemma ends_any: "(\<And>r. Q r) \<Longrightarrow> ends Q m"
  by (simp add: ends_def)

section \<open>The view\<close>

record view =
  v_tp :: nat
  v_curr :: "nat \<Rightarrow> nat option"
  v_held :: "lock_id set"
  v_noff :: "nat \<Rightarrow> int"
  v_state :: "nat \<Rightarrow> procstate"
  v_ctx :: "nat \<Rightarrow> saved_context"
  v_queue :: "nat queue"
  v_first :: u64

definition view :: "kst \<Rightarrow> view" where
  "view s = \<lparr>v_tp = tp (smp s), v_curr = (\<lambda>h. c_proc (cpus (smp s) h)), v_held = {l. locked (locks (smp s) l)},
     v_noff = (\<lambda>h. c_noff (cpus (smp s) h)), v_state = (\<lambda>p. p_state (proc_pool s p)),
     v_ctx = (\<lambda>p. p_context (proc_pool s p)), v_queue = task_queue s, v_first = first_sched_ret_addr (img s)\<rparr>"

lemma view_sel:
  "v_tp (view s) = tp (smp s)" "v_curr (view s) h = c_proc (cpus (smp s) h)" "l \<in> v_held (view s) \<longleftrightarrow> locked (locks (smp s) l)"
  "v_noff (view s) h = c_noff (cpus (smp s) h)" "v_state (view s) p = p_state (proc_pool s p)"
  "v_ctx (view s) p = p_context (proc_pool s p)" "v_queue (view s) = task_queue s" "v_first (view s) = first_sched_ret_addr (img s)"
  by (simp_all add: view_def)

lemma view_ignores [simp]:
  "view (s\<lparr>mem := x1\<rparr>) = view s" "view (s\<lparr>freelist := x2\<rparr>) = view s" "view (s\<lparr>allocs := x3\<rparr>) = view s"
  "view (s\<lparr>mms := x4\<rparr>) = view s" "view (s\<lparr>vmas := x5\<rparr>) = view s" "view (s\<lparr>next_pid := x6\<rparr>) = view s"
  "view (s\<lparr>cons := x7\<rparr>) = view s" "view (s\<lparr>uart_in := x8\<rparr>) = view s" "view (s\<lparr>uart_out := x9\<rparr>) = view s"
  "view (s\<lparr>plic_in := x10\<rparr>) = view s" "view (s\<lparr>mmio := x11\<rparr>) = view s" "view (s\<lparr>regs := x12\<rparr>) = view s"
  "view (s\<lparr>cycle := x13\<rparr>) = view s"
  by (simp_all add: view_def)

lemma view_idem [simp]:
  "v\<lparr>v_held := v_held v, v_noff := v_noff v\<rparr> = (v :: view)" "v\<lparr>v_held := v_held v\<rparr> = v" "v\<lparr>v_noff := v_noff v\<rparr> = v"
  by simp_all

lemma view_upd_proc:
  "view (upd_proc p f s) = (view s)\<lparr>v_state := (v_state (view s))(p := p_state (f (proc_pool s p))),
     v_ctx := (v_ctx (view s))(p := p_context (f (proc_pool s p)))\<rparr>"
  by (auto simp: view_def upd_proc_def)

lemma view_upd_proc_keep:
  "p_state (f (proc_pool s p)) = p_state (proc_pool s p) \<Longrightarrow> p_context (f (proc_pool s p)) = p_context (proc_pool s p) \<Longrightarrow>
   view (upd_proc p f s) = view s"
  by (simp add: view_upd_proc) (auto simp: view_def)

lemma view_upd [simp]:
  "view (upd_mm a f s) = view s" "view (upd_vma a g s) = view s" "view (upd_alloc A h s) = view s"
  "view (upd_cons k s) = view s"
  by (simp_all add: upd_mm_def upd_vma_def upd_alloc_def upd_cons_def)

section \<open>Locks\<close>

lemma keep_rule: "ends (\<lambda>t. view t = view s) m \<Longrightarrow> (\<And>t. view t = view s \<Longrightarrow> Q t) \<Longrightarrow> ends Q m"
  by (simp add: ends_def)

lemma keep2_rule: "ends (\<lambda>(r, t). view t = view s) m \<Longrightarrow> (\<And>r t. view t = view s \<Longrightarrow> Q (r, t)) \<Longrightarrow> ends Q m"
  by (auto simp: ends_def)

lemma acquire_Inr:
  "acquire l m = Inr m' \<Longrightarrow> \<not> locked (locks m l) \<and> tp m' = tp m \<and> (\<forall>h. c_proc (cpus m' h) = c_proc (cpus m h)) \<and>
     {l. locked (locks m' l)} = insert l {l. locked (locks m l)} \<and>
     (\<lambda>h. c_noff (cpus m' h)) = (\<lambda>h. c_noff (cpus m h))(tp m := 1 + c_noff (cpus m (tp m)))"
  by (auto simp: acquire_def push_off_def holding_def cpu_ops Let_def res_simps fun_eq_iff split: if_splits)

lemma release_Inr:
  "release l m = Inr m' \<Longrightarrow> locked (locks m l) \<and> tp m' = tp m \<and> (\<forall>h. c_proc (cpus m' h) = c_proc (cpus m h)) \<and>
     {l. locked (locks m' l)} = {l. locked (locks m l)} - {l} \<and>
     (\<lambda>h. c_noff (cpus m' h)) = (\<lambda>h. c_noff (cpus m h))(tp m := c_noff (cpus m (tp m)) - 1)"
  by (auto simp: release_def pop_off_def holding_def cpu_ops Let_def res_simps fun_eq_iff split: if_splits)

abbreviation v_take :: "lock_id \<Rightarrow> view \<Rightarrow> view" where
  "v_take l v \<equiv> v\<lparr>v_held := insert l (v_held v), v_noff := (v_noff v)(v_tp v := 1 + v_noff v (v_tp v))\<rparr>"

abbreviation v_drop :: "lock_id \<Rightarrow> view \<Rightarrow> view" where
  "v_drop l v \<equiv> v\<lparr>v_held := v_held v - {l}, v_noff := (v_noff v)(v_tp v := v_noff v (v_tp v) - 1)\<rparr>"

lemma k_acquire_view [view_rules]:
  "(\<And>t. l \<notin> v_held (view s) \<Longrightarrow> view t = v_take l (view s) \<Longrightarrow> Q t) \<Longrightarrow> ends Q (k_acquire l s)"
  unfolding ends_def k_acquire_def
proof (intro allI impI)
  fix r
  assume Q: "\<And>t. l \<notin> v_held (view s) \<Longrightarrow> view t = v_take l (view s) \<Longrightarrow> Q t"
  assume "kbind (acquire l (smp s)) (\<lambda>m. Inr (s\<lparr>smp := m\<rparr>)) = Inr r"
  then obtain m where m: "acquire l (smp s) = Inr m" and r: "r = s\<lparr>smp := m\<rparr>" by (auto simp: res_simps)
  show "Q r" by (rule Q) (use acquire_Inr [OF m] in \<open>simp_all add: view_def r\<close>)
qed

lemma k_release_view [view_rules]:
  "(\<And>t. l \<in> v_held (view s) \<Longrightarrow> view t = v_drop l (view s) \<Longrightarrow> Q t) \<Longrightarrow> ends Q (k_release l s)"
  unfolding ends_def k_release_def
proof (intro allI impI)
  fix r
  assume Q: "\<And>t. l \<in> v_held (view s) \<Longrightarrow> view t = v_drop l (view s) \<Longrightarrow> Q t"
  assume "kbind (release l (smp s)) (\<lambda>m. Inr (s\<lparr>smp := m\<rparr>)) = Inr r"
  then obtain m where m: "release l (smp s) = Inr m" and r: "r = s\<lparr>smp := m\<rparr>" by (auto simp: res_simps)
  show "Q r" by (rule Q) (use release_Inr [OF m] in \<open>simp_all add: view_def r\<close>)
qed

lemma curr_proc_view [view_rules]:
  "(\<And>p. v_tp (view s) < NCPU \<Longrightarrow> v_curr (view s) (v_tp (view s)) = Some p \<Longrightarrow> Q p) \<Longrightarrow> ends Q (curr_proc s)"
  by (auto simp: ends_def curr_proc_def mycpu_def view_sel split: if_splits option.splits)

lemma mycpu_view [view_rules]:
  "(v_tp (view s) < NCPU \<Longrightarrow> Q (v_tp (view s))) \<Longrightarrow> ends Q (mycpu (smp s))"
  by (auto simp: ends_def mycpu_def view_sel split: if_splits)

lemma holding_view [view_rules]:
  "(\<And>h. (h \<Longrightarrow> l \<in> v_held (view s)) \<Longrightarrow> Q h) \<Longrightarrow> ends Q (holding l (smp s))"
  by (auto simp: ends_def holding_def mycpu_def view_sel res_simps split: if_splits)

section \<open>Memory\<close>

lemma load_view [view_rules]:
  "(\<And>x. Q8 x) \<Longrightarrow> ends Q8 (load8 a s)" "(\<And>x. Q16 x) \<Longrightarrow> ends Q16 (load16 a s)"
  "(\<And>x. Q32 x) \<Longrightarrow> ends Q32 (load32 a s)" "(\<And>x. Q64 x) \<Longrightarrow> ends Q64 (load64 a s)"
  by (simp_all add: ends_def)

lemma store_view [view_rules]:
  "(\<And>t. view t = view s \<Longrightarrow> Q t) \<Longrightarrow> ends Q (store8 a v s)"
  "(\<And>t. view t = view s \<Longrightarrow> Q t) \<Longrightarrow> ends Q (store32 a w s)"
  "(\<And>t. view t = view s \<Longrightarrow> Q t) \<Longrightarrow> ends Q (store64 a x s)"
  "(\<And>t. view t = view s \<Longrightarrow> Q t) \<Longrightarrow> ends Q (k_memset a c n s)"
  "(\<And>t. view t = view s \<Longrightarrow> Q t) \<Longrightarrow> ends Q (k_memmove a b n s)"
  by (simp_all add: store8_def store32_def store64_def k_memset_def k_memmove_def)

lemma kfold_view:
  assumes "\<And>i s. i \<in> set is \<Longrightarrow> ends (\<lambda>t. view t = view s) (f i s)"
  shows "ends (\<lambda>t. view t = view s) (kfold f is s)"
  using assms
proof (induction "is" arbitrary: s)
  case (Cons i "is")
  have "ends (\<lambda>t. view t = view s) (f i s)" using Cons.prems by simp
  then have "ends (\<lambda>t. ends (\<lambda>u. view u = view s) (kfold f is t)) (f i s)"
    by (rule keep_rule) (use Cons.IH Cons.prems in \<open>metis list.set_intros(2)\<close>)
  then show ?case by (simp add: ends_bind)
qed simp

lemma kfold_view2:
  assumes "\<And>i r s. i \<in> set is \<Longrightarrow> ends (\<lambda>(r, t). view t = view s) (f i (r, s))"
  shows "ends (\<lambda>(r, t). view t = view s) (kfold f is (r, s))"
  using assms
proof (induction "is" arbitrary: r s)
  case (Cons i "is")
  have "ends (\<lambda>(r, t). view t = view s) (f i (r, s))" using Cons.prems by simp
  then have "ends (\<lambda>u. ends (\<lambda>(r, t). view t = view s) (kfold f is u)) (f i (r, s))"
    by (rule keep2_rule) (use Cons.IH Cons.prems in \<open>metis list.set_intros(2)\<close>)
  then show ?case by (simp add: ends_bind)
qed simp

section \<open>Allocators\<close>

lemma kfreepage_view [THEN keep_rule, view_rules]: "ends (\<lambda>t. view t = view s) (kfreepage pa s)"
  by (auto simp: kfreepage_def Let_def intro!: view_rules)

lemma kallocpage_view [THEN keep2_rule, view_rules]: "ends (\<lambda>(r, t). view t = view s) (kallocpage s)"
  by (auto simp: kallocpage_def Let_def intro!: view_rules)

lemma bits_view [view_rules]:
  "(\<And>t. view t = view s \<Longrightarrow> Q t) \<Longrightarrow> ends Q (bit_set bm i s)"
  "(\<And>t. view t = view s \<Longrightarrow> Q t) \<Longrightarrow> ends Q (bit_clear bm i s)"
  "(\<And>x. R x) \<Longrightarrow> ends R (is_bit_set bm i s)"
  by (auto simp: bit_set_def bit_clear_def is_bit_set_def intro!: view_rules)

lemma kalloc_scan_view: "ends (\<lambda>(r, t). view t = v_drop (L_alloc A) (view s)) (kalloc_scan A is s)"
  by (induction "is" arbitrary: s) (auto simp: Let_def intro!: view_rules)

lemma kalloc_view [THEN keep2_rule, view_rules]: "ends (\<lambda>(r, t). view t = view s) (kalloc A s)"
  by (auto simp: kalloc_def intro!: view_rules ends_mono [OF kalloc_scan_view])

lemma kfree_view [THEN keep_rule, view_rules]: "ends (\<lambda>t. view t = view s) (kfree A obj s)"
  by (auto simp: kfree_def Let_def intro!: view_rules)

section \<open>Address spaces\<close>

lemma walk_from_view [OF refl, THEN keep2_rule, view_rules]:
  "view s = v \<Longrightarrow> ends (\<lambda>(r, t). view t = v) (walk_from l pt va alloc s)"
  by (induction l arbitrary: pt s) (auto simp: Let_def intro!: view_rules)

lemma walk_view [THEN keep2_rule, view_rules]: "ends (\<lambda>(r, t). view t = view s) (walk mm va alloc s)"
  by (auto simp: walk_def intro!: view_rules)

lemma walkaddr_view [THEN keep2_rule, view_rules]: "ends (\<lambda>(r, t). view t = view s) (walkaddr mm va s)"
  by (auto simp: walkaddr_def intro!: view_rules)

lemma useraddr_view [THEN keep2_rule, view_rules]: "ends (\<lambda>(r, t). view t = view s) (useraddr mm va s)"
  by (auto simp: useraddr_def intro!: view_rules)

lemma mm_create_vma_view [THEN keep2_rule, view_rules]: "ends (\<lambda>(r, t). view t = view s) (mm_create_vma mm s)"
  by (auto simp: mm_create_vma_def intro!: view_rules)

text \<open>A new address space has a new lock, which is not the one of a routine that is running.\<close>

lemma view_spinlock_init: "view (k_spinlock_init l s) = (view s)\<lparr>v_held := v_held (view s) - {l}\<rparr>"
  by (auto simp: view_def k_spinlock_init_def spinlock_init_def)

definition no_mm_held :: "view \<Rightarrow> bool" where "no_mm_held v \<longleftrightarrow> (\<forall>mm. L_mm mm \<notin> v_held v)"

lemma mm_create_view [THEN keep2_rule, view_rules]:
  "no_mm_held (view s) \<Longrightarrow> ends (\<lambda>(r, t). view t = view s) (mm_create s)"
  by (auto simp: mm_create_def Let_def view_spinlock_init no_mm_held_def intro!: view_rules)

lemma freevma_page_view [THEN keep_rule, view_rules]: "ends (\<lambda>t. view t = view s) (freevma_page mm b va s)"
  by (auto simp: freevma_page_def intro!: view_rules)

lemma freevma_view [THEN keep_rule, view_rules]: "ends (\<lambda>t. view t = view s) (freevma vma b s)"
  by (auto simp: freevma_def Let_def intro!: view_rules kfold_view)

lemma mm_free_loop_view [OF refl, THEN keep_rule, view_rules]:
  "view s = v \<Longrightarrow> ends (\<lambda>t. view t = v) (mm_free_loop n vma s)"
  by (induction n arbitrary: vma s) (auto simp: Let_def intro!: view_rules)

lemma mm_free_pages_view [THEN keep_rule, view_rules]: "ends (\<lambda>t. view t = view s) (mm_free_pages mm s)"
  by (auto simp: mm_free_pages_def intro!: view_rules)

lemma mm_free_view [THEN keep_rule, view_rules]: "ends (\<lambda>t. view t = view s) (mm_free mm s)"
  by (auto simp: mm_free_def Let_def intro!: view_rules)

lemma map_loop_view [OF refl, THEN keep2_rule, view_rules]:
  "view s = v \<Longrightarrow> ends (\<lambda>(r, t). view t = v) (map_loop vma vas s)"
  by (induction vas arbitrary: s) (auto simp: Let_def intro!: view_rules)

lemma link_vma_view [simp]: "view (link_vma mm vma s) = view s"
  by (simp add: link_vma_def)

lemma mm_mappages_view [THEN keep2_rule, view_rules]: "ends (\<lambda>(r, t). view t = view s) (mm_mappages vma s)"
  by (auto simp: mm_mappages_def Let_def intro!: view_rules)

lemma view_emit [simp]: "view (emit bs s) = view s"
  by (simp add: emit_def)

lemma printf_view [THEN keep_rule, view_rules]: "ends (\<lambda>t. view t = view s) (printf fmt ap s)"
  by (auto simp: ends_def dest!: printf_Inr)

lemma vm_print_walk_view [THEN keep_rule, view_rules]: "ends (\<lambda>t. view t = view s) (vm_print_walk k va pgt nokva s)"
proof (induction k arbitrary: va pgt nokva s)
  case (Suc k)
  show ?case unfolding vm_print_walk.simps Let_def
    by (intro kfold_view ends_bind load_view ends_if printf_view) (auto intro: Suc.IH [THEN keep_rule])
qed simp

lemma vm_print_view [THEN keep_rule, view_rules]: "ends (\<lambda>t. view t = view s) (vm_print pgt s)"
  by (auto simp: vm_print_def intro!: view_rules)

lemma mm_mappagesat_view [THEN keep2_rule, view_rules]:
  "ends (\<lambda>(r, t). view t = view s) (mm_mappagesat mm va pa fl b s)"
  by (auto simp: mm_mappagesat_def Let_def intro!: view_rules)

lemma copy_page_view [THEN keep_rule, view_rules]: "ends (\<lambda>t. view t = view s) (copy_page a b va s)"
  by (auto simp: copy_page_def intro!: view_rules)

lemma mm_copy_loop_view [OF refl, THEN keep2_rule, view_rules]:
  "view s = v \<Longrightarrow> ends (\<lambda>(r, t). view t = v) (mm_copy_loop n a b vma s)"
  by (induction n arbitrary: vma s) (auto simp: Let_def intro!: view_rules kfold_view [THEN keep_rule])

lemma mm_copy_view [THEN keep2_rule, view_rules]: "ends (\<lambda>(r, t). view t = view s) (mm_copy a b s)"
  by (auto simp: mm_copy_def intro!: view_rules)

section \<open>User memory\<close>

lemma copy_to_user_view [OF refl, THEN keep2_rule, view_rules]:
  "view s = v \<Longrightarrow> ends (\<lambda>(r, t). view t = v) (copy_to_user mm d a n s)"
proof (induction "unat n" arbitrary: d a n s rule: less_induct)
  case less
  then show ?case
    by (subst copy_to_user.simps) (auto simp: Let_def chunk_shrinks intro!: view_rules)
qed

lemma copy_from_user_view [OF refl, THEN keep2_rule, view_rules]:
  "view s = v \<Longrightarrow> ends (\<lambda>(r, t). view t = v) (copy_from_user mm d a n s)"
proof (induction "unat n" arbitrary: d a n s rule: less_induct)
  case less
  then show ?case
    by (subst copy_from_user.simps) (auto simp: Let_def chunk_shrinks intro!: view_rules)
qed

lemma copystr_page_view [OF refl, THEN keep2_rule, view_rules]:
  "view s = v \<Longrightarrow> ends (\<lambda>(r, t). view t = v) (copystr_page n d p len s)"
  by (induction n arbitrary: d p len s) (auto intro!: view_rules)

lemma copystr_loop_view [OF refl, THEN keep2_rule, view_rules]:
  "view s = v \<Longrightarrow> ends (\<lambda>(r, t). view t = v) (copystr_loop mm d a n len s)"
proof (induction "unat n" arbitrary: d a n len s rule: less_induct)
  case less
  then show ?case
    by (subst copystr_loop.simps) (auto simp: Let_def chunk_shrinks intro!: view_rules)
qed

lemma copystr_from_user_view [THEN keep2_rule, view_rules]:
  "ends (\<lambda>(r, t). view t = view s) (copystr_from_user mm d a n s)"
  by (auto simp: copystr_from_user_def intro!: view_rules)

section \<open>Output and devices\<close>

lemma view_consputc [simp]: "view (consputc c s) = view s" "view (uart_putchar c s) = view s"
  by (simp_all add: consputc_eq uart_putchar_eq)

lemma view_intr [simp]: "view (k_intr_on s) = view s" "view (k_intr_off s) = view s"
  by (auto simp: view_def k_intr_on_def k_intr_off_def cpu_ops)

lemma view_regs [simp]:
  "view (w_sepc x s) = view s" "view (w_stvec x s) = view s" "view (w_satp x s) = view s" "view (w_sstatus x s) = view s"
  "view (w_sie x s) = view s" "view (set_next_timer s) = view s" "view (mmio_write a w s) = view s"
  by (auto simp: view_def w_sepc_def w_stvec_def w_satp_def w_sstatus_def w_sie_def set_next_timer_def set_timer_def
      upd_regs_def mmio_write_def Let_def cpu_ops)

lemma view_set_inkernel_trap [simp]: "view (set_inkernel_trap b s) = view s"
  by (auto simp: view_def set_inkernel_trap_def cpu_ops)

lemma load_args_view [view_rules]: "(\<And>x. Q x) \<Longrightarrow> ends Q (load_args tf offs s)"
  by (simp add: ends_def)

lemma print_lines_view [OF refl, THEN keep_rule, view_rules]:
  "view s = v \<Longrightarrow> ends (\<lambda>t. view t = v) (print_lines tf ls s)"
  by (induction ls arbitrary: s) (auto intro!: view_rules)

lemma print_frames_view [THEN keep_rule, view_rules]:
  "ends (\<lambda>t. view t = view s) (print_trapframe tf s)" "ends (\<lambda>t. view t = view s) (print_ktrapframe tf s)"
  by (auto simp: print_trapframe_def print_ktrapframe_def intro!: view_rules)

lemma opt_printf_view:
  "(\<And>t. view t = view s \<Longrightarrow> Q t) \<Longrightarrow> ends Q (if b then printf fmt ap s else Inr s)"
  by (auto intro: view_rules)

lemma print_sysregs_view [THEN keep_rule, view_rules]: "ends (\<lambda>t. view t = view s) (print_sysregs sip b s)"
  unfolding print_sysregs_def Let_def by (rule ends_bind printf_view opt_printf_view)+ (simp only:)

end
