(* ===== verification/Sched.thy ===== *)
theory Sched imports View begin

text \<open>
  The scheduler's invariant and the routines that change what it speaks of. \<open>sched_inv\<close> says that the
  ready queue holds exactly the runnable processes that no CPU runs, each once; that a process runs on
  one CPU at most; and that a process that waits can be resumed. \<open>calm\<close> relates the views before and
  after a routine that keeps the locks and the current processes, and puts processes on the queue only
  at its end.
\<close>

section \<open>The invariant\<close>

abbreviation queued :: "view \<Rightarrow> nat list" where "queued v \<equiv> queue_list (v_queue v)"

definition running :: "view \<Rightarrow> nat set" where
  "running v = {p. \<exists>h < NCPU. v_curr v h = Some p}"

definition resumable :: "u64 \<Rightarrow> saved_context \<Rightarrow> bool" where
  "resumable first c = (case c of Ctx ra sp \<Rightarrow> ra = first | In_sched b k \<Rightarrow> k \<noteq> K_exit)"

text \<open>\<open>ex\<close> is a process that is about to leave its CPU, and may have any state.\<close>

definition sched_inv :: "nat option \<Rightarrow> view \<Rightarrow> bool" where
  "sched_inv ex v \<longleftrightarrow>
     queue_inv (v_queue v) \<and> distinct (queued v) \<and>
     (\<forall>p. p \<in> set (queued v) \<longleftrightarrow> p < NPROC \<and> v_state v p = RUNNABLE \<and> p \<notin> running v) \<and>
     (\<forall>p \<in> running v. p < NPROC \<and> (ex = Some p \<or> v_state v p = RUNNING \<or> v_state v p = RUNNABLE)) \<and>
     (\<forall>h h' p. h < NCPU \<longrightarrow> h' < NCPU \<longrightarrow> v_curr v h = Some p \<longrightarrow> v_curr v h' = Some p \<longrightarrow> h = h') \<and>
     (\<forall>p < NPROC. v_state v p = RUNNING \<longrightarrow> p \<in> running v) \<and>
     (\<forall>p < NPROC. v_state v p = RUNNABLE \<or> v_state v p = SLEEPING \<longrightarrow> p \<in> running v \<or> resumable (v_first v) (v_ctx v p))"

definition calm :: "view \<Rightarrow> view \<Rightarrow> bool" where
  "calm v v' \<longleftrightarrow> v_tp v' = v_tp v \<and> v_curr v' = v_curr v \<and> v_held v' = v_held v \<and> v_noff v' = v_noff v \<and>
     v_first v' = v_first v \<and> (\<exists>ps. queued v' = queued v @ ps)"

lemma calm_refl [simp]: "calm v v"
  by (simp add: calm_def)

lemma calm_trans: "calm u v \<Longrightarrow> calm v w \<Longrightarrow> calm u w"
  by (auto simp: calm_def)

lemma sched_inv_locks [simp]:
  "sched_inv ex (v\<lparr>v_held := A, v_noff := B\<rparr>) = sched_inv ex v"
  by (simp add: sched_inv_def running_def)

lemma running_upd [simp]:
  "running (v\<lparr>v_held := A\<rparr>) = running v" "running (v\<lparr>v_noff := B\<rparr>) = running v" "running (v\<lparr>v_state := C\<rparr>) = running v"
  "running (v\<lparr>v_ctx := D\<rparr>) = running v" "running (v\<lparr>v_queue := E\<rparr>) = running v"
  by (simp_all add: running_def)

lemma calm_running: "calm v v' \<Longrightarrow> running v' = running v"
  by (simp add: calm_def running_def)

lemma sched_inv_queue: "sched_inv ex v \<Longrightarrow> queue_inv (v_queue v)"
  by (simp add: sched_inv_def)

lemma sched_inv_idle:
  "sched_inv None v \<Longrightarrow> v_state v p \<noteq> RUNNING \<Longrightarrow> v_state v p \<noteq> RUNNABLE \<Longrightarrow> p \<notin> running v \<and> p \<notin> set (queued v)"
  by (auto simp: sched_inv_def)

text \<open>What keeps it: a process put on the queue, and changes to processes that are neither runnable nor waiting.\<close>

lemma sched_inv_ready:
  assumes "sched_inv None v" and "p < NPROC" and "p \<notin> running v" and "p \<notin> set (queued v)"
    and "resumable (v_first v) (v_ctx v' p)" and "queue_inv (v_queue v')" and "queued v' = queued v @ [p]"
    and "v_curr v' = v_curr v" and "v_first v' = v_first v" and "v_state v' = (v_state v)(p := RUNNABLE)"
    and "\<And>q. q \<noteq> p \<Longrightarrow> v_ctx v' q = v_ctx v q"
  shows "sched_inv None v'"
proof -
  have i: "distinct (queued v)" "\<forall>p. p \<in> set (queued v) \<longleftrightarrow> p < NPROC \<and> v_state v p = RUNNABLE \<and> p \<notin> running v"
    "\<forall>p \<in> running v. p < NPROC \<and> (v_state v p = RUNNING \<or> v_state v p = RUNNABLE)"
    "\<forall>h h' p. h < NCPU \<longrightarrow> h' < NCPU \<longrightarrow> v_curr v h = Some p \<longrightarrow> v_curr v h' = Some p \<longrightarrow> h = h'"
    "\<forall>p < NPROC. v_state v p = RUNNING \<longrightarrow> p \<in> running v"
    "\<forall>p < NPROC. v_state v p = RUNNABLE \<or> v_state v p = SLEEPING \<longrightarrow> p \<in> running v \<or> resumable (v_first v) (v_ctx v p)"
    using assms(1) unfolding sched_inv_def by simp_all
  have r: "running v' = running v" using assms(8) by (simp add: running_def)
  show ?thesis unfolding sched_inv_def r assms(7-10) using i assms(2-6,11) by auto
qed

lemma sched_inv_dormant:
  assumes "sched_inv None v" and "v_state v p \<noteq> RUNNING" and "v_state v p \<noteq> RUNNABLE"
    and "st = UNUSED \<or> st = USED \<or> st = ZOMBIE"
    and "v_curr v' = v_curr v" and "v_first v' = v_first v" and "v_state v' = (v_state v)(p := st)"
    and "\<And>q. q \<noteq> p \<Longrightarrow> v_ctx v' q = v_ctx v q" and "v_queue v' = v_queue v"
  shows "sched_inv None v'"
proof -
  have r: "running v' = running v" using assms(5) by (simp add: running_def)
  show ?thesis using assms(1-4,8) sched_inv_idle [OF assms(1-3)] unfolding sched_inv_def r assms(5-7,9) by auto
qed

section \<open>The queue\<close>

lemma add_task_view [view_rules]:
  assumes "queue_inv (v_queue (view s))"
    and "\<And>t q. queue_inv q \<Longrightarrow> queue_list q = queued (view s) @ [p] \<Longrightarrow> view t = (view s)\<lparr>v_queue := q\<rparr> \<Longrightarrow> Q t"
  shows "ends Q (add_task p s)"
  unfolding ends_def
proof (intro allI impI)
  fix r assume "add_task p s = Inr r"
  then obtain m m' where m: "acquire L_queue (smp s) = Inr m" "release L_queue m = Inr m'"
      and ne: "q_empty (task_queue s) \<or> q_front (task_queue s) \<noteq> q_tail (task_queue s)"
      and r: "r = s\<lparr>smp := m', task_queue := (task_queue s)\<lparr>q_empty := False,
        q_data := (q_data (task_queue s))[q_tail (task_queue s) := p],
        q_tail := (q_tail (task_queue s) + 1) mod NPROC\<rparr>\<rparr>"
    by (auto simp: add_task_def push_queue_def Let_def res_simps split: if_splits)
  have inv: "queue_inv (task_queue s)" using assms(1) by (simp add: view_sel)
  then have "queue_len (task_queue s) < NPROC"
    using ne queue_full_iff [OF inv] queue_len_le [OF inv] by (metis le_neq_implies_less)
  from queue_push_list [OF inv this, of p] show "Q r"
    by (intro assms(2)) (use acquire_Inr [OF m(1)] release_Inr [OF m(2)] in \<open>auto simp: r view_def fun_eq_iff\<close>)
qed

lemma fetch_task_view [view_rules]:
  assumes "queue_inv (v_queue (view s))"
    and "queued (view s) = [] \<Longrightarrow> (\<And>t. view t = view s \<Longrightarrow> Q (None, t))"
    and "\<And>p t q. queue_inv q \<Longrightarrow> queued (view s) = p # queue_list q \<Longrightarrow> view t = (view s)\<lparr>v_queue := q\<rparr> \<Longrightarrow> Q (Some p, t)"
  shows "ends Q (fetch_task s)"
  unfolding ends_def
proof (intro allI impI)
  fix r assume f: "fetch_task s = Inr r"
  have inv: "queue_inv (task_queue s)" using assms(1) by (simp add: view_sel)
  show "Q r"
  proof (cases "q_empty (task_queue s)")
    case True
    with f obtain m m' where m: "acquire L_queue (smp s) = Inr m" "release L_queue m = Inr m'"
        and r: "r = (None, s\<lparr>smp := m', task_queue := task_queue s\<rparr>)"
      by (auto simp: fetch_task_def pop_queue_def Let_def res_simps split: if_splits)
    show ?thesis unfolding r
      by (rule assms(2)) (use acquire_Inr [OF m(1)] release_Inr [OF m(2)] True queue_empty_iff [OF inv] in
        \<open>auto simp: view_def fun_eq_iff\<close>)
  next
    case False
    let ?q1 = "(task_queue s)\<lparr>q_front := (q_front (task_queue s) + 1) mod NPROC\<rparr>"
    let ?q = "if q_front ?q1 = q_tail ?q1 then ?q1\<lparr>q_empty := True\<rparr> else ?q1"
    from f False obtain m m' where m: "acquire L_queue (smp s) = Inr m" "release L_queue m = Inr m'"
        and r: "r = (Some (q_data (task_queue s) ! q_front (task_queue s)), s\<lparr>smp := m', task_queue := ?q\<rparr>)"
      by (auto simp: fetch_task_def pop_queue_def Let_def res_simps)
    show ?thesis unfolding r
      by (rule assms(3) [of ?q])
        (use acquire_Inr [OF m(1)] release_Inr [OF m(2)] queue_pop_list [OF inv False] in
          \<open>auto simp: view_def fun_eq_iff\<close>)
  qed
qed

section \<open>Waking\<close>

lemma wakeup_one_view:
  assumes "sched_inv None (view s)" and "i < NPROC"
  shows "ends (\<lambda>t. sched_inv None (view t) \<and> calm (view s) (view t)) (wakeup_one ch i s)"
proof -
  have "sched_inv None v'"
    if "v_state (view s) i = SLEEPING" "queue_inv (v_queue v')" "queued v' = queued (view s) @ [i]" "v_curr v' = v_curr (view s)"
      "v_first v' = v_first (view s)" "v_state v' = (v_state (view s))(i := RUNNABLE)" "v_ctx v' = v_ctx (view s)" for v'
  proof -
    have n: "i \<notin> running (view s)" "i \<notin> set (queued (view s))"
      using sched_inv_idle [OF assms(1), of i] that(1) by simp_all
    moreover have "resumable (v_first (view s)) (v_ctx (view s) i)"
      using assms that(1) n(1) unfolding sched_inv_def by blast
    ultimately show ?thesis by (intro sched_inv_ready [OF assms]) (simp_all add: that)
  qed
  then show ?thesis unfolding wakeup_one_def
    using sched_inv_queue [OF assms(1)]
    by (auto simp: view_upd_proc view_sel [symmetric] assms(1) calm_def intro!: view_rules)
qed

lemma wakeup_list_view:
  "sched_inv None (view s) \<Longrightarrow> set is \<subseteq> {..<NPROC} \<Longrightarrow>
   ends (\<lambda>t. sched_inv None (view t) \<and> calm (view s) (view t)) (kfold (wakeup_one ch) is s)"
proof (induction "is" arbitrary: s)
  case (Cons i "is")
  have "ends (\<lambda>t. sched_inv None (view t) \<and> calm (view s) (view t)) (wakeup_one ch i s)"
    by (rule wakeup_one_view) (use Cons.prems in auto)
  then have "ends (\<lambda>t. ends (\<lambda>u. sched_inv None (view u) \<and> calm (view s) (view u)) (kfold (wakeup_one ch) is t)) (wakeup_one ch i s)"
    by (rule ends_mono) (use Cons.IH Cons.prems in \<open>auto intro: ends_mono calm_trans\<close>)
  then show ?case by (simp add: ends_bind)
qed simp

text \<open>The rule for a routine that is calm when the invariant holds.\<close>

lemma calm_rule:
  "ends (\<lambda>t. sched_inv None (view t) \<and> calm (view s) (view t)) m \<Longrightarrow>
   (\<And>t. sched_inv None (view t) \<Longrightarrow> calm (view s) (view t) \<Longrightarrow> Q t) \<Longrightarrow> ends Q m"
  by (auto elim: ends_mono)

lemma wakeup_view [THEN calm_rule, view_rules]:
  "sched_inv None (view s) \<Longrightarrow> ends (\<lambda>t. sched_inv None (view t) \<and> calm (view s) (view t)) (wakeup ch s)"
  unfolding wakeup_def by (rule wakeup_list_view) auto

section \<open>Leaving the CPU\<close>

lemma sched_out_view [view_rules]:
  assumes "\<And>p b t. v_tp (view s) < NCPU \<Longrightarrow> v_curr (view s) (v_tp (view s)) = Some p \<Longrightarrow> L_proc p \<in> v_held (view s) \<Longrightarrow>
    v_noff (view s) (v_tp (view s)) = 1 \<Longrightarrow> v_state (view s) p \<noteq> RUNNING \<Longrightarrow>
    view t = (view s)\<lparr>v_ctx := (v_ctx (view s))(p := In_sched b k)\<rparr> \<Longrightarrow> Q t"
  shows "ends Q (sched_out k s)"
  unfolding sched_out_def
  by (auto simp: Let_def view_sel [symmetric] view_upd_proc intro!: view_rules assms)

text \<open>
  The state in which a process has left: it is still the current process of the CPU, with its lock, the
  only one, and not running; the scheduler comes next.
\<close>

definition left_cpu :: "nat \<Rightarrow> view \<Rightarrow> view \<Rightarrow> bool" where
  "left_cpu p v v' \<longleftrightarrow> v_tp v' = v_tp v \<and> v_tp v < NCPU \<and> v_curr v' = v_curr v \<and> v_curr v (v_tp v) = Some p \<and> v_first v' = v_first v \<and>
     v_held v' = insert (L_proc p) (v_held v) \<and> L_proc p \<notin> v_held v \<and> v_noff v' = (v_noff v)(v_tp v := 1 + v_noff v (v_tp v)) \<and>
     sched_inv (Some p) v' \<and> v_state v' p \<noteq> RUNNING \<and>
     (v_state v' p = RUNNABLE \<or> v_state v' p = SLEEPING \<longrightarrow> resumable (v_first v') (v_ctx v' p)) \<and>
     (\<exists>ps. queued v' = queued v @ ps)"

lemma sched_inv_leaving:
  assumes "sched_inv None v" and "p \<in> running v"
  shows "sched_inv (Some p) (v\<lparr>v_held := A, v_noff := B, v_state := (v_state v)(p := st), v_ctx := (v_ctx v)(p := c)\<rparr>)"
  using assms unfolding sched_inv_def by auto

lemma curr_running: "v_curr v (v_tp v) = Some p \<Longrightarrow> v_tp v < NCPU \<Longrightarrow> p \<in> running v"
  by (auto simp: running_def)

lemma yield_out_view:
  assumes "sched_inv None (view s)" and "v_curr (view s) (v_tp (view s)) = Some p" and "k \<noteq> K_exit"
  shows "ends (\<lambda>t. left_cpu p (view s) (view t)) (yield_out k s)"
  unfolding yield_out_def
  using assms
  by (auto simp: view_upd_proc view_sel [symmetric] left_cpu_def resumable_def sched_inv_leaving curr_running intro!: view_rules)

lemma sleep_out_view:
  assumes "sched_inv None (view s)" and "v_curr (view s) (v_tp (view s)) = Some p" and "k \<noteq> K_exit"
    and "view s = v_take lk v" and "lk \<notin> v_held v" and "lk \<noteq> L_proc p"
  shows "ends (\<lambda>t. left_cpu p v (view t)) (sleep_out ch lk k s)"
  unfolding sleep_out_def
  using assms
  by (auto simp: view_upd_proc view_sel [symmetric] left_cpu_def resumable_def sched_inv_leaving curr_running intro!: view_rules)

section \<open>The scheduler's side\<close>

lemma view_set_curr:
  "view (set_curr p s) = (view s)\<lparr>v_curr := (v_curr (view s))(v_tp (view s) := p)\<rparr>"
  by (auto simp: view_def set_curr_def cpu_ops)

lemma view_set_interrupt_on [simp]: "view (set_interrupt_on b s) = view s"
  by (auto simp: view_def set_interrupt_on_def cpu_ops)

lemma running_set_curr:
  assumes "sched_inv ex v" and "v_tp v < NCPU" and "v_curr v (v_tp v) = Some p"
  shows "running (v\<lparr>v_curr := (v_curr v)(v_tp v := None)\<rparr>) = running v - {p}"
proof -
  have "h = v_tp v" if "h < NCPU" "v_curr v h = Some p" for h
    using assms(1) that assms(2,3) unfolding sched_inv_def by blast
  then show ?thesis using assms(3) by (auto simp: running_def) (metis option.inject)
qed

lemma sched_inv_left:
  assumes l: "left_cpu p u v"
  shows "v_state v p \<noteq> RUNNABLE \<Longrightarrow> sched_inv None (v\<lparr>v_curr := (v_curr v)(v_tp v := None)\<rparr>)"
    and "v_state v p = RUNNABLE \<Longrightarrow> queue_inv q \<Longrightarrow> queue_list q = queued v @ [p] \<Longrightarrow>
      sched_inv None (v\<lparr>v_curr := (v_curr v)(v_tp v := None), v_queue := q\<rparr>)"
proof -
  have i: "sched_inv (Some p) v" and st: "v_state v p \<noteq> RUNNING"
      "v_state v p = RUNNABLE \<or> v_state v p = SLEEPING \<longrightarrow> resumable (v_first v) (v_ctx v p)"
      and e: "v_tp v = v_tp u" "v_tp u < NCPU" "v_curr v = v_curr u" "v_curr u (v_tp u) = Some p"
    using l unfolding left_cpu_def by blast+
  then have c: "v_tp v < NCPU" "v_curr v (v_tp v) = Some p" by simp_all
  note r = running_set_curr [OF i c]
  have p: "p \<in> running v" "p < NPROC" using curr_running [OF c(2,1)] i by (auto simp: sched_inv_def)
  have parts: "queue_inv (v_queue v)" "distinct (queued v)"
    "\<forall>p. p \<in> set (queued v) \<longleftrightarrow> p < NPROC \<and> v_state v p = RUNNABLE \<and> p \<notin> running v"
    "\<forall>q \<in> running v. q < NPROC \<and> (p = q \<or> v_state v q = RUNNING \<or> v_state v q = RUNNABLE)"
    "\<forall>h h' p. h < NCPU \<longrightarrow> h' < NCPU \<longrightarrow> v_curr v h = Some p \<longrightarrow> v_curr v h' = Some p \<longrightarrow> h = h'"
    "\<forall>p < NPROC. v_state v p = RUNNING \<longrightarrow> p \<in> running v"
    "\<forall>p < NPROC. v_state v p = RUNNABLE \<or> v_state v p = SLEEPING \<longrightarrow> p \<in> running v \<or> resumable (v_first v) (v_ctx v p)"
    using i unfolding sched_inv_def by simp_all
  show "sched_inv None (v\<lparr>v_curr := (v_curr v)(v_tp v := None)\<rparr>)" if "v_state v p \<noteq> RUNNABLE"
    unfolding sched_inv_def r using parts that st p by auto
  show "sched_inv None (v\<lparr>v_curr := (v_curr v)(v_tp v := None), v_queue := q\<rparr>)"
    if "v_state v p = RUNNABLE" "queue_inv q" "queue_list q = queued v @ [p]"
    unfolding sched_inv_def running_upd r using parts that st p by auto
qed

text \<open>What the end of a round of the scheduler makes of the view in which it began.\<close>

definition gave_up :: "view \<Rightarrow> view \<Rightarrow> bool" where
  "gave_up v v' \<longleftrightarrow> v_tp v' = v_tp v \<and> v_curr v' = (v_curr v)(v_tp v := None) \<and> v_held v' = v_held v \<and>
     v_noff v' = v_noff v \<and> v_first v' = v_first v \<and> sched_inv None v' \<and> (\<exists>ps. queued v' = queued v @ ps)"

lemma scheduler_back_view:
  assumes l: "left_cpu p u (view s)"
  shows "ends (\<lambda>t. gave_up u (view t)) (scheduler_back p s)"
proof -
  have f: "v_tp (view s) = v_tp u" "v_curr (view s) = v_curr u" "v_first (view s) = v_first u"
      "v_held (view s) = insert (L_proc p) (v_held u)" "L_proc p \<notin> v_held u"
      "v_noff (view s) = (v_noff u)(v_tp u := 1 + v_noff u (v_tp u))" "\<exists>ps. queued (view s) = queued u @ ps"
    using l unfolding left_cpu_def by blast+
  have q: "queue_inv (v_queue (view s))" using l unfolding left_cpu_def by (blast intro: sched_inv_queue)
  note k = sched_inv_left [OF l, unfolded f(1,2)]
  show ?thesis unfolding scheduler_back_def gave_up_def
    by (auto simp: view_sel [symmetric] view_set_curr Let_def f k q intro!: view_rules) (use f(7) in auto)
qed

lemma sched_back_view [view_rules]:
  "(\<And>t. view t = view s \<Longrightarrow> L_proc p \<in> v_held (view s) \<Longrightarrow> Q t) \<Longrightarrow> ends Q (sched_back p b s)"
  unfolding sched_back_def Let_def
  using holding_view [of "L_proc p" "set_interrupt_on b s"] by (auto intro!: ends_bind)

lemma yield_back_view [view_rules]:
  "(\<And>t. L_proc p \<in> v_held (view s) \<Longrightarrow> view t = v_drop (L_proc p) (view s) \<Longrightarrow> Q t) \<Longrightarrow> ends Q (yield_back p b s)"
  unfolding yield_back_def by (auto intro!: view_rules)

lemma sleep_back_view [view_rules]:
  "(\<And>t. L_proc p \<in> v_held (view s) \<Longrightarrow> lk \<notin> v_held (view s) - {L_proc p} \<Longrightarrow>
     view t = v_take lk (v_drop (L_proc p) (view s)) \<Longrightarrow> Q t) \<Longrightarrow> ends Q (sleep_back p b lk s)"
  unfolding sleep_back_def by (auto simp: view_upd_proc_keep intro!: view_rules)

lemma push_off_view [view_rules]:
  "(\<And>t. view t = (view s)\<lparr>v_noff := (v_noff (view s))(v_tp (view s) := 1 + v_noff (view s) (v_tp (view s)))\<rparr> \<Longrightarrow> Q t) \<Longrightarrow>
   ends Q (k_push_off s)"
  by (auto simp: ends_def k_push_off_def push_off_def cpu_ops Let_def res_simps view_def fun_eq_iff split: if_splits)

lemma pop_off_view [view_rules]:
  "(\<And>t. view t = (view s)\<lparr>v_noff := (v_noff (view s))(v_tp (view s) := v_noff (view s) (v_tp (view s)) - 1)\<rparr> \<Longrightarrow> Q t) \<Longrightarrow>
   ends Q (k_pop_off s)"
  by (auto simp: ends_def k_pop_off_def pop_off_def cpu_ops Let_def res_simps view_def fun_eq_iff split: if_splits)

lemma all_dead_loop_view [OF refl, THEN keep2_rule, view_rules]:
  "view s = v \<Longrightarrow> ends (\<lambda>(r, t). view t = v) (all_dead_loop is s)"
  by (induction "is" arbitrary: s) (auto simp: Let_def intro!: view_rules)

lemma all_dead_view [THEN keep2_rule, view_rules]: "ends (\<lambda>(r, t). view t = view s) (all_dead s)"
  unfolding all_dead_def by (auto intro!: view_rules)

text \<open>A process has been picked: its lock is held and it runs here.\<close>

definition picked :: "nat \<Rightarrow> view \<Rightarrow> view \<Rightarrow> bool" where
  "picked p v v' \<longleftrightarrow> v_tp v' = v_tp v \<and> v_tp v < NCPU \<and> v_curr v' = (v_curr v)(v_tp v := Some p) \<and> v_first v' = v_first v \<and>
     v_held v' = insert (L_proc p) (v_held v) \<and> L_proc p \<notin> v_held v \<and> v_noff v' = (v_noff v)(v_tp v := 1 + v_noff v (v_tp v)) \<and>
     sched_inv None v' \<and> v_state v' p = RUNNING \<and> resumable (v_first v') (v_ctx v' p) \<and> queued v = p # queued v'"

lemma sched_inv_picked:
  assumes i: "sched_inv None v" and q: "queue_inv (v_queue v')" "queued v = p # queued v'" and c: "v_tp v < NCPU" "v_curr v (v_tp v) = None"
    and h: "L_proc p \<notin> v_held v" "v_held v' = insert (L_proc p) (v_held v)"
      "v_noff v' = (v_noff v)(v_tp v := 1 + v_noff v (v_tp v))"
    and f: "v_tp v' = v_tp v" "v_first v' = v_first v" "v_ctx v' = v_ctx v"
      "v_state v' = (v_state v)(p := RUNNING)" "v_curr v' = (v_curr v)(v_tp v := Some p)"
  shows "picked p v v'"
proof -
  have parts: "distinct (queued v)"
    "\<forall>p. p \<in> set (queued v) \<longleftrightarrow> p < NPROC \<and> v_state v p = RUNNABLE \<and> p \<notin> running v"
    "\<forall>q \<in> running v. q < NPROC \<and> (v_state v q = RUNNING \<or> v_state v q = RUNNABLE)"
    "\<forall>h h' p. h < NCPU \<longrightarrow> h' < NCPU \<longrightarrow> v_curr v h = Some p \<longrightarrow> v_curr v h' = Some p \<longrightarrow> h = h'"
    "\<forall>p < NPROC. v_state v p = RUNNING \<longrightarrow> p \<in> running v"
    "\<forall>p < NPROC. v_state v p = RUNNABLE \<or> v_state v p = SLEEPING \<longrightarrow> p \<in> running v \<or> resumable (v_first v) (v_ctx v p)"
    using i unfolding sched_inv_def by simp_all
  have p: "p < NPROC" "v_state v p = RUNNABLE" "p \<notin> running v" "p \<notin> set (queued v')"
    using parts(1,2) q(2) by auto
  have r: "running v' = insert p (running v)"
    using c f(5) by (auto simp: running_def split: if_splits) (metis option.distinct(1))
  have m: "x \<in> set (queued v') \<longleftrightarrow> x \<noteq> p \<and> x \<in> set (queued v)" for x
    using p(4) q(2) parts(1) by auto
  have one: "h = h'" if "h < NCPU" "h' < NCPU" "v_curr v' h = Some x" "v_curr v' h' = Some x" for h h' x
    using that parts(4) p(3) by (auto simp: f running_def split: if_splits)
  have "sched_inv None v'" unfolding sched_inv_def r
  proof (intro conjI)
    show "\<forall>x. x \<in> set (queued v') \<longleftrightarrow> x < NPROC \<and> v_state v' x = RUNNABLE \<and> x \<notin> insert p (running v)"
      using m parts(2) by (simp add: f)
    show "\<forall>h h' p. h < NCPU \<longrightarrow> h' < NCPU \<longrightarrow> v_curr v' h = Some p \<longrightarrow> v_curr v' h' = Some p \<longrightarrow> h = h'"
      using one by blast
  qed (use parts(1,3,5,6) p q in \<open>auto simp: f\<close>)
  moreover have "resumable (v_first v) (v_ctx v p)" using parts(6) p by blast
  ultimately show ?thesis using q(2) c h f by (simp add: picked_def)
qed

lemma scheduler_pick_view:
  assumes i: "sched_inv None (view s)" and "v_curr (view s) (v_tp (view s)) = None"
  shows "ends (\<lambda>(r, t). case r of None \<Rightarrow> view t = view s \<and> queued (view s) = [] | Some p \<Rightarrow> picked p (view s) (view t)) (scheduler_pick s)"
  unfolding scheduler_pick_def
  using assms sched_inv_queue [OF i]
  by (auto simp: view_set_curr view_upd_proc Let_def view_sel [symmetric] intro!: view_rules
      simp: sched_inv_picked [OF i])

end
