(* ===== verification/SchedCalls.thy ===== *)
theory SchedCalls imports Sched begin

text \<open>
  The process operations, the console, the loader, the system calls and the trap handlers under the
  scheduler's invariant: each either is calm, or has left its CPU.
\<close>

lemma proc_pool_upd_proc [simp]:
  "proc_pool (upd_proc p f s) q = (if q = p then f (proc_pool s p) else proc_pool s q)"
  by (simp add: upd_proc_def)

lemma other_fields_upd_proc [simp]:
  "img (upd_proc p f s) = img s" "smp (upd_proc p f s) = smp s"
  by (simp_all add: upd_proc_def)

lemma view_idem_proc [simp]:
  "v\<lparr>v_state := v_state v, v_ctx := v_ctx v\<rparr> = (v :: view)" "v\<lparr>v_state := f, v_ctx := v_ctx v\<rparr> = (v\<lparr>v_state := f\<rparr> :: view)"
  by simp_all

lemmas view_proc = view_upd_proc view_sel [symmetric]

section \<open>Creating and freeing processes\<close>

lemma find_unused_view:
  "view s = v \<Longrightarrow> set is \<subseteq> {..<NPROC} \<Longrightarrow>
   ends (\<lambda>(r, t). case r of None \<Rightarrow> view t = v
     | Some p \<Rightarrow> p < NPROC \<and> v_state v p = UNUSED \<and> L_proc p \<notin> v_held v \<and> view t = v_take (L_proc p) v) (find_unused is s)"
  by (induction "is" arbitrary: s) (auto simp: view_sel [symmetric] intro!: view_rules)

lemma allocpid_view [THEN keep2_rule, view_rules]: "ends (\<lambda>(r, t). view t = view s) (allocpid s)"
  unfolding allocpid_def by (auto simp: Let_def intro!: view_rules)

lemma no_mm_held_upd [simp]:
  "no_mm_held (v\<lparr>v_held := A\<rparr>) \<longleftrightarrow> (\<forall>mm. L_mm mm \<notin> A)" "no_mm_held (v\<lparr>v_noff := B\<rparr>) = no_mm_held v"
  "no_mm_held (v\<lparr>v_state := C\<rparr>) = no_mm_held v" "no_mm_held (v\<lparr>v_ctx := D\<rparr>) = no_mm_held v"
  by (simp_all add: no_mm_held_def)

lemma allocproc_view [view_rules]:
  assumes "no_mm_held (view s)" and "\<And>t. view t = view s \<Longrightarrow> Q (None, t)"
    and "\<And>p t. p < NPROC \<Longrightarrow> v_state (view s) p = UNUSED \<Longrightarrow> L_proc p \<notin> v_held (view s) \<Longrightarrow>
      \<exists>sp. view t = (v_take (L_proc p) (view s))\<lparr>v_state := (v_state (view s))(p := USED),
        v_ctx := (v_ctx (view s))(p := Ctx (v_first (view s)) sp)\<rparr> \<Longrightarrow> Q (Some p, t)"
  shows "ends Q (allocproc s)"
proof -
  have m: "\<forall>mm. L_mm mm \<notin> v_held (view s)" using assms(1) by (simp add: no_mm_held_def)
  show ?thesis unfolding allocproc_def
    by (rule ends_bind, rule ends_mono [OF find_unused_view [OF refl]],
        auto simp: view_proc Let_def m intro!: view_rules assms(2) assms(3)) (rule exI, rule refl)
qed

lemma freeproc_view [view_rules]:
  assumes "\<And>t. view t = (view s)\<lparr>v_state := (v_state (view s))(p := UNUSED)\<rparr> \<Longrightarrow> Q t"
  shows "ends Q (freeproc p s)"
  unfolding freeproc_def by (auto simp: view_proc Let_def intro!: view_rules assms)

lemma fork_view:
  assumes i: "sched_inv None (view s)" and m: "no_mm_held (view s)"
  shows "ends (\<lambda>(r, t). sched_inv None (view t) \<and> calm (view s) (view t)) (fork s)"
proof -
  have new: "sched_inv None v'"
    if "p < NPROC" "v_state (view s) p = UNUSED" "queue_inv (v_queue v')" "queued v' = queued (view s) @ [p]"
      "v_curr v' = v_curr (view s)" "v_first v' = v_first (view s)" "v_state v' = (v_state (view s))(p := RUNNABLE)"
      "v_ctx v' = (v_ctx (view s))(p := Ctx (v_first (view s)) sp)" for p v' sp
    by (rule sched_inv_ready [OF i that(1)])
      (use sched_inv_idle [OF i, of p] that in \<open>simp_all add: resumable_def\<close>)
  show ?thesis unfolding fork_def
    using sched_inv_queue [OF i]
    by (auto simp: view_proc calm_def new m intro!: view_rules)
qed

lemma wait_scan_view:
  "view s = v \<Longrightarrow> sched_inv None v \<Longrightarrow>
   ends (\<lambda>((reaped, kids), t). sched_inv None (view t) \<and>
     (case reaped of None \<Rightarrow> view t = v
      | Some c \<Rightarrow> L_wait \<in> v_held v \<and> calm (v_drop L_wait v) (view t))) (wait_scan pid code p kids is s)"
proof (induction "is" arbitrary: kids s)
  case (Cons i "is")
  have z: "sched_inv None v'"
    if "v_state v i = ZOMBIE" "v_curr v' = v_curr v" "v_first v' = v_first v"
      "v_state v' = (v_state v)(i := UNUSED)" "v_ctx v' = v_ctx v" "v_queue v' = v_queue v" for v'
    by (rule sched_inv_dormant [OF Cons.prems(2), of i UNUSED]) (use that in simp_all)
  show ?case
    by (auto simp: Cons.prems view_proc calm_def z Let_def intro!: view_rules Cons.IH)
qed simp

section \<open>Waiting and exiting\<close>

text \<open>
  The outcome of a call made by the current process \<open>p\<close> when the view was \<open>v\<close>: it has returned and was
  calm, or \<open>p\<close> has left the CPU.
\<close>

definition outcome :: "nat \<Rightarrow> view \<Rightarrow> 'a co \<times> kst \<Rightarrow> bool" where
  "outcome p v = (\<lambda>(r, t). case r of Ret x \<Rightarrow> sched_inv None (view t) \<and> calm v (view t) | Switched \<Rightarrow> left_cpu p v (view t))"

lemma outcome_simps [simp]:
  "outcome p v (Ret x, t) \<longleftrightarrow> sched_inv None (view t) \<and> calm v (view t)"
  "outcome p v (Switched, t) \<longleftrightarrow> left_cpu p v (view t)"
  by (simp_all add: outcome_def)

lemma wait_round_view:
  assumes "sched_inv None v" and "v_curr v (v_tp v) = Some p" and "L_wait \<notin> v_held v" and s: "view s = v_take L_wait v"
  shows "ends (outcome p v) (wait_round p pid code s)"
proof -
  have i: "sched_inv None (view s)" using assms by simp
  have w: "ends (\<lambda>t. left_cpu p v (view t)) (sleep_out (Ch_proc p) L_wait (K_wait pid code) t)" if "view t = view s" for t
    by (rule sleep_out_view) (use assms that in simp_all)
  show ?thesis unfolding wait_round_def
    by (rule ends_bind, rule ends_mono [OF wait_scan_view [OF refl i]])
      (auto simp: assms(1,3) s calm_def intro!: view_rules ends_mono [OF w])
qed

lemma wait_view:
  assumes "sched_inv None (view s)" and "v_curr (view s) (v_tp (view s)) = Some p"
  shows "ends (outcome p (view s)) (wait pid code s)"
  unfolding wait_def using assms by (auto intro!: view_rules wait_round_view)

lemma reparent_one_view [THEN keep_rule, view_rules]: "ends (\<lambda>t. view t = view s) (reparent_one p i s)"
  unfolding reparent_one_def by (auto simp: view_proc Let_def intro!: view_rules)

lemma left_cpu_calm: "calm u v \<Longrightarrow> left_cpu p v w \<Longrightarrow> left_cpu p u w"
  unfolding calm_def left_cpu_def by (elim conjE exE) (intro conjI; simp)

lemma exit_tail_view:
  assumes i: "sched_inv None u" and c: "v_curr u (v_tp u) = Some p" and s: "view s = u" and w: "L_wait \<in> v_held u"
  shows "ends (\<lambda>t. left_cpu p (v_drop L_wait u) (view t))
    (kbind (k_acquire (L_proc p) s) (\<lambda>s. kbind (kfold (reparent_one p) [0..<NPROC] s) (\<lambda>s.
     let s = upd_proc p (\<lambda>q. q\<lparr>p_exit_code := scast code\<rparr>) s;
         s = upd_proc p (\<lambda>q. q\<lparr>p_state := ZOMBIE\<rparr>) s in
     kbind (k_release L_wait s) (sched_out K_exit))))"
proof -
  have left: "sched_inv (Some p) v'"
    if "v_tp u < NCPU" "v_curr v' = v_curr u" "v_first v' = v_first u" "v_queue v' = v_queue u"
      "v_state v' = (v_state u)(p := ZOMBIE)" "v_ctx v' = (v_ctx u)(p := x)" for x v'
    using sched_inv_leaving [OF i curr_running [OF c that(1)], where A = "v_held v'" and B = "v_noff v'" and st = ZOMBIE and c = x] that(2-6)
    by (simp add: sched_inv_def running_def)
  show ?thesis
    by (auto simp: view_proc s w c left left_cpu_def intro!: view_rules kfold_view [THEN keep_rule])
qed

lemma exit_out_view:
  assumes i: "sched_inv None (view s)" and c: "v_curr (view s) (v_tp (view s)) = Some p"
  shows "ends (\<lambda>t. left_cpu p (view s) (view t)) (exit_out code s)"
  unfolding exit_out_def
proof (rule ends_bind, rule curr_proc_view, rule ends_bind, rule k_acquire_view, rule ends_bind, rule wakeup_view)
  fix q t
  assume "L_wait \<notin> v_held (view s)" and t: "view t = v_take L_wait (view s)"
  then show "sched_inv None (view t)" using i by simp
  fix u
  assume u: "sched_inv None (view u)" "calm (view t) (view u)" and "v_curr (view s) (v_tp (view s)) = Some q"
  then have q: "q = p" and f: "v_curr (view u) (v_tp (view u)) = Some p" "L_wait \<in> v_held (view u)"
    using c t by (simp_all add: calm_def)
  have cm: "calm (view s) (v_drop L_wait (view u))"
    using u(2) t \<open>L_wait \<notin> v_held (view s)\<close> by (simp add: calm_def)
  show "ends (\<lambda>t. left_cpu p (view s) (view t))
    (kbind (k_acquire (L_proc q) u) (\<lambda>s. kbind (kfold (reparent_one q) [0..<NPROC] s) (\<lambda>s.
     let s = upd_proc q (\<lambda>q. q\<lparr>p_exit_code := scast code\<rparr>) s;
         s = upd_proc q (\<lambda>q. q\<lparr>p_state := ZOMBIE\<rparr>) s in
     kbind (k_release L_wait s) (sched_out K_exit))))"
    unfolding q by (rule ends_mono [OF exit_tail_view [OF u(1) f(1) refl f(2)]]) (rule left_cpu_calm [OF cm])
qed

section \<open>The console\<close>

lemma kill_line_view [simp]: "view (kill_line s) = view s"
  by (induction s rule: kill_line.induct) (subst kill_line.simps, simp)

lemma calm_drop_take: "l \<notin> v_held v \<Longrightarrow> calm (v_take l v) w \<Longrightarrow> calm v (v_drop l w)"
  by (simp add: calm_def)

lemma consintr_view:
  "sched_inv None (view s) \<Longrightarrow> ends (\<lambda>t. sched_inv None (view t) \<and> calm (view s) (view t)) (consintr c s)"
  unfolding consintr_def consintr_switch_def
  by (auto simp: Let_def intro!: view_rules calm_drop_take)

lemma uart_intr_loop_view:
  "sched_inv None (view s) \<Longrightarrow> calm v (view s) \<Longrightarrow> ends (\<lambda>t. sched_inv None (view t) \<and> calm v (view t)) (uart_intr_loop n s)"
proof (induction n arbitrary: s)
  case (Suc n)
  show ?case
    using Suc.prems by (auto simp: uartgetc_def split: list.split prod.split
        intro!: view_rules calm_rule [OF consintr_view] Suc.IH intro: calm_trans)
qed simp

lemma uart_intr_view [THEN calm_rule, view_rules]:
  "sched_inv None (view s) \<Longrightarrow> ends (\<lambda>t. sched_inv None (view t) \<and> calm (view s) (view t)) (uart_intr s)"
  unfolding uart_intr_def by (rule uart_intr_loop_view) simp_all

lemma write_loop_view [OF refl, THEN keep_rule, view_rules]:
  "view s = v \<Longrightarrow> ends (\<lambda>t. view t = v) (write_loop n a s)"
  by (induction n arbitrary: a s) (auto intro!: view_rules)

lemma take_mm_view [view_rules]:
  assumes "\<And>mm t. L_mm mm \<notin> v_held (view s) \<Longrightarrow> view t = v_take (L_mm mm) (view s) \<Longrightarrow> Q (mm, t)"
  shows "ends Q (take_mm s)"
  unfolding take_mm_def by (auto simp: Let_def insert_Diff_if intro!: view_rules assms)

lemma user_console_write_view [THEN keep2_rule, view_rules]:
  "ends (\<lambda>(r, t). view t = view s) (user_console_write buf n s)"
  unfolding user_console_write_def by (auto simp: Let_def intro!: view_rules)

lemma sint_less_pred: "0 < sint (n :: i64) \<Longrightarrow> sint (n - 1) < sint n"
  using sint_pred_less [of n] by simp

lemma read_loop_view:
  assumes i: "sched_inv None v" and c: "v_curr v (v_tp v) = Some p" and l: "L_cons \<notin> v_held v"
  shows "view s = v_take L_cons v \<Longrightarrow> ends (outcome p v) (read_loop buf n target s)"
proof (induction "nat (sint n)" arbitrary: buf n s rule: less_induct)
  case less
  have w: "ends (\<lambda>t. left_cpu p v (view t)) (sleep_out Ch_cons L_cons (K_read buf n target) s)"
    by (rule sleep_out_view) (use assms less.prems in simp_all)
  show ?case
    by (subst read_loop.simps) (auto simp: Let_def less.prems i l sint_less_pred intro!: view_rules less.hyps ends_mono [OF w])
qed

lemma user_console_read_view:
  assumes "sched_inv None (view s)" and "v_curr (view s) (v_tp (view s)) = Some p"
  shows "ends (outcome p (view s)) (user_console_read buf n s)"
  unfolding user_console_read_def using assms by (auto simp: Let_def intro!: view_rules read_loop_view)

section \<open>Programs\<close>

lemma k_strlen_view [view_rules]: "(\<And>x. Q x) \<Longrightarrow> ends Q (k_strlen a s)"
  by (simp add: ends_def)

lemma get_elf_view [view_rules]: "(\<And>x. Q x) \<Longrightarrow> ends Q (get_elf name s)"
  by (simp add: ends_def)

lemma load_hdr_view [view_rules]:
  "(\<And>x. Q x) \<Longrightarrow> ends Q (load_ehdr a s)" "(\<And>x. R x) \<Longrightarrow> ends R (load_phdr a s)"
  by (simp_all add: ends_def)

lemma set_area_view [simp]: "view (set_area vma lo hi fl s) = view s"
  by (simp add: set_area_def)

lemma fill_segment_page_view: "ends (\<lambda>(r, t). view t = view s) (fill_segment_page mm base va (r, s))"
  unfolding fill_segment_page_def by (cases r) (auto simp: Let_def intro!: view_rules)

lemma walkaddr_keeps: "walkaddr mm va s = Inr (r, t) \<Longrightarrow> view t = view s"
proof -
  have "ends (\<lambda>(r, t). view t = view s) (walkaddr mm va s)" by (rule walkaddr_view) simp
  then show "walkaddr mm va s = Inr (r, t) \<Longrightarrow> view t = view s" by (auto dest: endsD)
qed

lemma bss_loop_keeps: "bss_loop mm va e s = Inr t \<Longrightarrow> view t = view s"
proof (induction mm va e s rule: bss_loop.induct)
  case (1 mm va e s)
  show ?case
  proof (cases "va < e")
    case True
    with 1(2) obtain pa u w where a: "walkaddr mm (PGROUNDDOWN va) s = Inr (pa, u)"
        "k_memset (PA_TO_KVA pa + (va - PGROUNDDOWN va)) 0 (ucast (PGROUNDUP va - va)) u = Inr w"
        "bss_loop mm (PGROUNDDOWN va + PGSIZE) e w = Inr t"
      by (subst (asm) bss_loop.simps) (auto simp: Let_def res_simps)
    have "view t = view w" by (rule 1(1) [OF True refl refl a(1) refl a(2) a(3)])
    also have "view w = view u" using a(2) by (auto simp: k_memset_def split: if_splits)
    finally show ?thesis using walkaddr_keeps [OF a(1)] by simp
  qed (use 1(2) in \<open>subst (asm) bss_loop.simps, simp\<close>)
qed

lemma bss_loop_view [THEN keep_rule, view_rules]: "ends (\<lambda>t. view t = view s) (bss_loop mm va e s)"
  by (simp add: ends_def bss_loop_keeps)

lemma zero_user_page_view [THEN keep_rule, view_rules]: "ends (\<lambda>t. view t = view s) (zero_user_page mm va s)"
  unfolding zero_user_page_def by (auto intro!: view_rules)

lemma load_segment_view: "ends (\<lambda>(r, t). view t = view s) (load_segment app ehdr p i (r, s))"
  unfolding load_segment_def
  by (auto simp: Let_def intro!: view_rules kfold_view2 [THEN keep2_rule] fill_segment_page_view)

lemma load_user_elf_view [view_rules]:
  assumes "\<And>t. view t = (view s)\<lparr>v_state := (v_state (view s))(p := RUNNABLE)\<rparr> \<Longrightarrow> Q t"
  shows "ends Q (load_user_elf app p s)"
  unfolding load_user_elf_def
  by (auto simp: view_proc Let_def intro!: view_rules assms kfold_view2 [THEN keep2_rule] load_segment_view kfold_view [THEN keep_rule])

lemma sched_inv_rerun:
  assumes "sched_inv None v" and "p \<in> running v"
  shows "sched_inv None (v\<lparr>v_state := (v_state v)(p := RUNNABLE)\<rparr>)"
  using assms unfolding sched_inv_def by auto

lemma exec_view:
  assumes i: "sched_inv None (view s)"
  shows "ends (\<lambda>(r, t). sched_inv None (view t) \<and> calm (view s) (view t)) (exec name s)"
proof -
  have r: "sched_inv None v'"
    if "v_tp (view s) < NCPU" "v_curr (view s) (v_tp (view s)) = Some p" "v_curr v' = v_curr (view s)" "v_first v' = v_first (view s)"
      "v_queue v' = v_queue (view s)" "v_state v' = (v_state (view s))(p := RUNNABLE)" "v_ctx v' = v_ctx (view s)" for p v'
    using sched_inv_rerun [OF i curr_running [OF that(2,1)]] that(3-7) by (simp add: sched_inv_def running_def)
  show ?thesis unfolding exec_def
    by (auto simp: view_proc r i calm_def intro!: view_rules)
qed

section \<open>System calls\<close>

lemma calm2_rule:
  "ends (\<lambda>(r, t). sched_inv None (view t) \<and> calm (view s) (view t)) m \<Longrightarrow>
   (\<And>r t. sched_inv None (view t) \<Longrightarrow> calm (view s) (view t) \<Longrightarrow> Q (r, t)) \<Longrightarrow> ends Q m"
  by (auto elim: ends_mono)

lemma outcome_rule: "ends (outcome p v) m \<Longrightarrow> v = v' \<Longrightarrow> (\<And>r t. outcome p v' (r, t) \<Longrightarrow> Q (r, t)) \<Longrightarrow> ends Q m"
  by (auto elim: ends_mono)

lemma outcome_co_map [simp]: "outcome p v (co_map f r, t) = outcome p v (r, t)"
  by (cases r) simp_all

text \<open>The current process \<open>p\<close> runs on its behalf in the kernel and holds no lock.\<close>

definition calling :: "nat \<Rightarrow> view \<Rightarrow> bool" where
  "calling p v \<longleftrightarrow> sched_inv None v \<and> v_curr v (v_tp v) = Some p \<and> v_held v = {}"

lemma callingD:
  "calling p v \<Longrightarrow> sched_inv None v" "calling p v \<Longrightarrow> v_curr v (v_tp v) = Some p" "calling p v \<Longrightarrow> no_mm_held v"
  by (simp_all add: calling_def no_mm_held_def)

lemma sys_calm_view:
  assumes "calling p (view s)"
  shows "ends (\<lambda>(r, t). sched_inv None (view t) \<and> calm (view s) (view t)) (sys_write fd va len s)"
    and "ends (\<lambda>(r, t). sched_inv None (view t) \<and> calm (view s) (view t)) (sys_gettimeofday va s)"
    and "ends (\<lambda>(r, t). sched_inv None (view t) \<and> calm (view s) (view t)) (sys_getpid s)"
    and "ends (\<lambda>(r, t). sched_inv None (view t) \<and> calm (view s) (view t)) (sys_getppid s)"
    and "ends (\<lambda>(r, t). sched_inv None (view t) \<and> calm (view s) (view t)) (sys_clone s)"
    and "ends (\<lambda>(r, t). sched_inv None (view t) \<and> calm (view s) (view t)) (sys_exec va s)"
    and "ends (\<lambda>(r, t). sched_inv None (view t) \<and> calm (view s) (view t)) (sys_sbrk m s)"
  unfolding sys_write_def sys_gettimeofday_def sys_getpid_def sys_getppid_def sys_clone_def sys_exec_def sys_sbrk_def
  using callingD [OF assms]
  by (auto simp: Let_def intro!: view_rules calm2_rule [OF fork_view] calm2_rule [OF exec_view])

lemma sys_read_view: "calling p (view s) \<Longrightarrow> ends (outcome p (view s)) (sys_read fd va len s)"
  unfolding sys_read_def by (auto intro!: view_rules user_console_read_view dest: callingD)

lemma sys_sched_yield_view: "calling p (view s) \<Longrightarrow> ends (outcome p (view s)) (sys_sched_yield s)"
  unfolding sys_sched_yield_def by (auto intro!: ends_bind ends_mono [OF yield_out_view] dest: callingD)

lemma sys_wait_view:
  assumes "calling p (view s)"
  shows "ends (outcome p (view s)) (sys_wait pid va s)"
proof -
  have w: "ends (outcome p (view s)) (wait pid code t)" if "view t = view s" for code t
    using wait_view [of t p pid code] callingD [OF assms] that by simp
  show ?thesis unfolding sys_wait_def
    by (auto simp: Let_def insert_Diff_if intro!: view_rules outcome_rule [OF w])
qed

lemma rets_view:
  "ends (\<lambda>(r, t). sched_inv None (view t) \<and> calm v (view t)) m \<Longrightarrow> ends (outcome p v) (rets m)"
  by (rule ends_bind) (auto elim: ends_mono)

lemma syscall_switch_view:
  assumes "calling p (view s)"
  shows "ends (outcome p (view s)) (syscall_switch nr a0 a1 a2 s)"
proof -
  have e: "ends (outcome p (view s)) (kbind (exit_out c s) (\<lambda>s. Inr (Switched, s)))" for c
    by (rule ends_bind, rule ends_mono [OF exit_out_view]) (use callingD [OF assms] in simp_all)
  have n: "ends (outcome p (view s)) (Inr (Ret r, s))" for r
    using callingD [OF assms] by simp
  show ?thesis unfolding syscall_switch_def
    by (intro ends_if rets_view sys_calm_view [OF assms] sys_read_view [OF assms] sys_sched_yield_view [OF assms]
        sys_wait_view [OF assms] e n)
qed

lemma syscall_return_view [THEN keep_rule, view_rules]: "ends (\<lambda>t. view t = view s) (syscall_return tf r s)"
  unfolding syscall_return_def by (auto simp: Let_def intro!: view_rules)

lemma syscall_view:
  assumes "calling p (view s)"
  shows "ends (outcome p (view s)) (syscall s)"
proof -
  have r: "ends (outcome p (view s)) (case r of Switched \<Rightarrow> Inr (Switched, t)
      | Ret v \<Rightarrow> kbind (syscall_return tf v t) (\<lambda>s. Inr (Ret (), s)))"
    if "outcome p (view s) (r, t)" for r t tf
    using that by (cases r) (auto intro!: view_rules)
  show ?thesis unfolding syscall_def Let_def
    by (rule ends_bind curr_proc_view load_view)+ (rule outcome_rule [OF syscall_switch_view [OF assms] refl], simp add: r)
qed

end
