(* ===== verification/Steps.thy ===== *)
theory Steps imports SchedCalls begin

text \<open>
  The whole kernel as a transition system: each step runs one CPU from the point where it is idle or in
  user mode to the next such point, or lets the devices and the user programs act. The invariant of the
  scheduler holds in every reachable state, and processes are picked in the order in which they became
  ready.
\<close>

section \<open>Traps\<close>

lemma plic_claim_view [THEN keep2_rule, view_rules]: "ends (\<lambda>(r, t). view t = view s) (plic_claim s)"
  unfolding plic_claim_def by (auto split: list.split intro!: view_rules)

lemma plic_complete_view [THEN keep_rule, view_rules]: "ends (\<lambda>t. view t = view s) (plic_complete i s)"
  unfolding plic_complete_def by (auto simp: Let_def intro!: view_rules)

lemma plic_handle_view [THEN calm_rule, view_rules]:
  "sched_inv None (view s) \<Longrightarrow> ends (\<lambda>t. sched_inv None (view t) \<and> calm (view s) (view t)) (plic_handle s)"
  unfolding plic_handle_def by (auto intro!: view_rules)

lemma usertrapret_view [THEN keep_rule, view_rules]: "ends (\<lambda>t. view t = view s) (usertrapret s)"
  unfolding usertrapret_def userret_jump_def by (auto simp: Let_def intro!: view_rules)

lemma set_kerneltrap_view [THEN keep_rule, view_rules]: "ends (\<lambda>t. view t = view s) (set_kerneltrap s)"
  unfolding set_kerneltrap_def by auto

lemma usertrap_end_view: "sched_inv None (view s) \<Longrightarrow> calm v (view s) \<Longrightarrow> ends (outcome p v) (usertrap_end s)"
  unfolding usertrap_end_def by (auto intro!: view_rules)

lemma co_end_view: "outcome p v (r, s) \<Longrightarrow> ends (outcome p v) (co_end r s)"
  unfolding co_end_def by (cases r) (auto intro!: usertrap_end_view)

lemma user_exit_view: "calling p v \<Longrightarrow> view s = v \<Longrightarrow> ends (outcome p v) (user_exit code s)"
  unfolding user_exit_def
  by (rule ends_bind, rule ends_mono [OF exit_out_view]) (use callingD in auto)

lemma bad_access_view: "calling p v \<Longrightarrow> view s = v \<Longrightarrow> ends (outcome p v) (bad_access s)"
  unfolding bad_access_def by (auto intro!: view_rules user_exit_view)

lemma page_fault_view:
  assumes c: "calling p v" and s: "view s = v"
  shows "ends (outcome p v) (page_fault cause s)"
  unfolding page_fault_def using c callingD(1) [OF c] s by (auto simp: Let_def intro!: view_rules bad_access_view)

lemma usertrap_switch_view:
  assumes c: "calling p (view s)"
  shows "ends (outcome p (view s)) (usertrap_switch cause tf s)"
proof -
  have y: "ends (outcome p (view s)) (kbind (yield_out K_yield_trap (set_next_timer s)) (\<lambda>s. Inr (Switched, s)))"
    using yield_out_view [of "set_next_timer s" p K_yield_trap] callingD [OF c] by (auto intro!: ends_bind elim: ends_mono)
  have l: "ends (outcome p (view s)) (kbind (plic_handle s) (\<lambda>s. Inr (Ret (), s)))"
    using callingD [OF c] by (auto intro!: view_rules)
  have e: "ends (outcome p (view s)) (kbind (syscall (k_intr_on t)) (\<lambda>(r, s). Inr (r, case r of Ret _ \<Rightarrow> k_intr_off s | Switched \<Rightarrow> s)))"
    if "view t = view s" for t
    by (rule ends_bind, rule ends_mono [OF syscall_view [of p "k_intr_on t"]])
      (use c that in \<open>auto split: co.splits simp: outcome_def\<close>)
  show ?thesis unfolding usertrap_switch_def Let_def unknown_trap_def
    by (intro ends_if y l user_exit_view [OF c] page_fault_view [OF c] bad_access_view [OF c] refl ends_bind load_view store_view e [unfolded ])
qed

lemma usertrap_view:
  assumes c: "calling p (view s)"
  shows "ends (outcome p (view s)) (usertrap s)"
proof -
  have "ends (\<lambda>r. ends (outcome p (view s)) (case r of (r, s) \<Rightarrow> co_end r s)) (usertrap_switch cause tf t)"
    if "view t = view s" for t cause tf
    by (rule outcome_rule [OF usertrap_switch_view [of p t]]) (use c that in \<open>auto intro: co_end_view\<close>)
  then show ?thesis unfolding usertrap_def Let_def
    by (auto intro!: view_rules)
qed

section \<open>Going on after a switch\<close>

lemma swtch_to_view:
  assumes c: "calling p v" and s: "view s = v_take (L_proc p) v"
  shows "ends (outcome p v) (swtch_to p s)"
proof -
  have i: "sched_inv None v" "v_curr v (v_tp v) = Some p" "L_wait \<notin> v_held v" "L_cons \<notin> v_held v" "L_proc p \<notin> v_held v"
    using c by (simp_all add: calling_def)
  have sys: "ends (outcome p v) (syscall_back p r t)" if "outcome p v (r, t)" for r t
    unfolding syscall_back_def using that by (cases r) (auto simp: Let_def intro!: view_rules usertrap_end_view)
  have wait: "ends (outcome p v) (wait_round p pid code t)" if "view t = v_take L_wait v" for pid code t
    by (rule wait_round_view) (use i that in simp_all)
  have read: "ends (outcome p v) (read_loop buf n target t)" if "view t = v_take L_cons v" for buf n target t
    by (rule read_loop_view [OF i(1,2)]) (use i(4) that in simp_all)
  have first: "ends (outcome p v) (kbind (first_sched_ret s) (\<lambda>s. Inr (Ret (), s)))"
    unfolding first_sched_ret_def using i s by (auto intro!: view_rules)
  have trap: "ends (outcome p v) (kbind (yield_back p b s) usertrap_end)" for b
    using i s by (auto intro!: view_rules usertrap_end_view)
  have yield: "ends (outcome p v) (kbind (yield_back p b s) (syscall_back p (Ret 0)))" for b
    using i s by (auto intro!: view_rules sys)
  have waited: "ends (outcome p v) (kbind (wait_back p b pid code s) (\<lambda>(r, s). syscall_back p (co_map scast r) s))" for b pid code
    unfolding wait_back_def using i s by (auto intro!: view_rules outcome_rule [OF wait] sys)
  have reader: "ends (outcome p v) (kbind (user_console_read_back p b buf n target s) (\<lambda>(r, s). syscall_back p r s))" for b buf n target
    unfolding user_console_read_back_def using i s by (auto intro!: view_rules outcome_rule [OF read] sys)
  have exited: "ends (outcome p v) (kbind (exit_back p b s) (\<lambda>s. Inr (Switched, s)))" for b
    unfolding exit_back_def by (auto intro!: view_rules)
  show ?thesis unfolding swtch_to_def
    by (auto split: saved_context.split kont.split simp: first trap yield waited reader exited)
qed

text \<open>
  The end of a step on a CPU whose process is \<open>p\<close>: \<open>p\<close> still runs, in user mode, or the CPU is idle.
\<close>

definition settled :: "nat \<Rightarrow> view \<Rightarrow> view \<Rightarrow> bool" where
  "settled p v v' \<longleftrightarrow> v_tp v' = v_tp v \<and> v_held v' = v_held v \<and> v_noff v' = v_noff v \<and> sched_inv None v' \<and>
     (v_curr v' = v_curr v \<or> v_curr v' = (v_curr v)(v_tp v := None)) \<and> (\<exists>ps. queued v' = queued v @ ps)"

lemma after_switch_view:
  assumes "outcome p v (r, s)"
  shows "ends (\<lambda>t. settled p v (view t)) (after_switch p r s)"
proof (cases r)
  case (Ret x)
  then show ?thesis using assms by (auto simp: after_switch_def settled_def calm_def)
next
  case Switched
  then have "ends (\<lambda>t. gave_up v (view t)) (scheduler_back p s)" using assms scheduler_back_view by simp
  then have "ends (\<lambda>t. settled p v (view t)) (scheduler_back p s)"
    by (rule ends_mono) (auto simp: settled_def gave_up_def)
  then show ?thesis using Switched by (simp add: after_switch_def)
qed

lemma user_trap_round_view:
  assumes "calling p (view s)"
  shows "ends (\<lambda>t. settled p (view s) (view t)) (user_trap_round p s)"
  unfolding user_trap_round_def
  by (rule ends_bind, rule ends_mono [OF usertrap_view [OF assms]]) (auto intro: after_switch_view)

text \<open>A round of the scheduler takes the first process of the queue, if there is one.\<close>

definition turn :: "nat list \<Rightarrow> view \<Rightarrow> view \<Rightarrow> bool" where
  "turn picks v v' \<longleftrightarrow> v_tp v' = v_tp v \<and> v_held v' = v_held v \<and> v_noff v' = v_noff v \<and> sched_inv None v' \<and>
     (\<forall>h. h \<noteq> v_tp v \<longrightarrow> v_curr v' h = v_curr v h) \<and> (\<exists>ps. queued v @ ps = picks @ queued v')"

lemma scheduler_round_view:
  assumes i: "sched_inv None (view s)" and n: "v_curr (view s) (v_tp (view s)) = None" and h: "v_held (view s) = {}"
  shows "ends (\<lambda>t. turn (take 1 (queued (view s))) (view s) (view t)) (scheduler_round s)"
proof -
  have r: "ends (\<lambda>u. turn (take 1 (queued (view s))) (view s) (view u)) (kbind (swtch_to p t) (\<lambda>(r, s). after_switch p r s))"
    if p: "picked p (view s) (view t)" for p t
  proof -
    let ?v = "v_drop (L_proc p) (view t)"
    have v: "calling p ?v" "view t = v_take (L_proc p) ?v"
      using p h by (auto simp: picked_def calling_def)
    have q: "queued (view s) = p # queued ?v" "v_tp ?v = v_tp (view s)" "v_noff ?v = v_noff (view s)"
        "v_curr ?v = (v_curr (view s))(v_tp (view s) := Some p)" "v_held ?v = {}"
      using p h by (auto simp: picked_def)
    have "ends (\<lambda>u. settled p ?v (view u)) (kbind (swtch_to p t) (\<lambda>(r, s). after_switch p r s))"
      by (rule ends_bind, rule ends_mono [OF swtch_to_view [OF v]]) (auto intro: after_switch_view)
    then show ?thesis
      by (rule ends_mono) (use q h in \<open>auto simp: settled_def turn_def split: if_splits\<close>)
  qed
  have "ends (\<lambda>u. turn (take 1 (queued (view s))) (view s) (view u))
      (case found of None \<Rightarrow> Inr t | Some p \<Rightarrow> kbind (swtch_to p t) (\<lambda>(r, s). after_switch p r s))"
    if "case found of None \<Rightarrow> view t = view s \<and> queued (view s) = [] | Some p \<Rightarrow> picked p (view s) (view t)" for found t
    using that by (cases found) (simp_all add: r turn_def [of "[]"] i del: One_nat_def)
  then show ?thesis unfolding scheduler_round_def
    by (intro ends_bind ends_mono [OF scheduler_pick_view [OF i n]]) (simp only: split_beta)
qed

section \<open>The transition system\<close>

text \<open>
  What happens without the kernel: user programs compute, devices get input, interrupts become pending,
  a trap leaves its cause in the control registers. Memory may change in any way, which includes what
  user programs can do.
\<close>

definition environment :: "kst \<Rightarrow> kst \<Rightarrow> bool" where
  "environment s t \<longleftrightarrow>
     t = s\<lparr>mem := mem t, uart_in := uart_in t, plic_in := plic_in t, cycle := cycle t, regs := regs t\<rparr>"

text \<open>
  A step on a CPU is a round of its scheduler, when it has no process; a trap from the process it runs
  in user mode; or an interrupt while it is in the kernel. \<open>picks\<close> lists the processes that the rounds take from the queue.
\<close>

inductive kernel_step :: "nat list \<Rightarrow> kst \<Rightarrow> kst \<Rightarrow> bool" where
  outside: "environment s t \<Longrightarrow> kernel_step [] s t"
| schedule: "h < NCPU \<Longrightarrow> c_proc (cpus (smp s) h) = None \<Longrightarrow> scheduler_round (w_tp h s) = Inr t \<Longrightarrow>
    kernel_step (take 1 (queue_list (task_queue s))) s t"
| trap: "h < NCPU \<Longrightarrow> c_proc (cpus (smp s) h) = Some p \<Longrightarrow> user_trap_round p (w_tp h s) = Inr t \<Longrightarrow> kernel_step [] s t"
| interrupt: "h < NCPU \<Longrightarrow> kernel_trap sip ktf (w_tp h s) = Inr t \<Longrightarrow> kernel_step [] s t"

inductive kernel_run :: "nat list \<Rightarrow> kst \<Rightarrow> kst \<Rightarrow> bool" where
  start: "kernel_run [] s s"
| step: "kernel_run picks s t \<Longrightarrow> kernel_step ps t u \<Longrightarrow> kernel_run (picks @ ps) s u"

inductive_simps kernel_step_iff: "kernel_step ps s t"

text \<open>Between steps no lock is held and the scheduler's invariant holds.\<close>

definition quiet :: "kst \<Rightarrow> bool" where
  "quiet s \<longleftrightarrow> sched_inv None (view s) \<and> v_held (view s) = {} \<and> (\<forall>h < NCPU. v_noff (view s) h = 0)"

lemma view_w_tp: "view (w_tp h s) = (view s)\<lparr>v_tp := h\<rparr>"
  by (simp add: view_def w_tp_def)

lemma sched_inv_tp [simp]: "sched_inv ex (v\<lparr>v_tp := h\<rparr>) = sched_inv ex v"
  by (simp add: sched_inv_def running_def)

lemma kernel_trap_view:
  "sched_inv None (view s) \<Longrightarrow> ends (\<lambda>t. sched_inv None (view t) \<and> calm (view s) (view t)) (kernel_trap sip ktf s)"
  unfolding kernel_trap_def by (auto simp: Let_def calm_def intro!: view_rules)

lemma kernel_step_quiet:
  assumes "kernel_step ps s t" and "quiet s"
  shows "quiet t \<and> (\<exists>qs. queue_list (task_queue s) @ qs = ps @ queue_list (task_queue t))"
  using assms(1)
proof cases
  case outside
  then have "view t = view s" unfolding environment_def by (metis view_ignores(1,8,10,12,13))
  then show ?thesis using assms(2) outside by (simp add: quiet_def view_sel(7) [symmetric])
next
  case (schedule h)
  have "turn (take 1 (queued (view s))) (view (w_tp h s)) (view t)"
    using endsD [OF scheduler_round_view schedule(4)] assms(2) schedule(3) by (simp add: view_w_tp quiet_def view_sel(2))
  then show ?thesis
    using assms(2) schedule(1) by (auto simp: turn_def quiet_def view_w_tp view_sel(7) [symmetric])
next
  case (trap h p)
  have "settled p (view (w_tp h s)) (view t)"
    using endsD [OF user_trap_round_view trap(4)] assms(2) trap(3) by (simp add: view_w_tp quiet_def calling_def view_sel(2))
  then show ?thesis
    using assms(2) trap(1) by (auto simp: settled_def quiet_def view_w_tp view_sel(7) [symmetric])
next
  case (interrupt h sip ktf)
  have "sched_inv None (view t) \<and> calm (view (w_tp h s)) (view t)"
    using endsD [OF kernel_trap_view interrupt(3)] assms(2) by (simp add: view_w_tp quiet_def)
  then show ?thesis
    using assms(2) interrupt(1) by (auto simp: calm_def quiet_def view_w_tp view_sel(7) [symmetric])
qed

lemma kernel_run_quiet:
  assumes "kernel_run picks s t" and "quiet s"
  shows "quiet t \<and> (\<exists>qs. queue_list (task_queue s) @ qs = picks @ queue_list (task_queue t))"
  using assms
proof (induction rule: kernel_run.induct)
  case (step picks s t ps u)
  then obtain qs where t: "quiet t" "queue_list (task_queue s) @ qs = picks @ queue_list (task_queue t)" by blast
  from kernel_step_quiet [OF step.hyps(2) t(1)] obtain rs
    where "quiet u" "queue_list (task_queue t) @ rs = ps @ queue_list (task_queue u)" by blast
  with t(2) have "queue_list (task_queue s) @ (qs @ rs) = (picks @ ps) @ queue_list (task_queue u)"
    by (metis append.assoc)
  with \<open>quiet u\<close> show ?case by blast
qed simp

section \<open>Picking always succeeds\<close>

lemma scheduler_pick_eq:
  assumes r: "k_ready s" and f: "k_free L_queue s" "k_free (L_proc p) s"
    and q: "\<not> q_empty (task_queue s)" "q_data (task_queue s) ! q_front (task_queue s) = p"
    and st: "p_state (proc_pool s p) = RUNNABLE"
  defines "q1 \<equiv> (task_queue s)\<lparr>q_front := (q_front (task_queue s) + 1) mod NPROC\<rparr>"
  shows "scheduler_pick s = Inr (Some p, set_curr (Some p) (upd_proc p (\<lambda>q. q\<lparr>p_state := RUNNING\<rparr>)
    (k_take (L_proc p) (s\<lparr>task_queue := if q_front q1 = q_tail q1 then q1\<lparr>q_empty := True\<rparr> else q1\<rparr>))))"
  using assms
  by (simp add: scheduler_pick_def fetch_task_def pop_queue_eq k_acquire_def acquire_free mycpu_def k_ready_def k_free_def Let_def
      cpu_ready_def [of "smp s", THEN iffD1])

lemma curr_proc_set [simp]: "k_ready s \<Longrightarrow> curr_proc (set_curr (Some p) s) = Inr p"
  by (simp add: curr_proc_def set_curr_def mycpu_def upd_cpu_def k_ready_def cpu_ready_def)

lemma set_curr_take: "upd_cpu (\<lambda>c. c\<lparr>c_proc := x\<rparr>) (take_lock l m) = take_lock l (upd_cpu (\<lambda>c. c\<lparr>c_proc := x\<rparr>) m)"
proof (cases m)
  case (fields cs ls c)
  obtain h p k n i e where "cs c = \<lparr>c_mhart_id = h, c_proc = p, c_inkernel_trap = k, c_noff = n, c_interrupt_on = i, c_sie = e\<rparr>"
    by (cases "cs c")
  with fields show ?thesis by (simp add: take_lock_def upd_cpu_def)
qed

lemma k_release_set_curr:
  assumes "k_ready s" and "k_free l s" and "smp t = smp (set_curr x (k_take l s))"
  shows "k_release l t = Inr (t\<lparr>smp := settle (upd_cpu (\<lambda>c. c\<lparr>c_proc := x\<rparr>) (smp s))\<rparr>)"
proof (rule k_release_taken)
  show "cpu_ready (upd_cpu (\<lambda>c. c\<lparr>c_proc := x\<rparr>) (smp s))" using assms(1) by (simp add: k_ready_def cpu_ready_def upd_cpu_def)
  show "lock_free l (upd_cpu (\<lambda>c. c\<lparr>c_proc := x\<rparr>) (smp s))" using assms(2) by (simp add: k_free_def lock_free_def upd_cpu_def)
  show "smp t = take_lock l (upd_cpu (\<lambda>c. c\<lparr>c_proc := x\<rparr>) (smp s))" by (simp add: assms(3) set_curr_def set_curr_take)
qed

section \<open>An example run\<close>

text \<open>Process 0 is new and ready; the first round of CPU 0 brings it to user mode.\<close>

definition sched_demo :: kst where
  "sched_demo = boot_kst\<lparr>task_queue := (zero_queue 0)\<lparr>q_tail := 1\<rparr>,
     proc_pool := (\<lambda>_. idle_proc)(0 := idle_proc\<lparr>p_state := RUNNABLE, p_context := Ctx (first_sched_ret_addr idle_image) 0,
       p_trapframe := 0xffffffc080400000\<rparr>)\<rparr>"

lemma sched_demo_queue: "queue_list (task_queue sched_demo) = [0]" "queue_inv (task_queue sched_demo)"
  by (simp_all add: sched_demo_def queue_list_def queue_len_def zero_queue_def queue_inv_def NPROC_def QUEUE_SIZE_def)

lemma sched_demo_quiet: "quiet sched_demo"
  using sched_demo_queue
  by (auto simp: quiet_def sched_inv_def view_def sched_demo_def boot_kst_def boot_smp_def boot_cpu_def idle_proc_def
      running_def resumable_def spinlock_init_def NPROC_def)

lemma sched_demo_ready: "k_ready sched_demo" "k_free l sched_demo"
  using boot_kst_ready by (simp_all add: sched_demo_def k_ready_def k_free_def)

lemma usertrapret_returns:
  assumes "curr_proc s = Inr p" and "\<not> intr_get (smp s)" and "\<And>a. kmap s a"
  shows "\<exists>t. usertrapret s = Inr t"
  using assms by (simp add: usertrapret_def store64_def load64_def mapped_def Let_def)

lemma sched_demo_round: "\<exists>t. scheduler_round (w_tp 0 sched_demo) = Inr t"
proof -
  have w: "w_tp 0 sched_demo = sched_demo" by (simp add: w_tp_def sched_demo_def boot_kst_def boot_smp_def)
  let ?q = "(task_queue sched_demo)\<lparr>q_front := 1, q_empty := True\<rparr>"
  obtain t where t: "t = set_curr (Some 0) (upd_proc 0 (\<lambda>q. q\<lparr>p_state := RUNNING\<rparr>) (k_take (L_proc 0) (sched_demo\<lparr>task_queue := ?q\<rparr>)))"
    by blast
  have p: "scheduler_pick sched_demo = Inr (Some 0, t)" unfolding t
    by (subst scheduler_pick_eq [OF sched_demo_ready(1) sched_demo_ready(2) sched_demo_ready(2), of 0])
      (simp_all add: sched_demo_def zero_queue_def QUEUE_SIZE_def NPROC_def)
  have c: "curr_proc t = Inr 0" using sched_demo_ready(1) unfolding t
    by (subst curr_proc_set) (simp_all add: upd_proc_def k_ready_def)
  obtain u where u: "u = t\<lparr>smp := settle (upd_cpu (\<lambda>c. c\<lparr>c_proc := Some 0\<rparr>) (smp sched_demo))\<rparr>" by blast
  have r: "k_release (L_proc 0) t = Inr u" unfolding u t
    by (rule k_release_set_curr [OF sched_demo_ready]) (simp add: upd_proc_def set_curr_def)
  have x: "p_context (proc_pool t 0) = Ctx (first_sched_ret_addr (img t)) 0"
    by (simp add: t sched_demo_def upd_proc_def set_curr_def boot_kst_def)
  have "curr_proc (k_intr_off u) = Inr 0" "\<not> intr_get (smp (k_intr_off u))" "\<And>a. kmap (k_intr_off u) a"
    by (simp_all add: u t curr_proc_def k_intr_off_def cpu_ops settle_def sched_demo_def boot_kst_def boot_smp_def
        NCPU_def set_curr_def upd_proc_def)
  from usertrapret_returns [OF this] show ?thesis
    unfolding w scheduler_round_def by (auto simp: p swtch_to_def x first_sched_ret_def c r after_switch_def)
qed

lemma sched_demo_run: "\<exists>t. kernel_run [0] sched_demo t"
proof -
  obtain t where "scheduler_round (w_tp 0 sched_demo) = Inr t" using sched_demo_round by blast
  moreover have "c_proc (cpus (smp sched_demo) 0) = None"
    by (simp add: sched_demo_def boot_kst_def boot_smp_def boot_cpu_def)
  ultimately have "kernel_step (take 1 (queue_list (task_queue sched_demo))) sched_demo t"
    by (intro schedule) (simp_all add: NCPU_def)
  then have "kernel_step [0] sched_demo t" by (simp add: sched_demo_queue)
  from step [OF start this] show ?thesis by auto
qed

section \<open>The properties\<close>

text \<open>C38. In every state that the kernel reaches, by any interleaving of the steps of its CPUs, from a
  state in which no lock is held and the queue agrees with the states of the processes: the ready queue
  holds exactly the runnable processes that no CPU runs, each of them once; no two CPUs run the same
  process; every process marked running runs on a CPU; and no lock is held in user mode or in the
  idle loop.\<close>

theorem scheduler_safe:
  assumes "quiet s0" and "kernel_run picks s0 s"
  shows "(\<forall>p. p \<in> set (queue_list (task_queue s)) \<longleftrightarrow>
      p < NPROC \<and> p_state (proc_pool s p) = RUNNABLE \<and> (\<forall>h < NCPU. c_proc (cpus (smp s) h) \<noteq> Some p)) \<and>
    distinct (queue_list (task_queue s)) \<and>
    (\<forall>h < NCPU. \<forall>h' < NCPU. h \<noteq> h' \<and> c_proc (cpus (smp s) h) \<noteq> None \<longrightarrow> c_proc (cpus (smp s) h) \<noteq> c_proc (cpus (smp s) h')) \<and>
    (\<forall>p < NPROC. p_state (proc_pool s p) = RUNNING \<longrightarrow> (\<exists>h < NCPU. c_proc (cpus (smp s) h) = Some p)) \<and>
    (\<forall>l. \<not> locked (locks (smp s) l))"
proof -
  have q: "sched_inv None (view s)" "v_held (view s) = {}"
    using kernel_run_quiet [OF assms(2,1)] by (simp_all add: quiet_def)
  have "(\<forall>p. p \<in> set (queued (view s)) \<longleftrightarrow> p < NPROC \<and> v_state (view s) p = RUNNABLE \<and> p \<notin> running (view s)) \<and> distinct (queued (view s))"
    "\<forall>h h' p. h < NCPU \<longrightarrow> h' < NCPU \<longrightarrow> v_curr (view s) h = Some p \<longrightarrow> v_curr (view s) h' = Some p \<longrightarrow> h = h'"
    "\<forall>p < NPROC. v_state (view s) p = RUNNING \<longrightarrow> p \<in> running (view s)"
    using q(1) unfolding sched_inv_def by blast+
  moreover have "\<forall>l. l \<notin> v_held (view s)" by (simp add: q(2))
  ultimately show ?thesis unfolding view_sel running_def by (intro conjI) (blast, blast, metis option.exhaust, blast, blast)
qed

theorem scheduler_safe_witness:
  "\<exists>s. kernel_run [0] sched_demo s \<and> distinct (queue_list (task_queue s)) \<and> \<not> locked (locks (smp s) L_queue)"
  using sched_demo_run scheduler_safe [OF sched_demo_quiet] by blast

text \<open>C39. No process is overtaken: the processes that the schedulers of all CPUs pick in a run are, in
  this order, those that were in the ready queue at its beginning, followed by those that became ready
  later, in the order in which they did. So a process at position k of the queue is the one that is
  picked after k others, whatever the CPUs do.\<close>

theorem scheduler_fair:
  assumes "quiet s" and "kernel_run picks s t"
  shows "(\<exists>later. queue_list (task_queue s) @ later = picks @ queue_list (task_queue t)) \<and>
    (\<forall>k < length picks. k < length (queue_list (task_queue s)) \<longrightarrow> picks ! k = queue_list (task_queue s) ! k)"
proof -
  obtain later where l: "queue_list (task_queue s) @ later = picks @ queue_list (task_queue t)"
    using kernel_run_quiet [OF assms(2,1)] by blast
  then have "picks ! k = queue_list (task_queue s) ! k" if "k < length picks" "k < length (queue_list (task_queue s))" for k
    using that by (metis nth_append)
  with l show ?thesis by blast
qed

theorem scheduler_fair_witness:
  "\<exists>t later. kernel_run [0] sched_demo t \<and> [0] @ later = [0] @ queue_list (task_queue t)"
  using sched_demo_run scheduler_fair [OF sched_demo_quiet] unfolding sched_demo_queue by blast

text \<open>C40. When the ready queue is not empty, an idle CPU gets its first process: \<^verbatim>\<open>scheduler\<close> does not
  fail its assertion, does not spin, and switches to the process at the front, which it marks as running
  and takes from the queue.\<close>

theorem scheduler_picks_front:
  assumes "quiet s" and "c_proc (cpus (smp s) (tp (smp s))) = None" and "k_ready s" and "k_free L_queue s"
    and "k_free (L_proc p) s" and "queue_list (task_queue s) = p # ps"
  shows "\<exists>t. scheduler_pick s = Inr (Some p, t) \<and> queue_list (task_queue t) = ps \<and>
    p_state (proc_pool t p) = RUNNING \<and> c_proc (cpus (smp t) (tp (smp t))) = Some p"
proof -
  have i: "sched_inv None (view s)" using assms(1) by (simp add: quiet_def)
  have q: "queue_inv (task_queue s)" using sched_inv_queue [OF i] by (simp add: view_sel)
  have ne: "\<not> q_empty (task_queue s)" using queue_empty_iff [OF q] assms(6) by simp
  have hd: "q_data (task_queue s) ! q_front (task_queue s) = p" using queue_pop_list(2) [OF q ne] assms(6) by simp
  have "p \<in> set (queued (view s))" using assms(6) by (simp add: view_sel)
  then have st: "p_state (proc_pool s p) = RUNNABLE" using i unfolding sched_inv_def view_sel by blast
  from scheduler_pick_eq [OF assms(3-5) ne hd st] obtain t where t: "scheduler_pick s = Inr (Some p, t)" by blast
  have "picked p (view s) (view t)"
    using endsD [OF scheduler_pick_view [OF i] t] assms(2) by (simp add: view_sel)
  then have "v_curr (view t) (v_tp (view t)) = Some p" "v_state (view t) p = RUNNING" "queued (view s) = p # queued (view t)"
    by (simp_all add: picked_def)
  then show ?thesis using t assms(6) by (simp add: view_sel)
qed

theorem scheduler_picks_front_witness:
  "\<exists>t. scheduler_pick sched_demo = Inr (Some 0, t) \<and> queue_list (task_queue t) = []"
  using scheduler_picks_front [OF sched_demo_quiet _ sched_demo_ready(1) sched_demo_ready(2) sched_demo_ready(2), of 0 "[]"]
    sched_demo_queue by (auto simp: sched_demo_def boot_kst_def boot_smp_def boot_cpu_def)

end
