(* ===== verification/Wakeup.thy ===== *)
theory Wakeup imports Steps begin

text \<open>
  What \<^verbatim>\<open>wakeup\<close> does, in full: it returns, makes ready exactly the processes that sleep on the channel,
  and puts them on the queue in the order of the table.
\<close>

section \<open>One process\<close>

definition sleeper :: "chan option \<Rightarrow> kst \<Rightarrow> nat \<Rightarrow> bool" where
  "sleeper ch s p \<longleftrightarrow> p_state (proc_pool s p) = SLEEPING \<and> p_sleep_chan (proc_pool s p) = ch"

definition make_ready :: "nat set \<Rightarrow> kst \<Rightarrow> nat \<Rightarrow> proc" where
  "make_ready A s p = (if p \<in> A then (proc_pool s p)\<lparr>p_state := RUNNABLE\<rparr> else proc_pool s p)"

text \<open>The CPU can take the locks of the queue and of every process.\<close>

definition locks_ready :: "kst \<Rightarrow> bool" where
  "locks_ready s \<longleftrightarrow> k_ready s \<and> k_free L_queue s \<and> (\<forall>p < NPROC. k_free (L_proc p) s)"

text \<open>What stays: everything but the processes, the queue and the settled interrupt flag.\<close>

definition only_woken :: "kst \<Rightarrow> kst \<Rightarrow> bool" where
  "only_woken s t \<longleftrightarrow> t = s\<lparr>smp := smp t, proc_pool := proc_pool t, task_queue := task_queue t\<rparr> \<and> settle (smp t) = settle (smp s)"

lemma only_woken_refl [simp]: "only_woken s s"
  by (simp add: only_woken_def)

lemma only_woken_trans: "only_woken s t \<Longrightarrow> only_woken t u \<Longrightarrow> only_woken s u"
  by (cases s; cases t; cases u) (simp add: only_woken_def)

lemma only_woken_locks:
  "only_woken s t \<Longrightarrow> k_ready t = k_ready s" "only_woken s t \<Longrightarrow> k_free l t = k_free l s"
  unfolding only_woken_def k_ready_def k_free_def by (metis cpu_ready_settle, metis lock_free_settle)

lemma only_woken_locks_ready: "only_woken s t \<Longrightarrow> locks_ready t = locks_ready s"
  by (simp add: locks_ready_def only_woken_locks)

lemma k_release_settled:
  assumes "k_ready s" and "k_free l s" and "smp t = settle (take_lock l (smp s))"
  shows "k_release l t = Inr (t\<lparr>smp := settle (smp s)\<rparr>)"
proof (rule k_release_taken)
  show "cpu_ready (smp s)" "lock_free l (smp s)" using assms(1,2) by (simp_all add: k_ready_def k_free_def)
  then show "smp t = take_lock l (smp s)" using assms(3) by (simp add: cpu_ready_def)
qed

text \<open>With a lock held there is nothing to settle.\<close>

lemma taken_back:
  assumes "settle m = settle (take_lock l m0)" and "cpu_ready m0"
  shows "m = take_lock l m0"
proof -
  have s: "settle m = take_lock l m0" using assms by (simp add: cpu_ready_def)
  have "tp m = tp m0" using s by (metis tp_settle tp_take)
  moreover have "c_noff (this_cpu (settle m)) = c_noff (this_cpu m)" by (simp add: settle_def)
  ultimately have "0 < c_noff (this_cpu m)" using assms(2) noff_take [of l m0] by (simp add: s cpu_ready_def)
  then have "settle m = m" by (cases m; cases "this_cpu m") (simp add: settle_def fun_upd_idem)
  with s show ?thesis by simp
qed

lemma queue_room:
  assumes "sched_inv None (view s)" and "i < NPROC" and "p_state (proc_pool s i) \<noteq> RUNNING" and "p_state (proc_pool s i) \<noteq> RUNNABLE"
  shows "queue_len (task_queue s) < NPROC"
proof -
  have q: "distinct (queue_list (task_queue s))" "\<forall>p \<in> set (queue_list (task_queue s)). p < NPROC" and i: "i \<notin> set (queue_list (task_queue s))"
    using assms sched_inv_idle [OF assms(1), of i] unfolding sched_inv_def by (auto simp: view_sel)
  have "card (set (queue_list (task_queue s))) < card {..<NPROC}"
    by (rule psubset_card_mono) (use q(2) i assms(2) in auto)
  then show ?thesis using distinct_card [OF q(1)] by simp
qed

lemma add_task_run:
  assumes "queue_inv (task_queue s)" and "queue_len (task_queue s) < NPROC" and "k_ready s" and "k_free L_queue s"
  obtains r where "add_task p s = Inr (s\<lparr>smp := settle (smp s), task_queue := r\<rparr>)"
    "queue_list r = queue_list (task_queue s) @ [p]"
proof -
  define r where "r = (task_queue s)\<lparr>q_empty := False, q_data := (q_data (task_queue s))[q_tail (task_queue s) := p],
      q_tail := (q_tail (task_queue s) + 1) mod NPROC\<rparr>"
  have "\<not> (\<not> q_empty (task_queue s) \<and> q_front (task_queue s) = q_tail (task_queue s))"
    using queue_full_iff [OF assms(1)] assms(2) by simp
  then have "add_task p s = Inr (s\<lparr>smp := settle (smp s), task_queue := r\<rparr>)"
    using assms(3,4) by (simp add: add_task_def push_queue_eq r_def k_ready_def k_free_def)
  moreover have "queue_list r = queue_list (task_queue s) @ [p]"
    using queue_push_list [OF assms(1,2), of p, folded r_def] by simp
  ultimately show thesis by (rule that)
qed

lemma wakeup_one_eq:
  assumes l: "locks_ready s" and i: "sched_inv None (view s)" and p: "p < NPROC"
  shows "\<exists>t. wakeup_one ch p s = Inr t \<and> only_woken s t \<and> proc_pool t = make_ready {q. q = p \<and> sleeper ch s q} s \<and>
    queue_list (task_queue t) = queue_list (task_queue s) @ (if sleeper ch s p then [p] else [])"
proof -
  have k: "k_ready s" "k_free L_queue s" "k_free (L_proc p) s" using l p by (simp_all add: locks_ready_def)
  have m: "cpu_ready (smp s)" "lock_free L_queue (smp s)" "lock_free (L_proc p) (smp s)"
    using k by (simp_all add: k_ready_def k_free_def)
  show ?thesis
  proof (cases "sleeper ch s p")
    case False
    then have "\<not> (p_state (proc_pool s p) = SLEEPING \<and> p_sleep_chan (proc_pool s p) = ch)" by (simp add: sleeper_def)
    then have "wakeup_one ch p s = Inr (s\<lparr>smp := settle (smp s)\<rparr>)"
      using k_release_taken [OF m(1,3), of "k_take (L_proc p) s"]
      by (auto simp: wakeup_one_def k_acquire_free [OF k(1,3)])
    moreover have "proc_pool s = make_ready {q. q = p \<and> sleeper ch s q} s"
      using False by (auto simp: make_ready_def)
    ultimately show ?thesis using False by (simp add: only_woken_def)
  next
    case True
    have q: "queue_inv (task_queue s)" using sched_inv_queue [OF i] by (simp add: view_sel)
    have room: "queue_len (task_queue s) < NPROC"
      using queue_room [OF i p] True by (simp add: sleeper_def)
    let ?s1 = "upd_proc p (\<lambda>q. q\<lparr>p_state := RUNNABLE\<rparr>) (k_take (L_proc p) s)"
    have s1: "queue_inv (task_queue ?s1)" "queue_len (task_queue ?s1) < NPROC" "k_ready ?s1" "k_free L_queue ?s1"
      using q room m by (simp_all add: upd_proc_def k_ready_def k_free_def)
    obtain r where a: "add_task p ?s1 = Inr (?s1\<lparr>smp := settle (take_lock (L_proc p) (smp s)), task_queue := r\<rparr>)"
      and r: "queue_list r = queue_list (task_queue s) @ [p]"
      using add_task_run [OF s1, of p] by (auto simp: upd_proc_def)
    have rel: "k_release (L_proc p) (?s1\<lparr>smp := settle (take_lock (L_proc p) (smp s)), task_queue := r\<rparr>) =
        Inr (?s1\<lparr>smp := settle (smp s), task_queue := r\<rparr>)"
      by (subst k_release_settled [OF k(1,3)]) simp_all
    have "wakeup_one ch p s = Inr (?s1\<lparr>smp := settle (smp s), task_queue := r\<rparr>)"
      using True unfolding wakeup_one_def sleeper_def k_acquire_free [OF k(1,3)] by (simp add: a rel del: settle_take)
    then show ?thesis
      using True r
      by (auto simp: only_woken_def upd_proc_def make_ready_def fun_eq_iff)
  qed
qed

section \<open>All processes\<close>

lemma wakeup_list_eq:
  assumes "locks_ready s" and "sched_inv None (view s)" and "distinct ps" and "set ps \<subseteq> {..<NPROC}"
  shows "\<exists>t. kfold (wakeup_one ch) ps s = Inr t \<and> only_woken s t \<and> proc_pool t = make_ready {q \<in> set ps. sleeper ch s q} s \<and>
    queue_list (task_queue t) = queue_list (task_queue s) @ filter (sleeper ch s) ps"
  using assms
proof (induction ps arbitrary: s)
  case Nil
  then show ?case by (simp add: make_ready_def fun_eq_iff)
next
  case (Cons p ps)
  then have p: "p < NPROC" "p \<notin> set ps" by simp_all
  obtain t where t: "wakeup_one ch p s = Inr t" "only_woken s t" "proc_pool t = make_ready {q. q = p \<and> sleeper ch s q} s"
      "queue_list (task_queue t) = queue_list (task_queue s) @ (if sleeper ch s p then [p] else [])"
    using wakeup_one_eq [OF Cons.prems(1,2) p(1)] by blast
  have i: "sched_inv None (view t)" using endsD [OF wakeup_one_view [OF Cons.prems(2) p(1)] t(1)] by simp
  have same: "sleeper ch t q = sleeper ch s q" if "q \<noteq> p" for q
    using that by (simp add: sleeper_def t(3) make_ready_def)
  have fl: "filter (sleeper ch t) ps = filter (sleeper ch s) ps"
    by (rule filter_cong) (use same p(2) in \<open>simp, metis\<close>)
  obtain u where u: "kfold (wakeup_one ch) ps t = Inr u" "only_woken t u" "proc_pool u = make_ready {q \<in> set ps. sleeper ch t q} t"
      "queue_list (task_queue u) = queue_list (task_queue t) @ filter (sleeper ch s) ps"
    using Cons.IH [of t] Cons.prems i only_woken_locks_ready [OF t(2)] unfolding fl by auto
  have "proc_pool u = make_ready {q \<in> set (p # ps). sleeper ch s q} s"
    using same p(2) by (auto simp: u(3) t(3) make_ready_def fun_eq_iff)
  then show ?case using t u only_woken_trans [OF t(2) u(2)] by auto
qed

lemma wakeup_eq:
  assumes "locks_ready s" and "sched_inv None (view s)"
  shows "\<exists>t. wakeup ch s = Inr t \<and> only_woken s t \<and> proc_pool t = make_ready {q. q < NPROC \<and> sleeper ch s q} s \<and>
    queue_list (task_queue t) = queue_list (task_queue s) @ filter (sleeper ch s) [0..<NPROC]"
  using wakeup_list_eq [OF assms, of "[0..<NPROC]" ch] unfolding wakeup_def by (simp add: subset_iff)

section \<open>The property\<close>

text \<open>C22. \<^verbatim>\<open>wakeup\<close> returns whatever the processes do: it takes and releases the lock of every
  process, and the queue never overflows. It makes exactly the processes that sleep on the channel
  runnable, puts them at the end of the ready queue in the order of the table, and changes nothing else;
  no lock stays taken.\<close>

theorem wakeup_correct:
  assumes "k_ready s" and "k_free L_queue s" and "\<And>p. p < NPROC \<Longrightarrow> k_free (L_proc p) s" and "sched_inv None (view s)"
  shows "\<exists>t. wakeup ch s = Inr t \<and>
    (\<forall>p. proc_pool t p =
      (if p < NPROC \<and> p_state (proc_pool s p) = SLEEPING \<and> p_sleep_chan (proc_pool s p) = ch
       then (proc_pool s p)\<lparr>p_state := RUNNABLE\<rparr> else proc_pool s p)) \<and>
    queue_list (task_queue t) = queue_list (task_queue s) @
      filter (\<lambda>p. p_state (proc_pool s p) = SLEEPING \<and> p_sleep_chan (proc_pool s p) = ch) [0..<NPROC] \<and>
    t = s\<lparr>smp := smp t, proc_pool := proc_pool t, task_queue := task_queue t\<rparr> \<and> settle (smp t) = settle (smp s)"
proof -
  have "locks_ready s" using assms(1-3) by (simp add: locks_ready_def)
  from wakeup_eq [OF this assms(4), of ch] show ?thesis
    unfolding only_woken_def make_ready_def sleeper_def by auto
qed

definition wakeup_demo :: kst where
  "wakeup_demo = sched_demo\<lparr>proc_pool := (\<lambda>p. if p \<in> {1, 3}
     then idle_proc\<lparr>p_state := SLEEPING, p_sleep_chan := Some Ch_cons, p_context := In_sched True (K_read 0 1 1)\<rparr>
     else proc_pool sched_demo p)\<rparr>"

lemma wakeup_demo_ready: "k_ready wakeup_demo" "k_free l wakeup_demo"
  using sched_demo_ready by (simp_all add: wakeup_demo_def k_ready_def k_free_def)

lemma wakeup_demo_inv: "sched_inv None (view wakeup_demo)"
  using sched_demo_queue
  by (auto simp: wakeup_demo_def sched_inv_def view_def sched_demo_def boot_kst_def boot_smp_def boot_cpu_def idle_proc_def
      running_def resumable_def spinlock_init_def NPROC_def)

lemma wakeup_demo_sleepers:
  "filter (\<lambda>p. p_state (proc_pool wakeup_demo p) = SLEEPING \<and> p_sleep_chan (proc_pool wakeup_demo p) = Some Ch_cons)
    [0..<NPROC] = [1, 3]"
proof -
  have "p_state (proc_pool wakeup_demo p) = SLEEPING \<and> p_sleep_chan (proc_pool wakeup_demo p) = Some Ch_cons \<longleftrightarrow> p = 1 \<or> p = 3" for p
    by (auto simp: wakeup_demo_def sched_demo_def idle_proc_def)
  moreover have "[0..<NPROC] = [0..<4] @ [4..<NPROC]"
    using upt_add_eq_append [of 0 4 "NPROC - 4"] by (simp add: NPROC_def)
  moreover have "[0..<4::nat] = [0, 1, 2, 3]" by (simp add: upt_rec)
  moreover have "filter (\<lambda>p. p = 1 \<or> p = 3) [4..<NPROC] = []" by (simp add: filter_empty_conv)
  ultimately show ?thesis by simp
qed

theorem wakeup_correct_witness:
  "\<exists>t. wakeup (Some Ch_cons) wakeup_demo = Inr t \<and> queue_list (task_queue t) = [0, 1, 3] \<and>
    p_state (proc_pool t 3) = RUNNABLE"
proof -
  have "queue_list (task_queue wakeup_demo) = [0]" using sched_demo_queue by (simp add: wakeup_demo_def)
  moreover have "p_state (proc_pool wakeup_demo 3) = SLEEPING" "p_sleep_chan (proc_pool wakeup_demo 3) = Some Ch_cons"
    by (simp_all add: wakeup_demo_def)
  ultimately show ?thesis
    using wakeup_correct [OF wakeup_demo_ready(1) wakeup_demo_ready(2) wakeup_demo_ready(2) wakeup_demo_inv, of "Some Ch_cons"]
    unfolding wakeup_demo_sleepers by (auto simp: NPROC_def)
qed

end
