(* ===== verification/Calls.thy ===== *)
theory Calls imports Steps begin

text \<open>
  System calls end to end: from the trap that enters the kernel, through the dispatcher, to the return to
  user mode; what the calls that only read the state answer; and the errors.
\<close>

section \<open>A process in user mode\<close>

text \<open>
  The process \<open>p\<close> runs in user mode on this CPU: interrupts are off as the trap has left them, the trap
  came from user mode, and the trap frame is a page the kernel can write.
\<close>

definition in_user :: "nat \<Rightarrow> kst \<Rightarrow> bool" where
  "in_user p s \<longleftrightarrow> tp (smp s) < NCPU \<and> c_proc (this_cpu (smp s)) = Some p \<and> \<not> c_sie (this_cpu (smp s)) \<and>
     csr_sstatus (hart_regs s) AND SSTATUS_SPP = 0 \<and> IS_ALIGNED (kernel_trap_entry (img s)) 4 \<and>
     PGALIGNED (p_trapframe (proc_pool s p)) \<and> page_mapped s (p_trapframe (proc_pool s p))"

text \<open>What a call answers that neither changes the state nor waits: the pids and the errors.\<close>

definition known :: "i32 \<Rightarrow> bool" where
  "known nr \<longleftrightarrow> nr \<in> {SYS_write, SYS_read, SYS_exit, SYS_sched_yield, SYS_gettimeofday, SYS_getpid, SYS_getppid, SYS_clone,
     SYS_execve, SYS_wait4, SYS_spawn, SYS_sbrk}"

definition answer :: "nat \<Rightarrow> i32 \<Rightarrow> i32 \<Rightarrow> kst \<Rightarrow> i32 option" where
  "answer p nr fd s =
     (if nr = SYS_getpid then Some (p_pid (proc_pool s p))
      else if nr = SYS_getppid then Some (case p_parent (proc_pool s p) of None \<Rightarrow> 0 | Some q \<Rightarrow> p_pid (proc_pool s q))
      else if nr = SYS_spawn \<or> nr = SYS_write \<and> fd \<noteq> STDOUT \<or> nr = SYS_read \<and> fd \<noteq> STDIN \<or> \<not> known nr then Some (-1)
      else None)"

lemma tf_slots:
  "tf + TF_kernel_satp = slot tf 0" "tf + TF_kernel_sp = slot tf 1" "tf + TF_kernel_trap = slot tf 2" "tf + TF_epc = slot tf 3"
  "tf + TF_kernel_hartid = slot tf 4" "tf + TF_a0 = slot tf 14" "tf + TF_a1 = slot tf 15" "tf + TF_a2 = slot tf 16"
  "tf + TF_a3 = slot tf 17" "tf + TF_a4 = slot tf 18" "tf + TF_a5 = slot tf 19" "tf + TF_a7 = slot tf 21"
  by (simp_all add: slot_def TF_kernel_satp_def TF_kernel_sp_def TF_kernel_trap_def TF_epc_def TF_kernel_hartid_def TF_a0_def
      TF_a1_def TF_a2_def TF_a3_def TF_a4_def TF_a5_def TF_a7_def)

lemma curr_in_user: "in_user p s \<Longrightarrow> curr_proc s = Inr p"
  by (simp add: in_user_def curr_proc_def mycpu_def)

lemma answer_same: "proc_pool t = proc_pool s \<Longrightarrow> answer p nr fd t = answer p nr fd s"
  by (simp only: answer_def)

lemma answer_switch:
  assumes "answer p nr (ucast a0) s = Some v" and "curr_proc s = Inr p"
  shows "syscall_switch nr a0 a1 a2 s = Inr (Ret (scast v), s)"
  using assms
  by (auto simp: answer_def syscall_switch_def known_def sys_getpid_def sys_getppid_def sys_write_def sys_read_def sys_spawn_def
      SYS_defs split: if_splits option.splits)

section \<open>The dispatcher\<close>

abbreviation tf_of :: "nat \<Rightarrow> kst \<Rightarrow> u64" where
  "tf_of p s \<equiv> p_trapframe (proc_pool s p)"

lemma ucast_scast_32 [simp]: "ucast (scast (v :: i32) :: u64) = v"
  by (rule bit_eqI) (auto simp: bit_ucast_iff bit_signed_iff)

lemma syscall_answers:
  assumes "curr_proc s = Inr p" and "PGALIGNED (tf_of p s)" and "page_mapped s (tf_of p s)"
    and "answer p (ucast (ld64 (mem s) (slot (tf_of p s) 21))) (ucast (ld64 (mem s) (slot (tf_of p s) 14))) s = Some v"
  shows "syscall s = Inr (Ret (), s\<lparr>mem := st64 (mem s) (slot (tf_of p s) 14) (scast v)\<rparr>)"
  using assms answer_switch [OF assms(4,1)]
  by (simp add: syscall_def tf_slots load64_slot store64_slot syscall_return_def)

section \<open>The return to user mode\<close>

text \<open>What \<^verbatim>\<open>usertrapret\<close> leaves: the registers it sets, and the slots of the trap frame it fills.\<close>

definition user_status :: "u64 \<Rightarrow> bool" where
  "user_status x \<longleftrightarrow> x AND SSTATUS_SPP = 0 \<and> x AND SSTATUS_SPIE \<noteq> 0 \<and> x AND SSTATUS_SIE = 0"

lemma bit_constants:
  "bit SSTATUS_SPP n \<longleftrightarrow> n = 8" "bit SSTATUS_SPIE n \<longleftrightarrow> n = 5" "bit SSTATUS_SIE n \<longleftrightarrow> n = 1"
  unfolding SSTATUS_SPP_def SSTATUS_SPIE_def SSTATUS_SIE_def by (auto simp only: bit_push_bit_iff bit_1_iff possible_bit_word) auto

lemma and_bit_zero: "bit c = (\<lambda>n. n = k) \<Longrightarrow> k < 64 \<Longrightarrow> x AND c = 0 \<longleftrightarrow> \<not> bit (x :: u64) k"
proof -
  assume c: "bit c = (\<lambda>n. n = k)" and k: "k < 64"
  have "x AND c = 0 \<longleftrightarrow> (\<forall>n. \<not> bit (x AND c) n)" by (metis bit_0_eq bit_eqI bot_apply bot_bool_def)
  also have "\<dots> \<longleftrightarrow> \<not> bit x k" by (auto simp: bit_and_iff c)
  finally show ?thesis .
qed

lemmas status_bits =
  and_bit_zero [of SSTATUS_SPP 8, OF ext [OF bit_constants(1)]] and_bit_zero [of SSTATUS_SPIE 5, OF ext [OF bit_constants(2)]]
  and_bit_zero [of SSTATUS_SIE 1, OF ext [OF bit_constants(3)]]

lemma r_sstatus_off:
  "\<not> intr_get (smp s) \<Longrightarrow> r_sstatus s AND SSTATUS_SPP = 0 \<longleftrightarrow> csr_sstatus (hart_regs s) AND SSTATUS_SPP = 0"
  by (simp add: r_sstatus_def status_bits bit_and_iff bit_or_iff bit_not_iff bit_constants)

lemma status_nonzero [simp]: "SSTATUS_SPIE \<noteq> 0"
  by (simp add: SSTATUS_SPIE_def)

lemma user_status_made:
  "\<not> intr_get (smp s) \<Longrightarrow> user_status ((r_sstatus s AND NOT SSTATUS_SPP) OR SSTATUS_SPIE)"
  by (simp add: user_status_def r_sstatus_def status_bits bit_and_iff bit_or_iff bit_not_iff bit_constants)

text \<open>Only the registers of this CPU and the memory have changed.\<close>

definition returned :: "nat \<Rightarrow> u64 \<Rightarrow> mem \<Rightarrow> kst \<Rightarrow> kst" where
  "returned p epc m s = s\<lparr>mem := m, regs := (regs s)(tp (smp s) := (hart_regs s)\<lparr>
     csr_sepc := epc, csr_sstatus := (r_sstatus s AND NOT SSTATUS_SPP) OR SSTATUS_SPIE,
     csr_satp := MAKE_SATP (KVA_TO_PA (mm_pgt (mms s (p_mm (proc_pool s p))))),
     csr_stvec := (TRAMPOLINE + (uservec_addr (img s) - trampoline_addr (img s))) AND NOT 3\<rparr>)\<rparr>"

definition trap_info :: "nat \<Rightarrow> kst \<Rightarrow> mem \<Rightarrow> mem" where
  "trap_info p s m = st64 (st64 (st64 (st64 m (slot (tf_of p s) 0) (r_satp s))
     (slot (tf_of p s) 1) (p_kstack (proc_pool s p) + KERNEL_STACK_SIZE)) (slot (tf_of p s) 2) (usertrap_addr (img s)))
     (slot (tf_of p s) 4) (of_nat (tp (smp s)))"

lemma usertrapret_returned:
  assumes "curr_proc s = Inr p" and "\<not> intr_get (smp s)" and "PGALIGNED (tf_of p s)" and "page_mapped s (tf_of p s)"
  shows "usertrapret s = Inr (returned p (ld64 (mem s) (slot (tf_of p s) 3)) (trap_info p s (mem s)) s)"
proof -
  let ?tf = "tf_of p s"
  obtain m where m: "m = st64 (st64 (st64 (st64 (mem s) (slot ?tf 0) (r_satp s))
       (slot ?tf 1) (p_kstack (proc_pool s p) + KERNEL_STACK_SIZE)) (slot ?tf 2) (usertrap_addr (img s)))
       (slot ?tf 4) (of_nat (tp (smp s)))" by blast
  have epc: "ld64 m (slot ?tf 3) = ld64 (mem s) (slot ?tf 3)" by (simp add: m ld64_st64_slot assms(3) del: slot_0)
  have pm: "page_mapped (s\<lparr>mem := m\<rparr>) ?tf = page_mapped s ?tf" for m by (simp add: page_mapped_def mapped_def)
  obtain x where x: "x = (r_sstatus s AND NOT SSTATUS_SPP) OR SSTATUS_SPIE" by blast
  have off: "x AND SSTATUS_SIE = 0" using user_status_made [OF assms(2)] by (simp add: user_status_def x)
  have rs: "r_sstatus (w_sepc e (s\<lparr>mem := m\<rparr>)) = r_sstatus s" for e m
    by (simp add: r_sstatus_def w_sepc_def upd_regs_def)
  have idle: "intr_off (smp s) = smp s" by (rule intr_off_idle [OF assms(2)])
  show ?thesis
    unfolding usertrapret_def tf_slots
    by (simp add: assms(1,2,4) pm store64_slot load64_slot m [symmetric] epc Let_def rs x [symmetric] del: slot_0,
      simp add: returned_def trap_info_def m [symmetric] x [symmetric] userret_jump_def w_stvec_def w_satp_def w_sstatus_def
        upd_regs_def off idle w_sepc_def del: slot_0)
qed

section \<open>The whole trap\<close>

lemma intr_off_on: "\<not> intr_get m \<Longrightarrow> intr_off (intr_on m) = m"
proof (cases m)
  case (fields cs ls c)
  assume "\<not> intr_get m"
  moreover obtain h p k n i e where "cs c = \<lparr>c_mhart_id = h, c_proc = p, c_inkernel_trap = k, c_noff = n,
      c_interrupt_on = i, c_sie = e\<rparr>"
    by (cases "cs c")
  ultimately show ?thesis using fields by (simp add: cpu_ops fun_upd_idem)
qed

text \<open>The memory when the process goes on, from the one at the trap.\<close>

definition after_call :: "nat \<Rightarrow> i32 \<Rightarrow> kst \<Rightarrow> mem" where
  "after_call p v s = st64 (st64 (mem s) (slot (tf_of p s) 3) (ld64 (mem s) (slot (tf_of p s) 3) + 4)) (slot (tf_of p s) 14) (scast v)"

lemma usertrap_answers:
  assumes u: "in_user p s" and cause: "csr_scause (hart_regs s) = UserEnvCall"
    and a: "answer p (ucast (ld64 (mem s) (slot (tf_of p s) 21))) (ucast (ld64 (mem s) (slot (tf_of p s) 14))) s = Some v"
  shows "usertrap s = Inr (Ret (), returned p (ld64 (mem s) (slot (tf_of p s) 3) + 4) (trap_info p s (after_call p v s)) s)"
proof -
  let ?tf = "tf_of p s"
  have tf: "PGALIGNED ?tf" "page_mapped s ?tf" and off: "\<not> intr_get (smp s)" and al: "IS_ALIGNED (kernel_trap_entry (img s)) 4"
    and spp: "csr_sstatus (hart_regs s) AND SSTATUS_SPP = 0" and tp: "tp (smp s) < NCPU" "c_proc (this_cpu (smp s)) = Some p"
    using u by (simp_all add: in_user_def intr_get_def)
  obtain s1 where s1: "s1 = w_stvec (kernel_trap_entry (img s)) s" by blast
  have sel: "smp s1 = smp s" "mem s1 = mem s" "proc_pool s1 = proc_pool s" "kmap s1 = kmap s" "mms s1 = mms s" "img s1 = img s"
    "csr_sstatus (hart_regs s1) = csr_sstatus (hart_regs s)" "csr_scause (hart_regs s1) = csr_scause (hart_regs s)"
    "csr_satp (hart_regs s1) = csr_satp (hart_regs s)"
    by (simp_all add: s1 w_stvec_def upd_regs_def)
  have c1: "curr_proc s1 = Inr p" using tp by (simp add: curr_proc_def mycpu_def sel)
  have r1: "r_sstatus s1 AND SSTATUS_SPP = 0" using r_sstatus_off [of s1] spp off by (metis sel(1,7))
  obtain s2 where s2: "s2 = k_intr_on (s1\<lparr>mem := st64 (mem s) (slot ?tf 3) (ld64 (mem s) (slot ?tf 3) + 4)\<rparr>)" by blast
  have sel2: "mem s2 = st64 (mem s) (slot ?tf 3) (ld64 (mem s) (slot ?tf 3) + 4)" "proc_pool s2 = proc_pool s" "smp s2 = intr_on (smp s)"
    "kmap s2 = kmap s"
    by (simp_all add: s2 k_intr_on_def sel)
  have pm: "page_mapped s1 ?tf" "page_mapped s2 ?tf" using tf(2) by (simp_all add: page_mapped_def mapped_def sel sel2)
  have c2: "curr_proc s2 = Inr p" using tp by (simp add: curr_proc_def sel2 cpu_ops)
  have "answer p (ucast (ld64 (mem s2) (slot ?tf 21))) (ucast (ld64 (mem s2) (slot ?tf 14))) s2 = Some v"
    using a tf(1) by (simp add: sel2 ld64_st64_slot answer_same [OF sel2(2)] del: slot_0)
  then have sys: "syscall s2 = Inr (Ret (), s2\<lparr>mem := after_call p v s\<rparr>)"
    using syscall_answers [OF c2] tf pm by (simp add: sel2 after_call_def)
  obtain r where r: "r = k_intr_off (s2\<lparr>mem := after_call p v s\<rparr>)" by blast
  have selr: "smp r = smp s" "mem r = after_call p v s" "proc_pool r = proc_pool s" "kmap r = kmap s" "img r = img s"
    "csr_satp (hart_regs r) = csr_satp (hart_regs s)"
    using sel(9) by (simp_all add: r k_intr_off_def s2 k_intr_on_def sel intr_off_on [OF off])
  have "k_intr_off (k_intr_on s1) = s1" by (simp add: k_intr_off_def k_intr_on_def intr_off_on sel(1) off)
  then have rs: "r = s1\<lparr>mem := after_call p v s\<rparr>" by (cases s1) (simp add: r s2 k_intr_off_def k_intr_on_def)
  have "curr_proc r = Inr p" "\<not> intr_get (smp r)" "PGALIGNED (tf_of p r)" "page_mapped r (tf_of p r)"
    using tp off tf by (simp_all add: curr_proc_def mycpu_def selr page_mapped_def mapped_def)
  note t = usertrapret_returned [OF this]
  have epc: "ld64 (after_call p v s) (slot ?tf 3) = ld64 (mem s) (slot ?tf 3) + 4"
    using tf(1) by (simp add: after_call_def ld64_st64_slot del: slot_0)
  have ret: "returned p e m r = returned p e m s" for e m
    by (simp add: returned_def rs s1 w_stvec_def upd_regs_def r_sstatus_def)
  have info: "trap_info p r m = trap_info p s m" for m
  proof -
    have "r_satp r = r_satp s" by (simp only: r_satp_def selr(6))
    then show ?thesis by (simp add: trap_info_def selr(1-5))
  qed
  have sw: "usertrap_switch (r_scause s1) ?tf s1 = Inr (Ret (), r)"
    by (simp add: usertrap_switch_def r_scause_def cause sel(8) UserEnvCall_def SCAUSE_INTERRUPT_def SCAUSE_EXCEPTION_CODE_MASK_def tf_slots
        load64_slot pm(1) store64_slot sel(2) s2 [symmetric] sys r [symmetric] del: slot_0)
  have "usertrap s = co_end (Ret ()) r"
    by (simp add: usertrap_def set_kerneltrap_def al s1 [symmetric] sel(1,3) off c1 r1 sw)
  then show ?thesis using off by (simp add: co_end_def usertrap_end_def t selr(1-3) epc ret info)
qed

section \<open>The properties\<close>

text \<open>C28. A system call, from the trap to the return: a process that asks for its pid, for the pid of its
  parent, or for something the kernel refuses (a number that is not known, a file other than the console,
  \<^verbatim>\<open>spawn\<close>) goes on in user mode behind the \<^verbatim>\<open>ecall\<close>, in its own address space, with the answer in a0: the
  pid, or -1. The whole state after the call is given: nothing but the memory and four registers of this
  CPU has changed, nothing of the memory outside the trap frame, and in the trap frame only the answer, the program counter
  and what the next trap will need: the kernel's page table, stack and entry, and the number of the CPU.\<close>

theorem simple_call_correct:
  assumes "in_user p s" and "csr_scause (hart_regs s) = UserEnvCall"
    and "answer p (ucast (ld64 (mem s) (slot (tf_of p s) 21))) (ucast (ld64 (mem s) (slot (tf_of p s) 14))) s = Some v"
  shows "\<exists>m t. usertrap s = Inr (Ret (), t) \<and>
    t = s\<lparr>mem := m, regs := (regs s)(tp (smp s) := (hart_regs s)\<lparr>
          csr_sepc := ld64 (mem s) (slot (tf_of p s) 3) + 4,
          csr_sstatus := (r_sstatus s AND NOT SSTATUS_SPP) OR SSTATUS_SPIE,
          csr_satp := MAKE_SATP (KVA_TO_PA (mm_pgt (mms s (p_mm (proc_pool s p))))),
          csr_stvec := (TRAMPOLINE + (uservec_addr (img s) - trampoline_addr (img s))) AND NOT 3\<rparr>)\<rparr> \<and>
    user_status (csr_sstatus (hart_regs t)) \<and>
    (\<forall>i < 512. ld64 m (slot (tf_of p s) i) =
       (if i = 0 then r_satp s else if i = 1 then p_kstack (proc_pool s p) + KERNEL_STACK_SIZE
        else if i = 2 then usertrap_addr (img s) else if i = 3 then ld64 (mem s) (slot (tf_of p s) 3) + 4
        else if i = 4 then of_nat (tp (smp s)) else if i = 14 then scast v else ld64 (mem s) (slot (tf_of p s) i))) \<and>
    (\<forall>x. \<not> in_page (tf_of p s) x \<longrightarrow> m x = mem s x)"
proof -
  define m where "m = trap_info p s (after_call p v s)"
  define t where "t = returned p (ld64 (mem s) (slot (tf_of p s) 3) + 4) m s"
  have u: "usertrap s = Inr (Ret (), t)" unfolding t_def m_def by (rule usertrap_answers [OF assms])
  have al: "PGALIGNED (tf_of p s)" and off: "\<not> intr_get (smp s)" using assms(1) by (simp_all add: in_user_def intr_get_def)
  have st: "csr_sstatus (hart_regs t) = (r_sstatus s AND NOT SSTATUS_SPP) OR SSTATUS_SPIE" by (simp add: t_def returned_def)
  have slots: "ld64 m (slot (tf_of p s) i) =
       (if i = 0 then r_satp s else if i = 1 then p_kstack (proc_pool s p) + KERNEL_STACK_SIZE
        else if i = 2 then usertrap_addr (img s) else if i = 3 then ld64 (mem s) (slot (tf_of p s) 3) + 4
        else if i = 4 then of_nat (tp (smp s)) else if i = 14 then scast v else ld64 (mem s) (slot (tf_of p s) i))"
    if "i < 512" for i
    using that al by (auto simp: m_def trap_info_def after_call_def ld64_st64_slot word_less_nat_alt simp del: slot_0)
  have out: "m x = mem s x" if "\<not> in_page (tf_of p s) x" for x
    using that by (simp add: m_def trap_info_def after_call_def st64_outside del: slot_0)
  show ?thesis
  proof (intro exI [of _ m] exI [of _ t] conjI allI impI u)
    show "user_status (csr_sstatus (hart_regs t))" unfolding st by (rule user_status_made [OF off])
  qed (rule slots out | simp add: t_def returned_def)+
qed

text \<open>The time: from cycles to seconds and microseconds.\<close>

lemma microseconds:
  fixes c :: u64
  defines "sec \<equiv> c div CPU_FREQ" and "usec \<equiv> (c mod CPU_FREQ) * 1000000 div CPU_FREQ"
  shows "unat usec < 10 ^ 6" and "unat sec * 10 ^ 6 + unat usec = unat c * 10 ^ 6 div 12500000"
proof -
  have r: "unat (c mod CPU_FREQ) = unat c mod 12500000" by (simp add: unat_mod CPU_FREQ_def)
  have "unat c mod 12500000 * 1000000 < 2 ^ 64"
    using mod_less_divisor [of 12500000 "unat c"] by simp
  then have m: "unat ((c mod CPU_FREQ) * 1000000) = unat c mod 12500000 * 1000000"
    by (subst unat_mult_lem [THEN iffD1]) (simp_all add: r)
  then have u: "unat usec = unat c mod 12500000 * 1000000 div 12500000"
    by (simp add: usec_def unat_div CPU_FREQ_def)
  have "unat c mod 12500000 * 1000000 < 1000000 * 12500000" using mod_less_divisor [of 12500000 "unat c"] by linarith
  then show "unat usec < 10 ^ 6" unfolding u by (simp add: less_mult_imp_div_less)
  have s: "unat sec = unat c div 12500000" by (simp add: sec_def unat_div CPU_FREQ_def)
  have scale: "n = q * 12500000 + r \<Longrightarrow> n * 10 ^ 6 = (q * 10 ^ 6) * 12500000 + r * 1000000" for n q r :: nat by simp
  have "unat c * 10 ^ 6 = (unat c div 12500000 * 10 ^ 6) * 12500000 + unat c mod 12500000 * 1000000"
    using scale [OF div_mult_mod_eq [of "unat c" 12500000, symmetric]] .
  then have "unat c * 10 ^ 6 div 12500000 = unat c div 12500000 * 10 ^ 6 + unat c mod 12500000 * 1000000 div 12500000"
    by (simp only: div_mult_self3)
  then show "unat sec * 10 ^ 6 + unat usec = unat c * 10 ^ 6 div 12500000" unfolding s u by simp
qed

lemma st64_byte: "i < 8 \<Longrightarrow> st64 m a v (a + of_nat i) = byte_of i v"
  by (simp add: st64_def word_less_nat_alt unat_of_nat_small)

lemma st64_other: "(\<forall>i < 8. x \<noteq> a + of_nat i) \<Longrightarrow> st64 m a v x = m x"
proof -
  assume n: "\<forall>i < 8. x \<noteq> a + of_nat i"
  have "\<not> x - a < 8"
  proof
    assume "x - a < 8"
    then have "unat (x - a) < 8" by (simp add: word_less_nat_alt)
    moreover have "x = a + of_nat (unat (x - a))" by simp
    ultimately show False using n by blast
  qed
  then show ?thesis by (simp add: st64_def)
qed

text \<open>The sixteen bytes of a \<^verbatim>\<open>TimeVal\<close>.\<close>

definition timeval_byte :: "u64 \<Rightarrow> u64 \<Rightarrow> nat \<Rightarrow> u8" where
  "timeval_byte sec usec i = (if i < 8 then byte_of i sec else byte_of (i - 8) usec)"

lemma st64_pair: "i < 16 \<Longrightarrow> st64 (st64 m a v) (a + 8) w (a + of_nat i) = timeval_byte v w i"
proof (cases "i < 8")
  case True
  then have "a + of_nat i \<noteq> a + 8 + of_nat j" if "j < 8" for j
    using word_of_nat_eq_iff_small [of i "8 + j", where 'a = 64] that by (auto simp: add.assoc)
  then show ?thesis using True by (simp add: st64_other st64_byte timeval_byte_def)
next
  case False
  moreover assume "i < 16"
  moreover have "a + of_nat i = a + 8 + of_nat (i - 8)" using False by (simp add: of_nat_diff)
  ultimately show ?thesis using st64_byte [of "i - 8" "st64 m a v" "a + 8" w] by (simp add: timeval_byte_def)
qed

lemma st64_pair_other: "(\<forall>i < 16. x \<noteq> a + of_nat i) \<Longrightarrow> st64 (st64 m a v) (a + 8) w x = m x"
proof -
  assume n: "\<forall>i < 16. x \<noteq> a + of_nat i"
  have "x \<noteq> a + 8 + of_nat i" if "i < 8" for i
    using n [THEN spec, of "8 + i"] that by (simp add: add.assoc)
  moreover have "x \<noteq> a + of_nat i" if "i < 8" for i using n that by simp
  ultimately show ?thesis by (simp add: st64_other)
qed

text \<open>C29. The time of day, for every value of the cycle counter: \<^verbatim>\<open>sys_gettimeofday\<close> stores at the process's address the
  seconds and microseconds since the counter was 0, rounded down to a microsecond, with fewer than a million microseconds; no
  intermediate product overflows. If only the first \<open>k\<close> of the sixteen bytes are on pages of the process, those are stored; the
  call returns 0 even then. Nothing else changes but the buffer on the kernel's stack.\<close>

theorem gettimeofday_correct:
  assumes "curr_proc s = Inr p" and "root = mm_pgt (mms s (p_mm (proc_pool s p)))" and "vm_ok s root ps"
    and "unat val + 16 \<le> unat MAXVA" and "k \<le> 16" and "user_range s root ps val k" and "k < 16 \<longrightarrow> not_user s root (val + of_nat k)"
    and "buffer_ok s root ps (local_buf s) 16" and "unat (local_buf s) + 16 < 2 ^ 64"
    and "apart_from_user s root val (local_buf s) k"
  shows "\<exists>m sec usec. sys_gettimeofday val s = Inr (0, s\<lparr>mem := m\<rparr>) \<and>
    unat usec < 10 ^ 6 \<and> unat sec * 10 ^ 6 + unat usec = unat (cycle s) * 10 ^ 6 div 12500000 \<and>
    (\<forall>i < k. m (user_kva (mem s) root (val + of_nat i)) = timeval_byte sec usec i) \<and>
    (\<forall>x. (\<forall>i < k. x \<noteq> user_kva (mem s) root (val + of_nat i)) \<longrightarrow> (\<forall>i < 16. x \<noteq> local_buf s + of_nat i) \<longrightarrow> m x = mem s x)"
proof -
  let ?mm = "p_mm (proc_pool s p)" and ?b = "local_buf s"
  define sec where "sec = cycle s div CPU_FREQ"
  define usec where "usec = (cycle s mod CPU_FREQ) * 1000000 div CPU_FREQ"
  define m1 where "m1 = st64 (st64 (mem s) ?b sec) (?b + 8) usec"
  define t where "t = s\<lparr>mem := m1\<rparr>"
  have km: "kmap s (?b + of_nat i)" if "i < 16" for i using assms(8) that by (simp add: buffer_ok_def)
  have mp: "mapped s ?b 8" "mapped (s\<lparr>mem := m'\<rparr>) (?b + 8) 8" for m'
  proof -
    show "mapped s ?b 8" using km by (simp add: mapped_def)
    have "kmap s (?b + 8 + of_nat i)" if "i < 8" for i using km [of "8 + i"] that by (simp add: add.assoc)
    then show "mapped (s\<lparr>mem := m'\<rparr>) (?b + 8) 8" by (simp add: mapped_def)
  qed
  have m1: "m1 x = mem s x" if "\<forall>i < 16. x \<noteq> ?b + of_nat i" for x using st64_pair_other [OF that] by (simp add: m1_def)
  have w: "writes_apart s root ps m1" unfolding writes_apart_def using m1 assms(8) unfolding buffer_ok_def by metis
  note v = vm_ok_write [OF assms(3) w] and r = user_range_write [OF assms(3) w]
  have ap: "apart_from_user t root val ?b k"
    using assms(10) by (simp add: apart_from_user_def t_def r(2))
  have "\<exists>m'. copy_to_user ?mm val ?b 16 t = Inr (if k = unat (16 :: u64) then 0 else -1, t\<lparr>mem := m'\<rparr>) \<and> copied_out (mem t) m' root val ?b k"
  proof (rule copy_to_user_run)
    show "vm_ok t root ps" "user_range t root ps val k" "root = mm_pgt (mms t ?mm)" using v(1) r(1) assms(2,6) by (simp_all add: t_def)
    show "k < unat (16 :: u64) \<longrightarrow> not_user t root (val + of_nat k)" using assms(7) r(3) by (simp add: t_def)
    show "\<forall>i < k. kmap t (?b + of_nat i)" using km assms(5) by (simp add: t_def)
  qed (use assms ap in simp_all)
  then obtain m e where m: "copy_to_user ?mm val ?b 16 t = Inr (e, s\<lparr>mem := m\<rparr>)" "copied_out m1 m root val ?b k"
    by (auto simp: t_def)
  have "sys_gettimeofday val s = Inr (0, s\<lparr>mem := m\<rparr>)"
    using assms(1) mp m(1) by (simp add: sys_gettimeofday_def Let_def get_cycle_def r_time_def store64_def m1_def t_def sec_def usec_def)
  moreover have "unat usec < 10 ^ 6" "unat sec * 10 ^ 6 + unat usec = unat (cycle s) * 10 ^ 6 div 12500000"
    unfolding sec_def usec_def by (rule microseconds)+
  moreover have "m (user_kva (mem s) root (val + of_nat i)) = timeval_byte sec usec i" if "i < k" for i
  proof -
    have "m1 (?b + of_nat i) = timeval_byte sec usec i" unfolding m1_def by (rule st64_pair) (use that assms(5) in simp)
    then show ?thesis using m(2) that unfolding copied_out_def copied_def by (simp add: r(2))
  qed
  moreover have "m x = mem s x" if "\<forall>i < k. x \<noteq> user_kva (mem s) root (val + of_nat i)" "\<forall>i < 16. x \<noteq> ?b + of_nat i" for x
    using m(2) m1 [OF that(2)] that(1) unfolding copied_out_def copied_def by (simp add: r(2))
  ultimately show ?thesis by blast
qed

section \<open>Examples\<close>

text \<open>Process 0, with pid 7, asks for its pid.\<close>

definition user_demo :: kst where
  "user_demo = boot_kst\<lparr>smp := boot_smp\<lparr>cpus := (\<lambda>_. boot_cpu\<lparr>c_proc := Some 0, c_sie := False\<rparr>)\<rparr>,
     proc_pool := (\<lambda>_. idle_proc\<lparr>p_state := RUNNING, p_pid := 7, p_trapframe := 0xffffffc080400000\<rparr>),
     mem := st64 (\<lambda>_. 0) (slot 0xffffffc080400000 21) 172, regs := (\<lambda>_. idle_csrs\<lparr>csr_scause := 8\<rparr>), cycle := 18750000\<rparr>"

lemma user_demo_sel:
  "in_user 0 user_demo" "csr_scause (hart_regs user_demo) = UserEnvCall" "tf_of 0 user_demo = 0xffffffc080400000"
  "mem user_demo = st64 (\<lambda>_. 0) (slot 0xffffffc080400000 21) 172" "curr_proc user_demo = Inr 0" "mapped user_demo a n"
  by (simp_all add: in_user_def user_demo_def boot_kst_def boot_smp_def boot_cpu_def NCPU_def idle_csrs_def idle_image_def
      IS_ALIGNED_def PGALIGNED_def PGSIZE_def page_mapped_def mapped_def UserEnvCall_def curr_proc_def mycpu_def)

theorem simple_call_correct_witness:
  "\<exists>t. usertrap user_demo = Inr (Ret (), t) \<and> csr_sepc (hart_regs t) = 4 \<and> ld64 (mem t) (slot 0xffffffc080400000 14) = 7"
proof -
  have al: "PGALIGNED 0xffffffc080400000" by (simp add: PGALIGNED_def PGSIZE_def)
  have l: "ld64 (mem user_demo) (slot 0xffffffc080400000 21) = 172" "ld64 (mem user_demo) (slot 0xffffffc080400000 3) = 0"
    by (simp_all add: user_demo_sel ld64_st64_slot al del: slot_0)
  have "answer 0 172 fd user_demo = Some 7" for fd by (simp add: answer_def SYS_getpid_def user_demo_def)
  then have "answer 0 (ucast (ld64 (mem user_demo) (slot (tf_of 0 user_demo) 21)))
      (ucast (ld64 (mem user_demo) (slot (tf_of 0 user_demo) 14))) user_demo = Some 7"
    by (simp add: user_demo_sel(3) l)
  from simple_call_correct [OF user_demo_sel(1,2) this] obtain m t where "usertrap user_demo = Inr (Ret (), t)"
    "t = user_demo\<lparr>mem := m, regs := (regs user_demo)(tp (smp user_demo) := (hart_regs user_demo)\<lparr>
          csr_sepc := ld64 (mem user_demo) (slot (tf_of 0 user_demo) 3) + 4,
          csr_sstatus := (r_sstatus user_demo AND NOT SSTATUS_SPP) OR SSTATUS_SPIE,
          csr_satp := MAKE_SATP (KVA_TO_PA (mm_pgt (mms user_demo (p_mm (proc_pool user_demo 0))))),
          csr_stvec := (TRAMPOLINE + (uservec_addr (img user_demo) - trampoline_addr (img user_demo))) AND NOT 3\<rparr>)\<rparr>"
    "ld64 m (slot (tf_of 0 user_demo) 14) = scast (7 :: i32)"
    by (auto dest: spec [of _ 14])
  then show ?thesis by (intro exI [of _ t]) (auto simp: user_demo_sel(3) l)
qed

text \<open>A second and a half after the start, a process with a page at \<open>0x1000\<close> asks for the time.\<close>

definition time_demo :: "kst \<Rightarrow> kst" where
  "time_demo t = t\<lparr>smp := smp user_demo, proc_pool := (\<lambda>_. idle_proc\<lparr>p_mm := 32\<rparr>), local_buf := 0x5000, cycle := 18750000\<rparr>"

lemma time_demo_sel:
  "curr_proc (time_demo t) = Inr 0" "p_mm (proc_pool (time_demo t) p) = 32" "mms (time_demo t) = mms t" "local_buf (time_demo t) = 0x5000"
  "mem (time_demo t) = mem t" "cycle (time_demo t) = 18750000" "kmap (time_demo t) = kmap t"
  "managed (time_demo t) q = managed t q" "page_mapped (time_demo t) q = page_mapped t q"
  by (simp_all add: time_demo_def curr_proc_def mycpu_def user_demo_def boot_smp_def boot_cpu_def NCPU_def managed_def page_mapped_def
      mapped_def)

lemma time_demo_vm: "vm_ok t root ps \<Longrightarrow> vm_ok (time_demo t) root ps"
proof -
  assume ok: "vm_ok t root ps"
  have "k_ready (time_demo t)" "k_free l (time_demo t)" for l
    by (simp_all add: time_demo_def k_ready_def k_free_def cpu_ready_def lock_free_def user_demo_def boot_smp_def boot_cpu_def NCPU_def)
  then show ?thesis using ok by (simp add: vm_ok_def arena_ok_def free_pages_def time_demo_sel) (simp add: time_demo_def)
qed

lemma demo_room:
  obtains s ps where "vm_ok s demo_root ps" "s = time_demo s" "mm_pgt (mms s 32) = demo_root" "user_range s demo_root ps 0x1000 16"
    "buffer_ok s demo_root ps 0x5000 16" "apart_from_user s demo_root 0x1000 0x5000 16"
proof -
  obtain t ps q where t: "vm_ok t demo_root ps" "mm_pgt (mms t 32) = demo_root" "\<And>x. kmap t x"
    "entry (mem t) demo_root 0x1000 = leaf_pte q 0x16" "managed t q" "q \<notin> tables (mem t) demo_root \<union> set ps"
    "\<And>x. x \<in> tables (mem t) demo_root \<union> set ps \<Longrightarrow> managed t x" "kpage_allocator_base t = 0xffffffc080400000"
    by (rule demo_mapped) blast
  have alq: "PGALIGNED q" using t(5) by (simp add: managed_def)
  let ?s = "time_demo t"
  have pg: "page_of (mem ?s) demo_root 0x1000 = q" "user_page ?s demo_root 0x1000"
    using leaf_pte_pa [OF alq, of "0x16"] t(4,5) leaf_pte_user [of "0x16" q]
    by (auto simp: page_of_def user_page_def time_demo_sel PTE_U_def)
  have sm: "unat (x + of_nat i :: u64) = unat x + i" if "unat x < 0x10000" "i < 16" for x :: u64 and i
    using that by (subst unat_add_no_wrap) (simp_all add: unat_of_nat_small)
  have rd: "PGROUNDDOWN (0x1000 + of_nat i) = 0x1000" if "i < 16" for i
    using that by (intro PGROUNDDOWN_add_small) (simp_all add: PGALIGNED_def PGSIZE_def word_less_nat_alt unat_of_nat_small)
  have far: "\<not> in_page y (0x5000 + of_nat i)" if "managed t y" "i < 16" for y i
  proof
    assume "in_page y (0x5000 + of_nat i)"
    then have "PGROUNDDOWN (0x5000 + of_nat i) = y" using that(1) by (simp add: managed_def in_page_PGROUNDDOWN)
    then have "unat y \<le> unat (0x5000 + of_nat i :: u64)"
      using PGROUNDDOWN_le [of "0x5000 + of_nat i"] by (simp only: word_le_nat_alt)
    then have "unat y < 0x10000" using sm [of "0x5000" i] that(2) by simp
    then show False using that(1) by (simp add: managed_def t(8) word_le_nat_alt)
  qed
  show thesis
  proof (rule that [of ?s ps])
    show "user_range ?s demo_root ps 0x1000 16"
      using rd pg t(6) by (simp add: user_range_def readable_def time_demo_sel)
    show "buffer_ok ?s demo_root ps 0x5000 16"
      using far t(3,7) by (simp add: buffer_ok_def time_demo_sel)
    show "apart_from_user ?s demo_root 0x1000 0x5000 16"
      unfolding apart_from_user_def
    proof (intro allI impI)
      fix i j assume "i < (16 :: nat)" "j < (16 :: nat)"
      then show "0x5000 + of_nat i \<noteq> user_kva (mem ?s) demo_root (0x1000 + of_nat j)"
        using far [OF t(5)] user_kva_in_page [of "mem ?s" demo_root "0x1000 + of_nat j"] rd pg(1) by metis
    qed
  qed (use t(1,2) in \<open>simp_all add: time_demo_vm time_demo_sel\<close>, simp add: time_demo_def)
qed

theorem gettimeofday_correct_witness:
  "\<exists>s m. sys_gettimeofday 0x1000 s = Inr (0, s\<lparr>mem := m\<rparr>) \<and> cycle s = 18750000 \<and>
    m (user_kva (mem s) demo_root 0x1000) = 1 \<and> m (user_kva (mem s) demo_root 0x1008) = 0x20 \<and>
    m (user_kva (mem s) demo_root 0x1009) = 0xA1 \<and> m (user_kva (mem s) demo_root 0x100A) = 0x07"
proof -
  obtain s ps where d: "vm_ok s demo_root ps" "s = time_demo s" "mm_pgt (mms s 32) = demo_root" "user_range s demo_root ps 0x1000 16"
    "buffer_ok s demo_root ps 0x5000 16" "apart_from_user s demo_root 0x1000 0x5000 16"
    by (rule demo_room)
  note sel = time_demo_sel [of s, folded d(2)]
  have r: "demo_root = mm_pgt (mms s (p_mm (proc_pool s 0)))" by (simp add: sel(2) d(3))
  from gettimeofday_correct [OF sel(1) r d(1) _ _ d(4)] d(5,6) sel(4)
  obtain m sec usec where m: "sys_gettimeofday 0x1000 s = Inr (0, s\<lparr>mem := m\<rparr>)" "unat usec < 10 ^ 6"
    "unat sec * 10 ^ 6 + unat usec = unat (cycle s) * 10 ^ 6 div 12500000"
    "\<forall>i < 16. m (user_kva (mem s) demo_root (0x1000 + of_nat i)) = timeval_byte sec usec i"
    by (auto simp: MAXVA_small)
  have t: "unat sec * 10 ^ 6 + unat usec = 1500000" using m(3) by (simp add: sel(6))
  then have sec: "unat sec = 1" using m(2) by simp
  then have u: "unat sec = 1" "unat usec = 500000" using t by simp_all
  have c: "sec = 1" "usec = 500000" by (simp_all add: word_unat_eq_iff u)
  have "m (user_kva (mem s) demo_root 0x1000) = 1" "m (user_kva (mem s) demo_root 0x1008) = 0x20"
    "m (user_kva (mem s) demo_root 0x1009) = 0xA1" "m (user_kva (mem s) demo_root 0x100A) = 0x07"
    using m(4) [rule_format, of 0] m(4) [rule_format, of 8] m(4) [rule_format, of 9] m(4) [rule_format, of 10]
    by (simp_all add: timeval_byte_def byte_of_def c)
  with m(1) sel(6) show ?thesis by blast
qed

end
