(* ===== verification/Family.thy ===== *)
theory Family imports Wakeup Calls begin

text \<open>
  Parents and children: what \<^verbatim>\<open>exit\<close> does to the family of a process, and what \<^verbatim>\<open>wait\<close> finds.
\<close>

section \<open>A lock taken and given back while another is held\<close>

text \<open>A CPU that holds a lock: nothing is left to settle.\<close>

definition busy :: "kst \<Rightarrow> bool" where
  "busy s \<longleftrightarrow> k_ready s \<and> settle (smp s) = smp s"

lemma busy_take: "k_ready s \<Longrightarrow> busy (k_take l s)"
  using settle_take [of "smp s" l] by (simp add: busy_def k_ready_def del: settle_take, simp add: cpu_ready_def)

lemma busy_acquire: "busy s \<Longrightarrow> k_free l s \<Longrightarrow> k_acquire l s = Inr (k_take l s)"
  by (simp add: busy_def k_acquire_free)

lemma busy_release:
  "busy s \<Longrightarrow> k_free l s \<Longrightarrow> smp t = take_lock l (smp s) \<Longrightarrow> k_release l t = Inr (t\<lparr>smp := smp s\<rparr>)"
  using k_release_taken [of "smp s" l t] by (simp add: busy_def k_ready_def k_free_def)

lemma busy_cong: "smp t = smp s \<Longrightarrow> busy t = busy s" "smp t = smp s \<Longrightarrow> k_free l t = k_free l s"
  by (simp_all add: busy_def k_ready_def k_free_def)

section \<open>The children of a process that exits\<close>

definition adopted :: "nat \<Rightarrow> nat set \<Rightarrow> kst \<Rightarrow> nat \<Rightarrow> proc" where
  "adopted p A s i =
     (if i \<in> A \<and> i \<noteq> p \<and> p_parent (proc_pool s i) = Some p then (proc_pool s i)\<lparr>p_parent := Some (init_proc s)\<rparr> else proc_pool s i)"

lemma reparent_one_eq:
  assumes "busy s" and "i \<noteq> p \<Longrightarrow> k_free (L_proc i) s"
  shows "reparent_one p i s = Inr (s\<lparr>proc_pool := adopted p {i} s\<rparr>)"
proof (cases "i = p")
  case True
  then have "adopted p {i} s = proc_pool s" by (simp add: adopted_def fun_eq_iff)
  with True show ?thesis by (simp add: reparent_one_def)
next
  case False
  let ?t = "(if p_parent (proc_pool s i) = Some p then upd_proc i (\<lambda>q. q\<lparr>p_parent := Some (init_proc s)\<rparr>) (k_take (L_proc i) s)
    else k_take (L_proc i) s)"
  have "smp ?t = take_lock (L_proc i) (smp s)" by (simp add: upd_proc_def)
  then have "k_release (L_proc i) ?t = Inr (?t\<lparr>smp := smp s\<rparr>)"
    by (rule busy_release [OF assms(1) assms(2) [OF False]])
  moreover have "reparent_one p i s = k_release (L_proc i) ?t"
    using False busy_acquire [OF assms(1) assms(2) [OF False]] by (simp add: reparent_one_def)
  ultimately have "reparent_one p i s = Inr (?t\<lparr>smp := smp s\<rparr>)" by simp
  moreover have "?t\<lparr>smp := smp s\<rparr> = s\<lparr>proc_pool := adopted p {i} s\<rparr>"
  proof (cases "p_parent (proc_pool s i) = Some p")
    case True
    with False have "adopted p {i} s = (proc_pool s)(i := (proc_pool s i)\<lparr>p_parent := Some (init_proc s)\<rparr>)"
      by (auto simp: adopted_def fun_eq_iff)
    with True show ?thesis by (simp add: upd_proc_def)
  next
    case no: False
    then have "adopted p {i} s = proc_pool s" by (auto simp: adopted_def fun_eq_iff)
    with no show ?thesis by simp
  qed
  ultimately show ?thesis by simp
qed

lemma reparent_list_eq:
  "busy s \<Longrightarrow> (\<And>i. i \<in> set is \<Longrightarrow> i \<noteq> p \<Longrightarrow> k_free (L_proc i) s) \<Longrightarrow>
   kfold (reparent_one p) is s = Inr (s\<lparr>proc_pool := adopted p (set is) s\<rparr>)"
proof (induction "is" arbitrary: s)
  case Nil
  have "adopted p {} s = proc_pool s" by (simp add: adopted_def fun_eq_iff)
  then show ?case by simp
next
  case (Cons i "is")
  let ?t = "s\<lparr>proc_pool := adopted p {i} s\<rparr>"
  have "reparent_one p i s = Inr ?t" by (rule reparent_one_eq) (use Cons.prems in auto)
  moreover have "kfold (reparent_one p) is ?t = Inr (?t\<lparr>proc_pool := adopted p (set is) ?t\<rparr>)"
    by (rule Cons.IH) (use Cons.prems in \<open>auto simp: busy_def k_ready_def k_free_def\<close>)
  moreover have "adopted p (set is) ?t = adopted p (set (i # is)) s"
    by (auto simp: adopted_def fun_eq_iff)
  ultimately show ?case by simp
qed

section \<open>exit\<close>

text \<open>The process \<open>p\<close> on this CPU, in a system call with no lock held.\<close>

definition in_call :: "nat \<Rightarrow> kst \<Rightarrow> bool" where
  "in_call p s \<longleftrightarrow> locks_ready s \<and> k_free L_wait s \<and> c_noff (this_cpu (smp s)) = 0 \<and> \<not> c_inkernel_trap (this_cpu (smp s)) \<and>
     curr_proc s = Inr p \<and> sched_inv None (view s)"

lemma in_call_process:
  assumes "in_call p s"
  shows "p < NPROC" and "p_state (proc_pool s p) \<noteq> SLEEPING"
proof -
  have "v_curr (view s) (v_tp (view s)) = Some p" "v_tp (view s) < NCPU"
    using assms by (auto simp: in_call_def curr_proc_def mycpu_def view_sel split: if_splits option.splits)
  then have r: "p \<in> running (view s)" by (rule curr_running)
  have i: "sched_inv None (view s)" using assms by (simp add: in_call_def)
  show "p < NPROC" using i r unfolding sched_inv_def by blast
  show "p_state (proc_pool s p) \<noteq> SLEEPING" using sched_inv_idle [OF i, of p] r by (auto simp: view_sel)
qed

lemma sched_out_eq:
  assumes "k_ready s" and "k_free (L_proc p) s" and "c_noff (this_cpu (smp s)) = 0" and "\<not> c_inkernel_trap (this_cpu (smp s))"
    and "curr_proc s = Inr p" and "smp t = take_lock (L_proc p) (smp s)" and "p_state (proc_pool t p) \<noteq> RUNNING"
  shows "sched_out k t = Inr (upd_proc p (\<lambda>q. q\<lparr>p_context := In_sched (c_sie (this_cpu (smp s))) k\<rparr>) t)"
proof -
  have c: "tp (smp s) < NCPU" "c_proc (this_cpu (smp s)) = Some p"
    using assms(5) by (auto simp: curr_proc_def mycpu_def split: if_splits option.splits)
  have "curr_proc t = Inr p" "holding (L_proc p) (smp t) = Inr True"
    using c by (simp_all add: curr_proc_def mycpu_def holding_def assms(6) take_lock_def)
  then show ?thesis using c assms(3,4,7)
    by (simp add: sched_out_def assms(6) take_lock_def intr_get_def)
qed

lemma with_wait_lock:
  assumes "in_call p s"
  shows "k_acquire L_wait s = Inr (k_take L_wait s)" and "locks_ready (k_take L_wait s)" and "busy (k_take L_wait s)"
    and "sched_inv None (view (k_take L_wait s))"
proof -
  have l: "k_ready s" "k_free L_wait s" "locks_ready s" "sched_inv None (view s)"
    using assms by (simp_all add: in_call_def locks_ready_def)
  show a: "k_acquire L_wait s = Inr (k_take L_wait s)" by (rule k_acquire_free [OF l(1,2)])
  have "ends (\<lambda>t. sched_inv None (view t)) (k_acquire L_wait s)" by (rule k_acquire_view) (simp add: l(4))
  from endsD [OF this a] show "sched_inv None (view (k_take L_wait s))" .
  show "locks_ready (k_take L_wait s)" using l(3) by (simp add: locks_ready_def k_ready_def k_free_def lk.free_after)
  show "busy (k_take L_wait s)" by (rule busy_take [OF l(1)])
qed

definition exited :: "nat \<Rightarrow> i32 \<Rightarrow> kst \<Rightarrow> nat \<Rightarrow> proc" where
  "exited p code s i =
     (let q = adopted p {..<NPROC} (s\<lparr>proc_pool := make_ready {q. q < NPROC \<and> sleeper (map_option Ch_proc (p_parent (proc_pool s p))) s q} s\<rparr>) i in
      if i = p then q\<lparr>p_exit_code := scast code, p_state := ZOMBIE, p_context := In_sched (c_sie (this_cpu (smp s))) K_exit\<rparr> else q)"

lemma exit_eq:
  assumes c: "in_call p s"
  shows "\<exists>t. exit_out code s = Inr t \<and> smp t = take_lock (L_proc p) (smp s) \<and> proc_pool t = exited p code s \<and>
    queue_list (task_queue t) = queue_list (task_queue s) @
      filter (sleeper (map_option Ch_proc (p_parent (proc_pool s p))) s) [0..<NPROC] \<and>
    t = s\<lparr>smp := smp t, proc_pool := proc_pool t, task_queue := task_queue t\<rparr>"
proof -
  let ?ch = "map_option Ch_proc (p_parent (proc_pool s p))"
  let ?s1 = "k_take L_wait s"
  note w = with_wait_lock [OF c]
  have rdy: "k_ready s" "k_free L_wait s" "\<And>i. i < NPROC \<Longrightarrow> k_free (L_proc i) s" and cur: "curr_proc s = Inr p"
    and n0: "c_noff (this_cpu (smp s)) = 0" "\<not> c_inkernel_trap (this_cpu (smp s))"
    using c by (simp_all add: in_call_def locks_ready_def)
  have p: "p < NPROC" by (rule in_call_process [OF c])
  have same: "sleeper ch ?s1 = sleeper ch s" "make_ready A ?s1 = make_ready A s" for ch A
    by (simp_all add: sleeper_def make_ready_def fun_eq_iff)
  obtain s2 where s2: "wakeup ?ch ?s1 = Inr s2" "only_woken ?s1 s2" "proc_pool s2 = make_ready {q. q < NPROC \<and> sleeper ?ch s q} s"
      "queue_list (task_queue s2) = queue_list (task_queue s) @ filter (sleeper ?ch s) [0..<NPROC]"
    using wakeup_eq [OF w(2,4), of ?ch] unfolding same by auto
  have m2: "smp s2 = take_lock L_wait (smp s)"
    using s2(2) rdy(1) by (intro taken_back) (simp_all add: only_woken_def k_ready_def)
  obtain A q where frame: "s2 = ?s1\<lparr>proc_pool := A, task_queue := q\<rparr>"
  proof -
    have "s2 = ?s1\<lparr>smp := smp s2, proc_pool := proc_pool s2, task_queue := task_queue s2\<rparr>" using s2(2) by (simp add: only_woken_def)
    then have "s2 = ?s1\<lparr>proc_pool := proc_pool s2, task_queue := task_queue s2\<rparr>" by (subst (asm) m2) simp
    with that show thesis by blast
  qed
  have A: "A = make_ready {q. q < NPROC \<and> sleeper ?ch s q} s" and q: "queue_list q = queue_list (task_queue s) @ filter (sleeper ?ch s) [0..<NPROC]"
    using s2(3,4) by (simp_all add: frame)
  have b2: "busy s2" using w(3) by (simp add: busy_def k_ready_def m2)
  have f2: "k_free (L_proc i) s2" if "i < NPROC" for i
    using rdy(3) [OF that] by (simp add: k_free_def m2 lk.free_after)
  let ?s3 = "k_take (L_proc p) s2"
  have a3: "k_acquire (L_proc p) s2 = Inr ?s3" by (rule busy_acquire [OF b2 f2 [OF p]])
  have b3: "busy ?s3" using b2 by (intro busy_take) (simp add: busy_def)
  have f3: "k_free (L_proc i) ?s3" if "i \<in> set [0..<NPROC]" "i \<noteq> p" for i
    using f2 [of i] that by (simp add: k_free_def lk.free_after)
  have r: "kfold (reparent_one p) [0..<NPROC] ?s3 = Inr (?s3\<lparr>proc_pool := adopted p (set [0..<NPROC]) ?s3\<rparr>)"
    by (rule reparent_list_eq [OF b3 f3])
  have ad: "adopted p (set [0..<NPROC]) ?s3 = adopted p {..<NPROC} (s\<lparr>proc_pool := A\<rparr>)"
    by (simp add: adopted_def fun_eq_iff frame)
  let ?z = "\<lambda>q. q\<lparr>p_exit_code := scast code, p_state := ZOMBIE\<rparr>"
  let ?s4 = "?s3\<lparr>proc_pool := (adopted p {..<NPROC} (s\<lparr>proc_pool := A\<rparr>))(p := ?z (adopted p {..<NPROC} (s\<lparr>proc_pool := A\<rparr>) p))\<rparr>"
  have m4: "smp ?s4 = take_lock L_wait (take_lock (L_proc p) (smp s))"
    by (simp add: m2 take_lock_swap)
  have kt: "k_ready (k_take (L_proc p) s)" "k_free L_wait (k_take (L_proc p) s)" "busy (k_take (L_proc p) s)"
    using rdy(1,2) busy_take [OF rdy(1)] by (simp_all add: k_ready_def k_free_def lk.free_after)
  have r5: "k_release L_wait ?s4 = Inr (?s4\<lparr>smp := take_lock (L_proc p) (smp s)\<rparr>)"
    using busy_release [OF kt(3,2), of ?s4] m4 by simp
  let ?s5 = "?s4\<lparr>smp := take_lock (L_proc p) (smp s)\<rparr>"
  have out: "sched_out K_exit ?s5 = Inr (upd_proc p (\<lambda>q. q\<lparr>p_context := In_sched (c_sie (this_cpu (smp s))) K_exit\<rparr>) ?s5)"
    by (rule sched_out_eq [OF rdy(1) rdy(3) [OF p] n0 cur]) simp_all
  have "exit_out code s = kbind (k_release L_wait ?s4) (sched_out K_exit)"
    unfolding exit_out_def by (simp add: cur w(1) s2(1) a3 r [unfolded ad] upd_proc_def)
  then have "exit_out code s = Inr (upd_proc p (\<lambda>q. q\<lparr>p_context := In_sched (c_sie (this_cpu (smp s))) K_exit\<rparr>) ?s5)"
    unfolding r5 kbind.simps out .
  moreover have "(adopted p {..<NPROC} (s\<lparr>proc_pool := A\<rparr>))(p := (adopted p {..<NPROC} (s\<lparr>proc_pool := A\<rparr>) p)
      \<lparr>p_exit_code := scast code, p_state := ZOMBIE, p_context := In_sched (c_sie (this_cpu (smp s))) K_exit\<rparr>) = exited p code s"
    by (simp add: exited_def fun_eq_iff A)
  ultimately show ?thesis using q by (auto simp: upd_proc_def frame)
qed

section \<open>wait\<close>

text \<open>A zombie child that \<^verbatim>\<open>wait(pid, ...)\<close> of process \<open>p\<close> may reap.\<close>

definition reapable :: "i32 \<Rightarrow> nat \<Rightarrow> kst \<Rightarrow> nat \<Rightarrow> bool" where
  "reapable pid p s i \<longleftrightarrow> i \<noteq> p \<and> p_parent (proc_pool s i) = Some p \<and> p_state (proc_pool s i) = ZOMBIE \<and>
     (sint pid \<le> 0 \<or> p_pid (proc_pool s i) = pid)"

definition has_child :: "nat \<Rightarrow> kst \<Rightarrow> nat set \<Rightarrow> bool" where
  "has_child p s A \<longleftrightarrow> (\<exists>i \<in> A. i \<noteq> p \<and> p_parent (proc_pool s i) = Some p)"

text \<open>The end of \<^verbatim>\<open>wait\<close> for the child \<open>i\<close>, whose lock is held.\<close>

definition reap :: "u64 \<Rightarrow> nat \<Rightarrow> kst \<Rightarrow> halt + (i32 option \<times> bool) \<times> kst" where
  "reap code i s =
     kbind (if code \<noteq> 0 then store32 code (ucast (p_exit_code (proc_pool s i))) s else Inr s) (\<lambda>t.
     kbind (freeproc i t) (\<lambda>t.
     kbind (k_release (L_proc i) t) (\<lambda>t.
     kbind (k_release L_wait t) (\<lambda>t. Inr ((Some (p_pid (proc_pool s i)), True), t)))))"

text \<open>A round of \<^verbatim>\<open>wait\<close> that reaps returns the pid.\<close>

lemma reap_ends:
  "kbind (reap code i s) (\<lambda>((reaped, havekids), t). case reaped of Some cpid \<Rightarrow> f cpid t | None \<Rightarrow> g havekids t) =
   kbind (reap code i s) (\<lambda>(_, t). f (p_pid (proc_pool s i)) t)"
  by (auto simp: reap_def kbind_assoc intro!: arg_cong [where f = "kbind _"])

lemma wait_scan_eq:
  "busy s \<Longrightarrow> (\<And>i. i \<in> set is \<Longrightarrow> i \<noteq> p \<Longrightarrow> k_free (L_proc i) s) \<Longrightarrow>
   wait_scan pid code p hk is s =
     (case find (reapable pid p s) is of
        Some i \<Rightarrow> reap code i (k_take (L_proc i) s)
      | None \<Rightarrow> Inr ((None, hk \<or> has_child p s (set is)), s))"
proof (induction "is" arbitrary: hk)
  case Nil
  then show ?case by (simp add: has_child_def)
next
  case (Cons i "is")
  have IH: "wait_scan pid code p h is s = (case find (reapable pid p s) is of
        Some i \<Rightarrow> reap code i (k_take (L_proc i) s) | None \<Rightarrow> Inr ((None, h \<or> has_child p s (set is)), s))" for h
    by (rule Cons.IH) (use Cons.prems in auto)
  show ?case
  proof (cases "i = p")
    case True
    then have "\<not> reapable pid p s i" "has_child p s (set (i # is)) = has_child p s (set is)"
      by (auto simp: reapable_def has_child_def)
    with True IH show ?thesis by (simp split: option.split)
  next
    case False
    have f: "k_free (L_proc i) s" using Cons.prems(2) False by simp
    note acq = busy_acquire [OF Cons.prems(1) f]
    show ?thesis
    proof (cases "reapable pid p s i")
      case True
      then show ?thesis using False acq by (simp add: reapable_def reap_def Let_def)
    next
      case no: False
      have rel: "k_release (L_proc i) (k_take (L_proc i) s) = Inr s"
        using busy_release [OF Cons.prems(1) f, of "k_take (L_proc i) s"] by simp
      have "wait_scan pid code p hk (i # is) s = wait_scan pid code p (hk \<or> p_parent (proc_pool s i) = Some p) is s"
        using False no by (auto simp: acq rel reapable_def Let_def)
      also have "\<dots> = (case find (reapable pid p s) (i # is) of
          Some i \<Rightarrow> reap code i (k_take (L_proc i) s) | None \<Rightarrow> Inr ((None, hk \<or> has_child p s (set (i # is))), s))"
        using IH False no by (auto simp: has_child_def split: option.split)
      finally show ?thesis .
    qed
  qed
qed

lemma sleep_out_run:
  assumes c: "in_call p s" and lk: "k_free lk s" "lk \<noteq> L_proc p" and s1: "smp s1 = take_lock lk (smp s)"
  shows "sleep_out ch lk k s1 = Inr (s1\<lparr>smp := take_lock (L_proc p) (smp s), proc_pool := (proc_pool s1)(p := (proc_pool s1 p)
    \<lparr>p_sleep_chan := Some ch, p_state := SLEEPING, p_context := In_sched (c_sie (this_cpu (smp s))) k\<rparr>)\<rparr>)"
proof -
  have p: "p < NPROC" by (rule in_call_process [OF c])
  have rdy: "k_ready s" "k_free (L_proc p) s" and cur: "curr_proc s = Inr p"
    and n0: "c_noff (this_cpu (smp s)) = 0" "\<not> c_inkernel_trap (this_cpu (smp s))"
    using c p by (simp_all add: in_call_def locks_ready_def)
  have bz: "busy s1" using busy_take [OF rdy(1), of lk] s1 by (simp add: busy_def k_ready_def)
  have f: "k_free (L_proc p) s1" using rdy(2) lk(2) by (simp add: s1 k_free_def lk.free_after)
  have a: "k_acquire (L_proc p) s1 = Inr (k_take (L_proc p) s1)" by (rule busy_acquire [OF bz f])
  have kt: "k_free lk (k_take (L_proc p) s)" "busy (k_take (L_proc p) s)"
    using lk busy_take [OF rdy(1)] by (simp_all add: k_free_def lk.free_after)
  have "smp (k_take (L_proc p) s1) = take_lock lk (smp (k_take (L_proc p) s))" using lk(2) by (simp add: s1 take_lock_swap)
  from busy_release [OF kt(2,1) this]
  have r: "k_release lk (k_take (L_proc p) s1) = Inr (s1\<lparr>smp := take_lock (L_proc p) (smp s)\<rparr>)" by simp
  have c1: "curr_proc s1 = Inr p"
    using cur by (auto simp: curr_proc_def mycpu_def s1 take_lock_def split: if_splits option.splits)
  have so: "sched_out k t = Inr (upd_proc p (\<lambda>q. q\<lparr>p_context := In_sched (c_sie (this_cpu (smp s))) k\<rparr>) t)"
    if "smp t = take_lock (L_proc p) (smp s)" "p_state (proc_pool t p) \<noteq> RUNNING" for t
    by (rule sched_out_eq [OF rdy n0 cur that])
  show ?thesis
    by (simp add: sleep_out_def c1 a r upd_proc_def so)
qed

lemma sleep_out_eq:
  assumes c: "in_call p s" and s1: "s1 = k_take L_wait s"
  shows "\<exists>t. sleep_out ch L_wait k s1 = Inr t \<and> p_state (proc_pool t p) = SLEEPING \<and> p_sleep_chan (proc_pool t p) = Some ch \<and>
    smp t = take_lock (L_proc p) (smp s) \<and> (\<forall>i. i \<noteq> p \<longrightarrow> proc_pool t i = proc_pool s i) \<and> mem t = mem s"
  using sleep_out_run [OF c, of L_wait s1 ch k] c by (simp add: s1 in_call_def)

section \<open>The properties\<close>

text \<open>C30. \<^verbatim>\<open>exit\<close>, called with no lock held, always gets to the switch: the process is a zombie with its
  exit code and holds its own lock and no other; every child it had is a child of the first process,
  and no other process has a new parent; its parent, if it sleeps in \<^verbatim>\<open>wait\<close>, is runnable and in the
  queue.\<close>

theorem exit_correct:
  assumes "in_call p s"
  shows "\<exists>t. exit_out code s = Inr t \<and> p_state (proc_pool t p) = ZOMBIE \<and> p_exit_code (proc_pool t p) = scast code \<and>
    smp t = take_lock (L_proc p) (smp s) \<and>
    (\<forall>i < NPROC. i \<noteq> p \<longrightarrow>
      p_parent (proc_pool t i) = (if p_parent (proc_pool s i) = Some p then Some (init_proc s) else p_parent (proc_pool s i)) \<and>
      p_state (proc_pool t i) = (if p_state (proc_pool s i) = SLEEPING \<and>
          p_sleep_chan (proc_pool s i) = map_option Ch_proc (p_parent (proc_pool s p)) then RUNNABLE else p_state (proc_pool s i))) \<and>
    set (queue_list (task_queue t)) = set (queue_list (task_queue s)) \<union>
      {i. i < NPROC \<and> p_state (proc_pool s i) = SLEEPING \<and> p_sleep_chan (proc_pool s i) = map_option Ch_proc (p_parent (proc_pool s p))}"
proof -
  obtain t where t: "exit_out code s = Inr t" "smp t = take_lock (L_proc p) (smp s)" "proc_pool t = exited p code s"
      "queue_list (task_queue t) = queue_list (task_queue s) @ filter (sleeper (map_option Ch_proc (p_parent (proc_pool s p))) s) [0..<NPROC]"
    using exit_eq [OF assms, of code] by blast
  have "set (queue_list (task_queue t)) = set (queue_list (task_queue s)) \<union>
      {i. i < NPROC \<and> p_state (proc_pool s i) = SLEEPING \<and> p_sleep_chan (proc_pool s i) = map_option Ch_proc (p_parent (proc_pool s p))}"
    unfolding t(4) by (auto simp: sleeper_def)
  then show ?thesis using t(1,2) by (simp add: t(3) exited_def adopted_def make_ready_def sleeper_def)
qed

lemma wait_scanned:
  assumes "in_call p s"
  shows "wait pid code s = wait_round p pid code (k_take L_wait s)"
    and "wait_scan pid code p False [0..<NPROC] (k_take L_wait s) =
      (case find (reapable pid p s) [0..<NPROC] of
         Some i \<Rightarrow> reap code i (k_take (L_proc i) (k_take L_wait s)) | None \<Rightarrow> Inr ((None, has_child p s {..<NPROC}), k_take L_wait s))"
proof -
  let ?s1 = "k_take L_wait s"
  note w = with_wait_lock [OF assms]
  have cur: "curr_proc s = Inr p" and f: "\<And>i. i < NPROC \<Longrightarrow> k_free (L_proc i) s"
    using assms by (simp_all add: in_call_def locks_ready_def)
  have same: "reapable pid p ?s1 = reapable pid p s" "has_child p ?s1 A = has_child p s A" for A
    by (simp_all add: reapable_def has_child_def fun_eq_iff)
  have f1: "k_free (L_proc i) ?s1" if "i \<in> set [0..<NPROC]" "i \<noteq> p" for i
    using f [of i] that by (simp add: k_free_def lk.free_after)
  show "wait_scan pid code p False [0..<NPROC] ?s1 =
      (case find (reapable pid p s) [0..<NPROC] of
         Some i \<Rightarrow> reap code i (k_take (L_proc i) ?s1) | None \<Rightarrow> Inr ((None, has_child p s {..<NPROC}), ?s1))"
    using wait_scan_eq [OF w(3), of "[0..<NPROC]" p pid code False] f1 unfolding same by (simp add: atLeast0LessThan split: option.split)
  show "wait pid code s = wait_round p pid code ?s1" by (simp add: wait_def cur w(1))
qed

lemma wait_reaps:
  assumes "in_call p s" and "find (reapable pid p s) [0..<NPROC] = Some i"
  shows "wait pid code s = kbind (reap code i (k_take (L_proc i) (k_take L_wait s))) (\<lambda>(_, t). Inr (Ret (p_pid (proc_pool s i)), t))"
  unfolding wait_scanned(1) [OF assms(1)] wait_round_def wait_scanned(2) [OF assms(1)] assms(2)
  by (simp add: reap_ends)

text \<open>C31. What \<^verbatim>\<open>wait\<close> decides. When a child is a zombie and has the pid asked for, the first one in the
  table is reaped: its exit code is stored at \<^verbatim>\<open>code\<close>, unless that is the null pointer, its slot is freed
  and its pid returned. Otherwise, when there is no child at all or the process has been killed, it
  returns -1 and nothing has changed. Otherwise the process sleeps until a child exits, and holds no lock
  but its own.\<close>

theorem wait_correct:
  assumes "in_call p s"
  shows "(case find (reapable pid p s) [0..<NPROC] of
      Some i \<Rightarrow> wait pid code s = kbind (reap code i (k_take (L_proc i) (k_take L_wait s)))
        (\<lambda>(_, t). Inr (Ret (p_pid (proc_pool s i)), t))
    | None \<Rightarrow>
        if \<not> has_child p s {..<NPROC} \<or> p_killed (proc_pool s p) then wait pid code s = Inr (Ret (-1), k_settle s)
        else \<exists>t. wait pid code s = Inr (Switched, t) \<and> p_state (proc_pool t p) = SLEEPING \<and>
          p_sleep_chan (proc_pool t p) = Some (Ch_proc p) \<and> smp t = take_lock (L_proc p) (smp s) \<and>
          (\<forall>i. i \<noteq> p \<longrightarrow> proc_pool t i = proc_pool s i))"
proof (cases "find (reapable pid p s) [0..<NPROC]")
  case None
  have rdy: "k_ready s" "k_free L_wait s" using assms by (simp_all add: in_call_def locks_ready_def)
  then have "k_release L_wait (k_take L_wait s) = Inr (k_settle s)"
    using k_release_taken [of "smp s" L_wait "k_take L_wait s"] by (simp add: k_ready_def k_free_def)
  moreover obtain t where "sleep_out (Ch_proc p) L_wait (K_wait pid code) (k_take L_wait s) = Inr t" "p_state (proc_pool t p) = SLEEPING"
      "p_sleep_chan (proc_pool t p) = Some (Ch_proc p)" "smp t = take_lock (L_proc p) (smp s)" "\<forall>i. i \<noteq> p \<longrightarrow> proc_pool t i = proc_pool s i"
    using sleep_out_eq [OF assms refl] by blast
  ultimately show ?thesis using None by (simp add: wait_scanned [OF assms] wait_round_def)
next
  case (Some i)
  with wait_reaps [OF assms Some] show ?thesis by simp
qed

section \<open>wait without a place for the exit code\<close>

lemma vm_ok_take:
  assumes "vm_ok s root ps" and "l \<noteq> L_kpage"
  shows "vm_ok (k_take l s) root ps"
proof -
  have p: "page_mapped (k_take l s) p = page_mapped s p" and m: "managed (k_take l s) p = managed s p" for p
    by (simp_all add: page_mapped_def mapped_def managed_def)
  show ?thesis using assms by (simp add: vm_ok_def p m arena_ok_def free_pages_def k_ready_def k_free_def lk.free_after)
qed

lemma in_call_settle: "in_call p s \<Longrightarrow> in_call p (k_settle s)"
proof -
  assume c: "in_call p s"
  have v: "view (k_settle s) = view s" by (simp add: view_def settle_def fun_eq_iff)
  have "curr_proc (k_settle s) = curr_proc s" by (simp add: curr_proc_def mycpu_def settle_def)
  moreover have "c_noff (this_cpu (settle m)) = c_noff (this_cpu m)" "c_inkernel_trap (this_cpu (settle m)) = c_inkernel_trap (this_cpu m)" for m :: "lock_id smp"
    by (simp_all add: settle_def)
  ultimately show ?thesis using c by (simp add: in_call_def locks_ready_def k_ready_def k_free_def v del: tp_settle)
qed

lemma null_code: "PA_TO_KVA 0 = KERNEL_DIRECT_MAPPING_BASE" "KERNEL_DIRECT_MAPPING_BASE \<noteq> 0"
  by (simp_all add: PA_TO_KVA_def KERNEL_DIRECT_MAPPING_BASE_def)

lemma sys_wait_null:
  assumes c: "in_call p s" and mm: "mm = p_mm (proc_pool s p)" and fr: "k_free (L_mm mm) s"
    and ok: "vm_ok s (mm_pgt (mms s mm)) ps" and un: "user_pa (mem s) (mm_pgt (mms s mm)) 0 = 0"
  shows "sys_wait pid 0 s = kbind (wait pid KERNEL_DIRECT_MAPPING_BASE (k_settle s)) (\<lambda>(r, t). Inr (co_map scast r, t))"
proof -
  have rdy: "k_ready s" "k_free (L_proc p) s" and cur: "curr_proc s = Inr p"
    using c in_call_process(1) [OF c] by (simp_all add: in_call_def locks_ready_def)
  let ?s1 = "k_take (L_proc p) s"
  have b1: "busy ?s1" by (rule busy_take [OF rdy(1)])
  have f1: "k_free (L_mm mm) ?s1" using fr by (simp add: k_free_def lk.free_after)
  let ?s2 = "s\<lparr>smp := take_lock (L_mm mm) (take_lock (L_proc p) (smp s))\<rparr>"
  have u: "IS_USER_VA 0" "PGROUNDDOWN 0 = 0" by (simp_all add: IS_USER_VA_def PGROUNDDOWN_def)
  have "vm_ok ?s2 (mm_pgt (mms ?s2 mm)) ps"
    using vm_ok_take [OF vm_ok_take [OF ok, of "L_proc p"], of "L_mm mm"] by simp
  then have ua: "useraddr mm 0 ?s2 = Inr (0, ?s2)"
    using walkaddr_eq [OF _ IS_USER_VA_rounddown [OF u(1)] PGALIGNED_PGROUNDDOWN, of ?s2 mm ps] un by (simp add: useraddr_def u(2))
  have r2: "k_release (L_mm mm) ?s2 = Inr ?s1" using busy_release [OF b1 f1, of ?s2] by simp
  have r1: "k_release (L_proc p) ?s1 = Inr (k_settle s)"
    using k_release_taken [of "smp s" "L_proc p" ?s1] rdy by (simp add: k_ready_def k_free_def)
  show ?thesis
    unfolding sys_wait_def
    by (simp add: cur k_acquire_free [OF rdy] mm [symmetric] busy_acquire [OF b1 f1] ua r2 r1 null_code)
qed

text \<open>C32. \<^verbatim>\<open>wait\<close> with a null pointer for the exit code: \<^verbatim>\<open>sys_wait\<close> turns the result 0 of \<^verbatim>\<open>useraddr\<close>, which
  says that the page is not mapped, into the kernel address of physical address 0, which is not null.
  \<^verbatim>\<open>wait\<close> then stores the exit code there; when a child has exited and the kernel does not map that
  address, the store faults, and so the kernel panics.\<close>

theorem sys_wait_null_faults:
  assumes "in_call p s" and "mm = p_mm (proc_pool s p)" and "k_free (L_mm mm) s" and "vm_ok s (mm_pgt (mms s mm)) ps"
    and "user_pa (mem s) (mm_pgt (mms s mm)) 0 = 0" and "find (reapable pid p s) [0..<NPROC] = Some i"
    and "\<not> mapped s KERNEL_DIRECT_MAPPING_BASE 4"
  shows "sys_wait pid 0 s = Inl (Page_fault 0xffffffc000000000)"
proof -
  have "reapable pid p (k_settle s) = reapable pid p s" by (simp add: reapable_def fun_eq_iff)
  then have f: "find (reapable pid p (k_settle s)) [0..<NPROC] = Some i" using assms(6) by simp
  have w: "wait pid KERNEL_DIRECT_MAPPING_BASE (k_settle s) =
      kbind (reap KERNEL_DIRECT_MAPPING_BASE i (k_take (L_proc i) (k_take L_wait (k_settle s)))) (\<lambda>(_, t). Inr (Ret (p_pid (proc_pool (k_settle s) i)), t))"
    using wait_reaps [OF in_call_settle [OF assms(1)] f] .
  have "\<not> mapped (k_take (L_proc i) (k_take L_wait (k_settle s))) KERNEL_DIRECT_MAPPING_BASE 4"
    using assms(7) by (simp add: mapped_def)
  then have "reap KERNEL_DIRECT_MAPPING_BASE i (k_take (L_proc i) (k_take L_wait (k_settle s))) = Inl (Page_fault KERNEL_DIRECT_MAPPING_BASE)"
    using null_code(2) by (simp add: reap_def store32_def)
  then show ?thesis
    unfolding sys_wait_null [OF assms(1-5)] w by (simp add: KERNEL_DIRECT_MAPPING_BASE_def)
qed

section \<open>Examples\<close>

text \<open>
  Process 0 waits for its child, process 2, which is in a system call; process 3 is a child of process 2.
  The kernel maps nothing below its first free page.
\<close>

definition family_demo :: "procstate \<Rightarrow> kst" where
  "family_demo st = demo_vm\<lparr>
     smp := boot_smp\<lparr>cpus := (\<lambda>_. boot_cpu)(0 := boot_cpu\<lparr>c_proc := Some 2\<rparr>)\<rparr>, kmap := (\<lambda>a. 0xffffffc080400000 \<le> a),
     task_queue := (zero_queue 0)\<lparr>q_empty := True\<rparr>,
     proc_pool := (\<lambda>_. idle_proc)(
       0 := idle_proc\<lparr>p_state := SLEEPING, p_sleep_chan := Some (Ch_proc 0), p_context := In_sched True (K_wait 0 0)\<rparr>,
       2 := idle_proc\<lparr>p_state := RUNNING, p_parent := Some 0\<rparr>,
       3 := idle_proc\<lparr>p_state := st, p_parent := Some 2, p_pid := 9, p_context := In_sched True K_yield_sys\<rparr>)\<rparr>"

lemma family_demo_smp: "smp (family_demo st) = boot_smp\<lparr>cpus := (\<lambda>_. boot_cpu)(0 := boot_cpu\<lparr>c_proc := Some 2\<rparr>)\<rparr>"
  by (simp add: family_demo_def)

lemma family_demo_ready: "k_ready (family_demo st)" "k_free l (family_demo st)"
  by (auto simp: k_ready_def k_free_def family_demo_smp cpu_ready_def lock_free_def boot_smp_def boot_cpu_def NCPU_def)

lemma family_demo_procs:
  "p_parent (proc_pool (family_demo st) 3) = Some 2" "p_state (proc_pool (family_demo st) 3) = st"
  "p_parent (proc_pool (family_demo st) 2) = Some 0" "p_state (proc_pool (family_demo st) 0) = SLEEPING"
  "p_sleep_chan (proc_pool (family_demo st) 0) = Some (Ch_proc 0)" "p_killed (proc_pool (family_demo st) 2) = False"
  "init_proc (family_demo st) = 0" "p_pid (proc_pool (family_demo st) 3) = 9"
  "i \<noteq> 2 \<Longrightarrow> i \<noteq> 3 \<Longrightarrow> p_parent (proc_pool (family_demo st) i) = None"
  by (simp_all add: family_demo_def idle_proc_def demo_vm_def boot_kst_def)

lemma family_demo_call: "st = SLEEPING \<or> st = ZOMBIE \<Longrightarrow> in_call 2 (family_demo st)"
proof -
  assume st: "st = SLEEPING \<or> st = ZOMBIE"
  have q: "queue_list (task_queue (family_demo st)) = []" "queue_inv (task_queue (family_demo st))"
    by (simp_all add: family_demo_def demo_vm_def boot_kst_def queue_list_def queue_len_def zero_queue_def queue_inv_def NPROC_def QUEUE_SIZE_def)
  have "sched_inv None (view (family_demo st))"
    using q st by (auto simp: sched_inv_def view_def family_demo_def idle_proc_def running_def resumable_def boot_smp_def boot_cpu_def NPROC_def NCPU_def)
  then show ?thesis
    using family_demo_ready
    by (simp add: in_call_def locks_ready_def curr_proc_def mycpu_def family_demo_smp boot_smp_def boot_cpu_def NCPU_def)
qed

theorem exit_correct_witness:
  "\<exists>t. exit_out 3 (family_demo SLEEPING) = Inr t \<and> p_state (proc_pool t 2) = ZOMBIE \<and> p_exit_code (proc_pool t 2) = 3 \<and>
    p_parent (proc_pool t 3) = Some 0 \<and> p_state (proc_pool t 0) = RUNNABLE"
proof -
  have n: "0 < NPROC" "3 < NPROC" "(0::nat) \<noteq> 2" "(3::nat) \<noteq> 2" by (simp_all add: NPROC_def)
  obtain t where t: "exit_out 3 (family_demo SLEEPING) = Inr t" "p_state (proc_pool t 2) = ZOMBIE" "p_exit_code (proc_pool t 2) = scast (3 :: i32)"
      "\<forall>i < NPROC. i \<noteq> 2 \<longrightarrow> p_parent (proc_pool t i) = (if p_parent (proc_pool (family_demo SLEEPING) i) = Some 2
          then Some (init_proc (family_demo SLEEPING)) else p_parent (proc_pool (family_demo SLEEPING) i)) \<and>
        p_state (proc_pool t i) = (if p_state (proc_pool (family_demo SLEEPING) i) = SLEEPING \<and> p_sleep_chan (proc_pool (family_demo SLEEPING) i) =
          map_option Ch_proc (p_parent (proc_pool (family_demo SLEEPING) 2)) then RUNNABLE else p_state (proc_pool (family_demo SLEEPING) i))"
    using exit_correct [OF family_demo_call, of SLEEPING 3] by auto
  have "p_parent (proc_pool t 3) = Some 0" "p_state (proc_pool t 0) = RUNNABLE"
    using t(4) n by (simp_all add: family_demo_procs)
  then show ?thesis using t(1-3) by auto
qed

lemma family_demo_reapable:
  "reapable 0 2 (family_demo st) i \<longleftrightarrow> i = 3 \<and> st = ZOMBIE" "has_child 2 (family_demo st) {..<NPROC}"
proof -
  show "reapable 0 2 (family_demo st) i \<longleftrightarrow> i = 3 \<and> st = ZOMBIE"
    using family_demo_procs(9) [of i st] by (cases "i = 3") (auto simp: reapable_def family_demo_procs)
  have "3 < NPROC" by (simp add: NPROC_def)
  then show "has_child 2 (family_demo st) {..<NPROC}" using family_demo_procs(1) unfolding has_child_def by force
qed

theorem wait_correct_witness:
  "\<exists>t. wait 0 0 (family_demo SLEEPING) = Inr (Switched, t) \<and> p_state (proc_pool t 2) = SLEEPING"
proof -
  have "find (reapable 0 2 (family_demo SLEEPING)) [0..<NPROC] = None" by (simp add: find_None_iff family_demo_reapable)
  with wait_correct [OF family_demo_call, of SLEEPING 0 0] show ?thesis
    by (auto simp: family_demo_reapable family_demo_procs)
qed

lemma family_demo_vm: "vm_ok (family_demo st) demo_root demo_free"
proof (rule vm_ok_fresh)
  show "ld64 (mem (family_demo st)) (slot demo_root i) = 0" if "i < 512" for i
    using demo_root_zero [OF that] by (simp add: family_demo_def demo_vm_def)
  have base: "kpage_allocator_base (family_demo st) = 0xffffffc080400000" "kpage_allocator_size (family_demo st) = 0x4000"
    by (simp_all add: family_demo_def demo_vm_def boot_kst_def)
  have km: "page_mapped (family_demo st) p" if "0xffffffc080400000 \<le> p" "p < 0xffffffc080404000" for p
    unfolding page_mapped_def mapped_def
  proof (intro allI impI)
    fix i :: nat assume "i < 4096"
    then have "unat (p + of_nat i) = unat p + i"
      using that(2) by (simp add: unat_add_no_wrap unat_of_nat_small word_less_nat_alt)
    then show "kmap (family_demo st) (p + of_nat i)" using that(1) by (simp add: family_demo_def word_le_nat_alt)
  qed
  show "page_mapped (family_demo st) demo_root" by (rule km) (simp_all add: demo_root_def)
  show "arena_ok (family_demo st)"
    unfolding arena_ok_def base using km by (simp add: managed_def base PGALIGNED_def layout_simps)
  show "k_ready (family_demo st)" "k_free L_kpage (family_demo st)" by (rule family_demo_ready)+
  show "free_pages (family_demo st) demo_free"
    unfolding free_pages_def demo_free_def
    by (simp add: managed_def base PGALIGNED_def PGSIZE_def)
      (simp add: family_demo_def demo_vm_def boot_kst_def demo_cells)
qed (simp_all add: demo_root_def demo_free_def PGALIGNED_def PGSIZE_def)

theorem sys_wait_null_faults_witness:
  "sys_wait 0 0 (family_demo ZOMBIE) = Inl (Page_fault 0xffffffc000000000)"
proof (rule sys_wait_null_faults [OF family_demo_call refl family_demo_ready(2), where ps = demo_free])
  have root: "mm_pgt (mms (family_demo ZOMBIE) mm) = demo_root" "mem (family_demo ZOMBIE) = mem demo_vm" for mm
    by (simp_all add: family_demo_def demo_vm_def demo_root_def)
  show "vm_ok (family_demo ZOMBIE) (mm_pgt (mms (family_demo ZOMBIE) (p_mm (proc_pool (family_demo ZOMBIE) 2)))) demo_free"
    unfolding root by (rule family_demo_vm)
  show "user_pa (mem (family_demo ZOMBIE)) (mm_pgt (mms (family_demo ZOMBIE) (p_mm (proc_pool (family_demo ZOMBIE) 2)))) 0 = 0"
    unfolding root by (simp add: user_pa_def demo_vm_sel)
  show "find (reapable 0 2 (family_demo ZOMBIE)) [0..<NPROC] = Some 3"
    by (simp add: find_Some_iff family_demo_reapable, rule exI [of _ 3], simp add: NPROC_def)
  have "\<not> kmap (family_demo ZOMBIE) (KERNEL_DIRECT_MAPPING_BASE + of_nat 0)"
    by (simp add: family_demo_def KERNEL_DIRECT_MAPPING_BASE_def)
  then show "\<not> mapped (family_demo ZOMBIE) KERNEL_DIRECT_MAPPING_BASE 4" unfolding mapped_def by (metis zero_less_numeral)
qed simp

end
