(* ===== verification/LineEdit.thy ===== *)
theory LineEdit imports Wakeup begin

text \<open>
  What the console's line editor does: the ring buffer and its three indices implement two lists of
  bytes, the lines that wait for a reader and the line that is being typed. \<open>typed\<close> is the editor on
  these lists; \<^verbatim>\<open>consintr\<close> refines it, and \<^verbatim>\<open>uart_intr\<close> applies it to every byte the UART has.
\<close>

section \<open>The specification\<close>

text \<open>The bytes ready to be read, and the line being edited.\<close>

fun typed :: "u8 \<Rightarrow> u8 list \<times> u8 list \<Rightarrow> u8 list \<times> u8 list" where
  "typed c (rd, line) =
     (if c = ctrl_P then (rd, line)
      else if c = ctrl_U then (rd, [])
      else if c = ctrl_H \<or> c = 0x7f then (rd, butlast line)
      else if c = 0 \<or> 128 \<le> length rd + length line then (rd, line)
      else
        let c = (if c = 13 then 10 else c); line = line @ [c] in
        if c = 10 \<or> c = ctrl_D \<or> length rd + length line = 128 then (rd @ line, []) else (rd, line))"

text \<open>What the editor sends back: a byte for each character that is erased, and each character that is stored.\<close>

fun echoed :: "u8 \<Rightarrow> u8 list \<times> u8 list \<Rightarrow> u8 list" where
  "echoed c (rd, line) =
     (if c = ctrl_P then []
      else if c = ctrl_U then replicate (length line) 0
      else if c = ctrl_H \<or> c = 0x7f then (if line = [] then [] else [0])
      else if c = 0 \<or> 128 \<le> length rd + length line then []
      else [if c = 13 then 10 else c])"

section \<open>The ring\<close>

definition cons_wf :: "console \<Rightarrow> bool" where
  "cons_wf k \<longleftrightarrow> length (cons_buf k) = 128 \<and> cons_w k - cons_r k \<le> cons_e k - cons_r k \<and> cons_e k - cons_r k \<le> 128"

definition ring :: "console \<Rightarrow> u32 \<Rightarrow> nat \<Rightarrow> u8 list" where
  "ring k i n = map (\<lambda>j. cons_at k (i + of_nat j)) [0..<n]"

definition cons_ready :: "console \<Rightarrow> u8 list" where
  "cons_ready k = ring k (cons_r k) (unat (cons_w k - cons_r k))"

definition cons_line :: "console \<Rightarrow> u8 list" where
  "cons_line k = ring k (cons_w k) (unat (cons_e k - cons_w k))"

abbreviation cons_text :: "console \<Rightarrow> u8 list \<times> u8 list" where
  "cons_text k \<equiv> (cons_ready k, cons_line k)"

definition cons_inv :: "console \<Rightarrow> bool" where
  "cons_inv k \<longleftrightarrow> cons_wf k \<and> 10 \<notin> set (cons_line k) \<and> ctrl_D \<notin> set (cons_line k) \<and>
     (cons_line k \<noteq> [] \<longrightarrow> length (cons_ready k) + length (cons_line k) < 128)"

lemma cons_at_add: "cons_at k (i + of_nat j) = cons_buf k ! ((unat i + j) mod 128)"
proof -
  have "unat ((i + of_nat j) mod INPUT_BUF_SIZE) = unat (i + of_nat j) mod 128"
    by (simp add: INPUT_BUF_SIZE_def unat_mod)
  also have "\<dots> = (unat i + j) mod 2 ^ 32 mod 128"
    by (simp add: unat_word_ariths unat_of_nat mod_add_right_eq)
  also have "\<dots> = (unat i + j) mod 128" by (simp add: mod_mod_cancel)
  finally show ?thesis by (rule arg_cong)
qed

lemma ring_eq: "ring k i n = map (\<lambda>j. cons_buf k ! ((unat i + j) mod 128)) [0..<n]"
  by (simp add: ring_def cons_at_add)

lemma length_ring [simp]: "length (ring k i n) = n"
  by (simp add: ring_def)

lemma ring_Suc: "ring k i (Suc n) = ring k i n @ [cons_at k (i + of_nat n)]"
  by (simp add: ring_def)

lemma ring_add: "ring k i (m + n) = ring k i m @ ring k (i + of_nat m) n"
  by (induction n) (simp_all add: ring_Suc add.assoc, simp add: ring_def)

lemma ring_butlast: "butlast (ring k i n) = ring k i (n - 1)"
  by (cases n) (simp_all add: ring_Suc, simp add: ring_def)

lemma cons_lengths:
  assumes "cons_wf k"
  shows "length (cons_ready k) + length (cons_line k) = unat (cons_e k - cons_r k)"
    and "length (cons_line k) \<le> 128" and "length (cons_ready k) + length (cons_line k) \<le> 128"
proof -
  have le: "cons_w k - cons_r k \<le> cons_e k - cons_r k" "unat (cons_e k - cons_r k) \<le> 128"
    using assms by (simp_all add: cons_wf_def word_le_nat_alt)
  have "unat ((cons_e k - cons_r k) - (cons_w k - cons_r k)) = unat (cons_e k - cons_r k) - unat (cons_w k - cons_r k)"
    using le(1) by (rule unat_sub)
  then have l: "unat (cons_e k - cons_w k) = unat (cons_e k - cons_r k) - unat (cons_w k - cons_r k)" by simp
  then show "length (cons_ready k) + length (cons_line k) = unat (cons_e k - cons_r k)"
    using le(1) by (simp add: cons_ready_def cons_line_def word_le_nat_alt)
  then show "length (cons_ready k) + length (cons_line k) \<le> 128" using le(2) by simp
  then show "length (cons_line k) \<le> 128" by simp
qed

lemma cons_line_empty: "cons_line k = [] \<longleftrightarrow> cons_e k = cons_w k"
proof -
  have "cons_line k = [] \<longleftrightarrow> unat (cons_e k - cons_w k) = 0"
    by (metis cons_line_def length_0_conv length_ring)
  then show ?thesis by (simp add: unat_eq_0)
qed

lemma cons_room: "cons_wf k \<Longrightarrow> cons_e k - cons_r k < INPUT_BUF_SIZE \<longleftrightarrow> length (cons_ready k) + length (cons_line k) < 128"
  by (simp add: cons_lengths INPUT_BUF_SIZE_def word_less_nat_alt)

lemma cons_full: "cons_wf k \<Longrightarrow> cons_e k - cons_r k = INPUT_BUF_SIZE \<longleftrightarrow> length (cons_ready k) + length (cons_line k) = 128"
  using unat_inj [of "cons_e k - cons_r k" 128] by (auto simp: cons_lengths INPUT_BUF_SIZE_def)

section \<open>Its three changes\<close>

lemma unat_add_1: "unat (x :: u32) < 128 \<Longrightarrow> unat (x + 1) = Suc (unat x)"
  by (simp add: unat_word_ariths)

text \<open>Erasing the last byte.\<close>

lemma cons_erase:
  assumes "cons_wf k" and "cons_line k \<noteq> []"
  shows "cons_wf (k\<lparr>cons_e := cons_e k - 1\<rparr>)" and "cons_ready (k\<lparr>cons_e := cons_e k - 1\<rparr>) = cons_ready k"
    and "cons_line (k\<lparr>cons_e := cons_e k - 1\<rparr>) = butlast (cons_line k)" and "cons_at k (cons_e k - 1) = last (cons_line k)"
proof -
  have ne: "cons_e k - cons_w k \<noteq> 0" using assms(2) by (simp add: cons_line_empty)
  obtain m where m: "unat (cons_e k - cons_w k) = Suc m" using ne by (metis not0_implies_Suc unat_eq_0)
  have p: "unat (cons_e k - cons_w k - 1) = m" using ne m by (simp add: unat_minus_one)
  then have p': "unat (cons_e k - 1 - cons_w k) = m" by (simp add: algebra_simps)
  have ring_same: "ring (k\<lparr>cons_e := x\<rparr>) i n = ring k i n" for x i n by (simp add: ring_def)
  show "cons_ready (k\<lparr>cons_e := cons_e k - 1\<rparr>) = cons_ready k" by (simp add: cons_ready_def ring_same)
  show "cons_line (k\<lparr>cons_e := cons_e k - 1\<rparr>) = butlast (cons_line k)"
    by (simp add: cons_line_def ring_same p' m ring_butlast)
  have "of_nat m = cons_e k - cons_w k - 1" by (simp add: p [symmetric])
  then have "cons_w k + of_nat m = cons_e k - 1" by (simp add: algebra_simps)
  then show "cons_at k (cons_e k - 1) = last (cons_line k)" by (simp add: cons_line_def m ring_Suc)
  have l: "unat (cons_e k - cons_r k) = unat (cons_w k - cons_r k) + Suc m"
    using cons_lengths(1) [OF assms(1)] by (simp add: cons_ready_def cons_line_def m)
  then have "cons_e k - cons_r k \<noteq> 0" by auto
  then have "unat (cons_e k - cons_r k - 1) = unat (cons_w k - cons_r k) + m" using l by (simp add: unat_minus_one)
  then have "unat (cons_e k - 1 - cons_r k) = unat (cons_w k - cons_r k) + m" by (simp add: algebra_simps)
  then show "cons_wf (k\<lparr>cons_e := cons_e k - 1\<rparr>)"
    using assms(1) l by (simp add: cons_wf_def word_le_nat_alt)
qed

text \<open>Storing a byte.\<close>

lemma cons_store:
  assumes "cons_wf k" and "length (cons_ready k) + length (cons_line k) < 128"
    and "k' = k\<lparr>cons_buf := (cons_buf k)[unat (cons_e k mod INPUT_BUF_SIZE) := c], cons_e := cons_e k + 1\<rparr>"
  shows "cons_wf k'" and "cons_ready k' = cons_ready k" and "cons_line k' = cons_line k @ [c]"
proof -
  obtain n where n: "n = unat (cons_w k - cons_r k)" by blast
  obtain m where m: "m = unat (cons_e k - cons_w k)" by blast
  have lt: "n + m < 128" using assms(2) by (simp add: cons_ready_def cons_line_def n m)
  have w: "cons_w k = cons_r k + of_nat n" and e: "cons_e k = cons_w k + of_nat m" by (simp_all add: n m)
  have e': "cons_e k = cons_r k + of_nat (n + m)" by (simp add: e w)
  have em: "unat (cons_e k mod INPUT_BUF_SIZE) = (unat (cons_r k) + (n + m)) mod 128"
  proof -
    have "unat (cons_e k mod INPUT_BUF_SIZE) = unat (cons_r k + of_nat (n + m)) mod 128"
      by (simp add: INPUT_BUF_SIZE_def unat_mod e')
    also have "\<dots> = (unat (cons_r k) + (n + m)) mod 2 ^ 32 mod 128"
      by (simp add: unat_word_ariths unat_of_nat mod_add_right_eq del: of_nat_add)
    finally show ?thesis by (simp add: mod_mod_cancel)
  qed
  have len: "length (cons_buf k) = 128" using assms(1) by (simp add: cons_wf_def)
  have away: "(a + l) mod 128 \<noteq> (a + j) mod 128" if "j < l" "l < 128" for a j l :: nat
  proof
    assume "(a + l) mod 128 = (a + j) mod 128"
    then have "128 dvd (a + l) - (a + j)" using that by (simp add: mod_eq_dvd_iff_nat)
    then have "128 \<le> l - j" using that by (auto dest: dvd_imp_le)
    with that show False by simp
  qed
  have f: "cons_e k' = cons_e k + 1" "cons_w k' = cons_w k" "cons_r k' = cons_r k" by (simp_all add: assms(3))
  have kept: "ring k' (cons_r k) (n + m) = ring k (cons_r k) (n + m)"
    unfolding ring_eq
    by (rule map_cong) (use away lt in \<open>auto simp: assms(3) em\<close>)
  then have "ring k' (cons_r k) n @ ring k' (cons_w k) m = ring k (cons_r k) n @ ring k (cons_w k) m"
    by (simp add: ring_add w)
  then have parts: "ring k' (cons_r k) n = ring k (cons_r k) n" "ring k' (cons_w k) m = ring k (cons_w k) m" by simp_all
  have new: "cons_at k' (cons_e k) = c" by (simp add: assms(3) len em del: of_nat_add)
  show "cons_ready k' = cons_ready k" using parts(1) by (simp add: cons_ready_def assms(3) n)
  have "m < 128" "unat (cons_e k - cons_r k) = n + m"
    using lt cons_lengths(1) [OF assms(1)] by (simp_all add: cons_ready_def cons_line_def n m)
  then have "unat (cons_e k - cons_w k + 1) = Suc m" "unat (cons_e k - cons_r k + 1) = Suc (n + m)"
    using lt by (simp_all add: unat_add_1 m [symmetric])
  moreover have "cons_e k' - cons_w k' = cons_e k - cons_w k + 1" "cons_e k' - cons_r k' = cons_e k - cons_r k + 1"
    unfolding f by (rule diff_add_eq [symmetric])+
  ultimately have sums: "unat (cons_e k' - cons_w k') = Suc m" "unat (cons_e k' - cons_r k') = Suc (n + m)" by (simp_all only:)
  have "cons_line k' = ring k' (cons_w k) (Suc m)" unfolding cons_line_def sums by (simp only: f)
  also have "\<dots> = cons_line k @ [c]" using parts(2) new by (simp add: cons_line_def ring_Suc m [symmetric] e [symmetric])
  finally show "cons_line k' = cons_line k @ [c]" .
  have "length (cons_buf k') = 128" using len by (simp add: assms(3))
  moreover have "unat (cons_w k' - cons_r k') = n" by (simp add: f n)
  ultimately show "cons_wf k'" using sums lt by (simp add: cons_wf_def word_le_nat_alt)
qed


text \<open>Committing the line.\<close>

lemma cons_commit:
  assumes "cons_wf k"
  shows "cons_wf (k\<lparr>cons_w := cons_e k\<rparr>)" and "cons_ready (k\<lparr>cons_w := cons_e k\<rparr>) = cons_ready k @ cons_line k"
    and "cons_line (k\<lparr>cons_w := cons_e k\<rparr>) = []"
proof -
  have "unat (cons_e k - cons_r k) = unat (cons_w k - cons_r k) + unat (cons_e k - cons_w k)"
    using cons_lengths(1) [OF assms] by (simp add: cons_ready_def cons_line_def)
  then have "ring k (cons_r k) (unat (cons_e k - cons_r k)) = cons_ready k @ cons_line k"
    by (simp add: ring_add cons_ready_def cons_line_def)
  then show "cons_ready (k\<lparr>cons_w := cons_e k\<rparr>) = cons_ready k @ cons_line k" by (simp add: cons_ready_def ring_def)
qed (use assms in \<open>simp_all add: cons_wf_def cons_line_empty\<close>)

lemma kill_line_eq:
  "cons_wf (cons s) \<Longrightarrow> 10 \<notin> set (cons_line (cons s)) \<Longrightarrow>
   kill_line s = s\<lparr>cons := (cons s)\<lparr>cons_e := cons_w (cons s)\<rparr>,
     uart_out := uart_out s @ replicate (length (cons_line (cons s))) 0\<rparr>"
proof (induction s rule: kill_line.induct)
  case (1 s)
  show ?case
  proof (cases "cons_line (cons s) = []")
    case True
    then have "cons_e (cons s) = cons_w (cons s)" by (simp add: cons_line_empty)
    then have "(cons s)\<lparr>cons_e := cons_w (cons s)\<rparr> = cons s" by (cases "cons s") simp
    with True show ?thesis by (simp add: kill_line.simps [of s] cons_line_empty)
  next
    case False
    note er = cons_erase [OF "1.prems"(1) False]
    let ?s = "consputc BACKSPACE (upd_cons (\<lambda>c. c\<lparr>cons_e := cons_e c - 1\<rparr>) s)"
    have c: "cons_e (cons s) \<noteq> cons_w (cons s) \<and> cons_at (cons s) (cons_e (cons s) - 1) \<noteq> 10"
      using False er(4) "1.prems"(2) last_in_set [OF False] cons_line_empty by metis
    have k: "cons ?s = (cons s)\<lparr>cons_e := cons_e (cons s) - 1\<rparr>" "uart_out ?s = uart_out s @ [0]"
      by (simp_all add: consputc_eq upd_cons_def BACKSPACE_def)
    have "kill_line ?s = ?s\<lparr>cons := (cons ?s)\<lparr>cons_e := cons_w (cons ?s)\<rparr>,
        uart_out := uart_out ?s @ replicate (length (cons_line (cons ?s))) 0\<rparr>"
      by (rule "1.IH" [OF c]) (use er "1.prems"(2) in \<open>auto simp: k dest: in_set_butlastD\<close>)
    moreover have "kill_line s = kill_line ?s" using c by (subst kill_line.simps) (rule if_P)
    moreover have "(0 :: u8) # replicate (length (cons_line (cons s)) - 1) 0 = replicate (length (cons_line (cons s))) 0"
      using False by (cases "cons_line (cons s)") simp_all
    ultimately show ?thesis unfolding k er(3) by (simp add: consputc_eq upd_cons_def)
  qed
qed

section \<open>A byte arrives\<close>

abbreviation readers :: "kst \<Rightarrow> nat set" where
  "readers s \<equiv> {p. p < NPROC \<and> sleeper (Some Ch_cons) s p}"

text \<open>
  What a byte may change: the console, what is sent, and, when a line becomes ready, the processes that
  wait for it, which are made runnable.
\<close>

definition fed :: "kst \<Rightarrow> kst \<Rightarrow> bool" where
  "fed s t \<longleftrightarrow> t = s\<lparr>smp := smp t, cons := cons t, uart_in := uart_in t, uart_out := uart_out t, proc_pool := proc_pool t, task_queue := task_queue t\<rparr> \<and>
     settle (smp t) = settle (smp s) \<and>
     proc_pool t = (if length (cons_ready (cons t)) = length (cons_ready (cons s)) then proc_pool s else make_ready (readers s) s) \<and>
     queue_list (task_queue t) = queue_list (task_queue s) @
       (if length (cons_ready (cons t)) = length (cons_ready (cons s)) then [] else filter (sleeper (Some Ch_cons) s) [0..<NPROC])"

definition editing :: "kst \<Rightarrow> bool" where
  "editing s \<longleftrightarrow> locks_ready s \<and> k_free L_cons s \<and> sched_inv None (view s) \<and> cons_inv (cons s)"

lemma typed_inv:
  assumes "cons_wf k" and "cons_text k = typed c (cons_text k0)" and "cons_inv k0"
  shows "cons_inv k" and "length (cons_ready k0) \<le> length (cons_ready k)"
proof -
  have n: "length (cons_ready k) + length (cons_line k) \<le> 128" by (rule cons_lengths(3) [OF assms(1)])
  have t: "cons_ready k = fst (typed c (cons_text k0))" "cons_line k = snd (typed c (cons_text k0))"
    using arg_cong [OF assms(2), of fst] arg_cong [OF assms(2), of snd] by (simp_all del: typed.simps)
  show "cons_inv k"
    unfolding cons_inv_def t
    using assms(1,3) n by (auto simp: cons_inv_def Let_def dest: in_set_butlastD split: if_splits)
  show "length (cons_ready k0) \<le> length (cons_ready k)" unfolding t by (simp add: Let_def)
qed

lemma view_editing [simp]:
  "view (s\<lparr>cons := k\<rparr>) = view s" "view (s\<lparr>uart_out := x\<rparr>) = view s" "view (s\<lparr>uart_in := y\<rparr>) = view s"
  by (simp_all add: view_def)

lemma with_cons_lock:
  assumes "editing s"
  shows "k_acquire L_cons s = Inr (k_take L_cons s)" and "locks_ready (k_take L_cons s)"
    and "sched_inv None (view (k_take L_cons s))"
proof -
  have l: "k_ready s" "k_free L_cons s" "locks_ready s" "sched_inv None (view s)"
    using assms by (simp_all add: editing_def locks_ready_def)
  show a: "k_acquire L_cons s = Inr (k_take L_cons s)" by (rule k_acquire_free [OF l(1,2)])
  have "ends (\<lambda>t. sched_inv None (view t)) (k_acquire L_cons s)" by (rule k_acquire_view) (simp add: l(4))
  from endsD [OF this a] show "sched_inv None (view (k_take L_cons s))" .
  show "locks_ready (k_take L_cons s)"
    using l(3) by (simp add: locks_ready_def k_ready_def k_free_def lk.free_after)
qed

text \<open>What follows the switch of \<^verbatim>\<open>consintr\<close>: the lock is given back.\<close>

lemma consintr_ends:
  assumes e: "editing s" and b: "consintr_switch c (k_take L_cons s) = Inr u"
    and f: "u = s\<lparr>smp := smp u, cons := k, uart_out := out, proc_pool := proc_pool u, task_queue := task_queue u\<rparr>"
      "settle (smp u) = settle (take_lock L_cons (smp s))"
    and w: "proc_pool u = (if length (cons_ready k) = length (cons_ready (cons s)) then proc_pool s else make_ready (readers s) s)"
      "queue_list (task_queue u) = queue_list (task_queue s) @
         (if length (cons_ready k) = length (cons_ready (cons s)) then [] else filter (sleeper (Some Ch_cons) s) [0..<NPROC])"
    and t: "cons_wf k" "cons_text k = typed c (cons_text (cons s))" and o: "out = uart_out s @ echoed c (cons_text (cons s))"
  shows "\<exists>t. consintr c s = Inr t \<and> editing t \<and> fed s t \<and> cons_text (cons t) = typed c (cons_text (cons s)) \<and>
    uart_out t = uart_out s @ echoed c (cons_text (cons s)) \<and> uart_in t = uart_in s"
proof -
  have rdy: "k_ready s" "k_free L_cons s" and inv: "cons_inv (cons s)" and lr: "locks_ready s"
    using e by (simp_all add: editing_def locks_ready_def)
  obtain t where t_def: "t = u\<lparr>smp := settle (smp s)\<rparr>" by blast
  have "smp u = take_lock L_cons (smp s)"
    using f(2) rdy by (intro taken_back) (simp_all add: k_ready_def)
  then have r: "k_release L_cons u = Inr t"
    unfolding t_def using rdy by (intro k_release_taken) (simp_all add: k_ready_def k_free_def)
  obtain P q where pq: "P = proc_pool u" "q = task_queue u" by blast
  have tt: "t = s\<lparr>smp := settle (smp s), cons := k, uart_out := out, proc_pool := P, task_queue := q\<rparr>"
    unfolding t_def pq by (subst f(1)) simp
  have "fed s t" using w unfolding fed_def pq [symmetric] by (cases s) (simp add: tt)
  moreover have "locks_ready t" "k_free L_cons t"
    using lr rdy by (simp_all add: locks_ready_def k_ready_def k_free_def tt)
  moreover have run: "consintr c s = Inr t"
    by (simp add: consintr_def with_cons_lock(1) [OF e] b r)
  moreover have "sched_inv None (view t)"
    using endsD [OF consintr_view run] e by (simp add: editing_def)
  moreover have "cons t = k" "uart_out t = out" "uart_in t = uart_in s" by (simp_all add: tt)
  ultimately show ?thesis using typed_inv(1) [OF t inv] t(2) unfolding o by (simp add: editing_def del: typed.simps echoed.simps)
qed

text \<open>The two ways the switch ends: with no line completed, and with a line for the readers.\<close>

lemma consintr_keeps:
  assumes "editing s" and "consintr_switch c (k_take L_cons s) = Inr ((k_take L_cons s)\<lparr>cons := k, uart_out := out\<rparr>)"
    and "cons_wf k" and "cons_text k = typed c (cons_text (cons s))" and "out = uart_out s @ echoed c (cons_text (cons s))"
    and "cons_ready k = cons_ready (cons s)"
  shows "\<exists>t. consintr c s = Inr t \<and> editing t \<and> fed s t \<and> cons_text (cons t) = typed c (cons_text (cons s)) \<and>
    uart_out t = uart_out s @ echoed c (cons_text (cons s)) \<and> uart_in t = uart_in s"
  by (rule consintr_ends [OF assms(1,2) _ _ _ _ assms(3-5)]) (simp_all add: assms(6))

lemma consintr_wakes:
  assumes "editing s" and "consintr_switch c (k_take L_cons s) = wakeup (Some Ch_cons) ((k_take L_cons s)\<lparr>cons := k, uart_out := out\<rparr>)"
    and "cons_wf k" and "cons_text k = typed c (cons_text (cons s))" and "out = uart_out s @ echoed c (cons_text (cons s))"
    and "length (cons_ready k) \<noteq> length (cons_ready (cons s))"
  shows "\<exists>t. consintr c s = Inr t \<and> editing t \<and> fed s t \<and> cons_text (cons t) = typed c (cons_text (cons s)) \<and>
    uart_out t = uart_out s @ echoed c (cons_text (cons s)) \<and> uart_in t = uart_in s"
proof -
  let ?s = "(k_take L_cons s)\<lparr>cons := k, uart_out := out\<rparr>"
  have l: "locks_ready ?s" "sched_inv None (view ?s)"
    using with_cons_lock(2,3) [OF assms(1)] by (simp_all add: locks_ready_def k_ready_def k_free_def)
  have same: "sleeper (Some Ch_cons) ?s = sleeper (Some Ch_cons) s" "make_ready A ?s = make_ready A s" for A
    by (simp_all add: sleeper_def make_ready_def fun_eq_iff)
  obtain u where u: "wakeup (Some Ch_cons) ?s = Inr u" "only_woken ?s u" "proc_pool u = make_ready (readers s) s"
      "queue_list (task_queue u) = queue_list (task_queue s) @ filter (sleeper (Some Ch_cons) s) [0..<NPROC]"
    using wakeup_eq [OF l, of "Some Ch_cons"] unfolding same by auto
  have f: "u = ?s\<lparr>smp := smp u, proc_pool := proc_pool u, task_queue := task_queue u\<rparr>" "settle (smp u) = settle (smp ?s)"
    using u(2) unfolding only_woken_def by blast+
  show ?thesis
  proof (rule consintr_ends [OF assms(1) _ _ _ _ _ assms(3-5)])
    show "u = s\<lparr>smp := smp u, cons := k, uart_out := out, proc_pool := proc_pool u, task_queue := task_queue u\<rparr>"
      by (subst f(1)) simp
  qed (use f(2) u assms(2,6) in simp_all)
qed

lemma kill_whole_line:
  assumes "cons_wf k"
  shows "cons_wf (k\<lparr>cons_e := cons_w k\<rparr>)" and "cons_ready (k\<lparr>cons_e := cons_w k\<rparr>) = cons_ready k" and "cons_line (k\<lparr>cons_e := cons_w k\<rparr>) = []"
  using assms by (auto simp: cons_wf_def cons_ready_def ring_def cons_line_empty)

lemma backspace_byte: "ucast BACKSPACE = (0 :: u8)"
  by (simp add: BACKSPACE_def)

lemma echo_byte: "ucast (ucast c :: i32) = (c :: u8)"
  by (rule bit_eqI) (auto simp: bit_ucast_iff)

lemma out_first: "s\<lparr>uart_out := x, cons := k\<rparr> = s\<lparr>cons := k, uart_out := x\<rparr>" for s :: kst
  by simp

text \<open>A byte that is stored and echoed.\<close>

lemma consintr_stores:
  assumes e: "editing s"
    and store: "c \<noteq> ctrl_P" "c \<noteq> ctrl_U" "\<not> (c = ctrl_H \<or> c = 0x7f)"
      "c \<noteq> 0 \<and> length (cons_ready (cons s)) + length (cons_line (cons s)) < 128"
  shows "\<exists>t. consintr c s = Inr t \<and> editing t \<and> fed s t \<and> cons_text (cons t) = typed c (cons_text (cons s)) \<and>
    uart_out t = uart_out s @ echoed c (cons_text (cons s)) \<and> uart_in t = uart_in s"
proof -
  let ?k = "cons s" and ?s = "k_take L_cons s"
  have wf: "cons_wf ?k" using e by (simp add: editing_def cons_inv_def)
  obtain d where d: "d = (if c = 13 then 10 else c)" by blast
  obtain k1 where k1: "k1 = ?k\<lparr>cons_buf := (cons_buf ?k)[unat (cons_e ?k mod INPUT_BUF_SIZE) := d], cons_e := cons_e ?k + 1\<rparr>" by blast
  note st = cons_store [OF wf _ k1]
  have k1s: "cons_wf k1" "cons_ready k1 = cons_ready ?k" "cons_line k1 = cons_line ?k @ [d]" using st store(4) by simp_all
  have room: "cons_e ?k - cons_r ?k < INPUT_BUF_SIZE" using store(4) by (simp add: cons_room [OF wf])
  have full: "cons_e k1 - cons_r k1 = INPUT_BUF_SIZE \<longleftrightarrow> length (cons_ready ?k) + length (cons_line ?k @ [d]) = 128"
    using cons_full [OF k1s(1)] k1s by simp
  have sw: "consintr_switch c ?s =
      (if d = 10 \<or> d = ctrl_D \<or> cons_e k1 - cons_r k1 = INPUT_BUF_SIZE
       then wakeup (Some Ch_cons) (?s\<lparr>cons := k1\<lparr>cons_w := cons_e k1\<rparr>, uart_out := uart_out s @ [d]\<rparr>)
       else Inr (?s\<lparr>cons := k1, uart_out := uart_out s @ [d]\<rparr>))"
    using store room unfolding consintr_switch_def d [symmetric]
    by (simp add: consputc_eq upd_cons_def k1 Let_def d [symmetric] echo_byte out_first)
  have ty: "typed c (cons_text ?k) =
      (if d = 10 \<or> d = ctrl_D \<or> length (cons_ready ?k) + length (cons_line ?k @ [d]) = 128
       then (cons_ready ?k @ cons_line ?k @ [d], []) else (cons_ready ?k, cons_line ?k @ [d]))"
    and ec: "echoed c (cons_text ?k) = [d]"
    using store unfolding typed.simps echoed.simps d [symmetric] by (simp_all add: Let_def)
  show ?thesis
  proof (cases "d = 10 \<or> d = ctrl_D \<or> cons_e k1 - cons_r k1 = INPUT_BUF_SIZE")
    case True
    show ?thesis
    proof (rule consintr_wakes [where k = "k1\<lparr>cons_w := cons_e k1\<rparr>", OF e])
      show "consintr_switch c ?s = wakeup (Some Ch_cons) (?s\<lparr>cons := k1\<lparr>cons_w := cons_e k1\<rparr>, uart_out := uart_out s @ [d]\<rparr>)"
        unfolding sw using True by simp
    qed (use True in \<open>simp_all only: ec ty full cons_commit [OF k1s(1)] k1s if_True, simp_all\<close>)
  next
    case False
    show ?thesis
    proof (rule consintr_keeps [where k = k1, OF e])
      show "consintr_switch c ?s = Inr (?s\<lparr>cons := k1, uart_out := uart_out s @ [d]\<rparr>)"
        unfolding sw using False by simp
    qed (use False in \<open>simp_all only: ec ty full k1s if_False\<close>)
  qed
qed

lemma consintr_edits:
  assumes e: "editing s"
  shows "\<exists>t. consintr c s = Inr t \<and> editing t \<and> fed s t \<and> cons_text (cons t) = typed c (cons_text (cons s)) \<and>
    uart_out t = uart_out s @ echoed c (cons_text (cons s)) \<and> uart_in t = uart_in s"
proof -
  let ?k = "cons s" and ?s = "k_take L_cons s"
  have wf: "cons_wf ?k" and nl: "10 \<notin> set (cons_line ?k)" using e by (simp_all add: editing_def cons_inv_def)
  consider (p) "c = ctrl_P" | (u) "c = ctrl_U" | (h) "c = ctrl_H \<or> c = 0x7f"
    | (store) "c \<noteq> ctrl_P" "c \<noteq> ctrl_U" "\<not> (c = ctrl_H \<or> c = 0x7f)" "c \<noteq> 0 \<and> length (cons_ready ?k) + length (cons_line ?k) < 128"
    | (drop) "c \<noteq> ctrl_P" "c \<noteq> ctrl_U" "\<not> (c = ctrl_H \<or> c = 0x7f)" "\<not> (c \<noteq> 0 \<and> length (cons_ready ?k) + length (cons_line ?k) < 128)"
    by blast
  then show ?thesis
  proof cases
    case p
    show ?thesis by (rule consintr_keeps [where k = ?k, OF e]) (use wf in \<open>simp_all add: p consintr_switch_def\<close>)
  next
    case u
    have "ctrl_U \<noteq> ctrl_P" by (simp add: ctrl_U_def ctrl_P_def)
    then show ?thesis
      by (intro consintr_keeps [where k = "?k\<lparr>cons_e := cons_w ?k\<rparr>", OF e])
        (use wf nl kill_whole_line [OF wf] in \<open>simp_all add: u consintr_switch_def kill_line_eq\<close>)
  next
    case h
    then have n: "c \<noteq> ctrl_P" "c \<noteq> ctrl_U" by (auto simp: ctrl_U_def ctrl_P_def ctrl_H_def)
    show ?thesis
    proof (cases "cons_line ?k = []")
      case True
      then have "cons_e ?k = cons_w ?k" by (simp add: cons_line_empty)
      with True h n wf show ?thesis by (intro consintr_keeps [where k = ?k, OF e]) (auto simp: consintr_switch_def)
    next
      case False
      then have "cons_e ?k \<noteq> cons_w ?k" by (simp add: cons_line_empty)
      then show ?thesis
        by (intro consintr_keeps [where k = "?k\<lparr>cons_e := cons_e ?k - 1\<rparr>", OF e])
          (use h n False cons_erase [OF wf False] in \<open>auto simp: consintr_switch_def consputc_eq upd_cons_def backspace_byte\<close>)
    qed
  next
    case store
    then show ?thesis by (rule consintr_stores [OF e])
  next
    case drop
    have n: "\<not> (c \<noteq> 0 \<and> cons_e (cons ?s) - cons_r (cons ?s) < INPUT_BUF_SIZE)" using drop(4) by (simp add: cons_room [OF wf])
    have "consintr_switch c ?s = Inr ?s" unfolding consintr_switch_def by (simp only: n drop(1-3) if_False)
    moreover have "c = 0 \<or> 128 \<le> length (cons_ready ?k) + length (cons_line ?k)" using drop(4) by linarith
    then have "typed c (cons_text ?k) = cons_text ?k" "echoed c (cons_text ?k) = []"
      unfolding typed.simps echoed.simps by (simp_all only: drop(1-3) if_True if_False)
    ultimately show ?thesis
      by (intro consintr_keeps [where k = ?k and out = "uart_out s", OF e]) (use wf in \<open>simp_all del: typed.simps echoed.simps\<close>)
  qed
qed

section \<open>All bytes\<close>

fun echo_run :: "u8 list \<Rightarrow> u8 list \<times> u8 list \<Rightarrow> u8 list" where
  "echo_run [] x = []"
| "echo_run (c # cs) x = echoed c x @ echo_run cs (typed c x)"

lemma fed_refl: "fed s s" "fed s (s\<lparr>uart_in := cs\<rparr>)"
  by (simp_all add: fed_def)

lemma fed_frame:
  fixes s t u :: kst
  assumes "t = s\<lparr>smp := a, cons := b, uart_in := c, uart_out := d, proc_pool := e, task_queue := f\<rparr>"
    and "u = t\<lparr>smp := a', cons := b', uart_in := c', uart_out := d', proc_pool := e', task_queue := f'\<rparr>"
  shows "u = s\<lparr>smp := a', cons := b', uart_in := c', uart_out := d', proc_pool := e', task_queue := f'\<rparr>"
  unfolding assms by simp

lemma fed_trans:
  assumes "fed s t" and "fed t u" and "length (cons_ready (cons s)) \<le> length (cons_ready (cons t))"
    and "length (cons_ready (cons t)) \<le> length (cons_ready (cons u))"
  shows "fed s u"
proof -
  let ?n = "\<lambda>s. length (cons_ready (cons s))"
  have fr: "t = s\<lparr>smp := smp t, cons := cons t, uart_in := uart_in t, uart_out := uart_out t, proc_pool := proc_pool t, task_queue := task_queue t\<rparr>"
      "u = t\<lparr>smp := smp u, cons := cons u, uart_in := uart_in u, uart_out := uart_out u, proc_pool := proc_pool u, task_queue := task_queue u\<rparr>"
      and st: "settle (smp u) = settle (smp s)"
    using assms(1,2) unfolding fed_def by auto
  have frame: "u = s\<lparr>smp := smp u, cons := cons u, uart_in := uart_in u, uart_out := uart_out u, proc_pool := proc_pool u, task_queue := task_queue u\<rparr>"
    by (rule fed_frame [OF fr])
  show ?thesis
  proof (cases "?n t = ?n s")
    case True
    then have p: "proc_pool t = proc_pool s" "queue_list (task_queue t) = queue_list (task_queue s)" using assms(1) by (simp_all add: fed_def)
    then have "sleeper (Some Ch_cons) t = sleeper (Some Ch_cons) s" "\<And>A. make_ready A t = make_ready A s"
      by (simp_all add: sleeper_def make_ready_def fun_eq_iff)
    then show ?thesis using assms(2) frame st p True by (simp add: fed_def)
  next
    case False
    then have p: "proc_pool t = make_ready (readers s) s"
        "queue_list (task_queue t) = queue_list (task_queue s) @ filter (sleeper (Some Ch_cons) s) [0..<NPROC]"
      using assms(1) by (simp_all add: fed_def)
    have none: "\<not> sleeper (Some Ch_cons) t q" if "q < NPROC" for q
      using that by (auto simp: sleeper_def p(1) make_ready_def)
    then have "filter (sleeper (Some Ch_cons) t) [0..<NPROC] = []" by auto
    moreover have "make_ready (readers t) t = proc_pool t" using none by (auto simp: make_ready_def fun_eq_iff)
    ultimately have "proc_pool u = proc_pool t" "queue_list (task_queue u) = queue_list (task_queue t)"
      using assms(2) by (simp_all add: fed_def)
    moreover have "?n u \<noteq> ?n s" using False assms(3,4) by linarith
    ultimately show ?thesis using frame st p by (simp add: fed_def)
  qed
qed

lemma typed_grows: "length (fst x) \<le> length (fst (typed c x))"
  by (cases x) (simp add: Let_def)

lemma typed_fold_grows: "length (fst x) \<le> length (fst (fold typed cs x))"
proof (induction cs arbitrary: x)
  case (Cons c cs)
  show ?case using le_trans [OF typed_grows [of x c] Cons.IH [of "typed c x"]] by (simp del: typed.simps)
qed simp

lemma typed_prefix: "\<exists>ys. fst (typed c x) = fst x @ ys"
  by (cases x) (simp add: Let_def)

lemma typed_fold_prefix: "\<exists>ys. fst (fold typed cs x) = fst x @ ys"
proof (induction cs arbitrary: x)
  case (Cons c cs)
  show ?case using Cons.IH [of "typed c x"] typed_prefix [of c x] by (auto simp del: typed.simps)
qed simp

lemma uart_intr_loop_edits:
  "editing s \<Longrightarrow> length (uart_in s) < n \<Longrightarrow>
   \<exists>t. uart_intr_loop n s = Inr t \<and> editing t \<and> fed s t \<and> uart_in t = [] \<and>
     cons_text (cons t) = fold typed (uart_in s) (cons_text (cons s)) \<and>
     uart_out t = uart_out s @ echo_run (uart_in s) (cons_text (cons s))"
proof (induction n arbitrary: s)
  case (Suc n)
  show ?case
  proof (cases "uart_in s")
    case Nil
    then show ?thesis using Suc.prems fed_refl(1) [of s] by (simp add: uartgetc_def)
  next
    case (Cons c cs)
    let ?s = "s\<lparr>uart_in := cs\<rparr>"
    have e: "editing ?s" using Suc.prems(1) by (simp add: editing_def locks_ready_def k_ready_def k_free_def)
    obtain t where t: "consintr c ?s = Inr t" "editing t" "fed ?s t" "cons_text (cons t) = typed c (cons_text (cons s))"
        "uart_out t = uart_out s @ echoed c (cons_text (cons s))" "uart_in t = cs"
      using consintr_edits [OF e, of c] by (auto simp del: typed.simps echoed.simps)
    obtain u where u: "uart_intr_loop n t = Inr u" "editing u" "fed t u" "uart_in u = []"
        "cons_text (cons u) = fold typed cs (cons_text (cons t))" "uart_out u = uart_out t @ echo_run cs (cons_text (cons t))"
      using Suc.IH [OF t(2)] Suc.prems(2) t(6) Cons by auto
    have g: "length (cons_ready (cons s)) \<le> length (cons_ready (cons t))"
      using typed_grows [of "cons_text (cons s)" c] unfolding t(4) [symmetric] by simp
    have h: "length (cons_ready (cons t)) \<le> length (cons_ready (cons u))"
      using typed_fold_grows [of "cons_text (cons t)" cs] unfolding u(5) [symmetric] by simp
    have "fed s t" using fed_trans [OF fed_refl(2) t(3)] g by simp
    then have "fed s u" by (rule fed_trans [OF _ u(3) g h])
    then show ?thesis using t u Cons by (simp add: uartgetc_def del: typed.simps echoed.simps)
  qed
qed simp

section \<open>The properties\<close>

text \<open>C23. A byte from the keyboard: in a state in which the console's ring is well-formed and the locks
  are free, \<^verbatim>\<open>consintr\<close> returns, and does on the ring what the editor does on the two lists. Control-U
  erases the line and a backspace its last byte, but neither touches a line that is already committed;
  a return becomes a newline; a newline, a control-D or a full ring commits the line; a byte that does
  not fit is dropped without an echo. The ring stays well-formed: it never holds more than 128 bytes, a
  full ring can always be read, and the line being edited contains no end of line.\<close>

theorem consintr_refines_editor:
  assumes "editing s"
  shows "\<exists>t. consintr c s = Inr t \<and> cons_inv (cons t) \<and>
    (cons_ready (cons t), cons_line (cons t)) = typed c (cons_ready (cons s), cons_line (cons s)) \<and>
    uart_out t = uart_out s @ echoed c (cons_ready (cons s), cons_line (cons s))"
proof -
  obtain t where "consintr c s = Inr t" "editing t" "cons_text (cons t) = typed c (cons_text (cons s))"
      "uart_out t = uart_out s @ echoed c (cons_text (cons s))"
    using consintr_edits [OF assms] by blast
  then show ?thesis by (simp add: editing_def del: typed.simps echoed.simps)
qed

text \<open>C24. An interrupt of the UART: the handler always returns, and has then passed every byte that
  was waiting to the editor, in order. If any line became ready, every process that was asleep on the
  console is runnable and stands at the end of the ready queue, in the order of the table, and nobody
  sleeps on the console any more: no wakeup is lost. Otherwise no process changes.\<close>

theorem uart_intr_correct:
  assumes "editing s"
  shows "\<exists>t. uart_intr s = Inr t \<and> uart_in t = [] \<and> editing t \<and>
    (cons_ready (cons t), cons_line (cons t)) = fold typed (uart_in s) (cons_ready (cons s), cons_line (cons s)) \<and>
    (if cons_ready (cons t) = cons_ready (cons s) then proc_pool t = proc_pool s \<and> queue_list (task_queue t) = queue_list (task_queue s)
     else queue_list (task_queue t) = queue_list (task_queue s) @ filter (sleeper (Some Ch_cons) s) [0..<NPROC] \<and>
       filter (sleeper (Some Ch_cons) t) [0..<NPROC] = [])"
proof -
  obtain t where t: "uart_intr s = Inr t" "editing t" "fed s t" "uart_in t = []"
      "cons_text (cons t) = fold typed (uart_in s) (cons_text (cons s))"
    using uart_intr_loop_edits [OF assms, of "Suc (length (uart_in s))"] unfolding uart_intr_def by auto
  have same: "cons_ready (cons t) = cons_ready (cons s)" if "length (cons_ready (cons t)) = length (cons_ready (cons s))"
    using typed_fold_prefix [where x = "cons_text (cons s)" and cs = "uart_in s"] that unfolding t(5) [symmetric] by auto
  show ?thesis
  proof (cases "length (cons_ready (cons t)) = length (cons_ready (cons s))")
    case True
    then show ?thesis using t same by (auto simp: fed_def simp del: typed.simps)
  next
    case False
    then have "proc_pool t = make_ready (readers s) s"
        "queue_list (task_queue t) = queue_list (task_queue s) @ filter (sleeper (Some Ch_cons) s) [0..<NPROC]"
      using t(3) by (simp_all add: fed_def)
    moreover have "filter (sleeper (Some Ch_cons) t) [0..<NPROC] = []"
      by (auto simp: filter_empty_conv sleeper_def calculation(1) make_ready_def)
    moreover have "cons_ready (cons t) \<noteq> cons_ready (cons s)" using False by auto
    ultimately show ?thesis using t by (auto simp del: typed.simps)
  qed
qed

text \<open>Two processes wait for input; a line is typed, with a mistake that is corrected, and a second one begun.\<close>

definition typing_demo :: kst where
  "typing_demo = wakeup_demo\<lparr>cons := \<lparr>cons_buf = replicate 128 0, cons_r = 0, cons_w = 0, cons_e = 0\<rparr>,
     uart_in := [108, 120, ctrl_H, 115, 13, 97]\<rparr>"

lemma typing_demo_editing: "editing typing_demo"
  using wakeup_demo_ready wakeup_demo_inv
  by (simp add: editing_def locks_ready_def typing_demo_def k_ready_def k_free_def cons_inv_def cons_wf_def cons_line_def ring_def)

lemma typing_demo_text: "cons_text (cons typing_demo) = ([], [])"
  by (simp add: typing_demo_def cons_ready_def cons_line_def ring_def)

theorem consintr_refines_editor_witness:
  "\<exists>t. consintr 13 typing_demo = Inr t \<and> (cons_ready (cons t), cons_line (cons t)) = ([10], []) \<and>
    uart_out t = uart_out typing_demo @ [10]"
  using consintr_refines_editor [OF typing_demo_editing, of 13] typing_demo_text
  by (auto simp: ctrl_P_def ctrl_U_def ctrl_H_def)

theorem uart_intr_correct_witness:
  "\<exists>t. uart_intr typing_demo = Inr t \<and> (cons_ready (cons t), cons_line (cons t)) = ([108, 115, 10], [97]) \<and>
    queue_list (task_queue t) = [0, 1, 3]"
proof -
  have f: "fold typed (uart_in typing_demo) (cons_text (cons typing_demo)) = ([108, 115, 10], [97])"
    unfolding typing_demo_text by (simp add: typing_demo_def ctrl_P_def ctrl_U_def ctrl_H_def ctrl_D_def)
  have "sleeper (Some Ch_cons) typing_demo = (\<lambda>p. p_state (proc_pool wakeup_demo p) = SLEEPING \<and> p_sleep_chan (proc_pool wakeup_demo p) = Some Ch_cons)"
    by (simp add: fun_eq_iff sleeper_def typing_demo_def)
  then have r: "filter (sleeper (Some Ch_cons) typing_demo) [0..<NPROC] = [1, 3]" by (simp only: wakeup_demo_sleepers)
  have q: "queue_list (task_queue typing_demo) = [0]" using sched_demo_queue by (simp add: typing_demo_def wakeup_demo_def)
  have "cons_ready (cons typing_demo) = []" using typing_demo_text by simp
  with uart_intr_correct [OF typing_demo_editing] show ?thesis unfolding f r q by auto
qed

end
