(* ===== verification/ReadLine.thy ===== *)
theory ReadLine imports Family LineEdit begin

text \<open>
  Reading the console: what \<^verbatim>\<open>user_console_read\<close> hands to a process, from the bytes that the line editor
  has made ready to the memory of the process.
\<close>

section \<open>The specification\<close>

text \<open>
  What a call that still wants \<open>n\<close> bytes takes from the bytes \<open>rd\<close> that are ready, when the next \<open>m\<close> bytes
  of its buffer can be written and \<open>some\<close> says whether it has bytes already: the bytes it delivers, what
  it leaves, and whether it then waits for more.
\<close>

fun reads :: "nat \<Rightarrow> nat \<Rightarrow> bool \<Rightarrow> u8 list \<Rightarrow> u8 list \<times> u8 list \<times> bool" where
  "reads 0 m some rd = ([], rd, False)"
| "reads (Suc n) m some [] = ([], [], True)"
| "reads (Suc n) m some (c # cs) =
     (if c = ctrl_D then ([], if some then c # cs else cs, False)
      else if m = 0 then ([], cs, False)
      else if c = 10 then ([10], cs, False)
      else case reads n (m - 1) True cs of (xs, rest, waits) \<Rightarrow> (c # xs, rest, waits))"

lemma reads_length: "length (fst (reads n m b rd)) \<le> m" "length (fst (reads n m b rd)) \<le> n"
  by (induction n m b rd rule: reads.induct) (auto split: prod.splits)

lemma reads_waits: "snd (snd (reads n m b rd)) \<Longrightarrow> fst (snd (reads n m b rd)) = []"
  by (induction n m b rd rule: reads.induct) (auto split: prod.splits if_splits)

section \<open>Taking a byte from the ring\<close>

lemma cons_ready_empty: "cons_ready k = [] \<longleftrightarrow> cons_r k = cons_w k"
proof -
  have "cons_ready k = [] \<longleftrightarrow> unat (cons_w k - cons_r k) = 0"
    by (metis cons_ready_def length_0_conv length_ring)
  then show ?thesis by (auto simp: unat_eq_0)
qed

lemma ring_cong: "cons_buf k' = cons_buf k \<Longrightarrow> ring k' i n = ring k i n"
  by (simp add: ring_def)

lemma cons_take:
  assumes "cons_wf k" and "cons_ready k \<noteq> []"
  defines "k' \<equiv> k\<lparr>cons_r := cons_r k + 1\<rparr>"
  shows "cons_ready k = cons_at k (cons_r k) # cons_ready k'" and "cons_wf k'" and "cons_line k' = cons_line k"
proof -
  have ne: "cons_w k - cons_r k \<noteq> 0" using assms(2) by (simp add: cons_ready_empty)
  have le: "cons_w k - cons_r k \<le> cons_e k - cons_r k" "cons_e k - cons_r k \<le> 128" using assms(1) by (simp_all add: cons_wf_def)
  have w: "unat (cons_w k - (cons_r k + 1)) = unat (cons_w k - cons_r k) - 1"
    using unat_minus_one [OF ne] by (simp add: algebra_simps)
  have en: "cons_e k - cons_r k \<noteq> 0" using ne le(1) by (metis word_le_0_iff)
  have e: "unat (cons_e k - (cons_r k + 1)) = unat (cons_e k - cons_r k) - 1"
    using unat_minus_one [OF en] by (simp add: algebra_simps)
  have "ring k (cons_r k) (1 + unat (cons_w k - (cons_r k + 1))) = ring k (cons_r k) 1 @ ring k (cons_r k + of_nat 1) (unat (cons_w k - (cons_r k + 1)))"
    by (rule ring_add)
  moreover have "1 + unat (cons_w k - (cons_r k + 1)) = unat (cons_w k - cons_r k)" using w ne by (simp add: unat_gt_0)
  moreover have "ring k (cons_r k) 1 = [cons_at k (cons_r k)]" by (simp add: ring_def)
  ultimately show "cons_ready k = cons_at k (cons_r k) # cons_ready k'"
    by (simp add: cons_ready_def k'_def ring_cong [of "k\<lparr>cons_r := cons_r k + 1\<rparr>" k])
  have "unat (cons_w k - (cons_r k + 1)) \<le> unat (cons_e k - (cons_r k + 1))" "unat (cons_e k - (cons_r k + 1)) \<le> 128"
    using le unfolding w e word_le_nat_alt by simp_all
  then show "cons_wf k'" using assms(1) by (simp add: cons_wf_def k'_def word_le_nat_alt)
  show "cons_line k' = cons_line k" by (simp add: cons_line_def k'_def ring_cong [of "k\<lparr>cons_r := cons_r k + 1\<rparr>" k])
qed

section \<open>Delivering a byte\<close>

text \<open>
  The process \<open>p\<close> is in a call on this CPU, which holds the console's lock; its address space is in order,
  and from \<open>buf\<close> on \<open>m\<close> of the \<open>n\<close> bytes it asks for can be written. The byte on the kernel's stack through which
  the copy goes is apart from all of them.
\<close>

definition buffer_room :: "kst \<Rightarrow> u64 \<Rightarrow> u64 list \<Rightarrow> u64 \<Rightarrow> nat \<Rightarrow> nat \<Rightarrow> bool" where
  "buffer_room s root ps buf n m \<longleftrightarrow>
     vm_ok s root ps \<and> unat buf + n \<le> unat MAXVA \<and> m \<le> n \<and> user_range s root ps buf m \<and>
     (m < n \<longrightarrow> not_user s root (buf + of_nat m)) \<and> buffer_ok s root ps (local_buf s) 1 \<and>
     unat (local_buf s) + 1 < 2 ^ 64 \<and> (\<forall>i < m. local_buf s \<noteq> user_kva (mem s) root (buf + of_nat i))"

definition reading :: "kst \<Rightarrow> nat \<Rightarrow> u64 list \<Rightarrow> u64 \<Rightarrow> nat \<Rightarrow> nat \<Rightarrow> bool" where
  "reading s p ps buf n m \<longleftrightarrow>
     (let mm = p_mm (proc_pool s p) in
      curr_proc s = Inr p \<and> busy s \<and> k_free (L_proc p) s \<and> k_free (L_mm mm) s \<and> buffer_room s (mm_pgt (mms s mm)) ps buf n m)"

text \<open>The memory after a byte has gone to the address \<open>a\<close> of the process, or could not.\<close>

definition put_byte :: "kst \<Rightarrow> u64 \<Rightarrow> u64 \<Rightarrow> bool \<Rightarrow> u8 \<Rightarrow> mem" where
  "put_byte s root a ok c = (let m = (mem s)(local_buf s := c) in if ok then m(user_kva (mem s) root a := c) else m)"

definition deliver :: "u64 \<Rightarrow> u8 \<Rightarrow> kst \<Rightarrow> halt + i32 \<times> kst" where
  "deliver buf c s =
     kbind (store8 (local_buf s) c s) (\<lambda>t.
     kbind (take_mm t) (\<lambda>(mm, t).
     kbind (copy_to_user mm buf (local_buf s) 1 t) (\<lambda>(r, t).
     kbind (k_release (L_mm mm) t) (\<lambda>t. Inr (r, t)))))"

lemma take_mm_run:
  assumes cur: "curr_proc t = Inr p" and bz: "busy t" and lk: "k_free (L_proc p) t" "k_free (L_mm mm) t" and mm: "mm = p_mm (proc_pool t p)"
  shows "take_mm t = Inr (mm, k_take (L_mm mm) t)"
proof -
  have b: "busy (k_take (L_mm mm) t)" "busy (k_take (L_proc p) t)"
    using bz busy_take [of t] by (simp_all add: busy_def [of t])
  have "k_acquire (L_proc p) t = Inr (k_take (L_proc p) t)" by (rule busy_acquire [OF bz lk(1)])
  moreover have "k_acquire (L_mm mm) (k_take (L_proc p) t) = Inr (k_take (L_mm mm) (k_take (L_proc p) t))"
    by (rule busy_acquire) (use b(2) lk in \<open>simp_all add: k_free_def busy_def k_ready_def lk.free_after\<close>)
  moreover have "k_release (L_proc p) (k_take (L_mm mm) (k_take (L_proc p) t)) = Inr (k_take (L_mm mm) t)"
  proof -
    have "k_release (L_proc p) (k_take (L_mm mm) (k_take (L_proc p) t)) =
        Inr ((k_take (L_mm mm) (k_take (L_proc p) t))\<lparr>smp := smp (k_take (L_mm mm) t)\<rparr>)"
      by (rule busy_release [OF b(1)]) (use lk in \<open>simp_all add: k_free_def lk.free_after take_lock_swap\<close>)
    then show ?thesis by simp
  qed
  ultimately show ?thesis using cur by (simp add: take_mm_def mm Let_def)
qed

lemma put_byte_copied:
  assumes "copied_out m1 m' root buf (local_buf s) (if m = 0 then 0 else 1)" and "m1 = (mem s)(local_buf s := c)"
    and "user_kva m1 root buf = user_kva (mem s) root buf"
  shows "m' = put_byte s root buf (m \<noteq> (0 :: nat)) c"
proof (cases "m = 0")
  case True
  then have "m' = m1" using assms(1) by (simp add: copied_out_def copied_def fun_eq_iff)
  then show ?thesis using True by (simp add: put_byte_def assms(2))
next
  case False
  then have "m' (user_kva m1 root buf) = m1 (local_buf s)" "\<And>x. x \<noteq> user_kva m1 root buf \<Longrightarrow> m' x = m1 x"
    using assms(1) by (simp_all add: copied_out_def copied_def)
  then have "m' = m1(user_kva m1 root buf := m1 (local_buf s))" by (auto simp: fun_eq_iff)
  then show ?thesis using False unfolding assms(3) by (simp add: put_byte_def assms(2) Let_def)
qed

lemma deliver_eq:
  assumes r: "reading s p ps buf (Suc n) m" and root: "root = mm_pgt (mms s (p_mm (proc_pool s p)))"
  shows "deliver buf c s = Inr (if m = 0 then -1 else 0, s\<lparr>mem := put_byte s root buf (m \<noteq> 0) c\<rparr>)"
    and "writes_apart s root ps (put_byte s root buf (m \<noteq> 0) c)"
proof -
  let ?mm = "p_mm (proc_pool s p)" and ?b = "local_buf s"
  note d = r [unfolded reading_def buffer_room_def Let_def, folded root]
  have ok: "vm_ok s root ps" and bz: "busy s" and buf: "unat buf + 1 \<le> unat MAXVA" and bo: "buffer_ok s root ps ?b 1"
    and rng: "user_range s root ps buf m" and lk: "k_free (L_proc p) s" "k_free (L_mm ?mm) s"
    using d by simp_all
  define m1 where "m1 = (mem s)(?b := c)"
  define t where "t = s\<lparr>mem := m1\<rparr>"
  have w1: "writes_apart s root ps m1" using bo by (auto simp: writes_apart_def m1_def buffer_ok_def)
  note v = vm_ok_write [OF ok w1] and u = user_range_write [OF ok w1]
  have st: "store8 ?b c s = Inr t" using bo by (simp add: store8_def buffer_ok_def t_def m1_def)
  define t2 where "t2 = k_take (L_mm ?mm) t"
  have "busy t" "k_free (L_proc p) t" "k_free (L_mm ?mm) t" "curr_proc t = Inr p"
    using bz lk d busy_cong(1) [of t s] by (simp_all add: t_def k_free_def curr_proc_def)
  then have tk: "take_mm t = Inr (?mm, t2)" unfolding t2_def by (intro take_mm_run) (simp_all add: t_def)
  have "\<exists>m'. copy_to_user ?mm buf ?b 1 t2 = Inr (if m = 0 then -1 else 0, t2\<lparr>mem := m'\<rparr>) \<and>
      copied_out (mem t2) m' root buf ?b (if m = 0 then 0 else 1)"
  proof -
    have "vm_ok t2 root ps" unfolding t2_def by (rule vm_ok_take) (use v(1) in \<open>simp_all add: t_def\<close>)
    moreover have "user_range t2 root ps buf m" "not_user t2 root (buf + of_nat m) = not_user s root (buf + of_nat m)"
      using u rng by (simp_all add: t2_def t_def user_range_def readable_def user_page_def not_user_def managed_def)
    moreover have "apart_from_user t2 root buf ?b (if m = 0 then 0 else 1)"
      using d by (auto simp: apart_from_user_def t2_def t_def u dest: spec [of _ 0])
    moreover have "unat ?b + unat (1 :: u64) < 2 ^ 64" using d by simp
    ultimately show ?thesis
      using copy_to_user_run [of t2 root ps ?mm buf 1 ?b "if m = 0 then 0 else 1"] buf bo d user_range_mono [of t2 root ps buf m 1]
      by (auto simp: t2_def t_def root buffer_ok_def)
  qed
  then obtain m' where m': "copy_to_user ?mm buf ?b 1 t2 = Inr (if m = 0 then -1 else 0, t2\<lparr>mem := m'\<rparr>)"
    "copied_out m1 m' root buf ?b (if m = 0 then 0 else 1)"
    by (auto simp: t2_def t_def)
  have pb: "m' = put_byte s root buf (m \<noteq> 0) c" by (rule put_byte_copied [OF m'(2) m1_def u(2)])
  have "k_release (L_mm ?mm) (t2\<lparr>mem := m'\<rparr>) = Inr ((t2\<lparr>mem := m'\<rparr>)\<lparr>smp := smp s\<rparr>)"
    by (rule busy_release [OF bz lk(2)]) (simp add: t2_def t_def)
  then show "deliver buf c s = Inr (if m = 0 then -1 else 0, s\<lparr>mem := put_byte s root buf (m \<noteq> 0) c\<rparr>)"
    using st tk m'(1) by (simp add: deliver_def pb) (simp add: t2_def t_def)
  have "\<not> in_page q (user_kva (mem s) root buf)" if "m \<noteq> 0" "q \<in> tables (mem s) root \<union> set ps" for q
  proof -
    have "PGALIGNED q" using that(2) vm_okD(8,10) [OF ok] by (auto simp: managed_def)
    moreover have "page_of (mem s) root (PGROUNDDOWN buf) \<noteq> q"
      using rng that by (auto simp: user_range_def dest: spec [of _ 0])
    ultimately show ?thesis using in_page_disjoint [OF page_of_aligned _ user_kva_in_page] by blast
  qed
  then show "writes_apart s root ps (put_byte s root buf (m \<noteq> 0) c)"
    using bo by (auto simp: writes_apart_def put_byte_def Let_def buffer_ok_def)
qed

section \<open>The loop\<close>

lemma i64_of_nat:
  assumes "n < 2 ^ 32"
  shows "sint (of_nat n :: i64) = int n" and "0 < sint (of_nat n :: i64) \<longleftrightarrow> 0 < n"
    and "ucast (of_nat n :: i64) = (of_nat n :: u32)" and "unat (of_nat n :: u32) = n"
proof -
  show s: "sint (of_nat n :: i64) = int n"
    using assms by (simp add: signed_of_nat signed_take_bit_int_eq_self)
  then show "0 < sint (of_nat n :: i64) \<longleftrightarrow> 0 < n" by simp
  show u: "unat (of_nat n :: u32) = n" using assms by (simp add: unat_of_nat take_bit_nat_eq_self)
  have "unat (ucast (of_nat n :: i64) :: u32) = n"
    using assms by (simp add: unsigned_ucast_eq unat_of_nat take_bit_nat_eq_self)
  then show "ucast (of_nat n :: i64) = (of_nat n :: u32)" using u by (simp only: word_unat_eq_iff)
qed

text \<open>The bytes \<open>xs\<close> have gone to \<open>buf\<close>, and nothing else has changed but the byte \<open>b\<close>.\<close>

definition delivered :: "mem \<Rightarrow> mem \<Rightarrow> u64 \<Rightarrow> u64 \<Rightarrow> u64 \<Rightarrow> u8 list \<Rightarrow> bool" where
  "delivered m m' root b buf xs \<longleftrightarrow>
     (\<forall>i < length xs. m' (user_kva m root (buf + of_nat i)) = xs ! i) \<and>
     (\<forall>x. x \<noteq> b \<longrightarrow> (\<forall>i < length xs. x \<noteq> user_kva m root (buf + of_nat i)) \<longrightarrow> m' x = m x)"

lemma read_loop_deliver:
  "read_loop buf n target s =
     (let finish = (\<lambda>n s. kbind (k_release L_cons s) (\<lambda>s. Inr (Ret (ucast target - n), s))) in
      if 0 < sint n then
        if cons_r (cons s) = cons_w (cons s)
        then kbind (sleep_out Ch_cons L_cons (K_read buf n target) s) (\<lambda>s. Inr (Switched, s))
        else
          let c = cons_at (cons s) (cons_r (cons s)); t = s\<lparr>cons := (cons s)\<lparr>cons_r := cons_r (cons s) + 1\<rparr>\<rparr> in
          if c = ctrl_D then finish n (if sint n < uint target then s else t)
          else kbind (deliver buf c t) (\<lambda>(r, t).
            if r = -1 then finish n t else if c = 10 then finish (n - 1) t else read_loop (buf + 1) (n - 1) target t)
      else finish n s)"
  by (subst read_loop.simps)
    (simp add: Let_def upd_cons_def deliver_def kbind_assoc case_prod_unfold cong: if_cong)

text \<open>After a byte has been delivered, the rest of the buffer.\<close>

lemma reading_step:
  assumes r: "reading s p ps buf (Suc n) (Suc m)" and root: "root = mm_pgt (mms s (p_mm (proc_pool s p)))"
    and m': "m' = put_byte s root buf True c"
  shows "reading (s\<lparr>mem := m', cons := k\<rparr>) p ps (buf + 1) n m"
proof -
  note d = r [unfolded reading_def buffer_room_def Let_def, folded root]
  have ok: "vm_ok s root ps" using d by simp
  have w: "writes_apart s root ps m'" using deliver_eq(2) [OF r root, of c] by (simp add: m')
  note v = vm_ok_write [OF ok w] and u = user_range_write [OF ok w]
  let ?t = "s\<lparr>mem := m', cons := k\<rparr>"
  have ub: "unat (buf + 1) = unat buf + 1" using d MAXVA_small by (simp add: unat_add_no_wrap)
  have "vm_ok ?t root ps = vm_ok (s\<lparr>mem := m'\<rparr>) root ps" by (rule vm_ok_cong) simp_all
  moreover have "user_range ?t root ps a j = user_range (s\<lparr>mem := m'\<rparr>) root ps a j" for a j
    by (simp add: user_range_def readable_def user_page_def managed_def)
  moreover have "not_user ?t root a = not_user s root a" for a using u(3) by (simp add: not_user_def)
  moreover have "user_range s root ps (buf + 1) m" using user_range_shift [of s root ps buf "Suc m" 1] d by simp
  moreover have "busy ?t = busy s" "k_free l ?t = k_free l s" for l using busy_cong [of ?t s] by simp_all
  moreover have "curr_proc ?t = curr_proc s" by (simp add: curr_proc_def)
  moreover have "local_buf s \<noteq> user_kva (mem s) root (buf + 1 + of_nat i)" if "i < m" for i
  proof -
    have "Suc i < Suc m" using that by simp
    then have "local_buf s \<noteq> user_kva (mem s) root (buf + of_nat (Suc i))" using d by blast
    then show ?thesis by (simp add: add.assoc)
  qed
  ultimately show ?thesis
    using d v(1) ub by (simp add: reading_def buffer_room_def u v(3) buffer_ok_def root [symmetric] add.assoc)
qed

lemma delivered_step:
  assumes r: "reading s p ps buf (Suc n) (Suc m)" and root: "root = mm_pgt (mms s (p_mm (proc_pool s p)))"
    and xs: "length xs \<le> m"
    and d: "delivered (put_byte s root buf True c) m' root (local_buf s) (buf + 1) xs"
  shows "delivered (mem s) m' root (local_buf s) buf (c # xs)"
proof -
  note q = r [unfolded reading_def buffer_room_def Let_def, folded root]
  let ?m1 = "put_byte s root buf True c" and ?b = "local_buf s"
  have ok: "vm_ok s root ps" and rng: "user_range s root ps buf (Suc m)" using q by simp_all
  have w: "writes_apart s root ps ?m1" using deliver_eq(2) [OF r root, of c] by simp
  have kva: "user_kva ?m1 root a = user_kva (mem s) root a" for a using user_range_write(2) [OF ok w] .
  have e: "buf + 1 + of_nat i = buf + of_nat (Suc i)" for i by (simp add: add.assoc)
  have d': "\<forall>i < length xs. m' (user_kva (mem s) root (buf + of_nat (Suc i))) = xs ! i"
    "\<And>x. x \<noteq> ?b \<Longrightarrow> \<forall>i < length xs. x \<noteq> user_kva (mem s) root (buf + of_nat (Suc i)) \<Longrightarrow> m' x = ?m1 x"
    using d unfolding delivered_def kva e by blast+
  have ne: "user_kva (mem s) root buf \<noteq> user_kva (mem s) root (buf + of_nat (Suc i))" if "i < length xs" for i
  proof
    assume eq: "user_kva (mem s) root buf = user_kva (mem s) root (buf + of_nat (Suc i))"
    have "0 < Suc m" "Suc i < Suc m" using that xs by simp_all
    then have "buf + of_nat 0 = buf + of_nat (Suc i)" using user_range_inj [OF rng] eq by fastforce
    then have "(of_nat (Suc i) :: u64) = 0" by simp
    moreover have "unat (of_nat (Suc i) :: u64) = Suc i"
      using that xs q MAXVA_small by (simp add: unat_of_nat_small del: of_nat_Suc)
    ultimately show False by simp
  qed
  have b: "?b \<noteq> user_kva (mem s) root buf" using q by (auto dest: spec [of _ 0])
  have h: "m' (user_kva (mem s) root buf) = c"
    using d'(2) [of "user_kva (mem s) root buf"] ne b by (auto simp: put_byte_def Let_def)
  show ?thesis
    unfolding delivered_def
  proof (intro conjI allI impI)
    fix i assume "i < length (c # xs)"
    then show "m' (user_kva (mem s) root (buf + of_nat i)) = (c # xs) ! i" using h d'(1) by (cases i) simp_all
  next
    fix x assume x: "x \<noteq> ?b" "\<forall>i < length (c # xs). x \<noteq> user_kva (mem s) root (buf + of_nat i)"
    have "x \<noteq> user_kva (mem s) root buf" using x(2) by (auto dest: spec [of _ 0])
    moreover have "\<forall>i < length xs. x \<noteq> user_kva (mem s) root (buf + of_nat (Suc i))" using x(2) by (metis Suc_less_eq length_Cons)
    ultimately show "m' x = mem s x" using d'(2) [OF x(1)] x(1) by (simp add: put_byte_def Let_def)
  qed
qed

text \<open>How a call ends: it returns, or sleeps until there is more.\<close>

definition read_ends :: "lock_id smp \<Rightarrow> u64 \<Rightarrow> nat \<Rightarrow> u32 \<Rightarrow> nat \<Rightarrow> bool \<Rightarrow> kst \<Rightarrow> halt + i64 co \<times> kst" where
  "read_ends M buf n target len waits t =
     (if waits
      then kbind (sleep_out Ch_cons L_cons (K_read (buf + of_nat len) (of_nat (n - len)) target) t) (\<lambda>s. Inr (Switched, s))
      else Inr (Ret (ucast target - of_nat (n - len)), t\<lparr>smp := settle M\<rparr>))"

lemma delivered_nothing:
  "delivered m m root b buf []" "delivered (mem s) (put_byte s root buf False c) root (local_buf s) buf []"
  by (simp_all add: delivered_def put_byte_def)

lemma delivered_one:
  "reading s p ps buf (Suc n) (Suc m) \<Longrightarrow> root = mm_pgt (mms s (p_mm (proc_pool s p))) \<Longrightarrow>
    delivered (mem s) (put_byte s root buf True c) root (local_buf s) buf [c]"
  by (rule delivered_step) (simp_all add: delivered_nothing)

lemma mem_first: "s\<lparr>cons := k, mem := m\<rparr> = s\<lparr>mem := m, cons := k\<rparr>" for s :: kst
  by simp

text \<open>A round of the loop when a byte is ready.\<close>

lemma reading_cons: "reading s p ps buf n m \<Longrightarrow> reading (s\<lparr>cons := k\<rparr>) p ps buf n m"
proof -
  let ?t = "s\<lparr>cons := k\<rparr>"
  have "vm_ok ?t root ps = vm_ok s root ps" for root by (rule vm_ok_cong) simp_all
  moreover have "busy ?t = busy s" "k_free l ?t = k_free l s" for l using busy_cong [of ?t s] by simp_all
  ultimately show "reading s p ps buf n m \<Longrightarrow> reading ?t p ps buf n m"
    by (simp add: reading_def buffer_room_def Let_def curr_proc_def user_range_def readable_def user_page_def managed_def not_user_def buffer_ok_def)
qed

lemma read_loop_round:
  assumes r: "reading s p ps buf (Suc n) m" and root: "root = mm_pgt (mms s (p_mm (proc_pool s p)))"
    and rd: "cons_ready (cons s) = c # cs" "cons_at (cons s) (cons_r (cons s)) = c" and n: "Suc n \<le> unat target"
    and M: "smp s = take_lock L_cons M" "cpu_ready M" "lock_free L_cons M"
    and k: "k = (cons s)\<lparr>cons_r := cons_r (cons s) + 1\<rparr>"
  shows "read_loop buf (of_nat (Suc n)) target s =
    (if c = ctrl_D then read_ends M buf (Suc n) target 0 False (if Suc n < unat target then s else s\<lparr>cons := k\<rparr>)
     else if m = 0 then read_ends M buf (Suc n) target 0 False (s\<lparr>mem := put_byte s root buf False c, cons := k\<rparr>)
     else if c = 10 then read_ends M buf (Suc n) target 1 False (s\<lparr>mem := put_byte s root buf True c, cons := k\<rparr>)
     else read_loop (buf + 1) (of_nat n) target (s\<lparr>mem := put_byte s root buf True c, cons := k\<rparr>))"
proof -
  let ?t = "s\<lparr>cons := k\<rparr>"
  have rel: "k_release L_cons t = Inr (t\<lparr>smp := settle M\<rparr>)" if "smp t = take_lock L_cons M" for t
    by (rule k_release_taken [OF M(2,3) that])
  have "Suc n < 2 ^ 32" using n unat_less_2p [of target] by simp
  note N = i64_of_nat [OF this]
  have tg: "sint (of_nat (Suc n) :: i64) < uint target \<longleftrightarrow> Suc n < unat target"
    unfolding N(1) by (simp flip: unat_eq_nat_uint add: nat_int_comparison)
  have nr: "cons_r (cons s) \<noteq> cons_w (cons s)" using rd(1) by (simp flip: cons_ready_empty)
  have pos: "0 < sint (of_nat (Suc n) :: i64)" and pred: "(of_nat (Suc n) :: i64) - 1 = of_nat n"
    unfolding N(1) by simp_all
  have run: "read_loop buf (of_nat (Suc n)) target s =
      (if c = ctrl_D then kbind (k_release L_cons (if Suc n < unat target then s else ?t)) (\<lambda>s. Inr (Ret (ucast target - of_nat (Suc n)), s))
       else kbind (deliver buf c ?t) (\<lambda>(r, t).
        if r = -1 then kbind (k_release L_cons t) (\<lambda>s. Inr (Ret (ucast target - of_nat (Suc n)), s))
        else if c = 10 then kbind (k_release L_cons t) (\<lambda>s. Inr (Ret (ucast target - of_nat n), s))
        else read_loop (buf + 1) (of_nat n) target t))"
    by (subst read_loop_deliver) (simp only: Let_def pos tg pred nr rd(2) k if_True if_False)
  have pb: "put_byte ?t root buf b c = put_byte s root buf b c" for b by (simp add: put_byte_def Let_def)
  have rootT: "root = mm_pgt (mms ?t (p_mm (proc_pool ?t p)))" using root by simp
  note dl = deliver_eq(1) [OF reading_cons [OF r] rootT, of c]
  show ?thesis unfolding run dl using M(1) by (simp add: read_ends_def rel pb mem_first del: of_nat_Suc)
qed

lemma read_loop_run:
  assumes "reading s p ps buf n m" and "root = mm_pgt (mms s (p_mm (proc_pool s p)))" and "cons_wf (cons s)"
    and "n \<le> unat target" and M: "smp s = take_lock L_cons M" "cpu_ready M" "lock_free L_cons M"
    and "reads n m (n < unat target) (cons_ready (cons s)) = (xs, rest, waits)"
  shows "\<exists>m' r. delivered (mem s) m' root (local_buf s) buf xs \<and> cons_wf ((cons s)\<lparr>cons_r := r\<rparr>) \<and>
    cons_ready ((cons s)\<lparr>cons_r := r\<rparr>) = rest \<and> cons_line ((cons s)\<lparr>cons_r := r\<rparr>) = cons_line (cons s) \<and>
    read_loop buf (of_nat n) target s = read_ends M buf n target (length xs) waits (s\<lparr>mem := m', cons := (cons s)\<lparr>cons_r := r\<rparr>\<rparr>)"
  using assms
proof (induction n arbitrary: s buf m xs rest waits)
  case 0
  have "read_loop buf (of_nat 0) target s = read_ends M buf 0 target 0 False s"
    by (subst read_loop_deliver) (simp add: k_release_taken [OF M(2,3) "0.prems"(5)] read_ends_def)
  then show ?case using "0.prems" by (intro exI [of _ "mem s"] exI [of _ "cons_r (cons s)"]) (simp add: delivered_nothing)
next
  case (Suc n)
  note pr = Suc.prems
  let ?k = "(cons s)\<lparr>cons_r := cons_r (cons s) + 1\<rparr>"
  show ?case
  proof (cases "cons_ready (cons s)")
    case Nil
    have "Suc n < 2 ^ 32" using pr(4) unat_less_2p [of target] by simp
    then have "read_loop buf (of_nat (Suc n)) target s = read_ends M buf (Suc n) target 0 True s"
      using Nil by (subst read_loop_deliver) (simp add: cons_ready_empty i64_of_nat(1) read_ends_def del: of_nat_Suc)
    then show ?thesis using pr(3,8) Nil
      by (intro exI [of _ "mem s"] exI [of _ "cons_r (cons s)"]) (auto simp: delivered_nothing)
  next
    case (Cons c cs)
    then have ne: "cons_ready (cons s) \<noteq> []" by simp
    note tk = cons_take [OF pr(3) ne]
    have c: "cons_at (cons s) (cons_r (cons s)) = c" "cons_ready ?k = cs" using tk(1) Cons by simp_all
    note run = read_loop_round [OF pr(1,2) Cons c(1) pr(4) pr(5) M(2,3) refl]
    consider "c = ctrl_D" | "c \<noteq> ctrl_D" "m = 0" | j where "c \<noteq> ctrl_D" "m = Suc j" "c = 10" | j where "c \<noteq> ctrl_D" "m = Suc j" "c \<noteq> 10"
      by (metis not0_implies_Suc)
    then show ?thesis
    proof cases
      case 1
      then show ?thesis using run pr(3,8) tk(2,3) c(2) Cons
        by (intro exI [of _ "mem s"] exI [of _ "if Suc n < unat target then cons_r (cons s) else cons_r (cons s) + 1"])
          (auto simp: delivered_nothing simp del: of_nat_Suc)
    next
      case 2
      then show ?thesis using run pr(8) tk(2,3) c(2) Cons
        by (intro exI [of _ "put_byte s root buf False c"] exI [of _ "cons_r (cons s) + 1"])
          (auto simp: delivered_nothing(2) simp del: of_nat_Suc)
    next
      case 3
      then show ?thesis using run pr(8) tk(2,3) c(2) Cons delivered_one [OF pr(1) [unfolded 3(2)] pr(2), of c]
        by (intro exI [of _ "put_byte s root buf True c"] exI [of _ "cons_r (cons s) + 1"]) (auto simp del: of_nat_Suc)
    next
      case 4
      let ?v = "s\<lparr>mem := put_byte s root buf True c, cons := ?k\<rparr>"
      have st: "reading ?v p ps (buf + 1) n j"
        by (rule reading_step [OF pr(1) [unfolded 4(2)] pr(2) refl])
      obtain ys where ys: "reads n j True cs = (ys, rest, waits)" "xs = c # ys"
        using pr(8) Cons 4 by (auto split: prod.splits)
      have "reads n j (n < unat target) (cons_ready (cons ?v)) = (ys, rest, waits)" using ys(1) pr(4) c(2) by simp
      moreover have "root = mm_pgt (mms ?v (p_mm (proc_pool ?v p)))" "cons_wf (cons ?v)" "n \<le> unat target" "smp ?v = take_lock L_cons M"
        using pr(2,4,5) tk(2) by simp_all
      ultimately obtain m' r where ih: "delivered (mem ?v) m' root (local_buf ?v) (buf + 1) ys" "cons_wf ((cons ?v)\<lparr>cons_r := r\<rparr>)"
        "cons_ready ((cons ?v)\<lparr>cons_r := r\<rparr>) = rest" "cons_line ((cons ?v)\<lparr>cons_r := r\<rparr>) = cons_line (cons ?v)"
        "read_loop (buf + 1) (of_nat n) target ?v = read_ends M (buf + 1) n target (length ys) waits (?v\<lparr>mem := m', cons := (cons ?v)\<lparr>cons_r := r\<rparr>\<rparr>)"
        using Suc.IH [OF st _ _ _ _ M(2,3)] by blast
      have le: "length ys \<le> j" using reads_length(1) [of n j True cs] ys(1) by simp
      have "delivered (mem s) m' root (local_buf s) buf xs"
        using delivered_step [OF pr(1) [unfolded 4(2)] pr(2) le, of c m'] ih(1) by (simp add: ys(2))
      moreover have "read_loop buf (of_nat (Suc n)) target s =
          read_ends M (buf + 1) n target (length ys) waits (s\<lparr>mem := m', cons := (cons s)\<lparr>cons_r := r\<rparr>\<rparr>)"
        using 4 ih(5) by (simp add: run del: of_nat_Suc)
      moreover have "read_ends M (buf + 1) n target (length ys) waits = read_ends M buf (Suc n) target (length xs) waits"
        by (simp add: fun_eq_iff read_ends_def ys(2) add.assoc)
      ultimately show ?thesis using ih(2-4) tk(3) by (intro exI [of _ m'] exI [of _ r]) simp
    qed
  qed
qed

section \<open>The property\<close>

lemma buffer_room_cong:
  assumes "mem t = mem s" and "kmap t = kmap s" and "local_buf t = local_buf s" and "vm_ok t root ps = vm_ok s root ps"
    and "kpage_allocator_base t = kpage_allocator_base s" and "kpage_allocator_size t = kpage_allocator_size s"
  shows "buffer_room t root ps buf n m = buffer_room s root ps buf n m"
  using assms
  by (simp add: buffer_room_def user_range_def readable_def user_page_def managed_def not_user_def buffer_ok_def)

text \<open>C34. \<^verbatim>\<open>read\<close> on the console, for \<open>n\<close> bytes of which the first \<open>m\<close> can be written: the process gets the bytes
  that are ready, in order, up to the end of the line, the control-D that marks the end of the input, the
  end of its buffer or the first byte that cannot be written, and the result is their number; a
  control-D after other bytes stays for the next call, and the byte that could not be written is lost.
  When the bytes that are ready do not end the call, it has delivered them all and sleeps on the
  console, with only its own lock held; its context says where to go on. No other byte of memory
  changes but the one on the kernel's stack, and the line being typed is left alone.\<close>

theorem console_read_correct:
  assumes "in_call p s" and "k_free L_cons s" and "cons_wf (cons s)" and "mm = p_mm (proc_pool s p)" and "k_free (L_mm mm) s"
    and "root = mm_pgt (mms s mm)" and "buffer_room s root ps buf n m" and "n < 2 ^ 32"
    and "reads n m False (cons_ready (cons s)) = (xs, rest, waits)"
  shows "\<exists>t r. user_console_read buf (of_nat n) s = Inr (r, t) \<and> delivered (mem s) (mem t) root (local_buf s) buf xs \<and>
    cons_wf (cons t) \<and> cons_ready (cons t) = rest \<and> cons_line (cons t) = cons_line (cons s) \<and>
    (if waits
     then r = Switched \<and> rest = [] \<and> smp t = take_lock (L_proc p) (smp s) \<and>
       proc_pool t = (proc_pool s)(p := (proc_pool s p)\<lparr>p_sleep_chan := Some Ch_cons, p_state := SLEEPING,
         p_context := In_sched (c_sie (this_cpu (smp s))) (K_read (buf + of_nat (length xs)) (of_nat (n - length xs)) (of_nat n))\<rparr>)
     else r = Ret (of_nat (length xs)) \<and> proc_pool t = proc_pool s \<and> smp t = settle (smp s))"
proof -
  have p: "p < NPROC" by (rule in_call_process [OF assms(1)])
  have rdy: "k_ready s" "k_free (L_proc p) s" and cur: "curr_proc s = Inr p"
    using assms(1) p by (simp_all add: in_call_def locks_ready_def)
  let ?s = "k_take L_cons s" and ?g = "of_nat n :: u32"
  have ok: "vm_ok s root ps" using assms(7) by (simp add: buffer_room_def)
  have "curr_proc ?s = Inr p"
    using cur by (auto simp: curr_proc_def mycpu_def take_lock_def split: if_splits option.splits)
  moreover have "k_free (L_proc p) ?s" "k_free (L_mm mm) ?s" using rdy(2) assms(5) by (simp_all add: k_free_def lk.free_after)
  moreover have "buffer_room ?s root ps buf n m"
    using assms(7) buffer_room_cong [of ?s s root ps buf n m] vm_ok_take [OF ok, of L_cons] ok by simp
  ultimately have r: "reading ?s p ps buf n m"
    using busy_take [OF rdy(1)] assms(4,6) by (simp add: reading_def Let_def)
  note N = i64_of_nat [OF assms(8)]
  have q: "reads n m (n < unat ?g) (cons_ready (cons ?s)) = (xs, rest, waits)" using assms(9) N(4) by simp
  have h: "root = mm_pgt (mms ?s (p_mm (proc_pool ?s p)))" "cons_wf (cons ?s)" "n \<le> unat ?g"
    "smp ?s = take_lock L_cons (smp s)" "cpu_ready (smp s)" "lock_free L_cons (smp s)"
    using assms(2,3,4,6) rdy(1) N(4) by (simp_all add: k_ready_def k_free_def)
  obtain m' i where l: "delivered (mem s) m' root (local_buf s) buf xs" "cons_wf ((cons s)\<lparr>cons_r := i\<rparr>)"
    "cons_ready ((cons s)\<lparr>cons_r := i\<rparr>) = rest" "cons_line ((cons s)\<lparr>cons_r := i\<rparr>) = cons_line (cons s)"
    "read_loop buf (of_nat n) ?g ?s = read_ends (smp s) buf n ?g (length xs) waits (?s\<lparr>mem := m', cons := (cons s)\<lparr>cons_r := i\<rparr>\<rparr>)"
    using read_loop_run [OF r h q] by auto
  have run: "user_console_read buf (of_nat n) s = read_loop buf (of_nat n) ?g ?s"
    by (simp add: user_console_read_def Let_def N(3) k_acquire_free [OF rdy(1) assms(2)])
  have le: "length xs \<le> n" using reads_length(2) [of n m False "cons_ready (cons s)"] assms(9) by simp
  show ?thesis
  proof (cases waits)
    case False
    have "ucast ?g - of_nat (n - length xs) = (of_nat (length xs) :: i64)"
    proof -
      have "(ucast ?g :: i64) = of_nat n"
        using N(4) assms(8) by (simp add: word_unat_eq_iff unsigned_ucast_eq unat_of_nat_small take_bit_nat_eq_self)
      then show ?thesis using le by (simp add: of_nat_diff)
    qed
    with False l show ?thesis by (auto simp: run read_ends_def)
  next
    case True
    have e: "rest = []" using reads_waits [of n m False "cons_ready (cons s)"] True assms(9) by simp
    let ?u = "?s\<lparr>mem := m', cons := (cons s)\<lparr>cons_r := i\<rparr>\<rparr>"
    have "smp ?u = take_lock L_cons (smp s)" by simp
    from sleep_out_run [OF assms(1,2) _ this, of Ch_cons "K_read (buf + of_nat (length xs)) (of_nat (n - length xs)) ?g"]
    obtain t where t: "sleep_out Ch_cons L_cons (K_read (buf + of_nat (length xs)) (of_nat (n - length xs)) ?g) ?u = Inr t"
      "mem t = m'" "cons t = (cons s)\<lparr>cons_r := i\<rparr>" "smp t = take_lock (L_proc p) (smp s)"
      "proc_pool t = (proc_pool s)(p := (proc_pool s p)\<lparr>p_sleep_chan := Some Ch_cons, p_state := SLEEPING,
         p_context := In_sched (c_sie (this_cpu (smp s))) (K_read (buf + of_nat (length xs)) (of_nat (n - length xs)) ?g)\<rparr>)"
      by auto
    have "user_console_read buf (of_nat n) s = Inr (Switched, t)"
      using True by (simp only: run l(5) read_ends_def if_True t(1) kbind.simps)
    then show ?thesis using l(1-4) t(2-5) e True by simp
  qed
qed

section \<open>Example\<close>

text \<open>Process 2 reads a line of three bytes across the end of its only page.\<close>

definition read_demo :: "kst \<Rightarrow> kst" where
  "read_demo t = t\<lparr>smp := smp (family_demo SLEEPING), task_queue := task_queue (family_demo SLEEPING),
     proc_pool := (\<lambda>p. (proc_pool (family_demo SLEEPING) p)\<lparr>p_mm := 32\<rparr>), init_proc := 0, img := idle_image,
     cons := \<lparr>cons_buf = [108, 115, 10] @ replicate 125 0, cons_r = 0, cons_w = 3, cons_e = 3\<rparr>, local_buf := 0x5000\<rparr>"

lemma read_demo_call: "in_call 2 (read_demo t)"
proof -
  have v: "view (read_demo t) = view (family_demo SLEEPING)"
    by (simp add: view_def read_demo_def fun_eq_iff) (simp add: family_demo_def demo_vm_def boot_kst_def)
  have "in_call 2 (family_demo SLEEPING)" by (simp add: family_demo_call)
  moreover have "k_free l (read_demo t) = k_free l (family_demo SLEEPING)" "k_ready (read_demo t) = k_ready (family_demo SLEEPING)"
    "curr_proc (read_demo t) = curr_proc (family_demo SLEEPING)" "smp (read_demo t) = smp (family_demo SLEEPING)" for l
    by (simp_all add: read_demo_def k_free_def k_ready_def curr_proc_def)
  ultimately show ?thesis by (simp add: in_call_def locks_ready_def v)
qed

lemma read_demo_sel:
  "k_free l (read_demo t)" "cons_wf (cons (read_demo t))" "cons_ready (cons (read_demo t)) = [108, 115, 10]"
  "p_mm (proc_pool (read_demo t) 2) = 32" "mms (read_demo t) = mms t" "local_buf (read_demo t) = 0x5000" "mem (read_demo t) = mem t"
  using family_demo_ready(2) [of l SLEEPING]
  by (simp_all add: read_demo_def k_free_def cons_wf_def cons_ready_def ring_def INPUT_BUF_SIZE_def upt_rec)

lemma read_demo_vm: "vm_ok t root ps \<Longrightarrow> vm_ok (read_demo t) root ps"
proof -
  assume ok: "vm_ok t root ps"
  have m: "managed (read_demo t) p = managed t p" "page_mapped (read_demo t) p = page_mapped t p" for p
    by (simp_all add: read_demo_def managed_def page_mapped_def mapped_def)
  have r: "k_ready (read_demo t)" using family_demo_ready(1) [of SLEEPING] by (simp add: read_demo_def k_ready_def)
  show ?thesis using ok r read_demo_sel(1) by (simp add: vm_ok_def m arena_ok_def free_pages_def) (simp add: read_demo_def)
qed

theorem console_read_correct_witness:
  "\<exists>s t. user_console_read 0x1ffd 10 s = Inr (Ret 3, t) \<and> cons_ready (cons s) = [108, 115, 10] \<and> cons_ready (cons t) = [] \<and>
    mem t (user_kva (mem s) demo_root 0x1ffd) = 108 \<and> mem t (user_kva (mem s) demo_root 0x1fff) = 10"
proof -
  obtain t ps q where d: "vm_ok t demo_root ps" "mm_pgt (mms t 32) = demo_root"
    "user_range t demo_root ps 0x1ffd 3" "not_user t demo_root 0x2000"
    "buffer_ok t demo_root ps 0x5000 100" "apart_from_user t demo_root 0x1ffd 0x5000 3"
    by (rule demo_user) blast
  let ?s = "read_demo t"
  have "buffer_ok ?s demo_root ps 0x5000 1" using buffer_ok_mono [OF d(5), of 1] by (simp add: buffer_ok_def read_demo_def)
  moreover have "user_range ?s demo_root ps 0x1ffd 3" "not_user ?s demo_root 0x2000"
    using d(3,4) by (simp_all add: user_range_def readable_def user_page_def managed_def not_user_def read_demo_def)
  moreover have "0x5000 \<noteq> user_kva (mem t) demo_root (0x1ffd + of_nat i)" if "i < 3" for i
    using d(6) [unfolded apart_from_user_def, rule_format, of 0 i] that by simp
  ultimately have room: "buffer_room ?s demo_root ps 0x1ffd 10 3"
    using read_demo_vm [OF d(1)] by (simp add: buffer_room_def read_demo_sel MAXVA_small)
  have rd: "reads 10 3 False (cons_ready (cons ?s)) = ([108, 115, 10], [], False)"
  proof -
    have "reads (Suc (Suc (Suc k))) (Suc (Suc (Suc j))) False [108, 115, 10] = ([108, 115, 10], [], False)" for k j
      by (simp add: ctrl_D_def)
    from this [of 7 0] show ?thesis by (simp add: read_demo_sel numeral_3_eq_3)
  qed
  have h: "32 = p_mm (proc_pool ?s 2)" "demo_root = mm_pgt (mms ?s 32)" "(10 :: nat) < 2 ^ 32" by (simp_all add: read_demo_sel d(2))
  obtain u where u: "user_console_read 0x1ffd (of_nat 10) ?s = Inr (Ret (of_nat (length [108 :: u8, 115, 10])), u)"
    "delivered (mem ?s) (mem u) demo_root (local_buf ?s) 0x1ffd [108, 115, 10]" "cons_ready (cons u) = []"
    using console_read_correct [OF read_demo_call read_demo_sel(1) read_demo_sel(2) h(1) read_demo_sel(1) h(2) room h(3) rd] by auto
  have "mem u (user_kva (mem ?s) demo_root (0x1ffd + of_nat i)) = [108, 115, 10] ! i" if "i < 3" for i
    using u(2) that unfolding delivered_def by (simp add: numeral_3_eq_3)
  from this [of 0] this [of 2]
  have "mem u (user_kva (mem ?s) demo_root 0x1ffd) = 108" "mem u (user_kva (mem ?s) demo_root 0x1fff) = 10" by simp_all
  then show ?thesis using u(1,3) by (intro exI [of _ ?s] exI [of _ u]) (simp add: read_demo_sel)
qed

end
