(* ===== verification/Faults.thy ===== *)
theory Faults imports Trap begin

text \<open>
  Page faults of user processes: the handler treats every fault on a valid entry as one for the accessed
  and dirty bits.
\<close>

section \<open>The bits it sets\<close>

definition fault_bits :: "u64 \<Rightarrow> u64" where
  "fault_bits cause = (if cause = StorePageFault then PTE_A OR PTE_D else PTE_A)"

lemma word_or_keeps: "f AND c = 0 \<Longrightarrow> (e OR f) AND c = e AND (c :: u64)"
  by (simp add: bit.conj_disj_distrib2)

lemma fault_bits_keep:
  "(e OR fault_bits cause) AND PTE_V = e AND PTE_V" "(e OR fault_bits cause) AND PTE_U = e AND PTE_U"
  "(e OR fault_bits cause) AND PTE_R = e AND PTE_R" "(e OR fault_bits cause) AND PTE_W = e AND PTE_W"
  "(e OR fault_bits cause) AND PTE_X = e AND PTE_X"
  by (rule word_or_keeps, simp add: fault_bits_def PTE_A_def PTE_D_def PTE_V_def PTE_U_def PTE_R_def PTE_W_def PTE_X_def)+

lemma fault_bits_pa: "PTE2PA (e OR fault_bits cause) = PTE2PA e"
proof -
  have "drop_bit 10 (fault_bits cause) = 0" by (simp add: fault_bits_def PTE_A_def PTE_D_def)
  then show ?thesis by (simp add: PTE2PA_def drop_bit_or)
qed

lemma st64_ld64: "st64 m a (ld64 m a) = m"
proof
  fix x
  show "st64 m a (ld64 m a) x = m x"
  proof (cases "x - a < 8")
    case True
    obtain k where k: "k = unat (x - a)" by blast
    have k8: "k < 8" using True by (simp add: k word_less_nat_alt)
    have x: "x = a + of_nat k" by (simp add: k)
    have "ucast (drop_bit (8 * k) (ld64 m a)) = m x"
    proof (rule bit_eqI)
      fix j assume "possible_bit TYPE(8 word) j"
      then have j: "j < 8" by simp
      have "(8 * k + j) div 8 = k" "(8 * k + j) mod 8 = j" using j by auto
      then show "bit (ucast (drop_bit (8 * k) (ld64 m a)) :: u8) j = bit (m x) j"
        using j k8 by (simp add: bit_ucast_iff bit_drop_bit_eq bit_ld64 x)
    qed
    with True show ?thesis by (simp add: st64_def k byte_of_def)
  qed (simp add: st64_def)
qed

lemma kst_same_mem: "m = mem s \<Longrightarrow> s\<lparr>mem := m\<rparr> = s"
  by simp

section \<open>The handler\<close>

lemma page_fault_run:
  assumes root: "root = mm_pgt (mms s (p_mm (proc_pool s p)))" and ok: "vm_ok s root ps" and c: "curr_proc s = Inr p"
    and va: "IS_USER_VA (r_stval s)" and leaf: "leaf_table (mem s) root (r_stval s) = Some r"
    and v: "entry (mem s) root (r_stval s) AND PTE_V \<noteq> 0"
  shows "page_fault cause s = Inr (Ret (), s\<lparr>mem := st64 (mem s) (slot r (PX 0 (r_stval s)))
    (entry (mem s) root (r_stval s) OR fault_bits cause)\<rparr>)"
proof -
  let ?a = "r_stval s"
  let ?pte = "slot r (PX 0 ?a)"
  have w: "walk (p_mm (proc_pool s p)) ?a False s = Inr (?pte, s)"
    using walk_read [OF ok [unfolded root] va] leaf by (simp add: root)
  have pm: "page_mapped s r" by (rule vm_okD(2) [OF ok leaf_table_in_tables [OF leaf]])
  then have pm': "page_mapped (s\<lparr>mem := m\<rparr>) r" for m by (simp add: page_mapped_def mapped_def)
  have twice: "st64 (st64 m x u) x w = st64 m x w" for m x u w by (simp add: st64_def fun_eq_iff)
  show ?thesis
    unfolding page_fault_def
    by (simp add: c w leaf_nonzero [OF ok leaf] load_leaf [OF ok leaf] v store64_slot [OF pm PX_less] store64_slot [OF pm' PX_less]
        Let_def fault_bits_def twice or.assoc)
qed

text \<open>C37. A page fault on an address whose entry is valid: the accessed bit of the entry is set, and for a
  store the dirty bit, and the process goes on at the same instruction. No translation and no
  permission of any address changes, for no address space that shares these tables, and no byte
  outside the tables; so the handler never gives a process access it did not have. When the bits are
  set already nothing changes at all: an access that the permissions forbid faults again for ever.\<close>

theorem page_fault_correct:
  assumes "root = mm_pgt (mms s (p_mm (proc_pool s p)))" and "vm_ok s root ps" and "curr_proc s = Inr p"
    and "IS_USER_VA (r_stval s)" and "entry (mem s) root (r_stval s) AND PTE_V \<noteq> 0"
  shows "\<exists>t. page_fault cause s = Inr (Ret (), t) \<and> vm_ok t root ps \<and>
    (\<forall>va. entry (mem t) root va =
      (if same_page (r_stval s) va then entry (mem s) root va OR fault_bits cause else entry (mem s) root va)) \<and>
    (\<forall>va. user_pa (mem t) root va = user_pa (mem s) root va \<and>
      (\<forall>b \<in> {PTE_R, PTE_W, PTE_X}. entry (mem t) root va AND b = entry (mem s) root va AND b)) \<and>
    (\<forall>x. (\<forall>q \<in> tables (mem s) root. \<not> in_page q x) \<longrightarrow> mem t x = mem s x) \<and>
    (entry (mem s) root (r_stval s) OR fault_bits cause = entry (mem s) root (r_stval s) \<longrightarrow> t = s)"
proof -
  let ?a = "r_stval s"
  obtain r where leaf: "leaf_table (mem s) root ?a = Some r" using entry_valid_leaf [OF assms(5)] by blast
  let ?e = "entry (mem s) root ?a OR fault_bits cause"
  let ?t = "s\<lparr>mem := st64 (mem s) (slot r (PX 0 ?a)) ?e\<rparr>"
  have run: "page_fault cause s = Inr (Ret (), ?t)" by (rule page_fault_run [OF assms(1-4) leaf assms(5)])
  have rt: "r \<in> tables (mem s) root" by (rule leaf_table_in_tables [OF leaf])
  have st: "store64 (slot r (PX 0 ?a)) ?e s = Inr ?t" by (rule store64_slot [OF vm_okD(2) [OF assms(2) rt] PX_less])
  obtain t where t: "store64 (slot r (PX 0 ?a)) ?e s = Inr t" "vm_ok t root ps"
      "\<And>va. entry (mem t) root va = (if same_page ?a va then ?e else entry (mem s) root va)" "only_in {r} (mem s) (mem t)"
    using set_leaf [OF assms(2) leaf, of ?e] by metis
  have tt: "t = ?t" using st t(1) by simp
  have same: "same_page ?a va \<Longrightarrow> entry (mem s) root va = entry (mem s) root ?a" for va
    by (simp add: same_page_def entry_def leaf_table_def split: option.split)
  have en: "entry (mem t) root va = (if same_page ?a va then entry (mem s) root va OR fault_bits cause else entry (mem s) root va)" for va
    using t(3) [of va] same [of va] by simp
  have up: "user_pa (mem t) root va = user_pa (mem s) root va" for va
    by (simp add: user_pa_def Let_def en fault_bits_keep fault_bits_pa)
  have pb: "\<forall>b \<in> {PTE_R, PTE_W, PTE_X}. entry (mem t) root va AND b = entry (mem s) root va AND b" for va
    by (simp add: en fault_bits_keep)
  have out: "mem t x = mem s x" if "\<forall>q \<in> tables (mem s) root. \<not> in_page q x" for x
    using t(4) rt that by (auto simp: only_in_def)
  have "t = s" if "?e = entry (mem s) root ?a"
  proof -
    have "ld64 (mem s) (slot r (PX 0 ?a)) = entry (mem s) root ?a" using leaf by (simp add: entry_def)
    with that show ?thesis unfolding tt by (metis st64_ld64 kst_same_mem)
  qed
  then show ?thesis using run t(2) en up pb out unfolding tt [symmetric] by blast
qed

section \<open>Example\<close>

text \<open>Process 2, with one page mapped at \<open>0x1000\<close>, stores to it.\<close>

definition fault_demo :: "kst \<Rightarrow> kst" where
  "fault_demo t = t\<lparr>smp := boot_smp\<lparr>cpus := (\<lambda>_. boot_cpu\<lparr>c_proc := Some 2, c_sie := False\<rparr>)\<rparr>,
     proc_pool := (\<lambda>_. idle_proc\<lparr>p_state := RUNNING, p_mm := 32\<rparr>),
     regs := (\<lambda>_. idle_csrs\<lparr>csr_scause := 15, csr_stval := 0x1000\<rparr>)\<rparr>"

lemma fault_demo_sel:
  "curr_proc (fault_demo t) = Inr 2" "r_stval (fault_demo t) = 0x1000" "mem (fault_demo t) = mem t"
  "mms (fault_demo t) = mms t" "p_mm (proc_pool (fault_demo t) 2) = 32"
  by (simp_all add: fault_demo_def curr_proc_def mycpu_def r_stval_def boot_smp_def boot_cpu_def NCPU_def)

lemma fault_demo_vm: "vm_ok t root ps \<Longrightarrow> vm_ok (fault_demo t) root ps"
proof -
  assume ok: "vm_ok t root ps"
  have m: "managed (fault_demo t) p = managed t p" "page_mapped (fault_demo t) p = page_mapped t p" for p
    by (simp_all add: fault_demo_def managed_def page_mapped_def mapped_def)
  have r: "k_ready (fault_demo t)" "k_free L_kpage (fault_demo t)"
    by (simp_all add: fault_demo_def k_ready_def k_free_def cpu_ready_def lock_free_def boot_smp_def boot_cpu_def NCPU_def)
  show ?thesis using ok r by (simp add: vm_ok_def m arena_ok_def free_pages_def) (simp add: fault_demo_def)
qed

theorem page_fault_correct_witness:
  "\<exists>s t q. page_fault StorePageFault s = Inr (Ret (), t) \<and> entry (mem s) demo_root 0x1000 = leaf_pte q 0x16 \<and>
    entry (mem t) demo_root 0x1000 = leaf_pte q 0x16 OR 0xC0 \<and> user_pa (mem t) demo_root 0x1234 = user_pa (mem s) demo_root 0x1234"
proof -
  obtain t ps q where d: "vm_ok t demo_root ps" "mm_pgt (mms t 32) = demo_root"
    "entry (mem t) demo_root 0x1000 = leaf_pte q 0x16"
    by (rule demo_mapped) blast
  have root: "demo_root = mm_pgt (mms (fault_demo t) (p_mm (proc_pool (fault_demo t) 2)))" by (simp add: fault_demo_sel d(2))
  have va: "IS_USER_VA (r_stval (fault_demo t))" by (simp add: fault_demo_sel IS_USER_VA_def MAXVA_def)
  have v: "entry (mem (fault_demo t)) demo_root (r_stval (fault_demo t)) AND PTE_V \<noteq> 0"
    by (simp add: fault_demo_sel d(3) leaf_pte_valid)
  from page_fault_correct [where cause = StorePageFault, OF root fault_demo_vm [OF d(1)] fault_demo_sel(1) va v]
  obtain u where u: "page_fault StorePageFault (fault_demo t) = Inr (Ret (), u)"
    "\<forall>va. entry (mem u) demo_root va = (if same_page 0x1000 va
      then entry (mem t) demo_root va OR fault_bits StorePageFault else entry (mem t) demo_root va)"
    "\<forall>va. user_pa (mem u) demo_root va = user_pa (mem t) demo_root va"
    unfolding fault_demo_sel by blast
  have e: "entry (mem u) demo_root 0x1000 = leaf_pte q 0x16 OR 0xC0"
    using spec [OF u(2), of "0x1000"] by (simp add: same_page_def d(3) fault_bits_def PTE_A_def PTE_D_def)
  show ?thesis
    by (intro exI [of _ "fault_demo t"] exI [of _ u] exI [of _ q]) (simp add: u(1,3) e fault_demo_sel d(3))
qed

end
