(* ===== verification/Spinlock.thy ===== *)
theory Spinlock imports Lock begin

text \<open>
  The spin lock with several CPUs at once. \<^verbatim>\<open>Lock\<close> takes \<^verbatim>\<open>acquire\<close> and \<^verbatim>\<open>release\<close> as one step each;
  here every access to the shared lock is a step of its own, and the steps of the CPUs are interleaved
  in any order: a schedule is a list of CPUs. The two levels agree: a CPU that runs alone gets from one
  side of \<^verbatim>\<open>acquire\<close> to the other with the result that \<^verbatim>\<open>Lock\<close> gives.
\<close>

section \<open>The steps\<close>

text \<open>
  Where a CPU is: outside; before the two reads of \<^verbatim>\<open>holding\<close>, the swap and the store of \<^verbatim>\<open>acquire\<close>;
  inside; before the reads, the two stores and the \<^verbatim>\<open>pop_off\<close> of \<^verbatim>\<open>release\<close>. \<open>Stuck\<close> is a panic.
\<close>

datatype lock_pc =
    Outside
  | Acq_read_locked
  | Acq_read_cpu
  | Acq_swap
  | Acq_set_cpu
  | Inside
  | Rel_read_locked
  | Rel_read_cpu
  | Rel_clear_cpu
  | Rel_unlock
  | Rel_pop
  | Stuck

record race =
  shared :: "unit smp"
  pc :: "nat \<Rightarrow> lock_pc"

abbreviation the_lock :: "race \<Rightarrow> spinlock" where
  "the_lock s \<equiv> locks (shared s) ()"

definition goto :: "nat \<Rightarrow> lock_pc \<Rightarrow> race \<Rightarrow> race" where
  "goto h p s = s\<lparr>pc := (pc s)(h := p)\<rparr>"

definition set_lock :: "(spinlock \<Rightarrow> spinlock) \<Rightarrow> race \<Rightarrow> race" where
  "set_lock f s = s\<lparr>shared := (shared s)\<lparr>locks := (\<lambda>_. f (the_lock s))\<rparr>\<rparr>"

text \<open>A call that concerns the CPU alone.\<close>

definition on_cpu :: "nat \<Rightarrow> (unit smp \<Rightarrow> halt + unit smp) \<Rightarrow> lock_pc \<Rightarrow> race \<Rightarrow> race" where
  "on_cpu h f p s = (case f ((shared s)\<lparr>tp := h\<rparr>) of Inl _ \<Rightarrow> goto h Stuck s | Inr m \<Rightarrow> goto h p (s\<lparr>shared := m\<rparr>))"

definition lock_step :: "nat \<Rightarrow> race \<Rightarrow> race" where
  "lock_step h s =
     (case pc s h of
        Outside \<Rightarrow> on_cpu h push_off Acq_read_locked s
      | Acq_read_locked \<Rightarrow> goto h (if locked (the_lock s) then Acq_read_cpu else Acq_swap) s
      | Acq_read_cpu \<Rightarrow> goto h (if lk_cpu (the_lock s) = Some h then Stuck else Acq_swap) s
      | Acq_swap \<Rightarrow> if locked (the_lock s) then s else goto h Acq_set_cpu (set_lock (\<lambda>k. k\<lparr>locked := True\<rparr>) s)
      | Acq_set_cpu \<Rightarrow> goto h Inside (set_lock (\<lambda>k. k\<lparr>lk_cpu := Some h\<rparr>) s)
      | Inside \<Rightarrow> goto h Rel_read_locked s
      | Rel_read_locked \<Rightarrow> goto h (if locked (the_lock s) then Rel_read_cpu else Stuck) s
      | Rel_read_cpu \<Rightarrow> goto h (if lk_cpu (the_lock s) = Some h then Rel_clear_cpu else Stuck) s
      | Rel_clear_cpu \<Rightarrow> goto h Rel_unlock (set_lock (\<lambda>k. k\<lparr>lk_cpu := None\<rparr>) s)
      | Rel_unlock \<Rightarrow> goto h Rel_pop (set_lock (\<lambda>k. k\<lparr>locked := False\<rparr>) s)
      | Rel_pop \<Rightarrow> on_cpu h pop_off Outside s
      | Stuck \<Rightarrow> s)"

definition lock_run :: "nat list \<Rightarrow> race \<Rightarrow> race" where
  "lock_run hs s = fold lock_step hs s"

text \<open>At the start nobody holds the lock; a CPU may hold other locks, and may be in a trap.\<close>

definition lock_start :: "race \<Rightarrow> bool" where
  "lock_start s \<longleftrightarrow> (\<forall>h < NCPU. pc s h = Outside \<and> cpu_ready ((shared s)\<lparr>tp := h\<rparr>)) \<and> the_lock s = spinlock_init"

section \<open>The invariant\<close>

text \<open>The CPUs that own the lock, and those that have written their name in it.\<close>

definition owns :: "lock_pc \<Rightarrow> bool" where
  "owns p \<longleftrightarrow> p \<in> {Acq_set_cpu, Inside, Rel_read_locked, Rel_read_cpu, Rel_clear_cpu, Rel_unlock}"

definition named :: "lock_pc \<Rightarrow> bool" where
  "named p \<longleftrightarrow> p \<in> {Inside, Rel_read_locked, Rel_read_cpu, Rel_clear_cpu}"

text \<open>A CPU between two critical sections, and in one; \<open>k\<close> is what it was at the start.\<close>

definition resting :: "cpu \<Rightarrow> cpu \<Rightarrow> bool" where
  "resting k c \<longleftrightarrow> c\<lparr>c_interrupt_on := c_interrupt_on k\<rparr> = k \<and> (0 < c_noff k \<longrightarrow> c_interrupt_on c = c_interrupt_on k)"

definition entered :: "cpu \<Rightarrow> cpu" where
  "entered k = k\<lparr>c_sie := False, c_interrupt_on := (if c_noff k = 0 then c_sie k else c_interrupt_on k), c_noff := c_noff k + 1\<rparr>"

definition lock_inv :: "(nat \<Rightarrow> cpu) \<Rightarrow> race \<Rightarrow> bool" where
  "lock_inv k s \<longleftrightarrow>
     (\<forall>h < NCPU. pc s h \<noteq> Stuck \<and>
        (if pc s h = Outside then resting (k h) (cpus (shared s) h) else cpus (shared s) h = entered (k h)) \<and>
        (lk_cpu (the_lock s) = Some h \<longleftrightarrow> named (pc s h)) \<and> (owns (pc s h) \<longrightarrow> locked (the_lock s))) \<and>
     (\<forall>h < NCPU. \<forall>h' < NCPU. owns (pc s h) \<longrightarrow> owns (pc s h') \<longrightarrow> h = h') \<and>
     (locked (the_lock s) \<longrightarrow> (\<exists>h < NCPU. owns (pc s h)))"

lemma start_inv: "lock_start s \<Longrightarrow> lock_inv (cpus (shared s)) s"
  by (simp add: lock_start_def lock_inv_def resting_def owns_def named_def spinlock_init_def)

definition cpu_fit :: "cpu \<Rightarrow> bool" where
  "cpu_fit k \<longleftrightarrow> 0 \<le> c_noff k \<and> (0 < c_noff k \<longrightarrow> \<not> c_sie k) \<and> (c_sie k \<longrightarrow> \<not> c_inkernel_trap k)"

lemma push_off_resting:
  assumes "h < NCPU" and "cpu_fit k" and "resting k (cpus m h)"
  shows "push_off (m\<lparr>tp := h\<rparr>) = Inr (m\<lparr>tp := h, cpus := (cpus m)(h := entered k)\<rparr>)"
proof -
  obtain a b c d e f where "k = \<lparr>c_mhart_id = a, c_proc = b, c_inkernel_trap = c, c_noff = d, c_interrupt_on = e, c_sie = f\<rparr>"
    by (cases k)
  moreover obtain a b c d e f where "cpus m h = \<lparr>c_mhart_id = a, c_proc = b, c_inkernel_trap = c, c_noff = d, c_interrupt_on = e, c_sie = f\<rparr>"
    by (cases "cpus m h")
  ultimately show ?thesis using assms
    by (auto simp: push_off_def cpu_ops Let_def entered_def resting_def cpu_fit_def)
qed

lemma pop_off_entered:
  assumes "h < NCPU" and "cpu_fit k" and "cpus m h = entered k"
  shows "\<exists>c. pop_off (m\<lparr>tp := h\<rparr>) = Inr (m\<lparr>tp := h, cpus := (cpus m)(h := c)\<rparr>) \<and> resting k c"
proof -
  obtain a b c d e f where k: "k = \<lparr>c_mhart_id = a, c_proc = b, c_inkernel_trap = c, c_noff = d, c_interrupt_on = e, c_sie = f\<rparr>"
    by (cases k)
  show ?thesis using assms unfolding k
    by (auto simp: pop_off_def cpu_ops Let_def entered_def resting_def cpu_fit_def)
qed

lemma lock_inv_cpu:
  assumes "lock_inv k s" and "pc s h \<notin> {Outside, Rel_pop}" and "h < NCPU"
  shows "cpus (shared s) h = entered (k h)"
  using assms by (auto simp: lock_inv_def)

text \<open>A step that changes the program counter of one CPU, and the lock.\<close>

lemma lock_inv_goto:
  assumes i: "lock_inv k s" and h: "h < NCPU" and p: "p \<noteq> Stuck"
    and c: "if p = Outside then resting (k h) (cpus (shared t) h) else cpus (shared t) h = entered (k h)"
    and o: "\<And>g. g \<noteq> h \<Longrightarrow> cpus (shared t) g = cpus (shared s) g" and pc: "pc t = (pc s)(h := p)"
    and l: "lk_cpu (the_lock t) = lk_cpu (the_lock s) \<and> named p = named (pc s h) \<or>
      (\<forall>g < NCPU. lk_cpu (the_lock s) = Some g \<longrightarrow> g = h) \<and> lk_cpu (the_lock t) = (if named p then Some h else None)"
    and w: "locked (the_lock t) = locked (the_lock s) \<and> owns p = owns (pc s h) \<or>
      (\<forall>g < NCPU. g \<noteq> h \<longrightarrow> \<not> owns (pc s g)) \<and> locked (the_lock t) = owns p"
  shows "lock_inv k t"
proof -
  have cpu: "\<forall>g < NCPU. if pc t g = Outside then resting (k g) (cpus (shared t) g) else cpus (shared t) g = entered (k g)"
    using i c o unfolding lock_inv_def pc by auto
  have nm: "\<forall>g < NCPU. lk_cpu (the_lock t) = Some g \<longleftrightarrow> named (pc t g)"
    using l
  proof
    assume "lk_cpu (the_lock t) = lk_cpu (the_lock s) \<and> named p = named (pc s h)"
    then show ?thesis using i unfolding lock_inv_def pc by auto
  next
    assume a: "(\<forall>g < NCPU. lk_cpu (the_lock s) = Some g \<longrightarrow> g = h) \<and> lk_cpu (the_lock t) = (if named p then Some h else None)"
    then have "\<not> named (pc s g)" if "g < NCPU" "g \<noteq> h" for g using i that unfolding lock_inv_def by blast
    with a show ?thesis unfolding pc by auto
  qed
  have lo: "(\<forall>g < NCPU. owns (pc t g) \<longrightarrow> locked (the_lock t)) \<and> (\<forall>g < NCPU. \<forall>g' < NCPU. owns (pc t g) \<longrightarrow> owns (pc t g') \<longrightarrow> g = g') \<and>
      (locked (the_lock t) \<longrightarrow> (\<exists>g < NCPU. owns (pc t g)))"
    using w
  proof
    assume a: "locked (the_lock t) = locked (the_lock s) \<and> owns p = owns (pc s h)"
    then have "owns (pc t g) = owns (pc s g)" for g by (simp add: pc)
    with a i show ?thesis unfolding lock_inv_def by simp
  next
    assume a: "(\<forall>g < NCPU. g \<noteq> h \<longrightarrow> \<not> owns (pc s g)) \<and> locked (the_lock t) = owns p"
    then have "owns (pc t g) \<longleftrightarrow> g = h \<and> owns p" if "g < NCPU" for g using that by (auto simp: pc)
    with a h show ?thesis by auto
  qed
  have "\<forall>g < NCPU. pc t g \<noteq> Stuck" using i p unfolding lock_inv_def pc by simp
  with cpu nm lo show ?thesis unfolding lock_inv_def by simp
qed

lemmas lock_step_simps = lock_step_def goto_def set_lock_def on_cpu_def

lemma lock_step_inv:
  assumes i: "lock_inv k s" and h: "h < NCPU" and f: "cpu_fit (k h)"
  shows "lock_inv k (lock_step h s)"
proof -
  have me: "pc s h \<noteq> Stuck" "lk_cpu (the_lock s) = Some h \<longleftrightarrow> named (pc s h)" "owns (pc s h) \<longrightarrow> locked (the_lock s)"
    and alone: "\<forall>g < NCPU. owns (pc s h) \<and> owns (pc s g) \<longrightarrow> g = h" "locked (the_lock s) \<longrightarrow> (\<exists>g < NCPU. owns (pc s g))"
    and names: "\<forall>g < NCPU. lk_cpu (the_lock s) = Some g \<longleftrightarrow> named (pc s g)"
    and cpu: "pc s h = Outside \<Longrightarrow> resting (k h) (cpus (shared s) h)" "pc s h \<noteq> Outside \<Longrightarrow> cpus (shared s) h = entered (k h)"
    using i h unfolding lock_inv_def by (blast, blast, blast, blast, blast, blast, simp_all)
  have own_named: "named p \<Longrightarrow> owns p" for p by (auto simp: named_def owns_def)
  show ?thesis
  proof (cases "pc s h")
    case Outside
    have p: "push_off ((shared s)\<lparr>tp := h\<rparr>) = Inr ((shared s)\<lparr>tp := h, cpus := (cpus (shared s))(h := entered (k h))\<rparr>)"
      by (rule push_off_resting [OF h f cpu(1) [OF Outside]])
    show ?thesis
      by (rule lock_inv_goto [OF i h, where p = Acq_read_locked]) (simp_all add: lock_step_simps Outside p named_def owns_def)
  next
    case Rel_pop
    obtain c where p: "pop_off ((shared s)\<lparr>tp := h\<rparr>) = Inr ((shared s)\<lparr>tp := h, cpus := (cpus (shared s))(h := c)\<rparr>)" "resting (k h) c"
      using pop_off_entered [OF h f, of "shared s"] cpu(2) Rel_pop by auto
    show ?thesis
      by (rule lock_inv_goto [OF i h, where p = Outside]) (simp_all add: lock_step_simps Rel_pop p named_def owns_def)
  next
    case Acq_read_locked
    then show ?thesis
      by (intro lock_inv_goto [OF i h, where p = "if locked (the_lock s) then Acq_read_cpu else Acq_swap"])
        (use cpu(2) in \<open>simp_all add: lock_step_simps named_def owns_def\<close>)
  next
    case Acq_read_cpu
    then have "lk_cpu (the_lock s) \<noteq> Some h" using me(2) by (simp add: named_def)
    with Acq_read_cpu show ?thesis
      by (intro lock_inv_goto [OF i h, where p = Acq_swap]) (use cpu(2) in \<open>simp_all add: lock_step_simps named_def owns_def\<close>)
  next
    case Acq_swap
    show ?thesis
    proof (cases "locked (the_lock s)")
      case True
      with Acq_swap i show ?thesis by (simp add: lock_step_def)
    next
      case False
      then have "\<forall>g < NCPU. \<not> owns (pc s g)" using i unfolding lock_inv_def by blast
      with Acq_swap False show ?thesis
        by (intro lock_inv_goto [OF i h, where p = Acq_set_cpu]) (use cpu(2) in \<open>simp_all add: lock_step_simps named_def owns_def\<close>)
    qed
  next
    case Acq_set_cpu
    then have "\<forall>g < NCPU. g \<noteq> h \<longrightarrow> \<not> owns (pc s g)" using alone(1) by (auto simp: owns_def)
    then have "\<forall>g < NCPU. lk_cpu (the_lock s) = Some g \<longrightarrow> g = h" using names own_named by blast
    with Acq_set_cpu me(3) show ?thesis
      by (intro lock_inv_goto [OF i h, where p = Inside]) (use cpu(2) in \<open>simp_all add: lock_step_simps named_def owns_def\<close>)
  next
    case Inside
    then show ?thesis
      by (intro lock_inv_goto [OF i h, where p = Rel_read_locked]) (use cpu(2) in \<open>simp_all add: lock_step_simps named_def owns_def\<close>)
  next
    case Rel_read_locked
    then have "locked (the_lock s)" using me(3) by (simp add: owns_def)
    with Rel_read_locked show ?thesis
      by (intro lock_inv_goto [OF i h, where p = Rel_read_cpu]) (use cpu(2) in \<open>simp_all add: lock_step_simps named_def owns_def\<close>)
  next
    case Rel_read_cpu
    then have "lk_cpu (the_lock s) = Some h" using me(2) by (simp add: named_def)
    with Rel_read_cpu show ?thesis
      by (intro lock_inv_goto [OF i h, where p = Rel_clear_cpu]) (use cpu(2) in \<open>simp_all add: lock_step_simps named_def owns_def\<close>)
  next
    case Rel_clear_cpu
    then have "lk_cpu (the_lock s) = Some h" using me(2) by (simp add: named_def)
    with Rel_clear_cpu me(3) show ?thesis
      by (intro lock_inv_goto [OF i h, where p = Rel_unlock]) (use cpu(2) in \<open>simp_all add: lock_step_simps named_def owns_def\<close>)
  next
    case Rel_unlock
    then have "\<forall>g < NCPU. g \<noteq> h \<longrightarrow> \<not> owns (pc s g)" using alone(1) by (auto simp: owns_def)
    with Rel_unlock show ?thesis
      by (intro lock_inv_goto [OF i h, where p = Rel_pop]) (use cpu(2) in \<open>simp_all add: lock_step_simps named_def owns_def\<close>)
  next
    case Stuck
    with me(1) show ?thesis by simp
  qed
qed

lemma lock_run_inv:
  "lock_inv k s \<Longrightarrow> set hs \<subseteq> {..<NCPU} \<Longrightarrow> (\<And>h. h < NCPU \<Longrightarrow> cpu_fit (k h)) \<Longrightarrow> lock_inv k (lock_run hs s)"
  unfolding lock_run_def by (induction hs arbitrary: s) (simp_all add: lock_step_inv)

section \<open>The owner gets out\<close>

fun steps_to_unlock :: "lock_pc \<Rightarrow> nat" where
  "steps_to_unlock Acq_set_cpu = 6"
| "steps_to_unlock Inside = 5"
| "steps_to_unlock Rel_read_locked = 4"
| "steps_to_unlock Rel_read_cpu = 3"
| "steps_to_unlock Rel_clear_cpu = 2"
| "steps_to_unlock Rel_unlock = 1"
| "steps_to_unlock _ = 0"

lemma owner_step:
  assumes "lock_inv k s" and "g < NCPU" and "owns (pc s g)"
  shows "steps_to_unlock (pc (lock_step g s) g) + 1 = steps_to_unlock (pc s g)"
    and "if pc s g = Rel_unlock then \<not> locked (the_lock (lock_step g s)) else owns (pc (lock_step g s) g)"
    and "h \<noteq> g \<Longrightarrow> pc (lock_step g s) h = pc s h"
proof -
  have "locked (the_lock s)" "lk_cpu (the_lock s) = Some g \<longleftrightarrow> named (pc s g)" using assms unfolding lock_inv_def by blast+
  then show "steps_to_unlock (pc (lock_step g s) g) + 1 = steps_to_unlock (pc s g)"
      "if pc s g = Rel_unlock then \<not> locked (the_lock (lock_step g s)) else owns (pc (lock_step g s) g)"
      "h \<noteq> g \<Longrightarrow> pc (lock_step g s) h = pc s h"
    using assms(3) by (auto simp: owns_def named_def lock_step_simps)
qed

lemma owner_unlocks:
  "lock_inv k s \<Longrightarrow> g < NCPU \<Longrightarrow> (\<And>h. h < NCPU \<Longrightarrow> cpu_fit (k h)) \<Longrightarrow> owns (pc s g) \<Longrightarrow> h \<noteq> g \<Longrightarrow> pc s h = Acq_swap \<Longrightarrow>
   pc (lock_run (replicate (steps_to_unlock (pc s g)) g @ [h]) s) h = Acq_set_cpu"
proof (induction "steps_to_unlock (pc s g)" arbitrary: s)
  case 0
  then show ?case by (auto simp: owns_def)
next
  case (Suc n)
  note st = owner_step [OF Suc.prems(1,2,4)]
  have n: "n = steps_to_unlock (pc (lock_step g s) g)" using st(1) Suc.hyps(2) by simp
  have sw: "pc (lock_step g s) h = Acq_swap" using st(3) [OF Suc.prems(5)] Suc.prems(6) by simp
  have i: "lock_inv k (lock_step g s)" using Suc.prems(1-3) by (intro lock_step_inv)
  have run: "lock_run (replicate (steps_to_unlock (pc s g)) g @ [h]) s = lock_run (replicate n g @ [h]) (lock_step g s)"
    by (simp add: lock_run_def Suc.hyps(2) [symmetric])
  show ?case
  proof (cases "pc s g = Rel_unlock")
    case True
    then have "n = 0" "\<not> locked (the_lock (lock_step g s))" using Suc.hyps(2) st(2) by simp_all
    with sw show ?thesis unfolding run by (simp add: lock_run_def lock_step_def goto_def set_lock_def)
  next
    case False
    then have "owns (pc (lock_step g s) g)" using st(2) by simp
    from Suc.hyps(1) [OF n i Suc.prems(2,3) this Suc.prems(5) sw] show ?thesis unfolding run n .
  qed
qed

lemma start_fit: "lock_start s \<Longrightarrow> h < NCPU \<Longrightarrow> cpu_fit (cpus (shared s) h)"
  by (simp add: lock_start_def cpu_ready_def cpu_fit_def)

lemma reach_inv: "lock_start s \<Longrightarrow> set hs \<subseteq> {..<NCPU} \<Longrightarrow> lock_inv (cpus (shared s)) (lock_run hs s)"
  by (rule lock_run_inv) (auto intro: start_inv start_fit)

lemma enough_steps: "steps_to_unlock p \<le> 6"
  by (cases p) simp_all

section \<open>The properties\<close>

text \<open>C25. Mutual exclusion: whatever the order in which the CPUs make their steps, however often they
  take and release the lock, at most one is in its critical section, and then the lock names it and its
  interrupts are off; and none of the checks of \<^verbatim>\<open>acquire\<close>, \<^verbatim>\<open>release\<close>, \<^verbatim>\<open>push_off\<close> and \<^verbatim>\<open>pop_off\<close> fails.\<close>

theorem lock_mutual_exclusion:
  assumes "lock_start s" and "set hs \<subseteq> {..<NCPU}" and "t = lock_run hs s"
  shows "(\<forall>h < NCPU. pc t h \<noteq> Stuck) \<and>
    (\<forall>h < NCPU. \<forall>h' < NCPU. pc t h = Inside \<and> pc t h' = Inside \<longrightarrow> h = h') \<and>
    (\<forall>h < NCPU. pc t h = Inside \<longrightarrow> the_lock t = \<lparr>locked = True, lk_cpu = Some h\<rparr> \<and> \<not> c_sie (cpus (shared t) h))"
proof -
  have i: "lock_inv (cpus (shared s)) t" unfolding assms(3) by (rule reach_inv [OF assms(1,2)])
  have "the_lock t = \<lparr>locked = True, lk_cpu = Some h\<rparr> \<and> \<not> c_sie (cpus (shared t) h)" if h: "h < NCPU" "pc t h = Inside" for h
  proof -
    have "locked (the_lock t)" "lk_cpu (the_lock t) = Some h"
      using i h unfolding lock_inv_def by (simp_all add: owns_def named_def)
    moreover have "cpus (shared t) h = entered (cpus (shared s) h)" using lock_inv_cpu [OF i _ h(1)] h(2) by simp
    ultimately show ?thesis by (cases "the_lock t") (simp add: entered_def)
  qed
  moreover have "owns Inside" by (simp add: owns_def)
  ultimately show ?thesis using i unfolding lock_inv_def by metis
qed

text \<open>C26. No deadlock: a CPU that spins on the lock gets it as soon as the owner has made its own steps
  (at most six, whatever the others did before) and the CPU then tries again.\<close>

theorem lock_progress:
  assumes "lock_start s" and "set hs \<subseteq> {..<NCPU}" and "h < NCPU" and "pc (lock_run hs s) h = Acq_swap"
  shows "\<exists>g n. g < NCPU \<and> n \<le> 6 \<and> pc (lock_run (hs @ replicate n g @ [h]) s) h = Acq_set_cpu"
proof -
  let ?t = "lock_run hs s"
  have i: "lock_inv (cpus (shared s)) ?t" by (rule reach_inv [OF assms(1,2)])
  have app: "lock_run (hs @ xs) s = lock_run xs ?t" for xs by (simp add: lock_run_def)
  show ?thesis
  proof (cases "locked (the_lock ?t)")
    case False
    then have "pc (lock_run (replicate 0 h @ [h]) ?t) h = Acq_set_cpu"
      using assms(4) by (simp add: lock_run_def [of "[h]"] lock_step_def goto_def set_lock_def)
    then show ?thesis unfolding app using assms(3) by blast
  next
    case True
    then obtain g where g: "g < NCPU" "owns (pc ?t g)" using i unfolding lock_inv_def by blast
    then have "h \<noteq> g" using assms(4) by (auto simp: owns_def)
    from owner_unlocks [OF i g(1) start_fit [OF assms(1)] g(2) this assms(4)] show ?thesis
      unfolding app using g(1) enough_steps by blast
  qed
qed

text \<open>C27. The two levels agree: when the lock is free, a CPU that makes its steps without interference is
  in the critical section after four steps, in the state that \<^verbatim>\<open>acquire\<close> of the theory \<^verbatim>\<open>Lock\<close> gives, and
  after six more it is outside, in the state that \<^verbatim>\<open>release\<close> gives.\<close>

theorem lock_steps_atomic:
  assumes "cpu_ready ((shared s)\<lparr>tp := h\<rparr>)" and "the_lock s = spinlock_init" and "pc s h = Outside"
  shows "acquire () ((shared s)\<lparr>tp := h\<rparr>) = Inr (shared (lock_run (replicate 4 h) s)) \<and> pc (lock_run (replicate 4 h) s) h = Inside \<and>
    release () (shared (lock_run (replicate 4 h) s)) = Inr (shared (lock_run (replicate 10 h) s)) \<and>
    pc (lock_run (replicate 10 h) s) h = Outside"
proof -
  let ?m = "(shared s)\<lparr>tp := h\<rparr>"
  have l: "lock_free () ?m" using assms(2) by (simp add: lock_free_def)
  have po: "push_off ?m = Inr (?m\<lparr>cpus := (cpus ?m)(h := entered (cpus ?m h))\<rparr>)"
    using assms(1) push_off_resting [of h "cpus ?m h" ?m] by (simp add: cpu_ready_def cpu_fit_def resting_def)
  have t: "take_lock () ?m = ?m\<lparr>cpus := (cpus ?m)(h := entered (cpus ?m h)), locks := (\<lambda>_. \<lparr>locked = True, lk_cpu = Some h\<rparr>)\<rparr>"
    by (simp add: take_lock_def entered_def fun_eq_iff)
  have four: "lock_run (replicate 4 h) s = s\<lparr>shared := take_lock () ?m, pc := (pc s)(h := Inside)\<rparr>"
    using assms(2,3) po
    by (simp add: numeral_eq_Suc lock_run_def lock_step_simps spinlock_init_def t)
  have rel: "release () (take_lock () ?m) = Inr (settle ?m)" using assms(1) l by (rule release_taken)
  have h: "h < NCPU" using assms(1) by (simp add: cpu_ready_def)
  let ?u = "?m\<lparr>cpus := (cpus ?m)(h := entered (cpus ?m h)), locks := (\<lambda>_. \<lparr>locked = False, lk_cpu = None\<rparr>)\<rparr>"
  have "pop_off ?u = release () (take_lock () ?m)"
    using h by (simp add: release_def holding_def mycpu_def t Let_def fun_upd_def)
  moreover have "?u = (shared s)\<lparr>cpus := (cpus (shared s))(h := entered (cpus (shared s) h)), locks := (\<lambda>_. \<lparr>locked = False, lk_cpu = None\<rparr>), tp := h\<rparr>"
    by simp
  ultimately have po': "pop_off ((shared s)\<lparr>cpus := (cpus (shared s))(h := entered (cpus (shared s) h)),
      locks := (\<lambda>_. \<lparr>locked = False, lk_cpu = None\<rparr>), tp := h\<rparr>) = Inr (settle ?m)" using rel by metis
  have six: "lock_run (replicate 6 h) (s\<lparr>shared := take_lock () ?m, pc := (pc s)(h := Inside)\<rparr>) =
      s\<lparr>shared := settle ?m, pc := (pc s)(h := Outside)\<rparr>"
    using po' by (simp add: numeral_eq_Suc lock_run_def lock_step_simps t)
  have ten: "lock_run (replicate 10 h) s = lock_run (replicate 6 h) (lock_run (replicate 4 h) s)"
    using replicate_add [of 4 6 h] by (simp add: lock_run_def)
  show ?thesis unfolding ten four six using rel acquire_free [OF assms(1) l] by simp
qed

section \<open>Two CPUs in a race\<close>

definition race_demo :: race where
  "race_demo = \<lparr>shared = boot_smp, pc = (\<lambda>_. Outside)\<rparr>"

lemma race_demo_start: "lock_start race_demo"
  by (simp add: lock_start_def race_demo_def cpu_ready_def boot_smp_def boot_cpu_def)

text \<open>Both read the lock as free; CPU 1 swaps first, and CPU 0 spins.\<close>

lemma race_demo_spins:
  "pc (lock_run [0, 0, 1, 1, 1, 0, 1, 0] race_demo) 0 = Acq_swap \<and> pc (lock_run [0, 0, 1, 1, 1, 0, 1, 0] race_demo) 1 = Inside"
  by (simp add: lock_run_def lock_step_simps race_demo_def boot_smp_def boot_cpu_def push_off_def cpu_ops Let_def NCPU_def spinlock_init_def)

theorem lock_mutual_exclusion_witness:
  "the_lock (lock_run [0, 0, 1, 1, 1, 0, 1, 0] race_demo) = \<lparr>locked = True, lk_cpu = Some 1\<rparr>"
  using lock_mutual_exclusion [OF race_demo_start, of "[0, 0, 1, 1, 1, 0, 1, 0]", OF _ refl] race_demo_spins
  by (auto simp: NCPU_def)

theorem lock_progress_witness:
  "\<exists>g n. g < NCPU \<and> n \<le> 6 \<and> pc (lock_run ([0, 0, 1, 1, 1, 0, 1, 0] @ replicate n g @ [0]) race_demo) 0 = Acq_set_cpu"
  by (rule lock_progress [OF race_demo_start]) (use race_demo_spins in \<open>simp_all add: NCPU_def\<close>)

theorem lock_steps_atomic_witness:
  "release () (shared (lock_run (replicate 4 0) race_demo)) = Inr (shared (lock_run (replicate 10 0) race_demo))"
  using lock_steps_atomic [where s = race_demo and h = 0] race_demo_start by (simp add: lock_start_def race_demo_def NCPU_def)

end
