(* ===== verification/VmCreate.thy ===== *)
theory VmCreate imports VmCopy begin

text \<open>
  Making an address space: \<^verbatim>\<open>mm_create\<close> and \<^verbatim>\<open>mm_mappagesat\<close> of \<^verbatim>\<open>os/vm.c\<close>, on a kernel whose page allocator
  and object pools are in order, and what these steps leave of every other address space. \<open>world\<close> is the
  state of the allocators, \<open>adv\<close> a step that takes from them, \<open>good\<close> an address space beside them.
\<close>

section \<open>The allocators\<close>

text \<open>The pages \<open>ps\<close> are free, and \<open>G A\<close> are the free objects of the pool \<open>A\<close>.\<close>

definition apart :: "kst \<Rightarrow> u64 set \<Rightarrow> bool" where
  "apart s P \<longleftrightarrow> (\<forall>A. objs_apart (allocs s A) P)"

definition world :: "kst \<Rightarrow> u64 list \<Rightarrow> (alloc_id \<Rightarrow> u64 set) \<Rightarrow> bool" where
  "world s ps G \<longleftrightarrow>
     arena_ok s \<and> k_ready s \<and> k_free L_kpage s \<and> free_pages s ps \<and> apart s (set ps) \<and>
     (\<forall>A. objs_ok s A \<and> k_free (L_alloc A) s \<and> free_objects s A (G A)) \<and>
     (\<forall>A B x. A \<noteq> B \<longrightarrow> obj_region (allocs s A) x \<longrightarrow> \<not> obj_region (allocs s B) x)"

text \<open>Everything but the bytes of memory, the allocators, the objects and the processes is the same.\<close>

definition alloc_only :: "kst \<Rightarrow> kst \<Rightarrow> bool" where
  "alloc_only s t \<longleftrightarrow>
     t = s\<lparr>smp := smp t, mem := mem t, freelist := freelist t, allocs := allocs t, mms := mms t, vmas := vmas t,
           proc_pool := proc_pool t, next_pid := next_pid t\<rparr> \<and> settle (smp t) = settle (smp s)"

text \<open>Pages outside \<open>W\<close> and the object pools keep their bytes.\<close>

definition kept :: "u64 set \<Rightarrow> kst \<Rightarrow> kst \<Rightarrow> bool" where
  "kept W s t \<longleftrightarrow> (\<forall>A. obj_region (allocs t A) = obj_region (allocs s A)) \<and>
     (\<forall>P. (\<forall>x \<in> P. PGALIGNED x) \<longrightarrow> P \<inter> W = {} \<longrightarrow> apart s P \<longrightarrow> same_on P (mem s) (mem t))"

definition adv :: "u64 set \<Rightarrow> kst \<Rightarrow> kst \<Rightarrow> u64 list \<Rightarrow> (alloc_id \<Rightarrow> u64 set) \<Rightarrow> bool" where
  "adv W s t ps G \<longleftrightarrow> alloc_only s t \<and> world t ps G \<and> kept W s t"

definition good :: "kst \<Rightarrow> u64 \<Rightarrow> u64 list \<Rightarrow> bool" where
  "good s root ps \<longleftrightarrow> vm_ok s root ps \<and> apart s (tables (mem s) root)"

lemma apart_Un [simp]: "apart s (P \<union> Q) \<longleftrightarrow> apart s P \<and> apart s Q"
  by (auto simp: apart_def)

lemma apart_mono: "apart s P \<Longrightarrow> Q \<subseteq> P \<Longrightarrow> apart s Q"
  using objs_apart_mono by (simp add: apart_def) blast

lemma worldD:
  assumes "world s ps G"
  shows "arena_ok s" "k_ready s" "k_free L_kpage s" "free_pages s ps" "apart s (set ps)" "objs_ok s A"
    "k_free (L_alloc A) s" "free_objects s A (G A)" "A \<noteq> B \<Longrightarrow> obj_region (allocs s A) x \<Longrightarrow> \<not> obj_region (allocs s B) x"
    "distinct ps" "p \<in> set ps \<Longrightarrow> managed s p" "p \<in> set ps \<Longrightarrow> PGALIGNED p"
  using assms by (auto simp: world_def free_pages_def managed_def)

lemma alloc_only_refl [simp]: "alloc_only s s"
  by (simp add: alloc_only_def)

lemma alloc_only_trans: "alloc_only s t \<Longrightarrow> alloc_only t u \<Longrightarrow> alloc_only s u"
  by (cases s; cases t; cases u) (simp add: alloc_only_def)

lemma vm_only_alloc_only: "vm_only s t \<Longrightarrow> alloc_only s t"
  by (cases s; cases t) (simp add: alloc_only_def vm_only_def)

lemma alloc_only_sel:
  assumes "alloc_only s t"
  shows "same_layout s t" "kmap t = kmap s" "task_queue t = task_queue s" "img t = img s" "init_proc t = init_proc s"
    "settle (smp t) = settle (smp s)"
proof -
  define u where "u = s\<lparr>smp := smp t, mem := mem t, freelist := freelist t, allocs := allocs t, mms := mms t, vmas := vmas t,
           proc_pool := proc_pool t, next_pid := next_pid t\<rparr>"
  have e: "t = u" using assms by (simp only: alloc_only_def u_def)
  show "kmap t = kmap s" "task_queue t = task_queue s" "img t = img s" "init_proc t = init_proc s"
    unfolding e by (simp_all add: u_def)
  have b: "kmap t = kmap s" "kpage_allocator_base t = kpage_allocator_base s" "kpage_allocator_size t = kpage_allocator_size s"
    unfolding e by (simp_all add: u_def)
  show q: "settle (smp t) = settle (smp s)" using assms by (simp add: alloc_only_def)
  show "same_layout s t" using b settle_eq_transfer [OF q] by (simp add: same_layout_def k_ready_def k_free_def)
qed

lemma kept_apart: "kept W s t \<Longrightarrow> apart t P = apart s P"
  by (simp add: kept_def apart_def objs_apart_def)

lemma kept_mono: "kept W s t \<Longrightarrow> W \<subseteq> V \<Longrightarrow> kept V s t"
  unfolding kept_def by (metis (no_types, lifting) inf_mono order_refl subset_empty)

lemma kept_trans: "kept W s t \<Longrightarrow> kept W t u \<Longrightarrow> kept W s u"
  using kept_apart [of W s t] same_on_trans unfolding kept_def by metis

lemma keptD: "kept W s t \<Longrightarrow> \<forall>x \<in> P. PGALIGNED x \<Longrightarrow> P \<inter> W = {} \<Longrightarrow> apart s P \<Longrightarrow> same_on P (mem s) (mem t)"
  by (simp add: kept_def)

lemma adv_trans [trans]: "adv W s t ps G \<Longrightarrow> adv W t u qs H \<Longrightarrow> adv W s u qs H"
  using alloc_only_trans kept_trans by (auto simp: adv_def)

lemma adv_mono: "adv W s t ps G \<Longrightarrow> W \<subseteq> V \<Longrightarrow> adv V s t ps G"
  using kept_mono by (auto simp: adv_def)

lemma advD:
  assumes "adv W s t ps G"
  shows "alloc_only s t" "world t ps G" "kept W s t" "same_layout s t" "apart t P = apart s P"
  using assms alloc_only_sel(1) kept_apart [of W s t P] by (auto simp: adv_def)

text \<open>A step that stays outside the tables of an address space leaves it alone.\<close>

lemma adv_good:
  assumes a: "adv W s t qs G" and g: "good s root ps" and W: "W \<inter> tables (mem s) root = {}" and sub: "set qs \<subseteq> set ps"
  shows "good t root qs" "entry (mem t) root = entry (mem s) root" "tables (mem t) root = tables (mem s) root"
proof -
  have ok: "vm_ok s root ps" "apart s (tables (mem s) root)" using g by (simp_all add: good_def)
  have "same_on (tables (mem s) root) (mem s) (mem t)"
    by (rule keptD [OF advD(3) [OF a]]) (use ok W vm_okD(8) [OF ok(1)] in auto)
  note t = vm_ok_transfer [OF ok(1) this worldD(4) [OF advD(2) [OF a]] sub advD(4) [OF a]]
  show "entry (mem t) root = entry (mem s) root" "tables (mem t) root = tables (mem s) root"
    using t(2,3) by (simp_all add: fun_eq_iff)
  show "good t root qs" using t(1,3) ok(2) by (simp add: good_def advD(5) [OF a])
qed

section \<open>Steps\<close>

text \<open>Writing to pages that are not free and not in the pools.\<close>

lemma only_in_kept:
  assumes "only_in Q (mem s) (mem t)" and "\<forall>x \<in> Q. PGALIGNED x" and "allocs t = allocs s"
  shows "kept Q s t"
  unfolding kept_def
proof (intro conjI allI impI)
  fix P assume "\<forall>x \<in> P. PGALIGNED x" "P \<inter> Q = {}"
  then show "same_on P (mem s) (mem t)" using only_in_same_on [OF assms(1), of P] assms(2) by blast
qed (simp add: assms(3))

lemma world_objects:
  assumes w: "world s ps G" and al: "allocs t = allocs s" and km: "kmap t = kmap s"
    and oi: "only_in Q (mem s) (mem t)" and ap: "apart s Q"
  shows "objs_ok t A" "free_objects t A (G A)"
proof -
  show "objs_ok t A" by (rule objs_ok_cong [OF worldD(6) [OF w] fun_cong [OF al] km])
  show "free_objects t A (G A)"
  proof (rule free_objects_cong [OF worldD(8) [OF w] fun_cong [OF al] worldD(6) [OF w]])
    fix x assume "in_page (bitmap (allocs s A)) x"
    then have "obj_region (allocs s A) x" by (simp add: obj_region_def)
    then show "mem t x = mem s x" using only_in_apart_region [OF oi, of "allocs s A" x] ap by (simp add: apart_def)
  qed
qed

lemma world_write:
  assumes w: "world s ps G" and om: "only_memory s t" and oi: "only_in Q (mem s) (mem t)" and Q: "\<forall>x \<in> Q. PGALIGNED x"
    and ap: "apart s Q" and fp: "free_pages t qs" and sub: "set qs \<subseteq> set ps"
  shows "adv Q s t qs G"
proof -
  note sel = only_memory_sel [OF om] and mng = only_memory_managed [OF om]
  have "apart t (set qs)" using apart_mono [OF worldD(5) [OF w] sub] by (simp add: apart_def sel)
  then have "world t qs G"
    using w fp world_objects [OF w sel(2,1) oi ap] by (simp add: world_def mng sel)
  then show ?thesis
    using only_in_kept [OF oi Q sel(2)] vm_only_alloc_only [OF only_memory_vm_only [OF om]] by (simp add: adv_def)
qed

lemma world_store:
  assumes w: "world s ps G" and oi: "only_in Q (mem s) m" and Q: "\<forall>x \<in> Q. PGALIGNED x" and ap: "apart s Q" and dj: "Q \<inter> set ps = {}"
  shows "adv Q s (s\<lparr>mem := m\<rparr>) ps G"
proof (rule world_write [OF w _ _ Q ap])
  show om: "only_memory s (s\<lparr>mem := m\<rparr>)" by (simp add: only_memory_def)
  show "free_pages (s\<lparr>mem := m\<rparr>) ps"
    by (rule free_pages_only_in [OF worldD(4) [OF w] _ Q dj om]) (simp_all add: oi)
qed (simp_all add: oi)

text \<open>Changes to the objects and to the processes.\<close>

lemma world_cong:
  assumes "mem t = mem s" "kmap t = kmap s" "smp t = smp s" "freelist t = freelist s" "allocs t = allocs s"
    "kpage_allocator_base t = kpage_allocator_base s" "kpage_allocator_size t = kpage_allocator_size s"
  shows "world t ps G = world s ps G"
proof -
  have m: "managed t p = managed s p" for p using assms by (simp add: managed_def)
  have p: "page_mapped t p = page_mapped s p" for p by (rule page_mapped_cong [OF assms(2)])
  show ?thesis
    using assms by (simp add: world_def p m arena_ok_def k_ready_def k_free_def free_pages_def free_objects_def objs_ok_def apart_def)
qed

lemma world_upd [simp]:
  "world (upd_mm mm f s) ps G = world s ps G" "world (upd_vma v g s) ps G = world s ps G"
  "world (s\<lparr>proc_pool := x\<rparr>) ps G = world s ps G" "world (s\<lparr>next_pid := i\<rparr>) ps G = world s ps G"
  by (rule world_cong; simp add: upd_mm_def upd_vma_def)+

lemma good_cong:
  assumes "mem t = mem s" "kmap t = kmap s" "smp t = smp s" "freelist t = freelist s" "allocs t = allocs s"
    "kpage_allocator_base t = kpage_allocator_base s" "kpage_allocator_size t = kpage_allocator_size s"
  shows "good t root ps = good s root ps"
  using vm_ok_cong [of t s root ps] assms by (simp add: good_def apart_def)

lemma good_upd [simp]:
  "good (upd_mm mm f s) r ps = good s r ps" "good (upd_vma v g s) r ps = good s r ps"
  "good (s\<lparr>proc_pool := x\<rparr>) r ps = good s r ps" "good (s\<lparr>next_pid := i\<rparr>) r ps = good s r ps"
  by (rule good_cong; simp add: upd_mm_def upd_vma_def)+

lemma adv_upd:
  assumes "world s ps G"
  shows "adv {} s (upd_mm mm f s) ps G" "adv {} s (upd_vma v g s) ps G"
    "adv {} s (s\<lparr>proc_pool := x\<rparr>) ps G" "adv {} s (s\<lparr>next_pid := i\<rparr>) ps G"
  using assms by (simp_all add: adv_def kept_def same_on_def) (simp_all add: alloc_only_def upd_mm_def upd_vma_def)

text \<open>Taking an object.\<close>

abbreviation taken :: "alloc_id \<Rightarrow> u64 \<Rightarrow> (alloc_id \<Rightarrow> u64 set) \<Rightarrow> alloc_id \<Rightarrow> u64 set" where
  "taken A p G \<equiv> G(A := G A - {p})"

lemma world_kalloc:
  assumes w: "world s ps G" and ne: "G A \<noteq> {}"
  obtains p t where "kalloc A s = Inr (p, t)" "p \<in> G A" "p \<noteq> 0" "adv {} s t ps (taken A p G)" "vm_only s t"
    "mms t = mms s" "vmas t = vmas s"
proof -
  note d = worldD [OF w]
  obtain p t where t: "kalloc A s = Inr (p, t)" "p \<in> G A" "p \<noteq> 0" "free_objects t A (G A - {p})" "objs_ok t A" "vm_only s t"
    "freelist t = freelist s" "mms t = mms s" "vmas t = vmas s" "\<And>B. B \<noteq> A \<Longrightarrow> allocs t B = allocs s B"
    "obj_region (allocs t A) = obj_region (allocs s A)" "only_region (allocs s A) (mem s) (mem t)"
    by (rule kalloc_step [OF d(6,2,7,8) ne]) blast
  note lay = vm_only_layout [OF t(6)]
  have reg: "obj_region (allocs t B) = obj_region (allocs s B)" for B using t(10,11) by (cases "B = A") simp_all
  have so: "same_on P (mem s) (mem t)" if "apart s P" for P
    using only_region_same_on [OF t(12)] that by (simp add: apart_def)
  have k: "kept {} s t" using so reg by (simp add: kept_def)
  have B: "objs_ok t B \<and> free_objects t B (taken A p G B)" if "B \<noteq> A" for B
  proof -
    have "mem t x = mem s x" if "in_page (bitmap (allocs s B)) x" for x
      using that d(9) [OF \<open>B \<noteq> A\<close>, of x] t(12) by (simp add: obj_region_def only_region_def)
    then have "allocated (mem t) (bitmap (allocs s B)) i = allocated (mem s) (bitmap (allocs s B)) i"
      if "i < unat (max_count (allocs s B))" for i
      by (rule allocated_cong) (use that objs_ok_parts(1) [OF d(6) [of B]] in simp_all)
    then have "free_objects t B (G B)" using d(8) [of B] t(10) [OF that] by (simp add: free_objects_def Let_def)
    moreover have "objs_ok t B" using d(6) [of B] t(10) [OF that] same_layoutD(2) [OF lay] lay by (simp add: objs_ok_def Let_def same_layout_def)
    ultimately show ?thesis using that by simp
  qed
  have "world t ps (taken A p G)"
    unfolding world_def
  proof (intro conjI allI)
    show "free_pages t ps" by (rule free_pages_transfer [OF d(4) so [OF d(5)] lay t(7)])
    show "apart t (set ps)" using d(5) kept_apart [OF k] by simp
    show "objs_ok t B" "free_objects t B (taken A p G B)" for B using B [of B] t(4,5) by (cases "B = A"; simp)+
  qed (use d(1-3,7,9) same_layoutD [OF lay] reg in simp_all)
  then have "adv {} s t ps (taken A p G)" using k vm_only_alloc_only [OF t(6)] by (simp add: adv_def)
  then show thesis using that t(1-3,6,8,9) by blast
qed

text \<open>Taking a page.\<close>

lemma world_page:
  assumes w: "world s (q # ps) G"
  obtains t where "kallocpage s = Inr (KVA_TO_PA q, t)" "adv {q} s t ps G" "vm_only s t" "mms t = mms s" "vmas t = vmas s"
    "PGALIGNED q" "q \<noteq> 0" "q \<notin> set ps" "page_mapped t q" "KVA_TO_PA q \<noteq> 0" "apart t {q}" "managed t q"
proof -
  note d = worldD [OF w]
  have q: "managed s q" "PGALIGNED q" "q \<notin> set ps" "freelist s = q" "q \<noteq> 0"
    using d(4) by (simp_all add: free_pages_def managed_def)
  have pm: "page_mapped s q" using q(1) d(1) by (simp add: arena_ok_def)
  define t where "t = s\<lparr>smp := settle (smp s), mem := fill_page (mem s) q 0xaf, freelist := ld64 (mem s) q\<rparr>"
  have run: "kallocpage s = Inr (KVA_TO_PA q, t)" using kallocpage_eq [OF d(2,3) q(4,5) pm] by (simp add: t_def)
  have om: "only_memory s t" unfolding t_def by (rule only_memoryI) simp
  have oi: "only_in {q} (mem s) (mem t)" by (simp add: only_in_def t_def fill_page_def)
  have "chain (mem t) (freelist t) ps = chain (mem s) (freelist t) ps"
    by (rule chain_outside [of q]) (use q d(12) in \<open>auto simp: t_def fill_page_def\<close>)
  then have fp: "free_pages t ps"
    using d(4) only_memory_managed(1) [OF om] by (simp add: free_pages_def t_def)
  have ap: "apart s {q}" by (rule apart_mono [OF d(5)]) simp
  have a: "adv {q} s t ps G" by (rule world_write [OF w om oi _ ap fp]) (use q(2) in auto)
  show thesis
  proof (rule that [OF run a only_memory_vm_only [OF om]])
    show "KVA_TO_PA q \<noteq> 0" using managed_pa_nonzero d(1) q(1) by blast
    show "page_mapped t q" "managed t q" using pm q(1) only_memory_managed [OF om] by simp_all
    show "apart t {q}" using ap advD(5) [OF a] by simp
  qed (use q only_memory_sel [OF om] in simp_all)
qed

section \<open>A new address space\<close>

lemma init_free_lock: "k_free l s \<Longrightarrow> k_spinlock_init l s = s"
  by (simp add: k_spinlock_init_def k_free_def lock_free_def fun_upd_idem)

lemma mm_create_ok:
  assumes w: "world s (q # ps) G" and ne: "G Mm_alloc \<noteq> {}" and lk: "\<And>mm. mm \<in> G Mm_alloc \<Longrightarrow> k_free (L_mm mm) s"
  obtains mm t where "mm_create s = Inr (mm, t)" "mm \<in> G Mm_alloc" "mm \<noteq> 0"
    "adv {q} s t ps (taken Mm_alloc mm G)" "vm_only s t" "good t q ps" "tables (mem t) q = {q}" "q \<notin> set ps"
    "\<And>va. entry (mem t) q va = 0" "mms t = (mms s)(mm := \<lparr>mm_pgt = q, mm_vma = 0, mm_refcnt = 1\<rparr>)" "vmas t = vmas s"
proof -
  let ?M = Mm_alloc
  obtain mm s1 where s1: "kalloc ?M s = Inr (mm, s1)" "mm \<in> G ?M" "mm \<noteq> 0" "adv {} s s1 (q # ps) (taken Mm_alloc mm G)" "vm_only s s1"
    "mms s1 = mms s" "vmas s1 = vmas s"
    by (rule world_kalloc [OF w ne])
  define s2 where "s2 = upd_mm mm (\<lambda>_. zero_mm\<lparr>mm_refcnt := 1\<rparr>) s1"
  have "k_free (L_mm mm) s2"
    using lk [OF s1(2)] vm_only_sel(9) [OF s1(5), of "L_mm mm"] by (simp add: s2_def upd_mm_def k_free_def)
  then have init: "k_spinlock_init (L_mm mm) s2 = s2" by (rule init_free_lock)
  have w2: "world s2 (q # ps) (taken Mm_alloc mm G)" using advD(2) [OF s1(4)] by (simp add: s2_def)
  obtain s3 where s3: "kallocpage s2 = Inr (KVA_TO_PA q, s3)" "adv {q} s2 s3 ps (taken Mm_alloc mm G)" "vm_only s2 s3" "mms s3 = mms s2"
    "vmas s3 = vmas s2" "PGALIGNED q" "q \<noteq> 0" "q \<notin> set ps" "page_mapped s3 q" "apart s3 {q}" "managed s3 q"
    by (rule world_page [OF w2]) blast
  note w3 = advD(2) [OF s3(2)]
  define s4 where "s4 = upd_mm mm (\<lambda>m. m\<lparr>mm_pgt := q\<rparr>) s3"
  have w4: "world s4 ps (taken Mm_alloc mm G)" using w3 by (simp add: s4_def)
  have s4: "mem s4 = mem s3" "page_mapped s4 q" "apart s4 {q}" "mm_pgt (mms s4 mm) = q"
    using s3(9,10) by (simp_all add: s4_def upd_mm_def page_mapped_def mapped_def apart_def)
  define t where "t = s4\<lparr>mem := fill_page (mem s4) q 0\<rparr>"
  have a4: "adv {q} s4 t ps (taken Mm_alloc mm G)"
    unfolding t_def by (rule world_store [OF w4 fill_only_in _ s4(3)]) (use s3(6,8) in auto)
  have a: "adv {q} s t ps (taken Mm_alloc mm G)"
  proof (rule adv_trans [OF adv_mono [OF s1(4)]])
    have "adv {q} s1 s2 (q # ps) (taken Mm_alloc mm G)" unfolding s2_def by (rule adv_mono [OF adv_upd(1) [OF advD(2) [OF s1(4)]]]) simp
    moreover have "adv {q} s3 s4 ps (taken Mm_alloc mm G)" unfolding s4_def by (rule adv_mono [OF adv_upd(1) [OF w3]]) simp
    ultimately show "adv {q} s1 t ps (taken Mm_alloc mm G)" using s3(2) a4 adv_trans by blast
  qed simp
  have vo: "vm_only s t"
  proof -
    have "vm_only s1 s2" "vm_only s3 s4" by (simp_all add: s2_def s4_def vm_only_upd)
    moreover have "vm_only s4 t" by (simp add: t_def vm_only_def)
    ultimately show ?thesis using s1(5) s3(3) vm_only_trans by blast
  qed
  have z: "ld64 (mem t) (slot q i) = 0" if "i < 512" for i using ld64_fill_same [OF that] by (simp add: t_def)
  note e = empty_root [OF z s3(6)] and wt = worldD [OF advD(2) [OF a]]
  have pm: "page_mapped t q" using s4(2) by (simp add: t_def page_mapped_def mapped_def)
  have "vm_ok t q ps" by (rule vm_ok_fresh [OF z s3(6,7) pm wt(1-4) s3(8)])
  then have g: "good t q ps" using e(1) s4(3) by (simp add: good_def apart_def t_def)
  have mt: "mms t = (mms s)(mm := \<lparr>mm_pgt = q, mm_vma = 0, mm_refcnt = 1\<rparr>)"
    by (simp add: t_def s4_def upd_mm_def s3(4) s2_def s1(6) zero_mm_def)
  have vt: "vmas t = vmas s" by (simp add: t_def s4_def upd_mm_def s3(5) s2_def s1(7))
  have "k_memset q 0 4096 s4 = Inr t" using k_memset_page [OF s4(2), of 0] by (simp add: t_def)
  then have "mm_create s = Inr (mm, t)"
    using s1(1) s3(1,7) init s4(4) by (simp add: mm_create_def Let_def s2_def [symmetric] s4_def [symmetric])
  then show thesis using that s1(2,3) a vo g e(1,3) s3(8) mt vt by blast
qed

section \<open>Mapping one page\<close>

lemma only_in_tables_adv:
  assumes w: "world s ps G" and g: "good s root ps" and gr: "grown s root ps k t"
  shows "adv (tables (mem s) root \<union> set (take k ps)) s t (drop k ps) G"
proof (rule world_write [OF w])
  let ?Q = "tables (mem s) root \<union> set (take k ps)"
  have tk: "set (take k ps) \<subseteq> set ps" by (rule set_take_subset)
  have ok: "vm_ok s root ps" "apart s (tables (mem s) root)" using g by (simp_all add: good_def)
  show "only_memory s t" "only_in ?Q (mem s) (mem t)" using gr by (auto simp: grown_def)
  show "\<forall>x \<in> ?Q. PGALIGNED x" using vm_okD(8) [OF ok(1)] worldD(12) [OF w] tk by blast
  show "apart s ?Q" using ok(2) apart_mono [OF worldD(5) [OF w] tk] by simp
  show "free_pages t (drop k ps)" using gr vm_okD(6) by (auto simp: grown_def)
  show "set (drop k ps) \<subseteq> set ps" by (rule set_drop_subset)
qed

lemma mappagesat_ok:
  assumes w: "world s ps G" and g: "good s root ps" and root: "root = mm_pgt (mms s mm)" and ne: "G Vma_alloc \<noteq> {}"
    and va: "PGALIGNED va" "IS_USER_VA va" and inv: "entry (mem s) root va AND PTE_V = 0" and len: "2 \<le> length ps"
  obtains v t k where "mm_mappagesat mm va pa fl False s = Inr (v, t)" "v \<in> G Vma_alloc" "v \<noteq> 0" "k \<le> 2"
    "adv (tables (mem s) root \<union> set (take k ps)) s t (drop k ps) (taken Vma_alloc v G)" "vm_only s t"
    "good t root (drop k ps)" "tables (mem t) root = tables (mem s) root \<union> set (take k ps)"
    "\<And>x. PGALIGNED x \<Longrightarrow> IS_USER_VA x \<Longrightarrow>
       entry (mem t) root x = (if x = va then PA2PTE pa OR fl OR PTE_V else entry (mem s) root x)"
    "mms t = mms s"
    "vmas t = (vmas s)(v := \<lparr>vma_owner = mm, vma_next = 0, vm_start = va, vm_end = va + PGSIZE, pte_flags = fl\<rparr>)"
proof -
  let ?V = Vma_alloc
  let ?w = "\<lparr>vma_owner = mm, vma_next = 0, vm_start = va, vm_end = va + PGSIZE, pte_flags = fl\<rparr>"
  obtain v s1 where s1: "kalloc ?V s = Inr (v, s1)" "v \<in> G ?V" "v \<noteq> 0" "adv {} s s1 ps (taken Vma_alloc v G)" "vm_only s s1"
    "mms s1 = mms s" "vmas s1 = vmas s"
    by (rule world_kalloc [OF w ne])
  note g1 = adv_good [OF s1(4) g Int_empty_left subset_refl]
  define s2 where "s2 = upd_vma v (\<lambda>_. zero_vma\<lparr>vma_owner := mm, pte_flags := fl, vm_start := va, vm_end := va + PGSIZE\<rparr>) s1"
  have s2: "mem s2 = mem s1" "mms s2 = mms s" "vmas s2 = (vmas s)(v := ?w)"
    by (simp_all add: s2_def upd_vma_def s1(6,7) zero_vma_def)
  have w2: "world s2 ps (taken Vma_alloc v G)" and g2: "good s2 root ps" using advD(2) [OF s1(4)] g1(1) by (simp_all add: s2_def)
  have ok2: "vm_ok s2 (mm_pgt (mms s2 mm)) ps" using g2 root s2(2) by (simp add: good_def)
  obtain s3 k r where s3: "walk mm va True s2 = Inr (slot r (PX 0 va), s3)" "grown s2 root ps k s3" "k \<le> 2"
    "leaf_table (mem s3) root va = Some r"
    using walk_alloc [OF ok2 va(2) len] unfolding s2(2) root [symmetric] by blast
  let ?W = "tables (mem s) root \<union> set (take k ps)"
  have T: "tables (mem s2) root = tables (mem s) root" "entry (mem s2) root = entry (mem s) root" by (simp_all add: s2(1) g1)
  have a3: "adv ?W s2 s3 (drop k ps) (taken Vma_alloc v G)" using only_in_tables_adv [OF w2 g2 s3(2)] unfolding T .
  note w3 = advD(2) [OF a3]
  have om3: "only_memory s2 s3" and ok3: "vm_ok s3 root (drop k ps)" and e3: "entry (mem s3) root = entry (mem s) root"
    and T3: "tables (mem s3) root = ?W"
    using s3(2) T unfolding grown_def by auto
  obtain t where t: "store64 (slot r (PX 0 va)) (PA2PTE pa OR fl OR PTE_V) s3 = Inr t" "only_memory s3 t" "vm_ok t root (drop k ps)"
    "\<And>va'. entry (mem t) root va' = (if same_page va va' then PA2PTE pa OR fl OR PTE_V else entry (mem s3) root va')"
    "tables (mem t) root = tables (mem s3) root" "only_in {r} (mem s3) (mem t)" "freelist t = freelist s3"
    by (rule set_leaf [OF ok3 s3(4)]) blast
  have r: "r \<in> tables (mem s3) root" by (rule leaf_table_in_tables [OF s3(4)])
  have apW: "apart s3 ?W"
  proof -
    have "apart s ?W" using g apart_mono [OF worldD(5) [OF w] set_take_subset, of k] by (simp add: good_def)
    moreover have "apart s2 P = apart s1 P" for P by (simp add: apart_def s2_def upd_vma_def)
    ultimately show ?thesis using advD(5) [OF s1(4)] advD(5) [OF a3] by simp
  qed
  have a4: "adv {r} s3 t (drop k ps) (taken Vma_alloc v G)"
  proof (rule world_write [OF w3 t(2,6) _ _ vm_okD(6) [OF t(3)] subset_refl])
    show "\<forall>x \<in> {r}. PGALIGNED x" using vm_okD(8) [OF ok3 r] by simp
    show "apart s3 {r}" by (rule apart_mono [OF apW]) (use r T3 in simp)
  qed
  have a: "adv ?W s t (drop k ps) (taken Vma_alloc v G)"
  proof -
    have "adv ?W s s1 ps (taken Vma_alloc v G)" by (rule adv_mono [OF s1(4)]) simp
    moreover have "adv ?W s1 s2 ps (taken Vma_alloc v G)" unfolding s2_def by (rule adv_mono [OF adv_upd(2) [OF advD(2) [OF s1(4)]]]) simp
    moreover have "adv ?W s3 t (drop k ps) (taken Vma_alloc v G)" by (rule adv_mono [OF a4]) (use r T3 in simp)
    ultimately show ?thesis using a3 adv_trans by blast
  qed
  have vo: "vm_only s t"
  proof -
    have "vm_only s1 s2" by (simp add: s2_def vm_only_upd)
    then show ?thesis using s1(5) only_memory_vm_only [OF om3] only_memory_vm_only [OF t(2)] vm_only_trans by blast
  qed
  have gt: "good t root (drop k ps)" using t(3) apW advD(5) [OF a4] by (simp add: good_def t(5) T3)
  have en: "entry (mem t) root x = (if x = va then PA2PTE pa OR fl OR PTE_V else entry (mem s) root x)"
    if "PGALIGNED x" "IS_USER_VA x" for x
    using same_page_iff [OF va(1) that(1) va(2) that(2)] by (auto simp: t(4) e3)
  have sel: "mms t = mms s" "vmas t = (vmas s)(v := ?w)" "pte_flags (vmas s3 v) = fl"
    using only_memory_sel [OF om3] only_memory_sel [OF t(2)] s2 by simp_all
  have ld: "load64 (slot r (PX 0 va)) s3 = Inr (entry (mem s) root va)" using load_leaf [OF ok3 s3(4)] e3 by simp
  have "mm_mappagesat mm va pa fl False s = Inr (v, t)"
    using s1(1) s3(1) leaf_nonzero [OF ok3 s3(4)] ld inv t(1) sel(3)
    by (simp add: mm_mappagesat_def Let_def s2_def [symmetric])
  then show thesis using that s1(2,3) s3(3) a vo gt t(5) T3 en sel(1,2) by blast
qed

end
