(* ===== verification/Segments.thy ===== *)
theory Segments imports Loader VmCreate begin

text \<open>
  Giving a process an area with contents: what \<^verbatim>\<open>load_user_elf\<close> of \<^verbatim>\<open>os/loader.c\<close> does for each segment of a
  program and for its stack. A \<open>part\<close> is a range of user addresses with the permissions of its pages and
  the byte at every address.
\<close>

section \<open>A new area\<close>

abbreviation area_of :: "u64 \<Rightarrow> u64 \<Rightarrow> u64 \<Rightarrow> u64 \<Rightarrow> u64 \<Rightarrow> vma_struct" where
  "area_of mm rest lo hi fl \<equiv> \<lparr>vma_owner = mm, vma_next = rest, vm_start = lo, vm_end = hi, pte_flags = fl\<rparr>"

lemma vm_only_pool: "vm_only s t \<Longrightarrow> vm_only (s\<lparr>proc_pool := x\<rparr>) (t\<lparr>proc_pool := x\<rparr>)"
  by (cases s; cases t) (simp add: vm_only_def)

text \<open>The outcome: the area \<open>v\<close> is the first of the address space, its pages are \<open>pgs\<close>.\<close>

definition area_made ::
    "kst \<Rightarrow> u64 \<Rightarrow> u64 list \<Rightarrow> (alloc_id \<Rightarrow> u64 set) \<Rightarrow> u64 \<Rightarrow> u64 \<Rightarrow> u64 \<Rightarrow> u64 \<Rightarrow> u64 \<Rightarrow> nat \<Rightarrow> u64 list \<Rightarrow> kst \<Rightarrow> bool" where
  "area_made s root ps G mm lo hi fl v k pgs t \<longleftrightarrow>
     v \<in> G Vma_alloc \<and> v \<noteq> 0 \<and> k \<le> 3 * length (page_range lo hi) \<and>
     adv (tables (mem s) root \<union> set (take k ps)) s t (drop k ps) (taken Vma_alloc v G) \<and>
     good t root (drop k ps) \<and> distinct pgs \<and> set pgs \<subseteq> set (take k ps) \<and> set pgs \<inter> tables (mem t) root = {} \<and>
     tables (mem t) root \<subseteq> tables (mem s) root \<union> set (take k ps) \<and>
     map (page_of (mem t) root) (page_range lo hi) = pgs \<and>
     (\<forall>va. PGALIGNED va \<longrightarrow> IS_USER_VA va \<longrightarrow> entry (mem t) root va =
       (if va \<in> set (page_range lo hi) then leaf_pte (page_of (mem t) root va) fl else entry (mem s) root va)) \<and>
     mms t = (mms s)(mm := (mms s mm)\<lparr>mm_vma := v\<rparr>) \<and>
     vmas t = (vmas s)(v := area_of mm (mm_vma (mms s mm)) lo hi fl)"

lemma area_madeD:
  assumes "area_made s root ps G mm lo hi fl v k pgs t"
  shows "v \<in> G Vma_alloc" "v \<noteq> 0" "k \<le> 3 * length (page_range lo hi)"
    "adv (tables (mem s) root \<union> set (take k ps)) s t (drop k ps) (taken Vma_alloc v G)"
    "good t root (drop k ps)" "distinct pgs" "set pgs \<subseteq> set (take k ps)" "set pgs \<inter> tables (mem t) root = {}"
    "tables (mem t) root \<subseteq> tables (mem s) root \<union> set (take k ps)" "map (page_of (mem t) root) (page_range lo hi) = pgs"
    "PGALIGNED va \<Longrightarrow> IS_USER_VA va \<Longrightarrow> entry (mem t) root va =
       (if va \<in> set (page_range lo hi) then leaf_pte (page_of (mem t) root va) fl else entry (mem s) root va)"
    "mms t = (mms s)(mm := (mms s mm)\<lparr>mm_vma := v\<rparr>)"
    "vmas t = (vmas s)(v := area_of mm (mm_vma (mms s mm)) lo hi fl)"
  using assms unfolding area_made_def by blast+

lemma area_made_new:
  assumes w: "world s ps G" and g: "good s root ps" and root: "root = mm_pgt (mms s mm)" and ne: "G Vma_alloc \<noteq> {}"
    and fits: "vma_fits (area_of mm 0 lo hi fl)" and inv: "\<forall>va \<in> set (page_range lo hi). entry (mem s) root va AND PTE_V = 0"
    and len: "3 * length (page_range lo hi) \<le> length ps"
  obtains v s1 t k pgs where "mm_create_vma mm s = Inr (v, s1)" "vm_only s s1"
    "mm_mappages v (set_area v lo hi fl (s1\<lparr>proc_pool := pool v\<rparr>)) = Inr (0, t)"
    "vm_only (s\<lparr>proc_pool := pool v\<rparr>) t" "area_made s root ps G mm lo hi fl v k pgs t"
proof -
  let ?V = Vma_alloc and ?vs = "page_range lo hi"
  obtain v s0 where s0: "kalloc ?V s = Inr (v, s0)" "v \<in> G ?V" "v \<noteq> 0" "adv {} s s0 ps (taken ?V v G)" "vm_only s s0"
    "mms s0 = mms s" "vmas s0 = vmas s"
    by (rule world_kalloc [OF w ne])
  note g0 = adv_good [OF s0(4) g Int_empty_left subset_refl]
  define s1 where "s1 = upd_vma v (\<lambda>_. zero_vma\<lparr>vma_owner := mm\<rparr>) s0"
  define s2 where "s2 = set_area v lo hi fl (s1\<lparr>proc_pool := pool v\<rparr>)"
  let ?v = "vmas s2 v"
  have v: "?v = area_of mm 0 lo hi fl" by (simp add: s2_def set_area_def upd_vma_def s1_def zero_vma_def)
  have s2: "mem s2 = mem s0" "mms s2 = mms s" "vmas s2 = (vmas s)(v := area_of mm 0 lo hi fl)" "allocs s2 = allocs s0"
    and e2: "s2 = upd_vma v (\<lambda>_. area_of mm 0 lo hi fl) (s0\<lparr>proc_pool := pool v\<rparr>)"
    by (simp_all add: s2_def set_area_def upd_vma_def s1_def zero_vma_def s0(6,7))
  have a2: "adv {} s0 s2 ps (taken ?V v G)"
    unfolding e2 using adv_trans [OF adv_upd(3) adv_upd(2)] advD(2) [OF s0(4)] by simp
  note a02 = adv_trans [OF s0(4) a2]
  note w2 = advD(2) [OF a02] and g2 = adv_good [OF a02 g Int_empty_left subset_refl]
  have ok2: "vm_ok s2 (mm_pgt (mms s2 mm)) ps" using g2(1) root s2(2) by (simp add: good_def)
  have rt: "mm_pgt (mms s2 mm) = root" using root s2(2) by simp
  have own: "mm = vma_owner ?v" and ft: "vma_fits ?v" and pgs: "vma_pages ?v = ?vs" and fl: "pte_flags ?v = fl"
    using fits by (simp_all add: v vma_pages_def)
  have iv: "\<And>va. va \<in> set (vma_pages ?v) \<Longrightarrow> entry (mem s2) (mm_pgt (mms s2 mm)) va AND PTE_V = 0"
    unfolding pgs rt g2(2) using inv by blast
  obtain u k qs where u: "mm_mappages v s2 = Inr (0, link_vma mm v u)" "mapped_range s2 root ps ?vs fl qs k u"
    "k \<le> 3 * length ?vs"
    by (rule mm_mappages_eq [OF ok2 refl own ft iv]) (use len in \<open>auto simp: pgs fl rt\<close>)
  note mr = mapped_range_parts [OF u(2)]
  let ?W = "tables (mem s) root \<union> set (take k ps)"
  have T: "tables (mem u) root \<union> set qs = ?W" using mr(7) g2(3) by simp
  have fls: "fl < 1024" using fits by (simp add: vma_fits_def)
  have us: "\<forall>va \<in> set ?vs. IS_USER_VA va \<and> PGALIGNED va" using vma_pages_user [OF ft] by (simp add: pgs)
  have ds: "distinct ?vs" using distinct_vma_pages [OF ft] by (simp add: pgs)
  note mp = mapped_range_pages [OF g2(1) [unfolded good_def, THEN conjunct1] u(2) ds fls us]
  have tk: "set (take k ps) \<subseteq> set ps" by (rule set_take_subset)
  have apW: "apart s2 ?W"
    using g apart_mono [OF worldD(5) [OF w] tk] advD(5) [OF a02] by (simp add: good_def)
  have a3: "adv ?W s2 u (drop k ps) (taken ?V v G)"
  proof (rule world_write [OF w2 mr(1) _ _ apW vm_okD(6) [OF mr(2)] set_drop_subset])
    show "only_in ?W (mem s2) (mem u)" using mr(9) T by simp
    show "\<forall>x \<in> ?W. PGALIGNED x" using vm_okD(8) g worldD(12) [OF w] tk by (auto simp: good_def)
  qed
  define t where "t = link_vma mm v u"
  note sel = only_memory_sel [OF mr(1)]
  have a4: "adv {} u t (drop k ps) (taken ?V v G)"
    unfolding t_def link_vma_def using adv_trans [OF adv_upd(2) adv_upd(1)] advD(2) [OF a3] by simp
  have "adv ?W s s2 ps (taken ?V v G)" by (rule adv_mono [OF a02]) simp
  also have "adv ?W s2 u (drop k ps) (taken ?V v G)" by (rule a3)
  also have "adv ?W u t (drop k ps) (taken ?V v G)" by (rule adv_mono [OF a4]) simp
  finally have a: "adv ?W s t (drop k ps) (taken ?V v G)" .
  have mt: "mem t = mem u" "mms t = (mms s)(mm := (mms s mm)\<lparr>mm_vma := v\<rparr>)"
    "vmas t = (vmas s)(v := area_of mm (mm_vma (mms s mm)) lo hi fl)"
    by (simp_all add: t_def sel s2)
  have gt: "good t root (drop k ps)"
    unfolding good_def
  proof
    show "vm_ok t root (drop k ps)" using mr(2) by (simp add: t_def)
    show "apart t (tables (mem t) root)"
      using apart_mono [OF apW, of "tables (mem t) root"] T advD(5) [OF a3] advD(5) [OF a4] by (auto simp: mt(1))
  qed
  have en: "entry (mem t) root va = (if va \<in> set ?vs then leaf_pte (page_of (mem t) root va) fl else entry (mem s) root va)"
    if va: "PGALIGNED va" "IS_USER_VA va" for va
  proof (cases "va \<in> set ?vs")
    case True
    then obtain i where i: "i < length ?vs" "?vs ! i = va" by (auto simp: in_set_conv_nth)
    have "page_of (mem u) root va = qs ! i" using mp(1) i nth_map [OF i(1), of "page_of (mem u) root"] by simp
    then show ?thesis using mapped_range_nth [OF u(2) ds i(1)] i va True by (simp add: mt(1))
  next
    case False
    then have "map_of (zip ?vs qs) va = None" using mr(4) by (simp add: map_of_zip_is_None)
    then show ?thesis using mr(10) [OF va] False by (simp add: mt(1) g2(2))
  qed
  have vo: "vm_only (s\<lparr>proc_pool := pool v\<rparr>) t"
  proof -
    have "vm_only (s0\<lparr>proc_pool := pool v\<rparr>) s2" unfolding e2 by (rule vm_only_upd)
    from vm_only_trans [OF vm_only_pool [OF s0(5)] this] only_memory_vm_only [OF mr(1)] have "vm_only (s\<lparr>proc_pool := pool v\<rparr>) u"
      by (rule vm_only_trans)
    then show ?thesis unfolding t_def using vm_only_upd(3) by (rule vm_only_trans)
  qed
  have s01: "vm_only s s1" unfolding s1_def using s0(5) vm_only_upd(2) by (rule vm_only_trans)
  have run: "mm_create_vma mm s = Inr (v, s1)" using s0(1) by (simp add: mm_create_vma_def s1_def)
  have "area_made s root ps G mm lo hi fl v k qs t"
    unfolding area_made_def using s0(2,3) u(3) a gt mr(5,6,8) T mp(1) en mt by auto
  then show thesis using that [OF run s01 u(1) [unfolded s2_def, folded t_def [unfolded s2_def]]] vo u(1) by (simp add: t_def s2_def)
qed

section \<open>Filling a page\<close>

text \<open>The page \<open>q\<close> with \<open>n\<close> bytes from \<open>src\<close> on, and then zeros.\<close>

definition seg_page :: "mem \<Rightarrow> u64 \<Rightarrow> u64 \<Rightarrow> u64 \<Rightarrow> mem" where
  "seg_page m q src n = (\<lambda>x. if in_page q x then if x - q < n then m (src + (x - q)) else 0 else m x)"

text \<open>\<open>n\<close> bytes of the kernel at \<open>src\<close> that can be read and do not lie in the pages \<open>P\<close>.\<close>

definition src_ok :: "kst \<Rightarrow> u64 set \<Rightarrow> u64 \<Rightarrow> u64 \<Rightarrow> bool" where
  "src_ok s P src n \<longleftrightarrow> unat src + unat n < 2 ^ 64 \<and> (\<forall>d < n. kmap s (src + d) \<and> (\<forall>q \<in> P. \<not> in_page q (src + d)))"

lemma src_ok_shift:
  assumes "src_ok s P src n" and "k \<le> n"
  shows "src_ok s P (src + k) (n - k)"
proof -
  have k: "unat k \<le> unat n" "unat (n - k) = unat n - unat k" using assms(2) by (simp_all add: word_le_nat_alt unat_sub_le)
  then have "unat (src + k) = unat src + unat k" using assms(1) by (intro unat_add_no_wrap) (simp add: src_ok_def)
  moreover have "k + d < n" if "d < n - k" for d
  proof -
    have "unat k + unat d < unat n" using that k by (simp add: word_less_nat_alt)
    then show ?thesis using unat_add_no_wrap [of k d] unat_less_2p [of n] by (simp add: word_less_nat_alt)
  qed
  ultimately show ?thesis using assms(1) k by (simp add: src_ok_def add.assoc)
qed

lemma src_ok_mono: "src_ok s P src n \<Longrightarrow> Q \<subseteq> P \<Longrightarrow> k \<le> n \<Longrightarrow> src_ok s Q src k"
  unfolding src_ok_def by (auto simp: word_le_nat_alt word_less_nat_alt)

lemma src_ok_mapped: "src_ok s P src n \<Longrightarrow> k \<le> n \<Longrightarrow> mapped s src (unat k)"
  unfolding src_ok_def mapped_def
proof (intro allI impI)
  fix i assume a: "unat src + unat n < 2 ^ 64 \<and> (\<forall>d < n. kmap s (src + d) \<and> (\<forall>q \<in> P. \<not> in_page q (src + d)))" "k \<le> n" "i < unat k"
  have "i < 2 ^ 64" using a(3) unat_less_2p [of k] by simp
  then have "(of_nat i :: u64) < n" using a(2,3) by (simp add: word_less_nat_alt word_le_nat_alt unat_of_nat_small)
  with a(1) show "kmap s (src + of_nat i)" by blast
qed

lemma unat_page_part: "n \<le> PGSIZE \<Longrightarrow> unat (ucast n :: u32) = unat (n :: u64)"
  by (simp add: word_le_nat_alt PGSIZE_def unsigned_ucast_eq take_bit_nat_eq_self)

lemma rest_of_page:
  assumes "n \<le> PGSIZE"
  shows "unat (x - (q + n)) < 4096 - unat n \<longleftrightarrow> in_page q x \<and> n \<le> x - q"
proof -
  have n: "unat n \<le> 4096" using assms by (simp add: word_le_nat_alt PGSIZE_def)
  have e: "x - (q + n) = (x - q) - n" by simp
  show ?thesis
  proof (cases "n \<le> x - q")
    case True
    then have "unat (x - (q + n)) = unat (x - q) - unat n" unfolding e by (rule unat_sub_le)
    then show ?thesis using True n by (auto simp: in_page_def PGSIZE_def word_less_nat_alt word_le_nat_alt)
  next
    case False
    then have "unat (x - (q + n)) = 2 ^ 64 + unat (x - q) - unat n"
      unfolding e by (simp add: unat_sub_if_size word_size word_le_nat_alt)
    then show ?thesis using False n by simp
  qed
qed

lemma fill_step:
  assumes ok: "vm_ok s root ps" "root = mm_pgt (mms s mm)" and va: "IS_USER_VA va" "PGALIGNED va" "user_page s root va"
    and src: "src_ok s P (base + off) rem"
  shows "fill_segment_page mm base va ((off, rem), s) = Inr ((off + min rem PGSIZE, rem - min rem PGSIZE),
    s\<lparr>mem := seg_page (mem s) (page_of (mem s) root va) (base + off) (min rem PGSIZE)\<rparr>)"
proof -
  let ?q = "page_of (mem s) root va" and ?src = "base + off"
  define n where "n = min rem PGSIZE"
  have n: "n \<le> PGSIZE" "n \<le> rem" by (simp_all add: n_def)
  have nn: "unat n \<le> 4096" using n(1) by (simp add: word_le_nat_alt PGSIZE_def)
  note un = unat_page_part [OF n(1)]
  have mq: "managed s ?q" and al: "arena_ok s" using va(3) vm_okD(3) [OF ok(1)] by (simp_all add: user_page_def)
  have pm: "page_mapped s ?q" using al mq by (simp add: arena_ok_def)
  have sm: "unat (ucast (PGSIZE - n) :: u32) = 4096 - unat n"
    using unat_page_part [of "PGSIZE - n"] n(1) by (simp add: unat_sub_le word_le_nat_alt PGSIZE_def)
  have m0: "mapped s ?src (unat (ucast n :: u32))" using src_ok_mapped [OF src n(2)] by (simp add: un)
  have m1: "mapped s ?q (unat (ucast n :: u32))" using pm nn by (simp add: page_mapped_def mapped_def un)
  have m2: "mapped s (?q + n) (4096 - unat n)"
    unfolding mapped_def
  proof (intro allI impI)
    fix i assume i: "i < 4096 - unat n"
    have "unat n + i < 4096" using i by simp
    then have "kmap s (?q + of_nat (unat n + i))" using pm unfolding page_mapped_def mapped_def by blast
    then show "kmap s (?q + n + of_nat i)" by (simp add: add.assoc)
  qed
  have nw: "no_wrap ?src (ucast n)" "no_wrap ?q (ucast n)"
    using src n(2) managed_no_wrap [OF al mq] nn by (simp_all add: no_wrap_def un src_ok_def word_le_nat_alt)
  define m' where "m' = (\<lambda>x. if unat (x - ?q) < unat n then mem s (?src + (x - ?q)) else mem s x)"
  have r1: "k_memmove ?q ?src (ucast n) s = Inr (s\<lparr>mem := m'\<rparr>)"
    using m0 m1 by (simp add: k_memmove_def memmove_eq [OF nw] un m'_def)
  have part: "in_page ?q x" if "unat (x - ?q) < unat n" for x
    using that nn by (simp add: in_page_def PGSIZE_def word_less_nat_alt)
  have r2: "(if n < PGSIZE then k_memset (?q + n) 0 (ucast (PGSIZE - n)) (s\<lparr>mem := m'\<rparr>) else Inr (s\<lparr>mem := m'\<rparr>)) =
      Inr (s\<lparr>mem := seg_page (mem s) ?q ?src n\<rparr>)"
  proof (cases "n < PGSIZE")
    case True
    have "memset m' (?q + n) 0 (ucast (PGSIZE - n)) = seg_page (mem s) ?q ?src n"
      unfolding memset_eq sm rest_of_page [OF n(1)] using part
      by (auto simp: fun_eq_iff m'_def seg_page_def word_less_nat_alt word_le_nat_alt)
    moreover have "mapped (s\<lparr>mem := m'\<rparr>) (?q + n) (4096 - unat n)" using m2 by (simp add: mapped_def)
    ultimately show ?thesis using True by (simp add: k_memset_def sm)
  next
    case False
    then have "n = PGSIZE" using n(1) by simp
    then have "m' = seg_page (mem s) ?q ?src n"
      by (simp add: fun_eq_iff m'_def seg_page_def in_page_def word_less_nat_alt)
    then show ?thesis using False by simp
  qed
  have "walkaddr mm va s = Inr (user_pa (mem s) root va, s)" using walkaddr_eq [of s mm ps va] ok va(1,2) by simp
  then show ?thesis
    using r1 r2 user_page_pa [OF va(3)] unfolding fill_segment_page_def Let_def
    by (cases "n < PGSIZE") (simp_all add: n_def [symmetric])
qed

lemma seg_page_only: "only_in {q} m (seg_page m q src n)"
  by (simp add: only_in_def seg_page_def)

text \<open>What filling a page leaves of the address space.\<close>

lemma page_filled:
  assumes ok: "vm_ok s root ps" and q: "PGALIGNED q" "q \<notin> tables (mem s) root \<union> set ps" and oi: "only_in {q} (mem s) m"
  shows "vm_ok (s\<lparr>mem := m\<rparr>) root ps" "entry m root = entry (mem s) root" "tables m root = tables (mem s) root"
    "page_of m root = page_of (mem s) root" "user_page (s\<lparr>mem := m\<rparr>) root va = user_page s root va"
proof -
  have om: "only_memory s (s\<lparr>mem := m\<rparr>)" and oi': "only_in {q} (mem s) (mem (s\<lparr>mem := m\<rparr>))"
    and al: "\<forall>t \<in> {q}. PGALIGNED t" and d: "{q} \<inter> set ps = {}" "{q} \<inter> tables (mem s) root = {}"
    using q oi by (simp_all add: only_memory_def)
  note t = vm_ok_only_in [OF ok oi' al d om]
  show "vm_ok (s\<lparr>mem := m\<rparr>) root ps" by (rule t(1)) simp
  show e: "entry m root = entry (mem s) root" "tables m root = tables (mem s) root" using t(2,3) by (simp_all add: fun_eq_iff)
  show p: "page_of m root = page_of (mem s) root" by (simp add: fun_eq_iff page_of_def e)
  show "user_page (s\<lparr>mem := m\<rparr>) root va = user_page s root va" by (simp add: user_page_def e p managed_def)
qed

section \<open>Filling a range\<close>

text \<open>The byte at the distance \<open>d\<close> from the start of the range.\<close>

definition file_byte :: "mem \<Rightarrow> u64 \<Rightarrow> u64 \<Rightarrow> u64 \<Rightarrow> u8" where
  "file_byte m src n d = (if d < n then m (src + d) else 0)"

lemma min_steps:
  assumes "PGSIZE \<le> d"
  shows "min n PGSIZE + min (n - min n PGSIZE) (d - PGSIZE) = min n (d :: u64)"
proof -
  have d: "unat (d - PGSIZE) = unat d - 4096" "4096 \<le> unat d"
    using assms by (simp_all add: unat_sub_le word_le_nat_alt)
  have m: "unat (min a b) = min (unat a) (unat b)" for a b :: u64 by (simp add: min_def word_le_nat_alt)
  have "unat (n - min n PGSIZE) = unat n - min (unat n) 4096" by (simp add: unat_sub_le m)
  then have "unat (min n PGSIZE + min (n - min n PGSIZE) (d - PGSIZE)) =
      min (unat n) 4096 + min (unat n - min (unat n) 4096) (unat d - 4096)"
    using unat_less_2p [of n] by (subst unat_add_no_wrap) (simp_all add: m d)
  also have "\<dots> = min (unat n) (unat d)" using d(2) by linarith
  finally show ?thesis by (intro unat_inj) (simp add: m)
qed

text \<open>Past the first page.\<close>

lemma file_byte_next:
  assumes "PGSIZE \<le> d" and "\<And>e. e < n \<Longrightarrow> m1 (src + e) = m (src + e)"
  shows "file_byte m1 (src + min n PGSIZE) (n - min n PGSIZE) (d - PGSIZE) = file_byte m src n d"
proof (cases "n \<le> PGSIZE")
  case True
  then have "\<not> d < n" using assms(1) by (meson leD order.trans)
  then show ?thesis using True by (simp add: file_byte_def min_absorb1)
next
  case False
  then have n: "min n PGSIZE = PGSIZE" "PGSIZE \<le> n" by simp_all
  then have "d - PGSIZE < n - PGSIZE \<longleftrightarrow> d < n"
    using assms(1) by (simp add: word_less_nat_alt word_le_nat_alt unat_sub_le) linarith
  then show ?thesis using assms(2) n(1) by (simp add: file_byte_def)
qed

lemma fill_loop:
  assumes "PGALIGNED lo" and "PGALIGNED hi" and "lo \<le> hi" and "vm_ok s root ps" and "root = mm_pgt (mms s mm)"
    and "\<forall>va \<in> set (page_range lo hi). IS_USER_VA va \<and> user_page s root va \<and>
      page_of (mem s) root va \<notin> tables (mem s) root \<union> set ps"
    and "inj_on (page_of (mem s) root) (set (page_range lo hi))"
    and "src_ok s (page_of (mem s) root ` set (page_range lo hi)) (base + off) rem"
  shows "\<exists>m'. kfold (fill_segment_page mm base) (page_range lo hi) ((off, rem), s) =
      Inr ((off + min rem (hi - lo), rem - min rem (hi - lo)), s\<lparr>mem := m'\<rparr>) \<and>
    only_in (page_of (mem s) root ` set (page_range lo hi)) (mem s) m' \<and>
    (\<forall>va \<in> set (page_range lo hi). \<forall>x. in_page (page_of (mem s) root va) x \<longrightarrow>
       m' x = file_byte (mem s) (base + off) rem (va - lo + (x - page_of (mem s) root va)))"
  using assms
proof (induction arbitrary: s off rem rule: page_range_induct)
  case (stop lo)
  then have "hi = lo" by simp
  then show ?case by (simp add: exI [of _ "mem s"])
next
  case (step lo)
  note st = page_step_no_wrap [OF step(2) assms(2) step(1)] and rg = page_range_step [OF step(2) assms(2) step(1)]
  define q where "q = page_of (mem s) root"
  let ?vs = "page_range (lo + PGSIZE) hi" and ?n = "min rem PGSIZE" and ?src = "base + off"
  have lo: "IS_USER_VA lo" "user_page s root lo" "q lo \<notin> tables (mem s) root \<union> set ps"
    and vs: "\<forall>va \<in> set ?vs. IS_USER_VA va \<and> user_page s root va \<and> q va \<notin> tables (mem s) root \<union> set ps"
    using step.prems(4) unfolding rg q_def by auto
  have inj: "inj_on q (set ?vs)" "q lo \<notin> q ` set ?vs"
    using step.prems(5) distinct_page_range [OF step(2) assms(2)] unfolding rg q_def by auto
  define m1 where "m1 = seg_page (mem s) (q lo) ?src ?n"
  note run = fill_step [OF step.prems(2,3) lo(1) step(2) lo(2) step.prems(6), folded q_def, folded m1_def]
  have oi: "only_in {q lo} (mem s) m1" unfolding m1_def by (rule seg_page_only)
  have aq: "PGALIGNED (q va)" for va by (simp add: q_def)
  note pf = page_filled [OF step.prems(2) aq lo(3) oi, folded q_def]
  define s1 where "s1 = s\<lparr>mem := m1\<rparr>"
  have s1: "mem s1 = m1" "mms s1 = mms s" by (simp_all add: s1_def)
  have src: "m1 (?src + e) = mem s (?src + e)" if "e < rem" for e
  proof -
    have "\<not> in_page (q lo) (?src + e)" using step.prems(6) that unfolding src_ok_def rg q_def by simp
    then show ?thesis by (simp add: m1_def seg_page_def)
  qed
  have so: "src_ok s1 (q ` set ?vs) (base + (off + ?n)) (rem - ?n)"
  proof -
    have "src_ok s (q ` set ?vs) (?src + ?n) (rem - ?n)"
      by (rule src_ok_shift [OF src_ok_mono [OF step.prems(6)]]) (auto simp: rg q_def)
    then show ?thesis by (simp add: src_ok_def s1_def add.assoc)
  qed
  have "PGALIGNED (lo + PGSIZE)" by (rule PGALIGNED_step [OF step(2)])
  have up: "user_page s1 root va = user_page s root va" for va unfolding s1_def by (rule pf(5))
  have "\<exists>m'. kfold (fill_segment_page mm base) ?vs ((off + ?n, rem - ?n), s1) =
      Inr ((off + ?n + min (rem - ?n) (hi - (lo + PGSIZE)), rem - ?n - min (rem - ?n) (hi - (lo + PGSIZE))), s1\<lparr>mem := m'\<rparr>) \<and>
    only_in (page_of (mem s1) root ` set ?vs) (mem s1) m' \<and>
    (\<forall>va \<in> set ?vs. \<forall>x. in_page (page_of (mem s1) root va) x \<longrightarrow>
       m' x = file_byte (mem s1) (base + (off + ?n)) (rem - ?n) (va - (lo + PGSIZE) + (x - page_of (mem s1) root va)))"
  proof (rule step.IH)
    show "vm_ok s1 root ps" unfolding s1_def by (rule pf(1))
    show "root = mm_pgt (mms s1 mm)" using step.prems(3) by (simp add: s1(2))
  qed (use step(3) vs inj(1) so up in \<open>simp_all add: s1(1) pf(3,4)\<close>)
  then obtain m2 where
    m2: "kfold (fill_segment_page mm base) ?vs ((off + ?n, rem - ?n), s1) =
      Inr ((off + ?n + min (rem - ?n) (hi - (lo + PGSIZE)), rem - ?n - min (rem - ?n) (hi - (lo + PGSIZE))), s1\<lparr>mem := m2\<rparr>)"
    "only_in (q ` set ?vs) m1 m2"
    "\<forall>va \<in> set ?vs. \<forall>x. in_page (q va) x \<longrightarrow> m2 x = file_byte m1 (base + (off + ?n)) (rem - ?n) (va - (lo + PGSIZE) + (x - q va))"
    unfolding s1(1) pf(4) by blast
  have d: "PGSIZE \<le> hi - lo"
    using st step(1) by (simp add: word_le_nat_alt unat_sub_le order.strict_implies_order)
  have sum: "off + ?n + min (rem - ?n) (hi - (lo + PGSIZE)) = off + min rem (hi - lo)"
    "rem - ?n - min (rem - ?n) (hi - (lo + PGSIZE)) = rem - min rem (hi - lo)"
    using min_steps [OF d, of rem] by (simp_all add: algebra_simps)
  have "kfold (fill_segment_page mm base) (page_range lo hi) ((off, rem), s) =
      Inr ((off + min rem (hi - lo), rem - min rem (hi - lo)), s\<lparr>mem := m2\<rparr>)"
    unfolding rg using run m2(1) by (simp add: s1_def sum)
  moreover have "only_in (q ` set (page_range lo hi)) (mem s) m2"
    unfolding rg by (rule only_in_trans [OF oi m2(2)]) auto
  moreover have "m2 x = file_byte (mem s) ?src rem (va - lo + (x - q va))"
    if va: "va \<in> set (page_range lo hi)" and x: "in_page (q va) x" for va x
  proof (cases "va = lo")
    case True
    have "same_on {q lo} m1 m2" by (rule only_in_same_on [OF m2(2)]) (use aq inj(2) in auto)
    then have "m2 x = m1 x" using x True by (simp add: same_on_def)
    then show ?thesis
      using x True by (simp add: m1_def seg_page_def file_byte_def in_page_def)
  next
    case False
    then have v: "va \<in> set ?vs" using va by (simp add: rg)
    then have le: "PGALIGNED va" "lo + PGSIZE \<le> va"
      using set_page_range [OF PGALIGNED_step [OF step(2)] assms(2)] by auto
    have "unat (va - lo) = unat va - unat lo" "4096 \<le> unat va - unat lo"
      using le(2) st(1) by (simp_all add: word_le_nat_alt unat_sub_le)
    moreover have "unat (x - q va) < 4096" "unat va + 4096 \<le> 2 ^ 64"
      using x PGALIGNED_room [OF le(1)] by (simp_all add: in_page_def PGSIZE_def word_less_nat_alt)
    ultimately have "PGSIZE \<le> va - lo + (x - q va)" by (simp add: word_le_nat_alt unat_add_no_wrap)
    from file_byte_next [OF this, of rem m1 ?src "mem s"] src
    have "file_byte m1 (?src + ?n) (rem - ?n) (va - lo + (x - q va) - PGSIZE) = file_byte (mem s) ?src rem (va - lo + (x - q va))"
      by blast
    moreover have "va - (lo + PGSIZE) + (x - q va) = va - lo + (x - q va) - PGSIZE" by simp
    moreover have "m2 x = file_byte m1 (base + (off + ?n)) (rem - ?n) (va - (lo + PGSIZE) + (x - q va))" using m2(3) v x by blast
    ultimately show ?thesis by (simp only: add.assoc)
  qed
  ultimately show ?case unfolding q_def by blast
qed

end
