(* ===== verification/Program.thy ===== *)
theory Program imports Segments begin

text \<open>
  The parts of a process's address space while a program is loaded into it, one for each area: each page of a
  part is a page of its own, with the permissions and the contents of the part.
\<close>

section \<open>Parts\<close>

type_synonym part = "u64 \<times> u64 \<times> u64 \<times> (u64 \<Rightarrow> u8)"

definition part_pages :: "part \<Rightarrow> u64 list" where
  "part_pages = (\<lambda>(lo, hi, fl, c). page_range lo hi)"

definition part_page :: "kst \<Rightarrow> u64 \<Rightarrow> u64 list \<Rightarrow> u64 \<Rightarrow> (u64 \<Rightarrow> u8) \<Rightarrow> u64 \<Rightarrow> bool" where
  "part_page s root ps fl c va \<longleftrightarrow>
     (let q = page_of (mem s) root va in
      entry (mem s) root va = leaf_pte q fl \<and> managed s q \<and> q \<notin> tables (mem s) root \<union> set ps \<and> apart s {q} \<and>
      (\<forall>x. in_page q x \<longrightarrow> mem s x = c (va + (x - q))))"

definition part_loaded :: "kst \<Rightarrow> u64 \<Rightarrow> u64 list \<Rightarrow> part \<Rightarrow> bool" where
  "part_loaded s root ps = (\<lambda>(lo, hi, fl, c). \<forall>va \<in> set (page_range lo hi). IS_USER_VA va \<and> PGALIGNED va \<and> part_page s root ps fl c va)"

abbreviation all_pages :: "part list \<Rightarrow> u64 list" where
  "all_pages parts \<equiv> concat (map part_pages parts)"

definition space_holds :: "kst \<Rightarrow> u64 \<Rightarrow> u64 list \<Rightarrow> part list \<Rightarrow> bool" where
  "space_holds s root ps parts \<longleftrightarrow>
     (\<forall>part \<in> set parts. part_loaded s root ps part) \<and> inj_on (page_of (mem s) root) (set (all_pages parts))"

lemma part_loadedD:
  assumes "part_loaded s root ps part" and "va \<in> set (part_pages part)"
  shows "IS_USER_VA va" "PGALIGNED va" "entry (mem s) root va = leaf_pte (page_of (mem s) root va) (fst (snd (snd part)))"
    "managed s (page_of (mem s) root va)" "page_of (mem s) root va \<notin> tables (mem s) root \<union> set ps"
    "apart s {page_of (mem s) root va}"
    "in_page (page_of (mem s) root va) x \<Longrightarrow> mem s x = snd (snd (snd part)) (va + (x - page_of (mem s) root va))"
  using assms by (cases part; auto simp: part_loaded_def part_pages_def part_page_def Let_def)+

lemma space_holds_page:
  assumes "space_holds s root ps parts" and "va \<in> set (all_pages parts)"
  obtains part where "part \<in> set parts" "va \<in> set (part_pages part)" "part_loaded s root ps part"
  using assms by (auto simp: space_holds_def)

text \<open>A step that only takes pages and leaves the entries of the parts.\<close>

definition within :: "kst \<Rightarrow> kst \<Rightarrow> u64 \<Rightarrow> u64 list \<Rightarrow> u64 list \<Rightarrow> bool" where
  "within s t root ps qs \<longleftrightarrow> tables (mem t) root \<union> set qs \<subseteq> tables (mem s) root \<union> set ps"

lemma part_kept:
  assumes a: "adv W s t qs H" and W: "W \<inter> page_of (mem s) root ` set (part_pages part) = {}" and in_ps: "within s t root ps qs"
    and p: "part_loaded s root ps part"
    and en: "\<And>va. va \<in> set (part_pages part) \<Longrightarrow> entry (mem t) root va = entry (mem s) root va"
  shows "part_loaded t root qs part"
proof -
  obtain lo hi fl c where part: "part = (lo, hi, fl, c)" by (cases part) auto
  have "part_page t root qs fl c va" if "va \<in> set (page_range lo hi)" for va
  proof -
    have va: "va \<in> set (part_pages part)" using that by (simp add: part part_pages_def)
    note d = part_loadedD [OF p va]
    let ?q = "page_of (mem s) root va"
    have q: "page_of (mem t) root va = ?q" by (simp add: page_of_def en [OF va])
    have "same_on {?q} (mem s) (mem t)"
      by (rule keptD [OF advD(3) [OF a]]) (use d(6) W va in auto)
    then have "\<forall>x. in_page ?q x \<longrightarrow> mem t x = c (va + (x - ?q))" using d(7) by (simp add: same_on_def part)
    moreover have "?q \<notin> tables (mem t) root \<union> set qs" using d(5) in_ps by (auto simp: within_def)
    ultimately show ?thesis
      using d(3,4,6) same_layoutD(1) [OF advD(4) [OF a]] advD(5) [OF a, of "{?q}"] en [OF va]
      by (simp add: part_page_def q part)
  qed
  then show ?thesis using p by (simp add: part_loaded_def part)
qed

lemma space_holds_kept:
  assumes a: "adv W s t qs H" and W: "W \<inter> page_of (mem s) root ` set (all_pages parts) = {}" and in_ps: "within s t root ps qs"
    and p: "space_holds s root ps parts"
    and en: "\<And>va. va \<in> set (all_pages parts) \<Longrightarrow> entry (mem t) root va = entry (mem s) root va"
  shows "space_holds t root qs parts" "va \<in> set (all_pages parts) \<Longrightarrow> page_of (mem t) root va = page_of (mem s) root va"
proof -
  show pg: "page_of (mem t) root va = page_of (mem s) root va" if "va \<in> set (all_pages parts)" for va
    using en [OF that] by (simp add: page_of_def)
  have "part_loaded t root qs part" if "part \<in> set parts" for part
    by (rule part_kept [OF a _ in_ps]) (use p W en that in \<open>auto simp: space_holds_def\<close>)
  moreover have "inj_on (page_of (mem t) root) (set (all_pages parts))" using p pg by (simp add: space_holds_def inj_on_def)
  ultimately show "space_holds t root qs parts" by (simp add: space_holds_def)
qed

lemma space_holds_apart: "space_holds s root ps parts \<Longrightarrow> (tables (mem s) root \<union> set ps) \<inter> page_of (mem s) root ` set (all_pages parts) = {}"
  using part_loadedD(5) by (fastforce simp: space_holds_def)

section \<open>The program's file\<close>

text \<open>
  The pages \<open>E\<close> of the kernel's own data with the files of the programs, and \<open>n\<close> bytes at \<open>a\<close> in them.
\<close>

definition image_in :: "kst \<Rightarrow> u64 \<Rightarrow> u64 list \<Rightarrow> u64 set \<Rightarrow> bool" where
  "image_in s root ps E \<longleftrightarrow> (\<forall>e \<in> E. PGALIGNED e \<and> page_mapped s e) \<and> E \<inter> (tables (mem s) root \<union> set ps) = {} \<and> apart s E"

definition file_at :: "u64 set \<Rightarrow> u64 \<Rightarrow> u64 \<Rightarrow> bool" where
  "file_at E a n \<longleftrightarrow> unat a + unat n < 2 ^ 64 \<and> (\<forall>d < n. PGROUNDDOWN (a + d) \<in> E)"

lemma image_kept:
  assumes im: "image_in s root ps E" and a: "adv W s t qs H" and W: "W \<subseteq> tables (mem s) root \<union> set ps" and in_ps: "within s t root ps qs"
  shows "image_in t root qs E" "same_on E (mem s) (mem t)"
proof -
  show "image_in t root qs E"
    using im in_ps same_layoutD(2) [OF advD(4) [OF a]] advD(5) [OF a, of E] by (auto simp: image_in_def within_def)
  show "same_on E (mem s) (mem t)" by (rule keptD [OF advD(3) [OF a]]) (use im W in \<open>auto simp: image_in_def\<close>)
qed

lemma file_byte_kept:
  assumes "same_on E (mem s) (mem t)" and "file_at E a n" and "d < n"
  shows "mem t (a + d) = mem s (a + d)"
proof -
  have "in_page (PGROUNDDOWN (a + d)) (a + d)" by (simp add: in_page_PGROUNDDOWN)
  then show ?thesis using assms by (auto simp: same_on_def file_at_def)
qed

lemma file_src:
  assumes "image_in s root ps E" and "file_at E a n" and "Q \<subseteq> set ps" and "\<forall>q \<in> Q. PGALIGNED q"
  shows "src_ok s Q a n"
proof -
  have "kmap s (a + d) \<and> (\<forall>q \<in> Q. \<not> in_page q (a + d))" if "d < n" for d
  proof -
    have e: "PGROUNDDOWN (a + d) \<in> E" using assms(2) that by (simp add: file_at_def)
    then have "page_mapped s (PGROUNDDOWN (a + d))" "PGROUNDDOWN (a + d) \<notin> Q" using assms(1,3) by (auto simp: image_in_def)
    moreover have "in_page (PGROUNDDOWN (a + d)) (a + d)" by (simp add: in_page_PGROUNDDOWN)
    moreover have "in_page q (a + d) \<longleftrightarrow> PGROUNDDOWN (a + d) = q" if "q \<in> Q" for q
      using in_page_PGROUNDDOWN [of q "a + d"] assms(4) that by blast
    ultimately show ?thesis by (auto simp: page_mapped_iff)
  qed
  then show ?thesis using assms(2) by (simp add: src_ok_def file_at_def)
qed

section \<open>An area with contents\<close>

text \<open>One area more, as the first of the list, and nothing else.\<close>

definition extended ::
    "kst \<Rightarrow> u64 \<Rightarrow> u64 list \<Rightarrow> (alloc_id \<Rightarrow> u64 set) \<Rightarrow> part \<Rightarrow> u64 \<Rightarrow> kst \<Rightarrow> u64 list \<Rightarrow> bool" where
  "extended s mm ps G part v u qs \<longleftrightarrow>
     (let root = mm_pgt (mms s mm) in
      v \<in> G Vma_alloc \<and> v \<noteq> 0 \<and> adv (tables (mem s) root \<union> set ps) s u qs (taken Vma_alloc v G) \<and> good u root qs \<and>
      within s u root ps qs \<and> length ps \<le> length qs + 3 * length (part_pages part) \<and>
      (\<forall>va. PGALIGNED va \<longrightarrow> IS_USER_VA va \<longrightarrow> va \<notin> set (part_pages part) \<longrightarrow> entry (mem u) root va = entry (mem s) root va) \<and>
      part_loaded u root qs part \<and> inj_on (page_of (mem u) root) (set (part_pages part)) \<and>
      page_of (mem u) root ` set (part_pages part) \<subseteq> set ps \<and>
      mms u = (mms s)(mm := (mms s mm)\<lparr>mm_vma := v\<rparr>) \<and>
      vmas u = (vmas s)(v := area_of mm (mm_vma (mms s mm)) (fst part) (fst (snd part)) (fst (snd (snd part)))))"

lemma area_filled:
  assumes w: "world s ps G" and g: "good s root ps" and root: "root = mm_pgt (mms s mm)" and ne: "G Vma_alloc \<noteq> {}"
    and fits: "vma_fits (area_of mm 0 lo hi fl)" and U: "fl AND PTE_U \<noteq> 0" and ord: "lo \<le> hi"
    and inv: "\<forall>va \<in> set (page_range lo hi). entry (mem s) root va AND PTE_V = 0"
    and len: "3 * length (page_range lo hi) \<le> length ps" and im: "image_in s root ps E" "file_at E base n"
  obtains v s1 t m qs where "mm_create_vma mm s = Inr (v, s1)" "vm_only s s1"
    "mm_mappages v (set_area v lo hi fl (s1\<lparr>proc_pool := pool v\<rparr>)) = Inr (0, t)"
    "kfold (fill_segment_page mm base) (page_range lo hi) ((0, n), t) = Inr ((min n (hi - lo), n - min n (hi - lo)), t\<lparr>mem := m\<rparr>)"
    "vm_only (s\<lparr>proc_pool := pool v\<rparr>) (t\<lparr>mem := m\<rparr>)"
    "extended s mm ps G (lo, hi, fl, \<lambda>a. file_byte (mem s) base n (a - lo)) v (t\<lparr>mem := m\<rparr>) qs"
proof -
  let ?vs = "page_range lo hi" and ?c = "\<lambda>a. file_byte (mem s) base n (a - lo)" and ?W = "tables (mem s) root \<union> set ps"
  obtain v s1 t k pgs where a: "mm_create_vma mm s = Inr (v, s1)" "vm_only s s1"
    "mm_mappages v (set_area v lo hi fl (s1\<lparr>proc_pool := pool v\<rparr>)) = Inr (0, t)"
    "vm_only (s\<lparr>proc_pool := pool v\<rparr>) t" and am: "area_made s root ps G mm lo hi fl v k pgs t"
    by (rule area_made_new [OF w g root ne fits inv len])
  note d = area_madeD [OF am] and wt = worldD [OF advD(2) [OF area_madeD(4) [OF am]]]
  define H where "H = taken Vma_alloc v G"
  define q where "q = page_of (mem t) root"
  have ran: "PGALIGNED lo" "PGALIGNED hi" and us: "\<forall>va \<in> set ?vs. IS_USER_VA va \<and> PGALIGNED va"
    using fits vma_pages_user [OF fits] by (simp_all add: vma_fits_def vma_pages_def)
  have ok: "vm_ok t root (drop k ps)" using d(5) by (simp add: good_def)
  have rt: "root = mm_pgt (mms t mm)" using root by (simp add: d(12))
  have nd: "set (take k ps) \<inter> set (drop k ps) = {}" using worldD(10) [OF w] by (simp add: set_take_disj_set_drop_if_distinct)
  have pgs: "q ` set ?vs = set pgs" using d(10) by (simp only: q_def set_map [symmetric])
  have inj: "inj_on q (set ?vs)" using d(6,10) by (metis distinct_map q_def)
  have sub: "set pgs \<subseteq> set ps" using d(7) set_take_subset [of k ps] by blast
  have page: "managed t (q va)" "q va \<notin> tables (mem t) root \<union> set (drop k ps)" "apart t {q va}" "entry (mem t) root va = leaf_pte (q va) fl"
    if "va \<in> set ?vs" for va
  proof -
    have v: "q va \<in> set pgs" using that pgs by blast
    then show "managed t (q va)" using worldD(11) [OF w] sub same_layoutD(1) [OF advD(4) [OF d(4)]] by blast
    show "q va \<notin> tables (mem t) root \<union> set (drop k ps)" using v d(7,8) nd by blast
    show "apart t {q va}" using apart_mono [OF worldD(5) [OF w], of "{q va}"] v sub advD(5) [OF d(4)] by auto
    show "entry (mem t) root va = leaf_pte (q va) fl" using d(11) us that by (simp add: q_def)
  qed
  have up: "user_page t root va" if "va \<in> set ?vs" for va
    using page [OF that] leaf_pte_user [OF U] leaf_pte_valid by (simp add: user_page_def q_def)
  have win: "within s t root ps (drop k ps)" using d(9) set_take_subset [of k ps] set_drop_subset [of k ps] by (auto simp: within_def)
  have a1: "adv ?W s t (drop k ps) H" unfolding H_def by (rule adv_mono [OF d(4)]) (use set_take_subset [of k ps] in blast)
  note ik = image_kept [OF im(1) a1 subset_refl win]
  have so: "src_ok t (q ` set ?vs) base n"
  proof -
    have "src_ok s (set pgs) base n" by (rule file_src [OF im sub]) (use sub worldD(12) [OF w] in blast)
    moreover have "kmap t = kmap s" using vm_only_sel(1) [OF a(4)] by simp
    ultimately show ?thesis by (simp add: src_ok_def pgs)
  qed
  have "\<exists>m. kfold (fill_segment_page mm base) ?vs ((0, n), t) = Inr ((0 + min n (hi - lo), n - min n (hi - lo)), t\<lparr>mem := m\<rparr>) \<and>
    only_in (page_of (mem t) root ` set ?vs) (mem t) m \<and>
    (\<forall>va \<in> set ?vs. \<forall>x. in_page (page_of (mem t) root va) x \<longrightarrow>
       m x = file_byte (mem t) (base + 0) n (va - lo + (x - page_of (mem t) root va)))"
    by (rule fill_loop [OF ran ord ok rt]) (use us up page inj so in \<open>simp_all add: q_def\<close>)
  then obtain m where m: "kfold (fill_segment_page mm base) ?vs ((0, n), t) = Inr ((min n (hi - lo), n - min n (hi - lo)), t\<lparr>mem := m\<rparr>)"
    "only_in (set pgs) (mem t) m" "\<forall>va \<in> set ?vs. \<forall>x. in_page (q va) x \<longrightarrow> m x = file_byte (mem t) base n (va - lo + (x - q va))"
    unfolding q_def [symmetric] pgs by auto
  have fb: "file_byte (mem t) base n e = file_byte (mem s) base n e" for e
    using file_byte_kept [OF ik(2) im(2)] by (simp add: file_byte_def)
  define u where "u = t\<lparr>mem := m\<rparr>"
  have ap: "apart t (set pgs)" using apart_mono [OF worldD(5) [OF w] sub] advD(5) [OF d(4)] by simp
  have a2: "adv (set pgs) t u (drop k ps) H"
    unfolding u_def H_def by (rule world_store [OF advD(2) [OF d(4)] m(2) _ ap]) (use sub worldD(12) [OF w] d(7) nd in blast)+
  note g2 = adv_good [OF a2 d(5) _ subset_refl]
  have dj: "set pgs \<inter> tables (mem t) root = {}" by (rule d(8))
  have e: "entry (mem u) root = entry (mem t) root" "tables (mem u) root = tables (mem t) root" "page_of (mem u) root = q"
    using g2(2,3) [OF dj] by (simp_all add: fun_eq_iff page_of_def q_def)
  have adv: "adv ?W s u (drop k ps) H"
  proof -
    have "adv ?W t u (drop k ps) H" by (rule adv_mono [OF a2]) (use sub in blast)
    with a1 show ?thesis by (rule adv_trans)
  qed
  have pl: "part_loaded u root (drop k ps) (lo, hi, fl, ?c)"
    unfolding part_loaded_def
  proof (intro case_prodI ballI conjI)
    fix va assume va: "va \<in> set ?vs"
    show "IS_USER_VA va" "PGALIGNED va" using us va by simp_all
    have "va + (x - q va) - lo = va - lo + (x - q va)" for x by simp
    then have "\<forall>x. in_page (q va) x \<longrightarrow> mem u x = ?c (va + (x - q va))"
      using m(3) va by (simp only: u_def fb kst.select_convs kst.update_convs) (simp add: u_def fb)
    then show "part_page u root (drop k ps) fl ?c va"
      using page [OF va] same_layoutD(1) [OF advD(4) [OF a2]] advD(5) [OF a2] by (simp add: part_page_def e)
  qed
  have ext: "extended s mm ps G (lo, hi, fl, ?c) v u (drop k ps)"
    unfolding extended_def Let_def root [symmetric]
  proof (intro conjI allI impI)
    show "v \<in> G Vma_alloc" "v \<noteq> 0" by (rule d(1), rule d(2))
    show "adv ?W s u (drop k ps) (taken Vma_alloc v G)" using adv by (simp add: H_def)
    show "good u root (drop k ps)" by (rule g2(1) [OF dj])
    show "within s u root ps (drop k ps)" using win by (simp add: within_def e)
    show "length ps \<le> length (drop k ps) + 3 * length (part_pages (lo, hi, fl, ?c))" using d(3) by (simp add: part_pages_def)
    show "entry (mem u) root va = entry (mem s) root va"
      if "PGALIGNED va" "IS_USER_VA va" "va \<notin> set (part_pages (lo, hi, fl, ?c))" for va
      using d(11) [OF that(1,2)] that(3) by (simp add: part_pages_def e)
    show "part_loaded u root (drop k ps) (lo, hi, fl, ?c)" by (rule pl)
    show "inj_on (page_of (mem u) root) (set (part_pages (lo, hi, fl, ?c)))" using inj by (simp add: part_pages_def e)
    show "page_of (mem u) root ` set (part_pages (lo, hi, fl, ?c)) \<subseteq> set ps" using pgs sub by (simp add: part_pages_def e)
  qed (use d(12,13) in \<open>simp_all add: u_def\<close>)
  have "vm_only t u" by (simp add: u_def vm_only_def)
  then have "vm_only (s\<lparr>proc_pool := pool v\<rparr>) u" using a(4) vm_only_trans by blast
  then show thesis using that [OF a(1-3) m(1)] ext by (simp add: u_def)
qed

section \<open>Stages\<close>

definition part_area :: "u64 \<Rightarrow> part \<Rightarrow> vma_struct \<Rightarrow> bool" where
  "part_area mm part v \<longleftrightarrow> vma_owner v = mm \<and> vm_start v = fst part \<and> vm_end v = fst (snd part) \<and> pte_flags v = fst (snd (snd part))"

text \<open>
  The address space \<open>mm\<close> with the areas \<open>parts\<close>, the last one first, and nothing else below the stack; its pages
  and tables, and the free pages \<open>ps\<close>, are among \<open>P\<close>, and the pages \<open>E\<close> of the kernel's data are not.
\<close>

definition stage ::
    "kst \<Rightarrow> u64 \<Rightarrow> u64 set \<Rightarrow> u64 list \<Rightarrow> (alloc_id \<Rightarrow> u64 set) \<Rightarrow> u64 set \<Rightarrow> part list \<Rightarrow> bool" where
  "stage s mm P ps G E parts \<longleftrightarrow>
     (let root = mm_pgt (mms s mm) in
      world s ps G \<and> good s root ps \<and> space_holds s root ps parts \<and> image_in s root ps E \<and> E \<inter> P = {} \<and>
      tables (mem s) root \<union> set ps \<union> page_of (mem s) root ` set (all_pages parts) \<subseteq> P \<and>
      (\<exists>xs. vma_chain (vmas s) (mm_vma (mms s mm)) xs \<and> set xs \<inter> G Vma_alloc = {} \<and>
         list_all2 (\<lambda>x part. part_area mm part (vmas s x)) xs parts))"

lemma stageD:
  assumes "stage s mm P ps G E parts" and "root = mm_pgt (mms s mm)"
  shows "world s ps G" "good s root ps" "space_holds s root ps parts" "image_in s root ps E" "E \<inter> P = {}"
    "tables (mem s) root \<union> set ps \<subseteq> P" "page_of (mem s) root ` set (all_pages parts) \<subseteq> P"
  using assms by (auto simp: stage_def Let_def)

lemma extendedD:
  assumes "extended s mm ps G part v u qs" and "root = mm_pgt (mms s mm)"
  shows "v \<in> G Vma_alloc" "v \<noteq> 0" "adv (tables (mem s) root \<union> set ps) s u qs (taken Vma_alloc v G)" "good u root qs"
    "within s u root ps qs" "length ps \<le> length qs + 3 * length (part_pages part)"
    "PGALIGNED va \<Longrightarrow> IS_USER_VA va \<Longrightarrow> va \<notin> set (part_pages part) \<Longrightarrow> entry (mem u) root va = entry (mem s) root va"
    "part_loaded u root qs part" "inj_on (page_of (mem u) root) (set (part_pages part))"
    "page_of (mem u) root ` set (part_pages part) \<subseteq> set ps" "mms u = (mms s)(mm := (mms s mm)\<lparr>mm_vma := v\<rparr>)"
    "vmas u = (vmas s)(v := area_of mm (mm_vma (mms s mm)) (fst part) (fst (snd part)) (fst (snd (snd part))))"
  using assms unfolding extended_def Let_def by blast+

lemma stage_extended:
  assumes st: "stage s mm P ps G E parts" and ex: "extended s mm ps G part v u qs"
    and inv: "\<forall>va \<in> set (part_pages part). entry (mem s) (mm_pgt (mms s mm)) va AND PTE_V = 0"
  shows "stage u mm P qs (taken Vma_alloc v G) E (part # parts)" "adv P s u qs (taken Vma_alloc v G)" "same_on E (mem s) (mem u)"
proof -
  define root where "root = mm_pgt (mms s mm)"
  note d = stageD [OF st root_def] and e = extendedD [OF ex root_def]
  have ru: "mm_pgt (mms u mm) = root" by (simp add: e(11) root_def)
  have dj: "va \<notin> set (part_pages part)" if va: "va \<in> set (all_pages parts)" for va
  proof
    assume "va \<in> set (part_pages part)"
    then have "entry (mem s) root va AND PTE_V = 0" using inv by (simp add: root_def)
    moreover obtain x where "va \<in> set (part_pages x)" "part_loaded s root ps x" by (rule space_holds_page [OF d(3) va]) blast
    ultimately show False using part_loadedD(3) leaf_pte_valid by metis
  qed
  have en: "entry (mem u) root va = entry (mem s) root va" if va: "va \<in> set (all_pages parts)" for va
  proof -
    obtain x where "va \<in> set (part_pages x)" "part_loaded s root ps x" by (rule space_holds_page [OF d(3) va]) blast
    then show ?thesis using e(7) dj [OF va] part_loadedD(1,2) by metis
  qed
  note k = space_holds_kept [OF e(3) space_holds_apart [OF d(3)] e(5) d(3) en]
  note im = image_kept [OF d(4) e(3) subset_refl e(5)]
  show "same_on E (mem s) (mem u)" by (rule im(2))
  show a: "adv P s u qs (taken Vma_alloc v G)" by (rule adv_mono [OF e(3) d(6)])
  have new: "page_of (mem u) root ` set (part_pages part) \<inter> page_of (mem u) root ` set (all_pages parts) = {}"
    using e(10) space_holds_apart [OF d(3)] k(2) by auto
  have sh: "space_holds u root qs (part # parts)"
    unfolding space_holds_def
  proof
    show "\<forall>x \<in> set (part # parts). part_loaded u root qs x" using e(8) k(1) by (simp add: space_holds_def)
    have "inj_on (page_of (mem u) root) (set (part_pages part) \<union> set (all_pages parts))"
      using e(9) k(1) new unfolding inj_on_Un space_holds_def by blast
    then show "inj_on (page_of (mem u) root) (set (all_pages (part # parts)))" by simp
  qed
  obtain xs where xs: "vma_chain (vmas s) (mm_vma (mms s mm)) xs" "set xs \<inter> G Vma_alloc = {}"
    "list_all2 (\<lambda>x part. part_area mm part (vmas s x)) xs parts"
    using st by (auto simp: stage_def Let_def)
  have vx: "v \<notin> set xs" using xs(2) e(1) by blast
  have same: "vmas u x = vmas s x" if "x \<in> set xs" for x using that vx by (auto simp: e(12))
  have "vma_chain (vmas u) (mm_vma (mms s mm)) xs" using xs(1) vma_chain_cong [of xs "vmas u" "vmas s"] same by blast
  then have "vma_chain (vmas u) (mm_vma (mms u mm)) (v # xs)" using e(2) by (simp add: e(11,12))
  moreover have "list_all2 (\<lambda>x part. part_area mm part (vmas u x)) (v # xs) (part # parts)"
  proof -
    have "list_all2 (\<lambda>x part. part_area mm part (vmas u x)) xs parts"
      by (rule list.rel_mono_strong [OF xs(3)]) (simp add: same)
    then show ?thesis by (simp add: e(12) part_area_def)
  qed
  moreover have "set (v # xs) \<inter> taken Vma_alloc v G Vma_alloc = {}" using xs(2) by auto
  moreover have "tables (mem u) root \<union> set qs \<union> page_of (mem u) root ` set (all_pages (part # parts)) \<subseteq> P"
  proof -
    have "page_of (mem u) root ` set (all_pages parts) = page_of (mem s) root ` set (all_pages parts)" using k(2) by (rule image_cong [OF refl])
    then have "page_of (mem u) root ` set (all_pages parts) \<subseteq> P" using d(7) by (simp only:)
    moreover have "tables (mem u) root \<union> set qs \<subseteq> P" using e(5) d(6) unfolding within_def by (rule order.trans)
    moreover have "page_of (mem u) root ` set (part_pages part) \<subseteq> P" using e(10) d(6) by (meson Un_subset_iff order.trans)
    moreover have "set (all_pages (part # parts)) = set (part_pages part) \<union> set (all_pages parts)" by simp
    ultimately show ?thesis by (simp only: image_Un Un_subset_iff simp_thms)
  qed
  ultimately show "stage u mm P qs (taken Vma_alloc v G) E (part # parts)"
    unfolding stage_def Let_def ru using advD(2) [OF a] e(4) sh im(1) d(5) by blast
qed

text \<open>What the areas \<open>new\<close> have cost, and what they leave.\<close>

definition loads ::
    "kst \<Rightarrow> u64 \<Rightarrow> u64 set \<Rightarrow> u64 list \<Rightarrow> (alloc_id \<Rightarrow> u64 set) \<Rightarrow> part list \<Rightarrow> kst \<Rightarrow> u64 list \<Rightarrow> (alloc_id \<Rightarrow> u64 set) \<Rightarrow> bool" where
  "loads s mm P ps G new u qs H \<longleftrightarrow>
     adv P s u qs H \<and> length ps \<le> length qs + 3 * length (all_pages new) \<and>
     card (G Vma_alloc) \<le> card (H Vma_alloc) + length new \<and> H Vma_alloc \<subseteq> G Vma_alloc \<and>
     (\<forall>va. PGALIGNED va \<longrightarrow> IS_USER_VA va \<longrightarrow> va \<notin> set (all_pages new) \<longrightarrow>
        entry (mem u) (mm_pgt (mms s mm)) va = entry (mem s) (mm_pgt (mms s mm)) va) \<and>
     mm_pgt (mms u mm) = mm_pgt (mms s mm) \<and> mm_refcnt (mms u mm) = mm_refcnt (mms s mm) \<and> (\<forall>y. y \<noteq> mm \<longrightarrow> mms u y = mms s y) \<and>
     (\<forall>x. x \<notin> G Vma_alloc \<longrightarrow> vmas u x = vmas s x)"

lemma loadsD:
  assumes "loads s mm P ps G new u qs H"
  shows "adv P s u qs H" "length ps \<le> length qs + 3 * length (all_pages new)" "card (G Vma_alloc) \<le> card (H Vma_alloc) + length new"
    "H Vma_alloc \<subseteq> G Vma_alloc" "PGALIGNED va \<Longrightarrow> IS_USER_VA va \<Longrightarrow> va \<notin> set (all_pages new) \<Longrightarrow>
       entry (mem u) (mm_pgt (mms s mm)) va = entry (mem s) (mm_pgt (mms s mm)) va"
    "mm_pgt (mms u mm) = mm_pgt (mms s mm)" "mm_refcnt (mms u mm) = mm_refcnt (mms s mm)" "y \<noteq> mm \<Longrightarrow> mms u y = mms s y"
    "x \<notin> G Vma_alloc \<Longrightarrow> vmas u x = vmas s x"
  using assms unfolding loads_def by blast+

lemma adv_refl: "world s ps G \<Longrightarrow> adv P s s ps G"
  by (simp add: adv_def kept_def same_on_def)

lemma loads_refl: "world s ps G \<Longrightarrow> loads s mm P ps G [] s ps G"
  using adv_refl by (simp add: loads_def)

lemma loads_extended:
  assumes st: "stage s mm P ps G E parts" and ex: "extended s mm ps G part v u qs"
  shows "loads s mm P ps G [part] u qs (taken Vma_alloc v G)"
proof -
  note e = extendedD [OF ex refl]
  have "adv P s u qs (taken Vma_alloc v G)" by (rule adv_mono [OF e(3) stageD(6) [OF st refl]])
  moreover have "card (G Vma_alloc) \<le> card (G Vma_alloc - {v}) + 1" using card_Diff_singleton_if [of "G Vma_alloc" v] by auto
  ultimately show ?thesis using e(1,6,7) unfolding loads_def by (auto simp: e(11,12))
qed

lemma loads_trans:
  assumes a: "loads s mm P ps G new t qs H" and b: "loads t mm P qs H new2 u rs K"
  shows "loads s mm P ps G (new @ new2) u rs K"
proof -
  note c = loadsD [OF a] and d = loadsD [OF b]
  have "entry (mem u) (mm_pgt (mms s mm)) va = entry (mem s) (mm_pgt (mms s mm)) va"
    if "PGALIGNED va" "IS_USER_VA va" "va \<notin> set (all_pages (new @ new2))" for va
    using c(5) [OF that(1,2)] d(5) [OF that(1,2)] that(3) unfolding c(6) by auto
  moreover have "vmas u x = vmas s x" if "x \<notin> G Vma_alloc" for x using c(4,9) d(9) that by (metis subsetD)
  ultimately show ?thesis
    unfolding loads_def using adv_trans [OF c(1) d(1)] c(2-4,6-8) d(2-4,6-8) by auto
qed

end
