(* ===== verification/LoadElf.thy ===== *)
theory LoadElf imports Program begin

text \<open>
  \<^verbatim>\<open>load_user_elf\<close> of \<^verbatim>\<open>os/loader.c\<close>: after it the address space holds exactly the segments that the program's
  headers ask for, an empty heap behind them and a cleared stack.
\<close>

section \<open>Segments\<close>

lemma PGROUNDUP_down: "PGROUNDUP a = PGROUNDDOWN (a + 4095)"
  by (simp add: PGROUNDUP_def PGROUNDDOWN_def PGSIZE_def add.commute [of a])

lemma PGROUNDUP_aligned [simp]: "PGALIGNED (PGROUNDUP a)"
  by (simp add: PGROUNDUP_down)

lemma unat_PGROUNDUP:
  assumes "unat a + 4095 < 2 ^ 64"
  shows "unat (PGROUNDUP a) = (unat a + 4095) - (unat a + 4095) mod 4096" "a \<le> PGROUNDUP a"
proof -
  have "unat (a + 4095) = unat a + 4095" using assms by (simp add: unat_add_no_wrap)
  then show e: "unat (PGROUNDUP a) = (unat a + 4095) - (unat a + 4095) mod 4096"
    by (simp add: PGROUNDUP_down unat_PGROUNDDOWN)
  have "(unat a + 4095) mod 4096 < 4096" by simp
  then have "unat a \<le> (unat a + 4095) - (unat a + 4095) mod 4096" by linarith
  then show "a \<le> PGROUNDUP a" by (simp add: word_le_nat_alt e)
qed

lemma round_up_rest: "(v + 4095) - (v + 4095) mod 4096 - v = (if v mod 4096 = 0 then 0 else 4096 - v mod (4096 :: nat))"
proof (cases "v mod 4096 = 0")
  case True
  then have "(v + 4095) mod 4096 = 4095" by (simp add: mod_add_eq [symmetric])
  then show ?thesis using True by simp
next
  case False
  define r where "r = v mod 4096"
  have "v = 4096 * (v div 4096) + r" by (simp add: r_def)
  then obtain k where k: "v = 4096 * k + r" by blast
  have r: "0 < r" "r < 4096" using False by (simp_all add: r_def)
  have "v + 4095 = 4096 * (k + 1) + (r - 1)" using r(1) by (subst k) simp
  then have "(v + 4095) mod 4096 = (r - 1) mod 4096" by (metis mod_mult_self4)
  then have "(v + 4095) mod 4096 = r - 1" using r(2) by simp
  then show ?thesis using False r(1,2) by (simp add: r_def [symmetric])
qed

lemma round_down_ge: "a mod 4096 = 0 \<Longrightarrow> a \<le> b \<Longrightarrow> a \<le> b - b mod (4096 :: nat)"
  by (metis div_le_mono minus_mod_eq_mult_div mult_le_mono2 mult_div_mod_eq add.right_neutral)

lemma PGROUNDUP_rest:
  assumes "unat va + 4095 < 2 ^ 64"
  shows "PGROUNDUP va - va = (if PGALIGNED va then 0 else PGSIZE - (va - PGROUNDDOWN va))"
proof (rule unat_inj)
  have "unat (PGROUNDUP va - va) = (unat va + 4095) - (unat va + 4095) mod 4096 - unat va"
    using unat_PGROUNDUP [OF assms] by (simp add: unat_sub_le)
  also have "\<dots> = (if unat va mod 4096 = 0 then 0 else 4096 - unat va mod 4096)" by (rule round_up_rest)
  also have "\<dots> = unat (if PGALIGNED va then 0 else PGSIZE - (va - PGROUNDDOWN va))"
    using page_offset_less [of va] by (simp add: PGALIGNED_iff unat_sub_le unat_page_offset order.strict_implies_order)
  finally show "unat (PGROUNDUP va - va) = unat (if PGALIGNED va then 0 else PGSIZE - (va - PGROUNDDOWN va))" .
qed

text \<open>The zeros behind the file's bytes are there already.\<close>

lemma memset_zero_same: "\<forall>x. unat (x - a) < unat n \<longrightarrow> m x = 0 \<Longrightarrow> memset m a 0 n = m"
  by (auto simp: memset_eq fun_eq_iff)

lemma bss_loop_same:
  assumes "vm_ok s root ps" and "root = mm_pgt (mms s mm)" and "PGALIGNED lo" and "PGALIGNED hi"
    and "\<forall>p \<in> set (page_range lo hi). IS_USER_VA p \<and> user_page s root p \<and>
      (\<forall>x. in_page (page_of (mem s) root p) x \<longrightarrow> unat lo + n \<le> unat p + unat (x - page_of (mem s) root p) \<longrightarrow> mem s x = 0)"
    and "unat lo + n \<le> unat va" and "bss_end \<le> hi" and "unat hi + 4096 < 2 ^ 64"
  shows "bss_loop mm va bss_end s = Inr s"
  using assms
proof (induction mm va bss_end s rule: bss_loop.induct)
  case (1 mm va bss_end s)
  show ?case
  proof (cases "va < bss_end")
    case False
    then show ?thesis by (simp add: bss_loop.simps)
  next
    case True
    define p where "p = PGROUNDDOWN va"
    define off where "off = va - p"
    let ?q = "page_of (mem s) root p"
    have lt: "unat va < unat hi" using True 1(8) by (simp add: word_less_nat_alt word_le_nat_alt)
    have up: "unat p = unat va - unat va mod 4096" "unat off = unat va mod 4096" "unat p + unat off = unat va"
      by (simp_all add: p_def off_def unat_PGROUNDDOWN unat_page_offset)
    have "unat lo mod 4096 = 0" using 1(4) by (simp add: PGALIGNED_iff)
    moreover have "unat lo \<le> unat va" using 1(7) by simp
    ultimately have "unat lo \<le> unat p" unfolding up(1) by (rule round_down_ge)
    moreover have "p < hi" using lt up(3) by (simp add: word_less_nat_alt)
    ultimately have ran: "p \<in> set (page_range lo hi)"
      using set_page_range [OF 1(4,5)] by (simp add: p_def word_le_nat_alt)
    then have us: "IS_USER_VA p" "user_page s root p"
      and z: "\<And>x. in_page ?q x \<Longrightarrow> unat lo + n \<le> unat p + unat (x - ?q) \<Longrightarrow> mem s x = 0" using 1(6) by blast+
    have walk: "walkaddr mm p s = Inr (user_pa (mem s) root p, s)"
      using walkaddr_eq [of s mm ps p] 1(2,3) us(1) by (simp add: p_def)
    have mq: "page_mapped s ?q" using us(2) vm_okD(3) [OF 1(2)] by (simp add: user_page_def arena_ok_def)
    have offle: "off \<le> PGSIZE" using page_offset_less [of va] by (simp add: off_def p_def order.strict_implies_order)
    define cl where "cl = PGROUNDUP va - va"
    have cl: "cl = (if off = 0 then 0 else PGSIZE - off)"
      using PGROUNDUP_rest [of va] lt 1(9) up(2) by (auto simp: cl_def off_def p_def PGALIGNED_iff unat_eq_zero)
    have clle: "cl \<le> PGSIZE" using offle by (simp add: cl word_le_nat_alt unat_sub_le)
    have ucl: "unat (ucast cl :: u32) \<le> 4096 - unat off" "unat (ucast cl :: u32) = unat cl"
      using offle unat_page_part [OF clle] by (simp_all add: cl unat_sub_le)
    have inp: "in_page ?q x \<and> off \<le> x - ?q" if "unat (x - (?q + off)) < unat (ucast cl :: u32)" for x
      using that ucl(1) rest_of_page [OF offle, of x ?q] by simp
    have "memset (mem s) (?q + off) 0 (ucast cl) = mem s"
    proof (rule memset_zero_same, intro allI impI)
      fix x assume "unat (x - (?q + off)) < unat (ucast cl :: u32)"
      from inp [OF this] have x: "in_page ?q x" "unat off \<le> unat (x - ?q)" by (simp_all add: word_le_nat_alt)
      then show "mem s x = 0" by (intro z) (use up(3) 1(7) in simp_all)
    qed
    moreover have "mapped s (?q + off) (unat (ucast cl :: u32))"
      unfolding mapped_def
    proof (intro allI impI)
      fix i assume i: "i < unat (ucast cl :: u32)"
      have "unat off + i < 4096" using i ucl(1) by linarith
      then have "kmap s (?q + of_nat (unat off + i))" using mq unfolding page_mapped_def mapped_def by blast
      then show "kmap s (?q + off + of_nat i)" by (simp add: add.assoc)
    qed
    ultimately have set: "k_memset (?q + off) 0 (ucast cl) s = Inr s" by (simp add: k_memset_def)
    have pa: "PA_TO_KVA (user_pa (mem s) root p) = ?q" by (rule user_page_pa [OF us(2)])
    have nx: "unat lo + n \<le> unat (p + PGSIZE)"
    proof -
      have "unat (p + PGSIZE) = unat p + 4096" using up(3) lt 1(9) by (subst unat_add_no_wrap) simp_all
      then show ?thesis using 1(7) up by simp
    qed
    have "bss_loop mm (p + PGSIZE) bss_end s = Inr s"
      using 1(1) [OF True off_def [unfolded p_def] cl_def] walk set pa 1(2-6) nx 1(8,9)
      by (simp add: p_def off_def cl_def)
    then show ?thesis
      using True walk set pa by (simp add: bss_loop.simps [of mm va] Let_def p_def [symmetric] off_def [symmetric] cl_def [symmetric])
  qed
qed

text \<open>The part that a program header asks for, in the file at \<open>elf\<close>.\<close>

definition seg_part :: "mem \<Rightarrow> u64 \<Rightarrow> elf64_phdr \<Rightarrow> part" where
  "seg_part m elf ph = (p_vaddr ph, PGROUNDUP (p_vaddr ph + p_memsz ph), segment_perm (p_flags ph),
     \<lambda>a. file_byte m (elf + p_offset ph) (p_filesz ph) (a - p_vaddr ph))"

text \<open>
  A segment that starts on a page, ends below the stack and has some permission; its file's bytes are
  in the kernel's data.
\<close>

definition seg_fits :: "u64 set \<Rightarrow> u64 \<Rightarrow> elf64_phdr \<Rightarrow> bool" where
  "seg_fits E elf ph \<longleftrightarrow> PGALIGNED (p_vaddr ph) \<and> p_filesz ph \<le> p_memsz ph \<and>
     unat (p_vaddr ph) + unat (p_memsz ph) \<le> unat (USTACK_START - USTACK_SIZE) \<and>
     p_flags ph AND (PF_R OR PF_W OR PF_X) \<noteq> 0 \<and> file_at E (elf + p_offset ph) (p_filesz ph)"

lemma flags_any: "f AND PF_R = 0 \<Longrightarrow> f AND PF_W = 0 \<Longrightarrow> f AND PF_X = 0 \<Longrightarrow> f AND (PF_R OR PF_W OR PF_X) = 0"
  by (simp only: bit.conj_disj_distrib) simp

lemma segment_perm_bits:
  "segment_perm f < 1024" "segment_perm f AND PTE_U \<noteq> 0"
  "f AND (PF_R OR PF_W OR PF_X) \<noteq> 0 \<Longrightarrow>
    \<not> (segment_perm f AND PTE_R = 0 \<and> segment_perm f AND PTE_W = 0 \<and> segment_perm f AND PTE_X = 0)"
proof -
  show "segment_perm f < 1024" "segment_perm f AND PTE_U \<noteq> 0"
    by (simp_all add: segment_perm_def Let_def PTE_U_def PTE_R_def PTE_W_def PTE_X_def)
  assume "f AND (PF_R OR PF_W OR PF_X) \<noteq> 0"
  then have "f AND PF_R \<noteq> 0 \<or> f AND PF_W \<noteq> 0 \<or> f AND PF_X \<noteq> 0" using flags_any by blast
  then show "\<not> (segment_perm f AND PTE_R = 0 \<and> segment_perm f AND PTE_W = 0 \<and> segment_perm f AND PTE_X = 0)"
    by (auto simp: segment_perm_def Let_def PTE_U_def PTE_R_def PTE_W_def PTE_X_def)
qed

text \<open>The same bytes give the same header.\<close>

lemma ld32_cong: "(\<And>i. i < 4 \<Longrightarrow> m' (a + of_nat i) = m (a + of_nat i)) \<Longrightarrow> ld32 m' a = ld32 m a"
  unfolding ld32_def by (rule fold_cong) auto

lemma get_phdr_cong:
  assumes "\<And>i. i < 56 \<Longrightarrow> m' (a + of_nat i) = m (a + of_nat i)"
  shows "get_phdr m' a = get_phdr m a"
proof -
  have e: "m' (a + of_nat j + of_nat i) = m (a + of_nat j + of_nat i)" if "j + i < 56" for i j
    using assms [OF that] by (simp add: add.assoc)
  have "ld64 m' (a + of_nat j) = ld64 m (a + of_nat j)" if "j \<le> 48" for j by (rule ld64_cong) (rule e, use that in simp)
  from this [of 8] this [of 16] this [of 24] this [of 32] this [of 40] this [of 48]
  have "ld64 m' (a + 8) = ld64 m (a + 8)" "ld64 m' (a + 16) = ld64 m (a + 16)" "ld64 m' (a + 24) = ld64 m (a + 24)"
    "ld64 m' (a + 32) = ld64 m (a + 32)" "ld64 m' (a + 40) = ld64 m (a + 40)" "ld64 m' (a + 48) = ld64 m (a + 48)" by simp_all
  moreover have "ld32 m' (a + of_nat j) = ld32 m (a + of_nat j)" if "j \<le> 48" for j by (rule ld32_cong) (rule e, use that in simp)
  from this [of 0] this [of 4] have "ld32 m' a = ld32 m a" "ld32 m' (a + 4) = ld32 m (a + 4)" by simp_all
  ultimately show ?thesis by (simp add: get_phdr_def)
qed

lemma file_nth: "file_at E a n \<Longrightarrow> same_on E (mem s) (mem t) \<Longrightarrow> i < unat n \<Longrightarrow> mem t (a + of_nat i) = mem s (a + of_nat i)"
  by (rule file_byte_kept) (use unat_less_2p [of n] in \<open>simp_all add: word_less_nat_alt unat_of_nat_small\<close>)

lemma seg_part_kept:
  "same_on E (mem s) (mem t) \<Longrightarrow> seg_fits E elf ph \<Longrightarrow> seg_part (mem t) elf ph = seg_part (mem s) elf ph"
  using file_byte_kept [of E s t "elf + p_offset ph" "p_filesz ph"]
  by (simp add: seg_part_def seg_fits_def fun_eq_iff file_byte_def)

lemma file_mapped: "image_in s root ps E \<Longrightarrow> file_at E a n \<Longrightarrow> mapped s a (unat n)"
  using src_ok_mapped [OF file_src [of s root ps E a n "{}"] order.refl] by simp

lemma stack_top: "unat (USTACK_START - USTACK_SIZE) = 0xfffe8000" "unat USTACK_START = 0xffff0000"
  by (simp_all add: USTACK_START_def USTACK_SIZE_def PGSIZE_def)

lemma seg_fitsD:
  assumes "seg_fits E elf ph"
  shows "PGALIGNED (p_vaddr ph)" "p_filesz ph \<le> p_memsz ph" "unat (p_vaddr ph + p_memsz ph) = unat (p_vaddr ph) + unat (p_memsz ph)"
    "unat (p_vaddr ph) + unat (p_memsz ph) \<le> unat (PGROUNDUP (p_vaddr ph + p_memsz ph))"
    "unat (PGROUNDUP (p_vaddr ph + p_memsz ph)) \<le> 0xfffe8000"
    "vma_fits (area_of mm 0 (p_vaddr ph) (PGROUNDUP (p_vaddr ph + p_memsz ph)) (segment_perm (p_flags ph)))"
proof -
  have a: "PGALIGNED (p_vaddr ph)" "p_filesz ph \<le> p_memsz ph" "unat (p_vaddr ph) + unat (p_memsz ph) \<le> 0xfffe8000"
    "p_flags ph AND (PF_R OR PF_W OR PF_X) \<noteq> 0"
    using assms by (simp_all add: seg_fits_def stack_top)
  show "PGALIGNED (p_vaddr ph)" "p_filesz ph \<le> p_memsz ph" by (rule a)+
  show e: "unat (p_vaddr ph + p_memsz ph) = unat (p_vaddr ph) + unat (p_memsz ph)" using a(3) by (simp add: unat_add_no_wrap)
  note up = unat_PGROUNDUP [of "p_vaddr ph + p_memsz ph"]
  show ge: "unat (p_vaddr ph) + unat (p_memsz ph) \<le> unat (PGROUNDUP (p_vaddr ph + p_memsz ph))"
    using up(2) a(3) by (simp add: e word_le_nat_alt)
  define n where "n = unat (p_vaddr ph) + unat (p_memsz ph)"
  have "(n + 4095) - (n + 4095) mod 4096 \<le> 0xfffe8000"
  proof -
    have "(n + 4095) div 4096 \<le> (0xfffe8000 + 4095) div 4096" using a(3) by (intro div_le_mono) (simp add: n_def)
    then show ?thesis by (simp add: minus_mod_eq_mult_div)
  qed
  then show le: "unat (PGROUNDUP (p_vaddr ph + p_memsz ph)) \<le> 0xfffe8000" using up(1) a(3) by (simp add: e n_def)
  have "IS_USER_VA x" if "unat x \<le> 0xfffe8000" for x using that by (simp add: IS_USER_VA_def MAXVA_def word_le_nat_alt)
  moreover have "unat (p_vaddr ph) \<le> 0xfffe8000" using a(3) by simp
  ultimately show "vma_fits (area_of mm 0 (p_vaddr ph) (PGROUNDUP (p_vaddr ph + p_memsz ph)) (segment_perm (p_flags ph)))"
    using a le segment_perm_bits [of "p_flags ph"] by (simp add: vma_fits_def)
qed

section \<open>Loading a segment\<close>

text \<open>What has been loaded can be read, and has zeros behind the file's bytes.\<close>

lemma part_user_page:
  assumes "part_loaded s root ps (lo, hi, fl, c)" and "fl AND PTE_U \<noteq> 0" and "va \<in> set (page_range lo hi)"
  shows "IS_USER_VA va" "user_page s root va" "in_page (page_of (mem s) root va) x \<Longrightarrow> mem s x = c (va + (x - page_of (mem s) root va))"
proof -
  have v: "va \<in> set (part_pages (lo, hi, fl, c))" using assms(3) by (simp add: part_pages_def)
  note d = part_loadedD [OF assms(1) v]
  show "IS_USER_VA va" by (rule d(1))
  show "user_page s root va" using d(3,4) leaf_pte_valid leaf_pte_user [OF assms(2)] by (simp add: user_page_def)
  show "mem s x = c (va + (x - page_of (mem s) root va))" if "in_page (page_of (mem s) root va) x" using d(7) [OF that] by simp
qed

lemma loaded_bss:
  assumes ok: "vm_ok u root qs" "root = mm_pgt (mms u mm)" and f: "seg_fits E elf ph" and pl: "part_loaded u root qs (seg_part m elf ph)"
  shows "bss_loop mm (p_vaddr ph + p_filesz ph) (p_vaddr ph + p_memsz ph) u = Inr u"
proof -
  let ?lo = "p_vaddr ph" and ?hi = "PGROUNDUP (p_vaddr ph + p_memsz ph)"
  note d = seg_fitsD [OF f]
  have fsz: "unat (p_filesz ph) \<le> unat (p_memsz ph)" using d(2) by (simp add: word_le_nat_alt)
  have end_le: "?lo + p_memsz ph \<le> ?hi" using d(3,4) by (simp add: word_le_nat_alt)
  have start: "unat (?lo + p_filesz ph) = unat ?lo + unat (p_filesz ph)" using d(4,5) fsz by (simp add: unat_add_no_wrap)
  show ?thesis
  proof (rule bss_loop_same [OF ok d(1) PGROUNDUP_aligned _ _ end_le])
    show "unat ?lo + unat (p_filesz ph) \<le> unat (?lo + p_filesz ph)" using start by simp
    show "unat ?hi + 4096 < 2 ^ 64" using d(5) by simp
    show "\<forall>p \<in> set (page_range ?lo ?hi). IS_USER_VA p \<and> user_page u root p \<and>
      (\<forall>x. in_page (page_of (mem u) root p) x \<longrightarrow> unat ?lo + unat (p_filesz ph) \<le> unat p + unat (x - page_of (mem u) root p) \<longrightarrow> mem u x = 0)"
    proof (intro ballI conjI allI impI)
      fix p x assume p: "p \<in> set (page_range ?lo ?hi)"
      let ?q = "page_of (mem u) root p"
      note up = part_user_page [OF pl [unfolded seg_part_def] segment_perm_bits(2) p]
      show "IS_USER_VA p" "user_page u root p" by (rule up(1), rule up(2))
      assume x: "in_page ?q x" and ge: "unat ?lo + unat (p_filesz ph) \<le> unat p + unat (x - ?q)"
      have pr: "?lo \<le> p" "p < ?hi" using p set_page_range [OF d(1) PGROUNDUP_aligned] by auto
      have "unat (x - ?q) < 4096" using x by (simp add: in_page_def PGSIZE_def word_less_nat_alt)
      moreover have "unat p < 0xfffe8000" using pr(2) d(5) by (simp add: word_less_nat_alt)
      ultimately have "unat (p + (x - ?q)) = unat p + unat (x - ?q)" by (intro unat_add_no_wrap) simp
      moreover have "unat (p + (x - ?q) - ?lo) = unat (p + (x - ?q)) - unat ?lo"
        by (rule unat_sub_le) (use calculation pr(1) in \<open>simp add: word_le_nat_alt\<close>)
      ultimately have "\<not> p + (x - ?q) - ?lo < p_filesz ph" using ge by (simp add: word_less_nat_alt)
      then show "mem u x = 0" using up(3) [OF x] by (simp add: file_byte_def)
    qed
  qed
qed

lemma load_segment_ok:
  assumes st: "stage s mm P ps G E parts" and mm: "mm = p_mm (proc_pool s p)"
    and h: "hdr = elf_address app + e_phoff ehdr + of_nat i * sizeof_phdr" "file_at E hdr 56"
    and ph: "ph = get_phdr (mem s) hdr" "p_type ph = PT_LOAD" "seg_fits E (elf_address app) ph"
    and inv: "\<forall>va \<in> set (part_pages (seg_part (mem s) (elf_address app) ph)). entry (mem s) (mm_pgt (mms s mm)) va AND PTE_V = 0"
    and len: "3 * length (part_pages (seg_part (mem s) (elf_address app) ph)) \<le> length ps" and ne: "G Vma_alloc \<noteq> {}"
  obtains v u qs where "load_segment app ehdr p i (mx, s) = Inr (max mx (PGROUNDUP (p_vaddr ph + p_memsz ph)), u)"
    "vm_only s u" "extended s mm ps G (seg_part (mem s) (elf_address app) ph) v u qs"
proof -
  define root where "root = mm_pgt (mms s mm)"
  note d = stageD [OF st root_def] and f = seg_fitsD [OF ph(3)]
  let ?lo = "p_vaddr ph" and ?hi = "PGROUNDUP (p_vaddr ph + p_memsz ph)" and ?fl = "segment_perm (p_flags ph)"
    and ?base = "elf_address app + p_offset ph" and ?part = "seg_part (mem s) (elf_address app) ph"
  have pp: "part_pages ?part = page_range ?lo ?hi" by (simp add: seg_part_def part_pages_def)
  have ord: "?lo \<le> ?hi" using f(4) by (simp add: word_le_nat_alt)
  have iv: "\<forall>va \<in> set (page_range ?lo ?hi). entry (mem s) root va AND PTE_V = 0" using inv by (simp add: pp root_def)
  have ln: "3 * length (page_range ?lo ?hi) \<le> length ps" using len by (simp add: pp)
  have fa: "file_at E ?base (p_filesz ph)" using ph(3) by (simp add: seg_fits_def)
  obtain v s1 t m qs where r: "mm_create_vma mm s = Inr (v, s1)" "vm_only s s1"
    "mm_mappages v (set_area v ?lo ?hi ?fl (s1\<lparr>proc_pool := proc_pool s\<rparr>)) = Inr (0, t)"
    "kfold (fill_segment_page mm ?base) (page_range ?lo ?hi) ((0, p_filesz ph), t) =
      Inr ((min (p_filesz ph) (?hi - ?lo), p_filesz ph - min (p_filesz ph) (?hi - ?lo)), t\<lparr>mem := m\<rparr>)"
    "vm_only (s\<lparr>proc_pool := proc_pool s\<rparr>) (t\<lparr>mem := m\<rparr>)"
    "extended s mm ps G (?lo, ?hi, ?fl, \<lambda>a. file_byte (mem s) ?base (p_filesz ph) (a - ?lo)) v (t\<lparr>mem := m\<rparr>) qs"
    by (rule area_filled [OF d(1,2) root_def ne f(6) segment_perm_bits(2) ord iv ln d(4) fa, where pool = "\<lambda>_. proc_pool s"])
  define u where "u = t\<lparr>mem := m\<rparr>"
  have ex: "extended s mm ps G ?part v u qs" using r(6) by (simp add: seg_part_def u_def)
  note e = extendedD [OF ex root_def]
  have "s1\<lparr>proc_pool := proc_pool s\<rparr> = s1" using vm_only_sel(4) [OF r(2)] by (cases s1) simp
  then have map: "mm_mappages v (set_area v ?lo ?hi ?fl s1) = Inr (0, t)" using r(3) by simp
  have vo: "vm_only s u" using r(5) by (simp add: u_def)
  have sz: "unat (p_filesz ph) \<le> unat (p_memsz ph)" using f(2) by (simp add: word_le_nat_alt)
  have "unat (?hi - ?lo) = unat ?hi - unat ?lo" by (rule unat_sub_le [OF ord])
  then have "p_filesz ph \<le> ?hi - ?lo" using f(4) sz by (simp add: word_le_nat_alt)
  then have fill: "kfold (fill_segment_page mm ?base) (page_range ?lo ?hi) ((0, p_filesz ph), t) = Inr ((p_filesz ph, 0), u)"
    using r(4) by (simp add: u_def min_absorb1)
  have ok: "vm_ok u root qs" using e(4) by (simp add: good_def)
  have rt: "root = mm_pgt (mms u mm)" by (simp add: e(11) root_def)
  note bss = loaded_bss [OF ok rt ph(3) e(8)]
  have "load_phdr hdr s = Inr ph" using file_mapped [OF d(4) h(2)] ph(1) by (simp add: load_phdr_def)
  moreover have "p_mm (proc_pool s p) = mm" using mm by simp
  moreover have "PGROUNDDOWN ?lo = ?lo" by (rule PGROUNDDOWN_aligned [OF f(1)])
  ultimately have "load_segment app ehdr p i (mx, s) = Inr (max mx ?hi, u)"
    using ph(2) r(1) map fill bss unfolding load_segment_def h(1) [symmetric] by (simp add: Let_def)
  then show thesis using that vo ex by blast
qed

section \<open>All segments\<close>

abbreviation seg_top :: "elf64_phdr \<Rightarrow> u64 \<Rightarrow> u64" where
  "seg_top ph e \<equiv> max e (PGROUNDUP (p_vaddr ph + p_memsz ph))"

lemma all_pages_user:
  assumes "\<forall>ph \<in> set L. seg_fits E elf ph" and "va \<in> set (all_pages (map (seg_part m elf) L))"
  shows "PGALIGNED va" "IS_USER_VA va" "unat va < 0xfffe8000"
proof -
  obtain ph where ph: "seg_fits E elf ph" "va \<in> set (page_range (p_vaddr ph) (PGROUNDUP (p_vaddr ph + p_memsz ph)))"
    using assms by (auto simp: seg_part_def part_pages_def)
  note d = seg_fitsD [OF ph(1)]
  have v: "PGALIGNED va" "va < PGROUNDUP (p_vaddr ph + p_memsz ph)"
    using ph(2) set_page_range [OF d(1) PGROUNDUP_aligned] by auto
  show "PGALIGNED va" by (rule v(1))
  show "unat va < 0xfffe8000" using v(2) d(5) by (simp add: word_less_nat_alt)
  then show "IS_USER_VA va" by (simp add: IS_USER_VA_def MAXVA_def word_le_nat_alt)
qed

lemma load_segments_ok:
  assumes "stage s mm P ps G E parts" and "mm = p_mm (proc_pool s p)" and "same_on E (mem s0) (mem s)"
    and "\<forall>i \<in> set is. file_at E (hdr i) 56" and "\<And>i. hdr i = elf_address app + e_phoff ehdr + of_nat i * sizeof_phdr"
    and "L = filter (\<lambda>ph. p_type ph = PT_LOAD) (map (\<lambda>i. get_phdr (mem s0) (hdr i)) is)"
    and "\<forall>ph \<in> set L. seg_fits E (elf_address app) ph" and "new = map (seg_part (mem s0) (elf_address app)) L"
    and "distinct (all_pages new)" and "\<forall>va \<in> set (all_pages new). entry (mem s) (mm_pgt (mms s mm)) va AND PTE_V = 0"
    and "3 * length (all_pages new) \<le> length ps" and "length new \<le> card (G Vma_alloc)"
  shows "\<exists>u qs H. kfold (load_segment app ehdr p) is (mx, s) = Inr (fold seg_top L mx, u) \<and> vm_only s u \<and>
    stage u mm P qs H E (rev new @ parts) \<and> loads s mm P ps G new u qs H \<and> same_on E (mem s0) (mem u)"
  using assms
proof (induction "is" arbitrary: s ps G parts L new mx)
  case Nil
  then have w: "world s ps G" using stageD(1) [OF Nil.prems(1) refl] by simp
  show ?case using Nil.prems(1,3,6,8) loads_refl [OF w, of mm P] by (intro exI [of _ s] exI [of _ ps] exI [of _ G]) simp
next
  case (Cons i "is")
  define ph where "ph = get_phdr (mem s0) (hdr i)"
  have fi: "file_at E (hdr i) 56" and fr: "\<forall>i \<in> set is. file_at E (hdr i) 56" using Cons.prems(4) by simp_all
  have ps: "get_phdr (mem s) (hdr i) = ph"
    unfolding ph_def by (rule get_phdr_cong) (rule file_nth [OF fi Cons.prems(3)], simp)
  let ?L = "filter (\<lambda>ph. p_type ph = PT_LOAD) (map (\<lambda>i. get_phdr (mem s0) (hdr i)) is)"
  show ?case
  proof (cases "p_type ph = PT_LOAD")
    case False
    have "load_phdr (hdr i) s = Inr ph"
      using file_mapped [OF stageD(4) [OF Cons.prems(1) refl] fi] ps by (simp add: load_phdr_def)
    then have "load_segment app ehdr p i (mx, s) = Inr (mx, s)"
      using False unfolding load_segment_def Cons.prems(5) [symmetric] by simp
    moreover have "L = ?L" using False Cons.prems(6) by (simp add: ph_def)
    ultimately show ?thesis using Cons.IH [OF Cons.prems(1-3) fr Cons.prems(5) _ Cons.prems(7-12), of mx] by simp
  next
    case True
    let ?new = "map (seg_part (mem s0) (elf_address app)) ?L" and ?part = "seg_part (mem s0) (elf_address app) ph"
    have L: "L = ph # ?L" "new = ?part # ?new" using True Cons.prems(6,8) by (simp_all add: ph_def)
    have f: "seg_fits E (elf_address app) ph" "\<forall>ph \<in> set ?L. seg_fits E (elf_address app) ph" using Cons.prems(7) unfolding L(1) by simp_all
    have part: "seg_part (mem s) (elf_address app) ph = ?part" by (rule seg_part_kept [OF Cons.prems(3) f(1)])
    have iv: "\<forall>va \<in> set (part_pages ?part). entry (mem s) (mm_pgt (mms s mm)) va AND PTE_V = 0"
      "\<forall>va \<in> set (all_pages ?new). entry (mem s) (mm_pgt (mms s mm)) va AND PTE_V = 0"
      using Cons.prems(10) unfolding L(2) by auto
    have ne: "G Vma_alloc \<noteq> {}" using Cons.prems(12) unfolding L(2) by auto
    have ln: "3 * length (part_pages ?part) \<le> length ps" using Cons.prems(11) unfolding L(2) by simp
    obtain v t qs where t: "load_segment app ehdr p i (mx, s) = Inr (seg_top ph mx, t)" "vm_only s t" "extended s mm ps G ?part v t qs"
      by (rule load_segment_ok [OF Cons.prems(1,2,5) fi ps [symmetric] True f(1), unfolded part, OF iv(1) ln ne])
    note st = stage_extended [OF Cons.prems(1) t(3) iv(1)] and lo = loads_extended [OF Cons.prems(1) t(3)]
    note ld = loadsD [OF lo]
    let ?H = "taken Vma_alloc v G"
    have mt: "mm = p_mm (proc_pool t p)" using Cons.prems(2) vm_only_sel(4) [OF t(2)] by simp
    have so: "same_on E (mem s0) (mem t)" by (rule same_on_trans [OF Cons.prems(3) st(3)])
    have di: "distinct (all_pages ?new)" "set (part_pages ?part) \<inter> set (all_pages ?new) = {}" using Cons.prems(9) unfolding L(2) by auto
    have it: "\<forall>va \<in> set (all_pages ?new). entry (mem t) (mm_pgt (mms t mm)) va AND PTE_V = 0"
    proof
      fix va assume va: "va \<in> set (all_pages ?new)"
      note us = all_pages_user [OF f(2) va]
      have np: "va \<notin> set (all_pages [?part])" using di(2) va by auto
      show "entry (mem t) (mm_pgt (mms t mm)) va AND PTE_V = 0" using ld(5) [OF us(1,2) np] iv(2) [rule_format, OF va] by (simp only: ld(6))
    qed
    have le: "3 * length (all_pages ?new) \<le> length qs" "length ?new \<le> card (?H Vma_alloc)"
      using Cons.prems(11,12) ld(2,3) extendedD(6) [OF t(3) refl] unfolding L(2) by simp_all
    obtain u rs K where u: "kfold (load_segment app ehdr p) is (seg_top ph mx, t) = Inr (fold seg_top ?L (seg_top ph mx), u)" "vm_only t u"
      "stage u mm P rs K E (rev ?new @ ?part # parts)" "loads t mm P qs ?H ?new u rs K" "same_on E (mem s0) (mem u)"
      using Cons.IH [OF st(1) mt so fr Cons.prems(5) refl f(2) refl di(1) it le, of "seg_top ph mx"] by blast
    have n: "rev new @ parts = rev ?new @ ?part # parts" "new = [?part] @ ?new" unfolding L(2) by simp_all
    show ?thesis
    proof (intro exI conjI)
      show "kfold (load_segment app ehdr p) (i # is) (mx, s) = Inr (fold seg_top L mx, u)" using t(1) u(1) unfolding L(1) by simp
      show "vm_only s u" by (rule vm_only_trans [OF t(2) u(2)])
      show "stage u mm P rs K E (rev new @ parts)" unfolding n(1) by (rule u(3))
      show "loads s mm P ps G new u rs K" using loads_trans [OF lo u(4)] by (simp only: n(2))
      show "same_on E (mem s0) (mem u)" by (rule u(5))
    qed
  qed
qed

end
