(* ===== verification/UserImage.thy ===== *)
theory UserImage imports LoadElf begin

text \<open>
  The address space that a program's file describes, and that \<^verbatim>\<open>load_user_elf\<close> of \<^verbatim>\<open>os/loader.c\<close> makes exactly this
  one, on a process whose address space has no areas yet.
\<close>

section \<open>The image of a program\<close>

definition phdr_addr :: "mem \<Rightarrow> u64 \<Rightarrow> nat \<Rightarrow> u64" where
  "phdr_addr m elf i = elf + e_phoff (get_ehdr m elf) + of_nat i * sizeof_phdr"

definition loadable :: "mem \<Rightarrow> u64 \<Rightarrow> elf64_phdr list" where
  "loadable m elf = filter (\<lambda>ph. p_type ph = PT_LOAD)
     (map (\<lambda>i. get_phdr m (phdr_addr m elf i)) [0..<unat (e_phnum (get_ehdr m elf))])"

definition prog_end :: "mem \<Rightarrow> u64 \<Rightarrow> u64" where
  "prog_end m elf = fold seg_top (loadable m elf) 0"

definition rw_user :: u64 where "rw_user = PTE_R OR PTE_W OR PTE_U"

definition brk_part :: "u64 \<Rightarrow> part" where "brk_part e = (e, e, rw_user, \<lambda>_. 0)"

definition stack_part :: part where "stack_part = (USTACK_START - USTACK_SIZE, USTACK_START, rw_user, \<lambda>_. 0)"

definition prog_parts :: "mem \<Rightarrow> u64 \<Rightarrow> part list" where
  "prog_parts m elf = map (seg_part m elf) (loadable m elf)"

definition user_parts :: "mem \<Rightarrow> u64 \<Rightarrow> part list" where
  "user_parts m elf = stack_part # brk_part (prog_end m elf) # rev (prog_parts m elf)"

text \<open>The file, its headers and the bytes of its segments are in the kernel's data; the segments fit and are apart.\<close>

definition elf_ok :: "mem \<Rightarrow> u64 set \<Rightarrow> u64 \<Rightarrow> bool" where
  "elf_ok m E elf \<longleftrightarrow> file_at E elf 64 \<and> (\<forall>i < unat (e_phnum (get_ehdr m elf)). file_at E (phdr_addr m elf i) 56) \<and>
     (\<forall>ph \<in> set (loadable m elf). seg_fits E elf ph) \<and> distinct (all_pages (prog_parts m elf))"

text \<open>The permissions and the byte of an address.\<close>

fun parts_at :: "part list \<Rightarrow> u64 \<Rightarrow> (u64 \<times> u8) option" where
  "parts_at [] va = None"
| "parts_at ((lo, hi, fl, c) # parts) va = (if lo \<le> va \<and> va < hi then Some (fl, c va) else parts_at parts va)"

lemma rw_user_bits: "rw_user < 1024" "rw_user AND PTE_U \<noteq> 0" "rw_user AND PTE_R \<noteq> 0"
  by (simp_all add: rw_user_def PTE_R_def PTE_W_def PTE_U_def)

lemma prog_end_ok:
  assumes "\<forall>ph \<in> set L. seg_fits E elf ph" and "PGALIGNED e" and "unat e \<le> 0xfffe8000"
  shows "PGALIGNED (fold seg_top L e) \<and> unat (fold seg_top L e) \<le> 0xfffe8000"
  using assms
proof (induction L arbitrary: e)
  case (Cons ph L)
  have "PGALIGNED (seg_top ph e)" using Cons.prems(2) by (simp add: max_def)
  moreover have "unat (seg_top ph e) \<le> 0xfffe8000" using Cons.prems seg_fitsD(5) [of E elf ph] by (simp add: max_def)
  ultimately show ?case using Cons.IH [of "seg_top ph e"] Cons.prems(1) by simp
qed simp

lemma user_area_fits: "PGALIGNED lo \<Longrightarrow> PGALIGNED hi \<Longrightarrow> unat lo \<le> 0xffff0000 \<Longrightarrow> unat hi \<le> 0xffff0000 \<Longrightarrow> vma_fits (area_of mm 0 lo hi rw_user)"
  using rw_user_bits by (simp add: vma_fits_def IS_USER_VA_def MAXVA_def word_le_nat_alt)

lemma stack_facts:
  "PGALIGNED (USTACK_START - USTACK_SIZE)" "PGALIGNED USTACK_START" "USTACK_START - USTACK_SIZE \<le> USTACK_START"
  "length (page_range (USTACK_START - USTACK_SIZE) USTACK_START) = 8"
  by (simp_all add: USTACK_START_def USTACK_SIZE_def PGSIZE_def PGALIGNED_def page_range.simps)

section \<open>Clearing the stack\<close>

lemma memmove_nothing: "memmove m dst src 0 = m"
  by (subst memmove_eq) (use unat_less_2p [of src] unat_less_2p [of dst] in \<open>simp_all add: no_wrap_def\<close>)

lemma fill_zero_page: "fill_segment_page mm base va ((0, 0), s) = kbind (zero_user_page mm va s) (\<lambda>s. Inr ((0, 0), s))"
proof (cases "walkaddr mm va s")
  case (Inr r)
  have "k_memmove a base 0 t = Inr t" for a t by (simp add: k_memmove_def mapped_def memmove_nothing)
  then show ?thesis by (cases r) (simp add: Inr fill_segment_page_def zero_user_page_def Let_def PGSIZE_def)
qed (simp add: fill_segment_page_def zero_user_page_def)

lemma fill_zero_loop:
  "kfold (fill_segment_page mm base) vs ((0, 0), s) = kbind (kfold (zero_user_page mm) vs s) (\<lambda>s. Inr ((0, 0), s))"
proof (induction vs arbitrary: s)
  case (Cons va vs)
  then show ?case by (cases "zero_user_page mm va s") (simp_all add: fill_zero_page)
qed simp

text \<open>An area of zeros: the heap, which is empty, and the stack.\<close>

lemma zero_area:
  assumes st: "stage s mm P ps G E parts" and fits: "vma_fits (area_of mm 0 lo hi rw_user)" and ord: "lo \<le> hi"
    and inv: "\<forall>va \<in> set (page_range lo hi). entry (mem s) (mm_pgt (mms s mm)) va AND PTE_V = 0"
    and len: "3 * length (page_range lo hi) \<le> length ps" and ne: "G Vma_alloc \<noteq> {}"
  obtains v s1 t m qs where "mm_create_vma mm s = Inr (v, s1)" "vm_only s s1"
    "mm_mappages v (set_area v lo hi rw_user (s1\<lparr>proc_pool := pool v\<rparr>)) = Inr (0, t)"
    "kfold (zero_user_page mm) (page_range lo hi) t = Inr (t\<lparr>mem := m\<rparr>)"
    "vm_only (s\<lparr>proc_pool := pool v\<rparr>) (t\<lparr>mem := m\<rparr>)"
    "extended s mm ps G (lo, hi, rw_user, \<lambda>_. 0) v (t\<lparr>mem := m\<rparr>) qs"
proof -
  note d = stageD [OF st refl]
  have fa: "file_at E 0 0" by (simp add: file_at_def)
  obtain v s1 t m qs where r: "mm_create_vma mm s = Inr (v, s1)" "vm_only s s1"
    "mm_mappages v (set_area v lo hi rw_user (s1\<lparr>proc_pool := pool v\<rparr>)) = Inr (0, t)"
    "kfold (fill_segment_page mm 0) (page_range lo hi) ((0, 0), t) = Inr ((min 0 (hi - lo), 0 - min 0 (hi - lo)), t\<lparr>mem := m\<rparr>)"
    "vm_only (s\<lparr>proc_pool := pool v\<rparr>) (t\<lparr>mem := m\<rparr>)"
    "extended s mm ps G (lo, hi, rw_user, \<lambda>a. file_byte (mem s) 0 0 (a - lo)) v (t\<lparr>mem := m\<rparr>) qs"
    by (rule area_filled [OF d(1,2) refl ne fits rw_user_bits(2) ord inv len d(4) fa])
  have "kfold (zero_user_page mm) (page_range lo hi) t = Inr (t\<lparr>mem := m\<rparr>)"
    using r(4) unfolding fill_zero_loop by (cases "kfold (zero_user_page mm) (page_range lo hi) t") simp_all
  then show thesis using that [OF r(1-3) _ r(5)] r(6) by (simp add: file_byte_def)
qed

section \<open>The trap frame\<close>

lemma stage_write:
  assumes st: "stage s mm P ps G E parts" and oi: "only_in Q (mem s) m" and Q: "\<forall>x \<in> Q. PGALIGNED x" "Q \<inter> P = {}" "apart s Q"
  shows "stage (s\<lparr>mem := m\<rparr>) mm P ps G E parts" "adv Q s (s\<lparr>mem := m\<rparr>) ps G"
    "entry m (mm_pgt (mms s mm)) = entry (mem s) (mm_pgt (mms s mm))"
proof -
  define root where "root = mm_pgt (mms s mm)"
  note d = stageD [OF st root_def]
  have dj: "Q \<inter> set ps = {}" "Q \<inter> tables (mem s) root = {}" "Q \<inter> page_of (mem s) root ` set (all_pages parts) = {}" using d(6,7) Q(2) by auto
  show a: "adv Q s (s\<lparr>mem := m\<rparr>) ps G" by (rule world_store [OF d(1) oi Q(1,3) dj(1)])
  note g = adv_good [OF a d(2) dj(2) subset_refl]
  show "entry m (mm_pgt (mms s mm)) = entry (mem s) (mm_pgt (mms s mm))" using g(2) by (simp add: root_def)
  have T: "tables m root = tables (mem s) root" "entry m root = entry (mem s) root" using g(2,3) by simp_all
  have win: "within s (s\<lparr>mem := m\<rparr>) root ps ps" by (simp add: within_def T)
  have sh: "space_holds (s\<lparr>mem := m\<rparr>) root ps parts"
    by (rule space_holds_kept(1) [OF a dj(3) win d(3)]) (simp add: T)
  have im: "image_in (s\<lparr>mem := m\<rparr>) root ps E"
    using d(4) by (simp add: image_in_def T apart_def page_mapped_def mapped_def)
  have "page_of m root = page_of (mem s) root" by (simp add: fun_eq_iff page_of_def T)
  then show "stage (s\<lparr>mem := m\<rparr>) mm P ps G E parts"
    using st advD(2) [OF a] g(1) sh im unfolding stage_def Let_def by (simp add: root_def [symmetric] T)
qed

lemma stage_pool: "stage (s\<lparr>proc_pool := x\<rparr>) mm P ps G E parts = stage s mm P ps G E parts"
proof -
  have "part_page (s\<lparr>proc_pool := x\<rparr>) root ps fl c va = part_page s root ps fl c va" for root fl c va
    by (simp add: part_page_def managed_def apart_def)
  then have "space_holds (s\<lparr>proc_pool := x\<rparr>) root ps parts = space_holds s root ps parts" for root
    by (simp add: space_holds_def part_loaded_def)
  moreover have "image_in (s\<lparr>proc_pool := x\<rparr>) root ps E = image_in s root ps E" for root
    by (simp add: image_in_def apart_def page_mapped_def mapped_def)
  ultimately show ?thesis by (simp add: stage_def)
qed

text \<open>Registers 3 and 6 of the trap frame are the program counter and the stack pointer.\<close>

lemma frame_entry:
  assumes "page_mapped s tf" and "PGALIGNED tf"
  obtains m where "store64 (tf + TF_sp) sp s = Inr (s\<lparr>mem := st64 (mem s) (tf + TF_sp) sp\<rparr>)"
    "store64 (tf + TF_epc) pc (s\<lparr>mem := st64 (mem s) (tf + TF_sp) sp\<rparr>) = Inr (s\<lparr>mem := m\<rparr>)" "only_in {tf} (mem s) m"
    "\<forall>i < 512. ld64 m (slot tf i) = (if i = 3 then pc else if i = 6 then sp else ld64 (mem s) (slot tf i))"
proof -
  define m1 where "m1 = st64 (mem s) (slot tf 6) sp"
  have sl: "tf + TF_sp = slot tf 6" "tf + TF_epc = slot tf 3" by (simp_all add: slot_def TF_sp_def TF_epc_def)
  have pm: "page_mapped (s\<lparr>mem := m1\<rparr>) tf" using assms(1) by (simp add: page_mapped_def mapped_def)
  have "only_in {tf} (mem s) m1" unfolding m1_def by (rule store_cell(3) [OF assms(1)]) simp
  then have "only_in {tf} (mem s) (st64 m1 (slot tf 3) pc)"
    by (rule only_in_trans) (use store_cell(3) [OF assms(1), of 3] in auto)
  then show thesis
    using that [of "st64 m1 (slot tf 3) pc"] store_cell(1) [OF assms(1), of 6 sp] store_cell(1) [OF pm, of 3 pc] assms(2)
    by (simp add: sl m1_def ld64_st64_slot)
qed

section \<open>The whole program\<close>

text \<open>
  What \<^verbatim>\<open>load_user_elf\<close> needs: an address space \<open>mm\<close> without areas and with nothing below the top of the stack, the
  program in \<open>E\<close>, a trap frame \<open>tf\<close> apart from it all, and enough pages and objects.
\<close>

definition load_ready ::
    "kst \<Rightarrow> nat \<Rightarrow> u64 \<Rightarrow> u64 set \<Rightarrow> u64 list \<Rightarrow> (alloc_id \<Rightarrow> u64 set) \<Rightarrow> u64 set \<Rightarrow> u64 \<Rightarrow> bool" where
  "load_ready s p mm P ps G E elf \<longleftrightarrow>
     (let parts = user_parts (mem s) elf; tf = p_trapframe (proc_pool s p) in
      stage s mm P ps G E [] \<and> mm = p_mm (proc_pool s p) \<and> p_state (proc_pool s p) \<noteq> UNUSED \<and> elf_ok (mem s) E elf \<and>
      (\<forall>va. PGALIGNED va \<longrightarrow> va < USTACK_START \<longrightarrow> entry (mem s) (mm_pgt (mms s mm)) va AND PTE_V = 0) \<and>
      3 * length (all_pages parts) \<le> length ps \<and> length parts \<le> card (G Vma_alloc) \<and>
      page_mapped s tf \<and> PGALIGNED tf \<and> tf \<notin> P \<and> apart s {tf})"

text \<open>Its outcome.\<close>

definition program_loaded ::
    "kst \<Rightarrow> nat \<Rightarrow> u64 \<Rightarrow> u64 set \<Rightarrow> u64 list \<Rightarrow> (alloc_id \<Rightarrow> u64 set) \<Rightarrow> u64 set \<Rightarrow> u64 \<Rightarrow> kst \<Rightarrow> u64 list \<Rightarrow> (alloc_id \<Rightarrow> u64 set) \<Rightarrow> bool" where
  "program_loaded s p mm P ps G E elf u qs H \<longleftrightarrow>
     (let parts = user_parts (mem s) elf; tf = p_trapframe (proc_pool s p); root = mm_pgt (mms s mm) in
      stage u mm P qs H E parts \<and> adv (insert tf P) s u qs H \<and> H Vma_alloc \<subseteq> G Vma_alloc \<and>
      (\<forall>va. PGALIGNED va \<longrightarrow> IS_USER_VA va \<longrightarrow> va \<notin> set (all_pages parts) \<longrightarrow> entry (mem u) root va = entry (mem s) root va) \<and>
      mm_pgt (mms u mm) = root \<and> mm_refcnt (mms u mm) = mm_refcnt (mms s mm) \<and> (\<forall>y. y \<noteq> mm \<longrightarrow> mms u y = mms s y) \<and>
      (\<forall>x. x \<notin> G Vma_alloc \<longrightarrow> vmas u x = vmas s x) \<and>
      (\<forall>i < 512. ld64 (mem u) (slot tf i) =
         (if i = 3 then e_entry (get_ehdr (mem s) elf) else if i = 6 then USTACK_START else ld64 (mem s) (slot tf i))) \<and>
      (\<exists>brk stk. proc_pool u = (proc_pool s)(p := (proc_pool s p)\<lparr>p_vma_brk := brk, p_vma_ustack := stk, p_state := RUNNABLE\<rparr>)) \<and>
      task_queue u = task_queue s \<and> img u = img s \<and> next_pid u = next_pid s)"

lemma all_pages_rev: "length (all_pages (rev parts)) = length (all_pages parts)"
  by (induction parts) simp_all

text \<open>The loop over the headers, on the program's own list of segments.\<close>

lemma segments_loaded:
  assumes r: "load_ready s p mm P ps G E elf" and app: "elf = elf_address app"
  obtains u qs H where "kfold (load_segment app (get_ehdr (mem s) elf) p) [0..<unat (e_phnum (get_ehdr (mem s) elf))] (0, s) =
      Inr (prog_end (mem s) elf, u)" "vm_only s u"
    "stage u mm P qs H E (rev (prog_parts (mem s) elf))" "loads s mm P ps G (prog_parts (mem s) elf) u qs H"
    "PGALIGNED (prog_end (mem s) elf)" "unat (prog_end (mem s) elf) \<le> 0xfffe8000"
    "\<forall>va. PGALIGNED va \<longrightarrow> 0xfffe8000 \<le> unat va \<longrightarrow> va < USTACK_START \<longrightarrow> entry (mem u) (mm_pgt (mms s mm)) va AND PTE_V = 0"
proof -
  note d = r [unfolded load_ready_def Let_def]
  let ?eh = "get_ehdr (mem s) elf" and ?new = "prog_parts (mem s) elf" and ?root = "mm_pgt (mms s mm)"
  have el: "elf_ok (mem s) E elf" using d by blast
  have fits: "\<forall>ph \<in> set (loadable (mem s) elf). seg_fits E elf ph" using el by (simp add: elf_ok_def)
  have dist: "distinct (all_pages ?new)" using el by (simp add: elf_ok_def)
  have hdr: "\<forall>i \<in> set [0..<unat (e_phnum ?eh)]. file_at E (phdr_addr (mem s) elf i) 56" using el by (simp add: elf_ok_def)
  have us: "PGALIGNED va \<and> unat va < 0xfffe8000" if "va \<in> set (all_pages ?new)" for va
    using all_pages_user(1,3) [OF fits, of va "mem s"] that by (simp add: prog_parts_def)
  have free: "entry (mem s) ?root va AND PTE_V = 0" if "PGALIGNED va" "unat va < 0xffff0000" for va
  proof -
    have "va < USTACK_START" using that(2) by (simp add: word_less_nat_alt USTACK_START_def)
    then show ?thesis using d that(1) by blast
  qed
  have inv: "\<forall>va \<in> set (all_pages ?new). entry (mem s) ?root va AND PTE_V = 0"
  proof
    fix va assume "va \<in> set (all_pages ?new)"
    from us [OF this] show "entry (mem s) ?root va AND PTE_V = 0" by (intro free) simp_all
  qed
  have len: "3 * length (all_pages ?new) \<le> length ps" "length ?new \<le> card (G Vma_alloc)"
    using d by (simp_all add: user_parts_def all_pages_rev)
  have "\<exists>u qs H. kfold (load_segment app ?eh p) [0..<unat (e_phnum ?eh)] (0, s) = Inr (fold seg_top (loadable (mem s) elf) 0, u) \<and>
    vm_only s u \<and> stage u mm P qs H E (rev ?new @ []) \<and> loads s mm P ps G ?new u qs H \<and> same_on E (mem s) (mem u)"
  proof (rule load_segments_ok [where hdr = "phdr_addr (mem s) elf" and ?s0.0 = s])
    show "\<forall>i \<in> set [0..<unat (e_phnum ?eh)]. file_at E (phdr_addr (mem s) elf i) 56" by (rule hdr)
    show "distinct (all_pages ?new)" "\<forall>va \<in> set (all_pages ?new). entry (mem s) ?root va AND PTE_V = 0" by (rule dist, rule inv)
    show "3 * length (all_pages ?new) \<le> length ps" "length ?new \<le> card (G Vma_alloc)" by (rule len)+
    show "stage s mm P ps G E []" "mm = p_mm (proc_pool s p)" using d by blast+
    show "same_on E (mem s) (mem s)" by (simp add: same_on_def)
    show "\<forall>ph \<in> set (loadable (mem s) elf). seg_fits E (elf_address app) ph" using fits by (simp add: app)
  qed (simp_all add: phdr_addr_def app loadable_def prog_parts_def)
  then obtain u qs H where u: "kfold (load_segment app ?eh p) [0..<unat (e_phnum ?eh)] (0, s) = Inr (prog_end (mem s) elf, u)"
    "vm_only s u" "stage u mm P qs H E (rev ?new)" "loads s mm P ps G ?new u qs H"
    by (auto simp: prog_end_def)
  have pe: "PGALIGNED (prog_end (mem s) elf)" "unat (prog_end (mem s) elf) \<le> 0xfffe8000"
    using prog_end_ok [OF fits, of 0] by (simp_all add: prog_end_def)
  have "entry (mem u) ?root va AND PTE_V = 0" if va: "PGALIGNED va" "0xfffe8000 \<le> unat va" "va < USTACK_START" for va
  proof -
    have l: "unat va < 0xffff0000" using va(3) by (simp add: word_less_nat_alt USTACK_START_def)
    have "va \<notin> set (all_pages ?new)" using us [of va] va(2) by linarith
    moreover have "IS_USER_VA va" using l by (simp add: IS_USER_VA_def MAXVA_def word_le_nat_alt)
    ultimately show ?thesis using loadsD(5) [OF u(4) va(1)] free [OF va(1) l] by simp
  qed
  then show thesis using that u pe by blast
qed

text \<open>The heap and the stack.\<close>

lemma part_pages_eq:
  "part_pages (lo, hi, fl, c) = page_range lo hi" "part_pages (brk_part e) = []"
  "part_pages stack_part = page_range (USTACK_START - USTACK_SIZE) USTACK_START"
  by (simp_all add: part_pages_def brk_part_def stack_part_def)

lemma heap_and_stack:
  assumes st: "stage s mm P ps G E parts" and e: "PGALIGNED e" "unat e \<le> 0xfffe8000" and room: "24 \<le> length ps" "2 \<le> card (G Vma_alloc)"
    and free: "\<And>va. PGALIGNED va \<Longrightarrow> 0xfffe8000 \<le> unat va \<Longrightarrow> va < USTACK_START \<Longrightarrow> entry (mem s) (mm_pgt (mms s mm)) va AND PTE_V = 0"
  obtains brk s1 t stk t1 t2 m qs H where "mm_create_vma mm s = Inr (brk, s1)" "proc_pool s1 = proc_pool s"
    "mm_mappages brk (set_area brk e e rw_user (s1\<lparr>proc_pool := pool1 brk\<rparr>)) = Inr (0, t)" "proc_pool t = pool1 brk"
    "mm_create_vma mm t = Inr (stk, t1)" "proc_pool t1 = pool1 brk"
    "mm_mappages stk (set_area stk (USTACK_START - USTACK_SIZE) USTACK_START rw_user (t1\<lparr>proc_pool := pool2 brk stk\<rparr>)) = Inr (0, t2)"
    "vm_start (vmas t2 stk) = USTACK_START - USTACK_SIZE" "vm_end (vmas t2 stk) = USTACK_START"
    "kfold (zero_user_page mm) (page_range (USTACK_START - USTACK_SIZE) USTACK_START) t2 = Inr (t2\<lparr>mem := m\<rparr>)"
    "stage (t2\<lparr>mem := m\<rparr>) mm P qs H E (stack_part # brk_part e # parts)" "loads s mm P ps G [brk_part e, stack_part] (t2\<lparr>mem := m\<rparr>) qs H"
    "vm_only (s\<lparr>proc_pool := pool2 brk stk\<rparr>) (t2\<lparr>mem := m\<rparr>)"
proof -
  have ne: "G Vma_alloc \<noteq> {}" using room(2) by auto
  have bf: "vma_fits (area_of mm 0 e e rw_user)" using e by (intro user_area_fits) simp_all
  obtain brk s1 t0 m0 qs where a: "mm_create_vma mm s = Inr (brk, s1)" "vm_only s s1"
    "mm_mappages brk (set_area brk e e rw_user (s1\<lparr>proc_pool := pool1 brk\<rparr>)) = Inr (0, t0)"
    "kfold (zero_user_page mm) (page_range e e) t0 = Inr (t0\<lparr>mem := m0\<rparr>)"
    "vm_only (s\<lparr>proc_pool := pool1 brk\<rparr>) (t0\<lparr>mem := m0\<rparr>)" "extended s mm ps G (e, e, rw_user, \<lambda>_. 0) brk (t0\<lparr>mem := m0\<rparr>) qs"
    by (rule zero_area [OF st bf order.refl _ _ ne, where pool = pool1]) simp_all
  have t0: "t0\<lparr>mem := m0\<rparr> = t0" using a(4) by simp
  have ex: "extended s mm ps G (brk_part e) brk t0 qs" using a(6) by (simp add: t0 brk_part_def)
  note st1 = stage_extended(1) [OF st ex] and lo1 = loads_extended [OF st ex]
  have st1: "stage t0 mm P qs (taken Vma_alloc brk G) E (brk_part e # parts)" by (rule st1) (simp add: part_pages_eq)
  note ld = loadsD [OF lo1]
  let ?S = "page_range (USTACK_START - USTACK_SIZE) USTACK_START"
  have sf: "vma_fits (area_of mm 0 (USTACK_START - USTACK_SIZE) USTACK_START rw_user)"
    using stack_top by (intro user_area_fits stack_facts) simp_all
  have inv: "\<forall>va \<in> set ?S. entry (mem t0) (mm_pgt (mms t0 mm)) va AND PTE_V = 0"
  proof
    fix va assume "va \<in> set ?S"
    then have va: "PGALIGNED va" "USTACK_START - USTACK_SIZE \<le> va" "va < USTACK_START"
      using set_page_range [OF stack_facts(1,2)] by auto
    have u: "0xfffe8000 \<le> unat va" "unat va < 0xffff0000" using va(2,3) stack_top by (simp_all only: word_le_nat_alt word_less_nat_alt)
    have "IS_USER_VA va" using u by (simp add: IS_USER_VA_def MAXVA_def word_le_nat_alt)
    then show "entry (mem t0) (mm_pgt (mms t0 mm)) va AND PTE_V = 0"
      using ld(5) [OF va(1)] free [OF va(1) u(1) va(3)] by (simp add: ld(6) part_pages_eq)
  qed
  have ln: "3 * length ?S \<le> length qs" using ld(2) room(1) by (simp add: stack_facts(4) part_pages_eq)
  have ne2: "taken Vma_alloc brk G Vma_alloc \<noteq> {}"
  proof
    assume "taken Vma_alloc brk G Vma_alloc = {}"
    then have "card (taken Vma_alloc brk G Vma_alloc) = 0" by (simp only: card.empty)
    then show False using ld(3) room(2) by (simp del: fun_upd_apply fun_upd_same)
  qed
  obtain stk t1 t2 m rs where b: "mm_create_vma mm t0 = Inr (stk, t1)" "vm_only t0 t1"
    "mm_mappages stk (set_area stk (USTACK_START - USTACK_SIZE) USTACK_START rw_user (t1\<lparr>proc_pool := pool2 brk stk\<rparr>)) = Inr (0, t2)"
    "kfold (zero_user_page mm) ?S t2 = Inr (t2\<lparr>mem := m\<rparr>)"
    "vm_only (t0\<lparr>proc_pool := pool2 brk stk\<rparr>) (t2\<lparr>mem := m\<rparr>)"
    "extended t0 mm qs (taken Vma_alloc brk G) (USTACK_START - USTACK_SIZE, USTACK_START, rw_user, \<lambda>_. 0) stk (t2\<lparr>mem := m\<rparr>) rs"
    by (rule zero_area [OF st1 sf stack_facts(3) inv ln ne2, where pool = "pool2 brk"])
  have ex2: "extended t0 mm qs (taken Vma_alloc brk G) stack_part stk (t2\<lparr>mem := m\<rparr>) rs" using b(6) by (simp add: stack_part_def)
  let ?H = "taken Vma_alloc stk (taken Vma_alloc brk G)"
  have st2: "stage (t2\<lparr>mem := m\<rparr>) mm P rs ?H E (stack_part # brk_part e # parts)"
    by (rule stage_extended(1) [OF st1 ex2]) (simp add: part_pages_eq(3) inv)
  have lo: "loads s mm P ps G ([brk_part e] @ [stack_part]) (t2\<lparr>mem := m\<rparr>) rs ?H"
    by (rule loads_trans [OF lo1 loads_extended [OF st1 ex2]])
  have vo: "vm_only (s\<lparr>proc_pool := pool2 brk stk\<rparr>) (t2\<lparr>mem := m\<rparr>)"
    using vm_only_trans [OF vm_only_pool [OF a(5) [unfolded t0], of "pool2 brk stk"] b(5)] by simp
  have sel: "proc_pool s1 = proc_pool s" "proc_pool t0 = pool1 brk" "proc_pool t1 = proc_pool t0"
    using vm_only_sel(4) [OF a(2)] vm_only_sel(4) [OF a(5)] vm_only_sel(4) [OF b(2)] by (simp_all add: t0)
  have v: "vm_start (vmas t2 stk) = USTACK_START - USTACK_SIZE" "vm_end (vmas t2 stk) = USTACK_START"
    using extendedD(12) [OF ex2 refl] by (simp_all add: stack_part_def)
  show thesis
    by (rule that [OF a(1) sel(1) a(3) sel(2) b(1) _ b(3) v b(4) st2 _ vo]) (use sel lo in simp_all)
qed

lemma load_user_elf_ok:
  assumes r: "load_ready s p mm P ps G E (elf_address app)"
  obtains u qs H where "load_user_elf app p s = Inr u" "program_loaded s p mm P ps G E (elf_address app) u qs H"
proof -
  define elf where "elf = elf_address app"
  note r = r [folded elf_def] and d = r [folded elf_def, unfolded load_ready_def Let_def]
  let ?eh = "get_ehdr (mem s) elf" and ?root = "mm_pgt (mms s mm)" and ?tf = "p_trapframe (proc_pool s p)" and ?e = "prog_end (mem s) elf"
  let ?segs = "prog_parts (mem s) elf" and ?parts = "user_parts (mem s) elf"
  define pool1 where "pool1 = (\<lambda>brk. (proc_pool s)(p := (proc_pool s p)\<lparr>p_vma_brk := brk\<rparr>))"
  define pool2 where "pool2 = (\<lambda>brk stk. (proc_pool s)(p := (proc_pool s p)\<lparr>p_vma_brk := brk, p_vma_ustack := stk\<rparr>))"
  have mm: "mm = p_mm (proc_pool s p)" and st: "stage s mm P ps G E []" using d by blast+
  have len: "3 * length (all_pages ?segs) + 24 \<le> length ps" "length ?segs + 2 \<le> card (G Vma_alloc)"
    using d by (simp_all add: user_parts_def all_pages_rev part_pages_eq stack_facts(4))
  obtain u1 ps1 G1 where a: "kfold (load_segment app ?eh p) [0..<unat (e_phnum ?eh)] (0, s) = Inr (?e, u1)" "vm_only s u1"
    "stage u1 mm P ps1 G1 E (rev ?segs)" "loads s mm P ps G ?segs u1 ps1 G1" "PGALIGNED ?e" "unat ?e \<le> 0xfffe8000"
    "\<forall>va. PGALIGNED va \<longrightarrow> 0xfffe8000 \<le> unat va \<longrightarrow> va < USTACK_START \<longrightarrow> entry (mem u1) ?root va AND PTE_V = 0"
    by (rule segments_loaded [OF r elf_def])
  note ld1 = loadsD [OF a(4)] and p1 = vm_only_sel [OF a(2)]
  have free1: "\<And>va. PGALIGNED va \<Longrightarrow> 0xfffe8000 \<le> unat va \<Longrightarrow> va < USTACK_START \<Longrightarrow> entry (mem u1) (mm_pgt (mms u1 mm)) va AND PTE_V = 0"
    unfolding ld1(6) using a(7) by blast
  have room: "24 \<le> length ps1" "2 \<le> card (G1 Vma_alloc)" using len ld1(2,3) by simp_all
  obtain brk s1 t stk t1 t2 m qs H where b: "mm_create_vma mm u1 = Inr (brk, s1)" "proc_pool s1 = proc_pool u1"
    "mm_mappages brk (set_area brk ?e ?e rw_user (s1\<lparr>proc_pool := pool1 brk\<rparr>)) = Inr (0, t)" "proc_pool t = pool1 brk"
    "mm_create_vma mm t = Inr (stk, t1)" "proc_pool t1 = pool1 brk"
    "mm_mappages stk (set_area stk (USTACK_START - USTACK_SIZE) USTACK_START rw_user (t1\<lparr>proc_pool := pool2 brk stk\<rparr>)) = Inr (0, t2)"
    "vm_start (vmas t2 stk) = USTACK_START - USTACK_SIZE" "vm_end (vmas t2 stk) = USTACK_START"
    "kfold (zero_user_page mm) (page_range (USTACK_START - USTACK_SIZE) USTACK_START) t2 = Inr (t2\<lparr>mem := m\<rparr>)"
    "stage (t2\<lparr>mem := m\<rparr>) mm P qs H E (stack_part # brk_part ?e # rev ?segs)"
    "loads u1 mm P ps1 G1 [brk_part ?e, stack_part] (t2\<lparr>mem := m\<rparr>) qs H"
    "vm_only (u1\<lparr>proc_pool := pool2 brk stk\<rparr>) (t2\<lparr>mem := m\<rparr>)"
    by (rule heap_and_stack [OF a(3,5,6) room free1, where ?pool1.0 = pool1 and ?pool2.0 = pool2])
  define u3 where "u3 = t2\<lparr>mem := m\<rparr>"
  note p3 = vm_only_sel [OF b(13), folded u3_def] and lo = loads_trans [OF a(4) b(12), folded u3_def]
  note ld = loadsD [OF lo]
  have st3: "stage u3 mm P qs H E ?parts" using b(11) by (simp add: u3_def user_parts_def)
  have pu3: "proc_pool u3 = pool2 brk stk" using p3(4) by simp
  have tf: "page_mapped u3 ?tf" "PGALIGNED ?tf" "?tf \<notin> P" "apart u3 {?tf}"
    using d same_layoutD(2) [OF advD(4) [OF ld(1)], of ?tf] advD(5) [OF ld(1), of "{?tf}"] by simp_all
  obtain m3 where f: "store64 (?tf + TF_sp) USTACK_START u3 = Inr (u3\<lparr>mem := st64 (mem u3) (?tf + TF_sp) USTACK_START\<rparr>)"
    "store64 (?tf + TF_epc) (e_entry ?eh) (u3\<lparr>mem := st64 (mem u3) (?tf + TF_sp) USTACK_START\<rparr>) = Inr (u3\<lparr>mem := m3\<rparr>)"
    "only_in {?tf} (mem u3) m3"
    "\<forall>i < 512. ld64 m3 (slot ?tf i) = (if i = 3 then e_entry ?eh else if i = 6 then USTACK_START else ld64 (mem u3) (slot ?tf i))"
    by (rule frame_entry [OF tf(1,2)])
  define pool3 where "pool3 = (proc_pool s)(p := (proc_pool s p)\<lparr>p_vma_brk := brk, p_vma_ustack := stk, p_state := RUNNABLE\<rparr>)"
  define u where "u = u3\<lparr>mem := m3, proc_pool := pool3\<rparr>"
  have sw: "stage (u3\<lparr>mem := m3\<rparr>) mm P qs H E ?parts" "adv {?tf} u3 (u3\<lparr>mem := m3\<rparr>) qs H"
    "entry m3 (mm_pgt (mms u3 mm)) = entry (mem u3) (mm_pgt (mms u3 mm))"
    by (rule stage_write [OF st3 f(3)]; use tf in simp)+
  have stu: "stage u mm P qs H E ?parts" using sw(1) by (simp add: u_def stage_pool)
  have adv: "adv (insert ?tf P) s u qs H"
  proof -
    have "adv (insert ?tf P) s u3 qs H" by (rule adv_mono [OF ld(1)]) blast
    also have "adv (insert ?tf P) u3 (u3\<lparr>mem := m3\<rparr>) qs H" by (rule adv_mono [OF sw(2)]) blast
    also have "adv (insert ?tf P) (u3\<lparr>mem := m3\<rparr>) u qs H" unfolding u_def
      using adv_mono [OF adv_upd(3) [OF advD(2) [OF sw(2)]], of "insert ?tf P" pool3] by simp
    finally show ?thesis .
  qed
  have tfs: "same_on {?tf} (mem s) (mem u3)" by (rule keptD [OF advD(3) [OF ld(1)]]) (use d in auto)
  have sel: "mem u = m3" "mms u = mms u3" "vmas u = vmas u3" "proc_pool u = pool3" "task_queue u = task_queue s" "img u = img s" "next_pid u = next_pid s"
    using p3 p1 by (simp_all add: u_def)
  have en: "entry (mem u) ?root va = entry (mem s) ?root va" if "PGALIGNED va" "IS_USER_VA va" "va \<notin> set (all_pages ?parts)" for va
  proof -
    have "va \<notin> set (all_pages (?segs @ [brk_part ?e, stack_part]))" using that(3) by (auto simp: user_parts_def)
    then show ?thesis using ld(5) [OF that(1,2)] sw(3) by (simp add: sel ld(6))
  qed
  have fr: "ld64 (mem u) (slot ?tf i) = (if i = 3 then e_entry ?eh else if i = 6 then USTACK_START else ld64 (mem s) (slot ?tf i))" if "i < 512" for i
    using f(4) [rule_format, OF that] same_on_ld64 [OF tfs _ that] by (simp add: sel)
  have pl: "program_loaded s p mm P ps G E elf u qs H"
    unfolding program_loaded_def Let_def
    using stu adv ld(4) en fr by (simp add: sel ld(6-9) pool3_def) blast
  have run: "load_user_elf app p s = Inr u"
  proof -
    have "load_ehdr elf s = Inr ?eh"
      using file_mapped [OF stageD(4) [OF st refl], of elf 64] d by (simp add: load_ehdr_def elf_ok_def)
    moreover have "p_state (proc_pool s p) \<noteq> UNUSED" using d by blast
    moreover have "p_mm (proc_pool u1 p) = mm" using mm p1(4) by simp
    moreover have "upd_proc p (\<lambda>q. q\<lparr>p_vma_brk := brk\<rparr>) s1 = s1\<lparr>proc_pool := pool1 brk\<rparr>"
      by (simp add: upd_proc_def b(2) p1(4) pool1_def)
    moreover have "upd_proc p (\<lambda>q. q\<lparr>p_vma_ustack := stk\<rparr>) t1 = t1\<lparr>proc_pool := pool2 brk stk\<rparr>"
      by (simp add: upd_proc_def b(6) pool1_def pool2_def)
    moreover have "proc_pool (t2\<lparr>mem := m\<rparr>) p = (proc_pool s p)\<lparr>p_vma_brk := brk, p_vma_ustack := stk\<rparr>"
      using pu3 by (simp add: u3_def pool2_def)
    moreover have "upd_proc p (\<lambda>q. q\<lparr>p_state := RUNNABLE\<rparr>) (u3\<lparr>mem := m3\<rparr>) = u"
      using pu3 by (simp add: upd_proc_def u_def pool2_def pool3_def)
    ultimately show ?thesis
      using a(1) b(1,3,5,7-10) f(1,2)
      by (simp add: load_user_elf_def elf_def [symmetric] Let_def rw_user_def [symmetric] u3_def [symmetric])
        (simp add: u3_def)
  qed
  show thesis using that run pl by (simp add: elf_def)
qed

end
