(* ===== verification/VmFree.thy ===== *)
theory VmFree imports VmCopy begin

text \<open>
  \<^verbatim>\<open>mm_free_pages\<close> and \<^verbatim>\<open>mm_free\<close> of \<^verbatim>\<open>os/vm.c\<close>, which \<^verbatim>\<open>exec\<close> and \<^verbatim>\<open>freeproc\<close> rely on: the pages of the
  areas and the objects go back to their allocators, and no other address space is touched. The tables
  below the root do not.
\<close>

section \<open>Giving back an object\<close>

definition objects_of :: "kst \<Rightarrow> alloc_id \<Rightarrow> u64 set" where
  "objects_of s A = obj_addr (allocs s A) ` {..<unat (max_count (allocs s A))}"

lemma kfree_step:
  assumes ok: "objs_ok s A" "k_ready s" "k_free (L_alloc A) s" "free_objects s A F"
    and p: "p \<in> objects_of s A" "p \<notin> F"
  obtains s1 where "kfree A p s = Inr s1" "free_objects s1 A (insert p F)" "objs_ok s1 A" "same_layout s s1"
    "freelist s1 = freelist s" "mms s1 = mms s" "vmas s1 = vmas s" "objects_of s1 A = objects_of s A"
    "obj_region (allocs s1 A) = obj_region (allocs s A)" "only_region (allocs s A) (mem s) (mem s1)"
    "\<And>B. B \<noteq> A \<Longrightarrow> allocs s1 B = allocs s B" "vm_only s s1"
proof -
  let ?U = "insert p F"
  have FU: "F \<subseteq> objects_of s A" using ok(4) by (simp add: free_objects_def Let_def objects_of_def)
  have "obj_inv A s ?U F s"
    using ok p FU by (auto simp: obj_inv_def only_counters_def only_objects_def objects_of_def)
  from ka.put_held [OF this _ p(2)] obtain t where t: "kfree A p s = Inr t" "obj_inv A s ?U ?U t"
    by blast
  have oc: "only_counters A s t" and fo: "free_objects t A ?U" and oo: "only_objects (allocs s A) ?U (mem s) (mem t)"
    using t(2) by (auto simp: obj_inv_def)
  note sel = only_counters_sel [OF oc] and oth = only_counters_other [OF oc] and rdy = obj_inv_ready [OF t(2)]
  have vo: "vm_only s t" using only_counters_vm_only [OF oc] t(2) by (simp add: obj_inv_def)
  then have "same_layout s t" by (rule vm_only_layout)
  moreover have "obj_region (allocs t A) = obj_region (allocs s A)" by (simp add: fun_eq_iff obj_region_def sel oth)
  moreover have "only_region (allocs s A) (mem s) (mem t)"
    unfolding only_region_def
  proof (intro allI impI)
    fix x assume x: "\<not> obj_region (allocs s A) x"
    have "\<not> in_object (allocs s A) q x" if "q \<in> ?U" for q
      using that FU p(1) in_object_range [OF ok(1) _ refl, of _ x] x by (auto simp: obj_region_def objects_of_def)
    then show "mem t x = mem s x" using oo x by (auto simp: only_objects_def obj_region_def)
  qed
  moreover have "allocs t B = allocs s B" if "B \<noteq> A" for B using only_counters_same(2) [OF oc] that by (metis fun_upd_other)
  moreover have "objects_of t A = objects_of s A" by (simp add: objects_of_def sel)
  ultimately show thesis using that [OF t(1) fo rdy(3)] oth(1-3) vo by blast
qed

section \<open>An address space of its own\<close>

text \<open>
  What the loop over the areas keeps: the tables are well formed, the pool of areas has the objects
  \<open>F\<close> free, and pool, tables and free pages are apart.
\<close>

definition space_ok :: "kst \<Rightarrow> u64 \<Rightarrow> u64 list \<Rightarrow> u64 set \<Rightarrow> bool" where
  "space_ok s root ps F \<longleftrightarrow>
     vm_ok s root ps \<and> objs_ok s Vma_alloc \<and> k_free (L_alloc Vma_alloc) s \<and> free_objects s Vma_alloc F \<and>
     objs_apart (allocs s Vma_alloc) (tables (mem s) root \<union> set ps)"

text \<open>The areas \<open>xs\<close> of the address space \<open>mm\<close>, with pages of their own.\<close>

definition own_page :: "kst \<Rightarrow> u64 \<Rightarrow> u64 list \<Rightarrow> u64 \<Rightarrow> bool" where
  "own_page s root ps va \<longleftrightarrow>
     entry (mem s) root va AND PTE_V \<noteq> 0 \<and> managed s (page_of (mem s) root va) \<and>
     page_of (mem s) root va \<notin> tables (mem s) root \<union> set ps \<and> objs_apart (allocs s Vma_alloc) {page_of (mem s) root va}"

definition own_areas :: "kst \<Rightarrow> u64 \<Rightarrow> u64 \<Rightarrow> u64 list \<Rightarrow> u64 list \<Rightarrow> bool" where
  "own_areas s mm root ps xs \<longleftrightarrow>
     (\<forall>x \<in> set xs. vma_owner (vmas s x) = mm \<and> vma_fits (vmas s x)) \<and>
     (\<forall>va \<in> set (area_pages (vmas s) xs). own_page s root ps va) \<and>
     distinct (area_pages (vmas s) xs) \<and> inj_on (page_of (mem s) root) (set (area_pages (vmas s) xs))"

definition pages_of :: "kst \<Rightarrow> u64 \<Rightarrow> u64 list \<Rightarrow> u64 list" where
  "pages_of s root xs = map (page_of (mem s) root) (area_pages (vmas s) xs)"

lemma area_pages_Cons: "area_pages f (x # xs) = vma_pages (f x) @ area_pages f xs"
  by (simp add: area_pages_def)

lemma area_pages_user:
  "own_areas s mm root ps xs \<Longrightarrow> va \<in> set (area_pages (vmas s) xs) \<Longrightarrow> IS_USER_VA va \<and> PGALIGNED va"
  using vma_pages_user by (auto simp: own_areas_def area_pages_def)

lemma vma_chain_unique: "vma_chain f l xs \<Longrightarrow> vma_chain f l ys \<Longrightarrow> xs = ys"
proof (induction xs arbitrary: l ys)
  case Nil
  then show ?case by (cases ys) auto
next
  case (Cons x xs)
  then show ?case by (cases ys) auto
qed

lemma vma_chain_suffix: "vma_chain f l (xs @ y # ys) \<Longrightarrow> vma_chain f y (y # ys)"
  by (induction xs arbitrary: l) auto

lemma vma_chain_distinct: "vma_chain f l xs \<Longrightarrow> distinct xs"
proof (rule ccontr)
  assume c: "vma_chain f l xs" and "\<not> distinct xs"
  then obtain as y bs cs where "xs = as @ [y] @ bs @ [y] @ cs" using not_distinct_decomp by blast
  then have "vma_chain f y (y # bs @ y # cs)" "vma_chain f y (y # cs)"
    using c vma_chain_suffix [of f l as y "bs @ y # cs"] vma_chain_suffix [of f l "as @ y # bs" y cs] by simp_all
  then have "y # bs @ y # cs = y # cs" by (rule vma_chain_unique)
  then show False by simp
qed

text \<open>The outcome of freeing the areas \<open>xs\<close>.\<close>

definition areas_freed :: "kst \<Rightarrow> u64 \<Rightarrow> u64 list \<Rightarrow> u64 set \<Rightarrow> u64 list \<Rightarrow> kst \<Rightarrow> bool" where
  "areas_freed s root ps F xs s' \<longleftrightarrow>
     space_ok s' root (rev (pages_of s root xs) @ ps) (F \<union> set xs) \<and>
     (\<forall>va. PGALIGNED va \<longrightarrow> IS_USER_VA va \<longrightarrow> entry (mem s') root va =
        (if va \<in> set (area_pages (vmas s) xs) then 0 else entry (mem s) root va)) \<and>
     tables (mem s') root = tables (mem s) root \<and> vm_only s s' \<and> mms s' = mms s \<and> vmas s' = vmas s \<and>
     (\<forall>B. B \<noteq> Vma_alloc \<longrightarrow> allocs s' B = allocs s B) \<and>
     obj_region (allocs s' Vma_alloc) = obj_region (allocs s Vma_alloc) \<and>
     objects_of s' Vma_alloc = objects_of s Vma_alloc \<and>
     (\<forall>x. \<not> obj_region (allocs s Vma_alloc) x \<longrightarrow>
        (\<forall>t \<in> tables (mem s) root \<union> set (pages_of s root xs). \<not> in_page t x) \<longrightarrow> mem s' x = mem s x)"

lemma areas_freed_Nil: "space_ok s root ps F \<Longrightarrow> areas_freed s root ps F [] s"
  by (simp add: areas_freed_def pages_of_def area_pages_def)

lemma own_areasD:
  assumes "own_areas s mm root ps (x # xs)"
  shows "vma_owner (vmas s x) = mm" "vma_fits (vmas s x)" "own_areas s mm root ps xs"
    "va \<in> set (vma_pages (vmas s x)) \<Longrightarrow> own_page s root ps va"
    "inj_on (page_of (mem s) root) (set (vma_pages (vmas s x)))"
    "set (vma_pages (vmas s x)) \<inter> set (area_pages (vmas s) xs) = {}"
    "set (map (page_of (mem s) root) (vma_pages (vmas s x))) \<inter> set (pages_of s root xs) = {}"
proof -
  note a = assms [unfolded own_areas_def area_pages_Cons]
  let ?A = "set (vma_pages (vmas s x))" and ?B = "set (area_pages (vmas s) xs)"
  show "vma_owner (vmas s x) = mm" "vma_fits (vmas s x)" "va \<in> ?A \<Longrightarrow> own_page s root ps va" using a by simp_all
  show dj: "?A \<inter> ?B = {}" using a by simp
  have inj: "inj_on (page_of (mem s) root) (?A \<union> ?B)" using a by simp
  then show "inj_on (page_of (mem s) root) ?A" by (rule inj_on_subset) simp
  have "inj_on (page_of (mem s) root) ?B" using inj by (rule inj_on_subset) simp
  then show "own_areas s mm root ps xs" using a by (simp add: own_areas_def)
  show "set (map (page_of (mem s) root) (vma_pages (vmas s x))) \<inter> set (pages_of s root xs) = {}"
    using inj_on_image_Int [OF inj, of ?A ?B] dj by (simp add: pages_of_def)
qed

text \<open>One round of the loop of \<^verbatim>\<open>mm_free_pages\<close>.\<close>

lemma free_area:
  assumes ok: "space_ok s root ps F" and root: "root = mm_pgt (mms s mm)" and own: "own_areas s mm root ps (x # xs)"
    and x: "x \<in> objects_of s Vma_alloc" "x \<notin> F" "x \<noteq> 0"
  obtains s1 where "\<forall>n. mm_free_loop (Suc n) x s = mm_free_loop n (vma_next (vmas s x)) s1"
    "areas_freed s root ps F [x] s1"
proof -
  let ?V = Vma_alloc
  let ?a = "allocs s ?V"
  define vs where "vs = vma_pages (vmas s x)"
  define qs where "qs = map (page_of (mem s) root) vs"
  have c: "vm_ok s root ps" "objs_ok s ?V" "k_free (L_alloc ?V) s" "free_objects s ?V F"
    and ap: "objs_apart ?a (tables (mem s) root)" "objs_apart ?a (set ps)"
    using ok by (simp_all add: space_ok_def)
  note o = own_areasD [OF own]
  have pg: "entry (mem s) root va AND PTE_V \<noteq> 0 \<and> managed s (page_of (mem s) root va) \<and>
      page_of (mem s) root va \<notin> tables (mem s) root \<and> page_of (mem s) root va \<notin> set ps" if "va \<in> set vs" for va
    using o(4) that by (simp add: own_page_def vs_def)
  have apq: "objs_apart ?a (set qs)"
    using o(4) by (auto simp: qs_def vs_def own_page_def objs_apart_def)
  obtain t where t: "freevma x True s = Inr t" "only_memory s t" "vm_ok t root (rev qs @ ps)"
    "\<forall>va. PGALIGNED va \<longrightarrow> IS_USER_VA va \<longrightarrow> entry (mem t) root va = (if va \<in> set vs then 0 else entry (mem s) root va)"
    "tables (mem t) root = tables (mem s) root" "only_in (set qs \<union> tables (mem s) root) (mem s) (mem t)"
    using freevma_eq [OF c(1) [unfolded root] refl o(1) [symmetric] o(2) root pg [unfolded vs_def] o(5)]
    unfolding qs_def vs_def set_map by metis
  note sel = only_memory_sel [OF t(2)]
  have fo: "free_objects t ?V F"
  proof (rule free_objects_cong [OF c(4) fun_cong [OF sel(2)] c(2)])
    fix y assume y: "in_page (bitmap ?a) y"
    show "mem t y = mem s y"
      by (rule only_in_apart_region [OF t(6)]) (use ap apq y in \<open>auto simp: obj_region_def\<close>)
  qed
  have rdy: "objs_ok t ?V" "k_ready t" "k_free (L_alloc ?V) t"
    using objs_ok_cong [OF c(2) fun_cong [OF sel(2)] sel(1)] vm_okD(4) [OF t(3)] c(3) by (simp_all add: sel)
  have "x \<in> objects_of t ?V" using x(1) by (simp add: objects_of_def sel)
  from kfree_step [OF rdy fo this x(2)] obtain s1 where s1: "kfree ?V x t = Inr s1" "free_objects s1 ?V (insert x F)"
    "objs_ok s1 ?V" "same_layout t s1" "freelist s1 = freelist t" "mms s1 = mms t" "vmas s1 = vmas t"
    "objects_of s1 ?V = objects_of t ?V" "obj_region (allocs s1 ?V) = obj_region (allocs t ?V)"
    "only_region (allocs t ?V) (mem t) (mem s1)" "\<And>B. B \<noteq> ?V \<Longrightarrow> allocs s1 B = allocs t B" "vm_only t s1"
    by metis
  have so: "same_on P (mem t) (mem s1)" if "objs_apart ?a P" for P
    using only_region_same_on [OF s1(10)] that by (simp add: sel)
  have apf: "objs_apart ?a (set (rev qs @ ps))" using apq ap(2) by simp
  have fp: "free_pages s1 (rev qs @ ps)"
    by (rule free_pages_transfer [OF vm_okD(6) [OF t(3)] so [OF apf] s1(4,5)])
  note tr = vm_ok_transfer [OF t(3) so fp subset_refl s1(4), unfolded t(5), OF ap(1)]
  have vo: "vm_only s s1" by (rule vm_only_trans [OF only_memory_vm_only [OF t(2)] s1(12)])
  note lay = vm_only_layout [OF vo]
  have reg: "obj_region (allocs s1 ?V) = obj_region ?a" using s1(9) by (simp add: sel)
  have "space_ok s1 root (rev qs @ ps) (insert x F)"
    unfolding space_ok_def tr(3)
    using tr(1) s1(2,3) c(3) same_layoutD(5) [OF lay] objs_apart_region [OF reg] ap apf by simp
  moreover have "mem s1 y = mem s y"
    if "\<not> obj_region ?a y" "\<forall>q \<in> tables (mem s) root \<union> set qs. \<not> in_page q y" for y
  proof -
    have "mem t y = mem s y" using t(6) that(2) unfolding only_in_def by blast
    then show ?thesis using that(1) s1(10) by (simp add: only_region_def sel)
  qed
  moreover have "pages_of s root [x] = qs" "set (area_pages (vmas s) [x]) = set vs"
    by (simp_all add: pages_of_def area_pages_def qs_def vs_def)
  ultimately have "areas_freed s root ps F [x] s1"
    unfolding areas_freed_def using t(4) tr(2,3) vo s1(6-8,11) reg by (simp add: sel objects_of_def)
  moreover have "\<forall>n. mm_free_loop (Suc n) x s = mm_free_loop n (vma_next (vmas s x)) s1"
    using x(3) t(1) s1(1) by (simp add: Let_def sel)
  ultimately show thesis using that by blast
qed

lemma areas_freedD:
  assumes "areas_freed s root ps F xs s'"
  shows "space_ok s' root (rev (pages_of s root xs) @ ps) (F \<union> set xs)"
    "PGALIGNED va \<Longrightarrow> IS_USER_VA va \<Longrightarrow> entry (mem s') root va =
        (if va \<in> set (area_pages (vmas s) xs) then 0 else entry (mem s) root va)"
    "tables (mem s') root = tables (mem s) root" "same_layout s s'" "mms s' = mms s" "vmas s' = vmas s"
    "vm_only s s'" "B \<noteq> Vma_alloc \<Longrightarrow> allocs s' B = allocs s B"
    "obj_region (allocs s' Vma_alloc) = obj_region (allocs s Vma_alloc)"
    "objects_of s' Vma_alloc = objects_of s Vma_alloc"
    "\<not> obj_region (allocs s Vma_alloc) x \<Longrightarrow>
        \<forall>t \<in> tables (mem s) root \<union> set (pages_of s root xs). \<not> in_page t x \<Longrightarrow> mem s' x = mem s x"
  using assms vm_only_layout [of s s'] unfolding areas_freed_def by blast+

text \<open>The other areas are as they were after one has been freed.\<close>

lemma own_areas_step:
  assumes own: "own_areas s mm root ps (x # xs)" and fr: "areas_freed s root ps F [x] s1"
  shows "own_areas s1 mm root (rev (pages_of s root [x]) @ ps) xs" "pages_of s1 root xs = pages_of s root xs"
    "va \<in> set (area_pages (vmas s) xs) \<Longrightarrow> entry (mem s1) root va = entry (mem s) root va"
proof -
  note o = own_areasD [OF own] and d = areas_freedD [OF fr]
  have one: "area_pages (vmas s) [x] = vma_pages (vmas s x)" by (simp add: area_pages_def)
  show en: "entry (mem s1) root va = entry (mem s) root va" if "va \<in> set (area_pages (vmas s) xs)" for va
    using d(2) area_pages_user [OF o(3) that] o(6) that unfolding one by auto
  then have pg: "page_of (mem s1) root va = page_of (mem s) root va" if "va \<in> set (area_pages (vmas s) xs)" for va
    using that by (simp add: page_of_def)
  show ps: "pages_of s1 root xs = pages_of s root xs" using pg by (simp add: pages_of_def d(6))
  have "own_page s1 root (rev (pages_of s root [x]) @ ps) va" if va: "va \<in> set (area_pages (vmas s) xs)" for va
  proof -
    have "page_of (mem s) root va \<in> set (pages_of s root xs)" using va by (simp add: pages_of_def)
    then have "page_of (mem s) root va \<notin> set (pages_of s root [x])" using o(7) by (auto simp: pages_of_def one)
    moreover have "own_page s root ps va" using o(3) va by (simp add: own_areas_def)
    ultimately show ?thesis
      using same_layoutD(1) [OF d(4)] objs_apart_region [OF d(9)] by (simp add: own_page_def en [OF va] pg [OF va] d(3))
  qed
  moreover have "inj_on (page_of (mem s1) root) (set (area_pages (vmas s) xs))"
    using o(3) pg by (simp add: own_areas_def inj_on_def)
  ultimately show "own_areas s1 mm root (rev (pages_of s root [x]) @ ps) xs"
    using o(3) by (simp add: own_areas_def d(6))
qed

lemma areas_freed_Cons:
  assumes own: "own_areas s mm root ps (x # xs)" and a: "areas_freed s root ps F [x] s1"
    and b: "areas_freed s1 root (rev (pages_of s root [x]) @ ps) (insert x F) xs s'"
  shows "areas_freed s root ps F (x # xs) s'"
proof -
  note d = areas_freedD [OF a] and e = areas_freedD [OF b] and st = own_areas_step [OF own a] and o = own_areasD [OF own]
  have cons: "pages_of s root (x # xs) = pages_of s root [x] @ pages_of s root xs"
    "area_pages (vmas s) (x # xs) = area_pages (vmas s) [x] @ area_pages (vmas s) xs"
    by (simp_all add: pages_of_def area_pages_def)
  have "space_ok s' root (rev (pages_of s root (x # xs)) @ ps) (F \<union> set (x # xs))"
    using e(1) by (simp add: st(2) cons(1))
  moreover have "entry (mem s') root va = (if va \<in> set (area_pages (vmas s) (x # xs)) then 0 else entry (mem s) root va)"
    if "PGALIGNED va" "IS_USER_VA va" for va
    using d(2) [OF that] e(2) [OF that] by (simp add: cons(2) d(6))
  moreover have "mem s' y = mem s y" if "\<not> obj_region (allocs s Vma_alloc) y"
    "\<forall>t \<in> tables (mem s) root \<union> set (pages_of s root (x # xs)). \<not> in_page t y" for y
    using d(11) [OF that(1)] e(11) [of y] that by (simp add: cons(1) st(2) d(3,9) ball_Un)
  ultimately show ?thesis
    unfolding areas_freed_def using d(3,5-10) e(3,5-10) vm_only_trans [OF d(7) e(7)] by simp
qed

lemma mm_free_loop_ok:
  assumes "space_ok s root ps F" and "root = mm_pgt (mms s mm)" and "own_areas s mm root ps xs"
    and "vma_chain (vmas s) l xs" and "set xs \<subseteq> objects_of s Vma_alloc - F" and "length xs < n"
  shows "\<exists>s'. mm_free_loop n l s = Inr s' \<and> areas_freed s root ps F xs s'"
  using assms
proof (induction xs arbitrary: s ps F l n)
  case Nil
  then show ?case using areas_freed_Nil by (cases n) auto
next
  case (Cons x xs)
  obtain m where n: "n = Suc m" "length xs < m" using Cons.prems(6) by (cases n) auto
  have l: "l = x" "x \<noteq> 0" "vma_chain (vmas s) (vma_next (vmas s x)) xs" and x: "x \<in> objects_of s Vma_alloc" "x \<notin> F"
    using Cons.prems(4,5) by auto
  obtain s1 where s1: "\<forall>n. mm_free_loop (Suc n) x s = mm_free_loop n (vma_next (vmas s x)) s1"
    "areas_freed s root ps F [x] s1"
    by (rule free_area [OF Cons.prems(1-3) x l(2)])
  note d = areas_freedD [OF s1(2)]
  have "x \<notin> set xs" using vma_chain_distinct [OF Cons.prems(4)] by simp
  then have "set xs \<subseteq> objects_of s1 Vma_alloc - insert x F" using Cons.prems(5) d(10) by auto
  moreover have "space_ok s1 root (rev (pages_of s root [x]) @ ps) (insert x F)" using d(1) by simp
  moreover have "root = mm_pgt (mms s1 mm)" using Cons.prems(2) d(5) by simp
  moreover have "vma_chain (vmas s1) (vma_next (vmas s x)) xs" using l(3) d(6) by simp
  ultimately obtain s' where s': "mm_free_loop m (vma_next (vmas s x)) s1 = Inr s'"
    "areas_freed s1 root (rev (pages_of s root [x]) @ ps) (insert x F) xs s'"
    using Cons.IH [OF _ _ own_areas_step(1) [OF Cons.prems(3) s1(2)] _ _ n(2)] by blast
  moreover have "mm_free_loop n l s = Inr s'" using s1(1) s'(1) by (simp add: n(1) l(1) del: mm_free_loop.simps)
  ultimately show ?case using areas_freed_Cons [OF Cons.prems(3) s1(2) s'(2)] by blast
qed

section \<open>The property\<close>

lemma free_page_push:
  assumes fp: "free_pages s ps" and al: "arena_ok s" and rdy: "k_ready s" "k_free L_kpage s"
    and q: "managed s q" "q \<notin> set ps"
  obtains s1 where "kfreepage (KVA_TO_PA q) s = Inr s1" "only_memory s s1" "only_in {q} (mem s) (mem s1)"
    "free_pages s1 (q # ps)"
proof -
  have pm: "page_mapped s q" using q(1) al by (simp add: arena_ok_def)
  have aq: "PGALIGNED q" using q(1) by (simp add: managed_def)
  define s1 where "s1 = s\<lparr>smp := settle (smp s), mem := st64 (fill_page (mem s) q 0xdd) q (freelist s), freelist := q\<rparr>"
  have run: "kfreepage (KVA_TO_PA q) s = Inr s1" using kfreepage_eq [OF rdy q(1) pm] by (simp add: s1_def)
  have om: "only_memory s s1" unfolding s1_def by (rule only_memoryI) simp
  have oi: "only_in {q} (mem s) (mem s1)" by (simp add: only_in_def s1_def free_outside)
  have "chain (mem s1) (freelist s) ps = chain (mem s) (freelist s) ps"
    by (rule chain_outside [of q]) (use q aq fp in \<open>auto simp: s1_def free_outside free_pages_def managed_def\<close>)
  moreover have "ld64 (mem s1) q = freelist s" by (simp add: s1_def)
  moreover have "q \<noteq> 0" using managed_nonzero al q(1) by blast
  ultimately have "free_pages s1 (q # ps)"
    using fp q only_memory_managed(1) [OF om] by (simp add: free_pages_def s1_def)
  then show thesis using that [OF run om oi] by blast
qed

text \<open>
  The address space \<open>mm\<close> is a live object of its pool that nobody shares, with the areas \<open>xs\<close>, when the
  pages \<open>ps\<close>, the areas \<open>F\<close> and the address spaces \<open>M\<close> are free.
\<close>

definition mm_owned :: "kst \<Rightarrow> u64 \<Rightarrow> u64 list \<Rightarrow> u64 set \<Rightarrow> u64 set \<Rightarrow> u64 list \<Rightarrow> bool" where
  "mm_owned s mm ps F M xs \<longleftrightarrow>
     (let root = mm_pgt (mms s mm) in
      space_ok s root ps F \<and> own_areas s mm root ps xs \<and> vma_chain (vmas s) (mm_vma (mms s mm)) xs \<and>
      set xs \<subseteq> objects_of s Vma_alloc - F \<and> length xs \<le> 16384 \<and> managed s root \<and> mm_refcnt (mms s mm) = 1 \<and>
      objs_ok s Mm_alloc \<and> k_free (L_alloc Mm_alloc) s \<and> free_objects s Mm_alloc M \<and>
      mm \<in> objects_of s Mm_alloc - M \<and>
      objs_apart (allocs s Mm_alloc) (tables (mem s) root \<union> set (pages_of s root xs) \<union> set ps) \<and>
      (\<forall>x. obj_region (allocs s Vma_alloc) x \<longrightarrow> \<not> obj_region (allocs s Mm_alloc) x))"

text \<open>The bytes that belong to the address space: its tables, its pages, and the pools.\<close>

definition mm_byte :: "kst \<Rightarrow> u64 \<Rightarrow> u64 list \<Rightarrow> u64 \<Rightarrow> bool" where
  "mm_byte s mm xs x \<longleftrightarrow>
     (\<exists>t \<in> tables (mem s) (mm_pgt (mms s mm)) \<union> set (pages_of s (mm_pgt (mms s mm)) xs). in_page t x) \<or>
     obj_region (allocs s Vma_alloc) x \<or> obj_region (allocs s Mm_alloc) x"

lemma in_page_refl: "in_page t t"
  by (simp add: in_page_def PGSIZE_def)

lemma mm_owned_byte:
  assumes "mm_owned s mm ps F M xs" and "\<not> mm_byte s mm xs x \<or> obj_region (allocs s Mm_alloc) x"
  shows "\<not> obj_region (allocs s Vma_alloc) x"
    "\<forall>t \<in> tables (mem s) (mm_pgt (mms s mm)) \<union> set (pages_of s (mm_pgt (mms s mm)) xs). \<not> in_page t x"
  using assms unfolding mm_owned_def mm_byte_def Let_def objs_apart_def by blast+

text \<open>Before the last step: all but the \<^verbatim>\<open>struct mm\<close> itself has been freed.\<close>

definition root_freed :: "kst \<Rightarrow> u64 \<Rightarrow> u64 list \<Rightarrow> u64 set \<Rightarrow> u64 list \<Rightarrow> kst \<Rightarrow> bool" where
  "root_freed s root ps F xs s4 \<longleftrightarrow>
     same_layout s s4 \<and> allocs s4 Mm_alloc = allocs s Mm_alloc \<and> free_pages s4 (root # rev (pages_of s root xs) @ ps) \<and>
     (tables (mem s) root - {root}) \<inter> set (root # rev (pages_of s root xs) @ ps) = {} \<and>
     objs_ok s4 Vma_alloc \<and> free_objects s4 Vma_alloc F \<and> obj_region (allocs s4 Vma_alloc) = obj_region (allocs s Vma_alloc) \<and>
     (\<forall>x. \<not> obj_region (allocs s Vma_alloc) x \<longrightarrow> (\<forall>t \<in> tables (mem s) root \<union> set (pages_of s root xs). \<not> in_page t x) \<longrightarrow>
        mem s4 x = mem s x)"

lemma root_freed_ok:
  assumes "mm_owned s mm ps F M xs"
  obtains s4 where "mm_free mm s = kfree Mm_alloc mm s4" "root_freed s (mm_pgt (mms s mm)) ps (F \<union> set xs) xs s4"
proof -
  define root where "root = mm_pgt (mms s mm)"
  let ?V = Vma_alloc and ?M = Mm_alloc and ?ps1 = "rev (pages_of s (mm_pgt (mms s mm)) xs) @ ps"
  note a = assms [unfolded mm_owned_def Let_def, folded root_def]
  have ok: "space_ok s root ps F" and own: "own_areas s mm root ps xs" using a by simp_all
  have ch: "vma_chain (vmas s) (mm_vma (mms s mm)) xs" "set xs \<subseteq> objects_of s ?V - F" "length xs < vma_rounds"
    using a by (simp_all add: vma_rounds_def)
  obtain s1 where s1: "mm_free_loop vma_rounds (mm_vma (mms s mm)) s = Inr s1" "areas_freed s root ps F xs s1"
    using mm_free_loop_ok [OF ok root_def own ch] by blast
  note d = areas_freedD [OF s1(2)]
  define s2 where "s2 = upd_mm mm (\<lambda>m. m\<lparr>mm_vma := 0\<rparr>) s1"
  have s2: "mem s2 = mem s1" "kmap s2 = kmap s1" "smp s2 = smp s1" "freelist s2 = freelist s1" "allocs s2 = allocs s1"
    "kpage_allocator_base s2 = kpage_allocator_base s1" "kpage_allocator_size s2 = kpage_allocator_size s1"
    "mms s2 = (mms s)(mm := (mms s mm)\<lparr>mm_vma := 0\<rparr>)"
    by (simp_all add: s2_def upd_mm_def d(5))
  have ok1: "vm_ok s1 root ?ps1" "free_objects s1 ?V (F \<union> set xs)" "objs_ok s1 ?V" "objs_apart (allocs s1 ?V) (tables (mem s1) root)"
    using d(1) unfolding space_ok_def root_def by simp_all
  have ok2: "vm_ok s2 root ?ps1" using ok1(1) vm_ok_cong [OF s2(1-4,6,7)] by simp
  have rp: "root \<notin> set ?ps1" using vm_okD(7) [OF ok2] root_in_nodes by blast
  have lay2: "same_layout s s2" using d(4) by (simp add: same_layout_def s2 k_ready_def k_free_def)
  have mr: "managed s2 root" using a same_layoutD(1) [OF lay2] by simp
  obtain s3 where s3: "kfreepage (KVA_TO_PA root) s2 = Inr s3" "only_memory s2 s3" "only_in {root} (mem s2) (mem s3)"
    "free_pages s3 (root # ?ps1)"
    by (rule free_page_push [OF vm_okD(6,3-5) [OF ok2] mr rp])
  note sel = only_memory_sel [OF s3(2)]
  define s4 where "s4 = upd_mm mm (\<lambda>m. m\<lparr>mm_refcnt := mm_refcnt m - 1\<rparr>) s3"
  have s4: "mem s4 = mem s3" "allocs s4 = allocs s1" "mm_refcnt (mms s4 mm) = 0" "kmap s4 = kmap s1"
    using a by (simp_all add: s4_def upd_mm_def sel s2)
  have lay4: "same_layout s s4"
    using lay2 same_layout_only_memory [OF s3(2)] by (simp add: s4_def upd_mm_def same_layout_def k_ready_def k_free_def)
  have m4: "mem s4 x = mem s1 x" if "\<not> in_page root x" for x
    using s3(3) that by (simp add: only_in_def s4(1) s2(1))
  have V4: "objs_ok s4 ?V" "free_objects s4 ?V (F \<union> set xs)"
  proof -
    show "objs_ok s4 ?V" by (rule objs_ok_cong [OF ok1(3)]) (simp_all add: s4)
    have "\<not> in_page root x" if "obj_region (allocs s1 ?V) x" for x using ok1(4) that d(3) root_in_nodes by (auto simp: objs_apart_def)
    then show "free_objects s4 ?V (F \<union> set xs)"
      by (intro free_objects_cong [OF ok1(2) _ ok1(3)]) (use m4 s4(2) in \<open>auto simp: obj_region_def\<close>)
  qed
  have "mem s4 x = mem s x"
    if "\<not> obj_region (allocs s ?V) x" "\<forall>t \<in> tables (mem s) root \<union> set (pages_of s root xs). \<not> in_page t x" for x
    using d(11) [OF that] m4 [of x] that(2) root_in_nodes [of root] by auto
  moreover have "free_pages s4 (root # ?ps1)" using s3(4) by (simp add: free_pages_def managed_def s4_def upd_mm_def)
  moreover have "(tables (mem s) root - {root}) \<inter> set (root # ?ps1) = {}" using vm_okD(7) [OF ok1(1)] d(3) by auto
  ultimately have "root_freed s root ps (F \<union> set xs) xs s4"
    using lay4 V4 d(8,9) by (simp add: root_freed_def s4(2) root_def)
  moreover have "mm_pgt (mms s2 mm) = root" by (simp add: s2 root_def)
  then have "mm_free mm s = kfree ?M mm s4"
    using s1(1) s3(1) s4(3) by (simp add: mm_free_def mm_free_pages_def s2_def [symmetric] Let_def s4_def [symmetric])
  ultimately show thesis using that by (simp add: root_def)
qed

text \<open>C33. \<^verbatim>\<open>mm_free\<close> returns; exactly the pages of the areas and the page of the root go back to the free
  list, each once, all the areas and the \<^verbatim>\<open>struct mm\<close> itself to their pools; no byte changes outside the
  address space and the pools, so every other address space, on tables of its own, is what it was. The
  other tables of the tree, which nothing refers to any more, stay allocated: each address space that
  is freed loses them for ever.\<close>

theorem mm_free_correct:
  assumes "mm_owned s mm ps F M xs"
  shows "\<exists>s' qs. mm_free mm s = Inr s' \<and>
    free_pages s' qs \<and> set qs = set ps \<union> set (pages_of s (mm_pgt (mms s mm)) xs) \<union> {mm_pgt (mms s mm)} \<and>
    length qs = length ps + length (area_pages (vmas s) xs) + 1 \<and>
    (tables (mem s) (mm_pgt (mms s mm)) - {mm_pgt (mms s mm)}) \<inter> set qs = {} \<and>
    free_objects s' Vma_alloc (F \<union> set xs) \<and> free_objects s' Mm_alloc (insert mm M) \<and> same_layout s s' \<and>
    (\<forall>x. \<not> mm_byte s mm xs x \<longrightarrow> mem s' x = mem s x) \<and>
    (\<forall>r. vm_ok s r ps \<and> (\<forall>t \<in> tables (mem s) r. \<forall>x. in_page t x \<longrightarrow> \<not> mm_byte s mm xs x) \<longrightarrow>
       vm_ok s' r qs \<and> entry (mem s') r = entry (mem s) r)"
proof -
  define root where "root = mm_pgt (mms s mm)"
  let ?V = Vma_alloc and ?M = Mm_alloc and ?qs = "mm_pgt (mms s mm) # rev (pages_of s (mm_pgt (mms s mm)) xs) @ ps"
  note a = assms [unfolded mm_owned_def Let_def, folded root_def]
  obtain s4 where s4: "mm_free mm s = kfree ?M mm s4" "root_freed s root ps (F \<union> set xs) xs s4"
    using root_freed_ok [OF assms] unfolding root_def by blast
  note r = s4(2) [unfolded root_freed_def]
  have lay4: "same_layout s s4" and mM: "allocs s4 ?M = allocs s ?M" and fp4: "free_pages s4 (root # rev (pages_of s root xs) @ ps)"
    and tdj: "(tables (mem s) root - {root}) \<inter> set (root # rev (pages_of s root xs) @ ps) = {}"
    and V4: "objs_ok s4 ?V" "free_objects s4 ?V (F \<union> set xs)" "obj_region (allocs s4 ?V) = obj_region (allocs s ?V)"
    and m4: "\<And>x. \<not> mm_byte s mm xs x \<or> obj_region (allocs s ?M) x \<Longrightarrow> mem s4 x = mem s x"
    using r mm_owned_byte [OF assms] unfolding root_def by blast+
  have fo4: "free_objects s4 ?M M"
    by (rule free_objects_cong [of s]) (use a mM m4 in \<open>auto simp: obj_region_def\<close>)
  have rdy4: "objs_ok s4 ?M" "k_ready s4" "k_free (L_alloc ?M) s4" "mm \<in> objects_of s4 ?M" "mm \<notin> M"
    using a objs_ok_cong [of s ?M s4] mM lay4 vm_okD(4) same_layoutD(4,5) [OF lay4]
    by (auto simp: space_ok_def objects_of_def same_layout_def)
  obtain s' where s': "kfree ?M mm s4 = Inr s'" "free_objects s' ?M (insert mm M)" "same_layout s4 s'" "freelist s' = freelist s4"
    "only_region (allocs s ?M) (mem s4) (mem s')" "\<And>B. B \<noteq> ?M \<Longrightarrow> allocs s' B = allocs s4 B"
    using kfree_step [OF rdy4(1-3) fo4 rdy4(4,5)] unfolding mM by metis
  have lay: "same_layout s s'" by (rule same_layout_trans [OF lay4 s'(3)])
  have byte: "mem s' x = mem s x" if "\<not> mm_byte s mm xs x" for x
    using that m4 [of x] s'(5) unfolding mm_byte_def by (auto simp: only_region_def)
  have apq: "objs_apart (allocs s ?M) (set (root # rev (pages_of s root xs) @ ps))"
    using a root_in_nodes [of root] by (auto simp: objs_apart_def)
  have fp: "free_pages s' (root # rev (pages_of s root xs) @ ps)"
    by (rule free_pages_transfer [OF fp4 only_region_same_on [OF s'(5) apq] s'(3,4)])
  have fV: "free_objects s' ?V (F \<union> set xs)"
  proof (rule free_objects_cong [OF V4(2) s'(6) V4(1)])
    fix x assume "in_page (bitmap (allocs s4 ?V)) x"
    then have "obj_region (allocs s4 ?V) x" by (simp add: obj_region_def)
    then show "mem s' x = mem s4 x" using a s'(5) by (simp add: V4(3) only_region_def)
  qed simp
  have other: "vm_ok s' r ?qs \<and> entry (mem s') r = entry (mem s) r"
    if r: "vm_ok s r ps" "\<forall>t \<in> tables (mem s) r. \<forall>x. in_page t x \<longrightarrow> \<not> mm_byte s mm xs x" for r
  proof -
    have so: "same_on (tables (mem s) r) (mem s) (mem s')" using r(2) byte by (auto simp: same_on_def)
    have "t \<notin> set (pages_of s root xs)" "t \<noteq> root" if "t \<in> tables (mem s) r" for t
      using r(2) that in_page_refl [of t] root_in_nodes [of root] unfolding mm_byte_def root_def [symmetric] by blast+
    then have "tables (mem s) r \<inter> set (root # rev (pages_of s root xs) @ ps) = {}" using vm_okD(7) [OF r(1)] by auto
    then show ?thesis using vm_ok_beside [OF r(1) so fp _ lay] by (simp add: root_def fun_eq_iff)
  qed
  have "set ?qs = set ps \<union> set (pages_of s root xs) \<union> {root}" "length ?qs = length ps + length (area_pages (vmas s) xs) + 1"
    by (auto simp: root_def) (simp add: pages_of_def)
  then show ?thesis
    using s4(1) s'(1,2) fp fV tdj lay byte other unfolding root_def by (intro exI [of _ s'] exI [of _ ?qs]) simp
qed

end
