(* ===== verification/NewProc.thy ===== *)
theory NewProc imports VmCreate Family begin

text \<open>
  \<^verbatim>\<open>allocproc\<close> of \<^verbatim>\<open>os/proc.c\<close>: an unused entry of the table becomes a process with a pid, an address space
  that holds the trampoline and a trap frame of its own, and an empty kernel stack.
\<close>

section \<open>A new process\<close>

lemma find_unused_run:
  assumes "k_ready s" and "\<And>j. j \<in> set (as @ [i]) \<Longrightarrow> k_free (L_proc j) s"
    and "\<And>j. j \<in> set as \<Longrightarrow> p_state (proc_pool s j) \<noteq> UNUSED" and "p_state (proc_pool s i) = UNUSED"
  shows "find_unused (as @ i # bs) s = Inr (Some i, k_take (L_proc i) s)"
  using assms
proof (induction as arbitrary: s)
  case Nil
  then show ?case by (simp add: k_acquire_free)
next
  case (Cons j as)
  have r: "k_release (L_proc j) (k_take (L_proc j) s) = Inr (k_settle s)"
    by (subst k_release_after [of s]) (use Cons.prems(1,2) in simp_all)
  have "find_unused (as @ i # bs) (k_settle s) = Inr (Some i, k_take (L_proc i) (k_settle s))"
    by (rule Cons.IH) (use Cons.prems in \<open>simp_all add: k_ready_def k_free_def\<close>)
  then show ?case using Cons.prems r by (simp add: k_acquire_free)
qed

lemma allocpid_run:
  assumes "busy s" and "k_free L_pid s"
  shows "allocpid s = Inr (next_pid s, s\<lparr>next_pid := next_pid s + 1\<rparr>)"
proof -
  have "k_release L_pid (k_take L_pid s\<lparr>next_pid := next_pid s + 1\<rparr>) = Inr (s\<lparr>next_pid := next_pid s + 1\<rparr>)"
    by (subst busy_release [OF assms]) simp_all
  then show ?thesis by (simp add: allocpid_def busy_acquire [OF assms])
qed

text \<open>The kernel stack of a process is two pages.\<close>

definition stack_pages :: "u64 \<Rightarrow> u64 set" where
  "stack_pages k = {k, k + PGSIZE}"

lemma stack_memset:
  assumes "page_mapped s k" and "page_mapped s (k + PGSIZE)"
  obtains m where "k_memset k 0 (ucast KERNEL_STACK_SIZE) s = Inr (s\<lparr>mem := m\<rparr>)" "only_in (stack_pages k) (mem s) m"
proof -
  have n: "unat (ucast KERNEL_STACK_SIZE :: u32) = 8192" by (simp add: KERNEL_STACK_SIZE_def PGSIZE_def)
  have "mapped s k 8192"
    unfolding mapped_def
  proof (intro allI impI)
    fix i :: nat assume i: "i < 8192"
    show "kmap s (k + of_nat i)"
    proof (cases "i < 4096")
      case True
      then show ?thesis using assms(1) by (simp add: page_mapped_def mapped_def)
    next
      case False
      then have "i - 4096 < 4096" using i by simp
      with assms(2) have "kmap s (k + PGSIZE + of_nat (i - 4096))" unfolding page_mapped_def mapped_def by blast
      moreover have "k + PGSIZE + of_nat (i - 4096) = k + of_nat i" using False by (simp add: PGSIZE_def of_nat_diff)
      ultimately show ?thesis by simp
    qed
  qed
  then have "k_memset k 0 (ucast KERNEL_STACK_SIZE) s = Inr (s\<lparr>mem := memset (mem s) k 0 (ucast KERNEL_STACK_SIZE)\<rparr>)"
    by (simp add: k_memset_def n)
  moreover have "only_in (stack_pages k) (mem s) (memset (mem s) k 0 (ucast KERNEL_STACK_SIZE))"
    unfolding only_in_def memset_eq n
  proof (intro allI impI)
    fix x assume a: "\<forall>t \<in> stack_pages k. \<not> in_page t x"
    have "\<not> unat (x - k) < 8192"
    proof
      assume l: "unat (x - k) < 8192"
      have "\<not> unat (x - k) < 4096" using a by (simp add: stack_pages_def in_page_def PGSIZE_def word_less_nat_alt)
      moreover from this have "unat (x - k - PGSIZE) = unat (x - k) - 4096"
        by (simp add: unat_sub_le word_le_nat_alt PGSIZE_def)
      ultimately have "in_page (k + PGSIZE) x" using l by (simp add: in_page_def PGSIZE_def word_less_nat_alt diff_diff_eq)
      with a show False by (simp add: stack_pages_def)
    qed
    then show "(if unat (x - k) < 8192 then ucast (0 :: i32) else mem s x) = mem s x" by simp
  qed
  ultimately show thesis using that by blast
qed

text \<open>The process that \<^verbatim>\<open>allocproc\<close> makes of the entry \<open>q\<close>.\<close>

definition fresh_proc :: "image \<Rightarrow> i32 \<Rightarrow> u64 \<Rightarrow> u64 \<Rightarrow> u64 \<Rightarrow> u64 \<Rightarrow> proc \<Rightarrow> proc" where
  "fresh_proc im pid mm vt vf tf q = q\<lparr>p_pid := pid, p_state := USED, p_mm := mm, p_vma_ustack := 0, p_vma_brk := 0,
     p_vma_trampoline := vt, p_vma_trapframe := vf, p_trapframe := tf, p_parent := None, p_exit_code := 0,
     p_context := Ctx (first_sched_ret_addr im) (p_kstack q + KERNEL_STACK_SIZE)\<rparr>"

text \<open>The entries of its address space.\<close>

definition fresh_entry :: "image \<Rightarrow> u64 \<Rightarrow> u64 \<Rightarrow> u64" where
  "fresh_entry im tf va =
     (if va = TRAMPOLINE then PA2PTE (KIVA_TO_PA (trampoline_addr im)) OR (PTE_A OR PTE_R OR PTE_X) OR PTE_V
      else if va = TRAPFRAME then PA2PTE (KVA_TO_PA tf) OR (PTE_A OR PTE_D OR PTE_R OR PTE_W OR PTE_X) OR PTE_V
      else 0)"

lemma special_pages:
  "PGALIGNED TRAMPOLINE" "IS_USER_VA TRAMPOLINE" "PGALIGNED TRAPFRAME" "IS_USER_VA TRAPFRAME" "TRAPFRAME \<noteq> TRAMPOLINE"
  by (simp_all add: TRAMPOLINE_def TRAPFRAME_def USER_TOP_def MAXVA_def PGSIZE_def PGALIGNED_def IS_USER_VA_def)

text \<open>
  The calls of \<^verbatim>\<open>allocproc\<close> that make the address space; between them it writes to the process, which
  they do not read: \<open>X\<close> and \<open>Y\<close> are the processes it leaves.
\<close>

lemma space_begun:
  assumes w: "world s ps G" and len: "6 \<le> length ps" and V: "G Vma_alloc \<noteq> {}" and M: "G Mm_alloc \<noteq> {}"
    and lk: "\<And>mm. mm \<in> G Mm_alloc \<Longrightarrow> k_free (L_mm mm) s"
  obtains mm vt root rs s1 s2 where "mm_create s = Inr (mm, s1)"
    "mm_mappagesat mm TRAMPOLINE e f False (s1\<lparr>proc_pool := X mm\<rparr>) = Inr (vt, s2)"
    "vm_only s s1" "vm_only (s1\<lparr>proc_pool := X mm\<rparr>) s2" "adv (set ps) s s2 rs (taken Vma_alloc vt (taken Mm_alloc mm G))"
    "mm \<in> G Mm_alloc" "mm \<noteq> 0" "vt \<in> G Vma_alloc" "good s2 root rs" "tables (mem s2) root \<subseteq> set ps" "set rs \<subseteq> set ps"
    "length ps \<le> length rs + 3" "mms s2 = (mms s)(mm := \<lparr>mm_pgt = root, mm_vma = 0, mm_refcnt = 1\<rparr>)"
    "\<And>x. x \<noteq> vt \<Longrightarrow> vmas s2 x = vmas s x"
    "\<And>va. PGALIGNED va \<Longrightarrow> IS_USER_VA va \<Longrightarrow> entry (mem s2) root va = (if va = TRAMPOLINE then PA2PTE e OR f OR PTE_V else 0)"
proof -
  obtain root ps1 where ps: "ps = root # ps1" "5 \<le> length ps1" using len by (cases ps) auto
  obtain mm s1 where s1: "mm_create s = Inr (mm, s1)" "mm \<in> G Mm_alloc" "mm \<noteq> 0" "adv {root} s s1 ps1 (taken Mm_alloc mm G)"
    "vm_only s s1" "good s1 root ps1" "tables (mem s1) root = {root}" "root \<notin> set ps1" "\<And>va. entry (mem s1) root va = 0"
    "mms s1 = (mms s)(mm := \<lparr>mm_pgt = root, mm_vma = 0, mm_refcnt = 1\<rparr>)" "vmas s1 = vmas s"
    using mm_create_ok [OF w [unfolded ps(1)] M lk] by metis
  let ?G1 = "taken Mm_alloc mm G" and ?s1 = "s1\<lparr>proc_pool := X mm\<rparr>"
  have w1: "world ?s1 ps1 ?G1" "good ?s1 root ps1" using advD(2) [OF s1(4)] s1(6) by simp_all
  have "?G1 Vma_alloc \<noteq> {}" using V by auto
  moreover have "root = mm_pgt (mms ?s1 mm)" "entry (mem ?s1) root TRAMPOLINE AND PTE_V = 0" "2 \<le> length ps1"
    using s1(9,10) ps(2) by simp_all
  ultimately obtain vt s2 k where s2: "mm_mappagesat mm TRAMPOLINE e f False ?s1 = Inr (vt, s2)" "vt \<in> ?G1 Vma_alloc" "k \<le> 2"
    "adv (tables (mem ?s1) root \<union> set (take k ps1)) ?s1 s2 (drop k ps1) (taken Vma_alloc vt ?G1)" "vm_only ?s1 s2"
    "good s2 root (drop k ps1)" "tables (mem s2) root = tables (mem ?s1) root \<union> set (take k ps1)"
    "\<And>x. PGALIGNED x \<Longrightarrow> IS_USER_VA x \<Longrightarrow>
       entry (mem s2) root x = (if x = TRAMPOLINE then PA2PTE e OR f OR PTE_V else entry (mem ?s1) root x)"
    "mms s2 = mms ?s1"
    "vmas s2 = (vmas ?s1)(vt := \<lparr>vma_owner = mm, vma_next = 0, vm_start = TRAMPOLINE, vm_end = TRAMPOLINE + PGSIZE, pte_flags = f\<rparr>)"
    using mappagesat_ok [OF w1 _ _ special_pages(1,2), of mm e f] by metis
  have sub: "insert root (set (take k ps1)) \<subseteq> set ps" "set (drop k ps1) \<subseteq> set ps"
    using set_take_subset [of k ps1] set_drop_subset [of k ps1] by (auto simp: ps(1))
  have "adv (set ps) s s1 ps1 ?G1" by (rule adv_mono [OF s1(4)]) (simp add: ps(1))
  also have "adv (set ps) s1 ?s1 ps1 ?G1" by (rule adv_mono [OF adv_upd(3) [OF advD(2) [OF s1(4)]]]) simp
  also have "adv (set ps) ?s1 s2 (drop k ps1) (taken Vma_alloc vt ?G1)"
    by (rule adv_mono [OF s2(4)]) (use s1(7) sub(1) in simp)
  finally show thesis
    using that [of mm s1 vt s2 "drop k ps1" root] s1(1-3,5,7,9-11) s2 sub ps by simp
qed

lemma space_made:
  assumes w: "world s ps G" and len: "6 \<le> length ps" and V: "2 \<le> card (G Vma_alloc)" and M: "G Mm_alloc \<noteq> {}"
    and lk: "\<And>mm. mm \<in> G Mm_alloc \<Longrightarrow> k_free (L_mm mm) s"
  obtains mm vt vf root tf qs s1 s2 s3 t where "mm_create s = Inr (mm, s1)"
    "mm_mappagesat mm TRAMPOLINE e f False (s1\<lparr>proc_pool := X mm\<rparr>) = Inr (vt, s2)"
    "kallocpage (s2\<lparr>proc_pool := Y mm vt\<rparr>) = Inr (KVA_TO_PA tf, s3)"
    "mm_mappagesat mm TRAPFRAME (KVA_TO_PA tf) g False s3 = Inr (vf, t)"
    "vm_only s s1" "vm_only (s1\<lparr>proc_pool := X mm\<rparr>) s2" "vm_only (s2\<lparr>proc_pool := Y mm vt\<rparr>) t"
    "adv (set ps) s t qs (taken Vma_alloc vf (taken Vma_alloc vt (taken Mm_alloc mm G)))"
    "mm \<in> G Mm_alloc" "mm \<noteq> 0" "vt \<in> G Vma_alloc" "vf \<in> G Vma_alloc - {vt}" "KVA_TO_PA tf \<noteq> 0"
    "good t root qs" "tables (mem t) root \<subseteq> set ps - {tf}" "tf \<in> set ps - set qs" "set qs \<subseteq> set ps" "length ps \<le> length qs + 6"
    "mms t = (mms s)(mm := \<lparr>mm_pgt = root, mm_vma = 0, mm_refcnt = 1\<rparr>)" "\<And>x. x \<notin> G Vma_alloc \<Longrightarrow> vmas t x = vmas s x"
    "\<And>va. PGALIGNED va \<Longrightarrow> IS_USER_VA va \<Longrightarrow> entry (mem t) root va =
       (if va = TRAMPOLINE then PA2PTE e OR f OR PTE_V else if va = TRAPFRAME then PA2PTE (KVA_TO_PA tf) OR g OR PTE_V else 0)"
proof -
  have "G Vma_alloc \<noteq> {}" using V by auto
  then obtain mm vt root rs s1 s2 where s2: "mm_create s = Inr (mm, s1)"
    "mm_mappagesat mm TRAMPOLINE e f False (s1\<lparr>proc_pool := X mm\<rparr>) = Inr (vt, s2)"
    "vm_only s s1" "vm_only (s1\<lparr>proc_pool := X mm\<rparr>) s2" "adv (set ps) s s2 rs (taken Vma_alloc vt (taken Mm_alloc mm G))"
    "mm \<in> G Mm_alloc" "mm \<noteq> 0" "vt \<in> G Vma_alloc" "good s2 root rs" "tables (mem s2) root \<subseteq> set ps" "set rs \<subseteq> set ps"
    "length ps \<le> length rs + 3" "mms s2 = (mms s)(mm := \<lparr>mm_pgt = root, mm_vma = 0, mm_refcnt = 1\<rparr>)"
    "\<And>x. x \<noteq> vt \<Longrightarrow> vmas s2 x = vmas s x"
    "\<And>va. PGALIGNED va \<Longrightarrow> IS_USER_VA va \<Longrightarrow> entry (mem s2) root va = (if va = TRAMPOLINE then PA2PTE e OR f OR PTE_V else 0)"
    using space_begun [OF w len _ M lk, of e f X] by metis
  let ?G2 = "taken Vma_alloc vt (taken Mm_alloc mm G)" and ?s2 = "s2\<lparr>proc_pool := Y mm vt\<rparr>"
  obtain tf ps2 where rs: "rs = tf # ps2" "2 \<le> length ps2" using len s2(12) by (cases rs) auto
  have w2: "world ?s2 (tf # ps2) ?G2" "good ?s2 root (tf # ps2)" using advD(2) [OF s2(5)] s2(9) rs(1) by simp_all
  obtain s3 where s3: "kallocpage ?s2 = Inr (KVA_TO_PA tf, s3)" "adv {tf} ?s2 s3 ps2 ?G2" "vm_only ?s2 s3" "mms s3 = mms ?s2"
    "vmas s3 = vmas ?s2" "tf \<notin> set ps2" "KVA_TO_PA tf \<noteq> 0"
    by (rule world_page [OF w2(1)]) blast
  have tft: "tf \<notin> tables (mem ?s2) root" using w2(2) vm_okD(7) [of ?s2 root "tf # ps2"] by (auto simp: good_def)
  then have "{tf} \<inter> tables (mem ?s2) root = {}" by simp
  note g3 = adv_good [OF s3(2) w2(2) this set_subset_Cons]
  have "?G2 Vma_alloc \<noteq> {}" using V card_mono [of "{vt}" "G Vma_alloc"] by auto
  moreover have "root = mm_pgt (mms s3 mm)" by (simp add: s3(4) s2(13))
  moreover have "entry (mem s3) root TRAPFRAME AND PTE_V = 0" using s2(15) special_pages by (simp add: g3(2))
  ultimately obtain vf t j where t: "mm_mappagesat mm TRAPFRAME (KVA_TO_PA tf) g False s3 = Inr (vf, t)" "vf \<in> ?G2 Vma_alloc" "j \<le> 2"
    "adv (tables (mem s3) root \<union> set (take j ps2)) s3 t (drop j ps2) (taken Vma_alloc vf ?G2)" "vm_only s3 t"
    "good t root (drop j ps2)" "tables (mem t) root = tables (mem s3) root \<union> set (take j ps2)"
    "\<And>x. PGALIGNED x \<Longrightarrow> IS_USER_VA x \<Longrightarrow>
       entry (mem t) root x = (if x = TRAPFRAME then PA2PTE (KVA_TO_PA tf) OR g OR PTE_V else entry (mem s3) root x)"
    "mms t = mms s3"
    "vmas t = (vmas s3)(vf := \<lparr>vma_owner = mm, vma_next = 0, vm_start = TRAPFRAME, vm_end = TRAPFRAME + PGSIZE, pte_flags = g\<rparr>)"
    using mappagesat_ok [OF advD(2) [OF s3(2)] g3(1) _ _ special_pages(3,4) _ rs(2), of mm "KVA_TO_PA tf" g] by metis
  have sub: "set (take j ps2) \<subseteq> set ps2" "set (drop j ps2) \<subseteq> set ps2" "set ps2 \<subseteq> set ps" "tf \<in> set ps"
    using set_take_subset [of j ps2] set_drop_subset [of j ps2] s2(11) by (auto simp: rs(1))
  have "adv (set ps) s s2 rs ?G2" by (rule s2(5))
  also have "adv (set ps) s2 ?s2 rs ?G2" by (rule adv_mono [OF adv_upd(3) [OF advD(2) [OF s2(5)]]]) simp
  also have "adv (set ps) ?s2 s3 ps2 ?G2" by (rule adv_mono [OF s3(2)]) (use sub(4) in simp)
  also have "adv (set ps) s3 t (drop j ps2) (taken Vma_alloc vf ?G2)"
    by (rule adv_mono [OF t(4)]) (use g3(3) s2(10) sub in auto)
  finally have a: "adv (set ps) s t (drop j ps2) (taken Vma_alloc vf ?G2)" .
  have "vm_only ?s2 t" by (rule vm_only_trans [OF s3(3) t(5)])
  moreover have "tables (mem t) root \<subseteq> set ps - {tf}" using g3(3) s2(10) sub s3(6) tft by (auto simp: t(7))
  moreover have "vmas t x = vmas s x" if "x \<notin> G Vma_alloc" for x
    using that t(2) s2(8) s2(14) [of x] by (auto simp: t(10) s3(5))
  moreover have "mms t = (mms s)(mm := \<lparr>mm_pgt = root, mm_vma = 0, mm_refcnt = 1\<rparr>)" by (simp add: t(9) s3(4) s2(13))
  moreover have "entry (mem t) root va =
       (if va = TRAMPOLINE then PA2PTE e OR f OR PTE_V else if va = TRAPFRAME then PA2PTE (KVA_TO_PA tf) OR g OR PTE_V else 0)"
    if "PGALIGNED va" "IS_USER_VA va" for va
    using t(8) [OF that] s2(15) [OF that] special_pages(5) by (auto simp: g3(2))
  moreover have "tf \<in> set ps - set (drop j ps2)" "set (drop j ps2) \<subseteq> set ps" "length ps \<le> length (drop j ps2) + 6"
    using s3(6) sub s2(12) t(3) by (auto simp: rs(1))
  moreover have "vf \<in> G Vma_alloc - {vt}" using t(2) by auto
  ultimately show thesis
    using that [of mm s1 vt s2 tf s3 vf t "drop j ps2" root] s2(1-4,6-8) s3(1,7) t(1,6) a by blast
qed

text \<open>The outcome of \<^verbatim>\<open>allocproc\<close>.\<close>

definition proc_made :: "kst \<Rightarrow> nat \<Rightarrow> u64 list \<Rightarrow> (alloc_id \<Rightarrow> u64 set) \<Rightarrow> kst \<Rightarrow> u64 \<Rightarrow> u64 \<Rightarrow> u64 \<Rightarrow> u64 \<Rightarrow> u64 \<Rightarrow> u64 list \<Rightarrow> bool" where
  "proc_made s np ps G t mm vt vf root tf qs \<longleftrightarrow>
     smp t = take_lock (L_proc np) (smp s) \<and> next_pid t = next_pid s + 1 \<and>
     proc_pool t = (proc_pool s)(np := fresh_proc (img s) (next_pid s) mm vt vf tf (proc_pool s np)) \<and>
     adv (set ps \<union> stack_pages (p_kstack (proc_pool s np))) (k_take (L_proc np) s) t qs
       (taken Vma_alloc vf (taken Vma_alloc vt (taken Mm_alloc mm G))) \<and>
     mm \<in> G Mm_alloc \<and> vt \<in> G Vma_alloc \<and> vf \<in> G Vma_alloc - {vt} \<and>
     good t root qs \<and> tables (mem t) root \<subseteq> set ps \<and> tf \<in> set ps \<and> tf \<notin> tables (mem t) root \<and> tf \<notin> set qs \<and>
     set qs \<subseteq> set ps \<and> length ps \<le> length qs + 6 \<and> mms t = (mms s)(mm := \<lparr>mm_pgt = root, mm_vma = 0, mm_refcnt = 1\<rparr>) \<and>
     (\<forall>x. x \<notin> G Vma_alloc \<longrightarrow> vmas t x = vmas s x) \<and>
     (\<forall>va. PGALIGNED va \<longrightarrow> IS_USER_VA va \<longrightarrow> entry (mem t) root va = fresh_entry (img s) tf va)"

text \<open>What \<^verbatim>\<open>allocproc\<close> needs.\<close>

definition room_for_proc :: "kst \<Rightarrow> nat \<Rightarrow> u64 list \<Rightarrow> (alloc_id \<Rightarrow> u64 set) \<Rightarrow> bool" where
  "room_for_proc s np ps G \<longleftrightarrow>
     world s ps G \<and> k_free L_pid s \<and> (\<forall>i < NPROC. k_free (L_proc i) s) \<and> (\<forall>mm \<in> G Mm_alloc. k_free (L_mm mm) s) \<and>
     np < NPROC \<and> p_state (proc_pool s np) = UNUSED \<and> (\<forall>j < np. p_state (proc_pool s j) \<noteq> UNUSED) \<and>
     6 \<le> length ps \<and> 2 \<le> card (G Vma_alloc) \<and> G Mm_alloc \<noteq> {} \<and>
     (\<forall>x \<in> stack_pages (p_kstack (proc_pool s np)). PGALIGNED x \<and> page_mapped s x \<and> x \<notin> set ps) \<and>
     apart s (stack_pages (p_kstack (proc_pool s np)))"

lemma vm_only_busy:
  assumes "vm_only s t" and "smp s = take_lock l m" and "cpu_ready m"
  shows "smp t = take_lock l m"
  using taken_back [of "smp t" l m] assms vm_only_sel(10) [OF assms(1)] by simp

text \<open>Filling the kernel stack and the trap frame of the new process.\<close>

lemma pages_filled:
  assumes w: "world s qs H" and st: "\<And>x. x \<in> stack_pages k \<Longrightarrow> PGALIGNED x \<and> page_mapped s x" "stack_pages k \<inter> set qs = {}"
    "apart s (stack_pages k)" and tf: "PGALIGNED tf" "page_mapped s tf" "tf \<notin> set qs" "apart s {tf}"
  obtains m1 m2 where "k_memset k 0 (ucast KERNEL_STACK_SIZE) s = Inr (s\<lparr>mem := m1\<rparr>)"
    "k_memset tf 0 4096 (s\<lparr>mem := m1\<rparr>) = Inr (s\<lparr>mem := m2\<rparr>)" "adv (insert tf (stack_pages k)) s (s\<lparr>mem := m2\<rparr>) qs H"
proof -
  have pk: "page_mapped s k" "page_mapped s (k + PGSIZE)" using st(1) by (simp_all add: stack_pages_def)
  obtain m1 where m1: "k_memset k 0 (ucast KERNEL_STACK_SIZE) s = Inr (s\<lparr>mem := m1\<rparr>)" "only_in (stack_pages k) (mem s) m1"
    by (rule stack_memset [OF pk])
  have pt: "page_mapped (s\<lparr>mem := m1\<rparr>) tf" using tf(2) by (simp add: page_mapped_def mapped_def)
  have "only_in (insert tf (stack_pages k)) (mem s) (fill_page m1 tf 0)"
    by (rule only_in_trans [OF m1(2) fill_only_in]) auto
  then have "adv (insert tf (stack_pages k)) s (s\<lparr>mem := fill_page m1 tf 0\<rparr>) qs H"
    by (rule world_store [OF w]) (use st tf in \<open>auto simp: apart_def objs_apart_def\<close>)
  moreover have "k_memset tf 0 4096 (s\<lparr>mem := m1\<rparr>) = Inr (s\<lparr>mem := fill_page m1 tf 0\<rparr>)"
    using k_memset_page [OF pt, of 0] by simp
  ultimately show thesis using that m1(1) by blast
qed

lemma world_take:
  assumes w: "world s ps G" and l: "l \<noteq> L_kpage" "\<And>A. l \<noteq> L_alloc A"
  shows "world (k_take l s) ps G"
proof -
  have p: "managed (k_take l s) p = managed s p" "page_mapped (k_take l s) p = page_mapped s p" for p
    by (simp_all add: managed_def page_mapped_def mapped_def)
  show ?thesis
    using w l unfolding world_def k_ready_def k_free_def
    by (auto simp: p arena_ok_def free_pages_def free_objects_def objs_ok_def apart_def)
qed

lemma alloc_only_pool: "alloc_only s (s\<lparr>proc_pool := x, next_pid := i\<rparr>)"
  by (simp add: alloc_only_def)

text \<open>The table of processes at the points of \<^verbatim>\<open>allocproc\<close> between those calls.\<close>

definition pid_pool :: "kst \<Rightarrow> nat \<Rightarrow> nat \<Rightarrow> proc" where
  "pid_pool s np = (proc_pool s)(np := (proc_pool s np)\<lparr>p_pid := next_pid s, p_state := USED\<rparr>)"

definition mm_pool :: "kst \<Rightarrow> nat \<Rightarrow> u64 \<Rightarrow> nat \<Rightarrow> proc" where
  "mm_pool s np mm = (pid_pool s np)(np := (pid_pool s np np)\<lparr>p_mm := mm, p_vma_ustack := 0, p_vma_brk := 0\<rparr>)"

definition trampoline_pool :: "kst \<Rightarrow> nat \<Rightarrow> u64 \<Rightarrow> u64 \<Rightarrow> nat \<Rightarrow> proc" where
  "trampoline_pool s np mm vt = (mm_pool s np mm)(np := (mm_pool s np mm np)\<lparr>p_vma_trampoline := vt\<rparr>)"

definition frame_pool :: "kst \<Rightarrow> nat \<Rightarrow> u64 \<Rightarrow> u64 \<Rightarrow> u64 \<Rightarrow> u64 \<Rightarrow> nat \<Rightarrow> proc" where
  "frame_pool s np mm vt vf tf = (trampoline_pool s np mm vt)(np := (trampoline_pool s np mm vt np)
     \<lparr>p_vma_trapframe := vf, p_trapframe := tf, p_parent := None, p_exit_code := 0, p_context := Ctx 0 0\<rparr>)"

lemmas pool_defs = pid_pool_def mm_pool_def trampoline_pool_def frame_pool_def

lemma frame_pool_sel:
  "p_kstack (frame_pool s np mm vt vf tf np) = p_kstack (proc_pool s np)" "p_trapframe (frame_pool s np mm vt vf tf np) = tf"
  "p_kstack (trampoline_pool s np mm vt np) = p_kstack (proc_pool s np)"
  "(frame_pool s np mm vt vf tf)(np := (frame_pool s np mm vt vf tf np)
     \<lparr>p_context := Ctx (first_sched_ret_addr (img s)) (p_kstack (proc_pool s np) + KERNEL_STACK_SIZE)\<rparr>) =
   (proc_pool s)(np := fresh_proc (img s) (next_pid s) mm vt vf tf (proc_pool s np))"
  by (simp_all add: pool_defs fresh_proc_def)

lemma allocproc_run:
  assumes r: "find_unused [0..<NPROC] s = Inr (Some np, s1)" "allocpid s1 = Inr (next_pid s, s1\<lparr>next_pid := next_pid s + 1\<rparr>)"
      "proc_pool s1 = proc_pool s" "img s1 = img s"
    and c: "mm_create (s1\<lparr>proc_pool := pid_pool s np, next_pid := next_pid s + 1\<rparr>) = Inr (mm, s2)" "mm \<noteq> 0"
      "mm_mappagesat mm TRAMPOLINE (KIVA_TO_PA (trampoline_addr (img s))) (PTE_A OR PTE_R OR PTE_X) False
         (s2\<lparr>proc_pool := mm_pool s np mm\<rparr>) = Inr (vt, s3)"
      "kallocpage (s3\<lparr>proc_pool := trampoline_pool s np mm vt\<rparr>) = Inr (KVA_TO_PA tf, s4)" "KVA_TO_PA tf \<noteq> 0"
      "mm_mappagesat mm TRAPFRAME (KVA_TO_PA tf) (PTE_A OR PTE_D OR PTE_R OR PTE_W OR PTE_X) False s4 = Inr (vf, u)"
    and pools: "proc_pool s2 = pid_pool s np" "img s2 = img s" "proc_pool s3 = mm_pool s np mm" "proc_pool u = trampoline_pool s np mm vt"
      "img u = img s"
    and u2: "u2 = u\<lparr>proc_pool := frame_pool s np mm vt vf tf\<rparr>"
    and f: "k_memset (p_kstack (proc_pool s np)) 0 (ucast KERNEL_STACK_SIZE) u2 = Inr (u2\<lparr>mem := m1\<rparr>)"
      "k_memset tf 0 4096 (u2\<lparr>mem := m1\<rparr>) = Inr (u2\<lparr>mem := m2\<rparr>)"
    and h: "holding (L_proc np) (smp u) = Inr True"
  shows "allocproc s = Inr (Some np, u2\<lparr>mem := m2,
    proc_pool := (proc_pool s)(np := fresh_proc (img s) (next_pid s) mm vt vf tf (proc_pool s np))\<rparr>)"
proof -
  have "upd_proc np (\<lambda>q. q\<lparr>p_state := USED\<rparr>) (upd_proc np (\<lambda>q. q\<lparr>p_pid := next_pid s\<rparr>) (s1\<lparr>next_pid := next_pid s + 1\<rparr>)) =
      s1\<lparr>proc_pool := pid_pool s np, next_pid := next_pid s + 1\<rparr>"
    by (simp add: upd_proc_def r(3) pid_pool_def)
  moreover have "upd_proc np (\<lambda>q. q\<lparr>p_vma_ustack := 0, p_vma_brk := 0\<rparr>) (upd_proc np (\<lambda>q. q\<lparr>p_mm := mm\<rparr>) s2) =
      s2\<lparr>proc_pool := mm_pool s np mm\<rparr>"
    by (simp add: upd_proc_def pools(1) mm_pool_def)
  moreover have "upd_proc np (\<lambda>q. q\<lparr>p_vma_trampoline := vt\<rparr>) s3 = s3\<lparr>proc_pool := trampoline_pool s np mm vt\<rparr>"
    by (simp add: upd_proc_def pools(3) trampoline_pool_def)
  moreover have "upd_proc np (\<lambda>q. q\<lparr>p_context := Ctx 0 0\<rparr>) (upd_proc np (\<lambda>q. q\<lparr>p_parent := None, p_exit_code := 0\<rparr>)
      (upd_proc np (\<lambda>q. q\<lparr>p_trapframe := tf\<rparr>) (upd_proc np (\<lambda>q. q\<lparr>p_vma_trapframe := vf\<rparr>) u))) = u2"
    by (simp add: upd_proc_def pools(4) u2 frame_pool_def)
  moreover have "upd_proc np (\<lambda>q. q\<lparr>p_context := Ctx (first_sched_ret_addr (img s)) (p_kstack q + KERNEL_STACK_SIZE)\<rparr>) (u2\<lparr>mem := m2\<rparr>) =
      u2\<lparr>mem := m2, proc_pool := (proc_pool s)(np := fresh_proc (img s) (next_pid s) mm vt vf tf (proc_pool s np))\<rparr>"
    by (simp add: upd_proc_def u2 frame_pool_sel(1) frame_pool_sel(4) [symmetric])
  moreover have "proc_pool u2 = frame_pool s np mm vt vf tf" "img u2 = img s" "smp u2 = smp u" by (simp_all add: u2 pools(5))
  ultimately show ?thesis
    using r(1,2) c f h by (simp add: allocproc_def Let_def pools frame_pool_sel)
qed

text \<open>An entry is found and gets a pid.\<close>

lemma entry_claimed:
  assumes r: "room_for_proc s np ps G"
  shows "find_unused [0..<NPROC] s = Inr (Some np, k_take (L_proc np) s)"
    "allocpid (k_take (L_proc np) s) = Inr (next_pid s, (k_take (L_proc np) s)\<lparr>next_pid := next_pid s + 1\<rparr>)"
    "world (k_take (L_proc np) s) ps G" "holding (L_proc np) (take_lock (L_proc np) (smp s)) = Inr True"
proof -
  note d = r [unfolded room_for_proc_def]
  have w: "world s ps G" and np: "np < NPROC" "p_state (proc_pool s np) = UNUSED" using d by simp_all
  note wd = worldD [OF w]
  have "[0..<NPROC] = [0..<np] @ np # [Suc np..<NPROC]" using np(1) upt_add_eq_append [of 0 np "NPROC - np"] by (simp add: upt_conv_Cons)
  then show "find_unused [0..<NPROC] s = Inr (Some np, k_take (L_proc np) s)"
    by (simp only:) (rule find_unused_run; use wd(2) d np in auto)
  show "allocpid (k_take (L_proc np) s) = Inr (next_pid s, (k_take (L_proc np) s)\<lparr>next_pid := next_pid s + 1\<rparr>)"
    using allocpid_run [OF busy_take [OF wd(2), of "L_proc np"]] d by (simp add: k_free_def)
  show "world (k_take (L_proc np) s) ps G" by (rule world_take [OF w]) simp_all
  show "holding (L_proc np) (take_lock (L_proc np) (smp s)) = Inr True"
    using wd(2) by (simp add: holding_def take_lock_def mycpu_def k_ready_def cpu_ready_def)
qed

text \<open>The kernel stack and the trap frame are cleared beside the new address space.\<close>

lemma frame_cleared:
  assumes r: "room_for_proc s np ps G" and k: "k = p_kstack (proc_pool s np)"
    and a: "adv (set ps) s2 u qs H" and s2: "mem s2 = mem s" "kmap s2 = kmap s" "allocs s2 = allocs s"
    and g: "good u root qs" "tables (mem u) root \<subseteq> set ps - {tf}" "tf \<in> set ps - set qs" "set qs \<subseteq> set ps"
  obtains m1 m2 where "k_memset k 0 (ucast KERNEL_STACK_SIZE) (u\<lparr>proc_pool := Z\<rparr>) = Inr (u\<lparr>proc_pool := Z, mem := m1\<rparr>)"
    "k_memset tf 0 4096 (u\<lparr>proc_pool := Z, mem := m1\<rparr>) = Inr (u\<lparr>proc_pool := Z, mem := m2\<rparr>)"
    "adv (set ps \<union> stack_pages k) u (u\<lparr>proc_pool := Y, mem := m2\<rparr>) qs H" "good (u\<lparr>proc_pool := Y, mem := m2\<rparr>) root qs"
    "entry m2 root = entry (mem u) root" "tables m2 root = tables (mem u) root"
proof -
  note d = r [unfolded room_for_proc_def]
  have w: "world s ps G" using d by simp
  note wd = worldD [OF w] and wu = advD(2) [OF a]
  define u2 where "u2 = u\<lparr>proc_pool := Z\<rparr>"
  have km: "page_mapped u2 x = page_mapped s x" for x
    using same_layoutD(2) [OF advD(4) [OF a], of x] s2(2) by (simp add: u2_def page_mapped_def mapped_def)
  have w2: "world u2 qs H" using wu by (simp add: u2_def)
  have ap: "apart u2 x = apart s x" for x using advD(5) [OF a, of x] by (simp add: apart_def u2_def s2(3))
  obtain m1 m2 where mm: "k_memset k 0 (ucast KERNEL_STACK_SIZE) u2 = Inr (u2\<lparr>mem := m1\<rparr>)"
    "k_memset tf 0 4096 (u2\<lparr>mem := m1\<rparr>) = Inr (u2\<lparr>mem := m2\<rparr>)" "adv (insert tf (stack_pages k)) u2 (u2\<lparr>mem := m2\<rparr>) qs H"
  proof (rule pages_filled [OF w2])
    show "PGALIGNED x \<and> page_mapped u2 x" if "x \<in> stack_pages k" for x using d that by (simp add: km k)
    show "stack_pages k \<inter> set qs = {}" using d g(4) unfolding k by blast
    show "apart u2 (stack_pages k)" using d by (simp add: ap k)
    show "PGALIGNED tf" "page_mapped u2 tf" using g(3) wd(1,11,12) by (auto simp: arena_ok_def km)
    show "tf \<notin> set qs" using g(3) by simp
    show "apart u2 {tf}" unfolding ap by (rule apart_mono [OF wd(5)]) (use g(3) in simp)
  qed
  have "insert tf (stack_pages k) \<inter> tables (mem u2) root = {}" using d g(2,3) unfolding k by (auto simp: u2_def)
  moreover have "good u2 root qs" using g(1) by (simp add: u2_def)
  ultimately have gt: "good (u2\<lparr>mem := m2\<rparr>) root qs" "entry m2 root = entry (mem u) root" "tables m2 root = tables (mem u) root"
    using adv_good [OF mm(3), of root qs] by simp_all (simp_all add: u2_def)
  have e: "u\<lparr>proc_pool := Y, mem := m2\<rparr> = (u2\<lparr>mem := m2\<rparr>)\<lparr>proc_pool := Y\<rparr>" by (simp add: u2_def)
  have "adv (set ps \<union> stack_pages k) u u2 qs H" unfolding u2_def by (rule adv_mono [OF adv_upd(3) [OF wu]]) simp
  also have "adv (set ps \<union> stack_pages k) u2 (u2\<lparr>mem := m2\<rparr>) qs H" by (rule adv_mono [OF mm(3)]) (use g(3) in auto)
  also have "adv (set ps \<union> stack_pages k) (u2\<lparr>mem := m2\<rparr>) (u\<lparr>proc_pool := Y, mem := m2\<rparr>) qs H"
    unfolding e by (rule adv_mono [OF adv_upd(3) [OF advD(2) [OF mm(3)]]]) simp
  finally have "adv (set ps \<union> stack_pages k) u (u\<lparr>proc_pool := Y, mem := m2\<rparr>) qs H" .
  moreover have "good (u\<lparr>proc_pool := Y, mem := m2\<rparr>) root qs" unfolding e using gt(1) by (simp only: good_upd)
  ultimately show thesis using that [of m1 m2] mm(1,2) gt(2,3) by (simp add: u2_def)
qed

lemma allocproc_ok:
  assumes r: "room_for_proc s np ps G"
  obtains t mm vt vf root tf qs where "allocproc s = Inr (Some np, t)" "proc_made s np ps G t mm vt vf root tf qs"
proof -
  let ?q = "proc_pool s np"
  note d = r [unfolded room_for_proc_def] and cl = entry_claimed [OF r]
  have w: "world s ps G" using d by simp
  define s1 where "s1 = k_take (L_proc np) s"
  define s2 where "s2 = s1\<lparr>proc_pool := pid_pool s np, next_pid := next_pid s + 1\<rparr>"
  have w1: "world s1 ps G" and w2: "world s2 ps G" using cl(3) by (simp_all add: s2_def s1_def)
  have lk: "k_free (L_mm mm) s2" if "mm \<in> G Mm_alloc" for mm
    using d that by (simp add: s2_def s1_def k_free_def)
  let ?e = "KIVA_TO_PA (trampoline_addr (img s))" and ?f = "PTE_A OR PTE_R OR PTE_X" and ?g = "PTE_A OR PTE_D OR PTE_R OR PTE_W OR PTE_X"
  obtain mm vt vf root tf qs s5 s8 s10 u where
    c: "mm_create s2 = Inr (mm, s5)" "mm_mappagesat mm TRAMPOLINE ?e ?f False (s5\<lparr>proc_pool := mm_pool s np mm\<rparr>) = Inr (vt, s8)"
      "kallocpage (s8\<lparr>proc_pool := trampoline_pool s np mm vt\<rparr>) = Inr (KVA_TO_PA tf, s10)"
      "mm_mappagesat mm TRAPFRAME (KVA_TO_PA tf) ?g False s10 = Inr (vf, u)"
    and vo: "vm_only s2 s5" "vm_only (s5\<lparr>proc_pool := mm_pool s np mm\<rparr>) s8" "vm_only (s8\<lparr>proc_pool := trampoline_pool s np mm vt\<rparr>) u"
    and a: "adv (set ps) s2 u qs (taken Vma_alloc vf (taken Vma_alloc vt (taken Mm_alloc mm G)))"
    and m: "mm \<in> G Mm_alloc" "mm \<noteq> 0" "vt \<in> G Vma_alloc" "vf \<in> G Vma_alloc - {vt}" "KVA_TO_PA tf \<noteq> 0"
    and g: "good u root qs" "tables (mem u) root \<subseteq> set ps - {tf}" "tf \<in> set ps - set qs" "set qs \<subseteq> set ps" "length ps \<le> length qs + 6"
    and st: "mms u = (mms s2)(mm := \<lparr>mm_pgt = root, mm_vma = 0, mm_refcnt = 1\<rparr>)" "\<And>x. x \<notin> G Vma_alloc \<Longrightarrow> vmas u x = vmas s2 x"
    and en: "\<And>va. PGALIGNED va \<Longrightarrow> IS_USER_VA va \<Longrightarrow> entry (mem u) root va =
       (if va = TRAMPOLINE then PA2PTE ?e OR ?f OR PTE_V else if va = TRAPFRAME then PA2PTE (KVA_TO_PA tf) OR ?g OR PTE_V else 0)"
    by (rule space_made [OF w2 _ _ _ lk, of ?e ?f "mm_pool s np" "trampoline_pool s np" ?g]) (use d in blast)+
  have sel: "proc_pool s5 = pid_pool s np" "img s5 = img s" "proc_pool s8 = mm_pool s np mm" "proc_pool u = trampoline_pool s np mm vt"
    "img u = img s" "next_pid u = next_pid s + 1"
    using vm_only_sel(4,6,7) [OF vo(1)] vm_only_sel(4,6,7) [OF vo(2)] vm_only_sel(4,6,7) [OF vo(3)]
    by (simp_all add: s2_def s1_def)
  have "settle (smp u) = settle (take_lock (L_proc np) (smp s))"
    using alloc_only_sel(6) [OF advD(1) [OF a]] by (simp add: s2_def s1_def)
  then have smp: "smp u = take_lock (L_proc np) (smp s)" using worldD(2) [OF w] by (simp add: taken_back k_ready_def)
  let ?G = "taken Vma_alloc vf (taken Vma_alloc vt (taken Mm_alloc mm G))" and ?S = "stack_pages (p_kstack ?q)"
    and ?pool = "(proc_pool s)(np := fresh_proc (img s) (next_pid s) mm vt vf tf ?q)"
  define u2 where "u2 = u\<lparr>proc_pool := frame_pool s np mm vt vf tf\<rparr>"
  obtain m1 m2 where mm: "k_memset (p_kstack ?q) 0 (ucast KERNEL_STACK_SIZE) u2 = Inr (u2\<lparr>mem := m1\<rparr>)"
    "k_memset tf 0 4096 (u2\<lparr>mem := m1\<rparr>) = Inr (u2\<lparr>mem := m2\<rparr>)"
    "adv (set ps \<union> ?S) u (u\<lparr>proc_pool := ?pool, mem := m2\<rparr>) qs ?G" "good (u\<lparr>proc_pool := ?pool, mem := m2\<rparr>) root qs"
    "entry m2 root = entry (mem u) root" "tables m2 root = tables (mem u) root"
    unfolding u2_def by (rule frame_cleared [OF r refl a _ _ _ g(1-4)]) (simp_all add: s2_def s1_def)
  define t where "t = u\<lparr>proc_pool := ?pool, mem := m2\<rparr>"
  have "u2\<lparr>mem := m2, proc_pool := ?pool\<rparr> = t" by (simp add: t_def u2_def)
  then have run: "allocproc s = Inr (Some np, t)"
    using allocproc_run [OF cl(1,2) _ _ c(1) [unfolded s2_def s1_def] m(2) c(2,3) m(5) c(4) sel(1-5) u2_def mm(1,2)] cl(4)
    by (simp add: smp)
  have "adv (set ps \<union> ?S) s1 (s1\<lparr>proc_pool := pid_pool s np\<rparr>) ps G" by (rule adv_mono [OF adv_upd(3) [OF w1]]) simp
  also have "adv (set ps \<union> ?S) (s1\<lparr>proc_pool := pid_pool s np\<rparr>) s2 ps G"
    unfolding s2_def by (rule adv_mono [OF adv_upd(4) [of "s1\<lparr>proc_pool := pid_pool s np\<rparr>", simplified, OF w1]]) simp
  also have "adv (set ps \<union> ?S) s2 u qs ?G" by (rule adv_mono [OF a]) simp
  also have "adv (set ps \<union> ?S) u t qs ?G" unfolding t_def by (rule mm(3))
  finally have adv: "adv (set ps \<union> ?S) s1 t qs ?G" .
  have "mms t = (mms s)(mm := \<lparr>mm_pgt = root, mm_vma = 0, mm_refcnt = 1\<rparr>)" "next_pid t = next_pid s + 1"
    "smp t = take_lock (L_proc np) (smp s)" "vmas t = vmas u" "mem t = m2" "proc_pool t = ?pool"
    using st(1) smp sel(6) by (simp_all add: t_def s2_def s1_def)
  moreover have "\<forall>va. PGALIGNED va \<longrightarrow> IS_USER_VA va \<longrightarrow> entry m2 root va = fresh_entry (img s) tf va"
    using en by (simp add: mm(5) fresh_entry_def)
  ultimately have "proc_made s np ps G t mm vt vf root tf qs"
    unfolding proc_made_def using adv m mm(4,6) g st(2) by (auto simp: s1_def s2_def t_def)
  with run show thesis by (rule that)
qed

end
