(* ===== verification/Exec.thy ===== *)
theory Exec imports UserImage VmFree NewProc Uaccess begin

text \<open>
  \<^verbatim>\<open>exec\<close> of \<^verbatim>\<open>os/proc.c\<close>: the areas of the calling process are freed, and its address space becomes the image of
  the program.
\<close>

section \<open>The program in another memory\<close>

lemma get_ehdr_cong:
  assumes "\<And>i. i < 64 \<Longrightarrow> m' (a + of_nat i) = m (a + of_nat i)"
  shows "get_ehdr m' a = get_ehdr m a"
proof -
  have e: "m' (a + of_nat j + of_nat i) = m (a + of_nat j + of_nat i)" if "j + i < 64" for i j
    using assms [OF that] by (simp add: add.assoc)
  have "ld64 m' (a + of_nat j) = ld64 m (a + of_nat j)" if "j \<le> 56" for j by (rule ld64_cong) (rule e, use that in simp)
  from this [of 24] this [of 32] this [of 40]
  have "ld64 m' (a + 24) = ld64 m (a + 24)" "ld64 m' (a + 32) = ld64 m (a + 32)" "ld64 m' (a + 40) = ld64 m (a + 40)" by simp_all
  moreover have "ld32 m' (a + of_nat j) = ld32 m (a + of_nat j)" if "j \<le> 56" for j by (rule ld32_cong) (rule e, use that in simp)
  from this [of 20] this [of 48] have "ld32 m' (a + 20) = ld32 m (a + 20)" "ld32 m' (a + 48) = ld32 m (a + 48)" by simp_all
  moreover have "ld16 m' (a + of_nat j) = ld16 m (a + of_nat j)" if "j \<le> 62" for j
    using e [of j 0] e [of j 1] that by (simp add: ld16_def)
  from this [of 16] this [of 18] this [of 52] this [of 54] this [of 56] this [of 58] this [of 60] this [of 62]
  have "ld16 m' (a + 16) = ld16 m (a + 16)" "ld16 m' (a + 18) = ld16 m (a + 18)" "ld16 m' (a + 52) = ld16 m (a + 52)"
    "ld16 m' (a + 54) = ld16 m (a + 54)" "ld16 m' (a + 56) = ld16 m (a + 56)" "ld16 m' (a + 58) = ld16 m (a + 58)"
    "ld16 m' (a + 60) = ld16 m (a + 60)" "ld16 m' (a + 62) = ld16 m (a + 62)" by simp_all
  moreover have "map (\<lambda>i. m' (a + of_nat i)) [0..<16] = map (\<lambda>i. m (a + of_nat i)) [0..<16]"
    by (rule map_cong [OF refl]) (use assms in simp)
  ultimately show ?thesis by (simp only: get_ehdr_def)
qed

lemma elf_kept:
  assumes so: "same_on E (mem s) (mem t)" and ok: "elf_ok (mem s) E elf"
  shows "get_ehdr (mem t) elf = get_ehdr (mem s) elf" "user_parts (mem t) elf = user_parts (mem s) elf" "elf_ok (mem t) E elf"
proof -
  note d = ok [unfolded elf_ok_def]
  show eh: "get_ehdr (mem t) elf = get_ehdr (mem s) elf"
    by (rule get_ehdr_cong) (rule file_nth [of E elf 64], use d so in auto)
  have pa: "phdr_addr (mem t) elf = phdr_addr (mem s) elf" by (simp add: fun_eq_iff phdr_addr_def eh)
  have "get_phdr (mem t) (phdr_addr (mem s) elf i) = get_phdr (mem s) (phdr_addr (mem s) elf i)" if "i < unat (e_phnum (get_ehdr (mem s) elf))" for i
    by (rule get_phdr_cong) (rule file_nth [of E _ 56], use d so that in auto)
  then have "map (\<lambda>i. get_phdr (mem t) (phdr_addr (mem s) elf i)) [0..<unat (e_phnum (get_ehdr (mem s) elf))] =
      map (\<lambda>i. get_phdr (mem s) (phdr_addr (mem s) elf i)) [0..<unat (e_phnum (get_ehdr (mem s) elf))]" by simp
  then have lo: "loadable (mem t) elf = loadable (mem s) elf" by (simp only: loadable_def eh pa)
  have "seg_part (mem t) elf ph = seg_part (mem s) elf ph" if "ph \<in> set (loadable (mem s) elf)" for ph
    by (rule seg_part_kept [OF so]) (use d that in blast)
  then have pp: "prog_parts (mem t) elf = prog_parts (mem s) elf" by (simp add: prog_parts_def lo)
  show "user_parts (mem t) elf = user_parts (mem s) elf" by (simp add: user_parts_def pp prog_end_def lo)
  show "elf_ok (mem t) E elf" using d by (simp add: elf_ok_def eh pa lo pp)
qed

section \<open>Freeing the old areas\<close>

abbreviation given_back :: "u64 set \<Rightarrow> (alloc_id \<Rightarrow> u64 set) \<Rightarrow> alloc_id \<Rightarrow> u64 set" where
  "given_back X G \<equiv> G(Vma_alloc := G Vma_alloc \<union> X)"

lemma areas_freed_world:
  assumes w: "world s ps G" and g: "good s root ps" and own: "own_areas s mm root ps xs"
    and fr: "areas_freed s root ps (G Vma_alloc) xs t" and ap: "apart s (set (pages_of s root xs))"
  shows "adv (tables (mem s) root \<union> set (pages_of s root xs)) s t (rev (pages_of s root xs) @ ps) (given_back (set xs) G)"
    "good t root (rev (pages_of s root xs) @ ps)"
proof -
  let ?qs = "rev (pages_of s root xs) @ ps" and ?W = "tables (mem s) root \<union> set (pages_of s root xs)" and ?V = Vma_alloc
  note d = areas_freedD [OF fr] and wd = worldD [OF w] and lay = areas_freedD(4) [OF fr]
  have ok: "vm_ok s root ps" "apart s (tables (mem s) root)" using g by (simp_all add: good_def)
  have sp: "vm_ok t root ?qs" "objs_ok t ?V" "free_objects t ?V (G ?V \<union> set xs)" using d(1) by (simp_all add: space_ok_def)
  have reg: "obj_region (allocs t A) = obj_region (allocs s A)" for A using d(8,9) by (cases "A = ?V") simp_all
  have apW: "apart s ?W" using ok(2) ap by simp
  have alW: "PGALIGNED x" if "x \<in> ?W" for x using that vm_okD(8) [OF ok(1)] by (auto simp: pages_of_def)
  have mem: "mem t x = mem s x" if "\<not> obj_region (allocs s ?V) x" "\<forall>q \<in> ?W. \<not> in_page q x" for x by (rule d(11) [OF that])
  have k: "kept ?W s t"
    unfolding kept_def
  proof (intro conjI allI impI)
    show "obj_region (allocs t A) = obj_region (allocs s A)" for A by (rule reg)
    fix P assume P: "\<forall>x \<in> P. PGALIGNED x" "P \<inter> ?W = {}" "apart s P"
    show "same_on P (mem s) (mem t)"
      unfolding same_on_def
    proof (intro ballI allI impI)
      fix p x assume p: "p \<in> P" "in_page p x"
      then have "\<not> obj_region (allocs s ?V) x" using P(3) by (auto simp: apart_def objs_apart_def)
      moreover have "\<forall>q \<in> ?W. \<not> in_page q x" using in_page_disjoint [of p _ x] p P(1,2) alW by blast
      ultimately show "mem t x = mem s x" by (rule mem)
    qed
  qed
  have B: "objs_ok t A \<and> free_objects t A (G A)" if "A \<noteq> ?V" for A
  proof
    show "objs_ok t A" by (rule objs_ok_cong [OF wd(6) d(8) [OF that]]) (use lay in \<open>simp add: same_layout_def\<close>)
    show "free_objects t A (G A)"
    proof (rule free_objects_cong [OF wd(8) d(8) [OF that] wd(6)])
      fix x assume "in_page (bitmap (allocs s A)) x"
      then have x: "obj_region (allocs s A) x" by (simp add: obj_region_def)
      then have "\<not> obj_region (allocs s ?V) x" using wd(9) [OF that x] by blast
      moreover have "\<forall>q \<in> ?W. \<not> in_page q x" using apW x by (auto simp: apart_def objs_apart_def)
      ultimately show "mem t x = mem s x" by (rule mem)
    qed
  qed
  have "world t ?qs (given_back (set xs) G)"
    unfolding world_def
  proof (intro conjI allI)
    show "arena_ok t" "k_ready t" "k_free L_kpage t" "free_pages t ?qs" using vm_okD(3-6) [OF sp(1)] by simp_all
    show "apart t (set ?qs)" using ap wd(5) kept_apart [OF k] by simp
    show "objs_ok t A" "free_objects t A (given_back (set xs) G A)" for A using B [of A] sp(2,3) by (cases "A = ?V"; simp)+
    show "k_free (L_alloc A) t" for A using wd(7) [of A] same_layoutD(5) [OF lay] by simp
    show "A \<noteq> B \<longrightarrow> obj_region (allocs t A) x \<longrightarrow> \<not> obj_region (allocs t B) x" for A B x using wd(9) by (simp add: reg)
  qed
  then show "adv ?W s t ?qs (given_back (set xs) G)" using k vm_only_alloc_only [OF d(7)] by (simp add: adv_def)
  show "good t root ?qs" using sp(1) ok(2) kept_apart [OF k] by (simp add: good_def d(3))
qed

lemma mm_free_pages_ok:
  assumes w: "world s ps G" and g: "good s root ps" and root: "root = mm_pgt (mms s mm)" and own: "own_areas s mm root ps xs"
    and ch: "vma_chain (vmas s) (mm_vma (mms s mm)) xs" "set xs \<subseteq> objects_of s Vma_alloc - G Vma_alloc" "length xs \<le> 16384"
    and ap: "apart s (set (pages_of s root xs))"
  obtains t where "mm_free_pages mm s = Inr t" "vm_only s t" "good t root (rev (pages_of s root xs) @ ps)"
    "adv (tables (mem s) root \<union> set (pages_of s root xs)) s t (rev (pages_of s root xs) @ ps) (given_back (set xs) G)"
    "\<forall>va. PGALIGNED va \<longrightarrow> IS_USER_VA va \<longrightarrow>
       entry (mem t) root va = (if va \<in> set (area_pages (vmas s) xs) then 0 else entry (mem s) root va)"
    "tables (mem t) root = tables (mem s) root" "mms t = (mms s)(mm := (mms s mm)\<lparr>mm_vma := 0\<rparr>)" "vmas t = vmas s"
proof -
  let ?V = Vma_alloc
  note wd = worldD [OF w]
  have "objs_apart (allocs s ?V) (tables (mem s) root \<union> set ps)" using g wd(5) by (simp add: good_def apart_def)
  then have sp: "space_ok s root ps (G ?V)" using g wd(6-8) by (simp add: space_ok_def good_def)
  have "length xs < vma_rounds" using ch(3) by (simp add: vma_rounds_def)
  then obtain t1 where t1: "mm_free_loop vma_rounds (mm_vma (mms s mm)) s = Inr t1" "areas_freed s root ps (G ?V) xs t1"
    using mm_free_loop_ok [OF sp root own ch(1,2)] by blast
  note d = areas_freedD [OF t1(2)] and aw = areas_freed_world [OF w g own t1(2) ap]
  define t where "t = upd_mm mm (\<lambda>m. m\<lparr>mm_vma := 0\<rparr>) t1"
  have a: "adv (tables (mem s) root \<union> set (pages_of s root xs)) s t (rev (pages_of s root xs) @ ps) (given_back (set xs) G)"
  proof -
    have "adv (tables (mem s) root \<union> set (pages_of s root xs)) t1 t (rev (pages_of s root xs) @ ps) (given_back (set xs) G)"
      unfolding t_def by (rule adv_mono [OF adv_upd(1) [OF advD(2) [OF aw(1)]]]) simp
    with aw(1) show ?thesis by (rule adv_trans)
  qed
  show thesis
  proof (rule that [OF _ _ _ a])
    show "mm_free_pages mm s = Inr t" using t1(1) by (simp add: mm_free_pages_def t_def)
    show "vm_only s t" unfolding t_def by (rule vm_only_trans [OF d(7) vm_only_upd(1)])
    show "good t root (rev (pages_of s root xs) @ ps)" using aw(2) by (simp add: t_def)
  qed (use d(2,3,5,6) in \<open>simp_all add: t_def upd_mm_def\<close>)
qed

section \<open>What the new address space shows\<close>

lemma le_PGROUNDDOWN: "PGALIGNED lo \<Longrightarrow> lo \<le> PGROUNDDOWN va \<longleftrightarrow> lo \<le> va"
proof
  assume lo: "PGALIGNED lo" and "lo \<le> va"
  then show "lo \<le> PGROUNDDOWN va" using round_down_ge [of "unat lo" "unat va"] by (simp add: word_le_nat_alt PGALIGNED_iff unat_PGROUNDDOWN)
qed (use PGROUNDDOWN_le [of va] in \<open>blast intro: order.trans\<close>)

lemma page_range_byte: "PGALIGNED lo \<Longrightarrow> PGALIGNED hi \<Longrightarrow> PGROUNDDOWN va \<in> set (page_range lo hi) \<longleftrightarrow> lo \<le> va \<and> va < hi"
  using le_PGROUNDDOWN [of lo va] le_PGROUNDDOWN [of hi va] by (simp add: set_page_range linorder_not_le [symmetric])

text \<open>The page of \<open>va\<close> has the flags, and the byte at \<open>va\<close> the value, of \<open>r\<close>.\<close>

definition shows_byte :: "kst \<Rightarrow> u64 \<Rightarrow> u64 \<Rightarrow> u64 \<times> u8 \<Rightarrow> bool" where
  "shows_byte s root va = (\<lambda>(fl, b).
     entry (mem s) root (PGROUNDDOWN va) = leaf_pte (page_of (mem s) root (PGROUNDDOWN va)) fl \<and>
     managed s (page_of (mem s) root (PGROUNDDOWN va)) \<and> mem s (user_kva (mem s) root va) = b)"

abbreviation aligned_part :: "part \<Rightarrow> bool" where
  "aligned_part part \<equiv> PGALIGNED (fst part) \<and> PGALIGNED (fst (snd part))"

lemma parts_shown:
  assumes "space_holds s root ps parts" and "\<forall>part \<in> set parts. aligned_part part"
  shows "case parts_at parts va of Some r \<Rightarrow> shows_byte s root va r | None \<Rightarrow> PGROUNDDOWN va \<notin> set (all_pages parts)"
proof -
  have "\<forall>part \<in> set parts. part_loaded s root ps part" using assms(1) by (simp add: space_holds_def)
  then show ?thesis using assms(2)
  proof (induction parts)
    case (Cons part parts)
    obtain lo hi fl c where part: "part = (lo, hi, fl, c)" by (cases part) auto
    have al: "PGALIGNED lo" "PGALIGNED hi" using Cons.prems(2) by (simp_all add: part)
    have pl: "part_loaded s root ps part" using Cons.prems(1) by simp
    have r: "PGROUNDDOWN va \<in> set (part_pages part) \<longleftrightarrow> lo \<le> va \<and> va < hi" by (simp add: part part_pages_def page_range_byte [OF al])
    show ?case
    proof (cases "lo \<le> va \<and> va < hi")
      case True
      let ?q = "page_of (mem s) root (PGROUNDDOWN va)"
      note d = part_loadedD [OF pl r [THEN iffD2, OF True]]
      have "mem s (user_kva (mem s) root va) = c (PGROUNDDOWN va + (user_kva (mem s) root va - ?q))"
        using d(7) [OF user_kva_in_page] by (simp add: part)
      also have "\<dots> = c va" by (simp add: user_kva_def)
      finally have "mem s (user_kva (mem s) root va) = c va" .
      then show ?thesis using True d(3,4) by (simp add: part shows_byte_def)
    next
      case False
      then show ?thesis using Cons r by (auto simp: part split: option.splits)
    qed
  qed simp
qed

lemma user_parts_aligned:
  assumes "elf_ok m E elf" and "part \<in> set (user_parts m elf)"
  shows "aligned_part part"
proof -
  have f: "\<forall>ph \<in> set (loadable m elf). seg_fits E elf ph" using assms(1) by (simp add: elf_ok_def)
  have "PGALIGNED (prog_end m elf)" using prog_end_ok [OF f, of 0] by (simp add: prog_end_def)
  then have "aligned_part (brk_part (prog_end m elf))" "aligned_part stack_part"
    using stack_facts(1,2) by (simp_all add: brk_part_def stack_part_def)
  moreover have "aligned_part (seg_part m elf ph)" if "ph \<in> set (loadable m elf)" for ph
    using f that by (auto simp: seg_part_def seg_fits_def)
  ultimately show ?thesis using assms(2) by (auto simp: user_parts_def prog_parts_def)
qed

section \<open>The lock of the process\<close>

lemma world_smp:
  assumes w: "world s ps G" and r: "k_ready (s\<lparr>smp := m\<rparr>)" "\<And>l. l = L_kpage \<or> (\<exists>A. l = L_alloc A) \<Longrightarrow> k_free l (s\<lparr>smp := m\<rparr>)"
  shows "world (s\<lparr>smp := m\<rparr>) ps G"
proof -
  have p: "managed (s\<lparr>smp := m\<rparr>) p = managed s p" "page_mapped (s\<lparr>smp := m\<rparr>) p = page_mapped s p" for p
    by (simp_all add: managed_def page_mapped_def mapped_def)
  show ?thesis
    using w r unfolding world_def
    by (auto simp: p arena_ok_def free_pages_def free_objects_def objs_ok_def apart_def)
qed

lemma good_smp:
  assumes g: "good s root ps" and r: "k_ready (s\<lparr>smp := m\<rparr>)" "k_free L_kpage (s\<lparr>smp := m\<rparr>)"
  shows "good (s\<lparr>smp := m\<rparr>) root ps"
proof -
  have p: "managed (s\<lparr>smp := m\<rparr>) p = managed s p" "page_mapped (s\<lparr>smp := m\<rparr>) p = page_mapped s p" for p
    by (simp_all add: managed_def page_mapped_def mapped_def)
  show ?thesis using g r unfolding good_def vm_ok_def by (auto simp: p arena_ok_def free_pages_def apart_def)
qed

lemma stage_smp:
  assumes st: "stage s mm P ps G E parts" and r: "k_ready (s\<lparr>smp := m\<rparr>)" "\<And>l. l = L_kpage \<or> (\<exists>A. l = L_alloc A) \<Longrightarrow> k_free l (s\<lparr>smp := m\<rparr>)"
  shows "stage (s\<lparr>smp := m\<rparr>) mm P ps G E parts"
proof -
  have "part_page (s\<lparr>smp := m\<rparr>) root ps fl c va = part_page s root ps fl c va" for root fl c va
    by (simp add: part_page_def managed_def apart_def)
  then have "space_holds (s\<lparr>smp := m\<rparr>) root ps parts = space_holds s root ps parts" for root
    by (simp add: space_holds_def part_loaded_def)
  moreover have "image_in (s\<lparr>smp := m\<rparr>) root ps E = image_in s root ps E" for root
    by (simp add: image_in_def apart_def page_mapped_def mapped_def)
  ultimately show ?thesis
    using st world_smp [OF _ r] good_smp [OF _ r(1)] r(2) by (simp add: stage_def Let_def)
qed

lemma own_areas_take [simp]: "own_areas (k_take l s) mm root ps xs = own_areas s mm root ps xs"
  by (simp add: own_areas_def own_page_def managed_def)

section \<open>exec\<close>

text \<open>The pages that become the new address space or stay free: tables and pages of the old one, and the free pages.\<close>

definition exec_pages :: "kst \<Rightarrow> u64 \<Rightarrow> u64 list \<Rightarrow> u64 list \<Rightarrow> u64 set" where
  "exec_pages s root ps xs = tables (mem s) root \<union> set (pages_of s root xs) \<union> set ps"

text \<open>
  What \<^verbatim>\<open>exec\<close> needs of the calling process \<open>p\<close>, whose areas are \<open>xs\<close>: its pages are its own, nothing is mapped
  below the top of the stack outside its areas, its program is a well-formed file in the kernel's data
  \<open>E\<close>, its trap frame is apart, and with what the old areas give back there are pages and objects enough.
\<close>

definition exec_ready :: "kst \<Rightarrow> nat \<Rightarrow> u64 list \<Rightarrow> (alloc_id \<Rightarrow> u64 set) \<Rightarrow> u64 set \<Rightarrow> u64 \<Rightarrow> u64 list \<Rightarrow> bool" where
  "exec_ready s p ps G E elf xs \<longleftrightarrow>
     (let mm = p_mm (proc_pool s p); root = mm_pgt (mms s mm); tf = p_trapframe (proc_pool s p);
          parts = user_parts (mem s) elf; P = exec_pages s root ps xs in
      curr_proc s = Inr p \<and> k_free (L_proc p) s \<and> p_state (proc_pool s p) \<noteq> UNUSED \<and>
      world s ps G \<and> good s root ps \<and> own_areas s mm root ps xs \<and> apart s (set (pages_of s root xs)) \<and>
      vma_chain (vmas s) (mm_vma (mms s mm)) xs \<and> set xs \<subseteq> objects_of s Vma_alloc - G Vma_alloc \<and> length xs \<le> 16384 \<and>
      (\<forall>va. PGALIGNED va \<longrightarrow> va < USTACK_START \<longrightarrow> va \<notin> set (area_pages (vmas s) xs) \<longrightarrow> entry (mem s) root va AND PTE_V = 0) \<and>
      elf_ok (mem s) E elf \<and> (\<forall>e \<in> E. PGALIGNED e \<and> page_mapped s e) \<and> E \<inter> P = {} \<and> apart s E \<and>
      page_mapped s tf \<and> PGALIGNED tf \<and> tf \<notin> P \<and> apart s {tf} \<and>
      3 * length (all_pages parts) \<le> length ps + length (area_pages (vmas s) xs) \<and>
      length parts \<le> card (G Vma_alloc \<union> set xs))"

text \<open>Once the old areas are gone the program can be loaded.\<close>

lemma exec_areas_freed:
  assumes r: "exec_ready s p ps G E elf xs" and mm: "mm = p_mm (proc_pool s p)" and root: "root = mm_pgt (mms s mm)"
    and P: "P = exec_pages s root ps xs"
  obtains t where "mm_free_pages mm (k_take (L_proc p) s) = Inr t" "vm_only (k_take (L_proc p) s) t"
    "load_ready t p mm P (rev (pages_of s root xs) @ ps) (given_back (set xs) G) E elf" "kept P s t"
    "get_ehdr (mem t) elf = get_ehdr (mem s) elf" "user_parts (mem t) elf = user_parts (mem s) elf"
    "\<forall>va. PGALIGNED va \<longrightarrow> IS_USER_VA va \<longrightarrow>
       entry (mem t) root va = (if va \<in> set (area_pages (vmas s) xs) then 0 else entry (mem s) root va)"
    "mms t = (mms s)(mm := (mms s mm)\<lparr>mm_vma := 0\<rparr>)"
proof -
  note d = r [unfolded exec_ready_def Let_def, folded mm, folded root, folded P]
  let ?s = "k_take (L_proc p) s" and ?qs = "rev (pages_of s root xs) @ ps" and ?tf = "p_trapframe (proc_pool s p)"
  have w: "world ?s ps G" by (rule world_take) (use d in simp_all)
  have g: "good ?s root ps" by (rule good_smp) (use d worldD(2,3) [OF w] in simp_all)
  have po: "pages_of ?s root xs = pages_of s root xs" "objects_of ?s A = objects_of s A" for A by (simp_all add: pages_of_def objects_of_def)
  have h: "root = mm_pgt (mms ?s mm)" "own_areas ?s mm root ps xs" "vma_chain (vmas ?s) (mm_vma (mms ?s mm)) xs"
    "set xs \<subseteq> objects_of ?s Vma_alloc - G Vma_alloc" "length xs \<le> 16384" "apart ?s (set (pages_of ?s root xs))"
    using d root po by (simp_all add: apart_def)
  obtain t where t: "mm_free_pages mm ?s = Inr t" "vm_only ?s t" "good t root ?qs"
    "adv (tables (mem s) root \<union> set (pages_of s root xs)) ?s t ?qs (given_back (set xs) G)"
    "\<forall>va. PGALIGNED va \<longrightarrow> IS_USER_VA va \<longrightarrow>
       entry (mem t) root va = (if va \<in> set (area_pages (vmas s) xs) then 0 else entry (mem s) root va)"
    "tables (mem t) root = tables (mem s) root" "mms t = (mms s)(mm := (mms s mm)\<lparr>mm_vma := 0\<rparr>)"
    by (rule mm_free_pages_ok [OF w g h, unfolded po]) simp_all
  have "adv P ?s t ?qs (given_back (set xs) G)" by (rule adv_mono [OF t(4)]) (auto simp: P exec_pages_def)
  then have k: "kept P ?s t" by (rule advD(3))
  then have k': "kept P s t" by (simp add: kept_def apart_def)
  have so: "same_on E (mem s) (mem t)" by (rule keptD [OF k']) (use d in blast)+
  note ek = elf_kept [OF so, of elf] and lay = same_layoutD(2) [OF advD(4) [OF t(4)]] and apt = kept_apart [OF k']
  have pm: "page_mapped t x = page_mapped s x" for x using lay [of x] by (simp add: page_mapped_def mapped_def)
  have im: "image_in t root ?qs E" using d by (auto simp: image_in_def t(6) pm apt P exec_pages_def)
  have st: "stage t mm P ?qs (given_back (set xs) G) E []"
    using advD(2) [OF t(4)] t(3,6,7) im d
    by (simp add: stage_def root [symmetric] space_holds_def P exec_pages_def) blast
  have en: "entry (mem t) root va AND PTE_V = 0" if "PGALIGNED va" "va < USTACK_START" for va
  proof -
    have "IS_USER_VA va" using that(2) by (simp add: IS_USER_VA_def MAXVA_def USTACK_START_def word_le_nat_alt word_less_nat_alt)
    then show ?thesis using t(5) that d by simp
  qed
  have "load_ready t p mm P ?qs (given_back (set xs) G) E elf"
    unfolding load_ready_def Let_def
    using st en ek d t(7) vm_only_sel(4) [OF t(2)] pm apt
    by (simp add: root [symmetric] mm [symmetric] pages_of_def)
  then show thesis using that t(1,2,5,7) k' ek d by blast
qed

text \<open>What the processor shows after the lock of the process is free again.\<close>

lemma exec_released:
  assumes w: "world s ps G" and l: "k_free (L_proc p) s" and sm: "settle (smp u) = settle (take_lock (L_proc p) (smp s))"
    and st: "stage u mm P qs H E parts"
  shows "k_release (L_proc p) u = Inr (u\<lparr>smp := settle (smp s)\<rparr>)" "stage (u\<lparr>smp := settle (smp s)\<rparr>) mm P qs H E parts"
proof -
  have c: "cpu_ready (smp s)" "lock_free (L_proc p) (smp s)" using worldD(2) [OF w] l by (simp_all add: k_ready_def k_free_def)
  show "k_release (L_proc p) u = Inr (u\<lparr>smp := settle (smp s)\<rparr>)" by (rule k_release_taken [OF c taken_back [OF sm c(1)]])
  show "stage (u\<lparr>smp := settle (smp s)\<rparr>) mm P qs H E parts"
    by (rule stage_smp [OF st]) (use c worldD(3,7) [OF w] in \<open>auto simp: k_ready_def k_free_def\<close>)
qed

lemma shows_byte_smp [simp]: "shows_byte (u\<lparr>smp := m\<rparr>) = shows_byte u"
  by (simp add: fun_eq_iff shows_byte_def managed_def)

lemma kept_smp [simp]: "kept W s (u\<lparr>smp := m\<rparr>) = kept W s u"
  by (simp add: kept_def)

text \<open>C36. \<^verbatim>\<open>exec\<close> of a program whose segments start on pages of their own replaces the address space of the calling
  process by exactly the program: at every user address there is the byte that the file has there, or zero behind it, with
  the permissions of the segment, or of the heap and the stack, in pages of the process alone, and nothing where the
  old areas were. The process starts at the entry point with an empty stack and otherwise the old registers, is ready,
  and has its lock released; every page outside its tables, its old pages, the free pages and its trap frame keeps its bytes.\<close>

theorem exec_correct:
  assumes found: "get_elf name s = Inr (Some app)" and r: "exec_ready s p ps G E (elf_address app) xs"
    and mm: "mm = p_mm (proc_pool s p)" and root: "root = mm_pgt (mms s mm)" and tf: "tf = p_trapframe (proc_pool s p)"
    and parts: "parts = user_parts (mem s) (elf_address app)" and P: "P = exec_pages s root ps xs"
  shows "\<exists>t qs H brk stk. exec name s = Inr (0, t) \<and> smp t = settle (smp s) \<and> stage t mm P qs H E parts \<and>
    (\<forall>va. IS_USER_VA va \<longrightarrow>
       (case parts_at parts va of Some r \<Rightarrow> shows_byte t root va r
        | None \<Rightarrow> entry (mem t) root (PGROUNDDOWN va) =
            (if PGROUNDDOWN va \<in> set (area_pages (vmas s) xs) then 0 else entry (mem s) root (PGROUNDDOWN va)))) \<and>
    inj_on (page_of (mem t) root) (set (all_pages parts)) \<and>
    (\<forall>i < 512. ld64 (mem t) (slot tf i) =
       (if i = 3 then e_entry (get_ehdr (mem s) (elf_address app)) else if i = 6 then USTACK_START else ld64 (mem s) (slot tf i))) \<and>
    proc_pool t = (proc_pool s)(p := (proc_pool s p)\<lparr>p_vma_brk := brk, p_vma_ustack := stk, p_state := RUNNABLE\<rparr>) \<and>
    mm_pgt (mms t mm) = root \<and> mm_refcnt (mms t mm) = mm_refcnt (mms s mm) \<and> (\<forall>y. y \<noteq> mm \<longrightarrow> mms t y = mms s y) \<and>
    kept (insert tf P) s t \<and> task_queue t = task_queue s \<and> next_pid t = next_pid s"
proof -
  let ?elf = "elf_address app" and ?s = "k_take (L_proc p) s"
  note d = r [unfolded exec_ready_def Let_def, folded mm, folded root, folded P tf parts]
  obtain t where t: "mm_free_pages mm ?s = Inr t" "vm_only ?s t"
    "load_ready t p mm P (rev (pages_of s root xs) @ ps) (given_back (set xs) G) E ?elf" "kept P s t"
    "get_ehdr (mem t) ?elf = get_ehdr (mem s) ?elf" "user_parts (mem t) ?elf = parts"
    "\<forall>va. PGALIGNED va \<longrightarrow> IS_USER_VA va \<longrightarrow>
       entry (mem t) root va = (if va \<in> set (area_pages (vmas s) xs) then 0 else entry (mem s) root va)"
    "mms t = (mms s)(mm := (mms s mm)\<lparr>mm_vma := 0\<rparr>)"
    unfolding parts by (rule exec_areas_freed [OF r mm root P])
  note sel = vm_only_sel [OF t(2)]
  have pt: "proc_pool t = proc_pool s" "p_trapframe (proc_pool s p) = tf" "mm_pgt (mms t mm) = root" using sel(4) t(8) by (simp_all add: tf root)
  obtain u qs H where u: "load_user_elf app p t = Inr u"
    "program_loaded t p mm P (rev (pages_of s root xs) @ ps) (given_back (set xs) G) E ?elf u qs H"
    by (rule load_user_elf_ok [OF t(3)])
  note e = u(2) [unfolded program_loaded_def Let_def pt t(5,6)]
  have st: "stage u mm P qs H E parts" and a: "adv (insert tf P) t u qs H" using e by blast+
  have "settle (smp u) = settle (take_lock (L_proc p) (smp s))" using alloc_only_sel(6) [OF advD(1) [OF a]] sel(10) by simp
  note rel = exec_released [OF _ _ this st, of ps G]
  define v where "v = u\<lparr>smp := settle (smp s)\<rparr>"
  have v: "k_release (L_proc p) u = Inr v" "stage v mm P qs H E parts" using rel d by (simp_all add: v_def)
  have run: "exec name s = Inr (0, v)"
    using found d t(1) u(1) v(1) k_acquire_free [of s "L_proc p"] worldD(2) [of s ps G] mm by (simp add: exec_def)
  have ur: "mm_pgt (mms u mm) = root" using e by blast
  have holds: "space_holds u root qs parts" using stageD(3) [OF st ur [symmetric]] .
  have al: "\<forall>part \<in> set parts. aligned_part part" using user_parts_aligned [of "mem s" E] d unfolding parts by blast
  have "case parts_at parts va of Some r \<Rightarrow> shows_byte v root va r
        | None \<Rightarrow> entry (mem v) root (PGROUNDDOWN va) =
            (if PGROUNDDOWN va \<in> set (area_pages (vmas s) xs) then 0 else entry (mem s) root (PGROUNDDOWN va))" if "IS_USER_VA va" for va
  proof (cases "parts_at parts va")
    case None
    then have "PGROUNDDOWN va \<notin> set (all_pages parts)" using parts_shown [OF holds al, of va] by simp
    then have "entry (mem u) root (PGROUNDDOWN va) = entry (mem t) root (PGROUNDDOWN va)"
      using e IS_USER_VA_rounddown [OF that] by simp
    then show ?thesis using None t(7) IS_USER_VA_rounddown [OF that] by (simp add: v_def)
  next
    case (Some r)
    then show ?thesis using parts_shown [OF holds al, of va] by (simp add: v_def)
  qed
  moreover have "inj_on (page_of (mem v) root) (set (all_pages parts))" using holds by (simp add: space_holds_def v_def)
  moreover have "ld64 (mem v) (slot tf i) =
       (if i = 3 then e_entry (get_ehdr (mem s) ?elf) else if i = 6 then USTACK_START else ld64 (mem s) (slot tf i))" if "i < 512" for i
  proof -
    have "same_on {tf} (mem s) (mem t)" by (rule keptD [OF t(4)]) (use d in auto)
    from same_on_ld64 [OF this _ that] show ?thesis using e that d by (simp add: v_def)
  qed
  moreover obtain brk stk where "proc_pool v = (proc_pool s)(p := (proc_pool s p)\<lparr>p_vma_brk := brk, p_vma_ustack := stk, p_state := RUNNABLE\<rparr>)"
    using e by (auto simp: v_def)
  moreover have "mm_pgt (mms v mm) = root" "mm_refcnt (mms v mm) = mm_refcnt (mms s mm)" "\<forall>y. y \<noteq> mm \<longrightarrow> mms v y = mms s y"
    "task_queue v = task_queue s" "next_pid v = next_pid s"
    using e t(8) sel(5,7) by (simp_all add: v_def)
  moreover have "kept (insert tf P) s v"
    using kept_trans [OF kept_mono [OF t(4)] advD(3) [OF a]] by (simp add: v_def subset_insertI)
  moreover have "smp v = settle (smp s)" by (simp add: v_def)
  ultimately show ?thesis using run v(2) by blast
qed

end
