(* ===== verification/Fork.thy ===== *)
theory Fork imports NewProc begin

text \<open>
  \<^verbatim>\<open>fork\<close> of \<^verbatim>\<open>os/proc.c\<close>, from the allocators to the ready queue: the child is a new process with a copy of
  the parent's address space and registers, and the parent is what it was.
\<close>

section \<open>The copy\<close>

text \<open>
  The parent \<open>p\<close>, whose areas are \<open>xs\<close>, beside the allocators: its tables, its pages and its trap frame are
  not free, not in the pools and not in the kernel stack \<open>k\<close> of the child.
\<close>

definition parent_ok :: "kst \<Rightarrow> nat \<Rightarrow> u64 \<Rightarrow> u64 list \<Rightarrow> (alloc_id \<Rightarrow> u64 set) \<Rightarrow> u64 list \<Rightarrow> bool" where
  "parent_ok s p k ps G xs \<longleftrightarrow>
     (let mm = p_mm (proc_pool s p); root = mm_pgt (mms s mm); tfp = p_trapframe (proc_pool s p);
          others = set ps \<union> stack_pages k in
      good s root ps \<and> tables (mem s) root \<inter> stack_pages k = {} \<and> mm \<notin> G Mm_alloc \<and>
      vma_chain (vmas s) (mm_vma (mms s mm)) xs \<and> length xs \<le> 16384 \<and> set xs \<inter> G Vma_alloc = {} \<and>
      distinct (area_pages (vmas s) xs) \<and> managed s tfp \<and> tfp \<notin> others \<and> apart s {tfp} \<and>
      (\<forall>x \<in> set xs. vma_fits (vmas s x) \<and> pte_flags (vmas s x) AND PTE_U \<noteq> 0) \<and>
      (\<forall>va \<in> set (area_pages (vmas s) xs). va \<noteq> TRAMPOLINE \<and> va \<noteq> TRAPFRAME \<and> user_page s root va \<and>
         page_of (mem s) root va \<notin> tables (mem s) root \<union> others \<and> apart s {page_of (mem s) root va}))"

lemma in_area_pages: "x \<in> set xs \<Longrightarrow> va \<in> set (vma_pages (f x)) \<Longrightarrow> va \<in> set (area_pages f xs)"
  by (auto simp: area_pages_def)

text \<open>After \<^verbatim>\<open>allocproc\<close> the parent's space can be copied to the child's.\<close>

lemma ready_to_copy:
  assumes pm: "proc_made s np ps G t mm vt vf root2 tf qs" and w: "world s ps G" and pa: "parent_ok s p (p_kstack (proc_pool s np)) ps G xs"
    and root1: "root1 = mm_pgt (mms s (p_mm (proc_pool s p)))"
  shows "copy_ok t root1 root2 qs (G Vma_alloc - {vt} - {vf})" "entry (mem t) root1 = entry (mem s) root1"
    "tables (mem t) root1 = tables (mem s) root1" "x \<in> set xs \<Longrightarrow> area_ok t root1 root2 qs (vmas t x)" "x \<in> set xs \<Longrightarrow> vmas t x = vmas s x"
proof -
  let ?S = "stack_pages (p_kstack (proc_pool s np))" and ?s = "k_take (L_proc np) s"
  note d = pm [unfolded proc_made_def] and c = pa [unfolded parent_ok_def Let_def, folded root1]
  have a: "adv (set ps \<union> ?S) ?s t qs (taken Vma_alloc vf (taken Vma_alloc vt (taken Mm_alloc mm G)))"
    and g2: "good t root2 qs" "tables (mem t) root2 \<subseteq> set ps" and sub: "set qs \<subseteq> set ps" using d by blast+
  have g1: "good s root1 ps" using c by blast
  then have ok1: "vm_ok s root1 ps" by (simp add: good_def)
  have g1': "good ?s root1 ps"
    using g1 by (auto simp: good_def vm_ok_def apart_def k_ready_def k_free_def arena_ok_def free_pages_def managed_def
        page_mapped_def mapped_def)
  have W: "(set ps \<union> ?S) \<inter> tables (mem ?s) root1 = {}" using c vm_okD(7) [OF ok1] by auto
  note t1 = adv_good [OF a g1' W sub]
  show e1: "entry (mem t) root1 = entry (mem s) root1" and T1: "tables (mem t) root1 = tables (mem s) root1" using t1 by simp_all
  have dj: "tables (mem t) root1 \<inter> tables (mem t) root2 = {}" using g2(2) vm_okD(7) [OF ok1] by (auto simp: T1)
  note wt = worldD [OF advD(2) [OF a]]
  show "copy_ok t root1 root2 qs (G Vma_alloc - {vt} - {vf})"
    using t1(1) g2(1) dj wt(5-7) wt(8) [of Vma_alloc] by (simp add: copy_ok_def good_def apart_def)
  have vx: "vmas t x = vmas s x" if "x \<in> set xs" for x
    using d c that by blast
  then show "x \<in> set xs \<Longrightarrow> vmas t x = vmas s x" .
  show "area_ok t root1 root2 qs (vmas t x)" if x: "x \<in> set xs"
    unfolding area_ok_def vx [OF x]
  proof (intro conjI ballI)
    show fits: "vma_fits (vmas s x)" and "pte_flags (vmas s x) AND PTE_U \<noteq> 0" using c x by blast+
    fix va assume va: "va \<in> set (vma_pages (vmas s x))"
    note q = in_area_pages [of x xs va "vmas s", OF x va] and u = vma_pages_user [OF fits va]
    have p1: "page_of (mem t) root1 va = page_of (mem s) root1 va" by (simp add: page_of_def e1)
    have up: "user_page s root1 va" and np: "page_of (mem s) root1 va \<notin> tables (mem s) root1 \<union> (set ps \<union> ?S)"
      and ap: "apart s {page_of (mem s) root1 va}" and ne: "va \<noteq> TRAMPOLINE" "va \<noteq> TRAPFRAME"
      using c q by blast+
    have "managed t pg = managed s pg" for pg
      using same_layoutD(1) [OF advD(4) [OF a], of pg] by (simp add: managed_def)
    then show "user_page t root1 va" using up by (simp add: user_page_def e1 p1)
    show "page_of (mem t) root1 va \<notin> tables (mem t) root1 \<union> tables (mem t) root2 \<union> set qs"
      using np g2(2) sub by (auto simp: p1 T1)
    show "objs_apart (allocs t Vma_alloc) {page_of (mem t) root1 va}"
      using ap advD(5) [OF a, of "{page_of (mem s) root1 va}"] by (simp add: p1 apart_def)
    show "entry (mem t) root2 va AND PTE_V = 0" using d u ne by (simp add: fresh_entry_def)
  qed
qed

section \<open>The trap frame\<close>

lemma ld64_moved:
  assumes "\<And>k. k < 8 \<Longrightarrow> m' (b + k) = m (a + k)"
  shows "ld64 m' b = ld64 m a"
proof (rule bit_eqI)
  fix n assume "possible_bit TYPE(64 word) n"
  then have "n div 8 < 8" by auto
  then have "(of_nat (n div 8) :: u64) < 8" by (simp add: word_less_nat_alt unat_of_nat_small)
  then show "bit (ld64 m' b) n = bit (ld64 m a) n" using assms by (simp add: bit_ld64)
qed

text \<open>The registers of the parent, but for the result of \<^verbatim>\<open>fork\<close>.\<close>

lemma frame_copied:
  assumes al: "arena_ok s" and p: "managed s p" and q: "managed s q"
  obtains m1 m where "k_memmove q p TF_size s = Inr (s\<lparr>mem := m1\<rparr>)"
    "store64 (q + TF_a0) 0 (s\<lparr>mem := m1\<rparr>) = Inr (s\<lparr>mem := m\<rparr>)" "only_in {q} (mem s) m"
    "\<And>i. i < 36 \<Longrightarrow> ld64 m (slot q i) = (if i = 14 then 0 else ld64 (mem s) (slot p i))"
proof -
  have nw: "no_wrap p TF_size" "no_wrap q TF_size"
    using managed_no_wrap [OF al p] managed_no_wrap [OF al q] by (simp_all add: no_wrap_def TF_size_def)
  have pm: "page_mapped s p" "page_mapped s q" using al p q by (simp_all add: arena_ok_def)
  define m1 where "m1 = memmove (mem s) q p TF_size"
  have m1: "m1 = (\<lambda>x. if unat (x - q) < 288 then mem s (p + (x - q)) else mem s x)"
    unfolding m1_def memmove_eq [OF nw] by (simp add: TF_size_def)
  have r1: "k_memmove q p TF_size s = Inr (s\<lparr>mem := m1\<rparr>)"
    using pm by (simp add: k_memmove_def m1_def TF_size_def page_mapped_def mapped_def)
  have sl: "q + TF_a0 = slot q 14" by (simp add: TF_a0_def slot_def)
  have "page_mapped (s\<lparr>mem := m1\<rparr>) q" using pm(2) by (simp add: page_mapped_def mapped_def)
  then have r2: "store64 (q + TF_a0) 0 (s\<lparr>mem := m1\<rparr>) = Inr (s\<lparr>mem := st64 m1 (slot q 14) 0\<rparr>)"
    unfolding sl by (subst store64_slot) simp_all
  have "only_in {q} (mem s) m1" by (simp add: only_in_def m1 in_page_def PGSIZE_def word_less_nat_alt)
  then have oi: "only_in {q} (mem s) (st64 m1 (slot q 14) 0)"
    by (rule only_in_trans) (use store_cell(3) [OF pm(2), of 14] in auto)
  have aq: "PGALIGNED q" using q by (simp add: managed_def)
  have "ld64 m1 (slot q i) = ld64 (mem s) (slot p i)" if "i < 36" for i :: u64
  proof (rule ld64_moved)
    fix k :: u64 assume k: "k < 8"
    have "unat (8 * i) = 8 * unat i" using that by (simp add: unat_word_ariths word_less_nat_alt)
    then have "unat (8 * i + k) < 288" using that k by (simp add: unat_add_no_wrap word_less_nat_alt)
    then show "m1 (slot q i + k) = mem s (slot p i + k)" by (simp add: m1 slot_def add.assoc)
  qed
  moreover have "i < 512" if "i < 36" for i :: u64 using that by (simp add: word_less_nat_alt)
  ultimately have "ld64 (st64 m1 (slot q 14) 0) (slot q i) = (if i = 14 then 0 else ld64 (mem s) (slot p i))" if "i < 36" for i
    using ld64_st64_slot [of 14 i q q m1 0] aq that by auto
  then show thesis using that [OF r1 r2 oi] by blast
qed

section \<open>fork\<close>

lemma copy_ok_take: "copy_ok s root1 root2 ps F \<Longrightarrow> l \<noteq> L_kpage \<Longrightarrow> l \<noteq> L_alloc Vma_alloc \<Longrightarrow> copy_ok (k_take l s) root1 root2 ps F"
  using vm_ok_take [of s root1 ps l] vm_ok_take [of s root2 ps l] objs_ok_cong [of s Vma_alloc "k_take l s"]
  by (auto simp: copy_ok_def k_free_def free_objects_def)

lemma area_ok_take: "area_ok (k_take l s) root1 root2 ps v = area_ok s root1 root2 ps v"
  by (simp add: area_ok_def user_page_def managed_def)

text \<open>The state in which the child's space is copied and its trap frame filled.\<close>

definition child_filled ::
  "kst \<Rightarrow> nat \<Rightarrow> kst \<Rightarrow> u64 \<Rightarrow> u64 \<Rightarrow> u64 \<Rightarrow> u64 \<Rightarrow> u64 list \<Rightarrow> u64 list \<Rightarrow> nat \<Rightarrow> u64 list \<Rightarrow> kst \<Rightarrow> bool" where
  "child_filled s p t1 mm root1 root2 tf ps qs K xs u \<longleftrightarrow>
     vm_ok u root1 (drop K qs) \<and> vm_ok u root2 (drop K qs) \<and> vm_only t1 u \<and>
     entry (mem u) root1 = entry (mem s) root1 \<and>
     (\<forall>va. PGALIGNED va \<longrightarrow> IS_USER_VA va \<longrightarrow> va \<notin> set (area_pages (vmas s) xs) \<longrightarrow> entry (mem u) root2 va = fresh_entry (img s) tf va) \<and>
     pages_copied s root1 root2 ps xs (length ps) u \<and>
     same_on (insert (p_trapframe (proc_pool s p)) (page_of (mem s) root1 ` set (area_pages (vmas s) xs))) (mem s) (mem u) \<and>
     (\<forall>i < 36. ld64 (mem u) (slot tf i) = (if i = 14 then 0 else ld64 (mem s) (slot (p_trapframe (proc_pool s p)) i))) \<and>
     mms u (p_mm (proc_pool s p)) = mms s (p_mm (proc_pool s p)) \<and> mm_pgt (mms u mm) = root2"

lemma child_copied:
  assumes w: "world s ps G" and pa: "parent_ok s p (p_kstack (proc_pool s np)) ps G xs"
    and len: "3 * length (area_pages (vmas s) xs) + 6 \<le> length ps" "length xs + 2 \<le> card (G Vma_alloc)"
    and pm: "proc_made s np ps G t mm vt vf root2 tf qs" and root1: "root1 = mm_pgt (mms s (p_mm (proc_pool s p)))"
    and l: "p \<noteq> np" "t1 = k_take (L_proc p) t"
  obtains v K nvs where "mm_copy (p_mm (proc_pool s p)) mm t1 = Inr (0, v)"
    "mm_copied t1 root1 root2 qs (G Vma_alloc - {vt} - {vf}) xs [] mm K nvs v"
proof -
  let ?old = "p_mm (proc_pool s p)" and ?F = "G Vma_alloc - {vt} - {vf}"
  note d = pm [unfolded proc_made_def] and c = pa [unfolded parent_ok_def Let_def, folded root1]
  note rc = ready_to_copy [OF pm w pa root1]
  have t1: "mem t1 = mem t" "mms t1 = mms t" "vmas t1 = vmas t" by (simp_all add: l(2))
  have mm: "mm \<noteq> ?old" "mms t = (mms s)(mm := \<lparr>mm_pgt = root2, mm_vma = 0, mm_refcnt = 1\<rparr>)" using d c by blast+
  have vx: "\<forall>x \<in> set xs. vmas t x = vmas s x" using rc(5) by blast
  have ap: "area_pages (vmas t) xs = area_pages (vmas s) xs" using vx by (simp add: area_pages_def cong: map_cong)
  have qs: "length ps \<le> length qs + 6" using d by blast
  have "\<exists>v K nvs. mm_copy_loop vma_rounds ?old mm (mm_vma (mms t1 ?old)) t1 = Inr (0, v) \<and>
    mm_copied t1 root1 root2 qs ?F xs [] mm K nvs v"
  proof (rule mm_copy_loop_ok)
    show "copy_ok t1 root1 root2 qs ?F" unfolding l(2) by (rule copy_ok_take [OF rc(1)]) simp_all
    show "root1 = mm_pgt (mms t1 ?old)" "root2 = mm_pgt (mms t1 mm)" using mm root1 by (simp_all add: t1)
    have "vma_chain (vmas t) (mm_vma (mms s ?old)) xs" using c vx vma_chain_cong [of xs "vmas t" "vmas s"] by simp
    then show "vma_chain (vmas t1) (mm_vma (mms t1 ?old)) xs" using mm by (simp add: t1)
    show "length xs < vma_rounds" using c by (simp add: vma_rounds_def)
    have "card (G Vma_alloc) \<le> card ?F + 2"
      using card_Diff_singleton_if [of "G Vma_alloc - {vt}" vf] card_Diff_singleton_if [of "G Vma_alloc" vt] by auto
    then show "length xs \<le> card ?F" using len(2) by simp
    show "set xs \<inter> ?F = {}" using c by blast
    show "\<forall>x \<in> set xs. area_ok t1 root1 root2 qs (vmas t1 x)" unfolding t1(3) unfolding l(2) area_ok_take using rc(4) by blast
    show "distinct (area_pages (vmas t1) xs)" using c by (simp add: t1 ap)
    show "3 * length (area_pages (vmas t1) xs) \<le> length qs" using len(1) qs by (simp add: t1 ap)
  qed (use mm in \<open>auto simp: t1\<close>)
  then show thesis using that by (auto simp: mm_copy_def)
qed

text \<open>The parent's trap frame and pages are not touched.\<close>

abbreviation parent_pages :: "kst \<Rightarrow> nat \<Rightarrow> u64 \<Rightarrow> u64 list \<Rightarrow> u64 set" where
  "parent_pages s p root1 xs \<equiv> insert (p_trapframe (proc_pool s p)) (page_of (mem s) root1 ` set (area_pages (vmas s) xs))"

lemma parent_kept:
  assumes pa: "parent_ok s p (p_kstack (proc_pool s np)) ps G xs" and pm: "proc_made s np ps G t mm vt vf root2 tf qs"
    and root1: "root1 = mm_pgt (mms s (p_mm (proc_pool s p)))" and t1: "t1 = k_take (L_proc p) t"
    and mc: "mm_copied t1 root1 root2 qs F xs [] mm K nvs v"
  shows "\<forall>x \<in> parent_pages s p root1 xs. PGALIGNED x" "tf \<notin> parent_pages s p root1 xs"
    "same_on (parent_pages s p root1 xs) (mem s) (mem t)" "same_on (parent_pages s p root1 xs) (mem s) (mem v)"
proof -
  let ?S = "stack_pages (p_kstack (proc_pool s np))" and ?P = "parent_pages s p root1 xs"
  note d = pm [unfolded proc_made_def] and c = pa [unfolded parent_ok_def Let_def, folded root1]
  have m1: "mem t1 = mem t" "allocs t1 = allocs t" by (simp_all add: t1)
  have a: "adv (set ps \<union> ?S) (k_take (L_proc np) s) t qs (taken Vma_alloc vf (taken Vma_alloc vt (taken Mm_alloc mm G)))"
    using d by blast
  have P: "\<forall>x \<in> ?P. PGALIGNED x" "?P \<inter> (set ps \<union> ?S) = {}" "apart s ?P"
    using c managed_aligned [of s "p_trapframe (proc_pool s p)"] by (auto simp: apart_def objs_apart_def)
  show "\<forall>x \<in> ?P. PGALIGNED x" by (rule P(1))
  show "tf \<notin> ?P" using P(2) d by blast
  show k1: "same_on ?P (mem s) (mem t)" using keptD [OF advD(3) [OF a] P(1,2)] P(3) by (simp add: apart_def)
  have "?P \<inter> (tables (mem t1) root2 \<union> set (take K qs)) = {}"
    using P(2) d set_take_subset [of K qs] unfolding m1 by blast
  moreover have "objs_apart (allocs t1 Vma_alloc) ?P" using P(3) advD(5) [OF a, of ?P] by (simp add: m1 apart_def)
  ultimately have "same_on ?P (mem t1) (mem v)" by (rule mm_copiedD(6) [OF mc P(1)])
  then show "same_on ?P (mem s) (mem v)" by (rule same_on_trans [OF k1 [folded m1(1)]])
qed

lemma pages_copied_frame:
  assumes pc: "pages_copied t root1 root2 qs xs K v" and vx: "\<forall>x \<in> set xs. vmas t x = vmas s x"
    and pg: "page_of (mem t) root1 = page_of (mem s) root1" and tk: "set (take K qs) \<subseteq> set ps"
    and P: "same_on P (mem s) (mem t)" "page_of (mem s) root1 ` set (area_pages (vmas s) xs) \<subseteq> P"
    and e: "entry (mem u) root2 = entry (mem v) root2" and so: "same_on (set (take K qs)) (mem v) (mem u)"
  shows "pages_copied s root1 root2 ps xs (length ps) u"
proof -
  have p2: "page_of (mem u) root2 = page_of (mem v) root2" by (simp add: fun_eq_iff page_of_def e)
  have ap: "area_pages (vmas t) xs = area_pages (vmas s) xs" using vx by (simp add: area_pages_def cong: map_cong)
  show ?thesis
    unfolding pages_copied_def p2 e
  proof (intro conjI ballI)
    fix x va assume x: "x \<in> set xs" and va: "va \<in> set (vma_pages (vmas s x))"
    have q: "entry (mem v) root2 va = leaf_pte (page_of (mem v) root2 va) (pte_flags (vmas s x))"
      "page_of (mem v) root2 va \<in> set (take K qs)" "same_bytes (mem t) (page_of (mem s) root1 va) (mem v) (page_of (mem v) root2 va)"
      using pc x va vx unfolding pages_copied_def pg by simp_all
    show "entry (mem v) root2 va = leaf_pte (page_of (mem v) root2 va) (pte_flags (vmas s x))" by (rule q(1))
    show "page_of (mem v) root2 va \<in> set (take (length ps) ps)" using q(2) tk by auto
    have "page_of (mem s) root1 va \<in> P" using in_area_pages [of x xs va "vmas s", OF x va] P(2) by blast
    then show "same_bytes (mem s) (page_of (mem s) root1 va) (mem u) (page_of (mem v) root2 va)"
      using same_bytes_same_on [OF q(3) P(1) _ so q(2)] by blast
  next
    show "inj_on (page_of (mem v) root2) (set (area_pages (vmas s) xs))" using pc by (simp add: pages_copied_def ap)
  qed
qed

text \<open>Writing the trap frame of the child leaves both address spaces alone.\<close>

lemma spaces_beside:
  assumes ok: "vm_ok v root1 qs" "vm_ok v root2 qs" and oi: "only_in {tf} (mem v) m" and tf: "PGALIGNED tf" "tf \<notin> set qs"
    "tf \<notin> tables (mem v) root1" "tf \<notin> tables (mem v) root2"
  shows "vm_ok (v\<lparr>mem := m\<rparr>) root1 qs" "vm_ok (v\<lparr>mem := m\<rparr>) root2 qs" "entry m root1 = entry (mem v) root1" "entry m root2 = entry (mem v) root2"
proof -
  have om: "only_memory v (v\<lparr>mem := m\<rparr>)" by (simp add: only_memory_def)
  have r: "vm_ok (v\<lparr>mem := m\<rparr>) root qs \<and> entry m root = entry (mem v) root"
    if "vm_ok v root qs" "tf \<notin> tables (mem v) root" for root
    using vm_ok_only_in [OF that(1), of "{tf}" "v\<lparr>mem := m\<rparr>"] oi tf(1,2) that(2) om by (simp add: fun_eq_iff)
  show "vm_ok (v\<lparr>mem := m\<rparr>) root1 qs" "vm_ok (v\<lparr>mem := m\<rparr>) root2 qs" "entry m root1 = entry (mem v) root1" "entry m root2 = entry (mem v) root2"
    using r [OF ok(1) tf(3)] r [OF ok(2) tf(4)] by blast+
qed

lemma copy_and_fill:
  assumes r: "room_for_proc s np ps G" and pa: "parent_ok s p (p_kstack (proc_pool s np)) ps G xs"
    and len: "3 * length (area_pages (vmas s) xs) + 6 \<le> length ps" "length xs + 2 \<le> card (G Vma_alloc)"
    and pm: "proc_made s np ps G t mm vt vf root2 tf qs" and root1: "root1 = mm_pgt (mms s (p_mm (proc_pool s p)))"
    and l: "p \<noteq> np" "t1 = k_take (L_proc p) t"
  obtains u v m1 K nvs where "mm_copy (p_mm (proc_pool s p)) mm t1 = Inr (0, v)" "k_memmove tf (p_trapframe (proc_pool s p)) TF_size v = Inr (v\<lparr>mem := m1\<rparr>)"
    "store64 (tf + TF_a0) 0 (v\<lparr>mem := m1\<rparr>) = Inr u" "vm_only t1 v" "child_filled s p t1 mm root1 root2 tf ps qs K xs u"
    "vma_chain (vmas u) (mm_vma (mms u mm)) (rev nvs)" "map (\<lambda>x. vma_attrs (vmas u x)) nvs = map (\<lambda>x. vma_attrs (vmas s x)) xs"
proof -
  let ?old = "p_mm (proc_pool s p)" and ?tfp = "p_trapframe (proc_pool s p)"
  note d = pm [unfolded proc_made_def] and c = pa [unfolded parent_ok_def Let_def, folded root1]
  have w: "world s ps G" using r by (simp add: room_for_proc_def)
  note rc = ready_to_copy [OF pm w pa root1]
  have t1: "mem t1 = mem t" "mms t1 = mms t" "vmas t1 = vmas t" by (simp_all add: l(2))
  have mm: "mm \<noteq> ?old" "mms t = (mms s)(mm := \<lparr>mm_pgt = root2, mm_vma = 0, mm_refcnt = 1\<rparr>)" using d c by blast+
  have vx: "\<forall>x \<in> set xs. vmas t1 x = vmas s x" using rc(5) by (simp add: t1)
  have ap: "area_pages (vmas t) xs = area_pages (vmas s) xs" using vx by (simp add: area_pages_def t1 cong: map_cong)
  have a: "same_layout (k_take (L_proc np) s) t" using d advD(4) by blast
  obtain v K nvs where v: "mm_copy ?old mm t1 = Inr (0, v)" "mm_copied t1 root1 root2 qs (G Vma_alloc - {vt} - {vf}) xs [] mm K nvs v"
    by (rule child_copied [OF w pa len pm root1 l])
  note m = mm_copiedD [OF v(2)] and P = parent_kept [OF pa pm root1 l(2) v(2)]
  have tk: "set (take K qs) \<subseteq> set ps" "set (drop K qs) \<subseteq> set qs" using d set_take_subset [of K qs] set_drop_subset [of K qs] by blast+
  have tf: "tf \<in> set ps" "tf \<notin> set qs" "tf \<notin> tables (mem t) root2" using d by blast+
  have "tables (mem v) root2 \<subseteq> tables (mem t) root2 \<union> set (take K qs)" using m(13) unfolding t1 .
  then have tn: "tf \<notin> tables (mem v) root2" "tf \<notin> tables (mem v) root1" "tf \<notin> set (drop K qs)" "tf \<notin> set (take K qs)"
    using tf tk m(12) rc(3) c vm_okD(7) [of s root1 ps] set_take_subset [of K qs] by (auto simp: t1 good_def)
  have lay: "managed v x = managed s x" for x
    using same_layoutD(1) [OF vm_only_layout [OF m(11)], of x] same_layoutD(1) [OF a, of x] by (simp add: l(2) managed_def)
  have mg: "managed v ?tfp" "managed v tf" using c tf(1) worldD(11) [OF w] by (simp_all add: lay)
  obtain m1 m2 where fr: "k_memmove tf ?tfp TF_size v = Inr (v\<lparr>mem := m1\<rparr>)" "store64 (tf + TF_a0) 0 (v\<lparr>mem := m1\<rparr>) = Inr (v\<lparr>mem := m2\<rparr>)"
    "only_in {tf} (mem v) m2" "\<And>i. i < 36 \<Longrightarrow> ld64 m2 (slot tf i) = (if i = 14 then 0 else ld64 (mem v) (slot ?tfp i))"
    by (rule frame_copied [OF vm_okD(3) [OF m(1)] mg]) blast
  have al: "PGALIGNED tf" by (rule worldD(12) [OF w tf(1)])
  note b = spaces_beside [OF m(1,2) fr(3) al tn(3,2,1)]
  have so: "same_on Q (mem v) m2" if "\<forall>x \<in> Q. PGALIGNED x" "tf \<notin> Q" for Q
    by (rule only_in_same_on [OF fr(3)]) (use that al in auto)
  have E: "entry m2 root1 = entry (mem s) root1" using b(3) m(3) rc(2) by (simp add: t1)
  have en: "entry m2 root2 va = fresh_entry (img s) tf va"
    if "PGALIGNED va" "IS_USER_VA va" "va \<notin> set (area_pages (vmas s) xs)" for va
    using m(4) [OF that(1,2)] that d by (simp add: b(4) t1 ap)
  have pc: "pages_copied s root1 root2 ps xs (length ps) (v\<lparr>mem := m2\<rparr>)"
  proof (rule pages_copied_frame [OF m(5) vx _ tk(1) P(3) [folded t1(1)]])
    show "page_of (mem t1) root1 = page_of (mem s) root1" by (simp add: fun_eq_iff page_of_def t1 rc(2))
    show "same_on (set (take K qs)) (mem v) (mem (v\<lparr>mem := m2\<rparr>))"
      using so [of "set (take K qs)"] tn(4) tk(1) worldD(12) [OF w] by auto
  qed (use b(4) in auto)
  have sP: "same_on (parent_pages s p root1 xs) (mem s) m2" by (rule same_on_trans [OF P(4) so [OF P(1,2)]])
  have rg: "ld64 m2 (slot tf i) = (if i = 14 then 0 else ld64 (mem s) (slot ?tfp i))" if "i < 36" for i
  proof -
    have "i < 512" using that by (simp add: word_less_nat_alt)
    then have "ld64 (mem v) (slot ?tfp i) = ld64 (mem s) (slot ?tfp i)" using same_on_ld64 [OF P(4)] by simp
    then show ?thesis using fr(4) [OF that] by simp
  qed
  have "child_filled s p t1 mm root1 root2 tf ps qs K xs (v\<lparr>mem := m2\<rparr>)"
    unfolding child_filled_def kst.simps(1)
  proof (intro conjI allI impI)
    have "vm_only v (v\<lparr>mem := m2\<rparr>)" by (simp add: vm_only_def)
    then show "vm_only t1 (v\<lparr>mem := m2\<rparr>)" using m(11) vm_only_trans by blast
    show "mms (v\<lparr>mem := m2\<rparr>) ?old = mms s ?old" using m(8) [OF mm(1) [symmetric]] mm by (simp add: t1)
    show "mm_pgt (mms (v\<lparr>mem := m2\<rparr>) mm) = root2" using arg_cong [OF m(14), of mm_pgt] mm by (simp add: t1)
  qed (use b(1,2) E en pc rg sP in \<open>simp_all\<close>)
  then show thesis
    using that [of v m1 "v\<lparr>mem := m2\<rparr>" K nvs] v(1) fr(1,2) m(9,10,11) vx by (simp cong: map_cong)
qed

text \<open>
  The end of \<^verbatim>\<open>fork\<close>: the child goes to the end of the queue, and the locks of the child and of the caller
  are released.
\<close>

lemma publish_child:
  assumes i: "sched_inv None (view s)" and rdy: "cpu_ready (smp s)" "lock_free L_queue (smp s)"
    "lock_free (L_proc np) (smp s)" "lock_free (L_proc p) (smp s)" and np: "np < NPROC" "p_state (proc_pool s np) = UNUSED" "p \<noteq> np"
    and u: "smp u = take_lock (L_proc np) (take_lock (L_proc p) (smp s))" "task_queue u = task_queue s"
  obtains tq s1 s2 where "add_task np u = Inr s1" "k_release (L_proc np) s1 = Inr s2"
    "k_release (L_proc p) s2 = Inr (u\<lparr>smp := settle (smp s), task_queue := tq\<rparr>)"
    "queue_list tq = queue_list (task_queue s) @ [np]"
proof -
  let ?m = "smp s"
  have q: "queue_inv (task_queue u)" "queue_len (task_queue u) < NPROC" "k_ready u" "k_free L_queue u"
    using sched_inv_queue [OF i] queue_room [OF i np(1)] np(2) rdy by (simp_all add: u view_sel k_ready_def k_free_def)
  obtain tq where tq: "add_task np u = Inr (u\<lparr>smp := settle (smp u), task_queue := tq\<rparr>)"
    "queue_list tq = queue_list (task_queue s) @ [np]"
    using add_task_run [OF q, of np] by (auto simp: u)
  have st: "settle (take_lock l m) = take_lock l m" if "cpu_ready m" for l m using that by (simp add: cpu_ready_def)
  define s1 where "s1 = u\<lparr>smp := settle (smp u), task_queue := tq\<rparr>"
  have m1: "smp s1 = take_lock (L_proc np) (take_lock (L_proc p) ?m)"
    using st [of "take_lock (L_proc p) ?m" "L_proc np"] rdy by (simp add: s1_def u)
  define s2 where "s2 = s1\<lparr>smp := take_lock (L_proc p) ?m\<rparr>"
  have r2: "k_release (L_proc np) s1 = Inr s2"
    using k_release_taken [OF _ _ m1] rdy np(3) st [of ?m "L_proc p"] by (simp add: s2_def)
  have "k_release (L_proc p) s2 = Inr (s2\<lparr>smp := settle ?m\<rparr>)"
    using k_release_taken [of ?m "L_proc p" s2] rdy by (simp add: s2_def)
  moreover have "s2\<lparr>smp := settle ?m\<rparr> = u\<lparr>smp := settle ?m, task_queue := tq\<rparr>" by (simp add: s2_def s1_def)
  ultimately show thesis using that [of s1 s2 tq] tq r2 by (simp add: s1_def)
qed

text \<open>The caller is not an unused entry.\<close>

lemma caller_used:
  assumes "in_call p s" and "p_state (proc_pool s np) = UNUSED"
  shows "p \<noteq> np"
proof
  assume "p = np"
  have i: "curr_proc s = Inr p" "sched_inv None (view s)" using assms(1) by (auto simp: in_call_def)
  have "v_curr (view s) (v_tp (view s)) = Some p" "v_tp (view s) < NCPU"
    using i(1) by (auto simp: curr_proc_def mycpu_def view_sel split: if_splits option.splits)
  then have "p \<in> running (view s)" by (rule curr_running)
  then show False using sched_inv_idle [OF i(2), of np] assms(2) \<open>p = np\<close> by (simp add: view_sel)
qed

lemma vm_ok_smp:
  "vm_ok s root ps \<Longrightarrow> cpu_ready m \<Longrightarrow> lock_free L_kpage m \<Longrightarrow> vm_ok (s\<lparr>smp := m, task_queue := q, proc_pool := x\<rparr>) root ps"
  by (simp add: vm_ok_def arena_ok_def free_pages_def k_ready_def k_free_def managed_def page_mapped_def mapped_def)

text \<open>C35. \<^verbatim>\<open>fork\<close>, called by the process \<open>p\<close> when there is an entry, an address space object, two area objects
  more than \<open>p\<close> has areas, and pages enough: it returns the pid of a new process, the first unused entry
  of the table, and holds no lock. The child is ready to run, at the end of the ready queue, with \<open>p\<close> as its
  parent; its address space, on tables of its own, has the trampoline, its trap frame, and for every page
  of the parent a page of its own with the same bytes and the flags of the area, and nothing else; its
  registers are the parent's, but for the result, which is 0. The parent's entries, its pages and its
  trap frame are what they were, and so are all other processes.\<close>

theorem fork_correct:
  assumes "in_call p s" and "room_for_proc s np ps G" and "parent_ok s p (p_kstack (proc_pool s np)) ps G xs"
    and "3 * length (area_pages (vmas s) xs) + 6 \<le> length ps" and "length xs + 2 \<le> card (G Vma_alloc)"
    and "root1 = mm_pgt (mms s (p_mm (proc_pool s p)))"
  shows "\<exists>t mm vt vf root2 tf qs nvs. fork s = Inr (next_pid s, t) \<and> smp t = settle (smp s) \<and> next_pid t = next_pid s + 1 \<and>
    proc_pool t = (proc_pool s)(np := (fresh_proc (img s) (next_pid s) mm vt vf tf (proc_pool s np))
      \<lparr>p_parent := Some p, p_state := RUNNABLE\<rparr>) \<and>
    queue_list (task_queue t) = queue_list (task_queue s) @ [np] \<and>
    mm \<in> G Mm_alloc \<and> mm_pgt (mms t mm) = root2 \<and> vm_ok t root2 qs \<and> set qs \<subseteq> set ps \<and>
    vma_chain (vmas t) (mm_vma (mms t mm)) (rev nvs) \<and>
    map (\<lambda>x. vma_attrs (vmas t x)) nvs = map (\<lambda>x. vma_attrs (vmas s x)) xs \<and>
    pages_copied s root1 root2 ps xs (length ps) t \<and>
    (\<forall>va. PGALIGNED va \<longrightarrow> IS_USER_VA va \<longrightarrow> va \<notin> set (area_pages (vmas s) xs) \<longrightarrow>
       entry (mem t) root2 va = fresh_entry (img s) tf va) \<and>
    (\<forall>i < 36. ld64 (mem t) (slot tf i) = (if i = 14 then 0 else ld64 (mem s) (slot (p_trapframe (proc_pool s p)) i))) \<and>
    vm_ok t root1 qs \<and> entry (mem t) root1 = entry (mem s) root1 \<and> mms t (p_mm (proc_pool s p)) = mms s (p_mm (proc_pool s p)) \<and>
    same_on (insert (p_trapframe (proc_pool s p)) (page_of (mem s) root1 ` set (area_pages (vmas s) xs))) (mem s) (mem t)"
proof -
  let ?m = "smp s" and ?c = "fresh_proc (img s) (next_pid s)"
  have i: "locks_ready s" "curr_proc s = Inr p" "sched_inv None (view s)" "p < NPROC" using assms(1) in_call_process by (auto simp: in_call_def)
  have rdy: "cpu_ready ?m" "lock_free L_queue ?m" using i(1) by (simp_all add: locks_ready_def k_ready_def k_free_def)
  note r = assms(2) [unfolded room_for_proc_def]
  have np: "np < NPROC" "p_state (proc_pool s np) = UNUSED" and w: "world s ps G" using r by blast+
  have lf: "lock_free (L_proc j) ?m" if "j < NPROC" for j using r that by (simp add: k_free_def)
  have ne: "p \<noteq> np" by (rule caller_used [OF assms(1) np(2)])
  obtain t0 mm vt vf root2 tf qs where t0: "allocproc s = Inr (Some np, t0)" "proc_made s np ps G t0 mm vt vf root2 tf qs"
    by (rule allocproc_ok [OF assms(2)])
  note d = t0(2) [unfolded proc_made_def]
  have smp0: "smp t0 = take_lock (L_proc np) ?m" and pool0: "proc_pool t0 = (proc_pool s)(np := ?c mm vt vf tf (proc_pool s np))"
    and a: "alloc_only (k_take (L_proc np) s) t0" using d by (auto simp: adv_def)
  define t1 where "t1 = k_take (L_proc p) t0"
  obtain u v m1 K nvs where u: "mm_copy (p_mm (proc_pool s p)) mm t1 = Inr (0, v)"
    "k_memmove tf (p_trapframe (proc_pool s p)) TF_size v = Inr (v\<lparr>mem := m1\<rparr>)" "store64 (tf + TF_a0) 0 (v\<lparr>mem := m1\<rparr>) = Inr u"
    "vm_only t1 v" "child_filled s p t1 mm root1 root2 tf ps qs K xs u"
    "vma_chain (vmas u) (mm_vma (mms u mm)) (rev nvs)" "map (\<lambda>x. vma_attrs (vmas u x)) nvs = map (\<lambda>x. vma_attrs (vmas s x)) xs"
    by (rule copy_and_fill [OF assms(2-5) t0(2) assms(6) ne t1_def])
  note f = u(5) [unfolded child_filled_def]
  have vo: "vm_only t1 u" using f by blast
  have smp1: "smp t1 = take_lock (L_proc np) (take_lock (L_proc p) ?m)"
    using take_lock_swap [of "L_proc p" "L_proc np" ?m] ne by (simp add: t1_def smp0)
  have smpu: "smp u = take_lock (L_proc np) (take_lock (L_proc p) ?m)"
    by (rule vm_only_busy [OF vo smp1]) (simp add: rdy)
  have selu: "proc_pool u = proc_pool t0" "task_queue u = task_queue s" "next_pid u = next_pid s + 1" "proc_pool v = proc_pool t0"
    using vm_only_sel(4,5,7) [OF vo] vm_only_sel(4) [OF u(4)] alloc_only_sel(3) [OF a] d by (simp_all add: t1_def)
  have cur: "curr_proc t0 = Inr p"
    using i(2) by (auto simp: curr_proc_def mycpu_def smp0 take_lock_def split: if_splits option.splits)
  define cp where "cp = (?c mm vt vf tf (proc_pool s np))\<lparr>p_parent := Some p, p_state := RUNNABLE\<rparr>"
  define u1 where "u1 = u\<lparr>proc_pool := (proc_pool s)(np := cp)\<rparr>"
  have eu: "upd_proc np (\<lambda>q. q\<lparr>p_state := RUNNABLE\<rparr>) (upd_proc np (\<lambda>q. q\<lparr>p_parent := Some p\<rparr>) u) = u1"
    by (simp add: upd_proc_def u1_def selu pool0 cp_def)
  have m1: "smp u1 = take_lock (L_proc np) (take_lock (L_proc p) ?m)" "task_queue u1 = task_queue s"
    using smpu selu(2) by (simp_all add: u1_def)
  obtain tq s1 s2 where e: "add_task np u1 = Inr s1" "k_release (L_proc np) s1 = Inr s2"
    "k_release (L_proc p) s2 = Inr (u1\<lparr>smp := settle ?m, task_queue := tq\<rparr>)" "queue_list tq = queue_list (task_queue s) @ [np]"
    by (rule publish_child [OF i(3) rdy lf [OF np(1)] lf [OF i(4)] np ne m1])
  have acq: "k_acquire (L_proc p) t0 = Inr t1"
    unfolding t1_def by (rule k_acquire_free) (use rdy lf [OF i(4)] ne in \<open>simp_all add: k_ready_def k_free_def smp0\<close>)
  define t where "t = u1\<lparr>smp := settle ?m, task_queue := tq\<rparr>"
  have pt: "p_mm (proc_pool t0 p) = p_mm (proc_pool s p)" "p_mm (proc_pool t0 np) = mm" "p_trapframe (proc_pool t0 np) = tf"
    "p_trapframe (proc_pool t0 p) = p_trapframe (proc_pool s p)" "proc_pool t = (proc_pool s)(np := cp)" "p_pid cp = next_pid s"
    using ne by (simp_all add: pool0 fresh_proc_def t_def u1_def cp_def)
  have run: "fork s = Inr (next_pid s, t)"
    using t0(1) cur acq u(1-3) e(1-3) by (simp add: fork_def Let_def pt t1_def selu eu t_def [symmetric])
  have tt: "t = u\<lparr>smp := settle ?m, task_queue := tq, proc_pool := (proc_pool s)(np := cp)\<rparr>" by (simp add: t_def u1_def)
  have sel: "mem t = mem u" "mms t = mms u" "vmas t = vmas u" "next_pid t = next_pid s + 1" "smp t = settle ?m" "task_queue t = tq"
    using selu by (simp_all add: tt)
  have ok: "vm_ok t r (drop K qs)" if "vm_ok u r (drop K qs)" for r
    unfolding tt by (rule vm_ok_smp [OF that]) (use rdy worldD(3) [OF w] in \<open>simp_all add: k_free_def\<close>)
  have pc: "pages_copied s root1 root2 ps xs (length ps) t" using f by (simp add: pages_copied_def sel)
  have mG: "mm \<in> G Mm_alloc" and qsub: "set qs \<subseteq> set ps" using d by blast+
  show ?thesis
  proof (intro exI conjI)
    show "fork s = Inr (next_pid s, t)" by (rule run)
    show "proc_pool t = (proc_pool s)(np := (?c mm vt vf tf (proc_pool s np))\<lparr>p_parent := Some p, p_state := RUNNABLE\<rparr>)"
      using pt(5) by (simp only: cp_def)
    show "queue_list (task_queue t) = queue_list (task_queue s) @ [np]" using e(4) by (simp only: sel)
    show "set (drop K qs) \<subseteq> set ps" using qsub set_drop_subset [of K qs] by blast
    show "pages_copied s root1 root2 ps xs (length ps) t" by (rule pc)
    show "vma_chain (vmas t) (mm_vma (mms t mm)) (rev nvs)" using u(6) by (simp only: sel)
    show "map (\<lambda>x. vma_attrs (vmas t x)) nvs = map (\<lambda>x. vma_attrs (vmas s x)) xs" using u(7) by (simp only: sel)
    show "\<forall>i < 36. ld64 (mem t) (slot tf i) = (if i = 14 then 0 else ld64 (mem s) (slot (p_trapframe (proc_pool s p)) i))"
      unfolding sel using f by blast
    show "vm_ok t root1 (drop K qs)" "vm_ok t root2 (drop K qs)" using ok f by blast+
    show "entry (mem t) root1 = entry (mem s) root1" "mms t (p_mm (proc_pool s p)) = mms s (p_mm (proc_pool s p))"
      "mm_pgt (mms t mm) = root2"
      "same_on (insert (p_trapframe (proc_pool s p)) (page_of (mem s) root1 ` set (area_pages (vmas s) xs))) (mem s) (mem t)"
      unfolding sel using f by blast+
    show "\<forall>va. PGALIGNED va \<longrightarrow> IS_USER_VA va \<longrightarrow> va \<notin> set (area_pages (vmas s) xs) \<longrightarrow>
       entry (mem t) root2 va = fresh_entry (img s) tf va"
      unfolding sel using f by blast
  qed (use mG in \<open>simp_all add: sel\<close>)
qed

end
