(* ===== verification/VmDemo.thy ===== *)
theory VmDemo imports VmCreate VmFree begin

text \<open>
  An example state: forty-eight free pages, three pools of four objects of which the first is taken, and one
  address space, whose area is one page. The properties of \<open>VmCopy\<close> and \<open>VmFree\<close> are applied to it here,
  and that of \<open>Fork\<close> in \<open>CloneDemo\<close>.
\<close>

section \<open>Memory\<close>

lemma in_page_unat:
  assumes "PGALIGNED p" and "unat p + 4096 \<le> 2 ^ 64"
  shows "in_page p x \<longleftrightarrow> unat p \<le> unat x \<and> unat x < unat p + 4096"
proof
  assume x: "in_page p x"
  then have "unat x = unat p + unat (x - p)" using unat_page_add [OF assms(1), of "x - p"] by (simp add: in_page_def)
  then show "unat p \<le> unat x \<and> unat x < unat p + 4096"
    using x by (simp add: in_page_def PGSIZE_def word_less_nat_alt)
next
  assume x: "unat p \<le> unat x \<and> unat x < unat p + 4096"
  then have "unat (x - p) = unat x - unat p" by (simp add: unat_sub_le word_le_nat_alt)
  then have "unat (x - p) < 4096" using x by linarith
  then show "in_page p x" by (simp add: in_page_def PGSIZE_def word_less_nat_alt)
qed

text \<open>Pages linked into a free list.\<close>

fun link_pages :: "mem \<Rightarrow> u64 list \<Rightarrow> mem" where
  "link_pages m [] = m"
| "link_pages m (p # ps) = st64 (link_pages m ps) p (case ps of [] \<Rightarrow> 0 | q # _ \<Rightarrow> q)"

lemma link_pages_only: "only_in (set ps) m (link_pages m ps)"
proof (induction ps)
  case (Cons p ps)
  have "only_in {p} (link_pages m ps) (link_pages m (p # ps))"
    using st64_outside [of 0 p] by (simp add: only_in_def)
  then show ?case by (rule only_in_trans [OF Cons.IH]) auto
qed simp

lemma link_pages_chain:
  "distinct ps \<Longrightarrow> \<forall>p \<in> set ps. PGALIGNED p \<and> p \<noteq> 0 \<Longrightarrow> chain (link_pages m ps) (case ps of [] \<Rightarrow> 0 | q # _ \<Rightarrow> q) ps"
proof (induction ps)
  case (Cons p ps)
  have "chain (link_pages m (p # ps)) l ps = chain (link_pages m ps) l ps" for l
    by (rule chain_outside [of p]) (use Cons.prems st64_outside [of 0 p] in auto)
  then show ?case using Cons by simp
qed simp

section \<open>The pools\<close>

definition pool_no :: "alloc_id \<Rightarrow> u64" where
  "pool_no A = (case A of Vma_alloc \<Rightarrow> 0 | Mm_alloc \<Rightarrow> 1 | Proc_alloc \<Rightarrow> 2)"

definition space_pool :: "alloc_id \<Rightarrow> allocator" where
  "space_pool A = demo_allocator\<lparr>bitmap := 0xffffffc090000000 + 0x1000000 * pool_no A,
     pool_base := 0xfffffffd00000000 + 0x100000000 * pool_no A, pool_end := 0xfffffffd00001000 + 0x100000000 * pool_no A,
     allocated_count := 1, available_count := 3, max_count := 4\<rparr>"

definition space_objs :: "alloc_id \<Rightarrow> u64 set" where
  "space_objs A = obj_addr (space_pool A) ` {1, 2, 3}"

definition space_page :: "nat \<Rightarrow> u64" where "space_page i = 0xffffffc080403000 + of_nat i * 0x1000"

definition space_free :: "u64 list" where
  "space_free = 0xffffffc080400000 # map space_page [0..<47]"

definition space_demo :: "kst \<Rightarrow> kst" where
  "space_demo b = b\<lparr>kmap := (\<lambda>_. True), freelist := 0xffffffc080400000,
     mem := (link_pages (mem b) space_free)(0xffffffc090000000 := 1, 0xffffffc091000000 := 1, 0xffffffc092000000 := 1),
     kpage_allocator_base := 0xffffffc080400000, kpage_allocator_size := 0x40000, allocs := space_pool,
     mms := (\<lambda>_. \<lparr>mm_pgt = 0xffffffc080401000, mm_vma = 0, mm_refcnt = 1\<rparr>),
     vmas := (\<lambda>_. \<lparr>vma_owner = 0xfffffffe00000000, vma_next = 0, vm_start = 0x1000, vm_end = 0x2000, pte_flags = 0x16\<rparr>)\<rparr>"

lemma space_demo_sel:
  "mem (space_demo b) = (link_pages (mem b) space_free)(0xffffffc090000000 := 1, 0xffffffc091000000 := 1, 0xffffffc092000000 := 1)"
  "kmap (space_demo b) x" "allocs (space_demo b) = space_pool" "freelist (space_demo b) = 0xffffffc080400000"
  "kpage_allocator_base (space_demo b) = 0xffffffc080400000" "kpage_allocator_size (space_demo b) = 0x40000"
  "mms (space_demo b) m = \<lparr>mm_pgt = 0xffffffc080401000, mm_vma = 0, mm_refcnt = 1\<rparr>"
  "vmas (space_demo b) y = \<lparr>vma_owner = 0xfffffffe00000000, vma_next = 0, vm_start = 0x1000, vm_end = 0x2000, pte_flags = 0x16\<rparr>"
  "k_ready (space_demo b) = k_ready b" "k_free l (space_demo b) = k_free l b" "proc_pool (space_demo b) = proc_pool b"
  "smp (space_demo b) = smp b" "task_queue (space_demo b) = task_queue b" "img (space_demo b) = img b" "next_pid (space_demo b) = next_pid b"
  by (simp_all add: space_demo_def k_ready_def k_free_def)

text \<open>The CPU and the locks of the state \<open>b\<close>.\<close>

definition idle :: "kst \<Rightarrow> bool" where
  "idle b \<longleftrightarrow> k_ready b \<and> (\<forall>l. k_free l b) \<and> (\<forall>x. unat x < 0xffffffc080480000 \<longrightarrow> mem b x = 0)"

lemma boot_idle: "idle boot_kst"
proof -
  have "mem boot_kst x = 0" for x by (simp add: boot_kst_def)
  then show ?thesis by (simp add: idle_def)
qed

lemma space_pool_sel:
  "bitmap (space_pool A) = 0xffffffc090000000 + 0x1000000 * pool_no A" "max_count (space_pool A) = 4"
  "pool_base (space_pool A) = 0xfffffffd00000000 + 0x100000000 * pool_no A" "object_size_aligned (space_pool A) = 48"
  "pool_end (space_pool A) = 0xfffffffd00001000 + 0x100000000 * pool_no A"
  by (simp_all add: space_pool_def demo_allocator_def)

lemma space_region:
  "obj_region (space_pool A) x \<longleftrightarrow>
     0xffffffc090000000 + 0x1000000 * unat (pool_no A) \<le> unat x \<and> unat x < 0xffffffc090001000 + 0x1000000 * unat (pool_no A) \<or>
     0xfffffffd00000000 + 0x100000000 * unat (pool_no A) \<le> unat x \<and> unat x < 0xfffffffd00001000 + 0x100000000 * unat (pool_no A)"
  by (cases A) (simp_all add: obj_region_def space_pool_sel pool_no_def in_page_unat PGALIGNED_def PGSIZE_def word_le_nat_alt word_less_nat_alt)

lemma space_region_high: "obj_region (space_pool A) x \<Longrightarrow> 0xffffffc090000000 \<le> unat x"
  unfolding space_region by linarith

text \<open>Pages below the pools, and the kernel stack between them.\<close>

definition low_page :: "u64 \<Rightarrow> bool" where
  "low_page t \<longleftrightarrow> PGALIGNED t \<and> (unat t < 0xffffffc080500000 \<or> t = 0xffffffc0a0000000 \<or> t = 0xffffffc0a0001000)"

lemma space_apart: "\<forall>t \<in> P. low_page t \<Longrightarrow> apart (space_demo b) P"
  unfolding apart_def objs_apart_def space_demo_sel
proof (intro ballI allI impI)
  fix A t x assume "\<forall>t \<in> P. low_page t" "t \<in> P" and x: "in_page t x"
  then have t: "PGALIGNED t" "unat t < 0xffffffc080500000 \<or> unat t = 0xffffffc0a0000000 \<or> unat t = 0xffffffc0a0001000"
    by (auto simp: low_page_def)
  then have "unat t \<le> unat x \<and> unat x < unat t + 4096" using in_page_unat [OF t(1), of x] x by auto
  moreover have "unat (pool_no A) \<le> 2" by (cases A) (simp_all add: pool_no_def)
  ultimately show "\<not> obj_region (space_pool A) x" using t(2) unfolding space_region by linarith
qed

lemma space_pools: "objs_ok (space_demo b) A" "free_objects (space_demo b) A (space_objs A)"
proof -
  have np: "\<not> in_page (bitmap (space_pool A)) x" if "pool_base (space_pool A) \<le> x" for x
    using that by (cases A) (simp_all add: space_pool_sel pool_no_def in_page_unat PGALIGNED_def PGSIZE_def word_le_nat_alt)
  have pm: "page_mapped (space_demo b) p" for p by (simp add: page_mapped_def mapped_def space_demo_sel)
  have sz: "0 < pool_base (space_pool A)" "unat (pool_base (space_pool A)) + 192 \<le> unat (pool_end (space_pool A))"
    by (cases A; simp add: space_pool_sel pool_no_def)+
  show "objs_ok (space_demo b) A" using np sz pm by (simp add: objs_ok_def Let_def space_demo_sel space_pool_sel(2,4))
  have four: "{..<4 :: nat} = {0, 1, 2, 3}" by auto
  have below: "i = 0 \<or> i = 1 \<or> i = 2 \<or> i = 3" if "i < 4" for i :: nat using that by auto
  have m: "mem (space_demo b) (bitmap (space_pool A)) = 1" by (cases A) (simp_all add: space_demo_sel space_pool_sel pool_no_def)
  have "allocated (mem (space_demo b)) (bitmap (space_pool A)) i \<longleftrightarrow> i = 0" if "i < 4" for i
    using below [OF that] m by (auto simp: allocated_def bit_1_iff)
  moreover have "obj_addr (space_pool A) i = pool_base (space_pool A) + of_nat i * 48" for i
    by (simp add: obj_addr_def space_pool_sel)
  ultimately show "free_objects (space_demo b) A (space_objs A)"
    by (auto simp: free_objects_def Let_def space_demo_sel space_pool_sel(2) space_objs_def four space_pool_def demo_allocator_def
        counts_ok_def dest: below)
qed

section \<open>The pages\<close>

lemma space_page_unat: "i < 47 \<Longrightarrow> unat (space_page i) = 0xffffffc080403000 + i * 4096"
  using unat_of_nat_small [of "0xffffffc080403000 + i * 4096", where 'a = 64] by (simp add: space_page_def)

lemma space_free_mem:
  "p \<in> set space_free \<longleftrightarrow> p = 0xffffffc080400000 \<or> (\<exists>i < 47. unat p = 0xffffffc080403000 + i * 4096)"
proof -
  have "p = space_page i \<longleftrightarrow> unat p = 0xffffffc080403000 + i * 4096" if "i < 47" for i
    using space_page_unat [OF that] by (metis unat_inj)
  then have "(\<exists>i < 47. p = space_page i) \<longleftrightarrow> (\<exists>i < 47. unat p = 0xffffffc080403000 + i * 4096)" by blast
  moreover have "p \<in> set space_free \<longleftrightarrow> p = 0xffffffc080400000 \<or> (\<exists>i < 47. p = space_page i)" by (auto simp: space_free_def)
  ultimately show ?thesis by blast
qed

lemma space_free_range: "p \<in> set space_free \<Longrightarrow> PGALIGNED p \<and> 0xffffffc080400000 \<le> unat p \<and> unat p < 0xffffffc080440000"
  unfolding space_free_mem PGALIGNED_iff by auto

lemma space_free_low: "\<forall>p \<in> set space_free. low_page p \<and> managed (space_demo b) p" "distinct space_free" "length space_free = 48"
  "\<forall>p \<in> set space_free. PGALIGNED p \<and> p \<noteq> 0"
proof -
  have "low_page p \<and> managed (space_demo b) p \<and> p \<noteq> 0" if "p \<in> set space_free" for p
    using space_free_range [OF that]
    by (auto simp: low_page_def managed_def space_demo_sel word_le_nat_alt word_less_nat_alt)
  then show "\<forall>p \<in> set space_free. low_page p \<and> managed (space_demo b) p" "\<forall>p \<in> set space_free. PGALIGNED p \<and> p \<noteq> 0"
    using space_free_range by blast+
  show "length space_free = 48" by (simp add: space_free_def)
  have "inj_on space_page {0..<47}" using space_page_unat by (auto simp: inj_on_def) (metis add_left_cancel mult_right_cancel zero_neq_numeral)
  moreover have "0xffffffc080400000 \<noteq> space_page i" if "i < 47" for i
  proof
    assume "0xffffffc080400000 = space_page i"
    then have "unat (0xffffffc080400000 :: u64) = 0xffffffc080403000 + i * 4096" using space_page_unat [OF that] by simp
    then show False by simp
  qed
  ultimately show "distinct space_free" unfolding space_free_def by (auto simp: distinct_map)
qed

lemma space_same: "\<forall>t \<in> P. low_page t \<Longrightarrow> same_on P (link_pages (mem b) space_free) (mem (space_demo b))"
  unfolding same_on_def
proof (intro ballI allI impI)
  fix t x assume "\<forall>t \<in> P. low_page t" "t \<in> P" and x: "in_page t x"
  then have "apart (space_demo b) {t}" using space_apart [of "{t}"] by blast
  then have n: "\<not> obj_region (space_pool A) x" for A using x by (auto simp: apart_def objs_apart_def space_demo_sel)
  have "obj_region (space_pool Vma_alloc) 0xffffffc090000000" "obj_region (space_pool Mm_alloc) 0xffffffc091000000"
    "obj_region (space_pool Proc_alloc) 0xffffffc092000000"
    by (simp_all add: space_region pool_no_def)
  then have "x \<noteq> 0xffffffc090000000" "x \<noteq> 0xffffffc091000000" "x \<noteq> 0xffffffc092000000" using n by blast+
  then show "mem (space_demo b) x = link_pages (mem b) space_free x" by (simp add: space_demo_sel)
qed

lemma space_world:
  assumes "idle b"
  shows "world (space_demo b) space_free space_objs"
  unfolding world_def
proof (intro conjI allI impI)
  have pm: "page_mapped (space_demo b) p" for p by (simp add: page_mapped_def mapped_def space_demo_sel)
  show "arena_ok (space_demo b)" unfolding arena_ok_def space_demo_sel using pm by (simp add: PGALIGNED_def layout_simps)
  have "chain (link_pages (mem b) space_free) 0xffffffc080400000 space_free"
    using link_pages_chain [OF space_free_low(2,4)] by (simp add: space_free_def)
  moreover have "chain (mem (space_demo b)) l space_free = chain (link_pages (mem b) space_free) l space_free" for l
    by (rule chain_cong) (use same_on_ld64 [OF space_same, of "set space_free" _ 0] space_free_low(1) in auto)
  ultimately show "free_pages (space_demo b) space_free" using space_free_low by (simp add: free_pages_def space_demo_sel)
  show "apart (space_demo b) (set space_free)" by (rule space_apart) (use space_free_low(1) in blast)
  show "\<not> obj_region (allocs (space_demo b) B) x" if "A \<noteq> B" "obj_region (allocs (space_demo b) A) x" for A B x
    using that unfolding space_demo_sel space_region by (cases A; cases B) (auto simp: pool_no_def)
qed (use assms space_demo_sel space_pools in \<open>simp_all add: idle_def\<close>)

lemma space_root:
  assumes "idle b"
  shows "good (space_demo b) 0xffffffc080401000 space_free" "tables (mem (space_demo b)) 0xffffffc080401000 = {0xffffffc080401000}"
  "entry (mem (space_demo b)) 0xffffffc080401000 va = 0"
proof -
  let ?r = "0xffffffc080401000 :: u64"
  have r: "low_page ?r" "PGALIGNED ?r" "?r \<notin> set space_free" "?r \<noteq> 0" 
    by (simp_all add: low_page_def PGALIGNED_def PGSIZE_def space_free_mem)
  have z: "ld64 (mem (space_demo b)) (slot ?r i) = 0" if "i < 512" for i
  proof -
    have "same_on {?r} (mem b) (\<lambda>_. 0)"
      using assms r(2) by (auto simp: same_on_def idle_def in_page_unat)
    then have "ld64 (mem b) (slot ?r i) = 0" using same_on_ld64 [of "{?r}" "mem b" "\<lambda>_. 0" ?r i] that by simp
    then show ?thesis
      using only_in_ld64 [OF link_pages_only [of space_free "mem b"] _ r(2,3) that] space_free_low(4)
        same_on_ld64 [OF space_same, of "{?r}" ?r i] r(1) that by simp
  qed
  note e = empty_root [OF z r(2)] and w = worldD [OF space_world [OF assms]]
  show "tables (mem (space_demo b)) ?r = {?r}" by (rule e(1))
  show "entry (mem (space_demo b)) ?r va = 0" by (rule e(3))
  have pm: "page_mapped (space_demo b) ?r" by (simp add: page_mapped_def mapped_def space_demo_sel)
  have "vm_ok (space_demo b) ?r space_free" by (rule vm_ok_fresh [OF z r(2,4) pm w(1-4) r(3)])
  then show "good (space_demo b) ?r space_free" using space_apart [of "{?r}"] r(1) by (simp add: good_def e(1))
qed

text \<open>The parent after its page has been mapped.\<close>

lemma space_mapped:
  assumes b: "idle b"
  obtains s ps where "mm_mappages 0xfffffffd00000000 (space_demo b) = Inr (0, s)" "vm_only (space_demo b) s" "world s ps space_objs"
    "good s 0xffffffc080401000 ps" "tables (mem s) 0xffffffc080401000 \<subseteq> insert 0xffffffc080401000 (set space_free)"
    "set ps \<subseteq> set space_free" "9 \<le> length ps" "allocs s = space_pool" "\<forall>m. mm_pgt (mms s m) = 0xffffffc080401000"
    "vma_chain (vmas s) (mm_vma (mms s 0xfffffffe00000000)) [0xfffffffd00000000]" "vma_pages (vmas s 0xfffffffd00000000) = [0x1000]"
    "vma_fits (vmas s 0xfffffffd00000000)" "pte_flags (vmas s 0xfffffffd00000000) = 0x16"
    "user_page s 0xffffffc080401000 0x1000" "page_of (mem s) 0xffffffc080401000 0x1000 \<in> set space_free"
    "page_of (mem s) 0xffffffc080401000 0x1000 \<notin> tables (mem s) 0xffffffc080401000 \<union> set ps"
    "vma_owner (vmas s 0xfffffffd00000000) = 0xfffffffe00000000" "mm_refcnt (mms s 0xfffffffe00000000) = 1"
    "45 \<le> length ps" "adv (insert 0xffffffc080401000 (set space_free)) (space_demo b) s ps space_objs"
    "\<forall>va. PGALIGNED va \<longrightarrow> IS_USER_VA va \<longrightarrow> va \<noteq> 0x1000 \<longrightarrow> entry (mem s) 0xffffffc080401000 va = 0"
proof -
  let ?r = "0xffffffc080401000 :: u64" and ?x = "0xfffffffd00000000 :: u64" and ?mm = "0xfffffffe00000000 :: u64"
  define v where "v = vmas (space_demo b) ?x"
  have v: "v = \<lparr>vma_owner = ?mm, vma_next = 0, vm_start = 0x1000, vm_end = 0x2000, pte_flags = 0x16\<rparr>"
    by (simp add: v_def space_demo_sel)
  have pages: "vma_pages v = [0x1000]" by (simp add: v vma_pages_def page_range.simps PGSIZE_def)
  have fits: "vma_fits v"
    by (simp add: v vma_fits_def IS_USER_VA_def MAXVA_def PGALIGNED_def PGSIZE_def PTE_R_def)
  have own: "?mm = vma_owner v" by (simp add: v)
  have rt: "mm_pgt (mms (space_demo b) m) = ?r" for m by (simp add: space_demo_sel)
  have g: "vm_ok (space_demo b) ?r space_free" using space_root(1) [OF b] by (simp add: good_def)
  have ok: "vm_ok (space_demo b) (mm_pgt (mms (space_demo b) ?mm)) space_free" using g by (simp only: rt)
  have inval: "entry (mem (space_demo b)) (mm_pgt (mms (space_demo b) ?mm)) va AND PTE_V = 0" for va
    unfolding rt using space_root(3) [OF b] by simp
  have len: "3 * length (vma_pages v) \<le> length space_free" by (simp add: pages space_free_low(3))
  obtain t k pgs where m0: "mm_mappages ?x (space_demo b) = Inr (0, link_vma ?mm ?x t)"
    "mapped_range (space_demo b) (mm_pgt (mms (space_demo b) ?mm)) space_free (vma_pages v) (pte_flags v) pgs k t"
    "k \<le> 3 * length (vma_pages v)"
    by (rule mm_mappages_eq [OF ok v_def own fits inval len])
  have k: "k \<le> 3" using m0(3) by (simp add: pages)
  have m: "mapped_range (space_demo b) ?r space_free [0x1000] 0x16 pgs k t" using m0(2) unfolding pages rt by (simp add: v)
  note mr = mapped_range_parts [OF m] and sel = only_memory_sel [OF mapped_range_parts(1) [OF m]]
  have tk: "set (take k space_free) \<subseteq> set space_free" and dk: "set (drop k space_free) \<subseteq> set space_free"
    by (rule set_take_subset, rule set_drop_subset)
  have T: "tables (mem t) ?r \<union> set pgs = insert ?r (set (take k space_free))" using mr(7) space_root(2) [OF b] by simp
  have low: "\<forall>x \<in> insert ?r (set space_free). low_page x" using space_free_low(1) by (simp add: low_page_def PGALIGNED_def PGSIZE_def)
  have ap: "apart (space_demo b) P" if "P \<subseteq> insert ?r (set space_free)" for P by (rule space_apart) (use low that in blast)
  have a: "adv (insert ?r (set (take k space_free))) (space_demo b) t (drop k space_free) space_objs"
  proof (rule world_write [OF space_world [OF b] mr(1) _ _ ap vm_okD(6) [OF mr(2)] dk])
    show "only_in (insert ?r (set (take k space_free))) (mem (space_demo b)) (mem t)" using mr(9) T by simp
    show "\<forall>x \<in> insert ?r (set (take k space_free)). PGALIGNED x" using low tk by (auto simp: low_page_def)
  qed (use tk in blast)
  define s where "s = link_vma ?mm ?x t"
  have ms: "mem s = mem t" "allocs s = space_pool" "mm_pgt (mms s m) = ?r" "mm_vma (mms s ?mm) = ?x" "vmas s ?x = v" "mm_refcnt (mms s ?mm) = 1" for m
    by (simp_all add: s_def sel rt space_demo_sel) (simp_all add: v)
  have w: "world s (drop k space_free) space_objs" using advD(2) [OF a] by (simp add: s_def link_vma_def)
  have Ts: "tables (mem s) ?r \<subseteq> insert ?r (set space_free)" "set pgs \<subseteq> set space_free" using T tk mr(6) by (auto simp: ms)
  have vo: "vm_only (space_demo b) s"
    unfolding s_def using only_memory_vm_only [OF mr(1)] vm_only_upd(3) vm_only_trans by blast
  have A: "adv (insert ?r (set space_free)) (space_demo b) s (drop k space_free) space_objs"
  proof -
    have "kept (insert ?r (set space_free)) (space_demo b) t" by (rule advD(3) [OF adv_mono [OF a]]) (use tk in blast)
    moreover have "allocs s = allocs t" by (simp add: s_def link_vma_def upd_mm_def upd_vma_def)
    ultimately have "kept (insert ?r (set space_free)) (space_demo b) s" by (simp add: kept_def ms(1))
    with w vm_only_alloc_only [OF vo] show ?thesis by (simp only: adv_def)
  qed
  have gs: "good s ?r (drop k space_free)"
    using mr(2) ap [OF Ts(1)] by (simp add: good_def apart_def ms space_demo_sel) (simp add: s_def)
  have u: "\<forall>va \<in> set [0x1000]. IS_USER_VA va \<and> PGALIGNED va"
    by (simp add: IS_USER_VA_def MAXVA_def PGALIGNED_def PGSIZE_def)
  note pg = mapped_range_pages [OF g m _ _ u]
  have pgs: "pgs = [page_of (mem s) ?r 0x1000]" using pg(1) by (simp add: ms)
  have e: "entry (mem s) ?r 0x1000 = leaf_pte (page_of (mem s) ?r 0x1000) 0x16"
    using mapped_range_nth [OF m, of 0] u pgs by (simp add: ms)
  have mng: "managed s p = managed t p" for p
    using same_layoutD(1) [OF vm_only_layout [OF vo]] only_memory_managed(1) [OF mr(1)] by simp
  have other: "\<forall>va. PGALIGNED va \<longrightarrow> IS_USER_VA va \<longrightarrow> va \<noteq> 0x1000 \<longrightarrow> entry (mem s) ?r va = 0"
    using m space_root(3) [OF b] by (simp add: mapped_range_def pgs ms(1))
  have up: "user_page s ?r 0x1000"
    using pg(2) [of "0x1000"] leaf_pte_user [of "0x16"] by (simp add: user_page_def mng e PTE_U_def) (simp add: ms)
  have pd: "page_of (mem s) ?r 0x1000 \<notin> tables (mem s) ?r \<union> set (drop k space_free)" using pg(2) [of "0x1000"] by (simp add: ms)
  show thesis
  proof (rule that [of s "drop k space_free"])
    show "mm_mappages ?x (space_demo b) = Inr (0, s)" using m0(1) by (simp only: s_def)
    show "9 \<le> length (drop k space_free)" "45 \<le> length (drop k space_free)" using k by (simp_all add: space_free_low(3))
    show "set (drop k space_free) \<subseteq> set space_free" by (rule dk)
    show "page_of (mem s) ?r 0x1000 \<in> set space_free" using Ts(2) pgs by simp
    show "vma_chain (vmas s) (mm_vma (mms s ?mm)) [?x]" by (simp add: ms v)
    show "vma_pages (vmas s ?x) = [0x1000]" "vma_fits (vmas s ?x)" by (simp_all add: ms pages fits)
  qed (use vo w gs Ts(1) up pd A other in \<open>simp_all add: ms v\<close>)
qed

section \<open>Copying it and freeing it\<close>

lemma space_objs_first:
  "0xfffffffd00000000 \<notin> space_objs Vma_alloc" "0xfffffffe00000000 \<notin> space_objs Mm_alloc" "card (space_objs A) = 3" "space_objs A \<noteq> {}"
  "space_pool = allocs s \<Longrightarrow> 0xfffffffd00000000 \<in> objects_of s Vma_alloc" "space_pool = allocs s \<Longrightarrow> 0xfffffffe00000000 \<in> objects_of s Mm_alloc"
proof -
  show "0xfffffffd00000000 \<notin> space_objs Vma_alloc" "0xfffffffe00000000 \<notin> space_objs Mm_alloc" "space_objs A \<noteq> {}"
    by (simp_all add: space_objs_def obj_addr_def space_pool_sel pool_no_def)
  show "card (space_objs A) = 3" by (cases A) (simp_all add: space_objs_def obj_addr_def space_pool_sel pool_no_def)
  have "obj_addr (space_pool Vma_alloc) 0 = 0xfffffffd00000000" "obj_addr (space_pool Mm_alloc) 0 = 0xfffffffe00000000"
    by (simp_all add: obj_addr_def space_pool_sel pool_no_def)
  then show "space_pool = allocs s \<Longrightarrow> 0xfffffffd00000000 \<in> objects_of s Vma_alloc"
    "space_pool = allocs s \<Longrightarrow> 0xfffffffe00000000 \<in> objects_of s Mm_alloc"
    by (auto simp: objects_of_def image_iff space_pool_sel(2) intro!: bexI [of _ 0])
qed

theorem mm_copy_correct_witness:
  "\<exists>s t u mm q p. mm_mappages 0xfffffffd00000000 (space_demo boot_kst) = Inr (0, s) \<and> mm_create s = Inr (mm, t) \<and>
    mm_copy 0xfffffffe00000000 mm t = Inr (0, u) \<and> entry (mem u) q 0x1000 = leaf_pte p 0x16 \<and> q = mm_pgt (mms t mm) \<and>
    p \<in> set space_free \<and> same_bytes (mem t) (page_of (mem s) 0xffffffc080401000 0x1000) (mem u) p"
proof -
  let ?r = "0xffffffc080401000 :: u64" and ?x = "0xfffffffd00000000 :: u64" and ?m = "0xfffffffe00000000 :: u64"
  have b: "idle boot_kst" by (rule boot_idle)
  obtain s ps where s: "mm_mappages ?x (space_demo boot_kst) = Inr (0, s)" "vm_only (space_demo boot_kst) s" "world s ps space_objs" "good s ?r ps"
    "set ps \<subseteq> set space_free" "9 \<le> length ps" "allocs s = space_pool" "\<forall>m. mm_pgt (mms s m) = ?r"
    "vma_chain (vmas s) (mm_vma (mms s ?m)) [?x]" "vma_pages (vmas s ?x) = [0x1000]"
    "vma_fits (vmas s ?x)" "pte_flags (vmas s ?x) = 0x16" "user_page s ?r 0x1000" "page_of (mem s) ?r 0x1000 \<in> set space_free"
    "page_of (mem s) ?r 0x1000 \<notin> tables (mem s) ?r \<union> set ps"
    by (rule space_mapped [OF b]) blast
  obtain q qs where ps: "ps = q # qs" using s(6) by (cases ps) auto
  have lk: "k_free l s" for l using vm_only_sel(9) [OF s(2)] by (simp add: space_demo_sel)
  obtain mm t where t: "mm_create s = Inr (mm, t)" "mm \<in> space_objs Mm_alloc" "adv {q} s t qs (taken Mm_alloc mm space_objs)"
    "vm_only s t" "good t q qs" "tables (mem t) q = {q}" "q \<notin> set qs" "\<And>va. entry (mem t) q va = 0"
    "mms t = (mms s)(mm := \<lparr>mm_pgt = q, mm_vma = 0, mm_refcnt = 1\<rparr>)" "vmas t = vmas s"
    by (rule mm_create_ok [OF s(3) [unfolded ps] space_objs_first(4) lk]) blast
  have ne: "mm \<noteq> ?m" using t(2) space_objs_first(2) by blast
  have dq: "q \<notin> tables (mem s) ?r" using s(4) vm_okD(7) by (fastforce simp: good_def ps)
  note g = adv_good [OF t(3) s(4) _ _] and w = worldD [OF advD(2) [OF t(3)]]
  have g1: "good t ?r qs" "entry (mem t) ?r = entry (mem s) ?r" "tables (mem t) ?r = tables (mem s) ?r"
    using g dq by (simp_all add: ps subset_insertI)
  have "apart t ({q} \<union> (tables (mem t) ?r \<union> set qs))" using g1(1) t(5,6) w(5) unfolding good_def apart_Un by simp
  then have ap: "objs_apart (allocs t Vma_alloc) (insert q (tables (mem s) ?r \<union> set qs))" by (simp only: apart_def g1(3) insert_is_Un [symmetric])
  have c: "copy_ok t (mm_pgt (mms t ?m)) (mm_pgt (mms t mm)) qs (space_objs Vma_alloc)"
    using g1(1) t(5,6) dq w(5-7) w(8) [of Vma_alloc] ne s(8) by (simp add: copy_ok_def good_def t(9) g1(3) ap)
  have pg: "page_of (mem t) ?r 0x1000 = page_of (mem s) ?r 0x1000" by (simp add: page_of_def g1(2))
  have up: "user_page t ?r 0x1000"
    using s(13) same_layoutD(1) [OF advD(4) [OF t(3)]] by (simp add: user_page_def g1(2) pg)
  have "low_page (page_of (mem s) ?r 0x1000)" using s(14) space_free_low(1) by blast
  then have "apart t {page_of (mem s) ?r 0x1000}"
    using space_apart [of "{page_of (mem s) ?r 0x1000}"] advD(5) [OF t(3)] by (simp add: apart_def space_demo_sel s(7))
  then have ao: "\<forall>x \<in> set [?x]. area_ok t (mm_pgt (mms t ?m)) (mm_pgt (mms t mm)) qs (vmas t x)"
    using s(10-12,15) up ne s(8) t(6,8)
    by (simp add: area_ok_def t(9,10) pg g1(3) ps apart_def PTE_U_def)
  have ch: "vma_chain (vmas t) (mm_vma (mms t ?m)) [?x]" "mm_vma (mms t mm) = 0" using s(9) ne by (simp_all add: t(9,10))
  have n: "length [?x] \<le> 16384" "length [?x] \<le> card (space_objs Vma_alloc)" "set [?x] \<inter> space_objs Vma_alloc = {}"
    using space_objs_first(1,3) by simp_all
  have ar: "area_pages (vmas t) [?x] = [0x1000]" by (simp add: area_pages_def t(10) s(10))
  have l: "distinct (area_pages (vmas t) [?x])" "3 * length (area_pages (vmas t) [?x]) \<le> length qs" using s(6) by (simp_all add: ar ps)
  obtain u K where u: "mm_copy ?m mm t = Inr (0, u)" "pages_copied t (mm_pgt (mms t ?m)) (mm_pgt (mms t mm)) qs [?x] K u"
    using mm_copy_correct [OF c ne [symmetric] ch(1) n ch(2) ao l] by blast
  define p where "p = page_of (mem u) q 0x1000"
  have mt: "mm_pgt (mms t mm) = q" by (simp add: t(9))
  have p: "entry (mem u) q 0x1000 = leaf_pte p 0x16" "p \<in> set (take K qs)" "same_bytes (mem t) (page_of (mem s) ?r 0x1000) (mem u) p"
    using u(2) ne s(8) by (simp_all add: pages_copied_def t(9,10) s(10,12) p_def pg)
  have "p \<in> set space_free" using p(2) s(5) set_take_subset [of K qs] by (auto simp: ps)
  then show ?thesis
    using s(1) t(1) u(1) mt p(1,3)
    by (intro exI [of _ s] exI [of _ t] exI [of _ u] exI [of _ mm] exI [of _ q] exI [of _ p]) (simp only:)
qed

theorem mm_free_correct_witness:
  "\<exists>s t ps qs. mm_mappages 0xfffffffd00000000 (space_demo boot_kst) = Inr (0, s) \<and> mm_free 0xfffffffe00000000 s = Inr t \<and>
    free_pages s ps \<and> free_pages t qs \<and> length qs = length ps + 2 \<and>
    set qs = insert (page_of (mem s) 0xffffffc080401000 0x1000) (insert 0xffffffc080401000 (set ps)) \<and>
    free_objects t Vma_alloc (insert 0xfffffffd00000000 (space_objs Vma_alloc))"
proof -
  let ?r = "0xffffffc080401000 :: u64" and ?x = "0xfffffffd00000000 :: u64" and ?m = "0xfffffffe00000000 :: u64"
  let ?p = "\<lambda>s. page_of (mem s) ?r 0x1000"
  have b: "idle boot_kst" by (rule boot_idle)
  obtain s ps where s: "mm_mappages ?x (space_demo boot_kst) = Inr (0, s)" "vm_only (space_demo boot_kst) s" "world s ps space_objs" "good s ?r ps"
    "tables (mem s) ?r \<subseteq> insert ?r (set space_free)" "allocs s = space_pool" "\<forall>m. mm_pgt (mms s m) = ?r"
    "vma_chain (vmas s) (mm_vma (mms s ?m)) [?x]" "vma_pages (vmas s ?x) = [0x1000]" "vma_fits (vmas s ?x)" "user_page s ?r 0x1000"
    "?p s \<in> set space_free" "?p s \<notin> tables (mem s) ?r \<union> set ps" "vma_owner (vmas s ?x) = ?m" "mm_refcnt (mms s ?m) = 1"
    by (rule space_mapped [OF b]) blast
  note w = worldD [OF s(3)]
  have lay: "same_layout (space_demo boot_kst) s" by (rule vm_only_layout [OF s(2)])
  have ar: "area_pages (vmas s) [?x] = [0x1000]" by (simp add: area_pages_def s(9))
  have pof: "pages_of s ?r [?x] = [?p s]" by (simp add: pages_of_def ar)
  have ap: "apart s {?p s}"
    using space_apart [of "{?p s}" boot_kst] s(12) space_free_low(1) [of boot_kst] by (simp add: apart_def space_demo_sel s(6))
  have "own_page s ?r ps 0x1000" using s(11,13) ap by (simp add: own_page_def user_page_def apart_def)
  then have oa: "own_areas s ?m ?r ps [?x]" using s(10,14) by (simp add: own_areas_def ar)
  have sp: "space_ok s ?r ps (space_objs Vma_alloc)" using s(4) w(5-8) by (simp add: space_ok_def good_def apart_def)
  have "managed s ?r"
    using same_layoutD(1) [OF lay, of ?r] by (simp add: managed_def space_demo_sel PGALIGNED_def PGSIZE_def)
  moreover have "apart s (tables (mem s) ?r)" using s(4) by (simp add: good_def)
  moreover have "\<not> obj_region (allocs s Mm_alloc) x" if "obj_region (allocs s Vma_alloc) x" for x using w(9) that by blast
  ultimately have mo: "mm_owned s ?m ps (space_objs Vma_alloc) (space_objs Mm_alloc) [?x]"
    using sp oa s(7,8,15) w(5-9) ap space_objs_first s(6)
    by (simp add: mm_owned_def Let_def pof apart_def)
  obtain t qs where t: "mm_free ?m s = Inr t" "free_pages t qs" "set qs = set ps \<union> set (pages_of s ?r [?x]) \<union> {?r}"
    "length qs = length ps + length (area_pages (vmas s) [?x]) + 1" "free_objects t Vma_alloc (space_objs Vma_alloc \<union> set [?x])"
    using mm_free_correct [OF mo, unfolded s(7) [rule_format]] by blast
  have "set qs = insert (?p s) (insert ?r (set ps))" "length qs = length ps + 2" using t(3,4) by (auto simp: pof ar)
  moreover have "space_objs Vma_alloc \<union> set [?x] = insert ?x (space_objs Vma_alloc)" by simp
  ultimately show ?thesis
    using s(1) t(1,2,5) w(4) by (intro exI [of _ s] exI [of _ t] exI [of _ ps] exI [of _ qs]) (simp only:)
qed

end
