(* ===== verification/CloneDemo.thy ===== *)
theory CloneDemo imports Fork VmDemo begin

text \<open>An example for \<open>fork_correct\<close>: process 2, with one page, calls \<^verbatim>\<open>fork\<close>; the new process is 1.\<close>

definition clone_base :: kst where
  "clone_base = boot_kst\<lparr>smp := smp (family_demo SLEEPING), task_queue := task_queue (family_demo SLEEPING),
     proc_pool := (\<lambda>p. (proc_pool (family_demo SLEEPING) p)\<lparr>p_mm := 0xfffffffe00000000, p_trapframe := 0xffffffc080402000,
       p_kstack := 0xffffffc0a0000000\<rparr>)\<rparr>"

definition clone_demo :: kst where "clone_demo = space_demo clone_base"

lemma clone_base_idle: "idle clone_base"
  using family_demo_ready by (simp add: idle_def clone_base_def k_ready_def k_free_def boot_kst_def)

lemmas clone_demo_sel = space_demo_sel [where b = clone_base, folded clone_demo_def]

lemma clone_demo_family:
  "smp clone_demo = smp (family_demo SLEEPING)" "task_queue clone_demo = task_queue (family_demo SLEEPING)"
  "img clone_demo = img (family_demo SLEEPING)" "next_pid clone_demo = 1"
  "proc_pool clone_demo i = (proc_pool (family_demo SLEEPING) i)\<lparr>p_mm := 0xfffffffe00000000, p_trapframe := 0xffffffc080402000,
       p_kstack := 0xffffffc0a0000000\<rparr>"
  by (simp_all add: clone_demo_sel(9-15)) (simp_all add: clone_base_def family_demo_def demo_vm_def boot_kst_def)

section \<open>The call\<close>

lemma in_call_cong:
  assumes "settle (smp t) = settle (smp s)" and "proc_pool t = proc_pool s" and "task_queue t = task_queue s" and "img t = img s"
    and "in_call p s"
  shows "in_call p t"
proof -
  have "in_call p (k_settle s)" by (rule in_call_settle [OF assms(5)])
  moreover have v: "view (k_settle r) = view r" for r by (simp add: view_def settle_def fun_eq_iff)
  have "view (k_settle t) = view (k_settle s)" using assms by (simp add: view_def)
  then have "view t = view s" by (simp only: v)
  moreover have c: "curr_proc (k_settle t) = curr_proc t" "c_noff (this_cpu (settle (smp t))) = c_noff (this_cpu (smp t))"
    "c_inkernel_trap (this_cpu (settle (smp t))) = c_inkernel_trap (this_cpu (smp t))"
    by (simp_all add: curr_proc_def mycpu_def settle_def)
  have "in_call p (k_settle t) = in_call p t"
    using c(2,3) by (simp add: in_call_def v c(1) locks_ready_def k_ready_def k_free_def)
  moreover have "in_call p (k_settle t) = in_call p (k_settle s)"
    using assms(1) \<open>view t = view s\<close> v [of t] by (simp add: in_call_def locks_ready_def k_ready_def k_free_def curr_proc_def v)
  ultimately show ?thesis by blast
qed

lemma clone_demo_call: "in_call 2 clone_demo"
proof -
  have v: "view clone_demo = view (family_demo SLEEPING)"
    by (simp add: view_def clone_demo_family fun_eq_iff)
  have "in_call 2 (family_demo SLEEPING)" by (simp add: family_demo_call)
  moreover have "k_free l clone_demo = k_free l (family_demo SLEEPING)" "k_ready clone_demo = k_ready (family_demo SLEEPING)"
    "curr_proc clone_demo = curr_proc (family_demo SLEEPING)" "smp clone_demo = smp (family_demo SLEEPING)" for l
    by (simp_all add: clone_demo_family k_free_def k_ready_def curr_proc_def)
  ultimately show ?thesis by (simp add: in_call_def locks_ready_def v)
qed

lemma clone_room:
  assumes vo: "vm_only clone_demo s" and w: "world s ps space_objs" and ps: "set ps \<subseteq> set space_free" "9 \<le> length ps" and al: "allocs s = space_pool"
  shows "room_for_proc s 1 ps space_objs" "p_kstack (proc_pool s i) = 0xffffffc0a0000000" "p_mm (proc_pool s i) = 0xfffffffe00000000"
    "p_trapframe (proc_pool s i) = 0xffffffc080402000" "card (space_objs A) = 3" "\<And>P. \<forall>t \<in> P. low_page t \<Longrightarrow> apart s P"
proof -
  note sel = vm_only_sel [OF vo]
  show k: "p_kstack (proc_pool s i) = 0xffffffc0a0000000" "p_mm (proc_pool s i) = 0xfffffffe00000000"
    "p_trapframe (proc_pool s i) = 0xffffffc080402000" for i
    by (simp_all add: sel clone_demo_family)
  show ap: "apart s P" if "\<forall>t \<in> P. low_page t" for P
    using space_apart [OF that, of clone_base, folded clone_demo_def] by (simp add: apart_def al clone_demo_sel)
  show c: "card (space_objs A) = 3" for A
    by (cases A) (simp_all add: space_objs_def obj_addr_def space_pool_sel pool_no_def)
  have ne: "space_objs Mm_alloc \<noteq> {}" by (simp add: space_objs_def)
  have st: "stack_pages 0xffffffc0a0000000 = {0xffffffc0a0000000, 0xffffffc0a0001000}" by (simp add: stack_pages_def PGSIZE_def)
  have lp: "\<forall>x \<in> stack_pages 0xffffffc0a0000000. low_page x" by (simp add: st low_page_def PGALIGNED_def PGSIZE_def)
  have s0: "p_state (proc_pool s 1) = UNUSED" "p_state (proc_pool s 0) \<noteq> UNUSED"
    by (simp_all add: sel clone_demo_family family_demo_procs) (simp add: family_demo_def idle_proc_def demo_vm_def boot_kst_def)
  have pm: "page_mapped s x" for x by (simp add: page_mapped_def mapped_def sel clone_demo_sel)
  have nf: "x \<notin> set ps" if "x \<in> stack_pages 0xffffffc0a0000000" for x
  proof -
    have "x \<notin> set space_free" using that unfolding st by (auto simp: space_free_mem)
    with ps(1) show ?thesis by blast
  qed
  show "room_for_proc s 1 ps space_objs"
    unfolding room_for_proc_def k
    using w ne c [of Vma_alloc] s0 ps(2) nf lp ap [OF lp] pm
    by (auto simp: sel clone_demo_sel clone_base_idle [unfolded idle_def] NPROC_def low_page_def)
qed

theorem fork_correct_witness:
  "\<exists>s t. mm_mappages 0xfffffffd00000000 clone_demo = Inr (0, s) \<and> fork s = Inr (1, t) \<and> queue_list (task_queue t) = [1] \<and>
    p_state (proc_pool t 1) = RUNNABLE \<and> p_parent (proc_pool t 1) = Some 2 \<and>
    ld64 (mem t) (slot (p_trapframe (proc_pool t 1)) 14) = 0 \<and>
    same_bytes (mem s) (page_of (mem s) 0xffffffc080401000 0x1000) (mem t)
      (page_of (mem t) (mm_pgt (mms t (p_mm (proc_pool t 1)))) 0x1000)"
proof -
  let ?r = "0xffffffc080401000 :: u64" and ?x = "0xfffffffd00000000 :: u64" and ?k = "0xffffffc0a0000000 :: u64"
  obtain s ps where s: "mm_mappages ?x clone_demo = Inr (0, s)" "vm_only clone_demo s" "world s ps space_objs" "good s ?r ps"
    "tables (mem s) ?r \<subseteq> insert ?r (set space_free)" "set ps \<subseteq> set space_free" "9 \<le> length ps" "allocs s = space_pool"
    "\<forall>m. mm_pgt (mms s m) = ?r" "vma_chain (vmas s) (mm_vma (mms s 0xfffffffe00000000)) [?x]" "vma_pages (vmas s ?x) = [0x1000]"
    "vma_fits (vmas s ?x)" "pte_flags (vmas s ?x) = 0x16" "user_page s ?r 0x1000" "page_of (mem s) ?r 0x1000 \<in> set space_free"
    "page_of (mem s) ?r 0x1000 \<notin> tables (mem s) ?r \<union> set ps"
    by (rule space_mapped [OF clone_base_idle, folded clone_demo_def]) blast
  note r = clone_room [OF s(2,3,6-8)] and sel = vm_only_sel [OF s(2)]
  have call: "in_call 2 s" by (rule in_call_cong [OF sel(10,4,5,6) clone_demo_call])
  have areas: "area_pages (vmas s) [?x] = [0x1000]" by (simp add: area_pages_def s(11))
  have st: "stack_pages ?k = {?k, 0xffffffc0a0001000}" by (simp add: stack_pages_def PGSIZE_def)
  have out: "set space_free \<inter> stack_pages ?k = {}" "?r \<notin> stack_pages ?k" "0xffffffc080402000 \<notin> set space_free \<union> stack_pages ?k"
    by (simp_all add: st space_free_mem)
  have lp: "\<forall>p \<in> set space_free. low_page p" using space_free_low(1) by blast
  have pa: "parent_ok s 2 (p_kstack (proc_pool s 1)) ps space_objs [?x]"
    unfolding parent_ok_def Let_def r(2-4) s(9) [rule_format] areas
  proof (intro conjI)
    show "tables (mem s) ?r \<inter> stack_pages ?k = {}" using s(5) out(1,2) by blast
    show "0xfffffffe00000000 \<notin> space_objs Mm_alloc" "set [?x] \<inter> space_objs Vma_alloc = {}"
      by (simp_all add: space_objs_def obj_addr_def space_pool_sel pool_no_def)
    show "managed s 0xffffffc080402000"
      by (simp add: managed_def sel clone_demo_sel PGALIGNED_def PGSIZE_def)
    show "0xffffffc080402000 \<notin> set ps \<union> stack_pages ?k" using s(6) out(3) by blast
    show "apart s {0xffffffc080402000}" by (rule r(6)) (simp add: low_page_def PGALIGNED_def PGSIZE_def)
    show "\<forall>x \<in> set [?x]. vma_fits (vmas s x) \<and> pte_flags (vmas s x) AND PTE_U \<noteq> 0" using s(12,13) by (simp add: PTE_U_def)
    have "apart s {page_of (mem s) ?r 0x1000}" by (rule r(6)) (use lp s(15) in blast)
    moreover have "page_of (mem s) ?r 0x1000 \<notin> stack_pages ?k" using s(15) out(1) by blast
    moreover have "(0x1000 :: u64) \<noteq> TRAMPOLINE \<and> (0x1000 :: u64) \<noteq> TRAPFRAME"
      by (simp add: TRAMPOLINE_def TRAPFRAME_def USER_TOP_def MAXVA_def PGSIZE_def)
    ultimately show "\<forall>va \<in> set [0x1000]. va \<noteq> TRAMPOLINE \<and> va \<noteq> TRAPFRAME \<and> user_page s ?r va \<and>
         page_of (mem s) ?r va \<notin> tables (mem s) ?r \<union> (set ps \<union> stack_pages ?k) \<and> apart s {page_of (mem s) ?r va}"
      using s(14,16) by simp
  qed (use s(4,10) in simp_all)
  have len: "3 * length (area_pages (vmas s) [?x]) + 6 \<le> length ps" "length [?x] + 2 \<le> card (space_objs Vma_alloc)"
    "?r = mm_pgt (mms s (p_mm (proc_pool s 2)))"
    using s(7,9) by (simp_all add: areas r(5))
  have init: "next_pid s = 1" "queue_list (task_queue s) = []"
    by (simp_all add: sel clone_demo_family) (simp_all add: family_demo_def demo_vm_def boot_kst_def queue_list_def queue_len_def zero_queue_def)
  obtain t mm vt vf root2 tf where t: "fork s = Inr (next_pid s, t)"
    "proc_pool t = (proc_pool s)(1 := (fresh_proc (img s) (next_pid s) mm vt vf tf (proc_pool s 1))\<lparr>p_parent := Some 2, p_state := RUNNABLE\<rparr>)"
    "queue_list (task_queue t) = queue_list (task_queue s) @ [1]" "mm_pgt (mms t mm) = root2"
    "pages_copied s ?r root2 ps [?x] (length ps) t"
    "\<forall>i < 36. ld64 (mem t) (slot tf i) = (if i = 14 then 0 else ld64 (mem s) (slot (p_trapframe (proc_pool s 2)) i))"
    using fork_correct [OF call r(1) pa len] by metis
  have "same_bytes (mem s) (page_of (mem s) ?r 0x1000) (mem t) (page_of (mem t) root2 0x1000)"
    using t(5) by (simp add: pages_copied_def s(11))
  moreover have "(14 :: u64) < 36" by simp
  then have "ld64 (mem t) (slot tf 14) = 0" using t(6) by (metis (full_types))
  moreover have "p_mm (proc_pool t 1) = mm" "p_trapframe (proc_pool t 1) = tf" "p_state (proc_pool t 1) = RUNNABLE" "p_parent (proc_pool t 1) = Some 2"
    by (simp_all add: t(2) fresh_proc_def)
  ultimately show ?thesis using s(1) t(1,3,4) init by auto
qed

end
