(* ===== verification/ExecDemo.thy ===== *)
theory ExecDemo imports Exec CloneDemo begin

text \<open>
  An example for \<open>exec_correct\<close>: process 2, with one page, calls \<^verbatim>\<open>exec\<close>; its program has one segment of two pages,
  of which the file has the first eight bytes.
\<close>

section \<open>The file\<close>

abbreviation demo_file :: u64 where "demo_file \<equiv> 0xffffffc080480000"

text \<open>The words of the file that are not zero: two headers, the code, and the name.\<close>

definition elf_cells :: "(u64 \<times> u64) list" where
  "elf_cells = [(0, 0x00010102464c457f), (2, 0x0000000100f30002), (3, 0x10000), (4, 64), (6, 0x0038004000000000), (7, 1),
     (8, 0x0000000500000001), (9, 120), (10, 0x10000), (12, 8), (13, 0x1800), (14, 0x1000), (15, 0x0000007305d00893), (32, 0x41)]"

definition elf_mem :: mem where
  "elf_mem = foldr (\<lambda>(i, v) m. st64 m (slot demo_file i) v) elf_cells (\<lambda>_. 0)"

lemma elf_mem_only: "only_in {demo_file} (\<lambda>_. 0) elf_mem"
proof -
  have "only_in {demo_file} (\<lambda>_. 0) (foldr (\<lambda>(i, v) m. st64 m (slot demo_file i) v) cs (\<lambda>_. 0))"
    if "\<forall>(i, v) \<in> set cs. i < 512" for cs
    using that
  proof (induction cs)
    case (Cons c cs)
    then show ?case by (cases c) (auto simp: only_in_def st64_outside)
  qed simp
  moreover have "\<forall>(i, v) \<in> set elf_cells. i < 512" by (simp add: elf_cells_def)
  ultimately show ?thesis by (simp add: elf_mem_def)
qed

lemma elf_mem_cell:
  assumes "i < 512"
  shows "ld64 elf_mem (slot demo_file i) = (case map_of elf_cells i of None \<Rightarrow> 0 | Some v \<Rightarrow> v)"
proof -
  have al: "PGALIGNED demo_file" by (simp add: PGALIGNED_def PGSIZE_def)
  have "ld64 (foldr (\<lambda>(i, v) m. st64 m (slot demo_file i) v) cs (\<lambda>_. 0)) (slot demo_file i) =
      (case map_of cs i of None \<Rightarrow> 0 | Some v \<Rightarrow> v)" if "\<forall>(i, v) \<in> set cs. i < 512" for cs
    using that
  proof (induction cs)
    case (Cons c cs)
    then show ?case using ld64_st64_slot [OF _ assms al al] by (cases c) auto
  qed simp
  moreover have "\<forall>(i, v) \<in> set elf_cells. i < 512" by (simp add: elf_cells_def)
  ultimately show ?thesis by (simp add: elf_mem_def)
qed

text \<open>The parts of a word in memory.\<close>

lemma byte_of_cell: "k < 8 \<Longrightarrow> m (a + of_nat k) = byte_of k (ld64 m a)"
proof (rule bit_eqI)
  fix n assume k: "k < 8" and "possible_bit TYPE(8 word) n"
  then have "n < 8" by simp
  with k have "(8 * k + n) div 8 = k" "(8 * k + n) mod 8 = n" "8 * k + n < 64" by simp_all
  with \<open>n < 8\<close> show "bit (m (a + of_nat k)) n = bit (byte_of k (ld64 m a)) n" by (simp add: bit_byte_of bit_ld64)
qed

lemma ld_cell:
  "ld32 m a = fold (\<lambda>i w. w OR push_bit (8 * i) (ucast (byte_of i (ld64 m a)))) [0..<4] 0"
  "ld32 m (a + 4) = fold (\<lambda>i w. w OR push_bit (8 * i) (ucast (byte_of (4 + i) (ld64 m a)))) [0..<4] 0"
  "ld16 m a = ucast (byte_of 0 (ld64 m a)) OR push_bit 8 (ucast (byte_of 1 (ld64 m a)))"
proof -
  have b: "m (a + of_nat i) = byte_of i (ld64 m a)" if "i < 8" for i using that by (rule byte_of_cell)
  show "ld32 m a = fold (\<lambda>i w. w OR push_bit (8 * i) (ucast (byte_of i (ld64 m a)))) [0..<4] 0"
    unfolding ld32_def by (rule fold_cong) (use b in auto)
  show "ld32 m (a + 4) = fold (\<lambda>i w. w OR push_bit (8 * i) (ucast (byte_of (4 + i) (ld64 m a)))) [0..<4] 0"
    unfolding ld32_def by (rule fold_cong) (use b [of "4 + i" for i] in \<open>auto simp: add.assoc\<close>)
  show "ld16 m a = ucast (byte_of 0 (ld64 m a)) OR push_bit 8 (ucast (byte_of 1 (ld64 m a)))"
    using b [of 0] b [of 1] by (simp add: ld16_def)
qed

lemma file_cells:
  "ld64 elf_mem (slot demo_file 3) = 0x10000" "ld64 elf_mem (slot demo_file 4) = 64" "ld64 elf_mem (slot demo_file 7) = 1"
  "ld64 elf_mem (slot demo_file 8) = 0x0000000500000001" "ld64 elf_mem (slot demo_file 9) = 120"
  "ld64 elf_mem (slot demo_file 10) = 0x10000" "ld64 elf_mem (slot demo_file 11) = 0" "ld64 elf_mem (slot demo_file 12) = 8"
  "ld64 elf_mem (slot demo_file 13) = 0x1800" "ld64 elf_mem (slot demo_file 14) = 0x1000"
  "ld64 elf_mem (slot demo_file 15) = 0x0000007305d00893" "ld64 elf_mem (slot demo_file 32) = 0x41"
  by (simp_all add: elf_mem_cell elf_cells_def)

lemma demo_ehdr: "e_phoff (get_ehdr elf_mem demo_file) = 64" "e_phnum (get_ehdr elf_mem demo_file) = 1" "e_entry (get_ehdr elf_mem demo_file) = 0x10000"
  using file_cells(1-3) by (simp_all add: get_ehdr_def slot_def ld_cell byte_of_def)

lemma demo_phdr:
  "get_phdr elf_mem (phdr_addr elf_mem demo_file 0) =
    \<lparr>p_type = 1, p_flags = 5, p_offset = 120, p_vaddr = 0x10000, p_paddr = 0, p_filesz = 8, p_memsz = 0x1800, p_align = 0x1000\<rparr>"
proof -
  have a: "phdr_addr elf_mem demo_file 0 = slot demo_file 8" by (simp add: phdr_addr_def demo_ehdr slot_def)
  have s: "slot demo_file 8 + 8 = slot demo_file 9" "slot demo_file 8 + 16 = slot demo_file 10" "slot demo_file 8 + 24 = slot demo_file 11"
    "slot demo_file 8 + 32 = slot demo_file 12" "slot demo_file 8 + 40 = slot demo_file 13" "slot demo_file 8 + 48 = slot demo_file 14"
    by (simp_all add: slot_def)
  show ?thesis
    by (simp add: a get_phdr_def s ld_cell(1,2) [of _ "slot demo_file 8"] file_cells byte_of_def upt_rec)
qed

lemma demo_bytes: "elf_mem 0xffffffc080480078 = 0x93" "elf_mem 0xffffffc080480100 = 0x41" "elf_mem 0xffffffc080480101 = 0"
  using byte_of_cell [of 0 elf_mem "slot demo_file 15"] byte_of_cell [of 0 elf_mem "slot demo_file 32"] byte_of_cell [of 1 elf_mem "slot demo_file 32"]
  unfolding file_cells by (simp_all add: slot_def byte_of_def)

lemma demo_loadable: "loadable elf_mem demo_file = [get_phdr elf_mem (phdr_addr elf_mem demo_file 0)]"
  by (simp add: loadable_def demo_ehdr demo_phdr PT_LOAD_def)

definition demo_code :: part where
  "demo_code = (0x10000, 0x12000, 0x1a, \<lambda>a. file_byte elf_mem 0xffffffc080480078 8 (a - 0x10000))"

lemma demo_parts: "prog_parts elf_mem demo_file = [demo_code]" "prog_end elf_mem demo_file = 0x12000"
  "user_parts elf_mem demo_file = [stack_part, brk_part 0x12000, demo_code]"
  by (simp_all add: user_parts_def prog_parts_def prog_end_def demo_loadable demo_phdr seg_part_def demo_code_def
      segment_perm_def PF_R_def PF_W_def PF_X_def PTE_R_def PTE_W_def PTE_X_def PTE_U_def PGROUNDUP_def PGSIZE_def)

lemma demo_code_pages: "part_pages demo_code = [0x10000, 0x11000]"
  by (simp add: demo_code_def part_pages_def page_range.simps PGSIZE_def)

section \<open>The state\<close>

definition demo_app :: user_app where
  "demo_app = \<lparr>app_name = 0xffffffc080480100, elf_address = demo_file, elf_length = 0x108\<rparr>"

definition exec_base :: kst where "exec_base = clone_base\<lparr>mem := elf_mem, user_apps := [demo_app]\<rparr>"

definition exec_demo :: kst where "exec_demo = space_demo exec_base"

lemmas exec_demo_sel = space_demo_sel [where b = exec_base, folded exec_demo_def]

lemma demo_file_page: "PGALIGNED demo_file" "low_page demo_file" "demo_file \<notin> set space_free" "in_page demo_file x \<Longrightarrow> unat demo_file \<le> unat x"
proof -
  show al: "PGALIGNED demo_file" by (simp add: PGALIGNED_def PGSIZE_def)
  then show "low_page demo_file" by (simp add: low_page_def)
  show "demo_file \<notin> set space_free" using space_free_range [of demo_file] by auto
  show "in_page demo_file x \<Longrightarrow> unat demo_file \<le> unat x" by (simp add: in_page_unat al)
qed

lemma exec_base_idle: "idle exec_base"
proof -
  have "elf_mem x = 0" if "unat x < 0xffffffc080480000" for x
    using elf_mem_only demo_file_page(4) [of x] that by (auto simp: only_in_def)
  then show ?thesis using clone_base_idle by (simp add: idle_def exec_base_def k_ready_def k_free_def)
qed

lemma exec_demo_file: "same_on {demo_file} (mem exec_base) (mem exec_demo)"
proof -
  have "same_on {demo_file} (mem exec_base) (link_pages (mem exec_base) space_free)"
    using link_pages_only [of space_free "mem exec_base"] in_page_disjoint [of demo_file] demo_file_page(1,3) space_free_low(4)
    by (fastforce simp: same_on_def only_in_def)
  moreover have "same_on {demo_file} (link_pages (mem exec_base) space_free) (mem exec_demo)"
    unfolding exec_demo_def by (rule space_same) (simp add: demo_file_page)
  ultimately show ?thesis by (rule same_on_trans)
qed

lemma exec_demo_proc:
  "curr_proc exec_demo = Inr 2" "k_free l exec_demo" "img exec_demo = img clone_base" "user_apps exec_demo = [demo_app]"
  "proc_pool exec_demo 2 = (proc_pool (family_demo SLEEPING) 2)\<lparr>p_mm := 0xfffffffe00000000, p_trapframe := 0xffffffc080402000,
       p_kstack := 0xffffffc0a0000000\<rparr>" "p_state (proc_pool exec_demo 2) = RUNNING"
proof -
  have "curr_proc (family_demo SLEEPING) = Inr 2" using family_demo_call [of SLEEPING] by (simp add: in_call_def)
  then show "curr_proc exec_demo = Inr 2" by (simp add: curr_proc_def exec_demo_sel exec_base_def clone_base_def)
  show "k_free l exec_demo" using exec_base_idle by (simp add: exec_demo_sel idle_def)
  show "img exec_demo = img clone_base" by (simp add: exec_demo_sel exec_base_def)
  show "user_apps exec_demo = [demo_app]" by (simp add: exec_demo_def space_demo_def exec_base_def)
  show p: "proc_pool exec_demo 2 = (proc_pool (family_demo SLEEPING) 2)\<lparr>p_mm := 0xfffffffe00000000, p_trapframe := 0xffffffc080402000,
       p_kstack := 0xffffffc0a0000000\<rparr>" by (simp add: exec_demo_sel exec_base_def clone_base_def)
  show "p_state (proc_pool exec_demo 2) = RUNNING" unfolding p by (simp add: family_demo_def)
qed

lemma demo_file_at: "unat k + unat n \<le> 4096 \<Longrightarrow> file_at {demo_file} (demo_file + k) n"
proof -
  assume kn: "unat k + unat n \<le> 4096"
  have "PGROUNDDOWN (demo_file + k + d) = demo_file" if "d < n" for d
  proof -
    have "unat (k + d) < 4096" using kn that by (simp add: unat_add_no_wrap word_less_nat_alt)
    then have "k + d < PGSIZE" by (simp add: word_less_nat_alt PGSIZE_def)
    then show ?thesis using PGROUNDDOWN_add_small [OF demo_file_page(1)] by (simp add: add.assoc)
  qed
  moreover have "unat (demo_file + k) + unat n < 2 ^ 64" using kn by (simp add: unat_add_no_wrap)
  ultimately show ?thesis by (simp add: file_at_def)
qed

lemma demo_elf_ok: "elf_ok elf_mem {demo_file} demo_file"
  unfolding elf_ok_def demo_ehdr demo_parts
proof (intro conjI)
  show "file_at {demo_file} demo_file 64" using demo_file_at [of 0 64] by simp
  have "phdr_addr elf_mem demo_file 0 = demo_file + 64" by (simp add: phdr_addr_def demo_ehdr)
  then show "\<forall>i < unat (1 :: 16 word). file_at {demo_file} (phdr_addr elf_mem demo_file i) 56" using demo_file_at [of 64 56] by simp
  show "distinct (all_pages [demo_code])" by (simp add: demo_code_pages)
  show "\<forall>ph \<in> set (loadable elf_mem demo_file). seg_fits {demo_file} demo_file ph"
    using demo_file_at [of 120 8]
    by (simp add: demo_loadable demo_phdr seg_fits_def PF_R_def PF_W_def PF_X_def USTACK_START_def USTACK_SIZE_def PGSIZE_def PGALIGNED_def)
qed

section \<open>The call\<close>

lemma vm_only_apps: "vm_only s t \<Longrightarrow> user_apps t = user_apps s"
  by (cases s; cases t) (simp add: vm_only_def)

lemma demo_found:
  assumes apps: "user_apps s = [demo_app]" and so: "same_on {demo_file} (mem exec_base) (mem s)"
  shows "get_elf 0xffffffc080480100 s = Inr (Some demo_app)"
proof -
  have "mem s x = elf_mem x" if "in_page demo_file x" for x using so that by (simp add: same_on_def exec_base_def)
  then have m: "mem s 0xffffffc080480100 = 0x41" "mem s 0xffffffc080480101 = 0"
    by (simp_all add: in_page_unat [OF demo_file_page(1)] demo_bytes)
  have "strlen (mem s) 0xffffffc080480100 = Some 1" using strlen_cstr [of "mem s" "0xffffffc080480100" "[0x41]"] m by simp
  moreover have "strncmp (mem s) 0xffffffc080480100 0xffffffc080480100 1 = 0" by (simp add: strncmp_def)
  ultimately show ?thesis by (simp add: get_elf_def apps k_strlen_def demo_app_def)
qed

text \<open>The process with its page, ready for \<^verbatim>\<open>exec\<close>.\<close>

lemma demo_ready:
  obtains s ps where "mm_mappages 0xfffffffd00000000 exec_demo = Inr (0, s)" "vm_only exec_demo s"
    "exec_ready s 2 ps space_objs {demo_file} demo_file [0xfffffffd00000000]" "same_on {demo_file} (mem exec_base) (mem s)"
    "mm_pgt (mms s 0xfffffffe00000000) = 0xffffffc080401000" "area_pages (vmas s) [0xfffffffd00000000] = [0x1000]"
    "entry (mem s) 0xffffffc080401000 0x1000 AND PTE_V \<noteq> 0"
proof -
  let ?r = "0xffffffc080401000 :: u64" and ?x = "0xfffffffd00000000 :: u64" and ?mm = "0xfffffffe00000000 :: u64" and ?tf = "0xffffffc080402000 :: u64"
  let ?p = "\<lambda>s. page_of (mem s) ?r 0x1000"
  obtain s ps where s: "mm_mappages ?x exec_demo = Inr (0, s)" "vm_only exec_demo s" "world s ps space_objs" "good s ?r ps"
    "tables (mem s) ?r \<subseteq> insert ?r (set space_free)" "set ps \<subseteq> set space_free" "allocs s = space_pool" "\<forall>m. mm_pgt (mms s m) = ?r"
    "vma_chain (vmas s) (mm_vma (mms s ?mm)) [?x]" "vma_pages (vmas s ?x) = [0x1000]" "vma_fits (vmas s ?x)" "user_page s ?r 0x1000"
    "?p s \<in> set space_free" "?p s \<notin> tables (mem s) ?r \<union> set ps" "vma_owner (vmas s ?x) = ?mm" "45 \<le> length ps"
    "adv (insert ?r (set space_free)) exec_demo s ps space_objs"
    "\<forall>va. PGALIGNED va \<longrightarrow> IS_USER_VA va \<longrightarrow> va \<noteq> 0x1000 \<longrightarrow> entry (mem s) ?r va = 0"
    by (rule space_mapped [OF exec_base_idle, folded exec_demo_def]) blast
  note sel = vm_only_sel [OF s(2)]
  have ar: "area_pages (vmas s) [?x] = [0x1000]" by (simp add: area_pages_def s(10))
  have pof: "pages_of s ?r [?x] = [?p s]" by (simp add: pages_of_def ar)
  have low: "low_page ?r" "low_page ?tf" by (simp_all add: low_page_def PGALIGNED_def PGSIZE_def)
  have ap: "apart s P" if "\<forall>t \<in> P. low_page t" for P
    using space_apart [OF that, of exec_base, folded exec_demo_def] by (simp add: apart_def s(7) exec_demo_sel)
  have ap1: "apart s {?p s}" by (rule ap) (use s(13) space_free_low(1) in blast)
  have "own_page s ?r ps 0x1000" using s(12,14) ap1 by (simp add: own_page_def user_page_def apart_def)
  then have own: "own_areas s ?mm ?r ps [?x]" using s(11,15) by (simp add: own_areas_def ar)
  have P: "exec_pages s ?r ps [?x] \<subseteq> insert ?r (set space_free)" using s(5,6,13) by (auto simp: exec_pages_def pof)
  have nf: "demo_file \<noteq> ?r" "?tf \<noteq> ?r" "?tf \<notin> set space_free" by (simp_all add: space_free_mem)
  have out: "{demo_file} \<inter> exec_pages s ?r ps [?x] = {}" "?tf \<notin> exec_pages s ?r ps [?x]" using P nf demo_file_page(3) by auto
  have so: "same_on {demo_file} (mem exec_base) (mem s)"
  proof (rule same_on_trans [OF exec_demo_file])
    show "same_on {demo_file} (mem exec_demo) (mem s)"
      by (rule keptD [OF advD(3) [OF s(17)]]) (use nf demo_file_page space_apart [of "{demo_file}" exec_base, folded exec_demo_def] in auto)
  qed
  have ok0: "elf_ok (mem exec_base) {demo_file} demo_file" using demo_elf_ok by (simp add: exec_base_def)
  note ek = elf_kept [OF so ok0]
  have up: "user_parts (mem s) demo_file = [stack_part, brk_part 0x12000, demo_code]" using ek(2) by (simp add: exec_base_def demo_parts)
  have pg: "length (all_pages (user_parts (mem s) demo_file)) = 10"
    by (simp add: up part_pages_eq(2,3) stack_facts(4) demo_code_pages)
  have card: "3 \<le> card (space_objs Vma_alloc \<union> {?x})"
  proof -
    have "finite (space_objs Vma_alloc)" by (simp add: space_objs_def)
    then have "card (space_objs Vma_alloc) \<le> card (space_objs Vma_alloc \<union> {?x})" by (intro card_mono) auto
    then show ?thesis by (simp add: space_objs_first(3))
  qed
  have en: "entry (mem s) ?r va AND PTE_V = 0" if "PGALIGNED va" "va < USTACK_START" "va \<noteq> 0x1000" for va
  proof -
    have "IS_USER_VA va" using that(2) by (simp add: IS_USER_VA_def MAXVA_def USTACK_START_def word_le_nat_alt word_less_nat_alt)
    then show ?thesis using s(18) that by simp
  qed
  have pm: "page_mapped s q" for q by (simp add: page_mapped_def mapped_def sel exec_demo_sel)
  have cp: "curr_proc s = Inr 2"
  proof -
    have "curr_proc (k_settle u) = curr_proc u" for u by (simp add: curr_proc_def mycpu_def settle_def)
    moreover have "curr_proc (k_settle s) = curr_proc (k_settle exec_demo)" by (simp add: curr_proc_def mycpu_def sel)
    ultimately show ?thesis by (simp add: exec_demo_proc)
  qed
  have pp: "p_mm (proc_pool s 2) = ?mm" "p_trapframe (proc_pool s 2) = ?tf" "p_state (proc_pool s 2) \<noteq> UNUSED"
    using exec_demo_proc(5,6) by (simp_all add: sel(4))
  have "exec_ready s 2 ps space_objs {demo_file} demo_file [?x]"
    unfolding exec_ready_def Let_def pp(1,2) s(8) [rule_format] ar pof
  proof (intro conjI)
    show "k_free (L_proc 2) s" using sel(9) exec_demo_proc(2) by simp
    show "apart s {demo_file}" "apart s {?tf}" by (rule ap; use low demo_file_page in blast)+
    show "apart s (set [?p s])" using ap1 by simp
    show "set [?x] \<subseteq> objects_of s Vma_alloc - space_objs Vma_alloc" using space_objs_first(1,5) s(7) by simp
    show "3 * length (all_pages (user_parts (mem s) demo_file)) \<le> length ps + length [0x1000 :: u64]" using s(16) by (simp add: pg)
    show "length (user_parts (mem s) demo_file) \<le> card (space_objs Vma_alloc \<union> set [?x])" using card by (simp add: up)
    show "p_state (proc_pool s 2) \<noteq> UNUSED" by (rule pp(3))
    show "PGALIGNED ?tf" using low(2) by (simp add: PGALIGNED_def PGSIZE_def)
  qed (use s(3,4,9) own cp out ek(3) en pm demo_file_page(1) in simp_all)
  moreover have "entry (mem s) ?r 0x1000 AND PTE_V \<noteq> 0" using s(12) by (simp add: user_page_def)
  ultimately show thesis using that s(1,2,8) so ar by blast
qed

theorem exec_correct_witness:
  "\<exists>s t. mm_mappages 0xfffffffd00000000 exec_demo = Inr (0, s) \<and> entry (mem s) 0xffffffc080401000 0x1000 AND PTE_V \<noteq> 0 \<and>
    exec 0xffffffc080480100 s = Inr (0, t) \<and> shows_byte t 0xffffffc080401000 0x10000 (0x1a, 0x93) \<and>
    shows_byte t 0xffffffc080401000 0x11000 (0x1a, 0) \<and> shows_byte t 0xffffffc080401000 0xfffefff8 (0x16, 0) \<and>
    entry (mem t) 0xffffffc080401000 0x1000 = 0 \<and> p_state (proc_pool t 2) = RUNNABLE \<and>
    ld64 (mem t) (slot 0xffffffc080402000 3) = 0x10000"
proof -
  let ?r = "0xffffffc080401000 :: u64" and ?mm = "0xfffffffe00000000 :: u64" and ?tf = "0xffffffc080402000 :: u64" and ?x = "0xfffffffd00000000 :: u64"
  obtain s ps where s: "mm_mappages ?x exec_demo = Inr (0, s)" "vm_only exec_demo s"
    "exec_ready s 2 ps space_objs {demo_file} demo_file [?x]" "same_on {demo_file} (mem exec_base) (mem s)"
    "mm_pgt (mms s ?mm) = ?r" "area_pages (vmas s) [?x] = [0x1000]" "entry (mem s) ?r 0x1000 AND PTE_V \<noteq> 0"
    by (rule demo_ready)
  have app: "elf_address demo_app = demo_file" by (simp add: demo_app_def)
  have pp: "?mm = p_mm (proc_pool s 2)" "?r = mm_pgt (mms s ?mm)" "?tf = p_trapframe (proc_pool s 2)"
    using exec_demo_proc(5) s(5) by (simp_all add: vm_only_sel(4) [OF s(2)])
  have ok0: "elf_ok (mem exec_base) {demo_file} demo_file" using demo_elf_ok by (simp add: exec_base_def)
  note ek = elf_kept [OF s(4) ok0]
  have up: "[stack_part, brk_part 0x12000, demo_code] = user_parts (mem s) (elf_address demo_app)"
    and eh: "e_entry (get_ehdr (mem s) (elf_address demo_app)) = 0x10000"
    using ek(1,2) by (simp_all add: app exec_base_def demo_parts demo_ehdr)
  have found: "get_elf 0xffffffc080480100 s = Inr (Some demo_app)"
    by (rule demo_found [OF _ s(4)]) (simp add: vm_only_apps [OF s(2)] exec_demo_proc)
  obtain t brk stk where t: "exec 0xffffffc080480100 s = Inr (0, t)"
    "\<And>va. IS_USER_VA va \<Longrightarrow>
       (case parts_at [stack_part, brk_part 0x12000, demo_code] va of Some r \<Rightarrow> shows_byte t ?r va r
        | None \<Rightarrow> entry (mem t) ?r (PGROUNDDOWN va) =
            (if PGROUNDDOWN va \<in> set (area_pages (vmas s) [?x]) then 0 else entry (mem s) ?r (PGROUNDDOWN va)))"
    "\<forall>i < 512. ld64 (mem t) (slot ?tf i) = (if i = 3 then 0x10000 else if i = 6 then USTACK_START else ld64 (mem s) (slot ?tf i))"
    "proc_pool t = (proc_pool s)(2 := (proc_pool s 2)\<lparr>p_vma_brk := brk, p_vma_ustack := stk, p_state := RUNNABLE\<rparr>)"
    using exec_correct [OF found, unfolded app eh [unfolded app], OF s(3) pp up [unfolded app] refl] by blast
  have pa: "parts_at [stack_part, brk_part 0x12000, demo_code] 0x10000 = Some (0x1a, 0x93)"
    "parts_at [stack_part, brk_part 0x12000, demo_code] 0x11000 = Some (0x1a, 0)"
    "parts_at [stack_part, brk_part 0x12000, demo_code] 0xfffefff8 = Some (0x16, 0)"
    "parts_at [stack_part, brk_part 0x12000, demo_code] 0x1000 = None"
    using demo_bytes(1)
    by (simp_all add: stack_part_def brk_part_def demo_code_def USTACK_START_def USTACK_SIZE_def PGSIZE_def file_byte_def
        rw_user_def PTE_R_def PTE_W_def PTE_U_def)
  have u: "IS_USER_VA 0x10000" "IS_USER_VA 0x11000" "IS_USER_VA 0xfffefff8" "IS_USER_VA 0x1000" by (simp_all add: IS_USER_VA_def MAXVA_def)
  have "PGROUNDDOWN 0x1000 = 0x1000" by (simp add: PGROUNDDOWN_def PGSIZE_def)
  then have "entry (mem t) ?r 0x1000 = 0" using t(2) [OF u(4)] by (simp add: pa s(6))
  moreover have "shows_byte t ?r 0x10000 (0x1a, 0x93)" "shows_byte t ?r 0x11000 (0x1a, 0)" "shows_byte t ?r 0xfffefff8 (0x16, 0)"
    using t(2) [OF u(1)] t(2) [OF u(2)] t(2) [OF u(3)] unfolding pa by simp_all
  moreover have "p_state (proc_pool t 2) = RUNNABLE" by (simp add: t(4))
  moreover have "(3 :: u64) < 512" by simp
  then have "ld64 (mem t) (slot ?tf 3) = 0x10000" using t(3) by simp
  ultimately show ?thesis using s(1,7) t(1) by blast
qed

end
