(* ===== verification/Spec2Isabelle.thy ===== *)
theory Spec2Isabelle imports Boot KvmInit ReadLine Faults Spinlock ExecDemo begin

text \<open>
  \<^bold>\<open>A verification development for uCore-VisionFive2\<close>

  The program is a small operating-system kernel for RISC-V (the directory \<^verbatim>\<open>os/\<close>): it boots several
  CPUs, builds an Sv39 page table for itself, and runs user processes in their own address spaces, with a
  ready queue that all CPUs share, a console on a UART, and the system calls \<^verbatim>\<open>read\<close>, \<^verbatim>\<open>write\<close>, \<^verbatim>\<open>exit\<close>,
  \<^verbatim>\<open>sched_yield\<close>, \<^verbatim>\<open>gettimeofday\<close>, \<^verbatim>\<open>getpid\<close>, \<^verbatim>\<open>getppid\<close>, \<^verbatim>\<open>clone\<close>, \<^verbatim>\<open>execve\<close>, \<^verbatim>\<open>wait4\<close>, \<^verbatim>\<open>spawn\<close> and \<^verbatim>\<open>sbrk\<close>.

  \<^bold>\<open>The model.\<close> A routine of the kernel is a function from the state to \<open>halt + result\<close>: \<open>Inr\<close> of what it
  returns together with the new state, or \<open>Inl\<close> of why it does not return: \<open>Panic\<close> (a call of \<^verbatim>\<open>panic\<close> or
  a failed \<^verbatim>\<open>assert\<close>), \<open>Page_fault\<close> (a load or store the kernel's page table does not allow; its trap
  handler panics), \<open>Spin\<close> (a loop that waits for something that no longer happens), or \<open>Undefined\<close>.
  \<open>kbind\<close> is the sequencing, \<open>kfold\<close> the loop over a fixed range. Machine integers are words of their
  width, so that every wrap-around is there. The state \<open>kst\<close> (theory \<open>KState\<close>) has the memory as a map
  from addresses to bytes, with page tables, trap frames, the free list of pages and the bitmaps of the
  object pools in it; the objects of the pools (\<^verbatim>\<open>struct mm\<close>, \<^verbatim>\<open>struct vma\<close>) in stores of their own, indexed
  by address; the processes, indexed by their place in the array \<^verbatim>\<open>pool\<close>; the CPUs and the locks; the
  ready queue; the console; and what the devices have been given and will give. Names are those of the
  code; a loop or a part of a function that is a definition of its own has the function's name with a
  suffix (\<open>mm_copy_loop\<close>).

  \<^bold>\<open>The theories\<close>, from the bottom:

  \<^item> \<open>Prelude\<close>: words, results, sequencing, and lemmas on lists and words. \<open>Riscv\<close>: the macros for pages and
    page-table entries (\<^verbatim>\<open>riscv.h\<close>, \<^verbatim>\<open>memlayout.h\<close>, \<^verbatim>\<open>vm.h\<close>).
  \<^item> \<open>Lock\<close>: \<^verbatim>\<open>lock.c\<close> and \<^verbatim>\<open>smp.c\<close>, \<^verbatim>\<open>acquire\<close> and \<^verbatim>\<open>release\<close> as one step each; the locale \<open>mutex\<close> is the
    contract that the clients of the locks use. Lemmas: what the two routines do, in any nesting (C1), and
    what the check of the owner does for every state of a lock (C2). \<open>Spinlock\<close>: the same code with every
    access to the lock a step of its own and the CPUs interleaved in any order: mutual exclusion (C25), progress (C26), and agreement with \<open>Lock\<close> (C27).
  \<^item> \<open>Fifo\<close> (the locale of a bounded queue) and \<open>Queue\<close>: \<^verbatim>\<open>queue.c\<close>, a ring buffer that refines it (C3).
  \<^item> \<open>Mem\<close> (bytes, words in memory, pages) and \<open>CString\<close>: \<^verbatim>\<open>string.c\<close> (C4 to C6).
  \<^item> \<open>KState\<close>: the state, locks and memory accesses in it, loops over a range of pages.
  \<^item> \<open>Pool\<close> (the locale of an allocator), \<open>Kalloc\<close> (pages) and \<open>ObjAlloc\<close> (objects): \<^verbatim>\<open>kalloc.c\<close>. Any sequence of
    allocations and frees by a client refines a set of what is held (C7, C9); initialisation (C8).
    Misuse of \<^verbatim>\<open>kfree\<close> is the lemma \<open>kfree_misuse\<close>. What an empty list of pages gives is the lemma \<open>kallocpage_exhausted\<close>.
  \<^item> \<open>PageTree\<close>: page tables as a tree, for any test \<open>ptr\<close> of which entries point to a further table, and what
    adding a table or writing an entry does to it; the locale \<open>page_tree\<close>. The tables of user address spaces
    (\<open>PageTable\<close>: every valid entry above the last level) and that of the kernel (\<open>KTree\<close>: a valid entry
    that grants nothing) are its two instances.
  \<^item> \<open>PageTable\<close>, \<open>Vm\<close>, \<open>VmSpec\<close>, \<open>VmProps\<close>, \<open>VmCopy\<close>, \<open>VmCreate\<close>, \<open>VmFree\<close>: \<^verbatim>\<open>vm.c\<close>. \<open>Vm\<close> has the operations;
    \<open>PageTable\<close> and \<open>VmSpec\<close> the abstraction, a tree of tables with the leaf entry of every address (\<open>entry\<close>),
    and the invariant \<open>vm_ok\<close> (the tables are mapped pages, none of them free, none used twice); the others
    show that translation, the allocating walk, mapping, unmapping (C10 to C13), copying (C14) and freeing
    (C33) an address space do to \<open>entry\<close>, to memory and to the allocators what they promise. \<open>VmCreate\<close> has what a
    new address space needs, and what making one leaves of all others. \<open>VmDemo\<close> is the example that several
    properties are applied to.
  \<^item> \<open>Uaccess\<close>: \<^verbatim>\<open>uaccess.c\<close>; the copies between kernel and user memory, on pages that need not be adjacent
    (C17 to C19). The loop that the two directions share is the locale \<open>user_copy\<close>.
  \<^item> \<open>Uart\<close>: the devices, \<^verbatim>\<open>plic.c\<close>, \<^verbatim>\<open>timer.c\<close>, \<^verbatim>\<open>sbi.c\<close>, the control registers. \<open>Printf\<close>: \<^verbatim>\<open>printf.c\<close>; a call prints
    the texts of the items of its message (C20), and numbers read back (C21). \<open>PtPrint\<close> and \<open>Debug\<close>: \<^verbatim>\<open>debug.c\<close>; \<open>PtPrint\<close>
    has \<^verbatim>\<open>vm_print\<close>, which \<open>Vm\<close> calls too.
  \<^item> \<open>Task\<close>: \<^verbatim>\<open>sched.c\<close> and the parts of \<^verbatim>\<open>proc.c\<close> that sleep and wake. \<open>Console\<close>: \<^verbatim>\<open>console.c\<close>. \<open>Process\<close>: the rest of
    \<^verbatim>\<open>proc.c\<close>. \<open>Loader\<close>: \<^verbatim>\<open>loader.c\<close>, the structures of \<^verbatim>\<open>elf.h\<close>, and \<^verbatim>\<open>exec\<close>. \<open>Syscall\<close>: \<^verbatim>\<open>syscall.c\<close>. \<open>Trap\<close>:
    \<^verbatim>\<open>trap.c\<close>. \<open>Kvm\<close>: \<^verbatim>\<open>kvm.c\<close> and the initialisation of the pools. \<open>Boot\<close>: \<^verbatim>\<open>main.c\<close>.
  \<^item> \<open>KTree\<close>, \<open>KvmRange\<close>, \<open>KvmMap\<close>, \<open>KvmInit\<close>: the kernel's own page table. \<open>kernel_trans\<close> is what the MMU makes of
    it. \<open>kvmmap\<close>, with pages of 4 KiB and of 2 MiB, maps exactly its range and takes exactly the tables that
    were missing (C15); where it takes them from is the locale \<open>page_source\<close>, with the pages after the image
    and the page allocator as its instances. \<open>kernel_layout\<close> is the kernel's address space as a list of
    regions, and after \<open>kvm_init\<close> the MMU translates exactly these (C16).
  \<^item> \<open>View\<close>, \<open>Sched\<close>, \<open>SchedCalls\<close>, \<open>Steps\<close>: the scheduler. \<open>view\<close> is what of the state matters to scheduling, and
    \<open>view_rules\<close> has a rule for each routine of the kernel that says what it does to it. \<open>kernel_step\<close> is
    the kernel as a transition system over all CPUs. In every reachable state the queue and the states of
    the processes agree (C38), processes are picked in the order in which they became ready (C39), and a
    CPU with something to do does it (C40).
  \<^item> \<open>Wakeup\<close> (C22), \<open>LineEdit\<close> (the console's line editor, from a received byte to the processes that wait
    for a line: C23, C24), \<open>ReadLine\<close> (what \<^verbatim>\<open>read\<close> takes out of it: C34), \<open>Calls\<close> (a system call from trap to
    return, with the whole state after it: C28; the time, as the bytes that the process finds: C29), \<open>Family\<close> (\<^verbatim>\<open>exit\<close>, \<^verbatim>\<open>wait\<close>: C30 to C32), \<open>NewProc\<close> (\<^verbatim>\<open>allocproc\<close>) and \<open>Fork\<close> (C35, with its
    example in \<open>CloneDemo\<close>), \<open>Exec\<close> (C36), \<open>Faults\<close> (page faults of user processes: C37): total correctness of single routines.
  \<^item> \<open>Segments\<close>, \<open>Program\<close>, \<open>LoadElf\<close>, \<open>UserImage\<close>: what loading a program does, for \<open>Exec\<close>. A \<open>part\<close> is an area with
    permissions and contents; \<open>user_parts\<close> reads off the ELF file which parts the program has, \<open>parts_at\<close> which byte
    and which permissions an address has in them, and \<open>stage\<close> says that an address space has exactly these parts.
    \<open>Segments\<close> has one area filled from the file, \<open>LoadElf\<close> one segment and the loop over the headers, \<open>UserImage\<close>
    \<^verbatim>\<open>load_user_elf\<close> as a whole (\<open>load_user_elf_ok\<close>). \<open>ExecDemo\<close> has a file of concrete bytes.

  \<^bold>\<open>Context switches.\<close> A function that calls \<^verbatim>\<open>swtch\<close> is cut there: \<open>sched_out\<close> is \<^verbatim>\<open>sched\<close> up to the switch and
  \<open>sched_back\<close> what follows it, and so for its callers. The saved context of a process is a value of the
  type \<open>kont\<close>, which names the call to go on with and has the locals that call still needs. A step of a CPU
  runs from the idle loop or from user mode to the next such point; the steps of the CPUs are interleaved,
  in \<open>kernel_run\<close>, in any order. The code between two such points is one step: two CPUs inside the kernel at
  the same time are not interleaved, and no interrupt comes during a system call. What the locks have
  to do for that is the subject of \<open>Spinlock\<close>. A lock that is not free is therefore held by a CPU that
  will never release it, and \<^verbatim>\<open>acquire\<close> gives \<open>Spin\<close>.

  \<^bold>\<open>Bounds and fuel.\<close> The recursion on the list of areas of an address space has \<open>vma_rounds = 16385\<close> rounds, one
  more than the pool of areas has objects; a longer list has a cycle, and the loop does not end. The
  loop of \<^verbatim>\<open>uart_intr\<close> has one round more than there are bytes to read. Both give \<open>Spin\<close> when the fuel
  is used up, and C14, C33 and C24 show that it is not. All other loops are structural or have a measure. While the
  kernel's page table is built, only the 512 pages of the first 2 MiB after the image are accessible; C16 shows that
  this is enough, since at most 127 pages are taken.

  \<^bold>\<open>Parameters.\<close> Code that is not in the repository, or is assembly, appears as a part of the state or an
  argument: the addresses of the linker script (\<open>img\<close>), the table of user programs (\<open>user_apps\<close>), the answers of
  the firmware to the request to start a hart (the argument \<open>hsm\<close> of \<open>start_hart\<close>), the stack pointers of
  the harts, the value of \<^verbatim>\<open>sip\<close> that is printed, and the address of the array on the kernel stack that a
  system call copies to or from (\<open>local_buf\<close>). The user programs can change user memory and registers in any way
  (\<open>environment\<close>).

  \<^bold>\<open>Simplifications.\<close> The macros of \<^verbatim>\<open>log.h\<close> that print are left out, \<^verbatim>\<open>panic\<close> is the end of the run. The
  transmitter of the UART becomes idle at once. \<^verbatim>\<open>print_lock\<close> is taken and released within one call of
  \<^verbatim>\<open>printf\<close>. The counter \<^verbatim>\<open>noff\<close> of the locks that a CPU holds is an unbounded integer; the \<^verbatim>\<open>int\<close> of the code would
  overflow only with \<open>2 ^ 31\<close> of them. The bytes with which \<^verbatim>\<open>kalloc\<close> and \<^verbatim>\<open>kfree\<close> fill an object are written to memory, but not
  to the stores of \<^verbatim>\<open>struct mm\<close> and \<^verbatim>\<open>struct vma\<close>: every routine that takes an object clears it, and none uses one that it has
  given back. \<^verbatim>\<open>kalloc\<close> panics when a pool is empty, so that it never gives a null object. \<open>kmap\<close> says which addresses
  the kernel's page table maps readable and writable; it is read off the tables at each \<^verbatim>\<open>sfence_vma\<close> of \<open>Kvm\<close>.
  The strings that the kernel only compares or prints are read without that test. Fields of a null \<^verbatim>\<open>mm\<close> or
  \<^verbatim>\<open>vma\<close> read as the store has them. Reads of one process's fields by another CPU are of the last value
  stored. The fields of a lock that are only for debugging are left out.

  \<^bold>\<open>Not modelled.\<close> The SD-card driver in \<^verbatim>\<open>os/drivers\<close> is third-party code that nothing calls. The assembly files
  (entry, \<^verbatim>\<open>swtch\<close>, the trampoline, the trap entry) are not in C. Of \<^verbatim>\<open>main.c\<close>, \<^verbatim>\<open>bootcpu_entry\<close>, which clears
  the bss and sets the number of the first CPU, is the initial state. Of \<^verbatim>\<open>sbi.c\<close> the calls that nothing uses
  are left out. Of \<^verbatim>\<open>elf.h\<close> and \<^verbatim>\<open>syscall_ids.h\<close> the model has what the kernel reads.
\<close>

end
